(* ===== verification/Prelude.thy ===== *)
theory Prelude
  imports Main "HOL-Library.Word" "HOL-Library.AList" "HOL-Library.Sublist"
    "HOL-Library.Monad_Syntax" "HOL-Library.Signed_Division"
begin

text \<open>
  Shared vocabulary of the development: the machine words of the source and the generic lemmas
  on words and lists that the components use.
\<close>

unbundle bit_operations_syntax

abbreviation LLAMA_MAX_SEQ :: nat where
  "LLAMA_MAX_SEQ \<equiv> 256"

type_synonym u8 = "8 word"
type_synonym u32 = "32 word"
type_synonym u64 = "64 word"

text \<open>Signed 32-bit arithmetic on integers: \<open>i32\<close> wraps a result, \<open>i32_ok\<close> says that it did not have to.\<close>

definition i32 :: "int \<Rightarrow> int" where
  "i32 x = (x + 2147483648) mod 4294967296 - 2147483648"

definition i32_ok :: "int \<Rightarrow> bool" where
  "i32_ok x \<longleftrightarrow> -2147483648 \<le> x \<and> x \<le> 2147483647"

lemma i32_id [simp]: "i32_ok x \<Longrightarrow> i32 x = x"
  by (simp add: i32_def i32_ok_def)

lemma i32_ok_i32 [simp]: "i32_ok (i32 x)"
  using pos_mod_bound [of 4294967296 "x + 2147483648"] pos_mod_sign [of 4294967296 "x + 2147483648"]
  by (simp add: i32_def i32_ok_def)

lemma xor_xor_cancel [simp]: "(a::'a::len word) XOR (a XOR b) = b"
  by (simp add: xor.assoc [symmetric])

lemma xor_left_cancel [simp]: "(a::'a::len word) XOR b = a XOR c \<longleftrightarrow> b = c"
proof
  assume "a XOR b = a XOR c"
  then have "a XOR (a XOR b) = a XOR (a XOR c)" by (rule arg_cong)
  then show "b = c" by simp
qed simp

lemma xor_right_cancel [simp]: "(b::'a::len word) XOR a = c XOR a \<longleftrightarrow> b = c"
  by (simp add: xor.commute [of _ a])

lemma xor_eq_0_iff: "(a::'a::len word) XOR b = 0 \<longleftrightarrow> a = b"
  using xor_left_cancel [of a b a] by auto

lemma xor_eq_self_iff [simp]: "(a::'a::len word) XOR b = a \<longleftrightarrow> b = 0"
  using xor_left_cancel [of a b 0] by simp

text \<open>Folding a list into a word by exclusive or: the shape of every xor witness.\<close>

lemma fold_xor_acc:
  "fold (\<lambda>x acc. acc XOR f x) xs (a :: 'w::len word) = a XOR fold (\<lambda>x acc. acc XOR f x) xs 0"
proof (induction xs arbitrary: a)
  case (Cons x xs)
  show ?case
    using Cons.IH [of "a XOR f x"] Cons.IH [of "f x"] by (simp add: xor.assoc)
qed simp

lemma fold_xor_append:
  "fold (\<lambda>x acc. acc XOR f x) (xs @ ys) (a :: 'w::len word) =
   fold (\<lambda>x acc. acc XOR f x) xs a XOR fold (\<lambda>x acc. acc XOR f x) ys 0"
  by (simp, subst fold_xor_acc, simp)

lemma fold_xor_update:
  assumes "i < length xs"
  shows "fold (\<lambda>x acc. acc XOR f x) (xs[i := y]) (a :: 'w::len word) =
         fold (\<lambda>x acc. acc XOR f x) xs a XOR (f (xs ! i) XOR f y)"
  using assms
proof (induction xs arbitrary: i a)
  case (Cons x xs)
  show ?case
  proof (cases i)
    case 0
    then show ?thesis
      using fold_xor_acc [of f xs "a XOR f y"] fold_xor_acc [of f xs "a XOR f x"]
      by (simp add: ac_simps)
  next
    case (Suc j)
    then show ?thesis using Cons by simp
  qed
qed simp

lemma enumerate_update:
  "i < length xs \<Longrightarrow> enumerate k (xs[i := y]) = (enumerate k xs)[i := (k + i, y)]"
proof (induction xs arbitrary: i k)
  case (Cons x xs)
  then show ?case by (cases i) simp_all
qed simp

section \<open>Aborting code\<close>

text \<open>
  \<^verbatim>\<open>assert\<close>, \<^verbatim>\<open>GGML_ASSERT\<close>, \<^verbatim>\<open>GGML_ABORT\<close> and reads outside an array end the run: such code
  returns \<open>None\<close>. A loop that may abort is \<open>foldM\<close>.
\<close>

definition assert_opt :: "bool \<Rightarrow> unit option" where
  "assert_opt b = (if b then Some () else None)"

lemma bind_assert_opt [simp]: "Option.bind (assert_opt b) f = (if b then f () else None)"
  by (simp add: assert_opt_def)

fun foldM :: "('a \<Rightarrow> 's \<Rightarrow> 's option) \<Rightarrow> 'a list \<Rightarrow> 's \<Rightarrow> 's option" where
  "foldM f [] s = Some s"
| "foldM f (x # xs) s = (case f x s of None \<Rightarrow> None | Some s' \<Rightarrow> foldM f xs s')"

lemma foldM_append:
  "foldM f (xs @ ys) s = (case foldM f xs s of None \<Rightarrow> None | Some s' \<Rightarrow> foldM f ys s')"
  by (induction xs arbitrary: s) (simp_all split: option.split)

lemma foldM_cong:
  "(\<And>x s. x \<in> set xs \<Longrightarrow> f x s = g x s) \<Longrightarrow> foldM f xs s = foldM g xs s"
  by (induction xs arbitrary: s) (simp_all split: option.split)

text \<open>Total correctness of an aborting loop: an invariant indexed by the part already done.\<close>

lemma foldM_inv:
  assumes "P [] s"
    and "\<And>ds x todo s. xs = ds @ x # todo \<Longrightarrow> P ds s \<Longrightarrow> \<exists>s'. f x s = Some s' \<and> P (ds @ [x]) s'"
  shows "\<exists>s'. foldM f xs s = Some s' \<and> P xs s'"
proof -
  have "\<exists>s'. foldM f todo s = Some s' \<and> P xs s'" if "xs = ds @ todo" and "P ds s" for ds todo s
    using that
  proof (induction todo arbitrary: ds s)
    case (Cons x todo)
    with assms(2) obtain s' where s': "f x s = Some s'" and P: "P (ds @ [x]) s'" by blast
    from Cons.IH [of "ds @ [x]", OF _ P] Cons.prems(1) s' show ?case by simp
  qed simp
  from this [of "[]" xs s] assms(1) show ?thesis by simp
qed

text \<open>The index loop \<^verbatim>\<open>for (i = 0; i < n; ++i)\<close>.\<close>

lemma foldM_upt_inv:
  assumes "P 0 s"
    and "\<And>i s. i < n \<Longrightarrow> P i s \<Longrightarrow> \<exists>s'. f i s = Some s' \<and> P (Suc i) s'"
  shows "\<exists>s'. foldM f [0..<n] s = Some s' \<and> P n s'"
proof -
  have "\<exists>s'. foldM f [0..<m] s = Some s' \<and> P m s'" if "m \<le> n" for m
    using that
  proof (induction m)
    case (Suc m)
    then obtain s' where "foldM f [0..<m] s = Some s'" and "P m s'" by auto
    with assms(2) [of m s'] Suc.prems show ?case by (auto simp: foldM_append)
  qed (simp add: assms(1))
  then show ?thesis by simp
qed

lemma fold_upt_inv:
  assumes "P 0 s" and "\<And>i s. i < n \<Longrightarrow> P i s \<Longrightarrow> P (Suc i) (f i s)"
  shows "P n (fold f [0..<n] s)"
proof -
  have "P m (fold f [0..<m] s)" if "m \<le> n" for m
    using that
  proof (induction m)
    case (Suc m)
    then have "P m (fold f [0..<m] s)" by simp
    with assms(2) [of m "fold f [0..<m] s"] Suc.prems show ?case by simp
  qed (simp add: assms(1))
  then show ?thesis by simp
qed

lemma fold_range_inv:
  "a \<le> n \<Longrightarrow> P a s \<Longrightarrow> (\<And>i s. a \<le> i \<Longrightarrow> i < n \<Longrightarrow> P i s \<Longrightarrow> P (Suc i) (f i s)) \<Longrightarrow> P n (fold f [a..<n] s)"
  by (induction n rule: dec_induct) simp_all

lemma eq_list_update_self [simp]: "xs ! i = x \<Longrightarrow> xs = xs[i := x]"
  by (metis list_update_id)

definition vec_resize :: "nat \<Rightarrow> 'a \<Rightarrow> 'a list \<Rightarrow> 'a list" where
  "vec_resize n d xs = take n xs @ replicate (n - length xs) d"

lemma length_vec_resize [simp]: "length (vec_resize n d xs) = n"
  by (simp add: vec_resize_def)

end
