(* ===== verification/Checksum.thy ===== *)
theory Checksum
  imports Prelude
begin

text \<open>
  The contract of an incremental checksum, as the audit components rely on it: a state that
  is extended by byte runs, where cutting the input into runs does not matter. The second
  locale adds what makes a checksum useful for integrity: the state is never forgotten, and
  two different runs of at most \<open>w\<close> bytes are told apart.
\<close>

locale rolling_checksum =
  fixes extend :: "'s \<Rightarrow> 'b list \<Rightarrow> 's"
  assumes extend_nil: "extend s [] = s"
    and extend_append: "extend s (xs @ ys) = extend (extend s xs) ys"
begin

lemma extend_chunks: "fold (\<lambda>chunk s. extend s chunk) chunks s = extend s (concat chunks)"
  by (induction chunks arbitrary: s) (simp_all add: extend_nil extend_append)

end

locale burst_checksum = rolling_checksum extend
  for extend :: "'s \<Rightarrow> 'b list \<Rightarrow> 's" +
  fixes w :: nat
  assumes state_inj: "extend s xs = extend t xs \<Longrightarrow> s = t"
    and window_inj: "length xs = length ys \<Longrightarrow> length xs \<le> w \<Longrightarrow>
       extend s xs = extend s ys \<Longrightarrow> xs = ys"
begin

lemma burst_detected:
  assumes "length xs = length ys" and "length xs \<le> w" and "xs \<noteq> ys"
  shows "extend s (pre @ xs @ post) \<noteq> extend s (pre @ ys @ post)"
proof
  assume "extend s (pre @ xs @ post) = extend s (pre @ ys @ post)"
  then have "extend (extend s pre) xs = extend (extend s pre) ys"
    by (metis extend_append state_inj)
  with assms window_inj show False by blast
qed

lemma byte_change_detected:
  assumes "1 \<le> w" and "i < length xs" and "xs ! i \<noteq> b"
  shows "extend s (xs[i := b]) \<noteq> extend s xs"
proof -
  have "xs = take i xs @ [xs ! i] @ drop (Suc i) xs"
    using assms(2) by (simp add: id_take_nth_drop)
  moreover have "xs[i := b] = take i xs @ [b] @ drop (Suc i) xs"
    using assms(2) by (simp add: upd_conv_take_nth_drop)
  ultimately show ?thesis
    using burst_detected [of "[b]" "[xs ! i]" s "take i xs" "drop (Suc i) xs"] assms by simp
qed

end

end
