(* ===== verification/Crc32c.thy ===== *)
theory Crc32c
  imports Checksum
begin

text \<open>
  \<^verbatim>\<open>common/crc32c.cpp\<close>: the table-driven CRC-32C. The lookup table is a global that the first
  call fills in; \<open>crc_globals\<close> is that global state, and \<open>crc32c_extend_run\<close> is one call,
  from a state to a state. The bitwise register \<open>crc_byte\<close> is the reference it is compared with.
\<close>

section \<open>Definitions\<close>

definition kCrc32cPolynomial :: u32 where
  "kCrc32cPolynomial = 0x82f63b78"

text \<open>One turn of the inner loop of \<^verbatim>\<open>init_table\<close>.\<close>

definition crc_bit_step :: "u32 \<Rightarrow> u32" where
  "crc_bit_step crc =
     (if crc AND 1 \<noteq> 0 then drop_bit 1 crc XOR kCrc32cPolynomial else drop_bit 1 crc)"

record crc_globals =
  g_table :: "u32 list"
  g_table_init :: bool

text \<open>Static storage: zeroed table, flag false.\<close>

definition crc_globals0 :: crc_globals where
  "crc_globals0 = \<lparr>g_table = replicate 256 0, g_table_init = False\<rparr>"

definition init_table :: "crc_globals \<Rightarrow> crc_globals" where
  "init_table g =
     g\<lparr>g_table := map (\<lambda>i. (crc_bit_step ^^ 8) (of_nat i)) [0..<256], g_table_init := True\<rparr>"

definition crc32c_extend_run :: "crc_globals \<Rightarrow> u32 \<Rightarrow> u8 list \<Rightarrow> u32 \<times> crc_globals" where
  "crc32c_extend_run g crc data =
     (let g = (if \<not> g_table_init g then init_table g else g);
          crc = fold (\<lambda>b crc. g_table g ! unat ((crc XOR ucast b) AND 0xff) XOR drop_bit 8 crc)
                  data (NOT crc)
      in (NOT crc, g))"

text \<open>The value a call returns, seen from the state of a fresh process.\<close>

definition crc32c_extend :: "u32 \<Rightarrow> u8 list \<Rightarrow> u32" where
  "crc32c_extend crc data = fst (crc32c_extend_run crc_globals0 crc data)"

definition crc32c_finalize :: "u32 \<Rightarrow> u32" where
  "crc32c_finalize crc = crc"

definition crc32c_compute :: "u8 list \<Rightarrow> u32" where
  "crc32c_compute data = crc32c_finalize (crc32c_extend 0 data)"

text \<open>The states the global can be in, and the bitwise reference.\<close>

definition crc_globals_ok :: "crc_globals \<Rightarrow> bool" where
  "crc_globals_ok g \<longleftrightarrow> (g_table_init g \<longrightarrow> g_table g = g_table (init_table g))"

definition crc_byte :: "u8 \<Rightarrow> u32 \<Rightarrow> u32" where
  "crc_byte b crc = (crc_bit_step ^^ 8) (crc XOR ucast b)"

section \<open>The register is linear and loses nothing\<close>

lemma and_one_iff: "(x::u32) AND 1 \<noteq> 0 \<longleftrightarrow> bit x 0"
  by (simp add: and_one_eq odd_iff_mod_2_eq_one bit_0)

lemma crc_bit_step_alt:
  "crc_bit_step x = drop_bit 1 x XOR (if bit x 0 then kCrc32cPolynomial else 0)"
  by (simp add: crc_bit_step_def and_one_iff)

lemma crc_bit_step_xor: "crc_bit_step (a XOR b) = crc_bit_step a XOR crc_bit_step b"
  unfolding crc_bit_step_alt
  by (rule bit_word_eqI) (auto simp: bit_xor_iff bit_drop_bit_eq)

lemma crc_bit_steps_xor:
  "(crc_bit_step ^^ n) (a XOR b) = (crc_bit_step ^^ n) a XOR (crc_bit_step ^^ n) b"
  by (induction n) (simp_all add: crc_bit_step_xor)

lemma crc_bit_step_even: "\<not> bit x 0 \<Longrightarrow> crc_bit_step x = drop_bit 1 x"
  by (simp add: crc_bit_step_alt)

lemma crc_bit_steps_low_zero:
  "(\<And>k. k < n \<Longrightarrow> \<not> bit x k) \<Longrightarrow> (crc_bit_step ^^ n) x = drop_bit n x"
proof (induction n)
  case 0
  then show ?case by simp
next
  case (Suc n)
  then have IH: "(crc_bit_step ^^ n) x = drop_bit n x" by simp
  have "\<not> bit (drop_bit n x) 0" using Suc.prems[of n] by (simp add: bit_drop_bit_eq)
  then show ?case by (simp add: IH crc_bit_step_even)
qed

lemma poly_bit31: "bit kCrc32cPolynomial 31"
  by (simp add: kCrc32cPolynomial_def)

lemma crc_bit_step_eq_0: "crc_bit_step x = 0 \<Longrightarrow> x = 0"
proof -
  assume z: "crc_bit_step x = 0"
  have "bit (crc_bit_step x) 31 = bit x 0"
    using poly_bit31
    by (auto simp: crc_bit_step_alt bit_xor_iff bit_drop_bit_eq dest: bit_imp_le_length)
  with z have b0: "\<not> bit x 0" by simp
  with z have d: "drop_bit 1 x = 0" by (simp add: crc_bit_step_alt)
  show "x = 0"
  proof (rule bit_word_eqI)
    fix n
    show "bit x n = bit 0 n"
    proof (cases n)
      case 0
      then show ?thesis using b0 by simp
    next
      case (Suc m)
      have "bit (drop_bit 1 x) m = False" using d by simp
      then show ?thesis using Suc by (simp add: bit_drop_bit_eq)
    qed
  qed
qed

lemma crc_bit_step_inj: "crc_bit_step a = crc_bit_step b \<longleftrightarrow> a = b"
  by (metis crc_bit_step_eq_0 crc_bit_step_xor xor_eq_0_iff)

lemma crc_bit_steps_inj: "(crc_bit_step ^^ n) a = (crc_bit_step ^^ n) b \<longleftrightarrow> a = b"
  by (induction n) (simp_all add: crc_bit_step_inj)

section \<open>The table lookup is eight turns of the register\<close>

lemma init_table_nth: "i < 256 \<Longrightarrow> g_table (init_table g) ! i = (crc_bit_step ^^ 8) (of_nat i)"
  by (simp add: init_table_def)

lemma ff_mask: "(0xff :: u32) = mask 8"
  by (simp add: mask_eq_exp_minus_1)

lemma bit_mask8: "bit (mask 8 :: u32) k \<longleftrightarrow> k < 8"
  by (auto simp: bit_mask_iff)

lemma xor_low_high: "(x::u32) = (x AND mask 8) XOR (x AND NOT (mask 8))"
  by (rule bit_word_eqI) (auto simp: bit_xor_iff bit_and_iff bit_not_iff)

lemma bit_ucast_u8: "bit (ucast (b::u8) :: u32) k \<longleftrightarrow> bit b k \<and> k < 8"
  by (auto simp: bit_ucast_iff dest: bit_imp_le_length)

lemma table_step:
  assumes "g_table g = g_table (init_table g)"
  shows "g_table g ! unat ((crc XOR ucast (b::u8)) AND 0xff) XOR drop_bit 8 crc = crc_byte b crc"
proof -
  let ?x = "crc XOR ucast b :: u32"
  have "?x AND 0xff \<le> 0xff" by (rule word_and_le1)
  then have "unat (?x AND 0xff) \<le> 255" by (simp add: word_le_nat_alt)
  then have lo: "g_table g ! unat (?x AND 0xff) = (crc_bit_step ^^ 8) (?x AND mask 8)"
    by (simp only: assms) (simp add: init_table_nth ff_mask)
  have "(crc_bit_step ^^ 8) (?x AND NOT (mask 8)) = drop_bit 8 (?x AND NOT (mask 8))"
    by (rule crc_bit_steps_low_zero) (auto simp only: bit_and_iff bit_not_iff bit_mask8)
  also have "\<dots> = drop_bit 8 crc"
    by (rule bit_word_eqI)
       (auto simp only: bit_drop_bit_eq bit_and_iff bit_not_iff bit_mask8 bit_xor_iff bit_ucast_u8
                o_def dest: bit_imp_possible_bit bit_imp_le_length)
  finally have hi: "(crc_bit_step ^^ 8) (?x AND NOT (mask 8)) = drop_bit 8 crc" .
  have "crc_byte b crc = (crc_bit_step ^^ 8) ((?x AND mask 8) XOR (?x AND NOT (mask 8)))"
    unfolding crc_byte_def using xor_low_high [of ?x] by (rule arg_cong)
  then show ?thesis by (simp only: crc_bit_steps_xor lo hi)
qed

lemma crc32c_extend_run_eq:
  assumes "crc_globals_ok g"
  shows "fst (crc32c_extend_run g crc data) = NOT (fold crc_byte data (NOT crc))"
proof -
  let ?g = "if \<not> g_table_init g then init_table g else g"
  have "g_table ?g = g_table (init_table ?g)"
    using assms by (simp add: crc_globals_ok_def init_table_def)
  then have "(\<lambda>b crc. g_table ?g ! unat ((crc XOR ucast b) AND 0xff) XOR drop_bit 8 crc) = crc_byte"
    by (intro ext) (rule table_step)
  then show ?thesis by (simp only: crc32c_extend_run_def Let_def fst_conv)
qed

lemma crc_globals0_ok: "crc_globals_ok crc_globals0"
  by (simp add: crc_globals_ok_def crc_globals0_def)

lemma crc32c_extend_run_ok:
  "crc_globals_ok g \<Longrightarrow> crc_globals_ok (snd (crc32c_extend_run g crc data))"
  by (simp add: crc_globals_ok_def crc32c_extend_run_def Let_def init_table_def)

lemma crc32c_extend_eq: "crc32c_extend crc data = NOT (fold crc_byte data (NOT crc))"
  unfolding crc32c_extend_def by (rule crc32c_extend_run_eq [OF crc_globals0_ok])

section \<open>Windows of up to four bytes\<close>

fun le_word :: "u8 list \<Rightarrow> u32" where
  "le_word [] = 0"
| "le_word (b # bs) = ucast b XOR push_bit 8 (le_word bs)"

lemma bit_le_word: "bit (le_word bs) k \<Longrightarrow> k < 8 * length bs"
proof (induction bs arbitrary: k)
  case Nil
  then show ?case by simp
next
  case (Cons b bs)
  from Cons.prems have "k < 8 \<or> 8 \<le> k \<and> bit (le_word bs) (k - 8)"
    by (auto simp: bit_xor_iff bit_ucast_u8 bit_push_bit_iff)
  then show ?case
  proof
    assume "k < 8"
    then show ?thesis by simp
  next
    assume "8 \<le> k \<and> bit (le_word bs) (k - 8)"
    with Cons.IH [of "k - 8"] show ?thesis by simp
  qed
qed

lemma drop_push_le_word: "length bs \<le> 3 \<Longrightarrow> drop_bit 8 (push_bit 8 (le_word bs)) = le_word bs"
  by (rule bit_word_eqI) (auto simp: bit_drop_bit_eq bit_push_bit_iff dest: bit_le_word)

lemma crc_bit_steps_push:
  "length bs \<le> 3 \<Longrightarrow> (crc_bit_step ^^ 8) (push_bit 8 (le_word bs)) = le_word bs"
  by (subst crc_bit_steps_low_zero) (simp_all add: bit_push_bit_iff drop_push_le_word)

lemma fold_crc_byte_window:
  "length bs \<le> 4 \<Longrightarrow>
   fold crc_byte bs c = (crc_bit_step ^^ (8 * length bs)) (c XOR le_word bs)"
proof (induction bs arbitrary: c)
  case Nil
  then show ?case by simp
next
  case (Cons b bs)
  then have "fold crc_byte (b # bs) c =
      (crc_bit_step ^^ (8 * length bs)) (crc_byte b c XOR le_word bs)"
    by simp
  also have "crc_byte b c XOR le_word bs = (crc_bit_step ^^ 8) (c XOR le_word (b # bs))"
    using Cons.prems crc_bit_steps_push [of bs]
    by (simp only: crc_byte_def le_word.simps crc_bit_steps_xor xor.assoc) simp
  finally show ?case by (simp add: funpow_add add.commute [of 8] del: funpow.simps)
qed

lemma ucast_u8_inj_low:
  assumes "ucast (x::u8) XOR push_bit 8 v = (ucast (y::u8) XOR push_bit 8 w :: u32)"
  shows "x = y \<and> push_bit 8 v = push_bit 8 w"
proof -
  have "bit x k = bit y k" if "k < 8" for k
    using arg_cong [OF assms, of "\<lambda>z. bit z k"] that
    by (auto simp: bit_xor_iff bit_ucast_u8 bit_push_bit_iff)
  then have "x = y" by (intro bit_word_eqI) simp
  moreover from this assms have "push_bit 8 v = push_bit 8 w" by simp
  ultimately show ?thesis ..
qed

lemma le_word_inj:
  "length xs = length ys \<Longrightarrow> length xs \<le> 4 \<Longrightarrow> le_word xs = le_word ys \<Longrightarrow> xs = ys"
proof (induction xs ys rule: list_induct2)
  case Nil
  then show ?case by simp
next
  case (Cons x xs y ys)
  from Cons.prems have xy: "x = y" and p: "push_bit 8 (le_word xs) = push_bit 8 (le_word ys)"
    using ucast_u8_inj_low [of x "le_word xs" y "le_word ys"] by auto
  from p have "drop_bit 8 (push_bit 8 (le_word xs)) = drop_bit 8 (push_bit 8 (le_word ys))"
    by simp
  then have "le_word xs = le_word ys"
    using Cons.prems(1) Cons.hyps by (simp only: drop_push_le_word length_Cons)
  with Cons xy show ?case by simp
qed

lemma fold_crc_byte_inj: "fold crc_byte xs s = fold crc_byte xs t \<Longrightarrow> s = t"
proof (induction xs arbitrary: s t)
  case (Cons x xs)
  then have "crc_byte x s = crc_byte x t" by simp
  then have "s XOR ucast x = t XOR ucast x" by (simp only: crc_byte_def crc_bit_steps_inj)
  then show ?case by simp
qed simp

interpretation crc: burst_checksum crc32c_extend 4
proof unfold_locales
  fix s t :: u32 and xs ys :: "u8 list"
  show "crc32c_extend s [] = s" by (simp add: crc32c_extend_eq)
  show "crc32c_extend s (xs @ ys) = crc32c_extend (crc32c_extend s xs) ys"
    by (simp add: crc32c_extend_eq)
  show "crc32c_extend s xs = crc32c_extend t xs \<Longrightarrow> s = t"
    by (auto simp: crc32c_extend_eq dest: fold_crc_byte_inj)
  assume len: "length xs = length ys" "length xs \<le> 4"
    and eq: "crc32c_extend s xs = crc32c_extend s ys"
  from eq have "fold crc_byte xs (NOT s) = fold crc_byte ys (NOT s)"
    by (simp add: crc32c_extend_eq)
  with len have "(crc_bit_step ^^ (8 * length xs)) (NOT s XOR le_word xs)
      = (crc_bit_step ^^ (8 * length xs)) (NOT s XOR le_word ys)"
    by (simp add: fold_crc_byte_window)
  then have "NOT s XOR le_word xs = NOT s XOR le_word ys" by (simp only: crc_bit_steps_inj)
  then have "le_word xs = le_word ys" by simp
  with len show "xs = ys" by (rule le_word_inj)
qed

end
