(* ===== verification/WitnessQ4.thy ===== *)
theory WitnessQ4
  imports Crc32c
begin

text \<open>
  \<^verbatim>\<open>pocs/witness_q4/witness_q4.{h,cpp}\<close>: witnesses over quantised weight blocks. A pointer with
  its size is a \<open>buf\<close>: \<open>None\<close> is the null pointer, \<open>Some bs\<close> the \<open>length bs\<close> bytes behind it.
\<close>

section \<open>Definitions\<close>

datatype witness_mode = Xor_fold | Crc32c_mode

datatype fallback_mode = Fallback_none | Fallback_zero | Fallback_quarantine

type_synonym buf = "u8 list option"

record q4_block_view =
  weights :: buf
  meta :: buf
  witness :: u32

record witness_config =
  mode :: witness_mode
  warmup :: bool
  fallback :: fallback_mode

record q4_witness_report =
  q4_ok :: bool
  q4_computed :: u32

definition xor_fold_update :: "u32 \<Rightarrow> buf \<Rightarrow> u32" where
  "xor_fold_update acc data =
     (case data of None \<Rightarrow> acc
      | Some bs \<Rightarrow> if bs = [] then acc
          else fold (\<lambda>(i, b) acc. acc XOR push_bit ((i mod 4) * 8) (ucast b)) (enumerate 0 bs) acc)"

text \<open>The inner loop of \<^verbatim>\<open>crc32c_update\<close>: the polynomial is masked in instead of branched on.\<close>

definition crc_mask_step :: "u32 \<Rightarrow> u32" where
  "crc_mask_step crc =
     (let mask = - (crc AND 1) in drop_bit 1 crc XOR (0x82F63B78 AND mask))"

definition crc32c_update :: "u32 \<Rightarrow> buf \<Rightarrow> u32" where
  "crc32c_update crc data =
     (case data of None \<Rightarrow> crc
      | Some bs \<Rightarrow> if bs = [] then crc
          else NOT (fold (\<lambda>b crc. (crc_mask_step ^^ 8) (crc XOR ucast b)) bs (NOT crc)))"

definition compute_witness :: "buf \<Rightarrow> witness_mode \<Rightarrow> u32" where
  "compute_witness data m =
     (if m = Crc32c_mode then crc32c_update 0 data else xor_fold_update 0 data)"

definition compute_q4_witness :: "q4_block_view \<Rightarrow> witness_mode \<Rightarrow> u32" where
  "compute_q4_witness view m =
     (if m = Crc32c_mode then
        let crc = crc32c_update 0 (weights view) in crc32c_update crc (meta view)
      else
        let acc = xor_fold_update 0 (weights view) in xor_fold_update acc (meta view))"

text \<open>The offsets \<^verbatim>\<open>warmup_pages\<close> reads, and the value it leaves in \<^verbatim>\<open>sink\<close>.\<close>

definition warmup_offsets :: "nat \<Rightarrow> nat list" where
  "warmup_offsets sz =
     (if sz = 0 then [] else map (\<lambda>k. k * 4096) [0..<(sz + 4095) div 4096] @ [sz - 1])"

definition warmup_pages :: "buf \<Rightarrow> u8" where
  "warmup_pages data =
     (case data of None \<Rightarrow> 0
      | Some bs \<Rightarrow> fold (\<lambda>off sink. sink XOR bs ! off) (warmup_offsets (length bs)) 0)"

definition verify_q4_block :: "q4_block_view \<Rightarrow> witness_config \<Rightarrow> q4_witness_report" where
  "verify_q4_block view config =
     (let _ = (if warmup config then (warmup_pages (weights view), warmup_pages (meta view)) else (0, 0));
          c = compute_q4_witness view (mode config)
      in \<lparr>q4_ok = (c = witness view), q4_computed = c\<rparr>)"

definition apply_fallback :: "buf \<Rightarrow> fallback_mode \<Rightarrow> buf" where
  "apply_fallback data m =
     (case data of None \<Rightarrow> None
      | Some bs \<Rightarrow>
          if bs = [] \<or> m = Fallback_none then Some bs
          else if m = Fallback_zero then Some (replicate (length bs) 0)
          else if m = Fallback_quarantine then Some (replicate (length bs) 0xff)
          else Some bs)"

definition verify_q4_block_mut ::
  "q4_block_view \<Rightarrow> witness_config \<Rightarrow> q4_witness_report \<times> q4_block_view" where
  "verify_q4_block_mut view config =
     (let report = verify_q4_block view config
      in if \<not> q4_ok report then
           (report, view\<lparr>weights := apply_fallback (weights view) (fallback config),
                         meta := apply_fallback (meta view) (fallback config)\<rparr>)
         else (report, view))"

text \<open>The bytes of a view, weights first.\<close>

definition buf_bytes :: "buf \<Rightarrow> u8 list" where
  "buf_bytes data = (case data of None \<Rightarrow> [] | Some bs \<Rightarrow> bs)"

section \<open>The masked CRC loop is the CRC of the audit library\<close>

lemma crc_mask_step_eq: "crc_mask_step crc = crc_bit_step crc"
proof (cases "bit crc 0")
  case True
  then have "crc AND 1 = 1" by (simp add: and_one_eq bit_0 odd_iff_mod_2_eq_one)
  with True show ?thesis
    by (simp add: crc_mask_step_def crc_bit_step_alt kCrc32cPolynomial_def)
next
  case False
  then have "crc AND 1 = 0" by (simp add: and_one_eq bit_0 odd_iff_mod_2_eq_one)
  with False show ?thesis
    by (simp add: crc_mask_step_def crc_bit_step_alt)
qed

lemma crc32c_update_eq: "crc32c_update crc data = crc32c_extend crc (buf_bytes data)"
proof -
  have "(\<lambda>b crc. (crc_mask_step ^^ 8) (crc XOR ucast b)) = crc_byte"
    by (simp add: fun_eq_iff crc_byte_def crc_mask_step_eq [abs_def])
  then show ?thesis
    by (simp add: crc32c_update_def buf_bytes_def crc32c_extend_eq split: option.split)
qed

lemma compute_q4_witness_crc:
  "compute_q4_witness view Crc32c_mode =
   crc32c_compute (buf_bytes (weights view) @ buf_bytes (meta view))"
  by (simp add: compute_q4_witness_def crc32c_update_eq crc32c_compute_def crc32c_finalize_def
        crc.extend_append)

section \<open>Xor folding\<close>

definition xor_lane :: "nat \<times> u8 \<Rightarrow> u32" where
  "xor_lane ib = push_bit ((fst ib mod 4) * 8) (ucast (snd ib))"

lemma xor_fold_update_eq:
  "xor_fold_update acc data = fold (\<lambda>ib acc. acc XOR xor_lane ib) (enumerate 0 (buf_bytes data)) acc"
  by (simp add: xor_fold_update_def buf_bytes_def xor_lane_def split_def split: option.split)

lemma xor_lane_inj: "xor_lane (i, a) = xor_lane (i, b) \<longleftrightarrow> a = b"
proof
  assume eq: "xor_lane (i, a) = xor_lane (i, b)"
  have "bit a k = bit b k" if "k < 8" for k
  proof -
    have "(i mod 4) * 8 + k < 32" using that by simp
    moreover have "bit (xor_lane (i, a)) ((i mod 4) * 8 + k) = bit (xor_lane (i, b)) ((i mod 4) * 8 + k)"
      by (simp add: eq)
    ultimately show ?thesis using that by (simp add: xor_lane_def bit_push_bit_iff bit_ucast_u8)
  qed
  then show "a = b" by (intro bit_word_eqI) simp
qed simp

lemma xor_fold_byte_change:
  assumes "i < length bs" and "bs ! i \<noteq> b"
  shows "xor_fold_update acc (Some (bs[i := b])) \<noteq> xor_fold_update acc (Some bs)"
  using assms fold_xor_update [of i "enumerate 0 bs" xor_lane "(i, b)" acc]
  by (simp add: xor_fold_update_eq buf_bytes_def enumerate_update nth_enumerate_eq xor_eq_0_iff
        xor_lane_inj)

section \<open>Block verification\<close>

lemma q4_ok_iff: "q4_ok (verify_q4_block v cfg) \<longleftrightarrow> compute_q4_witness v (mode cfg) = witness v"
  by (simp add: verify_q4_block_def Let_def)

lemma crc_weights_change:
  "weights v = Some ws \<Longrightarrow> i < length ws \<Longrightarrow> ws ! i \<noteq> b \<Longrightarrow>
   compute_q4_witness (v\<lparr>weights := Some (ws[i := b])\<rparr>) Crc32c_mode \<noteq> compute_q4_witness v Crc32c_mode"
  using crc.byte_change_detected [of i "ws @ buf_bytes (meta v)" b 0]
  by (simp add: compute_q4_witness_crc buf_bytes_def crc32c_compute_def crc32c_finalize_def
        nth_append list_update_append1)

lemma crc_meta_change:
  "meta v = Some ms \<Longrightarrow> i < length ms \<Longrightarrow> ms ! i \<noteq> b \<Longrightarrow>
   compute_q4_witness (v\<lparr>meta := Some (ms[i := b])\<rparr>) Crc32c_mode \<noteq> compute_q4_witness v Crc32c_mode"
  using crc.byte_change_detected [of "length (buf_bytes (weights v)) + i" "buf_bytes (weights v) @ ms" b 0]
  by (simp add: compute_q4_witness_crc buf_bytes_def crc32c_compute_def crc32c_finalize_def
        nth_append list_update_append)

lemma xor_fold_update_acc: "xor_fold_update a data = a XOR xor_fold_update 0 data"
  unfolding xor_fold_update_eq by (rule fold_xor_acc)

lemma xor_weights_change:
  "weights v = Some ws \<Longrightarrow> i < length ws \<Longrightarrow> ws ! i \<noteq> b \<Longrightarrow>
   compute_q4_witness (v\<lparr>weights := Some (ws[i := b])\<rparr>) Xor_fold \<noteq> compute_q4_witness v Xor_fold"
  using xor_fold_byte_change [of i ws b 0]
    xor_fold_update_acc [of "xor_fold_update 0 (Some ws)" "meta v"]
    xor_fold_update_acc [of "xor_fold_update 0 (Some (ws[i := b]))" "meta v"]
  by (simp add: compute_q4_witness_def)

lemma xor_meta_change:
  "meta v = Some ms \<Longrightarrow> i < length ms \<Longrightarrow> ms ! i \<noteq> b \<Longrightarrow>
   compute_q4_witness (v\<lparr>meta := Some (ms[i := b])\<rparr>) Xor_fold \<noteq> compute_q4_witness v Xor_fold"
  by (simp add: compute_q4_witness_def xor_fold_byte_change)

lemma witness_byte_change:
  shows "weights v = Some ws \<Longrightarrow> i < length ws \<Longrightarrow> ws ! i \<noteq> b \<Longrightarrow>
      compute_q4_witness (v\<lparr>weights := Some (ws[i := b])\<rparr>) m \<noteq> compute_q4_witness v m"
    and "meta v = Some ms \<Longrightarrow> i < length ms \<Longrightarrow> ms ! i \<noteq> b \<Longrightarrow>
      compute_q4_witness (v\<lparr>meta := Some (ms[i := b])\<rparr>) m \<noteq> compute_q4_witness v m"
  by (cases m; simp add: xor_weights_change crc_weights_change)
     (cases m; simp add: xor_meta_change crc_meta_change)

lemma apply_fallback_length: "length (buf_bytes (apply_fallback d m)) = length (buf_bytes d)"
  by (simp add: apply_fallback_def buf_bytes_def split: option.split)

lemma apply_fallback_set:
  shows "set (buf_bytes (apply_fallback d Fallback_zero)) \<subseteq> {0}"
    and "set (buf_bytes (apply_fallback d Fallback_quarantine)) \<subseteq> {0xff}"
    and "apply_fallback d Fallback_none = d"
  by (auto simp: apply_fallback_def buf_bytes_def split: option.split)

section \<open>Properties\<close>

text \<open>the two CRC-32C implementations of the repository agree: the bit-at-a-time
  \<^verbatim>\<open>crc32c_update\<close> of the Q4 witness and the lazily initialised, table-driven
  \<^verbatim>\<open>crc32c_extend\<close> of the audit library return the same register from every state the
  global table can be in, for every start value and every buffer (a null buffer counts as
  empty), and the table stays valid.\<close>

theorem crc32c_implementations_agree:
  assumes "crc_globals_ok g"
  shows "crc32c_update crc data = fst (crc32c_extend_run g crc (buf_bytes data))
       \<and> crc_globals_ok (snd (crc32c_extend_run g crc (buf_bytes data)))"
  using assms
  by (simp add: crc32c_update_eq crc32c_extend_eq crc32c_extend_run_eq crc32c_extend_run_ok)

theorem crc32c_implementations_agree_witness:
  "crc_globals_ok crc_globals0 \<and>
   crc32c_update 0 (Some [0x31, 0x32]) = fst (crc32c_extend_run crc_globals0 0 [0x31, 0x32])"
  using crc32c_implementations_agree [OF crc_globals0_ok, of 0 "Some [0x31, 0x32]"] crc_globals0_ok
  by (simp add: buf_bytes_def)

text \<open>C40: a verified block that has one byte of its weights or of its metadata changed is
  rejected, in both witness modes.\<close>

theorem q4_single_byte_corruption_rejected:
  assumes "q4_ok (verify_q4_block v cfg)"
  shows "(weights v = Some ws \<and> i < length ws \<and> ws ! i \<noteq> b \<longrightarrow>
            \<not> q4_ok (verify_q4_block (v\<lparr>weights := Some (ws[i := b])\<rparr>) cfg)) \<and>
         (meta v = Some ms \<and> i < length ms \<and> ms ! i \<noteq> b \<longrightarrow>
            \<not> q4_ok (verify_q4_block (v\<lparr>meta := Some (ms[i := b])\<rparr>) cfg))"
  using assms witness_byte_change [of v ws i b "mode cfg"] witness_byte_change [of v ms i b "mode cfg"]
  by (auto simp: q4_ok_iff)

definition q4_sample_view :: q4_block_view where
  "q4_sample_view = \<lparr>weights = Some [1, 2, 3, 4, 5], meta = Some [9], witness = 0x0403020d\<rparr>"

definition q4_sample_config :: witness_config where
  "q4_sample_config = \<lparr>mode = Xor_fold, warmup = True, fallback = Fallback_quarantine\<rparr>"

lemma q4_sample_ok: "q4_ok (verify_q4_block q4_sample_view q4_sample_config)"
  by (simp add: q4_ok_iff q4_sample_view_def q4_sample_config_def compute_q4_witness_def
        xor_fold_update_def)

theorem q4_single_byte_corruption_rejected_witness:
  "q4_ok (verify_q4_block q4_sample_view q4_sample_config) \<and>
   \<not> q4_ok (verify_q4_block (q4_sample_view\<lparr>weights := Some [1, 2, 7, 4, 5]\<rparr>) q4_sample_config)"
  using q4_single_byte_corruption_rejected
      [OF q4_sample_ok, of "[1, 2, 3, 4, 5]" 2 7 "[9]"] q4_sample_ok
  by (simp add: q4_sample_view_def)

text \<open>in CRC mode, corruption confined to four consecutive bytes of the block, weights and
  metadata taken as one run, is rejected whatever the block holds and however long it is.\<close>

theorem q4_burst_corruption_rejected:
  assumes "mode cfg = Crc32c_mode" and "q4_ok (verify_q4_block v cfg)"
    and "buf_bytes (weights v) @ buf_bytes (meta v) = pre @ xs @ post"
    and "buf_bytes (weights v') @ buf_bytes (meta v') = pre @ ys @ post"
    and "length xs = length ys" and "length xs \<le> 4" and "xs \<noteq> ys"
    and "witness v' = witness v"
  shows "\<not> q4_ok (verify_q4_block v' cfg)"
  using assms crc.burst_detected [of xs ys 0 pre post]
  by (simp add: q4_ok_iff compute_q4_witness_crc crc32c_compute_def crc32c_finalize_def)

theorem q4_burst_corruption_rejected_witness:
  "\<not> q4_ok (verify_q4_block \<lparr>weights = Some [1, 0xff, 0, 4], meta = None, witness = crc32c_compute [1, 2, 3, 4]\<rparr>
       \<lparr>mode = Crc32c_mode, warmup = False, fallback = Fallback_none\<rparr>)"
  by (rule q4_burst_corruption_rejected
        [where v = "\<lparr>weights = Some [1, 2, 3, 4], meta = None, witness = crc32c_compute [1, 2, 3, 4]\<rparr>"
           and pre = "[1]" and xs = "[2, 3]" and ys = "[0xff, 0]" and post = "[4]"])
     (simp_all add: q4_ok_iff compute_q4_witness_crc buf_bytes_def)

text \<open>the mutable check leaves an accepted block alone; a rejected block keeps its
  recorded witness and its sizes, and every byte of it is zero, respectively 0xFF, under the
  zero and quarantine fallbacks, and untouched when no fallback is set.\<close>

theorem q4_fallback_contains_rejected_blocks:
  "let (report, v') = verify_q4_block_mut v cfg in
     report = verify_q4_block v cfg \<and> witness v' = witness v \<and>
     length (buf_bytes (weights v')) = length (buf_bytes (weights v)) \<and>
     length (buf_bytes (meta v')) = length (buf_bytes (meta v)) \<and>
     (q4_ok report \<or> fallback cfg = Fallback_none \<longrightarrow> v' = v) \<and>
     (\<not> q4_ok report \<and> fallback cfg = Fallback_zero \<longrightarrow>
        set (buf_bytes (weights v') @ buf_bytes (meta v')) \<subseteq> {0}) \<and>
     (\<not> q4_ok report \<and> fallback cfg = Fallback_quarantine \<longrightarrow>
        set (buf_bytes (weights v') @ buf_bytes (meta v')) \<subseteq> {0xff})"
  using apply_fallback_set
  by (simp add: verify_q4_block_mut_def Let_def apply_fallback_length)

theorem q4_fallback_contains_rejected_blocks_witness:
  "\<not> q4_ok (verify_q4_block (q4_sample_view\<lparr>witness := 0\<rparr>) q4_sample_config) \<and>
   snd (verify_q4_block_mut (q4_sample_view\<lparr>witness := 0\<rparr>) q4_sample_config) =
     \<lparr>weights = Some [0xff, 0xff, 0xff, 0xff, 0xff], meta = Some [0xff], witness = 0\<rparr>"
proof
  show bad: "\<not> q4_ok (verify_q4_block (q4_sample_view\<lparr>witness := 0\<rparr>) q4_sample_config)"
    using q4_fallback_contains_rejected_blocks [of "q4_sample_view\<lparr>witness := 0\<rparr>" q4_sample_config]
    by (simp add: q4_ok_iff q4_sample_view_def q4_sample_config_def compute_q4_witness_def
          xor_fold_update_def)
  then show "snd (verify_q4_block_mut (q4_sample_view\<lparr>witness := 0\<rparr>) q4_sample_config) =
     \<lparr>weights = Some [0xff, 0xff, 0xff, 0xff, 0xff], meta = Some [0xff], witness = 0\<rparr>"
    by (simp add: verify_q4_block_mut_def q4_sample_view_def q4_sample_config_def apply_fallback_def
          Let_def numeral_eq_Suc)
qed

text \<open>warming up a buffer reads only bytes of the buffer, and at least one byte of every
  4096-byte page of it.\<close>

theorem warmup_reads_every_page:
  "(\<forall>off \<in> set (warmup_offsets sz). off < sz) \<and>
   (\<forall>i < sz. \<exists>off \<in> set (warmup_offsets sz). off div 4096 = i div 4096)"
proof (intro conjI ballI allI impI)
  fix off assume "off \<in> set (warmup_offsets sz)"
  then show "off < sz" by (auto simp: warmup_offsets_def split: if_splits)
next
  fix i assume "i < sz"
  have "i div 4096 * 4096 \<le> i" by simp
  with \<open>i < sz\<close> have "Suc (i div 4096) * 4096 \<le> sz + 4095" by simp
  then have "Suc (i div 4096) \<le> (sz + 4095) div 4096"
    by (simp only: less_eq_div_iff_mult_less_eq zero_less_numeral)
  then have "(i div 4096) * 4096 \<in> set (warmup_offsets sz)"
    using \<open>i < sz\<close> by (auto simp: warmup_offsets_def)
  then show "\<exists>off \<in> set (warmup_offsets sz). off div 4096 = i div 4096"
    by (intro bexI [of _ "(i div 4096) * 4096"]) simp_all
qed

theorem warmup_reads_every_page_witness:
  "\<exists>off \<in> set (warmup_offsets 5000). off div 4096 = 4999 div 4096"
proof -
  have "(4999::nat) < 5000" by simp
  with warmup_reads_every_page [of 5000] show ?thesis by blast
qed

end
