(* ===== verification/KvCells.thy ===== *)
theory KvCells
  imports Prelude
begin

text \<open>
  \<^verbatim>\<open>src/llama-kv-cells.h\<close>: the metadata of the KV cells.
\<close>

section \<open>Definitions\<close>

type_synonym llama_pos = int
type_synonym llama_seq_id = nat

record kv_cell_ext =
  ext_x :: llama_pos
  ext_y :: llama_pos

definition is_2d_gt :: "kv_cell_ext \<Rightarrow> llama_pos \<Rightarrow> llama_pos \<Rightarrow> bool" where
  "is_2d_gt e ox oy \<longleftrightarrow> ext_y e > oy \<or> (ext_y e = oy \<and> ext_x e > ox)"

definition ext_reset :: kv_cell_ext where
  "ext_reset = \<lparr>ext_x = 0, ext_y = 0\<rparr>"

text \<open>The bitset of a cell is the set of its sequence ids; the ordered map
  \<^verbatim>\<open>std::map<llama_pos, int>\<close> of a sequence is an association list.\<close>

record kv_cells =
  has_shift :: bool
  used :: "nat set"
  pos :: "llama_pos list"
  ext :: "kv_cell_ext list"
  shift :: "llama_pos list"
  seq :: "llama_seq_id set list"
  seq_pos :: "llama_seq_id \<Rightarrow> (llama_pos \<times> int) list"

definition empty_cells :: kv_cells where
  "empty_cells = \<lparr>has_shift = False, used = {}, pos = [], ext = [], shift = [], seq = [],
                  seq_pos = (\<lambda>_. [])\<rparr>"

definition cells_size :: "kv_cells \<Rightarrow> nat" where
  "cells_size c = length (pos c)"

definition cells_reset :: "kv_cells \<Rightarrow> kv_cells" where
  "cells_reset c =
     c\<lparr>pos := map (\<lambda>_. -1) (pos c), ext := map (\<lambda>_. ext_reset) (ext c),
       shift := map (\<lambda>_. 0) (shift c), seq := map (\<lambda>_. {}) (seq c),
       has_shift := False, used := {},
       seq_pos := (\<lambda>s. if s < LLAMA_MAX_SEQ then [] else seq_pos c s)\<rparr>"

definition reset_shift :: "kv_cells \<Rightarrow> kv_cells" where
  "reset_shift c = c\<lparr>has_shift := False, shift := map (\<lambda>_. 0) (shift c)\<rparr>"

definition cells_resize :: "kv_cells \<Rightarrow> nat \<Rightarrow> kv_cells" where
  "cells_resize c n =
     cells_reset (c\<lparr>pos := vec_resize n 0 (pos c), ext := vec_resize n ext_reset (ext c),
                    shift := vec_resize n 0 (shift c), seq := vec_resize n {} (seq c)\<rparr>)"

definition is_empty :: "kv_cells \<Rightarrow> nat \<Rightarrow> bool option" where
  "is_empty c i = do {
     assert_opt (i < cells_size c);
     assert_opt ((pos c ! i < 0 \<and> pos c ! i = -1) \<or> pos c ! i \<ge> 0);
     Some (pos c ! i = -1) }"

definition get_used :: "kv_cells \<Rightarrow> nat" where
  "get_used c = card (used c)"

definition used_min :: "kv_cells \<Rightarrow> nat" where
  "used_min c = (if used c = {} then 0 else Min (used c))"

definition used_max_p1 :: "kv_cells \<Rightarrow> nat" where
  "used_max_p1 c = (if used c = {} then 0 else Max (used c) + 1)"

definition get_has_shift :: "kv_cells \<Rightarrow> bool" where
  "get_has_shift c = has_shift c"

text \<open>\<^verbatim>\<open>seq_pos_dec\<close>, \<^verbatim>\<open>seq_pos_inc\<close> and the loops over all sequences of a cell.\<close>

definition seq_pos_dec :: "llama_seq_id \<Rightarrow> llama_pos \<Rightarrow> kv_cells \<Rightarrow> kv_cells option" where
  "seq_pos_dec s p c =
     (case map_of (seq_pos c s) p of
        None \<Rightarrow> None
      | Some k \<Rightarrow>
          Some (c\<lparr>seq_pos := (seq_pos c)(s :=
                    if k - 1 = 0 then AList.delete p (seq_pos c s)
                    else AList.update p (k - 1) (seq_pos c s))\<rparr>))"

definition seq_pos_inc :: "llama_seq_id \<Rightarrow> llama_pos \<Rightarrow> kv_cells \<Rightarrow> kv_cells" where
  "seq_pos_inc s p c =
     c\<lparr>seq_pos := (seq_pos c)(s :=
         AList.update p ((case map_of (seq_pos c s) p of None \<Rightarrow> 0 | Some k \<Rightarrow> k) + 1) (seq_pos c s))\<rparr>"

definition seq_pos_rm :: "nat \<Rightarrow> kv_cells \<Rightarrow> kv_cells option" where
  "seq_pos_rm i c =
     foldM (\<lambda>s c. if s \<in> seq c ! i then seq_pos_dec s (pos c ! i) c else Some c)
       [0..<LLAMA_MAX_SEQ] c"

definition seq_pos_add :: "nat \<Rightarrow> kv_cells \<Rightarrow> kv_cells" where
  "seq_pos_add i c =
     fold (\<lambda>s c. if s \<in> seq c ! i then seq_pos_inc s (pos c ! i) c else c) [0..<LLAMA_MAX_SEQ] c"

text \<open>Save and restore.\<close>

definition cells_cp_idxs :: "kv_cells \<Rightarrow> nat list \<Rightarrow> kv_cells option" where
  "cells_cp_idxs c idxs =
     (if \<forall>i \<in> set idxs. i < cells_size c \<and> shift c ! i = 0 then
        Some ((cells_resize empty_cells (length idxs))
          \<lparr>pos := map (nth (pos c)) idxs, ext := map (nth (ext c)) idxs,
           seq := map (nth (seq c)) idxs\<rparr>)
      else None)"

definition cells_cp :: "kv_cells \<Rightarrow> nat \<Rightarrow> nat \<Rightarrow> kv_cells option" where
  "cells_cp c i n = do {
     assert_opt (i + n \<le> cells_size c);
     cells_cp_idxs c (map ((+) i) [0..<n]) }"

text \<open>The body shared by the loops of the two \<^verbatim>\<open>set\<close> functions: cell \<open>j\<close> of \<open>other\<close> goes to \<open>idx\<close>.\<close>

definition set_cell :: "kv_cells \<Rightarrow> nat \<Rightarrow> nat \<Rightarrow> kv_cells \<Rightarrow> kv_cells option" where
  "set_cell other idx j c = do {
     assert_opt (idx < cells_size c);
     let c = (if pos c ! idx = -1 \<and> pos other ! j \<noteq> -1 then c\<lparr>used := insert idx (used c)\<rparr> else c);
     let c = (if pos c ! idx \<noteq> -1 \<and> pos other ! j = -1 then c\<lparr>used := used c - {idx}\<rparr> else c);
     c \<leftarrow> (if pos c ! idx \<noteq> -1 then seq_pos_rm idx c else Some c);
     let c = c\<lparr>pos := (pos c)[idx := pos other ! j], ext := (ext c)[idx := ext other ! j],
               seq := (seq c)[idx := seq other ! j]\<rparr>;
     let c = (if pos c ! idx \<noteq> -1 then seq_pos_add idx c else c);
     assert_opt (shift c ! idx = 0);
     Some c }"

definition cells_set_idxs :: "kv_cells \<Rightarrow> nat list \<Rightarrow> kv_cells \<Rightarrow> kv_cells option" where
  "cells_set_idxs c idxs other = do {
     assert_opt (length idxs = cells_size other);
     foldM (\<lambda>j c. set_cell other (idxs ! j) j c) [0..<cells_size other] c }"

definition cells_set :: "kv_cells \<Rightarrow> nat \<Rightarrow> kv_cells \<Rightarrow> kv_cells option" where
  "cells_set c i other = do {
     assert_opt (i + cells_size other \<le> cells_size c);
     foldM (\<lambda>j c. set_cell other (i + j) j c) [0..<cells_size other] c }"

text \<open>Operations on one cell.\<close>

definition cells_rm :: "nat \<Rightarrow> kv_cells \<Rightarrow> kv_cells option" where
  "cells_rm i c = do {
     assert_opt (i < cells_size c);
     assert_opt (pos c ! i \<noteq> -1);
     c \<leftarrow> seq_pos_rm i c;
     Some (c\<lparr>seq := (seq c)[i := {}], pos := (pos c)[i := -1], ext := (ext c)[i := ext_reset],
             shift := (shift c)[i := 0], used := used c - {i}\<rparr>) }"

definition cells_seq_rm :: "nat \<Rightarrow> llama_seq_id \<Rightarrow> kv_cells \<Rightarrow> (bool \<times> kv_cells) option" where
  "cells_seq_rm i s c = do {
     assert_opt (i < cells_size c);
     assert_opt (s < LLAMA_MAX_SEQ \<and> s \<in> seq c ! i);
     assert_opt (pos c ! i \<noteq> -1);
     let c = c\<lparr>seq := (seq c)[i := seq c ! i - {s}]\<rparr>;
     c \<leftarrow> seq_pos_dec s (pos c ! i) c;
     if seq c ! i = {} then
       Some (True, c\<lparr>pos := (pos c)[i := -1], ext := (ext c)[i := ext_reset],
                     shift := (shift c)[i := 0], used := used c - {i}\<rparr>)
     else Some (False, c) }"

definition cells_seq_keep :: "nat \<Rightarrow> llama_seq_id \<Rightarrow> kv_cells \<Rightarrow> (bool \<times> kv_cells) option" where
  "cells_seq_keep i s c = do {
     assert_opt (i < cells_size c);
     assert_opt (s < LLAMA_MAX_SEQ);
     if s \<in> seq c ! i then do {
       c \<leftarrow> seq_pos_rm i c;
       let c = c\<lparr>seq := (seq c)[i := {}]\<rparr>;
       let c = c\<lparr>seq := (seq c)[i := insert s (seq c ! i)]\<rparr>;
       Some (False, seq_pos_inc s (pos c ! i) c) }
     else if seq c ! i \<noteq> {} then do {
       c \<leftarrow> seq_pos_rm i c;
       Some (True, c\<lparr>seq := (seq c)[i := {}], pos := (pos c)[i := -1], ext := (ext c)[i := ext_reset],
                     shift := (shift c)[i := 0], used := used c - {i}\<rparr>) }
     else do {
       assert_opt (pos c ! i = -1);
       Some (False, c) } }"

definition seq_count :: "nat \<Rightarrow> kv_cells \<Rightarrow> nat option" where
  "seq_count i c = do {
     assert_opt (i < cells_size c);
     assert_opt (pos c ! i \<noteq> -1);
     Some (card (seq c ! i)) }"

definition seq_has :: "nat \<Rightarrow> llama_seq_id \<Rightarrow> kv_cells \<Rightarrow> bool option" where
  "seq_has i s c = do {
     assert_opt (i < cells_size c);
     assert_opt (s < LLAMA_MAX_SEQ);
     Some (s \<in> seq c ! i) }"

definition cells_seq_add :: "nat \<Rightarrow> llama_seq_id \<Rightarrow> kv_cells \<Rightarrow> kv_cells option" where
  "cells_seq_add i s c = do {
     assert_opt (i < cells_size c);
     assert_opt (pos c ! i \<noteq> -1);
     assert_opt (s < LLAMA_MAX_SEQ \<and> s \<notin> seq c ! i);
     let c = c\<lparr>seq := (seq c)[i := insert s (seq c ! i)]\<rparr>;
     Some (seq_pos_inc s (pos c ! i) c) }"

text \<open>The first sequence id set in the cell; \<open>-1\<close> when the loop runs out.\<close>

definition seq_get :: "nat \<Rightarrow> kv_cells \<Rightarrow> int option" where
  "seq_get i c = do {
     assert_opt (i < cells_size c \<and> card (seq c ! i) = 1);
     Some (case List.find (\<lambda>s. s \<in> seq c ! i) [0..<LLAMA_MAX_SEQ] of
             None \<Rightarrow> -1 | Some s \<Rightarrow> int s) }"

definition cells_seq_pos_min :: "llama_seq_id \<Rightarrow> kv_cells \<Rightarrow> llama_pos option" where
  "cells_seq_pos_min s c = do {
     assert_opt (s < LLAMA_MAX_SEQ);
     if seq_pos c s = [] then Some (-1)
     else do {
       let p = Min (set (map fst (seq_pos c s)));
       assert_opt (the (map_of (seq_pos c s) p) > 0);
       Some p } }"

definition cells_seq_pos_max :: "llama_seq_id \<Rightarrow> kv_cells \<Rightarrow> llama_pos option" where
  "cells_seq_pos_max s c = do {
     assert_opt (s < LLAMA_MAX_SEQ);
     if seq_pos c s = [] then Some (-1)
     else do {
       let p = Max (set (map fst (seq_pos c s)));
       assert_opt (the (map_of (seq_pos c s) p) > 0);
       Some p } }"

definition pos_get :: "nat \<Rightarrow> kv_cells \<Rightarrow> llama_pos option" where
  "pos_get i c = do {
     assert_opt (i < cells_size c);
     assert_opt (pos c ! i \<noteq> -1);
     Some (pos c ! i) }"

definition ext_get :: "nat \<Rightarrow> kv_cells \<Rightarrow> kv_cell_ext option" where
  "ext_get i c = do {
     assert_opt (i < cells_size c);
     assert_opt (pos c ! i \<noteq> -1);
     Some (ext c ! i) }"

definition get_shift :: "nat \<Rightarrow> kv_cells \<Rightarrow> llama_pos option" where
  "get_shift i c = do {
     assert_opt (i < cells_size c);
     assert_opt (pos c ! i \<noteq> -1);
     Some (shift c ! i) }"

definition pos_in :: "nat \<Rightarrow> llama_pos \<Rightarrow> llama_pos \<Rightarrow> kv_cells \<Rightarrow> bool option" where
  "pos_in i p0 p1 c = do {
     assert_opt (i < cells_size c);
     Some (pos c ! i \<ge> p0 \<and> pos c ! i < p1) }"

definition pos_set :: "nat \<Rightarrow> llama_pos \<Rightarrow> kv_cells \<Rightarrow> kv_cells option" where
  "pos_set i p c = do {
     assert_opt (i < cells_size c);
     assert_opt (pos c ! i = -1);
     assert_opt (seq c ! i = {});
     Some (c\<lparr>pos := (pos c)[i := p], used := insert i (used c)\<rparr>) }"

definition ext_set :: "nat \<Rightarrow> kv_cell_ext \<Rightarrow> kv_cells \<Rightarrow> kv_cells option" where
  "ext_set i e c = do {
     assert_opt (i < length (ext c));
     Some (c\<lparr>ext := (ext c)[i := e]\<rparr>) }"

definition pos_add :: "nat \<Rightarrow> llama_pos \<Rightarrow> kv_cells \<Rightarrow> (bool \<times> kv_cells) option" where
  "pos_add i d c = do {
     assert_opt (i < cells_size c);
     assert_opt (pos c ! i \<noteq> -1);
     c \<leftarrow> seq_pos_rm i c;
     let c = c\<lparr>pos := (pos c)[i := i32 (pos c ! i + d)], shift := (shift c)[i := i32 (shift c ! i + d)],
               has_shift := True\<rparr>;
     if pos c ! i < 0 then
       Some (True, c\<lparr>seq := (seq c)[i := {}], pos := (pos c)[i := -1],
                     shift := (shift c)[i := 0], used := used c - {i}\<rparr>)
     else Some (False, seq_pos_add i c) }"

text \<open>C++ division truncates; dividing by zero traps.\<close>

definition pos_div :: "nat \<Rightarrow> int \<Rightarrow> kv_cells \<Rightarrow> kv_cells option" where
  "pos_div i d c = do {
     assert_opt (i < cells_size c);
     assert_opt (pos c ! i \<noteq> -1);
     assert_opt (d \<noteq> 0);
     let p_old = pos c ! i;
     c \<leftarrow> seq_pos_rm i c;
     let c = c\<lparr>pos := (pos c)[i := p_old sdiv d]\<rparr>;
     let c = c\<lparr>shift := (shift c)[i := i32 (shift c ! i + (p_old - pos c ! i))]\<rparr>;
     let c = seq_pos_add i c;
     Some (c\<lparr>has_shift := True\<rparr>) }"

text \<open>
  What the fields promise. \<open>cell_count c J s p\<close> counts the cells of \<open>J\<close> that hold position \<open>p\<close> of
  sequence \<open>s\<close>; \<open>pos_map_ok m N\<close> says that an ordered map stores exactly the non-zero counts
  of \<open>N\<close>.
\<close>

definition cell_count :: "kv_cells \<Rightarrow> nat set \<Rightarrow> llama_seq_id \<Rightarrow> llama_pos \<Rightarrow> nat" where
  "cell_count c J s p = card {j \<in> J. j < cells_size c \<and> pos c ! j = p \<and> s \<in> seq c ! j}"

definition pos_map_ok :: "(llama_pos \<times> int) list \<Rightarrow> (llama_pos \<Rightarrow> nat) \<Rightarrow> bool" where
  "pos_map_ok m N \<longleftrightarrow> distinct (map fst m) \<and>
     (\<forall>p. map_of m p = (if N p = 0 then None else Some (int (N p))))"

definition seq_pos_match :: "kv_cells \<Rightarrow> nat set \<Rightarrow> bool" where
  "seq_pos_match c J \<longleftrightarrow> (\<forall>s < LLAMA_MAX_SEQ. pos_map_ok (seq_pos c s) (cell_count c J s))"

definition cell_wf :: "kv_cells \<Rightarrow> nat \<Rightarrow> bool" where
  "cell_wf c i \<longleftrightarrow> -1 \<le> pos c ! i \<and> seq c ! i \<subseteq> {..<LLAMA_MAX_SEQ} \<and>
     (pos c ! i = -1 \<longrightarrow> seq c ! i = {} \<and> shift c ! i = 0)"

definition cells_wf :: "kv_cells \<Rightarrow> bool" where
  "cells_wf c \<longleftrightarrow> length (ext c) = cells_size c \<and> length (shift c) = cells_size c \<and>
     length (seq c) = cells_size c \<and> used c = {i. i < cells_size c \<and> pos c ! i \<noteq> -1} \<and>
     (\<forall>i < cells_size c. cell_wf c i) \<and>
     (\<not> has_shift c \<longrightarrow> (\<forall>i < cells_size c. shift c ! i = 0))"

definition kv_inv :: "kv_cells \<Rightarrow> bool" where
  "kv_inv c \<longleftrightarrow> cells_wf c \<and> seq_pos_match c {..<cells_size c}"

text \<open>The abstract state: one record per cell, with no index structure.\<close>

record acell =
  a_pos :: llama_pos
  a_ext :: kv_cell_ext
  a_shift :: llama_pos
  a_seq :: "llama_seq_id set"

definition abs_cells :: "kv_cells \<Rightarrow> acell list" where
  "abs_cells c = map (\<lambda>i. \<lparr>a_pos = pos c ! i, a_ext = ext c ! i, a_shift = shift c ! i, a_seq = seq c ! i\<rparr>)
     [0..<cells_size c]"

definition free_cell :: "kv_cell_ext \<Rightarrow> acell" where
  "free_cell e = \<lparr>a_pos = -1, a_ext = e, a_shift = 0, a_seq = {}\<rparr>"

text \<open>
  The operations on one cell, as the cache calls them, and what each promises: \<open>cell_pre\<close> is the
  contract of the caller (the assertions of the code, and no overflow of the 32-bit sums), \<open>cell_spec\<close> the new
  abstract cell.
\<close>

datatype cell_cmd = CRm | CSeqRm llama_seq_id | CSeqKeep llama_seq_id | CSeqAdd llama_seq_id
  | CPosSet llama_pos | CExtSet kv_cell_ext | CPosAdd llama_pos | CPosDiv int

fun cell_exec :: "cell_cmd \<Rightarrow> nat \<Rightarrow> kv_cells \<Rightarrow> kv_cells option" where
  "cell_exec CRm i c = cells_rm i c"
| "cell_exec (CSeqRm s) i c = map_option snd (cells_seq_rm i s c)"
| "cell_exec (CSeqKeep s) i c = map_option snd (cells_seq_keep i s c)"
| "cell_exec (CSeqAdd s) i c = cells_seq_add i s c"
| "cell_exec (CPosSet p) i c = pos_set i p c"
| "cell_exec (CExtSet e) i c = ext_set i e c"
| "cell_exec (CPosAdd d) i c = map_option snd (pos_add i d c)"
| "cell_exec (CPosDiv d) i c = pos_div i d c"

fun cell_pre :: "cell_cmd \<Rightarrow> acell \<Rightarrow> bool" where
  "cell_pre CRm a \<longleftrightarrow> a_pos a \<noteq> -1"
| "cell_pre (CSeqRm s) a \<longleftrightarrow> s \<in> a_seq a"
| "cell_pre (CSeqKeep s) a \<longleftrightarrow> s < LLAMA_MAX_SEQ \<and> (a_pos a \<noteq> -1 \<longrightarrow> a_seq a \<noteq> {})"
| "cell_pre (CSeqAdd s) a \<longleftrightarrow> s < LLAMA_MAX_SEQ \<and> s \<notin> a_seq a \<and> a_pos a \<noteq> -1"
| "cell_pre (CPosSet p) a \<longleftrightarrow> a_pos a = -1 \<and> 0 \<le> p"
| "cell_pre (CExtSet e) a \<longleftrightarrow> True"
| "cell_pre (CPosAdd d) a \<longleftrightarrow> a_pos a \<noteq> -1 \<and> i32_ok (a_pos a + d) \<and> i32_ok (a_shift a + d)"
| "cell_pre (CPosDiv d) a \<longleftrightarrow> a_pos a \<noteq> -1 \<and> 0 < d"

fun cell_spec :: "cell_cmd \<Rightarrow> acell \<Rightarrow> acell" where
  "cell_spec CRm a = free_cell ext_reset"
| "cell_spec (CSeqRm s) a =
     (if a_seq a = {s} then free_cell ext_reset else a\<lparr>a_seq := a_seq a - {s}\<rparr>)"
| "cell_spec (CSeqKeep s) a =
     (if s \<in> a_seq a then a\<lparr>a_seq := {s}\<rparr> else if a_pos a \<noteq> -1 then free_cell ext_reset else a)"
| "cell_spec (CSeqAdd s) a = a\<lparr>a_seq := insert s (a_seq a)\<rparr>"
| "cell_spec (CPosSet p) a = a\<lparr>a_pos := p\<rparr>"
| "cell_spec (CExtSet e) a = a\<lparr>a_ext := e\<rparr>"
| "cell_spec (CPosAdd d) a =
     (if a_pos a + d < 0 then free_cell (a_ext a)
      else a\<lparr>a_pos := a_pos a + d, a_shift := a_shift a + d\<rparr>)"
| "cell_spec (CPosDiv d) a =
     a\<lparr>a_pos := a_pos a div d, a_shift := i32 (a_shift a + (a_pos a - a_pos a div d))\<rparr>"

section \<open>The position maps count the cells\<close>

lemma pos_map_ok_dec:
  assumes "pos_map_ok m N" and "N p \<noteq> 0"
  shows "map_of m p = Some (int (N p)) \<and>
     pos_map_ok (if int (N p) - 1 = 0 then AList.delete p m else AList.update p (int (N p) - 1) m)
       (N(p := N p - 1))"
  using assms
  by (auto simp: pos_map_ok_def delete_conv update_conv distinct_update distinct_delete
        of_nat_diff)

lemma pos_map_ok_inc:
  assumes "pos_map_ok m N"
  shows "pos_map_ok (AList.update p ((case map_of m p of None \<Rightarrow> 0 | Some k \<Rightarrow> k) + 1) m) (N(p := N p + 1))"
  using assms
  by (auto simp: pos_map_ok_def update_conv distinct_update split: if_splits)

lemma cell_count_cong:
  assumes "cells_size c' = cells_size c"
    and "\<And>j. j \<in> J \<Longrightarrow> j < cells_size c \<Longrightarrow> pos c' ! j = pos c ! j \<and> seq c' ! j = seq c ! j"
  shows "cell_count c' J = cell_count c J"
proof (intro HOL.ext)
  fix s p
  have "{j \<in> J. j < cells_size c' \<and> pos c' ! j = p \<and> s \<in> seq c' ! j}
      = {j \<in> J. j < cells_size c \<and> pos c ! j = p \<and> s \<in> seq c ! j}"
    using assms by auto
  then show "cell_count c' J s p = cell_count c J s p" by (simp add: cell_count_def)
qed

lemma cell_count_insert:
  assumes "i \<notin> J" and "i < cells_size c" and "finite J"
  shows "cell_count c (insert i J) s =
     (if s \<in> seq c ! i then (cell_count c J s)(pos c ! i := cell_count c J s (pos c ! i) + 1)
      else cell_count c J s)"
proof (intro HOL.ext)
  fix p
  let ?S = "\<lambda>J. {j \<in> J. j < cells_size c \<and> pos c ! j = p \<and> s \<in> seq c ! j}"
  have "?S (insert i J) = (if pos c ! i = p \<and> s \<in> seq c ! i then insert i (?S J) else ?S J)"
    using assms(2) by auto
  then have "card (?S (insert i J)) =
      (if pos c ! i = p \<and> s \<in> seq c ! i then Suc (card (?S J)) else card (?S J))"
    using assms by simp
  then show "cell_count c (insert i J) s p =
     (if s \<in> seq c ! i then (cell_count c J s)(pos c ! i := cell_count c J s (pos c ! i) + 1)
      else cell_count c J s) p"
    unfolding cell_count_def by simp
qed

lemma cell_count_remove:
  assumes "i \<in> J" and "i < cells_size c" and "finite J"
  shows "cell_count c (J - {i}) s =
     (if s \<in> seq c ! i then (cell_count c J s)(pos c ! i := cell_count c J s (pos c ! i) - 1)
      else cell_count c J s)"
proof -
  have "insert i (J - {i}) = J" using assms(1) by blast
  with cell_count_insert [of i "J - {i}" c s] assms show ?thesis by auto
qed

lemma cell_count_pos:
  assumes "i \<in> J" and "i < cells_size c" and "finite J" and "s \<in> seq c ! i"
  shows "cell_count c J s (pos c ! i) \<noteq> 0"
  using assms by (auto simp: cell_count_def card_eq_0_iff)

lemma cell_count_other_fields [simp]:
  "cell_count (c\<lparr>seq_pos := m\<rparr>) = cell_count c"
  "cell_count (c\<lparr>used := U\<rparr>) = cell_count c"
  "cell_count (c\<lparr>ext := E\<rparr>) = cell_count c"
  "cell_count (c\<lparr>shift := D\<rparr>) = cell_count c"
  "cell_count (c\<lparr>has_shift := b\<rparr>) = cell_count c"
  by (simp_all add: cell_count_def [abs_def] cells_size_def)

lemma cells_size_simps [simp]:
  "cells_size (c\<lparr>seq_pos := m\<rparr>) = cells_size c"
  "cells_size (c\<lparr>used := U\<rparr>) = cells_size c"
  "cells_size (c\<lparr>ext := E\<rparr>) = cells_size c"
  "cells_size (c\<lparr>shift := D\<rparr>) = cells_size c"
  "cells_size (c\<lparr>has_shift := b\<rparr>) = cells_size c"
  "cells_size (c\<lparr>seq := S\<rparr>) = cells_size c"
  "cells_size (c\<lparr>pos := (pos c')[i := p]\<rparr>) = cells_size c'"
  by (simp_all add: cells_size_def)

lemma seq_pos_match_other_fields [simp]:
  "seq_pos_match (c\<lparr>used := U\<rparr>) J = seq_pos_match c J"
  "seq_pos_match (c\<lparr>ext := E\<rparr>) J = seq_pos_match c J"
  "seq_pos_match (c\<lparr>shift := D\<rparr>) J = seq_pos_match c J"
  "seq_pos_match (c\<lparr>has_shift := b\<rparr>) J = seq_pos_match c J"
  by (simp_all add: seq_pos_match_def)

text \<open>Writing a cell outside \<open>J\<close> is invisible to the counts of \<open>J\<close>.\<close>

lemma cell_count_write:
  "i \<notin> J \<Longrightarrow> cell_count (c\<lparr>pos := (pos c)[i := p]\<rparr>) J = cell_count c J"
  "i \<notin> J \<Longrightarrow> cell_count (c\<lparr>seq := (seq c)[i := S]\<rparr>) J = cell_count c J"
proof -
  have neq: "i \<notin> J \<Longrightarrow> j \<in> J \<Longrightarrow> xs[i := x] ! j = xs ! j" for j and x :: 'z and xs
    by (metis nth_list_update_neq)
  show "i \<notin> J \<Longrightarrow> cell_count (c\<lparr>pos := (pos c)[i := p]\<rparr>) J = cell_count c J"
    by (rule cell_count_cong) (simp_all add: neq)
  show "i \<notin> J \<Longrightarrow> cell_count (c\<lparr>seq := (seq c)[i := S]\<rparr>) J = cell_count c J"
    by (rule cell_count_cong) (simp_all add: neq)
qed

lemma seq_pos_match_write:
  "i \<notin> J \<Longrightarrow> seq_pos_match (c\<lparr>pos := (pos c)[i := p]\<rparr>) J = seq_pos_match c J"
  "i \<notin> J \<Longrightarrow> seq_pos_match (c\<lparr>seq := (seq c)[i := S]\<rparr>) J = seq_pos_match c J"
  by (simp_all add: seq_pos_match_def cell_count_write)

lemma seq_pos_rm_match:
  assumes match: "seq_pos_match c J" and i: "i \<in> J" "i < cells_size c" "finite J"
  shows "\<exists>m. seq_pos_rm i c = Some (c\<lparr>seq_pos := m\<rparr>) \<and> seq_pos_match (c\<lparr>seq_pos := m\<rparr>) (J - {i})"
proof -
  let ?P = "\<lambda>k c'. \<exists>m. c' = c\<lparr>seq_pos := m\<rparr> \<and>
     (\<forall>s < LLAMA_MAX_SEQ. pos_map_ok (m s) (cell_count c (if s < k then J - {i} else J) s))"
  have "\<exists>c'. seq_pos_rm i c = Some c' \<and> ?P LLAMA_MAX_SEQ c'"
    unfolding seq_pos_rm_def
  proof (rule foldM_upt_inv [where P = ?P])
    show "?P 0 c" using match by (intro exI [of _ "seq_pos c"]) (simp add: seq_pos_match_def)
  next
    fix k c' assume k: "k < LLAMA_MAX_SEQ" and "?P k c'"
    then obtain m where c': "c' = c\<lparr>seq_pos := m\<rparr>"
      and m: "\<forall>s < LLAMA_MAX_SEQ. pos_map_ok (m s) (cell_count c (if s < k then J - {i} else J) s)"
      by blast
    from m k have mk: "pos_map_ok (m k) (cell_count c J k)" by auto
    show "\<exists>c''. (if k \<in> seq c' ! i then seq_pos_dec k (pos c' ! i) c' else Some c') = Some c'' \<and> ?P (Suc k) c''"
    proof (cases "k \<in> seq c ! i")
      case False
      then have "cell_count c (J - {i}) k = cell_count c J k" using cell_count_remove [OF i] by simp
      then have "?P (Suc k) c'" using m c' by (intro exI [of _ m]) (auto simp: less_Suc_eq)
      with False c' show ?thesis by simp
    next
      case True
      let ?N = "cell_count c J k" and ?p = "pos c ! i"
      let ?m' = "if int (?N ?p) - 1 = 0 then AList.delete ?p (m k) else AList.update ?p (int (?N ?p) - 1) (m k)"
      have "map_of (m k) ?p = Some (int (?N ?p)) \<and> pos_map_ok ?m' (?N(?p := ?N ?p - 1))"
        using mk cell_count_pos [OF i True] by (intro pos_map_ok_dec) simp_all
      moreover from True have "cell_count c (J - {i}) k = ?N(?p := ?N ?p - 1)"
        using cell_count_remove [OF i] by simp
      ultimately have "seq_pos_dec k ?p c' = Some (c\<lparr>seq_pos := m(k := ?m')\<rparr>)"
        and "?P (Suc k) (c\<lparr>seq_pos := m(k := ?m')\<rparr>)"
        using m by (auto simp: c' seq_pos_dec_def less_Suc_eq intro!: exI [of _ "m(k := ?m')"])
      with True c' show ?thesis by simp
    qed
  qed
  then show ?thesis by (auto simp: seq_pos_match_def)
qed

lemma seq_pos_add_match:
  assumes match: "seq_pos_match c J" and i: "i \<notin> J" "i < cells_size c" "finite J"
  shows "\<exists>m. seq_pos_add i c = c\<lparr>seq_pos := m\<rparr> \<and> seq_pos_match (c\<lparr>seq_pos := m\<rparr>) (insert i J)"
proof -
  let ?P = "\<lambda>k c'. \<exists>m. c' = c\<lparr>seq_pos := m\<rparr> \<and>
     (\<forall>s < LLAMA_MAX_SEQ. pos_map_ok (m s) (cell_count c (if s < k then insert i J else J) s))"
  have "?P LLAMA_MAX_SEQ (seq_pos_add i c)"
    unfolding seq_pos_add_def
  proof (rule fold_upt_inv [where P = ?P])
    show "?P 0 c" using match by (intro exI [of _ "seq_pos c"]) (simp add: seq_pos_match_def)
  next
    fix k c' assume k: "k < LLAMA_MAX_SEQ" and "?P k c'"
    then obtain m where c': "c' = c\<lparr>seq_pos := m\<rparr>"
      and m: "\<forall>s < LLAMA_MAX_SEQ. pos_map_ok (m s) (cell_count c (if s < k then insert i J else J) s)"
      by blast
    from m k have mk: "pos_map_ok (m k) (cell_count c J k)" by auto
    show "?P (Suc k) (if k \<in> seq c' ! i then seq_pos_inc k (pos c' ! i) c' else c')"
    proof (cases "k \<in> seq c ! i")
      case False
      then have "cell_count c (insert i J) k = cell_count c J k" using cell_count_insert [OF i] by simp
      with m c' False show ?thesis by (intro exI [of _ m]) (auto simp: less_Suc_eq)
    next
      case True
      let ?m' = "AList.update (pos c ! i) ((case map_of (m k) (pos c ! i) of None \<Rightarrow> 0 | Some k \<Rightarrow> k) + 1) (m k)"
      have "pos_map_ok ?m' (cell_count c (insert i J) k)"
        using pos_map_ok_inc mk cell_count_insert [OF i] True by simp
      with m True show ?thesis
        by (intro exI [of _ "m(k := ?m')"]) (auto simp: c' seq_pos_inc_def less_Suc_eq)
    qed
  qed
  then show ?thesis by (auto simp: seq_pos_match_def)
qed

section \<open>Writing one cell\<close>

text \<open>\<open>put_cell\<close> writes a whole cell and keeps the index set \<open>used\<close>; every operation on a cell is
  a \<open>put_cell\<close> together with the matching change of the position maps.\<close>

definition put_cell :: "nat \<Rightarrow> acell \<Rightarrow> kv_cells \<Rightarrow> kv_cells" where
  "put_cell i a c =
     c\<lparr>pos := (pos c)[i := a_pos a], ext := (ext c)[i := a_ext a], shift := (shift c)[i := a_shift a],
       seq := (seq c)[i := a_seq a],
       used := (if a_pos a = -1 then used c - {i} else insert i (used c))\<rparr>"

definition acell_ok :: "acell \<Rightarrow> bool" where
  "acell_ok a \<longleftrightarrow> -1 \<le> a_pos a \<and> a_seq a \<subseteq> {..<LLAMA_MAX_SEQ} \<and>
     (a_pos a = -1 \<longrightarrow> a_seq a = {} \<and> a_shift a = 0)"

lemma free_cell_simps [simp]:
  "a_pos (free_cell e) = -1" "a_seq (free_cell e) = {}" "a_shift (free_cell e) = 0"
  "a_ext (free_cell e) = e" "acell_ok (free_cell e)"
  by (simp_all add: free_cell_def acell_ok_def)

lemma length_abs_cells [simp]: "length (abs_cells c) = cells_size c"
  by (simp add: abs_cells_def)

lemma abs_cells_nth [simp]:
  "i < cells_size c \<Longrightarrow> abs_cells c ! i =
     \<lparr>a_pos = pos c ! i, a_ext = ext c ! i, a_shift = shift c ! i, a_seq = seq c ! i\<rparr>"
  by (simp add: abs_cells_def)

lemma cells_size_put_cell [simp]: "cells_size (put_cell i a c) = cells_size c"
  by (simp add: put_cell_def cells_size_def)

lemma abs_put_cell:
  "cells_wf c \<Longrightarrow> i < cells_size c \<Longrightarrow> abs_cells (put_cell i a c) = (abs_cells c)[i := a]"
  by (rule nth_equalityI) (auto simp: nth_list_update put_cell_def cells_wf_def cells_size_def)

lemma put_cell_wf:
  "cells_wf c \<Longrightarrow> i < cells_size c \<Longrightarrow> acell_ok a \<Longrightarrow> (\<not> has_shift c \<longrightarrow> a_shift a = 0) \<Longrightarrow>
   cells_wf (put_cell i a c)"
  by (auto simp: cells_wf_def put_cell_def cells_size_def cell_wf_def acell_ok_def nth_list_update)

lemma count_put_cell:
  assumes "cells_wf c" and i: "i < cells_size c"
  shows "cell_count (put_cell i a c) {..<cells_size c} t =
     (let N = cell_count c ({..<cells_size c} - {i}) t
      in if t \<in> a_seq a then N(a_pos a := N (a_pos a) + 1) else N)"
proof -
  let ?J = "{..<cells_size c} - {i}" and ?c = "put_cell i a c"
  have at_i: "pos ?c ! i = a_pos a" "seq ?c ! i = a_seq a"
    using assms by (simp_all add: put_cell_def cells_wf_def cells_size_def)
  have "cell_count ?c ?J = cell_count c ?J"
    by (rule cell_count_cong) (auto simp: put_cell_def nth_list_update)
  moreover have "insert i ?J = {..<cells_size c}" using i by auto
  ultimately show ?thesis
    using cell_count_insert [of i ?J ?c t] i by (simp add: at_i Let_def)
qed

lemma count_own_cell:
  assumes i: "i < cells_size c"
  shows "cell_count c {..<cells_size c} t =
     (let N = cell_count c ({..<cells_size c} - {i}) t
      in if t \<in> seq c ! i then N(pos c ! i := N (pos c ! i) + 1) else N)"
proof -
  have "insert i ({..<cells_size c} - {i}) = {..<cells_size c}" using i by auto
  then show ?thesis using cell_count_insert [of i "{..<cells_size c} - {i}" c t] i by (simp add: Let_def)
qed

lemma kv_inv_put_cell:
  assumes "kv_inv c" and "i < cells_size c" and "acell_ok a" and "\<not> has_shift c \<longrightarrow> a_shift a = 0"
    and "\<And>t. t < LLAMA_MAX_SEQ \<Longrightarrow> pos_map_ok (m t)
       (let N = cell_count c ({..<cells_size c} - {i}) t
        in if t \<in> a_seq a then N(a_pos a := N (a_pos a) + 1) else N)"
  shows "kv_inv ((put_cell i a c)\<lparr>seq_pos := m\<rparr>)"
    and "abs_cells ((put_cell i a c)\<lparr>seq_pos := m\<rparr>) = (abs_cells c)[i := a]"
proof -
  have wf: "cells_wf c" using assms(1) by (simp add: kv_inv_def)
  then have "cells_wf ((put_cell i a c)\<lparr>seq_pos := m\<rparr>)"
    using put_cell_wf [OF wf assms(2,3,4)] by (simp add: cells_wf_def cell_wf_def)
  then show "kv_inv ((put_cell i a c)\<lparr>seq_pos := m\<rparr>)"
    using assms(5) count_put_cell [OF wf assms(2), of a] by (simp add: kv_inv_def seq_pos_match_def)
  show "abs_cells ((put_cell i a c)\<lparr>seq_pos := m\<rparr>) = (abs_cells c)[i := a]"
    using abs_put_cell [OF wf assms(2), of a] by (simp add: abs_cells_def)
qed

lemma detach_own_cell:
  assumes "kv_inv c" and "i < cells_size c"
  shows "\<exists>m. seq_pos_rm i c = Some (c\<lparr>seq_pos := m\<rparr>) \<and>
     (\<forall>t < LLAMA_MAX_SEQ. pos_map_ok (m t) (cell_count c ({..<cells_size c} - {i}) t))"
  using seq_pos_rm_match [of c "{..<cells_size c}" i] assms
  by (auto simp: kv_inv_def seq_pos_match_def)

text \<open>
  \<open>cell_op c c' i a\<close>: the operation left a state that keeps the invariant and whose abstract
  cells are those of \<open>c\<close> with cell \<open>i\<close> replaced by \<open>a\<close>.
\<close>

definition cell_op :: "kv_cells \<Rightarrow> kv_cells \<Rightarrow> nat \<Rightarrow> acell \<Rightarrow> bool" where
  "cell_op c c' i a \<longleftrightarrow> kv_inv c' \<and> abs_cells c' = (abs_cells c)[i := a]"

lemma cell_op_size: "cell_op c c' i a \<Longrightarrow> cells_size c' = cells_size c"
  unfolding cell_op_def by (metis length_abs_cells length_list_update)

lemma kv_inv_cellD:
  assumes "kv_inv c" and "i < cells_size c"
  shows "-1 \<le> pos c ! i" and "seq c ! i \<subseteq> {..<LLAMA_MAX_SEQ}"
    and "pos c ! i = -1 \<Longrightarrow> seq c ! i = {} \<and> shift c ! i = 0"
    and "i \<in> used c \<longleftrightarrow> pos c ! i \<noteq> -1" and "\<not> has_shift c \<Longrightarrow> shift c ! i = 0"
  using assms by (auto simp: kv_inv_def cells_wf_def cell_wf_def)

lemma kv_inv_own_map:
  assumes "kv_inv c" and "i < cells_size c" and "t < LLAMA_MAX_SEQ"
  shows "pos_map_ok (seq_pos c t)
     (let N = cell_count c ({..<cells_size c} - {i}) t
      in if t \<in> seq c ! i then N(pos c ! i := N (pos c ! i) + 1) else N)"
  unfolding count_own_cell [OF assms(2), symmetric]
  using assms(1,3) by (simp add: kv_inv_def seq_pos_match_def)

lemma kv_inv_other_map:
  assumes "kv_inv c" and "i < cells_size c" and "t < LLAMA_MAX_SEQ" and "t \<notin> seq c ! i"
  shows "pos_map_ok (seq_pos c t) (cell_count c ({..<cells_size c} - {i}) t)"
  using kv_inv_own_map [OF assms(1,2,3)] assms(4) by simp

lemma kv_inv_same_map:
  assumes "kv_inv c" and "i < cells_size c" and "t < LLAMA_MAX_SEQ" and "t \<in> seq c ! i"
  shows "pos_map_ok (seq_pos c t) ((cell_count c ({..<cells_size c} - {i}) t)
     (pos c ! i := Suc (cell_count c ({..<cells_size c} - {i}) t (pos c ! i))))"
  using kv_inv_own_map [OF assms(1,2,3)] assms(4) by (simp add: Let_def)

text \<open>The introduction rule that every operation uses: field by field, then the position maps.\<close>

lemma cell_opI:
  assumes "kv_inv c" and "i < cells_size c" and "acell_ok a"
    and "has_shift c \<Longrightarrow> has_shift c'" and "\<not> has_shift c' \<Longrightarrow> a_shift a = 0"
    and "pos c' = (pos c)[i := a_pos a]" and "ext c' = (ext c)[i := a_ext a]"
    and "shift c' = (shift c)[i := a_shift a]" and "seq c' = (seq c)[i := a_seq a]"
    and "used c' = (if a_pos a = -1 then used c - {i} else insert i (used c))"
    and "\<And>t. t < LLAMA_MAX_SEQ \<Longrightarrow> pos_map_ok (seq_pos c' t)
       (let N = cell_count c ({..<cells_size c} - {i}) t
        in if t \<in> a_seq a then N(a_pos a := N (a_pos a) + 1) else N)"
  shows "cell_op c c' i a"
proof -
  let ?c = "c\<lparr>has_shift := has_shift c'\<rparr>"
  have inv: "kv_inv ?c"
    using assms(1,4) by (auto simp: kv_inv_def cells_wf_def cell_wf_def seq_pos_match_def)
  have "c' = (put_cell i a ?c)\<lparr>seq_pos := seq_pos c'\<rparr>"
    using assms by (intro kv_cells.equality) (simp_all add: put_cell_def)
  moreover have "abs_cells ?c = abs_cells c" by (simp add: abs_cells_def)
  ultimately show ?thesis
    unfolding cell_op_def using kv_inv_put_cell [OF inv, of i a "seq_pos c'"] assms(2,3,5,11)
    by simp
qed

lemma used_insert_eq: "kv_inv c \<Longrightarrow> i < cells_size c \<Longrightarrow> pos c ! i \<noteq> -1 \<Longrightarrow> insert i (used c) = used c"
  using kv_inv_cellD(4) by blast

lemma kv_inv_lengths:
  assumes "kv_inv c"
  shows "length (pos c) = cells_size c" "length (ext c) = cells_size c"
    "length (shift c) = cells_size c" "length (seq c) = cells_size c"
  using assms by (simp_all add: kv_inv_def cells_wf_def cells_size_def)

lemma cells_rm_op:
  assumes "kv_inv c" and "i < cells_size c" and "pos c ! i \<noteq> -1"
  shows "\<exists>c'. cells_rm i c = Some c' \<and> cell_op c c' i (free_cell ext_reset)"
proof -
  obtain m where m: "seq_pos_rm i c = Some (c\<lparr>seq_pos := m\<rparr>)"
    and ok: "\<And>t. t < LLAMA_MAX_SEQ \<Longrightarrow> pos_map_ok (m t) (cell_count c ({..<cells_size c} - {i}) t)"
    using detach_own_cell [OF assms(1,2)] by blast
  show ?thesis
    using assms(2,3) m by (auto simp: cells_rm_def intro!: cell_opI [OF assms(1,2)] ok)
qed

text \<open>Adding or removing one sequence touches one position map.\<close>

lemma seq_pos_dec_own:
  assumes inv: "kv_inv c" and i: "i < cells_size c" and s: "s < LLAMA_MAX_SEQ" "s \<in> seq c ! i"
  shows "\<exists>m. (\<forall>c'. seq_pos c' = seq_pos c \<longrightarrow>
      seq_pos_dec s (pos c ! i) c' = Some (c'\<lparr>seq_pos := (seq_pos c)(s := m)\<rparr>)) \<and>
    pos_map_ok m (cell_count c ({..<cells_size c} - {i}) s)"
proof -
  let ?N = "cell_count c ({..<cells_size c} - {i}) s" and ?p = "pos c ! i"
  have "pos_map_ok (seq_pos c s) (?N(?p := ?N ?p + 1))"
    using kv_inv_own_map [OF inv i s(1)] s by (simp add: Let_def)
  from pos_map_ok_dec [OF this, of ?p] show ?thesis
    by (intro exI [of _ "if int (?N ?p + 1) - 1 = 0 then AList.delete ?p (seq_pos c s)
          else AList.update ?p (int (?N ?p + 1) - 1) (seq_pos c s)"])
       (auto simp: seq_pos_dec_def split: if_split_asm)
qed

lemma seq_pos_inc_own:
  assumes "pos_map_ok (m s) N"
  shows "\<exists>m'. (\<forall>c'. seq_pos c' = m \<longrightarrow> seq_pos_inc s p c' = c'\<lparr>seq_pos := m(s := m')\<rparr>) \<and>
    pos_map_ok m' (N(p := N p + 1))"
  using pos_map_ok_inc [OF assms, of p] by (auto simp: seq_pos_inc_def)

lemma cells_seq_rm_op:
  assumes inv: "kv_inv c" and i: "i < cells_size c" and s: "s \<in> seq c ! i"
  shows "\<exists>c'. cells_seq_rm i s c = Some (seq c ! i = {s}, c') \<and>
     cell_op c c' i (if seq c ! i = {s} then free_cell ext_reset
                     else (abs_cells c ! i)\<lparr>a_seq := seq c ! i - {s}\<rparr>)"
proof -
  have s256: "s < LLAMA_MAX_SEQ" and p: "pos c ! i \<noteq> -1"
    using kv_inv_cellD [OF inv i] s by auto
  obtain m where dec: "\<And>c'. seq_pos c' = seq_pos c \<Longrightarrow>
      seq_pos_dec s (pos c ! i) c' = Some (c'\<lparr>seq_pos := (seq_pos c)(s := m)\<rparr>)"
    and m: "pos_map_ok m (cell_count c ({..<cells_size c} - {i}) s)"
    using seq_pos_dec_own [OF inv i s256 s] by blast
  note len = kv_inv_lengths [OF inv]
  show ?thesis
  proof (cases "seq c ! i = {s}")
    case True
    show ?thesis
      using i s s256 p True kv_inv_other_map [OF inv i] len m
      by (auto simp: cells_seq_rm_def dec Let_def list_update_swap intro!: cell_opI [OF inv i])
  next
    case False
    then have "seq c ! i - {s} \<noteq> {}" using s by blast
    then show ?thesis
      using i s s256 p False kv_inv_same_map [OF inv i] kv_inv_other_map [OF inv i] len m kv_inv_cellD [OF inv i] used_insert_eq [OF inv i p]
      by (auto simp: cells_seq_rm_def dec Let_def acell_ok_def intro!: cell_opI [OF inv i])
  qed
qed

lemma attach_own_cell:
  assumes "i < cells_size c" and size: "cells_size c1 = cells_size c"
    and same: "\<And>j. j \<noteq> i \<Longrightarrow> pos c1 ! j = pos c ! j \<and> seq c1 ! j = seq c ! j"
    and maps: "\<And>t. t < LLAMA_MAX_SEQ \<Longrightarrow> pos_map_ok (seq_pos c1 t) (cell_count c ({..<cells_size c} - {i}) t)"
  shows "\<exists>m. seq_pos_add i c1 = c1\<lparr>seq_pos := m\<rparr> \<and>
    (\<forall>t < LLAMA_MAX_SEQ. pos_map_ok (m t)
       (let N = cell_count c ({..<cells_size c} - {i}) t
        in if t \<in> seq c1 ! i then N(pos c1 ! i := N (pos c1 ! i) + 1) else N))"
proof -
  let ?J = "{..<cells_size c} - {i}"
  have cnt: "cell_count c1 ?J = cell_count c ?J"
    by (rule cell_count_cong [OF size]) (simp add: same)
  then have "seq_pos_match c1 ?J" using maps by (simp add: seq_pos_match_def)
  from seq_pos_add_match [OF this, of i] assms(1) size obtain m where
    m: "seq_pos_add i c1 = c1\<lparr>seq_pos := m\<rparr>" and "seq_pos_match (c1\<lparr>seq_pos := m\<rparr>) (insert i ?J)"
    by auto
  then have "\<forall>t < LLAMA_MAX_SEQ. pos_map_ok (m t) (cell_count c1 (insert i ?J) t)"
    by (simp add: seq_pos_match_def)
  then show ?thesis
    using cell_count_insert [of i ?J c1] assms(1) size m
    by (intro exI [of _ m]) (auto simp: cnt Let_def)
qed

lemma cells_seq_keep_op:
  assumes inv: "kv_inv c" and i: "i < cells_size c" and s: "s < LLAMA_MAX_SEQ"
    and owned: "pos c ! i \<noteq> -1 \<Longrightarrow> seq c ! i \<noteq> {}"
  shows "\<exists>c'. cells_seq_keep i s c = Some (pos c ! i \<noteq> -1 \<and> s \<notin> seq c ! i, c') \<and>
     cell_op c c' i (if s \<in> seq c ! i then (abs_cells c ! i)\<lparr>a_seq := {s}\<rparr>
                     else if pos c ! i \<noteq> -1 then free_cell ext_reset else abs_cells c ! i)"
proof -
  note len = kv_inv_lengths [OF inv] and cell = kv_inv_cellD [OF inv i]
  obtain m where m: "seq_pos_rm i c = Some (c\<lparr>seq_pos := m\<rparr>)"
    and ok: "\<And>t. t < LLAMA_MAX_SEQ \<Longrightarrow> pos_map_ok (m t) (cell_count c ({..<cells_size c} - {i}) t)"
    using detach_own_cell [OF inv i] by blast
  obtain m' where inc: "\<And>c'. seq_pos c' = m \<Longrightarrow>
      seq_pos_inc s (pos c ! i) c' = c'\<lparr>seq_pos := m(s := m')\<rparr>"
    and ok': "pos_map_ok m' ((cell_count c ({..<cells_size c} - {i}) s)
      (pos c ! i := cell_count c ({..<cells_size c} - {i}) s (pos c ! i) + 1))"
    using seq_pos_inc_own [of m s, OF ok [OF s], of "pos c ! i"] by blast
  consider "s \<in> seq c ! i" | "s \<notin> seq c ! i" "pos c ! i \<noteq> -1" | "pos c ! i = -1" "s \<notin> seq c ! i" by blast
  then show ?thesis
  proof cases
    case 1
    then have p: "pos c ! i \<noteq> -1" using cell by auto
    show ?thesis
      using 1 i s len cell ok ok' used_insert_eq [OF inv i p] p
      by (auto simp: cells_seq_keep_def m inc Let_def acell_ok_def intro!: cell_opI [OF inv i])
  next
    case 2
    then show ?thesis
      using i s len cell ok owned
      by (auto simp: cells_seq_keep_def m Let_def intro!: cell_opI [OF inv i])
  next
    case 3
    then show ?thesis
      using i s cell inv
      by (auto simp: cells_seq_keep_def cell_op_def list_update_same_conv)
  qed
qed

lemma cells_seq_add_op:
  assumes inv: "kv_inv c" and i: "i < cells_size c" and s: "s < LLAMA_MAX_SEQ" "s \<notin> seq c ! i"
    and p: "pos c ! i \<noteq> -1"
  shows "\<exists>c'. cells_seq_add i s c = Some c' \<and>
     cell_op c c' i ((abs_cells c ! i)\<lparr>a_seq := insert s (seq c ! i)\<rparr>)"
proof -
  note len = kv_inv_lengths [OF inv] and cell = kv_inv_cellD [OF inv i]
  obtain m' where inc: "\<And>c'. seq_pos c' = seq_pos c \<Longrightarrow>
      seq_pos_inc s (pos c ! i) c' = c'\<lparr>seq_pos := (seq_pos c)(s := m')\<rparr>"
    and ok': "pos_map_ok m' ((cell_count c ({..<cells_size c} - {i}) s)
      (pos c ! i := cell_count c ({..<cells_size c} - {i}) s (pos c ! i) + 1))"
    using seq_pos_inc_own [of "seq_pos c" s, OF kv_inv_other_map [OF inv i s], of "pos c ! i"] by blast
  show ?thesis
    using i s len cell p ok' kv_inv_same_map [OF inv i] kv_inv_other_map [OF inv i] used_insert_eq [OF inv i p]
    by (auto simp: cells_seq_add_def inc Let_def acell_ok_def intro!: cell_opI [OF inv i])
qed

lemma pos_set_op:
  assumes inv: "kv_inv c" and i: "i < cells_size c" and "pos c ! i = -1" and "0 \<le> p"
  shows "\<exists>c'. pos_set i p c = Some c' \<and> cell_op c c' i ((abs_cells c ! i)\<lparr>a_pos := p\<rparr>)"
  using assms kv_inv_cellD [OF inv i] kv_inv_other_map [OF inv i] kv_inv_lengths [OF inv]
  by (auto simp: pos_set_def acell_ok_def intro!: cell_opI [OF inv i])

lemma ext_set_op:
  assumes inv: "kv_inv c" and i: "i < cells_size c"
  shows "\<exists>c'. ext_set i e c = Some c' \<and> cell_op c c' i ((abs_cells c ! i)\<lparr>a_ext := e\<rparr>)"
  using i kv_inv_cellD [OF inv i] kv_inv_same_map [OF inv i] kv_inv_other_map [OF inv i] kv_inv_lengths [OF inv]
  by (auto simp: ext_set_def acell_ok_def Let_def intro!: cell_opI [OF inv i])

lemma pos_add_op:
  assumes inv: "kv_inv c" and i: "i < cells_size c" and p: "pos c ! i \<noteq> -1"
  shows "\<exists>c'. pos_add i d c = Some (i32 (pos c ! i + d) < 0, c') \<and> has_shift c' \<and>
     cell_op c c' i (if i32 (pos c ! i + d) < 0 then free_cell (ext c ! i)
       else (abs_cells c ! i)\<lparr>a_pos := i32 (pos c ! i + d), a_shift := i32 (shift c ! i + d)\<rparr>)"
proof -
  note len = kv_inv_lengths [OF inv] and cell = kv_inv_cellD [OF inv i]
  obtain m where m: "seq_pos_rm i c = Some (c\<lparr>seq_pos := m\<rparr>)"
    and ok: "\<And>t. t < LLAMA_MAX_SEQ \<Longrightarrow> pos_map_ok (m t) (cell_count c ({..<cells_size c} - {i}) t)"
    using detach_own_cell [OF inv i] by blast
  let ?c1 = "c\<lparr>seq_pos := m, pos := (pos c)[i := i32 (pos c ! i + d)], shift := (shift c)[i := i32 (shift c ! i + d)],
               has_shift := True\<rparr>"
  show ?thesis
  proof (cases "i32 (pos c ! i + d) < 0")
    case True
    then show ?thesis
      using i p len cell ok by (auto simp: pos_add_def m Let_def intro!: cell_opI [OF inv i])
  next
    case False
    obtain m' where m': "seq_pos_add i ?c1 = ?c1\<lparr>seq_pos := m'\<rparr>"
      and ok': "\<And>t. t < LLAMA_MAX_SEQ \<Longrightarrow> pos_map_ok (m' t)
       (let N = cell_count c ({..<cells_size c} - {i}) t
        in if t \<in> seq c ! i then N(i32 (pos c ! i + d) := N (i32 (pos c ! i + d)) + 1) else N)"
      using attach_own_cell [OF i, of ?c1] ok i len by (auto simp: Let_def cong: if_cong)
    show ?thesis
      using False i p len cell ok' m' used_insert_eq [OF inv i p]
      by (auto simp: pos_add_def m acell_ok_def Let_def cong: if_cong intro!: cell_opI [OF inv i])
  qed
qed

lemma pos_div_op:
  assumes inv: "kv_inv c" and i: "i < cells_size c" and p: "pos c ! i \<noteq> -1" and d: "0 < d"
  shows "\<exists>c'. pos_div i d c = Some c' \<and> has_shift c' \<and>
     cell_op c c' i ((abs_cells c ! i)\<lparr>a_pos := pos c ! i div d,
        a_shift := i32 (shift c ! i + (pos c ! i - pos c ! i div d))\<rparr>)"
proof -
  note len = kv_inv_lengths [OF inv] and cell = kv_inv_cellD [OF inv i]
  obtain m where m: "seq_pos_rm i c = Some (c\<lparr>seq_pos := m\<rparr>)"
    and ok: "\<And>t. t < LLAMA_MAX_SEQ \<Longrightarrow> pos_map_ok (m t) (cell_count c ({..<cells_size c} - {i}) t)"
    using detach_own_cell [OF inv i] by blast
  from cell p have p0: "0 \<le> pos c ! i" by simp
  then have sdiv: "pos c ! i sdiv d = pos c ! i div d"
    using d by (cases "pos c ! i = 0") (simp_all add: signed_divide_int_def)
  let ?c1 = "c\<lparr>seq_pos := m, pos := (pos c)[i := pos c ! i div d],
       shift := (shift c)[i := i32 (shift c ! i + (pos c ! i - pos c ! i div d))]\<rparr>"
  obtain m' where m': "seq_pos_add i ?c1 = ?c1\<lparr>seq_pos := m'\<rparr>"
    and ok': "\<And>t. t < LLAMA_MAX_SEQ \<Longrightarrow> pos_map_ok (m' t)
     (let N = cell_count c ({..<cells_size c} - {i}) t
      in if t \<in> seq c ! i then N(pos c ! i div d := N (pos c ! i div d) + 1) else N)"
    using attach_own_cell [OF i, of ?c1] ok i len by (auto simp: Let_def cong: if_cong)
  have "0 \<le> pos c ! i div d" using p0 d by (simp add: pos_imp_zdiv_nonneg_iff)
  then show ?thesis
    using i p p0 len cell ok' m' d used_insert_eq [OF inv i p]
    by (auto simp: pos_div_def m sdiv acell_ok_def Let_def cong: if_cong intro!: cell_opI [OF inv i])
qed

text \<open>Save and restore: writing back cell \<open>j\<close> of a saved copy.\<close>

definition acell_of :: "kv_cells \<Rightarrow> nat \<Rightarrow> acell" where
  "acell_of c i = \<lparr>a_pos = pos c ! i, a_ext = ext c ! i, a_shift = 0, a_seq = seq c ! i\<rparr>"

lemma set_cell_op:
  assumes inv: "kv_inv c" and i: "i < cells_size c" and sh: "shift c ! i = 0"
    and a: "acell_ok (acell_of other j)"
  shows "\<exists>c'. set_cell other i j c = Some c' \<and> cell_op c c' i (acell_of other j)"
proof -
  note len = kv_inv_lengths [OF inv] and cell = kv_inv_cellD [OF inv i]
  let ?q = "pos other ! j" and ?S = "seq other ! j"
  define U where "U = (if ?q = -1 then used c - {i} else insert i (used c))"
  let ?c1 = "if pos c ! i = -1 \<and> ?q \<noteq> -1 then c\<lparr>used := insert i (used c)\<rparr> else c"
  let ?c2 = "if pos ?c1 ! i \<noteq> -1 \<and> ?q = -1 then ?c1\<lparr>used := used ?c1 - {i}\<rparr> else ?c1"
  have c2: "?c2 = c\<lparr>used := U\<rparr>"
    using cell(4) used_insert_eq [OF inv i] by (auto simp: U_def intro: kv_cells.equality)
  have "\<exists>m. (if pos c ! i \<noteq> -1 then seq_pos_rm i (c\<lparr>used := U\<rparr>) else Some (c\<lparr>used := U\<rparr>)) =
        Some (c\<lparr>used := U, seq_pos := m\<rparr>) \<and>
      (\<forall>t < LLAMA_MAX_SEQ. pos_map_ok (m t) (cell_count c ({..<cells_size c} - {i}) t))"
  proof (cases "pos c ! i = -1")
    case True
    then show ?thesis
      using kv_inv_other_map [OF inv i] cell by (intro exI [of _ "seq_pos c"]) auto
  next
    case False
    have "seq_pos_match (c\<lparr>used := U\<rparr>) {..<cells_size c}" using inv by (simp add: kv_inv_def)
    from seq_pos_rm_match [OF this, of i] i False show ?thesis by (auto simp: seq_pos_match_def)
  qed
  then obtain m where m: "(if pos c ! i \<noteq> -1 then seq_pos_rm i (c\<lparr>used := U\<rparr>) else Some (c\<lparr>used := U\<rparr>)) =
        Some (c\<lparr>used := U, seq_pos := m\<rparr>)"
    and ok: "\<And>t. t < LLAMA_MAX_SEQ \<Longrightarrow> pos_map_ok (m t) (cell_count c ({..<cells_size c} - {i}) t)"
    by blast
  let ?c3 = "c\<lparr>used := U, seq_pos := m, pos := (pos c)[i := ?q], ext := (ext c)[i := ext other ! j],
      seq := (seq c)[i := ?S]\<rparr>"
  have "\<exists>m'. (if ?q \<noteq> -1 then seq_pos_add i ?c3 else ?c3) = ?c3\<lparr>seq_pos := m'\<rparr> \<and>
      (\<forall>t < LLAMA_MAX_SEQ. pos_map_ok (m' t)
        (let N = cell_count c ({..<cells_size c} - {i}) t in if t \<in> ?S then N(?q := N ?q + 1) else N))"
  proof (cases "?q = -1")
    case True
    then show ?thesis using ok a by (intro exI [of _ m]) (auto simp: acell_ok_def acell_of_def)
  next
    case False
    then show ?thesis using attach_own_cell [OF i, of ?c3] ok i len by (auto simp: Let_def cong: if_cong)
  qed
  then obtain m' where m': "(if ?q \<noteq> -1 then seq_pos_add i ?c3 else ?c3) = ?c3\<lparr>seq_pos := m'\<rparr>"
    and ok': "\<And>t. t < LLAMA_MAX_SEQ \<Longrightarrow> pos_map_ok (m' t)
        (let N = cell_count c ({..<cells_size c} - {i}) t in if t \<in> ?S then N(?q := N ?q + 1) else N)"
    by blast
  have "set_cell other i j c = Some (?c3\<lparr>seq_pos := m'\<rparr>)"
    using i sh len m m' unfolding set_cell_def Let_def c2 by (cases "?q = -1") simp_all
  moreover have "cell_op c (?c3\<lparr>seq_pos := m'\<rparr>) i (acell_of other j)"
    using a sh ok' by (intro cell_opI [OF inv i]) (simp_all add: acell_of_def U_def Let_def cong: if_cong)
  ultimately show ?thesis by blast
qed

section \<open>Whole-state operations\<close>

lemma pos_map_ok_nil: "pos_map_ok [] (\<lambda>_. 0)"
  by (simp add: pos_map_ok_def)

lemma cells_reset_inv:
  assumes "length (ext c) = cells_size c" "length (shift c) = cells_size c" "length (seq c) = cells_size c"
  shows "kv_inv (cells_reset c) \<and> abs_cells (cells_reset c) = replicate (cells_size c) (free_cell ext_reset)"
proof
  have "cell_count (cells_reset c) {..<cells_size c} t = (\<lambda>_. 0)" for t
    using assms by (auto simp: cell_count_def cells_reset_def cells_size_def)
  then show "kv_inv (cells_reset c)"
    using assms
    by (auto simp: kv_inv_def cells_wf_def cell_wf_def seq_pos_match_def cells_reset_def cells_size_def pos_map_ok_nil)
  show "abs_cells (cells_reset c) = replicate (cells_size c) (free_cell ext_reset)"
    using assms by (intro nth_equalityI) (auto simp: cells_reset_def cells_size_def free_cell_def)
qed

lemma cells_resize_inv:
  "kv_inv (cells_resize c n) \<and> abs_cells (cells_resize c n) = replicate n (free_cell ext_reset)"
  using cells_reset_inv
    [of "c\<lparr>pos := vec_resize n 0 (pos c), ext := vec_resize n ext_reset (ext c),
           shift := vec_resize n 0 (shift c), seq := vec_resize n {} (seq c)\<rparr>"]
  by (simp add: cells_resize_def cells_size_def)

lemma reset_shift_inv:
  assumes "kv_inv c"
  shows "kv_inv (reset_shift c) \<and> abs_cells (reset_shift c) = map (\<lambda>a. a\<lparr>a_shift := 0\<rparr>) (abs_cells c)"
  using assms
  by (auto simp: kv_inv_def cells_wf_def cell_wf_def seq_pos_match_def reset_shift_def abs_cells_def
      cells_size_def)

section \<open>Queries\<close>

lemma pos_map_ok_keys: "pos_map_ok m N \<Longrightarrow> fst ` set m = {p. N p \<noteq> 0}"
  unfolding dom_map_of_conv_image_fst [symmetric] by (auto simp: pos_map_ok_def dom_def)

definition seq_positions :: "kv_cells \<Rightarrow> llama_seq_id \<Rightarrow> llama_pos set" where
  "seq_positions c s = a_pos ` {a \<in> set (abs_cells c). s \<in> a_seq a}"

lemma seq_positions_nth: "seq_positions c s = {pos c ! i | i. i < cells_size c \<and> s \<in> seq c ! i}"
  by (force simp: seq_positions_def in_set_conv_nth image_iff)

lemma seq_pos_keys:
  assumes "kv_inv c" and "s < LLAMA_MAX_SEQ"
  shows "set (map fst (seq_pos c s)) = seq_positions c s"
proof -
  have "pos_map_ok (seq_pos c s) (cell_count c {..<cells_size c} s)"
    using assms by (simp add: kv_inv_def seq_pos_match_def)
  from pos_map_ok_keys [OF this] show ?thesis
    by (auto simp: seq_positions_nth cell_count_def card_eq_0_iff)
qed

lemma seq_pos_count_pos:
  assumes "kv_inv c" and "s < LLAMA_MAX_SEQ" and "p \<in> set (map fst (seq_pos c s))"
  shows "0 < the (map_of (seq_pos c s) p)"
proof -
  have ok: "pos_map_ok (seq_pos c s) (cell_count c {..<cells_size c} s)"
    using assms by (simp add: kv_inv_def seq_pos_match_def)
  from pos_map_ok_keys [OF this] assms(3) have "cell_count c {..<cells_size c} s p \<noteq> 0" by auto
  with ok show ?thesis by (simp add: pos_map_ok_def)
qed

lemma cells_seq_pos_min_max:
  assumes "kv_inv c" and "s < LLAMA_MAX_SEQ"
  shows "cells_seq_pos_min s c = Some (if seq_positions c s = {} then -1 else Min (seq_positions c s))"
    and "cells_seq_pos_max s c = Some (if seq_positions c s = {} then -1 else Max (seq_positions c s))"
proof -
  have fin: "finite (seq_positions c s)" by (simp add: seq_positions_def)
  show "cells_seq_pos_min s c = Some (if seq_positions c s = {} then -1 else Min (seq_positions c s))"
    using assms seq_pos_keys [OF assms] seq_pos_count_pos [OF assms] Min_in [OF fin]
    by (auto simp: cells_seq_pos_min_def)
  show "cells_seq_pos_max s c = Some (if seq_positions c s = {} then -1 else Max (seq_positions c s))"
    using assms seq_pos_keys [OF assms] seq_pos_count_pos [OF assms] Max_in [OF fin]
    by (auto simp: cells_seq_pos_max_def)
qed

lemma get_used_card:
  assumes "kv_inv c"
  shows "get_used c = length (filter (\<lambda>a. a_pos a \<noteq> -1) (abs_cells c))"
proof -
  have "used c = {i. i < cells_size c \<and> a_pos (abs_cells c ! i) \<noteq> -1}"
    using assms by (auto simp: kv_inv_def cells_wf_def)
  then show ?thesis by (simp add: get_used_def length_filter_conv_card)
qed

lemma used_max_p1_bound:
  assumes "kv_inv c"
  shows "used_max_p1 c \<le> cells_size c"
    and "\<And>i. used_max_p1 c \<le> i \<Longrightarrow> i < cells_size c \<Longrightarrow> pos c ! i = -1"
proof -
  have used: "used c = {i. i < cells_size c \<and> pos c ! i \<noteq> -1}"
    using assms by (simp add: kv_inv_def cells_wf_def)
  have fin: "finite (used c)" unfolding used by simp
  show "used_max_p1 c \<le> cells_size c"
  proof (cases "used c = {}")
    case False
    from Max_in [OF fin this] have "Max (used c) < cells_size c" by (subst (asm) (2) used) simp
    then show ?thesis by (simp add: used_max_p1_def)
  qed (simp add: used_max_p1_def)
  show "pos c ! i = -1" if "used_max_p1 c \<le> i" "i < cells_size c" for i
  proof (rule ccontr)
    assume "pos c ! i \<noteq> -1"
    then have "i \<in> used c" using that used by simp
    with Max_ge [OF fin, of i] that(1) show False by (auto simp: used_max_p1_def split: if_splits)
  qed
qed

section \<open>Save and restore\<close>

lemma cells_cp_idxs_Some:
  assumes "kv_inv c" and "\<And>i. i \<in> set idxs \<Longrightarrow> i < cells_size c \<and> shift c ! i = 0"
  obtains old where "cells_cp_idxs c idxs = Some old" and "cells_size old = length idxs"
    and "\<And>j. j < length idxs \<Longrightarrow> acell_of old j = abs_cells c ! (idxs ! j) \<and> acell_ok (acell_of old j)"
proof -
  obtain old where old: "cells_cp_idxs c idxs = Some old"
    and f: "pos old = map (nth (pos c)) idxs" "ext old = map (nth (ext c)) idxs" "seq old = map (nth (seq c)) idxs"
    using assms(2) by (simp add: cells_cp_idxs_def)
  have "acell_of old j = abs_cells c ! (idxs ! j) \<and> acell_ok (acell_of old j)" if "j < length idxs" for j
    using assms(2) [of "idxs ! j"] kv_inv_cellD [OF assms(1), of "idxs ! j"] that
    by (simp add: acell_of_def f acell_ok_def)
  moreover have "cells_size old = length idxs" by (simp add: cells_size_def f)
  ultimately show ?thesis using that old by blast
qed

lemma cells_set_idxs_restore:
  assumes "kv_inv c" and len: "length idxs = cells_size old"
    and cells: "\<And>j. j < length idxs \<Longrightarrow> idxs ! j < cells_size c \<and> shift c ! (idxs ! j) = 0 \<and> acell_ok (acell_of old j)"
  shows "\<exists>c'. cells_set_idxs c idxs old = Some c' \<and> kv_inv c' \<and>
    abs_cells c' = fold (\<lambda>j A. A[idxs ! j := acell_of old j]) [0..<length idxs] (abs_cells c)"
proof -
  let ?P = "\<lambda>k c'. kv_inv c' \<and> cells_size c' = cells_size c \<and> (\<forall>j < length idxs. shift c' ! (idxs ! j) = 0) \<and>
    abs_cells c' = fold (\<lambda>j A. A[idxs ! j := acell_of old j]) [0..<k] (abs_cells c)"
  have "\<exists>c'. foldM (\<lambda>j c. set_cell old (idxs ! j) j c) [0..<length idxs] c = Some c' \<and> ?P (length idxs) c'"
  proof (rule foldM_upt_inv [where P = ?P])
    show "?P 0 c" using assms by simp
  next
    fix k c' assume k: "k < length idxs" and P: "?P k c'"
    then have i: "idxs ! k < cells_size c'" "shift c' ! (idxs ! k) = 0" using cells by auto
    from set_cell_op [OF _ i, of old k] P cells k obtain c'' where
      c'': "set_cell old (idxs ! k) k c' = Some c''" and op: "cell_op c' c'' (idxs ! k) (acell_of old k)"
      by auto
    have "shift c'' ! (idxs ! j) = 0" if "j < length idxs" for j
    proof -
      have j: "idxs ! j < cells_size c'" using cells P that by simp
      have "shift c' ! (idxs ! j) = 0" using P that by blast
      then have "a_shift (abs_cells c'' ! (idxs ! j)) = 0"
        using op j i by (auto simp: cell_op_def nth_list_update acell_of_def)
      then show ?thesis using j cell_op_size [OF op] by simp
    qed
    then have "?P (Suc k) c''" using op P cell_op_size [OF op] by (simp add: cell_op_def)
    with c'' show "\<exists>c''. set_cell old (idxs ! k) k c' = Some c'' \<and> ?P (Suc k) c''" by blast
  qed
  then show ?thesis by (auto simp: cells_set_idxs_def len)
qed

lemma fold_update_nth:
  "i < length A \<Longrightarrow> (\<And>j. j \<in> set js \<Longrightarrow> f j = i \<Longrightarrow> g j = x) \<Longrightarrow>
   fold (\<lambda>j A. A[f j := g j]) js A ! i = (if i \<in> f ` set js then x else A ! i)"
  by (induction js arbitrary: A) (auto simp: nth_list_update)

lemma length_fold_update [simp]: "length (fold (\<lambda>j A. A[f j := g j]) js A) = length A"
  by (induction js arbitrary: A) simp_all

lemma cells_cp_set_idxs_roundtrip:
  assumes "kv_inv c" and "cells_cp_idxs c idxs = Some old"
    and "kv_inv c'" and size: "cells_size c' = cells_size c"
    and frame: "\<And>i. i < cells_size c \<Longrightarrow> i \<notin> set idxs \<Longrightarrow> abs_cells c' ! i = abs_cells c ! i"
    and shift: "\<And>i. i \<in> set idxs \<Longrightarrow> shift c' ! i = 0"
  shows "\<exists>c''. cells_set_idxs c' idxs old = Some c'' \<and> kv_inv c'' \<and> abs_cells c'' = abs_cells c"
proof -
  have idxs: "i < cells_size c \<and> shift c ! i = 0" if "i \<in> set idxs" for i
    using assms(2) that by (auto simp: cells_cp_idxs_def split: if_splits)
  obtain old' where "cells_cp_idxs c idxs = Some old'" and len: "cells_size old' = length idxs"
    and old: "\<And>j. j < length idxs \<Longrightarrow> acell_of old' j = abs_cells c ! (idxs ! j) \<and> acell_ok (acell_of old' j)"
    using cells_cp_idxs_Some [OF assms(1) idxs] by blast
  with assms(2) have "old' = old" by simp
  note len = len [unfolded this] and old = old [unfolded this]
  have "idxs ! j < cells_size c' \<and> shift c' ! (idxs ! j) = 0 \<and> acell_ok (acell_of old j)" if "j < length idxs" for j
    using idxs [of "idxs ! j"] shift [of "idxs ! j"] old [OF that] size that by (metis nth_mem)
  from cells_set_idxs_restore [OF assms(3) len [symmetric] this]
  obtain c'' where c'': "cells_set_idxs c' idxs old = Some c''" "kv_inv c''"
    and abs: "abs_cells c'' = fold (\<lambda>j A. A[idxs ! j := acell_of old j]) [0..<length idxs] (abs_cells c')"
    by blast
  have img: "nth idxs ` set [0..<length idxs] = set idxs"
    by (force simp: set_conv_nth)
  have "abs_cells c'' ! i = abs_cells c ! i" if i: "i < cells_size c" for i
  proof -
    have "fold (\<lambda>j A. A[idxs ! j := acell_of old j]) [0..<length idxs] (abs_cells c') ! i =
        (if i \<in> nth idxs ` set [0..<length idxs] then abs_cells c ! i else abs_cells c' ! i)"
      using i size old by (intro fold_update_nth) auto
    with frame [OF i] show ?thesis unfolding abs img by (metis (full_types))
  qed
  moreover have "length (abs_cells c'') = length (abs_cells c)"
    by (simp only: abs length_fold_update length_abs_cells size)
  ultimately have "abs_cells c'' = abs_cells c" by (simp add: list_eq_iff_nth_eq del: abs_cells_nth)
  with c'' show ?thesis by blast
qed

section \<open>Properties\<close>

lemma cell_exec_refines:
  assumes inv: "kv_inv c" and i: "i < cells_size c" and pre: "cell_pre k (abs_cells c ! i)"
  shows "\<exists>c'. cell_exec k i c = Some c' \<and> cell_op c c' i (cell_spec k (abs_cells c ! i))"
proof (cases k)
  case CRm
  then show ?thesis using cells_rm_op [OF inv i] pre i by simp
next
  case (CSeqRm s)
  then show ?thesis using cells_seq_rm_op [OF inv i, of s] pre i by (fastforce cong: if_cong)
next
  case (CSeqKeep s)
  then show ?thesis using cells_seq_keep_op [OF inv i, of s] pre i by (fastforce cong: if_cong)
next
  case (CSeqAdd s)
  then show ?thesis using cells_seq_add_op [OF inv i, of s] pre i by simp
next
  case (CPosSet p)
  then show ?thesis using pos_set_op [OF inv i, of p] pre i by simp
next
  case (CExtSet e)
  then show ?thesis using ext_set_op [OF inv i, of e] i by simp
next
  case (CPosAdd d)
  then show ?thesis using pos_add_op [OF inv i, of d] pre i by (fastforce cong: if_cong)
next
  case (CPosDiv d)
  then show ?thesis using pos_div_op [OF inv i, of d] pre i by auto
qed

text \<open>C1: On a state that satisfies the cell invariant, each cell operation other than \<^verbatim>\<open>pos_div\<close>, called within its
  contract (its assertions hold, and the sums of \<^verbatim>\<open>pos_add\<close> do not overflow 32 bits), does not abort, keeps the
  invariant (the index set \<^verbatim>\<open>used\<close>, the per-sequence position maps and their counts, the shift flag) and changes
  exactly its own cell as specified. \<^verbatim>\<open>pos_div\<close> is left out because the shift that it records is not the
  displacement.\<close>

theorem kv_cell_operations_refine:
  assumes "kv_inv c" and "i < cells_size c" and "cell_pre k (abs_cells c ! i)" and "\<And>d. k \<noteq> CPosDiv d"
  shows "\<exists>c'. cell_exec k i c = Some c' \<and> kv_inv c' \<and>
    abs_cells c' = (abs_cells c)[i := cell_spec k (abs_cells c ! i)]"
  using cell_exec_refines [OF assms(1-3)] by (simp add: cell_op_def)

lemma resized_cells [simp]:
  "kv_inv (cells_resize c n)" "abs_cells (cells_resize c n) = replicate n (free_cell ext_reset)"
  "cells_size (cells_resize c n) = n"
proof -
  show "kv_inv (cells_resize c n)" and a: "abs_cells (cells_resize c n) = replicate n (free_cell ext_reset)"
    using cells_resize_inv [of c n] by auto
  show "cells_size (cells_resize c n) = n" using arg_cong [OF a, of length] by simp
qed

theorem kv_cell_operations_refine_witness:
  "\<exists>c'. cell_exec (CPosSet 7) 1 (cells_resize empty_cells 2) = Some c' \<and> kv_inv c' \<and>
    abs_cells c' = [free_cell ext_reset, (free_cell ext_reset)\<lparr>a_pos := 7\<rparr>]"
proof -
  have "abs_cells (cells_resize empty_cells 2) = [free_cell ext_reset, free_cell ext_reset]"
    by (simp add: numeral_2_eq_2)
  then show ?thesis
    using kv_cell_operations_refine [of "cells_resize empty_cells 2" 1 "CPosSet 7"]
    by (simp del: abs_cells_nth)
qed

text \<open>\<^verbatim>\<open>seq_pos_min\<close> and \<^verbatim>\<open>seq_pos_max\<close>, which read the ordered map, return the
  smallest and largest position among the cells that hold the sequence, and -1 when there is none;
  their internal assertion on the count never fails.\<close>

theorem cells_seq_pos_min_max_correct:
  assumes "kv_inv c" and "s < LLAMA_MAX_SEQ"
  shows "cells_seq_pos_min s c = Some (if seq_positions c s = {} then -1 else Min (seq_positions c s)) \<and>
     cells_seq_pos_max s c = Some (if seq_positions c s = {} then -1 else Max (seq_positions c s))"
  using cells_seq_pos_min_max [OF assms] by simp

theorem cells_seq_pos_min_max_correct_witness:
  "\<exists>c. kv_inv c \<and> cells_seq_pos_min 3 c = Some 7 \<and> cells_seq_pos_max 3 c = Some 7"
proof -
  let ?f = "free_cell ext_reset"
  obtain c where c: "kv_inv c" "abs_cells c = [?f, ?f\<lparr>a_pos := 7\<rparr>]"
    using cell_exec_refines [of "cells_resize empty_cells 2" 1 "CPosSet 7"]
    by (auto simp: cell_op_def numeral_2_eq_2 simp del: abs_cells_nth)
  then have size: "cells_size c = 2" by (simp flip: length_abs_cells)
  obtain c' where c': "kv_inv c'" "abs_cells c' = [?f, ?f\<lparr>a_pos := 7, a_seq := {3}\<rparr>]"
    using cell_exec_refines [OF c(1), of 1 "CSeqAdd 3"] size c(2)
    by (auto simp: cell_op_def simp del: abs_cells_nth)
  then have "seq_positions c' 3 = {7}" by (force simp: seq_positions_def image_iff)
  with cells_seq_pos_min_max_correct [OF c'(1), of 3] c'(1) show ?thesis by auto
qed

text \<open>Saving a list of cells with \<^verbatim>\<open>cp\<close> and writing the copy back with \<^verbatim>\<open>set\<close> after any
  change confined to those cells (and leaving their shift zero) restores every cell, and the
  index set and position maps with them.\<close>

theorem cells_cp_set_roundtrip:
  assumes "kv_inv c" and "cells_cp_idxs c idxs = Some old"
    and "kv_inv c'" and "cells_size c' = cells_size c"
    and "\<And>i. i < cells_size c \<Longrightarrow> i \<notin> set idxs \<Longrightarrow> abs_cells c' ! i = abs_cells c ! i"
    and "\<And>i. i \<in> set idxs \<Longrightarrow> shift c' ! i = 0"
  shows "\<exists>c''. cells_set_idxs c' idxs old = Some c'' \<and> kv_inv c'' \<and> abs_cells c'' = abs_cells c"
  by (rule cells_cp_set_idxs_roundtrip [OF assms])

theorem cells_cp_set_roundtrip_witness:
  "\<exists>old c' c''. cells_cp_idxs (cells_resize empty_cells 2) [1] = Some old \<and>
     cell_exec (CPosSet 7) 1 (cells_resize empty_cells 2) = Some c' \<and>
     cells_set_idxs c' [1] old = Some c'' \<and> kv_inv c'' \<and>
     abs_cells c'' = [free_cell ext_reset, free_cell ext_reset]"
proof -
  let ?c = "cells_resize empty_cells 2" and ?f = "free_cell ext_reset"
  have A: "abs_cells ?c = [?f, ?f]" by (simp add: numeral_2_eq_2)
  have sh: "shift ?c ! 1 = 0" using A abs_cells_nth [of 1 ?c] by (simp add: free_cell_def)
  then obtain old where old: "cells_cp_idxs ?c [1] = Some old" by (simp add: cells_cp_idxs_def)
  obtain c' where c': "cell_exec (CPosSet 7) 1 ?c = Some c'" "kv_inv c'" "abs_cells c' = [?f, ?f\<lparr>a_pos := 7\<rparr>]"
    using cell_exec_refines [of ?c 1 "CPosSet 7"] A by (auto simp: cell_op_def simp del: abs_cells_nth)
  have size: "cells_size c' = 2" by (simp add: c'(3) flip: length_abs_cells)
  have "shift c' ! 1 = 0" using c'(3) abs_cells_nth [of 1 c'] size by (simp add: free_cell_def)
  then have "\<exists>c''. cells_set_idxs c' [1] old = Some c'' \<and> kv_inv c'' \<and> abs_cells c'' = abs_cells ?c"
    using size c'(2,3) A
    by (intro cells_cp_set_roundtrip [OF _ old]) (auto simp: less_2_cases_iff simp del: abs_cells_nth)
  with old c'(1) A show ?thesis by auto
qed

end
