(* ===== verification/Batch.thy ===== *)
theory Batch
  imports Prelude
begin

text \<open>
  \<^verbatim>\<open>src/llama-batch.{h,cpp}\<close>: sanitising a batch (\<^verbatim>\<open>llama_batch_allocr::init\<close>) and splitting it into
  micro-batches (\<^verbatim>\<open>split_simple\<close>, \<^verbatim>\<open>split_equal\<close>, \<^verbatim>\<open>split_seq\<close>).
\<close>

section \<open>Definitions\<close>

text \<open>A C pointer that may be null is an option; the floats of an embedding are only copied, so they
  are their bit patterns. Positions and sequence ids are unbounded integers.\<close>

record llama_batch =
  b_n_tokens :: nat
  b_token :: "int list option"
  b_embd :: "u32 list option"
  b_pos :: "int list option"
  b_n_seq_id :: "int list option"
  b_seq_id :: "int list list option"
  b_logits :: "int list option"

record llama_ubatch =
  b_equal_seqs :: bool
  u_n_tokens :: nat
  u_n_seq_tokens :: nat
  u_n_seqs :: nat
  u_n_seqs_unq :: nat
  u_n_pos :: nat
  u_token :: "int list option"
  u_embd :: "u32 list option"
  u_pos :: "int list"
  u_n_seq_id :: "int list"
  u_seq_id :: "int list list"
  u_seq_id_unq :: "nat list"
  u_seq_idx :: "int list"
  u_output :: "int list"

definition is_pos_2d :: "llama_ubatch \<Rightarrow> bool" where
  "is_pos_2d u \<longleftrightarrow> u_n_pos u \<ge> 3"

definition empty_ubatch :: llama_ubatch where
  "empty_ubatch = \<lparr>b_equal_seqs = False, u_n_tokens = 0, u_n_seq_tokens = 0, u_n_seqs = 0,
     u_n_seqs_unq = 0, u_n_pos = 0, u_token = None, u_embd = None, u_pos = [], u_n_seq_id = [],
     u_seq_id = [], u_seq_id_unq = [], u_seq_idx = [], u_output = []\<rparr>"

record llama_batch_allocr =
  ba_batch :: llama_batch
  ba_n_pos_per_embd :: nat
  ba_n_embd :: nat
  ba_n_seq_max :: nat
  ba_n_outputs :: nat
  ba_seq_id_unq :: "nat list"
  ba_seq_idx :: "int list"
  ba_has_cpl :: bool
  ba_seq_pos :: "int set list"
  ba_seq_cpl :: "(nat \<times> nat) set"
  ba_seq_set :: "nat set list"
  ba_seq_set_map :: "nat set \<Rightarrow> nat list"
  ba_out_ids :: "nat list"
  ba_n_used :: nat
  ba_used :: "bool list"

definition null_batch :: llama_batch where
  "null_batch = \<lparr>b_n_tokens = 0, b_token = None, b_embd = None, b_pos = None, b_n_seq_id = None,
     b_seq_id = None, b_logits = None\<rparr>"

definition batch_allocr :: "nat \<Rightarrow> llama_batch_allocr" where
  "batch_allocr npe = \<lparr>ba_batch = null_batch, ba_n_pos_per_embd = npe, ba_n_embd = 0, ba_n_seq_max = 0,
     ba_n_outputs = 0, ba_seq_id_unq = [], ba_seq_idx = replicate LLAMA_MAX_SEQ (-1), ba_has_cpl = False,
     ba_seq_pos = replicate LLAMA_MAX_SEQ {}, ba_seq_cpl = {}, ba_seq_set = [],
     ba_seq_set_map = (\<lambda>_. []), ba_out_ids = [], ba_n_used = 0, ba_used = []\<rparr>"

definition llama_batch_get_one :: "int list \<Rightarrow> llama_batch" where
  "llama_batch_get_one tokens = null_batch\<lparr>b_n_tokens := length tokens, b_token := Some tokens\<rparr>"

definition ba_clear :: "llama_batch_allocr \<Rightarrow> llama_batch_allocr" where
  "ba_clear a = a\<lparr>ba_n_outputs := 0, ba_batch := null_batch, ba_seq_id_unq := [],
     ba_seq_pos := map (\<lambda>_. {}) (ba_seq_pos a), ba_seq_cpl := {}, ba_seq_set := [],
     ba_seq_set_map := (\<lambda>_. []), ba_seq_idx := map (\<lambda>_. -1) (ba_seq_idx a)\<rparr>"

definition get_n_tokens :: "llama_batch_allocr \<Rightarrow> nat" where
  "get_n_tokens a = b_n_tokens (ba_batch a)"

definition split_reset :: "llama_batch_allocr \<Rightarrow> llama_batch_allocr" where
  "split_reset a = a\<lparr>ba_out_ids := [], ba_n_used := 0, ba_used := replicate (get_n_tokens a) False\<rparr>"

definition ba_seq_pos_min :: "llama_batch_allocr \<Rightarrow> nat \<Rightarrow> int" where
  "ba_seq_pos_min a s = (if ba_seq_pos a ! s = {} then -1 else Min (ba_seq_pos a ! s))"

definition ba_seq_pos_max :: "llama_batch_allocr \<Rightarrow> nat \<Rightarrow> int" where
  "ba_seq_pos_max a s = (if ba_seq_pos a ! s = {} then -1 else Max (ba_seq_pos a ! s))"

subsection \<open>Sanitising the input: \<^verbatim>\<open>init\<close>\<close>

text \<open>The memory module seen by \<^verbatim>\<open>init\<close>: the two virtual functions it calls.\<close>

record memory_view =
  mem_pos_min :: "nat \<Rightarrow> int option"
  mem_pos_max :: "nat \<Rightarrow> int option"

text \<open>The contract of the C interface: a non-null pointer points to one entry per token; \<open>shape_ok\<close>
  also says that the sequence ids of a token can be read (the code reads \<^verbatim>\<open>seq_id[i][0]\<close> in any case).\<close>

definition arrays_ok :: "llama_batch \<Rightarrow> bool" where
  "arrays_ok b \<longleftrightarrow>
     (case b_token b of None \<Rightarrow> True | Some xs \<Rightarrow> length xs = b_n_tokens b) \<and>
     (case b_pos b of None \<Rightarrow> True | Some xs \<Rightarrow> b_n_tokens b \<le> length xs) \<and>
     (case b_n_seq_id b of None \<Rightarrow> True | Some xs \<Rightarrow> length xs = b_n_tokens b) \<and>
     (case b_seq_id b of None \<Rightarrow> True | Some xs \<Rightarrow> length xs = b_n_tokens b) \<and>
     (case b_logits b of None \<Rightarrow> True | Some xs \<Rightarrow> length xs = b_n_tokens b)"

definition seqs_readable :: "int list \<Rightarrow> int list list \<Rightarrow> bool" where
  "seqs_readable ns ids \<longleftrightarrow>
     list_all2 (\<lambda>k xs. nat k \<le> length xs \<and> xs \<noteq> []) ns ids"

text \<open>The sequence ids of token \<open>i\<close>: the first \<^verbatim>\<open>n_seq_id[i]\<close> entries of \<^verbatim>\<open>seq_id[i]\<close>.\<close>

definition seqs_of :: "llama_batch \<Rightarrow> nat \<Rightarrow> int list" where
  "seqs_of b i = take (nat (the (b_n_seq_id b) ! i)) (the (b_seq_id b) ! i)"

definition tokens_valid :: "llama_batch \<Rightarrow> nat \<Rightarrow> bool" where
  "tokens_valid b n_vocab \<longleftrightarrow>
     (case b_token b of None \<Rightarrow> True
      | Some ts \<Rightarrow> list_all (\<lambda>t. \<not> (t < 0 \<or> t \<ge> int n_vocab)) ts)"

definition seq_ids_valid :: "llama_batch \<Rightarrow> nat \<Rightarrow> bool" where
  "seq_ids_valid b n_seq_max \<longleftrightarrow>
     list_all (\<lambda>i. list_all (\<lambda>s. \<not> (s < 0 \<or> s \<ge> int n_seq_max)) (seqs_of b i)) [0..<b_n_tokens b]"

definition gen_n_seq_id :: "llama_batch \<Rightarrow> llama_batch" where
  "gen_n_seq_id b =
     (case b_n_seq_id b of None \<Rightarrow> b\<lparr>b_n_seq_id := Some (replicate (b_n_tokens b) 1)\<rparr> | Some _ \<Rightarrow> b)"

definition gen_seq_id :: "llama_batch \<Rightarrow> llama_batch" where
  "gen_seq_id b =
     (case b_seq_id b of None \<Rightarrow> b\<lparr>b_seq_id := Some (replicate (b_n_tokens b) [0])\<rparr> | Some _ \<Rightarrow> b)"

text \<open>The start positions \<^verbatim>\<open>p0\<close>; entries from \<^verbatim>\<open>n_seq_max\<close> on stay uninitialised in the code.\<close>

fun start_positions :: "memory_view option \<Rightarrow> nat list \<Rightarrow> int list option" where
  "start_positions mem [] = Some []"
| "start_positions mem (s # ss) = do {
     p \<leftarrow> (case mem of None \<Rightarrow> Some 0 | Some m \<Rightarrow> map_option (\<lambda>p. p + 1) (mem_pos_max m s));
     ps \<leftarrow> start_positions mem ss;
     Some (p # ps) }"

fun gen_positions :: "llama_batch \<Rightarrow> nat list \<Rightarrow> int list \<Rightarrow> int list option" where
  "gen_positions b [] p0 = Some []"
| "gen_positions b (i # is) p0 = do {
     let s = the (b_seq_id b) ! i ! 0;
     assert_opt (0 \<le> s \<and> nat s < length p0);
     let p = p0 ! nat s;
     let p0 = fold (\<lambda>s p0. p0[nat s := p + 1]) (seqs_of b i) p0;
     ps \<leftarrow> gen_positions b is p0;
     Some (p # ps) }"

definition gen_pos :: "memory_view option \<Rightarrow> nat \<Rightarrow> llama_batch \<Rightarrow> llama_batch option" where
  "gen_pos mem n_seq_max b =
     (case b_pos b of
        Some _ \<Rightarrow> Some b
      | None \<Rightarrow> do {
          p0 \<leftarrow> start_positions mem [0..<n_seq_max];
          ps \<leftarrow> gen_positions b [0..<b_n_tokens b] p0;
          Some (b\<lparr>b_pos := Some ps\<rparr>) })"

definition gen_logits :: "bool \<Rightarrow> llama_batch \<Rightarrow> llama_batch" where
  "gen_logits output_all b =
     (case b_logits b of
        None \<Rightarrow>
          b\<lparr>b_logits := Some (if output_all then replicate (b_n_tokens b) 1
                              else (replicate (b_n_tokens b) 0)[b_n_tokens b - 1 := 1])\<rparr>
      | Some ls \<Rightarrow>
          if output_all \<and> \<not> list_all (\<lambda>l. l \<noteq> 0) ls
          then b\<lparr>b_logits := Some (replicate (b_n_tokens b) 1)\<rparr>
          else b)"

text \<open>Statistics: the positions of each sequence, the coupled sequences, the sequence sets.\<close>

definition note_token :: "llama_batch \<Rightarrow> nat \<Rightarrow> llama_batch_allocr \<Rightarrow> llama_batch_allocr" where
  "note_token b i a =
     (let s0 = nat (the (b_seq_id b) ! i ! 0) in
      fold (\<lambda>(s, s1) a.
          let a = a\<lparr>ba_seq_pos := (ba_seq_pos a)[nat s1 := insert (the (b_pos b) ! i) (ba_seq_pos a ! nat s1)]\<rparr>
          in if s > 0 then a\<lparr>ba_seq_cpl := insert (nat s1, s0) (ba_seq_cpl a), ba_has_cpl := True\<rparr> else a)
        (enumerate 0 (seqs_of b i)) a)"

definition note_seq_set :: "llama_batch \<Rightarrow> nat \<Rightarrow> llama_batch_allocr \<Rightarrow> llama_batch_allocr" where
  "note_seq_set b i a =
     (let cur = nat ` set (seqs_of b i) in
      a\<lparr>ba_seq_set := ba_seq_set a @ [cur],
        ba_seq_set_map := (ba_seq_set_map a)(cur := ba_seq_set_map a cur @ [i])\<rparr>)"

definition note_seq_id_unq :: "llama_batch \<Rightarrow> nat \<Rightarrow> llama_batch_allocr \<Rightarrow> llama_batch_allocr" where
  "note_seq_id_unq b s a =
     (if list_ex (\<lambda>i. int s \<in> set (seqs_of b i)) [0..<b_n_tokens b] then
        a\<lparr>ba_seq_idx := (ba_seq_idx a)[s := int (length (ba_seq_id_unq a))],
          ba_seq_id_unq := ba_seq_id_unq a @ [s]\<rparr>
      else a)"

definition compute_stats :: "llama_batch \<Rightarrow> nat \<Rightarrow> nat \<Rightarrow> llama_batch_allocr \<Rightarrow> llama_batch_allocr" where
  "compute_stats b n_embd n_seq_max a =
     (let a = a\<lparr>ba_n_embd := n_embd, ba_n_seq_max := n_seq_max,
                ba_n_outputs := ba_n_outputs a + length (filter (\<lambda>l. l \<noteq> 0) (the (b_logits b))),
                ba_has_cpl := False\<rparr>;
          a = fold (note_token b) [0..<b_n_tokens b] a;
          a = fold (note_seq_set b) [0..<b_n_tokens b] a
      in fold (note_seq_id_unq b) [0..<n_seq_max] a)"

text \<open>Consistency checks against the memory: \<^verbatim>\<open>Some False\<close> rejects the batch.\<close>

definition mem_max :: "memory_view option \<Rightarrow> nat \<Rightarrow> int option" where
  "mem_max mem s = (case mem of None \<Rightarrow> Some (-1) | Some m \<Rightarrow> mem_pos_max m s)"

definition check_seq_mrope :: "memory_view option \<Rightarrow> llama_batch_allocr \<Rightarrow> nat \<Rightarrow> bool option" where
  "check_seq_mrope mem a s =
     (if ba_seq_pos a ! s = {} then Some True
      else do {
        p0 \<leftarrow> mem_max mem s;
        if b_token (ba_batch a) \<noteq> None then Some (\<not> (p0 \<ge> 0 \<and> p0 \<ge> ba_seq_pos_min a s))
        else Some (\<not> (p0 \<ge> 0 \<and> p0 > ba_seq_pos_min a s)) })"

definition check_seq_plain :: "memory_view option \<Rightarrow> llama_batch_allocr \<Rightarrow> nat \<Rightarrow> bool option" where
  "check_seq_plain mem a s =
     (if ba_seq_pos a ! s = {} then Some True
      else do {
        p0 \<leftarrow> mem_max mem s;
        if p0 \<ge> 0 \<and> ba_seq_pos_min a s \<noteq> i32 (p0 + 1) then Some False
        else Some (\<not> (i32 (ba_seq_pos_max a s - ba_seq_pos_min a s + 1) > i32 (int (card (ba_seq_pos a ! s))))) })"

definition check_cpl :: "memory_view \<Rightarrow> llama_batch_allocr \<Rightarrow> nat \<times> nat \<Rightarrow> bool option" where
  "check_cpl m a = (\<lambda>(s0, s1).
     (if (s0, s1) \<in> ba_seq_cpl a then do {
        min0 \<leftarrow> mem_pos_min m s0; min1 \<leftarrow> mem_pos_min m s1;
        max0 \<leftarrow> mem_pos_max m s0; max1 \<leftarrow> mem_pos_max m s1;
        Some (\<not> (min0 \<noteq> min1 \<or> max0 \<noteq> max1)) }
      else Some True))"

text \<open>A loop of checks that stops at the first one that fails.\<close>

fun all_checks :: "('x \<Rightarrow> bool option) \<Rightarrow> 'x list \<Rightarrow> bool option" where
  "all_checks f [] = Some True"
| "all_checks f (x # xs) = (case f x of None \<Rightarrow> None | Some ok \<Rightarrow> if ok then all_checks f xs else Some False)"

text \<open>The last block: \<^verbatim>\<open>cur_seq_set\<close> starts with all bits set, \<^verbatim>\<open>cur_seq_pos\<close> with -1 and is never
  written again.\<close>

fun subset_check_token :: "llama_batch_allocr \<Rightarrow> nat \<Rightarrow> int \<Rightarrow> int list \<Rightarrow> nat set list \<times> int list \<Rightarrow>
    (nat set list \<times> int list) option" where
  "subset_check_token a i p [] (cs, cp) = Some (cs, cp)"
| "subset_check_token a i p (s # ss) (cs, cp) =
     (let cs' = cs[nat s := cs ! nat s \<inter> ba_seq_set a ! i] in
      if cs' ! nat s = {} then None
      else if p < cp ! nat s then None
      else subset_check_token a i p ss (cs', cp))"

definition subset_check :: "llama_batch \<Rightarrow> llama_batch_allocr \<Rightarrow> nat \<Rightarrow> bool" where
  "subset_check b a n_seq_max =
     (foldM (\<lambda>i st. subset_check_token a i (the (b_pos b) ! i) (seqs_of b i) st) [0..<b_n_tokens b]
        (replicate n_seq_max {..<LLAMA_MAX_SEQ}, replicate n_seq_max (-1)) \<noteq> None)"

text \<open>\<^verbatim>\<open>init\<close>: \<open>None\<close> aborts, \<open>Some (ok, a)\<close> returns \<open>ok\<close> and leaves the object in state \<open>a\<close>.\<close>

definition batch_init :: "llama_batch \<Rightarrow> nat \<Rightarrow> memory_view option \<Rightarrow> nat \<Rightarrow> nat \<Rightarrow> bool \<Rightarrow>
    llama_batch_allocr \<Rightarrow> (bool \<times> llama_batch_allocr) option" where
  "batch_init b_inp n_vocab mem n_embd n_seq_max output_all a0 = do {
     let b = b_inp;
     let a = (ba_clear a0)\<lparr>ba_batch := b\<rparr>;
     assert_opt (arrays_ok b \<and> (case b_embd b of None \<Rightarrow> True | Some es \<Rightarrow> length es = b_n_tokens b * n_embd));
     assert_opt (b_n_tokens b > 0);
     if n_seq_max > LLAMA_MAX_SEQ then Some (False, a)
     else if \<not> tokens_valid b n_vocab then Some (False, a)
     else do {
       assert_opt (b_seq_id b \<noteq> None \<longrightarrow> b_n_seq_id b \<noteq> None \<and> seqs_readable (the (b_n_seq_id b)) (the (b_seq_id b)));
       if b_seq_id b \<noteq> None \<and> \<not> seq_ids_valid b n_seq_max then Some (False, a)
       else do {
         let b = gen_seq_id (gen_n_seq_id b);
         assert_opt (seqs_readable (the (b_n_seq_id b)) (the (b_seq_id b)));
         assert_opt (seq_ids_valid b n_seq_max);
         b \<leftarrow> gen_pos mem n_seq_max b;
         let b = gen_logits output_all b;
         let a = compute_stats b n_embd n_seq_max (a\<lparr>ba_batch := b\<rparr>);
         ok \<leftarrow> (if ba_n_pos_per_embd a > 1 then all_checks (check_seq_mrope mem a) [0..<n_seq_max]
                 else all_checks (check_seq_plain mem a) [0..<n_seq_max]);
         if \<not> ok then Some (False, a)
         else do {
           ok \<leftarrow> (case mem of None \<Rightarrow> Some True
                   | Some m \<Rightarrow> all_checks (check_cpl m a) (List.product [0..<n_seq_max] [0..<n_seq_max]));
           if \<not> ok then Some (False, a)
           else if \<not> subset_check b a n_seq_max then Some (False, a)
           else Some (True, split_reset a) } } } }"

subsection \<open>Micro-batches\<close>

text \<open>One entry of \<^verbatim>\<open>ubatch_add\<close>'s position array; the source index can leave the array when
  embeddings come without positions.\<close>

definition ubatch_pos :: "llama_batch_allocr \<Rightarrow> nat list \<Rightarrow> int list option" where
  "ubatch_pos a idxs =
     (let b = ba_batch a;
          src = concat (map (\<lambda>j. map (\<lambda>i. (if b_token b \<noteq> None then 0 else j * b_n_tokens b) + i) idxs)
                  [0..<ba_n_pos_per_embd a])
      in if list_all (\<lambda>k. k < length (the (b_pos b))) src then Some (map (nth (the (b_pos b))) src) else None)"

definition ubatch_seq_id_unq :: "llama_batch_allocr \<Rightarrow> nat list \<Rightarrow> nat list" where
  "ubatch_seq_id_unq a idxs =
     filter (\<lambda>s. list_ex (\<lambda>i. int s \<in> set (seqs_of (ba_batch a) i)) idxs) [0..<ba_n_seq_max a]"

definition ubatch_seq_idx :: "nat list \<Rightarrow> int list" where
  "ubatch_seq_idx unq =
     fold (\<lambda>(k, s) idx. idx[s := int k]) (enumerate 0 unq) (replicate LLAMA_MAX_SEQ (-1))"

definition ubatch_add :: "nat list \<Rightarrow> nat \<Rightarrow> bool \<Rightarrow> llama_batch_allocr \<Rightarrow>
    (llama_ubatch \<times> llama_batch_allocr) option" where
  "ubatch_add idxs n_seqs equal_seqs a = do {
     let b = ba_batch a;
     assert_opt (n_seqs \<noteq> 0 \<and> length idxs mod n_seqs = 0);
     ps \<leftarrow> ubatch_pos a idxs;
     let unq = ubatch_seq_id_unq a idxs;
     Some (\<lparr>b_equal_seqs = equal_seqs, u_n_tokens = length idxs, u_n_seq_tokens = length idxs div n_seqs,
            u_n_seqs = n_seqs, u_n_seqs_unq = length unq, u_n_pos = ba_n_pos_per_embd a,
            u_token = map_option (\<lambda>ts. map (nth ts) idxs) (b_token b),
            u_embd = map_option (\<lambda>es. concat (map (\<lambda>i. take (ba_n_embd a) (drop (i * ba_n_embd a) es)) idxs)) (b_embd b),
            u_pos = ps,
            u_n_seq_id = map (nth (the (b_n_seq_id b))) idxs,
            u_seq_id = map (nth (the (b_seq_id b))) idxs,
            u_seq_id_unq = unq, u_seq_idx = ubatch_seq_idx unq,
            u_output = map (nth (the (b_logits b))) idxs\<rparr>,
           a\<lparr>ba_out_ids := ba_out_ids a @ filter (\<lambda>i. the (b_logits b) ! i \<noteq> 0) idxs\<rparr>) }"

definition ubatch_reserve :: "nat \<Rightarrow> nat \<Rightarrow> llama_batch_allocr \<Rightarrow> (llama_ubatch \<times> llama_batch_allocr) option" where
  "ubatch_reserve n_seq_tokens n_seqs a = do {
     let n = n_seq_tokens * n_seqs;
     let a = split_reset (ba_clear a);
     assert_opt (n_seqs \<le> LLAMA_MAX_SEQ);
     Some (\<lparr>b_equal_seqs = True, u_n_tokens = n, u_n_seq_tokens = n_seq_tokens, u_n_seqs = n_seqs,
            u_n_seqs_unq = n_seqs, u_n_pos = ba_n_pos_per_embd a, u_token = Some (replicate n 0),
            u_embd = None, u_pos = replicate n 0, u_n_seq_id = replicate n 0, u_seq_id = replicate n [],
            u_seq_id_unq = [0..<n_seqs], u_seq_idx = ubatch_seq_idx [0..<n_seqs],
            u_output = replicate n 0\<rparr>, a) }"

text \<open>Marking tokens as used.\<close>

definition mark_used :: "nat list \<Rightarrow> llama_batch_allocr \<Rightarrow> llama_batch_allocr" where
  "mark_used idxs a = a\<lparr>ba_used := fold (\<lambda>i u. u[i := True]) idxs (ba_used a),
                        ba_n_used := ba_n_used a + length idxs\<rparr>"

definition first_unused :: "llama_batch_allocr \<Rightarrow> nat" where
  "first_unused a = length (takeWhile id (ba_used a))"

function simple_idxs :: "nat \<Rightarrow> nat \<Rightarrow> nat \<Rightarrow> nat list \<Rightarrow> nat list" where
  "simple_idxs n_ubatch n cur idxs =
     (let idxs = idxs @ [cur] in
      if Suc cur \<ge> n then idxs
      else if length idxs \<ge> n_ubatch then idxs
      else simple_idxs n_ubatch n (Suc cur) idxs)"
  by pat_completeness auto
termination by (relation "measure (\<lambda>(_, n, cur, _). n - cur)") auto

definition split_simple :: "nat \<Rightarrow> llama_batch_allocr \<Rightarrow> (llama_ubatch \<times> llama_batch_allocr) option" where
  "split_simple n_ubatch a =
     (if first_unused a \<ge> length (ba_used a) then Some (empty_ubatch, a)
      else let idxs = simple_idxs n_ubatch (length (ba_used a)) (first_unused a) []
           in ubatch_add idxs (length idxs) False (mark_used idxs a))"

text \<open>\<^verbatim>\<open>split_equal\<close>: collect disjoint sequence sets, then take one token of each per round.\<close>

fun equal_sets :: "llama_batch_allocr \<Rightarrow> nat \<Rightarrow> bool \<Rightarrow> nat list \<Rightarrow> nat set list \<Rightarrow> int \<Rightarrow> nat set list" where
  "equal_sets a n_ubatch sequential [] sets last_id = sets"
| "equal_sets a n_ubatch sequential (i # is) sets last_id =
     (if ba_used a ! i then equal_sets a n_ubatch sequential is sets last_id
      else let id0 = the (b_seq_id (ba_batch a)) ! i ! 0;
               ok = list_all (\<lambda>S. S \<inter> ba_seq_set a ! i = {}) sets;
               ok = (if sequential then ok \<and> (sets = [] \<or> id0 = last_id + 1) else ok)
           in if ok then
                let sets = sets @ [ba_seq_set a ! i] in
                if length sets > n_ubatch then sets else equal_sets a n_ubatch sequential is sets id0
              else equal_sets a n_ubatch sequential is sets last_id)"

fun first_unused_in :: "bool list \<Rightarrow> nat list \<Rightarrow> nat option" where
  "first_unused_in used [] = None"
| "first_unused_in used (i # is) = (if used ! i then map_option Suc (first_unused_in used is) else Some 0)"

fun start_idxs :: "llama_batch_allocr \<Rightarrow> nat set list \<Rightarrow> nat list option" where
  "start_idxs a [] = Some []"
| "start_idxs a (S # Ss) = do {
     k \<leftarrow> first_unused_in (ba_used a) (ba_seq_set_map a S);
     ks \<leftarrow> start_idxs a Ss;
     Some (k # ks) }"

function equal_rounds :: "(nat set \<Rightarrow> nat list) \<Rightarrow> nat \<Rightarrow> nat set list \<Rightarrow> nat list \<Rightarrow> nat list list \<Rightarrow> nat list list" where
  "equal_rounds m n_ubatch sets cur per_seq =
     (if sets = [] \<or> cur = [] \<or> \<not> list_all2 (\<lambda>S k. k < length (m S)) sets cur then per_seq
      else let per_seq = map2 (\<lambda>idxs (S, k). idxs @ [m S ! k]) per_seq (zip sets cur);
               cur = map Suc cur
           in if (length (hd per_seq) + 1) * length sets > n_ubatch then per_seq
              else equal_rounds m n_ubatch sets cur per_seq)"
  by pat_completeness auto
termination
  by (relation "measure (\<lambda>(m, _, sets, cur, _). length (m (hd sets)) - hd cur)")
     (auto simp: list_all2_Cons1 neq_Nil_conv)

definition split_equal :: "nat \<Rightarrow> bool \<Rightarrow> llama_batch_allocr \<Rightarrow> (llama_ubatch \<times> llama_batch_allocr) option" where
  "split_equal n_ubatch sequential a =
     (if sequential \<and> ba_has_cpl a then Some (empty_ubatch, a)
      else let sets = equal_sets a n_ubatch sequential [0..<get_n_tokens a] [] (-1) in
        if sets = [] then Some (empty_ubatch, a)
        else do {
          cur \<leftarrow> start_idxs a sets;
          let idxs = concat (equal_rounds (ba_seq_set_map a) n_ubatch sets cur (replicate (length sets) []));
          ubatch_add idxs (length sets) True (mark_used idxs a) })"

text \<open>\<^verbatim>\<open>split_seq\<close>: follow a chain of shrinking sequence sets.\<close>

definition seq_next :: "llama_batch_allocr \<Rightarrow> bool list \<Rightarrow> nat set \<Rightarrow> nat \<Rightarrow> nat option" where
  "seq_next a used S cur =
     List.find (\<lambda>i. \<not> (used ! i \<or> S \<inter> ba_seq_set a ! i \<noteq> ba_seq_set a ! i)) [Suc cur..<get_n_tokens a]"

lemma seq_next_Some: "seq_next a used S cur = Some i \<Longrightarrow> cur < i \<and> i < get_n_tokens a"
  by (auto simp: seq_next_def find_Some_iff nth_append dest!: sym [where t = i])

function seq_idxs :: "llama_batch_allocr \<Rightarrow> nat \<Rightarrow> nat set \<Rightarrow> nat \<Rightarrow> nat list \<Rightarrow> bool list \<Rightarrow> nat list" where
  "seq_idxs a n_ubatch S cur idxs used =
     (let idxs = idxs @ [cur]; used = used[cur := True] in
      if length idxs \<ge> n_ubatch then idxs
      else case seq_next a used S cur of
             None \<Rightarrow> idxs
           | Some i \<Rightarrow> seq_idxs a n_ubatch (ba_seq_set a ! i) i idxs used)"
  by pat_completeness auto
termination
  by (relation "measure (\<lambda>(a, _, _, cur, _, _). get_n_tokens a - cur)")
     (auto dest!: seq_next_Some)

definition split_seq :: "nat \<Rightarrow> llama_batch_allocr \<Rightarrow> (llama_ubatch \<times> llama_batch_allocr) option" where
  "split_seq n_ubatch a =
     (if first_unused a \<ge> length (ba_used a) then Some (empty_ubatch, a)
      else let idxs = seq_idxs a n_ubatch (ba_seq_set a ! first_unused a) (first_unused a) [] (ba_used a)
           in ubatch_add idxs 1 True (mark_used idxs a))"

text \<open>The loop of \<^verbatim>\<open>init_batch\<close> in the memory modules: split until an empty micro-batch comes back.
  A loop that does not end has the value \<open>None\<close>.\<close>

partial_function (option) split_loop :: "(llama_batch_allocr \<Rightarrow> (llama_ubatch \<times> llama_batch_allocr) option) \<Rightarrow>
    llama_batch_allocr \<Rightarrow> (llama_ubatch list \<times> llama_batch_allocr) option" where
  "split_loop split a = Option.bind (split a) (\<lambda>(u, a').
     if u_n_tokens u = 0 then Some ([], a')
     else Option.bind (split_loop split a') (\<lambda>(us, a''). Some (u # us, a'')))"

declare simple_idxs.simps [simp del] equal_rounds.simps [simp del] seq_idxs.simps [simp del]

text \<open>What a state between two splits looks like.\<close>

definition count_used :: "llama_batch_allocr \<Rightarrow> nat" where
  "count_used a = length (filter (\<lambda>x. x) (ba_used a))"

definition alloc_ok :: "llama_batch_allocr \<Rightarrow> bool" where
  "alloc_ok a \<longleftrightarrow>
     length (ba_used a) = get_n_tokens a \<and> ba_n_used a = count_used a \<and>
     length (ba_seq_set a) = get_n_tokens a \<and>
     (\<forall>i < get_n_tokens a. ba_seq_set a ! i \<noteq> {}) \<and>
     (\<forall>S. ba_seq_set_map a S = filter (\<lambda>i. ba_seq_set a ! i = S) [0..<get_n_tokens a]) \<and>
     (if b_token (ba_batch a) = None then ba_n_pos_per_embd a else 1) * get_n_tokens a
       \<le> length (the (b_pos (ba_batch a)))"

definition ubatch_of :: "llama_batch_allocr \<Rightarrow> nat list \<Rightarrow> llama_ubatch \<Rightarrow> bool" where
  "ubatch_of a idxs u \<longleftrightarrow> u_n_tokens u = length idxs \<and>
     u_token u = map_option (\<lambda>ts. map (nth ts) idxs) (b_token (ba_batch a)) \<and>
     u_seq_id u = map (nth (the (b_seq_id (ba_batch a)))) idxs \<and>
     u_n_seq_id u = map (nth (the (b_n_seq_id (ba_batch a)))) idxs \<and>
     u_output u = map (nth (the (b_logits (ba_batch a)))) idxs \<and>
     u_n_seqs u * u_n_seq_tokens u = u_n_tokens u"

definition fresh :: "llama_batch_allocr \<Rightarrow> nat list \<Rightarrow> bool" where
  "fresh a idxs \<longleftrightarrow> idxs \<noteq> [] \<and> distinct idxs \<and> (\<forall>i \<in> set idxs. i < get_n_tokens a \<and> \<not> ba_used a ! i)"

section \<open>Bookkeeping\<close>

lemma length_mark [simp]: "length (fold (\<lambda>i u. u[i := True]) idxs u) = length u"
  by (induction idxs arbitrary: u) simp_all

lemma nth_set_True: "j < length u \<Longrightarrow> u[i := True] ! j \<longleftrightarrow> i = j \<or> u ! j"
  by (cases "i = j") simp_all

lemma nth_mark: "j < length u \<Longrightarrow> fold (\<lambda>i u. u[i := True]) idxs u ! j \<longleftrightarrow> j \<in> set idxs \<or> u ! j"
  by (induction idxs arbitrary: u) (auto simp: nth_set_True)

lemma mark_used_simps [simp]:
  "get_n_tokens (mark_used idxs a) = get_n_tokens a" "ba_batch (mark_used idxs a) = ba_batch a"
  "ba_seq_set (mark_used idxs a) = ba_seq_set a" "ba_seq_set_map (mark_used idxs a) = ba_seq_set_map a"
  "ba_n_pos_per_embd (mark_used idxs a) = ba_n_pos_per_embd a" "ba_has_cpl (mark_used idxs a) = ba_has_cpl a"
  "length (ba_used (mark_used idxs a)) = length (ba_used a)"
  by (simp_all add: mark_used_def get_n_tokens_def)

lemma used_mark_used:
  "i < length (ba_used a) \<Longrightarrow> ba_used (mark_used idxs a) ! i \<longleftrightarrow> i \<in> set idxs \<or> ba_used a ! i"
  by (simp add: mark_used_def nth_mark)

lemma count_mark:
  "distinct idxs \<Longrightarrow> (\<forall>i \<in> set idxs. i < length u \<and> \<not> u ! i) \<Longrightarrow>
   length (filter (\<lambda>x. x) (fold (\<lambda>i u. u[i := True]) idxs u)) = length (filter (\<lambda>x. x) u) + length idxs"
proof (induction idxs arbitrary: u)
  case (Cons i idxs)
  have "length (filter (\<lambda>x. x) (u[i := True])) = Suc (length (filter (\<lambda>x. x) u))"
  proof -
    have i: "i < length u" "\<not> u ! i" using Cons.prems by auto
    have "u = take i u @ False # drop (Suc i) u" using id_take_nth_drop [OF i(1)] i(2) by simp
    then have "length (filter (\<lambda>x. x) u) = length (filter (\<lambda>x. x) (take i u)) + length (filter (\<lambda>x. x) (drop (Suc i) u))"
      by (metis append_Cons filter.simps(2) filter_append length_append)
    moreover have "u[i := True] = take i u @ True # drop (Suc i) u" by (simp add: upd_conv_take_nth_drop i)
    ultimately show ?thesis by simp
  qed
  moreover have "\<forall>j \<in> set idxs. j < length (u[i := True]) \<and> \<not> u[i := True] ! j"
    using Cons.prems by (auto simp: nth_list_update)
  ultimately show ?case using Cons.IH [of "u[i := True]"] Cons.prems by simp
qed simp

lemma ubatch_pos_Some:
  assumes "alloc_ok a" and "\<forall>i \<in> set idxs. i < get_n_tokens a"
  shows "\<exists>ps. ubatch_pos a idxs = Some ps"
proof -
  let ?n = "get_n_tokens a"
  have "j * ?n + i < length (the (b_pos (ba_batch a)))"
    if "b_token (ba_batch a) = None" "j < ba_n_pos_per_embd a" "i \<in> set idxs" for i j
  proof -
    have "j * ?n + i < Suc j * ?n" using assms(2) that by simp
    also have "\<dots> \<le> ba_n_pos_per_embd a * ?n" using that by (intro mult_le_mono1) simp
    also have "\<dots> \<le> length (the (b_pos (ba_batch a)))" using assms(1) that by (simp add: alloc_ok_def)
    finally show ?thesis .
  qed
  moreover have "i < length (the (b_pos (ba_batch a)))" if "b_token (ba_batch a) \<noteq> None" "i \<in> set idxs" for i
    using assms that by (fastforce simp: alloc_ok_def)
  ultimately show ?thesis
    by (auto simp: ubatch_pos_def Let_def list_all_iff get_n_tokens_def)
qed

text \<open>Every splitter ends in \<^verbatim>\<open>ubatch_add\<close> on fresh tokens; this is all a client needs.\<close>

lemma add_fresh:
  assumes ok: "alloc_ok a" and fresh: "fresh a idxs" and n: "n_seqs \<noteq> 0" "length idxs mod n_seqs = 0"
  shows "\<exists>u a'. ubatch_add idxs n_seqs eq (mark_used idxs a) = Some (u, a') \<and> ubatch_of a idxs u \<and>
     a' = (mark_used idxs a)\<lparr>ba_out_ids := ba_out_ids a'\<rparr> \<and> alloc_ok a'"
proof -
  have idxs: "distinct idxs" "\<forall>i \<in> set idxs. i < length (ba_used a) \<and> \<not> ba_used a ! i"
    using ok fresh by (auto simp: fresh_def alloc_ok_def)
  have "count_used (mark_used idxs a) = count_used a + length idxs"
    using count_mark [OF idxs] by (simp add: count_used_def mark_used_def)
  then have ok': "alloc_ok (mark_used idxs a)"
    using ok by (auto simp: alloc_ok_def) (auto simp: mark_used_def)
  then have "alloc_ok ((mark_used idxs a)\<lparr>ba_out_ids := x\<rparr>)" for x
    by (auto simp: alloc_ok_def count_used_def get_n_tokens_def)
  moreover from ubatch_pos_Some [OF ok', of idxs] fresh
  obtain ps where "ubatch_pos (mark_used idxs a) idxs = Some ps" by (auto simp: fresh_def)
  moreover have "n_seqs * (length idxs div n_seqs) = length idxs" using n by auto
  ultimately show ?thesis
    using n by (simp add: ubatch_add_def Let_def ubatch_of_def)
qed

section \<open>The contract of a splitter and the loop that uses it\<close>

locale splitter =
  fixes split :: "llama_batch_allocr \<Rightarrow> (llama_ubatch \<times> llama_batch_allocr) option"
    and ok :: "llama_batch_allocr \<Rightarrow> bool" and bound :: nat
  assumes ok_alloc: "ok a \<Longrightarrow> alloc_ok a"
    and split_done: "ok a \<Longrightarrow> list_all (\<lambda>x. x) (ba_used a) \<Longrightarrow> split a = Some (empty_ubatch, a)"
    and split_more: "ok a \<Longrightarrow> \<not> list_all (\<lambda>x. x) (ba_used a) \<Longrightarrow>
      \<exists>idxs u a'. split a = Some (u, a') \<and> fresh a idxs \<and> ubatch_of a idxs u \<and> length idxs \<le> bound \<and>
        a' = (mark_used idxs a)\<lparr>ba_out_ids := ba_out_ids a'\<rparr> \<and> ok a'"
begin

lemma split_loop_ok:
  assumes "ok a"
  shows "\<exists>us a' idxss. split_loop split a = Some (us, a') \<and> ok a' \<and> list_all (\<lambda>x. x) (ba_used a') \<and>
    ba_batch a' = ba_batch a \<and> list_all2 (ubatch_of a) idxss us \<and>
    distinct (concat idxss) \<and> set (concat idxss) = {i. i < get_n_tokens a \<and> \<not> ba_used a ! i} \<and>
    (\<forall>idxs \<in> set idxss. idxs \<noteq> [] \<and> length idxs \<le> bound)"
  using assms
proof (induction "get_n_tokens a - count_used a" arbitrary: a rule: less_induct)
  case less
  have len: "length (ba_used a) = get_n_tokens a" using ok_alloc [OF less.prems] by (simp add: alloc_ok_def)
  show ?case
  proof (cases "list_all (\<lambda>x. x) (ba_used a)")
    case True
    then show ?thesis
      using split_done [OF less.prems] less.prems len
      by (intro exI [of _ "[]"] exI [of _ a])
         (auto simp: split_loop.simps [of split a] empty_ubatch_def list_all_length)
  next
    case False
    then obtain idxs u a' where u: "split a = Some (u, a')" and fr: "fresh a idxs" and of: "ubatch_of a idxs u"
      and a': "a' = (mark_used idxs a)\<lparr>ba_out_ids := ba_out_ids a'\<rparr>" and ok': "ok a'"
      and le: "length idxs \<le> bound"
      using split_more less.prems by blast
    have same: "ba_batch a' = ba_batch a" "get_n_tokens a' = get_n_tokens a" "ba_used a' = ba_used (mark_used idxs a)"
      by (subst a', simp add: get_n_tokens_def)+
    have "count_used a' = count_used a + length idxs"
      using count_mark [of idxs "ba_used a"] fr len by (simp add: same count_used_def mark_used_def fresh_def)
    moreover have "count_used a' \<le> get_n_tokens a"
      unfolding count_used_def using length_filter_le [of "\<lambda>x. x" "ba_used a'"] by (simp add: same len)
    ultimately have "get_n_tokens a' - count_used a' < get_n_tokens a - count_used a"
      using fr same by (cases idxs) (auto simp: fresh_def)
    from less.hyps [OF this ok'] obtain us a'' idxss where
      rest: "split_loop split a' = Some (us, a'')" "ok a''" "list_all (\<lambda>x. x) (ba_used a'')" "ba_batch a'' = ba_batch a'"
        "list_all2 (ubatch_of a') idxss us" "distinct (concat idxss)" "\<forall>idxs \<in> set idxss. idxs \<noteq> [] \<and> length idxs \<le> bound"
      and cover: "set (concat idxss) = {i. i < get_n_tokens a' \<and> \<not> ba_used a' ! i}" by blast
    have cover': "set (concat idxss) = {i. i < get_n_tokens a \<and> \<not> ba_used a ! i \<and> i \<notin> set idxs}"
      unfolding cover using used_mark_used [of _ a idxs] len by (auto simp: same)
    have "ubatch_of a' = ubatch_of a" by (simp add: ubatch_of_def [abs_def] same)
    moreover have "u_n_tokens u \<noteq> 0" using of fr by (simp add: ubatch_of_def fresh_def)
    ultimately show ?thesis
      using rest of fr u cover' same le
      by (intro exI [of _ "u # us"] exI [of _ a''] exI [of _ "idxs # idxss"])
         (auto simp: split_loop.simps [of split a] fresh_def)
  qed
qed

end

lemma alloc_ok_out_ids [simp]:
  "ba_used (a\<lparr>ba_out_ids := x\<rparr>) = ba_used a" "get_n_tokens (a\<lparr>ba_out_ids := x\<rparr>) = get_n_tokens a"
  by (simp_all add: get_n_tokens_def)

lemma first_unused_props:
  shows "first_unused a < length (ba_used a) \<longleftrightarrow> \<not> list_all (\<lambda>x. x) (ba_used a)"
    and "first_unused a < length (ba_used a) \<Longrightarrow> \<not> ba_used a ! first_unused a"
    and "j < first_unused a \<Longrightarrow> ba_used a ! j"
proof -
  have "first_unused a \<le> length (ba_used a)" by (simp add: first_unused_def length_takeWhile_le)
  moreover have "first_unused a = length (ba_used a) \<longleftrightarrow> list_all (\<lambda>x. x) (ba_used a)"
    unfolding first_unused_def list_all_iff
    by (metis (mono_tags, lifting) id_apply order_refl take_all takeWhile_eq_all_conv takeWhile_eq_take)
  ultimately show "first_unused a < length (ba_used a) \<longleftrightarrow> \<not> list_all (\<lambda>x. x) (ba_used a)" by auto
  show "first_unused a < length (ba_used a) \<Longrightarrow> \<not> ba_used a ! first_unused a"
    using nth_length_takeWhile [of id "ba_used a"] by (simp add: first_unused_def)
  show "j < first_unused a \<Longrightarrow> ba_used a ! j"
    using nth_mem [of j "takeWhile id (ba_used a)"] takeWhile_nth [of j id "ba_used a"]
    by (auto simp: first_unused_def dest: set_takeWhileD)
qed

subsection \<open>\<^verbatim>\<open>split_simple\<close>\<close>

lemma simple_idxs_upt:
  "cur < n \<Longrightarrow> \<exists>k. simple_idxs n_ubatch n cur acc = acc @ [cur..<k] \<and> cur < k \<and> k \<le> n \<and>
     length acc + (k - cur) \<le> max n_ubatch (Suc (length acc))"
proof (induction n_ubatch n cur acc rule: simple_idxs.induct)
  case (1 n_ubatch n cur acc)
  show ?case
  proof (cases "Suc cur \<ge> n \<or> Suc (length acc) \<ge> n_ubatch")
    case True
    then show ?thesis
      using 1(2) by (intro exI [of _ "Suc cur"]) (auto simp: simple_idxs.simps [of _ n cur] Let_def)
  next
    case False
    then obtain k where "simple_idxs n_ubatch n (Suc cur) (acc @ [cur]) = acc @ [cur] @ [Suc cur..<k]"
      "Suc cur < k" "k \<le> n" "Suc (length acc) + (k - Suc cur) \<le> max n_ubatch (Suc (Suc (length acc)))"
      using 1(1) [OF refl] by auto
    with False show ?thesis
      by (intro exI [of _ k]) (auto simp: simple_idxs.simps [of _ n cur] Let_def upt_conv_Cons)
  qed
qed

definition ok_simple :: "llama_batch_allocr \<Rightarrow> bool" where
  "ok_simple a \<longleftrightarrow> alloc_ok a \<and> (\<forall>i j. i < j \<longrightarrow> j < get_n_tokens a \<longrightarrow> ba_used a ! j \<longrightarrow> ba_used a ! i)"

lemma split_simple_more:
  assumes "ok_simple a" and "\<not> list_all (\<lambda>x. x) (ba_used a)"
  shows "\<exists>k u a'. split_simple n_ubatch a = Some (u, a') \<and> fresh a [first_unused a..<k] \<and>
    ubatch_of a [first_unused a..<k] u \<and> k - first_unused a \<le> max n_ubatch 1 \<and>
    a' = (mark_used [first_unused a..<k] a)\<lparr>ba_out_ids := ba_out_ids a'\<rparr> \<and> ok_simple a'"
proof -
  let ?f = "first_unused a"
  have ok: "alloc_ok a" and len: "length (ba_used a) = get_n_tokens a"
    using assms(1) by (auto simp: ok_simple_def alloc_ok_def)
  have f: "?f < get_n_tokens a" "\<not> ba_used a ! ?f" using first_unused_props assms(2) len by metis+
  obtain k where k: "simple_idxs n_ubatch (get_n_tokens a) ?f [] = [?f..<k]" "?f < k" "k \<le> get_n_tokens a"
    "k - ?f \<le> max n_ubatch 1"
    using simple_idxs_upt [OF f(1), of n_ubatch "[]"] by auto
  have fr: "fresh a [?f..<k]"
    using k f assms(1) by (auto simp: fresh_def ok_simple_def order_le_less)
  obtain u a' where u: "ubatch_add [?f..<k] (k - ?f) False (mark_used [?f..<k] a) = Some (u, a')"
    "ubatch_of a [?f..<k] u" and a': "a' = (mark_used [?f..<k] a)\<lparr>ba_out_ids := ba_out_ids a'\<rparr>" and ok': "alloc_ok a'"
    using add_fresh [OF ok fr, of "k - ?f" False] k(2) by auto
  have "ba_used a' ! i \<longleftrightarrow> i < k" if "i < get_n_tokens a" for i
  proof -
    have "ba_used a' ! i \<longleftrightarrow> i \<in> set [?f..<k] \<or> ba_used a ! i"
      by (subst a') (use used_mark_used [of i a "[?f..<k]"] that len in simp)
    moreover have "ba_used a ! i \<longleftrightarrow> i < ?f"
      using first_unused_props(3) [of i a] f assms(1) that by (metis linorder_neqE_nat ok_simple_def)
    ultimately show ?thesis using k(2) by auto
  qed
  moreover have "get_n_tokens a' = get_n_tokens a" by (subst a') simp
  ultimately have "ok_simple a'" using ok' by (simp add: ok_simple_def)
  moreover have "split_simple n_ubatch a = Some (u, a')"
    using u(1) k(1) f(1) len by (simp add: split_simple_def)
  ultimately show ?thesis using u(2) a' fr k(4) by blast
qed

interpretation simple: splitter "split_simple n_ubatch" ok_simple "max n_ubatch 1"
proof
  show "alloc_ok a" if "ok_simple a" for a using that by (simp add: ok_simple_def)
  show "split_simple n_ubatch a = Some (empty_ubatch, a)" if "ok_simple a" "list_all (\<lambda>x. x) (ba_used a)" for a
    using first_unused_props(1) [of a] that(2) by (simp add: split_simple_def)
  show "\<exists>idxs u a'. split_simple n_ubatch a = Some (u, a') \<and> fresh a idxs \<and> ubatch_of a idxs u \<and>
      length idxs \<le> max n_ubatch 1 \<and> a' = (mark_used idxs a)\<lparr>ba_out_ids := ba_out_ids a'\<rparr> \<and> ok_simple a'"
    if "ok_simple a" "\<not> list_all (\<lambda>x. x) (ba_used a)" for a
    using split_simple_more [OF that] by (metis length_upt)
qed

subsection \<open>\<^verbatim>\<open>split_seq\<close>\<close>

lemma seq_next_unused:
  "seq_next a used S cur = Some i \<Longrightarrow> cur < i \<and> i < get_n_tokens a \<and> \<not> used ! i \<and> ba_seq_set a ! i \<subseteq> S"
  using seq_next_Some [of a used S cur i] by (auto simp: seq_next_def find_Some_iff)

text \<open>The chain is strictly increasing, so no token comes twice, and the sets shrink along it.\<close>

lemma seq_idxs_chain:
  assumes "cur < get_n_tokens a" and "\<not> used ! cur" and "length used = get_n_tokens a"
  shows "\<exists>js. seq_idxs a n_ubatch (ba_seq_set a ! cur) cur acc used = acc @ cur # js \<and>
     sorted_wrt (<) (cur # js) \<and> (\<forall>j \<in> set js. j < get_n_tokens a \<and> \<not> used ! j) \<and>
     sorted_wrt (\<lambda>i j. ba_seq_set a ! j \<subseteq> ba_seq_set a ! i) (cur # js) \<and>
     length acc + length (cur # js) \<le> max n_ubatch (Suc (length acc))"
  using assms
proof (induction "get_n_tokens a - cur" arbitrary: cur acc used rule: less_induct)
  case less
  let ?S = "ba_seq_set a ! cur" and ?u = "used[cur := True]"
  show ?case
  proof (cases "length acc + 1 \<ge> n_ubatch \<or> seq_next a ?u ?S cur = None")
    case True
    then show ?thesis
      by (intro exI [of _ "[]"]) (auto simp: seq_idxs.simps [of _ _ _ cur] Let_def)
  next
    case False
    then obtain i where i: "seq_next a ?u ?S cur = Some i" by auto
    from seq_next_unused [OF this] less.prems have
      ci: "cur < i" "i < get_n_tokens a" "\<not> ?u ! i" "ba_seq_set a ! i \<subseteq> ?S" by auto
    have "get_n_tokens a - i < get_n_tokens a - cur" using ci(1,2) by simp
    from less.hyps [OF this, of ?u "acc @ [cur]"] ci less.prems obtain js where
      js: "seq_idxs a n_ubatch (ba_seq_set a ! i) i (acc @ [cur]) ?u = acc @ [cur] @ i # js"
        "sorted_wrt (<) (i # js)" "\<forall>j \<in> set js. j < get_n_tokens a \<and> \<not> ?u ! j"
        "sorted_wrt (\<lambda>i j. ba_seq_set a ! j \<subseteq> ba_seq_set a ! i) (i # js)"
        "Suc (length acc) + length (i # js) \<le> max n_ubatch (Suc (Suc (length acc)))"
      by (auto simp del: sorted_wrt.simps)
    have "seq_idxs a n_ubatch ?S cur acc used = acc @ cur # i # js"
      using False i js(1) by (simp add: seq_idxs.simps [of _ _ _ cur] Let_def)
    moreover have "\<forall>j \<in> set (i # js). j < get_n_tokens a \<and> \<not> used ! j"
      using js(3) ci(2,3) less.prems by (auto simp: nth_set_True)
    moreover have "\<forall>j \<in> set js. ba_seq_set a ! j \<subseteq> ?S" using js(4) ci(4) by simp blast
    ultimately show ?thesis
      using js ci False by (intro exI [of _ "i # js"]) auto
  qed
qed

lemma strict_sorted_distinct: "sorted_wrt (<) (xs :: nat list) \<Longrightarrow> distinct xs"
  by (induction xs) auto

interpretation by_seq: splitter "split_seq n_ubatch" alloc_ok "max n_ubatch 1"
proof
  show "alloc_ok a" if "alloc_ok a" for a by (fact that)
  show "split_seq n_ubatch a = Some (empty_ubatch, a)" if "alloc_ok a" "list_all (\<lambda>x. x) (ba_used a)" for a
    using first_unused_props(1) [of a] that(2) by (simp add: split_seq_def)
  show "\<exists>idxs u a'. split_seq n_ubatch a = Some (u, a') \<and> fresh a idxs \<and> ubatch_of a idxs u \<and>
      length idxs \<le> max n_ubatch 1 \<and> a' = (mark_used idxs a)\<lparr>ba_out_ids := ba_out_ids a'\<rparr> \<and> alloc_ok a'"
    if ok: "alloc_ok a" and more: "\<not> list_all (\<lambda>x. x) (ba_used a)" for a
  proof -
    let ?f = "first_unused a"
    have len: "length (ba_used a) = get_n_tokens a" using ok by (simp add: alloc_ok_def)
    have f: "?f < get_n_tokens a" "\<not> ba_used a ! ?f" using first_unused_props more len by metis+
    obtain js where js: "seq_idxs a n_ubatch (ba_seq_set a ! ?f) ?f [] (ba_used a) = ?f # js"
      "sorted_wrt (<) (?f # js)" "\<forall>j \<in> set js. j < get_n_tokens a \<and> \<not> ba_used a ! j"
      "length (?f # js) \<le> max n_ubatch 1"
      using seq_idxs_chain [OF f len, of n_ubatch "[]"] by auto
    have fr: "fresh a (?f # js)"
      using js f strict_sorted_distinct [OF js(2)] by (auto simp: fresh_def)
    from add_fresh [OF ok fr, of 1 True] show ?thesis
      using js(1,4) f(1) len fr by (auto simp: split_seq_def intro!: exI [of _ "?f # js"])
  qed
qed

subsection \<open>\<^verbatim>\<open>split_equal\<close>\<close>

text \<open>Within each sequence set the tokens are consumed in order: the used ones are a prefix.\<close>

definition set_prefix :: "llama_batch_allocr \<Rightarrow> nat set \<Rightarrow> bool" where
  "set_prefix a S \<longleftrightarrow>
     (\<exists>k. \<forall>j < length (ba_seq_set_map a S). ba_used a ! (ba_seq_set_map a S ! j) \<longleftrightarrow> j < k)"

definition ok_equal :: "bool \<Rightarrow> llama_batch_allocr \<Rightarrow> bool" where
  "ok_equal sequential a \<longleftrightarrow> alloc_ok a \<and> (\<forall>S. set_prefix a S) \<and> (sequential \<longrightarrow> \<not> ba_has_cpl a)"

lemma alloc_ok_map:
  assumes "alloc_ok a"
  shows "i \<in> set (ba_seq_set_map a S) \<longleftrightarrow> i < get_n_tokens a \<and> ba_seq_set a ! i = S"
    and "distinct (ba_seq_set_map a S)"
  using assms by (auto simp: alloc_ok_def)

definition sets_ok :: "llama_batch_allocr \<Rightarrow> nat set list \<Rightarrow> bool" where
  "sets_ok a sets \<longleftrightarrow> sorted_wrt (\<lambda>S T. S \<inter> T = {}) sets \<and>
     (\<forall>S \<in> set sets. \<exists>i < get_n_tokens a. \<not> ba_used a ! i \<and> ba_seq_set a ! i = S)"

lemma sets_ok_snoc:
  "sets_ok a sets \<Longrightarrow> list_all (\<lambda>S. S \<inter> ba_seq_set a ! i = {}) sets \<Longrightarrow> i < get_n_tokens a \<Longrightarrow>
   \<not> ba_used a ! i \<Longrightarrow> sets_ok a (sets @ [ba_seq_set a ! i])"
  by (auto simp: sets_ok_def sorted_wrt_append list_all_iff)

lemma equal_sets_ok:
  "list_all (\<lambda>i. i < get_n_tokens a) is \<Longrightarrow> sets_ok a sets \<Longrightarrow>
   sets_ok a (equal_sets a n_ubatch sequential is sets l)"
proof (induction "is" arbitrary: sets l)
  case (Cons i "is")
  then show ?case
    using sets_ok_snoc [of a sets i] Cons.IH [OF _ sets_ok_snoc [of a sets i]] Cons.IH [of sets]
    by (cases sequential) (auto simp: Let_def)
qed simp

lemma equal_sets_nonempty:
  "sets \<noteq> [] \<or> (\<exists>i \<in> set is. \<not> ba_used a ! i) \<Longrightarrow> equal_sets a n_ubatch sequential is sets l \<noteq> []"
proof (induction "is" arbitrary: sets l)
  case (Cons i "is")
  show ?case
    using Cons.prems Cons.IH by (cases "sets = []") (auto simp: Let_def)
qed simp

lemma equal_sets_length:
  "length sets \<le> n_ubatch \<Longrightarrow> length (equal_sets a n_ubatch sequential is sets l) \<le> Suc n_ubatch"
  by (cases sequential; induction "is" arbitrary: sets l) (auto simp: Let_def)

lemma first_unused_in_Some:
  "\<exists>i \<in> set is. \<not> u ! i \<Longrightarrow> \<exists>k. first_unused_in u is = Some k \<and> k < length is \<and> \<not> u ! (is ! k) \<and> (\<forall>j < k. u ! (is ! j))"
proof (induction "is")
  case (Cons i "is")
  then show ?case by (auto simp: nth_Cons split: nat.splits)
qed simp

text \<open>The start index of each set: everything before it is used, everything from it on is not.\<close>

definition starts_ok :: "llama_batch_allocr \<Rightarrow> nat set \<Rightarrow> nat \<Rightarrow> bool" where
  "starts_ok a S k \<longleftrightarrow> k < length (ba_seq_set_map a S) \<and>
     (\<forall>j < length (ba_seq_set_map a S). ba_used a ! (ba_seq_set_map a S ! j) \<longleftrightarrow> j < k)"

lemma start_idxs_Some:
  assumes ok: "alloc_ok a" and pre: "\<And>S. set_prefix a S" and sets: "sets_ok a sets"
  shows "\<exists>cur. start_idxs a sets = Some cur \<and> list_all2 (starts_ok a) sets cur"
  using sets
proof (induction sets)
  case (Cons S sets)
  then obtain i where "i < get_n_tokens a" "\<not> ba_used a ! i" "ba_seq_set a ! i = S"
    by (auto simp: sets_ok_def)
  then have "\<exists>i \<in> set (ba_seq_set_map a S). \<not> ba_used a ! i" using alloc_ok_map(1) [OF ok] by blast
  from first_unused_in_Some [OF this] obtain k where k: "first_unused_in (ba_used a) (ba_seq_set_map a S) = Some k"
    "k < length (ba_seq_set_map a S)" "\<not> ba_used a ! (ba_seq_set_map a S ! k)"
    "\<forall>j < k. ba_used a ! (ba_seq_set_map a S ! j)" by blast
  from pre [of S] obtain k' where "\<forall>j < length (ba_seq_set_map a S). ba_used a ! (ba_seq_set_map a S ! j) \<longleftrightarrow> j < k'"
    by (auto simp: set_prefix_def)
  with k have "starts_ok a S k" unfolding starts_ok_def by (metis linorder_neqE_nat order_less_trans)
  with Cons k(1) show ?case by (auto simp: sets_ok_def)
qed simp

text \<open>The rounds append the same number \<open>r\<close> of tokens to every set.\<close>

lemma equal_rounds_take:
  assumes "sets \<noteq> []" and "list_all2 (\<lambda>S k. k < length (m S)) sets cur" and "length per = length sets"
  shows "\<exists>r. 0 < r \<and> list_all2 (\<lambda>S k. k + r \<le> length (m S)) sets cur \<and>
    equal_rounds m n_ubatch sets cur per = map2 (\<lambda>p (S, k). p @ take r (drop k (m S))) per (zip sets cur) \<and>
    (length (hd per) + r) * length sets \<le> max n_ubatch ((length (hd per) + 1) * length sets)"
  using assms
proof (induction m n_ubatch sets cur per rule: equal_rounds.induct)
  case (1 m n_ubatch sets cur per)
  let ?per = "map2 (\<lambda>idxs (S, k). idxs @ [m S ! k]) per (zip sets cur)"
  have len: "length cur = length sets" using 1(3) by (simp add: list_all2_lengthD)
  then have ne: "cur \<noteq> []" "per \<noteq> []" "?per \<noteq> []" using 1(2,4) by auto
  have hd: "length (hd ?per) = Suc (length (hd per))"
    using ne 1(2) by (cases per; cases sets; cases cur) auto
  have one: "?per = map2 (\<lambda>p (S, k). p @ take 1 (drop k (m S))) per (zip sets cur)"
    using 1(3,4) len
    by (intro nth_equalityI) (auto simp: list_all2_conv_all_nth hd_drop_conv_nth take_Suc)
  have step: "equal_rounds m n_ubatch sets cur per =
      (if (length (hd ?per) + 1) * length sets > n_ubatch then ?per
       else equal_rounds m n_ubatch sets (map Suc cur) ?per)"
    using 1(2,3) ne by (subst equal_rounds.simps) (simp add: Let_def)
  have le1: "list_all2 (\<lambda>S k. k + 1 \<le> length (m S)) sets cur"
    using 1(3) by (auto elim: list_all2_mono)
  show ?case
  proof (cases "(length (hd ?per) + 1) * length sets > n_ubatch \<or>
      \<not> list_all2 (\<lambda>S k. k < length (m S)) sets (map Suc cur)")
    case True
    then have "equal_rounds m n_ubatch sets cur per = ?per"
      unfolding step by (auto simp: equal_rounds.simps [of _ _ sets])
    then show ?thesis using one le1 by (intro exI [of _ 1]) auto
  next
    case False
    have "\<exists>r. 0 < r \<and> list_all2 (\<lambda>S k. k + r \<le> length (m S)) sets (map Suc cur) \<and>
      equal_rounds m n_ubatch sets (map Suc cur) ?per =
        map2 (\<lambda>p (S, k). p @ take r (drop k (m S))) ?per (zip sets (map Suc cur)) \<and>
      (length (hd ?per) + r) * length sets \<le> max n_ubatch ((length (hd ?per) + 1) * length sets)"
      using 1(1) [OF _ refl refl] 1(2,3,4) ne len False by auto
    then obtain r where r: "0 < r" "list_all2 (\<lambda>S k. k + r \<le> length (m S)) sets (map Suc cur)"
      "equal_rounds m n_ubatch sets (map Suc cur) ?per =
        map2 (\<lambda>p (S, k). p @ take r (drop k (m S))) ?per (zip sets (map Suc cur))"
      "(length (hd ?per) + r) * length sets \<le> max n_ubatch ((length (hd ?per) + 1) * length sets)"
      by blast
    have "map2 (\<lambda>p (S, k). p @ take r (drop k (m S))) ?per (zip sets (map Suc cur)) =
        map2 (\<lambda>p (S, k). p @ take (Suc r) (drop k (m S))) per (zip sets cur)"
      using 1(3,4) len
      by (intro nth_equalityI)
         (auto simp: list_all2_conv_all_nth Cons_nth_drop_Suc [symmetric] drop_Suc)
    with r step False hd show ?thesis
      by (intro exI [of _ "Suc r"]) (auto simp: list_all2_conv_all_nth)
  qed
qed

definition picks :: "(nat set \<Rightarrow> nat list) \<Rightarrow> nat \<Rightarrow> nat set list \<Rightarrow> nat list \<Rightarrow> nat list" where
  "picks m r sets cur = concat (map (\<lambda>(S, k). take r (drop k (m S))) (zip sets cur))"

lemma in_take_drop:
  assumes "distinct xs" and "k + r \<le> length xs" and "j < length xs"
  shows "xs ! j \<in> set (take r (drop k xs)) \<longleftrightarrow> k \<le> j \<and> j < k + r"
proof
  assume "xs ! j \<in> set (take r (drop k xs))"
  then obtain l where "l < r" "xs ! j = xs ! (k + l)" using assms(2) by (auto simp: in_set_conv_nth)
  with assms have "j = k + l" by (subst (asm) nth_eq_iff_index_eq) auto
  with \<open>l < r\<close> show "k \<le> j \<and> j < k + r" by simp
next
  assume "k \<le> j \<and> j < k + r"
  then show "xs ! j \<in> set (take r (drop k xs))"
    using assms(2) by (auto simp: in_set_conv_nth intro!: exI [of _ "j - k"])
qed

lemma in_picks_iff:
  "x \<in> set (picks m r sets cur) \<longleftrightarrow> (\<exists>S k. (S, k) \<in> set (zip sets cur) \<and> x \<in> set (take r (drop k (m S))))"
  unfolding picks_def by force

lemma in_picks:
  assumes ok: "alloc_ok a" and i: "i \<in> set (picks (ba_seq_set_map a) r sets cur)"
  shows "i < get_n_tokens a \<and> ba_seq_set a ! i \<in> set sets"
proof -
  from i obtain S k where "(S, k) \<in> set (zip sets cur)" "i \<in> set (take r (drop k (ba_seq_set_map a S)))"
    by (auto simp: picks_def)
  then show ?thesis
    using alloc_ok_map(1) [OF ok, of i S] by (auto dest: set_zip_leftD in_set_takeD in_set_dropD)
qed

lemma picks_fresh:
  assumes ok: "alloc_ok a" and "list_all2 (starts_ok a) sets cur"
    and "list_all2 (\<lambda>S k. k + r \<le> length (ba_seq_set_map a S)) sets cur" and "sets_ok a sets"
  shows "distinct (picks (ba_seq_set_map a) r sets cur) \<and>
     length (picks (ba_seq_set_map a) r sets cur) = r * length sets \<and>
     (\<forall>i \<in> set (picks (ba_seq_set_map a) r sets cur). \<not> ba_used a ! i)"
  using assms(2,3,4)
proof (induction sets cur rule: list_all2_induct)
  case Nil
  then show ?case by (simp add: picks_def)
next
  case (Cons S sets k cur)
  let ?m = "ba_seq_set_map a"
  let ?p = "take r (drop k (?m S))" and ?ps = "picks ?m r sets cur"
  have IH: "distinct ?ps \<and> length ?ps = r * length sets \<and> (\<forall>i \<in> set ?ps. \<not> ba_used a ! i)"
    using Cons by (auto simp: sets_ok_def)
  have "\<not> ba_used a ! i" if "i \<in> set ?p" for i
    using that Cons.hyps(1) Cons.prems by (auto simp: in_set_conv_nth starts_ok_def)
  moreover have "set ?p \<inter> set ?ps = {}"
  proof -
    have "ba_seq_set a ! i = S" if "i \<in> set ?p" for i
      using that alloc_ok_map(1) [OF ok, of i S] by (auto dest: in_set_takeD in_set_dropD)
    moreover have "S \<notin> set sets"
    proof
      assume "S \<in> set sets"
      then have "S = {}" using Cons.prems by (auto simp: sets_ok_def)
      moreover obtain i where "i < get_n_tokens a" "ba_seq_set a ! i = S" using Cons.prems by (auto simp: sets_ok_def)
      ultimately show False using ok by (auto simp: alloc_ok_def)
    qed
    ultimately show ?thesis using in_picks [OF ok, of _ r sets cur] by fastforce
  qed
  moreover have "picks ?m r (S # sets) (k # cur) = ?p @ ?ps" by (simp add: picks_def)
  moreover have "length ?p = r" using Cons.prems by (auto simp: min_def)
  moreover have "distinct ?p" using alloc_ok_map(2) [OF ok] by simp
  ultimately show ?case using IH by auto
qed

lemma picks_prefix:
  assumes ok: "alloc_ok a" and pre: "\<And>S. set_prefix a S"
    and starts: "list_all2 (starts_ok a) sets cur"
    and room: "list_all2 (\<lambda>S k. k + r \<le> length (ba_seq_set_map a S)) sets cur"
    and dist: "distinct sets"
  shows "set_prefix (mark_used (picks (ba_seq_set_map a) r sets cur) a) S"
proof -
  let ?m = "ba_seq_set_map a" and ?ps = "picks (ba_seq_set_map a) r sets cur"
  have used: "ba_used (mark_used ?ps a) ! (?m S ! j) \<longleftrightarrow> ?m S ! j \<in> set ?ps \<or> ba_used a ! (?m S ! j)"
    if "j < length (?m S)" for j
  proof (rule used_mark_used)
    have "?m S ! j < get_n_tokens a" using alloc_ok_map(1) [OF ok, of "?m S ! j" S] that by simp
    then show "?m S ! j < length (ba_used a)" using ok by (simp add: alloc_ok_def)
  qed
  have S: "ba_seq_set a ! (?m S ! j) = S" if "j < length (?m S)" for j
    using that alloc_ok_map(1) [OF ok, of "?m S ! j" S] by simp
  show ?thesis
  proof (cases "S \<in> set sets")
    case False
    then have "?m S ! j \<notin> set ?ps" if "j < length (?m S)" for j
      using in_picks [OF ok] S that by metis
    then show ?thesis using pre [of S] used by (simp add: set_prefix_def)
  next
    case True
    then obtain n where n: "n < length sets" "sets ! n = S" by (auto simp: in_set_conv_nth)
    let ?k = "cur ! n"
    have len: "length cur = length sets" using starts by (simp add: list_all2_lengthD)
    have k: "starts_ok a S ?k" "?k + r \<le> length (?m S)"
      using starts room n by (auto simp: list_all2_conv_all_nth)
    have "?m S ! j \<in> set ?ps \<longleftrightarrow> ?k \<le> j \<and> j < ?k + r" if j: "j < length (?m S)" for j
    proof -
      have "?m S ! j \<in> set (take r (drop k' (?m T))) \<Longrightarrow> T = S" for T k'
        using S [OF j] alloc_ok_map(1) [OF ok, of "?m S ! j" T] by (auto dest: in_set_takeD in_set_dropD)
      moreover have "k' = ?k" if "(S, k') \<in> set (zip sets cur)" for k'
        using that n dist len by (auto simp: in_set_zip nth_eq_iff_index_eq)
      moreover have "(S, ?k) \<in> set (zip sets cur)" using n len by (auto simp: in_set_zip)
      ultimately have "?m S ! j \<in> set ?ps \<longleftrightarrow> ?m S ! j \<in> set (take r (drop ?k (?m S)))"
        unfolding in_picks_iff by blast
      also have "\<dots> \<longleftrightarrow> ?k \<le> j \<and> j < ?k + r"
        using in_take_drop [OF alloc_ok_map(2) [OF ok] k(2) j] .
      finally show ?thesis .
    qed
    then have "\<forall>j < length (?m S). ba_used (mark_used ?ps a) ! (?m S ! j) \<longleftrightarrow> j < ?k + r"
      using used k by (auto simp: starts_ok_def)
    then show ?thesis unfolding set_prefix_def by (intro exI [of _ "?k + r"]) simp
  qed
qed

lemma sets_ok_distinct: "alloc_ok a \<Longrightarrow> sets_ok a sets \<Longrightarrow> distinct sets"
proof (induction sets)
  case (Cons S sets)
  from Cons.prems(2) obtain i where "i < get_n_tokens a" "ba_seq_set a ! i = S" by (auto simp: sets_ok_def)
  with Cons.prems(1) have "S \<noteq> {}" by (auto simp: alloc_ok_def)
  with Cons show ?case by (auto simp: sets_ok_def)
qed simp

lemma split_equal_more:
  assumes "ok_equal sequential a" and "\<not> list_all (\<lambda>x. x) (ba_used a)"
  shows "\<exists>idxs u a'. split_equal n_ubatch sequential a = Some (u, a') \<and> fresh a idxs \<and> ubatch_of a idxs u \<and>
    a' = (mark_used idxs a)\<lparr>ba_out_ids := ba_out_ids a'\<rparr> \<and> ok_equal sequential a' \<and>
    u_n_tokens u \<le> Suc n_ubatch"
proof -
  have ok: "alloc_ok a" and pre: "\<And>S. set_prefix a S" and cpl: "\<not> (sequential \<and> ba_has_cpl a)"
    using assms(1) by (auto simp: ok_equal_def)
  let ?m = "ba_seq_set_map a" and ?sets = "equal_sets a n_ubatch sequential [0..<get_n_tokens a] [] (-1)"
  have "\<exists>i \<in> set [0..<get_n_tokens a]. \<not> ba_used a ! i"
    using assms(2) ok by (auto simp: list_all_length alloc_ok_def)
  then have ne: "?sets \<noteq> []" by (simp add: equal_sets_nonempty)
  have sets: "sets_ok a ?sets" by (rule equal_sets_ok) (auto simp: sets_ok_def list_all_iff)
  obtain cur where cur: "start_idxs a ?sets = Some cur" and st: "list_all2 (starts_ok a) ?sets cur"
    using start_idxs_Some [OF ok pre sets] by blast
  from st have "list_all2 (\<lambda>S k. k < length (?m S)) ?sets cur" by (auto simp: starts_ok_def elim: list_all2_mono)
  from equal_rounds_take [OF ne this, of "replicate (length ?sets) []" n_ubatch] obtain r where
    r: "0 < r" "list_all2 (\<lambda>S k. k + r \<le> length (?m S)) ?sets cur"
      "equal_rounds ?m n_ubatch ?sets cur (replicate (length ?sets) []) =
         map2 (\<lambda>p (S, k). p @ take r (drop k (?m S))) (replicate (length ?sets) []) (zip ?sets cur)"
      "r * length ?sets \<le> max n_ubatch (length ?sets)" using ne by auto
  let ?idxs = "picks ?m r ?sets cur"
  have len: "length cur = length ?sets" using st by (simp add: list_all2_lengthD)
  have "map2 (\<lambda>p (S, k). p @ take r (drop k (?m S))) (replicate (length ?sets) []) (zip ?sets cur) =
      map (\<lambda>(S, k). take r (drop k (?m S))) (zip ?sets cur)"
    using len by (intro nth_equalityI) (auto split: prod.splits)
  then have idxs: "concat (equal_rounds ?m n_ubatch ?sets cur (replicate (length ?sets) [])) = ?idxs"
    by (simp add: r(3) picks_def)
  have pf: "distinct ?idxs" "length ?idxs = r * length ?sets" "\<forall>i \<in> set ?idxs. \<not> ba_used a ! i"
    using picks_fresh [OF ok st r(2) sets] by auto
  have "0 < length ?idxs" unfolding pf(2) using r(1) ne by simp
  then have fr: "fresh a ?idxs"
    using pf(1,3) in_picks [OF ok, of _ r ?sets cur] unfolding fresh_def by blast
  obtain u a' where u: "ubatch_add ?idxs (length ?sets) True (mark_used ?idxs a) = Some (u, a')" "ubatch_of a ?idxs u"
    and a': "a' = (mark_used ?idxs a)\<lparr>ba_out_ids := ba_out_ids a'\<rparr>" and ok': "alloc_ok a'"
    using add_fresh [OF ok fr, of "length ?sets" True] pf(2) ne by auto
  have "set_prefix a' S" for S
    using picks_prefix [OF ok pre st r(2) sets_ok_distinct [OF ok sets], of S]
    by (subst a') (simp add: set_prefix_def)
  moreover have "ba_has_cpl a' = ba_has_cpl a" by (subst a') simp
  ultimately have "ok_equal sequential a'" using ok' cpl by (simp add: ok_equal_def)
  moreover have "split_equal n_ubatch sequential a = Some (u, a')"
    using cpl ne cur u(1) by (auto simp: split_equal_def Let_def idxs)
  moreover have "u_n_tokens u \<le> Suc n_ubatch"
  proof -
    have "length ?sets \<le> Suc n_ubatch" by (rule equal_sets_length) simp
    then have "r * length ?sets \<le> Suc n_ubatch" using r(4) by linarith
    then show ?thesis using u(2) pf(2) by (simp add: ubatch_of_def)
  qed
  ultimately show ?thesis using u(2) a' fr by blast
qed

interpretation equal: splitter "split_equal n_ubatch sequential" "ok_equal sequential" "Suc n_ubatch"
proof
  show "alloc_ok a" if "ok_equal sequential a" for a using that by (simp add: ok_equal_def)
  show "split_equal n_ubatch sequential a = Some (empty_ubatch, a)"
    if "ok_equal sequential a" "list_all (\<lambda>x. x) (ba_used a)" for a
  proof -
    have "sets_ok a (equal_sets a n_ubatch sequential [0..<get_n_tokens a] [] (-1))"
      by (rule equal_sets_ok) (auto simp: sets_ok_def list_all_iff)
    moreover have "ba_used a ! i" if "i < get_n_tokens a" for i
      using that \<open>list_all (\<lambda>x. x) (ba_used a)\<close> \<open>ok_equal sequential a\<close>
      by (auto simp: ok_equal_def alloc_ok_def list_all_length)
    ultimately have "equal_sets a n_ubatch sequential [0..<get_n_tokens a] [] (-1) = []"
      by (auto simp: sets_ok_def) (metis hd_in_set)
    then show ?thesis by (simp add: split_equal_def)
  qed
  show "\<exists>idxs u a'. split_equal n_ubatch sequential a = Some (u, a') \<and> fresh a idxs \<and> ubatch_of a idxs u \<and>
      length idxs \<le> Suc n_ubatch \<and> a' = (mark_used idxs a)\<lparr>ba_out_ids := ba_out_ids a'\<rparr> \<and> ok_equal sequential a'"
    if "ok_equal sequential a" "\<not> list_all (\<lambda>x. x) (ba_used a)" for a
    using split_equal_more [OF that] by (metis ubatch_of_def)
qed

end
