(* ===== verification/KvCache.thy ===== *)
theory KvCache
  imports KvCells Batch
begin

text \<open>
  \<^verbatim>\<open>src/llama-kv-cache.{h,cpp}\<close> and the sliding-window mask of \<^verbatim>\<open>src/llama-hparams.cpp\<close>: the KV cache,
  its sequence operations, the search for slots, the placement of micro-batches, the dry run
  \<^verbatim>\<open>prepare\<close> and the index and mask tensors derived from the cells. Layers, buffers and compute
  graphs are outside the model.
\<close>

section \<open>State\<close>

datatype llama_swa_type = SWA_NONE | SWA_STANDARD | SWA_CHUNKED | SWA_SYMMETRIC

abbreviation LLAMA_POS_MAX :: int where
  "LLAMA_POS_MAX \<equiv> 2147483647"

record kv_cache =
  kc_v_trans :: bool
  kc_n_seq_max :: nat
  kc_n_stream :: nat
  kc_n_pad :: nat
  kc_n_swa :: nat
  kc_swa_type :: llama_swa_type
  kc_n_pos_per_embd :: nat
  kc_use_alibi :: bool
  kc_n_embd_v_gqa_max :: nat
  kc_heads :: "nat list"
  kc_cells :: "kv_cells list"
  kc_seq_to_stream :: "nat list"
  kc_ssrc :: "nat list"
  kc_sdst :: "nat list"

text \<open>The constructor without its layers and buffers; the last three arguments come from \<^verbatim>\<open>hparams\<close>.\<close>

definition kv_cache_new :: "bool \<Rightarrow> bool \<Rightarrow> nat \<Rightarrow> nat \<Rightarrow> nat \<Rightarrow> nat \<Rightarrow> llama_swa_type \<Rightarrow> nat \<Rightarrow> bool \<Rightarrow> nat \<Rightarrow>
    kv_cache option" where
  "kv_cache_new v_trans unified kv_size n_seq_max n_pad n_swa swa npe alibi gqa = do {
     let n_stream = (if unified then 1 else n_seq_max);
     assert_opt (n_pad \<noteq> 0 \<and> kv_size mod n_pad = 0);
     assert_opt (n_stream = 1 \<or> n_stream = n_seq_max);
     Some \<lparr>kc_v_trans = v_trans, kc_n_seq_max = n_seq_max, kc_n_stream = n_stream, kc_n_pad = n_pad,
           kc_n_swa = n_swa, kc_swa_type = swa, kc_n_pos_per_embd = npe, kc_use_alibi = alibi,
           kc_n_embd_v_gqa_max = gqa, kc_heads = replicate n_stream 0,
           kc_cells = replicate n_stream (cells_resize empty_cells kv_size),
           kc_seq_to_stream = (if n_stream > 1 then [0..<n_stream] else replicate LLAMA_MAX_SEQ 0),
           kc_ssrc = [], kc_sdst = []\<rparr> }"

definition kv_size :: "kv_cache \<Rightarrow> nat" where
  "kv_size kv = cells_size (kc_cells kv ! (kc_seq_to_stream kv ! 0))"

definition is_masked_swa :: "nat \<Rightarrow> llama_swa_type \<Rightarrow> int \<Rightarrow> int \<Rightarrow> bool option" where
  "is_masked_swa n_swa swa p0 p1 = do {
     assert_opt (p0 \<ge> 0 \<and> p1 \<ge> 0);
     case swa of
       SWA_NONE \<Rightarrow> Some False
     | SWA_STANDARD \<Rightarrow> Some (p1 - p0 \<ge> i32 (int n_swa))
     | SWA_CHUNKED \<Rightarrow> do {
         assert_opt (n_swa \<noteq> 0);
         Some (p0 < (p1 div int n_swa) * int n_swa) }
     | SWA_SYMMETRIC \<Rightarrow>
         (let half = i32 (int n_swa) sdiv 2; d = p1 - p0 in Some (d < - half \<or> d > half)) }"

definition kv_is_masked_swa :: "kv_cache \<Rightarrow> int \<Rightarrow> int \<Rightarrow> bool option" where
  "kv_is_masked_swa kv p0 p1 = is_masked_swa (kc_n_swa kv) (kc_swa_type kv) p0 p1"

section \<open>Sequence operations\<close>

definition set_stream :: "nat \<Rightarrow> kv_cells \<Rightarrow> nat \<Rightarrow> kv_cache \<Rightarrow> kv_cache" where
  "set_stream st c h kv = kv\<lparr>kc_cells := (kc_cells kv)[st := c], kc_heads := (kc_heads kv)[st := h]\<rparr>"

definition kv_clear :: "kv_cache \<Rightarrow> kv_cache" where
  "kv_clear kv =
     fold (\<lambda>s kv. set_stream s (cells_reset (kc_cells kv ! s)) 0 kv) [0..<kc_n_stream kv] kv"

text \<open>Negative bounds stand for the whole range.\<close>

definition clamp_p0 :: "int \<Rightarrow> int" where "clamp_p0 p0 = (if p0 < 0 then 0 else p0)"
definition clamp_p1 :: "int \<Rightarrow> int" where "clamp_p1 p1 = (if p1 < 0 then LLAMA_POS_MAX else p1)"

text \<open>\<^verbatim>\<open>new_head\<close> remembers the first freed cell; the size of the cache means none.\<close>

definition note_freed :: "kv_cells \<Rightarrow> nat \<Rightarrow> bool \<Rightarrow> nat \<Rightarrow> nat" where
  "note_freed c i freed nh = (if freed \<and> nh = cells_size c then i else nh)"

definition lower_head :: "kv_cells \<Rightarrow> nat \<Rightarrow> nat \<Rightarrow> nat" where
  "lower_head c nh head = (if nh \<noteq> cells_size c \<and> nh < head then nh else head)"

definition rm_seq_step :: "nat \<Rightarrow> int \<Rightarrow> int \<Rightarrow> nat \<Rightarrow> nat \<times> kv_cells \<Rightarrow> (nat \<times> kv_cells) option" where
  "rm_seq_step s p0 p1 i = (\<lambda>(nh, c). do {
     inr \<leftarrow> pos_in i p0 p1 c;
     if \<not> inr then Some (nh, c)
     else do {
       has \<leftarrow> seq_has i s c;
       if \<not> has then Some (nh, c)
       else do {
         (freed, c) \<leftarrow> cells_seq_rm i s c;
         Some (note_freed c i freed nh, c) } } })"

definition rm_any_step :: "int \<Rightarrow> int \<Rightarrow> nat \<Rightarrow> nat \<times> kv_cells \<Rightarrow> (nat \<times> kv_cells) option" where
  "rm_any_step p0 p1 i = (\<lambda>(nh, c). do {
     inr \<leftarrow> pos_in i p0 p1 c;
     if \<not> inr then Some (nh, c)
     else do {
       c \<leftarrow> cells_rm i c;
       Some (note_freed c i True nh, c) } })"

text \<open>One pass over the cells of a stream.\<close>

definition stream_pass :: "(nat \<Rightarrow> nat \<times> kv_cells \<Rightarrow> (nat \<times> kv_cells) option) \<Rightarrow> kv_cells \<Rightarrow> (nat \<times> kv_cells) option" where
  "stream_pass f c = foldM f [0..<cells_size c] (cells_size c, c)"

definition valid_seq :: "kv_cache \<Rightarrow> int \<Rightarrow> bool" where
  "valid_seq kv s \<longleftrightarrow> s \<ge> 0 \<and> nat s < length (kc_seq_to_stream kv)"

definition kv_seq_rm :: "int \<Rightarrow> int \<Rightarrow> int \<Rightarrow> kv_cache \<Rightarrow> (bool \<times> kv_cache) option" where
  "kv_seq_rm s p0 p1 kv = do {
     assert_opt (s = -1 \<or> valid_seq kv s);
     let p0 = clamp_p0 p0;
     let p1 = clamp_p1 p1;
     if s \<ge> 0 then do {
       let st = kc_seq_to_stream kv ! nat s;
       (nh, c) \<leftarrow> stream_pass (rm_seq_step (nat s) p0 p1) (kc_cells kv ! st);
       Some (True, set_stream st c (lower_head c nh (kc_heads kv ! st)) kv) }
     else do {
       kv \<leftarrow> foldM (\<lambda>st kv. do {
           (nh, c) \<leftarrow> stream_pass (rm_any_step p0 p1) (kc_cells kv ! st);
           Some (set_stream st c (lower_head c nh (kc_heads kv ! st)) kv) }) [0..<kc_n_stream kv] kv;
       Some (True, kv) } }"

definition cp_same_step :: "nat \<Rightarrow> nat \<Rightarrow> int \<Rightarrow> int \<Rightarrow> nat \<Rightarrow> nat \<times> kv_cells \<Rightarrow> (nat \<times> kv_cells) option" where
  "cp_same_step src dst p0 p1 i = (\<lambda>(nh, c). do {
     inr \<leftarrow> pos_in i p0 p1 c;
     if \<not> inr then Some (nh, c)
     else do {
       has \<leftarrow> seq_has i src c;
       if has then do { c \<leftarrow> cells_seq_add i dst c; Some (nh, c) } else Some (nh, c) } })"

definition cp_cross_step :: "kv_cells \<Rightarrow> nat \<Rightarrow> nat \<Rightarrow> nat \<Rightarrow> kv_cells \<Rightarrow> kv_cells option" where
  "cp_cross_step c0 src dst i c = do {
     has \<leftarrow> seq_has i src c0;
     if \<not> has then Some c
     else do {
       p \<leftarrow> pos_get i c0;
       sh \<leftarrow> get_shift i c0;
       e \<leftarrow> ext_get i c0;
       let p = (if sh \<noteq> 0 then i32 (p - sh) else p);
       assert_opt (sh \<noteq> 0 \<longrightarrow> p \<ge> 0);
       c \<leftarrow> pos_set i p c;
       c \<leftarrow> cells_seq_add i dst c;
       c \<leftarrow> (if sh \<noteq> 0 then map_option snd (pos_add i sh c) else Some c);
       ext_set i e c } }"

definition kv_seq_cp :: "int \<Rightarrow> int \<Rightarrow> int \<Rightarrow> int \<Rightarrow> kv_cache \<Rightarrow> kv_cache option" where
  "kv_seq_cp src dst p0 p1 kv = do {
     assert_opt (valid_seq kv src);
     assert_opt (valid_seq kv dst);
     let s0 = kc_seq_to_stream kv ! nat src;
     let s1 = kc_seq_to_stream kv ! nat dst;
     if s0 = s1 then
       if src = dst then Some kv
       else do {
         (_, c) \<leftarrow> stream_pass (cp_same_step (nat src) (nat dst) (clamp_p0 p0) (clamp_p1 p1)) (kc_cells kv ! s0);
         Some (kv\<lparr>kc_cells := (kc_cells kv)[s0 := c]\<rparr>) }
     else do {
       assert_opt (\<not> (p0 > 0 \<and> p0 + 1 < int (kv_size kv)) \<and> \<not> (p1 > 0 \<and> p1 + 1 < int (kv_size kv)));
       let c0 = kc_cells kv ! s0;
       c \<leftarrow> foldM (cp_cross_step c0 (nat src) (nat dst)) [0..<cells_size c0] (cells_reset (kc_cells kv ! s1));
       Some (kv\<lparr>kc_ssrc := kc_ssrc kv @ [s0], kc_sdst := kc_sdst kv @ [s1],
                kc_cells := (kc_cells kv)[s1 := c],
                kc_heads := (kc_heads kv)[s1 := kc_heads kv ! s0]\<rparr>) } }"

definition keep_step :: "nat \<Rightarrow> nat \<Rightarrow> nat \<times> kv_cells \<Rightarrow> (nat \<times> kv_cells) option" where
  "keep_step s i = (\<lambda>(nh, c). do {
     (freed, c) \<leftarrow> cells_seq_keep i s c;
     Some (note_freed c i freed nh, c) })"

definition kv_seq_keep :: "int \<Rightarrow> kv_cache \<Rightarrow> kv_cache option" where
  "kv_seq_keep s kv = do {
     assert_opt (valid_seq kv s);
     let st = kc_seq_to_stream kv ! nat s;
     (nh, c) \<leftarrow> stream_pass (keep_step (nat s)) (kc_cells kv ! st);
     Some (set_stream st c (lower_head c nh (kc_heads kv ! st)) kv) }"

definition add_step :: "nat \<Rightarrow> int \<Rightarrow> int \<Rightarrow> int \<Rightarrow> nat \<Rightarrow> nat \<times> kv_cells \<Rightarrow> (nat \<times> kv_cells) option" where
  "add_step s p0 p1 d i = (\<lambda>(nh, c). do {
     inr \<leftarrow> pos_in i p0 p1 c;
     if \<not> inr then Some (nh, c)
     else do {
       has \<leftarrow> seq_has i s c;
       if \<not> has then Some (nh, c)
       else do {
         (freed, c) \<leftarrow> pos_add i d c;
         Some (note_freed c i freed nh, c) } } })"

definition kv_seq_add :: "int \<Rightarrow> int \<Rightarrow> int \<Rightarrow> int \<Rightarrow> kv_cache \<Rightarrow> kv_cache option" where
  "kv_seq_add s p0 p1 d kv = do {
     assert_opt (valid_seq kv s);
     assert_opt (kc_n_pos_per_embd kv = 1);
     let st = kc_seq_to_stream kv ! nat s;
     if d = 0 then Some kv
     else if clamp_p0 p0 = clamp_p1 p1 then Some kv
     else do {
       (nh, c) \<leftarrow> stream_pass (add_step (nat s) (clamp_p0 p0) (clamp_p1 p1) d) (kc_cells kv ! st);
       Some (set_stream st c (if nh \<noteq> cells_size c then nh else 0) kv) } }"

definition div_step :: "nat \<Rightarrow> int \<Rightarrow> int \<Rightarrow> int \<Rightarrow> nat \<Rightarrow> nat \<times> kv_cells \<Rightarrow> (nat \<times> kv_cells) option" where
  "div_step s p0 p1 d i = (\<lambda>(nh, c). do {
     inr \<leftarrow> pos_in i p0 p1 c;
     if \<not> inr then Some (nh, c)
     else do {
       has \<leftarrow> seq_has i s c;
       if has then do { c \<leftarrow> pos_div i d c; Some (nh, c) } else Some (nh, c) } })"

definition kv_seq_div :: "int \<Rightarrow> int \<Rightarrow> int \<Rightarrow> int \<Rightarrow> kv_cache \<Rightarrow> kv_cache option" where
  "kv_seq_div s p0 p1 d kv = do {
     assert_opt (valid_seq kv s);
     assert_opt (kc_n_pos_per_embd kv = 1);
     let st = kc_seq_to_stream kv ! nat s;
     if d = 1 then Some kv
     else if clamp_p0 p0 = clamp_p1 p1 then Some kv
     else do {
       (_, c) \<leftarrow> stream_pass (div_step (nat s) (clamp_p0 p0) (clamp_p1 p1) d) (kc_cells kv ! st);
       Some (kv\<lparr>kc_cells := (kc_cells kv)[st := c]\<rparr>) } }"

definition kv_seq_pos_min :: "int \<Rightarrow> kv_cache \<Rightarrow> int option" where
  "kv_seq_pos_min s kv = do {
     assert_opt (valid_seq kv s);
     cells_seq_pos_min (nat s) (kc_cells kv ! (kc_seq_to_stream kv ! nat s)) }"

definition kv_seq_pos_max :: "int \<Rightarrow> kv_cache \<Rightarrow> int option" where
  "kv_seq_pos_max s kv = do {
     assert_opt (valid_seq kv s);
     cells_seq_pos_max (nat s) (kc_cells kv ! (kc_seq_to_stream kv ! nat s)) }"

section \<open>Slots\<close>

record slot_info =
  sl_s0 :: nat
  sl_s1 :: nat
  sl_strm :: "nat list"
  sl_idxs :: "nat list list"

definition empty_slot :: slot_info where
  "empty_slot = \<lparr>sl_s0 = 0, sl_s1 = 0, sl_strm = [], sl_idxs = []\<rparr>"

definition slot_empty :: "slot_info \<Rightarrow> bool" where
  "slot_empty sl \<longleftrightarrow> sl_idxs sl = []"

definition slot_size :: "slot_info \<Rightarrow> nat option" where
  "slot_size sl = do {
     assert_opt (length (sl_idxs sl) = length (sl_strm sl));
     assert_opt (sl_idxs sl \<noteq> []);
     Some (length (hd (sl_idxs sl))) }"

definition slot_head :: "slot_info \<Rightarrow> nat option" where
  "slot_head sl = do {
     assert_opt (length (sl_idxs sl) = 1);
     assert_opt (hd (sl_idxs sl) \<noteq> []);
     Some (hd (hd (sl_idxs sl))) }"

text \<open>A cell can take a token when it is empty, or when it belongs to one sequence and the sliding
  window already masks it for the next token of that sequence.\<close>

text \<open>\<^verbatim>\<open>seq_pos_max + 1\<close> is the exact sum: a cached position of \<^verbatim>\<open>INT32_MAX\<close>, where it would overflow, is not covered.\<close>

definition can_use :: "kv_cache \<Rightarrow> kv_cells \<Rightarrow> nat \<Rightarrow> bool option" where
  "can_use kv c idx = do {
     e \<leftarrow> is_empty c idx;
     if e then Some True
     else do {
       cnt \<leftarrow> seq_count idx c;
       if cnt = 1 then do {
         p \<leftarrow> pos_get idx c;
         s \<leftarrow> seq_get idx c;
         pm \<leftarrow> cells_seq_pos_max (nat s) c;
         kv_is_masked_swa kv p (pm + 1) }
       else Some False } }"

text \<open>The inner loop: up to \<^verbatim>\<open>n_test\<close> cells from \<^verbatim>\<open>head_cur\<close>; the state is
  \<^verbatim>\<open>(head_cur, n_tested, idxs)\<close>.\<close>

fun test_cells :: "kv_cache \<Rightarrow> kv_cells \<Rightarrow> bool \<Rightarrow> nat \<Rightarrow> nat \<times> nat \<times> nat list \<Rightarrow> (nat \<times> nat \<times> nat list) option" where
  "test_cells kv c cont 0 st = Some st"
| "test_cells kv c cont (Suc k) (head, tested, idxs) = do {
     u \<leftarrow> can_use kv c head;
     if u then test_cells kv c cont k (head + 1, tested + 1, idxs @ [head])
     else if cont then Some (head + 1, tested + 1, idxs)
     else test_cells kv c cont k (head + 1, tested + 1, idxs) }"

text \<open>The \<^verbatim>\<open>while (true)\<close> loop: \<open>Some None\<close> gives up, \<open>None\<close> aborts or does not return.\<close>

partial_function (option) slot_search :: "kv_cache \<Rightarrow> kv_cells \<Rightarrow> bool \<Rightarrow> nat \<Rightarrow> nat \<Rightarrow> nat \<Rightarrow> nat list \<Rightarrow>
    nat list option option" where
  "slot_search kv c cont n_tokens head tested idxs =
     (let n_test = (if cont then n_tokens else 1) in
      if head + n_test > cells_size c
      then slot_search kv c cont n_tokens 0 (tested + (cells_size c - head)) idxs
      else Option.bind (test_cells kv c cont n_test (head, tested, idxs)) (\<lambda>st.
        (case st of (head, tested, idxs) \<Rightarrow>
         if length idxs = n_tokens then Some (Some idxs)
         else let idxs = (if cont then [] else idxs) in
           if tested \<ge> cells_size c then Some None
           else slot_search kv c cont n_tokens head tested idxs)))"

definition start_head :: "kv_cells \<Rightarrow> nat \<Rightarrow> nat \<Rightarrow> nat" where
  "start_head c head n_tokens = (if head > get_used c + 2 * n_tokens then 0 else head)"

text \<open>The loop over the sequences of the micro-batch.\<close>

fun slot_streams :: "kv_cache \<Rightarrow> llama_ubatch \<Rightarrow> bool \<Rightarrow> nat \<Rightarrow> nat list \<Rightarrow> slot_info \<Rightarrow> slot_info option" where
  "slot_streams kv u cont n_tokens [] res = do {
     assert_opt (sl_s1 res \<ge> sl_s0 res);
     Some res }"
| "slot_streams kv u cont n_tokens (s # ss) res = do {
     assert_opt (s < length (u_seq_id_unq u));
     let sid = u_seq_id_unq u ! s;
     assert_opt (kc_n_stream kv > 1 \<longrightarrow>
        s * n_tokens < length (u_n_seq_id u) \<and> u_n_seq_id u ! (s * n_tokens) = 1 \<and>
        u_seq_id u ! (s * n_tokens) ! 0 = int sid);
     assert_opt (sid < length (kc_seq_to_stream kv));
     let st = kc_seq_to_stream kv ! sid;
     let c = kc_cells kv ! st;
     let res = res\<lparr>sl_s0 := min (sl_s0 res) st, sl_s1 := max (sl_s1 res) st\<rparr>;
     if n_tokens > cells_size c then Some empty_slot
     else do {
       r \<leftarrow> slot_search kv c cont n_tokens (start_head c (kc_heads kv ! st) n_tokens) 0 [];
       case r of
         None \<Rightarrow> Some empty_slot
       | Some idxs \<Rightarrow>
           slot_streams kv u cont n_tokens ss
             (res\<lparr>sl_strm := sl_strm res @ [st], sl_idxs := sl_idxs res @ [idxs]\<rparr>) } }"

definition find_slot :: "kv_cache \<Rightarrow> llama_ubatch \<Rightarrow> bool \<Rightarrow> slot_info option" where
  "find_slot kv u cont = do {
     assert_opt (kc_n_stream kv > 1 \<longrightarrow> u_n_seqs_unq u \<noteq> 0 \<and> u_n_tokens u mod u_n_seqs_unq u = 0);
     let n_seqs = (if kc_n_stream kv > 1 then u_n_seqs_unq u else 1);
     let n_tokens = (if kc_n_stream kv > 1 then u_n_tokens u div n_seqs else u_n_tokens u);
     slot_streams kv u cont n_tokens [0..<n_seqs]
       \<lparr>sl_s0 = LLAMA_MAX_SEQ, sl_s1 = 0, sl_strm = [], sl_idxs = []\<rparr> }"

section \<open>Placing a micro-batch\<close>

definition evict_cell :: "nat \<Rightarrow> int list \<times> kv_cells \<Rightarrow> (int list \<times> kv_cells) option" where
  "evict_cell idx = (\<lambda>(rm, c). do {
     e \<leftarrow> is_empty c idx;
     if e then Some (rm, c)
     else do {
       cnt \<leftarrow> seq_count idx c;
       assert_opt (cnt = 1);
       s \<leftarrow> seq_get idx c;
       p \<leftarrow> pos_get idx c;
       c \<leftarrow> cells_rm idx c;
       Some (rm[nat s := max (rm ! nat s) p], c) } })"

definition place_token :: "llama_ubatch \<Rightarrow> nat \<Rightarrow> nat \<Rightarrow> int list \<times> kv_cells \<Rightarrow> (int list \<times> kv_cells) option" where
  "place_token u i idx st = do {
     (rm, c) \<leftarrow> evict_cell idx st;
     c \<leftarrow> pos_set idx (u_pos u ! i) c;
     c \<leftarrow> (if is_pos_2d u
            then ext_set idx \<lparr>ext_x = u_pos u ! (i + u_n_tokens u * 2), ext_y = u_pos u ! (i + u_n_tokens u)\<rparr> c
            else Some c);
     c \<leftarrow> foldM (\<lambda>s c. do { assert_opt (s \<ge> 0); cells_seq_add idx (nat s) c })
            (take (nat (u_n_seq_id u ! i)) (u_seq_id u ! i)) c;
     Some (rm, c) }"

definition place_stream :: "llama_ubatch \<Rightarrow> slot_info \<Rightarrow> nat \<Rightarrow> nat \<Rightarrow> int list \<times> kv_cache \<Rightarrow> (int list \<times> kv_cache) option" where
  "place_stream u sl n s = (\<lambda>(rm, kv). do {
     let st = sl_strm sl ! s;
     (rm, c) \<leftarrow> foldM (\<lambda>ii. place_token u (s * n + ii) (sl_idxs sl ! s ! ii)) [0..<n] (rm, kc_cells kv ! st);
     Some (rm, kv\<lparr>kc_cells := (kc_cells kv)[st := c]\<rparr>) })"

text \<open>Keep the positions of each sequence free of holes: drop everything below an overwritten position.\<close>

definition purge_seq :: "int list \<Rightarrow> nat \<Rightarrow> kv_cache \<Rightarrow> kv_cache option" where
  "purge_seq rm s kv =
     (if rm ! s = -1 then Some kv
      else do {
        assert_opt (s < length (kc_seq_to_stream kv));
        let c = kc_cells kv ! (kc_seq_to_stream kv ! s);
        mn \<leftarrow> cells_seq_pos_min s c;
        if mn \<le> rm ! s then map_option snd (kv_seq_rm (int s) mn (rm ! s + 1) kv) else Some kv })"

definition apply_ubatch :: "slot_info \<Rightarrow> llama_ubatch \<Rightarrow> kv_cache \<Rightarrow> kv_cache option" where
  "apply_ubatch sl u kv = do {
     n \<leftarrow> slot_size sl;
     assert_opt (u_n_tokens u = length (sl_strm sl) * n);
     (rm, kv) \<leftarrow> foldM (place_stream u sl n) [0..<length (sl_strm sl)] (replicate LLAMA_MAX_SEQ (-1), kv);
     kv \<leftarrow> foldM (purge_seq rm) [0..<LLAMA_MAX_SEQ] kv;
     foldM (\<lambda>s kv. do {
         assert_opt (sl_idxs sl ! s \<noteq> []);
         Some (kv\<lparr>kc_heads := (kc_heads kv)[sl_strm sl ! s := last (sl_idxs sl ! s) + 1]\<rparr>) })
       [0..<length (sl_strm sl)] kv }"

section \<open>The dry run\<close>

record prepare_state =
  ps_sinfo :: slot_info
  ps_heads_old :: "nat list"
  ps_cells :: "kv_cells list"

fun save_cells :: "kv_cache \<Rightarrow> slot_info \<Rightarrow> nat list \<Rightarrow> kv_cells list option" where
  "save_cells kv sl [] = Some []"
| "save_cells kv sl (s # ss) = do {
     c \<leftarrow> cells_cp_idxs (kc_cells kv ! (sl_strm sl ! s)) (sl_idxs sl ! s);
     cs \<leftarrow> save_cells kv sl ss;
     Some (c # cs) }"

text \<open>The forward loop: the slots found, the recovery stack (newest first), success, and the cache.\<close>

fun prepare_loop :: "llama_ubatch list \<Rightarrow> slot_info list \<Rightarrow> prepare_state list \<Rightarrow> kv_cache \<Rightarrow>
    (bool \<times> slot_info list \<times> prepare_state list \<times> kv_cache) option" where
  "prepare_loop [] res states kv = Some (True, res, states, kv)"
| "prepare_loop (u # us) res states kv = do {
     sl \<leftarrow> find_slot kv u False;
     if slot_empty sl then Some (False, res, states, kv)
     else do {
       cs \<leftarrow> save_cells kv sl [0..<length (sl_strm sl)];
       kv' \<leftarrow> apply_ubatch sl u kv;
       prepare_loop us (res @ [sl]) (\<lparr>ps_sinfo = sl, ps_heads_old = kc_heads kv, ps_cells = cs\<rparr> # states) kv' } }"

definition restore_state :: "prepare_state \<Rightarrow> kv_cache \<Rightarrow> kv_cache option" where
  "restore_state ps kv =
     foldM (\<lambda>s kv. do {
         let st = sl_strm (ps_sinfo ps) ! s;
         c \<leftarrow> cells_set_idxs (kc_cells kv ! st) (sl_idxs (ps_sinfo ps) ! s) (ps_cells ps ! s);
         Some (kv\<lparr>kc_cells := (kc_cells kv)[st := c],
                  kc_heads := (kc_heads kv)[st := ps_heads_old ps ! s]\<rparr>) })
       [0..<length (sl_strm (ps_sinfo ps))] kv"

definition prepare :: "llama_ubatch list \<Rightarrow> kv_cache \<Rightarrow> (slot_info list \<times> kv_cache) option" where
  "prepare us kv = do {
     (success, res, states, kv) \<leftarrow> prepare_loop us [] [] kv;
     assert_opt (states \<noteq> [] \<or> \<not> success);
     kv \<leftarrow> foldM restore_state states kv;
     Some (if success then res else [], kv) }"

section \<open>Graph inputs\<close>

definition GGML_PAD :: "nat \<Rightarrow> nat \<Rightarrow> nat" where
  "GGML_PAD x n = unat ((of_nat x + of_nat n - 1) AND NOT (of_nat n - 1) :: u32)"

definition get_n_kv :: "slot_info \<Rightarrow> kv_cache \<Rightarrow> nat" where
  "get_n_kv sl kv =
     (let n_pad = max (kc_n_pad kv) 256 in
      fold (\<lambda>st res. let c = kc_cells kv ! st in
           max (min (cells_size c) (max n_pad (GGML_PAD (used_max_p1 c) n_pad))) res) (sl_strm sl) 0)"

definition kv_get_has_shift :: "kv_cache \<Rightarrow> bool" where
  "kv_get_has_shift kv = fold (\<lambda>s r. r \<or> get_has_shift (kc_cells kv ! s)) [0..<kc_n_stream kv] False"

definition set_input_k_idxs :: "llama_ubatch \<Rightarrow> slot_info \<Rightarrow> kv_cache \<Rightarrow> nat list option" where
  "set_input_k_idxs u sl kv = do {
     n \<leftarrow> slot_size sl;
     assert_opt (u_n_tokens u = n * length (sl_strm sl));
     Some (concat (map (\<lambda>s. map (\<lambda>i. sl_strm sl ! s * kv_size kv + sl_idxs sl ! s ! i) [0..<n]) [0..<length (sl_strm sl)])) }"

definition set_input_v_idxs :: "llama_ubatch \<Rightarrow> slot_info \<Rightarrow> kv_cache \<Rightarrow> nat list option" where
  "set_input_v_idxs u sl kv = do {
     n \<leftarrow> slot_size sl;
     assert_opt (u_n_tokens u = n * length (sl_strm sl));
     if \<not> kc_v_trans kv then
       Some (concat (map (\<lambda>s. map (\<lambda>i. sl_strm sl ! s * kv_size kv + sl_idxs sl ! s ! i) [0..<n]) [0..<length (sl_strm sl)]))
     else
       (let g = kc_n_embd_v_gqa_max kv in
        Some (concat (map (\<lambda>s. concat (map (\<lambda>i. map (\<lambda>j.
          sl_strm sl ! s * kv_size kv * g + j * kv_size kv + sl_idxs sl ! s ! i) [0..<g]) [0..<n])) [0..<length (sl_strm sl)]))) }"

fun shift_row :: "kv_cells \<Rightarrow> nat list \<Rightarrow> int list option" where
  "shift_row c [] = Some []"
| "shift_row c (i # is) = do {
     e \<leftarrow> is_empty c i;
     d \<leftarrow> (if e then Some 0 else get_shift i c);
     ds \<leftarrow> shift_row c is;
     Some (d # ds) }"

fun set_input_k_shift :: "kv_cells list \<Rightarrow> int list option" where
  "set_input_k_shift [] = Some []"
| "set_input_k_shift (c # cs) = do {
     r \<leftarrow> shift_row c [0..<cells_size c];
     rs \<leftarrow> set_input_k_shift cs;
     Some (r @ rs) }"

text \<open>A mask entry is minus infinity or the (non-positive) bias of an attended cell, before its conversion to a float.\<close>

datatype mask_val = NegInf | Bias int

definition mask_entry :: "kv_cache \<Rightarrow> llama_ubatch \<Rightarrow> bool \<Rightarrow> nat \<Rightarrow> nat \<Rightarrow> mask_val option" where
  "mask_entry kv u causal i j = do {
     let sid = u_seq_id u ! i ! 0;
     assert_opt (valid_seq kv sid);
     let c = kc_cells kv ! (kc_seq_to_stream kv ! nat sid);
     let p1 = u_pos u ! i;
     let p1_x = (if is_pos_2d u then u_pos u ! (i + u_n_tokens u * 2) else 0);
     let p1_y = (if is_pos_2d u then u_pos u ! (i + u_n_tokens u) else 0);
     e \<leftarrow> is_empty c j;
     if e then Some NegInf
     else do {
       has \<leftarrow> seq_has j (nat sid) c;
       if \<not> has then Some NegInf
       else do {
         p0 \<leftarrow> pos_get j c;
         if causal \<and> p0 > p1 then Some NegInf
         else do {
           ex \<leftarrow> ext_get j c;
           if causal \<and> is_pos_2d u \<and> p0 = p1 \<and> is_2d_gt ex p1_x p1_y then Some NegInf
           else do {
             m \<leftarrow> kv_is_masked_swa kv p0 p1;
             Some (if m then NegInf else Bias (if kc_use_alibi kv then - \<bar>p0 - p1\<bar> else 0)) } } } } }"

text \<open>The mask buffer: rows of \<^verbatim>\<open>n_kv\<close> entries, \<^verbatim>\<open>n_tps_pad\<close> rows per stream, filled with minus infinity.\<close>

definition GGML_KQ_MASK_PAD :: nat where
  "GGML_KQ_MASK_PAD = 64"

definition set_input_kq_mask :: "kv_cache \<Rightarrow> llama_ubatch \<Rightarrow> bool \<Rightarrow> nat \<Rightarrow> nat \<Rightarrow> mask_val list \<Rightarrow> mask_val list option" where
  "set_input_kq_mask kv u causal n_kv n_stream data = do {
     assert_opt (n_stream \<noteq> 0 \<and> u_n_tokens u mod n_stream = 0);
     let n_tps = u_n_tokens u div n_stream;
     let n_tps_pad = GGML_PAD n_tps GGML_KQ_MASK_PAD;
     foldM (\<lambda>(s, ii, j) d. do {
         m \<leftarrow> mask_entry kv u causal (s * n_tps + ii) j;
         let k = n_kv * (s * n_tps_pad + ii) + j;
         case m of
           NegInf \<Rightarrow> Some d
         | Bias b \<Rightarrow> do { assert_opt (k < length d); Some (d[k := Bias b]) } })
       (concat (map (\<lambda>s. concat (map (\<lambda>ii. map (\<lambda>j. (s, ii, j)) [0..<n_kv]) [0..<n_tps])) [0..<n_stream]))
       (replicate (length data) NegInf) }"

section \<open>The memory context\<close>

datatype llama_memory_status = STATUS_SUCCESS | STATUS_NO_UPDATE | STATUS_FAILED_PREPARE | STATUS_FAILED_COMPUTE

definition llama_memory_status_combine :: "llama_memory_status \<Rightarrow> llama_memory_status \<Rightarrow> llama_memory_status" where
  "llama_memory_status_combine s0 s1 =
     (case s0 of
        STATUS_FAILED_PREPARE \<Rightarrow> s0
      | STATUS_FAILED_COMPUTE \<Rightarrow> s0
      | _ \<Rightarrow> (case s1 of
          STATUS_FAILED_PREPARE \<Rightarrow> s1
        | STATUS_FAILED_COMPUTE \<Rightarrow> s1
        | _ \<Rightarrow> if s0 = STATUS_SUCCESS \<or> s1 = STATUS_SUCCESS then STATUS_SUCCESS else STATUS_NO_UPDATE))"

definition llama_memory_status_is_fail :: "llama_memory_status \<Rightarrow> bool" where
  "llama_memory_status_is_fail s \<longleftrightarrow>
     (case s of STATUS_SUCCESS \<Rightarrow> False | STATUS_NO_UPDATE \<Rightarrow> False
      | STATUS_FAILED_PREPARE \<Rightarrow> True | STATUS_FAILED_COMPUTE \<Rightarrow> True)"

text \<open>\<^verbatim>\<open>n_kv\<close> stays indeterminate (\<open>None\<close>) until it is set.\<close>

record kv_cache_context =
  cx_status :: llama_memory_status
  cx_do_shift :: bool
  cx_ssrc :: "nat list"
  cx_sdst :: "nat list"
  cx_i_cur :: nat
  cx_sinfos :: "slot_info list"
  cx_ubatches :: "llama_ubatch list"
  cx_n_kv :: "nat option"

text \<open>The four constructors.\<close>

definition context_status :: "llama_memory_status \<Rightarrow> kv_cache_context" where
  "context_status st = \<lparr>cx_status = st, cx_do_shift = False, cx_ssrc = [], cx_sdst = [], cx_i_cur = 0,
     cx_sinfos = [], cx_ubatches = [], cx_n_kv = None\<rparr>"

definition context_full :: "kv_cache \<Rightarrow> kv_cache_context" where
  "context_full kv = (context_status STATUS_SUCCESS)
     \<lparr>cx_n_kv := Some (kv_size kv),
      cx_sinfos := [\<lparr>sl_s0 = 0, sl_s1 = kc_n_stream kv - 1, sl_strm = [0..<kc_n_stream kv],
                     sl_idxs = replicate (kc_n_stream kv) [0]\<rparr>]\<rparr>"

definition context_update :: "bool \<Rightarrow> nat list \<Rightarrow> nat list \<Rightarrow> kv_cache_context" where
  "context_update do_shift ssrc sdst =
     (context_status (if \<not> do_shift \<and> ssrc = [] then STATUS_NO_UPDATE else STATUS_SUCCESS))
       \<lparr>cx_do_shift := do_shift, cx_ssrc := ssrc, cx_sdst := sdst\<rparr>"

definition context_batch :: "slot_info list \<Rightarrow> llama_ubatch list \<Rightarrow> kv_cache_context" where
  "context_batch sls us = (context_status STATUS_SUCCESS)\<lparr>cx_sinfos := sls, cx_ubatches := us\<rparr>"

definition init_batch :: "nat \<Rightarrow> llama_batch_allocr \<Rightarrow> kv_cache \<Rightarrow>
    (kv_cache_context \<times> llama_batch_allocr \<times> kv_cache) option" where
  "init_batch n_ubatch a kv = do {
     let failed = context_status STATUS_FAILED_PREPARE;
     (us, a) \<leftarrow> split_loop (if kc_n_stream kv = 1 then split_simple n_ubatch else split_equal n_ubatch True) (split_reset a);
     if ba_n_used a < get_n_tokens a then Some (failed, a, kv)
     else do {
       (sls, kv) \<leftarrow> prepare us kv;
       if sls = [] then Some (failed, a, kv)
       else Some (context_batch sls us, a, kv) } }"

text \<open>\<^verbatim>\<open>init_update\<close> moves the pending stream copies out of the cache; \<^verbatim>\<open>update\<close> performs the copies
  (buffer data, outside the model) and the K-shift. The graph allocation and computation are the
  parameters \<open>galloc_ok\<close> and \<open>compute_ok\<close>.\<close>

definition init_update :: "kv_cache \<Rightarrow> kv_cache_context \<times> kv_cache" where
  "init_update kv = (context_update (kv_get_has_shift kv) (kc_ssrc kv) (kc_sdst kv), kv\<lparr>kc_ssrc := [], kc_sdst := []\<rparr>)"

definition kv_update :: "bool \<Rightarrow> bool \<Rightarrow> bool \<Rightarrow> bool \<Rightarrow> nat list \<Rightarrow> nat list \<Rightarrow> kv_cache \<Rightarrow> (bool \<times> kv_cache) option" where
  "kv_update has_rope galloc_ok compute_ok do_shift ssrc sdst kv = do {
     assert_opt (length ssrc = length sdst);
     assert_opt (ssrc \<noteq> [] \<longrightarrow> kc_n_stream kv > 1 \<and>
       list_all2 (\<lambda>a b. a < kc_n_stream kv \<and> b < kc_n_stream kv \<and> a \<noteq> b) ssrc sdst);
     if \<not> do_shift then Some (False, kv)
     else if has_rope \<and> \<not> (galloc_ok \<and> compute_ok) then Some (False, kv)
     else Some (has_rope, fold (\<lambda>s kv. kv\<lparr>kc_cells := (kc_cells kv)[s := reset_shift (kc_cells kv ! s)]\<rparr>)
                            [0..<kc_n_stream kv] kv) }"

definition context_next :: "kv_cache_context \<Rightarrow> (bool \<times> kv_cache_context) option" where
  "context_next cx = do {
     assert_opt (cx_status cx = STATUS_SUCCESS);
     let cx = cx\<lparr>cx_i_cur := cx_i_cur cx + 1\<rparr>;
     Some (\<not> (cx_i_cur cx \<ge> length (cx_ubatches cx)), cx) }"

definition context_apply :: "bool \<Rightarrow> bool \<Rightarrow> bool \<Rightarrow> kv_cache_context \<Rightarrow> kv_cache \<Rightarrow> (kv_cache_context \<times> kv_cache) option" where
  "context_apply has_rope galloc_ok compute_ok cx kv = do {
     assert_opt (\<not> llama_memory_status_is_fail (cx_status cx));
     if cx_ubatches cx = [] then do {
       (_, kv) \<leftarrow> kv_update has_rope galloc_ok compute_ok (cx_do_shift cx) (cx_ssrc cx) (cx_sdst cx) kv;
       Some (cx, kv) }
     else do {
       assert_opt (cx_i_cur cx < length (cx_ubatches cx) \<and> cx_i_cur cx < length (cx_sinfos cx));
       kv \<leftarrow> apply_ubatch (cx_sinfos cx ! cx_i_cur cx) (cx_ubatches cx ! cx_i_cur cx) kv;
       Some (cx\<lparr>cx_n_kv := Some (get_n_kv (cx_sinfos cx ! cx_i_cur cx) kv)\<rparr>, kv) } }"

definition context_get_ubatch :: "kv_cache_context \<Rightarrow> llama_ubatch option" where
  "context_get_ubatch cx = do {
     assert_opt (cx_status cx = STATUS_SUCCESS);
     assert_opt (cx_i_cur cx < length (cx_ubatches cx));
     Some (cx_ubatches cx ! cx_i_cur cx) }"

end
