(* ===== verification/BatchInit.thy ===== *)
theory BatchInit
  imports Batch
begin

text \<open>
  What \<^verbatim>\<open>llama_batch_allocr::init\<close> establishes: the statistics it computes, the checks it makes, and
  the states from which the splitters may start.
\<close>

section \<open>The statistics\<close>

lemma fold_note_cpl:
  "0 < k \<Longrightarrow> fold (\<lambda>(s, s1) a.
      let a = a\<lparr>ba_seq_pos := (ba_seq_pos a)[nat s1 := insert p (ba_seq_pos a ! nat s1)]\<rparr>
      in if s > 0 then a\<lparr>ba_seq_cpl := insert (nat s1, s0) (ba_seq_cpl a), ba_has_cpl := True\<rparr> else a)
    (enumerate k ss) a =
   a\<lparr>ba_seq_pos := fold (\<lambda>s1 P. P[nat s1 := insert p (P ! nat s1)]) ss (ba_seq_pos a),
     ba_seq_cpl := ba_seq_cpl a \<union> (\<lambda>s1. (nat s1, s0)) ` set ss,
     ba_has_cpl := (ba_has_cpl a \<or> ss \<noteq> [])\<rparr>"
  by (induction ss arbitrary: k a) (auto simp: Let_def)

lemma note_token_eq:
  "note_token b i a =
     a\<lparr>ba_seq_pos := fold (\<lambda>s1 P. P[nat s1 := insert (the (b_pos b) ! i) (P ! nat s1)]) (seqs_of b i) (ba_seq_pos a),
       ba_seq_cpl := ba_seq_cpl a \<union> (\<lambda>s1. (nat s1, nat (the (b_seq_id b) ! i ! 0))) ` set (tl (seqs_of b i)),
       ba_has_cpl := (ba_has_cpl a \<or> tl (seqs_of b i) \<noteq> [])\<rparr>"
  by (cases "seqs_of b i") (simp_all add: note_token_def Let_def fold_note_cpl [unfolded Let_def])

lemma fold_insert_length [simp]:
  "length (fold (\<lambda>s1 P. P[nat s1 := insert p (P ! nat s1)]) ss P) = length P"
  by (induction ss arbitrary: P) simp_all

lemma fold_insert_nth:
  "s < length P \<Longrightarrow> fold (\<lambda>s1 P. P[nat s1 := insert p (P ! nat s1)]) ss P ! s =
     P ! s \<union> (if s \<in> nat ` set ss then {p} else {})"
proof (induction ss arbitrary: P)
  case (Cons x ss)
  then show ?case by (cases "nat x = s") (auto simp: nth_list_update)
qed simp

text \<open>The sequence positions collected over a list of tokens.\<close>

definition batch_positions :: "llama_batch \<Rightarrow> nat list \<Rightarrow> nat \<Rightarrow> int set" where
  "batch_positions b is s = (\<lambda>i. the (b_pos b) ! i) ` {i \<in> set is. s \<in> nat ` set (seqs_of b i)}"

lemma fold_note_token:
  "\<exists>P C h. fold (note_token b) is a = a\<lparr>ba_seq_pos := P, ba_seq_cpl := C, ba_has_cpl := h\<rparr> \<and>
     length P = length (ba_seq_pos a) \<and>
     (\<forall>s < length P. P ! s = ba_seq_pos a ! s \<union> batch_positions b is s) \<and>
     C = ba_seq_cpl a \<union> (\<Union>i \<in> set is. (\<lambda>s1. (nat s1, nat (the (b_seq_id b) ! i ! 0))) ` set (tl (seqs_of b i))) \<and>
     h = (ba_has_cpl a \<or> (\<exists>i \<in> set is. tl (seqs_of b i) \<noteq> []))"
proof (induction "is" arbitrary: a)
  case Nil
  show ?case
    by (intro exI [of _ "ba_seq_pos a"] exI [of _ "ba_seq_cpl a"] exI [of _ "ba_has_cpl a"])
       (simp add: batch_positions_def)
next
  case (Cons i "is")
  from Cons [of "note_token b i a"] obtain P C h where
    eq: "fold (note_token b) is (note_token b i a) =
        (note_token b i a)\<lparr>ba_seq_pos := P, ba_seq_cpl := C, ba_has_cpl := h\<rparr>"
    and P: "length P = length (ba_seq_pos (note_token b i a))"
      "\<forall>s < length P. P ! s = ba_seq_pos (note_token b i a) ! s \<union> batch_positions b is s"
    and C: "C = ba_seq_cpl (note_token b i a) \<union>
        (\<Union>i \<in> set is. (\<lambda>s1. (nat s1, nat (the (b_seq_id b) ! i ! 0))) ` set (tl (seqs_of b i)))"
    and h: "h = (ba_has_cpl (note_token b i a) \<or> (\<exists>i \<in> set is. tl (seqs_of b i) \<noteq> []))" by blast
  have "\<forall>s < length P. P ! s = ba_seq_pos a ! s \<union> batch_positions b (i # is) s"
    using P by (auto simp: note_token_eq [of b i a] fold_insert_nth batch_positions_def)
  then show ?case
    using eq P(1) C h by (intro exI [of _ P] exI [of _ C] exI [of _ h]) (auto simp: note_token_eq [of b i a])
qed

lemma fold_note_seq_set:
  "fold (note_seq_set b) [0..<n] a =
     a\<lparr>ba_seq_set := ba_seq_set a @ map (\<lambda>i. nat ` set (seqs_of b i)) [0..<n],
       ba_seq_set_map := (\<lambda>S. ba_seq_set_map a S @ filter (\<lambda>i. nat ` set (seqs_of b i) = S) [0..<n])\<rparr>"
proof (induction n)
  case (Suc n)
  let ?m = "\<lambda>n S. ba_seq_set_map a S @ filter (\<lambda>i. nat ` set (seqs_of b i) = S) [0..<n]"
  have "(?m n)(nat ` set (seqs_of b n) := ?m n (nat ` set (seqs_of b n)) @ [n]) = ?m (Suc n)"
    by (auto simp: fun_eq_iff)
  then show ?case using Suc by (simp add: note_seq_set_def [of b n] Let_def)
qed simp

lemma fold_note_seq_id_unq:
  "\<exists>x y. fold (note_seq_id_unq b) ss a = a\<lparr>ba_seq_idx := x, ba_seq_id_unq := y\<rparr>"
proof (induction ss arbitrary: a)
  case Nil
  show ?case by (intro exI [of _ "ba_seq_idx a"] exI [of _ "ba_seq_id_unq a"]) simp
next
  case (Cons s ss)
  have "\<exists>x y. note_seq_id_unq b s a = a\<lparr>ba_seq_idx := x, ba_seq_id_unq := y\<rparr>"
    by (intro exI [of _ "ba_seq_idx (note_seq_id_unq b s a)"] exI [of _ "ba_seq_id_unq (note_seq_id_unq b s a)"])
       (simp add: note_seq_id_unq_def)
  then obtain x y where "note_seq_id_unq b s a = a\<lparr>ba_seq_idx := x, ba_seq_id_unq := y\<rparr>" by blast
  with Cons [of "note_seq_id_unq b s a"] show ?case by auto
qed

lemma compute_stats_fields:
  assumes "ba_seq_set a = []" "ba_seq_set_map a = (\<lambda>_. [])" "ba_seq_pos a = replicate LLAMA_MAX_SEQ {}"
    "ba_seq_cpl a = {}"
  shows "ba_batch (compute_stats b ne ns a) = ba_batch a"
    and "ba_n_pos_per_embd (compute_stats b ne ns a) = ba_n_pos_per_embd a"
    and "ba_seq_set (compute_stats b ne ns a) = map (\<lambda>i. nat ` set (seqs_of b i)) [0..<b_n_tokens b]"
    and "ba_seq_set_map (compute_stats b ne ns a) = (\<lambda>S. filter (\<lambda>i. nat ` set (seqs_of b i) = S) [0..<b_n_tokens b])"
    and "s < LLAMA_MAX_SEQ \<Longrightarrow> ba_seq_pos (compute_stats b ne ns a) ! s = batch_positions b [0..<b_n_tokens b] s"
    and "ba_seq_cpl (compute_stats b ne ns a) =
      (\<Union>i \<in> {0..<b_n_tokens b}. (\<lambda>s1. (nat s1, nat (the (b_seq_id b) ! i ! 0))) ` set (tl (seqs_of b i)))"
    and "ba_has_cpl (compute_stats b ne ns a) = (\<exists>i \<in> {0..<b_n_tokens b}. tl (seqs_of b i) \<noteq> [])"
proof -
  let ?a = "a\<lparr>ba_n_embd := ne, ba_n_seq_max := ns,
      ba_n_outputs := ba_n_outputs a + length (filter (\<lambda>l. l \<noteq> 0) (the (b_logits b))), ba_has_cpl := False\<rparr>"
  obtain P C h where 1: "fold (note_token b) [0..<b_n_tokens b] ?a =
      ?a\<lparr>ba_seq_pos := P, ba_seq_cpl := C, ba_has_cpl := h\<rparr>"
    and P: "length P = LLAMA_MAX_SEQ" "\<forall>s < LLAMA_MAX_SEQ. P ! s = batch_positions b [0..<b_n_tokens b] s"
    and C: "C = (\<Union>i \<in> {0..<b_n_tokens b}. (\<lambda>s1. (nat s1, nat (the (b_seq_id b) ! i ! 0))) ` set (tl (seqs_of b i)))"
    and h: "h = (\<exists>i \<in> {0..<b_n_tokens b}. tl (seqs_of b i) \<noteq> [])"
    using fold_note_token [of b "[0..<b_n_tokens b]" ?a] assms by auto
  obtain x y where "compute_stats b ne ns a =
      (fold (note_seq_set b) [0..<b_n_tokens b] (fold (note_token b) [0..<b_n_tokens b] ?a))\<lparr>ba_seq_idx := x, ba_seq_id_unq := y\<rparr>"
    using fold_note_seq_id_unq unfolding compute_stats_def Let_def by blast
  then have eq: "compute_stats b ne ns a = ?a\<lparr>ba_seq_pos := P, ba_seq_cpl := C, ba_has_cpl := h,
      ba_seq_set := map (\<lambda>i. nat ` set (seqs_of b i)) [0..<b_n_tokens b],
      ba_seq_set_map := (\<lambda>S. filter (\<lambda>i. nat ` set (seqs_of b i) = S) [0..<b_n_tokens b]),
      ba_seq_idx := x, ba_seq_id_unq := y\<rparr>"
    unfolding 1 fold_note_seq_set using assms(1,2) by simp
  show "ba_batch (compute_stats b ne ns a) = ba_batch a"
    "ba_n_pos_per_embd (compute_stats b ne ns a) = ba_n_pos_per_embd a"
    "ba_seq_set (compute_stats b ne ns a) = map (\<lambda>i. nat ` set (seqs_of b i)) [0..<b_n_tokens b]"
    "ba_seq_set_map (compute_stats b ne ns a) = (\<lambda>S. filter (\<lambda>i. nat ` set (seqs_of b i) = S) [0..<b_n_tokens b])"
    "s < LLAMA_MAX_SEQ \<Longrightarrow> ba_seq_pos (compute_stats b ne ns a) ! s = batch_positions b [0..<b_n_tokens b] s"
    "ba_seq_cpl (compute_stats b ne ns a) =
      (\<Union>i \<in> {0..<b_n_tokens b}. (\<lambda>s1. (nat s1, nat (the (b_seq_id b) ! i ! 0))) ` set (tl (seqs_of b i)))"
    "ba_has_cpl (compute_stats b ne ns a) = (\<exists>i \<in> {0..<b_n_tokens b}. tl (seqs_of b i) \<noteq> [])"
    using P C h unfolding eq by simp_all
qed

section \<open>A successful \<^verbatim>\<open>init\<close>\<close>

lemma gen_fields [simp]:
  "b_n_tokens (gen_n_seq_id b) = b_n_tokens b" "b_n_tokens (gen_seq_id b) = b_n_tokens b"
  "b_n_tokens (gen_logits oa b) = b_n_tokens b"
  "b_token (gen_n_seq_id b) = b_token b" "b_token (gen_seq_id b) = b_token b"
  "b_token (gen_logits oa b) = b_token b"
  "b_pos (gen_n_seq_id b) = b_pos b" "b_pos (gen_seq_id b) = b_pos b" "b_pos (gen_logits oa b) = b_pos b"
  "b_seq_id (gen_logits oa b) = b_seq_id b" "b_n_seq_id (gen_logits oa b) = b_n_seq_id b"
  "seqs_of (gen_logits oa b) = seqs_of b"
  by (simp_all add: gen_n_seq_id_def gen_seq_id_def gen_logits_def seqs_of_def [abs_def] split: option.splits)

lemma gen_positions_length: "gen_positions b is p0 = Some ps \<Longrightarrow> length ps = length is"
  by (induction "is" arbitrary: p0 ps) (auto simp: Let_def bind_eq_Some_conv split: if_splits)

lemma gen_pos_fields:
  assumes "gen_pos mem ns b = Some b'"
  shows "b_n_tokens b' = b_n_tokens b" "b_token b' = b_token b" "seqs_of b' = seqs_of b"
    "b_seq_id b' = b_seq_id b" "b_pos b \<noteq> None \<Longrightarrow> b_pos b' = b_pos b"
    "b_pos b = None \<Longrightarrow> length (the (b_pos b')) = b_n_tokens b"
  using assms
  by (auto simp: gen_pos_def bind_eq_Some_conv seqs_of_def [abs_def] split: option.splits
      dest!: gen_positions_length)

lemma batch_init_True:
  assumes "batch_init b0 nv mem ne ns oa a0 = Some (True, a)"
  obtains b where "a = split_reset (compute_stats b ne ns ((ba_clear a0)\<lparr>ba_batch := b\<rparr>))"
    and "b_n_tokens b = b_n_tokens b0" and "0 < b_n_tokens b" and "ns \<le> LLAMA_MAX_SEQ"
    and "seq_ids_valid b ns" and "b_token b = b_token b0"
    and "b_pos b0 \<noteq> None \<longrightarrow> b_pos b = b_pos b0"
    and "b_pos b0 = None \<longrightarrow> length (the (b_pos b)) = b_n_tokens b"
    and "b_n_tokens b \<le> length (the (b_pos b))"
    and "\<not> 1 < ba_n_pos_per_embd (compute_stats b ne ns ((ba_clear a0)\<lparr>ba_batch := b\<rparr>)) \<longrightarrow>
      all_checks (check_seq_plain mem (compute_stats b ne ns ((ba_clear a0)\<lparr>ba_batch := b\<rparr>))) [0..<ns] = Some True"
    and "subset_check b (compute_stats b ne ns ((ba_clear a0)\<lparr>ba_batch := b\<rparr>)) ns"
proof -
  let ?b1 = "gen_seq_id (gen_n_seq_id b0)"
  from assms have ok: "arrays_ok b0" "0 < b_n_tokens b0" "ns \<le> LLAMA_MAX_SEQ" "seq_ids_valid ?b1 ns"
    by (auto simp: batch_init_def Let_def bind_eq_Some_conv split: if_splits)
  from assms obtain b2 where gp: "gen_pos mem ns ?b1 = Some b2"
    and a: "a = split_reset (compute_stats (gen_logits oa b2) ne ns ((ba_clear a0)\<lparr>ba_batch := gen_logits oa b2\<rparr>))"
    and chk: "\<not> 1 < ba_n_pos_per_embd (compute_stats (gen_logits oa b2) ne ns ((ba_clear a0)\<lparr>ba_batch := gen_logits oa b2\<rparr>)) \<Longrightarrow>
      all_checks (check_seq_plain mem (compute_stats (gen_logits oa b2) ne ns ((ba_clear a0)\<lparr>ba_batch := gen_logits oa b2\<rparr>))) [0..<ns] = Some True"
    and sub: "subset_check (gen_logits oa b2) (compute_stats (gen_logits oa b2) ne ns ((ba_clear a0)\<lparr>ba_batch := gen_logits oa b2\<rparr>)) ns"
    by (auto simp: batch_init_def Let_def bind_eq_Some_conv split: if_splits)
  note gpf = gen_pos_fields [OF gp]
  have "seq_ids_valid (gen_logits oa b2) ns" using ok(4) by (simp add: seq_ids_valid_def gpf)
  moreover have "b_n_tokens b0 \<le> length (the (b_pos b2))"
    using gpf ok(1) by (cases "b_pos b0") (auto simp: arrays_ok_def)
  ultimately show ?thesis
    using that [of "gen_logits oa b2"] a chk sub ok gpf by simp
qed

lemma cleared_fields:
  assumes "length (ba_seq_pos a0) = LLAMA_MAX_SEQ"
  shows "ba_seq_set ((ba_clear a0)\<lparr>ba_batch := b\<rparr>) = []"
    and "ba_seq_set_map ((ba_clear a0)\<lparr>ba_batch := b\<rparr>) = (\<lambda>_. [])"
    and "ba_seq_pos ((ba_clear a0)\<lparr>ba_batch := b\<rparr>) = replicate LLAMA_MAX_SEQ {}"
    and "ba_seq_cpl ((ba_clear a0)\<lparr>ba_batch := b\<rparr>) = {}"
  using assms map_replicate_const [of "{} :: int set" "ba_seq_pos a0"] by (simp_all add: ba_clear_def)

lemma clear_npe: "ba_n_pos_per_embd (ba_clear a) = ba_n_pos_per_embd a"
  by (simp add: ba_clear_def)

lemmas stats_fields = compute_stats_fields [OF cleared_fields]

lemma split_reset_fields [simp]:
  "ba_batch (split_reset a) = ba_batch a" "ba_seq_set (split_reset a) = ba_seq_set a"
  "ba_seq_set_map (split_reset a) = ba_seq_set_map a" "ba_has_cpl (split_reset a) = ba_has_cpl a"
  "ba_n_pos_per_embd (split_reset a) = ba_n_pos_per_embd a" "get_n_tokens (split_reset a) = get_n_tokens a"
  "ba_used (split_reset a) = replicate (get_n_tokens a) False" "ba_n_used (split_reset a) = 0"
  by (simp_all add: split_reset_def get_n_tokens_def)

lemma batch_init_splittable:
  assumes init: "batch_init b0 nv mem ne ns oa a0 = Some (True, a)"
    and a0: "length (ba_seq_pos a0) = LLAMA_MAX_SEQ"
    and seqs: "\<And>i. i < b_n_tokens b0 \<Longrightarrow> seqs_of (ba_batch a) i \<noteq> []"
    and room: "b_token b0 \<noteq> None \<or> ba_n_pos_per_embd a0 * b_n_tokens b0 \<le> length (the (b_pos (ba_batch a)))"
  shows "ok_simple a \<and> ok_equal False a \<and> (\<not> ba_has_cpl a \<longrightarrow> ok_equal True a) \<and>
    get_n_tokens a = b_n_tokens b0 \<and> (\<forall>i < b_n_tokens b0. \<not> ba_used a ! i)"
proof -
  from init obtain b where a: "a = split_reset (compute_stats b ne ns ((ba_clear a0)\<lparr>ba_batch := b\<rparr>))"
    and b: "b_n_tokens b = b_n_tokens b0" "b_token b = b_token b0" "b_n_tokens b \<le> length (the (b_pos b))"
    by (rule batch_init_True)
  note st = stats_fields [OF a0 a0 a0 a0]
  have bb: "ba_batch a = b" by (simp add: a st)
  have n: "get_n_tokens a = b_n_tokens b0" by (simp add: get_n_tokens_def bb b)
  have "alloc_ok a"
    unfolding alloc_ok_def
  proof (intro conjI allI impI)
    show "length (ba_used a) = get_n_tokens a" "length (ba_seq_set a) = get_n_tokens a"
      using n b by (simp_all add: a st get_n_tokens_def)
    show "ba_n_used a = count_used a" by (simp add: a count_used_def)
    show "ba_seq_set a ! i \<noteq> {}" if "i < get_n_tokens a" for i
      using seqs [of i] that n b bb by (simp add: a st)
    show "ba_seq_set_map a S = filter (\<lambda>i. ba_seq_set a ! i = S) [0..<get_n_tokens a]" for S
      using n b by (auto simp: a st intro!: filter_cong)
    have "ba_n_pos_per_embd a = ba_n_pos_per_embd a0" by (simp add: a st clear_npe)
    then show "(if b_token (ba_batch a) = None then ba_n_pos_per_embd a else 1) * get_n_tokens a
        \<le> length (the (b_pos (ba_batch a)))"
      using room b bb n by auto
  qed
  moreover have "set_prefix a S" for S
    unfolding set_prefix_def
  proof (intro exI [of _ 0] allI impI)
    fix j assume "j < length (ba_seq_set_map a S)"
    then have "ba_seq_set_map a S ! j < get_n_tokens a"
      using alloc_ok_map(1) [OF \<open>alloc_ok a\<close>, of "ba_seq_set_map a S ! j" S] by simp
    then show "ba_used a ! (ba_seq_set_map a S ! j) \<longleftrightarrow> j < 0" by (simp add: a)
  qed
  moreover have "\<not> ba_used a ! i" if "i < get_n_tokens a" for i using that by (simp add: a)
  ultimately show ?thesis using n by (auto simp: ok_simple_def ok_equal_def)
qed

lemma all_checks_True: "all_checks f xs = Some True \<longleftrightarrow> (\<forall>x \<in> set xs. f x = Some True)"
  by (induction xs) (auto split: option.splits)

lemma finite_batch_positions [simp]: "finite (batch_positions b is s)"
  by (simp add: batch_positions_def)

lemma contiguous_iff:
  fixes P :: "int set"
  assumes "finite P" and "P \<noteq> {}"
  shows "\<not> Max P - Min P + 1 > int (card P) \<longleftrightarrow> P = {Min P..Max P}"
proof -
  have sub: "P \<subseteq> {Min P..Max P}" using assms by auto
  have le: "Min P \<le> Max P" using assms by simp
  show ?thesis
  proof
    assume "\<not> Max P - Min P + 1 > int (card P)"
    then have "card {Min P..Max P} \<le> card P" using le by simp
    with card_mono [OF _ sub] have "card P = card {Min P..Max P}" by (intro antisym) auto
    then show "P = {Min P..Max P}" using card_subset_eq [OF _ sub] by simp
  next
    assume "P = {Min P..Max P}"
    then have "card P = card {Min P..Max P}" by (rule arg_cong)
    then show "\<not> Max P - Min P + 1 > int (card P)" using le by simp
  qed
qed

section \<open>The last check\<close>

lemma subset_check_token_iff:
  assumes "length cs = ns" and "\<And>s. s < ns \<Longrightarrow> s \<in> cs ! s"
    and "\<And>s. s \<in> set ss \<Longrightarrow> nat s < ns \<and> nat s \<in> ba_seq_set a ! i"
  shows "if ss = [] \<or> -1 \<le> p
    then \<exists>cs'. subset_check_token a i p ss (cs, replicate ns (-1)) = Some (cs', replicate ns (-1)) \<and>
      length cs' = ns \<and> (\<forall>s < ns. s \<in> cs' ! s)
    else subset_check_token a i p ss (cs, replicate ns (-1)) = None"
  using assms
proof (induction ss arbitrary: cs)
  case (Cons s ss)
  let ?cs = "cs[nat s := cs ! nat s \<inter> ba_seq_set a ! i]"
  have s: "nat s < ns" "nat s \<in> ba_seq_set a ! i" "nat s \<in> cs ! nat s" using Cons.prems by auto
  have "\<And>t. t < ns \<Longrightarrow> t \<in> ?cs ! t" using Cons.prems(1,2) s by (auto simp: nth_list_update)
  moreover have "cs ! nat s \<inter> ba_seq_set a ! i \<noteq> {}" using s by blast
  ultimately show ?case using Cons.IH [of ?cs] Cons.prems s by (cases "-1 \<le> p") (auto simp: Let_def)
qed simp

lemma subset_check_iff:
  assumes "seq_ids_valid b ns" and "ns \<le> LLAMA_MAX_SEQ"
    and "ba_seq_set a = map (\<lambda>i. nat ` set (seqs_of b i)) [0..<b_n_tokens b]"
  shows "subset_check b a ns \<longleftrightarrow> (\<forall>i < b_n_tokens b. seqs_of b i \<noteq> [] \<longrightarrow> -1 \<le> the (b_pos b) ! i)"
proof -
  have "(if \<forall>i \<in> set is. seqs_of b i \<noteq> [] \<longrightarrow> -1 \<le> the (b_pos b) ! i
      then foldM (\<lambda>i st. subset_check_token a i (the (b_pos b) ! i) (seqs_of b i) st) is (cs, replicate ns (-1)) \<noteq> None
      else foldM (\<lambda>i st. subset_check_token a i (the (b_pos b) ! i) (seqs_of b i) st) is (cs, replicate ns (-1)) = None)"
    if "set is \<subseteq> {..<b_n_tokens b}" "length cs = ns" "\<And>s. s < ns \<Longrightarrow> s \<in> cs ! s" for "is" cs
    using that
  proof (induction "is" arbitrary: cs)
    case (Cons i "is")
    have "nat s < ns \<and> nat s \<in> ba_seq_set a ! i" if "s \<in> set (seqs_of b i)" for s
      using that Cons.prems(1) assms(1,3) by (force simp: seq_ids_valid_def list_all_iff)
    note tok = subset_check_token_iff [where ss = "seqs_of b i" and p = "the (b_pos b) ! i", OF Cons.prems(2,3) this]
    show ?case
    proof (cases "seqs_of b i = [] \<or> -1 \<le> the (b_pos b) ! i")
      case True
      with tok obtain cs' where cs': "length cs' = ns" "\<And>s. s < ns \<Longrightarrow> s \<in> cs' ! s"
        "subset_check_token a i (the (b_pos b) ! i) (seqs_of b i) (cs, replicate ns (-1)) = Some (cs', replicate ns (-1))"
        by auto
      from Cons.IH [OF _ cs'(1,2)] Cons.prems(1) cs'(3) True show ?thesis by auto
    next
      case False
      with tok show ?thesis by auto
    qed
  qed simp
  from this [of "[0..<b_n_tokens b]" "replicate ns {..<LLAMA_MAX_SEQ}"] assms(2) show ?thesis
    by (auto simp: subset_check_def atLeast0LessThan split: if_splits)
qed

section \<open>Batches without positions or sequence ids\<close>

lemma start_positions_Some:
  assumes "\<And>s. s \<in> set ss \<Longrightarrow> mem_max mem s \<noteq> None"
  shows "start_positions mem ss = Some (map (\<lambda>s. the (mem_max mem s) + 1) ss)"
  using assms
proof (induction ss)
  case (Cons s ss)
  then obtain p where "mem_max mem s = Some p" by force
  with Cons show ?case by (cases mem) (auto simp: mem_max_def)
qed simp

lemma gen_positions_single:
  assumes "\<And>i. i \<in> set is \<Longrightarrow> seqs_of b i = [0] \<and> the (b_seq_id b) ! i ! 0 = 0" and "0 < length p0"
  shows "gen_positions b is p0 = Some (map (\<lambda>j. p0 ! 0 + int j) [0..<length is])"
  using assms
proof (induction "is" arbitrary: p0)
  case (Cons i "is")
  have "gen_positions b is (p0[0 := p0 ! 0 + 1]) = Some (map (\<lambda>j. p0 ! 0 + 1 + int j) [0..<length is])"
    using Cons.IH [of "p0[0 := p0 ! 0 + 1]"] Cons.prems by simp
  moreover have "map (\<lambda>j. p0 ! 0 + int j) [0..<Suc (length is)] =
      p0 ! 0 # map (\<lambda>j. p0 ! 0 + 1 + int j) [0..<length is]"
    by (simp add: upt_conv_Cons map_Suc_upt [symmetric] comp_def del: upt_Suc)
  ultimately show ?case using Cons.prems by (simp add: Let_def del: upt_Suc)
qed simp

lemma batch_init_get_one:
  assumes toks: "toks \<noteq> []" "list_all (\<lambda>t. 0 \<le> t \<and> t < int nv) toks"
    and ns: "0 < ns" "ns \<le> LLAMA_MAX_SEQ" and a0: "length (ba_seq_pos a0) = LLAMA_MAX_SEQ" "ba_n_pos_per_embd a0 = 1"
    and mem: "\<And>s. s < ns \<Longrightarrow> mem_max mem s \<noteq> None" and p: "mem_max mem 0 = Some p" "-1 \<le> p"
    and room: "p + int (length toks) < 2147483647"
  shows "\<exists>a. batch_init (llama_batch_get_one toks) nv mem ne ns oa a0 = Some (True, a) \<and>
    b_pos (ba_batch a) = Some (map (\<lambda>i. p + 1 + int i) [0..<length toks]) \<and>
    b_token (ba_batch a) = Some toks \<and> (\<forall>i < length toks. seqs_of (ba_batch a) i = [0])"
proof -
  let ?n = "length toks" and ?inp = "llama_batch_get_one toks"
  let ?mid = "?inp\<lparr>b_n_seq_id := Some (replicate ?n 1), b_seq_id := Some (replicate ?n [0])\<rparr>"
  let ?ps = "map (\<lambda>i. p + 1 + int i) [0..<?n]"
  let ?b = "gen_logits oa (?mid\<lparr>b_pos := Some ?ps\<rparr>)"
  let ?a = "compute_stats ?b ne ns ((ba_clear a0)\<lparr>ba_batch := ?b\<rparr>)"
  have seqs: "seqs_of b i = [0]" if "i < ?n" "b_n_seq_id b = Some (replicate ?n 1)" "b_seq_id b = Some (replicate ?n [0])" for b i
    using that by (simp add: seqs_of_def)
  have gen: "gen_seq_id (gen_n_seq_id ?inp) = ?mid"
    by (simp add: gen_seq_id_def gen_n_seq_id_def llama_batch_get_one_def null_batch_def)
  have n: "b_n_tokens ?inp = ?n" "b_token ?inp = Some toks" "b_pos ?inp = None" "b_seq_id ?inp = None"
    by (simp_all add: llama_batch_get_one_def null_batch_def)
  have "gen_pos mem ns ?mid = Some (?mid\<lparr>b_pos := Some ?ps\<rparr>)"
    using start_positions_Some [of "[0..<ns]" mem] mem gen_positions_single [of "[0..<?n]" ?mid "map (\<lambda>s. the (mem_max mem s) + 1) [0..<ns]"]
      seqs ns(1) p(1) by (simp add: gen_pos_def n)
  note gp = this
  note st = stats_fields [OF a0(1) a0(1) a0(1) a0(1)]
  have bseq: "seqs_of ?b i = [0]" if "i < ?n" for i using that by (simp add: seqs)
  have npe: "\<not> 1 < ba_n_pos_per_embd ?a" by (simp add: st clear_npe a0)
  have pos0: "ba_seq_pos ?a ! 0 = {p + 1..p + int ?n}"
  proof -
    have "ba_seq_pos ?a ! 0 = (\<lambda>i. p + 1 + int i) ` {0..<?n}"
      using bseq by (auto simp: st n batch_positions_def image_iff)
    also have "\<dots> = {p + 1..p + int ?n}"
    proof (intro equalityI subsetI)
      fix x assume "x \<in> {p + 1..p + int ?n}"
      then have "x = p + 1 + int (nat (x - p - 1))" "nat (x - p - 1) < ?n" by auto
      then show "x \<in> (\<lambda>i. p + 1 + int i) ` {0..<?n}" by (metis atLeast0LessThan image_eqI lessThan_iff)
    qed auto
    finally show ?thesis .
  qed
  have posS: "ba_seq_pos ?a ! s = {}" if "s < ns" "s \<noteq> 0" for s
    using that ns bseq by (auto simp: st n batch_positions_def)
  have "check_seq_plain mem ?a s = Some True" if "s < ns" for s
  proof (cases "s = 0")
    case True
    have ne: "{p + 1..p + int ?n} \<noteq> {}" using toks by (cases toks) auto
    moreover from ne have "Min {p + 1..p + int ?n} = p + 1" "Max {p + 1..p + int ?n} = p + int ?n"
      by (auto intro: Min_eqI Max_eqI)
    moreover have "i32_ok (p + 1)" and "i32_ok (int ?n)" using p(2) room by (simp_all add: i32_ok_def)
    ultimately show ?thesis
      using True p by (simp add: check_seq_plain_def pos0 ba_seq_pos_min_def ba_seq_pos_max_def)
  qed (use that posS in \<open>simp add: check_seq_plain_def\<close>)
  then have chk: "all_checks (check_seq_plain mem ?a) [0..<ns] = Some True" by (simp add: all_checks_True)
  have "ba_seq_cpl ?a = {}" using bseq by (simp add: st n)
  then have cpl: "all_checks (check_cpl m ?a) xs = Some True" for m xs
    by (auto simp: all_checks_True check_cpl_def)
  have valid: "seq_ids_valid ?mid ns" using seqs ns by (simp add: seq_ids_valid_def n list_all_iff)
  then have "seq_ids_valid ?b ns" using bseq ns by (simp add: seq_ids_valid_def n list_all_iff)
  then have sub: "subset_check ?b ?a ns"
    using subset_check_iff [OF _ ns(2), of ?b ?a] p by (simp add: st n)
  have ao: "arrays_ok ?inp" "b_embd ?inp = None" by (simp_all add: arrays_ok_def llama_batch_get_one_def null_batch_def)
  have sr: "seqs_readable (the (b_n_seq_id ?mid)) (the (b_seq_id ?mid))"
    by (simp add: seqs_readable_def list_all2_conv_all_nth)
  have tv: "tokens_valid ?inp nv" using toks(2) by (auto simp: tokens_valid_def n list_all_iff)
  have "batch_init ?inp nv mem ne ns oa a0 = Some (True, split_reset ?a)"
    using toks(1) ns gp npe chk cpl sub tv valid ao sr
    by (auto simp: batch_init_def Let_def n gen split: option.split)
  then show ?thesis using bseq by (auto simp: st n)
qed

lemma batch_init_contiguous:
  assumes "batch_init b0 nv mem ne ns oa a0 = Some (True, a)" and "length (ba_seq_pos a0) = LLAMA_MAX_SEQ"
    and "ba_n_pos_per_embd a0 \<le> 1" and "s < ns"
    and "P = {the (b_pos (ba_batch a)) ! i | i. i < b_n_tokens b0 \<and> s \<in> nat ` set (seqs_of (ba_batch a) i)}"
    and "P \<noteq> {}" and range: "\<And>p. p \<in> P \<Longrightarrow> 0 \<le> p \<and> p < 2147483647" "\<And>p. mem_max mem s = Some p \<Longrightarrow> i32_ok p"
  shows "P = {Min P..Max P} \<and> (\<forall>p \<ge> 0. mem_max mem s = Some p \<longrightarrow> Min P = p + 1)"
proof -
  note a0 = assms(2)
  from assms(1) obtain b where a: "a = split_reset (compute_stats b ne ns ((ba_clear a0)\<lparr>ba_batch := b\<rparr>))"
    and n: "b_n_tokens b = b_n_tokens b0" "ns \<le> LLAMA_MAX_SEQ"
    and chk: "\<not> 1 < ba_n_pos_per_embd (compute_stats b ne ns ((ba_clear a0)\<lparr>ba_batch := b\<rparr>)) \<longrightarrow>
      all_checks (check_seq_plain mem (compute_stats b ne ns ((ba_clear a0)\<lparr>ba_batch := b\<rparr>))) [0..<ns] = Some True"
    by (rule batch_init_True)
  note st = stats_fields [OF a0 a0 a0 a0]
  have P: "ba_seq_pos (compute_stats b ne ns ((ba_clear a0)\<lparr>ba_batch := b\<rparr>)) ! s = P"
    using assms(4,5) n by (auto simp: a st batch_positions_def)
  have fin: "finite P" using assms(5) by simp
  have "check_seq_plain mem (compute_stats b ne ns ((ba_clear a0)\<lparr>ba_batch := b\<rparr>)) s = Some True"
    using chk assms(3,4) by (simp add: st clear_npe all_checks_True)
  then obtain p where p: "mem_max mem s = Some p" "\<not> (p \<ge> 0 \<and> Min P \<noteq> i32 (p + 1))"
      "\<not> i32 (Max P - Min P + 1) > i32 (int (card P))"
    using assms(6) by (auto simp: check_seq_plain_def P ba_seq_pos_min_def ba_seq_pos_max_def bind_eq_Some_conv split: if_splits)
  have ends: "0 \<le> Min P" "Min P \<le> Max P" "Max P < 2147483647"
    using range(1) Min_in [OF fin assms(6)] Max_in [OF fin assms(6)] Min_le [OF fin Max_in [OF fin assms(6)]] by auto
  have "P \<subseteq> {0..2147483646}" using range(1) by force
  then have "int (card P) \<le> 2147483647" using card_mono [of "{0..2147483646 :: int}" P] by simp
  then have "i32_ok (int (card P))" "i32_ok (Max P - Min P + 1)" using ends by (simp_all add: i32_ok_def)
  then have "P = {Min P..Max P}" using p(3) contiguous_iff [OF fin assms(6)] by simp
  moreover have "Min P = p + 1" if "0 \<le> p"
  proof (cases "p = 2147483647")
    case True
    then have "Min P = -2147483648" using p(2) by (simp add: i32_def)
    then show ?thesis using ends by simp
  next
    case False
    then have "i32_ok (p + 1)" using range(2) [OF p(1)] that by (simp add: i32_ok_def)
    then show ?thesis using p(2) that by simp
  qed
  ultimately show ?thesis using p(1) by simp
qed

section \<open>Properties\<close>

definition splits_completely :: "(llama_batch_allocr \<Rightarrow> (llama_ubatch \<times> llama_batch_allocr) option) \<Rightarrow> nat \<Rightarrow>
    llama_batch_allocr \<Rightarrow> bool" where
  "splits_completely split bound a \<longleftrightarrow>
     (\<exists>us a' idxss. split_loop split a = Some (us, a') \<and> ba_n_used a' = get_n_tokens a \<and>
        list_all2 (ubatch_of a) idxss us \<and> distinct (concat idxss) \<and>
        set (concat idxss) = {..<get_n_tokens a} \<and> (\<forall>idxs \<in> set idxss. idxs \<noteq> [] \<and> length idxs \<le> bound))"

lemma splits_completelyI:
  assumes "\<exists>us a' idxss. split_loop split a = Some (us, a') \<and> ok a' \<and> list_all (\<lambda>x. x) (ba_used a') \<and>
    ba_batch a' = ba_batch a \<and> list_all2 (ubatch_of a) idxss us \<and>
    distinct (concat idxss) \<and> set (concat idxss) = {i. i < get_n_tokens a \<and> \<not> ba_used a ! i} \<and>
    (\<forall>idxs \<in> set idxss. idxs \<noteq> [] \<and> length idxs \<le> bound)"
    and "\<And>a. ok a \<Longrightarrow> alloc_ok a" and "\<forall>i < get_n_tokens a. \<not> ba_used a ! i"
  shows "splits_completely split bound a"
proof -
  from assms(1) obtain us a' idxss where loop: "split_loop split a = Some (us, a')" "ok a'"
    "list_all (\<lambda>x. x) (ba_used a')" "ba_batch a' = ba_batch a" "list_all2 (ubatch_of a) idxss us"
    "distinct (concat idxss)" "\<forall>idxs \<in> set idxss. idxs \<noteq> [] \<and> length idxs \<le> bound"
    and cover: "set (concat idxss) = {i. i < get_n_tokens a \<and> \<not> ba_used a ! i}" by blast
  have "filter (\<lambda>x. x) (ba_used a') = ba_used a'" using loop(3) by (simp add: filter_id_conv list_all_iff)
  then have "ba_n_used a' = get_n_tokens a"
    using assms(2) [OF loop(2)] loop(4) by (simp add: alloc_ok_def count_used_def get_n_tokens_def)
  moreover have "set (concat idxss) = {..<get_n_tokens a}" using cover assms(3) by auto
  ultimately show ?thesis using loop unfolding splits_completely_def by blast
qed

text \<open>C10: After a successful \<^verbatim>\<open>init\<close> of a batch in which every token has a sequence, and which is made of tokens or, if
  it is made of embeddings, has all the positions that the model wants for each of them, the split loop of the memory
  modules ends for \<^verbatim>\<open>split_simple\<close>, \<^verbatim>\<open>split_seq\<close> and \<^verbatim>\<open>split_equal\<close> (the sequential \<^verbatim>\<open>split_equal\<close> only when no
  sequences are coupled), without an out-of-range read, and the micro-batches contain every token of the batch exactly
  once, with its own id, sequence ids and output flag, in non-empty pieces of bounded size.\<close>

theorem batch_split_partition:
  assumes "batch_init b0 nv mem ne ns oa a0 = Some (True, a)" and "length (ba_seq_pos a0) = LLAMA_MAX_SEQ"
    and "\<And>i. i < b_n_tokens b0 \<Longrightarrow> seqs_of (ba_batch a) i \<noteq> []"
    and "b_token b0 \<noteq> None \<or> ba_n_pos_per_embd a0 * b_n_tokens b0 \<le> length (the (b_pos (ba_batch a)))"
  shows "splits_completely (split_simple n_ubatch) (max n_ubatch 1) a \<and>
    splits_completely (split_seq n_ubatch) (max n_ubatch 1) a \<and>
    splits_completely (split_equal n_ubatch False) (n_ubatch + 1) a \<and>
    (\<not> ba_has_cpl a \<longrightarrow> splits_completely (split_equal n_ubatch True) (n_ubatch + 1) a)"
proof -
  note ok = batch_init_splittable [OF assms]
  then have u: "\<forall>i < get_n_tokens a. \<not> ba_used a ! i" by simp
  have "splits_completely (split_simple n_ubatch) (max n_ubatch 1) a"
    using ok by (intro splits_completelyI [OF simple.split_loop_ok simple.ok_alloc u]) auto
  moreover have "splits_completely (split_seq n_ubatch) (max n_ubatch 1) a"
    using ok by (intro splits_completelyI [OF by_seq.split_loop_ok by_seq.ok_alloc u]) (auto simp: ok_simple_def)
  moreover have "splits_completely (split_equal n_ubatch q) (n_ubatch + 1) a" if "ok_equal q a" for q
    using that splits_completelyI [OF equal.split_loop_ok equal.ok_alloc u] by simp
  ultimately show ?thesis using ok by blast
qed

text \<open>C18: For a model with one position per token, a successful \<^verbatim>\<open>init\<close> of a batch whose positions are not negative
  and below \<^verbatim>\<open>INT32_MAX\<close> guarantees that the positions of each sequence in the batch form an interval without gaps,
  and that this interval starts right after the last position the memory holds for the sequence.\<close>

theorem batch_init_positions_continue_memory:
  assumes "batch_init b0 nv mem ne ns oa a0 = Some (True, a)" and "length (ba_seq_pos a0) = LLAMA_MAX_SEQ"
    and "ba_n_pos_per_embd a0 \<le> 1" and "s < ns"
    and "P = {the (b_pos (ba_batch a)) ! i | i. i < b_n_tokens b0 \<and> s \<in> nat ` set (seqs_of (ba_batch a) i)}"
    and "P \<noteq> {}" and "\<And>p. p \<in> P \<Longrightarrow> 0 \<le> p \<and> p < 2147483647" and "\<And>p. mem_max mem s = Some p \<Longrightarrow> i32_ok p"
  shows "P = {Min P..Max P} \<and> (\<forall>p \<ge> 0. mem_max mem s = Some p \<longrightarrow> Min P = p + 1)"
  by (rule batch_init_contiguous [OF assms])

text \<open>The bound is needed: the length of the interval from 0 to \<^verbatim>\<open>INT32_MAX\<close> overflows, and the gap is not noticed.\<close>

lemma position_gap_overflow_accepted:
  "map_option fst (batch_init (null_batch\<lparr>b_n_tokens := 2, b_token := Some [1, 2], b_pos := Some [0, 2147483647],
     b_n_seq_id := Some [1, 1], b_seq_id := Some [[0], [0]]\<rparr>) 10 None 1 1 False (batch_allocr 1)) = Some True"
  by code_simp

text \<open>A plain batch of valid tokens (\<^verbatim>\<open>llama_batch_get_one\<close>) is always accepted, goes to sequence 0,
  and gets the consecutive positions that follow the last one in the memory.\<close>

theorem get_one_batch_accepted:
  assumes "toks \<noteq> []" and "list_all (\<lambda>t. 0 \<le> t \<and> t < int nv) toks"
    and "0 < ns" and "ns \<le> LLAMA_MAX_SEQ" and "length (ba_seq_pos a0) = LLAMA_MAX_SEQ"
    and "ba_n_pos_per_embd a0 = 1"
    and "\<And>s. s < ns \<Longrightarrow> mem_max mem s \<noteq> None" and "mem_max mem 0 = Some p" and "-1 \<le> p"
    and "p + int (length toks) < 2147483647"
  shows "\<exists>a. batch_init (llama_batch_get_one toks) nv mem ne ns oa a0 = Some (True, a) \<and>
    b_pos (ba_batch a) = Some (map (\<lambda>i. p + 1 + int i) [0..<length toks]) \<and>
    b_token (ba_batch a) = Some toks \<and> (\<forall>i < length toks. seqs_of (ba_batch a) i = [0])"
  by (rule batch_init_get_one [OF assms])

text \<open>The last block of \<^verbatim>\<open>init\<close>, documented as rejecting partial sequence sub-sets and decreasing
  positions, accepts every batch whose positions are at least -1: the intersection it tests always contains
  the sequence itself, and \<^verbatim>\<open>cur_seq_pos\<close> is never updated.\<close>

theorem last_init_check_only_rejects_negative_positions:
  assumes "seq_ids_valid b ns" and "ns \<le> LLAMA_MAX_SEQ" and "length (ba_seq_pos a0) = LLAMA_MAX_SEQ"
  shows "subset_check b (compute_stats b ne ns ((ba_clear a0)\<lparr>ba_batch := b\<rparr>)) ns \<longleftrightarrow>
    (\<forall>i < b_n_tokens b. seqs_of b i \<noteq> [] \<longrightarrow> -1 \<le> the (b_pos b) ! i)"
  using subset_check_iff [OF assms(1,2)] stats_fields(3) [OF assms(3) assms(3) assms(3) assms(3)] by blast

text \<open>Embeddings given without positions to a model with several positions per token are accepted by
  \<^verbatim>\<open>init\<close>, which generates one position per token; the first split then reads past the end of the
  generated array.\<close>

theorem embd_without_pos_out_of_range:
  assumes "batch_init b0 nv mem ne ns oa a0 = Some (True, a)" and "length (ba_seq_pos a0) = LLAMA_MAX_SEQ"
    and "b_token b0 = None" and "b_pos b0 = None" and "1 < ba_n_pos_per_embd a0"
  shows "split_simple n_ubatch a = None"
proof -
  note a0 = assms(2)
  from assms(1) obtain b where a: "a = split_reset (compute_stats b ne ns ((ba_clear a0)\<lparr>ba_batch := b\<rparr>))"
    and b: "0 < b_n_tokens b" "b_token b = b_token b0"
    and pos: "b_pos b0 = None \<longrightarrow> length (the (b_pos b)) = b_n_tokens b"
    by (rule batch_init_True)
  note st = stats_fields [OF a0 a0 a0 a0]
  have n: "get_n_tokens a = b_n_tokens b" "ba_batch a = b" "ba_n_pos_per_embd a = ba_n_pos_per_embd a0"
    by (simp_all add: a st clear_npe get_n_tokens_def)
  have f: "first_unused a = 0" using b(1) by (simp add: first_unused_def a st get_n_tokens_def takeWhile_replicate)
  obtain k where k: "simple_idxs n_ubatch (b_n_tokens b) 0 [] = [0..<k]" "0 < k"
    using simple_idxs_upt [OF b(1), of n_ubatch "[]"] by auto
  have "ubatch_pos (mark_used [0..<k] a) [0..<k] = None"
  proof -
    have "1 * b_n_tokens b \<in> set (concat (map (\<lambda>j. map (\<lambda>i. j * b_n_tokens b + i) [0..<k]) [0..<ba_n_pos_per_embd a0]))"
      using k(2) assms(5)
      by (simp only: set_concat set_map set_upt image_image, intro UN_I [of 1] image_eqI [of _ _ 0]) auto
    moreover have "\<not> 1 * b_n_tokens b < length (the (b_pos b))" using pos assms(4) by simp
    ultimately have "\<not> list_all (\<lambda>k. k < length (the (b_pos b)))
        (concat (map (\<lambda>j. map (\<lambda>i. j * b_n_tokens b + i) [0..<k]) [0..<ba_n_pos_per_embd a0]))"
      unfolding list_all_iff by blast
    then show ?thesis using assms(3) b(2) by (simp add: ubatch_pos_def Let_def n)
  qed
  then show ?thesis
    using f k b(1) n by (simp add: split_simple_def ubatch_add_def Let_def a st get_n_tokens_def)
qed


text \<open>\<^verbatim>\<open>split_equal\<close> can return more tokens than the requested maximum: with two sequences of one
  token each and \<^verbatim>\<open>n_ubatch = 1\<close> the micro-batch has two tokens (the set count is compared with \<open>>\<close>).\<close>

theorem split_equal_exceeds_n_ubatch:
  "map_option (\<lambda>(ok, a). (ok, map_option (\<lambda>(u, _). u_n_tokens u) (split_equal 1 False a)))
     (batch_init (null_batch\<lparr>b_n_tokens := 2, b_token := Some [1, 2], b_n_seq_id := Some [1, 1],
        b_seq_id := Some [[0], [1]]\<rparr>) 10 None 1 2 False (batch_allocr 1)) = Some (True, Some 2)"
  by code_simp

section \<open>Witnesses\<close>

lemma allocr_seq_pos [simp]: "length (ba_seq_pos (batch_allocr k)) = LLAMA_MAX_SEQ"
  by (simp add: batch_allocr_def)

theorem get_one_batch_accepted_witness:
  "\<exists>a. batch_init (llama_batch_get_one [5, 6, 7]) 10 None 1 2 False (batch_allocr 1) = Some (True, a) \<and>
    b_pos (ba_batch a) = Some [0, 1, 2]"
  using get_one_batch_accepted [of "[5, 6, 7]" 10 2 "batch_allocr 1" None "-1" 1 False]
  by (auto simp: batch_allocr_def mem_max_def upt_rec)

lemma get_one_example:
  "\<exists>a. batch_init (llama_batch_get_one [5, 6, 7]) 10 None 1 2 False (batch_allocr 1) = Some (True, a) \<and>
    b_pos (ba_batch a) = Some [0, 1, 2] \<and> b_token (ba_batch a) = Some [5, 6, 7] \<and>
    (\<forall>i < 3. seqs_of (ba_batch a) i = [0])"
  using batch_init_get_one [of "[5, 6, 7]" 10 2 "batch_allocr 1" None "-1" 1 False]
  by (auto simp: batch_allocr_def mem_max_def upt_rec)

theorem batch_split_partition_witness:
  "\<exists>a. batch_init (llama_batch_get_one [5, 6, 7]) 10 None 1 2 False (batch_allocr 1) = Some (True, a) \<and>
    splits_completely (split_simple 2) 2 a \<and> splits_completely (split_seq 2) 2 a"
proof -
  obtain a where a: "batch_init (llama_batch_get_one [5, 6, 7]) 10 None 1 2 False (batch_allocr 1) = Some (True, a)"
    and s: "\<forall>i < 3. seqs_of (ba_batch a) i = [0]" using get_one_example by blast
  have "splits_completely (split_simple 2) (max 2 1) a \<and> splits_completely (split_seq 2) (max 2 1) a"
    using batch_split_partition [OF a, of 2] s by (simp add: llama_batch_get_one_def)
  then show ?thesis using a by (intro exI [of _ a]) (simp only: max.absorb1 [of "1::nat" 2] one_le_numeral simp_thms)
qed

theorem batch_init_positions_continue_memory_witness:
  "\<exists>a P. batch_init (llama_batch_get_one [5, 6, 7]) 10 None 1 2 False (batch_allocr 1) = Some (True, a) \<and>
    P = {the (b_pos (ba_batch a)) ! i | i. i < 3 \<and> 0 \<in> nat ` set (seqs_of (ba_batch a) i)} \<and>
    2 \<in> P \<and> P = {Min P..Max P}"
proof -
  obtain a where a: "batch_init (llama_batch_get_one [5, 6, 7]) 10 None 1 2 False (batch_allocr 1) = Some (True, a)"
    and p: "b_pos (ba_batch a) = Some [0, 1, 2]" and s: "\<forall>i < 3. seqs_of (ba_batch a) i = [0]"
    using get_one_example by blast
  define P where "P = {the (b_pos (ba_batch a)) ! i | i. i < 3 \<and> 0 \<in> nat ` set (seqs_of (ba_batch a) i)}"
  have two: "2 \<in> P" using p s by (auto simp: P_def intro!: exI [of _ 2])
  have "P = {Min P..Max P} \<and> (\<forall>p \<ge> 0. mem_max None 0 = Some p \<longrightarrow> Min P = p + 1)"
  proof (rule batch_init_positions_continue_memory [OF a])
    show "P \<noteq> {}" using two by blast
    show "0 \<le> q \<and> q < 2147483647" if "q \<in> P" for q
      using that p by (auto simp: P_def numeral_3_eq_3 less_Suc_eq)
    show "i32_ok q" if "mem_max None 0 = Some q" for q using that by (simp add: mem_max_def i32_ok_def)
    show "P = {the (b_pos (ba_batch a)) ! i |i. i < b_n_tokens (llama_batch_get_one [5, 6, 7]) \<and>
        0 \<in> nat ` set (seqs_of (ba_batch a) i)}"
      by (simp add: P_def llama_batch_get_one_def numeral_3_eq_3)
  qed (simp_all add: batch_allocr_def)
  with a two P_def show ?thesis by blast
qed

theorem last_init_check_only_rejects_negative_positions_witness:
  "let b = null_batch\<lparr>b_n_tokens := 2, b_n_seq_id := Some [1, 1], b_seq_id := Some [[0], [0]], b_pos := Some [1, 0]\<rparr>
   in seq_ids_valid b 1 \<and> subset_check b (compute_stats b 1 1 ((ba_clear (batch_allocr 1))\<lparr>ba_batch := b\<rparr>)) 1"
proof -
  let ?b = "null_batch\<lparr>b_n_tokens := 2, b_n_seq_id := Some [1, 1], b_seq_id := Some [[0], [0]], b_pos := Some [1, 0]\<rparr>"
  have v: "seq_ids_valid ?b 1" by (simp add: seq_ids_valid_def seqs_of_def numeral_2_eq_2)
  have "\<forall>i < b_n_tokens ?b. -1 \<le> the (b_pos ?b) ! i" by (auto simp: less_2_cases_iff)
  with last_init_check_only_rejects_negative_positions [OF v, of "batch_allocr 1" 1] v show ?thesis by simp
qed

theorem embd_without_pos_out_of_range_witness:
  "\<exists>a. batch_init (null_batch\<lparr>b_n_tokens := 1, b_embd := Some [0]\<rparr>) 10 None 1 1 False (batch_allocr 4) = Some (True, a) \<and>
    split_simple 1 a = None"
proof -
  have "map_option fst (batch_init (null_batch\<lparr>b_n_tokens := 1, b_embd := Some [0]\<rparr>) 10 None 1 1 False (batch_allocr 4)) = Some True"
    by code_simp
  then obtain a where a: "batch_init (null_batch\<lparr>b_n_tokens := 1, b_embd := Some [0]\<rparr>) 10 None 1 1 False (batch_allocr 4) = Some (True, a)"
    by auto
  have "split_simple 1 a = None"
    by (rule embd_without_pos_out_of_range [OF a]) (simp_all add: null_batch_def batch_allocr_def)
  with a show ?thesis by blast
qed

end
