(* ===== verification/SeqMemory.thy ===== *)
theory SeqMemory
  imports BatchInit
begin

text \<open>
  The interface \<^verbatim>\<open>llama_memory_i\<close> as \<^verbatim>\<open>llama_batch_allocr::init\<close> uses it (\<^verbatim>\<open>src/llama-memory.h\<close>): a
  memory module reports the smallest and largest position it holds for a sequence. The locale states
  what a module promises and what an accepted batch then means for its contents.
\<close>

definition memory_of :: "(int \<Rightarrow> 'm \<Rightarrow> int option) \<Rightarrow> (int \<Rightarrow> 'm \<Rightarrow> int option) \<Rightarrow> 'm \<Rightarrow> memory_view" where
  "memory_of pos_min pos_max m = \<lparr>mem_pos_min = (\<lambda>s. pos_min (int s) m), mem_pos_max = (\<lambda>s. pos_max (int s) m)\<rparr>"

locale seq_memory =
  fixes inv :: "'m \<Rightarrow> bool" and valid :: "'m \<Rightarrow> int \<Rightarrow> bool" and positions :: "'m \<Rightarrow> int \<Rightarrow> int set"
    and pos_min :: "int \<Rightarrow> 'm \<Rightarrow> int option" and pos_max :: "int \<Rightarrow> 'm \<Rightarrow> int option"
  assumes positions_finite: "inv m \<Longrightarrow> valid m s \<Longrightarrow> finite (positions m s)"
    and positions_nonneg: "inv m \<Longrightarrow> valid m s \<Longrightarrow> p \<in> positions m s \<Longrightarrow> 0 \<le> p"
    and pos_min_law: "inv m \<Longrightarrow> valid m s \<Longrightarrow>
      pos_min s m = Some (if positions m s = {} then -1 else Min (positions m s))"
    and pos_max_law: "inv m \<Longrightarrow> valid m s \<Longrightarrow>
      pos_max s m = Some (if positions m s = {} then -1 else Max (positions m s))"
begin

lemma pos_max_cases:
  assumes "inv m" and "valid m s"
  obtains p where "pos_max s m = Some p" "-1 \<le> p" "p = -1 \<longleftrightarrow> positions m s = {}"
    "\<And>q. q \<in> positions m s \<Longrightarrow> q \<le> p" "positions m s \<noteq> {} \<Longrightarrow> p \<in> positions m s"
proof (cases "positions m s = {}")
  case True
  then show ?thesis using that [of "-1"] pos_max_law [OF assms] by simp
next
  case False
  note fin = positions_finite [OF assms]
  have "Max (positions m s) \<in> positions m s" using fin False by simp
  moreover from this have "0 \<le> Max (positions m s)" by (rule positions_nonneg [OF assms])
  ultimately show ?thesis using that [of "Max (positions m s)"] False fin pos_max_law [OF assms] by simp
qed

text \<open>An accepted batch adds only new positions, all above the stored ones and adjacent to them.\<close>

lemma accepted_batch_extends:
  assumes m: "inv m" "valid m (int s)"
    and init: "batch_init b0 nv (Some (memory_of pos_min pos_max m)) ne ns oa a0 = Some (True, a)"
    and a0: "length (ba_seq_pos a0) = LLAMA_MAX_SEQ" "ba_n_pos_per_embd a0 \<le> 1" and s: "s < ns"
    and P: "P = {the (b_pos (ba_batch a)) ! i | i. i < b_n_tokens b0 \<and> s \<in> nat ` set (seqs_of (ba_batch a) i)}"
      "P \<noteq> {}"
    and range: "\<And>p. p \<in> P \<Longrightarrow> 0 \<le> p \<and> p < 2147483647" "\<And>q. q \<in> positions m (int s) \<Longrightarrow> q \<le> 2147483647"
  shows "(\<forall>q \<in> positions m (int s). \<forall>p \<in> P. q < p) \<and>
    (positions m (int s) \<noteq> {} \<longrightarrow> positions m (int s) \<union> P \<supseteq> {Max (positions m (int s))..Max P}) \<and> P = {Min P..Max P}"
proof -
  obtain x where x: "pos_max (int s) m = Some x" "x = -1 \<longleftrightarrow> positions m (int s) = {}" "-1 \<le> x"
    "\<And>q. q \<in> positions m (int s) \<Longrightarrow> q \<le> x" "positions m (int s) \<noteq> {} \<Longrightarrow> x \<in> positions m (int s)"
    using pos_max_cases [OF m] by blast
  have mm: "mem_max (Some (memory_of pos_min pos_max m)) s = Some x"
    using x(1) by (simp add: mem_max_def memory_of_def)
  have "i32_ok x"
    using x(2,3,5) range(2) by (cases "positions m (int s) = {}") (auto simp: i32_ok_def)
  then have c: "P = {Min P..Max P} \<and> (\<forall>p \<ge> 0. mem_max (Some (memory_of pos_min pos_max m)) s = Some p \<longrightarrow> Min P = p + 1)"
    using mm by (intro batch_init_contiguous [OF init a0 s P range(1)]) auto
  have fin: "finite P" using P(1) by simp
  show ?thesis
  proof (cases "positions m (int s) = {}")
    case True
    then show ?thesis using c by simp
  next
    case False
    then have "0 \<le> x" using x(2,3) by auto
    then have "Min P = x + 1" using c mm by blast
    then have lt: "x < p" if "p \<in> P" for p using Min_le [OF fin that] by simp
    have "Max (positions m (int s)) = x"
      using x(4,5) False positions_finite [OF m] by (intro Max_eqI) auto
    moreover have "{x..Max P} \<subseteq> positions m (int s) \<union> P"
    proof
      fix y assume "y \<in> {x..Max P}"
      then show "y \<in> positions m (int s) \<union> P"
        using x(5) False c \<open>Min P = x + 1\<close> by (cases "y = x") auto
    qed
    ultimately show ?thesis using c lt x(4) by fastforce
  qed
qed

end

end
