(* ===== verification/KvSeqOps.thy ===== *)
theory KvSeqOps
  imports KvCache SeqMemory
begin

text \<open>
  The sequence operations of the KV cache (\<^verbatim>\<open>clear\<close>, \<^verbatim>\<open>seq_rm\<close>, \<^verbatim>\<open>seq_cp\<close>, \<^verbatim>\<open>seq_keep\<close>, \<^verbatim>\<open>seq_add\<close>,
  \<^verbatim>\<open>seq_div\<close>) as maps over the abstract cells of a stream.
\<close>

section \<open>One pass over a stream\<close>

text \<open>\<open>guarded P k a\<close> runs the cell command \<open>k\<close> on the cells that satisfy \<open>P\<close>.\<close>

definition guarded :: "(acell \<Rightarrow> bool) \<Rightarrow> cell_cmd \<Rightarrow> acell \<Rightarrow> acell" where
  "guarded P k a = (if P a then cell_spec k a else a)"

lemma guarded_True: "guarded (\<lambda>_. True) k = cell_spec k"
  by (simp add: guarded_def fun_eq_iff)

lemma guarded_eqs:
  "guarded P (CSeqAdd s) = (\<lambda>a. if P a then a\<lparr>a_seq := insert s (a_seq a)\<rparr> else a)"
  "guarded P (CPosAdd d) = (\<lambda>a. if P a then if a_pos a + d < 0 then free_cell (a_ext a)
     else a\<lparr>a_pos := a_pos a + d, a_shift := a_shift a + d\<rparr> else a)"
  "guarded P (CPosDiv d) = (\<lambda>a. if P a then a\<lparr>a_pos := a_pos a div d, a_shift := i32 (a_shift a + (a_pos a - a_pos a div d))\<rparr> else a)"
  by (simp_all add: guarded_def fun_eq_iff)

definition first_freed :: "(acell \<Rightarrow> bool) \<Rightarrow> cell_cmd \<Rightarrow> acell list \<Rightarrow> nat \<Rightarrow> nat" where
  "first_freed P k A n =
     (case List.find (\<lambda>i. P (A ! i) \<and> a_pos (A ! i) \<noteq> -1 \<and> a_pos (cell_spec k (A ! i)) = -1) [0..<n] of
        None \<Rightarrow> length A | Some i \<Rightarrow> i)"

lemma find_append: "List.find P (xs @ ys) = (case List.find P xs of None \<Rightarrow> List.find P ys | Some x \<Rightarrow> Some x)"
  by (induction xs) auto

lemma first_freed_le: "n \<le> length A \<Longrightarrow> first_freed P k A n \<le> length A"
  by (auto simp: first_freed_def find_Some_iff split: option.splits)

lemma first_freed_less: "n < length A \<Longrightarrow> first_freed P k A n \<noteq> length A \<Longrightarrow> first_freed P k A n < n"
  by (auto simp: first_freed_def find_Some_iff split: option.splits)

lemma first_freed_Suc:
  "i < length A \<Longrightarrow> first_freed P k A (Suc i) =
    (if P (A ! i) \<and> a_pos (A ! i) \<noteq> -1 \<and> a_pos (cell_spec k (A ! i)) = -1 \<and> first_freed P k A i = length A
     then i else first_freed P k A i)"
proof (cases "List.find (\<lambda>i. P (A ! i) \<and> a_pos (A ! i) \<noteq> -1 \<and> a_pos (cell_spec k (A ! i)) = -1) [0..<i]")
  case (Some j)
  then have "j < i" by (auto simp: find_Some_iff)
  with Some show "i < length A \<Longrightarrow> ?thesis" by (simp add: first_freed_def find_append)
qed (simp add: first_freed_def find_append)

text \<open>A pass whose step runs a command on the guarded cells and notes the freed ones.\<close>

lemma stream_pass_refines:
  assumes inv: "kv_inv c"
    and step: "\<And>i nh c'. i < cells_size c \<Longrightarrow> kv_inv c' \<Longrightarrow> cells_size c' = cells_size c \<Longrightarrow>
      abs_cells c' ! i = abs_cells c ! i \<Longrightarrow>
      \<exists>c''. f i (nh, c') = Some (if notes \<and> P (abs_cells c ! i) \<and> a_pos (abs_cells c ! i) \<noteq> -1 \<and>
                   a_pos (cell_spec k (abs_cells c ! i)) = -1 \<and> nh = cells_size c then i else nh, c'') \<and>
        cell_op c' c'' i (guarded P k (abs_cells c ! i))"
  shows "\<exists>c'. stream_pass f c = Some (if notes then first_freed P k (abs_cells c) (cells_size c) else cells_size c, c') \<and>
    kv_inv c' \<and> abs_cells c' = map (guarded P k) (abs_cells c)"
proof -
  let ?A = "abs_cells c" and ?n = "cells_size c"
  let ?Q = "\<lambda>m (nh, c'). kv_inv c' \<and> abs_cells c' = map (guarded P k) (take m ?A) @ drop m ?A \<and>
     nh = (if notes then first_freed P k ?A m else ?n)"
  have "\<exists>s. foldM f [0..<?n] (?n, c) = Some s \<and> ?Q ?n s"
  proof (rule foldM_upt_inv [where P = ?Q])
    show "?Q 0 (?n, c)" using inv by (simp add: first_freed_def)
  next
    fix i s assume i: "i < ?n" and Q: "?Q i s"
    obtain nh c' where s: "s = (nh, c')" by fastforce
    from Q s have c': "kv_inv c'" and A': "abs_cells c' = map (guarded P k) (take i ?A) @ drop i ?A"
      and nh: "nh = (if notes then first_freed P k ?A i else ?n)" by auto
    have size: "cells_size c' = ?n" using arg_cong [OF A', of length] i by simp
    have at_i: "abs_cells c' ! i = ?A ! i" unfolding A' using i by (simp add: nth_append del: abs_cells_nth)
    from step [OF i c' size at_i, of nh] obtain c'' where
      fi: "f i (nh, c') = Some (if notes \<and> P (?A ! i) \<and> a_pos (?A ! i) \<noteq> -1 \<and>
          a_pos (cell_spec k (?A ! i)) = -1 \<and> nh = ?n then i else nh, c'')"
      and op: "cell_op c' c'' i (guarded P k (?A ! i))" by blast
    have "abs_cells c'' = map (guarded P k) (take (Suc i) ?A) @ drop (Suc i) ?A"
      using op i unfolding cell_op_def A'
      by (simp add: list_update_append take_Suc_conv_app_nth min_def Cons_nth_drop_Suc [symmetric] del: abs_cells_nth)
    with op fi nh i show "\<exists>s'. f i s = Some s' \<and> ?Q (Suc i) s'"
      unfolding s by (auto simp: cell_op_def first_freed_Suc simp del: abs_cells_nth)
  qed
  then show ?thesis unfolding stream_pass_def by auto
qed

section \<open>The cache invariant\<close>

text \<open>A used cell has a sequence, and the cells of a stream hold only sequences of that stream.\<close>

definition cell_owned :: "kv_cache \<Rightarrow> nat \<Rightarrow> acell \<Rightarrow> bool" where
  "cell_owned kv st a \<longleftrightarrow> (a_pos a \<noteq> -1 \<longrightarrow> a_seq a \<noteq> {}) \<and>
     (\<forall>t \<in> a_seq a. t < length (kc_seq_to_stream kv) \<and> kc_seq_to_stream kv ! t = st)"

definition stream_ok :: "kv_cache \<Rightarrow> nat \<Rightarrow> bool" where
  "stream_ok kv st \<longleftrightarrow> kv_inv (kc_cells kv ! st) \<and> cells_size (kc_cells kv ! st) = kv_size kv \<and>
     kc_heads kv ! st \<le> kv_size kv \<and> (\<forall>a \<in> set (abs_cells (kc_cells kv ! st)). cell_owned kv st a)"

definition kv_ok :: "kv_cache \<Rightarrow> bool" where
  "kv_ok kv \<longleftrightarrow> length (kc_heads kv) = kc_n_stream kv \<and> length (kc_cells kv) = kc_n_stream kv \<and>
     kc_seq_to_stream kv \<noteq> [] \<and> length (kc_seq_to_stream kv) \<le> LLAMA_MAX_SEQ \<and>
     (\<forall>st \<in> set (kc_seq_to_stream kv). st < kc_n_stream kv) \<and>
     (\<forall>st < kc_n_stream kv. stream_ok kv st)"

text \<open>The abstract cache: the abstract cells of every stream.\<close>

definition abs_kv :: "kv_cache \<Rightarrow> acell list list" where
  "abs_kv kv = map abs_cells (kc_cells kv)"

lemma kv_ok_streamD:
  assumes "kv_ok kv" and "st < kc_n_stream kv"
  shows "kv_inv (kc_cells kv ! st)" "cells_size (kc_cells kv ! st) = kv_size kv" "kc_heads kv ! st \<le> kv_size kv"
    "\<And>a. a \<in> set (abs_cells (kc_cells kv ! st)) \<Longrightarrow> cell_owned kv st a"
    "st < length (kc_cells kv)" "st < length (kc_heads kv)" "abs_kv kv ! st = abs_cells (kc_cells kv ! st)"
  using assms by (auto simp: kv_ok_def stream_ok_def abs_kv_def)

lemma valid_seqD:
  assumes "kv_ok kv" and "valid_seq kv s"
  shows "0 \<le> s" "nat s < LLAMA_MAX_SEQ" "kc_seq_to_stream kv ! nat s < kc_n_stream kv"
  using assms by (auto simp: kv_ok_def valid_seq_def)

text \<open>Replacing the cells and head of one stream.\<close>

lemma set_stream_fields [simp]:
  "kc_seq_to_stream (set_stream st c h kv) = kc_seq_to_stream kv" "kc_n_stream (set_stream st c h kv) = kc_n_stream kv"
  "length (kc_cells (set_stream st c h kv)) = length (kc_cells kv)"
  "length (kc_heads (set_stream st c h kv)) = length (kc_heads kv)"
  "cell_owned (set_stream st c h kv) = cell_owned kv"
  by (simp_all add: set_stream_def cell_owned_def [abs_def])

lemma abs_set_stream: "abs_kv (set_stream st c h kv) = (abs_kv kv)[st := abs_cells c]"
  by (simp add: abs_kv_def set_stream_def map_update)

lemma kv_ok_set_stream:
  assumes ok: "kv_ok kv" and st: "st < kc_n_stream kv" and c: "kv_inv c" "cells_size c = kv_size kv"
    and h: "h \<le> kv_size kv" and owned: "\<And>a. a \<in> set (abs_cells c) \<Longrightarrow> cell_owned kv st a"
  shows "kv_ok (set_stream st c h kv)" and "kv_size (set_stream st c h kv) = kv_size kv"
proof -
  have s0: "kc_seq_to_stream kv ! 0 < kc_n_stream kv" using ok by (auto simp: kv_ok_def)
  have nth: "kc_cells (set_stream st c h kv) ! t = (if t = st then c else kc_cells kv ! t)"
    "kc_heads (set_stream st c h kv) ! t = (if t = st then h else kc_heads kv ! t)" for t
    using kv_ok_streamD(5,6) [OF ok st] by (simp_all add: set_stream_def nth_list_update)
  show size: "kv_size (set_stream st c h kv) = kv_size kv"
    using c(2) by (auto simp: kv_size_def nth)
  show "kv_ok (set_stream st c h kv)"
    using ok c h owned unfolding kv_ok_def stream_ok_def size by (auto simp: nth)
qed

lemma kv_ok_set_cells:
  assumes ok: "kv_ok kv" and st: "st < kc_n_stream kv" and c: "kv_inv c" "cells_size c = kv_size kv"
    and owned: "\<And>a. a \<in> set (abs_cells c) \<Longrightarrow> cell_owned kv st a"
  shows "kv_ok (kv\<lparr>kc_cells := (kc_cells kv)[st := c]\<rparr>)"
    and "abs_kv (kv\<lparr>kc_cells := (kc_cells kv)[st := c]\<rparr>) = (abs_kv kv)[st := abs_cells c]"
proof -
  have eq: "kv\<lparr>kc_cells := (kc_cells kv)[st := c]\<rparr> = set_stream st c (kc_heads kv ! st) kv"
    by (simp add: set_stream_def)
  show "kv_ok (kv\<lparr>kc_cells := (kc_cells kv)[st := c]\<rparr>)"
    unfolding eq using kv_ok_set_stream [OF ok st c _ owned] kv_ok_streamD(3) [OF ok st] by blast
  show "abs_kv (kv\<lparr>kc_cells := (kc_cells kv)[st := c]\<rparr>) = (abs_kv kv)[st := abs_cells c]"
    unfolding eq by (rule abs_set_stream)
qed

lemma cell_owned_guarded:
  assumes "cell_owned kv st a"
    and "\<And>s. k = CSeqAdd s \<Longrightarrow> P a \<Longrightarrow> s < length (kc_seq_to_stream kv) \<and> kc_seq_to_stream kv ! s = st"
    and "\<And>p. k = CPosSet p \<Longrightarrow> \<not> P a"
    and "\<And>d. k = CPosAdd d \<or> k = CPosDiv d \<Longrightarrow> P a \<Longrightarrow> a_pos a \<noteq> -1"
  shows "cell_owned kv st (guarded P k a)"
  using assms by (cases k) (auto simp: guarded_def cell_owned_def free_cell_def)

section \<open>The steps of the passes\<close>

definition in_range :: "int \<Rightarrow> int \<Rightarrow> nat \<Rightarrow> acell \<Rightarrow> bool" where
  "in_range p0 p1 s a \<longleftrightarrow> p0 \<le> a_pos a \<and> a_pos a < p1 \<and> s \<in> a_seq a"

lemma cell_op_refl: "kv_inv c \<Longrightarrow> i < cells_size c \<Longrightarrow> a = abs_cells c ! i \<Longrightarrow> cell_op c c i a"
  by (simp add: cell_op_def del: abs_cells_nth)

lemma abs_nthD:
  assumes "abs_cells c' ! i = abs_cells c ! i" and "i < cells_size c" and "cells_size c' = cells_size c"
  shows "pos c' ! i = a_pos (abs_cells c ! i)" "seq c' ! i = a_seq (abs_cells c ! i)"
    "ext c' ! i = a_ext (abs_cells c ! i)" "shift c' ! i = a_shift (abs_cells c ! i)"
  using assms abs_cells_nth [of i c'] by (metis acell.select_convs)+

text \<open>Each pass step does what \<open>guarded\<close> says.\<close>

definition step_refines :: "(nat \<Rightarrow> nat \<times> kv_cells \<Rightarrow> (nat \<times> kv_cells) option) \<Rightarrow> bool \<Rightarrow> (acell \<Rightarrow> bool) \<Rightarrow> cell_cmd \<Rightarrow>
    nat \<Rightarrow> nat \<Rightarrow> kv_cells \<Rightarrow> acell \<Rightarrow> bool" where
  "step_refines f notes P k i nh c' a \<longleftrightarrow>
     (\<exists>c''. f i (nh, c') = Some (if notes \<and> P a \<and> a_pos a \<noteq> -1 \<and> a_pos (cell_spec k a) = -1 \<and> nh = cells_size c'
                                 then i else nh, c'') \<and>
        cell_op c' c'' i (guarded P k a))"

lemma rm_seq_step_op:
  assumes i: "i < cells_size c'" and inv: "kv_inv c'" and s: "s < LLAMA_MAX_SEQ" and p0: "0 \<le> p0"
    and a: "a = abs_cells c' ! i"
  shows "step_refines (rm_seq_step s p0 p1) True (in_range p0 p1 s) (CSeqRm s) i nh c' a"
proof (cases "in_range p0 p1 s a")
  case False
  then have "rm_seq_step s p0 p1 i (nh, c') = Some (nh, c')"
    using i s a by (auto simp: rm_seq_step_def pos_in_def seq_has_def in_range_def)
  then show ?thesis unfolding step_refines_def using False cell_op_refl [OF inv i a] by (simp add: guarded_def)
next
  case True
  then have sq: "s \<in> seq c' ! i" and p: "pos c' ! i \<noteq> -1" using i a p0 by (auto simp: in_range_def)
  from cells_seq_rm_op [OF inv i sq] obtain c'' where
    c'': "cells_seq_rm i s c' = Some (seq c' ! i = {s}, c'')"
    and op: "cell_op c' c'' i (if seq c' ! i = {s} then free_cell ext_reset else (abs_cells c' ! i)\<lparr>a_seq := seq c' ! i - {s}\<rparr>)"
    by blast
  have op': "cell_op c' c'' i (guarded (in_range p0 p1 s) (CSeqRm s) a)"
    using op True i a by (simp add: guarded_def split: if_splits)
  moreover have "rm_seq_step s p0 p1 i (nh, c') = Some (note_freed c'' i (seq c' ! i = {s}) nh, c'')"
    using True i s a c'' by (auto simp: rm_seq_step_def pos_in_def seq_has_def in_range_def)
  ultimately show ?thesis unfolding step_refines_def using True p i a cell_op_size [OF op] by (simp add: note_freed_def)
qed

lemma rm_any_step_op:
  assumes i: "i < cells_size c'" and inv: "kv_inv c'" and p0: "0 \<le> p0" and a: "a = abs_cells c' ! i"
  shows "step_refines (rm_any_step p0 p1) True (\<lambda>a. p0 \<le> a_pos a \<and> a_pos a < p1) (CRm) i nh c' a"
proof (cases "p0 \<le> a_pos a \<and> a_pos a < p1")
  case False
  then have "rm_any_step p0 p1 i (nh, c') = Some (nh, c')"
    using i a by (auto simp: rm_any_step_def pos_in_def)
  then show ?thesis unfolding step_refines_def using False cell_op_refl [OF inv i a] by (auto simp: guarded_def)
next
  case True
  then have p: "pos c' ! i \<noteq> -1" using i a p0 by auto
  from cells_rm_op [OF inv i p] obtain c'' where c'': "cells_rm i c' = Some c''"
    and op: "cell_op c' c'' i (free_cell ext_reset)" by blast
  then show ?thesis unfolding step_refines_def
    using True i a p cell_op_size [OF op] by (auto simp: rm_any_step_def pos_in_def guarded_def note_freed_def)
qed

lemma keep_step_op:
  assumes i: "i < cells_size c'" and inv: "kv_inv c'" and s: "s < LLAMA_MAX_SEQ" and a: "a = abs_cells c' ! i"
    and owned: "a_pos a \<noteq> -1 \<Longrightarrow> a_seq a \<noteq> {}"
  shows "step_refines (keep_step s) True (\<lambda>_. True) (CSeqKeep s) i nh c' a"
proof -
  from cells_seq_keep_op [OF inv i s] owned a i obtain c'' where
    c'': "cells_seq_keep i s c' = Some (pos c' ! i \<noteq> -1 \<and> s \<notin> seq c' ! i, c'')"
    and op: "cell_op c' c'' i (if s \<in> seq c' ! i then (abs_cells c' ! i)\<lparr>a_seq := {s}\<rparr>
                     else if pos c' ! i \<noteq> -1 then free_cell ext_reset else abs_cells c' ! i)" by auto
  have "cell_op c' c'' i (guarded (\<lambda>_. True) (CSeqKeep s) a)"
    using op i a by (auto simp: guarded_def split: if_splits)
  moreover have "keep_step s i (nh, c') = Some (note_freed c'' i (pos c' ! i \<noteq> -1 \<and> s \<notin> seq c' ! i) nh, c'')"
    using c'' by (simp add: keep_step_def)
  ultimately show ?thesis unfolding step_refines_def using i a cell_op_size [OF op] by (auto simp: note_freed_def)
qed

lemma add_step_op:
  assumes i: "i < cells_size c'" and inv: "kv_inv c'" and s: "s < LLAMA_MAX_SEQ" and p0: "0 \<le> p0"
    and a: "a = abs_cells c' ! i" and range: "in_range p0 p1 s a \<Longrightarrow> i32_ok (a_pos a + d) \<and> i32_ok (a_shift a + d)"
  shows "step_refines (add_step s p0 p1 d) True (in_range p0 p1 s) (CPosAdd d) i nh c' a"
proof (cases "in_range p0 p1 s a")
  case False
  then have "add_step s p0 p1 d i (nh, c') = Some (nh, c')"
    using i s a by (auto simp: add_step_def pos_in_def seq_has_def in_range_def)
  then show ?thesis unfolding step_refines_def using False cell_op_refl [OF inv i a] by (simp add: guarded_def)
next
  case True
  then have p: "pos c' ! i \<noteq> -1" using i a p0 by (auto simp: in_range_def)
  have i32: "i32 (pos c' ! i + d) = pos c' ! i + d" "i32 (shift c' ! i + d) = shift c' ! i + d"
    using range [OF True] i a by simp_all
  from pos_add_op [OF inv i p, of d, unfolded i32] obtain c'' where
    c'': "pos_add i d c' = Some (pos c' ! i + d < 0, c'')"
    and op: "cell_op c' c'' i (if pos c' ! i + d < 0 then free_cell (ext c' ! i)
       else (abs_cells c' ! i)\<lparr>a_pos := pos c' ! i + d, a_shift := shift c' ! i + d\<rparr>)" by blast
  have "cell_op c' c'' i (guarded (in_range p0 p1 s) (CPosAdd d) a)"
    using op True i a by (simp add: guarded_def split: if_splits)
  moreover have "add_step s p0 p1 d i (nh, c') = Some (note_freed c'' i (pos c' ! i + d < 0) nh, c'')"
    using True i s a c'' by (auto simp: add_step_def pos_in_def seq_has_def in_range_def)
  ultimately show ?thesis unfolding step_refines_def using True p i a cell_op_size [OF op] by (auto simp: note_freed_def)
qed

lemma div_step_op:
  assumes i: "i < cells_size c'" and inv: "kv_inv c'" and s: "s < LLAMA_MAX_SEQ" and p0: "0 \<le> p0" and d: "0 < d"
    and a: "a = abs_cells c' ! i"
  shows "step_refines (div_step s p0 p1 d) False (in_range p0 p1 s) (CPosDiv d) i nh c' a"
proof (cases "in_range p0 p1 s a")
  case False
  then have "div_step s p0 p1 d i (nh, c') = Some (nh, c')"
    using i s a by (auto simp: div_step_def pos_in_def seq_has_def in_range_def)
  then show ?thesis unfolding step_refines_def using False cell_op_refl [OF inv i a] by (simp add: guarded_def)
next
  case True
  then have p: "pos c' ! i \<noteq> -1" using i a p0 by (auto simp: in_range_def)
  from pos_div_op [OF inv i p d] True show ?thesis unfolding step_refines_def
    using i s a by (auto simp: div_step_def pos_in_def seq_has_def in_range_def guarded_def)
qed

lemma cp_same_step_op:
  assumes i: "i < cells_size c'" and inv: "kv_inv c'" and s: "src < LLAMA_MAX_SEQ" "dst < LLAMA_MAX_SEQ" and p0: "0 \<le> p0"
    and a: "a = abs_cells c' ! i" and free: "in_range p0 p1 src a \<Longrightarrow> dst \<notin> a_seq a"
  shows "step_refines (cp_same_step src dst p0 p1) False (in_range p0 p1 src) (CSeqAdd dst) i nh c' a"
proof (cases "in_range p0 p1 src a")
  case False
  then have "cp_same_step src dst p0 p1 i (nh, c') = Some (nh, c')"
    using i s a by (auto simp: cp_same_step_def pos_in_def seq_has_def in_range_def)
  then show ?thesis unfolding step_refines_def using False cell_op_refl [OF inv i a] by (simp add: guarded_def)
next
  case True
  then have p: "pos c' ! i \<noteq> -1" and "dst \<notin> seq c' ! i" using i a p0 free by (auto simp: in_range_def)
  from cells_seq_add_op [OF inv i s(2) this(2) p] True show ?thesis unfolding step_refines_def
    using i s a by (auto simp: cp_same_step_def pos_in_def seq_has_def in_range_def guarded_def)
qed

section \<open>The operations\<close>

lemma clamp_p0_nonneg [simp]: "0 \<le> clamp_p0 p"
  by (simp add: clamp_p0_def)

text \<open>One pass over the stream of a sequence, put back into the cache.\<close>

lemma stream_pass_kv:
  assumes ok: "kv_ok kv" and st: "st < kc_n_stream kv"
    and step: "\<And>i nh c' a. i < cells_size c' \<Longrightarrow> kv_inv c' \<Longrightarrow> a = abs_cells c' ! i \<Longrightarrow> cell_owned kv st a \<Longrightarrow>
      a \<in> set (abs_cells (kc_cells kv ! st)) \<Longrightarrow> step_refines f notes P k i nh c' a"
    and owned: "\<And>a. cell_owned kv st a \<Longrightarrow> cell_owned kv st (guarded P k a)"
  shows "\<exists>nh c'. stream_pass f (kc_cells kv ! st) = Some (nh, c') \<and> nh \<le> kv_size kv \<and> kv_inv c' \<and> cells_size c' = kv_size kv \<and>
    abs_cells c' = map (guarded P k) (abs_kv kv ! st) \<and> (\<forall>a \<in> set (abs_cells c'). cell_owned kv st a)"
proof -
  let ?c = "kc_cells kv ! st"
  note d = kv_ok_streamD [OF ok st]
  have "\<exists>c'. stream_pass f ?c = Some (if notes then first_freed P k (abs_cells ?c) (cells_size ?c) else cells_size ?c, c') \<and>
    kv_inv c' \<and> abs_cells c' = map (guarded P k) (abs_cells ?c)"
  proof (rule stream_pass_refines [OF d(1)])
    fix i nh c' assume i: "i < cells_size ?c" "kv_inv c'" "cells_size c' = cells_size ?c" "abs_cells c' ! i = abs_cells ?c ! i"
    have m: "abs_cells ?c ! i \<in> set (abs_cells ?c)" using i(1) by (metis length_abs_cells nth_mem)
    from step [of i c' "abs_cells ?c ! i" nh, unfolded step_refines_def] i d(4) [OF m] m
    show "\<exists>c''. f i (nh, c') = Some (if notes \<and> P (abs_cells ?c ! i) \<and> a_pos (abs_cells ?c ! i) \<noteq> -1 \<and>
           a_pos (cell_spec k (abs_cells ?c ! i)) = -1 \<and> nh = cells_size ?c then i else nh, c'') \<and>
        cell_op c' c'' i (guarded P k (abs_cells ?c ! i))" by metis
  qed
  then obtain c' where c': "stream_pass f ?c = Some (if notes then first_freed P k (abs_cells ?c) (cells_size ?c) else cells_size ?c, c')"
    "kv_inv c'" "abs_cells c' = map (guarded P k) (abs_cells ?c)" by blast
  have "cells_size c' = kv_size kv" using arg_cong [OF c'(3), of length] d(2) by simp
  moreover have "(if notes then first_freed P k (abs_cells ?c) (cells_size ?c) else cells_size ?c) \<le> kv_size kv"
    using first_freed_le [of "cells_size ?c" "abs_cells ?c" P k] d(2) by simp
  ultimately show ?thesis using c' d(4,7) owned by fastforce
qed

lemma kv_seq_rm_one:
  assumes ok: "kv_ok kv" and s: "valid_seq kv s"
  shows "\<exists>kv'. kv_seq_rm s p0 p1 kv = Some (True, kv') \<and> kv_ok kv' \<and> kv_size kv' = kv_size kv \<and>
     kc_seq_to_stream kv' = kc_seq_to_stream kv \<and> kc_n_stream kv' = kc_n_stream kv \<and>
     abs_kv kv' = (abs_kv kv)[kc_seq_to_stream kv ! nat s :=
       map (guarded (in_range (clamp_p0 p0) (clamp_p1 p1) (nat s)) (CSeqRm (nat s))) (abs_kv kv ! (kc_seq_to_stream kv ! nat s))]"
proof -
  let ?st = "kc_seq_to_stream kv ! nat s"
  note v = valid_seqD [OF ok s]
  let ?P = "in_range (clamp_p0 p0) (clamp_p1 p1) (nat s)"
  obtain nh c' where pass: "stream_pass (rm_seq_step (nat s) (clamp_p0 p0) (clamp_p1 p1)) (kc_cells kv ! ?st) = Some (nh, c')"
    and c': "kv_inv c'" "cells_size c' = kv_size kv" "abs_cells c' = map (guarded ?P (CSeqRm (nat s))) (abs_kv kv ! ?st)"
      "\<forall>a \<in> set (abs_cells c'). cell_owned kv ?st a"
    using stream_pass_kv [OF ok v(3) rm_seq_step_op [OF _ _ v(2) clamp_p0_nonneg] cell_owned_guarded, of p0 "clamp_p1 p1"]
    by auto
  let ?h = "lower_head c' nh (kc_heads kv ! ?st)"
  have h: "?h \<le> kv_size kv" using kv_ok_streamD(3) [OF ok v(3)] by (simp add: lower_head_def)
  have "kv_seq_rm s p0 p1 kv = Some (True, set_stream ?st c' ?h kv)"
    using s v(1) pass by (simp add: kv_seq_rm_def Let_def)
  then show ?thesis
    using kv_ok_set_stream [OF ok v(3) c'(1,2) h] c'(3,4) by (simp add: abs_set_stream)
qed

lemma kv_seq_keep_refines:
  assumes ok: "kv_ok kv" and s: "valid_seq kv s"
  shows "\<exists>kv'. kv_seq_keep s kv = Some kv' \<and> kv_ok kv' \<and>
     abs_kv kv' = (abs_kv kv)[kc_seq_to_stream kv ! nat s :=
       map (cell_spec (CSeqKeep (nat s))) (abs_kv kv ! (kc_seq_to_stream kv ! nat s))]"
proof -
  let ?st = "kc_seq_to_stream kv ! nat s"
  note v = valid_seqD [OF ok s]
  obtain nh c' where pass: "stream_pass (keep_step (nat s)) (kc_cells kv ! ?st) = Some (nh, c')"
    and c': "kv_inv c'" "cells_size c' = kv_size kv" "abs_cells c' = map (guarded (\<lambda>_. True) (CSeqKeep (nat s))) (abs_kv kv ! ?st)"
      "\<forall>a \<in> set (abs_cells c'). cell_owned kv ?st a"
  proof -
    have "step_refines (keep_step (nat s)) True (\<lambda>_. True) (CSeqKeep (nat s)) i nh c' a"
      if "i < cells_size c'" "kv_inv c'" "a = abs_cells c' ! i" "cell_owned kv ?st a" for i nh c' a
      by (rule keep_step_op [OF that(1,2) v(2) that(3)]) (use that(4) in \<open>simp add: cell_owned_def\<close>)
    from stream_pass_kv [OF ok v(3) this cell_owned_guarded] show ?thesis by (auto intro: that)
  qed
  let ?h = "lower_head c' nh (kc_heads kv ! ?st)"
  have h: "?h \<le> kv_size kv" using kv_ok_streamD(3) [OF ok v(3)] by (simp add: lower_head_def)
  have "kv_seq_keep s kv = Some (set_stream ?st c' ?h kv)"
    using s pass by (simp add: kv_seq_keep_def Let_def)
  then show ?thesis
    using kv_ok_set_stream [OF ok v(3) c'(1,2) h] c'(3,4) by (auto simp: abs_set_stream guarded_True)
qed

lemma kv_seq_add_refines:
  assumes ok: "kv_ok kv" and s: "valid_seq kv s" and npe: "kc_n_pos_per_embd kv = 1"
    and d: "d \<noteq> 0" and r: "clamp_p0 p0 \<noteq> clamp_p1 p1"
    and range: "\<And>a. a \<in> set (abs_kv kv ! (kc_seq_to_stream kv ! nat s)) \<Longrightarrow>
      in_range (clamp_p0 p0) (clamp_p1 p1) (nat s) a \<Longrightarrow> i32_ok (a_pos a + d) \<and> i32_ok (a_shift a + d)"
  shows "\<exists>kv'. kv_seq_add s p0 p1 d kv = Some kv' \<and> kv_ok kv' \<and>
     abs_kv kv' = (abs_kv kv)[kc_seq_to_stream kv ! nat s :=
       map (guarded (in_range (clamp_p0 p0) (clamp_p1 p1) (nat s)) (CPosAdd d)) (abs_kv kv ! (kc_seq_to_stream kv ! nat s))]"
proof -
  let ?st = "kc_seq_to_stream kv ! nat s" and ?P = "in_range (clamp_p0 p0) (clamp_p1 p1) (nat s)"
  note v = valid_seqD [OF ok s]
  have own: "cell_owned kv ?st (guarded ?P (CPosAdd d) a)" if "cell_owned kv ?st a" for a
    using that by (rule cell_owned_guarded) (auto simp: in_range_def clamp_p0_def split: if_splits)
  obtain nh c' where pass: "stream_pass (add_step (nat s) (clamp_p0 p0) (clamp_p1 p1) d) (kc_cells kv ! ?st) = Some (nh, c')"
    and c': "nh \<le> kv_size kv" "kv_inv c'" "cells_size c' = kv_size kv"
      "abs_cells c' = map (guarded ?P (CPosAdd d)) (abs_kv kv ! ?st)" "\<forall>a \<in> set (abs_cells c'). cell_owned kv ?st a"
  proof -
    have "step_refines (add_step (nat s) (clamp_p0 p0) (clamp_p1 p1) d) True ?P (CPosAdd d) i nh c' a"
      if "i < cells_size c'" "kv_inv c'" "a = abs_cells c' ! i" "a \<in> set (abs_cells (kc_cells kv ! ?st))" for i nh c' a
      by (rule add_step_op [OF that(1,2) v(2) clamp_p0_nonneg that(3)])
        (use range that(4) kv_ok_streamD(7) [OF ok v(3)] in simp)
    from stream_pass_kv [OF ok v(3) this own] show ?thesis by (auto intro: that)
  qed
  have h: "(if nh \<noteq> cells_size c' then nh else 0) \<le> kv_size kv" using c'(1) by simp
  have "kv_seq_add s p0 p1 d kv = Some (set_stream ?st c' (if nh \<noteq> cells_size c' then nh else 0) kv)"
    using s npe d r pass by (simp add: kv_seq_add_def Let_def)
  then show ?thesis
    using kv_ok_set_stream [OF ok v(3) c'(2,3) h] c'(4,5) by (auto simp: abs_set_stream)
qed

lemma kv_seq_div_refines:
  assumes ok: "kv_ok kv" and s: "valid_seq kv s" and npe: "kc_n_pos_per_embd kv = 1"
    and d: "1 < d" and r: "clamp_p0 p0 \<noteq> clamp_p1 p1"
  shows "\<exists>kv'. kv_seq_div s p0 p1 d kv = Some kv' \<and> kv_ok kv' \<and>
     abs_kv kv' = (abs_kv kv)[kc_seq_to_stream kv ! nat s :=
       map (guarded (in_range (clamp_p0 p0) (clamp_p1 p1) (nat s)) (CPosDiv d)) (abs_kv kv ! (kc_seq_to_stream kv ! nat s))]"
proof -
  let ?st = "kc_seq_to_stream kv ! nat s" and ?P = "in_range (clamp_p0 p0) (clamp_p1 p1) (nat s)"
  note v = valid_seqD [OF ok s]
  have d0: "0 < d" using d by simp
  have own: "cell_owned kv ?st (guarded ?P (CPosDiv d) a)" if "cell_owned kv ?st a" for a
    using that by (rule cell_owned_guarded) (auto simp: in_range_def clamp_p0_def split: if_splits)
  obtain nh c' where pass: "stream_pass (div_step (nat s) (clamp_p0 p0) (clamp_p1 p1) d) (kc_cells kv ! ?st) = Some (nh, c')"
    and c': "kv_inv c'" "cells_size c' = kv_size kv"
      "abs_cells c' = map (guarded ?P (CPosDiv d)) (abs_kv kv ! ?st)" "\<forall>a \<in> set (abs_cells c'). cell_owned kv ?st a"
    using stream_pass_kv [OF ok v(3) div_step_op [OF _ _ v(2) clamp_p0_nonneg d0] own] by auto
  have "kv_seq_div s p0 p1 d kv = Some (kv\<lparr>kc_cells := (kc_cells kv)[?st := c']\<rparr>)"
    using s npe d r pass by (simp add: kv_seq_div_def Let_def)
  then show ?thesis using kv_ok_set_cells [OF ok v(3) c'(1,2)] c'(3,4) by auto
qed

lemma kv_seq_cp_same_refines:
  assumes ok: "kv_ok kv" and s: "valid_seq kv src" "valid_seq kv dst" and ne: "src \<noteq> dst"
    and same: "kc_seq_to_stream kv ! nat src = kc_seq_to_stream kv ! nat dst"
    and free: "\<And>a. a \<in> set (abs_kv kv ! (kc_seq_to_stream kv ! nat src)) \<Longrightarrow>
      in_range (clamp_p0 p0) (clamp_p1 p1) (nat src) a \<Longrightarrow> nat dst \<notin> a_seq a"
  shows "\<exists>kv'. kv_seq_cp src dst p0 p1 kv = Some kv' \<and> kv_ok kv' \<and>
     abs_kv kv' = (abs_kv kv)[kc_seq_to_stream kv ! nat src :=
       map (guarded (in_range (clamp_p0 p0) (clamp_p1 p1) (nat src)) (CSeqAdd (nat dst)))
         (abs_kv kv ! (kc_seq_to_stream kv ! nat src))]"
proof -
  let ?st = "kc_seq_to_stream kv ! nat src" and ?P = "in_range (clamp_p0 p0) (clamp_p1 p1) (nat src)"
  note v = valid_seqD [OF ok s(1)] and w = valid_seqD [OF ok s(2)]
  have own: "cell_owned kv ?st (guarded ?P (CSeqAdd (nat dst)) a)" if "cell_owned kv ?st a" for a
    using that by (rule cell_owned_guarded) (use s(2) same in \<open>auto simp: valid_seq_def\<close>)
  obtain nh c' where pass: "stream_pass (cp_same_step (nat src) (nat dst) (clamp_p0 p0) (clamp_p1 p1)) (kc_cells kv ! ?st) = Some (nh, c')"
    and c': "kv_inv c'" "cells_size c' = kv_size kv"
      "abs_cells c' = map (guarded ?P (CSeqAdd (nat dst))) (abs_kv kv ! ?st)" "\<forall>a \<in> set (abs_cells c'). cell_owned kv ?st a"
  proof -
    have "step_refines (cp_same_step (nat src) (nat dst) (clamp_p0 p0) (clamp_p1 p1)) False ?P (CSeqAdd (nat dst)) i nh c' a"
      if "i < cells_size c'" "kv_inv c'" "a = abs_cells c' ! i" "cell_owned kv ?st a" "a \<in> set (abs_cells (kc_cells kv ! ?st))"
      for i nh c' a
      by (rule cp_same_step_op [OF that(1,2) v(2) w(2) clamp_p0_nonneg that(3)])
         (use free [of a] that(5) kv_ok_streamD(7) [OF ok v(3)] in simp)
    from stream_pass_kv [OF ok v(3) this own] show ?thesis by (auto intro: that)
  qed
  have "kv_seq_cp src dst p0 p1 kv = Some (kv\<lparr>kc_cells := (kc_cells kv)[?st := c']\<rparr>)"
    using s ne same pass by (simp add: kv_seq_cp_def Let_def)
  then show ?thesis using kv_ok_set_cells [OF ok v(3) c'(1,2)] c'(3,4) by auto
qed

text \<open>Removing a range from all sequences goes over every stream.\<close>

lemma kv_seq_rm_any:
  assumes ok: "kv_ok kv"
  shows "\<exists>kv'. kv_seq_rm (-1) p0 p1 kv = Some (True, kv') \<and> kv_ok kv' \<and>
     abs_kv kv' = map (map (guarded (\<lambda>a. clamp_p0 p0 \<le> a_pos a \<and> a_pos a < clamp_p1 p1) CRm)) (abs_kv kv)"
proof -
  let ?g = "guarded (\<lambda>a. clamp_p0 p0 \<le> a_pos a \<and> a_pos a < clamp_p1 p1) CRm" and ?n = "kc_n_stream kv"
  let ?Q = "\<lambda>m kv'. kv_ok kv' \<and> kc_n_stream kv' = ?n \<and> length (abs_kv kv) = ?n \<and>
     abs_kv kv' = map (map ?g) (take m (abs_kv kv)) @ drop m (abs_kv kv)"
  let ?f = "\<lambda>st kv. do {
           (nh, c) \<leftarrow> stream_pass (rm_any_step (clamp_p0 p0) (clamp_p1 p1)) (kc_cells kv ! st);
           Some (set_stream st c (lower_head c nh (kc_heads kv ! st)) kv) }"
  have "\<exists>kv'. foldM ?f [0..<?n] kv = Some kv' \<and> ?Q ?n kv'"
  proof (rule foldM_upt_inv [where P = ?Q])
    show "?Q 0 kv" using ok by (simp add: abs_kv_def kv_ok_def)
  next
    fix st kv' assume st: "st < ?n" and Q: "?Q st kv'"
    then have ok': "kv_ok kv'" and st': "st < kc_n_stream kv'" by auto
    obtain nh c' where pass: "stream_pass (rm_any_step (clamp_p0 p0) (clamp_p1 p1)) (kc_cells kv' ! st) = Some (nh, c')"
      and c': "kv_inv c'" "cells_size c' = kv_size kv'" "abs_cells c' = map ?g (abs_kv kv' ! st)"
        "\<forall>a \<in> set (abs_cells c'). cell_owned kv' st a"
      using stream_pass_kv [OF ok' st' rm_any_step_op [OF _ _ clamp_p0_nonneg] cell_owned_guarded, of p0 "clamp_p1 p1"] by auto
    let ?h = "lower_head c' nh (kc_heads kv' ! st)"
    have h: "?h \<le> kv_size kv'" using kv_ok_streamD(3) [OF ok' st'] by (simp add: lower_head_def)
    have at: "abs_kv kv' ! st = abs_kv kv ! st" using Q st by (simp add: nth_append)
    have "abs_kv (set_stream st c' ?h kv') = map (map ?g) (take (Suc st) (abs_kv kv)) @ drop (Suc st) (abs_kv kv)"
      unfolding abs_set_stream c'(3) at using Q st
      by (simp add: list_update_append take_Suc_conv_app_nth min_def Cons_nth_drop_Suc [symmetric])
    then have "?Q (Suc st) (set_stream st c' ?h kv')"
      using kv_ok_set_stream [OF ok' st' c'(1,2) h] c'(4) Q by auto
    with pass show "\<exists>s'. ?f st kv' = Some s' \<and> ?Q (Suc st) s'" by simp
  qed
  then show ?thesis by (auto simp: kv_seq_rm_def Let_def)
qed

text \<open>Copying a sequence to another stream replaces that stream by the copied cells.\<close>

definition copied_cell :: "nat \<Rightarrow> nat \<Rightarrow> acell \<Rightarrow> acell" where
  "copied_cell src dst a = (if src \<in> a_seq a then a\<lparr>a_seq := {dst}\<rparr> else free_cell ext_reset)"

definition shift_ok :: "acell \<Rightarrow> bool" where
  "shift_ok a \<longleftrightarrow> a_shift a \<le> a_pos a \<and> i32_ok (a_pos a) \<and> i32_ok (a_shift a) \<and> i32_ok (a_pos a - a_shift a)"

lemma cp_cross_step_op:
  assumes inv: "kv_inv c" and i: "i < cells_size c" and free: "abs_cells c ! i = free_cell ext_reset"
    and c0: "kv_inv c0" "i < cells_size c0" and s: "src < LLAMA_MAX_SEQ" "dst < LLAMA_MAX_SEQ"
    and base: "src \<in> seq c0 ! i \<Longrightarrow> shift_ok (abs_cells c0 ! i)"
  shows "\<exists>c'. cp_cross_step c0 src dst i c = Some c' \<and> cell_op c c' i (copied_cell src dst (abs_cells c0 ! i))"
proof (cases "src \<in> seq c0 ! i")
  case False
  then have "cp_cross_step c0 src dst i c = Some c" using c0 s by (simp add: cp_cross_step_def seq_has_def)
  then show ?thesis using False c0 cell_op_refl [OF inv i] free by (simp add: copied_cell_def)
next
  case True
  let ?p = "pos c0 ! i" and ?d = "shift c0 ! i" and ?e = "ext c0 ! i"
  have p: "?p \<noteq> -1" "0 \<le> ?p" using kv_inv_cellD [OF c0] True by auto
  have q: "0 \<le> ?p - ?d" "i32_ok (?p - ?d)" and r: "i32_ok ?p" "i32_ok ?d"
    using base [OF True] c0(2) by (simp_all add: shift_ok_def)
  have at: "pos c ! i = -1" "seq c ! i = {}" "shift c ! i = 0"
    using free i by (simp_all add: free_cell_def)
  obtain c1 where c1: "pos_set i (?p - ?d) c = Some c1" and op1: "cell_op c c1 i ((abs_cells c ! i)\<lparr>a_pos := ?p - ?d\<rparr>)"
    using pos_set_op [OF inv i at(1) q(1)] by blast
  have k1: "kv_inv c1" "i < cells_size c1" using op1 i cell_op_size [OF op1] by (auto simp: cell_op_def)
  have a1: "abs_cells c1 ! i = (free_cell ext_reset)\<lparr>a_pos := ?p - ?d\<rparr>"
    using op1 i free by (simp add: cell_op_def del: abs_cells_nth)
  then have at1: "pos c1 ! i = ?p - ?d" "seq c1 ! i = {}" "shift c1 ! i = 0"
    using k1 by (simp_all add: free_cell_def)
  obtain c2 where c2: "cells_seq_add i dst c1 = Some c2" and op2: "cell_op c1 c2 i ((abs_cells c1 ! i)\<lparr>a_seq := insert dst (seq c1 ! i)\<rparr>)"
    using cells_seq_add_op [OF k1 s(2)] at1 q by auto
  have k2: "kv_inv c2" "i < cells_size c2" using op2 k1 cell_op_size [OF op2] by (auto simp: cell_op_def)
  have a2: "abs_cells c2 ! i = (free_cell ext_reset)\<lparr>a_pos := ?p - ?d, a_seq := {dst}\<rparr>"
    using op2 k1 a1 at1 by (simp add: cell_op_def del: abs_cells_nth)
  then have at2: "pos c2 ! i = ?p - ?d" "seq c2 ! i = {dst}" "shift c2 ! i = 0"
    using k2 by (simp_all add: free_cell_def)
  have "\<exists>c3. (if ?d \<noteq> 0 then map_option snd (pos_add i ?d c2) else Some c2) = Some c3 \<and>
      cell_op c2 c3 i ((free_cell ext_reset)\<lparr>a_pos := ?p, a_shift := ?d, a_seq := {dst}\<rparr>)"
  proof (cases "?d = 0")
    case True
    then show ?thesis using cell_op_refl [OF k2 refl] a2 by (auto simp: free_cell_def)
  next
    case False
    have "pos c2 ! i \<noteq> -1" using at2 q by simp
    from pos_add_op [OF k2 this, of ?d] False show ?thesis
      using at2 p a2 r by (auto simp: free_cell_def)
  qed
  then obtain c3 where c3: "(if ?d \<noteq> 0 then map_option snd (pos_add i ?d c2) else Some c2) = Some c3"
    and op3: "cell_op c2 c3 i ((free_cell ext_reset)\<lparr>a_pos := ?p, a_shift := ?d, a_seq := {dst}\<rparr>)" by blast
  have k3: "kv_inv c3" "i < cells_size c3" using op3 k2 cell_op_size [OF op3] by (auto simp: cell_op_def)
  obtain c4 where c4: "ext_set i ?e c3 = Some c4" and op4: "cell_op c3 c4 i ((abs_cells c3 ! i)\<lparr>a_ext := ?e\<rparr>)"
    using ext_set_op [OF k3] by blast
  have "cp_cross_step c0 src dst i c = Some c4"
    using True c0 s p q c1 c2 c3 c4
    by (cases "?d = 0") (auto simp: cp_cross_step_def seq_has_def pos_get_def get_shift_def ext_get_def)
  moreover have "cell_op c c4 i (copied_cell src dst (abs_cells c0 ! i))"
  proof -
    have "abs_cells c3 ! i = (free_cell ext_reset)\<lparr>a_pos := ?p, a_shift := ?d, a_seq := {dst}\<rparr>"
      using op3 k2 by (simp add: cell_op_def del: abs_cells_nth)
    then have "(abs_cells c3 ! i)\<lparr>a_ext := ?e\<rparr> = copied_cell src dst (abs_cells c0 ! i)"
      using True c0 by (simp add: copied_cell_def free_cell_def)
    then show ?thesis using op1 op2 op3 op4 by (simp add: cell_op_def del: abs_cells_nth)
  qed
  ultimately show ?thesis by blast
qed

lemma cp_cross_loop:
  assumes c0: "kv_inv c0" and c1: "kv_inv c1" "cells_size c1 = cells_size c0"
    "abs_cells c1 = replicate (cells_size c0) (free_cell ext_reset)"
    and s: "src < LLAMA_MAX_SEQ" "dst < LLAMA_MAX_SEQ"
    and base: "\<And>a. a \<in> set (abs_cells c0) \<Longrightarrow> src \<in> a_seq a \<Longrightarrow> shift_ok a"
  shows "\<exists>c'. foldM (cp_cross_step c0 src dst) [0..<cells_size c0] c1 = Some c' \<and> kv_inv c' \<and>
    abs_cells c' = map (copied_cell src dst) (abs_cells c0)"
proof -
  let ?A = "abs_cells c0" and ?n = "cells_size c0"
  let ?Q = "\<lambda>m c'. kv_inv c' \<and> abs_cells c' = map (copied_cell src dst) (take m ?A) @ replicate (?n - m) (free_cell ext_reset)"
  have "\<exists>c'. foldM (cp_cross_step c0 src dst) [0..<?n] c1 = Some c' \<and> ?Q ?n c'"
  proof (rule foldM_upt_inv [where P = ?Q])
    show "?Q 0 c1" using c1 by simp
  next
    fix i c' assume i: "i < ?n" and Q: "?Q i c'"
    have size: "cells_size c' = ?n" using i Q by (simp flip: length_abs_cells)
    have free: "abs_cells c' ! i = free_cell ext_reset" using Q i by (simp add: nth_append)
    have "shift_ok (?A ! i)" if "src \<in> a_seq (?A ! i)"
      using base [OF nth_mem that] i by simp
    then obtain c'' where c'': "cp_cross_step c0 src dst i c' = Some c''" "cell_op c' c'' i (copied_cell src dst (?A ! i))"
      using cp_cross_step_op [of c' i c0 src dst] Q i size free c0 s by auto
    have "abs_cells c'' = map (copied_cell src dst) (take (Suc i) ?A) @ replicate (?n - Suc i) (free_cell ext_reset)"
    proof -
      have "?n - i = Suc (?n - Suc i)" using i by simp
      then show ?thesis
        using c''(2) i Q unfolding cell_op_def
        by (simp add: list_update_append take_Suc_conv_app_nth min_def del: abs_cells_nth)
    qed
    then have "?Q (Suc i) c''" using c''(2) by (simp add: cell_op_def)
    with c''(1) show "\<exists>s'. cp_cross_step c0 src dst i c' = Some s' \<and> ?Q (Suc i) s'" by blast
  qed
  then show ?thesis by simp
qed

lemma kv_ok_copy_info [simp]:
  "kv_ok (kv\<lparr>kc_ssrc := x, kc_sdst := y\<rparr>) = kv_ok kv" "abs_kv (kv\<lparr>kc_ssrc := x, kc_sdst := y\<rparr>) = abs_kv kv"
proof -
  have "kv_size (kv\<lparr>kc_ssrc := x, kc_sdst := y\<rparr>) = kv_size kv" by (simp add: kv_size_def)
  moreover have "cell_owned (kv\<lparr>kc_ssrc := x, kc_sdst := y\<rparr>) = cell_owned kv" by (simp add: cell_owned_def [abs_def])
  ultimately have "stream_ok (kv\<lparr>kc_ssrc := x, kc_sdst := y\<rparr>) = stream_ok kv" by (simp add: stream_ok_def [abs_def])
  then show "kv_ok (kv\<lparr>kc_ssrc := x, kc_sdst := y\<rparr>) = kv_ok kv" by (simp add: kv_ok_def)
  show "abs_kv (kv\<lparr>kc_ssrc := x, kc_sdst := y\<rparr>) = abs_kv kv" by (simp add: abs_kv_def)
qed

lemma kv_seq_cp_cross_refines:
  assumes ok: "kv_ok kv" and s: "valid_seq kv src" "valid_seq kv dst"
    and cross: "kc_seq_to_stream kv ! nat src \<noteq> kc_seq_to_stream kv ! nat dst"
    and full: "p0 \<le> 0 \<or> int (kv_size kv) \<le> p0 + 1" "p1 \<le> 0 \<or> int (kv_size kv) \<le> p1 + 1"
    and base: "\<And>a. a \<in> set (abs_kv kv ! (kc_seq_to_stream kv ! nat src)) \<Longrightarrow> nat src \<in> a_seq a \<Longrightarrow> shift_ok a"
  shows "\<exists>kv'. kv_seq_cp src dst p0 p1 kv = Some kv' \<and> kv_ok kv' \<and>
     abs_kv kv' = (abs_kv kv)[kc_seq_to_stream kv ! nat dst :=
       map (copied_cell (nat src) (nat dst)) (abs_kv kv ! (kc_seq_to_stream kv ! nat src))]"
proof -
  let ?s0 = "kc_seq_to_stream kv ! nat src" and ?s1 = "kc_seq_to_stream kv ! nat dst"
  note v = valid_seqD [OF ok s(1)] and w = valid_seqD [OF ok s(2)]
  note d0 = kv_ok_streamD [OF ok v(3)] and d1 = kv_ok_streamD [OF ok w(3)]
  have r: "kv_inv (cells_reset (kc_cells kv ! ?s1))" "cells_size (cells_reset (kc_cells kv ! ?s1)) = kv_size kv"
    "abs_cells (cells_reset (kc_cells kv ! ?s1)) = replicate (kv_size kv) (free_cell ext_reset)"
  proof -
    note R = cells_reset_inv [OF kv_inv_lengths(2-4) [OF d1(1)]]
    show "kv_inv (cells_reset (kc_cells kv ! ?s1))"
      and A: "abs_cells (cells_reset (kc_cells kv ! ?s1)) = replicate (kv_size kv) (free_cell ext_reset)"
      using R d1(2) by simp_all
    show "cells_size (cells_reset (kc_cells kv ! ?s1)) = kv_size kv"
      using arg_cong [OF A, of length] by simp
  qed
  obtain c' where loop: "foldM (cp_cross_step (kc_cells kv ! ?s0) (nat src) (nat dst)) [0..<cells_size (kc_cells kv ! ?s0)]
      (cells_reset (kc_cells kv ! ?s1)) = Some c'"
    and c': "kv_inv c'" "abs_cells c' = map (copied_cell (nat src) (nat dst)) (abs_cells (kc_cells kv ! ?s0))"
  proof -
    have "cells_size (cells_reset (kc_cells kv ! ?s1)) = cells_size (kc_cells kv ! ?s0)"
      "abs_cells (cells_reset (kc_cells kv ! ?s1)) = replicate (cells_size (kc_cells kv ! ?s0)) (free_cell ext_reset)"
      using r(2,3) d0(2) by simp_all
    from cp_cross_loop [OF d0(1) r(1) this v(2) w(2) base [unfolded d0(7)]] show ?thesis using that by blast
  qed
  have size: "cells_size c' = kv_size kv" using c'(2) d0(2) by (simp flip: length_abs_cells)
  have own: "cell_owned kv ?s1 a" if "a \<in> set (abs_cells c')" for a
    using that s(2) unfolding c'(2) by (auto simp: copied_cell_def cell_owned_def free_cell_def valid_seq_def)
  let ?kv = "set_stream ?s1 c' (kc_heads kv ! ?s0) kv"
  have eq: "kv_seq_cp src dst p0 p1 kv = Some (?kv\<lparr>kc_ssrc := kc_ssrc kv @ [?s0], kc_sdst := kc_sdst kv @ [?s1]\<rparr>)"
    using s cross full loop by (auto simp: kv_seq_cp_def Let_def set_stream_def)
  have "kv_ok ?kv" using kv_ok_set_stream(1) [OF ok w(3) c'(1) size d0(3) own] .
  then show ?thesis using eq c'(2) d0(7) by (simp add: abs_set_stream)
qed

text \<open>A fresh cache and a cleared one.\<close>

lemma kv_cache_new_ok:
  assumes "kv_cache_new vt unified sz n_seq_max n_pad n_swa swa npe alibi gqa = Some kv"
    and "0 < n_seq_max" and "n_seq_max \<le> LLAMA_MAX_SEQ"
  shows "kv_ok kv \<and> kv_size kv = sz \<and> abs_kv kv = replicate (kc_n_stream kv) (replicate sz (free_cell ext_reset)) \<and>
    n_seq_max \<le> length (kc_seq_to_stream kv)"
proof -
  have kv: "length (kc_heads kv) = kc_n_stream kv" "kc_cells kv = replicate (kc_n_stream kv) (cells_resize empty_cells sz)"
    "kc_heads kv = replicate (kc_n_stream kv) 0" "kc_n_stream kv = (if unified then 1 else n_seq_max)"
    "kc_seq_to_stream kv = (if kc_n_stream kv > 1 then [0..<kc_n_stream kv] else replicate LLAMA_MAX_SEQ 0)"
    using assms(1) by (auto simp: kv_cache_new_def Let_def split: if_splits)
  have n: "0 < kc_n_stream kv" "kc_n_stream kv \<le> LLAMA_MAX_SEQ" using assms(2,3) kv(4) by auto
  have s0: "kc_seq_to_stream kv ! 0 < kc_n_stream kv" using n kv(5) by simp
  have size: "kv_size kv = sz" unfolding kv_size_def kv(2) using s0 by simp
  have "stream_ok kv st" if "st < kc_n_stream kv" for st
    using that size kv(2,3) by (simp add: stream_ok_def cell_owned_def)
  then have "kv_ok kv" using n s0 kv by (auto simp: kv_ok_def split: if_splits)
  moreover have "n_seq_max \<le> length (kc_seq_to_stream kv)" using kv(4,5) assms(3) by (auto split: if_splits)
  ultimately show ?thesis using size kv(2) by (simp add: abs_kv_def)
qed

lemma kv_clear_refines:
  assumes ok: "kv_ok kv"
  shows "kv_ok (kv_clear kv) \<and> abs_kv (kv_clear kv) = map (\<lambda>A. replicate (length A) (free_cell ext_reset)) (abs_kv kv)"
proof -
  let ?g = "\<lambda>A. replicate (length A) (free_cell ext_reset)" and ?n = "kc_n_stream kv"
  let ?Q = "\<lambda>m kv'. kv_ok kv' \<and> kc_n_stream kv' = ?n \<and> length (abs_kv kv) = ?n \<and>
     abs_kv kv' = map ?g (take m (abs_kv kv)) @ drop m (abs_kv kv)"
  have "?Q ?n (kv_clear kv)"
    unfolding kv_clear_def
  proof (rule fold_upt_inv [where P = ?Q])
    show "?Q 0 kv" using ok by (simp add: abs_kv_def kv_ok_def)
  next
    fix st kv' assume st: "st < ?n" and Q: "?Q st kv'"
    then have ok': "kv_ok kv'" and st': "st < kc_n_stream kv'" by auto
    let ?c = "cells_reset (kc_cells kv' ! st)"
    note d = kv_ok_streamD [OF ok' st']
    note R = cells_reset_inv [OF kv_inv_lengths(2-4) [OF d(1)]]
    have at: "abs_kv kv' ! st = abs_kv kv ! st" using Q st by (simp add: nth_append)
    have A: "abs_cells ?c = ?g (abs_kv kv ! st)" using R d(7) at by (metis length_abs_cells)
    have size: "cells_size ?c = kv_size kv'" using arg_cong [OF A, of length] d(2,7) at by (metis length_abs_cells length_replicate)
    have "cell_owned kv' st a" if "a \<in> set (abs_cells ?c)" for a
      using that unfolding A by (simp add: cell_owned_def free_cell_def)
    note ok'' = kv_ok_set_stream [OF ok' st' conjunct1 [OF R] size _ this, of 0]
    have "abs_kv (set_stream st ?c 0 kv') = map ?g (take (Suc st) (abs_kv kv)) @ drop (Suc st) (abs_kv kv)"
      unfolding abs_set_stream A using Q st
      by (simp add: list_update_append take_Suc_conv_app_nth min_def Cons_nth_drop_Suc [symmetric])
    then show "?Q (Suc st) (set_stream st ?c 0 kv')" using ok'' Q by auto
  qed
  then show ?thesis by simp
qed

section \<open>The memory interface\<close>

definition kv_positions :: "kv_cache \<Rightarrow> int \<Rightarrow> int set" where
  "kv_positions kv s = a_pos ` {a \<in> set (abs_kv kv ! (kc_seq_to_stream kv ! nat s)). nat s \<in> a_seq a}"

lemma kv_positions_eq:
  assumes "kv_ok kv" and "valid_seq kv s"
  shows "kv_positions kv s = seq_positions (kc_cells kv ! (kc_seq_to_stream kv ! nat s)) (nat s)"
  using kv_ok_streamD(7) [OF assms(1) valid_seqD(3) [OF assms]] by (simp add: kv_positions_def seq_positions_def)

interpretation kv_mem: seq_memory kv_ok valid_seq kv_positions kv_seq_pos_min kv_seq_pos_max
proof
  fix kv s assume a: "kv_ok kv" "valid_seq kv s"
  let ?c = "kc_cells kv ! (kc_seq_to_stream kv ! nat s)"
  note inv = kv_ok_streamD(1) [OF a(1) valid_seqD(3) [OF a]] and eq = kv_positions_eq [OF a]
  show "finite (kv_positions kv s)" by (simp add: kv_positions_def)
  show "0 \<le> p" if "p \<in> kv_positions kv s" for p
    using that kv_inv_cellD [OF inv] unfolding eq seq_positions_nth by fastforce
  show "kv_seq_pos_min s kv = Some (if kv_positions kv s = {} then -1 else Min (kv_positions kv s))"
    "kv_seq_pos_max s kv = Some (if kv_positions kv s = {} then -1 else Max (kv_positions kv s))"
    using a(2) cells_seq_pos_min_max [OF inv valid_seqD(2) [OF a]] eq
    by (simp_all add: kv_seq_pos_min_def kv_seq_pos_max_def)
qed

section \<open>Properties\<close>

lemma valid_stream: "kv_ok kv \<Longrightarrow> valid_seq kv t \<Longrightarrow> kc_seq_to_stream kv ! nat t < length (abs_kv kv)"
  using valid_seqD(3) [of kv t] by (simp add: abs_kv_def kv_ok_def)

lemma kv_positions_update:
  assumes "abs_kv kv' = (abs_kv kv)[st := map g (abs_kv kv ! st)]" and "kc_seq_to_stream kv' = kc_seq_to_stream kv"
    and "kc_seq_to_stream kv ! nat t < length (abs_kv kv)"
  shows "kv_positions kv' t = (if kc_seq_to_stream kv ! nat t = st
    then {a_pos (g a) | a. a \<in> set (abs_kv kv ! st) \<and> nat t \<in> a_seq (g a)} else kv_positions kv t)"
  using assms by (auto simp: kv_positions_def)

lemma kv_seq_rm_positions:
  assumes ok: "kv_ok kv" and s: "valid_seq kv s"
  shows "\<exists>kv'. kv_seq_rm s p0 p1 kv = Some (True, kv') \<and> kv_ok kv' \<and>
     kv_positions kv' s = {p \<in> kv_positions kv s. \<not> (clamp_p0 p0 \<le> p \<and> p < clamp_p1 p1)} \<and>
     (\<forall>t. valid_seq kv t \<longrightarrow> t \<noteq> s \<longrightarrow> kv_positions kv' t = kv_positions kv t)"
proof -
  let ?g = "guarded (in_range (clamp_p0 p0) (clamp_p1 p1) (nat s)) (CSeqRm (nat s))"
  obtain kv' where kv': "kv_seq_rm s p0 p1 kv = Some (True, kv')" "kv_ok kv'" "kc_seq_to_stream kv' = kc_seq_to_stream kv"
    "abs_kv kv' = (abs_kv kv)[kc_seq_to_stream kv ! nat s := map ?g (abs_kv kv ! (kc_seq_to_stream kv ! nat s))]"
    using kv_seq_rm_one [OF assms] by blast
  note upd = kv_positions_update [OF kv'(4,3) valid_stream [OF ok]]
  have "kv_positions kv' s = {p \<in> kv_positions kv s. \<not> (clamp_p0 p0 \<le> p \<and> p < clamp_p1 p1)}"
    unfolding upd [OF s] by (auto simp: guarded_def in_range_def kv_positions_def free_cell_def split: if_splits)
  moreover have "kv_positions kv' t = kv_positions kv t" if "valid_seq kv t" "t \<noteq> s" for t
  proof -
    have "nat t \<noteq> nat s" using that s by (auto simp: valid_seq_def)
    then have "nat t \<in> a_seq (?g a) \<longleftrightarrow> nat t \<in> a_seq a" and "nat t \<in> a_seq a \<Longrightarrow> a_pos (?g a) = a_pos a" for a
      by (auto simp: guarded_def free_cell_def)
    then have "{a_pos (?g a) | a. a \<in> A \<and> nat t \<in> a_seq (?g a)} = a_pos ` {a \<in> A. nat t \<in> a_seq a}" for A
      by (force simp: image_iff)
    then show ?thesis unfolding upd [OF that(1)] by (simp add: kv_positions_def)
  qed
  ultimately show ?thesis using kv' by blast
qed

text \<open>C6: \<^verbatim>\<open>seq_rm\<close> of a sequence does not abort, keeps the cache invariant, removes exactly the positions
  of the range (a negative bound leaves it open on that side) from that sequence and leaves the positions of every other sequence as they are.\<close>

theorem kv_seq_rm_correct:
  assumes "kv_ok kv" and "valid_seq kv s"
  shows "\<exists>kv'. kv_seq_rm s p0 p1 kv = Some (True, kv') \<and> kv_ok kv' \<and>
     kv_positions kv' s = {p \<in> kv_positions kv s. \<not> (p0 \<le> p \<and> (if p1 < 0 then p < LLAMA_POS_MAX else p < p1))} \<and>
     (\<forall>t. valid_seq kv t \<longrightarrow> t \<noteq> s \<longrightarrow> kv_positions kv' t = kv_positions kv t)"
proof -
  have "{p \<in> kv_positions kv s. \<not> (clamp_p0 p0 \<le> p \<and> p < clamp_p1 p1)} =
      {p \<in> kv_positions kv s. \<not> (p0 \<le> p \<and> (if p1 < 0 then p < LLAMA_POS_MAX else p < p1))}"
    using kv_mem.positions_nonneg [OF assms] by (auto simp: clamp_p0_def clamp_p1_def)
  with kv_seq_rm_positions [OF assms, of p0 p1] show ?thesis by simp
qed

text \<open>C29: \<^verbatim>\<open>seq_cp\<close> within a stream shares the cells of the source range with the destination, provided the
  destination owns none of them; the positions of the destination grow by those of the range and no other
  sequence changes.\<close>

theorem kv_seq_cp_same_stream_correct:
  assumes "kv_ok kv" and "valid_seq kv src" and "valid_seq kv dst" and "src \<noteq> dst"
    and "kc_seq_to_stream kv ! nat src = kc_seq_to_stream kv ! nat dst"
    and "\<And>a. a \<in> set (abs_kv kv ! (kc_seq_to_stream kv ! nat src)) \<Longrightarrow>
      in_range (clamp_p0 p0) (clamp_p1 p1) (nat src) a \<Longrightarrow> nat dst \<notin> a_seq a"
  shows "\<exists>kv'. kv_seq_cp src dst p0 p1 kv = Some kv' \<and> kv_ok kv' \<and>
     abs_kv kv' = (abs_kv kv)[kc_seq_to_stream kv ! nat src :=
       map (\<lambda>a. if in_range (clamp_p0 p0) (clamp_p1 p1) (nat src) a then a\<lparr>a_seq := insert (nat dst) (a_seq a)\<rparr> else a)
         (abs_kv kv ! (kc_seq_to_stream kv ! nat src))]"
  using kv_seq_cp_same_refines [OF assms(1-5), where ?p0.0 = p0 and ?p1.0 = p1] assms(6) unfolding guarded_eqs by blast

text \<open>\<^verbatim>\<open>seq_cp\<close> to another stream replaces the whole destination stream by the cells of the source
  sequence, with position, shift and extension preserved and the destination as their only owner.\<close>

theorem kv_seq_cp_cross_stream_correct:
  assumes "kv_ok kv" and "valid_seq kv src" and "valid_seq kv dst"
    and "kc_seq_to_stream kv ! nat src \<noteq> kc_seq_to_stream kv ! nat dst"
    and "p0 \<le> 0 \<or> int (kv_size kv) \<le> p0 + 1" and "p1 \<le> 0 \<or> int (kv_size kv) \<le> p1 + 1"
    and "\<And>a. a \<in> set (abs_kv kv ! (kc_seq_to_stream kv ! nat src)) \<Longrightarrow> nat src \<in> a_seq a \<Longrightarrow> shift_ok a"
  shows "\<exists>kv'. kv_seq_cp src dst p0 p1 kv = Some kv' \<and> kv_ok kv' \<and>
     abs_kv kv' = (abs_kv kv)[kc_seq_to_stream kv ! nat dst :=
       map (copied_cell (nat src) (nat dst)) (abs_kv kv ! (kc_seq_to_stream kv ! nat src))]"
  by (rule kv_seq_cp_cross_refines [OF assms])

text \<open>\<^verbatim>\<open>seq_keep\<close> leaves the kept sequence untouched and removes every other sequence from its stream.\<close>

theorem kv_seq_keep_correct:
  assumes "kv_ok kv" and "valid_seq kv s"
  shows "\<exists>kv'. kv_seq_keep s kv = Some kv' \<and> kv_ok kv' \<and>
     abs_kv kv' = (abs_kv kv)[kc_seq_to_stream kv ! nat s :=
       map (\<lambda>a. if nat s \<in> a_seq a then a\<lparr>a_seq := {nat s}\<rparr> else if a_pos a \<noteq> -1 then free_cell ext_reset else a)
         (abs_kv kv ! (kc_seq_to_stream kv ! nat s))]"
proof -
  have "cell_spec (CSeqKeep (nat s)) = (\<lambda>a. if nat s \<in> a_seq a then a\<lparr>a_seq := {nat s}\<rparr>
      else if a_pos a \<noteq> -1 then free_cell ext_reset else a)" by (simp add: fun_eq_iff)
  with kv_seq_keep_refines [OF assms] show ?thesis by simp
qed

text \<open>C31: Where no position and no recorded shift of the range overflows 32 bits, \<^verbatim>\<open>seq_add\<close> moves the cells of the
  range by the shift, records the same shift for the K cache (the
  difference of position and shift is unchanged), and frees the cells whose position would become negative.\<close>

theorem kv_seq_add_correct:
  assumes "kv_ok kv" and "valid_seq kv s" and "kc_n_pos_per_embd kv = 1"
    and "d \<noteq> 0" and "clamp_p0 p0 \<noteq> clamp_p1 p1"
    and "\<And>a. a \<in> set (abs_kv kv ! (kc_seq_to_stream kv ! nat s)) \<Longrightarrow>
      in_range (clamp_p0 p0) (clamp_p1 p1) (nat s) a \<Longrightarrow> i32_ok (a_pos a + d) \<and> i32_ok (a_shift a + d)"
  shows "\<exists>kv'. kv_seq_add s p0 p1 d kv = Some kv' \<and> kv_ok kv' \<and>
     abs_kv kv' = (abs_kv kv)[kc_seq_to_stream kv ! nat s :=
       map (\<lambda>a. if in_range (clamp_p0 p0) (clamp_p1 p1) (nat s) a
                 then if a_pos a + d < 0 then free_cell (a_ext a)
                      else a\<lparr>a_pos := a_pos a + d, a_shift := a_shift a + d\<rparr>
                 else a)
         (abs_kv kv ! (kc_seq_to_stream kv ! nat s))]"
  using kv_seq_add_refines [OF assms] unfolding guarded_eqs .

text \<open>\<^verbatim>\<open>seq_div\<close> records the shift with the opposite sign: a cell that moves from \<open>p\<close> to \<open>p div d\<close> gets
  \<open>p - p div d\<close> added to its shift, where \<^verbatim>\<open>seq_add\<close> by the same displacement adds \<open>p div d - p\<close>.\<close>

theorem kv_seq_div_shift_sign:
  assumes "kv_ok kv" and "valid_seq kv s" and "kc_n_pos_per_embd kv = 1"
    and "1 < d" and "clamp_p0 p0 \<noteq> clamp_p1 p1"
  shows "\<exists>kv'. kv_seq_div s p0 p1 d kv = Some kv' \<and> kv_ok kv' \<and>
     abs_kv kv' = (abs_kv kv)[kc_seq_to_stream kv ! nat s :=
       map (\<lambda>a. if in_range (clamp_p0 p0) (clamp_p1 p1) (nat s) a
                 then a\<lparr>a_pos := a_pos a div d, a_shift := i32 (a_shift a + (a_pos a - a_pos a div d))\<rparr> else a)
         (abs_kv kv ! (kc_seq_to_stream kv ! nat s))]"
  using kv_seq_div_refines [OF assms] unfolding guarded_eqs .

text \<open>Repeating \<^verbatim>\<open>seq_cp\<close> within a stream aborts: the second copy adds the destination to a cell that
  already has it.\<close>

theorem kv_seq_cp_twice_aborts:
  "(do { kv \<leftarrow> kv_cache_new False True 2 2 1 0 SWA_NONE 1 False 1;
         c \<leftarrow> pos_set 0 5 (kc_cells kv ! 0);
         c \<leftarrow> cells_seq_add 0 0 c;
         kv \<leftarrow> kv_seq_cp 0 1 (-1) (-1) (kv\<lparr>kc_cells := [c]\<rparr>);
         Some (kv_seq_pos_max 1 kv, kv_seq_cp 0 1 (-1) (-1) kv = None) }) = Some (Some 5, True)"
  by code_simp

section \<open>Witnesses\<close>

text \<open>A cache of two cells per stream whose first cell holds position 7 of sequence 0.\<close>

abbreviation demo_cell :: acell where
  "demo_cell \<equiv> (free_cell ext_reset)\<lparr>a_pos := 7, a_seq := {0}\<rparr>"

lemma demo_cells: "\<exists>c. kv_inv c \<and> cells_size c = 2 \<and> abs_cells c = [demo_cell, free_cell ext_reset]"
proof -
  let ?f = "free_cell ext_reset"
  obtain c where c: "kv_inv c" "abs_cells c = [?f\<lparr>a_pos := 7\<rparr>, ?f]"
    using cell_exec_refines [of "cells_resize empty_cells 2" 0 "CPosSet 7"]
    by (auto simp: cell_op_def numeral_2_eq_2 simp del: abs_cells_nth)
  have "cells_size c = 2" using c(2) by (simp flip: length_abs_cells)
  then obtain c' where c': "kv_inv c'" "abs_cells c' = [demo_cell, ?f]"
    using cell_exec_refines [OF c(1), of 0 "CSeqAdd 0"] c(2) by (auto simp: cell_op_def simp del: abs_cells_nth)
  moreover have "cells_size c' = 2" using c'(2) by (simp flip: length_abs_cells)
  ultimately show ?thesis by blast
qed

lemma demo_kv:
  "\<exists>kv. kv_ok kv \<and> kv_size kv = 2 \<and> kc_n_pos_per_embd kv = 1 \<and> kc_swa_type kv = SWA_NONE \<and> kc_n_stream kv = (if u then 1 else 2) \<and>
    kc_seq_to_stream kv = (if u then replicate LLAMA_MAX_SEQ 0 else [0, 1]) \<and>
    abs_kv kv = [demo_cell, free_cell ext_reset] # (if u then [] else [[free_cell ext_reset, free_cell ext_reset]])"
proof -
  let ?f = "free_cell ext_reset"
  obtain kv where new: "kv_cache_new False u 2 2 1 0 SWA_NONE 1 False 1 = Some kv"
    by (cases u) (simp_all add: kv_cache_new_def Let_def)
  note ok = kv_cache_new_ok [OF new, simplified]
  have f: "kc_n_pos_per_embd kv = 1" "kc_swa_type kv = SWA_NONE" "kc_n_stream kv = (if u then 1 else 2)"
    "kc_seq_to_stream kv = (if u then replicate LLAMA_MAX_SEQ 0 else [0, 1])"
    using new by (cases u; auto simp: kv_cache_new_def Let_def upt_rec)+
  obtain c where c: "kv_inv c" "cells_size c = kv_size kv" "abs_cells c = [demo_cell, ?f]"
    using demo_cells ok by auto
  have own: "cell_owned kv 0 a" if "a \<in> set (abs_cells c)" for a
    using that f(4) unfolding c(3) by (auto simp: cell_owned_def free_cell_def)
  have n: "0 < kc_n_stream kv" using f(3) by simp
  let ?kv = "kv\<lparr>kc_cells := (kc_cells kv)[0 := c]\<rparr>"
  have s: "set_stream 0 c (kc_heads kv ! 0) kv = ?kv" by (simp add: set_stream_def)
  have "kv_ok ?kv" "kv_size ?kv = 2"
    using kv_ok_set_stream [OF conjunct1 [OF ok] n c(1,2) kv_ok_streamD(3) [OF conjunct1 [OF ok] n] own] ok
    unfolding s by auto
  moreover have "abs_kv ?kv = [demo_cell, ?f] # (if u then [] else [[?f, ?f]])"
    using kv_ok_set_cells(2) [OF conjunct1 [OF ok] n c(1,2) own] ok f(3) c(3)
    by (auto simp: numeral_2_eq_2)
  ultimately show ?thesis using f by (intro exI [of _ ?kv]) simp
qed

theorem kv_seq_rm_correct_witness:
  "\<exists>kv kv'. kv_ok kv \<and> kv_positions kv 0 = {7} \<and> kv_seq_rm 0 3 (-1) kv = Some (True, kv') \<and> kv_positions kv' 0 = {}"
proof -
  obtain kv where kv: "kv_ok kv" "kc_seq_to_stream kv = replicate LLAMA_MAX_SEQ 0" "abs_kv kv = [[demo_cell, free_cell ext_reset]]"
    using demo_kv [of True] by auto
  have v: "valid_seq kv 0" using kv(2) by (simp add: valid_seq_def)
  have "kv_positions kv 0 = {7}" using kv(2,3) by (force simp: kv_positions_def free_cell_def)
  with kv_seq_rm_correct [OF kv(1) v, of 3 "-1"] kv(1) show ?thesis by (auto simp: clamp_p0_def clamp_p1_def)
qed

theorem kv_seq_cp_same_stream_correct_witness:
  "\<exists>kv kv'. kv_seq_cp 0 1 (-1) (-1) kv = Some kv' \<and> abs_kv kv' = [[demo_cell\<lparr>a_seq := {0, 1}\<rparr>, free_cell ext_reset]]"
proof -
  obtain kv where kv: "kv_ok kv" "kc_seq_to_stream kv = replicate LLAMA_MAX_SEQ 0" "abs_kv kv = [[demo_cell, free_cell ext_reset]]"
    using demo_kv [of True] by auto
  have v: "valid_seq kv 0" "valid_seq kv 1" using kv(2) by (simp_all add: valid_seq_def)
  have "nat 1 \<notin> a_seq a" if "a \<in> set (abs_kv kv ! (kc_seq_to_stream kv ! nat 0))" for a
    using that kv(2,3) by (auto simp: free_cell_def)
  from kv_seq_cp_same_stream_correct [OF kv(1) v, of "-1" "-1"] this kv
  obtain kv' where "kv_seq_cp 0 1 (-1) (-1) kv = Some kv'"
    "abs_kv kv' = [[demo_cell\<lparr>a_seq := {0, 1}\<rparr>, free_cell ext_reset]]"
    by (auto simp: in_range_def clamp_p0_def clamp_p1_def free_cell_def insert_commute)
  then show ?thesis by blast
qed

theorem kv_seq_cp_cross_stream_correct_witness:
  "\<exists>kv kv'. kv_seq_cp 0 1 (-1) (-1) kv = Some kv' \<and>
    abs_kv kv' = [[demo_cell, free_cell ext_reset], [demo_cell\<lparr>a_seq := {1}\<rparr>, free_cell ext_reset]]"
proof -
  obtain kv where kv: "kv_ok kv" "kc_seq_to_stream kv = [0, 1]"
    "abs_kv kv = [[demo_cell, free_cell ext_reset], [free_cell ext_reset, free_cell ext_reset]]"
    using demo_kv [of False] by auto
  have v: "valid_seq kv 0" "valid_seq kv 1" using kv(2) by (simp_all add: valid_seq_def)
  have sh: "shift_ok a" if "a \<in> set (abs_kv kv ! (kc_seq_to_stream kv ! nat 0))" "nat 0 \<in> a_seq a" for a
    using that kv(2,3) by (auto simp: free_cell_def shift_ok_def i32_ok_def)
  from kv_seq_cp_cross_stream_correct [OF kv(1) v _ _ _ sh, of "-1" "-1"] kv
  obtain kv' where "kv_seq_cp 0 1 (-1) (-1) kv = Some kv'"
    "abs_kv kv' = [[demo_cell, free_cell ext_reset], [demo_cell\<lparr>a_seq := {1}\<rparr>, free_cell ext_reset]]"
    by (auto simp: copied_cell_def free_cell_def)
  then show ?thesis by blast
qed

theorem kv_seq_keep_correct_witness:
  "\<exists>kv kv'. abs_kv kv = [[demo_cell, free_cell ext_reset]] \<and> kv_seq_keep 1 kv = Some kv' \<and>
    abs_kv kv' = [[free_cell ext_reset, free_cell ext_reset]]"
proof -
  obtain kv where kv: "kv_ok kv" "kc_seq_to_stream kv = replicate LLAMA_MAX_SEQ 0" "abs_kv kv = [[demo_cell, free_cell ext_reset]]"
    using demo_kv [of True] by auto
  have "valid_seq kv 1" using kv(2) by (simp add: valid_seq_def)
  from kv_seq_keep_correct [OF kv(1) this] kv(2,3) show ?thesis by auto
qed

theorem kv_seq_add_correct_witness:
  "\<exists>kv kv'. kv_seq_add 0 (-1) (-1) (-4) kv = Some kv' \<and>
    abs_kv kv' = [[demo_cell\<lparr>a_pos := 3, a_shift := -4\<rparr>, free_cell ext_reset]]"
proof -
  obtain kv where kv: "kv_ok kv" "kc_seq_to_stream kv = replicate LLAMA_MAX_SEQ 0" "abs_kv kv = [[demo_cell, free_cell ext_reset]]"
    "kc_n_pos_per_embd kv = 1" using demo_kv [of True] by auto
  have "valid_seq kv 0" using kv(2) by (simp add: valid_seq_def)
  moreover have "i32_ok (a_pos a + -4) \<and> i32_ok (a_shift a + -4)"
    if "a \<in> set (abs_kv kv ! (kc_seq_to_stream kv ! nat 0))" for a
    using that kv(2,3) by (auto simp: free_cell_def i32_ok_def)
  ultimately show ?thesis
    using kv_seq_add_correct [OF kv(1) _ kv(4), of 0 "-4" "-1" "-1"] kv(2,3)
    by (auto simp: in_range_def clamp_p0_def clamp_p1_def free_cell_def)
qed

theorem kv_seq_div_shift_sign_witness:
  "\<exists>kv kv'. kv_seq_div 0 (-1) (-1) 2 kv = Some kv' \<and>
    abs_kv kv' = [[demo_cell\<lparr>a_pos := 3, a_shift := 4\<rparr>, free_cell ext_reset]]"
proof -
  obtain kv where kv: "kv_ok kv" "kc_seq_to_stream kv = replicate LLAMA_MAX_SEQ 0" "abs_kv kv = [[demo_cell, free_cell ext_reset]]"
    "kc_n_pos_per_embd kv = 1" using demo_kv [of True] by auto
  have "valid_seq kv 0" using kv(2) by (simp add: valid_seq_def)
  from kv_seq_div_shift_sign [OF kv(1) this kv(4), of 2 "-1" "-1"] kv(2,3) show ?thesis
    by (auto simp: in_range_def clamp_p0_def clamp_p1_def free_cell_def i32_def)
qed

end
