(* ===== verification/KvSlots.thy ===== *)
theory KvSlots
  imports KvSeqOps
begin

text \<open>
  The slot search \<^verbatim>\<open>find_slot\<close>: it always returns, the cells it returns can be used, and without the
  contiguity flag it fails only when a stream has too few usable cells.
\<close>

section \<open>Usable cells\<close>

definition swa_ok :: "kv_cache \<Rightarrow> bool" where
  "swa_ok kv \<longleftrightarrow> (kc_swa_type kv = SWA_CHUNKED \<longrightarrow> kc_n_swa kv \<noteq> 0)"

text \<open>What \<^verbatim>\<open>can_use\<close> decides, on the abstract cell.\<close>

definition usable :: "kv_cache \<Rightarrow> kv_cells \<Rightarrow> nat \<Rightarrow> bool" where
  "usable kv c i \<longleftrightarrow> pos c ! i = -1 \<or>
     (\<exists>s. seq c ! i = {s} \<and> kv_is_masked_swa kv (pos c ! i) (Max (seq_positions c s) + 1) = Some True)"

lemma kv_is_masked_swa_total:
  "swa_ok kv \<Longrightarrow> 0 \<le> p0 \<Longrightarrow> 0 \<le> p1 \<Longrightarrow> \<exists>b. kv_is_masked_swa kv p0 p1 = Some b"
  by (cases "kc_swa_type kv") (auto simp: kv_is_masked_swa_def is_masked_swa_def swa_ok_def Let_def)

lemma find_singleton:
  assumes "s < n"
  shows "List.find (\<lambda>t. t \<in> {s}) [0..<n] = Some s"
proof -
  have "\<forall>j < s. [0..<n] ! j \<notin> {s}" using assms by simp
  then show ?thesis unfolding find_Some_iff using assms by (intro exI [of _ s]) simp
qed

lemma seq_get_singleton:
  assumes "i < cells_size c" and "seq c ! i = {s}" and "s < LLAMA_MAX_SEQ"
  shows "seq_get i c = Some (int s)"
  using assms find_singleton [OF assms(3)] by (simp add: seq_get_def)

lemma can_use_total:
  assumes inv: "kv_inv c" and i: "i < cells_size c" and swa: "swa_ok kv"
  shows "can_use kv c i = Some (usable kv c i)"
proof (cases "pos c ! i = -1")
  case True
  then show ?thesis using i by (simp add: can_use_def is_empty_def usable_def)
next
  case False
  note cell = kv_inv_cellD [OF inv i]
  have p: "0 \<le> pos c ! i" using cell(1) False by simp
  have e: "is_empty c i = Some False" using i p by (simp add: is_empty_def)
  have cnt: "seq_count i c = Some (card (seq c ! i))" using i False by (simp add: seq_count_def)
  show ?thesis
  proof (cases "card (seq c ! i) = 1")
    case True
    then obtain s where s: "seq c ! i = {s}" by (auto simp: card_1_singleton_iff)
    have s256: "s < LLAMA_MAX_SEQ" using cell(2) s by auto
    have in_pos: "pos c ! i \<in> seq_positions c s" using s i by (auto simp: seq_positions_nth)
    have fin: "finite (seq_positions c s)" by (simp add: seq_positions_def)
    have m: "cells_seq_pos_max s c = Some (Max (seq_positions c s))"
      using cells_seq_pos_min_max(2) [OF inv s256] in_pos by auto
    have "0 \<le> Max (seq_positions c s) + 1" using Max_ge [OF fin in_pos] p by simp
    from kv_is_masked_swa_total [OF swa p this] obtain b where
      b: "kv_is_masked_swa kv (pos c ! i) (Max (seq_positions c s) + 1) = Some b" by blast
    have "can_use kv c i = Some b"
      using e cnt True s b m i False seq_get_singleton [OF i s s256] by (simp add: can_use_def pos_get_def)
    moreover have "usable kv c i = b" using b s False by (auto simp: usable_def)
    ultimately show ?thesis by simp
  next
    case card: False
    then have "\<not> usable kv c i" using False by (auto simp: usable_def)
    then show ?thesis using e cnt card by (simp add: can_use_def)
  qed
qed

section \<open>Searching one by one\<close>

text \<open>The cells in the order the search visits them: cyclically from the head.\<close>

definition cyc :: "nat \<Rightarrow> nat \<Rightarrow> nat \<Rightarrow> nat list" where
  "cyc n head r = map (\<lambda>k. (head + k) mod n) [0..<r]"

lemma cyc_Suc: "head < n \<Longrightarrow> cyc n head (Suc r) = head # cyc n (Suc head) r"
  by (simp add: cyc_def upt_conv_Cons map_Suc_upt [symmetric] comp_def del: upt_Suc)

lemma cyc_wrap: "cyc n n r = cyc n 0 r"
  by (simp add: cyc_def)

lemma cyc_distinct: "r \<le> n \<Longrightarrow> distinct (cyc n head r)"
proof -
  assume r: "r \<le> n"
  have "inj_on (\<lambda>k. (head + k) mod n) {0..<r}"
  proof (rule inj_onI)
    fix x y assume x: "x \<in> {0..<r}" and y: "y \<in> {0..<r}" and eq: "(head + x) mod n = (head + y) mod n"
    have "x mod n = y mod n"
    proof (cases x y rule: le_cases)
      case le
      then have "n dvd (head + y) - (head + x)" using mod_eq_dvd_iff_nat [of "head + x" "head + y" n] eq by simp
      then show ?thesis using mod_eq_dvd_iff_nat [OF le, of n] by simp
    next
      case ge
      then have "n dvd (head + x) - (head + y)" using mod_eq_dvd_iff_nat [of "head + y" "head + x" n] eq by simp
      then show ?thesis using mod_eq_dvd_iff_nat [OF ge, of n] by simp
    qed
    then show "x = y" using x y r by simp
  qed
  then show ?thesis by (simp add: cyc_def distinct_map)
qed

lemma cyc_all:
  assumes "head \<le> n"
  shows "set (cyc n head n) = {..<n}"
proof (cases "n = 0")
  case False
  have "card (set (cyc n head n)) = n" using distinct_card [OF cyc_distinct [of n n head]] by (simp add: cyc_def)
  moreover have "set (cyc n head n) \<subseteq> {..<n}" using False by (auto simp: cyc_def)
  ultimately show ?thesis by (intro card_subset_eq) auto
qed (simp add: cyc_def)

text \<open>Without the contiguity flag the search returns the first usable cells in that order, if there are enough.\<close>

lemma slot_search_single:
  assumes use: "\<And>i. i < cells_size c \<Longrightarrow> can_use kv c i = Some (U i)"
    and "head \<le> cells_size c" and "tested < cells_size c" and "length idxs < n"
  shows "slot_search kv c False n head tested idxs =
    (let us = filter U (cyc (cells_size c) head (cells_size c - tested)) in
     Some (if n \<le> length idxs + length us then Some (idxs @ take (n - length idxs) us) else None))"
  using assms(2-4)
proof (induction "cells_size c - tested" arbitrary: head tested idxs)
  case (Suc r)
  let ?N = "cells_size c"
  have tested: "?N - tested = Suc r" "?N - Suc tested = r" using Suc.hyps(2) by simp_all
  have main: "slot_search kv c False n h tested idxs =
    (let us = filter U (cyc ?N h (Suc r)) in
     Some (if n \<le> length idxs + length us then Some (idxs @ take (n - length idxs) us) else None))" if h: "h < ?N" for h
  proof -
    define idxs' where "idxs' = (if U h then idxs @ [h] else idxs)"
    have step: "slot_search kv c False n h tested idxs =
      (if length idxs' = n then Some (Some idxs')
       else if ?N \<le> Suc tested then Some None else slot_search kv c False n (Suc h) (Suc tested) idxs')"
      by (subst slot_search.simps) (use h use [OF h] in \<open>auto simp: idxs'_def Let_def\<close>)
    have cyc: "filter U (cyc ?N h (Suc r)) = (if U h then [h] else []) @ filter U (cyc ?N (Suc h) r)"
      using h by (simp add: cyc_Suc)
    have le: "length idxs' \<le> n" using Suc.prems(3) by (simp add: idxs'_def)
    consider "length idxs' = n" | "length idxs' < n" "r = 0" | "length idxs' < n" "0 < r"
      using le_neq_implies_less [OF le] by blast
    then show ?thesis
    proof cases
      case 1 then show ?thesis using step cyc Suc.prems(3) by (auto simp: idxs'_def Let_def split: if_splits)
    next
      case 2
      then have "cyc ?N (Suc h) r = []" by (simp add: cyc_def)
      then show ?thesis using step cyc 2 tested by (auto simp: idxs'_def Let_def split: if_splits)
    next
      case 3
      then have "slot_search kv c False n (Suc h) (Suc tested) idxs' =
        (let us = filter U (cyc ?N (Suc h) r) in
         Some (if n \<le> length idxs' + length us then Some (idxs' @ take (n - length idxs') us) else None))"
        using Suc.hyps(1) [of "Suc tested" "Suc h" idxs'] h tested by simp
      then show ?thesis using step cyc 3 tested
        by (cases "U h") (auto simp: idxs'_def Let_def take_Cons' split: if_splits)
    qed
  qed
  show ?case
  proof (cases "head < ?N")
    case True then show ?thesis using main tested by simp
  next
    case False
    then have head: "head = ?N" using Suc.prems(1) by simp
    have "slot_search kv c False n head tested idxs = slot_search kv c False n 0 tested idxs"
      by (subst slot_search.simps) (simp add: head)
    then show ?thesis using main [of 0] tested Suc.prems(2) by (simp add: head cyc_wrap)
  qed
qed simp

section \<open>Searching for a contiguous range\<close>

lemma cyc_drop:
  assumes "head + k \<le> n"
  shows "set (cyc n head r) \<subseteq> {head..<head + k} \<union> set (cyc n (head + k) (r - k))"
  using assms
proof (induction k arbitrary: head r)
  case (Suc k)
  show ?case
  proof (cases r)
    case (Suc r')
    have "set (cyc n (Suc head) r') \<subseteq> {Suc head..<Suc head + k} \<union> set (cyc n (Suc head + k) (r' - k))"
      using Suc.IH [of "Suc head" r'] Suc.prems by simp
    then show ?thesis using Suc Suc.prems by (auto simp: cyc_Suc)
  qed (simp add: cyc_def)
qed simp

text \<open>The test of a range stops at the first cell that cannot be used.\<close>

lemma test_cells_cont:
  assumes use: "\<And>i. i < cells_size c \<Longrightarrow> can_use kv c i = Some (U i)" and "head + k \<le> cells_size c"
  shows "if \<forall>i \<in> {head..<head + k}. U i
    then test_cells kv c True k (head, tested, idxs) = Some (head + k, tested + k, idxs @ [head..<head + k])
    else \<exists>m < k. \<not> U (head + m) \<and>
      test_cells kv c True k (head, tested, idxs) = Some (head + m + 1, tested + m + 1, idxs @ [head..<head + m])"
  using assms(2)
proof (induction k arbitrary: head tested idxs)
  case (Suc k)
  have head: "head < cells_size c" using Suc.prems by simp
  show ?case
  proof (cases "U head")
    case False
    then show ?thesis using use [OF head] by (auto intro!: exI [of _ 0])
  next
    case True
    have split: "(\<forall>i \<in> {head..<head + Suc k}. U i) \<longleftrightarrow> (\<forall>i \<in> {Suc head..<Suc head + k}. U i)"
      using True by (auto simp: Suc_le_eq le_less)
    have IH: "if \<forall>i \<in> {Suc head..<Suc head + k}. U i
      then test_cells kv c True k (Suc head, Suc tested, idxs @ [head]) =
        Some (Suc head + k, Suc tested + k, (idxs @ [head]) @ [Suc head..<Suc head + k])
      else \<exists>m < k. \<not> U (Suc head + m) \<and> test_cells kv c True k (Suc head, Suc tested, idxs @ [head]) =
        Some (Suc head + m + 1, Suc tested + m + 1, (idxs @ [head]) @ [Suc head..<Suc head + m])"
      using Suc.IH [of "Suc head" "Suc tested" "idxs @ [head]"] Suc.prems by simp
    show ?thesis
    proof (cases "\<forall>i \<in> {Suc head..<Suc head + k}. U i")
      case all: True
      then show ?thesis using IH split True use [OF head]
        by (simp add: upt_conv_Cons del: upt_Suc)
    next
      case notall: False
      from IH [unfolded if_not_P [OF this]] obtain m where "m < k" "\<not> U (Suc head + m)"
        "test_cells kv c True k (Suc head, Suc tested, idxs @ [head]) =
        Some (Suc head + m + 1, Suc tested + m + 1, (idxs @ [head]) @ [Suc head..<Suc head + m])"
        by blast
      then show ?thesis using notall split True use [OF head]
        by (auto simp: upt_conv_Cons simp del: upt_Suc intro!: exI [of _ "Suc m"])
    qed
  qed
qed simp

definition range_usable :: "(nat \<Rightarrow> bool) \<Rightarrow> nat \<Rightarrow> nat \<Rightarrow> nat \<Rightarrow> bool" where
  "range_usable U sz n h \<longleftrightarrow> h + n \<le> sz \<and> (\<forall>i \<in> {h..<h + n}. U i)"

text \<open>The search for a range returns a usable range, or none of the starts it has left is usable.\<close>

lemma slot_search_cont:
  assumes use: "\<And>i. i < cells_size c \<Longrightarrow> can_use kv c i = Some (U i)"
    and n: "0 < n" "n \<le> cells_size c" and "head \<le> cells_size c"
  shows "(\<exists>h. slot_search kv c True n head tested [] = Some (Some [h..<h + n]) \<and> range_usable U (cells_size c) n h) \<or>
    slot_search kv c True n head tested [] = Some None \<and>
      (\<forall>h \<in> set (cyc (cells_size c) head (cells_size c - tested)). \<not> range_usable U (cells_size c) n h)"
  using assms(4)
proof (induction "2 * (cells_size c - tested) + (if head + n > cells_size c then 1 else 0)"
    arbitrary: head tested rule: less_induct)
  case less
  let ?N = "cells_size c" and ?R = "range_usable U (cells_size c) n"
  show ?case
  proof (cases "head + n > ?N")
    case True
    have eq: "slot_search kv c True n head tested [] = slot_search kv c True n 0 (tested + (?N - head)) []"
      by (subst slot_search.simps) (simp add: True)
    moreover have "set (cyc ?N head (?N - tested)) \<subseteq> {head..<?N} \<union> set (cyc ?N 0 (?N - (tested + (?N - head))))"
      using cyc_drop [of head "?N - head" ?N "?N - tested"] less.prems by (simp add: cyc_wrap)
    moreover have "\<not> ?R h" if "h \<in> {head..<?N}" for h using that True by (auto simp: range_usable_def)
    moreover have "2 * (?N - (tested + (?N - head))) + (if 0 + n > ?N then 1 else 0) <
        2 * (?N - tested) + (if head + n > ?N then 1 else 0)" using True n by simp
    ultimately show ?thesis unfolding eq using less.hyps [of "tested + (?N - head)" 0] by blast
  next
    case False
    then have fits: "head + n \<le> ?N" by simp
    note test = test_cells_cont [OF use fits, of tested "[]"]
    show ?thesis
    proof (cases "\<forall>i \<in> {head..<head + n}. U i")
      case True
      then have "slot_search kv c True n head tested [] = Some (Some [head..<head + n])"
        using test fits by (subst slot_search.simps) (simp add: Let_def)
      then show ?thesis using True fits by (auto simp: range_usable_def)
    next
      case bad: False
      from test [unfolded if_not_P [OF this] append_Nil] obtain m where m: "m < n" "\<not> U (head + m)"
        "test_cells kv c True n (head, tested, []) = Some (head + m + 1, tested + m + 1, [head..<head + m])"
        by blast
      have step: "slot_search kv c True n head tested [] =
        (if tested + m + 1 \<ge> ?N then Some None else slot_search kv c True n (head + m + 1) (tested + m + 1) [])"
        by (subst slot_search.simps) (use m fits in \<open>simp add: Let_def\<close>)
      have skip: "set (cyc ?N head (?N - tested)) \<subseteq> {head..<head + (m + 1)} \<union>
          set (cyc ?N (head + m + 1) (?N - (tested + m + 1)))"
        using cyc_drop [of head "m + 1" ?N "?N - tested"] m fits by simp
      have none: "\<not> ?R h" if "h \<in> {head..<head + (m + 1)}" for h
        using that m by (auto simp: range_usable_def intro!: bexI [of _ "head + m"])
      show ?thesis
      proof (cases "tested + m + 1 \<ge> ?N")
        case True
        then have "cyc ?N (head + m + 1) (?N - (tested + m + 1)) = []" by (simp add: cyc_def)
        then show ?thesis using True step skip none by auto
      next
        case more: False
        have "2 * (?N - (tested + m + 1)) + (if head + m + 1 + n > ?N then 1 else 0) <
          2 * (?N - tested) + (if head + n > ?N then 1 else 0)" using more by (simp split: if_splits) linarith
        moreover have eq: "slot_search kv c True n head tested [] = slot_search kv c True n (head + m + 1) (tested + m + 1) []"
          using step more by simp
        moreover have "head + m + 1 \<le> ?N" using m fits by simp
        ultimately show ?thesis unfolding eq using less.hyps [of "tested + m + 1" "head + m + 1"] skip none by blast
      qed
    qed
  qed
qed

section \<open>Finding a slot\<close>

text \<open>The demand on one stream: enough usable cells, or a usable range.\<close>

definition stream_fits :: "kv_cache \<Rightarrow> bool \<Rightarrow> nat \<Rightarrow> kv_cells \<Rightarrow> bool" where
  "stream_fits kv cont n c \<longleftrightarrow>
     (if cont then \<exists>h. range_usable (usable kv c) (cells_size c) n h
      else n \<le> card {i. i < cells_size c \<and> usable kv c i})"

text \<open>What the slot of one stream must be.\<close>

definition idxs_ok :: "kv_cache \<Rightarrow> bool \<Rightarrow> nat \<Rightarrow> kv_cells \<Rightarrow> nat list \<Rightarrow> bool" where
  "idxs_ok kv cont n c is \<longleftrightarrow> length is = n \<and> distinct is \<and>
     (\<forall>i \<in> set is. i < cells_size c \<and> usable kv c i) \<and> (cont \<longrightarrow> (\<exists>h. is = [h..<h + n]))"

lemma slot_search_correct:
  assumes inv: "kv_inv c" and swa: "swa_ok kv" and n: "0 < n" "n \<le> cells_size c" and head: "head \<le> cells_size c"
  shows "if stream_fits kv cont n c
    then \<exists>is. slot_search kv c cont n head 0 [] = Some (Some is) \<and> idxs_ok kv cont n c is
    else slot_search kv c cont n head 0 [] = Some None"
proof -
  let ?N = "cells_size c" and ?U = "usable kv c"
  have use: "can_use kv c i = Some (?U i)" if "i < ?N" for i using can_use_total [OF inv that swa] .
  have all: "set (cyc ?N head ?N) = {..<?N}" using cyc_all [OF head] .
  have N: "0 < ?N" using n by simp
  show ?thesis
  proof (cases cont)
    case cont: True
    have start: "h \<in> set (cyc ?N head (?N - 0))" if "range_usable ?U ?N n h" for h
      using that n all by (auto simp: range_usable_def)
    have ok: "idxs_ok kv True n c [h..<h + n]" if "range_usable ?U ?N n h" for h
      using that by (auto simp: idxs_ok_def range_usable_def)
    show ?thesis
    proof (cases "stream_fits kv True n c")
      case fits: True
      then obtain h where "range_usable ?U ?N n h" by (auto simp: stream_fits_def)
      then obtain h where "slot_search kv c True n head 0 [] = Some (Some [h..<h + n])" "range_usable ?U ?N n h"
        using slot_search_cont [OF use n head, of 0] start by blast
      then show ?thesis using ok fits cont by (simp del: upt_Suc)
    next
      case nofit: False
      then have "\<not> range_usable ?U ?N n h" for h by (auto simp: stream_fits_def)
      then have "slot_search kv c True n head 0 [] = Some None" using slot_search_cont [OF use n head, of 0] by blast
      then show ?thesis using nofit cont by simp
    qed
  next
    case False
    let ?us = "filter ?U (cyc ?N head ?N)"
    have dist: "distinct ?us" using cyc_distinct [of ?N ?N head] by simp
    have set_us: "set ?us = {i. i < ?N \<and> ?U i}" using all by auto
    have len: "length ?us = card {i. i < ?N \<and> ?U i}" using distinct_card [OF dist] set_us by simp
    have "slot_search kv c False n head 0 [] = Some (if n \<le> length ?us then Some (take n ?us) else None)"
      using slot_search_single [OF use head N, of "[]" n] n by (simp add: Let_def)
    moreover have "idxs_ok kv False n c (take n ?us)" if "n \<le> length ?us"
      using that dist set_us set_take_subset [of n ?us] by (auto simp: idxs_ok_def simp del: set_filter)
    ultimately show ?thesis using False len by (simp add: stream_fits_def)
  qed
qed

definition slot_seqs :: "kv_cache \<Rightarrow> llama_ubatch \<Rightarrow> nat" where
  "slot_seqs kv u = (if kc_n_stream kv > 1 then u_n_seqs_unq u else 1)"

definition slot_tokens :: "kv_cache \<Rightarrow> llama_ubatch \<Rightarrow> nat" where
  "slot_tokens kv u = u_n_tokens u div slot_seqs kv u"

text \<open>What \<^verbatim>\<open>find_slot\<close> relies on: with several streams, equally long runs of tokens of one sequence each.\<close>

definition seq_run_ok :: "kv_cache \<Rightarrow> llama_ubatch \<Rightarrow> nat \<Rightarrow> bool" where
  "seq_run_ok kv u s \<longleftrightarrow> s < length (u_seq_id_unq u) \<and> u_seq_id_unq u ! s < length (kc_seq_to_stream kv) \<and>
     (kc_n_stream kv > 1 \<longrightarrow> s * slot_tokens kv u < length (u_n_seq_id u) \<and> u_n_seq_id u ! (s * slot_tokens kv u) = 1 \<and>
        u_seq_id u ! (s * slot_tokens kv u) ! 0 = int (u_seq_id_unq u ! s))"

definition ubatch_ok :: "kv_cache \<Rightarrow> llama_ubatch \<Rightarrow> bool" where
  "ubatch_ok kv u \<longleftrightarrow> 0 < u_n_tokens u \<and> slot_seqs kv u \<noteq> 0 \<and> u_n_tokens u mod slot_seqs kv u = 0 \<and>
     (\<forall>s < slot_seqs kv u. seq_run_ok kv u s)"

definition run_stream :: "kv_cache \<Rightarrow> llama_ubatch \<Rightarrow> nat \<Rightarrow> nat" where
  "run_stream kv u s = kc_seq_to_stream kv ! (u_seq_id_unq u ! s)"

definition run_cells :: "kv_cache \<Rightarrow> llama_ubatch \<Rightarrow> nat \<Rightarrow> kv_cells" where
  "run_cells kv u s = kc_cells kv ! run_stream kv u s"

lemma slot_streams_correct:
  assumes ok: "kv_ok kv" and swa: "swa_ok kv" and n: "n = slot_tokens kv u" "0 < n"
    and "\<forall>s \<in> set ss. seq_run_ok kv u s" and "ss = [] \<longrightarrow> sl_s0 res \<le> sl_s1 res"
  shows "\<exists>sl. slot_streams kv u cont n ss res = Some sl \<and>
    (if \<forall>s \<in> set ss. stream_fits kv cont n (run_cells kv u s)
     then \<exists>js. sl_strm sl = sl_strm res @ map (run_stream kv u) ss \<and> sl_idxs sl = sl_idxs res @ js \<and>
       list_all2 (\<lambda>s. idxs_ok kv cont n (run_cells kv u s)) ss js
     else slot_empty sl)"
  using assms(5,6)
proof (induction ss arbitrary: res)
  case (Cons s ss)
  let ?st = "run_stream kv u s" and ?c = "run_cells kv u s"
  have run: "seq_run_ok kv u s" using Cons.prems by simp
  then have st: "?st < kc_n_stream kv" using ok by (auto simp: seq_run_ok_def run_stream_def kv_ok_def)
  note okst = kv_ok_streamD [OF ok st, folded run_cells_def]
  have head: "start_head ?c (kc_heads kv ! ?st) n \<le> cells_size ?c" using okst(2,3) by (simp add: start_head_def)
  let ?res = "\<lambda>is. res\<lparr>sl_s0 := min (sl_s0 res) ?st, sl_s1 := max (sl_s1 res) ?st,
     sl_strm := sl_strm res @ [?st], sl_idxs := sl_idxs res @ [is]\<rparr>"
  have eq: "slot_streams kv u cont n (s # ss) res =
    (if n > cells_size ?c then Some empty_slot
     else do {
       r \<leftarrow> slot_search kv ?c cont n (start_head ?c (kc_heads kv ! ?st) n) 0 [];
       case r of None \<Rightarrow> Some empty_slot | Some is \<Rightarrow> slot_streams kv u cont n ss (?res is) })"
    using run unfolding run_stream_def run_cells_def n(1) by (simp add: seq_run_ok_def Let_def)
  show ?case
  proof (cases "stream_fits kv cont n ?c")
    case False
    then have "slot_streams kv u cont n (s # ss) res = Some empty_slot"
      using slot_search_correct [OF okst(1) swa n(2) _ head, of cont] unfolding eq by auto
    then show ?thesis using False by (simp add: slot_empty_def empty_slot_def)
  next
    case fits: True
    have "card {i. i < cells_size ?c \<and> usable kv ?c i} \<le> card {..<cells_size ?c}" by (rule card_mono) auto
    with fits have size: "n \<le> cells_size ?c" by (auto simp: stream_fits_def range_usable_def split: if_splits)
    from slot_search_correct [OF okst(1) swa n(2) size head, of cont] fits obtain "is" where
      search: "slot_search kv ?c cont n (start_head ?c (kc_heads kv ! ?st) n) 0 [] = Some (Some is)" and is_ok: "idxs_ok kv cont n ?c is"
      by auto
    from Cons.IH [of "?res is"] Cons.prems obtain sl where sl: "slot_streams kv u cont n ss (?res is) = Some sl"
      "if \<forall>s \<in> set ss. stream_fits kv cont n (run_cells kv u s)
       then \<exists>js. sl_strm sl = sl_strm (?res is) @ map (run_stream kv u) ss \<and> sl_idxs sl = sl_idxs (?res is) @ js \<and>
         list_all2 (\<lambda>s. idxs_ok kv cont n (run_cells kv u s)) ss js
       else slot_empty sl" by (auto simp: min_le_iff_disj le_max_iff_disj)
    have "slot_streams kv u cont n (s # ss) res = Some sl" unfolding eq using size search sl(1) by simp
    moreover have "\<exists>js. sl_strm sl = sl_strm res @ map (run_stream kv u) (s # ss) \<and> sl_idxs sl = sl_idxs res @ js \<and>
         list_all2 (\<lambda>s. idxs_ok kv cont n (run_cells kv u s)) (s # ss) js"
      if all: "\<forall>s \<in> set ss. stream_fits kv cont n (run_cells kv u s)"
    proof -
      from sl(2) [unfolded if_P [OF all]] obtain js where "sl_strm sl = sl_strm res @ ?st # map (run_stream kv u) ss"
        "sl_idxs sl = sl_idxs res @ is # js" "list_all2 (\<lambda>s. idxs_ok kv cont n (run_cells kv u s)) ss js" by auto
      with is_ok show ?thesis by (intro exI [of _ "is # js"]) simp
    qed
    moreover have "slot_empty sl" if "\<not> (\<forall>s \<in> set ss. stream_fits kv cont n (run_cells kv u s))"
      using sl(2) [unfolded if_not_P [OF that]] .
    ultimately show ?thesis using fits by simp
  qed
qed simp

text \<open>A slot for the micro-batch: one list of usable cells per run.\<close>

definition slot_ok :: "kv_cache \<Rightarrow> llama_ubatch \<Rightarrow> bool \<Rightarrow> slot_info \<Rightarrow> bool" where
  "slot_ok kv u cont sl \<longleftrightarrow> sl_strm sl = map (run_stream kv u) [0..<slot_seqs kv u] \<and>
     length (sl_idxs sl) = slot_seqs kv u \<and>
     (\<forall>s < slot_seqs kv u. idxs_ok kv cont (slot_tokens kv u) (run_cells kv u s) (sl_idxs sl ! s))"

lemma slot_tokens_pos: "ubatch_ok kv u \<Longrightarrow> 0 < slot_tokens kv u"
  by (cases "u_n_tokens u < slot_seqs kv u") (auto simp: ubatch_ok_def slot_tokens_def div_greater_zero_iff)

lemma find_slot_total:
  assumes ok: "kv_ok kv" and swa: "swa_ok kv" and u: "ubatch_ok kv u"
  shows "\<exists>sl. find_slot kv u cont = Some sl \<and>
    (if \<forall>s < slot_seqs kv u. stream_fits kv cont (slot_tokens kv u) (run_cells kv u s)
     then slot_ok kv u cont sl else slot_empty sl)"
proof -
  let ?n = "slot_tokens kv u" and ?m = "slot_seqs kv u"
  let ?res = "\<lparr>sl_s0 = LLAMA_MAX_SEQ, sl_s1 = 0, sl_strm = [], sl_idxs = []\<rparr>"
  have runs: "\<forall>s \<in> set [0..<?m]. seq_run_ok kv u s" "[0..<?m] = [] \<longrightarrow> sl_s0 ?res \<le> sl_s1 ?res"
    using u by (auto simp: ubatch_ok_def)
  from slot_streams_correct [OF ok swa refl slot_tokens_pos [OF u] runs, of cont] obtain sl where
    sl: "slot_streams kv u cont ?n [0..<?m] ?res = Some sl"
    and dec: "if \<forall>s \<in> set [0..<?m]. stream_fits kv cont ?n (run_cells kv u s)
     then \<exists>js. sl_strm sl = map (run_stream kv u) [0..<?m] \<and> sl_idxs sl = js \<and>
       list_all2 (\<lambda>s. idxs_ok kv cont ?n (run_cells kv u s)) [0..<?m] js
     else slot_empty sl" by (simp only: slot_info.simps append_Nil) blast
  have "find_slot kv u cont = Some sl"
    using sl u by (cases "kc_n_stream kv > 1") (auto simp: find_slot_def ubatch_ok_def slot_seqs_def slot_tokens_def Let_def)
  with dec show ?thesis
    by (intro exI [of _ sl]) (auto simp: slot_ok_def list_all2_conv_all_nth split: if_splits)
qed

section \<open>Properties\<close>

text \<open>C9: \<^verbatim>\<open>find_slot\<close> returns on every cache in a consistent state (its search loops end and no assertion
  fails). It finds a slot exactly when every stream it needs has enough usable cells, or, with the contiguity
  flag, a usable range; the slot then lists, per sequence run, distinct usable cells inside the stream.\<close>

theorem find_slot_correct:
  assumes "kv_ok kv" and "swa_ok kv" and "ubatch_ok kv u"
  shows "\<exists>sl. find_slot kv u cont = Some sl \<and>
    (if \<forall>s < slot_seqs kv u. stream_fits kv cont (slot_tokens kv u) (run_cells kv u s)
     then slot_ok kv u cont sl else slot_empty sl)"
  by (rule find_slot_total [OF assms])

text \<open>One token of sequence 0 at position 8.\<close>

definition demo_ubatch :: llama_ubatch where
  "demo_ubatch = empty_ubatch\<lparr>u_n_tokens := 1, u_n_seqs_unq := 1, u_n_pos := 1, u_pos := [8], u_n_seq_id := [1],
     u_seq_id := [[0]], u_seq_id_unq := [0]\<rparr>"

lemma demo_ubatch_ok:
  "kc_n_stream kv = 1 \<Longrightarrow> kc_seq_to_stream kv = replicate LLAMA_MAX_SEQ 0 \<Longrightarrow> ubatch_ok kv demo_ubatch"
  by (simp add: ubatch_ok_def slot_seqs_def slot_tokens_def seq_run_ok_def demo_ubatch_def empty_ubatch_def)

theorem find_slot_correct_witness:
  "\<exists>kv sl. find_slot kv demo_ubatch False = Some sl \<and> sl_idxs sl = [[1]]"
proof -
  obtain kv where kv: "kv_ok kv" "kc_swa_type kv = SWA_NONE" "kc_n_stream kv = 1" "kv_size kv = 2"
    "kc_seq_to_stream kv = replicate LLAMA_MAX_SEQ 0" "abs_kv kv = [[demo_cell, free_cell ext_reset]]"
    using demo_kv [of True] by auto
  let ?c = "kc_cells kv ! 0"
  have c: "cells_size ?c = 2" "abs_cells ?c = [demo_cell, free_cell ext_reset]"
    using kv_ok_streamD(2,7) [OF kv(1), of 0] kv(3,4,6) by simp_all
  have pos: "pos ?c ! 0 = 7" "pos ?c ! 1 = -1"
    using abs_cells_nth [of 0 ?c] abs_cells_nth [of 1 ?c] c by (simp_all add: free_cell_def)
  have use: "usable kv ?c i \<longleftrightarrow> i = 1" if "i < 2" for i
    using that kv(2) pos by (auto simp: usable_def less_2_cases_iff kv_is_masked_swa_def is_masked_swa_def)
  have u: "slot_seqs kv demo_ubatch = 1" "slot_tokens kv demo_ubatch = 1" "run_cells kv demo_ubatch 0 = ?c"
    using kv(3,5) by (simp_all add: slot_seqs_def slot_tokens_def run_cells_def run_stream_def demo_ubatch_def empty_ubatch_def)
  have "{i. i < 2 \<and> usable kv ?c i} = {1}" using use by auto
  then have fits: "stream_fits kv False 1 ?c" by (simp add: stream_fits_def c(1))
  have swa: "swa_ok kv" using kv(2) by (simp add: swa_ok_def)
  from find_slot_correct [OF kv(1) swa demo_ubatch_ok [OF kv(3,5)], of False] fits u obtain sl where
    sl: "find_slot kv demo_ubatch False = Some sl" "slot_ok kv demo_ubatch False sl" by auto
  then obtain j where "sl_idxs sl = [[j]]" "j < 2" "usable kv ?c j"
    using u c(1) by (auto simp: slot_ok_def idxs_ok_def length_Suc_conv)
  with use sl(1) show ?thesis by auto
qed

end
