(* ===== verification/KvInputs.thy ===== *)
theory KvInputs
  imports KvSlots
begin

text \<open>
  The inputs that \<^verbatim>\<open>src/llama-kv-cache.cpp\<close> writes for the attention graph: the number of cells it looks at and the
  attention mask.
\<close>

section \<open>Padding\<close>

lemma and_not_mask: "w AND NOT (mask e) = w - take_bit e (w :: u32)"
proof -
  have "w = (w AND NOT (mask e)) + take_bit e w"
    by (subst disjunctive_add [symmetric, THEN sym]) (auto simp: bit_simps intro!: bit_eqI)
  then show ?thesis by (metis add_diff_cancel_right')
qed

lemma GGML_PAD_eq:
  assumes "n = 2 ^ e" and "x + n < 2 ^ 32"
  shows "GGML_PAD x n = (x + n - 1) div n * n"
proof -
  let ?w = "of_nat x + of_nat n - 1 :: u32"
  have n: "n \<ge> 1" using assms(1) by simp
  have w: "?w = of_nat (x + n - 1)" using n by (simp add: of_nat_diff)
  then have u: "unat ?w = x + n - 1" using assms(2) by (simp only: unat_of_nat) (simp add: take_bit_nat_eq_self)
  have m: "of_nat n - 1 = (mask e :: u32)" by (simp add: assms(1) mask_eq_exp_minus_1)
  have le: "take_bit e ?w \<le> ?w" by (simp add: word_le_nat_alt unsigned_take_bit_eq take_bit_nat_less_eq_self)
  have "GGML_PAD x n = unat (?w - take_bit e ?w)" unfolding GGML_PAD_def m and_not_mask ..
  also have "\<dots> = unat ?w - unat (take_bit e ?w)" by (rule unat_sub [OF le])
  also have "unat (take_bit e ?w) = (x + n - 1) mod n" unfolding unsigned_take_bit_eq u by (simp add: take_bit_eq_mod assms(1))
  also have "unat ?w - (x + n - 1) mod n = (x + n - 1) div n * n" unfolding u by (metis minus_mod_eq_div_mult)
  finally show ?thesis .
qed

lemma GGML_PAD_ge:
  assumes "n = 2 ^ e" and "x + n < 2 ^ 32"
  shows "x \<le> GGML_PAD x n"
proof -
  have "n > 0" using assms(1) by simp
  then have "x + n - 1 < (x + n - 1) div n * n + n" using mod_less_divisor [of n "x + n - 1"] div_mult_mod_eq [of "x + n - 1" n] by linarith
  then show ?thesis unfolding GGML_PAD_eq [OF assms] using \<open>n > 0\<close> by linarith
qed

section \<open>The number of cells\<close>

lemma get_n_kv_fold:
  "fold (\<lambda>st res. max (f st) res) xs (r :: nat) = Max (insert r (f ` set xs))"
proof (induction xs arbitrary: r)
  case (Cons x xs)
  then show ?case by (cases "xs = []") (simp_all add: max.left_commute max.commute max.assoc)
qed simp

lemma get_n_kv_covers_used:
  assumes ok: "kv_ok kv" and pad: "max (kc_n_pad kv) 256 = 2 ^ e" and size: "kv_size kv + max (kc_n_pad kv) 256 < 2 ^ 32"
    and strm: "\<And>st. st \<in> set (sl_strm sl) \<Longrightarrow> st < kc_n_stream kv"
  shows "get_n_kv sl kv \<le> kv_size kv \<and>
    (\<forall>st \<in> set (sl_strm sl). \<forall>i. get_n_kv sl kv \<le> i \<longrightarrow> i < kv_size kv \<longrightarrow> a_pos (abs_kv kv ! st ! i) = -1)"
proof -
  define f where "f st = (let c = kc_cells kv ! st in min (cells_size c) (max (max (kc_n_pad kv) 256) (GGML_PAD (used_max_p1 c) (max (kc_n_pad kv) 256))))" for st
  have eq: "get_n_kv sl kv = Max (insert 0 (f ` set (sl_strm sl)))"
    using get_n_kv_fold [of f "sl_strm sl" 0] by (simp add: get_n_kv_def f_def Let_def)
  have le: "f st \<le> kv_size kv" if "st \<in> set (sl_strm sl)" for st
    using kv_ok_streamD(2) [OF ok strm [OF that]] by (simp add: f_def Let_def)
  have "a_pos (abs_kv kv ! st ! i) = -1" if st: "st \<in> set (sl_strm sl)" and i: "get_n_kv sl kv \<le> i" "i < kv_size kv" for st i
  proof -
    let ?c = "kc_cells kv ! st"
    note S = kv_ok_streamD [OF ok strm [OF st]]
    have "f st \<le> i" using i(1) st by (simp add: eq)
    then have "GGML_PAD (used_max_p1 ?c) (max (kc_n_pad kv) 256) \<le> i" using i(2) S(2) by (auto simp: f_def Let_def min_def split: if_splits)
    moreover have "used_max_p1 ?c \<le> GGML_PAD (used_max_p1 ?c) (max (kc_n_pad kv) 256)"
      using used_max_p1_bound(1) [OF S(1)] S(2) size by (intro GGML_PAD_ge [OF pad]) simp
    ultimately have "pos ?c ! i = -1" using used_max_p1_bound(2) [OF S(1)] i(2) S(2) by simp
    then show ?thesis using S(2,7) i(2) by simp
  qed
  then show ?thesis using le by (auto simp: eq)
qed

section \<open>The mask\<close>

text \<open>What token \<open>i\<close> attends to: cells of its sequence, not in the future and not outside the window.\<close>

definition attends :: "kv_cache \<Rightarrow> llama_ubatch \<Rightarrow> bool \<Rightarrow> nat \<Rightarrow> nat \<Rightarrow> bool" where
  "attends kv u causal i j \<longleftrightarrow>
     (let sid = u_seq_id u ! i ! 0; a = abs_kv kv ! (kc_seq_to_stream kv ! nat sid) ! j; p1 = u_pos u ! i in
      nat sid \<in> a_seq a \<and> (causal \<longrightarrow> a_pos a \<le> p1) \<and>
      \<not> (causal \<and> is_pos_2d u \<and> a_pos a = p1 \<and> is_2d_gt (a_ext a) (u_pos u ! (i + u_n_tokens u * 2)) (u_pos u ! (i + u_n_tokens u))) \<and>
      kv_is_masked_swa kv (a_pos a) p1 = Some False)"

definition mask_value :: "kv_cache \<Rightarrow> llama_ubatch \<Rightarrow> bool \<Rightarrow> nat \<Rightarrow> nat \<Rightarrow> mask_val" where
  "mask_value kv u causal i j =
     (if attends kv u causal i j
      then Bias (if kc_use_alibi kv then - \<bar>a_pos (abs_kv kv ! (kc_seq_to_stream kv ! nat (u_seq_id u ! i ! 0)) ! j) - u_pos u ! i\<bar> else 0)
      else NegInf)"

text \<open>Hence the graph looks at every cell a token attends to.\<close>

lemma attended_cell_in_view:
  assumes "kv_ok kv" and "max (kc_n_pad kv) 256 = 2 ^ e" and "kv_size kv + max (kc_n_pad kv) 256 < 2 ^ 32"
    and "\<And>st. st \<in> set (sl_strm sl) \<Longrightarrow> st < kc_n_stream kv"
    and seq: "valid_seq kv (u_seq_id u ! i ! 0)" and st: "kc_seq_to_stream kv ! nat (u_seq_id u ! i ! 0) \<in> set (sl_strm sl)"
    and "attends kv u causal i j" and j: "j < kv_size kv"
  shows "j < get_n_kv sl kv"
proof (rule ccontr)
  assume "\<not> j < get_n_kv sl kv"
  then have "a_pos (abs_kv kv ! (kc_seq_to_stream kv ! nat (u_seq_id u ! i ! 0)) ! j) = -1"
    using get_n_kv_covers_used [OF assms(1-4)] st j by simp
  moreover note S = kv_ok_streamD [OF assms(1) valid_seqD(3) [OF assms(1) seq]]
  ultimately show False using assms(7) j S(1,2,7) by (auto simp: attends_def Let_def kv_inv_def cells_wf_def cell_wf_def)
qed

lemma swa_total: "0 \<le> p0 \<Longrightarrow> 0 \<le> p1 \<Longrightarrow> kc_swa_type kv = SWA_CHUNKED \<longrightarrow> kc_n_swa kv \<noteq> 0 \<Longrightarrow> \<exists>b. kv_is_masked_swa kv p0 p1 = Some b"
  by (cases "kc_swa_type kv") (auto simp: kv_is_masked_swa_def is_masked_swa_def Let_def)

lemma mask_entry_eq:
  assumes ok: "kv_ok kv" and seq: "valid_seq kv (u_seq_id u ! i ! 0)" and p1: "0 \<le> u_pos u ! i" and j: "j < kv_size kv"
    and swa: "kc_swa_type kv = SWA_CHUNKED \<longrightarrow> kc_n_swa kv \<noteq> 0"
  shows "mask_entry kv u causal i j = Some (mask_value kv u causal i j)"
proof -
  let ?s = "u_seq_id u ! i ! 0"
  let ?st = "kc_seq_to_stream kv ! nat ?s"
  let ?c = "kc_cells kv ! ?st"
  note V = valid_seqD [OF ok seq] and S = kv_ok_streamD [OF ok valid_seqD(3) [OF ok seq]]
  have jc: "j < cells_size ?c" using j S(2) by simp
  have wf: "cell_wf ?c j" using S(1) jc by (simp add: kv_inv_def cells_wf_def)
  have a: "abs_kv kv ! ?st ! j = \<lparr>a_pos = pos ?c ! j, a_ext = ext ?c ! j, a_shift = shift ?c ! j, a_seq = seq ?c ! j\<rparr>" using S(7) jc by simp
  show ?thesis
  proof (cases "pos ?c ! j = -1")
    case True
    then show ?thesis using seq jc a wf by (simp add: mask_entry_def is_empty_def mask_value_def attends_def Let_def cell_wf_def)
  next
    case False
    then have p0: "0 \<le> pos ?c ! j" using wf by (simp add: cell_wf_def)
    obtain b where b: "kv_is_masked_swa kv (pos ?c ! j) (u_pos u ! i) = Some b" using swa_total [OF p0 p1 swa] by blast
    show ?thesis using seq jc V(2) a p0 b False
      by (auto simp: mask_entry_def is_empty_def seq_has_def pos_get_def ext_get_def mask_value_def attends_def Let_def)
  qed
qed

lemma mask_fold:
  assumes f: "\<And>x. x \<in> set xs \<Longrightarrow> f x = Some (g x) \<and> key x < n" and inj: "inj_on key (set xs)"
  shows "\<exists>out. foldM (\<lambda>x d. do { m \<leftarrow> f x; case m of NegInf \<Rightarrow> Some d | Bias b \<Rightarrow> do { assert_opt (key x < length d); Some (d[key x := Bias b]) } })
      xs (replicate n NegInf) = Some out \<and>
    length out = n \<and> (\<forall>x \<in> set xs. out ! key x = g x) \<and> (\<forall>k < n. k \<notin> key ` set xs \<longrightarrow> out ! k = NegInf)"
proof (rule foldM_inv [where P = "\<lambda>ds d. length d = n \<and> (\<forall>x \<in> set ds. d ! key x = g x) \<and> (\<forall>k < n. k \<notin> key ` set ds \<longrightarrow> d ! k = NegInf)"])
  show "length (replicate n NegInf) = n \<and> (\<forall>x \<in> set []. replicate n NegInf ! key x = g x) \<and> (\<forall>k < n. k \<notin> key ` set [] \<longrightarrow> replicate n NegInf ! k = NegInf)"
    by simp
next
  fix ds x todo d
  assume xs: "xs = ds @ x # todo"
    and P: "length d = n \<and> (\<forall>x \<in> set ds. d ! key x = g x) \<and> (\<forall>k < n. k \<notin> key ` set ds \<longrightarrow> d ! k = NegInf)"
  have x: "f x = Some (g x)" "key x < n" using f xs by auto
  have same: "key y = key x \<longleftrightarrow> y = x" if "y \<in> set ds" for y using inj that xs by (auto simp: inj_on_def)
  have new: "d ! key x = NegInf \<or> x \<in> set ds" using P x(2) same by (metis imageE)
  show "\<exists>d'. do { m \<leftarrow> f x; case m of NegInf \<Rightarrow> Some d | Bias b \<Rightarrow> do { assert_opt (key x < length d); Some (d[key x := Bias b]) } } = Some d' \<and>
      length d' = n \<and> (\<forall>y \<in> set (ds @ [x]). d' ! key y = g y) \<and> (\<forall>k < n. k \<notin> key ` set (ds @ [x]) \<longrightarrow> d' ! k = NegInf)"
  proof (cases "g x")
    case NegInf
    then show ?thesis using P x new by auto
  next
    case (Bias b)
    have "d[key x := Bias b] ! key y = g y" if "y \<in> set (ds @ [x])" for y
      using that P x(2) same [of y] Bias by (cases "y = x") (auto simp: nth_list_update)
    then show ?thesis using P x Bias by (intro exI [of _ "d[key x := Bias b]"]) (auto simp: nth_list_update)
  qed
qed

lemma row_key_inj:
  assumes eq: "n * (s * p + a) + j = n * (s' * p + a') + (j' :: nat)" and "j < n" "j' < n" "a < p" "a' < p"
  shows "s = s' \<and> a = a' \<and> j = j'"
proof -
  have "s * p + a = s' * p + a'" "j = j'" using arg_cong [OF eq, of "\<lambda>x. x div n"] arg_cong [OF eq, of "\<lambda>x. x mod n"] assms(2,3) by simp_all
  moreover have "(s * p + a) div p = s" "(s * p + a) mod p = a" "(s' * p + a') div p = s'" "(s' * p + a') mod p = a'"
    using assms(4,5) by simp_all
  ultimately show ?thesis by metis
qed

lemma row_key_less:
  assumes "s < m" "a < p" "j < (n :: nat)"
  shows "n * (s * p + a) + j < n * p * m"
proof -
  have "s * p + a + 1 \<le> m * p" using assms(1,2) mult_le_mono1 [of "Suc s" m p] by simp
  then have "n * (s * p + a + 1) \<le> n * (m * p)" by (rule mult_le_mono2)
  then show ?thesis using assms(3) by (simp add: algebra_simps)
qed

lemma stream_token_less:
  assumes "s < m" "ii < n div m" "n mod m = (0 :: nat)"
  shows "s * (n div m) + ii < n"
proof -
  have "s * (n div m) + ii < Suc s * (n div m)" using assms(2) by simp
  also have "\<dots> \<le> m * (n div m)" using assms(1) by (intro mult_le_mono1) simp
  also have "\<dots> = n" using assms(3) by (metis add.right_neutral mult_div_mod_eq)
  finally show ?thesis .
qed

text \<open>The visited (stream, token, cell) triples and the buffer index of each.\<close>

definition mask_cells :: "nat \<Rightarrow> nat \<Rightarrow> nat \<Rightarrow> (nat \<times> nat \<times> nat) list" where
  "mask_cells n_kv n n_stream = concat (map (\<lambda>s. concat (map (\<lambda>ii. map (\<lambda>j. (s, ii, j)) [0..<n_kv]) [0..<n])) [0..<n_stream])"

definition mask_key :: "nat \<Rightarrow> nat \<Rightarrow> nat \<times> nat \<times> nat \<Rightarrow> nat" where
  "mask_key n_kv p = (\<lambda>(s, ii, j). n_kv * (s * p + ii) + j)"

lemma set_mask_cells [simp]: "(s, ii, j) \<in> set (mask_cells n_kv n n_stream) \<longleftrightarrow> s < n_stream \<and> ii < n \<and> j < n_kv"
  by (auto simp: mask_cells_def image_iff)

lemma mask_key_inj:
  assumes "n \<le> p"
  shows "inj_on (mask_key n_kv p) (set (mask_cells n_kv n n_stream))"
proof (rule inj_onI)
  fix x y assume "x \<in> set (mask_cells n_kv n n_stream)" "y \<in> set (mask_cells n_kv n n_stream)" "mask_key n_kv p x = mask_key n_kv p y"
  moreover obtain s ii j s' ii' j' where "x = (s, ii, j)" "y = (s', ii', j')" by (metis prod_cases3)
  ultimately show "x = y" using row_key_inj [of n_kv s p ii j s' ii' j'] assms by (auto simp: mask_key_def)
qed

lemma mask_key_pad:
  assumes "n \<le> p" "n \<le> ii" "ii < p" "j < n_kv"
  shows "mask_key n_kv p (s, ii, j) \<notin> mask_key n_kv p ` set (mask_cells n_kv n n_stream)"
proof
  assume "mask_key n_kv p (s, ii, j) \<in> mask_key n_kv p ` set (mask_cells n_kv n n_stream)"
  then obtain s' ii' j' where y: "(s', ii', j') \<in> set (mask_cells n_kv n n_stream)" "mask_key n_kv p (s, ii, j) = mask_key n_kv p (s', ii', j')" by auto
  then have "ii = ii'" using row_key_inj [of n_kv s p ii j s' ii' j'] assms by (auto simp: mask_key_def)
  then show False using y(1) assms(2) by simp
qed

lemma set_input_kq_mask_fold:
  assumes "n_stream \<noteq> 0" and "u_n_tokens u mod n_stream = 0"
  shows "set_input_kq_mask kv u causal n_kv n_stream data =
    foldM (\<lambda>x d. do { m \<leftarrow> (case x of (s, ii, j) \<Rightarrow> mask_entry kv u causal (s * (u_n_tokens u div n_stream) + ii) j);
        case m of NegInf \<Rightarrow> Some d
        | Bias b \<Rightarrow> do { assert_opt (mask_key n_kv (GGML_PAD (u_n_tokens u div n_stream) GGML_KQ_MASK_PAD) x < length d);
            Some (d[mask_key n_kv (GGML_PAD (u_n_tokens u div n_stream) GGML_KQ_MASK_PAD) x := Bias b]) } })
      (mask_cells n_kv (u_n_tokens u div n_stream) n_stream) (replicate (length data) NegInf)"
  using assms unfolding set_input_kq_mask_def mask_cells_def Let_def
  by (simp, intro arg_cong [where f = "\<lambda>f. foldM f _ _"] ext) (auto simp: mask_key_def)

definition mask_index :: "llama_ubatch \<Rightarrow> nat \<Rightarrow> nat \<Rightarrow> nat \<Rightarrow> nat \<Rightarrow> nat \<Rightarrow> nat" where
  "mask_index u n_kv n_stream s ii j = n_kv * (s * GGML_PAD (u_n_tokens u div n_stream) GGML_KQ_MASK_PAD + ii) + j"

text \<open>C30: Where every token of the ubatch has a valid sequence and a non-negative position, \<^verbatim>\<open>set_input_kq_mask\<close> fills the mask
  buffer without failing an assertion: the entry of a token and a cell is the bias exactly when the token attends to the cell (the cell
  holds its sequence, is not in its future and not outside its attention window) and minus infinity otherwise, and the rows that pad each
  stream to a multiple of 64 are minus infinity throughout, whatever the buffer held before.\<close>

theorem kq_mask_correct:
  assumes "kv_ok kv" and "n_stream \<noteq> 0" and "u_n_tokens u mod n_stream = 0" and "n_kv \<le> kv_size kv"
    and "\<forall>i < u_n_tokens u. valid_seq kv (u_seq_id u ! i ! 0) \<and> 0 \<le> u_pos u ! i"
    and "kc_swa_type kv = SWA_CHUNKED \<longrightarrow> kc_n_swa kv \<noteq> 0"
    and "u_n_tokens u div n_stream + 64 < 2 ^ 32"
    and "length data = n_kv * GGML_PAD (u_n_tokens u div n_stream) GGML_KQ_MASK_PAD * n_stream"
  shows "\<exists>out. set_input_kq_mask kv u causal n_kv n_stream data = Some out \<and> length out = length data \<and>
    (\<forall>s < n_stream. \<forall>ii < GGML_PAD (u_n_tokens u div n_stream) GGML_KQ_MASK_PAD. \<forall>j < n_kv.
       out ! mask_index u n_kv n_stream s ii j =
         (if ii < u_n_tokens u div n_stream then mask_value kv u causal (s * (u_n_tokens u div n_stream) + ii) j else NegInf))"
proof -
  define n where "n = u_n_tokens u div n_stream"
  define p where "p = GGML_PAD n GGML_KQ_MASK_PAD"
  define f where "f = (\<lambda>(s, ii, j). mask_entry kv u causal (s * n + ii) j)"
  define g where "g = (\<lambda>(s, ii, j). mask_value kv u causal (s * n + ii) j)"
  let ?xs = "mask_cells n_kv n n_stream" and ?key = "mask_key n_kv p"
  have np: "n \<le> p" using assms(7) unfolding p_def n_def GGML_KQ_MASK_PAD_def by (intro GGML_PAD_ge [of _ 6]) simp_all
  have ok: "f x = Some (g x) \<and> ?key x < length data" if "x \<in> set ?xs" for x
  proof -
    obtain s ii j where x: "x = (s, ii, j)" by (cases x)
    then have b: "s < n_stream" "ii < n" "j < n_kv" using that by auto
    then have i: "s * n + ii < u_n_tokens u" using stream_token_less [OF b(1) b(2) [unfolded n_def] assms(3)] by (simp add: n_def)
    have "f x = Some (g x)" using mask_entry_eq [OF assms(1)] assms(4,5,6) i b(3) by (simp add: x f_def g_def)
    moreover have "?key x < length data" using row_key_less [OF b(1) less_le_trans [OF b(2) np] b(3)] assms(8)
      by (simp add: x mask_key_def n_def p_def)
    ultimately show ?thesis by simp
  qed
  obtain out where out: "foldM (\<lambda>x d. do { m \<leftarrow> f x; case m of NegInf \<Rightarrow> Some d
          | Bias b \<Rightarrow> do { assert_opt (?key x < length d); Some (d[?key x := Bias b]) } })
      ?xs (replicate (length data) NegInf) = Some out" "length out = length data"
      "\<forall>x \<in> set ?xs. out ! ?key x = g x" "\<forall>k < length data. k \<notin> ?key ` set ?xs \<longrightarrow> out ! k = NegInf"
    using mask_fold [of ?xs f g ?key "length data", OF _ mask_key_inj [OF np]] ok by (elim meta_impE exE conjE) (assumption, rule that)
  have run: "set_input_kq_mask kv u causal n_kv n_stream data = Some out"
    using out(1) unfolding set_input_kq_mask_fold [OF assms(2,3)] f_def n_def p_def .
  have entry: "out ! mask_index u n_kv n_stream s ii j = (if ii < n then mask_value kv u causal (s * n + ii) j else NegInf)"
    if b: "s < n_stream" "ii < p" "j < n_kv" for s ii j
  proof -
    have k: "mask_index u n_kv n_stream s ii j = ?key (s, ii, j)" by (simp add: mask_index_def mask_key_def n_def p_def)
    have "?key (s, ii, j) < length data" using row_key_less [OF b] assms(8) by (simp add: mask_key_def n_def p_def)
    then show ?thesis using out(3) bspec [OF out(3), of "(s, ii, j)"] out(4) mask_key_pad [OF np _ b(2,3), of s n_stream] b
      unfolding k by (cases "ii < n") (simp_all add: g_def)
  qed
  show ?thesis using run out(2) entry unfolding n_def p_def by blast
qed

theorem kq_mask_correct_witness:
  "\<exists>kv out b. set_input_kq_mask kv demo_ubatch True 2 1 (replicate 128 (Bias 5)) = Some out \<and>
    out ! mask_index demo_ubatch 2 1 0 0 0 = Bias b \<and> out ! mask_index demo_ubatch 2 1 0 0 1 = NegInf \<and>
    out ! mask_index demo_ubatch 2 1 0 63 0 = NegInf"
proof -
  obtain kv where kv: "kv_ok kv" "kc_swa_type kv = SWA_NONE" "kc_n_stream kv = 1" "kv_size kv = 2"
    "kc_seq_to_stream kv = replicate LLAMA_MAX_SEQ 0" "abs_kv kv = [[demo_cell, free_cell ext_reset]]"
    using demo_kv [of True] by auto
  have u: "u_n_tokens demo_ubatch = 1" "u_seq_id demo_ubatch = [[0]]" "u_pos demo_ubatch = [8]" by (simp_all add: demo_ubatch_def)
  have pad: "GGML_PAD 1 GGML_KQ_MASK_PAD = 64" using GGML_PAD_eq [of 64 6 1] by (simp add: GGML_KQ_MASK_PAD_def)
  have seq: "valid_seq kv 0" using kv(5) by (simp add: valid_seq_def)
  obtain out where out: "set_input_kq_mask kv demo_ubatch True 2 1 (replicate 128 (Bias 5)) = Some out"
      "\<forall>s < 1. \<forall>ii < 64. \<forall>j < 2. out ! mask_index demo_ubatch 2 1 s ii j =
         (if ii < 1 then mask_value kv demo_ubatch True (s * 1 + ii) j else NegInf)"
    using kq_mask_correct [OF kv(1), of 1 demo_ubatch 2 "replicate 128 (Bias 5)" True] kv(2,4) u pad seq by auto
  obtain b where b: "mask_value kv demo_ubatch True 0 0 = Bias b"
    using kv(2,5,6) u by (simp add: mask_value_def attends_def Let_def is_pos_2d_def demo_ubatch_def empty_ubatch_def kv_is_masked_swa_def is_masked_swa_def)
  have e: "mask_value kv demo_ubatch True 0 1 = NegInf"
    using kv(5,6) u by (simp add: mask_value_def attends_def Let_def free_cell_def)
  have "out ! mask_index demo_ubatch 2 1 0 0 0 = Bias b" "out ! mask_index demo_ubatch 2 1 0 0 1 = NegInf"
    "out ! mask_index demo_ubatch 2 1 0 63 0 = NegInf" using out(2) b e by simp_all
  with out(1) show ?thesis by blast
qed

end
