(* ===== verification/KvPlace.thy ===== *)
theory KvPlace
  imports KvSlots
begin

text \<open>
  Placing a micro-batch: \<^verbatim>\<open>apply_ubatch\<close> writes the tokens into the cells of a slot, drops what the sliding
  window overwrites and keeps the positions of every sequence without holes; the dry run \<^verbatim>\<open>prepare\<close>
  undoes it.
\<close>

section \<open>One token\<close>

definition token_seqs :: "llama_ubatch \<Rightarrow> nat \<Rightarrow> int list" where
  "token_seqs u i = take (nat (u_n_seq_id u ! i)) (u_seq_id u ! i)"

text \<open>What \<^verbatim>\<open>apply_ubatch\<close> relies on for a token of a stream.\<close>

definition token_ok :: "kv_cache \<Rightarrow> nat \<Rightarrow> llama_ubatch \<Rightarrow> nat \<Rightarrow> bool" where
  "token_ok kv st u i \<longleftrightarrow> 0 \<le> u_pos u ! i \<and> token_seqs u i \<noteq> [] \<and> distinct (token_seqs u i) \<and>
     (\<forall>s \<in> set (token_seqs u i). valid_seq kv s \<and> kc_seq_to_stream kv ! nat s = st)"

definition token_cell :: "llama_ubatch \<Rightarrow> nat \<Rightarrow> acell \<Rightarrow> acell" where
  "token_cell u i a =
     \<lparr>a_pos = u_pos u ! i,
      a_ext = (if is_pos_2d u then \<lparr>ext_x = u_pos u ! (i + u_n_tokens u * 2), ext_y = u_pos u ! (i + u_n_tokens u)\<rparr>
               else if a_pos a = -1 then a_ext a else ext_reset),
      a_shift = 0, a_seq = nat ` set (token_seqs u i)\<rparr>"

definition evictable :: "acell \<Rightarrow> bool" where
  "evictable a \<longleftrightarrow> a_pos a = -1 \<or> card (a_seq a) = 1"

lemma seq_add_loop:
  assumes "kv_inv c" and "idx < cells_size c" and "pos c ! idx \<noteq> -1" and "distinct ss"
    and "\<forall>s \<in> set ss. 0 \<le> s \<and> nat s < LLAMA_MAX_SEQ \<and> nat s \<notin> seq c ! idx"
  shows "\<exists>c'. foldM (\<lambda>s c. do { assert_opt (s \<ge> 0); cells_seq_add idx (nat s) c }) ss c = Some c' \<and>
    cell_op c c' idx ((abs_cells c ! idx)\<lparr>a_seq := a_seq (abs_cells c ! idx) \<union> nat ` set ss\<rparr>)"
  using assms
proof (induction ss arbitrary: c)
  case Nil
  then show ?case by (auto simp: cell_op_def)
next
  case (Cons s ss)
  let ?A = "abs_cells c ! idx"
  from Cons.prems obtain c1 where c1: "cells_seq_add idx (nat s) c = Some c1"
    and op1: "cell_op c c1 idx (?A\<lparr>a_seq := insert (nat s) (seq c ! idx)\<rparr>)"
    using cells_seq_add_op [of c idx "nat s"] by auto
  note size = cell_op_size [OF op1]
  have at: "abs_cells c1 ! idx = ?A\<lparr>a_seq := insert (nat s) (seq c ! idx)\<rparr>"
    using op1 Cons.prems(2) by (simp add: cell_op_def del: abs_cells_nth)
  then have f: "pos c1 ! idx = pos c ! idx" "seq c1 ! idx = insert (nat s) (seq c ! idx)"
    using Cons.prems(2) size by auto
  have "nat s' \<notin> seq c1 ! idx" if "s' \<in> set ss" for s'
  proof -
    have "s' \<noteq> s" "0 \<le> s'" "0 \<le> s" using that Cons.prems(4,5) by auto
    then show ?thesis using Cons.prems(5) that by (auto simp: f(2) nat_eq_iff)
  qed
  then have pre: "\<forall>s \<in> set ss. 0 \<le> s \<and> nat s < LLAMA_MAX_SEQ \<and> nat s \<notin> seq c1 ! idx" using Cons.prems(5) by simp
  have "kv_inv c1" "idx < cells_size c1" "pos c1 ! idx \<noteq> -1" "distinct ss"
    using op1 size f Cons.prems by (auto simp: cell_op_def)
  from Cons.IH [OF this pre] obtain c' where c': "foldM (\<lambda>s c. do { assert_opt (s \<ge> 0); cells_seq_add idx (nat s) c }) ss c1 = Some c'"
    and op: "cell_op c1 c' idx ((abs_cells c1 ! idx)\<lparr>a_seq := a_seq (abs_cells c1 ! idx) \<union> nat ` set ss\<rparr>)" by blast
  have "foldM (\<lambda>s c. do { assert_opt (s \<ge> 0); cells_seq_add idx (nat s) c }) (s # ss) c = Some c'"
    using c1 c' Cons.prems(5) by simp
  moreover have "cell_op c c' idx (?A\<lparr>a_seq := a_seq ?A \<union> nat ` set (s # ss)\<rparr>)"
    using op op1 Cons.prems(2) unfolding cell_op_def at by (simp add: insert_commute Un_insert_right)
  ultimately show ?case by blast
qed

lemma cell_op_trans: "cell_op c c1 i a \<Longrightarrow> cell_op c1 c2 i b \<Longrightarrow> cell_op c c2 i b"
  by (simp add: cell_op_def)

lemma cell_op_at:
  assumes "cell_op c c' i a" and "i < cells_size c"
  shows "kv_inv c'" "i < cells_size c'" "abs_cells c' ! i = a"
  using assms cell_op_size [OF assms(1)] by (auto simp: cell_op_def simp del: abs_cells_nth)

text \<open>The overwritten position of the only sequence of the cell.\<close>

definition note_evicted :: "acell \<Rightarrow> int list \<Rightarrow> int list" where
  "note_evicted a rm =
     (if a_pos a = -1 then rm else rm[the_elem (a_seq a) := max (rm ! the_elem (a_seq a)) (a_pos a)])"

lemma evict_cell_op:
  assumes inv: "kv_inv c" and i: "idx < cells_size c" and a: "a = abs_cells c ! idx" and ev: "evictable a"
  shows "\<exists>c'. evict_cell idx (rm, c) = Some (note_evicted a rm, c') \<and>
    cell_op c c' idx (if a_pos a = -1 then a else free_cell ext_reset)"
proof (cases "pos c ! idx = -1")
  case True
  then show ?thesis using i cell_op_refl [OF inv i a] by (simp add: evict_cell_def is_empty_def note_evicted_def a)
next
  case False
  then obtain s where s: "seq c ! idx = {s}" using ev i by (auto simp: evictable_def a card_1_singleton_iff)
  have s256: "s < LLAMA_MAX_SEQ" using kv_inv_cellD(2) [OF inv i] s by simp
  obtain c' where "cells_rm idx c = Some c'" "cell_op c c' idx (free_cell ext_reset)"
    using cells_rm_op [OF inv i False] by blast
  then show ?thesis using False i s seq_get_singleton [OF i s s256] kv_inv_cellD(1) [OF inv i]
    by (simp add: evict_cell_def is_empty_def seq_count_def pos_get_def note_evicted_def a)
qed

lemma place_token_op:
  assumes inv: "kv_inv c" and i: "idx < cells_size c" and a: "a = abs_cells c ! idx" and ev: "evictable a"
    and ok: "kv_ok kv" and tok: "token_ok kv st u i"
  shows "\<exists>c'. place_token u i idx (rm, c) = Some (note_evicted a rm, c') \<and> cell_op c c' idx (token_cell u i a)"
proof -
  let ?b = "if a_pos a = -1 then a else free_cell ext_reset" and ?p = "u_pos u ! i"
  let ?e = "\<lparr>ext_x = u_pos u ! (i + u_n_tokens u * 2), ext_y = u_pos u ! (i + u_n_tokens u)\<rparr>"
  obtain c1 where c1: "evict_cell idx (rm, c) = Some (note_evicted a rm, c1)" and op1: "cell_op c c1 idx ?b"
    using evict_cell_op [OF inv i a ev] by blast
  note at1 = cell_op_at [OF op1 i]
  have free: "a_seq ?b = {}" "a_shift ?b = 0" "a_pos ?b = -1"
    using kv_inv_cellD(3) [OF inv i] i by (auto simp: a)
  obtain c2 where c2: "pos_set idx ?p c1 = Some c2" and op2: "cell_op c1 c2 idx (?b\<lparr>a_pos := ?p\<rparr>)"
    using cell_exec_refines [OF at1(1,2), of "CPosSet ?p"] at1(3) free(3) tok by (auto simp: token_ok_def simp del: abs_cells_nth)
  note at2 = cell_op_at [OF op2 at1(2)]
  let ?b3 = "?b\<lparr>a_pos := ?p, a_ext := if is_pos_2d u then ?e else a_ext ?b\<rparr>"
  obtain c3 where c3: "(if is_pos_2d u then ext_set idx ?e c2 else Some c2) = Some c3" and op3: "cell_op c2 c3 idx ?b3"
    using cell_exec_refines [OF at2(1,2), of "CExtSet ?e"] cell_op_refl [OF at2(1,2) refl] at2(3)
    by (cases "is_pos_2d u") (auto simp del: abs_cells_nth)
  note at3 = cell_op_at [OF op3 at2(2)]
  have f3: "pos c3 ! idx = ?p" "seq c3 ! idx = {}" 
    using arg_cong [OF at3(3), of a_pos] arg_cong [OF at3(3), of a_seq] at3(2) free(1) by simp_all
  have seqs: "\<forall>s \<in> set (token_seqs u i). 0 \<le> s \<and> nat s < LLAMA_MAX_SEQ \<and> nat s \<notin> seq c3 ! idx"
    using tok valid_seqD(1,2) [OF ok] f3(2) by (auto simp: token_ok_def)
  have "pos c3 ! idx \<noteq> -1" "distinct (token_seqs u i)" using tok f3(1) by (auto simp: token_ok_def)
  from seq_add_loop [OF at3(1,2) this seqs] obtain c4 where
    c4: "foldM (\<lambda>s c. do { assert_opt (s \<ge> 0); cells_seq_add idx (nat s) c }) (token_seqs u i) c3 = Some c4"
    and op4: "cell_op c3 c4 idx (?b3\<lparr>a_seq := a_seq ?b3 \<union> nat ` set (token_seqs u i)\<rparr>)" unfolding at3(3) by blast
  have "?b3\<lparr>a_seq := a_seq ?b3 \<union> nat ` set (token_seqs u i)\<rparr> = token_cell u i a"
    using free by (auto simp: token_cell_def)
  moreover have "place_token u i idx (rm, c) = Some (note_evicted a rm, c4)"
    using c1 c2 c3 c4 by (simp add: place_token_def token_seqs_def cong: if_cong)
  ultimately show ?thesis using cell_op_trans [OF cell_op_trans [OF cell_op_trans [OF op1 op2] op3] op4] by auto
qed

section \<open>The tokens of one stream\<close>

definition placed :: "llama_ubatch \<Rightarrow> nat \<Rightarrow> nat list \<Rightarrow> acell list \<Rightarrow> acell list" where
  "placed u b is A = fold (\<lambda>k B. B[is ! k := token_cell u (b + k) (A ! (is ! k))]) [0..<length is] A"

lemma length_placed [simp]: "length (placed u b is A) = length A"
  by (simp add: placed_def)

lemma placed_nth:
  assumes "distinct is" and "\<forall>i \<in> set is. i < length A"
  shows "k < length is \<Longrightarrow> placed u b is A ! (is ! k) = token_cell u (b + k) (A ! (is ! k))"
    and "j < length A \<Longrightarrow> j \<notin> set is \<Longrightarrow> placed u b is A ! j = A ! j"
proof -
  assume k: "k < length is"
  have "placed u b is A ! (is ! k) =
    (if is ! k \<in> nth is ` set [0..<length is] then token_cell u (b + k) (A ! (is ! k)) else A ! (is ! k))"
    unfolding placed_def using assms k by (intro fold_update_nth) (auto simp: nth_eq_iff_index_eq)
  then show "placed u b is A ! (is ! k) = token_cell u (b + k) (A ! (is ! k))" using k by auto
next
  assume j: "j < length A" "j \<notin> set is"
  have "placed u b is A ! j = (if j \<in> nth is ` set [0..<length is] then A ! j else A ! j)"
    unfolding placed_def using j by (intro fold_update_nth) auto
  then show "placed u b is A ! j = A ! j" by simp
qed

lemma place_loop:
  assumes inv: "kv_inv c" and dist: "distinct is" and cells: "\<forall>i \<in> set is. i < cells_size c \<and> evictable (abs_cells c ! i)"
    and ok: "kv_ok kv" and tok: "\<forall>k < length is. token_ok kv st u (b + k)"
  shows "\<exists>c'. foldM (\<lambda>k. place_token u (b + k) (is ! k)) [0..<length is] (rm, c) =
      Some (fold note_evicted (map (nth (abs_cells c)) is) rm, c') \<and> kv_inv c' \<and> abs_cells c' = placed u b is (abs_cells c)"
proof -
  let ?A = "abs_cells c"
  let ?Q = "\<lambda>m (rm', c'). kv_inv c' \<and> cells_size c' = cells_size c \<and> rm' = fold note_evicted (map (nth ?A) (take m is)) rm \<and>
    abs_cells c' = fold (\<lambda>k B. B[is ! k := token_cell u (b + k) (?A ! (is ! k))]) [0..<m] ?A"
  have "\<exists>x. foldM (\<lambda>k. place_token u (b + k) (is ! k)) [0..<length is] (rm, c) = Some x \<and> ?Q (length is) x"
  proof (rule foldM_upt_inv [where P = ?Q])
    show "?Q 0 (rm, c)" using inv by simp
  next
    fix k x assume k: "k < length is" and Q: "?Q k x"
    obtain rm' c' where x: "x = (rm', c')" by fastforce
    have c': "kv_inv c'" "is ! k < cells_size c'" using Q x cells k by auto
    have "fold (\<lambda>k B. B[is ! k := token_cell u (b + k) (?A ! (is ! k))]) [0..<k] ?A ! (is ! k) =
      (if is ! k \<in> nth is ` set [0..<k] then ?A ! (is ! k) else ?A ! (is ! k))"
      using k cells dist by (intro fold_update_nth) (auto simp: nth_eq_iff_index_eq)
    then have at: "?A ! (is ! k) = abs_cells c' ! (is ! k)" using Q x by auto
    have ev: "evictable (?A ! (is ! k))" using cells nth_mem [OF k] by blast
    from place_token_op [OF c' at ev ok, of st u "b + k" rm'] tok k obtain c'' where
      c'': "place_token u (b + k) (is ! k) (rm', c') = Some (note_evicted (?A ! (is ! k)) rm', c'')"
      and op: "cell_op c' c'' (is ! k) (token_cell u (b + k) (?A ! (is ! k)))" by blast
    have "?Q (Suc k) (note_evicted (?A ! (is ! k)) rm', c'')"
      using Q x op k cell_op_size [OF op] by (simp add: cell_op_def take_Suc_conv_app_nth)
    then show "\<exists>x'. place_token u (b + k) (is ! k) x = Some x' \<and> ?Q (Suc k) x'" using c'' x by blast
  qed
  then show ?thesis by (auto simp: placed_def)
qed

text \<open>The positions of a sequence in a stream after placing tokens there.\<close>

definition positions_in :: "acell list \<Rightarrow> nat \<Rightarrow> int set" where
  "positions_in A t = a_pos ` {a \<in> set A. t \<in> a_seq a}"

lemma placed_positions:
  assumes "distinct is" and "\<forall>i \<in> set is. i < length A"
  shows "positions_in (placed u b is A) t =
    {a_pos (A ! j) | j. j < length A \<and> j \<notin> set is \<and> t \<in> a_seq (A ! j)} \<union>
    {u_pos u ! (b + k) | k. k < length is \<and> t \<in> nat ` set (token_seqs u (b + k))}" (is "?L = ?O \<union> ?N")
proof -
  note nth = placed_nth [OF assms]
  have "?L = {a_pos (placed u b is A ! j) | j. j < length A \<and> t \<in> a_seq (placed u b is A ! j)}"
    by (force simp: positions_in_def in_set_conv_nth)
  also have "\<dots> = {a_pos (placed u b is A ! j) | j. j < length A \<and> j \<notin> set is \<and> t \<in> a_seq (placed u b is A ! j)} \<union>
    {a_pos (placed u b is A ! j) | j. j \<in> set is \<and> t \<in> a_seq (placed u b is A ! j)}" using assms(2) by blast
  also have "{a_pos (placed u b is A ! j) | j. j < length A \<and> j \<notin> set is \<and> t \<in> a_seq (placed u b is A ! j)} = ?O"
    using nth(2) [of _ u b] by (metis (lifting))
  also have "{a_pos (placed u b is A ! j) | j. j \<in> set is \<and> t \<in> a_seq (placed u b is A ! j)} = ?N"
    by (force simp: in_set_conv_nth nth(1) token_cell_def)
  finally show ?thesis .
qed

section \<open>The loop over the streams\<close>

definition evicted_from :: "acell list \<Rightarrow> nat \<Rightarrow> int set" where
  "evicted_from as t = a_pos ` {a \<in> set as. a_pos a \<noteq> -1 \<and> a_seq a = {t}}"

lemma evicted_from_simps [simp]:
  "evicted_from [] t = {}" "finite (evicted_from as t)"
  "evicted_from (a # as) t = (if a_pos a \<noteq> -1 \<and> a_seq a = {t} then {a_pos a} else {}) \<union> evicted_from as t"
  by (auto simp: evicted_from_def)

lemma Max_insert_max: "finite S \<Longrightarrow> Max (insert (max x y) S) = Max (insert x (insert y (S :: int set)))"
  by (cases "S = {}") (auto simp: max.assoc)

lemma fold_note_evicted:
  assumes "t < length rm" and "\<forall>a \<in> set as. evictable a"
  shows "fold note_evicted as rm ! t = Max (insert (rm ! t) (evicted_from as t))"
  using assms
proof (induction as arbitrary: rm)
  case (Cons a as)
  have len: "t < length (note_evicted a rm)" using Cons.prems by (simp add: note_evicted_def)
  have "note_evicted a rm ! t = (if a_pos a \<noteq> -1 \<and> a_seq a = {t} then max (rm ! t) (a_pos a) else rm ! t)"
    using Cons.prems by (cases "a_pos a = -1") (auto simp: note_evicted_def evictable_def card_1_singleton_iff nth_list_update,
      (metis nth_list_update_neq)+)
  then show ?case using Cons.IH [OF len] Cons.prems(2) by (simp add: Max_insert_max)
qed simp

text \<open>The cells the slot overwrites.\<close>

definition slot_cells :: "kv_cache \<Rightarrow> slot_info \<Rightarrow> nat \<Rightarrow> acell list" where
  "slot_cells kv sl m = concat (map (\<lambda>s. map (nth (abs_kv kv ! (sl_strm sl ! s))) (sl_idxs sl ! s)) [0..<m])"

text \<open>The tokens of each run are tokens of the stream of the run, and no two runs share a stream.\<close>

definition runs_ok :: "kv_cache \<Rightarrow> llama_ubatch \<Rightarrow> bool" where
  "runs_ok kv u \<longleftrightarrow> distinct (map (run_stream kv u) [0..<slot_seqs kv u]) \<and>
     (\<forall>s < slot_seqs kv u. \<forall>k < slot_tokens kv u. token_ok kv (run_stream kv u s) u (s * slot_tokens kv u + k))"

lemma usable_evictable: "usable kv c i \<Longrightarrow> i < cells_size c \<Longrightarrow> evictable (abs_cells c ! i)"
  by (auto simp: usable_def evictable_def)

lemma run_stream_less: "kv_ok kv \<Longrightarrow> ubatch_ok kv u \<Longrightarrow> s < slot_seqs kv u \<Longrightarrow> run_stream kv u s < kc_n_stream kv"
  by (auto simp: ubatch_ok_def seq_run_ok_def run_stream_def kv_ok_def)

lemma cell_owned_cong: "kc_seq_to_stream kv' = kc_seq_to_stream kv \<Longrightarrow> cell_owned kv' = cell_owned kv"
  by (simp add: cell_owned_def [abs_def])

lemma token_cell_owned: "token_ok kv st u i \<Longrightarrow> cell_owned kv st (token_cell u i a)"
  by (auto simp: token_ok_def cell_owned_def token_cell_def valid_seq_def)

lemma placed_owned:
  assumes "distinct is" and "\<forall>i \<in> set is. i < length A" and "\<forall>a \<in> set A. cell_owned kv st a"
    and "\<forall>k < length is. token_ok kv st u (b + k)" and "a \<in> set (placed u b is A)"
  shows "cell_owned kv st a"
proof -
  from assms(5) obtain j where j: "j < length A" "a = placed u b is A ! j" by (auto simp: in_set_conv_nth)
  show ?thesis
  proof (cases "j \<in> set is")
    case True
    then obtain k where "k < length is" "j = is ! k" by (auto simp: in_set_conv_nth)
    then show ?thesis using placed_nth(1) [OF assms(1,2)] token_cell_owned assms(4) j by metis
  qed (use placed_nth(2) [OF assms(1,2)] assms(3) j in auto)
qed

definition placed_streams :: "kv_cache \<Rightarrow> llama_ubatch \<Rightarrow> slot_info \<Rightarrow> nat \<Rightarrow> acell list list" where
  "placed_streams kv u sl m = fold (\<lambda>s K. K[sl_strm sl ! s :=
     placed u (s * slot_tokens kv u) (sl_idxs sl ! s) (abs_kv kv ! (sl_strm sl ! s))]) [0..<m] (abs_kv kv)"

lemma place_streams:
  assumes ok: "kv_ok kv" and u: "ubatch_ok kv u" and runs: "runs_ok kv u" and sl: "slot_ok kv u cont sl"
  shows "\<exists>kv'. foldM (place_stream u sl (slot_tokens kv u)) [0..<slot_seqs kv u] (rm, kv) =
      Some (fold note_evicted (slot_cells kv sl (slot_seqs kv u)) rm, kv') \<and> kv_ok kv' \<and>
    kc_seq_to_stream kv' = kc_seq_to_stream kv \<and> kc_n_stream kv' = kc_n_stream kv \<and> kv_size kv' = kv_size kv \<and>
    (\<exists>cs. kv' = kv\<lparr>kc_cells := cs\<rparr>) \<and> abs_kv kv' = placed_streams kv u sl (slot_seqs kv u)"
proof -
  let ?m = "slot_seqs kv u" and ?n = "slot_tokens kv u"
  let ?Q = "\<lambda>m (rm', kv'). kv_ok kv' \<and> kc_seq_to_stream kv' = kc_seq_to_stream kv \<and> kc_n_stream kv' = kc_n_stream kv \<and>
    kv_size kv' = kv_size kv \<and> (\<exists>cs. kv' = kv\<lparr>kc_cells := cs\<rparr>) \<and>
    rm' = fold note_evicted (slot_cells kv sl m) rm \<and> abs_kv kv' = placed_streams kv u sl m"
  have "\<exists>x. foldM (place_stream u sl ?n) [0..<?m] (rm, kv) = Some x \<and> ?Q ?m x"
  proof (rule foldM_upt_inv [where P = ?Q])
    show "?Q 0 (rm, kv)" using ok by (auto simp: slot_cells_def placed_streams_def intro!: exI [of _ "kc_cells kv"])
  next
    fix s x assume s: "s < ?m" and Q: "?Q s x"
    obtain rm' kv' where x: "x = (rm', kv')" by fastforce
    let ?st = "run_stream kv u s" and ?is = "sl_idxs sl ! s"
    have st: "sl_strm sl ! s = ?st" "?st < kc_n_stream kv" using sl s run_stream_less [OF ok u s] by (auto simp: slot_ok_def)
    have isok: "length ?is = ?n" "distinct ?is" "\<forall>i \<in> set ?is. i < cells_size (kc_cells kv ! ?st) \<and> usable kv (kc_cells kv ! ?st) i"
      using sl s by (auto simp: slot_ok_def idxs_ok_def run_cells_def)
    have kv': "kv_ok kv'" "?st < kc_n_stream kv'" using Q x st by auto
    note d = kv_ok_streamD [OF ok st(2)] and d' = kv_ok_streamD [OF kv']
    have other: "sl_strm sl ! k \<noteq> ?st" if "k < s" for k
    proof -
      have "k < ?m" using that s by simp
      then have "sl_strm sl ! k = run_stream kv u k" using sl by (simp add: slot_ok_def)
      moreover have "distinct (map (run_stream kv u) [0..<?m])" using runs by (simp add: runs_ok_def)
      ultimately show ?thesis using that s \<open>k < ?m\<close> nth_eq_iff_index_eq [of "map (run_stream kv u) [0..<?m]" k s] by simp
    qed
    have "placed_streams kv u sl s ! ?st =
       (if ?st \<in> nth (sl_strm sl) ` set [0..<s] then abs_kv kv ! ?st else abs_kv kv ! ?st)"
      unfolding placed_streams_def using other d(5) by (intro fold_update_nth) (auto simp: abs_kv_def)
    then have A: "abs_cells (kc_cells kv' ! ?st) = abs_kv kv ! ?st" using Q x d'(7) by simp
    have size: "cells_size (kc_cells kv' ! ?st) = kv_size kv" using d'(2) Q x by simp
    have ev: "\<forall>i \<in> set ?is. i < cells_size (kc_cells kv' ! ?st) \<and> evictable (abs_cells (kc_cells kv' ! ?st) ! i)"
      using isok(3) usable_evictable d(2,7) A size by auto
    have tok: "\<forall>k < length ?is. token_ok kv ?st u (s * ?n + k)" using runs s isok(1) by (auto simp: runs_ok_def)
    from place_loop [OF d'(1) isok(2) ev ok tok, of rm'] obtain c' where
      c': "foldM (\<lambda>k. place_token u (s * ?n + k) (?is ! k)) [0..<?n] (rm', kc_cells kv' ! ?st) =
        Some (fold note_evicted (map (nth (abs_kv kv ! ?st)) ?is) rm', c')"
      and inv: "kv_inv c'" and abs: "abs_cells c' = placed u (s * ?n) ?is (abs_kv kv ! ?st)" unfolding A isok(1) by blast
    have "length (abs_cells c') = length (abs_cells (kc_cells kv' ! ?st))" unfolding abs A by (rule length_placed)
    then have csize: "cells_size c' = kv_size kv'" using d'(2) by simp
    have A': "\<forall>i \<in> set ?is. i < length (abs_kv kv ! ?st)" "\<forall>a \<in> set (abs_kv kv ! ?st). cell_owned kv ?st a"
      using isok(3) d(2,4,7) by auto
    have "kc_seq_to_stream kv' = kc_seq_to_stream kv" using Q x by simp
    note co = cell_owned_cong [OF this]
    have own: "cell_owned kv' ?st a" if "a \<in> set (abs_cells c')" for a
      unfolding co by (rule placed_owned [OF isok(2) A' tok that [unfolded abs]])
    note ok' = kv_ok_set_cells [OF kv' inv csize own]
    have fold: "abs_kv (kv'\<lparr>kc_cells := (kc_cells kv')[?st := c']\<rparr>) = placed_streams kv u sl (Suc s)"
      using ok'(2) abs Q x st(1) by (simp add: placed_streams_def)
    have cells: "slot_cells kv sl (Suc s) = slot_cells kv sl s @ map (nth (abs_kv kv ! ?st)) ?is"
      using st(1) by (simp add: slot_cells_def)
    have kvs: "kv_size (kv'\<lparr>kc_cells := (kc_cells kv')[?st := c']\<rparr>) = kv_size kv'"
      using csize d'(5) by (auto simp: kv_size_def nth_list_update)
    have place: "place_stream u sl ?n s x = Some (fold note_evicted (map (nth (abs_kv kv ! ?st)) ?is) rm',
        kv'\<lparr>kc_cells := (kc_cells kv')[?st := c']\<rparr>)"
      using c' st(1) by (simp add: place_stream_def x Let_def)
    obtain cs where cs: "kv' = kv\<lparr>kc_cells := cs\<rparr>" using Q x by auto
    have upd: "\<exists>cs. kv'\<lparr>kc_cells := (kc_cells kv')[?st := c']\<rparr> = kv\<lparr>kc_cells := cs\<rparr>"
      unfolding cs by (intro exI [of _ "cs[?st := c']"]) simp
    have nextQ: "?Q (Suc s) (fold note_evicted (map (nth (abs_kv kv ! ?st)) ?is) rm', kv'\<lparr>kc_cells := (kc_cells kv')[?st := c']\<rparr>)"
    proof -
      have "kv_ok (kv'\<lparr>kc_cells := (kc_cells kv')[?st := c']\<rparr>)" by (rule ok'(1))
      moreover have "kc_seq_to_stream (kv'\<lparr>kc_cells := (kc_cells kv')[?st := c']\<rparr>) = kc_seq_to_stream kv"
        "kc_n_stream (kv'\<lparr>kc_cells := (kc_cells kv')[?st := c']\<rparr>) = kc_n_stream kv" "kv_size kv' = kv_size kv"
        "fold note_evicted (map (nth (abs_kv kv ! ?st)) ?is) rm' =
          fold note_evicted (slot_cells kv sl s @ map (nth (abs_kv kv ! ?st)) ?is) rm" using Q x by auto
      ultimately show ?thesis unfolding prod.case cells kvs using fold upd by blast
    qed
    show "\<exists>x'. place_stream u sl ?n s x = Some x' \<and> ?Q (Suc s) x'"
      by (rule exI, rule conjI, rule place, rule nextQ)
  qed
  then show ?thesis by auto
qed

section \<open>Purging and moving the heads\<close>

text \<open>The invariant of a cache whose heads alone change.\<close>

lemma kv_ok_set_head:
  assumes ok: "kv_ok kv" and st: "st < kc_n_stream kv" and h: "h \<le> kv_size kv"
  shows "kv_ok (kv\<lparr>kc_heads := (kc_heads kv)[st := h]\<rparr>)"
proof -
  note d = kv_ok_streamD [OF ok st]
  have eq: "kv\<lparr>kc_heads := (kc_heads kv)[st := h]\<rparr> = set_stream st (kc_cells kv ! st) h kv"
    by (simp add: set_stream_def)
  show ?thesis unfolding eq by (rule kv_ok_set_stream(1) [OF ok st d(1,2) h d(4)])
qed

lemma kv_heads_fields [simp]:
  "abs_kv (kv\<lparr>kc_heads := hs\<rparr>) = abs_kv kv" "kv_size (kv\<lparr>kc_heads := hs\<rparr>) = kv_size kv"
  by (simp_all add: abs_kv_def kv_size_def)

lemma kv_positions_cong:
  "abs_kv kv' = abs_kv kv \<Longrightarrow> kc_seq_to_stream kv' = kc_seq_to_stream kv \<Longrightarrow> kv_positions kv' = kv_positions kv"
  by (simp add: kv_positions_def fun_eq_iff)

lemma set_heads:
  assumes ok: "kv_ok kv" and cells: "\<forall>s < length (sl_strm sl). sl_strm sl ! s < kc_n_stream kv \<and>
      sl_idxs sl ! s \<noteq> [] \<and> last (sl_idxs sl ! s) < kv_size kv"
  shows "\<exists>hs. foldM (\<lambda>s kv. do {
         assert_opt (sl_idxs sl ! s \<noteq> []);
         Some (kv\<lparr>kc_heads := (kc_heads kv)[sl_strm sl ! s := last (sl_idxs sl ! s) + 1]\<rparr>) })
       [0..<length (sl_strm sl)] kv = Some (kv\<lparr>kc_heads := hs\<rparr>) \<and> kv_ok (kv\<lparr>kc_heads := hs\<rparr>)"
proof -
  let ?Q = "\<lambda>_ :: nat. \<lambda>kv'. kv_ok kv' \<and> (\<exists>hs. kv' = kv\<lparr>kc_heads := hs\<rparr>)"
  have "\<exists>kv'. foldM (\<lambda>s kv. do {
         assert_opt (sl_idxs sl ! s \<noteq> []);
         Some (kv\<lparr>kc_heads := (kc_heads kv)[sl_strm sl ! s := last (sl_idxs sl ! s) + 1]\<rparr>) })
       [0..<length (sl_strm sl)] kv = Some kv' \<and> ?Q (length (sl_strm sl)) kv'"
  proof (rule foldM_upt_inv [where P = ?Q])
    show "?Q 0 kv" using ok by (auto intro!: exI [of _ "kc_heads kv"])
  next
    fix s kv' assume s: "s < length (sl_strm sl)" and Q: "?Q s kv'"
    then obtain hs where hs: "kv' = kv\<lparr>kc_heads := hs\<rparr>" by blast
    have "sl_strm sl ! s < kc_n_stream kv'" "last (sl_idxs sl ! s) + 1 \<le> kv_size kv'" using cells s hs by auto
    from kv_ok_set_head [OF conjunct1 [OF Q] this] cells s hs
    show "\<exists>kv''. (do { assert_opt (sl_idxs sl ! s \<noteq> []);
         Some (kv'\<lparr>kc_heads := (kc_heads kv')[sl_strm sl ! s := last (sl_idxs sl ! s) + 1]\<rparr>) }) = Some kv'' \<and> ?Q (Suc s) kv''"
      by auto
  qed
  then show ?thesis by auto
qed

text \<open>The purge leaves the positions above the overwritten ones.\<close>

lemma purge_seq_positions:
  assumes ok: "kv_ok kv" and rm: "-1 \<le> rm ! s" and valid: "rm ! s \<noteq> -1 \<longrightarrow> s < length (kc_seq_to_stream kv)"
  shows "\<exists>kv'. purge_seq rm s kv = Some kv' \<and> kv_ok kv' \<and> kc_seq_to_stream kv' = kc_seq_to_stream kv \<and>
    kc_n_stream kv' = kc_n_stream kv \<and> kv_size kv' = kv_size kv \<and>
    (\<forall>t. valid_seq kv t \<longrightarrow> kv_positions kv' t = (if t = int s then {p \<in> kv_positions kv t. rm ! s < p} else kv_positions kv t))"
proof (cases "rm ! s = -1")
  case True
  then have "{p \<in> kv_positions kv t. rm ! s < p} = kv_positions kv t" if "valid_seq kv t" for t
    using kv_mem.positions_nonneg [OF ok that] by fastforce
  then show ?thesis using True ok by (simp add: purge_seq_def)
next
  case False
  then have s: "valid_seq kv (int s)" "s < length (kc_seq_to_stream kv)" using valid by (auto simp: valid_seq_def)
  let ?P = "kv_positions kv (int s)"
  define mn where "mn = (if ?P = {} then -1 else Min ?P)"
  have mn: "cells_seq_pos_min s (kc_cells kv ! (kc_seq_to_stream kv ! s)) = Some mn"
    using kv_mem.pos_min_law [OF ok s(1)] s by (simp add: kv_seq_pos_min_def mn_def)
  have low: "mn \<le> p \<and> 0 \<le> p" if "p \<in> ?P" for p
    using that kv_mem.positions_nonneg [OF ok s(1)] kv_mem.positions_finite [OF ok s(1)] by (auto simp: mn_def)
  show ?thesis
  proof (cases "mn \<le> rm ! s")
    case True
    obtain kv' where kv': "kv_seq_rm (int s) mn (rm ! s + 1) kv = Some (True, kv')" "kv_ok kv'"
      "kv_positions kv' (int s) = {p \<in> ?P. \<not> (clamp_p0 mn \<le> p \<and> p < clamp_p1 (rm ! s + 1))}"
      "\<forall>t. valid_seq kv t \<longrightarrow> t \<noteq> int s \<longrightarrow> kv_positions kv' t = kv_positions kv t"
      using kv_seq_rm_positions [OF ok s(1), of mn "rm ! s + 1"] by blast
    have frame: "kc_seq_to_stream kv' = kc_seq_to_stream kv" "kc_n_stream kv' = kc_n_stream kv" "kv_size kv' = kv_size kv"
      using kv_seq_rm_one [OF ok s(1), of mn "rm ! s + 1"] kv'(1) by auto
    have "clamp_p1 (rm ! s + 1) = rm ! s + 1" using rm by (simp add: clamp_p1_def)
    moreover have "clamp_p0 mn \<le> p" if "p \<in> ?P" for p using low [OF that] by (simp add: clamp_p0_def)
    ultimately have "{p \<in> ?P. \<not> (clamp_p0 mn \<le> p \<and> p < clamp_p1 (rm ! s + 1))} = {p \<in> ?P. rm ! s < p}" by auto
    then show ?thesis using kv' frame False s mn True by (auto simp: purge_seq_def)
  next
    case high: False
    then have "{p \<in> ?P. rm ! s < p} = ?P" using low by fastforce
    then show ?thesis using False high s mn ok by (auto simp: purge_seq_def)
  qed
qed

lemma purge_loop:
  assumes ok: "kv_ok kv" and rm: "\<forall>s < n. -1 \<le> rm ! s \<and> (rm ! s \<noteq> -1 \<longrightarrow> s < length (kc_seq_to_stream kv))"
    and n: "length (kc_seq_to_stream kv) \<le> n"
  shows "\<exists>kv'. foldM (purge_seq rm) [0..<n] kv = Some kv' \<and> kv_ok kv' \<and> kc_seq_to_stream kv' = kc_seq_to_stream kv \<and>
    kc_n_stream kv' = kc_n_stream kv \<and> kv_size kv' = kv_size kv \<and>
    (\<forall>t. valid_seq kv t \<longrightarrow> kv_positions kv' t = {p \<in> kv_positions kv t. rm ! nat t < p})"
proof -
  let ?Q = "\<lambda>m kv'. kv_ok kv' \<and> kc_seq_to_stream kv' = kc_seq_to_stream kv \<and> kc_n_stream kv' = kc_n_stream kv \<and>
    kv_size kv' = kv_size kv \<and>
    (\<forall>t. valid_seq kv t \<longrightarrow> kv_positions kv' t = (if nat t < m then {p \<in> kv_positions kv t. rm ! nat t < p} else kv_positions kv t))"
  have "\<exists>kv'. foldM (purge_seq rm) [0..<n] kv = Some kv' \<and> ?Q n kv'"
  proof (rule foldM_upt_inv [where P = ?Q])
    show "?Q 0 kv" using ok by simp
  next
    fix s kv' assume s: "s < n" and Q: "?Q s kv'"
    then have ok': "kv_ok kv'" and valid: "valid_seq kv' = valid_seq kv" by (auto simp: valid_seq_def fun_eq_iff)
    from purge_seq_positions [OF ok', of rm s] rm s Q obtain kv'' where kv'': "purge_seq rm s kv' = Some kv''" "kv_ok kv''"
      "kc_seq_to_stream kv'' = kc_seq_to_stream kv" "kc_n_stream kv'' = kc_n_stream kv" "kv_size kv'' = kv_size kv"
      "\<forall>t. valid_seq kv t \<longrightarrow> kv_positions kv'' t = (if t = int s then {p \<in> kv_positions kv' t. rm ! s < p} else kv_positions kv' t)"
      unfolding valid by auto
    have "kv_positions kv'' t = (if nat t < Suc s then {p \<in> kv_positions kv t. rm ! nat t < p} else kv_positions kv t)"
      if t: "valid_seq kv t" for t
    proof -
      have "0 \<le> t" using t by (simp add: valid_seq_def)
      then show ?thesis using kv''(6) Q t by (cases "t = int s") (auto simp: less_Suc_eq)
    qed
    then show "\<exists>kv''. purge_seq rm s kv' = Some kv'' \<and> ?Q (Suc s) kv''" using kv'' by auto
  qed
  then obtain kv' where "foldM (purge_seq rm) [0..<n] kv = Some kv'" and Q: "?Q n kv'" by blast
  moreover have "nat t < n" if "valid_seq kv t" for t using that n by (auto simp: valid_seq_def)
  ultimately show ?thesis by (intro exI [of _ kv']) auto
qed

section \<open>The whole placement\<close>

definition new_positions :: "llama_ubatch \<Rightarrow> int \<Rightarrow> int set" where
  "new_positions u s = {u_pos u ! i | i. i < u_n_tokens u \<and> s \<in> set (token_seqs u i)}"

definition overwritten :: "kv_cache \<Rightarrow> slot_info \<Rightarrow> int \<Rightarrow> int set" where
  "overwritten kv sl s = evicted_from (slot_cells kv sl (length (sl_strm sl))) (nat s)"

lemma in_slot_cells:
  "a \<in> set (slot_cells kv sl m) \<longleftrightarrow> (\<exists>s < m. \<exists>i \<in> set (sl_idxs sl ! s). a = abs_kv kv ! (sl_strm sl ! s) ! i)"
  by (auto simp: slot_cells_def)

lemma n_tokens_eq: "ubatch_ok kv u \<Longrightarrow> u_n_tokens u = slot_seqs kv u * slot_tokens kv u"
  unfolding ubatch_ok_def slot_tokens_def using mult_div_mod_eq [of "slot_seqs kv u" "u_n_tokens u"] by simp

lemma slot_okD:
  assumes ok: "kv_ok kv" and u: "ubatch_ok kv u" and sl: "slot_ok kv u cont sl" and s: "s < slot_seqs kv u"
  shows "sl_strm sl ! s = run_stream kv u s" "run_stream kv u s < kc_n_stream kv" "length (sl_idxs sl ! s) = slot_tokens kv u"
    "distinct (sl_idxs sl ! s)" "\<forall>i \<in> set (sl_idxs sl ! s). i < length (abs_kv kv ! run_stream kv u s) \<and> i < kv_size kv \<and>
      evictable (abs_kv kv ! run_stream kv u s ! i)"
proof -
  show st: "sl_strm sl ! s = run_stream kv u s" "run_stream kv u s < kc_n_stream kv"
    using sl s run_stream_less [OF ok u s] by (auto simp: slot_ok_def)
  note d = kv_ok_streamD [OF ok st(2)]
  show "length (sl_idxs sl ! s) = slot_tokens kv u" "distinct (sl_idxs sl ! s)"
    using sl s by (auto simp: slot_ok_def idxs_ok_def)
  show "\<forall>i \<in> set (sl_idxs sl ! s). i < length (abs_kv kv ! run_stream kv u s) \<and> i < kv_size kv \<and>
      evictable (abs_kv kv ! run_stream kv u s ! i)"
    using sl s d(2,7) usable_evictable [of kv "kc_cells kv ! run_stream kv u s"]
    by (auto simp: slot_ok_def idxs_ok_def run_cells_def simp del: abs_cells_nth)
qed

lemma placed_streams_nth:
  assumes ok: "kv_ok kv" and u: "ubatch_ok kv u" and runs: "runs_ok kv u" and sl: "slot_ok kv u cont sl"
  shows "s < slot_seqs kv u \<Longrightarrow> placed_streams kv u sl (slot_seqs kv u) ! run_stream kv u s =
      placed u (s * slot_tokens kv u) (sl_idxs sl ! s) (abs_kv kv ! run_stream kv u s)"
    and "st < length (abs_kv kv) \<Longrightarrow> st \<notin> run_stream kv u ` {..<slot_seqs kv u} \<Longrightarrow>
      placed_streams kv u sl (slot_seqs kv u) ! st = abs_kv kv ! st"
proof -
  let ?m = "slot_seqs kv u"
  have strm: "sl_strm sl ! s = run_stream kv u s" if "s < ?m" for s using slot_okD(1) [OF ok u sl that] .
  have inj: "inj_on (run_stream kv u) {..<?m}" using runs by (simp add: runs_ok_def distinct_map lessThan_atLeast0)
  {
    assume s: "s < ?m"
    have len: "run_stream kv u s < length (abs_kv kv)"
      using kv_ok_streamD(5) [OF ok slot_okD(2) [OF ok u sl s]] by (simp add: abs_kv_def)
    have same: "j = s" if "j < ?m" "sl_strm sl ! j = run_stream kv u s" for j
      using inj_onD [OF inj, of j s] that s strm [OF that(1)] by simp
    have "placed_streams kv u sl ?m ! run_stream kv u s =
      (if run_stream kv u s \<in> nth (sl_strm sl) ` set [0..<?m]
       then placed u (s * slot_tokens kv u) (sl_idxs sl ! s) (abs_kv kv ! run_stream kv u s) else abs_kv kv ! run_stream kv u s)"
      unfolding placed_streams_def using len same strm [OF s] by (intro fold_update_nth) auto
    then show "placed_streams kv u sl ?m ! run_stream kv u s =
      placed u (s * slot_tokens kv u) (sl_idxs sl ! s) (abs_kv kv ! run_stream kv u s)"
      using s strm [OF s] by force
  next
    assume st: "st < length (abs_kv kv)" "st \<notin> run_stream kv u ` {..<?m}"
    have "placed_streams kv u sl ?m ! st = (if st \<in> nth (sl_strm sl) ` set [0..<?m] then abs_kv kv ! st else abs_kv kv ! st)"
      unfolding placed_streams_def using st strm by (intro fold_update_nth) auto
    then show "placed_streams kv u sl ?m ! st = abs_kv kv ! st" by simp
  }
qed

text \<open>Before the purge: nothing but new positions is added, nothing but overwritten positions is lost.\<close>

lemma placed_streams_positions:
  assumes ok: "kv_ok kv" and u: "ubatch_ok kv u" and runs: "runs_ok kv u" and sl: "slot_ok kv u cont sl"
    and t: "valid_seq kv t" and abs: "abs_kv kv' = placed_streams kv u sl (slot_seqs kv u)"
    and sts: "kc_seq_to_stream kv' = kc_seq_to_stream kv"
  shows "kv_positions kv' t \<subseteq> kv_positions kv t \<union> new_positions u t" "new_positions u t \<subseteq> kv_positions kv' t"
    "kv_positions kv t \<subseteq> kv_positions kv' t \<union> overwritten kv sl t"
proof -
  let ?m = "slot_seqs kv u" and ?n = "slot_tokens kv u" and ?st = "kc_seq_to_stream kv ! nat t"
  have old: "kv_positions kv t = positions_in (abs_kv kv ! ?st) (nat t)" by (simp add: kv_positions_def positions_in_def)
  have new: "kv_positions kv' t = positions_in (placed_streams kv u sl ?m ! ?st) (nat t)"
    by (simp add: kv_positions_def positions_in_def abs sts)
  have t0: "0 \<le> t" using t by (simp add: valid_seq_def)
  have tok: "token_ok kv (run_stream kv u s) u (s * ?n + k)" if "s < ?m" "k < ?n" for s k
    using runs that by (simp add: runs_ok_def)
  have split: "\<exists>s k. i = s * ?n + k \<and> s < ?m \<and> k < ?n" if "i < u_n_tokens u" for i
    using that slot_tokens_pos [OF u] unfolding n_tokens_eq [OF u]
    by (metis div_mult_mod_eq less_mult_imp_div_less mod_less_divisor)
  have in_run: "run_stream kv u s = ?st" if "s < ?m" "k < ?n" "t \<in> set (token_seqs u (s * ?n + k))" for s k
    using tok [OF that(1,2)] that(3) by (simp add: token_ok_def)
  have nat_t: "nat t \<in> nat ` set (token_seqs u (s * ?n + k)) \<longleftrightarrow> t \<in> set (token_seqs u (s * ?n + k))" if "s < ?m" "k < ?n" for s k
    using tok [OF that] t0 by (auto simp: token_ok_def valid_seq_def) (metis int_nat_eq nat_0_le)
  have lt: "s * ?n + k < u_n_tokens u" if "s < ?m" "k < ?n" for s k
  proof -
    have "s * ?n + k < Suc s * ?n" using that(2) by simp
    also have "\<dots> \<le> ?m * ?n" using that(1) by (intro mult_le_mono1) simp
    finally show ?thesis unfolding n_tokens_eq [OF u] .
  qed
  have all: "kv_positions kv' t \<subseteq> kv_positions kv t \<union> new_positions u t \<and> new_positions u t \<subseteq> kv_positions kv' t \<and>
    kv_positions kv t \<subseteq> kv_positions kv' t \<union> overwritten kv sl t"
  proof (cases "?st \<in> run_stream kv u ` {..<?m}")
    case False
    then have same: "kv_positions kv' t = kv_positions kv t"
      unfolding old new using placed_streams_nth(2) [OF ok u runs sl valid_stream [OF ok t]] by simp
    have "t \<notin> set (token_seqs u i)" if i: "i < u_n_tokens u" for i
    proof
      assume t_in: "t \<in> set (token_seqs u i)"
      obtain s k where sk: "i = s * ?n + k" "s < ?m" "k < ?n" using split [OF i] by blast
      then have "?st \<in> run_stream kv u ` {..<?m}" using in_run [OF sk(2,3)] t_in by force
      then show False using False by contradiction
    qed
    then have "new_positions u t = {}" by (auto simp: new_positions_def)
    with same show ?thesis by simp
  next
    case True
    then obtain s where s: "s < ?m" "run_stream kv u s = ?st" by auto
    let ?A = "abs_kv kv ! ?st" and ?is = "sl_idxs sl ! s"
    note D = slot_okD [OF ok u sl s(1), unfolded s(2)]
    have cells: "\<forall>i \<in> set ?is. i < length ?A" using D(5) by auto
    have P: "kv_positions kv' t = {a_pos (?A ! j) | j. j < length ?A \<and> j \<notin> set ?is \<and> nat t \<in> a_seq (?A ! j)} \<union>
        {u_pos u ! (s * ?n + k) | k. k < ?n \<and> t \<in> set (token_seqs u (s * ?n + k))}"
      unfolding new using placed_streams_nth(1) [OF ok u runs sl s(1)] placed_positions [OF D(4) cells, of u "s * ?n" "nat t"]
        nat_t [OF s(1)] D(3) s(2) by auto
    have O: "kv_positions kv t = {a_pos (?A ! j) | j. j < length ?A \<and> nat t \<in> a_seq (?A ! j)}"
      unfolding old by (force simp: positions_in_def in_set_conv_nth)
    have inj: "s' = s" if "s' < ?m" "run_stream kv u s' = ?st" for s'
    proof -
      have "inj_on (run_stream kv u) {..<?m}" using runs by (simp add: runs_ok_def distinct_map lessThan_atLeast0)
      from inj_onD [OF this, of s' s] that s show ?thesis by simp
    qed
    have N: "new_positions u t = {u_pos u ! (s * ?n + k) | k. k < ?n \<and> t \<in> set (token_seqs u (s * ?n + k))}"
    proof (intro equalityI subsetI)
      fix p assume "p \<in> new_positions u t"
      then obtain i where i: "i < u_n_tokens u" "t \<in> set (token_seqs u i)" "p = u_pos u ! i" by (auto simp: new_positions_def)
      obtain s' k where sk: "i = s' * ?n + k" "s' < ?m" "k < ?n" using split [OF i(1)] by blast
      have "s' = s" using inj [OF sk(2)] in_run [OF sk(2,3)] i(2) sk(1) by simp
      then show "p \<in> {u_pos u ! (s * ?n + k) | k. k < ?n \<and> t \<in> set (token_seqs u (s * ?n + k))}"
        using i sk by blast
    qed (use lt [OF s(1)] in \<open>auto simp: new_positions_def\<close>)
    have "a_pos (?A ! j) \<in> overwritten kv sl t" if j: "j \<in> set ?is" "nat t \<in> a_seq (?A ! j)" for j
    proof -
      have "?A ! j \<in> set (slot_cells kv sl (length (sl_strm sl)))"
        unfolding in_slot_cells using j(1) s(1) D(1) sl
        by (intro exI [of _ s] conjI bexI [of _ j]) (simp_all add: slot_ok_def)
      moreover have "a_pos (?A ! j) \<noteq> -1 \<and> a_seq (?A ! j) = {nat t}"
      proof -
        note d = kv_ok_streamD [OF ok D(2)]
        have j': "j < cells_size (kc_cells kv ! ?st)" using D(5) j(1) d(7) by auto
        have "a_pos (?A ! j) \<noteq> -1" using kv_inv_cellD(3) [OF d(1) j'] j(2) j' d(7) by auto
        moreover have "evictable (?A ! j)" using D(5) j(1) by blast
        ultimately show ?thesis using j(2) by (auto simp: evictable_def card_1_singleton_iff)
      qed
      ultimately show ?thesis by (auto simp: overwritten_def evicted_from_def)
    qed
    then show ?thesis unfolding P O N by blast
  qed
  then show "kv_positions kv' t \<subseteq> kv_positions kv t \<union> new_positions u t" "new_positions u t \<subseteq> kv_positions kv' t"
    "kv_positions kv t \<subseteq> kv_positions kv' t \<union> overwritten kv sl t" by blast+
qed

text \<open>The overwritten positions, as the code remembers them.\<close>

lemma evicted_bound:
  assumes ok: "kv_ok kv" and u: "ubatch_ok kv u" and sl: "slot_ok kv u cont sl" and t: "t < LLAMA_MAX_SEQ"
  defines "rm \<equiv> fold note_evicted (slot_cells kv sl (slot_seqs kv u)) (replicate LLAMA_MAX_SEQ (-1))"
  shows "-1 \<le> rm ! t" "rm ! t \<noteq> -1 \<longrightarrow> t < length (kc_seq_to_stream kv)"
    "rm ! t < p \<longleftrightarrow> -1 < p \<and> (\<forall>q \<in> overwritten kv sl (int t). q < p)"
proof -
  let ?as = "slot_cells kv sl (slot_seqs kv u)"
  have m: "length (sl_strm sl) = slot_seqs kv u" using sl by (simp add: slot_ok_def)
  have in_stream: "evictable a \<and> (\<exists>st < kc_n_stream kv. a \<in> set (abs_kv kv ! st))" if "a \<in> set ?as" for a
  proof -
    from that obtain s i where s: "s < slot_seqs kv u" "i \<in> set (sl_idxs sl ! s)" "a = abs_kv kv ! (sl_strm sl ! s) ! i"
      unfolding in_slot_cells by blast
    note D = slot_okD [OF ok u sl s(1)]
    have i: "i < length (abs_kv kv ! run_stream kv u s)" "evictable (abs_kv kv ! run_stream kv u s ! i)" using D(5) s(2) by auto
    then show ?thesis using D(1,2) s(3) nth_mem [OF i(1)] by auto
  qed
  have ev: "evicted_from ?as t = overwritten kv sl (int t)" by (simp add: overwritten_def m)
  have rm: "rm ! t = Max (insert (-1) (overwritten kv sl (int t)))"
    unfolding rm_def ev [symmetric] using fold_note_evicted [of t "replicate LLAMA_MAX_SEQ (-1)" ?as] in_stream t by simp
  have fin: "finite (overwritten kv sl (int t))" by (simp add: overwritten_def)
  show "-1 \<le> rm ! t" unfolding rm using fin by simp
  show "rm ! t < p \<longleftrightarrow> -1 < p \<and> (\<forall>q \<in> overwritten kv sl (int t). q < p)" unfolding rm using fin by simp
  show "rm ! t \<noteq> -1 \<longrightarrow> t < length (kc_seq_to_stream kv)"
  proof
    assume "rm ! t \<noteq> -1"
    then have "overwritten kv sl (int t) \<noteq> {}" unfolding rm by auto
    then obtain a where a: "a \<in> set ?as" "a_seq a = {t}" unfolding ev [symmetric] by (auto simp: evicted_from_def)
    then obtain st where st: "st < kc_n_stream kv" "a \<in> set (abs_kv kv ! st)" using in_stream by blast
    then have "cell_owned kv st a" using kv_ok_streamD(4,7) [OF ok st(1)] by simp
    then show "t < length (kc_seq_to_stream kv)" using a(2) by (simp add: cell_owned_def)
  qed
qed

lemma apply_ubatch_places:
  assumes ok: "kv_ok kv" and u: "ubatch_ok kv u" and runs: "runs_ok kv u" and sl: "slot_ok kv u cont sl"
  shows "\<exists>kv'. apply_ubatch sl u kv = Some kv' \<and> kv_ok kv' \<and> kc_seq_to_stream kv' = kc_seq_to_stream kv \<and>
    kc_n_stream kv' = kc_n_stream kv \<and> kv_size kv' = kv_size kv \<and>
    (\<forall>t. valid_seq kv t \<longrightarrow> kv_positions kv' t =
      {p \<in> kv_positions kv t \<union> new_positions u t. \<forall>q \<in> overwritten kv sl t. q < p})"
proof -
  let ?m = "slot_seqs kv u" and ?n = "slot_tokens kv u"
  define rm where "rm = fold note_evicted (slot_cells kv sl ?m) (replicate LLAMA_MAX_SEQ (-1))"
  have len: "length (sl_strm sl) = ?m" "length (sl_idxs sl) = ?m" "0 < ?m" using sl u by (auto simp: slot_ok_def ubatch_ok_def)
  note D = slot_okD [OF ok u sl]
  have size: "slot_size sl = Some ?n"
    using len D(3) [OF len(3)] by (cases "sl_idxs sl") (auto simp: slot_size_def)
  obtain kv1 where kv1: "foldM (place_stream u sl ?n) [0..<?m] (replicate LLAMA_MAX_SEQ (-1), kv) = Some (rm, kv1)"
    "kv_ok kv1" "kc_seq_to_stream kv1 = kc_seq_to_stream kv" "kc_n_stream kv1 = kc_n_stream kv" "kv_size kv1 = kv_size kv"
    "abs_kv kv1 = placed_streams kv u sl ?m"
    using place_streams [OF ok u runs sl, of "replicate LLAMA_MAX_SEQ (-1)"] unfolding rm_def by blast
  note ev = evicted_bound [OF ok u sl, folded rm_def]
  have rm_ok: "\<forall>s < LLAMA_MAX_SEQ. -1 \<le> rm ! s \<and> (rm ! s \<noteq> -1 \<longrightarrow> s < length (kc_seq_to_stream kv1))"
    using ev(1,2) kv1(3) by simp
  have n256: "length (kc_seq_to_stream kv1) \<le> LLAMA_MAX_SEQ" using ok kv1(3) by (simp add: kv_ok_def)
  obtain kv2 where kv2: "foldM (purge_seq rm) [0..<LLAMA_MAX_SEQ] kv1 = Some kv2" "kv_ok kv2"
    "kc_seq_to_stream kv2 = kc_seq_to_stream kv" "kc_n_stream kv2 = kc_n_stream kv" "kv_size kv2 = kv_size kv"
    "\<forall>t. valid_seq kv t \<longrightarrow> kv_positions kv2 t = {p \<in> kv_positions kv1 t. rm ! nat t < p}"
    using purge_loop [OF kv1(2) rm_ok n256] kv1(3-5) by (auto simp: valid_seq_def)
  have cells: "\<forall>s < length (sl_strm sl). sl_strm sl ! s < kc_n_stream kv2 \<and> sl_idxs sl ! s \<noteq> [] \<and> last (sl_idxs sl ! s) < kv_size kv2"
  proof (intro allI impI)
    fix s assume "s < length (sl_strm sl)"
    then have s: "s < ?m" by (simp add: len)
    have ne: "sl_idxs sl ! s \<noteq> []" using D(3) [OF s] slot_tokens_pos [OF u] by auto
    show "sl_strm sl ! s < kc_n_stream kv2 \<and> sl_idxs sl ! s \<noteq> [] \<and> last (sl_idxs sl ! s) < kv_size kv2"
      using D(1,2,5) [OF s] ne last_in_set [OF ne] kv2(4,5) by simp
  qed
  obtain hs where hs: "foldM (\<lambda>s kv. do {
         assert_opt (sl_idxs sl ! s \<noteq> []);
         Some (kv\<lparr>kc_heads := (kc_heads kv)[sl_strm sl ! s := last (sl_idxs sl ! s) + 1]\<rparr>) })
       [0..<length (sl_strm sl)] kv2 = Some (kv2\<lparr>kc_heads := hs\<rparr>)" "kv_ok (kv2\<lparr>kc_heads := hs\<rparr>)"
    using set_heads [OF kv2(2) cells] by blast
  have eq: "apply_ubatch sl u kv = Some (kv2\<lparr>kc_heads := hs\<rparr>)"
    using size kv1(1) kv2(1) hs(1) n_tokens_eq [OF u] by (simp add: apply_ubatch_def len(1))
  have pos: "kv_positions (kv2\<lparr>kc_heads := hs\<rparr>) t = {p \<in> kv_positions kv t \<union> new_positions u t. \<forall>q \<in> overwritten kv sl t. q < p}"
    if t: "valid_seq kv t" for t
  proof -
    note P = placed_streams_positions [OF ok u runs sl t kv1(6,3)]
    have t1: "valid_seq kv1 t" using t kv1(3) by (simp add: valid_seq_def)
    have t256: "nat t < LLAMA_MAX_SEQ" "int (nat t) = t" using valid_seqD(1,2) [OF ok t] by auto
    have "kv_positions (kv2\<lparr>kc_heads := hs\<rparr>) t = {p \<in> kv_positions kv1 t. rm ! nat t < p}"
      using kv2(6) t kv_positions_cong [of "kv2\<lparr>kc_heads := hs\<rparr>" kv2] by simp
    also have "\<dots> = {p \<in> kv_positions kv1 t. \<forall>q \<in> overwritten kv sl t. q < p}"
    proof -
      have "-1 < p" if "p \<in> kv_positions kv1 t" for p using kv_mem.positions_nonneg [OF kv1(2) t1 that] by simp
      then show ?thesis unfolding ev(3) [OF t256(1)] t256(2) by blast
    qed
    also have "\<dots> = {p \<in> kv_positions kv t \<union> new_positions u t. \<forall>q \<in> overwritten kv sl t. q < p}"
      using P by blast
    finally show ?thesis .
  qed
  show ?thesis using eq hs(2) pos kv2(3-5) by (intro exI [of _ "kv2\<lparr>kc_heads := hs\<rparr>"]) simp
qed

text \<open>Without a sliding window only empty cells are usable: nothing is overwritten.\<close>

lemma slot_cells_empty:
  assumes ok: "kv_ok kv" and u: "ubatch_ok kv u" and swa: "kc_swa_type kv = SWA_NONE" and sl: "slot_ok kv u cont sl"
    and s: "s < slot_seqs kv u" and i: "i \<in> set (sl_idxs sl ! s)"
  shows "a_pos (abs_kv kv ! run_stream kv u s ! i) = -1"
proof -
  note st = slot_okD(2) [OF ok u sl s]
  have "i < cells_size (run_cells kv u s)" "usable kv (run_cells kv u s) i"
    using sl s i by (auto simp: slot_ok_def idxs_ok_def)
  then have "pos (run_cells kv u s) ! i = -1" "i < cells_size (run_cells kv u s)"
    using swa by (auto simp: usable_def kv_is_masked_swa_def is_masked_swa_def split: if_splits)
  then show ?thesis using kv_ok_streamD(7) [OF ok st] by (simp add: run_cells_def)
qed

lemma fold_note_empty: "\<forall>a \<in> set as. a_pos a = -1 \<Longrightarrow> fold note_evicted as rm = rm"
  by (induction as) (simp_all add: note_evicted_def)

lemma apply_ubatch_empty_cells:
  assumes ok: "kv_ok kv" and u: "ubatch_ok kv u" and runs: "runs_ok kv u" and swa: "kc_swa_type kv = SWA_NONE"
    and sl: "slot_ok kv u cont sl"
  shows "\<exists>cs hs. apply_ubatch sl u kv = Some (kv\<lparr>kc_cells := cs, kc_heads := hs\<rparr>) \<and>
    kv_ok (kv\<lparr>kc_cells := cs, kc_heads := hs\<rparr>) \<and> kv_size (kv\<lparr>kc_cells := cs, kc_heads := hs\<rparr>) = kv_size kv \<and>
    abs_kv (kv\<lparr>kc_cells := cs, kc_heads := hs\<rparr>) = placed_streams kv u sl (slot_seqs kv u)"
proof -
  let ?m = "slot_seqs kv u" and ?n = "slot_tokens kv u" and ?rm = "replicate LLAMA_MAX_SEQ (-1 :: int)"
  have len: "length (sl_strm sl) = ?m" "length (sl_idxs sl) = ?m" "0 < ?m" using sl u by (auto simp: slot_ok_def ubatch_ok_def)
  note D = slot_okD [OF ok u sl]
  have size: "slot_size sl = Some ?n"
    using len D(3) [OF len(3)] by (cases "sl_idxs sl") (auto simp: slot_size_def)
  have "\<forall>a \<in> set (slot_cells kv sl ?m). a_pos a = -1"
    using slot_cells_empty [OF ok u swa sl] D(1) by (auto simp: in_slot_cells)
  then have no_rm: "fold note_evicted (slot_cells kv sl ?m) ?rm = ?rm" by (rule fold_note_empty)
  obtain cs where kv1: "foldM (place_stream u sl ?n) [0..<?m] (?rm, kv) = Some (?rm, kv\<lparr>kc_cells := cs\<rparr>)"
    "kv_ok (kv\<lparr>kc_cells := cs\<rparr>)" "kv_size (kv\<lparr>kc_cells := cs\<rparr>) = kv_size kv" "abs_kv (kv\<lparr>kc_cells := cs\<rparr>) = placed_streams kv u sl ?m"
    using place_streams [OF ok u runs sl, of ?rm] unfolding no_rm by blast
  have "\<exists>kv'. foldM (purge_seq ?rm) [0..<LLAMA_MAX_SEQ] (kv\<lparr>kc_cells := cs\<rparr>) = Some kv' \<and> kv' = kv\<lparr>kc_cells := cs\<rparr>"
    by (rule foldM_upt_inv [where P = "\<lambda>_ kv'. kv' = kv\<lparr>kc_cells := cs\<rparr>"]) (simp_all add: purge_seq_def)
  then have purge: "foldM (purge_seq ?rm) [0..<LLAMA_MAX_SEQ] (kv\<lparr>kc_cells := cs\<rparr>) = Some (kv\<lparr>kc_cells := cs\<rparr>)" by simp
  have cells: "\<forall>s < length (sl_strm sl). sl_strm sl ! s < kc_n_stream (kv\<lparr>kc_cells := cs\<rparr>) \<and> sl_idxs sl ! s \<noteq> [] \<and>
      last (sl_idxs sl ! s) < kv_size (kv\<lparr>kc_cells := cs\<rparr>)"
  proof (intro allI impI)
    fix s assume "s < length (sl_strm sl)"
    then have s: "s < ?m" by (simp add: len)
    have ne: "sl_idxs sl ! s \<noteq> []" using D(3) [OF s] slot_tokens_pos [OF u] by auto
    show "sl_strm sl ! s < kc_n_stream (kv\<lparr>kc_cells := cs\<rparr>) \<and> sl_idxs sl ! s \<noteq> [] \<and> last (sl_idxs sl ! s) < kv_size (kv\<lparr>kc_cells := cs\<rparr>)"
      using D(1,2,5) [OF s] ne last_in_set [OF ne] kv1(3) by simp
  qed
  from set_heads [OF kv1(2) cells] obtain hs where hs: "foldM (\<lambda>s kv. do {
         assert_opt (sl_idxs sl ! s \<noteq> []);
         Some (kv\<lparr>kc_heads := (kc_heads kv)[sl_strm sl ! s := last (sl_idxs sl ! s) + 1]\<rparr>) })
       [0..<length (sl_strm sl)] (kv\<lparr>kc_cells := cs\<rparr>) = Some (kv\<lparr>kc_cells := cs, kc_heads := hs\<rparr>)" "kv_ok (kv\<lparr>kc_cells := cs, kc_heads := hs\<rparr>)"
    by auto
  have "apply_ubatch sl u kv = Some (kv\<lparr>kc_cells := cs, kc_heads := hs\<rparr>)"
    using size kv1(1) purge hs(1) n_tokens_eq [OF u] by (simp add: apply_ubatch_def len(1))
  moreover have "abs_kv (kv\<lparr>kc_cells := cs, kc_heads := hs\<rparr>) = abs_kv (kv\<lparr>kc_cells := cs\<rparr>)"
    "kv_size (kv\<lparr>kc_cells := cs, kc_heads := hs\<rparr>) = kv_size (kv\<lparr>kc_cells := cs\<rparr>)"
    by (simp_all add: abs_kv_def kv_size_def)
  ultimately show ?thesis using hs(2) kv1(3,4) by (intro exI [of _ cs] exI [of _ hs]) simp
qed

section \<open>Properties\<close>

text \<open>The positions of a sequence without holes.\<close>

definition no_holes :: "int set \<Rightarrow> bool" where
  "no_holes P \<longleftrightarrow> (\<forall>a \<in> P. \<forall>b \<in> P. {a..b} \<subseteq> P)"

lemma slot_found:
  assumes "kv_ok kv" and "swa_ok kv" and "ubatch_ok kv u" and "find_slot kv u cont = Some sl" and "\<not> slot_empty sl"
  shows "slot_ok kv u cont sl"
  using find_slot_total [OF assms(1-3), of cont] assms(4,5) by (auto split: if_splits)

text \<open>C8: \<^verbatim>\<open>apply_ubatch\<close> on the slot that \<^verbatim>\<open>find_slot\<close> returned does not abort and keeps the cache invariant.
  Afterwards every sequence has its old positions and those of its tokens in the micro-batch, except the
  positions up to the highest one that the slot overwrote.\<close>

theorem apply_ubatch_correct:
  assumes "kv_ok kv" and "swa_ok kv" and "ubatch_ok kv u" and "runs_ok kv u"
    and "find_slot kv u cont = Some sl" and "\<not> slot_empty sl"
  shows "\<exists>kv'. apply_ubatch sl u kv = Some kv' \<and> kv_ok kv' \<and>
    (\<forall>t. valid_seq kv t \<longrightarrow> kv_positions kv' t =
      {p \<in> kv_positions kv t \<union> new_positions u t. \<forall>q \<in> overwritten kv sl t. q < p})"
  using apply_ubatch_places [OF assms(1,3,4) slot_found [OF assms(1-3,5,6)]] by blast

text \<open>C12: \<^verbatim>\<open>apply_ubatch\<close> preserves the invariant that its comment states: when the tokens of a micro-batch continue
  the positions of a sequence without holes, the sequence has no holes afterwards, also when the sliding
  window lets the tokens overwrite cells of that sequence.\<close>

theorem apply_ubatch_keeps_no_holes:
  assumes "kv_ok kv" and "swa_ok kv" and "ubatch_ok kv u" and "runs_ok kv u"
    and "find_slot kv u cont = Some sl" and "\<not> slot_empty sl" and "valid_seq kv t"
    and "no_holes (kv_positions kv t \<union> new_positions u t)"
  shows "\<exists>kv'. apply_ubatch sl u kv = Some kv' \<and> no_holes (kv_positions kv' t)"
proof -
  let ?P = "kv_positions kv t \<union> new_positions u t" and ?W = "overwritten kv sl t"
  obtain kv' where "apply_ubatch sl u kv = Some kv'" "kv_positions kv' t = {p \<in> ?P. \<forall>q \<in> ?W. q < p}"
    using apply_ubatch_places [OF assms(1,3,4) slot_found [OF assms(1-3,5,6)]] assms(7) by blast
  moreover have "no_holes {p \<in> ?P. \<forall>q \<in> ?W. q < p}" using assms(8) by (fastforce simp: no_holes_def)
  ultimately show ?thesis by simp
qed

lemma demo_slot:
  "\<exists>kv sl. kv_ok kv \<and> swa_ok kv \<and> ubatch_ok kv demo_ubatch \<and> runs_ok kv demo_ubatch \<and> kc_swa_type kv = SWA_NONE \<and>
    find_slot kv demo_ubatch False = Some sl \<and> \<not> slot_empty sl \<and> slot_ok kv demo_ubatch False sl \<and>
    valid_seq kv 0 \<and> kv_positions kv 0 = {7} \<and> new_positions demo_ubatch 0 = {8} \<and> overwritten kv sl 0 = {}"
proof -
  obtain kv where kv: "kv_ok kv" "kc_swa_type kv = SWA_NONE" "kc_n_stream kv = 1" "kv_size kv = 2"
    "kc_seq_to_stream kv = replicate LLAMA_MAX_SEQ 0" "abs_kv kv = [[demo_cell, free_cell ext_reset]]"
    using demo_kv [of True] by auto
  have swa: "swa_ok kv" using kv(2) by (simp add: swa_ok_def)
  note u = demo_ubatch_ok [OF kv(3,5)]
  have n: "slot_seqs kv demo_ubatch = 1" "slot_tokens kv demo_ubatch = 1" "run_stream kv demo_ubatch 0 = 0"
    using kv(3,5) by (simp_all add: slot_seqs_def slot_tokens_def run_stream_def demo_ubatch_def empty_ubatch_def)
  have runs: "runs_ok kv demo_ubatch"
    using n kv(5) by (simp add: runs_ok_def token_ok_def token_seqs_def valid_seq_def demo_ubatch_def)
  let ?c = "kc_cells kv ! 0"
  have c: "cells_size ?c = 2" "abs_cells ?c = [demo_cell, free_cell ext_reset]"
    using kv_ok_streamD(2,7) [OF kv(1), of 0] kv(3,4,6) by simp_all
  have "usable kv ?c 1" using abs_cells_nth [of 1 ?c] c by (simp add: usable_def free_cell_def)
  then have "card {1 :: nat} \<le> card {i. i < 2 \<and> usable kv ?c i}" by (intro card_mono) auto
  then have "stream_fits kv False 1 ?c" by (simp add: stream_fits_def c(1))
  with find_slot_total [OF kv(1) swa u, of False] n obtain sl where
    sl: "find_slot kv demo_ubatch False = Some sl" "slot_ok kv demo_ubatch False sl" by (auto simp: run_cells_def)
  have ne: "\<not> slot_empty sl" using sl(2) n by (auto simp: slot_ok_def slot_empty_def)
  have "a_pos a = -1" if "a \<in> set (slot_cells kv sl 1)" for a
    using that slot_cells_empty [OF kv(1) u kv(2) sl(2)] slot_okD(1) [OF kv(1) u sl(2)] n by (auto simp: in_slot_cells)
  then have "overwritten kv sl 0 = {}" using sl(2) n by (auto simp: overwritten_def evicted_from_def slot_ok_def)
  moreover have "kv_positions kv 0 = {7}" using kv(5,6) by (force simp: kv_positions_def free_cell_def)
  moreover have "new_positions demo_ubatch 0 = {8}" by (auto simp: new_positions_def demo_ubatch_def token_seqs_def)
  moreover have "valid_seq kv 0" using kv(5) by (simp add: valid_seq_def)
  ultimately show ?thesis using kv(1,2) swa u runs sl ne by blast
qed

theorem apply_ubatch_correct_witness:
  "\<exists>kv sl kv'. find_slot kv demo_ubatch False = Some sl \<and> apply_ubatch sl demo_ubatch kv = Some kv' \<and> kv_positions kv' 0 = {7, 8}"
proof -
  obtain kv sl where d: "kv_ok kv" "swa_ok kv" "ubatch_ok kv demo_ubatch" "runs_ok kv demo_ubatch"
    "find_slot kv demo_ubatch False = Some sl" "\<not> slot_empty sl" "valid_seq kv 0" "kv_positions kv 0 = {7}"
    "new_positions demo_ubatch 0 = {8}" "overwritten kv sl 0 = {}" using demo_slot by blast
  obtain kv' where kv': "apply_ubatch sl demo_ubatch kv = Some kv'"
    "kv_positions kv' 0 = {p \<in> kv_positions kv 0 \<union> new_positions demo_ubatch 0. \<forall>q \<in> overwritten kv sl 0. q < p}"
    using apply_ubatch_correct [OF d(1-6)] d(7) by blast
  have "kv_positions kv' 0 = {7, 8}" unfolding kv'(2) d(8-10) by auto
  with kv'(1) d(5) show ?thesis by blast
qed

theorem apply_ubatch_keeps_no_holes_witness:
  "\<exists>kv sl kv'. apply_ubatch sl demo_ubatch kv = Some kv' \<and> kv_positions kv 0 = {7} \<and> no_holes (kv_positions kv' 0)"
proof -
  obtain kv sl where d: "kv_ok kv" "swa_ok kv" "ubatch_ok kv demo_ubatch" "runs_ok kv demo_ubatch"
    "find_slot kv demo_ubatch False = Some sl" "\<not> slot_empty sl" "valid_seq kv 0" "kv_positions kv 0 = {7}"
    "new_positions demo_ubatch 0 = {8}" using demo_slot by blast
  have "no_holes (kv_positions kv 0 \<union> new_positions demo_ubatch 0)" using d(8,9) by (auto simp: no_holes_def)
  from apply_ubatch_keeps_no_holes [OF d(1-7) this] d(8) show ?thesis by blast
qed

end
