(* ===== verification/KvPrepare.thy ===== *)
theory KvPrepare
  imports KvPlace
begin

text \<open>
  The dry run \<^verbatim>\<open>prepare\<close>: it places the micro-batches one after the other to find their slots and then
  restores the cells from the recovery stack.
\<close>

section \<open>Caches with the same content\<close>

text \<open>Equal up to the heads and the representation of the cells.\<close>

definition same_kv :: "kv_cache \<Rightarrow> kv_cache \<Rightarrow> bool" where
  "same_kv kv kv' \<longleftrightarrow> kv_ok kv' \<and> abs_kv kv' = abs_kv kv \<and> kv_size kv' = kv_size kv \<and>
     (\<exists>cs hs. kv' = kv\<lparr>kc_cells := cs, kc_heads := hs\<rparr>)"

lemma same_kvD:
  assumes "same_kv kv kv'"
  shows "kv_ok kv'" "abs_kv kv' = abs_kv kv" "kv_size kv' = kv_size kv" "kc_seq_to_stream kv' = kc_seq_to_stream kv"
    "kc_n_stream kv' = kc_n_stream kv" "kc_swa_type kv' = kc_swa_type kv" "kc_n_swa kv' = kc_n_swa kv"
  using assms by (auto simp: same_kv_def)

lemma same_kv_refl: "kv_ok kv \<Longrightarrow> same_kv kv kv"
  by (auto simp: same_kv_def intro!: exI [of _ "kc_cells kv"] exI [of _ "kc_heads kv"])

lemma same_kv_trans: "same_kv kv kv1 \<Longrightarrow> same_kv kv1 kv2 \<Longrightarrow> same_kv kv kv2"
  unfolding same_kv_def
proof (elim conjE exE, intro conjI)
  fix cs hs cs' hs' assume "kv1 = kv\<lparr>kc_cells := cs, kc_heads := hs\<rparr>" "kv2 = kv1\<lparr>kc_cells := cs', kc_heads := hs'\<rparr>"
  then have "kv2 = kv\<lparr>kc_cells := cs', kc_heads := hs'\<rparr>" by simp
  then show "\<exists>cs hs. kv2 = kv\<lparr>kc_cells := cs, kc_heads := hs\<rparr>" by blast
qed simp_all

lemma same_ubatch_ok:
  assumes "kc_seq_to_stream kv' = kc_seq_to_stream kv" and "kc_n_stream kv' = kc_n_stream kv"
  shows "ubatch_ok kv' u = ubatch_ok kv u" "runs_ok kv' u = runs_ok kv u" "slot_seqs kv' u = slot_seqs kv u"
    "slot_tokens kv' u = slot_tokens kv u" "run_stream kv' u = run_stream kv u"
  using assms
  by (simp_all add: ubatch_ok_def runs_ok_def slot_seqs_def slot_tokens_def seq_run_ok_def run_stream_def [abs_def]
      token_ok_def [abs_def] valid_seq_def [abs_def])

text \<open>Usability is decided by the abstract cell and the positions of the sequence.\<close>

lemma usable_cong:
  assumes "abs_cells c' = abs_cells c" and "kc_swa_type kv' = kc_swa_type kv" and "kc_n_swa kv' = kc_n_swa kv"
    and "i < cells_size c"
  shows "usable kv' c' i = usable kv c i"
proof -
  have "cells_size c' = cells_size c" using arg_cong [OF assms(1), of length] by simp
  then have "pos c' ! i = pos c ! i" "seq c' ! i = seq c ! i" using assms(1,4) abs_cells_nth [of i c'] abs_cells_nth [of i c] by auto
  moreover have "seq_positions c' = seq_positions c" using assms(1) by (simp add: seq_positions_def fun_eq_iff)
  ultimately show ?thesis using assms(2,3) by (simp add: usable_def kv_is_masked_swa_def)
qed

lemma same_slot_ok:
  assumes ok: "kv_ok kv" and s: "same_kv kv kv'" and u: "ubatch_ok kv u" and sl: "slot_ok kv u cont sl"
  shows "slot_ok kv' u cont sl"
proof -
  note D = same_kvD [OF s] and E = same_ubatch_ok [OF same_kvD(4,5) [OF s]]
  have "idxs_ok kv' cont n (run_cells kv' u k) is = idxs_ok kv cont n (run_cells kv u k) is" if k: "k < slot_seqs kv u" for k n "is"
  proof -
    note st = run_stream_less [OF ok u k]
    have st': "run_stream kv u k < kc_n_stream kv'" using st D(5) by simp
    have A: "abs_cells (run_cells kv' u k) = abs_cells (run_cells kv u k)"
      using kv_ok_streamD(7) [OF ok st] kv_ok_streamD(7) [OF D(1) st'] D(2) E(5) by (simp add: run_cells_def)
    have "cells_size (run_cells kv' u k) = cells_size (run_cells kv u k)" using arg_cong [OF A, of length] by simp
    then show ?thesis using usable_cong [OF A D(6,7)] by (auto simp: idxs_ok_def)
  qed
  with sl E show ?thesis by (simp add: slot_ok_def)
qed

section \<open>Saving and restoring\<close>

lemma save_cells_Some:
  "(\<And>s. s \<in> set ss \<Longrightarrow> cells_cp_idxs (kc_cells kv ! (sl_strm sl ! s)) (sl_idxs sl ! s) = Some (f s)) \<Longrightarrow>
   save_cells kv sl ss = Some (map f ss)"
  by (induction ss) simp_all

text \<open>What the recovery entry of a slot is worth: it brings back the saved content.\<close>

definition undoes :: "prepare_state \<Rightarrow> kv_cache \<Rightarrow> kv_cache \<Rightarrow> bool" where
  "undoes ps kv1 kv \<longleftrightarrow> (\<forall>kv'. same_kv kv1 kv' \<longrightarrow> (\<exists>kv''. restore_state ps kv' = Some kv'' \<and> same_kv kv kv''))"

lemma slot_seqs_le:
  assumes ok: "kv_ok kv" and u: "ubatch_ok kv u" and runs: "runs_ok kv u"
  shows "slot_seqs kv u \<le> kc_n_stream kv"
proof -
  let ?xs = "map (run_stream kv u) [0..<slot_seqs kv u]"
  have "set ?xs \<subseteq> {..<kc_n_stream kv}" using run_stream_less [OF ok u] by auto
  then have "card (set ?xs) \<le> kc_n_stream kv" using card_mono [of "{..<kc_n_stream kv}" "set ?xs"] by simp
  moreover have "card (set ?xs) = slot_seqs kv u" using distinct_card [of ?xs] runs by (simp add: runs_ok_def)
  ultimately show ?thesis by simp
qed

text \<open>One stream of the recovery: the cells that were overwritten go back, the others never changed.\<close>

lemma restore_stream:
  assumes ok: "kv_ok kv" and u: "ubatch_ok kv u" and swa: "kc_swa_type kv = SWA_NONE" and sl: "slot_ok kv u cont sl"
    and s: "s < slot_seqs kv u" and inv': "kv_inv c'"
    and abs: "abs_cells c' = placed u b (sl_idxs sl ! s) (abs_kv kv ! run_stream kv u s)"
  shows "\<exists>old. cells_cp_idxs (run_cells kv u s) (sl_idxs sl ! s) = Some old"
    and "cells_cp_idxs (run_cells kv u s) (sl_idxs sl ! s) = Some old \<Longrightarrow>
      \<exists>c''. cells_set_idxs c' (sl_idxs sl ! s) old = Some c'' \<and> kv_inv c'' \<and> abs_cells c'' = abs_kv kv ! run_stream kv u s"
proof -
  let ?c = "run_cells kv u s" and ?is = "sl_idxs sl ! s"
  note D = slot_okD [OF ok u sl s]
  note d = kv_ok_streamD [OF ok D(2), folded run_cells_def]
  have A: "abs_kv kv ! run_stream kv u s = abs_cells ?c" using d(7) by simp
  have in_c: "i < cells_size ?c \<and> shift ?c ! i = 0" if "i \<in> set ?is" for i
  proof -
    have i: "i < cells_size ?c" using D(5) that A by auto
    moreover have "pos ?c ! i = -1" using slot_cells_empty [OF ok u swa sl s that] i A by simp
    ultimately show ?thesis using kv_inv_cellD(3) [OF d(1) i] by simp
  qed
  show "\<exists>old. cells_cp_idxs ?c ?is = Some old" using cells_cp_idxs_Some [OF d(1) in_c] by blast
  assume old: "cells_cp_idxs ?c ?is = Some old"
  have size: "cells_size c' = cells_size ?c" using arg_cong [OF abs, of length] A by simp
  have idx: "\<forall>i \<in> set ?is. i < length (abs_cells ?c)" using in_c by simp
  note nth = placed_nth [OF D(4) idx, of _ u b]
  have frame: "abs_cells c' ! i = abs_cells ?c ! i" if "i < cells_size ?c" "i \<notin> set ?is" for i
    unfolding abs A using nth(2) that by simp
  have sh: "shift c' ! i = 0" if i: "i \<in> set ?is" for i
  proof -
    obtain k where k: "k < length ?is" "i = ?is ! k" using i by (auto simp: in_set_conv_nth)
    have "a_shift (abs_cells c' ! i) = 0" unfolding abs A using nth(1) [OF k(1)] k(2) by (simp add: token_cell_def)
    then show ?thesis using in_c [OF i] size by simp
  qed
  show "\<exists>c''. cells_set_idxs c' ?is old = Some c'' \<and> kv_inv c'' \<and> abs_cells c'' = abs_kv kv ! run_stream kv u s"
    unfolding A using cells_cp_set_idxs_roundtrip [OF d(1) old inv' size frame sh] .
qed

text \<open>The fields that no operation here changes.\<close>

definition same_static :: "kv_cache \<Rightarrow> kv_cache \<Rightarrow> bool" where
  "same_static kv kv' \<longleftrightarrow> kv_ok kv' \<and> kv_size kv' = kv_size kv \<and> (\<exists>cs hs. kv' = kv\<lparr>kc_cells := cs, kc_heads := hs\<rparr>)"

lemma same_staticD:
  assumes "same_static kv kv'"
  shows "kv_ok kv'" "kv_size kv' = kv_size kv" "kc_seq_to_stream kv' = kc_seq_to_stream kv"
    "kc_n_stream kv' = kc_n_stream kv" "kc_swa_type kv' = kc_swa_type kv" "kc_n_swa kv' = kc_n_swa kv"
    "cell_owned kv' = cell_owned kv"
  using assms by (auto simp: same_static_def cell_owned_def [abs_def])

lemma same_kv_static: "same_kv kv kv' \<longleftrightarrow> same_static kv kv' \<and> abs_kv kv' = abs_kv kv"
  by (auto simp: same_kv_def same_static_def)

lemma same_static_trans: "same_static kv kv1 \<Longrightarrow> same_static kv1 kv2 \<Longrightarrow> same_static kv kv2"
  unfolding same_static_def
proof (elim conjE exE, intro conjI)
  fix cs hs cs' hs' assume "kv1 = kv\<lparr>kc_cells := cs, kc_heads := hs\<rparr>" "kv2 = kv1\<lparr>kc_cells := cs', kc_heads := hs'\<rparr>"
  then have "kv2 = kv\<lparr>kc_cells := cs', kc_heads := hs'\<rparr>" by simp
  then show "\<exists>cs hs. kv2 = kv\<lparr>kc_cells := cs, kc_heads := hs\<rparr>" by blast
qed simp_all

lemma same_static_set_stream:
  assumes "same_static kv kv'" and "st < kc_n_stream kv" and "kv_inv c" and "cells_size c = kv_size kv" and "h \<le> kv_size kv"
    and "\<And>a. a \<in> set (abs_cells c) \<Longrightarrow> cell_owned kv st a"
  shows "same_static kv (set_stream st c h kv')"
proof -
  note D = same_staticD [OF assms(1)]
  obtain cs hs where kv': "kv' = kv\<lparr>kc_cells := cs, kc_heads := hs\<rparr>" using assms(1) by (auto simp: same_static_def)
  have "kv_ok (set_stream st c h kv') \<and> kv_size (set_stream st c h kv') = kv_size kv'"
    using kv_ok_set_stream [OF D(1), of st c h] assms(2-6) D by simp
  moreover have "set_stream st c h kv' = kv\<lparr>kc_cells := cs[st := c], kc_heads := hs[st := h]\<rparr>" by (simp add: kv' set_stream_def)
  ultimately show ?thesis using D(2) unfolding same_static_def by metis
qed

lemma restore_undoes:
  assumes ok: "kv_ok kv" and u: "ubatch_ok kv u" and runs: "runs_ok kv u" and swa: "kc_swa_type kv = SWA_NONE"
    and sl: "slot_ok kv u cont sl" and st1: "same_static kv kv1"
    and abs1: "abs_kv kv1 = placed_streams kv u sl (slot_seqs kv u)"
  shows "\<exists>cs. save_cells kv sl [0..<length (sl_strm sl)] = Some cs \<and>
    undoes \<lparr>ps_sinfo = sl, ps_heads_old = kc_heads kv, ps_cells = cs\<rparr> kv1 kv"
proof -
  let ?m = "slot_seqs kv u"
  have m: "length (sl_strm sl) = ?m" using sl by (simp add: slot_ok_def)
  note D = slot_okD [OF ok u sl] and P = placed_streams_nth [OF ok u runs sl]
  have inj: "inj_on (run_stream kv u) {..<?m}" using runs by (simp add: runs_ok_def distinct_map lessThan_atLeast0)
  define f where "f s = the (cells_cp_idxs (run_cells kv u s) (sl_idxs sl ! s))" for s
  note N1 = same_staticD [OF st1]
  have f: "cells_cp_idxs (run_cells kv u s) (sl_idxs sl ! s) = Some (f s)" if s: "s < ?m" for s
  proof -
    have r: "run_stream kv u s < kc_n_stream kv1" using D(2) [OF s] N1(4) by simp
    have "abs_cells (kc_cells kv1 ! run_stream kv u s) =
        placed u (s * slot_tokens kv u) (sl_idxs sl ! s) (abs_kv kv ! run_stream kv u s)"
      using kv_ok_streamD(7) [OF N1(1) r] P(1) [OF s] abs1 by simp
    from restore_stream(1) [OF ok u swa sl s kv_ok_streamD(1) [OF N1(1) r] this] show ?thesis by (auto simp: f_def)
  qed
  have save: "save_cells kv sl [0..<length (sl_strm sl)] = Some (map f [0..<?m])"
    unfolding m by (rule save_cells_Some) (use f D(1) in \<open>simp add: run_cells_def\<close>)
  have "undoes \<lparr>ps_sinfo = sl, ps_heads_old = kc_heads kv, ps_cells = map f [0..<?m]\<rparr> kv1 kv"
    unfolding undoes_def
  proof (intro allI impI)
    fix kv' assume kv': "same_kv kv1 kv'"
    then have st': "same_static kv kv'" and abs': "abs_kv kv' = placed_streams kv u sl ?m"
      using same_static_trans [OF st1] abs1 by (auto simp: same_kv_static)
    let ?step = "\<lambda>s kv'. do {
         let st = sl_strm sl ! s;
         c \<leftarrow> cells_set_idxs (kc_cells kv' ! st) (sl_idxs sl ! s) (map f [0..<?m] ! s);
         Some (kv'\<lparr>kc_cells := (kc_cells kv')[st := c], kc_heads := (kc_heads kv')[st := kc_heads kv ! s]\<rparr>) }"
    let ?Q = "\<lambda>k kv''. same_static kv kv'' \<and> (\<forall>st < kc_n_stream kv. abs_kv kv'' ! st =
       (if st \<in> run_stream kv u ` {..<k} then abs_kv kv ! st else placed_streams kv u sl ?m ! st))"
    have "\<exists>kv''. foldM ?step [0..<?m] kv' = Some kv'' \<and> ?Q ?m kv''"
    proof (rule foldM_upt_inv [where P = ?Q])
      show "?Q 0 kv'" using st' abs' by simp
    next
      fix s kv'' assume s: "s < ?m" and Q: "?Q s kv''"
      let ?st = "run_stream kv u s"
      note N = same_staticD [OF conjunct1 [OF Q]] and st = D(2) [OF s]
      have stN: "?st < kc_n_stream kv''" using st N(4) by simp
      have new: "?st \<notin> run_stream kv u ` {..<s}" using inj_onD [OF inj, of _ s] s by force
      have A: "abs_cells (kc_cells kv'' ! ?st) = placed u (s * slot_tokens kv u) (sl_idxs sl ! s) (abs_kv kv ! ?st)"
        using kv_ok_streamD(7) [OF N(1) stN] Q st new P(1) [OF s] by simp
      obtain c where c: "cells_set_idxs (kc_cells kv'' ! ?st) (sl_idxs sl ! s) (f s) = Some c" "kv_inv c" "abs_cells c = abs_kv kv ! ?st"
        using restore_stream(2) [OF ok u swa sl s kv_ok_streamD(1) [OF N(1) stN] A f [OF s]] by blast
      note d = kv_ok_streamD [OF ok st]
      have size: "cells_size c = kv_size kv" using arg_cong [OF c(3), of length] d(2,7) by simp
      have h: "kc_heads kv ! s \<le> kv_size kv" using kv_ok_streamD(3) [OF ok] slot_seqs_le [OF ok u runs] s by simp
      have own: "cell_owned kv ?st a" if "a \<in> set (abs_cells c)" for a using that d(4,7) c(3) by simp
      note st2 = same_static_set_stream [OF conjunct1 [OF Q] st c(2) size h own]
      have "?step s kv'' = Some (set_stream ?st c (kc_heads kv ! s) kv'')"
        using c(1) D(1) [OF s] s by (simp add: set_stream_def Let_def)
      moreover have "length (abs_kv kv'') = kc_n_stream kv" using N(1,4) by (simp add: abs_kv_def kv_ok_def)
      then have "\<forall>st < kc_n_stream kv. abs_kv (set_stream ?st c (kc_heads kv ! s) kv'') ! st =
         (if st \<in> run_stream kv u ` {..<Suc s} then abs_kv kv ! st else placed_streams kv u sl ?m ! st)"
        unfolding abs_set_stream using Q c(3) st by (auto simp: nth_list_update lessThan_Suc)
      ultimately show "\<exists>kv3. ?step s kv'' = Some kv3 \<and> ?Q (Suc s) kv3" using st2 by blast
    qed
    then obtain kv'' where kv'': "foldM ?step [0..<?m] kv' = Some kv''" and Q: "?Q ?m kv''" by blast
    note N = same_staticD [OF conjunct1 [OF Q]]
    have len: "length (abs_kv kv'') = kc_n_stream kv" "length (abs_kv kv) = kc_n_stream kv"
      using N(1,4) ok by (simp_all add: abs_kv_def kv_ok_def)
    have "abs_kv kv'' ! st = abs_kv kv ! st" if "st < kc_n_stream kv" for st
      using Q that P(2) [of st] len(2) by (cases "st \<in> run_stream kv u ` {..<?m}") auto
    then have "abs_kv kv'' = abs_kv kv" using len by (simp add: list_eq_iff_nth_eq)
    moreover have "restore_state \<lparr>ps_sinfo = sl, ps_heads_old = kc_heads kv, ps_cells = map f [0..<?m]\<rparr> kv' = Some kv''"
      using kv'' by (simp add: restore_state_def m)
    ultimately show "\<exists>kv''. restore_state \<lparr>ps_sinfo = sl, ps_heads_old = kc_heads kv, ps_cells = map f [0..<?m]\<rparr> kv' = Some kv'' \<and>
        same_kv kv kv''" using Q by (auto simp: same_kv_static)
  qed
  then show ?thesis using save by blast
qed

section \<open>The loop over the micro-batches\<close>

lemma overwritten_none:
  assumes "kv_ok kv" and "ubatch_ok kv u" and "kc_swa_type kv = SWA_NONE" and "slot_ok kv u cont sl"
  shows "overwritten kv sl t = {}"
proof -
  have "a_pos a = -1" if "a \<in> set (slot_cells kv sl (slot_seqs kv u))" for a
    using that slot_cells_empty [OF assms] slot_okD(1) [OF assms(1,2,4)] by (auto simp: in_slot_cells)
  then show ?thesis using assms(4) by (auto simp: overwritten_def evicted_from_def slot_ok_def)
qed

lemma same_kv_positions: "same_kv kv kv' \<Longrightarrow> kv_positions kv' = kv_positions kv"
  by (rule kv_positions_cong) (simp_all add: same_kvD)

text \<open>Placing the same micro-batch in caches with the same content gives caches with the same content.\<close>

lemma apply_ubatch_same:
  assumes ok: "kv_ok kv" and u: "ubatch_ok kv u" and runs: "runs_ok kv u" and swa: "kc_swa_type kv = SWA_NONE"
    and sl: "slot_ok kv u cont sl" and kv': "same_kv kv kv'"
  shows "\<exists>kv1. apply_ubatch sl u kv' = Some kv1 \<and> same_static kv kv1 \<and> abs_kv kv1 = placed_streams kv u sl (slot_seqs kv u) \<and>
    (\<forall>t. valid_seq kv t \<longrightarrow> kv_positions kv1 t = kv_positions kv t \<union> new_positions u t)"
proof -
  note N = same_kvD [OF kv'] and E = same_ubatch_ok [OF same_kvD(4,5) [OF kv']]
  have pre: "kv_ok kv'" "ubatch_ok kv' u" "runs_ok kv' u" "kc_swa_type kv' = SWA_NONE" "slot_ok kv' u cont sl"
    using N E u runs swa same_slot_ok [OF ok kv' u sl] by auto
  obtain cs hs where kv1: "apply_ubatch sl u kv' = Some (kv'\<lparr>kc_cells := cs, kc_heads := hs\<rparr>)"
    "kv_ok (kv'\<lparr>kc_cells := cs, kc_heads := hs\<rparr>)" "kv_size (kv'\<lparr>kc_cells := cs, kc_heads := hs\<rparr>) = kv_size kv'"
    "abs_kv (kv'\<lparr>kc_cells := cs, kc_heads := hs\<rparr>) = placed_streams kv' u sl (slot_seqs kv' u)"
    using apply_ubatch_empty_cells [OF pre] by blast
  let ?kv1 = "kv'\<lparr>kc_cells := cs, kc_heads := hs\<rparr>"
  have "same_static kv' ?kv1" using kv1(2,3) by (auto simp: same_static_def)
  then have "same_static kv ?kv1" using kv' same_static_trans by (auto simp: same_kv_static)
  moreover have "abs_kv ?kv1 = placed_streams kv u sl (slot_seqs kv u)"
    using kv1(4) N(2) E by (simp add: placed_streams_def)
  moreover have "kv_positions ?kv1 t = kv_positions kv t \<union> new_positions u t" if "valid_seq kv t" for t
    using apply_ubatch_places [OF pre(1-3,5)] kv1(1) overwritten_none [OF pre(1,2,4,5)] that N(4) same_kv_positions [OF kv']
    by (auto simp: valid_seq_def)
  ultimately show ?thesis using kv1(1) by blast
qed

definition apply_all :: "slot_info list \<Rightarrow> llama_ubatch list \<Rightarrow> kv_cache \<Rightarrow> kv_cache option" where
  "apply_all sls us = foldM (\<lambda>(sl, u). apply_ubatch sl u) (zip sls us)"

lemma prepare_loop_ok:
  assumes "kv_ok kv" and "kc_swa_type kv = SWA_NONE" and "\<forall>u \<in> set us. ubatch_ok kv u \<and> runs_ok kv u"
  shows "\<exists>b sls sts kv1. prepare_loop us res states kv = Some (b, res @ sls, sts @ states, kv1) \<and> length sts = length sls \<and>
    same_static kv kv1 \<and>
    (\<forall>kv'. same_kv kv1 kv' \<longrightarrow> (\<exists>kv''. foldM restore_state sts kv' = Some kv'' \<and> same_kv kv kv'')) \<and>
    (b \<longrightarrow> length sls = length us \<and> (\<forall>kv'. same_kv kv kv' \<longrightarrow> (\<exists>kv''. apply_all sls us kv' = Some kv'' \<and> same_static kv kv'' \<and>
      (\<forall>t. valid_seq kv t \<longrightarrow> kv_positions kv'' t = kv_positions kv t \<union> (\<Union>u \<in> set us. new_positions u t)))))"
  using assms
proof (induction us arbitrary: kv res states)
  case Nil
  have "same_static kv kv" using same_kv_refl [OF Nil(1)] by (simp add: same_kv_static)
  moreover have "same_static kv kv' \<and> kv_positions kv' = kv_positions kv" if "same_kv kv kv'" for kv'
    using that same_kv_positions by (simp add: same_kv_static)
  ultimately show ?case
    by (intro exI [of _ True] exI [of _ "[]"] exI [of _ kv]) (simp add: apply_all_def)
next
  case (Cons u us)
  have swa: "swa_ok kv" using Cons.prems(2) by (simp add: swa_ok_def)
  have u: "ubatch_ok kv u" "runs_ok kv u" using Cons.prems(3) by simp_all
  obtain sl where sl: "find_slot kv u False = Some sl" using find_slot_total [OF Cons.prems(1) swa u(1)] by blast
  show ?case
  proof (cases "slot_empty sl")
    case True
    have "same_static kv kv" using same_kv_refl [OF Cons.prems(1)] by (simp add: same_kv_static)
    then show ?thesis using True sl
      by (intro exI [of _ False] exI [of _ "[]"] exI [of _ kv]) simp
  next
    case False
    note slok = slot_found [OF Cons.prems(1) swa u(1) sl False]
    note ap = apply_ubatch_same [OF Cons.prems(1) u Cons.prems(2) slok]
    from ap [OF same_kv_refl [OF Cons.prems(1)]] obtain kv1 where kv1: "apply_ubatch sl u kv = Some kv1"
      "same_static kv kv1" "abs_kv kv1 = placed_streams kv u sl (slot_seqs kv u)"
      "\<forall>t. valid_seq kv t \<longrightarrow> kv_positions kv1 t = kv_positions kv t \<union> new_positions u t" by blast
    note N = same_staticD [OF kv1(2)] and E = same_ubatch_ok [OF same_staticD(3,4) [OF kv1(2)]]
    obtain cs where save: "save_cells kv sl [0..<length (sl_strm sl)] = Some cs"
      and undo: "undoes \<lparr>ps_sinfo = sl, ps_heads_old = kc_heads kv, ps_cells = cs\<rparr> kv1 kv"
      using restore_undoes [OF Cons.prems(1) u Cons.prems(2) slok kv1(2,3)] by blast
    let ?ps = "\<lparr>ps_sinfo = sl, ps_heads_old = kc_heads kv, ps_cells = cs\<rparr>"
    have us: "\<forall>u \<in> set us. ubatch_ok kv1 u \<and> runs_ok kv1 u" and swa1: "kc_swa_type kv1 = SWA_NONE"
      using Cons.prems(2,3) E N(5) by simp_all
    obtain b sls sts kv2 where IH: "prepare_loop us (res @ [sl]) (?ps # states) kv1 = Some (b, (res @ [sl]) @ sls, sts @ ?ps # states, kv2)"
      "length sts = length sls" "same_static kv1 kv2"
      "\<forall>kv'. same_kv kv2 kv' \<longrightarrow> (\<exists>kv''. foldM restore_state sts kv' = Some kv'' \<and> same_kv kv1 kv'')"
      "b \<longrightarrow> length sls = length us \<and> (\<forall>kv'. same_kv kv1 kv' \<longrightarrow> (\<exists>kv''. apply_all sls us kv' = Some kv'' \<and> same_static kv1 kv'' \<and>
        (\<forall>t. valid_seq kv1 t \<longrightarrow> kv_positions kv'' t = kv_positions kv1 t \<union> (\<Union>u \<in> set us. new_positions u t))))"
      using Cons.IH [OF N(1) swa1 us, of "res @ [sl]" "?ps # states"] by (elim exE conjE)
    have run: "prepare_loop (u # us) res states kv = Some (b, res @ sl # sls, (sts @ [?ps]) @ states, kv2)"
      using sl False save kv1(1) IH(1) by simp
    have rev_ok: "\<exists>kv''. foldM restore_state (sts @ [?ps]) kv' = Some kv'' \<and> same_kv kv kv''" if kv2': "same_kv kv2 kv'" for kv'
    proof -
      obtain kva where kva: "foldM restore_state sts kv' = Some kva" "same_kv kv1 kva" using IH(4) kv2' by blast
      then obtain kvb where "restore_state ?ps kva = Some kvb" "same_kv kv kvb" using undo by (auto simp: undoes_def)
      then show ?thesis using kva(1) by (simp add: foldM_append)
    qed
    have fwd: "\<exists>kv''. apply_all (sl # sls) (u # us) kv' = Some kv'' \<and> same_static kv kv'' \<and>
      (\<forall>t. valid_seq kv t \<longrightarrow> kv_positions kv'' t = kv_positions kv t \<union> (\<Union>u \<in> set (u # us). new_positions u t))"
      if b: "b" and kv': "same_kv kv kv'" for kv'
    proof -
      obtain kv1' where kv1': "apply_ubatch sl u kv' = Some kv1'" "same_static kv kv1'" "abs_kv kv1' = abs_kv kv1"
        using ap [OF kv'] kv1(3) by auto
      have "same_kv kv1 kv1'"
      proof -
        obtain c1 h1 c2 h2 where "kv1 = kv\<lparr>kc_cells := c1, kc_heads := h1\<rparr>" "kv1' = kv\<lparr>kc_cells := c2, kc_heads := h2\<rparr>"
          using kv1(2) kv1'(2) by (auto simp: same_static_def)
        then have "kv1' = kv1\<lparr>kc_cells := c2, kc_heads := h2\<rparr>" by simp
        moreover have "kv_size kv1' = kv_size kv1" using N(2) same_staticD(2) [OF kv1'(2)] by simp
        ultimately show ?thesis using kv1'(3) same_staticD(1) [OF kv1'(2)]
          unfolding same_kv_def by (intro conjI exI [of _ c2] exI [of _ h2])
      qed
      then obtain kv'' where kv'': "apply_all sls us kv1' = Some kv''" "same_static kv1 kv''"
        "\<forall>t. valid_seq kv1 t \<longrightarrow> kv_positions kv'' t = kv_positions kv1 t \<union> (\<Union>u \<in> set us. new_positions u t)"
        using IH(5) b by blast
      have "valid_seq kv1 = valid_seq kv" using N(3) by (simp add: valid_seq_def [abs_def])
      then have "\<forall>t. valid_seq kv t \<longrightarrow> kv_positions kv'' t = kv_positions kv t \<union> (\<Union>u \<in> set (u # us). new_positions u t)"
        using kv''(3) kv1(4) by (simp add: Un_assoc)
      moreover have "apply_all (sl # sls) (u # us) kv' = Some kv''" using kv1'(1) kv''(1) by (simp add: apply_all_def)
      ultimately show ?thesis using same_static_trans [OF kv1(2) kv''(2)] by blast
    qed
    have len: "length (sts @ [?ps]) = length (sl # sls)" "b \<longrightarrow> length (sl # sls) = length (u # us)" using IH(2,5) by auto
    show ?thesis
      by (rule exI [of _ b], rule exI [of _ "sl # sls"], rule exI [of _ "sts @ [?ps]"], rule exI [of _ kv2])
        (use run len same_static_trans [OF kv1(2) IH(3)] rev_ok fwd in blast)
  qed
qed

section \<open>Properties\<close>

declare slot_search.simps [code]

text \<open>A fresh cache of two streams whose second head has moved.\<close>

definition two_streams :: "kv_cache option" where
  "two_streams = map_option (\<lambda>kv. kv\<lparr>kc_heads := [0, 1]\<rparr>) (kv_cache_new False False 2 2 1 0 SWA_NONE 1 False 1)"

text \<open>C11: On a cache without sliding window, the dry run \<^verbatim>\<open>prepare\<close> of well-formed micro-batches returns and leaves
  the content of every cell as it was. When it returns slots, there is one per micro-batch, and applying
  the micro-batches to these slots in order does not abort and adds exactly the positions of their tokens.\<close>

theorem prepare_dry_run:
  assumes "kv_ok kv" and "kc_swa_type kv = SWA_NONE" and "us \<noteq> []" and "\<And>u. u \<in> set us \<Longrightarrow> ubatch_ok kv u \<and> runs_ok kv u"
  shows "\<exists>sls kv'. prepare us kv = Some (sls, kv') \<and> kv_ok kv' \<and> abs_kv kv' = abs_kv kv \<and>
    (sls = [] \<or> length sls = length us \<and> (\<exists>kv''. apply_all sls us kv' = Some kv'' \<and> kv_ok kv'' \<and>
      (\<forall>t. valid_seq kv t \<longrightarrow> kv_positions kv'' t = kv_positions kv t \<union> (\<Union>u \<in> set us. new_positions u t))))"
proof -
  have us: "\<forall>u \<in> set us. ubatch_ok kv u \<and> runs_ok kv u" using assms(4) by blast
  obtain b sls sts kv1 where loop: "prepare_loop us [] [] kv = Some (b, sls, sts, kv1)" and len: "length sts = length sls"
    and st1: "same_static kv kv1"
    and undo: "\<forall>kv'. same_kv kv1 kv' \<longrightarrow> (\<exists>kv''. foldM restore_state sts kv' = Some kv'' \<and> same_kv kv kv'')"
    and redo: "b \<longrightarrow> length sls = length us \<and> (\<forall>kv'. same_kv kv kv' \<longrightarrow> (\<exists>kv''. apply_all sls us kv' = Some kv'' \<and> same_static kv kv'' \<and>
      (\<forall>t. valid_seq kv t \<longrightarrow> kv_positions kv'' t = kv_positions kv t \<union> (\<Union>u \<in> set us. new_positions u t))))"
    using prepare_loop_ok [OF assms(1,2) us, of "[]" "[]"] unfolding append_Nil append_Nil2 by (elim exE conjE)
  obtain kv' where kv': "foldM restore_state sts kv1 = Some kv'" "same_kv kv kv'"
    using undo same_kv_refl [OF same_staticD(1) [OF st1]] by blast
  have "sts \<noteq> [] \<or> \<not> b" using redo len assms(3) by (cases us) auto
  then have run: "prepare us kv = Some (if b then sls else [], kv')" using loop kv'(1) by (simp add: prepare_def)
  note N = same_kvD(1,2) [OF kv'(2)]
  show ?thesis
  proof (cases b)
    case True
    then obtain kv'' where "apply_all sls us kv' = Some kv''" "same_static kv kv''"
      "\<forall>t. valid_seq kv t \<longrightarrow> kv_positions kv'' t = kv_positions kv t \<union> (\<Union>u \<in> set us. new_positions u t)"
      using redo kv'(2) by blast
    then show ?thesis using run True N redo same_staticD(1) [of kv kv''] by (intro exI [of _ sls] exI [of _ kv']) auto
  next
    case False
    then show ?thesis using run N by (intro exI [of _ "[]"] exI [of _ kv']) simp
  qed
qed

text \<open>The recovery of \<^verbatim>\<open>prepare\<close> reads the saved head of a stream at the index of the run in the slot instead of
  the stream: on a cache of two streams with heads 0 and 1, the dry run of a token of sequence 1 finds its
  slot and leaves the heads 0 and 0.\<close>

theorem prepare_loses_head:
  "map_option (\<lambda>(sls, kv'). (sls \<noteq> [], kc_heads kv'))
     (Option.bind two_streams (prepare [demo_ubatch\<lparr>u_seq_id := [[1]], u_seq_id_unq := [1]\<rparr>])) = Some (True, [0, 0]) \<and>
   map_option kc_heads two_streams = Some [0, 1]"
  by code_simp

theorem prepare_dry_run_witness:
  "\<exists>kv sls kv'. prepare [demo_ubatch] kv = Some (sls, kv') \<and> abs_kv kv' = abs_kv kv"
proof -
  obtain kv where "kv_ok kv" "kc_swa_type kv = SWA_NONE" "ubatch_ok kv demo_ubatch" "runs_ok kv demo_ubatch"
    using demo_slot by blast
  from prepare_dry_run [OF this(1,2), of "[demo_ubatch]"] this(3,4) show ?thesis by auto
qed

end
