(* ===== verification/Recurrent.thy ===== *)
theory Recurrent
  imports KvPlace
begin

text \<open>
  The recurrent-state memory (\<^verbatim>\<open>src/llama-memory-recurrent.cpp\<close>). A cell holds the state of one position of every sequence in its
  \<^verbatim>\<open>seq_id\<close> set; \<^verbatim>\<open>cells[s].tail\<close> is the cell that holds sequence \<^verbatim>\<open>s\<close>. The state tensors are outside the model; where the graph takes a
  cell's state from (\<^verbatim>\<open>src\<close>, \<^verbatim>\<open>src0\<close>, \<^verbatim>\<open>rs_z\<close>) is inside. A failed \<^verbatim>\<open>GGML_ASSERT\<close> and an access outside \<^verbatim>\<open>cells\<close> give \<open>None\<close>.
\<close>

section \<open>State\<close>

record mem_cell =
  mc_pos :: int
  mc_src :: int
  mc_src0 :: int
  mc_tail :: int
  mc_seq :: "int set"

definition mem_cell_init :: mem_cell where
  "mem_cell_init = \<lparr>mc_pos = -1, mc_src = -1, mc_src0 = -1, mc_tail = -1, mc_seq = {}\<rparr>"

record memory_recurrent =
  mr_head :: nat
  mr_size :: nat
  mr_used :: nat
  mr_n :: nat
  mr_rs_z :: int
  mr_cells :: "mem_cell list"

definition memory_recurrent_new :: "nat \<Rightarrow> memory_recurrent" where
  "memory_recurrent_new mem_size =
     \<lparr>mr_head = 0, mr_size = mem_size, mr_used = 0, mr_n = 0, mr_rs_z = -1, mr_cells = replicate mem_size mem_cell_init\<rparr>"

text \<open>\<^verbatim>\<open>used\<close> is an unsigned 32-bit counter.\<close>

definition dec_used :: "memory_recurrent \<Rightarrow> memory_recurrent" where
  "dec_used m = m\<lparr>mr_used := (if mr_used m = 0 then 4294967295 else mr_used m - 1)\<rparr>"

definition upd_cell :: "nat \<Rightarrow> (mem_cell \<Rightarrow> mem_cell) \<Rightarrow> memory_recurrent \<Rightarrow> memory_recurrent" where
  "upd_cell i f m = m\<lparr>mr_cells := (mr_cells m)[i := f (mr_cells m ! i)]\<rparr>"

definition lower_rs_head :: "nat \<Rightarrow> memory_recurrent \<Rightarrow> memory_recurrent" where
  "lower_rs_head new_head m = (if new_head \<noteq> mr_size m \<and> new_head < mr_head m then m\<lparr>mr_head := new_head\<rparr> else m)"

section \<open>Sequence operations\<close>

definition rs_clear :: "memory_recurrent \<Rightarrow> memory_recurrent" where
  "rs_clear m = m\<lparr>mr_cells := map (\<lambda>c. c\<lparr>mc_pos := -1, mc_seq := {}, mc_src := -1, mc_tail := -1\<rparr>) (mr_cells m), mr_head := 0, mr_used := 0\<rparr>"

definition rs_rm_step :: "int \<Rightarrow> int \<Rightarrow> int \<Rightarrow> nat \<Rightarrow> nat \<times> memory_recurrent \<Rightarrow> nat \<times> memory_recurrent" where
  "rs_rm_step s p0 p1 i = (\<lambda>(new_head, m).
     let c = mr_cells m ! i in
     if \<not> (mc_pos c \<ge> p0 \<and> mc_pos c < p1) \<or> \<not> (s < 0 \<or> s \<in> mc_seq c) then (new_head, m)
     else
       let m = upd_cell i (\<lambda>c. c\<lparr>mc_seq := (if s < 0 then {} else mc_seq c - {s})\<rparr>) m in
       if mc_seq (mr_cells m ! i) = {} then
         let m = (if mc_pos c \<ge> 0 then dec_used m else m) in
         (if new_head = mr_size m then i else new_head, upd_cell i (\<lambda>c. c\<lparr>mc_pos := -1, mc_src := -1\<rparr>) m)
       else (new_head, m))"

text \<open>The checks before the loop: \<open>Some None\<close> is the early \<^verbatim>\<open>return false\<close>.\<close>

definition rs_rm_check :: "int \<Rightarrow> int \<Rightarrow> int \<Rightarrow> memory_recurrent \<Rightarrow> memory_recurrent option option" where
  "rs_rm_check s p0 p1 m =
     (if s \<ge> int (mr_size m) then Some None
      else if 0 \<le> s then
        let t = mc_tail (mr_cells m ! nat s) in
        if t \<ge> 0 then do {
          assert_opt (nat t < length (mr_cells m));
          let p = mc_pos (mr_cells m ! nat t);
          if (0 < p0 \<and> p0 < p) \<or> (0 < p1 \<and> p1 \<le> p) then Some None
          else Some (Some (if p0 \<le> p \<and> p < p1 then upd_cell (nat s) (\<lambda>c. c\<lparr>mc_tail := -1\<rparr>) m else m)) }
        else Some (Some m)
      else if p0 \<noteq> p1 \<and> (p0 \<noteq> 0 \<or> p1 \<noteq> LLAMA_POS_MAX) then Some None
      else Some (Some m))"

definition rs_seq_rm :: "int \<Rightarrow> int \<Rightarrow> int \<Rightarrow> memory_recurrent \<Rightarrow> (bool \<times> memory_recurrent) option" where
  "rs_seq_rm s p0 p1 m = do {
     let p0 = clamp_p0 p0;
     let p1 = clamp_p1 p1;
     r \<leftarrow> rs_rm_check s p0 p1 m;
     case r of
       None \<Rightarrow> Some (False, m)
     | Some m \<Rightarrow>
         let (new_head, m) = fold (rs_rm_step s p0 p1) [0..<mr_size m] (mr_size m, m) in
         Some (True, lower_rs_head new_head m) }"

text \<open>The block that \<^verbatim>\<open>seq_cp\<close> and \<^verbatim>\<open>find_slot\<close> share: take a sequence out of its cell.\<close>

definition rs_detach :: "int \<Rightarrow> memory_recurrent \<Rightarrow> memory_recurrent option" where
  "rs_detach q m =
     (let t = mc_tail (mr_cells m ! nat q) in
      if t \<ge> 0 then do {
        assert_opt (nat t < length (mr_cells m));
        let m = upd_cell (nat t) (\<lambda>c. c\<lparr>mc_seq := mc_seq c - {q}\<rparr>) m;
        let m = upd_cell (nat q) (\<lambda>c. c\<lparr>mc_tail := -1\<rparr>) m;
        if mc_seq (mr_cells m ! nat t) = {}
        then Some (dec_used (upd_cell (nat t) (\<lambda>c. c\<lparr>mc_pos := -1, mc_src := -1\<rparr>) m))
        else Some m }
      else Some m)"

text \<open>The range is clamped and then not looked at: the whole state is shared.\<close>

definition rs_seq_cp :: "int \<Rightarrow> int \<Rightarrow> int \<Rightarrow> int \<Rightarrow> memory_recurrent \<Rightarrow> memory_recurrent option" where
  "rs_seq_cp src dst p0 p1 m =
     (if src = dst then Some m
      else if (0 \<le> dst \<and> nat dst < mr_size m) \<and> (0 \<le> src \<and> nat src < mr_size m) then do {
        m \<leftarrow> rs_detach dst m;
        let t = mc_tail (mr_cells m ! nat src);
        if t \<ge> 0 then do {
          assert_opt (nat t < length (mr_cells m));
          let m = upd_cell (nat t) (\<lambda>c. c\<lparr>mc_seq := insert dst (mc_seq c)\<rparr>) m;
          Some (upd_cell (nat dst) (\<lambda>c. c\<lparr>mc_tail := t\<rparr>) m) }
        else Some m }
      else Some m)"

definition rs_keep_step :: "int \<Rightarrow> nat \<Rightarrow> nat \<times> memory_recurrent \<Rightarrow> nat \<times> memory_recurrent" where
  "rs_keep_step s i = (\<lambda>(new_head, m).
     let m = (if int i \<noteq> s then upd_cell i (\<lambda>c. c\<lparr>mc_tail := -1\<rparr>) m else m) in
     if s \<notin> mc_seq (mr_cells m ! i) then
       let m = (if mc_pos (mr_cells m ! i) \<ge> 0 then dec_used m else m) in
       (if new_head = mr_size m then i else new_head, upd_cell i (\<lambda>c. c\<lparr>mc_pos := -1, mc_src := -1, mc_seq := {}\<rparr>) m)
     else (new_head, upd_cell i (\<lambda>c. c\<lparr>mc_seq := {s}\<rparr>) m))"

definition rs_seq_keep :: "int \<Rightarrow> memory_recurrent \<Rightarrow> memory_recurrent" where
  "rs_seq_keep s m =
     (let (new_head, m) = fold (rs_keep_step s) [0..<mr_size m] (mr_size m, m) in lower_rs_head new_head m)"

definition rs_shift_pos :: "int \<Rightarrow> int \<Rightarrow> int \<Rightarrow> (int \<Rightarrow> int) \<Rightarrow> memory_recurrent \<Rightarrow> memory_recurrent option" where
  "rs_shift_pos s p0 p1 f m =
     (if 0 \<le> s \<and> s < int (mr_size m) then
        let t = mc_tail (mr_cells m ! nat s) in
        if t \<ge> 0 then do {
          assert_opt (nat t < length (mr_cells m));
          let c = mr_cells m ! nat t;
          if s \<in> mc_seq c \<and> p0 \<le> mc_pos c \<and> mc_pos c < p1 then Some (upd_cell (nat t) (\<lambda>c. c\<lparr>mc_pos := f (mc_pos c)\<rparr>) m)
          else Some m }
        else Some m
      else Some m)"

definition rs_seq_add :: "int \<Rightarrow> int \<Rightarrow> int \<Rightarrow> int \<Rightarrow> memory_recurrent \<Rightarrow> memory_recurrent option" where
  "rs_seq_add s p0 p1 d m =
     (if d = 0 then Some m
      else if clamp_p0 p0 = clamp_p1 p1 then Some m
      else rs_shift_pos s (clamp_p0 p0) (clamp_p1 p1) (\<lambda>p. i32 (p + d)) m)"

definition rs_seq_div :: "int \<Rightarrow> int \<Rightarrow> int \<Rightarrow> int \<Rightarrow> memory_recurrent \<Rightarrow> memory_recurrent option" where
  "rs_seq_div s p0 p1 d m =
     (if d = 1 then Some m
      else if clamp_p0 p0 = clamp_p1 p1 then Some m
      else do {
        assert_opt (d \<noteq> 0);
        rs_shift_pos s (clamp_p0 p0) (clamp_p1 p1) (\<lambda>p. p sdiv d) m })"

definition rs_seq_pos_min :: "int \<Rightarrow> memory_recurrent \<Rightarrow> int" where
  "rs_seq_pos_min s m =
     (let r = fold (\<lambda>c r. if s \<in> mc_seq c then min r (mc_pos c) else r) (mr_cells m) LLAMA_POS_MAX in
      if r = LLAMA_POS_MAX then -1 else r)"

definition rs_seq_pos_max :: "int \<Rightarrow> memory_recurrent \<Rightarrow> int" where
  "rs_seq_pos_max s m = fold (\<lambda>c r. if s \<in> mc_seq c then max r (mc_pos c) else r) (mr_cells m) (-1)"

section \<open>Placing a micro-batch\<close>

text \<open>\<^verbatim>\<open>rs_ids u s\<close>: the sequence ids of the first token of sequence set \<^verbatim>\<open>s\<close>; \<^verbatim>\<open>rs_id0 u s\<close>: the first of them.\<close>

definition rs_ids :: "llama_ubatch \<Rightarrow> nat \<Rightarrow> int list" where
  "rs_ids u s = token_seqs u (s * u_n_seq_tokens u)"

definition rs_id0 :: "llama_ubatch \<Rightarrow> nat \<Rightarrow> int" where
  "rs_id0 u s = u_seq_id u ! (s * u_n_seq_tokens u) ! 0"

text \<open>Every id in range, and the ids after the first of a set taken out of their cells.\<close>

fun fs_check_ids :: "nat \<Rightarrow> int list \<Rightarrow> memory_recurrent \<Rightarrow> (bool \<times> memory_recurrent) option" where
  "fs_check_ids j [] m = Some (True, m)"
| "fs_check_ids j (q # qs) m =
     (if q < 0 \<or> nat q \<ge> mr_size m then Some (False, m)
      else do {
        m \<leftarrow> (if j > 0 then rs_detach q m else Some m);
        fs_check_ids (Suc j) qs m })"

fun fs_check_sets :: "int list list \<Rightarrow> memory_recurrent \<Rightarrow> (bool \<times> memory_recurrent) option" where
  "fs_check_sets [] m = Some (True, m)"
| "fs_check_sets (ids # rest) m = do {
     (ok, m) \<leftarrow> fs_check_ids 0 ids m;
     if ok then fs_check_sets rest m else Some (False, m) }"

text \<open>The two searches for an empty cell, with the number of iterations left.\<close>

fun first_empty :: "mem_cell list \<Rightarrow> nat \<Rightarrow> nat \<Rightarrow> nat" where
  "first_empty cs 0 e = e"
| "first_empty cs (Suc k) e =
     (let e = (if e \<ge> length cs then e - length cs else e) in
      if mc_seq (cs ! e) = {} then e else first_empty cs k (e + 1))"

fun next_empty :: "mem_cell list \<Rightarrow> nat \<Rightarrow> nat \<Rightarrow> nat" where
  "next_empty cs 0 e = e"
| "next_empty cs (Suc k) e =
     (let e = e + 1; e = (if e \<ge> length cs then e - length cs else e) in
      if mc_seq (cs ! e) = {} then e else next_empty cs k e)"

text \<open>\<^verbatim>\<open>fs_own\<close>: does the sequence own its cell?\<close>

definition fs_own :: "mem_cell list \<Rightarrow> int \<Rightarrow> bool option" where
  "fs_own cs q =
     (let t = mc_tail (cs ! nat q) in
      if t \<ge> 0 then do {
        assert_opt (nat t < length cs);
        assert_opt (q \<in> mc_seq (cs ! nat t));
        Some (card (mc_seq (cs ! nat t)) = 1) }
      else Some False)"

definition fs_take :: "mem_cell list \<Rightarrow> int \<Rightarrow> nat \<Rightarrow> mem_cell list option" where
  "fs_take cs q e = do {
     assert_opt (e < length cs \<and> mc_seq (cs ! e) = {});
     let t = mc_tail (cs ! nat q);
     cs \<leftarrow> (if t \<ge> 0 then do {
         let cs = cs[e := (cs ! e)\<lparr>mc_pos := mc_pos (cs ! nat t), mc_src := mc_src (cs ! nat t)\<rparr>];
         let cs = cs[nat t := (cs ! nat t)\<lparr>mc_seq := mc_seq (cs ! nat t) - {q}\<rparr>];
         let cs = cs[e := (cs ! e)\<lparr>mc_seq := insert q (mc_seq (cs ! e))\<rparr>];
         assert_opt (mc_seq (cs ! nat t) \<noteq> {});
         Some cs }
       else Some cs);
     Some (cs[nat q := (cs ! nat q)\<lparr>mc_tail := int e\<rparr>]) }"

definition fs_use_step :: "llama_ubatch \<Rightarrow> nat \<Rightarrow> mem_cell list \<times> nat \<times> int \<times> int \<Rightarrow> (mem_cell list \<times> nat \<times> int \<times> int) option" where
  "fs_use_step u s = (\<lambda>(cs, e, mn, mx). do {
     let q = rs_id0 u s;
     own \<leftarrow> fs_own cs q;
     (cs, e) \<leftarrow> (if own then Some (cs, e)
       else do {
         cs \<leftarrow> fs_take cs q e;
         Some (cs, if s + 1 < u_n_seqs u then next_empty cs (length cs) e else e) });
     let t = mc_tail (cs ! nat q);
     Some (cs, e, min mn t, max mx t) })"

definition swap_cells :: "nat \<Rightarrow> nat \<Rightarrow> mem_cell list \<Rightarrow> mem_cell list" where
  "swap_cells d c cs =
     (let x = cs ! d; y = cs ! c;
          cs = cs[d := x\<lparr>mc_pos := mc_pos y, mc_src := mc_src y, mc_seq := mc_seq y\<rparr>];
          cs = cs[c := (cs ! c)\<lparr>mc_pos := mc_pos x, mc_src := mc_src x, mc_seq := mc_seq x\<rparr>] in
      map (\<lambda>z. if mc_tail z = int c then z\<lparr>mc_tail := int d\<rparr> else if mc_tail z = int d then z\<lparr>mc_tail := int c\<rparr> else z) cs)"

definition fs_gather_step :: "llama_ubatch \<Rightarrow> int \<Rightarrow> nat \<Rightarrow> mem_cell list \<Rightarrow> mem_cell list option" where
  "fs_gather_step u mn s cs = do {
     let dst = int s + mn;
     let src = mc_tail (cs ! nat (rs_id0 u s));
     if dst \<noteq> src then do {
       assert_opt (0 \<le> dst \<and> nat dst < length cs \<and> 0 \<le> src \<and> nat src < length cs);
       Some (swap_cells (nat dst) (nat src) cs) }
     else Some cs }"

definition fs_set_step :: "llama_ubatch \<Rightarrow> int \<Rightarrow> nat \<Rightarrow> mem_cell list \<Rightarrow> mem_cell list option" where
  "fs_set_step u mn s cs = do {
     let i = s * u_n_seq_tokens u;
     assert_opt (i + u_n_seq_tokens u - 1 < length (u_pos u) \<and> u_n_seq_tokens u > 0);
     let last_pos = u_pos u ! (i + u_n_seq_tokens u - 1);
     let c = nat (int s + mn);
     assert_opt (0 \<le> int s + mn \<and> c < length cs);
     let cs = cs[c := (cs ! c)\<lparr>mc_pos := last_pos, mc_seq := {}\<rparr>];
     Some (fold (\<lambda>q cs.
         let cs = cs[c := (cs ! c)\<lparr>mc_seq := insert q (mc_seq (cs ! c))\<rparr>] in
         cs[nat q := (cs ! nat q)\<lparr>mc_tail := int c\<rparr>]) (rs_ids u s) cs) }"

text \<open>Staging: the first cell of the range no cell takes its state from becomes the zeroed state.\<close>

definition refcount :: "mem_cell list \<Rightarrow> nat \<Rightarrow> nat" where
  "refcount cs i = length (filter (\<lambda>c. mc_src c = int i) cs)"

definition fs_rs_z :: "mem_cell list \<Rightarrow> nat list \<Rightarrow> int" where
  "fs_rs_z cs rng = (case find (\<lambda>i. refcount cs i = 0) rng of None \<Rightarrow> -1 | Some i \<Rightarrow> int i)"

definition fs_stage_step :: "int \<Rightarrow> nat \<Rightarrow> mem_cell list \<Rightarrow> mem_cell list option" where
  "fs_stage_step z i cs = do {
     assert_opt (i < length cs);
     let src = mc_src (cs ! i);
     assert_opt (src < 0 \<longrightarrow> z \<ge> 0);
     Some (cs[i := (cs ! i)\<lparr>mc_src0 := (if src < 0 then z else src), mc_src := int i\<rparr>]) }"

definition fs_place :: "llama_ubatch \<Rightarrow> nat \<Rightarrow> mem_cell list \<Rightarrow> (int \<times> int \<times> int \<times> mem_cell list) option" where
  "fs_place u head cs = do {
     (cs, _, mn, mx) \<leftarrow> foldM (fs_use_step u) [0..<u_n_seqs u] (cs, first_empty cs (length cs) head, int (length cs) - 1, 0);
     cs \<leftarrow> foldM (fs_gather_step u mn) [0..<u_n_seqs u] cs;
     cs \<leftarrow> foldM (fs_set_step u mn) [0..<u_n_seqs u] cs;
     assert_opt (\<forall>c \<in> set cs. mc_src c < int (length cs));
     let rng = map nat [mn..mx];
     let z = fs_rs_z cs rng;
     cs \<leftarrow> foldM (fs_stage_step z) rng cs;
     Some (mn, mx, z, cs) }"

definition rs_find_slot :: "llama_ubatch \<Rightarrow> memory_recurrent \<Rightarrow> (bool \<times> memory_recurrent) option" where
  "rs_find_slot u m = do {
     let m = (if mr_head m > mr_used m + 2 * u_n_seqs u then m\<lparr>mr_head := 0\<rparr> else m);
     assert_opt (b_equal_seqs u);
     (ok, m) \<leftarrow> fs_check_sets (map (rs_ids u) [0..<u_n_seqs u]) m;
     if \<not> ok then Some (False, m)
     else do {
       (mn, mx, z, cs) \<leftarrow> fs_place u (mr_head m) (mr_cells m);
       let n = nat ((mx - mn + 1) mod 4294967296);
       Some (n \<ge> u_n_seqs u,
         m\<lparr>mr_cells := cs, mr_rs_z := z, mr_head := nat mn, mr_n := n,
           mr_used := length (filter (\<lambda>c. mc_seq c \<noteq> {}) cs)\<rparr>) } }"

section \<open>Batches and contexts\<close>

fun rs_prepare_loop :: "llama_ubatch list \<Rightarrow> memory_recurrent \<Rightarrow> (bool \<times> memory_recurrent) option" where
  "rs_prepare_loop [] m = Some (True, m)"
| "rs_prepare_loop (u # us) m = do {
     (ok, m) \<leftarrow> rs_find_slot u m;
     if ok then rs_prepare_loop us m else Some (False, m) }"

definition rs_prepare :: "llama_ubatch list \<Rightarrow> memory_recurrent \<Rightarrow> (bool \<times> memory_recurrent) option" where
  "rs_prepare us m = do {
     (success, m') \<leftarrow> rs_prepare_loop us m;
     Some (success, m'\<lparr>mr_cells := mr_cells m, mr_used := mr_used m, mr_head := mr_head m\<rparr>) }"

record recurrent_context =
  rx_status :: llama_memory_status
  rx_i_next :: nat
  rx_ubatches :: "llama_ubatch list"
  rx_is_full :: bool

definition rs_context_status :: "llama_memory_status \<Rightarrow> recurrent_context" where
  "rs_context_status st = \<lparr>rx_status = st, rx_i_next = 0, rx_ubatches = [], rx_is_full = False\<rparr>"

definition rs_context_batch :: "llama_ubatch list \<Rightarrow> recurrent_context" where
  "rs_context_batch us = (rs_context_status STATUS_SUCCESS)\<lparr>rx_ubatches := us\<rparr>"

definition rs_init_batch :: "nat \<Rightarrow> bool \<Rightarrow> llama_batch_allocr \<Rightarrow> memory_recurrent \<Rightarrow>
    (recurrent_context \<times> llama_batch_allocr \<times> memory_recurrent) option" where
  "rs_init_batch n_ubatch embd_all a m = do {
     let failed = rs_context_status STATUS_FAILED_PREPARE;
     (us, a) \<leftarrow> split_loop (if embd_all then split_seq n_ubatch else split_equal n_ubatch True) (split_reset a);
     if ba_n_used a < get_n_tokens a then Some (failed, a, m)
     else do {
       (ok, m) \<leftarrow> rs_prepare us m;
       if \<not> ok then Some (failed, a, m) else Some (rs_context_batch us, a, m) } }"

definition rs_init_full :: "recurrent_context" where
  "rs_init_full = (rs_context_status STATUS_SUCCESS)\<lparr>rx_is_full := True\<rparr>"

definition rs_init_update :: "recurrent_context" where
  "rs_init_update = rs_context_status STATUS_NO_UPDATE"

definition rs_context_next :: "recurrent_context \<Rightarrow> (bool \<times> recurrent_context) option" where
  "rs_context_next cx = do {
     assert_opt (rx_status cx = STATUS_SUCCESS);
     let cx = cx\<lparr>rx_i_next := rx_i_next cx + 1\<rparr>;
     Some (\<not> (rx_i_next cx \<ge> length (rx_ubatches cx)), cx) }"

definition rs_context_apply :: "recurrent_context \<Rightarrow> memory_recurrent \<Rightarrow> (bool \<times> memory_recurrent) option" where
  "rs_context_apply cx m = do {
     assert_opt (\<not> llama_memory_status_is_fail (rx_status cx));
     if rx_ubatches cx = [] then do {
       assert_opt (rx_status cx = STATUS_NO_UPDATE);
       Some (True, m) }
     else do {
       assert_opt (rx_i_next cx < length (rx_ubatches cx));
       (_, m) \<leftarrow> rs_find_slot (rx_ubatches cx ! rx_i_next cx) m;
       Some (True, m) } }"

definition rs_context_get_ubatch :: "recurrent_context \<Rightarrow> llama_ubatch option" where
  "rs_context_get_ubatch cx = do {
     assert_opt (rx_status cx = STATUS_SUCCESS);
     assert_opt (rx_i_next cx < length (rx_ubatches cx));
     Some (rx_ubatches cx ! rx_i_next cx) }"

definition get_n_rs :: "recurrent_context \<Rightarrow> memory_recurrent \<Rightarrow> nat" where
  "get_n_rs cx m = (if rx_is_full cx then mr_size m else mr_n m)"

definition rs_get_head :: "recurrent_context \<Rightarrow> memory_recurrent \<Rightarrow> nat" where
  "rs_get_head cx m = (if rx_is_full cx then 0 else mr_head m)"

definition get_rs_z :: "recurrent_context \<Rightarrow> memory_recurrent \<Rightarrow> int" where
  "get_rs_z cx m = (if rx_is_full cx then 0 else mr_rs_z m)"

definition s_copy :: "nat \<Rightarrow> memory_recurrent \<Rightarrow> int option" where
  "s_copy i m = do {
     assert_opt (i + mr_head m < length (mr_cells m));
     Some (mc_src0 (mr_cells m ! (i + mr_head m))) }"

end
