(* ===== verification/RecurrentOps.thy ===== *)
theory RecurrentOps
  imports Recurrent
begin

text \<open>
  The invariant of the recurrent memory and its sequence operations: each keeps the invariant and acts on the map from sequences to
  positions as its interface promises.
\<close>

section \<open>The invariant\<close>

text \<open>\<^verbatim>\<open>vseq cs i\<close>: the sequences whose tail is cell \<open>i\<close>. In a consistent memory they are the cell's \<^verbatim>\<open>seq_id\<close> set.\<close>

definition vseq :: "mem_cell list \<Rightarrow> nat \<Rightarrow> int set" where
  "vseq cs i = {q. 0 \<le> q \<and> nat q < length cs \<and> mc_tail (cs ! nat q) = int i}"

definition tails_ok :: "mem_cell list \<Rightarrow> bool" where
  "tails_ok cs \<longleftrightarrow> (\<forall>i < length cs. mc_tail (cs ! i) = -1 \<or> 0 \<le> mc_tail (cs ! i) \<and> nat (mc_tail (cs ! i)) < length cs)"

definition pos_ok :: "mem_cell \<Rightarrow> bool" where
  "pos_ok c \<longleftrightarrow> (if mc_seq c = {} then mc_pos c = -1 else 0 \<le> mc_pos c \<and> mc_pos c < LLAMA_POS_MAX)"

definition mcells_ok :: "mem_cell list \<Rightarrow> bool" where
  "mcells_ok cs \<longleftrightarrow> tails_ok cs \<and> (\<forall>i < length cs. mc_seq (cs ! i) = vseq cs i \<and> pos_ok (cs ! i) \<and> mc_src (cs ! i) \<in> {-1, int i})"

definition n_used :: "mem_cell list \<Rightarrow> nat" where
  "n_used cs = length (filter (\<lambda>c. mc_seq c \<noteq> {}) cs)"

definition rs_ok :: "memory_recurrent \<Rightarrow> bool" where
  "rs_ok m \<longleftrightarrow> length (mr_cells m) = mr_size m \<and> 0 < mr_size m \<and> mr_size m < 2147483648 \<and> mr_head m < mr_size m \<and>
     mr_used m = n_used (mr_cells m) \<and> mcells_ok (mr_cells m)"

text \<open>The abstract state: the position of every sequence.\<close>

definition rs_view :: "memory_recurrent \<Rightarrow> int \<Rightarrow> int option" where
  "rs_view m q =
     (if 0 \<le> q \<and> nat q < mr_size m \<and> 0 \<le> mc_tail (mr_cells m ! nat q)
      then Some (mc_pos (mr_cells m ! nat (mc_tail (mr_cells m ! nat q)))) else None)"

lemma upd_cell_simps [simp]:
  "mr_cells (upd_cell i f m) = (mr_cells m)[i := f (mr_cells m ! i)]" "mr_size (upd_cell i f m) = mr_size m"
  "mr_head (upd_cell i f m) = mr_head m" "mr_used (upd_cell i f m) = mr_used m" "mr_n (upd_cell i f m) = mr_n m" "mr_rs_z (upd_cell i f m) = mr_rs_z m"
  by (simp_all add: upd_cell_def)

lemma dec_used_simps [simp]:
  "mr_cells (dec_used m) = mr_cells m" "mr_size (dec_used m) = mr_size m" "mr_head (dec_used m) = mr_head m" "mr_n (dec_used m) = mr_n m"
  "mr_rs_z (dec_used m) = mr_rs_z m" "mr_used m \<noteq> 0 \<Longrightarrow> mr_used (dec_used m) = mr_used m - 1"
  by (simp_all add: dec_used_def)

lemma n_used_update:
  assumes "i < length cs"
  shows "n_used (cs[i := c]) + (if mc_seq (cs ! i) \<noteq> {} then 1 else 0) = n_used cs + (if mc_seq c \<noteq> {} then 1 else 0)"
proof -
  have "cs = take i cs @ cs ! i # drop (Suc i) cs" using assms by (rule id_take_nth_drop)
  then have "n_used cs = n_used (take i cs) + n_used [cs ! i] + n_used (drop (Suc i) cs)"
    by (metis (no_types, lifting) append_Cons append_Nil add.assoc filter_append length_append n_used_def)
  moreover have "n_used (cs[i := c]) = n_used (take i cs) + n_used [c] + n_used (drop (Suc i) cs)"
    using assms by (simp add: upd_conv_take_nth_drop n_used_def)
  ultimately show ?thesis by (simp add: n_used_def)
qed

lemma n_used_pos: "i < length cs \<Longrightarrow> mc_seq (cs ! i) \<noteq> {} \<Longrightarrow> n_used cs \<noteq> 0"
  by (auto simp: n_used_def filter_empty_conv)

lemma n_used_map: "n_used cs = length (filter (\<lambda>b. b) (map (\<lambda>c. mc_seq c \<noteq> {}) cs))"
  by (simp add: n_used_def filter_map o_def)

lemma n_used_cong:
  assumes "length cs = length cs'" and "\<And>i. i < length cs \<Longrightarrow> mc_seq (cs ! i) = {} \<longleftrightarrow> mc_seq (cs' ! i) = {}"
  shows "n_used cs = n_used cs'"
proof -
  have "map (\<lambda>c. mc_seq c \<noteq> {}) cs = map (\<lambda>c. mc_seq c \<noteq> {}) cs'" using assms by (intro nth_equalityI) simp_all
  then show ?thesis by (simp only: n_used_map)
qed

lemma mcells_okI:
  assumes "\<And>i. i < length cs \<Longrightarrow> mc_tail (cs ! i) = -1 \<or> 0 \<le> mc_tail (cs ! i) \<and> nat (mc_tail (cs ! i)) < length cs"
    and "\<And>i. i < length cs \<Longrightarrow> pos_ok (cs ! i)" and "\<And>i. i < length cs \<Longrightarrow> mc_src (cs ! i) = -1 \<or> mc_src (cs ! i) = int i"
    and "\<And>i q. i < length cs \<Longrightarrow> q \<in> mc_seq (cs ! i) \<longleftrightarrow> 0 \<le> q \<and> nat q < length cs \<and> mc_tail (cs ! nat q) = int i"
  shows "mcells_ok cs"
  using assms by (auto simp: mcells_ok_def tails_ok_def vseq_def)

lemma mcells_okD:
  assumes "mcells_ok cs" and "i < length cs"
  shows "mc_tail (cs ! i) = -1 \<or> 0 \<le> mc_tail (cs ! i) \<and> nat (mc_tail (cs ! i)) < length cs"
    and "pos_ok (cs ! i)" and "mc_src (cs ! i) = -1 \<or> mc_src (cs ! i) = int i"
    and "q \<in> mc_seq (cs ! i) \<longleftrightarrow> 0 \<le> q \<and> nat q < length cs \<and> mc_tail (cs ! nat q) = int i"
  using assms by (auto simp: mcells_ok_def tails_ok_def vseq_def)

lemma tail_cell:
  assumes "mcells_ok cs" and "0 \<le> q" "nat q < length cs" and "0 \<le> mc_tail (cs ! nat q)"
  shows "nat (mc_tail (cs ! nat q)) < length cs" and "q \<in> mc_seq (cs ! nat (mc_tail (cs ! nat q)))"
    and "0 \<le> mc_pos (cs ! nat (mc_tail (cs ! nat q)))" and "mc_pos (cs ! nat (mc_tail (cs ! nat q))) < LLAMA_POS_MAX"
proof -
  show t: "nat (mc_tail (cs ! nat q)) < length cs" using mcells_okD(1) [OF assms(1,3)] assms(4) by auto
  show s: "q \<in> mc_seq (cs ! nat (mc_tail (cs ! nat q)))" using mcells_okD(4) [OF assms(1) t] assms by simp
  show "0 \<le> mc_pos (cs ! nat (mc_tail (cs ! nat q)))" "mc_pos (cs ! nat (mc_tail (cs ! nat q))) < LLAMA_POS_MAX"
    using mcells_okD(2) [OF assms(1) t] s by (auto simp: pos_ok_def split: if_splits)
qed

lemma rs_okD:
  assumes "rs_ok m"
  shows "length (mr_cells m) = mr_size m" "0 < mr_size m" "mr_head m < mr_size m" "mr_used m = n_used (mr_cells m)" "mcells_ok (mr_cells m)"
    "mr_size m < 2147483648"
  using assms by (simp_all add: rs_ok_def)

lemma rs_view_None: "\<not> (0 \<le> q \<and> nat q < mr_size m) \<Longrightarrow> rs_view m q = None"
  by (auto simp: rs_view_def)

lemma rs_view_lower_rs_head [simp]: "rs_view (lower_rs_head nh m) = rs_view m"
  by (simp add: lower_rs_head_def rs_view_def fun_eq_iff)

lemma lower_rs_head_ok: "rs_ok m \<Longrightarrow> rs_ok (lower_rs_head nh m)"
  by (auto simp: lower_rs_head_def rs_ok_def)

lemma memory_recurrent_new_ok: "0 < n \<Longrightarrow> n < 2147483648 \<Longrightarrow> rs_ok (memory_recurrent_new n)"
  by (simp add: rs_ok_def memory_recurrent_new_def n_used_def mcells_ok_def tails_ok_def pos_ok_def vseq_def mem_cell_init_def filter_empty_conv)

lemma rs_clear_ok:
  assumes "rs_ok m"
  shows "rs_ok (rs_clear m)" and "rs_view (rs_clear m) = Map.empty"
  using rs_okD [OF assms]
  by (auto simp: rs_ok_def rs_clear_def n_used_def mcells_ok_def tails_ok_def pos_ok_def vseq_def filter_empty_conv rs_view_def fun_eq_iff)

section \<open>Taking a sequence out of its cell\<close>

text \<open>\<^verbatim>\<open>without q t c\<close>: cell \<open>c\<close> at index \<open>i\<close> after sequence \<open>q\<close> has left the memory.\<close>

definition without :: "int \<Rightarrow> nat \<Rightarrow> mem_cell \<Rightarrow> mem_cell" where
  "without q i c =
     (let s = mc_seq c - {q} in
      c\<lparr>mc_seq := s, mc_tail := (if int i = q then -1 else mc_tail c),
        mc_pos := (if s = {} then -1 else mc_pos c), mc_src := (if mc_seq c \<noteq> {} \<and> s = {} then -1 else mc_src c)\<rparr>)"

lemma without_fields [simp]:
  "mc_seq (without q i c) = mc_seq c - {q}" "mc_tail (without q i c) = (if int i = q then -1 else mc_tail c)"
  "mc_pos (without q i c) = (if mc_seq c - {q} = {} then -1 else mc_pos c)" "mc_src0 (without q i c) = mc_src0 c"
  by (simp_all add: without_def Let_def)

lemma without_ok:
  assumes ok: "mcells_ok cs" and len: "length cs' = length cs" and cs': "\<And>i. i < length cs \<Longrightarrow> cs' ! i = without q i (cs ! i)" and q: "0 \<le> q"
  shows "mcells_ok cs'"
proof (rule mcells_okI)
  fix i assume "i < length cs'"
  then have i: "i < length cs" by (simp add: len)
  show "mc_tail (cs' ! i) = -1 \<or> 0 \<le> mc_tail (cs' ! i) \<and> nat (mc_tail (cs' ! i)) < length cs'"
    using mcells_okD(1) [OF ok i] by (simp add: cs' [OF i] len)
  show "pos_ok (cs' ! i)" using mcells_okD(2) [OF ok i] by (auto simp: cs' [OF i] pos_ok_def split: if_splits)
  show "mc_src (cs' ! i) = -1 \<or> mc_src (cs' ! i) = int i" using mcells_okD(3) [OF ok i] by (auto simp: cs' [OF i] without_def Let_def)
  show "p \<in> mc_seq (cs' ! i) \<longleftrightarrow> 0 \<le> p \<and> nat p < length cs' \<and> mc_tail (cs' ! nat p) = int i" for p
  proof (cases "0 \<le> p \<and> nat p < length cs")
    case True
    then show ?thesis using mcells_okD(4) [OF ok i, of p] cs' [of "nat p"] by (auto simp: cs' [OF i] len)
  next
    case False
    then show ?thesis using mcells_okD(4) [OF ok i, of p] by (auto simp: cs' [OF i] len)
  qed
qed

lemma rs_detach_ok:
  assumes ok: "rs_ok m" and q: "0 \<le> q" "nat q < mr_size m"
  shows "\<exists>m'. rs_detach q m = Some m' \<and> rs_ok m' \<and> mr_size m' = mr_size m \<and> mr_head m' = mr_head m \<and> mr_n m' = mr_n m \<and> mr_rs_z m' = mr_rs_z m \<and>
    (\<forall>i < mr_size m. mr_cells m' ! i = without q i (mr_cells m ! i))"
proof -
  note M = rs_okD [OF ok]
  let ?cs = "mr_cells m" and ?t = "mc_tail (mr_cells m ! nat q)"
  have notin: "q \<notin> mc_seq (?cs ! i)" if "i < mr_size m" "int i \<noteq> ?t" for i
    using mcells_okD(4) [OF M(5), of i q] that M(1) by simp
  have other: "without q i (?cs ! i) = (?cs ! i)\<lparr>mc_tail := (if int i = q then -1 else mc_tail (?cs ! i))\<rparr>" if "i < mr_size m" "int i \<noteq> ?t" for i
    using notin [OF that] mcells_okD(2) [OF M(5), of i] that(1) M(1) by (auto simp: without_def Let_def pos_ok_def)
  show ?thesis
  proof (cases "0 \<le> ?t")
    case False
    then have t: "?t = -1" using mcells_okD(1) [OF M(5), of "nat q"] q M(1) by auto
    have "?cs ! i = without q i (?cs ! i)" if i: "i < mr_size m" for i
    proof -
      have "(if int i = q then -1 else mc_tail (?cs ! i)) = mc_tail (?cs ! i)" using t by auto
      then show ?thesis using other [OF i] t by simp
    qed
    then show ?thesis using t ok by (simp add: rs_detach_def Let_def)
  next
    case True
    then obtain t where t: "?t = int t" by (rule nonneg_int_cases)
    obtain k where k: "q = int k" using q(1) by (rule nonneg_int_cases)
    have b: "t < length ?cs" "k < length ?cs" "q \<in> mc_seq (?cs ! t)" using tail_cell [OF M(5), of q] q M(1) t k by auto
    define cs1 where "cs1 = ?cs[t := (?cs ! t)\<lparr>mc_seq := mc_seq (?cs ! t) - {q}\<rparr>]"
    define cs2 where "cs2 = cs1[k := (cs1 ! k)\<lparr>mc_tail := -1\<rparr>]"
    define cs3 where "cs3 = (if mc_seq (?cs ! t) - {q} = {} then cs2[t := (cs2 ! t)\<lparr>mc_pos := -1, mc_src := -1\<rparr>] else cs2)"
    have len: "length cs3 = mr_size m" by (simp add: cs3_def cs2_def cs1_def M(1))
    have seq2: "mc_seq (cs2 ! t) = mc_seq (?cs ! t) - {q}" using b by (simp add: cs2_def cs1_def nth_list_update)
    have nth: "cs3 ! i = without q i (?cs ! i)" if i: "i < mr_size m" for i
    proof (cases "i = t")
      case True
      then show ?thesis using b k by (auto simp: cs3_def cs2_def cs1_def nth_list_update without_def Let_def)
    next
      case False
      then have "cs3 ! i = (?cs ! i)\<lparr>mc_tail := (if int i = q then -1 else mc_tail (?cs ! i))\<rparr>"
        using b k by (simp add: cs3_def cs2_def cs1_def nth_list_update)
      then show ?thesis using other [OF i] t False by simp
    qed
    have used: "n_used cs3 + (if mc_seq (?cs ! t) - {q} = {} then 1 else 0) = n_used ?cs"
    proof -
      have "n_used cs3 = n_used (?cs[t := (?cs ! t)\<lparr>mc_seq := mc_seq (?cs ! t) - {q}\<rparr>])"
        using len M(1) b notin t by (intro n_used_cong) (auto simp: nth nth_list_update)
      moreover have "mc_seq (?cs ! t) \<noteq> {}" using b by auto
      ultimately show ?thesis using n_used_update [OF b(1), of "(?cs ! t)\<lparr>mc_seq := mc_seq (?cs ! t) - {q}\<rparr>"] by (simp split: if_splits)
    qed
    define m' where "m' = m\<lparr>mr_cells := cs3, mr_used := n_used cs3\<rparr>"
    have "rs_detach q m = (if mc_seq (cs2 ! t) = {} then Some (dec_used (m\<lparr>mr_cells := cs2[t := (cs2 ! t)\<lparr>mc_pos := -1, mc_src := -1\<rparr>]\<rparr>))
        else Some (m\<lparr>mr_cells := cs2\<rparr>))"
      unfolding rs_detach_def t using b(1) k by (simp add: Let_def upd_cell_def cs1_def cs2_def)
    then have "rs_detach q m = Some m'"
      using used n_used_pos [OF b(1)] b(3) M(4) seq2 by (cases "mc_seq (?cs ! t) - {q} = {}") (auto simp: m'_def cs3_def dec_used_def)
    moreover have "rs_ok m'" using M len without_ok [OF M(5) _ _ q(1), of cs3] nth by (simp add: rs_ok_def m'_def)
    ultimately show ?thesis using nth by (simp add: m'_def)
  qed
qed

lemma rs_view_Some:
  assumes "rs_ok m" and "rs_view m q = Some p"
  obtains k t where "q = int k" "k < mr_size m" "mc_tail (mr_cells m ! k) = int t" "t < mr_size m" "q \<in> mc_seq (mr_cells m ! t)"
    "p = mc_pos (mr_cells m ! t)" "0 \<le> p" "p < LLAMA_POS_MAX"
proof -
  note M = rs_okD [OF assms(1)]
  from assms(2) have q: "0 \<le> q" "nat q < mr_size m" "0 \<le> mc_tail (mr_cells m ! nat q)" "p = mc_pos (mr_cells m ! nat (mc_tail (mr_cells m ! nat q)))"
    by (auto simp: rs_view_def split: if_splits)
  then show ?thesis using that [of "nat q" "nat (mc_tail (mr_cells m ! nat q))"] tail_cell [OF M(5), of q] M(1) by simp
qed

lemma rs_view_without:
  assumes ok: "rs_ok m" and size: "mr_size m' = mr_size m" and cells: "\<And>i. i < mr_size m \<Longrightarrow> mr_cells m' ! i = without q i (mr_cells m ! i)"
  shows "rs_view m' = (rs_view m)(q := None)"
proof
  fix p
  note M = rs_okD [OF ok]
  show "rs_view m' p = ((rs_view m)(q := None)) p"
  proof (cases "p \<noteq> q \<and> rs_view m p \<noteq> None")
    case True
    then obtain x where x: "rs_view m p = Some x" "p \<noteq> q" by auto
    from ok x(1) obtain k t where t: "p = int k" "k < mr_size m" "mc_tail (mr_cells m ! k) = int t" "t < mr_size m" "p \<in> mc_seq (mr_cells m ! t)"
      "x = mc_pos (mr_cells m ! t)" by (rule rs_view_Some)
    have "mc_tail (mr_cells m' ! k) = int t" using cells [OF t(2)] t(1,3) x(2) by simp
    moreover have "mc_pos (mr_cells m' ! t) = x" using cells [OF t(4)] t(5,6) x(2) by auto
    ultimately show ?thesis using t(1,2) x size by (simp add: rs_view_def)
  next
    case False
    then show ?thesis using size cells [of "nat p"] by (auto simp: rs_view_def split: if_splits)
  qed
qed

section \<open>Copying a sequence\<close>

lemma rs_seq_cp_ok:
  assumes ok: "rs_ok m" and b: "0 \<le> src" "nat src < mr_size m" "0 \<le> dst" "nat dst < mr_size m"
  shows "\<exists>m'. rs_seq_cp src dst p0 p1 m = Some m' \<and> rs_ok m' \<and> rs_view m' = (rs_view m)(dst := rs_view m src)"
proof (cases "src = dst")
  case True
  then show ?thesis using ok by (simp add: rs_seq_cp_def)
next
  case ne: False
  obtain m1 where m1: "rs_detach dst m = Some m1" "rs_ok m1" "mr_size m1 = mr_size m"
    "\<And>i. i < mr_size m \<Longrightarrow> mr_cells m1 ! i = without dst i (mr_cells m ! i)" using rs_detach_ok [OF ok b(3,4)] by blast
  have v1: "rs_view m1 = (rs_view m)(dst := None)" by (rule rs_view_without [OF ok m1(3,4)])
  note M = rs_okD [OF m1(2)]
  show ?thesis
  proof (cases "rs_view m src")
    case None
    then have "mc_tail (mr_cells m1 ! nat src) < 0" using v1 ne b m1(3) by (auto simp: rs_view_def fun_eq_iff split: if_splits)
    then show ?thesis using m1 ne b v1 None by (simp add: rs_seq_cp_def)
  next
    case (Some p)
    then have "rs_view m1 src = Some p" using v1 ne by simp
    with m1(2) obtain k t where t: "src = int k" "k < mr_size m1" "mc_tail (mr_cells m1 ! k) = int t" "t < mr_size m1" "src \<in> mc_seq (mr_cells m1 ! t)"
      "p = mc_pos (mr_cells m1 ! t)" by (rule rs_view_Some)
    obtain d where d: "dst = int d" "d < mr_size m1" using b m1(3) by (auto elim: nonneg_int_cases)
    define cs where "cs = (mr_cells m1)[t := (mr_cells m1 ! t)\<lparr>mc_seq := insert dst (mc_seq (mr_cells m1 ! t))\<rparr>]"
    define m' where "m' = m1\<lparr>mr_cells := cs[d := (cs ! d)\<lparr>mc_tail := int t\<rparr>]\<rparr>"
    have run: "rs_seq_cp src dst p0 p1 m = Some m'"
      using m1(1,3) t d ne M(1) b by (simp add: rs_seq_cp_def m'_def cs_def upd_cell_def)
    have nth: "mr_cells m' ! i = (mr_cells m1 ! i)\<lparr>mc_seq := (if i = t then insert dst (mc_seq (mr_cells m1 ! i)) else mc_seq (mr_cells m1 ! i)),
        mc_tail := (if i = d then int t else mc_tail (mr_cells m1 ! i))\<rparr>" if "i < mr_size m1" for i
      using that t(4) d(2) M(1) by (simp add: m'_def cs_def nth_list_update)
    have len: "length (mr_cells m') = mr_size m1" "mr_size m' = mr_size m1" by (simp_all add: m'_def cs_def M(1))
    have d0: "mc_tail (mr_cells m1 ! d) = -1" using m1(3,4) d by simp
    have fresh: "dst \<notin> mc_seq (mr_cells m1 ! i)" if "i < mr_size m1" for i using m1(3,4) that by simp
    have "mcells_ok (mr_cells m')"
    proof (rule mcells_okI)
      fix i assume "i < length (mr_cells m')"
      then have i: "i < mr_size m1" by (simp add: len)
      note C = mcells_okD [OF M(5), of i, unfolded M(1), OF i]
      show "mc_tail (mr_cells m' ! i) = -1 \<or> 0 \<le> mc_tail (mr_cells m' ! i) \<and> nat (mc_tail (mr_cells m' ! i)) < length (mr_cells m')"
        using C(1) t(4) by (simp add: nth [OF i] len)
      show "pos_ok (mr_cells m' ! i)" using C(2) t(5) by (auto simp: nth [OF i] pos_ok_def split: if_splits)
      show "mc_src (mr_cells m' ! i) = -1 \<or> mc_src (mr_cells m' ! i) = int i" using C(3) by (simp add: nth [OF i])
      show "q \<in> mc_seq (mr_cells m' ! i) \<longleftrightarrow> 0 \<le> q \<and> nat q < length (mr_cells m') \<and> mc_tail (mr_cells m' ! nat q) = int i" for q
        using C(4) [of q] d fresh [OF i] nth [of "nat q"] by (cases "q = dst") (auto simp: nth [OF i] len split: if_splits)
    qed
    moreover have "n_used (mr_cells m') = n_used (mr_cells m1)" using len M(1) t(5) by (intro n_used_cong) (auto simp: nth)
    ultimately have "rs_ok m'" using M len by (simp add: rs_ok_def m'_def)
    moreover have "rs_view m' = (rs_view m1)(dst := Some p)"
    proof
      fix q
      show "rs_view m' q = ((rs_view m1)(dst := Some p)) q"
      proof (cases "q = dst")
        case True
        then show ?thesis using d t(4,6) by (simp add: rs_view_def len nth)
      next
        case False
        then have "mc_tail (mr_cells m' ! nat q) = mc_tail (mr_cells m1 ! nat q)" if "0 \<le> q" "nat q < mr_size m1" using that d by (auto simp: nth)
        then show ?thesis using False mcells_okD(1) [OF M(5), of "nat q"] M(1) by (auto simp: rs_view_def len nth)
      qed
    qed
    ultimately show ?thesis using run v1 Some by (intro exI [of _ m']) simp
  qed
qed

section \<open>Removing a sequence\<close>

lemma rs_rm_step_skip: "s \<ge> 0 \<Longrightarrow> s \<notin> mc_seq (mr_cells m ! i) \<Longrightarrow> rs_rm_step s p0 p1 i (nh, m) = (nh, m)"
  by (simp add: rs_rm_step_def Let_def)

text \<open>The loop touches only the tail cell of the sequence.\<close>

lemma rs_rm_loop:
  assumes s: "0 \<le> s" and t: "t < n" and only: "\<And>i. i < n \<Longrightarrow> i \<noteq> t \<Longrightarrow> s \<notin> mc_seq (mr_cells m ! i)"
  shows "fold (rs_rm_step s p0 p1) [0..<n] (nh, m) = rs_rm_step s p0 p1 t (nh, m)"
proof -
  obtain nh1 m1 where step: "rs_rm_step s p0 p1 t (nh, m) = (nh1, m1)" by fastforce
  then have same: "mr_cells m1 ! i = mr_cells m ! i" if "i \<noteq> t" for i
    using that by (auto simp: rs_rm_step_def Let_def split: if_splits)
  have "fold (rs_rm_step s p0 p1) [0..<n] (nh, m) = (if n \<le> t then (nh, m) else (nh1, m1))"
  proof (rule fold_upt_inv [where P = "\<lambda>i x. x = (if i \<le> t then (nh, m) else (nh1, m1))"])
    fix i x assume i: "i < n" and x: "x = (if i \<le> t then (nh, m) else (nh1, m1))"
    show "rs_rm_step s p0 p1 i x = (if Suc i \<le> t then (nh, m) else (nh1, m1))"
    proof (cases "i = t")
      case True
      then show ?thesis using x step by simp
    next
      case False
      then show ?thesis using x rs_rm_step_skip [OF s] only [OF i False] same [OF False] by auto
    qed
  qed simp
  then show ?thesis using t step by simp
qed

lemma upd_cell_commute:
  "(\<And>c. f (g c) = g (f c)) \<Longrightarrow> i < length (mr_cells m) \<Longrightarrow> j < length (mr_cells m) \<Longrightarrow> upd_cell i f (upd_cell j g m) = upd_cell j g (upd_cell i f m)"
  by (cases "i = j") (simp_all add: upd_cell_def list_update_swap)

lemma upd_cell_dec_used: "upd_cell i f (dec_used m) = dec_used (upd_cell i f m)"
  by (simp add: upd_cell_def dec_used_def)

lemma rs_rm_step_detach:
  assumes "mc_tail (mr_cells m ! k) = int t" "t < length (mr_cells m)" "k < length (mr_cells m)" "int k \<in> mc_seq (mr_cells m ! t)"
    and p: "0 \<le> mc_pos (mr_cells m ! t)" "p0 \<le> mc_pos (mr_cells m ! t)" "mc_pos (mr_cells m ! t) < p1"
  shows "rs_detach (int k) m = Some (snd (rs_rm_step (int k) p0 p1 t (nh, upd_cell k (\<lambda>c. c\<lparr>mc_tail := -1\<rparr>) m)))"
proof -
  let ?f = "\<lambda>c. c\<lparr>mc_seq := mc_seq c - {int k}\<rparr>" and ?g = "\<lambda>c. c\<lparr>mc_tail := -1\<rparr>"
  have swap: "upd_cell t ?f (upd_cell k ?g m) = upd_cell k ?g (upd_cell t ?f m)" by (rule upd_cell_commute) (use assms in auto)
  have seq: "mc_seq (mr_cells (upd_cell k ?g m) ! t) = mc_seq (mr_cells m ! t)" "mc_pos (mr_cells (upd_cell k ?g m) ! t) = mc_pos (mr_cells m ! t)"
    using assms by (auto simp: nth_list_update)
  define m2 where "m2 = upd_cell k ?g (upd_cell t ?f m)"
  have "rs_detach (int k) m = (if mc_seq (mr_cells m2 ! t) = {} then Some (dec_used (upd_cell t (\<lambda>c. c\<lparr>mc_pos := -1, mc_src := -1\<rparr>) m2)) else Some m2)"
    using assms by (simp add: rs_detach_def Let_def m2_def)
  moreover have "snd (rs_rm_step (int k) p0 p1 t (nh, upd_cell k ?g m)) =
      (if mc_seq (mr_cells m2 ! t) = {} then dec_used (upd_cell t (\<lambda>c. c\<lparr>mc_pos := -1, mc_src := -1\<rparr>) m2) else m2)"
    using assms(4) p seq swap unfolding rs_rm_step_def Let_def m2_def by (simp add: upd_cell_dec_used del: upd_cell_simps(1))
  ultimately show ?thesis by simp
qed

lemma rs_rm_tail:
  assumes ok: "rs_ok m" and view: "rs_view m s = Some p" and p: "p0 \<le> p" "p < p1"
  obtains m' where "fold (rs_rm_step s p0 p1) [0..<mr_size m] (mr_size m, upd_cell (nat s) (\<lambda>c. c\<lparr>mc_tail := -1\<rparr>) m) = m'"
    "rs_ok (lower_rs_head (fst m') (snd m'))" "rs_view (lower_rs_head (fst m') (snd m')) = (rs_view m)(s := None)"
proof -
  note M = rs_okD [OF ok]
  obtain k t where t: "s = int k" "k < mr_size m" "mc_tail (mr_cells m ! k) = int t" "t < mr_size m" "s \<in> mc_seq (mr_cells m ! t)"
    "p = mc_pos (mr_cells m ! t)" "0 \<le> p" by (rule rs_view_Some [OF ok view])
  let ?m1 = "upd_cell (nat s) (\<lambda>c. c\<lparr>mc_tail := -1\<rparr>) m"
  obtain m2 where m2: "rs_detach s m = Some m2" "rs_ok m2" "mr_size m2 = mr_size m" "mr_head m2 = mr_head m"
    "\<forall>i < mr_size m. mr_cells m2 ! i = without s i (mr_cells m ! i)"
    using rs_detach_ok [OF ok, of s] t by auto
  have only: "s \<notin> mc_seq (mr_cells ?m1 ! i)" if "i < mr_size m" "i \<noteq> t" for i
    using mcells_okD(4) [OF M(5), of i s] that t M(1) by (auto simp: nth_list_update)
  define st where "st = rs_rm_step s p0 p1 t (mr_size m, ?m1)"
  have fold: "fold (rs_rm_step s p0 p1) [0..<mr_size m] (mr_size m, ?m1) = st"
    unfolding st_def by (rule rs_rm_loop) (use t only in auto)
  have st: "snd st = m2" using rs_rm_step_detach [of m k t p0 p1 "mr_size m"] t p M(1) m2(1) by (simp add: st_def)
  have "rs_view m2 = (rs_view m)(s := None)" using rs_view_without [OF ok m2(3)] m2(5) by blast
  then show ?thesis using that [of st] fold st m2(2) by (simp add: lower_rs_head_ok)
qed

lemma rs_rm_absent:
  assumes "rs_ok m" and "0 \<le> s" and "rs_view m s = None \<or> (\<exists>p. rs_view m s = Some p \<and> \<not> (p0 \<le> p \<and> p < p1))"
  shows "fold (rs_rm_step s p0 p1) [0..<mr_size m] (mr_size m, m) = (mr_size m, m)"
proof (rule fold_upt_inv [where P = "\<lambda>_ x. x = (mr_size m, m)"])
  fix i x assume i: "i < mr_size m" and x: "x = (mr_size m, m)"
  note M = rs_okD [OF assms(1)]
  have "s \<notin> mc_seq (mr_cells m ! i) \<or> \<not> (p0 \<le> mc_pos (mr_cells m ! i) \<and> mc_pos (mr_cells m ! i) < p1)"
    using mcells_okD(4) [OF M(5), of i s] i M(1) assms(2,3) by (auto simp: rs_view_def)
  then show "rs_rm_step s p0 p1 i x = (mr_size m, m)" using assms(2) by (auto simp: x rs_rm_step_def)
qed simp

lemma rs_seq_rm_ok:
  assumes ok: "rs_ok m" and s: "0 \<le> s" "nat s < mr_size m"
  shows "\<exists>b m'. rs_seq_rm s p0 p1 m = Some (b, m') \<and> rs_ok m' \<and>
    (case rs_view m s of
       None \<Rightarrow> b \<and> m' = m
     | Some p \<Rightarrow> if (0 < clamp_p0 p0 \<and> clamp_p0 p0 < p) \<or> (0 < clamp_p1 p1 \<and> clamp_p1 p1 \<le> p) then \<not> b \<and> m' = m
         else if clamp_p0 p0 \<le> p \<and> p < clamp_p1 p1 then b \<and> rs_view m' = (rs_view m)(s := None)
         else b \<and> m' = m)"
proof (cases "rs_view m s")
  case None
  note M = rs_okD [OF ok]
  have t: "mc_tail (mr_cells m ! nat s) < 0" using None s by (auto simp: rs_view_def split: if_splits)
  then have "rs_rm_check s (clamp_p0 p0) (clamp_p1 p1) m = Some (Some m)" using s by (auto simp: rs_rm_check_def)
  then show ?thesis using None rs_rm_absent [OF ok s(1)] ok by (auto simp: rs_seq_rm_def lower_rs_head_def ex_bool_eq)
next
  case (Some p)
  note M = rs_okD [OF ok]
  obtain k t where t: "s = int k" "k < mr_size m" "mc_tail (mr_cells m ! k) = int t" "t < mr_size m"
    "p = mc_pos (mr_cells m ! t)" by (rule rs_view_Some [OF ok Some])
  let ?p0 = "clamp_p0 p0" and ?p1 = "clamp_p1 p1"
  have check: "rs_rm_check s ?p0 ?p1 m = Some (if (0 < ?p0 \<and> ?p0 < p) \<or> (0 < ?p1 \<and> ?p1 \<le> p) then None
      else Some (if ?p0 \<le> p \<and> p < ?p1 then upd_cell (nat s) (\<lambda>c. c\<lparr>mc_tail := -1\<rparr>) m else m))"
    using t M(1) by (simp add: rs_rm_check_def Let_def)
  show ?thesis
  proof (cases "\<not> ((0 < ?p0 \<and> ?p0 < p) \<or> (0 < ?p1 \<and> ?p1 \<le> p)) \<and> ?p0 \<le> p \<and> p < ?p1")
    case True
    obtain r where r: "fold (rs_rm_step s ?p0 ?p1) [0..<mr_size m] (mr_size m, upd_cell (nat s) (\<lambda>c. c\<lparr>mc_tail := -1\<rparr>) m) = r"
      "rs_ok (lower_rs_head (fst r) (snd r))" "rs_view (lower_rs_head (fst r) (snd r)) = (rs_view m)(s := None)"
      using rs_rm_tail [OF ok Some, of ?p0 ?p1] True by blast
    then show ?thesis using True check Some by (auto simp: rs_seq_rm_def ex_bool_eq split: prod.splits)
  next
    case False
    then have "fold (rs_rm_step s ?p0 ?p1) [0..<mr_size m] (mr_size m, m) = (mr_size m, m)"
      if "\<not> ((0 < ?p0 \<and> ?p0 < p) \<or> (0 < ?p1 \<and> ?p1 \<le> p))"
      using that Some by (intro rs_rm_absent [OF ok s(1)]) auto
    then show ?thesis using False check Some ok by (auto simp: rs_seq_rm_def lower_rs_head_def ex_bool_eq)
  qed
qed

text \<open>The early returns leave the memory as it was, as \<^verbatim>\<open>llama_memory_hybrid::seq_rm\<close> relies on.\<close>

lemma rs_seq_rm_false: "rs_seq_rm s p0 p1 m = Some (False, m') \<Longrightarrow> m' = m"
  by (cases "rs_rm_check s (clamp_p0 p0) (clamp_p1 p1) m") (auto simp: rs_seq_rm_def Let_def split: option.splits prod.splits)

section \<open>Keeping one sequence\<close>

definition kept :: "int \<Rightarrow> nat \<Rightarrow> mem_cell \<Rightarrow> mem_cell" where
  "kept s i c =
     (let c = (if int i \<noteq> s then c\<lparr>mc_tail := -1\<rparr> else c) in
      if s \<in> mc_seq c then c\<lparr>mc_seq := {s}\<rparr> else c\<lparr>mc_pos := -1, mc_src := -1, mc_seq := {}\<rparr>)"

lemma kept_fields [simp]:
  "mc_seq (kept s i c) = mc_seq c \<inter> {s}" "mc_tail (kept s i c) = (if int i = s then mc_tail c else -1)"
  "mc_pos (kept s i c) = (if s \<in> mc_seq c then mc_pos c else -1)" "mc_src (kept s i c) = (if s \<in> mc_seq c then mc_src c else -1)"
  by (auto simp: kept_def Let_def)

lemma rs_keep_loop:
  assumes ok: "rs_ok m"
  shows "case fold (rs_keep_step s) [0..<mr_size m] (mr_size m, m) of (nh, m') \<Rightarrow>
    mr_size m' = mr_size m \<and> mr_head m' = mr_head m \<and> mr_used m' = n_used (mr_cells m') \<and>
    length (mr_cells m') = mr_size m \<and> (\<forall>j < mr_size m. mr_cells m' ! j = kept s j (mr_cells m ! j))"
proof -
  note M = rs_okD [OF ok]
  let ?P = "\<lambda>i (nh :: nat, m' :: memory_recurrent). mr_size m' = mr_size m \<and> mr_head m' = mr_head m \<and> mr_used m' = n_used (mr_cells m') \<and>
    length (mr_cells m') = mr_size m \<and> (\<forall>j < mr_size m. mr_cells m' ! j = (if j < i then kept s j (mr_cells m ! j) else mr_cells m ! j))"
  have "?P (mr_size m) (fold (rs_keep_step s) [0..<mr_size m] (mr_size m, m))"
  proof (rule fold_upt_inv [where P = ?P])
    fix i x assume i: "i < mr_size m" and P: "?P i x"
    obtain nh m1 where x: "x = (nh, m1)" by fastforce
    have c: "mr_cells m1 ! i = mr_cells m ! i" and len: "length (mr_cells m1) = mr_size m" using P i by (auto simp: x)
    obtain nh' m2 where st: "rs_keep_step s i x = (nh', m2)" by fastforce
    have cells: "mr_cells m2 = (mr_cells m1)[i := kept s i (mr_cells m ! i)]"
      using st i len c by (auto simp: x rs_keep_step_def kept_def Let_def split: if_splits)
    have "mc_pos (mr_cells m ! i) \<ge> 0 \<longleftrightarrow> mc_seq (mr_cells m ! i) \<noteq> {}"
      using mcells_okD(2) [OF M(5), of i] i M(1) by (auto simp: pos_ok_def split: if_splits)
    then have "mr_used m2 + (if mc_seq (mr_cells m ! i) \<noteq> {} \<and> s \<notin> mc_seq (mr_cells m ! i) then 1 else 0) = mr_used m1"
      using n_used_pos [of i "mr_cells m1"] st P i c len by (auto simp: x rs_keep_step_def Let_def dec_used_def split: if_splits)
    then have "mr_used m2 = n_used (mr_cells m2)"
      using n_used_update [of i "mr_cells m1" "kept s i (mr_cells m ! i)"] P i c len by (auto simp: x cells split: if_splits)
    moreover have "mr_size m2 = mr_size m" "mr_head m2 = mr_head m" using st P by (auto simp: x rs_keep_step_def Let_def split: if_splits)
    ultimately have "?P (Suc i) (nh', m2)" using P i by (auto simp: x cells nth_list_update less_Suc_eq)
    then show "?P (Suc i) (rs_keep_step s i x)" by (simp only: st)
  qed (use M in auto)
  then show ?thesis by auto
qed

lemma rs_seq_keep_ok:
  assumes ok: "rs_ok m"
  shows "rs_ok (rs_seq_keep s m)" and "rs_view (rs_seq_keep s m) = (rs_view m) |` {s}"
proof -
  note M = rs_okD [OF ok]
  obtain nh m1 where f: "fold (rs_keep_step s) [0..<mr_size m] (mr_size m, m) = (nh, m1)" by fastforce
  then have eq: "rs_seq_keep s m = lower_rs_head nh m1" by (simp add: rs_seq_keep_def)
  have m1: "mr_size m1 = mr_size m" "mr_head m1 = mr_head m" "mr_used m1 = n_used (mr_cells m1)" "length (mr_cells m1) = mr_size m"
    and nth: "\<And>j. j < mr_size m \<Longrightarrow> mr_cells m1 ! j = kept s j (mr_cells m ! j)" using rs_keep_loop [OF ok, of s] by (auto simp: f)
  have "mcells_ok (mr_cells m1)"
  proof (rule mcells_okI)
    fix i assume "i < length (mr_cells m1)"
    then have i: "i < mr_size m" by (simp add: m1)
    note C = mcells_okD [OF M(5), of i, unfolded M(1), OF i]
    show "mc_tail (mr_cells m1 ! i) = -1 \<or> 0 \<le> mc_tail (mr_cells m1 ! i) \<and> nat (mc_tail (mr_cells m1 ! i)) < length (mr_cells m1)"
      using C(1) by (simp add: nth [OF i] m1)
    show "pos_ok (mr_cells m1 ! i)" using C(2) by (auto simp: nth [OF i] pos_ok_def split: if_splits)
    show "mc_src (mr_cells m1 ! i) = -1 \<or> mc_src (mr_cells m1 ! i) = int i" using C(3) by (simp add: nth [OF i])
    show "q \<in> mc_seq (mr_cells m1 ! i) \<longleftrightarrow> 0 \<le> q \<and> nat q < length (mr_cells m1) \<and> mc_tail (mr_cells m1 ! nat q) = int i" for q
      using C(4) [of q] nth [of "nat q"] by (auto simp: nth [OF i] m1 split: if_splits)
  qed
  then have ok1: "rs_ok m1" using m1 M by (simp add: rs_ok_def)
  then show "rs_ok (rs_seq_keep s m)" by (simp add: eq lower_rs_head_ok)
  have "rs_view m1 q = ((rs_view m) |` {s}) q" for q
  proof (cases "rs_view m q")
    case None
    then show ?thesis using nth [of "nat q"] by (auto simp: rs_view_def restrict_map_def m1 split: if_splits)
  next
    case (Some p)
    from ok Some obtain k t where "q = int k" "k < mr_size m" "mc_tail (mr_cells m ! k) = int t" "t < mr_size m" "q \<in> mc_seq (mr_cells m ! t)"
      "p = mc_pos (mr_cells m ! t)" by (rule rs_view_Some)
    then show ?thesis using Some nth [of k] nth [of t] by (auto simp: rs_view_def restrict_map_def m1)
  qed
  then show "rs_view (rs_seq_keep s m) = (rs_view m) |` {s}" by (simp add: eq fun_eq_iff)
qed

section \<open>Shifting and dividing positions\<close>

text \<open>The position belongs to the cell, so sequences that share the cell move with the one named.\<close>

definition rs_shares :: "memory_recurrent \<Rightarrow> int \<Rightarrow> int \<Rightarrow> bool" where
  "rs_shares m s q \<longleftrightarrow> mc_tail (mr_cells m ! nat q) = mc_tail (mr_cells m ! nat s)"

lemma rs_shift_pos_ok:
  assumes ok: "rs_ok m" and range: "\<And>p. rs_view m s = Some p \<Longrightarrow> p0 \<le> p \<Longrightarrow> p < p1 \<Longrightarrow> 0 \<le> f p \<and> f p < LLAMA_POS_MAX"
  shows "\<exists>m'. rs_shift_pos s p0 p1 f m = Some m' \<and> rs_ok m' \<and>
    (\<forall>q. rs_view m' q = (case rs_view m q of None \<Rightarrow> None | Some p \<Rightarrow>
       Some (if rs_view m s \<noteq> None \<and> rs_shares m s q \<and> p0 \<le> p \<and> p < p1 then f p else p)))"
proof (cases "rs_view m s")
  case None
  then have "rs_shift_pos s p0 p1 f m = Some m" by (auto simp: rs_shift_pos_def rs_view_def split: if_splits)
  then show ?thesis using ok None by (auto split: option.splits)
next
  case (Some p)
  note M = rs_okD [OF ok]
  from ok Some obtain k t where t: "s = int k" "k < mr_size m" "mc_tail (mr_cells m ! k) = int t" "t < mr_size m" "s \<in> mc_seq (mr_cells m ! t)"
    "p = mc_pos (mr_cells m ! t)" by (rule rs_view_Some)
  have same: "x = p" if "rs_shares m s q" "rs_view m q = Some x" for q x
    using that t by (auto simp: rs_shares_def rs_view_def split: if_splits)
  show ?thesis
  proof (cases "p0 \<le> p \<and> p < p1")
    case False
    then have "rs_shift_pos s p0 p1 f m = Some m" using t M(1) by (auto simp: rs_shift_pos_def)
    then show ?thesis using ok False same by (auto split: option.splits)
  next
    case True
    define m' where "m' = upd_cell t (\<lambda>c. c\<lparr>mc_pos := f (mc_pos c)\<rparr>) m"
    have run: "rs_shift_pos s p0 p1 f m = Some m'" using t M(1) True by (simp add: rs_shift_pos_def m'_def)
    have nth: "mr_cells m' ! i = (mr_cells m ! i)\<lparr>mc_pos := (if i = t then f p else mc_pos (mr_cells m ! i))\<rparr>" if "i < mr_size m" for i
      using that t M(1) by (simp add: m'_def nth_list_update)
    have len: "length (mr_cells m') = mr_size m" "mr_size m' = mr_size m" by (simp_all add: m'_def M(1))
    have "mcells_ok (mr_cells m')"
    proof (rule mcells_okI)
      fix i assume "i < length (mr_cells m')"
      then have i: "i < mr_size m" by (simp add: len)
      note C = mcells_okD [OF M(5), of i, unfolded M(1), OF i]
      show "mc_tail (mr_cells m' ! i) = -1 \<or> 0 \<le> mc_tail (mr_cells m' ! i) \<and> nat (mc_tail (mr_cells m' ! i)) < length (mr_cells m')"
        using C(1) by (simp add: nth [OF i] len)
      show "pos_ok (mr_cells m' ! i)" using C(2) range [OF Some] True t(5) by (auto simp: nth [OF i] pos_ok_def)
      show "mc_src (mr_cells m' ! i) = -1 \<or> mc_src (mr_cells m' ! i) = int i" using C(3) by (simp add: nth [OF i])
      show "q \<in> mc_seq (mr_cells m' ! i) \<longleftrightarrow> 0 \<le> q \<and> nat q < length (mr_cells m') \<and> mc_tail (mr_cells m' ! nat q) = int i" for q
        using C(4) [of q] nth [of "nat q"] by (auto simp: nth [OF i] len)
    qed
    moreover have "n_used (mr_cells m') = n_used (mr_cells m)" using len M(1) by (intro n_used_cong) (auto simp: nth)
    ultimately have "rs_ok m'" using M len by (simp add: rs_ok_def m'_def)
    moreover have "rs_view m' q = (case rs_view m q of None \<Rightarrow> None | Some p \<Rightarrow> Some (if rs_shares m s q \<and> p0 \<le> p \<and> p < p1 then f p else p))" for q
    proof (cases "rs_view m q")
      case None
      then show ?thesis using nth [of "nat q"] by (auto simp: rs_view_def len split: if_splits)
    next
      case (Some x)
      from ok Some obtain l v where "q = int l" "l < mr_size m" "mc_tail (mr_cells m ! l) = int v" "v < mr_size m" "x = mc_pos (mr_cells m ! v)"
        by (rule rs_view_Some)
      then show ?thesis using Some True t nth [of l] nth [of v] by (auto simp: rs_view_def rs_shares_def len)
    qed
    ultimately show ?thesis using run Some by (intro exI [of _ m']) (simp split: option.split)
  qed
qed

section \<open>Smallest and largest position\<close>

lemma rs_holder:
  assumes "rs_ok m"
  shows "(\<exists>c \<in> set (mr_cells m). s \<in> mc_seq c \<and> mc_pos c = p) \<longleftrightarrow> rs_view m s = Some p"
proof
  note M = rs_okD [OF assms]
  assume "\<exists>c \<in> set (mr_cells m). s \<in> mc_seq c \<and> mc_pos c = p"
  then obtain i where "i < mr_size m" "s \<in> mc_seq (mr_cells m ! i)" "mc_pos (mr_cells m ! i) = p" by (auto simp: in_set_conv_nth M(1))
  then show "rs_view m s = Some p" using mcells_okD(4) [OF M(5), of i s] M(1) by (simp add: rs_view_def)
next
  assume "rs_view m s = Some p"
  from assms this show "\<exists>c \<in> set (mr_cells m). s \<in> mc_seq c \<and> mc_pos c = p" by (rule rs_view_Some) (use rs_okD(1) [OF assms] in auto)
qed

lemma Min_Max_insert:
  assumes "finite S"
  shows "Min (insert (min a b) S) = Min (insert a (insert b S))" and "Max (insert (max a b) S) = Max (insert a (insert (b :: int) S))"
  using assms by (cases "S = {}"; simp add: min.assoc max.assoc)+

lemma filter_set_Cons: "{c \<in> set (x # xs). P c} = (if P x then insert x {c \<in> set xs. P c} else {c \<in> set xs. P c})"
  by auto

lemma fold_min_filter: "fold (\<lambda>c r. if P c then min r (f c) else r) xs (a :: int) = Min (insert a (f ` {c \<in> set xs. P c}))"
proof (induction xs arbitrary: a)
  case (Cons x xs)
  then show ?case unfolding filter_set_Cons by (simp add: Min_Max_insert(1) del: Min_insert)
qed simp

lemma fold_max_filter: "fold (\<lambda>c r. if P c then max r (f c) else r) xs (a :: int) = Max (insert a (f ` {c \<in> set xs. P c}))"
proof (induction xs arbitrary: a)
  case (Cons x xs)
  then show ?case unfolding filter_set_Cons by (simp add: Min_Max_insert(2) del: Max_insert)
qed simp

lemma rs_seq_pos:
  assumes ok: "rs_ok m"
  shows "rs_seq_pos_min s m = (case rs_view m s of None \<Rightarrow> -1 | Some p \<Rightarrow> p)" and "rs_seq_pos_max s m = (case rs_view m s of None \<Rightarrow> -1 | Some p \<Rightarrow> p)"
proof -
  have img: "mc_pos ` {c \<in> set (mr_cells m). s \<in> mc_seq c} = set_option (rs_view m s)" 
  proof (rule set_eqI)
    fix p
    show "p \<in> mc_pos ` {c \<in> set (mr_cells m). s \<in> mc_seq c} \<longleftrightarrow> p \<in> set_option (rs_view m s)"
      using rs_holder [OF ok, of s p] by (auto simp: image_iff)
  qed
  have r: "0 \<le> p \<and> p < LLAMA_POS_MAX" if "rs_view m s = Some p" for p using rs_view_Some [OF ok that] by metis
  show "rs_seq_pos_min s m = (case rs_view m s of None \<Rightarrow> -1 | Some p \<Rightarrow> p)"
    unfolding rs_seq_pos_min_def fold_min_filter img using r by (auto simp: Let_def min_def split: option.splits)
  show "rs_seq_pos_max s m = (case rs_view m s of None \<Rightarrow> -1 | Some p \<Rightarrow> p)"
    unfolding rs_seq_pos_max_def fold_max_filter img using r by (auto simp: max_def split: option.splits)
qed

text \<open>The recurrent memory fulfils the contract that batch validation relies on.\<close>

definition rs_positions :: "memory_recurrent \<Rightarrow> int \<Rightarrow> int set" where
  "rs_positions m s = set_option (rs_view m s)"

interpretation rs_mem: seq_memory rs_ok "\<lambda>_ _. True" rs_positions "\<lambda>s m. Some (rs_seq_pos_min s m)" "\<lambda>s m. Some (rs_seq_pos_max s m)"
proof
  fix m s p assume ok: "rs_ok m"
  show "finite (rs_positions m s)" by (simp add: rs_positions_def)
  show "0 \<le> p" if "p \<in> rs_positions m s" using that ok by (auto simp: rs_positions_def elim!: rs_view_Some)
  show "Some (rs_seq_pos_min s m) = Some (if rs_positions m s = {} then -1 else Min (rs_positions m s))"
    "Some (rs_seq_pos_max s m) = Some (if rs_positions m s = {} then -1 else Max (rs_positions m s))"
    using rs_seq_pos [OF ok] by (simp_all add: rs_positions_def split: option.splits)
qed

text \<open>Two cells; sequence 0 is in the second one.\<close>

definition demo_rs :: memory_recurrent where
  "demo_rs = \<lparr>mr_head = 0, mr_size = 2, mr_used = 1, mr_n = 0, mr_rs_z = -1,
     mr_cells = [\<lparr>mc_pos = -1, mc_src = -1, mc_src0 = -1, mc_tail = 1, mc_seq = {}\<rparr>, \<lparr>mc_pos = 3, mc_src = 1, mc_src0 = 1, mc_tail = -1, mc_seq = {0}\<rparr>]\<rparr>"

lemma demo_rs_ok: "rs_ok demo_rs"
proof -
  have "mcells_ok (mr_cells demo_rs)"
    by (rule mcells_okI) (auto simp: demo_rs_def less_2_cases_iff pos_ok_def nat_eq_iff numeral_2_eq_2 less_Suc_eq)
  then show ?thesis by (simp add: rs_ok_def demo_rs_def n_used_def)
qed

section \<open>The sequence operations\<close>

text \<open>C33: \<^verbatim>\<open>seq_rm\<close> of the recurrent memory, on a sequence in range and a range that does not start exactly at a stored position above 0,
  always returns and keeps the memory consistent. A sequence that is not stored is left alone and the call succeeds. For a stored position \<^verbatim>\<open>pos\<close>: a range that
  starts at 0 and ends after \<^verbatim>\<open>pos\<close> covers the whole sequence, which is removed, the others staying as they are; a range that starts in \<^verbatim>\<open>(0, pos)\<close>
  or ends in \<^verbatim>\<open>(0, pos]\<close> is refused and nothing changes; any other range contains no position of the sequence, and the call succeeds without a change.\<close>

theorem rs_seq_rm_correct:
  assumes "rs_ok m" and "0 \<le> s" and "nat s < mr_size m" and "rs_view m s = Some p0 \<Longrightarrow> p0 = 0"
  shows "\<exists>b m'. rs_seq_rm s p0 p1 m = Some (b, m') \<and> rs_ok m' \<and>
    (case rs_view m s of
       None \<Rightarrow> b \<and> m' = m
     | Some p \<Rightarrow> if clamp_p0 p0 = 0 \<and> p < clamp_p1 p1 then b \<and> rs_view m' = (rs_view m)(s := None)
         else if (0 < clamp_p0 p0 \<and> clamp_p0 p0 < p) \<or> (0 < clamp_p1 p1 \<and> clamp_p1 p1 \<le> p) then \<not> b \<and> m' = m
         else b \<and> m' = m)"
proof (cases "rs_view m s")
  case (Some p)
  let ?c0 = "clamp_p0 p0" and ?c1 = "clamp_p1 p1"
  have nonneg: "0 \<le> p" using rs_view_Some [OF assms(1) Some] by metis
  have "?c0 = p \<Longrightarrow> ?c0 = 0" "0 \<le> ?c0" using assms(4) Some by (auto simp: clamp_p0_def split: if_splits)
  then have "?c0 = 0 \<and> p < ?c1 \<longleftrightarrow> \<not> ((0 < ?c0 \<and> ?c0 < p) \<or> (0 < ?c1 \<and> ?c1 \<le> p)) \<and> ?c0 \<le> p \<and> p < ?c1"
    using nonneg by linarith
  then have eq: "(if ?c0 = 0 \<and> p < ?c1 then Y else if (0 < ?c0 \<and> ?c0 < p) \<or> (0 < ?c1 \<and> ?c1 \<le> p) then X else Z) =
    (if (0 < ?c0 \<and> ?c0 < p) \<or> (0 < ?c1 \<and> ?c1 \<le> p) then X else if ?c0 \<le> p \<and> p < ?c1 then Y else Z)" for X Y Z :: bool by argo
  show ?thesis unfolding Some option.case eq using rs_seq_rm_ok [OF assms(1-3), of p0 p1, unfolded Some option.case] .
qed (use rs_seq_rm_ok [OF assms(1-3), of p0 p1] in simp)

theorem rs_seq_rm_correct_witness:
  "\<exists>m'. rs_seq_rm 0 0 (-1) demo_rs = Some (True, m') \<and> rs_ok m' \<and> rs_view m' 0 = None"
proof -
  have "rs_view demo_rs 0 = Some 3" by (simp add: rs_view_def demo_rs_def)
  then show ?thesis using rs_seq_rm_correct [OF demo_rs_ok, of 0 0 "-1"] by (auto simp: demo_rs_def clamp_p0_def clamp_p1_def)
qed

lemma rs_seq_add_ok:
  assumes "rs_ok m" and "\<And>p. rs_view m s = Some p \<Longrightarrow> 0 \<le> p + d \<and> p + d < LLAMA_POS_MAX"
  shows "\<exists>m'. rs_seq_add s p0 p1 d m = Some m' \<and> rs_ok m' \<and> (\<forall>q. rs_view m' q = (case rs_view m q of None \<Rightarrow> None | Some p \<Rightarrow>
       Some (if rs_view m s \<noteq> None \<and> rs_shares m s q \<and> clamp_p0 p0 \<le> p \<and> p < clamp_p1 p1 then p + d else p)))"
proof (cases "d = 0 \<or> clamp_p0 p0 = clamp_p1 p1")
  case True
  then have "rs_seq_add s p0 p1 d m = Some m" by (auto simp: rs_seq_add_def)
  then show ?thesis using True assms(1) by (auto split: option.split)
next
  case False
  have wrap: "i32 (p + d) = p + d" if "rs_view m s = Some p" for p using assms(2) [OF that] by (intro i32_id) (auto simp: i32_ok_def)
  have shared: "i32 (p + d) = p + d" if "rs_view m s \<noteq> None" "rs_shares m s q" "rs_view m q = Some p" for q p
    using that wrap by (auto simp: rs_shares_def rs_view_def split: if_splits)
  obtain m' where m': "rs_shift_pos s (clamp_p0 p0) (clamp_p1 p1) (\<lambda>p. i32 (p + d)) m = Some m'" "rs_ok m'"
    "\<And>q. rs_view m' q = (case rs_view m q of None \<Rightarrow> None | Some p \<Rightarrow>
       Some (if rs_view m s \<noteq> None \<and> rs_shares m s q \<and> clamp_p0 p0 \<le> p \<and> p < clamp_p1 p1 then i32 (p + d) else p))"
    using rs_shift_pos_ok [OF assms(1), of s "clamp_p0 p0" "clamp_p1 p1" "\<lambda>p. i32 (p + d)"] assms(2) wrap by auto
  show ?thesis
  proof (intro exI [of _ m'] conjI allI)
    fix q show "rs_view m' q = (case rs_view m q of None \<Rightarrow> None | Some p \<Rightarrow>
       Some (if rs_view m s \<noteq> None \<and> rs_shares m s q \<and> clamp_p0 p0 \<le> p \<and> p < clamp_p1 p1 then p + d else p))"
      using m'(3) [of q] shared by (auto split: option.split)
  qed (use False m' in \<open>simp_all add: rs_seq_add_def\<close>)
qed

lemma rs_seq_div_ok:
  assumes "rs_ok m" and d: "0 < d"
  shows "\<exists>m'. rs_seq_div s p0 p1 d m = Some m' \<and> rs_ok m' \<and> (\<forall>q. rs_view m' q = (case rs_view m q of None \<Rightarrow> None | Some p \<Rightarrow>
       Some (if rs_view m s \<noteq> None \<and> rs_shares m s q \<and> clamp_p0 p0 \<le> p \<and> p < clamp_p1 p1 then p div d else p)))"
proof (cases "d = 1 \<or> clamp_p0 p0 = clamp_p1 p1")
  case True
  then have "rs_seq_div s p0 p1 d m = Some m" by (auto simp: rs_seq_div_def)
  then show ?thesis using True assms(1) by (auto split: option.split)
next
  case False
  have r: "0 \<le> p \<and> p < LLAMA_POS_MAX" if "rs_view m q = Some p" for q p using rs_view_Some [OF assms(1) that] by metis
  have div: "p sdiv d = p div d" if "0 \<le> p" for p using that d by (auto simp: signed_divide_int_def sgn_if)
  have range: "0 \<le> p sdiv d \<and> p sdiv d < LLAMA_POS_MAX" if "rs_view m s = Some p" for p
    using r [OF that] div [of p] d zdiv_mono2 [of p 1 d] by (auto simp: pos_imp_zdiv_nonneg_iff)
  obtain m' where
    "rs_shift_pos s (clamp_p0 p0) (clamp_p1 p1) (\<lambda>p. p sdiv d) m = Some m'" "rs_ok m'"
    "\<forall>q. rs_view m' q = (case rs_view m q of None \<Rightarrow> None | Some p \<Rightarrow>
       Some (if rs_view m s \<noteq> None \<and> rs_shares m s q \<and> clamp_p0 p0 \<le> p \<and> p < clamp_p1 p1 then p sdiv d else p))"
    using rs_shift_pos_ok [OF assms(1), of s "clamp_p0 p0" "clamp_p1 p1" "\<lambda>p. p sdiv d"] range by blast
  then show ?thesis using False d r div by (auto simp: rs_seq_div_def split: option.split)
qed

text \<open>C32: \<^verbatim>\<open>clear\<close>, \<^verbatim>\<open>seq_cp\<close>, \<^verbatim>\<open>seq_keep\<close>, \<^verbatim>\<open>seq_add\<close> and \<^verbatim>\<open>seq_div\<close> of the recurrent memory keep it consistent and act on the map from sequences to
  positions: the empty map, the destination gets the position of the source when the range of the copy covers the whole source (the code ignores the range), the map restricted to one sequence, and the position of the
  sequence (and of those that share its cell) shifted, to a valid position, or divided where it lies in the range. \<^verbatim>\<open>seq_pos_min\<close> and \<^verbatim>\<open>seq_pos_max\<close> both report the entry of the map.\<close>

theorem rs_sequence_operations_refine:
  assumes "rs_ok m" and "0 \<le> s" "nat s < mr_size m" and "0 \<le> t" "nat t < mr_size m" and "0 < d"
    and "\<forall>p. rs_view m s = Some p \<longrightarrow> 0 \<le> p + e \<and> p + e < LLAMA_POS_MAX"
    and "\<forall>p. rs_view m s = Some p \<longrightarrow> clamp_p0 c0 = 0 \<and> p < clamp_p1 c1"
  shows "(rs_ok (rs_clear m) \<and> rs_view (rs_clear m) = Map.empty) \<and>
    (\<exists>m'. rs_seq_cp s t c0 c1 m = Some m' \<and> rs_ok m' \<and> rs_view m' = (rs_view m)(t := rs_view m s)) \<and>
    (rs_ok (rs_seq_keep s m) \<and> rs_view (rs_seq_keep s m) = (rs_view m) |` {s}) \<and>
    (\<exists>m'. rs_seq_add s p0 p1 e m = Some m' \<and> rs_ok m' \<and> (\<forall>q. rs_view m' q = (case rs_view m q of None \<Rightarrow> None | Some p \<Rightarrow>
       Some (if rs_view m s \<noteq> None \<and> rs_shares m s q \<and> clamp_p0 p0 \<le> p \<and> p < clamp_p1 p1 then p + e else p)))) \<and>
    (\<exists>m'. rs_seq_div s p0 p1 d m = Some m' \<and> rs_ok m' \<and> (\<forall>q. rs_view m' q = (case rs_view m q of None \<Rightarrow> None | Some p \<Rightarrow>
       Some (if rs_view m s \<noteq> None \<and> rs_shares m s q \<and> clamp_p0 p0 \<le> p \<and> p < clamp_p1 p1 then p div d else p)))) \<and>
    rs_seq_pos_min s m = (case rs_view m s of None \<Rightarrow> -1 | Some p \<Rightarrow> p) \<and> rs_seq_pos_max s m = (case rs_view m s of None \<Rightarrow> -1 | Some p \<Rightarrow> p)"
proof (intro conjI)
  show "\<exists>m'. rs_seq_add s p0 p1 e m = Some m' \<and> rs_ok m' \<and> (\<forall>q. rs_view m' q = (case rs_view m q of None \<Rightarrow> None | Some p \<Rightarrow>
       Some (if rs_view m s \<noteq> None \<and> rs_shares m s q \<and> clamp_p0 p0 \<le> p \<and> p < clamp_p1 p1 then p + e else p)))"
    using assms(7) by (intro rs_seq_add_ok [OF assms(1)]) blast
qed (fact rs_clear_ok [OF assms(1)] rs_seq_cp_ok [OF assms(1-5)] rs_seq_keep_ok [OF assms(1)] rs_seq_div_ok [OF assms(1,6)] rs_seq_pos [OF assms(1)])+

theorem rs_sequence_operations_refine_witness:
  "\<exists>m' m''. rs_seq_cp 0 1 0 (-1) demo_rs = Some m' \<and> rs_view m' 1 = Some 3 \<and> rs_seq_add 0 0 (-1) 2 demo_rs = Some m'' \<and> rs_view m'' 0 = Some 5 \<and>
    rs_seq_pos_max 0 demo_rs = 3"
proof -
  have v: "rs_view demo_rs 0 = Some 3" by (simp add: rs_view_def demo_rs_def)
  have "0 \<le> (0 :: int)" "nat 0 < mr_size demo_rs" "0 \<le> (1 :: int)" "nat 1 < mr_size demo_rs" by (simp_all add: demo_rs_def)
  note R = rs_sequence_operations_refine [OF demo_rs_ok this, of 2 2 0 "-1" 0 "-1"]
  show ?thesis using R v by (auto simp: rs_shares_def clamp_p0_def clamp_p1_def)
qed

section \<open>Inputs that break the contract\<close>

text \<open>A range that starts at the stored position removes only the last position of the sequence, yet the whole state is dropped and the call succeeds.\<close>

lemma rs_seq_rm_last_position_drops_state:
  assumes ok: "rs_ok m" and v: "rs_view m s = Some p" and p: "0 < p"
  shows "\<exists>m'. rs_seq_rm s p (-1) m = Some (True, m') \<and> rs_view m' s = None"
proof -
  from ok v obtain k where "s = int k" "k < mr_size m" "p < LLAMA_POS_MAX" by (rule rs_view_Some)
  then show ?thesis using rs_seq_rm_ok [OF ok, of s p "-1"] v p by (auto simp: clamp_p0_def clamp_p1_def)
qed

text \<open>A copy takes the whole state whatever the range, even an empty one.\<close>

lemma rs_seq_cp_ignores_range:
  assumes "rs_ok m" and "0 \<le> s" "nat s < mr_size m" and "0 \<le> t" "nat t < mr_size m"
  shows "\<exists>m'. rs_seq_cp s t p p m = Some m' \<and> rs_view m' = (rs_view m)(t := rs_view m s)"
  using rs_seq_cp_ok [OF assms, of p p] by blast

text \<open>A negative shift can leave a stored sequence with a negative position: the smallest position is then below the largest one reported.\<close>

lemma rs_seq_add_negative_position:
  "map_option (\<lambda>m. (rs_seq_pos_min 0 m, rs_seq_pos_max 0 m)) (rs_seq_add 0 0 (-1) (-5) demo_rs) = Some (-2, -1)"
  by code_simp

end
