(* ===== verification/RecurrentSlot.thy ===== *)
theory RecurrentSlot
  imports RecurrentOps
begin

text \<open>
  \<^verbatim>\<open>llama_memory_recurrent::find_slot\<close>: the search for cells, the gathering into a contiguous range and the staging of the state sources.
\<close>

section \<open>Searching for an empty cell\<close>

text \<open>The cells in the order of the search: \<open>scan n h d\<close> is the cell at distance \<open>d\<close> from the head.\<close>

definition scan :: "nat \<Rightarrow> nat \<Rightarrow> nat \<Rightarrow> nat" where
  "scan n h d = (h + d) mod n"

lemma scan_less [simp]: "0 < n \<Longrightarrow> scan n h d < n"
  by (simp add: scan_def)

lemma scan_Suc: "0 < n \<Longrightarrow> scan n h (Suc d) = (if scan n h d + 1 \<ge> n then scan n h d + 1 - n else scan n h d + 1)"
proof -
  assume "0 < n"
  then have "Suc ((h + d) mod n) \<le> n" by (simp add: Suc_le_eq)
  then show ?thesis by (auto simp: scan_def mod_Suc)
qed

lemma scan_eq: "h < n \<Longrightarrow> d < n \<Longrightarrow> scan n h d = (if h + d < n then h + d else h + d - n)"
  by (simp add: scan_def mod_if)

lemma scan_surj: "i < n \<Longrightarrow> h < n \<Longrightarrow> \<exists>d < n. scan n h d = i"
  by (rule exI [of _ "if h \<le> i then i - h else i + n - h"]) (auto simp: scan_eq)

lemma scan_inj: "h < n \<Longrightarrow> d < n \<Longrightarrow> d' < n \<Longrightarrow> scan n h d = scan n h d' \<Longrightarrow> d = d'"
  by (auto simp: scan_eq split: if_splits)

lemma next_empty_scan:
  assumes "d < x" "x - d \<le> k" "x < length cs" "mc_seq (cs ! scan (length cs) h x) = {}"
    and "\<And>y. d < y \<Longrightarrow> y < x \<Longrightarrow> mc_seq (cs ! scan (length cs) h y) \<noteq> {}"
  shows "next_empty cs k (scan (length cs) h d) = scan (length cs) h x"
  using assms
proof (induction k arbitrary: d)
  case (Suc k)
  have n: "0 < length cs" using Suc.prems(3) by linarith
  have step: "next_empty cs (Suc k) (scan (length cs) h d) =
      (if mc_seq (cs ! scan (length cs) h (Suc d)) = {} then scan (length cs) h (Suc d) else next_empty cs k (scan (length cs) h (Suc d)))"
    by (simp only: next_empty.simps Let_def scan_Suc [OF n])
  show ?case
  proof (cases "x = Suc d")
    case True
    then show ?thesis using Suc.prems(4) step by simp
  next
    case False
    then have "mc_seq (cs ! scan (length cs) h (Suc d)) \<noteq> {}" using Suc.prems(1,5) by simp
    moreover have "next_empty cs k (scan (length cs) h (Suc d)) = scan (length cs) h x" using Suc.prems False by (intro Suc.IH) auto
    ultimately show ?thesis using step by simp
  qed
qed simp

lemma first_empty_scan:
  assumes "d \<le> x" "x - d < k" "x < length cs" "mc_seq (cs ! scan (length cs) h x) = {}"
    and "\<And>y. d \<le> y \<Longrightarrow> y < x \<Longrightarrow> mc_seq (cs ! scan (length cs) h y) \<noteq> {}"
    and "(if e \<ge> length cs then e - length cs else e) = scan (length cs) h d"
  shows "first_empty cs k e = scan (length cs) h x"
  using assms
proof (induction k arbitrary: d e)
  case (Suc k)
  have n: "0 < length cs" using Suc.prems(3) by linarith
  show ?case
  proof (cases "x = d")
    case True
    then show ?thesis using Suc.prems(4,6) by (simp add: Let_def)
  next
    case False
    then have "mc_seq (cs ! scan (length cs) h d) \<noteq> {}" using Suc.prems(1,5) by simp
    moreover have "first_empty cs k (scan (length cs) h d + 1) = scan (length cs) h x"
      using Suc.prems False scan_Suc [OF n, of h d] by (intro Suc.IH [of "Suc d"]) auto
    ultimately show ?thesis using Suc.prems(6) by (simp add: Let_def)
  qed
qed simp

section \<open>There is an empty cell for a sequence that does not own one\<close>

lemma vseq_full:
  assumes tails: "tails_ok cs" and full: "\<And>i. i < length cs \<Longrightarrow> vseq cs i \<noteq> {}" and k: "k < length cs"
  shows "\<exists>t < length cs. mc_tail (cs ! k) = int t \<and> vseq cs t = {int k}"
proof -
  let ?n = "length cs" and ?f = "\<lambda>k. mc_tail (cs ! k)"
  have sub: "int ` {..<?n} \<subseteq> ?f ` {..<?n}"
  proof
    fix t assume "t \<in> int ` {..<?n}"
    then obtain i where i: "t = int i" "i < ?n" by auto
    then obtain q where "q \<in> vseq cs i" using full by blast
    then show "t \<in> ?f ` {..<?n}" using i by (auto simp: vseq_def intro!: image_eqI [of _ _ "nat q"])
  qed
  have "card (?f ` {..<?n}) \<le> card (int ` {..<?n})" using card_image_le [of "{..<?n}" ?f] by (simp add: card_image)
  then have eq: "int ` {..<?n} = ?f ` {..<?n}" using sub by (intro card_seteq) auto
  then have inj: "inj_on ?f {..<?n}" by (intro eq_card_imp_inj_on) (simp_all add: card_image flip: eq)
  from eq k obtain t where t: "t < ?n" "?f k = int t" by blast
  have "q = int k" if "q \<in> vseq cs t" for q
  proof -
    have "0 \<le> q" "nat q < ?n" "?f (nat q) = ?f k" using that t by (auto simp: vseq_def)
    then show ?thesis using inj_onD [OF inj, of "nat q" k] k by auto
  qed
  moreover have "int k \<in> vseq cs t" using t k by (simp add: vseq_def)
  ultimately show ?thesis using t by blast
qed

section \<open>What a micro-batch has to satisfy\<close>

definition rs_last_pos :: "llama_ubatch \<Rightarrow> nat \<Rightarrow> int" where
  "rs_last_pos u s = u_pos u ! (s * u_n_seq_tokens u + u_n_seq_tokens u - 1)"

text \<open>Sequence sets of equal length, non-empty, disjoint and in range, with valid last positions: what the sequential equal split and the
  split by sequence produce.\<close>

definition rs_batch_ok :: "nat \<Rightarrow> llama_ubatch \<Rightarrow> bool" where
  "rs_batch_ok n u \<longleftrightarrow> b_equal_seqs u \<and> 0 < u_n_seqs u \<and> 0 < u_n_seq_tokens u \<and> length (u_pos u) \<ge> u_n_seqs u * u_n_seq_tokens u \<and>
     (\<forall>s < u_n_seqs u. rs_ids u s \<noteq> [] \<and> distinct (rs_ids u s) \<and> (\<forall>q \<in> set (rs_ids u s). 0 \<le> q \<and> nat q < n) \<and>
        0 \<le> rs_last_pos u s \<and> rs_last_pos u s < LLAMA_POS_MAX) \<and>
     (\<forall>s < u_n_seqs u. \<forall>s' < u_n_seqs u. s \<noteq> s' \<longrightarrow> set (rs_ids u s) \<inter> set (rs_ids u s') = {})"

lemma rs_id0_hd: "rs_ids u s \<noteq> [] \<Longrightarrow> rs_id0 u s = hd (rs_ids u s)"
  by (simp add: rs_ids_def rs_id0_def token_seqs_def hd_conv_nth)

lemma rs_batch_okD:
  assumes "rs_batch_ok n u" and "s < u_n_seqs u"
  shows "rs_id0 u s \<in> set (rs_ids u s)" "0 \<le> rs_id0 u s" "nat (rs_id0 u s) < n" "rs_ids u s = rs_id0 u s # tl (rs_ids u s)" "distinct (rs_ids u s)"
    "0 \<le> rs_last_pos u s" "rs_last_pos u s < LLAMA_POS_MAX" "\<And>q. q \<in> set (rs_ids u s) \<Longrightarrow> 0 \<le> q \<and> nat q < n"
    "\<And>s' q. s' < u_n_seqs u \<Longrightarrow> q \<in> set (rs_ids u s) \<Longrightarrow> q \<in> set (rs_ids u s') \<Longrightarrow> s = s'"
proof -
  have ne: "rs_ids u s \<noteq> []" and r: "\<And>q. q \<in> set (rs_ids u s) \<Longrightarrow> 0 \<le> q \<and> nat q < n" using assms by (auto simp: rs_batch_ok_def)
  show "rs_id0 u s \<in> set (rs_ids u s)" "rs_ids u s = rs_id0 u s # tl (rs_ids u s)" using rs_id0_hd [OF ne] ne by simp_all
  then show "0 \<le> rs_id0 u s" "nat (rs_id0 u s) < n" using r by blast+
  show "distinct (rs_ids u s)" "0 \<le> rs_last_pos u s" "rs_last_pos u s < LLAMA_POS_MAX" using assms by (auto simp: rs_batch_ok_def)
  show "\<And>q. q \<in> set (rs_ids u s) \<Longrightarrow> 0 \<le> q \<and> nat q < n" by (rule r)
  show "\<And>s' q. s' < u_n_seqs u \<Longrightarrow> q \<in> set (rs_ids u s) \<Longrightarrow> q \<in> set (rs_ids u s') \<Longrightarrow> s = s'" using assms unfolding rs_batch_ok_def by blast
qed

lemma rs_id0_inj: "rs_batch_ok n u \<Longrightarrow> s < u_n_seqs u \<Longrightarrow> s' < u_n_seqs u \<Longrightarrow> rs_id0 u s = rs_id0 u s' \<Longrightarrow> s = s'"
  using rs_batch_okD(1,9) by metis

section \<open>The invariant of the search and of the gathering\<close>

text \<open>Position and state source of the cell of sequence \<open>k\<close>.\<close>

definition cell_data :: "mem_cell list \<Rightarrow> nat \<Rightarrow> (int \<times> int) option" where
  "cell_data cs k = (let t = mc_tail (cs ! k) in if t < 0 then None else Some (mc_pos (cs ! nat t), mc_src (cs ! nat t)))"

text \<open>\<open>fresh_data cs0 d\<close>: the data of a sequence that had no cell in \<open>cs0\<close> and now has one that was empty there.\<close>

definition fresh_data :: "mem_cell list \<Rightarrow> (int \<times> int) option \<Rightarrow> bool" where
  "fresh_data cs0 d \<longleftrightarrow> (\<exists>x. d = Some (-1, x) \<and> (x = -1 \<or> (\<exists>e < length cs0. x = int e \<and> mc_seq (cs0 ! e) = {})))"

definition fs_inv :: "llama_ubatch \<Rightarrow> mem_cell list \<Rightarrow> nat \<Rightarrow> int \<Rightarrow> int \<Rightarrow> mem_cell list \<Rightarrow> bool" where
  "fs_inv u cs0 K mn mx cs \<longleftrightarrow> length cs = length cs0 \<and> tails_ok cs \<and> 0 \<le> mn \<and> mx < int (length cs0) \<and>
     (\<forall>i < length cs. mc_seq (cs ! i) = vseq cs i \<or> mc_seq (cs ! i) = {} \<and> (\<exists>s < K. vseq cs i = {rs_id0 u s})) \<and>
     (\<forall>s < K. \<exists>t < length cs. mc_tail (cs ! nat (rs_id0 u s)) = int t \<and> vseq cs t = {rs_id0 u s} \<and> mn \<le> int t \<and> int t \<le> mx) \<and>
     (\<forall>k < length cs. cell_data cs k = cell_data cs0 k \<or> cell_data cs0 k = None \<and> (\<exists>s < K. int k = rs_id0 u s) \<and> fresh_data cs0 (cell_data cs k)) \<and>
     (\<forall>k < length cs. mc_tail (cs ! k) = mc_tail (cs0 ! k) \<or> mn \<le> mc_tail (cs ! k) \<and> mc_tail (cs ! k) \<le> mx) \<and>
     (\<forall>i < length cs. mc_src (cs ! i) = -1 \<or> 0 \<le> mc_src (cs ! i) \<and> mc_src (cs ! i) < int (length cs)) \<and>
     (\<forall>i < length cs. mc_src (cs ! i) = -1 \<or> mc_src (cs ! i) = int i \<or> mn \<le> int i \<and> int i \<le> mx)"

text \<open>During the search the cells no sequence points to are as they were, and the pointer is at one of them if there is one.\<close>

definition fs_pointer :: "nat \<Rightarrow> mem_cell list \<Rightarrow> nat \<Rightarrow> bool" where
  "fs_pointer h cs e \<longleftrightarrow> (let n = length cs in
     (\<exists>i < n. vseq cs i = {}) \<longrightarrow>
     (\<exists>d < n. e = scan n h d \<and> vseq cs e = {} \<and> (\<forall>y < d. vseq cs (scan n h y) \<noteq> {}) \<and>
       (\<forall>y < n. mc_seq (cs ! scan n h y) = {} \<longrightarrow> vseq cs (scan n h y) \<noteq> {} \<longrightarrow> y < d)))"

definition fs_untouched :: "mem_cell list \<Rightarrow> mem_cell list \<Rightarrow> bool" where
  "fs_untouched cs0 cs \<longleftrightarrow>
     (\<forall>i < length cs. vseq cs i = {} \<longrightarrow> mc_pos (cs ! i) = -1 \<and> mc_src (cs ! i) \<in> {-1, int i} \<and> mc_seq (cs0 ! i) = {})"

definition fs_use_inv :: "llama_ubatch \<Rightarrow> nat \<Rightarrow> mem_cell list \<Rightarrow> nat \<Rightarrow> mem_cell list \<times> nat \<times> int \<times> int \<Rightarrow> bool" where
  "fs_use_inv u h cs0 K = (\<lambda>(cs, e, mn, mx). fs_inv u cs0 K mn mx cs \<and> fs_untouched cs0 cs \<and> (K < u_n_seqs u \<longrightarrow> fs_pointer h cs e))"

lemma fs_pointer_first:
  assumes "mcells_ok cs" and h: "h < length cs"
  shows "fs_pointer h cs (first_empty cs (length cs) h)"
proof -
  let ?n = "length cs" and ?E = "\<lambda>y. y < length cs \<and> mc_seq (cs ! scan (length cs) h y) = {}"
  have n: "0 < ?n" using h by linarith
  have seq: "mc_seq (cs ! scan ?n h y) = vseq cs (scan ?n h y)" for y using assms(1) n by (simp add: mcells_ok_def)
  have "\<exists>d < ?n. first_empty cs ?n h = scan ?n h d \<and> vseq cs (scan ?n h d) = {} \<and> (\<forall>y < d. vseq cs (scan ?n h y) \<noteq> {})" if "i < ?n" "vseq cs i = {}" for i
  proof -
    have ex: "\<exists>y. ?E y" using scan_surj [OF that(1) h] that(2) seq by metis
    define x where "x = (LEAST y. ?E y)"
    have x: "?E x" unfolding x_def by (rule LeastI_ex [OF ex])
    have least: "mc_seq (cs ! scan ?n h y) \<noteq> {}" if "y < x" for y using not_less_Least [of y ?E] that x by (auto simp: x_def)
    have "first_empty cs ?n h = scan ?n h x"
      using x least h by (intro first_empty_scan [of 0]) (auto simp: scan_def)
    then show ?thesis using x least seq by metis
  qed
  then show ?thesis using seq unfolding fs_pointer_def Let_def by metis
qed

lemma fs_use_init:
  assumes ok: "mcells_ok cs0" and h: "h < length cs0"
  shows "fs_use_inv u h cs0 0 (cs0, first_empty cs0 (length cs0) h, int (length cs0) - 1, 0)"
proof -
  have src: "mc_src (cs0 ! i) = -1 \<or> mc_src (cs0 ! i) = int i" if "i < length cs0" for i using mcells_okD(3) [OF ok that] .
  then have "mc_src (cs0 ! i) = -1 \<or> 0 \<le> mc_src (cs0 ! i) \<and> mc_src (cs0 ! i) < int (length cs0)" if "i < length cs0" for i using that by force
  moreover have "0 < length cs0" using h by linarith
  ultimately show ?thesis using ok fs_pointer_first [OF ok h] src
    by (auto simp: fs_use_inv_def fs_inv_def fs_untouched_def mcells_ok_def pos_ok_def)
qed

section \<open>Taking an empty cell\<close>

definition taken :: "mem_cell list \<Rightarrow> nat \<Rightarrow> nat \<Rightarrow> nat \<Rightarrow> mem_cell" where
  "taken cs k e i = (let t = mc_tail (cs ! k); from = (if i = e \<and> 0 \<le> t then cs ! nat t else cs ! i) in
     (cs ! i)\<lparr>mc_tail := (if i = k then int e else mc_tail (cs ! i)),
       mc_seq := (if i = e then (if t < 0 then {} else {int k}) else mc_seq (cs ! i) - {int k}),
       mc_pos := mc_pos from, mc_src := mc_src from\<rparr>)"

lemma fs_take_eq:
  assumes "k < length cs" "e < length cs" "mc_seq (cs ! e) = {}" and own: "\<And>i. i < length cs \<Longrightarrow> int i \<noteq> mc_tail (cs ! k) \<Longrightarrow> int k \<notin> mc_seq (cs ! i)"
    and t: "0 \<le> mc_tail (cs ! k) \<Longrightarrow> nat (mc_tail (cs ! k)) < length cs \<and> nat (mc_tail (cs ! k)) \<noteq> e \<and> mc_seq (cs ! nat (mc_tail (cs ! k))) - {int k} \<noteq> {}"
  shows "fs_take cs (int k) e = Some (map (taken cs k e) [0..<length cs])"
proof (cases "0 \<le> mc_tail (cs ! k)")
  case True
  then obtain t where eq: "mc_tail (cs ! k) = int t" by (rule nonneg_int_cases)
  then have b: "t < length cs" "t \<noteq> e" "mc_seq (cs ! t) - {int k} \<noteq> {}" using assms(5) True by auto
  define cs1 where "cs1 = cs[e := (cs ! e)\<lparr>mc_pos := mc_pos (cs ! t), mc_src := mc_src (cs ! t)\<rparr>]"
  define cs2 where "cs2 = cs1[t := (cs1 ! t)\<lparr>mc_seq := mc_seq (cs1 ! t) - {int k}\<rparr>]"
  define cs3 where "cs3 = cs2[e := (cs2 ! e)\<lparr>mc_seq := insert (int k) (mc_seq (cs2 ! e))\<rparr>]"
  define cs4 where "cs4 = cs3[k := (cs3 ! k)\<lparr>mc_tail := int e\<rparr>]"
  have "mc_seq (cs3 ! t) \<noteq> {}" using b assms(2) by (simp add: cs3_def cs2_def cs1_def)
  then have "fs_take cs (int k) e = Some cs4" using assms(2,3) by (simp add: fs_take_def Let_def eq flip: cs1_def cs2_def cs3_def cs4_def)
  moreover have "cs4 = map (taken cs k e) [0..<length cs]"
  proof (rule nth_equalityI)
    fix i assume "i < length cs4"
    then have i: "i < length cs" by (simp add: cs4_def cs3_def cs2_def cs1_def)
    have "cs4 ! i = taken cs k e i"
      using i b assms(1-3) own [OF i] by (auto simp: cs4_def cs3_def cs2_def cs1_def nth_list_update taken_def eq Let_def)
    then show "cs4 ! i = map (taken cs k e) [0..<length cs] ! i" using i by simp
  qed (simp add: cs4_def cs3_def cs2_def cs1_def)
  ultimately show ?thesis by simp
next
  case False
  then have "int k \<notin> mc_seq (cs ! i)" if "i < length cs" for i using own [OF that] by auto
  then have "cs[k := (cs ! k)\<lparr>mc_tail := int e\<rparr>] = map (taken cs k e) [0..<length cs]"
    using False assms(1,3) by (intro nth_equalityI) (auto simp: nth_list_update taken_def Let_def)
  then show ?thesis using False assms(2,3) by (simp add: fs_take_def)
qed

lemma vseq_taken:
  assumes cs': "cs' = map (taken cs k e) [0..<length cs]" and k: "k < length cs" and e: "vseq cs e = {}"
  shows "vseq cs' i = (if i = e then {int k} else vseq cs i - {int k})"
proof (rule set_eqI)
  fix q
  have len: "length cs' = length cs" by (simp add: cs')
  show "q \<in> vseq cs' i \<longleftrightarrow> q \<in> (if i = e then {int k} else vseq cs i - {int k})"
  proof (cases "0 \<le> q \<and> nat q < length cs")
    case True
    then have "mc_tail (cs' ! nat q) = (if nat q = k then int e else mc_tail (cs ! nat q))" by (simp add: cs' taken_def Let_def)
    moreover have "q = int k \<longleftrightarrow> nat q = k" using True by auto
    moreover have "q \<notin> vseq cs e" using e by blast
    ultimately show ?thesis using True len by (auto simp: vseq_def)
  next
    case False
    then show ?thesis using k len by (auto simp: vseq_def)
  qed
qed

lemma taken_fields:
  "i \<noteq> e \<Longrightarrow> mc_seq (taken cs k e i) = mc_seq (cs ! i) - {int k}" "i \<noteq> e \<Longrightarrow> mc_pos (taken cs k e i) = mc_pos (cs ! i)"
  "i \<noteq> e \<Longrightarrow> mc_src (taken cs k e i) = mc_src (cs ! i)" "mc_tail (taken cs k e i) = (if i = k then int e else mc_tail (cs ! i))"
  "0 \<le> mc_tail (cs ! k) \<Longrightarrow> mc_pos (taken cs k e e) = mc_pos (cs ! nat (mc_tail (cs ! k)))"
  "0 \<le> mc_tail (cs ! k) \<Longrightarrow> mc_src (taken cs k e e) = mc_src (cs ! nat (mc_tail (cs ! k)))"
  "0 \<le> mc_tail (cs ! k) \<Longrightarrow> mc_seq (taken cs k e e) = {int k}" "mc_tail (cs ! k) < 0 \<Longrightarrow> mc_seq (taken cs k e e) = {}"
  "mc_tail (cs ! k) < 0 \<Longrightarrow> mc_pos (taken cs k e e) = mc_pos (cs ! e)" "mc_tail (cs ! k) < 0 \<Longrightarrow> mc_src (taken cs k e e) = mc_src (cs ! e)"
  by (simp_all add: taken_def Let_def)

section \<open>One step of the search\<close>

lemma fs_invD:
  assumes "fs_inv u cs0 K mn mx cs"
  shows "length cs = length cs0" "tails_ok cs" "0 \<le> mn" "mx < int (length cs0)"
    "\<And>i. i < length cs \<Longrightarrow> mc_seq (cs ! i) = vseq cs i \<or> mc_seq (cs ! i) = {} \<and> (\<exists>s < K. vseq cs i = {rs_id0 u s})"
    "\<And>s. s < K \<Longrightarrow> \<exists>t < length cs. mc_tail (cs ! nat (rs_id0 u s)) = int t \<and> vseq cs t = {rs_id0 u s} \<and> mn \<le> int t \<and> int t \<le> mx"
    "\<And>k. k < length cs \<Longrightarrow> cell_data cs k = cell_data cs0 k \<or> cell_data cs0 k = None \<and> (\<exists>s < K. int k = rs_id0 u s) \<and> fresh_data cs0 (cell_data cs k)"
    "\<And>k. k < length cs \<Longrightarrow> mc_tail (cs ! k) = mc_tail (cs0 ! k) \<or> mn \<le> mc_tail (cs ! k) \<and> mc_tail (cs ! k) \<le> mx"
    "\<And>i. i < length cs \<Longrightarrow> mc_src (cs ! i) = -1 \<or> 0 \<le> mc_src (cs ! i) \<and> mc_src (cs ! i) < int (length cs)"
    "\<And>i. i < length cs \<Longrightarrow> mc_src (cs ! i) = -1 \<or> mc_src (cs ! i) = int i \<or> mn \<le> int i \<and> int i \<le> mx"
  using assms unfolding fs_inv_def by blast+

lemma fs_inv_range: "fs_inv u cs0 K mn mx cs \<Longrightarrow> 0 \<le> mn' \<Longrightarrow> mn' \<le> mn \<Longrightarrow> mx \<le> mx' \<Longrightarrow> mx' < int (length cs0) \<Longrightarrow> fs_inv u cs0 K mn' mx' cs"
  unfolding fs_inv_def by (elim conjE, intro conjI) (meson order_trans)+

lemma fs_inv_seq_vseq: "fs_inv u cs0 K mn mx cs \<Longrightarrow> i < length cs \<Longrightarrow> mc_seq (cs ! i) \<subseteq> vseq cs i"
  using fs_invD(5) by fastforce

lemma fs_next_cell:
  assumes inv: "fs_inv u cs0 K mn mx cs" and b: "rs_batch_ok (length cs) u" and K: "K < u_n_seqs u" and t: "mc_tail (cs ! nat (rs_id0 u K)) = int t"
  shows "t < length cs" "mc_seq (cs ! t) = vseq cs t" "rs_id0 u K \<in> vseq cs t"
proof -
  note q = rs_batch_okD [OF b K]
  show tl: "t < length cs" using fs_invD(2) [OF inv] q(3) t by (auto simp: tails_ok_def)
  show mem: "rs_id0 u K \<in> vseq cs t" using q t by (simp add: vseq_def)
  show "mc_seq (cs ! t) = vseq cs t" using fs_invD(5) [OF inv tl] mem rs_id0_inj [OF b K] K by (metis less_irrefl less_trans singletonD)
qed

lemma fs_inv_own:
  assumes inv: "fs_inv u cs0 K mn mx cs" and t: "t < length cs" "mc_tail (cs ! nat (rs_id0 u K)) = int t" "vseq cs t = {rs_id0 u K}"
  shows "fs_inv u cs0 (Suc K) (min mn (int t)) (max mx (int t)) cs"
proof -
  note I = fs_invD [OF fs_inv_range [OF inv, of "min mn (int t)" "max mx (int t)"]]
  have r: "0 \<le> min mn (int t)" "max mx (int t) < int (length cs0)" using fs_invD(1,3,4) [OF inv] t(1) by auto
  show ?thesis unfolding fs_inv_def
  proof (intro conjI allI impI)
    fix s assume "s < Suc K"
    then show "\<exists>t' < length cs. mc_tail (cs ! nat (rs_id0 u s)) = int t' \<and> vseq cs t' = {rs_id0 u s} \<and> min mn (int t) \<le> int t' \<and> int t' \<le> max mx (int t)"
      using I(6) [of s] r t by (cases "s = K") auto
  next
    fix i assume "i < length cs"
    then show "mc_seq (cs ! i) = vseq cs i \<or> mc_seq (cs ! i) = {} \<and> (\<exists>s < Suc K. vseq cs i = {rs_id0 u s})"
      using I(5) [of i] r less_Suc_eq by auto
  next
    fix k assume "k < length cs"
    then show "cell_data cs k = cell_data cs0 k \<or> cell_data cs0 k = None \<and> (\<exists>s < Suc K. int k = rs_id0 u s) \<and> fresh_data cs0 (cell_data cs k)"
      using I(7) [of k] r less_Suc_eq by auto
  qed (use I r in auto)
qed

text \<open>If every cell had a sequence, this one would own its cell.\<close>

lemma fs_has_empty:
  assumes inv: "fs_inv u cs0 K mn mx cs" and b: "rs_batch_ok (length cs) u" and K: "K < u_n_seqs u"
    and no: "mc_tail (cs ! nat (rs_id0 u K)) < 0 \<or> vseq cs (nat (mc_tail (cs ! nat (rs_id0 u K)))) \<noteq> {rs_id0 u K}"
  shows "\<exists>i < length cs. vseq cs i = {}"
proof (rule ccontr)
  assume "\<not> (\<exists>i < length cs. vseq cs i = {})"
  then obtain t where "mc_tail (cs ! nat (rs_id0 u K)) = int t" "vseq cs t = {int (nat (rs_id0 u K))}"
    using vseq_full [OF fs_invD(2) [OF inv], of "nat (rs_id0 u K)"] rs_batch_okD(3) [OF b K] by blast
  then show False using no rs_batch_okD(2) [OF b K] by simp
qed

lemma cell_data_taken:
  assumes tails: "tails_ok cs" and cs': "cs' = map (taken cs k e) [0..<length cs]" and k: "k < length cs" and e: "e < length cs" "vseq cs e = {}"
    and j: "j < length cs"
  shows "cell_data cs' j = (if j = k \<and> mc_tail (cs ! k) < 0 then Some (mc_pos (cs ! e), mc_src (cs ! e)) else cell_data cs j)"
proof (cases "j = k")
  case True
  then show ?thesis using k e(1) by (simp add: cell_data_def cs' taken_fields Let_def)
next
  case False
  show ?thesis
  proof (cases "0 \<le> mc_tail (cs ! j)")
    case True
    then obtain t where t: "mc_tail (cs ! j) = int t" by (rule nonneg_int_cases)
    then have "t < length cs" using tails j by (auto simp: tails_ok_def)
    moreover have "t \<noteq> e" using e(2) t j by (auto simp: vseq_def dest: spec [of _ "int j"])
    ultimately show ?thesis using False t j by (simp add: cell_data_def cs' taken_fields Let_def)
  next
    case neg: False
    then show ?thesis using False j by (simp add: cell_data_def cs' taken_fields Let_def)
  qed
qed

lemma fs_inv_taken:
  assumes inv: "fs_inv u cs0 K mn mx cs" and b: "rs_batch_ok (length cs) u" and K: "K < u_n_seqs u" and un: "fs_untouched cs0 cs"
    and e: "e < length cs" "vseq cs e = {}" and cs': "cs' = map (taken cs (nat (rs_id0 u K)) e) [0..<length cs]"
  shows "fs_inv u cs0 (Suc K) (min mn (int e)) (max mx (int e)) cs'"
proof -
  obtain k where k: "rs_id0 u K = int k" "k < length cs" using rs_batch_okD(2,3) [OF b K] by (auto elim: nonneg_int_cases)
  note I = fs_invD [OF inv]
  have len: "length cs' = length cs" by (simp add: cs')
  have nth: "cs' ! i = taken cs k e i" if "i < length cs" for i using that k by (simp add: cs')
  have v: "vseq cs' i = (if i = e then {int k} else vseq cs i - {int k})" for i using vseq_taken [of cs' cs k e] cs' k e(2) by simp
  have other: "rs_id0 u s \<noteq> int k" if "s < K" for s using rs_id0_inj [OF b K, of s] that K k(1) by auto
  have data: "cell_data cs' j = (if j = k \<and> mc_tail (cs ! k) < 0 then Some (mc_pos (cs ! e), mc_src (cs ! e)) else cell_data cs j)" if "j < length cs" for j
    using cell_data_taken [OF I(2) _ k(2) e that] cs' k(1) by simp
  have emp: "mc_pos (cs ! e) = -1" "mc_src (cs ! e) \<in> {-1, int e}" "mc_seq (cs0 ! e) = {}" using un e by (auto simp: fs_untouched_def)
  show ?thesis unfolding fs_inv_def len
  proof (intro conjI allI impI)
    show "length cs = length cs0" by (rule I(1))
    show "tails_ok cs'" using I(2) e(1) by (auto simp: tails_ok_def len nth taken_fields)
    show "0 \<le> min mn (int e)" "max mx (int e) < int (length cs0)" using I(1,3,4) e(1) by auto
  next
    fix i assume i: "i < length cs"
    show "mc_seq (cs' ! i) = vseq cs' i \<or> mc_seq (cs' ! i) = {} \<and> (\<exists>s < Suc K. vseq cs' i = {rs_id0 u s})"
    proof (cases "i = e")
      case True
      then have "mc_seq (cs' ! i) = {int k} \<or> mc_seq (cs' ! i) = {}" "vseq cs' i = {int k}"
        using taken_fields(7,8) [of cs k e] nth [OF i] v by (cases "0 \<le> mc_tail (cs ! k)"; simp)+
      then show ?thesis using k(1) by (metis lessI)
    next
      case False
      then show ?thesis using I(5) [OF i] other by (auto simp: nth i v taken_fields less_Suc_eq)
    qed
    show "mc_src (cs' ! i) = -1 \<or> 0 \<le> mc_src (cs' ! i) \<and> mc_src (cs' ! i) < int (length cs)"
    proof (cases "i = e \<and> 0 \<le> mc_tail (cs ! k)")
      case True
      then have "nat (mc_tail (cs ! k)) < length cs" using I(2) k(2) by (auto simp: tails_ok_def)
      then show ?thesis using I(9) True nth [OF i] by (simp add: taken_fields)
    next
      case False
      then show ?thesis using I(9) [OF i] nth [OF i] by (cases "i = e") (auto simp: taken_fields)
    qed
    show "mc_src (cs' ! i) = -1 \<or> mc_src (cs' ! i) = int i \<or> min mn (int e) \<le> int i \<and> int i \<le> max mx (int e)"
      using I(10) [OF i] by (cases "i = e") (auto simp: nth i taken_fields)
  next
    fix s assume s: "s < Suc K"
    show "\<exists>t < length cs. mc_tail (cs' ! nat (rs_id0 u s)) = int t \<and> vseq cs' t = {rs_id0 u s} \<and> min mn (int e) \<le> int t \<and> int t \<le> max mx (int e)"
    proof (cases "s = K")
      case True
      then show ?thesis using k e(1) by (intro exI [of _ e]) (simp add: nth v taken_fields)
    next
      case False
      then have sK: "s < K" using s by simp
      from I(6) [OF sK] obtain t where t: "t < length cs" "mc_tail (cs ! nat (rs_id0 u s)) = int t" "vseq cs t = {rs_id0 u s}" "mn \<le> int t" "int t \<le> mx" by blast
      have "t \<noteq> e" using t(3) e(2) by auto
      moreover have "nat (rs_id0 u s) < length cs" "nat (rs_id0 u s) \<noteq> k" using rs_batch_okD(2,3) [OF b, of s] sK K other [OF sK] by auto
      ultimately show ?thesis using t other [OF sK] by (intro exI [of _ t]) (auto simp: nth v taken_fields)
    qed
  next
    fix j assume j: "j < length cs"
    show "cell_data cs' j = cell_data cs0 j \<or> cell_data cs0 j = None \<and> (\<exists>s < Suc K. int j = rs_id0 u s) \<and> fresh_data cs0 (cell_data cs' j)"
    proof (cases "j = k \<and> mc_tail (cs ! k) < 0")
      case True
      then have "cell_data cs j = None" by (simp add: cell_data_def)
      then have "cell_data cs0 j = None" using I(7) [OF j] by (auto simp: fresh_data_def)
      moreover have "fresh_data cs0 (cell_data cs' j)" using True data [OF j] emp e(1) I(1) by (auto simp: fresh_data_def)
      ultimately show ?thesis using True k(1) by auto
    next
      case False
      then have "cell_data cs' j = cell_data cs j" using data [OF j] by auto
      then show ?thesis using I(7) [OF j] less_SucI by metis
    qed
    show "mc_tail (cs' ! j) = mc_tail (cs0 ! j) \<or> min mn (int e) \<le> mc_tail (cs' ! j) \<and> mc_tail (cs' ! j) \<le> max mx (int e)"
      using I(8) [OF j] by (auto simp: nth j taken_fields)
  qed
qed

lemma taken_nonempty:
  assumes k: "k < length cs" "0 \<le> k'" "nat k' = k" and e: "vseq cs e = {}" and no: "mc_tail (cs ! k) < 0 \<or> vseq cs (nat (mc_tail (cs ! k))) \<noteq> {k'}"
    and cs': "cs' = map (taken cs k e) [0..<length cs]"
  shows "vseq cs' i = {} \<longleftrightarrow> vseq cs i = {} \<and> i \<noteq> e"
proof -
  have "vseq cs i \<noteq> {int k}"
  proof
    assume v: "vseq cs i = {int k}"
    then have "mc_tail (cs ! k) = int i" using k by (auto simp: vseq_def dest!: equalityD2)
    then show False using no v k(2,3) by auto
  qed
  then show ?thesis using vseq_taken [OF cs' k(1) e, of i] by auto
qed

lemma fs_untouched_taken:
  assumes "fs_untouched cs0 cs" and e: "e < length cs" "vseq cs e = {}" and cs': "cs' = map (taken cs k e) [0..<length cs]"
    and ne: "\<And>i. vseq cs' i = {} \<Longrightarrow> vseq cs i = {} \<and> i \<noteq> e"
  shows "fs_untouched cs0 cs'"
  using assms(1) ne by (auto simp: fs_untouched_def cs' taken_fields)

text \<open>The next search starts behind the cell just taken and meets no reserved cell before an empty one.\<close>

lemma fs_pointer_taken:
  assumes ptr: "fs_pointer h cs e" and h: "h < length cs" and e: "e < length cs" "vseq cs e = {}" and cs': "cs' = map (taken cs k e) [0..<length cs]"
    and ne: "\<And>i. vseq cs' i = {} \<longleftrightarrow> vseq cs i = {} \<and> i \<noteq> e" and sub: "\<And>i. i < length cs \<Longrightarrow> mc_seq (cs ! i) \<subseteq> vseq cs i"
    and seq: "\<And>i. i < length cs \<Longrightarrow> i \<noteq> e \<Longrightarrow> mc_seq (cs' ! i) = {} \<longleftrightarrow> mc_seq (cs ! i) = {}"
  shows "fs_pointer h cs' (next_empty cs' (length cs') e)"
proof -
  let ?n = "length cs" and ?s = "scan (length cs) h"
  have len: "length cs' = ?n" by (simp add: cs')
  have n: "0 < ?n" using h by linarith
  obtain d where d: "d < ?n" "e = ?s d" "\<And>y. y < d \<Longrightarrow> vseq cs (?s y) \<noteq> {}"
    "\<And>y. y < ?n \<Longrightarrow> mc_seq (cs ! ?s y) = {} \<Longrightarrow> vseq cs (?s y) \<noteq> {} \<Longrightarrow> y < d"
    using ptr e unfolding fs_pointer_def Let_def by metis
  have diff: "?s y \<noteq> e" if "y < ?n" "y \<noteq> d" for y using scan_inj [OF h that(1) d(1)] that(2) d(2) by auto
  have virt: "mc_seq (cs' ! ?s y) = {} \<longleftrightarrow> vseq cs' (?s y) = {}" if "d < y" "y < ?n" for y
    using d(4) [OF that(2)] sub [of "?s y"] seq [of "?s y"] diff [of y] ne [of "?s y"] that n by auto
  have found: "\<exists>x < ?n. next_empty cs' ?n e = ?s x \<and> vseq cs' (?s x) = {} \<and> (\<forall>y < x. vseq cs' (?s y) \<noteq> {}) \<and> d < x" if i: "i < ?n" "vseq cs' i = {}" for i
  proof -
    let ?E = "\<lambda>y. d < y \<and> y < ?n \<and> mc_seq (cs' ! ?s y) = {}"
    obtain y where y: "y < ?n" "?s y = i" using scan_surj [OF i(1) h] by blast
    then have "d < y" using ne [of i] i(2) d(2,3) by (metis linorder_neqE_nat)
    then have ex: "\<exists>y. ?E y" using virt y i(2) by blast
    define x where "x = (LEAST y. ?E y)"
    have x: "?E x" unfolding x_def by (rule LeastI_ex [OF ex])
    have least: "mc_seq (cs' ! ?s y) \<noteq> {}" if "d < y" "y < x" for y using not_less_Least [of y ?E] that x by (auto simp: x_def)
    have "next_empty cs' ?n e = ?s x" using next_empty_scan [of d x ?n cs' h] x least d(2) len by auto
    moreover have "vseq cs' (?s y) \<noteq> {}" if "y < x" for y
      using that ne [of "?s y"] d(2,3) virt [of y] least [of y] x by (metis less_trans linorder_neqE_nat)
    ultimately show ?thesis using x virt by blast
  qed
  have old: "y \<le> d" if "y < ?n" "mc_seq (cs' ! ?s y) = {}" "vseq cs' (?s y) \<noteq> {}" for y using virt that by (meson not_le)
  show ?thesis unfolding fs_pointer_def Let_def len
  proof (rule impI, elim exE conjE)
    fix i assume "i < ?n" "vseq cs' i = {}"
    from found [OF this] obtain x where x: "x < ?n" "next_empty cs' ?n e = ?s x" "vseq cs' (?s x) = {}" "\<forall>y < x. vseq cs' (?s y) \<noteq> {}" "d < x" by blast
    have "y < x" if "y < ?n" "mc_seq (cs' ! ?s y) = {}" "vseq cs' (?s y) \<noteq> {}" for y using old [OF that] x(5) by simp
    then show "\<exists>d < ?n. next_empty cs' ?n e = ?s d \<and> vseq cs' (next_empty cs' ?n e) = {} \<and> (\<forall>y < d. vseq cs' (?s y) \<noteq> {}) \<and>
        (\<forall>y < ?n. mc_seq (cs' ! ?s y) = {} \<longrightarrow> vseq cs' (?s y) \<noteq> {} \<longrightarrow> y < d)"
      using x(1-4) by (intro exI [of _ x]) simp
  qed
qed

lemma fs_use_step_ok:
  assumes inv: "fs_use_inv u h cs0 K st" and b: "rs_batch_ok (length cs0) u" and K: "K < u_n_seqs u" and h: "h < length cs0"
  shows "\<exists>st'. fs_use_step u K st = Some st' \<and> fs_use_inv u h cs0 (Suc K) st'"
proof -
  obtain cs e mn mx where st: "st = (cs, e, mn, mx)" by (cases st)
  have I: "fs_inv u cs0 K mn mx cs" and un: "fs_untouched cs0 cs" and ptr: "fs_pointer h cs e" using inv K by (auto simp: fs_use_inv_def st)
  have len: "length cs = length cs0" by (rule fs_invD(1) [OF I])
  have b': "rs_batch_ok (length cs) u" using b len by simp
  obtain k where k: "rs_id0 u K = int k" "k < length cs" using rs_batch_okD(2,3) [OF b' K] by (auto elim: nonneg_int_cases)
  show ?thesis
  proof (cases "\<exists>t. mc_tail (cs ! k) = int t \<and> vseq cs t = {int k}")
    case True
    then obtain t where t: "mc_tail (cs ! k) = int t" "vseq cs t = {int k}" by blast
    note N = fs_next_cell [OF I b' K, of t]
    have "fs_own cs (int k) = Some True" using N t k by (simp add: fs_own_def)
    then have "fs_use_step u K st = Some (cs, e, min mn (int t), max mx (int t))" using t k(1) by (simp add: fs_use_step_def st Let_def)
    then show ?thesis using fs_inv_own [OF I, of t] N t k un ptr by (auto simp: fs_use_inv_def)
  next
    case False
    have no: "mc_tail (cs ! k) < 0 \<or> vseq cs (nat (mc_tail (cs ! k))) \<noteq> {int k}" using False by (metis nonneg_int_cases not_less nat_int)
    obtain i where "i < length cs" "vseq cs i = {}" using fs_has_empty [OF I b' K] no k by auto
    then have e: "e < length cs" "vseq cs e = {}" using ptr h len scan_less [of "length cs" h] unfolding fs_pointer_def Let_def by (metis gr_implies_not0 not_gr_zero)+
    note sub = fs_inv_seq_vseq [OF I]
    have tail: "nat (mc_tail (cs ! k)) < length cs \<and> mc_seq (cs ! nat (mc_tail (cs ! k))) = vseq cs (nat (mc_tail (cs ! k))) \<and>
        int k \<in> vseq cs (nat (mc_tail (cs ! k)))" if "0 \<le> mc_tail (cs ! k)"
      using fs_next_cell [OF I b' K, of "nat (mc_tail (cs ! k))"] that k by simp
    have own: "fs_own cs (int k) = Some False"
    proof (cases "0 \<le> mc_tail (cs ! k)")
      case True
      then have "card (vseq cs (nat (mc_tail (cs ! k)))) \<noteq> 1" using tail no by (auto simp: card_1_singleton_iff)
      then show ?thesis using tail True by (simp add: fs_own_def)
    qed (simp add: fs_own_def)
    define cs' where "cs' = map (taken cs k e) [0..<length cs]"
    have take: "fs_take cs (int k) e = Some cs'" unfolding cs'_def
    proof (rule fs_take_eq [OF k(2) e(1)])
      show "mc_seq (cs ! e) = {}" using sub [OF e(1)] e(2) by blast
      show "int k \<notin> mc_seq (cs ! i)" if "i < length cs" "int i \<noteq> mc_tail (cs ! k)" for i using sub [OF that(1)] that(2) by (auto simp: vseq_def)
      show "nat (mc_tail (cs ! k)) < length cs \<and> nat (mc_tail (cs ! k)) \<noteq> e \<and> mc_seq (cs ! nat (mc_tail (cs ! k))) - {int k} \<noteq> {}"
        if "0 \<le> mc_tail (cs ! k)" using tail [OF that] no that e(2) by auto
    qed
    have ne: "vseq cs' i = {} \<longleftrightarrow> vseq cs i = {} \<and> i \<noteq> e" for i using taken_nonempty [OF k(2) _ _ e(2) no cs'_def] by simp
    have seq: "mc_seq (cs' ! i) = {} \<longleftrightarrow> mc_seq (cs ! i) = {}" if i: "i < length cs" "i \<noteq> e" for i
    proof -
      have "mc_seq (cs ! i) \<noteq> {int k}"
      proof
        assume s: "mc_seq (cs ! i) = {int k}"
        then have "mc_tail (cs ! k) = int i" using sub [OF i(1)] by (auto simp: vseq_def)
        then show False using tail no s by auto
      qed
      then show ?thesis using i by (auto simp: cs'_def taken_fields)
    qed
    have I': "fs_inv u cs0 (Suc K) (min mn (int e)) (max mx (int e)) cs'" using fs_inv_taken [OF I b' K un e] k by (simp add: cs'_def)
    have un': "fs_untouched cs0 cs'" using fs_untouched_taken [OF un e cs'_def] ne by blast
    have ptr': "fs_pointer h cs' (next_empty cs' (length cs') e)" using fs_pointer_taken [OF ptr _ e cs'_def ne sub seq] h len by simp
    have "mc_tail (cs' ! k) = int e" using k by (simp add: cs'_def taken_fields)
    then have "fs_use_step u K st = Some (cs', if K + 1 < u_n_seqs u then next_empty cs' (length cs') e else e, min mn (int e), max mx (int e))"
      using own take k(1) by (simp add: fs_use_step_def st Let_def)
    then show ?thesis using I' un' ptr' by (simp add: fs_use_inv_def)
  qed
qed

end
