(* ===== verification/RecurrentPlace.thy ===== *)
theory RecurrentPlace
  imports RecurrentSlot
begin

text \<open>
  The second half of \<^verbatim>\<open>llama_memory_recurrent::find_slot\<close>: gathering the cells of the micro-batch into a contiguous range, writing positions and
  sequences, and staging the state sources; then the correctness of the whole function and of the dry run.
\<close>

lemma fs_use_ok:
  assumes ok: "mcells_ok cs0" and h: "h < length cs0" and b: "rs_batch_ok (length cs0) u"
  shows "\<exists>cs e mn mx. foldM (fs_use_step u) [0..<u_n_seqs u] (cs0, first_empty cs0 (length cs0) h, int (length cs0) - 1, 0) = Some (cs, e, mn, mx) \<and>
    fs_inv u cs0 (u_n_seqs u) mn mx cs \<and> (\<forall>i < length cs. vseq cs i = {} \<longrightarrow> mc_pos (cs ! i) = -1)"
proof -
  from foldM_upt_inv [of "fs_use_inv u h cs0" _ "u_n_seqs u" "fs_use_step u", OF fs_use_init [OF ok h]] fs_use_step_ok [OF _ b _ h]
  obtain st where st: "foldM (fs_use_step u) [0..<u_n_seqs u] (cs0, first_empty cs0 (length cs0) h, int (length cs0) - 1, 0) = Some st"
    "fs_use_inv u h cs0 (u_n_seqs u) st" by blast
  then show ?thesis by (cases st) (auto simp: fs_use_inv_def fs_untouched_def)
qed

section \<open>Gathering\<close>

definition sw :: "nat \<Rightarrow> nat \<Rightarrow> nat \<Rightarrow> nat" where
  "sw d c i = (if i = d then c else if i = c then d else i)"

definition swt :: "nat \<Rightarrow> nat \<Rightarrow> int \<Rightarrow> int" where
  "swt d c t = (if t = int c then int d else if t = int d then int c else t)"

lemma swt_int: "swt d c (int i) = int (sw d c i)"
  by (simp add: swt_def sw_def)

lemma sw_sw [simp]: "sw d c (sw d c i) = i"
  by (simp add: sw_def)

lemma sw_less [simp]: "c < n \<Longrightarrow> d < n \<Longrightarrow> sw d c i < n \<longleftrightarrow> i < n"
  by (auto simp: sw_def)

lemma swt_eq: "swt d c t = int i \<longleftrightarrow> t = int (sw d c i)"
  by (auto simp: swt_def sw_def)

lemma swap_cells_nth:
  assumes "c < length cs" "d < length cs" "c \<noteq> d" "i < length cs"
  shows "swap_cells d c cs ! i = (cs ! i)\<lparr>mc_pos := mc_pos (cs ! sw d c i), mc_src := mc_src (cs ! sw d c i), mc_seq := mc_seq (cs ! sw d c i),
    mc_tail := swt d c (mc_tail (cs ! i))\<rparr>"
  using assms by (auto simp: swap_cells_def Let_def nth_list_update sw_def swt_def)

lemma length_swap_cells [simp]: "length (swap_cells d c cs) = length cs"
  by (simp add: swap_cells_def Let_def)

lemma vseq_swap:
  assumes "c < length cs" "d < length cs" "c \<noteq> d"
  shows "vseq (swap_cells d c cs) i = vseq cs (sw d c i)"
  using swap_cells_nth [OF assms] by (auto simp: vseq_def swt_eq)

lemma cell_data_swap:
  assumes "c < length cs" "d < length cs" "c \<noteq> d" "tails_ok cs" "k < length cs"
  shows "cell_data (swap_cells d c cs) k = cell_data cs k"
proof (cases "0 \<le> mc_tail (cs ! k)")
  case True
  then obtain t where t: "mc_tail (cs ! k) = int t" by (rule nonneg_int_cases)
  then have "t < length cs" using assms(4,5) by (auto simp: tails_ok_def)
  then show ?thesis using swap_cells_nth [OF assms(1-3)] t assms by (simp add: cell_data_def swt_int Let_def)
next
  case False
  then show ?thesis using swap_cells_nth [OF assms(1-3,5)] by (simp add: cell_data_def swt_def Let_def)
qed

lemma fs_inv_swap:
  assumes inv: "fs_inv u cs0 K mn mx cs" and b: "c < length cs" "d < length cs" "c \<noteq> d"
    and r: "mn \<le> int c" "int c \<le> mx" "mn \<le> int d" "int d \<le> mx" and q: "\<And>s. s < K \<Longrightarrow> nat (rs_id0 u s) < length cs"
  shows "fs_inv u cs0 K mn mx (swap_cells d c cs)"
proof -
  note I = fs_invD [OF inv] and nth = swap_cells_nth [OF b] and v = vseq_swap [OF b]
  show ?thesis unfolding fs_inv_def length_swap_cells
  proof (intro conjI allI impI)
    show "length cs = length cs0" "0 \<le> mn" "mx < int (length cs0)" by (rule I)+
    show "tails_ok (swap_cells d c cs)" using I(2) b by (auto simp: tails_ok_def nth swt_def)
  next
    fix i assume i: "i < length cs"
    have j: "sw d c i < length cs" using b i by simp
    show "mc_seq (swap_cells d c cs ! i) = vseq (swap_cells d c cs) i \<or> mc_seq (swap_cells d c cs ! i) = {} \<and> (\<exists>s < K. vseq (swap_cells d c cs) i = {rs_id0 u s})"
      using I(5) [OF j] by (simp add: nth [OF i] v)
    show "mc_src (swap_cells d c cs ! i) = -1 \<or> 0 \<le> mc_src (swap_cells d c cs ! i) \<and> mc_src (swap_cells d c cs ! i) < int (length cs)"
      using I(9) [OF j] by (simp add: nth [OF i])
    show "mc_src (swap_cells d c cs ! i) = -1 \<or> mc_src (swap_cells d c cs ! i) = int i \<or> mn \<le> int i \<and> int i \<le> mx"
      using I(10) [OF j] r by (auto simp: nth [OF i] sw_def split: if_splits)
  next
    fix s assume s: "s < K"
    from I(6) [OF s] obtain t where t: "t < length cs" "mc_tail (cs ! nat (rs_id0 u s)) = int t" "vseq cs t = {rs_id0 u s}" "mn \<le> int t" "int t \<le> mx" by blast
    then show "\<exists>t < length cs. mc_tail (swap_cells d c cs ! nat (rs_id0 u s)) = int t \<and> vseq (swap_cells d c cs) t = {rs_id0 u s} \<and> mn \<le> int t \<and> int t \<le> mx"
      using r b by (intro exI [of _ "sw d c t"]) (auto simp: nth q s swt_int v, auto simp: sw_def)
  next
    fix k assume k: "k < length cs"
    show "cell_data (swap_cells d c cs) k = cell_data cs0 k \<or> cell_data cs0 k = None \<and> (\<exists>s < K. int k = rs_id0 u s) \<and> fresh_data cs0 (cell_data (swap_cells d c cs) k)"
      using I(7) [OF k] cell_data_swap [OF b I(2) k] by simp
    show "mc_tail (swap_cells d c cs ! k) = mc_tail (cs0 ! k) \<or> mn \<le> mc_tail (swap_cells d c cs ! k) \<and> mc_tail (swap_cells d c cs ! k) \<le> mx"
      using I(8) [OF k] r by (auto simp: nth [OF k] swt_def)
  qed
qed

text \<open>The cells of the first sequences are distinct cells of the range, so the range has room for all of them.\<close>

lemma fs_room:
  assumes inv: "fs_inv u cs0 n mn mx cs" and inj: "\<And>s s'. s < n \<Longrightarrow> s' < n \<Longrightarrow> rs_id0 u s = rs_id0 u s' \<Longrightarrow> s = s'"
  shows "int n \<le> max 0 (mx - mn + 1)"
proof -
  define f where "f s = mc_tail (cs ! nat (rs_id0 u s))" for s
  have f: "\<exists>t. f s = int t \<and> vseq cs t = {rs_id0 u s} \<and> mn \<le> f s \<and> f s \<le> mx" if "s < n" for s using fs_invD(6) [OF inv that] by (auto simp: f_def)
  have "inj_on f {..<n}"
  proof (rule inj_onI)
    fix s s' assume "s \<in> {..<n}" "s' \<in> {..<n}" "f s = f s'"
    then show "s = s'" using f [of s] f [of s'] inj [of s s'] by force
  qed
  moreover have "f ` {..<n} \<subseteq> {mn..mx}" using f by force
  ultimately have "n \<le> card {mn..mx}" using card_inj_on_le [of f "{..<n}" "{mn..mx}"] by simp
  then show ?thesis by simp
qed

definition fs_gather_inv :: "llama_ubatch \<Rightarrow> mem_cell list \<Rightarrow> int \<Rightarrow> int \<Rightarrow> nat \<Rightarrow> mem_cell list \<Rightarrow> bool" where
  "fs_gather_inv u cs0 mn mx K cs \<longleftrightarrow> fs_inv u cs0 (u_n_seqs u) mn mx cs \<and> (\<forall>i < length cs. vseq cs i = {} \<longrightarrow> mc_pos (cs ! i) = -1) \<and>
     (\<forall>s < K. mc_tail (cs ! nat (rs_id0 u s)) = mn + int s)"

lemma fs_gather_step_ok:
  assumes inv: "fs_gather_inv u cs0 mn mx K cs" and b: "rs_batch_ok (length cs0) u" and K: "K < u_n_seqs u"
  shows "\<exists>cs'. fs_gather_step u mn K cs = Some cs' \<and> fs_gather_inv u cs0 mn mx (Suc K) cs'"
proof -
  have I: "fs_inv u cs0 (u_n_seqs u) mn mx cs" and E: "\<forall>i < length cs. vseq cs i = {} \<longrightarrow> mc_pos (cs ! i) = -1"
    and G: "\<And>s. s < K \<Longrightarrow> mc_tail (cs ! nat (rs_id0 u s)) = mn + int s" using inv by (auto simp: fs_gather_inv_def)
  note D = fs_invD [OF I]
  from D(6) [OF K] obtain t where t: "t < length cs" "mc_tail (cs ! nat (rs_id0 u K)) = int t" "vseq cs t = {rs_id0 u K}" "mn \<le> int t" "int t \<le> mx" by blast
  have room: "int (u_n_seqs u) \<le> mx - mn + 1" using fs_room [OF I] rs_id0_inj [OF b] K by fastforce
  obtain d where d: "mn + int K = int d" using D(3) by (metis nonneg_int_cases add_nonneg_nonneg of_nat_0_le_iff)
  have dr: "mn \<le> int d" "int d \<le> mx" "d < length cs" using d room K D(1,4) by auto
  show ?thesis
  proof (cases "d = t")
    case True
    then have "mn + int s = mc_tail (cs ! nat (rs_id0 u s))" if "s < Suc K" for s using that G t(2) d by (cases "s = K") auto
    then show ?thesis using True t(2) d I E by (auto simp: fs_gather_step_def fs_gather_inv_def Let_def add.commute)
  next
    case False
    let ?cs = "swap_cells d t cs"
    have q: "nat (rs_id0 u s) < length cs" if "s < u_n_seqs u" for s using rs_batch_okD(3) [OF b that] D(1) by simp
    have "fs_gather_step u mn K cs = Some ?cs" using False t d dr by (simp add: fs_gather_step_def Let_def add.commute)
    moreover have "fs_inv u cs0 (u_n_seqs u) mn mx ?cs" using fs_inv_swap [OF I t(1) dr(3)] False t dr q by auto
    moreover have "mc_pos (?cs ! i) = -1" if "i < length cs" "vseq ?cs i = {}" for i
      using E that vseq_swap [of t cs d i] swap_cells_nth [of t cs d i] t(1) dr(3) False by auto
    moreover have "mc_tail (?cs ! nat (rs_id0 u s)) = mn + int s" if s: "s < Suc K" for s
    proof (cases "s = K")
      case True
      then show ?thesis using swap_cells_nth [of t cs d "nat (rs_id0 u K)"] t dr(3) False q [OF K] d by (simp add: swt_def)
    next
      case sK: False
      then have "rs_id0 u s \<noteq> rs_id0 u K" using rs_id0_inj [OF b, of s K] s K by auto
      moreover from D(6) [of s] obtain t' where "mc_tail (cs ! nat (rs_id0 u s)) = int t'" "vseq cs t' = {rs_id0 u s}" using s K by auto
      ultimately have "mc_tail (cs ! nat (rs_id0 u s)) \<noteq> int t" using t(3) by auto
      moreover have "mc_tail (cs ! nat (rs_id0 u s)) \<noteq> int d" using G [of s] sK s d by simp
      ultimately show ?thesis using swap_cells_nth [of t cs d "nat (rs_id0 u s)"] t(1) dr(3) False q [of s] s K G [of s] sK by (simp add: swt_def)
    qed
    ultimately show ?thesis by (simp add: fs_gather_inv_def)
  qed
qed

section \<open>Writing positions and sequences\<close>

lemma place_ids:
  assumes "c < length cs" and "\<forall>q \<in> set qs. 0 \<le> q \<and> nat q < length cs"
  shows "fold (\<lambda>q cs. let cs = cs[c := (cs ! c)\<lparr>mc_seq := insert q (mc_seq (cs ! c))\<rparr>] in cs[nat q := (cs ! nat q)\<lparr>mc_tail := int c\<rparr>]) qs cs =
    map (\<lambda>i. (cs ! i)\<lparr>mc_seq := (if i = c then mc_seq (cs ! i) \<union> set qs else mc_seq (cs ! i)),
      mc_tail := (if int i \<in> set qs then int c else mc_tail (cs ! i))\<rparr>) [0..<length cs]"
  using assms
proof (induction qs arbitrary: cs)
  case Nil
  then show ?case by (intro nth_equalityI) auto
next
  case (Cons q qs)
  define cs' where "cs' = (let cs = cs[c := (cs ! c)\<lparr>mc_seq := insert q (mc_seq (cs ! c))\<rparr>] in cs[nat q := (cs ! nat q)\<lparr>mc_tail := int c\<rparr>])"
  have len: "length cs' = length cs" by (simp add: cs'_def Let_def)
  have nth: "cs' ! i = (cs ! i)\<lparr>mc_seq := (if i = c then insert q (mc_seq (cs ! i)) else mc_seq (cs ! i)),
      mc_tail := (if int i = q then int c else mc_tail (cs ! i))\<rparr>" if "i < length cs" for i
    using that Cons.prems by (auto simp: cs'_def Let_def nth_list_update)
  have IH: "fold (\<lambda>q cs. let cs = cs[c := (cs ! c)\<lparr>mc_seq := insert q (mc_seq (cs ! c))\<rparr>] in cs[nat q := (cs ! nat q)\<lparr>mc_tail := int c\<rparr>]) (q # qs) cs =
      map (\<lambda>i. (cs' ! i)\<lparr>mc_seq := (if i = c then mc_seq (cs' ! i) \<union> set qs else mc_seq (cs' ! i)),
        mc_tail := (if int i \<in> set qs then int c else mc_tail (cs' ! i))\<rparr>) [0..<length cs']"
    using Cons.IH [of cs'] Cons.prems len by (simp add: cs'_def [symmetric])
  show ?case unfolding IH len by (intro map_cong) (auto simp: nth)
qed

definition fs_set_inv :: "llama_ubatch \<Rightarrow> mem_cell list \<Rightarrow> nat \<Rightarrow> nat \<Rightarrow> mem_cell list \<Rightarrow> bool" where
  "fs_set_inv u cs3 mn K cs \<longleftrightarrow> length cs = length cs3 \<and>
     (\<forall>i < length cs. mc_src (cs ! i) = mc_src (cs3 ! i)) \<and>
     (\<forall>s < K. mc_pos (cs ! (mn + s)) = rs_last_pos u s \<and> mc_seq (cs ! (mn + s)) = set (rs_ids u s)) \<and>
     (\<forall>i < length cs. \<not> (mn \<le> i \<and> i < mn + K) \<longrightarrow> mc_pos (cs ! i) = mc_pos (cs3 ! i) \<and> mc_seq (cs ! i) = mc_seq (cs3 ! i)) \<and>
     (\<forall>s < K. \<forall>q \<in> set (rs_ids u s). mc_tail (cs ! nat q) = int (mn + s)) \<and>
     (\<forall>k < length cs. (\<forall>s < K. int k \<notin> set (rs_ids u s)) \<longrightarrow> mc_tail (cs ! k) = mc_tail (cs3 ! k))"

lemma fs_set_step_ok:
  assumes inv: "fs_set_inv u cs3 mn K cs" and b: "rs_batch_ok (length cs3) u" and K: "K < u_n_seqs u" and r: "mn + u_n_seqs u \<le> length cs3"
  shows "\<exists>cs'. fs_set_step u (int mn) K cs = Some cs' \<and> fs_set_inv u cs3 mn (Suc K) cs'"
proof -
  let ?c = "mn + K" and ?ids = "set (rs_ids u K)"
  note B = rs_batch_okD [OF b K]
  have len: "length cs = length cs3" using inv by (simp add: fs_set_inv_def)
  have c: "?c < length cs" using r K len by simp
  define cs' where "cs' = map (\<lambda>i. (cs ! i)\<lparr>mc_pos := (if i = ?c then rs_last_pos u K else mc_pos (cs ! i)), mc_seq := (if i = ?c then ?ids else mc_seq (cs ! i)),
      mc_tail := (if int i \<in> ?ids then int ?c else mc_tail (cs ! i))\<rparr>) [0..<length cs]"
  have nth: "cs' ! i = (cs ! i)\<lparr>mc_pos := (if i = ?c then rs_last_pos u K else mc_pos (cs ! i)), mc_seq := (if i = ?c then ?ids else mc_seq (cs ! i)),
      mc_tail := (if int i \<in> ?ids then int ?c else mc_tail (cs ! i))\<rparr>" if "i < length cs" for i using that by (simp add: cs'_def)
  have bound: "K * u_n_seq_tokens u + u_n_seq_tokens u - 1 < length (u_pos u)" "0 < u_n_seq_tokens u"
  proof -
    have "Suc K * u_n_seq_tokens u \<le> u_n_seqs u * u_n_seq_tokens u" using K by (intro mult_le_mono1) simp
    then show "K * u_n_seq_tokens u + u_n_seq_tokens u - 1 < length (u_pos u)" "0 < u_n_seq_tokens u" using b by (auto simp: rs_batch_ok_def)
  qed
  let ?cs1 = "cs[?c := (cs ! ?c)\<lparr>mc_pos := rs_last_pos u K, mc_seq := {}\<rparr>]"
  have c_eq: "nat (int K + int mn) = ?c" by simp
  have "fs_set_step u (int mn) K cs = Some (fold (\<lambda>q cs. let cs = cs[?c := (cs ! ?c)\<lparr>mc_seq := insert q (mc_seq (cs ! ?c))\<rparr>] in
      cs[nat q := (cs ! nat q)\<lparr>mc_tail := int ?c\<rparr>]) (rs_ids u K) ?cs1)"
    using bound c unfolding fs_set_step_def Let_def c_eq rs_last_pos_def by simp
  also have "\<dots> = Some cs'" using place_ids [of ?c ?cs1 "rs_ids u K"] c B(8) len by (auto simp: cs'_def nth_list_update intro!: nth_equalityI)
  finally have run: "fs_set_step u (int mn) K cs = Some cs'" .
  have cK: "\<And>s. s < K \<Longrightarrow> mn + s < length cs" using c by simp
  have dis: "q \<notin> ?ids" if "q \<in> set (rs_ids u s)" "s < K" for q s using B(9) [of s q] that K by auto
  have "fs_set_inv u cs3 mn (Suc K) cs'" unfolding fs_set_inv_def
  proof (intro conjI allI impI ballI)
    show "length cs' = length cs3" by (simp add: cs'_def len)
  next
    fix i assume "i < length cs'"
    then have i: "i < length cs" by (simp add: cs'_def)
    show "mc_src (cs' ! i) = mc_src (cs3 ! i)" using inv i by (simp add: nth fs_set_inv_def)
    show "mc_pos (cs' ! i) = mc_pos (cs3 ! i)" "mc_seq (cs' ! i) = mc_seq (cs3 ! i)" if "\<not> (mn \<le> i \<and> i < mn + Suc K)"
      using that inv i by (auto simp: nth fs_set_inv_def)
    show "mc_tail (cs' ! i) = mc_tail (cs3 ! i)" if "\<forall>s < Suc K. int i \<notin> set (rs_ids u s)" using that inv i by (auto simp: nth fs_set_inv_def)
  next
    fix s assume s: "s < Suc K"
    show "mc_pos (cs' ! (mn + s)) = rs_last_pos u s" "mc_seq (cs' ! (mn + s)) = set (rs_ids u s)"
      using s inv c cK by (cases "s = K"; auto simp: nth fs_set_inv_def)+
    fix q assume q: "q \<in> set (rs_ids u s)"
    have "0 \<le> q \<and> nat q < length cs" using rs_batch_okD(8) [OF b _ q] s K len by simp
    then show "mc_tail (cs' ! nat q) = int (mn + s)" using s q inv dis by (cases "s = K") (auto simp: nth fs_set_inv_def)
  qed
  then show ?thesis using run by blast
qed

section \<open>Staging the state sources\<close>

lemma map_nat_upto: "map nat [int a..int b] = [a..<Suc b]"
  by (rule nth_equalityI) (auto simp: nth_upto simp del: upt_Suc)

lemma fs_rs_z_cases:
  obtains (none) "fs_rs_z cs rng = -1" "\<forall>i \<in> set rng. refcount cs i \<noteq> 0" | (some) z where "fs_rs_z cs rng = int z" "z \<in> set rng" "refcount cs z = 0"
proof (cases "find (\<lambda>i. refcount cs i = 0) rng")
  case None
  then have "\<forall>i \<in> set rng. refcount cs i \<noteq> 0" by (auto simp: find_None_iff)
  then show ?thesis using none None by (simp add: fs_rs_z_def)
next
  case (Some z)
  then have "z \<in> set rng" "refcount cs z = 0" by (auto simp: find_Some_iff)
  then show ?thesis using some Some by (simp add: fs_rs_z_def)
qed

lemma refcount_0: "refcount cs z = 0 \<longleftrightarrow> (\<forall>i < length cs. mc_src (cs ! i) \<noteq> int z)"
  by (force simp: refcount_def filter_empty_conv in_set_conv_nth)

text \<open>A cell outside the range is only its own source, so a range with an uninitialised cell has an unreferenced one.\<close>

lemma fs_rs_z_nonneg:
  assumes out: "\<And>i. i < length cs \<Longrightarrow> mc_src (cs ! i) = -1 \<or> mc_src (cs ! i) = int i \<or> a \<le> i \<and> i \<le> b" and b: "b < length cs"
    and i: "a \<le> i" "i \<le> b" "mc_src (cs ! i) < 0"
  shows "0 \<le> fs_rs_z cs [a..<Suc b]"
proof (rule fs_rs_z_cases [of cs "[a..<Suc b]"])
  assume none: "fs_rs_z cs [a..<Suc b] = -1" "\<forall>i \<in> set [a..<Suc b]. refcount cs i \<noteq> 0"
  let ?J = "{j \<in> {a..b}. 0 \<le> mc_src (cs ! j)}"
  have "{a..b} \<subseteq> (\<lambda>j. nat (mc_src (cs ! j))) ` ?J"
  proof
    fix x assume x: "x \<in> {a..b}"
    then have "refcount cs x \<noteq> 0" using none(2) by auto
    then obtain j where j: "j < length cs" "mc_src (cs ! j) = int x" by (auto simp: refcount_0)
    then have "j \<in> ?J" using out [OF j(1)] x by auto
    then show "x \<in> (\<lambda>j. nat (mc_src (cs ! j))) ` ?J" using j(2) by (intro image_eqI [of _ _ j]) simp_all
  qed
  then have "card {a..b} \<le> card ((\<lambda>j. nat (mc_src (cs ! j))) ` ?J)" by (intro card_mono) simp_all
  also have "\<dots> \<le> card ?J" by (rule card_image_le) simp
  finally have "card {a..b} \<le> card ?J" .
  moreover have "i \<notin> ?J" "i \<in> {a..b}" using i by auto
  then have "?J \<subset> {a..b}" by blast
  then have "card ?J < card {a..b}" by (intro psubset_card_mono) auto
  ultimately show ?thesis by simp
qed simp

definition staged :: "int \<Rightarrow> nat \<Rightarrow> mem_cell \<Rightarrow> mem_cell" where
  "staged z i c = c\<lparr>mc_src0 := (if mc_src c < 0 then z else mc_src c), mc_src := int i\<rparr>"

lemma fs_stage_ok:
  assumes b: "b < length cs" and z: "\<And>i. a \<le> i \<Longrightarrow> i \<le> b \<Longrightarrow> mc_src (cs ! i) < 0 \<Longrightarrow> 0 \<le> z"
  shows "\<exists>cs'. foldM (fs_stage_step z) [a..<Suc b] cs = Some cs' \<and> length cs' = length cs \<and>
    (\<forall>i < length cs. cs' ! i = (if a \<le> i \<and> i \<le> b then staged z i (cs ! i) else cs ! i))"
proof -
  have "\<exists>cs'. foldM (fs_stage_step z) [a..<Suc b] cs = Some cs' \<and> length cs' = length cs \<and>
    (\<forall>i < length cs. cs' ! i = (if i \<in> set [a..<Suc b] then staged z i (cs ! i) else cs ! i))"
  proof (rule foldM_inv)
    fix ds x todo cs1
    assume split: "[a..<Suc b] = ds @ x # todo" and P: "length cs1 = length cs \<and> (\<forall>i < length cs. cs1 ! i = (if i \<in> set ds then staged z i (cs ! i) else cs ! i))"
    have "x \<in> set [a..<Suc b]" using split by simp
    then have x: "a \<le> x" "x \<le> b" "x < length cs" using b by auto
    have "distinct [a..<Suc b]" by (rule distinct_upt)
    then have "x \<notin> set ds" unfolding split by simp
    then have cx: "cs1 ! x = cs ! x" using P x by simp
    then have "fs_stage_step z x cs1 = Some (cs1[x := staged z x (cs ! x)])" using P x z by (auto simp: fs_stage_step_def staged_def Let_def)
    then show "\<exists>cs'. fs_stage_step z x cs1 = Some cs' \<and> length cs' = length cs \<and>
        (\<forall>i < length cs. cs' ! i = (if i \<in> set (ds @ [x]) then staged z i (cs ! i) else cs ! i))" using P x(3) \<open>x \<notin> set ds\<close>
      by (auto simp: nth_list_update)
  qed simp
  then show ?thesis by (auto simp: less_Suc_eq_le)
qed

section \<open>The whole placement\<close>

text \<open>After the positions and sequences are written the cells are consistent again.\<close>

lemma fs_set_vseq:
  assumes G: "fs_gather_inv u cs0 (int mn) mx (u_n_seqs u) cs3" and S: "fs_set_inv u cs3 mn (u_n_seqs u) cs" and b: "rs_batch_ok (length cs0) u"
    and extra: "\<forall>s < u_n_seqs u. \<forall>q \<in> set (tl (rs_ids u s)). mc_tail (cs0 ! nat q) < 0" and i: "i < length cs"
  shows "mc_seq (cs ! i) = vseq cs i"
proof -
  let ?n = "u_n_seqs u"
  have I: "fs_inv u cs0 ?n (int mn) mx cs3" and tl: "\<And>s. s < ?n \<Longrightarrow> mc_tail (cs3 ! nat (rs_id0 u s)) = int mn + int s" using G by (auto simp: fs_gather_inv_def)
  note D = fs_invD [OF I]
  have len: "length cs = length cs3" "length cs3 = length cs0" using S D(1) by (auto simp: fs_set_inv_def)
  have batch: "mc_tail (cs ! nat q) = int (mn + s)" if "s < ?n" "q \<in> set (rs_ids u s)" for s q using S that by (simp add: fs_set_inv_def)
  have rest: "mc_tail (cs ! k) = mc_tail (cs3 ! k)" if "k < length cs" "\<And>s. s < ?n \<Longrightarrow> int k \<notin> set (rs_ids u s)" for k using S that by (auto simp: fs_set_inv_def)
  have first: "q = rs_id0 u s \<or> mc_tail (cs3 ! nat q) < 0" if s: "s < ?n" and q: "q \<in> set (rs_ids u s)" for s q
  proof (cases "q = rs_id0 u s")
    case False
    then have "q \<in> set (tl (rs_ids u s))" using rs_batch_okD(4) [OF b s] q by (metis set_ConsD)
    then have "cell_data cs0 (nat q) = None" using extra s by (simp add: cell_data_def Let_def)
    moreover have qr: "0 \<le> q" "nat q < length cs3" using rs_batch_okD(8) [OF b s q] len by auto
    moreover have "rs_id0 u s' \<noteq> q" if "s' < ?n" for s' using rs_batch_okD(1) [OF b that] rs_batch_okD(9) [OF b s that q] False by auto
    ultimately have "cell_data cs3 (nat q) = None" using D(7) [of "nat q"] by auto
    then show ?thesis by (simp add: cell_data_def Let_def split: if_splits)
  qed simp
  show ?thesis
  proof (rule set_eqI)
    fix q
    show "q \<in> mc_seq (cs ! i) \<longleftrightarrow> q \<in> vseq cs i"
    proof (cases "\<exists>s < ?n. q \<in> set (rs_ids u s)")
      case True
      then obtain s where s: "s < ?n" "q \<in> set (rs_ids u s)" by blast
      then have r: "0 \<le> q" "nat q < length cs" using rs_batch_okD(8) [OF b s] len by auto
      have v: "q \<in> vseq cs i \<longleftrightarrow> i = mn + s" using r batch [OF s] by (auto simp: vseq_def)
      have "q \<in> mc_seq (cs ! i) \<longleftrightarrow> i = mn + s"
      proof (cases "mn \<le> i \<and> i < mn + ?n")
        case True
        then obtain s' where s': "i = mn + s'" "s' < ?n" by (metis le_Suc_ex nat_add_left_cancel_less)
        then have "mc_seq (cs ! i) = set (rs_ids u s')" using S by (simp add: fs_set_inv_def)
        then show ?thesis using s s' rs_batch_okD(9) [OF b s(1) s'(2)] by auto
      next
        case False
        then have "mc_seq (cs ! i) = mc_seq (cs3 ! i)" using S i by (simp add: fs_set_inv_def)
        moreover have "q \<notin> vseq cs3 i" using first [OF s] tl [OF s(1)] False s(1) by (auto simp: vseq_def)
        ultimately show ?thesis using fs_inv_seq_vseq [OF I, of i] False s(1) i len by auto
      qed
      then show ?thesis using v by simp
    next
      case False
      then have v: "q \<in> vseq cs i \<longleftrightarrow> q \<in> vseq cs3 i" using rest [of "nat q"] len by (auto simp: vseq_def)
      show ?thesis
      proof (cases "mn \<le> i \<and> i < mn + ?n")
        case True
        then obtain s where s: "i = mn + s" "s < ?n" by (metis le_Suc_ex nat_add_left_cancel_less)
        then have "q \<notin> mc_seq (cs ! i)" using S False by (simp add: fs_set_inv_def)
        moreover have "vseq cs3 i = {rs_id0 u s}"
        proof -
          obtain t where "mc_tail (cs3 ! nat (rs_id0 u s)) = int t" "vseq cs3 t = {rs_id0 u s}" using D(6) [OF s(2)] by blast
          moreover from this have "t = i" using tl [OF s(2)] s(1) by simp
          ultimately show ?thesis by simp
        qed
        ultimately show ?thesis using v False rs_batch_okD(1) [OF b s(2)] s(2) by auto
      next
        case out: False
        then have eq: "mc_seq (cs ! i) = mc_seq (cs3 ! i)" using S i by (simp add: fs_set_inv_def)
        have "vseq cs3 i \<noteq> {rs_id0 u s}" if "s < ?n" for s
        proof
          assume "vseq cs3 i = {rs_id0 u s}"
          then have "mc_tail (cs3 ! nat (rs_id0 u s)) = int i" by (auto simp: vseq_def dest!: equalityD2)
          then show False using tl [OF that] out that by auto
        qed
        then show ?thesis using D(5) [of i] i len eq v by auto
      qed
    qed
  qed
qed

lemma fs_set_pos_ok:
  assumes ok: "mcells_ok cs0" and G: "fs_gather_inv u cs0 (int mn) mx (u_n_seqs u) cs3" and S: "fs_set_inv u cs3 mn (u_n_seqs u) cs"
    and b: "rs_batch_ok (length cs0) u" and seq: "mc_seq (cs ! i) = vseq cs i" and i: "i < length cs"
  shows "pos_ok (cs ! i)"
proof (cases "mn \<le> i \<and> i < mn + u_n_seqs u")
  case True
  then obtain s where s: "i = mn + s" "s < u_n_seqs u" by (metis le_Suc_ex nat_add_left_cancel_less)
  then have "mc_pos (cs ! i) = rs_last_pos u s" "mc_seq (cs ! i) = set (rs_ids u s)" using S by (auto simp: fs_set_inv_def)
  then show ?thesis using rs_batch_okD(1,6,7) [OF b s(2)] by (auto simp: pos_ok_def)
next
  case out: False
  have I: "fs_inv u cs0 (u_n_seqs u) (int mn) mx cs3" and tl: "\<And>s. s < u_n_seqs u \<Longrightarrow> mc_tail (cs3 ! nat (rs_id0 u s)) = int mn + int s"
    and E: "\<And>i. i < length cs3 \<Longrightarrow> vseq cs3 i = {} \<Longrightarrow> mc_pos (cs3 ! i) = -1" using G by (auto simp: fs_gather_inv_def)
  note D = fs_invD [OF I]
  have len: "length cs = length cs3" "length cs3 = length cs0" using S D(1) by (auto simp: fs_set_inv_def)
  have eq: "mc_pos (cs ! i) = mc_pos (cs3 ! i)" "mc_seq (cs ! i) = mc_seq (cs3 ! i)" using S i out by (auto simp: fs_set_inv_def)
  show ?thesis
  proof (cases "vseq cs3 i = {}")
    case True
    then have "mc_seq (cs3 ! i) = {}" using fs_inv_seq_vseq [OF I, of i] i len by auto
    then show ?thesis using E [of i] True i len eq by (simp add: pos_ok_def)
  next
    case False
    then obtain q where q: "0 \<le> q" "nat q < length cs3" "mc_tail (cs3 ! nat q) = int i" by (auto simp: vseq_def)
    have "rs_id0 u s \<noteq> q" if "s < u_n_seqs u" for s using tl [OF that] q(3) out that by auto
    then have "cell_data cs3 (nat q) = cell_data cs0 (nat q)" using D(7) [OF q(2)] q(1) by auto
    then have t: "0 \<le> mc_tail (cs0 ! nat q)" "mc_pos (cs3 ! i) = mc_pos (cs0 ! nat (mc_tail (cs0 ! nat q)))"
      using q(3) by (auto simp: cell_data_def Let_def split: if_splits)
    have "0 \<le> mc_pos (cs3 ! i)" "mc_pos (cs3 ! i) < LLAMA_POS_MAX" using tail_cell(3,4) [OF ok q(1) _ t(1)] q(2) t(2) len by auto
    moreover have "mc_seq (cs3 ! i) \<noteq> {}"
    proof -
      have "vseq cs3 i \<noteq> {rs_id0 u s}" if "s < u_n_seqs u" for s
      proof
        assume "vseq cs3 i = {rs_id0 u s}"
        then have "mc_tail (cs3 ! nat (rs_id0 u s)) = int i" by (auto simp: vseq_def dest!: equalityD2)
        then show False using tl [OF that] out that by auto
      qed
      then show ?thesis using D(5) [of i] i len False by auto
    qed
    ultimately show ?thesis using eq by (simp add: pos_ok_def)
  qed
qed

text \<open>What the placement promises: \<open>ids\<close> of set \<open>s\<close> live in cell \<open>mn + s\<close> with the last position of the set, all other sequences keep their
  position, and wherever a sequence that had a cell now has one in the staged range, the range takes its state from where it was.\<close>

definition fs_placed :: "llama_ubatch \<Rightarrow> mem_cell list \<Rightarrow> nat \<Rightarrow> nat \<Rightarrow> int \<Rightarrow> mem_cell list \<Rightarrow> bool" where
  "fs_placed u cs0 a b z cs \<longleftrightarrow> length cs = length cs0 \<and> mcells_ok cs \<and> a + u_n_seqs u \<le> Suc b \<and> b < length cs0 \<and>
     (\<forall>s < u_n_seqs u. mc_pos (cs ! (a + s)) = rs_last_pos u s \<and> mc_seq (cs ! (a + s)) = set (rs_ids u s)) \<and>
     (\<forall>k < length cs. (\<forall>s < u_n_seqs u. int k \<notin> set (rs_ids u s)) \<longrightarrow> map_option fst (cell_data cs k) = map_option fst (cell_data cs0 k)) \<and>
     (\<forall>k < length cs. \<forall>p x. cell_data cs0 k = Some (p, x) \<longrightarrow> 0 \<le> x \<longrightarrow> x \<noteq> z) \<and>
     (\<forall>k < length cs. \<forall>p x. cell_data cs0 k = Some (p, x) \<longrightarrow> (\<exists>t. mc_tail (cs ! k) = int t \<and>
        (if a \<le> t \<and> t \<le> b then mc_src0 (cs ! t) = (if x < 0 then z else x) else int t = mc_tail (cs0 ! k)))) \<and>
     (\<forall>s < u_n_seqs u. cell_data cs0 (nat (rs_id0 u s)) = None \<longrightarrow>
        mc_src0 (cs ! (a + s)) = z \<or> (\<exists>e < length cs0. mc_src0 (cs ! (a + s)) = int e \<and> mc_seq (cs0 ! e) = {}))"

text \<open>Where the sequences are and what their cells hold once the positions and sequences are written.\<close>

lemma fs_set_tails:
  assumes G: "fs_gather_inv u cs0 (int mn) mx (u_n_seqs u) cs3" and S: "fs_set_inv u cs3 mn (u_n_seqs u) cs" and b: "rs_batch_ok (length cs0) u"
    and extra: "\<forall>s < u_n_seqs u. \<forall>q \<in> set (tl (rs_ids u s)). mc_tail (cs0 ! nat q) < 0" and k: "k < length cs"
  shows "cell_data cs0 k \<noteq> None \<Longrightarrow> mc_tail (cs ! k) = mc_tail (cs3 ! k) \<and> cell_data cs3 k = cell_data cs0 k"
    and "(\<And>s. s < u_n_seqs u \<Longrightarrow> int k \<notin> set (rs_ids u s)) \<Longrightarrow> mc_tail (cs ! k) = mc_tail (cs3 ! k) \<and> cell_data cs3 k = cell_data cs0 k \<and>
      map_option fst (cell_data cs k) = map_option fst (cell_data cs0 k)"
proof -
  let ?n = "u_n_seqs u"
  have I: "fs_inv u cs0 ?n (int mn) mx cs3" and tl: "\<And>s. s < ?n \<Longrightarrow> mc_tail (cs3 ! nat (rs_id0 u s)) = int mn + int s" using G by (auto simp: fs_gather_inv_def)
  note D = fs_invD [OF I]
  have len: "length cs = length cs3" "length cs3 = length cs0" using S D(1) by (auto simp: fs_set_inv_def)
  have k3: "k < length cs3" using k len by simp
  have rest: "mc_tail (cs ! k) = mc_tail (cs3 ! k)" if "\<And>s. s < ?n \<Longrightarrow> int k \<notin> set (rs_ids u s)" using S k that by (auto simp: fs_set_inv_def)
  show "mc_tail (cs ! k) = mc_tail (cs3 ! k) \<and> cell_data cs3 k = cell_data cs0 k" if some: "cell_data cs0 k \<noteq> None"
  proof (cases "\<exists>s < ?n. int k \<in> set (rs_ids u s)")
    case True
    then obtain s where s: "s < ?n" "int k \<in> set (rs_ids u s)" by blast
    have "int k \<notin> set (tl (rs_ids u s))" using extra s(1) some by (force simp: cell_data_def Let_def split: if_splits)
    then have "int k = rs_id0 u s" using rs_batch_okD(4) [OF b s(1)] s(2) by (metis set_ConsD)
    then have "mc_tail (cs3 ! k) = int mn + int s" using tl [OF s(1)] by (metis nat_int)
    moreover have "mc_tail (cs ! nat (int k)) = int (mn + s)" using S s unfolding fs_set_inv_def by blast
    ultimately show ?thesis using D(7) [OF k3] some by auto
  next
    case False
    then show ?thesis using rest D(7) [OF k3] some by auto
  qed
  assume no: "\<And>s. s < ?n \<Longrightarrow> int k \<notin> set (rs_ids u s)"
  have "int k \<noteq> rs_id0 u s" if "s < ?n" for s using no [OF that] rs_batch_okD(1) [OF b that] by auto
  then have data: "cell_data cs3 k = cell_data cs0 k" using D(7) [OF k3] by auto
  have "mc_pos (cs ! nat (mc_tail (cs3 ! k))) = mc_pos (cs3 ! nat (mc_tail (cs3 ! k)))" if t: "0 \<le> mc_tail (cs3 ! k)"
  proof -
    obtain t where t: "mc_tail (cs3 ! k) = int t" using t by (rule nonneg_int_cases)
    have tn: "t < length cs" using D(2) k3 t len by (auto simp: tails_ok_def)
    have "\<not> (mn \<le> t \<and> t < mn + ?n)"
    proof
      assume "mn \<le> t \<and> t < mn + ?n"
      then obtain s where s: "t = mn + s" "s < ?n" by (metis le_Suc_ex nat_add_left_cancel_less)
      obtain t' where "mc_tail (cs3 ! nat (rs_id0 u s)) = int t'" "vseq cs3 t' = {rs_id0 u s}" using D(6) [OF s(2)] by blast
      moreover from this have "t' = t" using tl [OF s(2)] s(1) by simp
      moreover have "int k \<in> vseq cs3 t" using t k3 by (simp add: vseq_def)
      ultimately have "int k = rs_id0 u s" by blast
      then show False using no [OF s(2)] rs_batch_okD(1) [OF b s(2)] by simp
    qed
    then show ?thesis using S tn t by (simp add: fs_set_inv_def)
  qed
  then have "map_option fst (cell_data cs k) = map_option fst (cell_data cs3 k)" using rest [OF no] by (simp add: cell_data_def Let_def)
  then show "mc_tail (cs ! k) = mc_tail (cs3 ! k) \<and> cell_data cs3 k = cell_data cs0 k \<and> map_option fst (cell_data cs k) = map_option fst (cell_data cs0 k)"
    using rest [OF no] data by simp
qed

lemma fs_placed_staged:
  assumes ok: "mcells_ok cs0" and G: "fs_gather_inv u cs0 (int a) (int b) (u_n_seqs u) cs3" and S: "fs_set_inv u cs3 a (u_n_seqs u) cs"
    and bt: "rs_batch_ok (length cs0) u" and room: "a + u_n_seqs u \<le> Suc b"
    and extra: "\<forall>s < u_n_seqs u. \<forall>q \<in> set (tl (rs_ids u s)). mc_tail (cs0 ! nat q) < 0"
    and z: "z = fs_rs_z cs [a..<Suc b]" and len': "length cs' = length cs"
    and nth: "\<And>i. i < length cs \<Longrightarrow> cs' ! i = (if a \<le> i \<and> i \<le> b then staged z i (cs ! i) else cs ! i)"
  shows "fs_placed u cs0 a b z cs'"
proof -
  let ?n = "u_n_seqs u"
  have I: "fs_inv u cs0 ?n (int a) (int b) cs3" and tl: "\<And>s. s < ?n \<Longrightarrow> mc_tail (cs3 ! nat (rs_id0 u s)) = int a + int s" using G by (auto simp: fs_gather_inv_def)
  note D = fs_invD [OF I] and seq = fs_set_vseq [OF G S bt extra]
  have len: "length cs = length cs0" "length cs3 = length cs0" using S D(1) by (auto simp: fs_set_inv_def)
  have bn: "b < length cs0" using D(4) by simp
  have src: "mc_src (cs ! i) = mc_src (cs3 ! i)" if "i < length cs" for i using S that by (simp add: fs_set_inv_def)
  have fields: "mc_tail (cs' ! i) = mc_tail (cs ! i)" "mc_pos (cs' ! i) = mc_pos (cs ! i)" "mc_seq (cs' ! i) = mc_seq (cs ! i)" if "i < length cs" for i
    using nth [OF that] by (auto simp: staged_def)
  have data: "map_option fst (cell_data cs' k) = map_option fst (cell_data cs k)" if "k < length cs" "tails_ok cs" for k
    using fields [OF that(1)] fields(2) [of "nat (mc_tail (cs ! k))"] that by (auto simp: cell_data_def Let_def tails_ok_def)
  have batch: "mc_tail (cs ! nat q) = int (a + s)" if "s < ?n" "q \<in> set (rs_ids u s)" for s q using S that by (simp add: fs_set_inv_def)
  have tails: "tails_ok cs" unfolding tails_ok_def
  proof (intro allI impI)
    fix i assume i: "i < length cs"
    show "mc_tail (cs ! i) = -1 \<or> 0 \<le> mc_tail (cs ! i) \<and> nat (mc_tail (cs ! i)) < length cs"
    proof (cases "\<exists>s < ?n. int i \<in> set (rs_ids u s)")
      case True
      then obtain s where s: "s < ?n" "int i \<in> set (rs_ids u s)" by blast
      then show ?thesis using batch [OF s] room bn len by simp
    next
      case False
      then have "mc_tail (cs ! i) = mc_tail (cs3 ! i)" using S i by (simp add: fs_set_inv_def)
      then show ?thesis using D(2) i len by (auto simp: tails_ok_def)
    qed
  qed
  have mok: "mcells_ok cs'"
  proof (rule mcells_okI)
    fix i assume "i < length cs'"
    then have i: "i < length cs" using len' by simp
    show "mc_tail (cs' ! i) = -1 \<or> 0 \<le> mc_tail (cs' ! i) \<and> nat (mc_tail (cs' ! i)) < length cs'" using tails i len' fields(1) [OF i] by (simp add: tails_ok_def)
    show "pos_ok (cs' ! i)" using fs_set_pos_ok [OF ok G S bt seq [OF i] i] fields [OF i] by (simp add: pos_ok_def)
    show "mc_src (cs' ! i) = -1 \<or> mc_src (cs' ! i) = int i" using D(10) [of i] src [OF i] i len nth [OF i] by (auto simp: staged_def)
    show "q \<in> mc_seq (cs' ! i) \<longleftrightarrow> 0 \<le> q \<and> nat q < length cs' \<and> mc_tail (cs' ! nat q) = int i" for q
      by (cases "nat q < length cs") (simp_all add: fields(3) [OF i] seq [OF i] vseq_def fields(1) len')
  qed
  have unref: "x \<noteq> z" if x: "i < length cs" "mc_src (cs ! i) = x" "0 \<le> x" for i x
  proof (rule fs_rs_z_cases [of cs "[a..<Suc b]"])
    fix y assume "fs_rs_z cs [a..<Suc b] = int y" "refcount cs y = 0"
    then show "x \<noteq> z" using x by (auto simp: z refcount_0)
  qed (use x z in simp)
  have where_: "\<exists>t < length cs. mc_tail (cs ! k) = int t \<and> mc_src (cs ! t) = x \<and> (a \<le> t \<and> t \<le> b \<or> int t = mc_tail (cs0 ! k))"
    if k: "k < length cs" and d: "cell_data cs0 k = Some (p, x)" for k p x
  proof -
    from fs_set_tails(1) [OF G S bt extra k] d have t3: "mc_tail (cs ! k) = mc_tail (cs3 ! k)" "cell_data cs3 k = Some (p, x)" by auto
    then have "0 \<le> mc_tail (cs3 ! k)" "mc_src (cs3 ! nat (mc_tail (cs3 ! k))) = x" by (auto simp: cell_data_def Let_def split: if_splits)
    then obtain t where t: "mc_tail (cs3 ! k) = int t" "mc_src (cs3 ! t) = x" by (metis nonneg_int_cases nat_int)
    have "t < length cs" using D(2) t(1) k len by (auto simp: tails_ok_def)
    then show ?thesis using t t3 src D(8) [of k] k len by auto
  qed
  show ?thesis unfolding fs_placed_def
  proof (intro conjI allI impI)
    show "length cs' = length cs0" "mcells_ok cs'" "a + ?n \<le> Suc b" "b < length cs0" using len' len mok room bn by auto
  next
    fix s assume s: "s < ?n"
    then have as: "a + s < length cs" "a + s \<le> b" using room bn len by auto
    show "mc_pos (cs' ! (a + s)) = rs_last_pos u s" "mc_seq (cs' ! (a + s)) = set (rs_ids u s)"
      using fields [OF as(1)] S s by (auto simp: fs_set_inv_def)
    assume "cell_data cs0 (nat (rs_id0 u s)) = None"
    moreover have "nat (rs_id0 u s) < length cs3" using rs_batch_okD(3) [OF bt s] len by simp
    moreover have "cell_data cs3 (nat (rs_id0 u s)) = Some (mc_pos (cs3 ! (a + s)), mc_src (cs3 ! (a + s)))" using tl [OF s] by (simp add: cell_data_def nat_add_distrib)
    ultimately have "fresh_data cs0 (Some (mc_pos (cs3 ! (a + s)), mc_src (cs3 ! (a + s))))" using D(7) by fastforce
    then show "mc_src0 (cs' ! (a + s)) = z \<or> (\<exists>e < length cs0. mc_src0 (cs' ! (a + s)) = int e \<and> mc_seq (cs0 ! e) = {})"
      using nth [OF as(1)] as src [OF as(1)] by (auto simp: staged_def fresh_data_def)
  next
    fix k assume "k < length cs'" and "\<forall>s < ?n. int k \<notin> set (rs_ids u s)"
    then show "map_option fst (cell_data cs' k) = map_option fst (cell_data cs0 k)" using fs_set_tails(2) [OF G S bt extra, of k] data [OF _ tails, of k] len' by auto
  next
    fix k p x assume k: "k < length cs'" and d: "cell_data cs0 k = Some (p, x)"
    from where_ [OF _ d] k len' obtain t where t: "t < length cs" "mc_tail (cs ! k) = int t" "mc_src (cs ! t) = x" "a \<le> t \<and> t \<le> b \<or> int t = mc_tail (cs0 ! k)" by auto
    show "x \<noteq> z" if "0 \<le> x" using unref [OF t(1,3) that] .
    show "\<exists>t. mc_tail (cs' ! k) = int t \<and> (if a \<le> t \<and> t \<le> b then mc_src0 (cs' ! t) = (if x < 0 then z else x) else int t = mc_tail (cs0 ! k))"
      using t fields(1) [of k] k len' nth [OF t(1)] by (auto simp: staged_def)
  qed
qed

lemma fs_place_ok:
  assumes ok: "mcells_ok cs0" and h: "h < length cs0" and bt: "rs_batch_ok (length cs0) u"
    and extra: "\<forall>s < u_n_seqs u. \<forall>q \<in> set (tl (rs_ids u s)). mc_tail (cs0 ! nat q) < 0"
  shows "\<exists>a b z cs. fs_place u h cs0 = Some (int a, int b, z, cs) \<and> fs_placed u cs0 a b z cs"
proof -
  let ?n = "u_n_seqs u"
  obtain cs2 e mn mx where use: "foldM (fs_use_step u) [0..<?n] (cs0, first_empty cs0 (length cs0) h, int (length cs0) - 1, 0) = Some (cs2, e, mn, mx)"
    and I: "fs_inv u cs0 ?n mn mx cs2" "\<forall>i < length cs2. vseq cs2 i = {} \<longrightarrow> mc_pos (cs2 ! i) = -1"
    using fs_use_ok [OF ok h bt] by blast
  have n: "0 < ?n" using bt by (simp add: rs_batch_ok_def)
  have room: "int ?n \<le> mx - mn + 1" using fs_room [OF I(1)] rs_id0_inj [OF bt] n by fastforce
  have "0 \<le> mx" using fs_invD(3) [OF I(1)] room n by linarith
  then obtain b where b: "mx = int b" by (rule nonneg_int_cases)
  obtain a where a: "mn = int a" using fs_invD(3) [OF I(1)] by (rule nonneg_int_cases)
  note ab = a b
  have "fs_gather_inv u cs0 mn mx 0 cs2" using I by (simp add: fs_gather_inv_def)
  from foldM_upt_inv [of "fs_gather_inv u cs0 mn mx", OF this] fs_gather_step_ok [OF _ bt]
  obtain cs3 where cs3: "foldM (fs_gather_step u mn) [0..<?n] cs2 = Some cs3" "fs_gather_inv u cs0 mn mx ?n cs3" by blast
  have len3: "length cs3 = length cs0" using cs3(2) fs_invD(1) by (auto simp: fs_gather_inv_def)
  have r: "a + ?n \<le> Suc b" "b < length cs0" using room ab fs_invD(4) [OF I(1)] by auto
  have bt3: "rs_batch_ok (length cs3) u" and r3: "a + ?n \<le> length cs3" using bt r len3 by auto
  have "\<exists>cs4. foldM (fs_set_step u mn) [0..<?n] cs3 = Some cs4 \<and> fs_set_inv u cs3 a ?n cs4"
    unfolding a by (rule foldM_upt_inv) (use fs_set_step_ok [OF _ bt3 _ r3] in \<open>auto simp: fs_set_inv_def\<close>)
  then obtain cs4 where cs4: "foldM (fs_set_step u mn) [0..<?n] cs3 = Some cs4" "fs_set_inv u cs3 a ?n cs4" by blast
  have len4: "length cs4 = length cs0" using cs4(2) len3 by (simp add: fs_set_inv_def)
  have I3: "fs_inv u cs0 ?n mn mx cs3" using cs3(2) by (simp add: fs_gather_inv_def)
  have src: "mc_src (cs4 ! i) = mc_src (cs3 ! i)" if "i < length cs0" for i using cs4(2) that len4 by (simp add: fs_set_inv_def)
  have out: "mc_src (cs4 ! i) = -1 \<or> mc_src (cs4 ! i) = int i \<or> a \<le> i \<and> i \<le> b" if "i < length cs4" for i
    using fs_invD(10) [OF I3, of i] src [of i] that len3 len4 ab by auto
  have bound: "\<forall>c \<in> set cs4. mc_src c < int (length cs4)"
    using fs_invD(9) [OF I3] src len3 len4 by (fastforce simp: in_set_conv_nth)
  define z where "z = fs_rs_z cs4 [a..<Suc b]"
  have b4: "b < length cs4" using r(2) len4 by simp
  have "0 \<le> z" if "a \<le> i" "i \<le> b" "mc_src (cs4 ! i) < 0" for i using fs_rs_z_nonneg [OF out b4 that] by (simp add: z_def)
  then obtain cs5 where cs5: "foldM (fs_stage_step z) [a..<Suc b] cs4 = Some cs5" "length cs5 = length cs4"
    "\<forall>i < length cs4. cs5 ! i = (if a \<le> i \<and> i \<le> b then staged z i (cs4 ! i) else cs4 ! i)" using fs_stage_ok [OF b4, of a z] by blast
  have "fs_place u h cs0 = Some (int a, int b, z, cs5)"
    using use cs3(1) cs4(1) bound cs5(1) unfolding fs_place_def ab by (simp add: map_nat_upto z_def Let_def del: upt_Suc)
  moreover have "fs_placed u cs0 a b z cs5" using fs_placed_staged [OF ok _ cs4(2) bt r(1) extra z_def cs5(2)] cs3(2) cs5(3) ab by blast
  ultimately show ?thesis by blast
qed

section \<open>Dropping the ids that become shared\<close>

definition rs_detached :: "memory_recurrent \<Rightarrow> int set \<Rightarrow> memory_recurrent \<Rightarrow> bool" where
  "rs_detached m E m' \<longleftrightarrow> rs_ok m' \<and> mr_size m' = mr_size m \<and>
     (\<forall>k < mr_size m. mc_tail (mr_cells m' ! k) = (if int k \<in> E then -1 else mc_tail (mr_cells m ! k))) \<and>
     (\<forall>k < mr_size m. int k \<notin> E \<longrightarrow> cell_data (mr_cells m') k = cell_data (mr_cells m) k) \<and>
     (\<forall>i < mr_size m. mc_seq (mr_cells m' ! i) = mc_seq (mr_cells m ! i) - E)"

lemma rs_detached_refl: "rs_ok m \<Longrightarrow> rs_detached m {} m"
  by (simp add: rs_detached_def)

lemma rs_detached_trans: "rs_detached m E m1 \<Longrightarrow> rs_detached m1 F m2 \<Longrightarrow> rs_detached m (E \<union> F) m2"
  by (auto simp: rs_detached_def)

lemma rs_detach_detached:
  assumes ok: "rs_ok m" and q: "0 \<le> q" "nat q < mr_size m"
  shows "\<exists>m'. rs_detach q m = Some m' \<and> rs_detached m {q} m'"
proof -
  obtain m' where m': "rs_detach q m = Some m'" "rs_ok m'" "mr_size m' = mr_size m"
    "\<And>i. i < mr_size m \<Longrightarrow> mr_cells m' ! i = without q i (mr_cells m ! i)" using rs_detach_ok [OF ok q] by blast
  note M = rs_okD [OF ok]
  have "cell_data (mr_cells m') k = cell_data (mr_cells m) k" if k: "k < mr_size m" "int k \<noteq> q" for k
  proof (cases "0 \<le> mc_tail (mr_cells m ! k)")
    case True
    then obtain t where t: "mc_tail (mr_cells m ! k) = int t" by (rule nonneg_int_cases)
    have "t < mr_size m" "int k \<in> mc_seq (mr_cells m ! t)" using tail_cell(1,2) [OF M(5), of "int k"] k t M(1) by auto
    moreover from this k(2) have "mc_seq (mr_cells m ! t) - {q} \<noteq> {}" by auto
    ultimately show ?thesis using m'(4) k t by (simp add: cell_data_def without_def Let_def)
  next
    case False
    then show ?thesis using m'(4) k by (simp add: cell_data_def Let_def)
  qed
  then show ?thesis using m' by (simp add: rs_detached_def)
qed

lemma fs_check_ids_ok:
  assumes "rs_ok m" and "\<forall>q \<in> set qs. 0 \<le> q \<and> nat q < mr_size m" and "0 < j"
  shows "\<exists>m'. fs_check_ids j qs m = Some (True, m') \<and> rs_detached m (set qs) m'"
  using assms
proof (induction qs arbitrary: j m)
  case (Cons q qs)
  obtain m1 where m1: "rs_detach q m = Some m1" "rs_detached m {q} m1" using rs_detach_detached [of m q] Cons.prems by auto
  then obtain m2 where m2: "fs_check_ids (Suc j) qs m1 = Some (True, m2)" "rs_detached m1 (set qs) m2"
    using Cons.IH [of m1 "Suc j"] Cons.prems by (auto simp: rs_detached_def)
  then show ?case using m1 Cons.prems rs_detached_trans [OF m1(2) m2(2)] by auto
qed (simp add: rs_detached_refl)

lemma fs_check_sets_ok:
  assumes "rs_ok m" and "\<forall>ids \<in> set idss. ids \<noteq> [] \<and> (\<forall>q \<in> set ids. 0 \<le> q \<and> nat q < mr_size m)"
  shows "\<exists>m'. fs_check_sets idss m = Some (True, m') \<and> rs_detached m (\<Union> (set ` tl ` set idss)) m'"
  using assms
proof (induction idss arbitrary: m)
  case (Cons ids idss)
  then obtain q qs where ids: "ids = q # qs" by (cases ids) auto
  obtain m1 where m1: "fs_check_ids 1 qs m = Some (True, m1)" "rs_detached m (set qs) m1" using fs_check_ids_ok [of m qs 1] Cons.prems ids by auto
  then obtain m2 where m2: "fs_check_sets idss m1 = Some (True, m2)" "rs_detached m1 (\<Union> (set ` tl ` set idss)) m2"
    using Cons.IH [of m1] Cons.prems by (auto simp: rs_detached_def)
  then show ?case using m1 Cons.prems ids rs_detached_trans [OF m1(2) m2(2)] by auto
qed (simp add: rs_detached_refl)

section \<open>The whole function\<close>

text \<open>\<open>rs_extras u\<close>: the ids after the first of each set. \<open>rs_source m q\<close>: the cell that holds the state of \<open>q\<close>, negative when the state is still
  to be zeroed.\<close>

definition rs_extras :: "llama_ubatch \<Rightarrow> int set" where
  "rs_extras u = \<Union> (set ` tl ` rs_ids u ` {..<u_n_seqs u})"

definition rs_source :: "memory_recurrent \<Rightarrow> int \<Rightarrow> int option" where
  "rs_source m q = (if 0 \<le> q \<and> nat q < mr_size m then map_option snd (cell_data (mr_cells m) (nat q)) else None)"

lemma rs_find_slot_ok:
  assumes ok: "rs_ok m" and bt: "rs_batch_ok (mr_size m) u"
  shows "\<exists>m1 m' b. rs_detached m (rs_extras u) m1 \<and> rs_find_slot u m = Some (True, m') \<and> rs_ok m' \<and> mr_size m' = mr_size m \<and>
    mr_n m' = Suc b - mr_head m' \<and> fs_placed u (mr_cells m1) (mr_head m') b (mr_rs_z m') (mr_cells m')"
proof -
  let ?m = "if mr_head m > mr_used m + 2 * u_n_seqs u then m\<lparr>mr_head := 0\<rparr> else m"
  note M = rs_okD [OF ok]
  have ok0: "rs_ok ?m" using ok M(2) by (auto simp: rs_ok_def)
  have "\<forall>ids \<in> set (map (rs_ids u) [0..<u_n_seqs u]). ids \<noteq> [] \<and> (\<forall>q \<in> set ids. 0 \<le> q \<and> nat q < mr_size ?m)"
    using bt by (auto simp: rs_batch_ok_def)
  from fs_check_sets_ok [OF ok0 this] obtain m1 where m1: "fs_check_sets (map (rs_ids u) [0..<u_n_seqs u]) ?m = Some (True, m1)" "rs_detached ?m (rs_extras u) m1"
    by (auto simp: rs_extras_def atLeast0LessThan)
  then have ok1: "rs_ok m1" and size: "mr_size m1 = mr_size m" by (auto simp: rs_detached_def split: if_splits)
  note M1 = rs_okD [OF ok1]
  have "mc_tail (mr_cells m1 ! nat q) < 0" if "s < u_n_seqs u" "q \<in> set (tl (rs_ids u s))" for s q
  proof -
    have "q \<in> set (rs_ids u s)" using rs_batch_okD(4) [OF bt that(1)] that(2) by (metis list.set_intros(2))
    then have "0 \<le> q" "nat q < mr_size m" using rs_batch_okD(8) [OF bt that(1)] by auto
    moreover have "q \<in> rs_extras u" using that by (auto simp: rs_extras_def)
    ultimately show ?thesis using m1(2) by (auto simp: rs_detached_def split: if_splits)
  qed
  then obtain a b z cs where pl: "fs_place u (mr_head m1) (mr_cells m1) = Some (int a, int b, z, cs)" "fs_placed u (mr_cells m1) a b z cs"
    using fs_place_ok [OF M1(5), of "mr_head m1" u] M1(1,3) bt size by auto
  have r: "a + u_n_seqs u \<le> Suc b" "b < mr_size m" "length cs = mr_size m" "mcells_ok cs" using pl(2) M1(1) size by (auto simp: fs_placed_def)
  have n: "nat ((int b - int a + 1) mod 4294967296) = Suc b - a" using r(1,2) M(6) by (simp add: nat_diff_distrib' Suc_diff_le)
  define m' where "m' = m1\<lparr>mr_cells := cs, mr_rs_z := z, mr_head := a, mr_n := Suc b - a, mr_used := n_used cs\<rparr>"
  have "0 < u_n_seqs u" "b_equal_seqs u" using bt by (auto simp: rs_batch_ok_def)
  then have "rs_find_slot u m = Some (True, m')" using m1(1) pl(1) n r(1) by (simp add: rs_find_slot_def Let_def m'_def n_used_def)
  moreover have "rs_ok m'" using r M(2,6) size \<open>0 < u_n_seqs u\<close> by (simp add: rs_ok_def m'_def)
  moreover have "rs_detached m (rs_extras u) m1" using m1(2) by (simp add: rs_detached_def)
  ultimately show ?thesis using pl(2) size by (auto simp: m'_def)
qed

lemma rs_view_cell_data: "rs_view m q = (if 0 \<le> q \<and> nat q < mr_size m then map_option fst (cell_data (mr_cells m) (nat q)) else None)"
  by (auto simp: rs_view_def cell_data_def Let_def)

lemma rs_extras_ids: "q \<in> rs_extras u \<Longrightarrow> \<exists>s < u_n_seqs u. q \<in> set (rs_ids u s)"
  by (auto simp: rs_extras_def dest: list.set_sel(2) [rotated]) (metis list.sel(2) list.set_sel(2))

lemma rs_id0_not_extra: "rs_batch_ok n u \<Longrightarrow> s < u_n_seqs u \<Longrightarrow> rs_id0 u s \<notin> rs_extras u"
proof
  assume b: "rs_batch_ok n u" and s: "s < u_n_seqs u" and "rs_id0 u s \<in> rs_extras u"
  then obtain s' where s': "s' < u_n_seqs u" "rs_id0 u s \<in> set (tl (rs_ids u s'))" by (auto simp: rs_extras_def)
  then have "rs_id0 u s \<in> set (rs_ids u s')" using rs_batch_okD(4) [OF b s'(1)] by (metis list.set_intros(2))
  then have "s = s'" using rs_batch_okD(9) [OF b s s'(1)] rs_batch_okD(1) [OF b s] by blast
  then show False using s'(2) rs_batch_okD(4,5) [OF b s] by (metis distinct.simps(2))
qed

text \<open>C7: The claim in \<^verbatim>\<open>find_slot\<close> that everything fits if all sequence ids are smaller than the number of cells: for a micro-batch of
  non-empty disjoint sequence sets with ids in range, \<^verbatim>\<open>find_slot\<close> returns true without failing an assertion or leaving the array; the
  memory stays consistent; the sequences of set \<^verbatim>\<open>s\<close> are in cell \<^verbatim>\<open>head + s\<close>, inside the range \<^verbatim>\<open>[head, head + n)\<close> the graph works on, with
  the last position of the set; and every sequence outside the micro-batch keeps its position.\<close>

theorem rs_find_slot_correct:
  assumes "rs_ok m" and "rs_batch_ok (mr_size m) u"
  shows "\<exists>m'. rs_find_slot u m = Some (True, m') \<and> rs_ok m' \<and> mr_size m' = mr_size m \<and>
    u_n_seqs u \<le> mr_n m' \<and> mr_head m' + mr_n m' \<le> mr_size m' \<and>
    (\<forall>s < u_n_seqs u. \<forall>q \<in> set (rs_ids u s). rs_view m' q = Some (rs_last_pos u s) \<and> mc_tail (mr_cells m' ! nat q) = int (mr_head m' + s)) \<and>
    (\<forall>q. (\<forall>s < u_n_seqs u. q \<notin> set (rs_ids u s)) \<longrightarrow> rs_view m' q = rs_view m q)"
proof -
  obtain m1 m' b where m1: "rs_detached m (rs_extras u) m1" and run: "rs_find_slot u m = Some (True, m')" and ok': "rs_ok m'"
    and size: "mr_size m' = mr_size m" and n: "mr_n m' = Suc b - mr_head m'" and P: "fs_placed u (mr_cells m1) (mr_head m') b (mr_rs_z m') (mr_cells m')"
    using rs_find_slot_ok [OF assms] by blast
  note M' = rs_okD [OF ok']
  have len: "length (mr_cells m1) = mr_size m" using m1 rs_okD(1) by (auto simp: rs_detached_def)
  have r: "mr_head m' + u_n_seqs u \<le> Suc b" "b < mr_size m" using P len by (auto simp: fs_placed_def)
  have batch: "rs_view m' q = Some (rs_last_pos u s) \<and> mc_tail (mr_cells m' ! nat q) = int (mr_head m' + s)"
    if s: "s < u_n_seqs u" and q: "q \<in> set (rs_ids u s)" for s q
  proof -
    have i: "mr_head m' + s < mr_size m'" using r s size by simp
    have c: "mc_pos (mr_cells m' ! (mr_head m' + s)) = rs_last_pos u s" "q \<in> mc_seq (mr_cells m' ! (mr_head m' + s))" using P s q by (auto simp: fs_placed_def)
    then have "0 \<le> q \<and> nat q < mr_size m' \<and> mc_tail (mr_cells m' ! nat q) = int (mr_head m' + s)" using mcells_okD(4) [OF M'(5), of "mr_head m' + s" q] i M'(1) by simp
    then show ?thesis using c(1) by (auto simp: rs_view_def nat_add_distrib)
  qed
  have other: "rs_view m' q = rs_view m q" if no: "\<forall>s < u_n_seqs u. q \<notin> set (rs_ids u s)" for q
  proof (cases "0 \<le> q \<and> nat q < mr_size m")
    case True
    then have "map_option fst (cell_data (mr_cells m') (nat q)) = map_option fst (cell_data (mr_cells m1) (nat q))"
      using P no size M'(1) by (auto simp: fs_placed_def)
    moreover have "cell_data (mr_cells m1) (nat q) = cell_data (mr_cells m) (nat q)"
    proof -
      have "int (nat q) \<notin> rs_extras u" using rs_extras_ids no True by auto
      then show ?thesis using m1 True by (simp add: rs_detached_def)
    qed
    ultimately show ?thesis using True size by (simp add: rs_view_cell_data)
  next
    case False
    then show ?thesis using size by (auto simp: rs_view_cell_data)
  qed
  show ?thesis using run ok' size batch other r n by (intro exI [of _ m']) auto
qed

text \<open>C22: The states follow their sequences. A sequence that had a cell before \<^verbatim>\<open>find_slot\<close> and is not merged into another one's set either stays in its
  cell outside the staged range, or the range copies into its new cell (\<^verbatim>\<open>s_copy\<close>) the state of the cell that held it, or the zeroed state if that cell
  was still to be cleared; the zeroed cell \<^verbatim>\<open>rs_z\<close> is never a cell that holds the state of such a sequence; and a new sequence of the micro-batch
  starts from the zeroed state or from a cell that held no other sequence.\<close>

theorem rs_find_slot_sources:
  assumes "rs_ok m" and "rs_batch_ok (mr_size m) u"
  shows "\<exists>m'. rs_find_slot u m = Some (True, m') \<and>
    (\<forall>q x. q \<notin> rs_extras u \<longrightarrow> rs_source m q = Some x \<longrightarrow> (0 \<le> x \<longrightarrow> x \<noteq> mr_rs_z m') \<and>
      (\<exists>t. mc_tail (mr_cells m' ! nat q) = int t \<and>
        (if mr_head m' \<le> t \<and> t < mr_head m' + mr_n m' then s_copy (t - mr_head m') m' = Some (if x < 0 then mr_rs_z m' else x)
         else int t = mc_tail (mr_cells m ! nat q)))) \<and>
    (\<forall>s < u_n_seqs u. rs_source m (rs_id0 u s) = None \<longrightarrow>
      s_copy s m' = Some (mr_rs_z m') \<or> (\<exists>e < mr_size m. s_copy s m' = Some (int e) \<and> mc_seq (mr_cells m ! e) \<subseteq> rs_extras u))"
proof -
  obtain m1 m' b where m1: "rs_detached m (rs_extras u) m1" and run: "rs_find_slot u m = Some (True, m')" and ok': "rs_ok m'"
    and size: "mr_size m' = mr_size m" and n: "mr_n m' = Suc b - mr_head m'" and P: "fs_placed u (mr_cells m1) (mr_head m') b (mr_rs_z m') (mr_cells m')"
    using rs_find_slot_ok [OF assms] by blast
  note M' = rs_okD [OF ok']
  have len: "length (mr_cells m1) = mr_size m" "length (mr_cells m') = mr_size m" using m1 rs_okD(1) M'(1) size by (auto simp: rs_detached_def)
  have r: "mr_head m' + u_n_seqs u \<le> Suc b" "b < mr_size m" using P len by (auto simp: fs_placed_def)
  have copy: "s_copy i m' = Some (mc_src0 (mr_cells m' ! (i + mr_head m')))" if "i + mr_head m' \<le> b" for i using that r len by (simp add: s_copy_def)
  have old: "(0 \<le> x \<longrightarrow> x \<noteq> mr_rs_z m') \<and> (\<exists>t. mc_tail (mr_cells m' ! nat q) = int t \<and>
      (if mr_head m' \<le> t \<and> t < mr_head m' + mr_n m' then s_copy (t - mr_head m') m' = Some (if x < 0 then mr_rs_z m' else x)
       else int t = mc_tail (mr_cells m ! nat q)))" if q: "q \<notin> rs_extras u" and x: "rs_source m q = Some x" for q x
  proof -
    obtain k p where k: "q = int k" "k < mr_size m" "cell_data (mr_cells m) k = Some (p, x)"
      using x by (auto simp: rs_source_def split: if_splits elim: nonneg_int_cases)
    then have d: "cell_data (mr_cells m1) k = Some (p, x)" "mc_tail (mr_cells m1 ! k) = mc_tail (mr_cells m ! k)" using m1 q by (auto simp: rs_detached_def)
    have "0 \<le> x \<longrightarrow> x \<noteq> mr_rs_z m'" using P k(2) d(1) len unfolding fs_placed_def by metis
    moreover obtain t where t: "mc_tail (mr_cells m' ! k) = int t"
      "if mr_head m' \<le> t \<and> t \<le> b then mc_src0 (mr_cells m' ! t) = (if x < 0 then mr_rs_z m' else x) else int t = mc_tail (mr_cells m1 ! k)"
      using P k(2) d(1) len unfolding fs_placed_def by metis
    moreover have "s_copy (t - mr_head m') m' = Some (mc_src0 (mr_cells m' ! t))" if "mr_head m' \<le> t" "t \<le> b" using copy [of "t - mr_head m'"] that by simp
    ultimately show ?thesis using k(1) d(2) n r(1) by (intro conjI exI [of _ t]) (auto split: if_splits)
  qed
  have new: "s_copy s m' = Some (mr_rs_z m') \<or> (\<exists>e < mr_size m. s_copy s m' = Some (int e) \<and> mc_seq (mr_cells m ! e) \<subseteq> rs_extras u)"
    if s: "s < u_n_seqs u" and no: "rs_source m (rs_id0 u s) = None" for s
  proof -
    have q: "0 \<le> rs_id0 u s" "nat (rs_id0 u s) < mr_size m" using rs_batch_okD(2,3) [OF assms(2) s] by auto
    then have "cell_data (mr_cells m) (nat (rs_id0 u s)) = None" using no by (simp add: rs_source_def)
    then have "cell_data (mr_cells m1) (nat (rs_id0 u s)) = None" using m1 q rs_id0_not_extra [OF assms(2) s] by (auto simp: rs_detached_def)
    then have "mc_src0 (mr_cells m' ! (mr_head m' + s)) = mr_rs_z m' \<or>
        (\<exists>e < mr_size m. mc_src0 (mr_cells m' ! (mr_head m' + s)) = int e \<and> mc_seq (mr_cells m1 ! e) = {})" using P s len by (auto simp: fs_placed_def)
    moreover have "mc_seq (mr_cells m1 ! e) = {} \<longrightarrow> mc_seq (mr_cells m ! e) \<subseteq> rs_extras u" if "e < mr_size m" for e using m1 that by (auto simp: rs_detached_def)
    ultimately show ?thesis using copy [of s] r s by (auto simp: add.commute)
  qed
  show ?thesis using run old new by (intro exI [of _ m']) blast
qed

section \<open>Failure and the dry run\<close>

lemma fs_check_ids_result:
  assumes "rs_ok m"
  shows "\<exists>m'. fs_check_ids j qs m = Some (\<forall>q \<in> set qs. 0 \<le> q \<and> nat q < mr_size m, m') \<and> rs_ok m' \<and> mr_size m' = mr_size m"
  using assms
proof (induction qs arbitrary: j m)
  case (Cons q qs)
  show ?case
  proof (cases "0 \<le> q \<and> nat q < mr_size m")
    case True
    obtain m1 where m1: "(if j > 0 then rs_detach q m else Some m) = Some m1" "rs_ok m1" "mr_size m1 = mr_size m"
      using rs_detach_ok [OF Cons.prems] True Cons.prems by (cases "j > 0") auto
    from Cons.IH [OF m1(2), of "Suc j"] m1 True show ?thesis by (auto simp: not_le not_less)
  next
    case False
    then show ?thesis using Cons.prems by auto
  qed
qed simp

lemma fs_check_sets_result:
  assumes "rs_ok m"
  shows "\<exists>m'. fs_check_sets idss m = Some (\<forall>ids \<in> set idss. \<forall>q \<in> set ids. 0 \<le> q \<and> nat q < mr_size m, m') \<and> rs_ok m' \<and> mr_size m' = mr_size m"
  using assms
proof (induction idss arbitrary: m)
  case (Cons ids idss)
  obtain m1 where m1: "fs_check_ids 0 ids m = Some (\<forall>q \<in> set ids. 0 \<le> q \<and> nat q < mr_size m, m1)" "rs_ok m1" "mr_size m1 = mr_size m"
    using fs_check_ids_result [OF Cons.prems] by blast
  from Cons.IH [OF m1(2)] m1 show ?case by (cases "\<forall>q \<in> set ids. 0 \<le> q \<and> nat q < mr_size m") auto
qed simp

lemma rs_find_slot_rejects:
  assumes ok: "rs_ok m" and eq: "b_equal_seqs u" and bad: "s < u_n_seqs u" "q \<in> set (rs_ids u s)" "\<not> (0 \<le> q \<and> nat q < mr_size m)"
  shows "\<exists>m'. rs_find_slot u m = Some (False, m') \<and> rs_ok m'"
proof -
  let ?m = "if mr_head m > mr_used m + 2 * u_n_seqs u then m\<lparr>mr_head := 0\<rparr> else m"
  have ok0: "rs_ok ?m" using ok rs_okD(2) [OF ok] by (auto simp: rs_ok_def)
  have no: "\<not> (\<forall>ids \<in> set (map (rs_ids u) [0..<u_n_seqs u]). \<forall>q \<in> set ids. 0 \<le> q \<and> nat q < mr_size ?m)"
  proof
    assume "\<forall>ids \<in> set (map (rs_ids u) [0..<u_n_seqs u]). \<forall>q \<in> set ids. 0 \<le> q \<and> nat q < mr_size ?m"
    moreover have "rs_ids u s \<in> set (map (rs_ids u) [0..<u_n_seqs u])" using bad(1) by simp
    ultimately have "0 \<le> q \<and> nat q < mr_size ?m" using bad(2) by blast
    then show False using bad(3) by (simp split: if_splits)
  qed
  from fs_check_sets_result [OF ok0, of "map (rs_ids u) [0..<u_n_seqs u]"] obtain m' where
    "fs_check_sets (map (rs_ids u) [0..<u_n_seqs u]) ?m = Some (False, m')" "rs_ok m'" unfolding eq_False [THEN iffD2, OF no] by blast
  then show ?thesis using eq by (auto simp: rs_find_slot_def Let_def)
qed

lemma rs_prepare_loop_ok:
  assumes "rs_ok m" and "\<forall>u \<in> set us. rs_batch_ok (mr_size m) u"
  shows "\<exists>m'. rs_prepare_loop us m = Some (True, m') \<and> rs_ok m' \<and> mr_size m' = mr_size m"
  using assms
proof (induction us arbitrary: m)
  case (Cons u us)
  then obtain m1 where m1: "rs_find_slot u m = Some (True, m1)" "rs_ok m1" "mr_size m1 = mr_size m" using rs_find_slot_ok [of m u] by auto
  with Cons.IH [of m1] Cons.prems show ?case by auto
qed simp

text \<open>The dry run of the recurrent memory: for micro-batches with ids in range \<^verbatim>\<open>prepare\<close> succeeds, leaves cells, head and counter exactly as they
  were, and the same micro-batches can then be placed one after the other.\<close>

theorem rs_prepare_dry_run:
  assumes "rs_ok m" and "\<forall>u \<in> set us. rs_batch_ok (mr_size m) u"
  shows "\<exists>m'. rs_prepare us m = Some (True, m') \<and> mr_cells m' = mr_cells m \<and> mr_head m' = mr_head m \<and> mr_used m' = mr_used m \<and>
    rs_ok m' \<and> rs_view m' = rs_view m \<and> (\<exists>m''. rs_prepare_loop us m' = Some (True, m'') \<and> rs_ok m'')"
proof -
  obtain m1 where m1: "rs_prepare_loop us m = Some (True, m1)" "mr_size m1 = mr_size m" using rs_prepare_loop_ok [OF assms] by blast
  define m' where "m' = m1\<lparr>mr_cells := mr_cells m, mr_used := mr_used m, mr_head := mr_head m\<rparr>"
  have ok': "rs_ok m'" using assms(1) m1(2) by (simp add: rs_ok_def m'_def)
  have "\<forall>u \<in> set us. rs_batch_ok (mr_size m') u" using assms(2) m1(2) by (simp add: m'_def)
  from rs_prepare_loop_ok [OF ok' this] show ?thesis using m1 ok'
    by (intro exI [of _ m']) (auto simp: rs_prepare_def m'_def rs_view_def fun_eq_iff)
qed

section \<open>An example\<close>

definition demo_rs_batch :: llama_ubatch where
  "demo_rs_batch = empty_ubatch\<lparr>b_equal_seqs := True, u_n_tokens := 2, u_n_seq_tokens := 1, u_n_seqs := 2, u_pos := [4, 0],
     u_n_seq_id := [1, 1], u_seq_id := [[0], [1]]\<rparr>"

lemma demo_rs_batch_simps:
  "u_n_seqs demo_rs_batch = 2" "u_n_seq_tokens demo_rs_batch = 1" "b_equal_seqs demo_rs_batch" "u_pos demo_rs_batch = [4, 0]"
  "rs_ids demo_rs_batch 0 = [0]" "rs_ids demo_rs_batch (Suc 0) = [1]" "rs_last_pos demo_rs_batch 0 = 4" "rs_last_pos demo_rs_batch (Suc 0) = 0"
  by (simp_all add: demo_rs_batch_def rs_ids_def token_seqs_def rs_last_pos_def)

lemma demo_rs_batch_ok: "rs_batch_ok (mr_size demo_rs) demo_rs_batch"
  by (auto simp: rs_batch_ok_def demo_rs_batch_simps less_2_cases_iff) (simp_all add: demo_rs_def)

theorem rs_find_slot_correct_witness:
  "\<exists>m'. rs_find_slot demo_rs_batch demo_rs = Some (True, m') \<and> rs_view m' 0 = Some 4 \<and> rs_view m' 1 = Some 0"
proof -
  obtain m' where m': "rs_find_slot demo_rs_batch demo_rs = Some (True, m')"
    "\<And>s q. s < u_n_seqs demo_rs_batch \<Longrightarrow> q \<in> set (rs_ids demo_rs_batch s) \<Longrightarrow> rs_view m' q = Some (rs_last_pos demo_rs_batch s)"
    using rs_find_slot_correct [OF demo_rs_ok demo_rs_batch_ok] by blast
  have "rs_view m' 0 = Some 4" "rs_view m' 1 = Some 0" using m'(2) [of 0 0] m'(2) [of "Suc 0" 1] by (simp_all add: demo_rs_batch_simps)
  with m'(1) show ?thesis by blast
qed

lemma demo_rs_run: "map_option (\<lambda>(_, m). (mr_head m, mr_n m, mc_tail (mr_cells m ! 0))) (rs_find_slot demo_rs_batch demo_rs) = Some (0, 2, 0)"
  by code_simp

theorem rs_find_slot_sources_witness:
  "\<exists>m'. rs_find_slot demo_rs_batch demo_rs = Some (True, m') \<and> s_copy 0 m' = Some 1 \<and> mr_rs_z m' \<noteq> 1"
proof -
  have e: "rs_extras demo_rs_batch = {}" by (auto simp: rs_extras_def demo_rs_batch_simps less_2_cases_iff)
  have x: "rs_source demo_rs 0 = Some 1" by (simp add: rs_source_def demo_rs_def cell_data_def)
  obtain m' where run: "rs_find_slot demo_rs_batch demo_rs = Some (True, m')"
    and src: "\<And>q x. q \<notin> rs_extras demo_rs_batch \<Longrightarrow> rs_source demo_rs q = Some x \<Longrightarrow> (0 \<le> x \<longrightarrow> x \<noteq> mr_rs_z m') \<and>
      (\<exists>t. mc_tail (mr_cells m' ! nat q) = int t \<and>
        (if mr_head m' \<le> t \<and> t < mr_head m' + mr_n m' then s_copy (t - mr_head m') m' = Some (if x < 0 then mr_rs_z m' else x)
         else int t = mc_tail (mr_cells demo_rs ! nat q)))"
    using rs_find_slot_sources [OF demo_rs_ok demo_rs_batch_ok] by blast
  show ?thesis using src [of 0 1] e x run demo_rs_run by auto
qed

theorem rs_prepare_dry_run_witness:
  "\<exists>m'. rs_prepare [demo_rs_batch, demo_rs_batch] demo_rs = Some (True, m') \<and> mr_cells m' = mr_cells demo_rs"
  using rs_prepare_dry_run [of demo_rs "[demo_rs_batch, demo_rs_batch]"] demo_rs_ok demo_rs_batch_ok by auto

section \<open>Removing everything\<close>

text \<open>\<^verbatim>\<open>seq_rm\<close> with a negative sequence id and the full range empties the cells but leaves the tails pointing at them: it reports success, and placing the next
  micro-batch of such a sequence fails the assertion that its tail cell holds it.\<close>

theorem rs_rm_all_then_find_slot_aborts:
  "\<exists>m'. rs_seq_rm (-1) (-1) (-1) demo_rs = Some (True, m') \<and> rs_find_slot demo_rs_batch m' = None"
proof -
  have "Option.bind (rs_seq_rm (-1) (-1) (-1) demo_rs) (\<lambda>(ok, m). Some (ok, rs_find_slot demo_rs_batch m = None)) = Some (True, True)" by code_simp
  then show ?thesis by (auto split: Option.bind_splits)
qed

end
