(* ===== verification/Composite.thy ===== *)
theory Composite
  imports KvPrepare RecurrentPlace
begin

text \<open>
  The two memories made of other memories: \<^verbatim>\<open>src/llama-memory-hybrid.cpp\<close> (an attention cache and a recurrent memory) and
  \<^verbatim>\<open>src/llama-kv-cache-iswa.cpp\<close> (a full attention cache and a sliding-window one).
\<close>

section \<open>The hybrid memory\<close>

record memory_hybrid =
  hy_attn :: kv_cache
  hy_recr :: memory_recurrent

definition hybrid_clear :: "memory_hybrid \<Rightarrow> memory_hybrid" where
  "hybrid_clear h = h\<lparr>hy_attn := kv_clear (hy_attn h), hy_recr := rs_clear (hy_recr h)\<rparr>"

definition hybrid_seq_rm :: "int \<Rightarrow> int \<Rightarrow> int \<Rightarrow> memory_hybrid \<Rightarrow> (bool \<times> memory_hybrid) option" where
  "hybrid_seq_rm s p0 p1 h = do {
     (ok, r) \<leftarrow> rs_seq_rm s p0 p1 (hy_recr h);
     let h = h\<lparr>hy_recr := r\<rparr>;
     if \<not> ok then Some (False, h)
     else do {
       (ok, kv) \<leftarrow> kv_seq_rm s p0 p1 (hy_attn h);
       Some (ok, h\<lparr>hy_attn := kv\<rparr>) } }"

definition hybrid_seq_cp :: "int \<Rightarrow> int \<Rightarrow> int \<Rightarrow> int \<Rightarrow> memory_hybrid \<Rightarrow> memory_hybrid option" where
  "hybrid_seq_cp src dst p0 p1 h = do {
     kv \<leftarrow> kv_seq_cp src dst p0 p1 (hy_attn h);
     r \<leftarrow> rs_seq_cp src dst p0 p1 (hy_recr h);
     Some (h\<lparr>hy_attn := kv, hy_recr := r\<rparr>) }"

definition hybrid_seq_keep :: "int \<Rightarrow> memory_hybrid \<Rightarrow> memory_hybrid option" where
  "hybrid_seq_keep s h = do {
     kv \<leftarrow> kv_seq_keep s (hy_attn h);
     Some (h\<lparr>hy_attn := kv, hy_recr := rs_seq_keep s (hy_recr h)\<rparr>) }"

definition hybrid_seq_add :: "int \<Rightarrow> int \<Rightarrow> int \<Rightarrow> int \<Rightarrow> memory_hybrid \<Rightarrow> memory_hybrid option" where
  "hybrid_seq_add s p0 p1 d h = do {
     kv \<leftarrow> kv_seq_add s p0 p1 d (hy_attn h);
     r \<leftarrow> rs_seq_add s p0 p1 d (hy_recr h);
     Some (h\<lparr>hy_attn := kv, hy_recr := r\<rparr>) }"

definition hybrid_seq_div :: "int \<Rightarrow> int \<Rightarrow> int \<Rightarrow> int \<Rightarrow> memory_hybrid \<Rightarrow> memory_hybrid option" where
  "hybrid_seq_div s p0 p1 d h = do {
     kv \<leftarrow> kv_seq_div s p0 p1 d (hy_attn h);
     r \<leftarrow> rs_seq_div s p0 p1 d (hy_recr h);
     Some (h\<lparr>hy_attn := kv, hy_recr := r\<rparr>) }"

definition hybrid_seq_pos_min :: "int \<Rightarrow> memory_hybrid \<Rightarrow> int option" where
  "hybrid_seq_pos_min s h = do { p \<leftarrow> kv_seq_pos_min s (hy_attn h); Some (max p (rs_seq_pos_min s (hy_recr h))) }"

definition hybrid_seq_pos_max :: "int \<Rightarrow> memory_hybrid \<Rightarrow> int option" where
  "hybrid_seq_pos_max s h = do { p \<leftarrow> kv_seq_pos_max s (hy_attn h); Some (min p (rs_seq_pos_max s (hy_recr h))) }"

text \<open>The context; the status constructor leaves both inner contexts null.\<close>

record hybrid_context =
  hx_i_next :: nat
  hx_ubatches :: "llama_ubatch list"
  hx_attn :: "kv_cache_context option"
  hx_recr :: "recurrent_context option"
  hx_status :: llama_memory_status

definition hybrid_context_status :: "llama_memory_status \<Rightarrow> hybrid_context" where
  "hybrid_context_status st = \<lparr>hx_i_next = 0, hx_ubatches = [], hx_attn = None, hx_recr = None, hx_status = st\<rparr>"

definition hybrid_context_of :: "llama_ubatch list \<Rightarrow> kv_cache_context \<Rightarrow> recurrent_context \<Rightarrow> hybrid_context" where
  "hybrid_context_of us a r =
     \<lparr>hx_i_next = 0, hx_ubatches = us, hx_attn = Some a, hx_recr = Some r, hx_status = llama_memory_status_combine (cx_status a) (rx_status r)\<rparr>"

definition hybrid_init_batch :: "nat \<Rightarrow> bool \<Rightarrow> llama_batch_allocr \<Rightarrow> memory_hybrid \<Rightarrow> (hybrid_context \<times> llama_batch_allocr \<times> memory_hybrid) option" where
  "hybrid_init_batch n_ubatch embd_all a h = do {
     let failed = hybrid_context_status STATUS_FAILED_PREPARE;
     (us, a) \<leftarrow> split_loop (if embd_all then split_seq n_ubatch else split_equal n_ubatch True) (split_reset a);
     if ba_n_used a < get_n_tokens a then Some (failed, a, h)
     else do {
       (ok, r) \<leftarrow> rs_prepare us (hy_recr h);
       let h = h\<lparr>hy_recr := r\<rparr>;
       if \<not> ok then Some (failed, a, h)
       else do {
         (sls, kv) \<leftarrow> prepare us (hy_attn h);
         let h = h\<lparr>hy_attn := kv\<rparr>;
         if sls = [] then Some (failed, a, h)
         else Some (hybrid_context_of us (context_batch sls us) (rs_context_batch us), a, h) } } }"

definition hybrid_init_full :: "memory_hybrid \<Rightarrow> hybrid_context" where
  "hybrid_init_full h = hybrid_context_of [] (context_full (hy_attn h)) rs_init_full"

definition hybrid_init_update :: "memory_hybrid \<Rightarrow> hybrid_context \<times> memory_hybrid" where
  "hybrid_init_update h = (let (cx, kv) = init_update (hy_attn h) in (hybrid_context_of [] cx rs_init_update, h\<lparr>hy_attn := kv\<rparr>))"

definition hybrid_context_next :: "hybrid_context \<Rightarrow> (bool \<times> hybrid_context) option" where
  "hybrid_context_next cx = do {
     assert_opt (hx_status cx = STATUS_SUCCESS);
     a \<leftarrow> hx_attn cx;
     (_, a) \<leftarrow> context_next a;
     r \<leftarrow> hx_recr cx;
     (_, r) \<leftarrow> rs_context_next r;
     let cx = cx\<lparr>hx_attn := Some a, hx_recr := Some r, hx_i_next := hx_i_next cx + 1\<rparr>;
     Some (\<not> (hx_i_next cx \<ge> length (hx_ubatches cx)), cx) }"

definition hybrid_context_apply :: "bool \<Rightarrow> bool \<Rightarrow> bool \<Rightarrow> hybrid_context \<Rightarrow> memory_hybrid \<Rightarrow> (hybrid_context \<times> memory_hybrid) option" where
  "hybrid_context_apply has_rope galloc_ok compute_ok cx h = do {
     assert_opt (\<not> llama_memory_status_is_fail (hx_status cx));
     a \<leftarrow> hx_attn cx;
     (a, kv) \<leftarrow> context_apply has_rope galloc_ok compute_ok a (hy_attn h);
     r \<leftarrow> hx_recr cx;
     (_, m) \<leftarrow> rs_context_apply r (hy_recr h);
     Some (cx\<lparr>hx_attn := Some a\<rparr>, h\<lparr>hy_attn := kv, hy_recr := m\<rparr>) }"

definition hybrid_context_get_ubatch :: "hybrid_context \<Rightarrow> llama_ubatch option" where
  "hybrid_context_get_ubatch cx = do {
     assert_opt (hx_status cx = STATUS_SUCCESS);
     assert_opt (hx_i_next cx < length (hx_ubatches cx));
     Some (hx_ubatches cx ! hx_i_next cx) }"

section \<open>The sliding-window cache\<close>

record kv_cache_iswa =
  ic_unified :: bool
  ic_base :: kv_cache
  ic_swa :: kv_cache

text \<open>The constructor; \<open>n_swa\<close>, \<open>swa\<close> and the arguments after them come from \<^verbatim>\<open>hparams\<close>.\<close>

definition iswa_size_swa :: "bool \<Rightarrow> bool \<Rightarrow> nat \<Rightarrow> nat \<Rightarrow> nat \<Rightarrow> nat \<Rightarrow> nat \<Rightarrow> nat" where
  "iswa_size_swa swa_full unified size_base n_seq_max n_ubatch n_pad n_swa =
     (if swa_full then size_base else min size_base (GGML_PAD (n_swa * (if unified then n_seq_max else 1) + n_ubatch) n_pad))"

definition kv_cache_iswa_new :: "bool \<Rightarrow> bool \<Rightarrow> bool \<Rightarrow> nat \<Rightarrow> nat \<Rightarrow> nat \<Rightarrow> nat \<Rightarrow> nat \<Rightarrow> llama_swa_type \<Rightarrow> nat \<Rightarrow> bool \<Rightarrow> nat \<Rightarrow> nat \<Rightarrow> kv_cache_iswa option" where
  "kv_cache_iswa_new v_trans swa_full unified size_base n_seq_max n_ubatch n_pad n_swa swa_type npe alibi gqa_base gqa_swa = do {
     base \<leftarrow> kv_cache_new v_trans unified size_base n_seq_max n_pad 0 SWA_NONE npe alibi gqa_base;
     swa \<leftarrow> kv_cache_new v_trans unified (iswa_size_swa swa_full unified size_base n_seq_max n_ubatch n_pad n_swa) n_seq_max n_pad n_swa swa_type npe alibi gqa_swa;
     Some \<lparr>ic_unified = unified, ic_base = base, ic_swa = swa\<rparr> }"

definition iswa_clear :: "kv_cache_iswa \<Rightarrow> kv_cache_iswa" where
  "iswa_clear c = c\<lparr>ic_base := kv_clear (ic_base c), ic_swa := kv_clear (ic_swa c)\<rparr>"

definition iswa_seq_rm :: "int \<Rightarrow> int \<Rightarrow> int \<Rightarrow> kv_cache_iswa \<Rightarrow> (bool \<times> kv_cache_iswa) option" where
  "iswa_seq_rm s p0 p1 c = do {
     (ok0, base) \<leftarrow> kv_seq_rm s p0 p1 (ic_base c);
     (ok1, swa) \<leftarrow> kv_seq_rm s p0 p1 (ic_swa c);
     Some (ok0 \<and> ok1, c\<lparr>ic_base := base, ic_swa := swa\<rparr>) }"

text \<open>The other sequence operations run on both caches in turn.\<close>

definition iswa_both :: "(kv_cache \<Rightarrow> kv_cache option) \<Rightarrow> kv_cache_iswa \<Rightarrow> kv_cache_iswa option" where
  "iswa_both f c = do { base \<leftarrow> f (ic_base c); swa \<leftarrow> f (ic_swa c); Some (c\<lparr>ic_base := base, ic_swa := swa\<rparr>) }"

definition iswa_seq_cp :: "int \<Rightarrow> int \<Rightarrow> int \<Rightarrow> int \<Rightarrow> kv_cache_iswa \<Rightarrow> kv_cache_iswa option" where
  "iswa_seq_cp src dst p0 p1 = iswa_both (kv_seq_cp src dst p0 p1)"

definition iswa_seq_keep :: "int \<Rightarrow> kv_cache_iswa \<Rightarrow> kv_cache_iswa option" where
  "iswa_seq_keep s = iswa_both (kv_seq_keep s)"

definition iswa_seq_add :: "int \<Rightarrow> int \<Rightarrow> int \<Rightarrow> int \<Rightarrow> kv_cache_iswa \<Rightarrow> kv_cache_iswa option" where
  "iswa_seq_add s p0 p1 d = iswa_both (kv_seq_add s p0 p1 d)"

definition iswa_seq_div :: "int \<Rightarrow> int \<Rightarrow> int \<Rightarrow> int \<Rightarrow> kv_cache_iswa \<Rightarrow> kv_cache_iswa option" where
  "iswa_seq_div s p0 p1 d = iswa_both (kv_seq_div s p0 p1 d)"

definition iswa_seq_pos_min :: "int \<Rightarrow> kv_cache_iswa \<Rightarrow> int option" where
  "iswa_seq_pos_min s c = kv_seq_pos_min s (ic_swa c)"

definition iswa_seq_pos_max :: "int \<Rightarrow> kv_cache_iswa \<Rightarrow> int option" where
  "iswa_seq_pos_max s c = kv_seq_pos_max s (ic_swa c)"

definition iswa_get_can_shift :: "kv_cache_iswa \<Rightarrow> bool" where
  "iswa_get_can_shift c \<longleftrightarrow> kv_size (ic_base c) = kv_size (ic_swa c)"

record iswa_context =
  ix_i_next :: nat
  ix_ubatches :: "llama_ubatch list"
  ix_base :: "kv_cache_context option"
  ix_swa :: "kv_cache_context option"
  ix_status :: llama_memory_status

definition iswa_context_status :: "llama_memory_status \<Rightarrow> iswa_context" where
  "iswa_context_status st = \<lparr>ix_i_next = 0, ix_ubatches = [], ix_base = None, ix_swa = None, ix_status = st\<rparr>"

definition iswa_context_of :: "llama_ubatch list \<Rightarrow> kv_cache_context \<Rightarrow> kv_cache_context \<Rightarrow> iswa_context" where
  "iswa_context_of us b w =
     \<lparr>ix_i_next = 0, ix_ubatches = us, ix_base = Some b, ix_swa = Some w, ix_status = llama_memory_status_combine (cx_status b) (cx_status w)\<rparr>"

text \<open>One attempt of \<^verbatim>\<open>init_batch\<close>: \<open>None\<close> as its context is the \<^verbatim>\<open>break\<close>.\<close>

definition iswa_try_split :: "(llama_batch_allocr \<Rightarrow> (llama_ubatch \<times> llama_batch_allocr) option) \<Rightarrow> llama_batch_allocr \<Rightarrow> kv_cache_iswa \<Rightarrow>
    (iswa_context option \<times> llama_batch_allocr \<times> kv_cache_iswa) option" where
  "iswa_try_split split a c = do {
     (us, a) \<leftarrow> split_loop split (split_reset a);
     if ba_n_used a < get_n_tokens a then Some (None, a, c)
     else do {
       (sb, base) \<leftarrow> prepare us (ic_base c);
       let c = c\<lparr>ic_base := base\<rparr>;
       if sb = [] then Some (None, a, c)
       else do {
         (sw, swa) \<leftarrow> prepare us (ic_swa c);
         let c = c\<lparr>ic_swa := swa\<rparr>;
         if sw = [] then Some (None, a, c)
         else do {
           assert_opt (length sb = length sw);
           Some (Some (iswa_context_of us (context_batch sb us) (context_batch sw us)), a, c) } } } }"

definition iswa_init_batch :: "nat \<Rightarrow> llama_batch_allocr \<Rightarrow> kv_cache_iswa \<Rightarrow> (iswa_context \<times> llama_batch_allocr \<times> kv_cache_iswa) option" where
  "iswa_init_batch n_ubatch a c = do {
     (r, a, c) \<leftarrow> (if ic_unified c then iswa_try_split (split_simple n_ubatch) a c else Some (None, a, c));
     case r of
       Some cx \<Rightarrow> Some (cx, a, c)
     | None \<Rightarrow> do {
         (r, a, c) \<leftarrow> iswa_try_split (split_equal n_ubatch (\<not> ic_unified c)) a c;
         case r of
           Some cx \<Rightarrow> Some (cx, a, c)
         | None \<Rightarrow> Some (iswa_context_status STATUS_FAILED_PREPARE, a, c) } }"

definition iswa_init_full :: "kv_cache_iswa \<Rightarrow> iswa_context" where
  "iswa_init_full c = iswa_context_of [] (context_full (ic_base c)) (context_full (ic_swa c))"

definition iswa_init_update :: "kv_cache_iswa \<Rightarrow> iswa_context \<times> kv_cache_iswa" where
  "iswa_init_update c = (let (b, base) = init_update (ic_base c); (w, swa) = init_update (ic_swa c) in
     (iswa_context_of [] b w, c\<lparr>ic_base := base, ic_swa := swa\<rparr>))"

definition iswa_context_next :: "iswa_context \<Rightarrow> (bool \<times> iswa_context) option" where
  "iswa_context_next cx = do {
     assert_opt (ix_status cx = STATUS_SUCCESS);
     b \<leftarrow> ix_base cx;
     (_, b) \<leftarrow> context_next b;
     w \<leftarrow> ix_swa cx;
     (_, w) \<leftarrow> context_next w;
     let cx = cx\<lparr>ix_base := Some b, ix_swa := Some w, ix_i_next := ix_i_next cx + 1\<rparr>;
     Some (\<not> (ix_i_next cx \<ge> length (ix_ubatches cx)), cx) }"

definition iswa_context_apply :: "bool \<Rightarrow> bool \<Rightarrow> bool \<Rightarrow> iswa_context \<Rightarrow> kv_cache_iswa \<Rightarrow> (iswa_context \<times> kv_cache_iswa) option" where
  "iswa_context_apply has_rope galloc_ok compute_ok cx c = do {
     assert_opt (\<not> llama_memory_status_is_fail (ix_status cx));
     b \<leftarrow> ix_base cx;
     (b, base) \<leftarrow> context_apply has_rope galloc_ok compute_ok b (ic_base c);
     w \<leftarrow> ix_swa cx;
     (w, swa) \<leftarrow> context_apply has_rope galloc_ok compute_ok w (ic_swa c);
     Some (cx\<lparr>ix_base := Some b, ix_swa := Some w\<rparr>, c\<lparr>ic_base := base, ic_swa := swa\<rparr>) }"

definition iswa_context_get_ubatch :: "iswa_context \<Rightarrow> llama_ubatch option" where
  "iswa_context_get_ubatch cx = do {
     assert_opt (ix_status cx = STATUS_SUCCESS);
     assert_opt (ix_i_next cx < length (ix_ubatches cx));
     Some (ix_ubatches cx ! ix_i_next cx) }"

section \<open>Properties of the hybrid memory\<close>

text \<open>C35: \<^verbatim>\<open>llama_memory_hybrid::seq_rm\<close> returns and keeps both memories consistent. When it returns false neither memory has changed, as its comment
  promises; when it returns true the positions of the range are gone from the attention cache, and the recurrent state is gone if its position was in
  the range and untouched otherwise. No other sequence changes in either memory.\<close>

theorem hybrid_seq_rm_all_or_nothing:
  assumes "kv_ok (hy_attn h)" and "rs_ok (hy_recr h)" and "valid_seq (hy_attn h) s" and "nat s < mr_size (hy_recr h)"
  shows "\<exists>b h'. hybrid_seq_rm s p0 p1 h = Some (b, h') \<and> kv_ok (hy_attn h') \<and> rs_ok (hy_recr h') \<and> (\<not> b \<longrightarrow> h' = h) \<and>
    (b \<longrightarrow> kv_positions (hy_attn h') s = {p \<in> kv_positions (hy_attn h) s. \<not> (clamp_p0 p0 \<le> p \<and> p < clamp_p1 p1)} \<and>
      rs_positions (hy_recr h') s = {p \<in> rs_positions (hy_recr h) s. \<not> (clamp_p0 p0 \<le> p \<and> p < clamp_p1 p1)}) \<and>
    (\<forall>t. t \<noteq> s \<longrightarrow> rs_view (hy_recr h') t = rs_view (hy_recr h) t \<and>
      (valid_seq (hy_attn h) t \<longrightarrow> kv_positions (hy_attn h') t = kv_positions (hy_attn h) t))"
proof -
  have s: "0 \<le> s" using assms(3) by (simp add: valid_seq_def)
  obtain b r where r: "rs_seq_rm s p0 p1 (hy_recr h) = Some (b, r)" "rs_ok r"
    and c: "case rs_view (hy_recr h) s of None \<Rightarrow> b \<and> r = hy_recr h
     | Some p \<Rightarrow> if (0 < clamp_p0 p0 \<and> clamp_p0 p0 < p) \<or> (0 < clamp_p1 p1 \<and> clamp_p1 p1 \<le> p) then \<not> b \<and> r = hy_recr h
         else if clamp_p0 p0 \<le> p \<and> p < clamp_p1 p1 then b \<and> rs_view r = (rs_view (hy_recr h))(s := None) else b \<and> r = hy_recr h"
    using rs_seq_rm_ok [OF assms(2) s assms(4), of p0 p1] by blast
  have pos: "b \<Longrightarrow> rs_positions r s = {p \<in> rs_positions (hy_recr h) s. \<not> (clamp_p0 p0 \<le> p \<and> p < clamp_p1 p1)}"
    using c by (auto simp: rs_positions_def split: option.splits if_splits)
  have same: "\<not> b \<Longrightarrow> r = hy_recr h" "\<And>t. t \<noteq> s \<Longrightarrow> rs_view r t = rs_view (hy_recr h) t" using c by (auto split: option.splits if_splits)
  obtain kv where kv: "kv_seq_rm s p0 p1 (hy_attn h) = Some (True, kv)" "kv_ok kv"
    "kv_positions kv s = {p \<in> kv_positions (hy_attn h) s. \<not> (clamp_p0 p0 \<le> p \<and> p < clamp_p1 p1)}"
    "\<forall>t. valid_seq (hy_attn h) t \<longrightarrow> t \<noteq> s \<longrightarrow> kv_positions kv t = kv_positions (hy_attn h) t"
    using kv_seq_rm_positions [OF assms(1,3)] by blast
  show ?thesis
  proof (cases b)
    case True
    then have "hybrid_seq_rm s p0 p1 h = Some (True, h\<lparr>hy_recr := r, hy_attn := kv\<rparr>)" using r kv by (simp add: hybrid_seq_rm_def)
    then show ?thesis using True r(2) kv pos same(2) by (intro exI [of _ True] exI [of _ "h\<lparr>hy_recr := r, hy_attn := kv\<rparr>"]) auto
  next
    case False
    then have "hybrid_seq_rm s p0 p1 h = Some (False, h)" using r same(1) by (simp add: hybrid_seq_rm_def)
    then show ?thesis using assms by (intro exI [of _ False] exI [of _ h]) simp
  qed
qed

theorem hybrid_seq_rm_all_or_nothing_witness:
  "\<exists>h h'. kv_positions (hy_attn h) 0 = {7} \<and> hybrid_seq_rm 0 0 (-1) h = Some (True, h') \<and> kv_positions (hy_attn h') 0 = {} \<and> rs_positions (hy_recr h') 0 = {}"
proof -
  obtain kv where kv: "kv_ok kv" "kc_seq_to_stream kv = replicate LLAMA_MAX_SEQ 0" "abs_kv kv = [[demo_cell, free_cell ext_reset]]"
    using demo_kv [of True] by auto
  define h where "h = \<lparr>hy_attn = kv, hy_recr = demo_rs\<rparr>"
  have v: "valid_seq kv 0" using kv(2) by (simp add: valid_seq_def)
  have p: "kv_positions kv 0 = {7}" using kv(2,3) by (force simp: kv_positions_def free_cell_def)
  have r: "rs_positions demo_rs 0 = {3}" by (simp add: rs_positions_def rs_view_def demo_rs_def)
  obtain b h' where h': "hybrid_seq_rm 0 0 (-1) h = Some (b, h')"
    "b \<longrightarrow> kv_positions (hy_attn h') 0 = {p \<in> kv_positions kv 0. \<not> (clamp_p0 0 \<le> p \<and> p < clamp_p1 (-1))} \<and>
      rs_positions (hy_recr h') 0 = {p \<in> rs_positions demo_rs 0. \<not> (clamp_p0 0 \<le> p \<and> p < clamp_p1 (-1))}"
    using hybrid_seq_rm_all_or_nothing [of h 0 0 "-1"] kv(1) v demo_rs_ok by (auto simp: h_def demo_rs_def)
  have b: b
  proof -
    have "map_option fst (rs_seq_rm 0 0 (-1) demo_rs) = Some True" by code_simp
    then obtain r where "rs_seq_rm 0 0 (-1) demo_rs = Some (True, r)" by auto
    then show ?thesis using h'(1) kv_seq_rm_positions [OF kv(1) v, of 0 "-1"] by (auto simp: h_def hybrid_seq_rm_def)
  qed
  then show ?thesis using h' p r by (intro exI [of _ h] exI [of _ h']) (auto simp: h_def clamp_p0_def clamp_p1_def)
qed

text \<open>The question in \<^verbatim>\<open>init_batch\<close> whether a failed preparation leaves the recurrent memory in an undefined state: it does not.\<close>

lemma hybrid_init_batch_restores:
  assumes "hybrid_init_batch n_ubatch embd_all a h = Some (cx, a', h')"
  shows "mr_cells (hy_recr h') = mr_cells (hy_recr h) \<and> mr_head (hy_recr h') = mr_head (hy_recr h) \<and> mr_used (hy_recr h') = mr_used (hy_recr h)"
  using assms by (auto simp: hybrid_init_batch_def rs_prepare_def Let_def split: Option.bind_splits if_splits prod.splits)

section \<open>Properties of the sliding-window cache\<close>

text \<open>The assumption in \<^verbatim>\<open>seq_pos_min\<close>: the base cache holds everything the sliding-window cache holds.\<close>

definition iswa_ok :: "kv_cache_iswa \<Rightarrow> bool" where
  "iswa_ok c \<longleftrightarrow> kv_ok (ic_base c) \<and> kv_ok (ic_swa c) \<and> kc_seq_to_stream (ic_swa c) = kc_seq_to_stream (ic_base c) \<and>
     (\<forall>s. valid_seq (ic_base c) s \<longrightarrow> kv_positions (ic_swa c) s \<subseteq> kv_positions (ic_base c) s)"

lemma valid_seq_iswa: "iswa_ok c \<Longrightarrow> valid_seq (ic_swa c) s \<longleftrightarrow> valid_seq (ic_base c) s"
  by (simp add: iswa_ok_def valid_seq_def)

lemma iswa_seq_rm_ok:
  assumes ok: "iswa_ok c" and s: "valid_seq (ic_base c) s"
  shows "\<exists>c'. iswa_seq_rm s p0 p1 c = Some (True, c') \<and> iswa_ok c'"
proof -
  have kv: "kv_ok (ic_base c)" "kv_ok (ic_swa c)" using ok by (auto simp: iswa_ok_def)
  have s': "valid_seq (ic_swa c) s" using s valid_seq_iswa [OF ok] by simp
  obtain b where b: "kv_seq_rm s p0 p1 (ic_base c) = Some (True, b)" "kc_seq_to_stream b = kc_seq_to_stream (ic_base c)"
    using kv_seq_rm_one [OF kv(1) s] by blast
  obtain w where w: "kv_seq_rm s p0 p1 (ic_swa c) = Some (True, w)" "kc_seq_to_stream w = kc_seq_to_stream (ic_swa c)"
    using kv_seq_rm_one [OF kv(2) s'] by blast
  have "kv_ok b" and pb: "kv_positions b s = {p \<in> kv_positions (ic_base c) s. \<not> (clamp_p0 p0 \<le> p \<and> p < clamp_p1 p1)}"
    "\<And>t. valid_seq (ic_base c) t \<Longrightarrow> t \<noteq> s \<Longrightarrow> kv_positions b t = kv_positions (ic_base c) t"
    using kv_seq_rm_positions [OF kv(1) s, of p0 p1] b(1) by auto
  moreover have "kv_ok w" and pw: "kv_positions w s = {p \<in> kv_positions (ic_swa c) s. \<not> (clamp_p0 p0 \<le> p \<and> p < clamp_p1 p1)}"
    "\<And>t. valid_seq (ic_swa c) t \<Longrightarrow> t \<noteq> s \<Longrightarrow> kv_positions w t = kv_positions (ic_swa c) t"
    using kv_seq_rm_positions [OF kv(2) s', of p0 p1] w(1) by auto
  moreover have "kv_positions w t \<subseteq> kv_positions b t" if t: "valid_seq (ic_base c) t" for t
  proof -
    have "kv_positions (ic_swa c) t \<subseteq> kv_positions (ic_base c) t" using ok t by (simp add: iswa_ok_def)
    then show ?thesis using pb pw t valid_seq_iswa [OF ok] by (cases "t = s") auto
  qed
  ultimately have "iswa_ok (c\<lparr>ic_base := b, ic_swa := w\<rparr>)" using b(2) w(2) ok by (auto simp: iswa_ok_def valid_seq_def)
  then show ?thesis using b w by (simp add: iswa_seq_rm_def)
qed

text \<open>C34: The base cache stays a superset of the sliding-window cache, the reason its \<^verbatim>\<open>seq_pos_min\<close> asks only the latter: placing a micro-batch in the
  slots found for both caches, and \<^verbatim>\<open>seq_rm\<close>, keep every position of the sliding-window cache in the base cache, and then a smallest position reported
  for the pair is one the base cache has too.\<close>

theorem iswa_base_stays_superset:
  assumes "iswa_ok c" and "swa_ok (ic_swa c)" and "kc_swa_type (ic_base c) = SWA_NONE" and "valid_seq (ic_base c) s"
    and "ubatch_ok (ic_base c) u" and "runs_ok (ic_base c) u" and "ubatch_ok (ic_swa c) u" and "runs_ok (ic_swa c) u"
    and "find_slot (ic_base c) u False = Some sl0" and "\<not> slot_empty sl0" and "find_slot (ic_swa c) u False = Some sl1" and "\<not> slot_empty sl1"
  shows "(\<exists>b w. apply_ubatch sl0 u (ic_base c) = Some b \<and> apply_ubatch sl1 u (ic_swa c) = Some w \<and> iswa_ok (c\<lparr>ic_base := b, ic_swa := w\<rparr>)) \<and>
    (\<exists>c'. iswa_seq_rm s p0 p1 c = Some (True, c') \<and> iswa_ok c') \<and>
    (\<exists>p. iswa_seq_pos_min s c = Some p \<and> (p \<noteq> -1 \<longrightarrow> p \<in> kv_positions (ic_base c) s))"
proof (intro conjI)
  have kv: "kv_ok (ic_base c)" "kv_ok (ic_swa c)" using assms(1) by (auto simp: iswa_ok_def)
  have swb: "swa_ok (ic_base c)" using assms(3) by (simp add: swa_ok_def)
  note fb = slot_found [OF kv(1) swb assms(5,9,10)] and fw = slot_found [OF kv(2) assms(2,7,11,12)]
  obtain b where b: "apply_ubatch sl0 u (ic_base c) = Some b" "kv_ok b" "kc_seq_to_stream b = kc_seq_to_stream (ic_base c)"
    "\<forall>t. valid_seq (ic_base c) t \<longrightarrow> kv_positions b t = {p \<in> kv_positions (ic_base c) t \<union> new_positions u t. \<forall>q \<in> overwritten (ic_base c) sl0 t. q < p}"
    using apply_ubatch_places [OF kv(1) assms(5,6) fb] by blast
  obtain w where w: "apply_ubatch sl1 u (ic_swa c) = Some w" "kv_ok w" "kc_seq_to_stream w = kc_seq_to_stream (ic_swa c)"
    "\<forall>t. valid_seq (ic_swa c) t \<longrightarrow> kv_positions w t = {p \<in> kv_positions (ic_swa c) t \<union> new_positions u t. \<forall>q \<in> overwritten (ic_swa c) sl1 t. q < p}"
    using apply_ubatch_places [OF kv(2) assms(7,8) fw] by blast
  have "kv_positions w t \<subseteq> kv_positions b t" if t: "valid_seq (ic_base c) t" for t
  proof -
    have "kv_positions (ic_swa c) t \<subseteq> kv_positions (ic_base c) t" using assms(1) t by (simp add: iswa_ok_def)
    moreover have "kv_positions b t = kv_positions (ic_base c) t \<union> new_positions u t" using b(4) t overwritten_none [OF kv(1) assms(5,3) fb] by auto
    ultimately show ?thesis using w(4) t valid_seq_iswa [OF assms(1)] by auto
  qed
  then have "iswa_ok (c\<lparr>ic_base := b, ic_swa := w\<rparr>)" using b w assms(1) by (auto simp: iswa_ok_def valid_seq_def)
  then show "\<exists>b w. apply_ubatch sl0 u (ic_base c) = Some b \<and> apply_ubatch sl1 u (ic_swa c) = Some w \<and> iswa_ok (c\<lparr>ic_base := b, ic_swa := w\<rparr>)" using b(1) w(1) by blast
  show "\<exists>c'. iswa_seq_rm s p0 p1 c = Some (True, c') \<and> iswa_ok c'" by (rule iswa_seq_rm_ok [OF assms(1,4)])
  have v: "valid_seq (ic_swa c) s" using assms(4) valid_seq_iswa [OF assms(1)] by simp
  have "kv_positions (ic_swa c) s \<subseteq> kv_positions (ic_base c) s" using assms(1,4) by (simp add: iswa_ok_def)
  then have "kv_positions (ic_swa c) s \<noteq> {} \<Longrightarrow> Min (kv_positions (ic_swa c) s) \<in> kv_positions (ic_base c) s"
    using Min_in [OF kv_mem.positions_finite [OF kv(2) v]] by blast
  then show "\<exists>p. iswa_seq_pos_min s c = Some p \<and> (p \<noteq> -1 \<longrightarrow> p \<in> kv_positions (ic_base c) s)"
    using kv_mem.pos_min_law [OF kv(2) v] by (auto simp: iswa_seq_pos_min_def)
qed

theorem iswa_base_stays_superset_witness:
  "\<exists>c sl0 sl1 b w. iswa_ok c \<and> find_slot (ic_base c) demo_ubatch False = Some sl0 \<and> apply_ubatch sl0 demo_ubatch (ic_base c) = Some b \<and>
    apply_ubatch sl1 demo_ubatch (ic_swa c) = Some w \<and> iswa_ok (c\<lparr>ic_base := b, ic_swa := w\<rparr>)"
proof -
  obtain kv sl where d: "kv_ok kv" "swa_ok kv" "ubatch_ok kv demo_ubatch" "runs_ok kv demo_ubatch" "kc_swa_type kv = SWA_NONE"
    "find_slot kv demo_ubatch False = Some sl" "\<not> slot_empty sl" "valid_seq kv 0" using demo_slot by blast
  define c where "c = \<lparr>ic_unified = True, ic_base = kv, ic_swa = kv\<rparr>"
  have ok: "iswa_ok c" using d(1) by (simp add: iswa_ok_def c_def)
  have "swa_ok (ic_swa c)" "kc_swa_type (ic_base c) = SWA_NONE" "valid_seq (ic_base c) 0" "ubatch_ok (ic_base c) demo_ubatch" "runs_ok (ic_base c) demo_ubatch"
    "ubatch_ok (ic_swa c) demo_ubatch" "runs_ok (ic_swa c) demo_ubatch" and f: "find_slot (ic_base c) demo_ubatch False = Some sl" "\<not> slot_empty sl"
    "find_slot (ic_swa c) demo_ubatch False = Some sl" using d by (simp_all add: c_def)
  from iswa_base_stays_superset [OF ok this(1-7) f(1,2,3,2)] f(1) ok show ?thesis by blast
qed

end
