(* ===== verification/Grammar.thy ===== *)
theory Grammar
  imports Prelude
begin

text \<open>
  \<^verbatim>\<open>src/llama-grammar.{h,cpp}\<close>, the engine: grammar elements, the matching of characters and partial
  characters, the pushdown stacks and the rejection of candidate tokens. A pointer into the rules is a
  pair of a rule and an index; the top of a stack is the head of its list.
\<close>

section \<open>Rules and positions\<close>

datatype llama_gretype = GRE_END | GRE_ALT | GRE_RULE_REF | GRE_CHAR | GRE_CHAR_NOT | GRE_CHAR_RNG_UPPER
  | GRE_CHAR_ALT | GRE_CHAR_ANY

record grammar_element =
  ge_type :: llama_gretype
  ge_value :: u32

type_synonym grammar_rule = "grammar_element list"
type_synonym grammar_rules = "grammar_rule list"
type_synonym gpos = "nat \<times> nat"
type_synonym grammar_stack = "gpos list"

definition elem_at :: "grammar_rules \<Rightarrow> gpos \<Rightarrow> grammar_element option" where
  "elem_at rules p =
     (if fst p < length rules \<and> snd p < length (rules ! fst p) then Some (rules ! fst p ! snd p) else None)"

definition advance_pos :: "nat \<Rightarrow> gpos \<Rightarrow> gpos" where
  "advance_pos k p = (fst p, snd p + k)"

definition is_end_type :: "llama_gretype \<Rightarrow> bool" where
  "is_end_type t \<longleftrightarrow> t = GRE_END \<or> t = GRE_ALT"

definition is_end_of_sequence :: "grammar_rules \<Rightarrow> gpos \<Rightarrow> bool option" where
  "is_end_of_sequence rules p = map_option (\<lambda>e. is_end_type (ge_type e)) (elem_at rules p)"

definition is_positive_char :: "grammar_element \<Rightarrow> bool" where
  "is_positive_char e \<longleftrightarrow> ge_type e = GRE_CHAR \<or> ge_type e = GRE_CHAR_ANY"

section \<open>Matching a character\<close>

text \<open>The \<^verbatim>\<open>do\<close> loop over the ranges of a character element: whether one matches, and the elements passed.\<close>

fun match_alts :: "u32 \<Rightarrow> bool \<Rightarrow> nat \<Rightarrow> grammar_element list \<Rightarrow> (bool \<times> nat) option" where
  "match_alts chr found k (e # f # es) =
     (if ge_type f = GRE_CHAR_RNG_UPPER then
        (let found = (found \<or> ge_value e \<le> chr \<and> chr \<le> ge_value f) in
         case es of
           [] \<Rightarrow> None
         | g # _ \<Rightarrow> if ge_type g = GRE_CHAR_ALT then match_alts chr found (k + 2) es else Some (found, k + 2))
      else
        (let found = (if ge_type e = GRE_CHAR_ANY then True else found \<or> ge_value e = chr) in
         if ge_type f = GRE_CHAR_ALT then match_alts chr found (k + 1) (f # es) else Some (found, k + 1)))"
| "match_alts chr found k _ = None"

definition llama_grammar_match_char :: "grammar_rules \<Rightarrow> gpos \<Rightarrow> u32 \<Rightarrow> (bool \<times> gpos) option" where
  "llama_grammar_match_char rules p chr = do {
     e \<leftarrow> elem_at rules p;
     assert_opt (is_positive_char e \<or> ge_type e = GRE_CHAR_NOT);
     (found, k) \<leftarrow> match_alts chr False 0 (drop (snd p) (rules ! fst p));
     Some (found = is_positive_char e, advance_pos k p) }"

record partial_utf8 =
  pu_value :: u32
  pu_n_remain :: int

fun partial_alts :: "u32 \<Rightarrow> u32 \<Rightarrow> bool \<Rightarrow> grammar_element list \<Rightarrow> bool option" where
  "partial_alts low high positive (e # f # es) =
     (if ge_type f = GRE_CHAR_RNG_UPPER then
        (if ge_value e \<le> high \<and> low \<le> ge_value f then Some positive
         else case es of
           [] \<Rightarrow> None
         | g # _ \<Rightarrow> if ge_type g = GRE_CHAR_ALT then partial_alts low high positive es else Some (\<not> positive))
      else if ge_type e = GRE_CHAR_ANY then Some True
      else if low \<le> ge_value e \<and> ge_value e \<le> high then Some positive
      else if ge_type f = GRE_CHAR_ALT then partial_alts low high positive (f # es)
      else Some (\<not> positive))"
| "partial_alts low high positive _ = None"

text \<open>The code points that the missing bytes could complete to.\<close>

definition partial_range :: "partial_utf8 \<Rightarrow> u32 \<times> u32" where
  "partial_range pu =
     (let n = nat (pu_n_remain pu);
          low = push_bit (n * 6) (pu_value pu);
          high = low OR (push_bit (n * 6) 1 - 1);
          low = (if low = 0 then if n = 2 then push_bit 11 1 else if n = 3 then push_bit 16 1 else low else low)
      in (low, high))"

definition llama_grammar_match_partial_char :: "grammar_rules \<Rightarrow> gpos \<Rightarrow> partial_utf8 \<Rightarrow> bool option" where
  "llama_grammar_match_partial_char rules p pu = do {
     e \<leftarrow> elem_at rules p;
     assert_opt (is_positive_char e \<or> ge_type e = GRE_CHAR_NOT);
     if pu_n_remain pu < 0 \<or> (pu_n_remain pu = 1 \<and> pu_value pu < 2) then Some False
     else (let (low, high) = partial_range pu in
           partial_alts low high (is_positive_char e) (drop (snd p) (rules ! fst p))) }"

section \<open>Advancing a stack\<close>

text \<open>The starts of the alternates of a rule: scan to the end of each definition.\<close>

fun alternates :: "nat \<Rightarrow> nat \<Rightarrow> grammar_element list \<Rightarrow> nat list option" where
  "alternates start i [] = None"
| "alternates start i (e # es) =
     (if ge_type e = GRE_END then Some [start]
      else if ge_type e = GRE_ALT then map_option ((#) start) (alternates (Suc i) (Suc i) es)
      else alternates start (Suc i) es)"

definition add_new :: "grammar_stack \<Rightarrow> grammar_stack list \<Rightarrow> grammar_stack list" where
  "add_new s ss = (if s \<in> set ss then ss else ss @ [s])"

text \<open>Push a position unless it is the end of its sequence.\<close>

definition push_pos :: "grammar_rules \<Rightarrow> gpos \<Rightarrow> grammar_stack \<Rightarrow> grammar_stack option" where
  "push_pos rules p st = map_option (\<lambda>b. if b then st else p # st) (is_end_of_sequence rules p)"

text \<open>The recursion need not end on a left-recursive grammar: the first argument bounds its depth.\<close>

fun llama_grammar_advance_stack :: "nat \<Rightarrow> grammar_rules \<Rightarrow> grammar_stack \<Rightarrow> grammar_stack list \<Rightarrow>
    grammar_stack list option" where
  "llama_grammar_advance_stack 0 rules st new = None"
| "llama_grammar_advance_stack (Suc n) rules [] new = Some (add_new [] new)"
| "llama_grammar_advance_stack (Suc n) rules (p # st) new = do {
     e \<leftarrow> elem_at rules p;
     case ge_type e of
       GRE_RULE_REF \<Rightarrow> do {
         let r = unat (ge_value e);
         assert_opt (r < length rules);
         starts \<leftarrow> alternates 0 0 (rules ! r);
         foldM (\<lambda>i new. do {
             s1 \<leftarrow> push_pos rules (advance_pos 1 p) st;
             s2 \<leftarrow> push_pos rules (r, i) s1;
             llama_grammar_advance_stack n rules s2 new }) starts new }
     | GRE_CHAR \<Rightarrow> Some (add_new (p # st) new)
     | GRE_CHAR_NOT \<Rightarrow> Some (add_new (p # st) new)
     | GRE_CHAR_ANY \<Rightarrow> Some (add_new (p # st) new)
     | _ \<Rightarrow> None }"

definition accept_stack :: "nat \<Rightarrow> grammar_rules \<Rightarrow> u32 \<Rightarrow> grammar_stack \<Rightarrow> grammar_stack list \<Rightarrow>
    grammar_stack list option" where
  "accept_stack n rules chr st new =
     (case st of
        [] \<Rightarrow> Some new
      | p # st' \<Rightarrow> do {
          (ok, q) \<leftarrow> llama_grammar_match_char rules p chr;
          if \<not> ok then Some new
          else do {
            s \<leftarrow> push_pos rules q st';
            llama_grammar_advance_stack n rules s new } })"

definition llama_grammar_accept :: "nat \<Rightarrow> grammar_rules \<Rightarrow> u32 \<Rightarrow> grammar_stack list \<Rightarrow> grammar_stack list option" where
  "llama_grammar_accept n rules chr stacks = foldM (accept_stack n rules chr) stacks []"

text \<open>The initial stacks: the alternates of the start rule.\<close>

definition initial_stacks :: "nat \<Rightarrow> grammar_rules \<Rightarrow> nat \<Rightarrow> grammar_stack list option" where
  "initial_stacks n rules r = do {
     assert_opt (r < length rules);
     starts \<leftarrow> alternates 0 0 (rules ! r);
     foldM (\<lambda>i new. do {
         s \<leftarrow> push_pos rules (r, i) [];
         llama_grammar_advance_stack n rules s new }) starts [] }"

section \<open>Rejecting candidates\<close>

text \<open>\<^verbatim>\<open>code_points\<close> points into a zero-terminated array: the array and the offset.\<close>

record grammar_candidate =
  gc_index :: nat
  gc_code_points :: "u32 list"
  gc_off :: nat
  gc_partial :: partial_utf8

definition cur_point :: "grammar_candidate \<Rightarrow> u32 option" where
  "cur_point tok =
     (if gc_off tok < length (gc_code_points tok) then Some (gc_code_points tok ! gc_off tok) else None)"

text \<open>The loop over the candidates: rejected here, or still to be matched.\<close>

definition classify :: "grammar_rules \<Rightarrow> gpos \<Rightarrow> grammar_candidate \<Rightarrow>
    grammar_candidate list \<times> grammar_candidate list \<Rightarrow> (grammar_candidate list \<times> grammar_candidate list) option" where
  "classify rules p tok = (\<lambda>(rejects, nxt). do {
     c \<leftarrow> cur_point tok;
     if c = 0 then
       if pu_n_remain (gc_partial tok) \<noteq> 0 then do {
         m \<leftarrow> llama_grammar_match_partial_char rules p (gc_partial tok);
         Some (if \<not> m then rejects @ [tok] else rejects, nxt) }
       else Some (rejects, nxt)
     else do {
       (ok, _) \<leftarrow> llama_grammar_match_char rules p c;
       Some (if ok then (rejects, nxt @ [tok\<lparr>gc_off := gc_off tok + 1\<rparr>]) else (rejects @ [tok], nxt)) } })"

fun reject_at_end :: "grammar_candidate list \<Rightarrow> grammar_candidate list option" where
  "reject_at_end [] = Some []"
| "reject_at_end (tok # toks) = do {
     c \<leftarrow> cur_point tok;
     rest \<leftarrow> reject_at_end toks;
     Some (if c \<noteq> 0 \<or> pu_n_remain (gc_partial tok) \<noteq> 0 then tok # rest else rest) }"

definition reject_stacks :: "(grammar_stack \<Rightarrow> grammar_candidate list \<Rightarrow> grammar_candidate list option) \<Rightarrow>
    grammar_stack list \<Rightarrow> grammar_candidate list \<Rightarrow> grammar_candidate list option" where
  "reject_stacks f stacks cands = do {
     assert_opt (stacks \<noteq> []);
     if cands = [] then Some [] else foldM f stacks cands }"

text \<open>\<open>n\<close> bounds the depth of \<^verbatim>\<open>advance_stack\<close>, the second argument the number of code points followed.\<close>

fun llama_grammar_reject_candidates_for_stack :: "nat \<Rightarrow> nat \<Rightarrow> grammar_rules \<Rightarrow> grammar_stack \<Rightarrow>
    grammar_candidate list \<Rightarrow> grammar_candidate list option" where
  "llama_grammar_reject_candidates_for_stack n 0 rules st cands = None"
| "llama_grammar_reject_candidates_for_stack n (Suc d) rules [] cands = reject_at_end cands"
| "llama_grammar_reject_candidates_for_stack n (Suc d) rules (p # st) cands = do {
     (rejects, nxt) \<leftarrow> foldM (classify rules p) cands ([], []);
     (_, q) \<leftarrow> llama_grammar_match_char rules p 0;
     st_after \<leftarrow> push_pos rules q st;
     next_stacks \<leftarrow> llama_grammar_advance_stack n rules st_after [];
     next_rejects \<leftarrow> reject_stacks (\<lambda>s c. llama_grammar_reject_candidates_for_stack n d rules s c) next_stacks nxt;
     Some (rejects @ map (\<lambda>tok. tok\<lparr>gc_off := gc_off tok - 1\<rparr>) next_rejects) }"

definition llama_grammar_reject_candidates :: "nat \<Rightarrow> nat \<Rightarrow> grammar_rules \<Rightarrow> grammar_stack list \<Rightarrow>
    grammar_candidate list \<Rightarrow> grammar_candidate list option" where
  "llama_grammar_reject_candidates n d rules stacks cands =
     reject_stacks (\<lambda>s c. llama_grammar_reject_candidates_for_stack n d rules s c) stacks cands"

section \<open>Left recursion\<close>

text \<open>The flags \<^verbatim>\<open>rules_in_progress\<close>, \<^verbatim>\<open>rules_visited\<close> and \<^verbatim>\<open>rules_may_be_empty\<close>.\<close>

record rec_state =
  rs_visited :: "bool list"
  rs_in_progress :: "bool list"
  rs_may_be_empty :: "bool list"

text \<open>The first loop: an alternate that is empty right away.\<close>

fun has_empty_alt :: "bool \<Rightarrow> grammar_element list \<Rightarrow> bool" where
  "has_empty_alt at_start [] = False"
| "has_empty_alt at_start (e # es) =
     (if is_end_type (ge_type e) then at_start \<or> has_empty_alt True es else has_empty_alt False es)"

text \<open>The second loop, over the elements of the rule; \<open>f\<close> is the recursive call.\<close>

fun scan_rule :: "(nat \<Rightarrow> rec_state \<Rightarrow> (bool \<times> rec_state) option) \<Rightarrow> bool \<Rightarrow> grammar_element list \<Rightarrow> rec_state \<Rightarrow>
    (bool \<times> rec_state) option" where
  "scan_rule f recurse [] rs = Some (False, rs)"
| "scan_rule f recurse (e # es) rs =
     (if ge_type e = GRE_RULE_REF \<and> recurse then do {
        let r = unat (ge_value e);
        (found, rs) \<leftarrow> f r rs;
        if found then Some (True, rs)
        else do {
          assert_opt (r < length (rs_may_be_empty rs));
          scan_rule f (rs_may_be_empty rs ! r) es rs } }
      else if is_end_type (ge_type e) then scan_rule f True es rs
      else scan_rule f False es rs)"

text \<open>The recursion follows rules that are not in progress, so its depth is bounded by their number.\<close>

fun detect_left_recursion :: "nat \<Rightarrow> grammar_rules \<Rightarrow> nat \<Rightarrow> rec_state \<Rightarrow> (bool \<times> rec_state) option" where
  "detect_left_recursion 0 rules r rs = None"
| "detect_left_recursion (Suc n) rules r rs = do {
     assert_opt (r < length (rs_in_progress rs) \<and> r < length rules);
     if rs_in_progress rs ! r then Some (True, rs)
     else do {
       let rs = rs\<lparr>rs_in_progress := (rs_in_progress rs)[r := True]\<rparr>;
       let rs = (if has_empty_alt True (rules ! r) then rs\<lparr>rs_may_be_empty := (rs_may_be_empty rs)[r := True]\<rparr> else rs);
       (found, rs) \<leftarrow> scan_rule (\<lambda>r rs. detect_left_recursion n rules r rs) True (rules ! r) rs;
       if found then Some (True, rs)
       else Some (False, rs\<lparr>rs_in_progress := (rs_in_progress rs)[r := False],
                            rs_visited := (rs_visited rs)[r := True]\<rparr>) } }"

definition detect_step :: "nat \<Rightarrow> grammar_rules \<Rightarrow> nat \<Rightarrow> bool \<times> rec_state \<Rightarrow> (bool \<times> rec_state) option" where
  "detect_step n rules i = (\<lambda>(found, rs).
     if found \<or> rs_visited rs ! i then Some (found, rs) else detect_left_recursion n rules i rs)"

text \<open>The loop of the constructors over all rules; the depth is the number of rules and one.\<close>

definition has_left_recursion :: "grammar_rules \<Rightarrow> bool option" where
  "has_left_recursion rules = do {
     let k = length rules;
     (found, _) \<leftarrow> foldM (detect_step (Suc k) rules) [0..<k]
       (False, \<lparr>rs_visited = replicate k False, rs_in_progress = replicate k False, rs_may_be_empty = replicate k False\<rparr>);
     Some found }"

text \<open>The first constructor without the vocabulary: \<open>Some None\<close> is the null pointer of a refused grammar.\<close>

definition truncate_rule :: "grammar_element list \<Rightarrow> grammar_rule" where
  "truncate_rule es = takeWhile (\<lambda>e. ge_type e \<noteq> GRE_END) es @ [\<lparr>ge_type = GRE_END, ge_value = 0\<rparr>]"

definition init_stacks :: "nat \<Rightarrow> grammar_element list list \<Rightarrow> nat \<Rightarrow> (grammar_rules \<times> grammar_stack list) option option" where
  "init_stacks n rules start = do {
     assert_opt (\<forall>es \<in> set rules. \<exists>e \<in> set es. ge_type e = GRE_END);
     let vec_rules = map truncate_rule rules;
     found \<leftarrow> has_left_recursion vec_rules;
     if found then Some None
     else do {
       stacks \<leftarrow> initial_stacks n vec_rules start;
       Some (Some (vec_rules, stacks)) } }"

end
