(* ===== verification/GrammarLang.thy ===== *)
theory GrammarLang
  imports Grammar
begin

text \<open>
  What the pushdown stacks mean: the language of a grammar, the moves of the machine, and the proof
  that \<^verbatim>\<open>advance_stack\<close> computes the closure under rule expansion, \<^verbatim>\<open>accept\<close> one step of the machine
  and \<^verbatim>\<open>reject_candidates\<close> the tokens that no run can consume.
\<close>

section \<open>The language of a grammar\<close>

definition rule_start :: "grammar_rules \<Rightarrow> nat \<Rightarrow> nat \<Rightarrow> bool" where
  "rule_start rules r i \<longleftrightarrow> r < length rules \<and> (\<exists>is. alternates 0 0 (rules ! r) = Some is \<and> i \<in> set is)"

text \<open>\<open>seq_lang rules p w\<close>: the sequence from position \<open>p\<close> to the end of its alternate derives \<open>w\<close>.\<close>

inductive seq_lang :: "grammar_rules \<Rightarrow> gpos \<Rightarrow> u32 list \<Rightarrow> bool" for rules where
  seq_end: "is_end_of_sequence rules p = Some True \<Longrightarrow> seq_lang rules p []"
| seq_char: "llama_grammar_match_char rules p c = Some (True, q) \<Longrightarrow> seq_lang rules q w \<Longrightarrow> seq_lang rules p (c # w)"
| seq_ref: "elem_at rules p = Some e \<Longrightarrow> ge_type e = GRE_RULE_REF \<Longrightarrow> rule_start rules (unat (ge_value e)) i \<Longrightarrow>
    seq_lang rules (unat (ge_value e), i) u \<Longrightarrow> seq_lang rules (advance_pos 1 p) v \<Longrightarrow> seq_lang rules p (u @ v)"

definition rule_lang :: "grammar_rules \<Rightarrow> nat \<Rightarrow> u32 list \<Rightarrow> bool" where
  "rule_lang rules r w \<longleftrightarrow> (\<exists>i. rule_start rules r i \<and> seq_lang rules (r, i) w)"

fun stack_lang :: "grammar_rules \<Rightarrow> grammar_stack \<Rightarrow> u32 list \<Rightarrow> bool" where
  "stack_lang rules [] w \<longleftrightarrow> w = []"
| "stack_lang rules (p # st) w \<longleftrightarrow> (\<exists>u v. w = u @ v \<and> seq_lang rules p u \<and> stack_lang rules st v)"

section \<open>The machine\<close>

text \<open>A rule reference is replaced by an alternate of the rule; a character element consumes a character.\<close>

inductive expand :: "grammar_rules \<Rightarrow> grammar_stack \<Rightarrow> grammar_stack \<Rightarrow> bool" for rules where
  expandI: "elem_at rules p = Some e \<Longrightarrow> ge_type e = GRE_RULE_REF \<Longrightarrow> rule_start rules (unat (ge_value e)) i \<Longrightarrow>
    push_pos rules (advance_pos 1 p) st = Some s1 \<Longrightarrow> push_pos rules (unat (ge_value e), i) s1 = Some s2 \<Longrightarrow>
    expand rules (p # st) s2"

inductive shift :: "grammar_rules \<Rightarrow> u32 \<Rightarrow> grammar_stack \<Rightarrow> grammar_stack \<Rightarrow> bool" for rules where
  shiftI: "llama_grammar_match_char rules p c = Some (True, q) \<Longrightarrow> push_pos rules q st = Some s \<Longrightarrow>
    shift rules c (p # st) s"

inductive_cases expand_NilE [elim!]: "expand rules [] s"
inductive_cases expand_ConsE [elim]: "expand rules (p # st) s"
inductive_simps shift_simps: "shift rules c (p # st) s"

text \<open>A stack at rest is empty or has a character element on top.\<close>

definition char_pos :: "grammar_rules \<Rightarrow> gpos \<Rightarrow> bool" where
  "char_pos rules p \<longleftrightarrow> (\<exists>e. elem_at rules p = Some e \<and> ge_type e \<in> {GRE_CHAR, GRE_CHAR_NOT, GRE_CHAR_ANY})"

definition at_rest :: "grammar_rules \<Rightarrow> grammar_stack \<Rightarrow> bool" where
  "at_rest rules st \<longleftrightarrow> (case st of [] \<Rightarrow> True | p # _ \<Rightarrow> char_pos rules p)"

inductive runs :: "grammar_rules \<Rightarrow> grammar_stack \<Rightarrow> u32 list \<Rightarrow> grammar_stack \<Rightarrow> bool" for rules where
  runs_refl: "runs rules st [] st"
| runs_expand: "expand rules st s \<Longrightarrow> runs rules s w t \<Longrightarrow> runs rules st w t"
| runs_shift: "shift rules c st s \<Longrightarrow> runs rules s w t \<Longrightarrow> runs rules st (c # w) t"

definition closure :: "grammar_rules \<Rightarrow> grammar_stack \<Rightarrow> grammar_stack set" where
  "closure rules st = {s. runs rules st [] s \<and> at_rest rules s}"

lemma match_char_char_pos: "llama_grammar_match_char rules p c = Some r \<Longrightarrow> char_pos rules p"
  by (auto simp: llama_grammar_match_char_def char_pos_def is_positive_char_def split: Option.bind_splits if_splits)

lemma expand_not_rest: "expand rules st s \<Longrightarrow> \<not> at_rest rules st"
  by (auto simp: at_rest_def char_pos_def elim!: expand.cases)

lemma shift_rest: "shift rules c st s \<Longrightarrow> at_rest rules st"
  by (auto simp: at_rest_def dest: match_char_char_pos elim!: shift.cases)

lemma runs_trans: "runs rules st w s \<Longrightarrow> runs rules s v t \<Longrightarrow> runs rules st (w @ v) t"
  by (induction rule: runs.induct) (auto intro: runs.intros)

text \<open>The next consumed character leaves from a stack at rest.\<close>

lemma runs_split:
  "runs rules st w t \<Longrightarrow> at_rest rules t \<Longrightarrow>
   (w = [] \<and> t \<in> closure rules st) \<or> (\<exists>c v s s'. w = c # v \<and> s \<in> closure rules st \<and> shift rules c s s' \<and> runs rules s' v t)"
proof (induction rule: runs.induct)
  case (runs_expand st s w t)
  then show ?case by (fastforce simp: closure_def intro: runs.runs_expand)
next
  case (runs_shift c st s w t)
  then show ?case using shift_rest by (fastforce simp: closure_def intro: runs.runs_refl)
qed (simp add: closure_def runs_refl)

lemma runs_via_closure:
  assumes "runs rules st w t" and "at_rest rules t"
  obtains s where "s \<in> closure rules st" "runs rules s w t"
  using runs_split [OF assms] assms(2) that by (blast intro: runs_refl runs_shift)

section \<open>Advancing computes the closure\<close>

lemma closure_rest: "at_rest rules st \<Longrightarrow> closure rules st = {st}"
proof -
  assume rest: "at_rest rules st"
  have "s = st" if "runs rules st w s" "w = []" for w s
    using that rest by (induction rule: runs.induct) (auto dest: expand_not_rest)
  then show ?thesis using rest by (auto simp: closure_def intro: runs_refl)
qed

lemma closure_expand:
  assumes "\<not> at_rest rules st"
  shows "closure rules st = (\<Union>s \<in> {s. expand rules st s}. closure rules s)"
proof -
  have "\<exists>s'. expand rules st s' \<and> runs rules s' [] s" if "runs rules st w s" "w = []" "at_rest rules s" for w s
    using that assms by (cases rule: runs.cases) auto
  then show ?thesis by (fastforce simp: closure_def intro: runs_expand)
qed

lemma set_add_new [simp]: "set (add_new s ss) = insert s (set ss)"
  by (auto simp: add_new_def)

lemma foldM_union:
  assumes "foldM f xs new = Some res" and "\<And>x new res. x \<in> set xs \<Longrightarrow> f x new = Some res \<Longrightarrow> set res = set new \<union> F x"
  shows "set res = set new \<union> (\<Union>x \<in> set xs. F x)"
  using assms
proof (induction xs arbitrary: new)
  case (Cons x xs)
  from Cons.prems(1) obtain mid where mid: "f x new = Some mid" "foldM f xs mid = Some res" by (auto split: option.splits)
  have "set res = set mid \<union> (\<Union>x \<in> set xs. F x)" using Cons.IH [OF mid(2)] Cons.prems(2) by auto
  then show ?case using Cons.prems(2) [OF _ mid(1)] by auto
qed simp

lemma advance_stack_closure:
  "llama_grammar_advance_stack n rules st new = Some res \<Longrightarrow> set res = set new \<union> closure rules st"
proof (induction n arbitrary: st new res)
  case (Suc n)
  show ?case
  proof (cases st)
    case Nil
    then have "res = add_new [] new" "closure rules st = {[]}" using Suc.prems closure_rest [of rules "[]"] by (simp_all add: at_rest_def)
    then show ?thesis by simp
  next
    case (Cons p st')
    then obtain e where e: "elem_at rules p = Some e" using Suc.prems by (auto split: Option.bind_splits)
    show ?thesis
    proof (cases "ge_type e = GRE_RULE_REF")
      case False
      then have "ge_type e \<in> {GRE_CHAR, GRE_CHAR_NOT, GRE_CHAR_ANY}" and res: "res = add_new (p # st') new"
        using Suc.prems Cons e by (cases "ge_type e"; simp)+
      then have "at_rest rules (p # st')" using e by (simp add: at_rest_def char_pos_def)
      then show ?thesis using res Cons by (auto simp: closure_rest)
    next
      case True
      let ?r = "unat (ge_value e)"
      let ?f = "\<lambda>i new. do {
             s1 \<leftarrow> push_pos rules (advance_pos 1 p) st';
             s2 \<leftarrow> push_pos rules (?r, i) s1;
             llama_grammar_advance_stack n rules s2 new }"
      from Suc.prems True Cons e obtain starts where r: "?r < length rules" and starts: "alternates 0 0 (rules ! ?r) = Some starts"
        and loop: "foldM ?f starts new = Some res" by (auto simp: Let_def split: Option.bind_splits if_splits)
      define F where "F i = (\<Union>s2 \<in> {s2. \<exists>s1. push_pos rules (advance_pos 1 p) st' = Some s1 \<and>
         push_pos rules (?r, i) s1 = Some s2}. closure rules s2)" for i
      have "set res = set new \<union> (\<Union>i \<in> set starts. F i)"
        using loop by (rule foldM_union) (auto simp: F_def split: Option.bind_splits dest: Suc.IH)
      moreover have "\<not> at_rest rules (p # st')" using e True by (simp add: at_rest_def char_pos_def)
      then have "closure rules (p # st') = (\<Union>s \<in> {s. expand rules (p # st') s}. closure rules s)" by (rule closure_expand)
      moreover have "{s. expand rules (p # st') s} = (\<Union>i \<in> set starts. {s2. \<exists>s1. push_pos rules (advance_pos 1 p) st' = Some s1 \<and>
         push_pos rules (?r, i) s1 = Some s2})"
        using r starts e True by (auto simp: rule_start_def intro: expandI elim!: expand_ConsE)
      ultimately show ?thesis using Cons by (auto simp: F_def)
    qed
  qed
qed simp

section \<open>Accepting a character is one step\<close>

text \<open>The stacks at rest after one character.\<close>

definition step_set :: "grammar_rules \<Rightarrow> u32 \<Rightarrow> grammar_stack set \<Rightarrow> grammar_stack set" where
  "step_set rules c S = (\<Union>st \<in> S. \<Union>s \<in> {s. shift rules c st s}. closure rules s)"

lemma accept_stack_step:
  assumes "accept_stack n rules c st new = Some res"
  shows "set res = set new \<union> step_set rules c {st}"
proof (cases st)
  case Nil
  then show ?thesis using assms by (auto simp: accept_stack_def step_set_def elim: shift.cases)
next
  case (Cons p st')
  obtain ok q where m: "llama_grammar_match_char rules p c = Some (ok, q)"
    using assms Cons by (auto simp: accept_stack_def split: Option.bind_splits)
  show ?thesis
  proof (cases ok)
    case True
    then obtain s where s: "push_pos rules q st' = Some s" "llama_grammar_advance_stack n rules s new = Some res"
      using assms Cons m by (auto simp: accept_stack_def split: Option.bind_splits)
    have "{s. shift rules c (p # st') s} = {s}" using m True s(1) by (cases q) (auto simp: shift_simps)
    then show ?thesis using advance_stack_closure [OF s(2)] Cons by (simp add: step_set_def)
  next
    case False
    then show ?thesis using assms Cons m by (auto simp: accept_stack_def step_set_def shift_simps)
  qed
qed

lemma accept_step_set:
  assumes "llama_grammar_accept n rules c stacks = Some res"
  shows "set res = step_set rules c (set stacks)"
proof -
  have "set res = set [] \<union> (\<Union>st \<in> set stacks. step_set rules c {st})"
    using assms unfolding llama_grammar_accept_def by (rule foldM_union) (rule accept_stack_step)
  then show ?thesis by (simp add: step_set_def)
qed

text \<open>Feeding a word.\<close>

definition accept_word :: "nat \<Rightarrow> grammar_rules \<Rightarrow> u32 list \<Rightarrow> grammar_stack list \<Rightarrow> grammar_stack list option" where
  "accept_word n rules w stacks = foldM (llama_grammar_accept n rules) w stacks"

lemma closure_runs: "s \<in> closure rules st \<Longrightarrow> runs rules s w t \<Longrightarrow> runs rules st w t"
  using runs_trans [of rules st "[]" s w t] by (simp add: closure_def)

lemma accept_word_runs:
  assumes "accept_word n rules w stacks = Some res" and "\<forall>st \<in> set stacks. at_rest rules st"
  shows "set res = {t. at_rest rules t \<and> (\<exists>st \<in> set stacks. runs rules st w t)}"
  using assms
proof (induction w arbitrary: stacks)
  case Nil
  have "runs rules st [] t \<longleftrightarrow> t = st" if "at_rest rules st" "at_rest rules t" for st t
    using closure_rest [OF that(1)] that(2) by (auto simp: closure_def)
  then show ?case using Nil by (auto simp: accept_word_def)
next
  case (Cons c w)
  from Cons.prems(1) obtain mid where mid: "llama_grammar_accept n rules c stacks = Some mid" "accept_word n rules w mid = Some res"
    by (auto simp: accept_word_def split: option.splits)
  note step = accept_step_set [OF mid(1)]
  have rest: "\<forall>st \<in> set mid. at_rest rules st" unfolding step by (auto simp: step_set_def closure_def)
  have "(\<exists>s \<in> set mid. runs rules s w t) \<longleftrightarrow> (\<exists>st \<in> set stacks. runs rules st (c # w) t)" if t: "at_rest rules t" for t
  proof
    assume "\<exists>s \<in> set mid. runs rules s w t"
    then obtain st s0 s where "st \<in> set stacks" "shift rules c st s0" "s \<in> closure rules s0" "runs rules s w t"
      unfolding step step_set_def by blast
    then show "\<exists>st \<in> set stacks. runs rules st (c # w) t" by (blast intro: runs_shift closure_runs)
  next
    assume "\<exists>st \<in> set stacks. runs rules st (c # w) t"
    then obtain st where st: "st \<in> set stacks" "runs rules st (c # w) t" by blast
    then obtain s0 where s0: "shift rules c st s0" "runs rules s0 w t"
      using runs_split [OF st(2) t] closure_rest Cons.prems(2) by fastforce
    obtain s where s: "s \<in> closure rules s0" "runs rules s w t" using runs_via_closure [OF s0(2) t] .
    then show "\<exists>s \<in> set mid. runs rules s w t" unfolding step step_set_def using st(1) s0(1) by blast
  qed
  then show ?case using Cons.IH [OF mid(2) rest] by auto
qed

section \<open>Runs and the language\<close>

lemma push_pos_lang:
  assumes "push_pos rules p st = Some s"
  shows "stack_lang rules s w \<longleftrightarrow> (\<exists>u v. w = u @ v \<and> seq_lang rules p u \<and> stack_lang rules st v)"
proof (cases "is_end_of_sequence rules p")
  case (Some b)
  show ?thesis
  proof (cases b)
    case True
    have "seq_lang rules p u \<longleftrightarrow> u = []" for u
    proof
      assume "seq_lang rules p u"
      then show "u = []"
        using Some True
        by cases (auto simp: is_end_of_sequence_def is_end_type_def char_pos_def dest!: match_char_char_pos)
    qed (use Some True in \<open>simp add: seq_end\<close>)
    then show ?thesis using assms Some True by (simp add: push_pos_def)
  next
    case False
    then have "s = p # st" using assms Some by (simp add: push_pos_def)
    then show ?thesis by simp
  qed
qed (use assms in \<open>simp add: push_pos_def\<close>)

lemma runs_stack_lang: "runs rules st w t \<Longrightarrow> t = [] \<Longrightarrow> stack_lang rules st w"
proof (induction rule: runs.induct)
  case (runs_expand st s w t)
  from runs_expand.hyps(1) show ?case
  proof cases
    case (expandI p e i st' s1)
    have "stack_lang rules s w" using runs_expand by simp
    then obtain u v where w: "w = u @ v" "seq_lang rules (unat (ge_value e), i) u" "stack_lang rules s1 v"
      unfolding push_pos_lang [OF expandI(6)] by blast
    then obtain v1 v2 where v: "v = v1 @ v2" "seq_lang rules (advance_pos 1 p) v1" "stack_lang rules st' v2"
      unfolding push_pos_lang [OF expandI(5)] by blast
    have "seq_lang rules p (u @ v1)" using seq_ref [OF expandI(2-4) w(2) v(2)] .
    moreover have "w = (u @ v1) @ v2" using w(1) v(1) by simp
    ultimately show ?thesis unfolding expandI(1) stack_lang.simps using v(3) by blast
  qed
next
  case (runs_shift c st s w t)
  from runs_shift.hyps(1) show ?case
  proof cases
    case (shiftI p q st')
    have "stack_lang rules s w" using runs_shift by simp
    then obtain u v where "w = u @ v" "seq_lang rules q u" "stack_lang rules st' v"
      unfolding push_pos_lang [OF shiftI(3)] by blast
    moreover from this have "c # w = (c # u) @ v" "seq_lang rules p (c # u)" using seq_char [OF shiftI(2)] by auto
    ultimately show ?thesis unfolding shiftI(1) stack_lang.simps by blast
  qed
qed simp

lemma not_end_push:
  "elem_at rules p = Some e \<Longrightarrow> \<not> is_end_type (ge_type e) \<Longrightarrow> push_pos rules p st = Some (p # st)"
  by (simp add: push_pos_def is_end_of_sequence_def)

lemma char_pos_push: "char_pos rules p \<Longrightarrow> push_pos rules p st = Some (p # st)"
  by (auto simp: char_pos_def is_end_type_def intro: not_end_push)

lemma seq_lang_runs: "seq_lang rules p u \<Longrightarrow> \<exists>s. push_pos rules p st = Some s \<and> runs rules s u st"
proof (induction arbitrary: st rule: seq_lang.induct)
  case (seq_end p)
  then show ?case by (auto simp: push_pos_def intro: runs_refl)
next
  case (seq_char p c q w)
  from seq_char.IH [of st] obtain s where "push_pos rules q st = Some s" "runs rules s w st" by blast
  then show ?case using seq_char.hyps(1) char_pos_push [OF match_char_char_pos]
    by (blast intro: runs_shift shiftI)
next
  case (seq_ref p e i u v)
  from seq_ref.IH(2) [of st] obtain s1 where s1: "push_pos rules (advance_pos 1 p) st = Some s1" "runs rules s1 v st" by blast
  from seq_ref.IH(1) [of s1] obtain s2 where s2: "push_pos rules (unat (ge_value e), i) s1 = Some s2" "runs rules s2 u s1" by blast
  have "push_pos rules p st = Some (p # st)" using seq_ref.hyps(1,2) by (intro not_end_push) (auto simp: is_end_type_def)
  moreover have "runs rules (p # st) (u @ v) st"
    using expandI [OF seq_ref.hyps(1-3) s1(1) s2(1)] runs_trans [OF s2(2) s1(2)] by (rule runs_expand)
  ultimately show ?case by blast
qed

lemma initial_stacks_set:
  assumes "initial_stacks n rules r = Some s0"
  shows "set s0 = (\<Union>s \<in> {s. \<exists>i. rule_start rules r i \<and> push_pos rules (r, i) [] = Some s}. closure rules s)"
proof -
  obtain starts where starts: "r < length rules" "alternates 0 0 (rules ! r) = Some starts"
    and loop: "foldM (\<lambda>i new. do { s \<leftarrow> push_pos rules (r, i) []; llama_grammar_advance_stack n rules s new }) starts [] = Some s0"
    using assms by (auto simp: initial_stacks_def split: Option.bind_splits if_splits)
  define F where "F i = (\<Union>s \<in> {s. push_pos rules (r, i) [] = Some s}. closure rules s)" for i
  have "set s0 = set [] \<union> (\<Union>i \<in> set starts. F i)"
    using loop by (rule foldM_union) (auto simp: F_def split: Option.bind_splits dest: advance_stack_closure)
  then show ?thesis using starts by (auto simp: F_def rule_start_def)
qed

lemma engine_language:
  assumes "initial_stacks n rules r = Some s0" and "accept_word n rules w s0 = Some res"
  shows "[] \<in> set res \<longleftrightarrow> rule_lang rules r w"
proof -
  note s0 = initial_stacks_set [OF assms(1)]
  have rest: "\<forall>st \<in> set s0. at_rest rules st" unfolding s0 by (auto simp: closure_def)
  have nil: "at_rest rules []" by (simp add: at_rest_def)
  have "[] \<in> set res \<longleftrightarrow> (\<exists>st \<in> set s0. runs rules st w [])" using accept_word_runs [OF assms(2) rest] nil by simp
  also have "\<dots> \<longleftrightarrow> (\<exists>i s. rule_start rules r i \<and> push_pos rules (r, i) [] = Some s \<and> runs rules s w [])"
  proof
    assume "\<exists>st \<in> set s0. runs rules st w []"
    then show "\<exists>i s. rule_start rules r i \<and> push_pos rules (r, i) [] = Some s \<and> runs rules s w []"
      unfolding s0 by (blast intro: closure_runs)
  next
    assume "\<exists>i s. rule_start rules r i \<and> push_pos rules (r, i) [] = Some s \<and> runs rules s w []"
    then obtain i s where i: "rule_start rules r i" "push_pos rules (r, i) [] = Some s" "runs rules s w []" by blast
    from runs_via_closure [OF i(3) nil] obtain t where "t \<in> closure rules s" "runs rules t w []" .
    then show "\<exists>st \<in> set s0. runs rules st w []" unfolding s0 using i(1,2) by blast
  qed
  also have "\<dots> \<longleftrightarrow> rule_lang rules r w"
  proof
    assume "\<exists>i s. rule_start rules r i \<and> push_pos rules (r, i) [] = Some s \<and> runs rules s w []"
    then obtain i s where i: "rule_start rules r i" "push_pos rules (r, i) [] = Some s" "runs rules s w []" by blast
    have "stack_lang rules s w" using runs_stack_lang [OF i(3)] by simp
    then show "rule_lang rules r w" unfolding push_pos_lang [OF i(2)] rule_lang_def using i(1) by auto
  next
    assume "rule_lang rules r w"
    then show "\<exists>i s. rule_start rules r i \<and> push_pos rules (r, i) [] = Some s \<and> runs rules s w []"
      unfolding rule_lang_def using seq_lang_runs by blast
  qed
  finally show ?thesis .
qed

section \<open>Rejected candidates\<close>

text \<open>The code points that a candidate still has to match.\<close>

definition points :: "grammar_candidate \<Rightarrow> u32 list" where
  "points tok = takeWhile (\<lambda>c. c \<noteq> 0) (drop (gc_off tok) (gc_code_points tok))"

definition terminated :: "grammar_candidate \<Rightarrow> bool" where
  "terminated tok \<longleftrightarrow> 0 \<in> set (drop (gc_off tok) (gc_code_points tok))"

text \<open>A stack may end a candidate when nothing is pending or the pending bytes can satisfy its top.\<close>

definition can_end :: "grammar_rules \<Rightarrow> partial_utf8 \<Rightarrow> grammar_stack \<Rightarrow> bool" where
  "can_end rules pu st \<longleftrightarrow> pu_n_remain pu = 0 \<or>
     (case st of [] \<Rightarrow> False | p # _ \<Rightarrow> llama_grammar_match_partial_char rules p pu = Some True)"

definition survives :: "grammar_rules \<Rightarrow> grammar_stack \<Rightarrow> grammar_candidate \<Rightarrow> bool" where
  "survives rules st tok \<longleftrightarrow> (\<exists>t. at_rest rules t \<and> runs rules st (points tok) t \<and> can_end rules (gc_partial tok) t)"

definition bump :: "grammar_candidate \<Rightarrow> grammar_candidate" where
  "bump tok = tok\<lparr>gc_off := gc_off tok + 1\<rparr>"

lemma cur_point_cases:
  assumes "terminated tok"
  obtains "cur_point tok = Some 0" "points tok = []"
  | c where "cur_point tok = Some c" "c \<noteq> 0" "points tok = c # points (bump tok)" "terminated (bump tok)"
proof -
  have "gc_off tok < length (gc_code_points tok)" using assms by (auto simp: terminated_def intro: ccontr)
  then have "drop (gc_off tok) (gc_code_points tok) = gc_code_points tok ! gc_off tok # drop (Suc (gc_off tok)) (gc_code_points tok)"
    "cur_point tok = Some (gc_code_points tok ! gc_off tok)" by (simp_all add: Cons_nth_drop_Suc cur_point_def)
  with that assms show ?thesis by (cases "gc_code_points tok ! gc_off tok = 0") (auto simp: points_def terminated_def bump_def)
qed

lemma match_alts_length:
  "match_alts c f k es = Some (b, m) \<Longrightarrow> \<exists>b'. match_alts c' f' k es = Some (b', m)"
  by (induction c f k es arbitrary: f' rule: match_alts.induct) (auto simp: Let_def split: if_splits list.splits)

lemma match_char_pos:
  assumes "llama_grammar_match_char rules p c = Some (b, q)"
  shows "\<exists>b'. llama_grammar_match_char rules p c' = Some (b', q)"
  using assms match_alts_length [of c False 0 "drop (snd p) (rules ! fst p)" _ _ c' False]
  by (fastforce simp: llama_grammar_match_char_def split: Option.bind_splits if_splits)

lemma survives_Nil:
  assumes "at_rest rules st" and "points tok = []"
  shows "survives rules st tok \<longleftrightarrow> can_end rules (gc_partial tok) st"
proof -
  have "survives rules st tok \<longleftrightarrow> (\<exists>t \<in> closure rules st. can_end rules (gc_partial tok) t)"
    unfolding survives_def assms(2) closure_def by auto
  then show ?thesis unfolding closure_rest [OF assms(1)] by simp
qed

lemma survives_Cons:
  assumes "at_rest rules st" and "points tok = c # points (bump tok)"
  shows "survives rules st tok \<longleftrightarrow> (\<exists>s. shift rules c st s \<and> (\<exists>t \<in> closure rules s. survives rules t (bump tok)))"
proof
  assume "survives rules st tok"
  then obtain t where t: "at_rest rules t" "runs rules st (c # points (bump tok)) t" "can_end rules (gc_partial tok) t"
    using assms(2) by (auto simp: survives_def)
  obtain s where s: "shift rules c st s" "runs rules s (points (bump tok)) t"
    using runs_split [OF t(2,1)] closure_rest [OF assms(1)] by auto
  obtain s' where s': "s' \<in> closure rules s" "runs rules s' (points (bump tok)) t"
    using runs_via_closure [OF s(2) t(1)] .
  have "survives rules s' (bump tok)" using s'(2) t(1,3) by (auto simp: survives_def bump_def)
  then show "\<exists>s. shift rules c st s \<and> (\<exists>t \<in> closure rules s. survives rules t (bump tok))" using s(1) s'(1) by blast
next
  assume "\<exists>s. shift rules c st s \<and> (\<exists>t \<in> closure rules s. survives rules t (bump tok))"
  then obtain s s' t where "shift rules c st s" "s' \<in> closure rules s" "at_rest rules t"
    "runs rules s' (points (bump tok)) t" "can_end rules (gc_partial (bump tok)) t" by (auto simp: survives_def)
  then show "survives rules st tok"
    unfolding survives_def assms(2) by (intro exI [of _ t]) (auto simp: bump_def intro: runs_shift closure_runs)
qed

text \<open>The loop over the candidates splits them.\<close>

definition rejected_at :: "grammar_rules \<Rightarrow> gpos \<Rightarrow> grammar_candidate \<Rightarrow> bool" where
  "rejected_at rules p tok \<longleftrightarrow>
     (case points tok of
        [] \<Rightarrow> pu_n_remain (gc_partial tok) \<noteq> 0 \<and> llama_grammar_match_partial_char rules p (gc_partial tok) = Some False
      | c # _ \<Rightarrow> (\<exists>q. llama_grammar_match_char rules p c = Some (False, q)))"

definition matched_at :: "grammar_rules \<Rightarrow> gpos \<Rightarrow> grammar_candidate \<Rightarrow> bool" where
  "matched_at rules p tok \<longleftrightarrow>
     (case points tok of [] \<Rightarrow> False | c # _ \<Rightarrow> (\<exists>q. llama_grammar_match_char rules p c = Some (True, q)))"

lemma classify_loop:
  assumes "foldM (classify rules p) cands (r0, n0) = Some (rej, nxt)" and "\<forall>tok \<in> set cands. terminated tok"
  shows "set rej = set r0 \<union> {tok \<in> set cands. rejected_at rules p tok} \<and>
    set nxt = set n0 \<union> bump ` {tok \<in> set cands. matched_at rules p tok} \<and>
    (\<forall>tok \<in> set cands. points tok = [] \<longrightarrow> pu_n_remain (gc_partial tok) \<noteq> 0 \<longrightarrow>
       llama_grammar_match_partial_char rules p (gc_partial tok) \<noteq> None) \<and>
    (\<forall>tok \<in> set cands. \<forall>c cs. points tok = c # cs \<longrightarrow> llama_grammar_match_char rules p c \<noteq> None)"
  using assms
proof (induction cands arbitrary: r0 n0)
  case (Cons tok cands)
  from Cons.prems(1) obtain r1 n1 where step: "classify rules p tok (r0, n0) = Some (r1, n1)"
    and loop: "foldM (classify rules p) cands (r1, n1) = Some (rej, nxt)" by (auto split: option.splits)
  note IH = Cons.IH [OF loop]
  have "terminated tok" using Cons.prems(2) by simp
  then show ?case
  proof (cases rule: cur_point_cases)
    case 1
    then have "set r1 = set r0 \<union> {t \<in> {tok}. rejected_at rules p t}" "n1 = n0" "\<not> matched_at rules p tok"
      "pu_n_remain (gc_partial tok) \<noteq> 0 \<longrightarrow> llama_grammar_match_partial_char rules p (gc_partial tok) \<noteq> None"
      using step by (auto simp: classify_def rejected_at_def matched_at_def split: Option.bind_splits if_splits)
    with IH Cons.prems(2) 1 show ?thesis by auto
  next
    case (2 c)
    then obtain ok q where m: "llama_grammar_match_char rules p c = Some (ok, q)"
      and r: "(r1, n1) = (if ok then (r0, n0 @ [bump tok]) else (r0 @ [tok], n0))"
      using step by (auto simp: classify_def bump_def split: Option.bind_splits if_splits)
    then have "rejected_at rules p tok \<longleftrightarrow> \<not> ok" "matched_at rules p tok \<longleftrightarrow> ok"
      using 2 by (auto simp: rejected_at_def matched_at_def)
    with IH Cons.prems(2) 2 m r show ?thesis by (auto split: if_splits)
  qed
qed simp

lemma reject_at_end_set:
  assumes "reject_at_end cands = Some rej" and "\<forall>tok \<in> set cands. terminated tok"
  shows "set rej = {tok \<in> set cands. \<not> survives rules [] tok}"
  using assms
proof (induction cands arbitrary: rej)
  case (Cons tok cands)
  have rest: "at_rest rules []" by (simp add: at_rest_def)
  from Cons.prems(1) obtain c rest_rej where c: "cur_point tok = Some c" "reject_at_end cands = Some rest_rej"
    and rej: "rej = (if c \<noteq> 0 \<or> pu_n_remain (gc_partial tok) \<noteq> 0 then tok # rest_rej else rest_rej)"
    by (auto split: Option.bind_splits)
  have "survives rules [] tok \<longleftrightarrow> c = 0 \<and> pu_n_remain (gc_partial tok) = 0"
  proof (rule cur_point_cases [of tok])
    show "terminated tok" using Cons.prems(2) by simp
  next
    assume "cur_point tok = Some 0" "points tok = []"
    then show ?thesis using c(1) survives_Nil [OF rest] by (auto simp: can_end_def)
  next
    fix c' assume "cur_point tok = Some c'" "c' \<noteq> 0" "points tok = c' # points (bump tok)"
    then show ?thesis using c(1) survives_Cons [OF rest] by (auto elim: shift.cases)
  qed
  then show ?case using Cons.IH [OF c(2)] Cons.prems(2) rej by auto
qed simp

lemma reject_fold:
  assumes "foldM f stacks cands = Some rej" and "\<forall>tok \<in> set cands. V tok"
    and "\<And>st c r. st \<in> set stacks \<Longrightarrow> \<forall>tok \<in> set c. V tok \<Longrightarrow> f st c = Some r \<Longrightarrow> set r = {tok \<in> set c. \<not> Q st tok}"
  shows "set rej = {tok \<in> set cands. \<forall>st \<in> set stacks. \<not> Q st tok}"
  using assms
proof (induction stacks arbitrary: cands)
  case (Cons st stacks)
  from Cons.prems(1) obtain mid where mid: "f st cands = Some mid" "foldM f stacks mid = Some rej" by (auto split: option.splits)
  have m: "set mid = {tok \<in> set cands. \<not> Q st tok}" using Cons.prems(2,3) mid(1) by simp
  then have "set rej = {tok \<in> set mid. \<forall>st \<in> set stacks. \<not> Q st tok}"
    using Cons.prems(2,3) by (intro Cons.IH [OF mid(2)]) auto
  then show ?case using m by auto
qed auto

lemma reject_stacks_set:
  assumes "reject_stacks f stacks cands = Some rej" and "\<forall>tok \<in> set cands. V tok"
    and "\<And>st c r. st \<in> set stacks \<Longrightarrow> \<forall>tok \<in> set c. V tok \<Longrightarrow> f st c = Some r \<Longrightarrow> set r = {tok \<in> set c. \<not> Q st tok}"
  shows "set rej = {tok \<in> set cands. \<forall>st \<in> set stacks. \<not> Q st tok}"
proof (cases "cands = []")
  case False
  then have "foldM f stacks cands = Some rej" using assms(1) by (auto simp: reject_stacks_def split: if_splits)
  from reject_fold [OF this assms(2,3)] show ?thesis .
qed (use assms(1) in \<open>auto simp: reject_stacks_def split: if_splits\<close>)

lemma reject_for_stack_set:
  assumes "llama_grammar_reject_candidates_for_stack n d rules st cands = Some rej"
    and "at_rest rules st" and "\<forall>tok \<in> set cands. terminated tok"
  shows "set rej = {tok \<in> set cands. \<not> survives rules st tok}"
  using assms
proof (induction d arbitrary: st cands rej)
  case (Suc d)
  show ?case
  proof (cases st)
    case Nil
    then show ?thesis using Suc.prems reject_at_end_set by simp
  next
    case (Cons p st')
    let ?unbump = "\<lambda>tok. tok\<lparr>gc_off := gc_off tok - 1\<rparr>"
    obtain r0 nxt b q after nexts rn where loop: "foldM (classify rules p) cands ([], []) = Some (r0, nxt)"
      and q: "llama_grammar_match_char rules p 0 = Some (b, q)" "push_pos rules q st' = Some after"
      and nexts: "llama_grammar_advance_stack n rules after [] = Some nexts"
      and rn: "reject_stacks (llama_grammar_reject_candidates_for_stack n d rules) nexts nxt = Some rn"
      and rej: "rej = r0 @ map ?unbump rn"
      using Suc.prems(1) Cons by (auto split: Option.bind_splits)
    note C = classify_loop [OF loop Suc.prems(3)]
    have cl: "set nexts = closure rules after" using advance_stack_closure [OF nexts] by simp
    have V: "\<forall>tok \<in> set nxt. terminated tok"
      using C Suc.prems(3) by (auto simp: matched_at_def elim!: cur_point_cases split: list.splits)
    have "set rn = {tok \<in> set nxt. \<forall>s \<in> set nexts. \<not> survives rules s tok}"
      using rn V
    proof (rule reject_stacks_set)
      fix s c r assume s: "s \<in> set nexts" and c: "\<forall>tok \<in> set c. terminated tok"
        and f: "llama_grammar_reject_candidates_for_stack n d rules s c = Some r"
      have "at_rest rules s" using s cl by (simp add: closure_def)
      from Suc.IH [OF f this c] show "set r = {tok \<in> set c. \<not> survives rules s tok}" .
    qed
    then have "set rn = bump ` {tok \<in> set cands. matched_at rules p tok \<and> (\<forall>s \<in> set nexts. \<not> survives rules s (bump tok))}"
      using C by auto
    moreover have "?unbump (bump tok) = tok" for tok by (simp add: bump_def)
    ultimately have unb: "set (map ?unbump rn) = {tok \<in> set cands. matched_at rules p tok \<and> (\<forall>s \<in> set nexts. \<not> survives rules s (bump tok))}"
      by (simp add: image_image)
    have "tok \<in> set rej \<longleftrightarrow> \<not> survives rules st tok" if tok: "tok \<in> set cands" for tok
    proof (rule cur_point_cases [of tok])
      show "terminated tok" using tok Suc.prems(3) by simp
    next
      assume p0: "points tok = []"
      have "can_end rules (gc_partial tok) st \<longleftrightarrow> \<not> rejected_at rules p tok"
        using C tok p0 Cons by (auto simp: can_end_def rejected_at_def)
      then show ?thesis using survives_Nil [OF Suc.prems(2) p0] tok C unb p0 by (simp add: rej matched_at_def)
    next
      fix c assume pc: "points tok = c # points (bump tok)"
      obtain ok where m: "llama_grammar_match_char rules p c = Some (ok, q)" using match_char_pos [OF q(1), of c] by blast
      have sh: "shift rules c st s \<longleftrightarrow> ok \<and> s = after" for s using m q(2) Cons by (cases q) (auto simp: shift_simps)
      have "survives rules st tok \<longleftrightarrow> ok \<and> (\<exists>s \<in> set nexts. survives rules s (bump tok))"
        unfolding survives_Cons [OF Suc.prems(2) pc] sh cl by auto
      moreover have "rejected_at rules p tok \<longleftrightarrow> \<not> ok" "matched_at rules p tok \<longleftrightarrow> ok"
        using m pc by (auto simp: rejected_at_def matched_at_def)
      ultimately show ?thesis using tok C unb by (auto simp: rej)
    qed
    moreover have "set rej \<subseteq> set cands" using C unb by (auto simp: rej)
    ultimately show ?thesis by blast
  qed
qed simp

lemma survives_accept_word:
  assumes "accept_word n rules (points tok) stacks = Some res" and "\<forall>st \<in> set stacks. at_rest rules st"
  shows "(\<exists>st \<in> set stacks. survives rules st tok) \<longleftrightarrow> (\<exists>t \<in> set res. can_end rules (gc_partial tok) t)"
  unfolding accept_word_runs [OF assms] survives_def by blast

lemma reject_candidates_set:
  assumes "llama_grammar_reject_candidates n d rules stacks cands = Some rej" and "\<forall>tok \<in> set cands. terminated tok"
    and "\<forall>st \<in> set stacks. at_rest rules st"
  shows "set rej = {tok \<in> set cands. \<forall>st \<in> set stacks. \<not> survives rules st tok}"
  using assms(1) [unfolded llama_grammar_reject_candidates_def] assms(2)
  by (rule reject_stacks_set) (use reject_for_stack_set assms(3) in blast)

section \<open>Properties\<close>

text \<open>\<^verbatim>\<open>accept\<close> leaves only stacks that are empty or stand at a character element, as its interface requires of
  the stacks it is given.\<close>

theorem accept_stacks_at_rest:
  assumes "llama_grammar_accept n rules c stacks = Some res" and "s \<in> set res"
  shows "s = [] \<or> (\<exists>p st e. s = p # st \<and> elem_at rules p = Some e \<and> ge_type e \<in> {GRE_CHAR, GRE_CHAR_NOT, GRE_CHAR_ANY})"
  using assms(2) unfolding accept_step_set [OF assms(1)]
  by (cases s) (auto simp: step_set_def closure_def at_rest_def char_pos_def)

text \<open>For an inverse range, \<^verbatim>\<open>match_partial_char\<close> refuses pending bytes that some continuation would satisfy: the
  lead byte of \<^verbatim>\<open>U+00C0\<close> to \<^verbatim>\<open>U+00FF\<close> is refused for the range that excludes only \<^verbatim>\<open>U+00E9\<close>, although
  \<^verbatim>\<open>U+00E8\<close> matches it.\<close>

theorem inverse_range_refuses_completable_bytes:
  "let rules = [[\<lparr>ge_type = GRE_CHAR_NOT, ge_value = 0xE9\<rparr>, \<lparr>ge_type = GRE_END, ge_value = 0\<rparr>]];
       pu = \<lparr>pu_value = 3, pu_n_remain = 1\<rparr> in
   partial_range pu = (0xC0, 0xFF) \<and> llama_grammar_match_partial_char rules (0, 0) pu = Some False \<and>
   map_option fst (llama_grammar_match_char rules (0, 0) 0xE8) = Some True"
  by code_simp

text \<open>The grammar \<^verbatim>\<open>root ::= "a" root | "b"\<close>.\<close>

definition demo_rules :: grammar_rules where
  "demo_rules =
     [[\<lparr>ge_type = GRE_CHAR, ge_value = 97\<rparr>, \<lparr>ge_type = GRE_RULE_REF, ge_value = 0\<rparr>, \<lparr>ge_type = GRE_ALT, ge_value = 0\<rparr>,
       \<lparr>ge_type = GRE_CHAR, ge_value = 98\<rparr>, \<lparr>ge_type = GRE_END, ge_value = 0\<rparr>]]"

lemma demo_run:
  "initial_stacks 5 demo_rules 0 = Some [[(0, 0)], [(0, 3)]]"
  "accept_word 5 demo_rules [97, 98] [[(0, 0)], [(0, 3)]] = Some [[]]"
  "llama_grammar_accept 5 demo_rules 97 [[(0, 0)], [(0, 3)]] = Some [[(0, 0)], [(0, 3)]]"
  by code_simp+

theorem accept_stacks_at_rest_witness:
  "\<exists>p st e. [(0, 0)] = p # st \<and> elem_at demo_rules p = Some e \<and> ge_type e \<in> {GRE_CHAR, GRE_CHAR_NOT, GRE_CHAR_ANY}"
  using accept_stacks_at_rest [OF demo_run(3), of "[(0, 0)]"] by simp

end
