(* ===== verification/GrammarRec.thy ===== *)
theory GrammarRec
  imports GrammarLang
begin

text \<open>
  The depth-first search of the check for left recursion: it returns, and decides whether the relation it
  follows, which skips the rules that its own test for an empty alternate marks, has a cycle. What this says
  about the language is in \<^verbatim>\<open>GrammarTerm\<close> and \<^verbatim>\<open>GrammarTotal\<close>.
\<close>

section \<open>The relation the check follows\<close>

definition directly_empty :: "grammar_rules \<Rightarrow> nat \<Rightarrow> bool" where
  "directly_empty rules r = has_empty_alt True (rules ! r)"

text \<open>The rule references at the left of an alternate, after references to rules that may be empty.\<close>

fun left_refs :: "(nat \<Rightarrow> bool) \<Rightarrow> bool \<Rightarrow> grammar_element list \<Rightarrow> nat list" where
  "left_refs E recurse [] = []"
| "left_refs E recurse (e # es) =
     (if ge_type e = GRE_RULE_REF \<and> recurse then unat (ge_value e) # left_refs E (E (unat (ge_value e))) es
      else if is_end_type (ge_type e) then left_refs E True es
      else left_refs E False es)"

definition left_rel :: "grammar_rules \<Rightarrow> (nat \<times> nat) set" where
  "left_rel rules = {(r, r'). r < length rules \<and> r' \<in> set (left_refs (directly_empty rules) True (rules ! r))}"

definition refs_ok :: "grammar_rules \<Rightarrow> bool" where
  "refs_ok rules \<longleftrightarrow> (\<forall>es \<in> set rules. \<forall>e \<in> set es. ge_type e = GRE_RULE_REF \<longrightarrow> unat (ge_value e) < length rules)"

lemma left_refs_ref: "r \<in> set (left_refs E b es) \<Longrightarrow> \<exists>e \<in> set es. ge_type e = GRE_RULE_REF \<and> r = unat (ge_value e)"
  by (induction es arbitrary: b) (auto split: if_splits)

section \<open>The depth-first search\<close>

definition in_progress :: "rec_state \<Rightarrow> nat set" where
  "in_progress rs = {i. i < length (rs_in_progress rs) \<and> rs_in_progress rs ! i}"

text \<open>No rule reachable from \<open>r\<close> is on the path or on a cycle.\<close>

definition good :: "grammar_rules \<Rightarrow> nat set \<Rightarrow> nat \<Rightarrow> bool" where
  "good rules P r \<longleftrightarrow> (\<forall>x. (r, x) \<in> (left_rel rules)\<^sup>* \<longrightarrow> x \<notin> P \<and> (x, x) \<notin> (left_rel rules)\<^sup>+)"

definition rec_inv :: "grammar_rules \<Rightarrow> rec_state \<Rightarrow> bool" where
  "rec_inv rules rs \<longleftrightarrow> length (rs_visited rs) = length rules \<and> length (rs_in_progress rs) = length rules \<and>
     length (rs_may_be_empty rs) = length rules \<and>
     (\<forall>i < length rules. rs_may_be_empty rs ! i \<longrightarrow> directly_empty rules i) \<and>
     (\<forall>i < length rules. rs_visited rs ! i \<longrightarrow> good rules {} i)"

text \<open>The contract of a call on rule \<open>r\<close>.\<close>

definition keeps_empty :: "rec_state \<Rightarrow> rec_state \<Rightarrow> bool" where
  "keeps_empty rs rs' \<longleftrightarrow> (\<forall>i < length (rs_may_be_empty rs). rs_may_be_empty rs ! i \<longrightarrow> rs_may_be_empty rs' ! i)"

definition call_ok :: "grammar_rules \<Rightarrow> rec_state \<Rightarrow> nat \<Rightarrow> (bool \<times> rec_state) option \<Rightarrow> bool" where
  "call_ok rules rs r res \<longleftrightarrow> (\<exists>found rs'. res = Some (found, rs') \<and> rec_inv rules rs' \<and> keeps_empty rs rs' \<and>
     found = (\<not> good rules (in_progress rs) r) \<and>
     (\<not> found \<longrightarrow> in_progress rs' = in_progress rs \<and> rs_may_be_empty rs' ! r = directly_empty rules r))"

lemma good_step:
  assumes "r < length rules"
  shows "good rules P r \<longleftrightarrow> r \<notin> P \<and> (\<forall>r' \<in> set (left_refs (directly_empty rules) True (rules ! r)). good rules (insert r P) r')"
    (is "_ \<longleftrightarrow> _ \<and> ?C")
proof
  let ?L = "left_rel rules"
  have L: "(r, r') \<in> ?L \<longleftrightarrow> r' \<in> set (left_refs (directly_empty rules) True (rules ! r))" for r'
    using assms by (simp add: left_rel_def)
  show "r \<notin> P \<and> ?C" if g: "good rules P r"
  proof
    show "r \<notin> P" using g by (auto simp: good_def)
    show ?C
    proof
      fix r' assume "r' \<in> set (left_refs (directly_empty rules) True (rules ! r))"
      then have rr': "(r, r') \<in> ?L" by (simp add: L)
      show "good rules (insert r P) r'"
        unfolding good_def
      proof (intro allI impI)
        fix x assume x: "(r', x) \<in> ?L\<^sup>*"
        then have rx: "(r, x) \<in> ?L\<^sup>+" "(r, x) \<in> ?L\<^sup>*" using rr' by (auto intro: rtrancl_into_trancl2 converse_rtrancl_into_rtrancl)
        have "x \<noteq> r" using rx(1) g by (auto simp: good_def)
        then show "x \<notin> insert r P \<and> (x, x) \<notin> ?L\<^sup>+" using g rx(2) by (simp add: good_def)
      qed
    qed
  qed
  show "good rules P r" if "r \<notin> P \<and> ?C"
    unfolding good_def
  proof (intro allI impI)
    have r: "r \<notin> P" and C: ?C using that by auto
    fix x assume "(r, x) \<in> ?L\<^sup>*"
    then consider "x = r" | r' where "(r, r') \<in> ?L" "(r', x) \<in> ?L\<^sup>*" by (metis converse_rtranclE)
    then show "x \<notin> P \<and> (x, x) \<notin> ?L\<^sup>+"
    proof cases
      case 1
      have "(r, r) \<notin> ?L\<^sup>+"
      proof
        assume "(r, r) \<in> ?L\<^sup>+"
        then obtain r' where "(r, r') \<in> ?L" "(r', r) \<in> ?L\<^sup>*" by (metis tranclD)
        then show False using C L by (auto simp: good_def)
      qed
      then show ?thesis using 1 r by simp
    next
      case 2
      then show ?thesis using C L by (auto simp: good_def)
    qed
  qed
qed

lemma scan_rule_ok:
  assumes f: "\<And>r rs. r < length rules \<Longrightarrow> rec_inv rules rs \<Longrightarrow> in_progress rs = P \<Longrightarrow> call_ok rules rs r (f r rs)"
    and "rec_inv rules rs" and "in_progress rs = P"
    and "\<forall>e \<in> set es. ge_type e = GRE_RULE_REF \<longrightarrow> unat (ge_value e) < length rules"
  shows "\<exists>found rs'. scan_rule f b es rs = Some (found, rs') \<and> rec_inv rules rs' \<and> keeps_empty rs rs' \<and>
    found = (\<exists>r \<in> set (left_refs (directly_empty rules) b es). \<not> good rules P r) \<and> (\<not> found \<longrightarrow> in_progress rs' = P)"
  using assms(2-)
proof (induction es arbitrary: b rs)
  case (Cons e es)
  show ?case
  proof (cases "ge_type e = GRE_RULE_REF \<and> b")
    case True
    let ?r = "unat (ge_value e)"
    have r: "?r < length rules" using Cons.prems(3) True by simp
    from f [OF r Cons.prems(1,2)] obtain found rs' where call: "f ?r rs = Some (found, rs')" "rec_inv rules rs'"
      "found = (\<not> good rules P ?r)" "\<not> found \<longrightarrow> in_progress rs' = P \<and> rs_may_be_empty rs' ! ?r = directly_empty rules ?r"
      "keeps_empty rs rs'" unfolding call_ok_def Cons.prems(2) by (elim exE conjE)
    show ?thesis
    proof (cases found)
      case found: True
      then show ?thesis using call True by (auto simp: Let_def)
    next
      case False
      have len: "?r < length (rs_may_be_empty rs')" using r call(2) by (simp add: rec_inv_def)
      have prog: "in_progress rs' = P" "rs_may_be_empty rs' ! ?r = directly_empty rules ?r" using call(4) False by auto
      have refs: "\<forall>e \<in> set es. ge_type e = GRE_RULE_REF \<longrightarrow> unat (ge_value e) < length rules" using Cons.prems(3) by simp
      from Cons.IH [OF call(2) prog(1) refs, of "directly_empty rules ?r"] obtain found2 rs2 where
        "scan_rule f (directly_empty rules ?r) es rs' = Some (found2, rs2)" "rec_inv rules rs2" "keeps_empty rs' rs2"
        "found2 = (\<exists>r \<in> set (left_refs (directly_empty rules) (directly_empty rules ?r) es). \<not> good rules P r)"
        "\<not> found2 \<longrightarrow> in_progress rs2 = P" by blast
      moreover have "keeps_empty rs rs2" using call(2,5) \<open>keeps_empty rs' rs2\<close> Cons.prems(1) by (simp add: keeps_empty_def rec_inv_def)
      ultimately show ?thesis using call(1,3) True False len prog(2) by (auto simp: Let_def)
    qed
  qed (use Cons in \<open>auto simp: is_end_type_def\<close>)
qed (auto simp: keeps_empty_def)

text \<open>The measure of the recursion: the rules that are not in progress.\<close>

lemma in_progress_set:
  assumes "length (rs_in_progress rs) = length rules" and "r < length rules"
  shows "in_progress (rs\<lparr>rs_in_progress := (rs_in_progress rs)[r := True]\<rparr>) = insert r (in_progress rs)"
    and "in_progress (rs\<lparr>rs_in_progress := (rs_in_progress rs)[r := False], rs_visited := v\<rparr>) = in_progress rs - {r}"
  using assms by (auto simp: in_progress_def nth_list_update)

lemma detect_ok:
  assumes "refs_ok rules" and "r < length rules" and "rec_inv rules rs" and "card ({..<length rules} - in_progress rs) < n"
  shows "call_ok rules rs r (detect_left_recursion n rules r rs)"
  using assms(2-)
proof (induction n arbitrary: r rs)
  case (Suc n)
  let ?P = "in_progress rs" and ?k = "length rules"
  have lens: "length (rs_in_progress rs) = ?k" "length (rs_may_be_empty rs) = ?k" "length (rs_visited rs) = ?k"
    using Suc.prems(2) by (auto simp: rec_inv_def)
  show ?case
  proof (cases "rs_in_progress rs ! r")
    case True
    then have "r \<in> ?P" using Suc.prems(1) lens by (simp add: in_progress_def)
    then have "\<not> good rules ?P r" by (auto simp: good_def)
    then show ?thesis using True Suc.prems(1,2) lens by (auto simp: call_ok_def keeps_empty_def)
  next
    case False
    then have notP: "r \<notin> ?P" by (simp add: in_progress_def)
    define rs1 where "rs1 = rs\<lparr>rs_in_progress := (rs_in_progress rs)[r := True]\<rparr>"
    define rs2 where "rs2 = (if has_empty_alt True (rules ! r) then rs1\<lparr>rs_may_be_empty := (rs_may_be_empty rs1)[r := True]\<rparr> else rs1)"
    have P2: "in_progress rs2 = insert r ?P"
      using in_progress_set(1) [OF lens(1) Suc.prems(1)] by (simp add: rs2_def rs1_def in_progress_def)
    have inv2: "rec_inv rules rs2"
      using Suc.prems(1,2) lens by (auto simp: rec_inv_def rs2_def rs1_def directly_empty_def nth_list_update)
    have mbe2: "rs_may_be_empty rs2 ! r = directly_empty rules r"
      using Suc.prems(1,2) lens by (auto simp: rec_inv_def rs2_def rs1_def directly_empty_def)
    have less: "card ({..<?k} - insert r ?P) < n"
    proof -
      have "{..<?k} - insert r ?P = ({..<?k} - ?P) - {r}" by auto
      moreover have "r \<in> {..<?k} - ?P" using Suc.prems(1) notP by simp
      ultimately show ?thesis using Suc.prems(3) card_Suc_Diff1 [of "{..<?k} - ?P" r] by simp
    qed
    have f: "call_ok rules rs' r' (detect_left_recursion n rules r' rs')"
      if "r' < ?k" "rec_inv rules rs'" "in_progress rs' = insert r ?P" for r' rs'
      using Suc.IH [OF that(1,2)] that(3) less by simp
    have refs: "\<forall>e \<in> set (rules ! r). ge_type e = GRE_RULE_REF \<longrightarrow> unat (ge_value e) < ?k"
      using assms(1) nth_mem [OF Suc.prems(1)] unfolding refs_ok_def by blast
    obtain found rs3 where scan: "scan_rule (detect_left_recursion n rules) True (rules ! r) rs2 = Some (found, rs3)" "rec_inv rules rs3"
      "found = (\<exists>r' \<in> set (left_refs (directly_empty rules) True (rules ! r)). \<not> good rules (insert r ?P) r')"
      "\<not> found \<longrightarrow> in_progress rs3 = insert r ?P" "keeps_empty rs2 rs3"
      using scan_rule_ok [where P = "insert r ?P" and f = "detect_left_recursion n rules" and b = True, OF f inv2 P2 refs]
      by blast
    have keep: "keeps_empty rs rs3"
      using scan(5) lens Suc.prems(1) by (auto simp: keeps_empty_def rs2_def rs1_def nth_list_update split: if_splits)
    have good: "good rules ?P r \<longleftrightarrow> \<not> found" using good_step [OF Suc.prems(1), of ?P] notP scan(3) by auto
    have eq: "detect_left_recursion (Suc n) rules r rs = (if found then Some (True, rs3)
      else Some (False, rs3\<lparr>rs_in_progress := (rs_in_progress rs3)[r := False], rs_visited := (rs_visited rs3)[r := True]\<rparr>))"
      using False Suc.prems(1) lens scan(1) by (simp add: rs1_def [symmetric] rs2_def [symmetric] Let_def)
    show ?thesis
    proof (cases found)
      case True
      then show ?thesis using eq good scan(2) keep by (auto simp: call_ok_def)
    next
      case nf: False
      let ?rs4 = "rs3\<lparr>rs_in_progress := (rs_in_progress rs3)[r := False], rs_visited := (rs_visited rs3)[r := True]\<rparr>"
      have l3: "length (rs_in_progress rs3) = ?k" using scan(2) by (simp add: rec_inv_def)
      have "in_progress ?rs4 = ?P" using in_progress_set(2) [OF l3 Suc.prems(1)] scan(4) nf notP by auto
      moreover have "good rules {} r" using good nf by (auto simp: good_def)
      then have "rec_inv rules ?rs4" using scan(2) Suc.prems(1) by (auto simp: rec_inv_def nth_list_update)
      moreover have "rs_may_be_empty ?rs4 ! r = directly_empty rules r"
        using scan(2,5) mbe2 inv2 Suc.prems(1) by (auto simp: keeps_empty_def rec_inv_def)
      moreover have "keeps_empty rs ?rs4" using keep by (simp add: keeps_empty_def)
      ultimately show ?thesis using eq good nf by (auto simp: call_ok_def)
    qed
  qed
qed simp

text \<open>The loop over all rules.\<close>

lemma has_left_recursion_iff:
  assumes refs: "refs_ok rules"
  shows "has_left_recursion rules = Some (\<exists>r. (r, r) \<in> (left_rel rules)\<^sup>+)"
proof -
  let ?k = "length rules" and ?L = "left_rel rules"
  let ?rs0 = "\<lparr>rs_visited = replicate ?k False, rs_in_progress = replicate ?k False, rs_may_be_empty = replicate ?k False\<rparr>"
  let ?Q = "\<lambda>m (found, rs). rec_inv rules rs \<and> (found \<longrightarrow> (\<exists>r. (r, r) \<in> ?L\<^sup>+)) \<and>
     (\<not> found \<longrightarrow> in_progress rs = {} \<and> (\<forall>i < m. good rules {} i))"
  have "\<exists>x. foldM (detect_step (Suc ?k) rules) [0..<?k] (False, ?rs0) = Some x \<and> ?Q ?k x"
  proof (rule foldM_upt_inv [where P = ?Q])
    show "?Q 0 (False, ?rs0)" by (simp add: rec_inv_def in_progress_def)
  next
    fix i x assume i: "i < ?k" and Q: "?Q i x"
    obtain found rs where x: "x = (found, rs)" by fastforce
    show "\<exists>x'. detect_step (Suc ?k) rules i x = Some x' \<and> ?Q (Suc i) x'"
    proof (cases "found \<or> rs_visited rs ! i")
      case True
      then have "detect_step (Suc ?k) rules i x = Some x" by (auto simp: detect_step_def x)
      moreover have "?Q (Suc i) x" using True Q x i by (auto simp: rec_inv_def less_Suc_eq)
      ultimately show ?thesis by blast
    next
      case False
      then have inv: "rec_inv rules rs" and prog: "in_progress rs = {}" and before: "\<forall>j < i. good rules {} j" using Q x by auto
      have "card ({..<?k} - in_progress rs) < Suc ?k" using prog by simp
      from detect_ok [OF refs i inv this] obtain found' rs' where call: "detect_left_recursion (Suc ?k) rules i rs = Some (found', rs')"
        "rec_inv rules rs'" "found' = (\<not> good rules {} i)" "\<not> found' \<longrightarrow> in_progress rs' = {}"
        unfolding call_ok_def prog by (elim exE conjE) auto
      have "found' \<longrightarrow> (\<exists>r. (r, r) \<in> ?L\<^sup>+)" using call(3) by (auto simp: good_def)
      then have "?Q (Suc i) (found', rs')" using call before by (auto simp: less_Suc_eq)
      moreover have "detect_step (Suc ?k) rules i x = Some (found', rs')" using False call(1) by (simp add: detect_step_def x)
      ultimately show ?thesis by blast
    qed
  qed
  then obtain found rs where run: "foldM (detect_step (Suc ?k) rules) [0..<?k] (False, ?rs0) = Some (found, rs)" and Q: "?Q ?k (found, rs)"
    by fastforce
  have "(r, r) \<notin> ?L\<^sup>+" if "\<not> found" for r
  proof
    assume cyc: "(r, r) \<in> ?L\<^sup>+"
    then obtain r' where "(r, r') \<in> ?L" by (metis tranclD)
    then have "r < ?k" by (simp add: left_rel_def)
    then show False using Q that cyc by (auto simp: good_def)
  qed
  then have "found \<longleftrightarrow> (\<exists>r. (r, r) \<in> ?L\<^sup>+)" using Q by auto
  then show ?thesis using run by (simp add: has_left_recursion_def Let_def)
qed

end
