(* ===== verification/GrammarTerm.thy ===== *)
theory GrammarTerm
  imports GrammarRec
begin

text \<open>
  Well-formed rules, left recursion defined from the language, and why the engine returns: expansion of a stack
  is well-founded on well-formed rules without left recursion. The check of the program ensures the latter when
  every rule that derives the empty word has an empty alternate.
\<close>

section \<open>Well-formed rules\<close>

text \<open>What may follow a character element: 0 neither an upper bound nor a further range, 1 both, 2 only a further range.\<close>

fun elems_ok :: "nat \<Rightarrow> grammar_element list \<Rightarrow> bool" where
  "elems_ok k [] = False"
| "elems_ok k (e # es) =
     (case ge_type e of
        GRE_END \<Rightarrow> es = []
      | GRE_ALT \<Rightarrow> elems_ok 0 es
      | GRE_RULE_REF \<Rightarrow> elems_ok 0 es
      | GRE_CHAR \<Rightarrow> elems_ok 1 es
      | GRE_CHAR_NOT \<Rightarrow> elems_ok 1 es
      | GRE_CHAR_ANY \<Rightarrow> elems_ok 0 es
      | GRE_CHAR_ALT \<Rightarrow> k \<noteq> 0 \<and> elems_ok 1 es
      | GRE_CHAR_RNG_UPPER \<Rightarrow> k = 1 \<and> elems_ok 2 es)"

definition rules_ok :: "grammar_rules \<Rightarrow> bool" where
  "rules_ok rules \<longleftrightarrow> refs_ok rules \<and> (\<forall>es \<in> set rules. elems_ok 0 es)"

definition pos_ok :: "grammar_rules \<Rightarrow> gpos \<Rightarrow> bool" where
  "pos_ok rules p \<longleftrightarrow> fst p < length rules \<and> elems_ok 0 (drop (snd p) (rules ! fst p))"

lemma elems_ok_weaken: "elems_ok 0 es \<Longrightarrow> elems_ok k es"
  by (cases es) (auto split: llama_gretype.splits)

lemma pos_ok_elem:
  assumes "pos_ok rules p"
  obtains e es where "elem_at rules p = Some e" "drop (snd p) (rules ! fst p) = e # es" "elems_ok 0 (e # es)"
    "ge_type e \<noteq> GRE_CHAR_ALT" "ge_type e \<noteq> GRE_CHAR_RNG_UPPER" "drop (Suc (snd p)) (rules ! fst p) = es"
proof -
  let ?d = "drop (snd p) (rules ! fst p)"
  obtain e es where d: "?d = e # es" using assms by (cases ?d) (auto simp: pos_ok_def)
  then have "snd p < length (rules ! fst p)" by (auto intro: ccontr)
  then have "elem_at rules p = Some e" "drop (Suc (snd p)) (rules ! fst p) = es"
    using d assms by (auto simp: elem_at_def pos_ok_def Cons_nth_drop_Suc [symmetric])
  moreover have ok: "elems_ok 0 (e # es)" using assms d by (simp add: pos_ok_def)
  moreover from ok have "ge_type e \<noteq> GRE_CHAR_ALT" "ge_type e \<noteq> GRE_CHAR_RNG_UPPER" by (auto split: llama_gretype.splits)
  ultimately show ?thesis using d that by blast
qed

lemma ref_target:
  assumes "rules_ok rules" and "elem_at rules p = Some e" and "ge_type e = GRE_RULE_REF"
  shows "unat (ge_value e) < length rules"
proof -
  have "rules ! fst p \<in> set rules" "e \<in> set (rules ! fst p)" using assms(2) by (auto simp: elem_at_def split: if_splits)
  then show ?thesis using assms(1,3) by (auto simp: rules_ok_def refs_ok_def)
qed

lemma pos_ok_end: "pos_ok rules p \<Longrightarrow> \<exists>b. is_end_of_sequence rules p = Some b"
  by (erule pos_ok_elem) (simp add: is_end_of_sequence_def)

lemma pos_ok_next:
  assumes "pos_ok rules p" and "elem_at rules p = Some e" and "ge_type e = GRE_RULE_REF"
  shows "pos_ok rules (advance_pos 1 p)"
  using assms(1)
proof (rule pos_ok_elem)
  fix e' es assume "elem_at rules p = Some e'" "elems_ok 0 (e' # es)" "drop (Suc (snd p)) (rules ! fst p) = es"
  then show ?thesis using assms by (simp add: pos_ok_def advance_pos_def)
qed

text \<open>Matching ends on a well-formed position.\<close>

lemma match_alts_total:
  assumes "elems_ok k es" and "es \<noteq> []" and "ge_type (hd es) \<in> {GRE_CHAR, GRE_CHAR_NOT, GRE_CHAR_ANY, GRE_CHAR_ALT}"
  shows "\<exists>b m. match_alts c f j es = Some (b, j + m) \<and> elems_ok 0 (drop m es)"
  using assms
proof (induction "length es" arbitrary: k es f j rule: less_induct)
  case less
  obtain e es1 where es: "es = e # es1" using less.prems(2) by (cases es) auto
  have ok1: "elems_ok 1 es1 \<or> elems_ok 0 es1" using less.prems(1,3) es by (auto split: llama_gretype.splits)
  then obtain g es2 where es1: "es1 = g # es2" by (cases es1) auto
  show ?case
  proof (cases "ge_type g")
    case GRE_CHAR_RNG_UPPER
    then have ok2: "elems_ok 2 es2" using ok1 es1 by auto
    then obtain h es3 where es2: "es2 = h # es3" by (cases es2) auto
    show ?thesis
    proof (cases "ge_type h = GRE_CHAR_ALT")
      case True
      from less.hyps [of es2 2 "f \<or> ge_value e \<le> c \<and> c \<le> ge_value g" "j + 2"] ok2 es es1 es2 True
      obtain b m where m: "match_alts c (f \<or> ge_value e \<le> c \<and> c \<le> ge_value g) (j + 2) es2 = Some (b, j + 2 + m)" "elems_ok 0 (drop m es2)"
        by auto
      then show ?thesis using GRE_CHAR_RNG_UPPER es es1 es2 True
        by (intro exI [of _ b] exI [of _ "2 + m"]) (simp add: Let_def)
    next
      case False
      then have "elems_ok 0 es2" using ok2 es2 by (auto split: llama_gretype.splits)
      then show ?thesis using GRE_CHAR_RNG_UPPER es es1 es2 False
        by (intro exI [of _ "f \<or> ge_value e \<le> c \<and> c \<le> ge_value g"] exI [of _ 2]) (simp add: Let_def)
    qed
  next
    case GRE_CHAR_ALT
    define f' where "f' = (if ge_type e = GRE_CHAR_ANY then True else f \<or> ge_value e = c)"
    from less.hyps [of es1 1 f' "j + 1"] ok1 es es1 GRE_CHAR_ALT
    obtain b m where m: "match_alts c f' (j + 1) es1 = Some (b, j + 1 + m)" "elems_ok 0 (drop m es1)" by auto
    then show ?thesis using GRE_CHAR_ALT es es1
      by (intro exI [of _ b] exI [of _ "1 + m"]) (simp add: Let_def f'_def)
  qed (use ok1 es es1 in \<open>auto simp: Let_def intro!: exI [of _ 1]\<close>)
qed

lemma match_char_total:
  assumes "pos_ok rules p" and "char_pos rules p"
  shows "\<exists>b q. llama_grammar_match_char rules p c = Some (b, q) \<and> pos_ok rules q"
proof -
  obtain e es where e: "elem_at rules p = Some e" "drop (snd p) (rules ! fst p) = e # es" "elems_ok 0 (e # es)"
    using assms(1) by (rule pos_ok_elem)
  have t: "ge_type e \<in> {GRE_CHAR, GRE_CHAR_NOT, GRE_CHAR_ANY}" using assms(2) e(1) by (simp add: char_pos_def)
  then obtain b m where m: "match_alts c False 0 (e # es) = Some (b, m)" "elems_ok 0 (drop m (e # es))"
    using match_alts_total [OF e(3), of c False 0] by auto
  have "pos_ok rules (advance_pos m p)"
    using m(2) assms(1) by (simp add: pos_ok_def advance_pos_def e(2) [symmetric] add.commute)
  moreover have "is_positive_char e \<or> ge_type e = GRE_CHAR_NOT" using t by (auto simp: is_positive_char_def)
  ultimately show ?thesis using e m(1) by (simp add: llama_grammar_match_char_def)
qed

text \<open>The starts of the alternates of a well-formed rule.\<close>

lemma alternates_total:
  "elems_ok k es \<Longrightarrow> \<exists>is. alternates start i es = Some is \<and> is \<noteq> []"
proof (induction es arbitrary: k start i)
  case (Cons e es)
  show ?case
  proof (cases "ge_type e = GRE_ALT")
    case True
    then obtain "is" where "alternates (Suc i) (Suc i) es = Some is" using Cons by fastforce
    then show ?thesis using True by simp
  qed (use Cons in \<open>auto split: llama_gretype.splits\<close>)
qed simp

lemma alternates_starts:
  "alternates start i es = Some is \<Longrightarrow> elems_ok k es \<Longrightarrow> j \<in> set is \<Longrightarrow>
   j = start \<or> (\<exists>m < length es. j = i + Suc m \<and> ge_type (es ! m) = GRE_ALT \<and> elems_ok 0 (drop (Suc m) es))"
proof (induction es arbitrary: start i "is" k)
  case (Cons e es)
  show ?case
  proof (cases "ge_type e")
    case GRE_END
    then show ?thesis using Cons.prems by auto
  next
    case GRE_ALT
    then obtain is' where is': "alternates (Suc i) (Suc i) es = Some is'" "is = start # is'" using Cons.prems(1) by auto
    have ok: "elems_ok 0 es" using Cons.prems(2) GRE_ALT by simp
    from Cons.prems(3) is'(2) consider "j = start" | "j \<in> set is'" by auto
    then show ?thesis
    proof cases
      case 2
      from Cons.IH [OF is'(1) ok 2] consider "j = Suc i" | m where "m < length es" "j = Suc i + Suc m" "ge_type (es ! m) = GRE_ALT" "elems_ok 0 (drop (Suc m) es)"
        by blast
      then show ?thesis
      proof cases
        case 1
        then show ?thesis using GRE_ALT ok by (intro disjI2 exI [of _ 0]) simp
      next
        case (2 m)
        then show ?thesis by (intro disjI2 exI [of _ "Suc m"]) simp
      qed
    qed simp
  qed (use Cons in \<open>fastforce split: if_splits\<close>)+
qed simp

lemma rule_start_pos_ok:
  assumes "rules_ok rules" and "rule_start rules r i"
  shows "pos_ok rules (r, i)" "i = 0 \<or> ge_type (rules ! r ! (i - 1)) = GRE_ALT \<and> 0 < i \<and> i \<le> length (rules ! r)"
proof -
  obtain "is" where "is": "r < length rules" "alternates 0 0 (rules ! r) = Some is" "i \<in> set is" using assms(2) by (auto simp: rule_start_def)
  have ok: "elems_ok 0 (rules ! r)" using assms(1) "is"(1) by (auto simp: rules_ok_def)
  from alternates_starts [OF "is"(2) ok "is"(3)] show "pos_ok rules (r, i)"
    "i = 0 \<or> ge_type (rules ! r ! (i - 1)) = GRE_ALT \<and> 0 < i \<and> i \<le> length (rules ! r)"
    using ok "is"(1) by (auto simp: pos_ok_def)
qed

lemma rule_start_ex: "rules_ok rules \<Longrightarrow> r < length rules \<Longrightarrow> \<exists>i. rule_start rules r i"
proof -
  assume a: "rules_ok rules" "r < length rules"
  then have "elems_ok 0 (rules ! r)" by (simp add: rules_ok_def)
  from alternates_total [OF this, of 0 0] obtain "is" where "alternates 0 0 (rules ! r) = Some is" "is \<noteq> []" by blast
  then show ?thesis using a(2) by (intro exI [of _ "hd is"]) (simp add: rule_start_def)
qed

section \<open>Expansion is well-founded\<close>

definition stack_ok :: "grammar_rules \<Rightarrow> grammar_stack \<Rightarrow> bool" where
  "stack_ok rules st \<longleftrightarrow> (\<forall>p \<in> set st. pos_ok rules p \<and> is_end_of_sequence rules p = Some False)"

lemma push_pos_ok:
  assumes "pos_ok rules p" and "stack_ok rules st"
  shows "\<exists>s. push_pos rules p st = Some s \<and> stack_ok rules s"
proof -
  obtain b where b: "is_end_of_sequence rules p = Some b" using pos_ok_end [OF assms(1)] by blast
  show ?thesis using assms b by (cases b) (simp_all add: push_pos_def stack_ok_def)
qed

lemma expand_ok:
  assumes rules: "rules_ok rules" and ex: "expand rules st s" and st: "stack_ok rules st"
  shows "stack_ok rules s"
  using ex
proof cases
  case (expandI p e i st' s1)
  have p: "pos_ok rules p" and st': "stack_ok rules st'" using st expandI(1) by (auto simp: stack_ok_def)
  have s1: "stack_ok rules s1" using push_pos_ok [OF pos_ok_next [OF p expandI(2,3)] st'] expandI(5) by auto
  show ?thesis using push_pos_ok [OF rule_start_pos_ok(1) [OF rules expandI(4)] s1] expandI(6) by auto
qed

text \<open>Expansion from a stack ends.\<close>

inductive halts :: "grammar_rules \<Rightarrow> grammar_stack \<Rightarrow> bool" for rules where
  haltsI: "(\<And>s. expand rules st s \<Longrightarrow> halts rules s) \<Longrightarrow> halts rules st"

text \<open>Positions reached from the start of an alternate over references to rules that satisfy \<open>E\<close>.\<close>

definition left_pos :: "(nat \<Rightarrow> bool) \<Rightarrow> grammar_rules \<Rightarrow> nat \<Rightarrow> nat \<Rightarrow> bool" where
  "left_pos E rules r i \<longleftrightarrow> (\<exists>j \<le> i. rule_start rules r j \<and>
     (\<forall>m. j \<le> m \<longrightarrow> m < i \<longrightarrow> (\<exists>e. elem_at rules (r, m) = Some e \<and> ge_type e = GRE_RULE_REF \<and> E (unat (ge_value e)))))"

text \<open>Left recursion, from the language alone: a rule that reaches itself over references before which only rules stand
  that derive the empty word.\<close>

definition nullable :: "grammar_rules \<Rightarrow> nat \<Rightarrow> bool" where
  "nullable rules r \<longleftrightarrow> rule_lang rules r []"

definition left_step :: "grammar_rules \<Rightarrow> (nat \<times> nat) set" where
  "left_step rules = {(r, r'). \<exists>i e. left_pos (nullable rules) rules r i \<and> elem_at rules (r, i) = Some e \<and>
     ge_type e = GRE_RULE_REF \<and> r' = unat (ge_value e)}"

definition left_recursive :: "grammar_rules \<Rightarrow> bool" where
  "left_recursive rules \<longleftrightarrow> (\<exists>r. (r, r) \<in> (left_step rules)\<^sup>+)"

text \<open>Every rule that derives the empty word has an alternate without elements.\<close>

definition empty_rules_direct :: "grammar_rules \<Rightarrow> bool" where
  "empty_rules_direct rules \<longleftrightarrow> (\<forall>r < length rules. nullable rules r \<longrightarrow>
     (\<exists>i. rule_start rules r i \<and> is_end_of_sequence rules (r, i) = Some True))"

fun flag_after :: "(nat \<Rightarrow> bool) \<Rightarrow> bool \<Rightarrow> grammar_element list \<Rightarrow> bool" where
  "flag_after E b [] = b"
| "flag_after E b (e # es) =
     flag_after E (if ge_type e = GRE_RULE_REF \<and> b then E (unat (ge_value e)) else is_end_type (ge_type e)) es"

lemma left_refs_append: "left_refs E b (xs @ ys) = left_refs E b xs @ left_refs E (flag_after E b xs) ys"
  by (induction xs arbitrary: b) (auto simp: is_end_type_def)

lemma flag_after_append: "flag_after E b (xs @ ys) = flag_after E (flag_after E b xs) ys"
  by (induction xs arbitrary: b) auto

lemma flag_after_refs:
  "\<forall>e \<in> set es. ge_type e = GRE_RULE_REF \<and> E (unat (ge_value e)) \<Longrightarrow> flag_after E True es"
  by (induction es) auto

lemma left_pos_refs:
  assumes rules: "rules_ok rules" and lp: "left_pos E rules r i" and e: "elem_at rules (r, i) = Some e" "ge_type e = GRE_RULE_REF"
  shows "r < length rules \<and> unat (ge_value e) \<in> set (left_refs E True (rules ! r))"
proof -
  let ?es = "rules ! r" and ?E = E
  obtain j where j: "j \<le> i" "rule_start rules r j"
    "\<forall>m. j \<le> m \<longrightarrow> m < i \<longrightarrow> (\<exists>e. elem_at rules (r, m) = Some e \<and> ge_type e = GRE_RULE_REF \<and> ?E (unat (ge_value e)))"
    using lp by (auto simp: left_pos_def)
  have i: "r < length rules" "i < length ?es" "e = ?es ! i" using e(1) by (auto simp: elem_at_def split: if_splits)
  have split: "?es = take j ?es @ drop j (take i ?es) @ e # drop (Suc i) ?es"
  proof -
    have "take i ?es = take j (take i ?es) @ drop j (take i ?es)" by (rule append_take_drop_id [symmetric])
    moreover have "take j (take i ?es) = take j ?es" using j(1) by (simp add: min_def)
    ultimately have "take i ?es = take j ?es @ drop j (take i ?es)" by metis
    then show ?thesis using id_take_nth_drop [OF i(2)] i(3) by (metis append_assoc)
  qed
  have "flag_after ?E True (take j ?es)"
  proof (cases "j = 0")
    case False
    then have alt: "ge_type (?es ! (j - 1)) = GRE_ALT" "j \<le> length ?es" using rule_start_pos_ok(2) [OF rules j(2)] by auto
    then have "take j ?es = take (j - 1) ?es @ [?es ! (j - 1)]" using False by (metis Suc_pred' neq0_conv take_Suc_conv_app_nth Suc_le_lessD)
    then show ?thesis using alt(1) by (simp add: flag_after_append is_end_type_def)
  qed simp
  moreover have "\<forall>x \<in> set (drop j (take i ?es)). ge_type x = GRE_RULE_REF \<and> ?E (unat (ge_value x))"
  proof
    fix x assume "x \<in> set (drop j (take i ?es))"
    then obtain m where m: "m < length (drop j (take i ?es))" "x = drop j (take i ?es) ! m" by (metis in_set_conv_nth)
    then have "x = ?es ! (j + m)" "j + m < i" using i(2) j(1) by auto
    then show "ge_type x = GRE_RULE_REF \<and> ?E (unat (ge_value x))" using j(3) i by (auto simp: elem_at_def split: if_splits)
  qed
  ultimately have "flag_after ?E True (take j ?es @ drop j (take i ?es))" using flag_after_refs by (simp add: flag_after_append)
  then have "unat (ge_value e) \<in> set (left_refs ?E True ?es)"
    using e(2) by (subst split) (simp add: left_refs_append flag_after_append)
  then show ?thesis using i(1) by simp
qed

lemma left_pos_Suc:
  assumes "left_pos E rules r i" and "elem_at rules (r, i) = Some e" and "ge_type e = GRE_RULE_REF" and "E (unat (ge_value e))"
  shows "left_pos E rules r (Suc i)"
proof -
  obtain j where j: "j \<le> i" "rule_start rules r j"
    "\<forall>m. j \<le> m \<longrightarrow> m < i \<longrightarrow> (\<exists>e. elem_at rules (r, m) = Some e \<and> ge_type e = GRE_RULE_REF \<and> E (unat (ge_value e)))"
    using assms(1) by (auto simp: left_pos_def)
  then show ?thesis using assms(2-4) unfolding left_pos_def by (intro exI [of _ j]) (auto simp: less_Suc_eq)
qed

lemma start_left_pos: "rule_start rules r i \<Longrightarrow> left_pos E rules r i"
  unfolding left_pos_def by (intro exI [of _ i]) auto

lemma left_pos_mono:
  assumes "rules_ok rules" and "left_pos E rules r i" and "\<And>x. x < length rules \<Longrightarrow> E x \<Longrightarrow> E' x"
  shows "left_pos E' rules r i"
  using assms(2,3) ref_target [OF assms(1)] unfolding left_pos_def by blast

text \<open>The references that the scan of a rule follows stand at such positions.\<close>

lemma rule_start_after_alt:
  assumes rules: "rules_ok rules" and r: "r < length rules" and es: "rules ! r = xs @ e # ys" and alt: "ge_type e = GRE_ALT"
  shows "rule_start rules r (Suc (length xs))"
proof -
  have "i + Suc (length xs) \<in> set is" if "alternates start i (xs @ e # ys) = Some is" "elems_ok k (xs @ e # ys)" for start i "is" k
    using that
  proof (induction xs arbitrary: start i "is" k)
    case Nil
    then obtain is' where "alternates (Suc i) (Suc i) ys = Some is'" "is = start # is'" using alt by auto
    moreover have "Suc i \<in> set is'" if "alternates (Suc i) k ys = Some is'" for k
      using that by (induction ys arbitrary: k is') (auto split: if_splits)
    ultimately show ?case by auto
  next
    case (Cons x xs)
    then show ?case by (cases "ge_type x") (fastforce split: if_splits)+
  qed
  moreover have ok: "elems_ok 0 (rules ! r)" using rules r by (simp add: rules_ok_def)
  then obtain "is" where "alternates 0 0 (rules ! r) = Some is" using alternates_total by blast
  ultimately show ?thesis using es ok r by (force simp: rule_start_def)
qed

lemma rule_start_0:
  assumes "rules_ok rules" and "r < length rules"
  shows "rule_start rules r 0"
proof -
  have "start \<in> set is" if "alternates start i es = Some is" for start i es "is"
    using that by (induction es arbitrary: start i "is") (auto split: if_splits)
  moreover have "elems_ok 0 (rules ! r)" using assms by (simp add: rules_ok_def)
  ultimately show ?thesis using alternates_total assms(2) by (fastforce simp: rule_start_def)
qed

lemma elem_at_append: "r < length rules \<Longrightarrow> rules ! r = xs @ e # ys \<Longrightarrow> elem_at rules (r, length xs) = Some e"
  by (simp add: elem_at_def)

lemma left_refs_pos:
  assumes rules: "rules_ok rules" and r: "r < length rules"
  shows "x \<in> set (left_refs E b ys) \<Longrightarrow> rules ! r = xs @ ys \<Longrightarrow> (b \<Longrightarrow> left_pos E rules r (length xs)) \<Longrightarrow>
    \<exists>i e. left_pos E rules r i \<and> elem_at rules (r, i) = Some e \<and> ge_type e = GRE_RULE_REF \<and> x = unat (ge_value e)"
proof (induction ys arbitrary: xs b)
  case (Cons e ys)
  have at: "elem_at rules (r, length xs) = Some e" by (rule elem_at_append [OF r Cons.prems(2)])
  have es: "rules ! r = (xs @ [e]) @ ys" using Cons.prems(2) by simp
  show ?case
  proof (cases "ge_type e = GRE_RULE_REF \<and> b")
    case True
    then have lp: "left_pos E rules r (length xs)" using Cons.prems(3) by simp
    consider "x = unat (ge_value e)" | "x \<in> set (left_refs E (E (unat (ge_value e))) ys)" using Cons.prems(1) True by auto
    then show ?thesis
    proof cases
      case 2
      show ?thesis by (rule Cons.IH [OF 2 es]) (use left_pos_Suc [OF lp at] True in simp)
    qed (use lp at True in blast)
  next
    case False
    then have x: "x \<in> set (left_refs E (is_end_type (ge_type e)) ys)" using Cons.prems(1) by (auto simp: is_end_type_def split: if_splits)
    have "left_pos E rules r (length (xs @ [e]))" if "is_end_type (ge_type e)"
    proof -
      have "elems_ok k (us @ e # ys) \<Longrightarrow> ge_type e = GRE_END \<Longrightarrow> ys = []" for k us
        by (induction us arbitrary: k) (auto split: llama_gretype.splits)
      then have "ge_type e = GRE_END \<Longrightarrow> ys = []" using rules r Cons.prems(2) by (metis nth_mem rules_ok_def)
      then have "ge_type e = GRE_ALT" using that x by (auto simp: is_end_type_def)
      then show ?thesis using start_left_pos [OF rule_start_after_alt [OF rules r Cons.prems(2)]] by simp
    qed
    then show ?thesis using Cons.IH [OF x es] by blast
  qed
qed simp

text \<open>The test for an empty alternate.\<close>

lemma has_empty_alt_iff:
  assumes rules: "rules_ok rules" and r: "r < length rules"
  shows "directly_empty rules r \<longleftrightarrow> (\<exists>i. rule_start rules r i \<and> is_end_of_sequence rules (r, i) = Some True)"
proof
  have "\<exists>i. rule_start rules r i \<and> is_end_of_sequence rules (r, i) = Some True"
    if "has_empty_alt b ys" "rules ! r = xs @ ys" "b \<Longrightarrow> rule_start rules r (length xs)" for b xs ys
    using that
  proof (induction ys arbitrary: xs b)
    case (Cons e ys)
    have at: "elem_at rules (r, length xs) = Some e" by (rule elem_at_append [OF r Cons.prems(2)])
    have es: "rules ! r = (xs @ [e]) @ ys" using Cons.prems(2) by simp
    have "elems_ok k (us @ e # ys) \<Longrightarrow> ge_type e = GRE_END \<Longrightarrow> ys = []" for k us
      by (induction us arbitrary: k) (auto split: llama_gretype.splits)
    then have last: "ge_type e = GRE_END \<Longrightarrow> ys = []" using rules r Cons.prems(2) by (metis nth_mem rules_ok_def)
    consider "is_end_type (ge_type e)" b | "is_end_type (ge_type e)" "has_empty_alt True ys" | "has_empty_alt False ys"
      using Cons.prems(1) by (auto split: if_splits)
    then show ?case
    proof cases
      case 1
      then show ?thesis using Cons.prems(3) at by (auto simp: is_end_of_sequence_def)
    next
      case 2
      then have "ge_type e = GRE_ALT" using last by (auto simp: is_end_type_def)
      then show ?thesis using Cons.IH [OF 2(2) es] rule_start_after_alt [OF rules r Cons.prems(2)] by simp
    next
      case 3
      show ?thesis by (rule Cons.IH [OF 3 es]) simp
    qed
  qed simp
  from this [of True "rules ! r" "[]"] show "directly_empty rules r \<Longrightarrow> \<exists>i. rule_start rules r i \<and> is_end_of_sequence rules (r, i) = Some True"
    using rule_start_0 [OF rules r] by (simp add: directly_empty_def)
next
  assume "\<exists>i. rule_start rules r i \<and> is_end_of_sequence rules (r, i) = Some True"
  then obtain i where i: "rule_start rules r i" "is_end_of_sequence rules (r, i) = Some True" by blast
  let ?es = "rules ! r"
  have at: "i < length ?es" "is_end_type (ge_type (?es ! i))" using i(2) by (auto simp: is_end_of_sequence_def elem_at_def split: if_splits)
  have skip: "has_empty_alt True ys \<Longrightarrow> is_end_type (ge_type e) \<Longrightarrow> has_empty_alt b (xs @ e # ys)" for b xs e ys
    by (induction xs arbitrary: b) auto
  have here: "has_empty_alt True (drop i ?es)" using at by (simp add: Cons_nth_drop_Suc [symmetric])
  show "directly_empty rules r"
  proof (cases "i = 0")
    case False
    then have alt: "ge_type (?es ! (i - 1)) = GRE_ALT" "0 < i" using rule_start_pos_ok(2) [OF rules i(1)] by auto
    have "?es = take (i - 1) ?es @ ?es ! (i - 1) # drop i ?es"
      using id_take_nth_drop [of "i - 1" ?es] at(1) alt(2) by simp
    then show ?thesis using skip [OF here, of "?es ! (i - 1)" True "take (i - 1) ?es"] alt(1)
      by (simp add: directly_empty_def is_end_type_def)
  qed (use here in \<open>simp add: directly_empty_def\<close>)
qed

lemma directly_empty_nullable:
  assumes "rules_ok rules" and "r < length rules" and "directly_empty rules r"
  shows "nullable rules r"
  using has_empty_alt_iff [OF assms(1,2)] assms(3) seq_end by (auto simp: nullable_def rule_lang_def)

lemma left_rel_step: "rules_ok rules \<Longrightarrow> left_rel rules \<subseteq> left_step rules"
proof clarify
  fix r x assume rules: "rules_ok rules" and "(r, x) \<in> left_rel rules"
  then have r: "r < length rules" and x: "x \<in> set (left_refs (directly_empty rules) True (rules ! r))" by (auto simp: left_rel_def)
  have "left_pos (directly_empty rules) rules r (length ([] :: grammar_element list))" using start_left_pos [OF rule_start_0 [OF rules r]] by simp
  then obtain i e where "left_pos (directly_empty rules) rules r i" "elem_at rules (r, i) = Some e" "ge_type e = GRE_RULE_REF" "x = unat (ge_value e)"
    using left_refs_pos [OF rules r x, of "[]"] by auto
  then show "(r, x) \<in> left_step rules"
    using left_pos_mono [OF rules _ directly_empty_nullable [OF rules]] by (fastforce simp: left_step_def)
qed

lemma left_step_rel: "rules_ok rules \<Longrightarrow> empty_rules_direct rules \<Longrightarrow> left_step rules \<subseteq> left_rel rules"
proof clarify
  fix r x assume rules: "rules_ok rules" and direct: "empty_rules_direct rules" and "(r, x) \<in> left_step rules"
  then obtain i e where e: "left_pos (nullable rules) rules r i" "elem_at rules (r, i) = Some e" "ge_type e = GRE_RULE_REF" "x = unat (ge_value e)"
    by (auto simp: left_step_def)
  have "left_pos (directly_empty rules) rules r i"
    using left_pos_mono [OF rules e(1)] has_empty_alt_iff [OF rules] direct by (simp add: empty_rules_direct_def)
  from left_pos_refs [OF rules this e(2,3)] show "(r, x) \<in> left_rel rules" using e(4) by (simp add: left_rel_def)
qed

lemma left_step_bound:
  assumes "rules_ok rules"
  shows "left_step rules \<subseteq> {..<length rules} \<times> {..<length rules}"
proof -
  have "r < length rules" if "elem_at rules (r, i) = Some e" for r i e using that by (simp add: elem_at_def split: if_splits)
  then show ?thesis using ref_target [OF assms] by (auto simp: left_step_def)
qed

lemma left_step_wf:
  assumes "rules_ok rules" and "\<not> left_recursive rules"
  shows "wf ((left_step rules)\<inverse>)"
proof (rule finite_acyclic_wf_converse)
  show "finite (left_step rules)" using left_step_bound [OF assms(1)] by (rule finite_subset) simp
  show "acyclic (left_step rules)" using assms(2) by (simp add: left_recursive_def acyclic_def)
qed

lemma halts_rest: "at_rest rules st \<Longrightarrow> halts rules st"
  by (rule haltsI) (auto dest: expand_not_rest)

text \<open>One position: pushing it keeps expansion well-founded, given what its references do.\<close>

lemma halts_push:
  assumes rules: "rules_ok rules" and p: "pos_ok rules p"
    and fin: "seq_lang rules p [] \<Longrightarrow> halts rules st"
    and ref: "\<And>e i s1 s2. elem_at rules p = Some e \<Longrightarrow> ge_type e = GRE_RULE_REF \<Longrightarrow> rule_start rules (unat (ge_value e)) i \<Longrightarrow>
      push_pos rules (advance_pos 1 p) st = Some s1 \<Longrightarrow> push_pos rules (unat (ge_value e), i) s1 = Some s2 \<Longrightarrow> halts rules s2"
    and push: "push_pos rules p st = Some s"
  shows "halts rules s"
proof -
  obtain e es where e: "elem_at rules p = Some e" "ge_type e \<noteq> GRE_CHAR_ALT" "ge_type e \<noteq> GRE_CHAR_RNG_UPPER"
    using p by (rule pos_ok_elem)
  consider "is_end_type (ge_type e)" | "ge_type e \<in> {GRE_CHAR, GRE_CHAR_NOT, GRE_CHAR_ANY}" | "ge_type e = GRE_RULE_REF"
    using e by (cases "ge_type e") (auto simp: is_end_type_def)
  then show ?thesis
  proof cases
    case 1
    then have "is_end_of_sequence rules p = Some True" using e(1) by (simp add: is_end_of_sequence_def)
    then show ?thesis using fin [OF seq_end] push by (simp add: push_pos_def)
  next
    case 2
    then have "char_pos rules p" using e(1) by (simp add: char_pos_def)
    then show ?thesis using push char_pos_push [of rules p st] by (auto intro!: halts_rest simp: at_rest_def)
  next
    case 3
    then have s: "s = p # st" using push not_end_push [OF e(1), of st] by (auto simp: is_end_type_def)
    show ?thesis
    proof (rule haltsI)
      fix s2 assume "expand rules s s2"
      then show "halts rules s2" unfolding s by (auto elim!: expand_ConsE intro: ref)
    qed
  qed
qed

lemma rules_halt:
  assumes rules: "rules_ok rules" and wf: "wf ((left_step rules)\<inverse>)"
    and "left_pos (nullable rules) rules r i" and "pos_ok rules (r, i)" and "seq_lang rules (r, i) [] \<Longrightarrow> halts rules st"
    and "push_pos rules (r, i) st = Some s"
  shows "halts rules s"
  using wf assms(3-6)
proof (induction r arbitrary: i st s rule: wf_induct_rule)
  case (less r)
  show ?case using less.prems
  proof (induction "length (rules ! r) - i" arbitrary: i st s rule: less_induct)
    case inner: less
    show ?case
    proof (rule halts_push [OF rules inner.prems(2,3) _ inner.prems(4)])
      fix e j s1 s2 assume e: "elem_at rules (r, i) = Some e" "ge_type e = GRE_RULE_REF" and j: "rule_start rules (unat (ge_value e)) j"
        and s1: "push_pos rules (advance_pos 1 (r, i)) st = Some s1" and s2: "push_pos rules (unat (ge_value e), j) s1 = Some s2"
      let ?r = "unat (ge_value e)"
      have rel: "(?r, r) \<in> (left_step rules)\<inverse>" using inner.prems(1) e by (auto simp: left_step_def)
      have i: "i < length (rules ! r)" using e(1) by (auto simp: elem_at_def split: if_splits)
      show "halts rules s2"
      proof (rule less.IH [OF rel start_left_pos [OF j] rule_start_pos_ok(1) [OF rules j] _ s2])
        assume nul: "seq_lang rules (?r, j) []"
        have "nullable rules ?r" using nul j by (auto simp: nullable_def rule_lang_def)
        then have lp: "left_pos (nullable rules) rules r (Suc i)" by (rule left_pos_Suc [OF inner.prems(1) e])
        have next_ok: "pos_ok rules (r, Suc i)" using pos_ok_next [OF inner.prems(2) e] by (simp add: advance_pos_def)
        show "halts rules s1"
        proof (rule inner.hyps [OF _ lp next_ok])
          show "length (rules ! r) - Suc i < length (rules ! r) - i" using i by simp
          show "push_pos rules (r, Suc i) st = Some s1" using s1 by (simp add: advance_pos_def)
          show "halts rules st" if "seq_lang rules (r, Suc i) []"
          proof (rule inner.prems(3))
            show "seq_lang rules (r, i) []" using seq_ref [OF e j nul, of "[]"] that by (simp add: advance_pos_def)
          qed
        qed
      qed
    qed
  qed
qed

lemma push_halts:
  assumes rules: "rules_ok rules" and wf: "wf ((left_step rules)\<inverse>)"
    and "pos_ok rules (r, i)" and "halts rules st" and "push_pos rules (r, i) st = Some s"
  shows "halts rules s"
  using assms(3-5)
proof (induction "length (rules ! r) - i" arbitrary: i s rule: less_induct)
  case less
  show ?case
  proof (rule halts_push [OF rules less.prems(1) less.prems(2) _ less.prems(3)])
    fix e j s1 s2 assume e: "elem_at rules (r, i) = Some e" "ge_type e = GRE_RULE_REF" and j: "rule_start rules (unat (ge_value e)) j"
      and s1: "push_pos rules (advance_pos 1 (r, i)) st = Some s1" and s2: "push_pos rules (unat (ge_value e), j) s1 = Some s2"
    have i: "i < length (rules ! r)" using e(1) by (auto simp: elem_at_def split: if_splits)
    have "halts rules s1"
      using less.hyps [of "Suc i" s1] i pos_ok_next [OF less.prems(1) e] less.prems(2) s1 by (simp add: advance_pos_def)
    then show "halts rules s2"
      using rules_halt [OF rules wf start_left_pos [OF j] rule_start_pos_ok(1) [OF rules j] _ s2] by blast
  qed
qed

lemma stack_halts:
  assumes "rules_ok rules" and "wf ((left_step rules)\<inverse>)"
  shows "stack_ok rules st \<Longrightarrow> halts rules st"
proof (induction st)
  case Nil
  show ?case by (rule halts_rest) (simp add: at_rest_def)
next
  case (Cons p st)
  then have "pos_ok rules p" "push_pos rules p st = Some (p # st)" "halts rules st"
    by (auto simp: stack_ok_def push_pos_def)
  then show ?case using push_halts [OF assms, of "fst p" "snd p"] by simp
qed

section \<open>The engine returns\<close>

lemma foldM_total:
  "(\<And>x s. x \<in> set xs \<Longrightarrow> \<exists>s'. f x s = Some s') \<Longrightarrow> \<exists>s'. foldM f xs s = Some s'"
  using foldM_inv [of "\<lambda>_ _. True" s xs f] by auto

text \<open>One bound for finitely many eventually true facts.\<close>

lemma eventually_finite:
  assumes "finite S" and "\<And>x. x \<in> S \<Longrightarrow> \<exists>n. \<forall>m \<ge> n. P x (m :: nat)"
  shows "\<exists>n. \<forall>m \<ge> n. \<forall>x \<in> S. P x m"
  using assms
proof (induction S rule: finite_induct)
  case (insert x S)
  obtain n1 where "\<forall>m \<ge> n1. \<forall>x \<in> S. P x m" using insert.IH insert.prems by blast
  moreover obtain n2 where "\<forall>m \<ge> n2. P x m" using insert.prems by blast
  ultimately show ?case by (intro exI [of _ "max n1 n2"]) auto
qed simp

lemma advance_returns:
  assumes rules: "rules_ok rules"
  shows "halts rules st \<Longrightarrow> stack_ok rules st \<Longrightarrow> \<exists>n. \<forall>m \<ge> n. \<forall>new. \<exists>res. llama_grammar_advance_stack m rules st new = Some res"
proof (induction rule: halts.induct)
  case (haltsI st)
  show ?case
  proof (cases st)
    case Nil
    then show ?thesis by (intro exI [of _ 1]) (auto dest!: Suc_le_D simp: Suc_le_eq [symmetric])
  next
    case (Cons p st')
    have p: "pos_ok rules p" and fin: "is_end_of_sequence rules p = Some False" and st': "stack_ok rules st'"
      using haltsI.prems Cons by (auto simp: stack_ok_def)
    obtain e es where e: "elem_at rules p = Some e" "ge_type e \<noteq> GRE_CHAR_ALT" "ge_type e \<noteq> GRE_CHAR_RNG_UPPER"
      using p by (rule pos_ok_elem)
    then have t: "ge_type e \<noteq> GRE_END" "ge_type e \<noteq> GRE_ALT" using fin by (auto simp: is_end_of_sequence_def is_end_type_def)
    show ?thesis
    proof (cases "ge_type e = GRE_RULE_REF")
      case False
      then have "llama_grammar_advance_stack (Suc m) rules st new = Some (add_new st new)" for m new
        using e t Cons by (cases "ge_type e") auto
      then show ?thesis by (intro exI [of _ 1]) (auto dest!: Suc_le_D simp del: llama_grammar_advance_stack.simps)
    next
      case True
      let ?r = "unat (ge_value e)"
      have r: "?r < length rules" by (rule ref_target [OF rules e(1) True])
      then obtain "is" where "is": "alternates 0 0 (rules ! ?r) = Some is" using alternates_total rules by (metis nth_mem rules_ok_def)
      obtain s1 where s1: "push_pos rules (advance_pos 1 p) st' = Some s1" "stack_ok rules s1"
        using push_pos_ok [OF pos_ok_next [OF p e(1) True] st'] by blast
      have starts: "rule_start rules ?r i" if "i \<in> set is" for i using that r "is" by (simp add: rule_start_def)
      have "\<exists>n. \<forall>m \<ge> n. \<forall>new. \<exists>s2 res. push_pos rules (?r, i) s1 = Some s2 \<and> llama_grammar_advance_stack m rules s2 new = Some res"
        if i: "i \<in> set is" for i
      proof -
        obtain s2 where s2: "push_pos rules (?r, i) s1 = Some s2"
          using push_pos_ok [OF rule_start_pos_ok(1) [OF rules starts [OF i]] s1(2)] by blast
        have ex: "expand rules st s2" unfolding Cons by (rule expandI [OF e(1) True starts [OF i] s1(1) s2])
        then show ?thesis using haltsI.IH [OF ex expand_ok [OF rules ex haltsI.prems]] s2 by simp
      qed
      then obtain n where n: "\<forall>m \<ge> n. \<forall>i \<in> set is. \<forall>new. \<exists>s2 res. push_pos rules (?r, i) s1 = Some s2 \<and>
          llama_grammar_advance_stack m rules s2 new = Some res"
        using eventually_finite [of "set is" "\<lambda>i m. \<forall>new. \<exists>s2 res. push_pos rules (?r, i) s1 = Some s2 \<and>
          llama_grammar_advance_stack m rules s2 new = Some res"] by blast
      have "\<exists>res. llama_grammar_advance_stack (Suc m) rules st new = Some res" if "m \<ge> n" for m new
        unfolding Cons using e(1) True r "is" s1(1) n that
        by (simp add: Let_def) (rule foldM_total, fastforce)
      then show ?thesis by (intro exI [of _ "Suc n"]) (metis Suc_le_D Suc_le_mono)
    qed
  qed
qed

lemma closure_ok:
  assumes "rules_ok rules" and "stack_ok rules st" and "s \<in> closure rules st"
  shows "stack_ok rules s \<and> at_rest rules s"
proof -
  have "stack_ok rules s" if "runs rules st w s" "w = []" for w
    using that assms(2) by (induction rule: runs.induct) (auto intro: expand_ok [OF assms(1)])
  then show ?thesis using assms(3) by (auto simp: closure_def)
qed

text \<open>Some alternate can always be followed to the end: a stack that halts has a nonempty closure.\<close>

lemma closure_nonempty:
  assumes rules: "rules_ok rules"
  shows "halts rules st \<Longrightarrow> stack_ok rules st \<Longrightarrow> closure rules st \<noteq> {}"
proof (induction rule: halts.induct)
  case (haltsI st)
  show ?case
  proof (cases "at_rest rules st")
    case True
    then show ?thesis using closure_rest by simp
  next
    case False
    then obtain p st' where Cons: "st = p # st'" by (cases st) (auto simp: at_rest_def)
    have p: "pos_ok rules p" and fin: "is_end_of_sequence rules p = Some False" and st': "stack_ok rules st'"
      using haltsI.prems Cons by (auto simp: stack_ok_def)
    obtain e es where e: "elem_at rules p = Some e" "ge_type e \<noteq> GRE_CHAR_ALT" "ge_type e \<noteq> GRE_CHAR_RNG_UPPER"
      using p by (rule pos_ok_elem)
    have t: "ge_type e = GRE_RULE_REF" using fin e False Cons
      by (cases "ge_type e") (auto simp: is_end_of_sequence_def is_end_type_def at_rest_def char_pos_def)
    have r: "unat (ge_value e) < length rules" by (rule ref_target [OF rules e(1) t])
    then obtain i where i: "rule_start rules (unat (ge_value e)) i" using rule_start_ex [OF rules] by blast
    obtain s1 where s1: "push_pos rules (advance_pos 1 p) st' = Some s1" "stack_ok rules s1"
      using push_pos_ok [OF pos_ok_next [OF p e(1) t] st'] by blast
    obtain s2 where s2: "push_pos rules (unat (ge_value e), i) s1 = Some s2"
      using push_pos_ok [OF rule_start_pos_ok(1) [OF rules i] s1(2)] by blast
    have ex: "expand rules st s2" unfolding Cons by (rule expandI [OF e(1) t i s1(1) s2])
    from haltsI.IH [OF ex expand_ok [OF rules ex haltsI.prems]] show ?thesis
      using closure_expand [OF False] ex by auto
  qed
qed

definition expands :: "grammar_rules \<Rightarrow> bool" where
  "expands rules \<longleftrightarrow> rules_ok rules \<and> (\<forall>st. stack_ok rules st \<longrightarrow> halts rules st)"

lemma expands_advance:
  assumes "expands rules" and "stack_ok rules st"
  shows "\<exists>n. \<forall>m \<ge> n. \<forall>new. \<exists>res. llama_grammar_advance_stack m rules st new = Some res"
  using advance_returns assms by (simp add: expands_def)

definition stacks_ok :: "grammar_rules \<Rightarrow> grammar_stack list \<Rightarrow> bool" where
  "stacks_ok rules stacks \<longleftrightarrow> (\<forall>st \<in> set stacks. stack_ok rules st \<and> at_rest rules st)"

lemma accept_stack_returns:
  assumes ex: "expands rules" and st: "stack_ok rules st" "at_rest rules st"
  shows "\<exists>n. \<forall>m \<ge> n. \<forall>new. \<exists>res. accept_stack m rules c st new = Some res"
proof (cases st)
  case (Cons p st')
  then have p: "pos_ok rules p" "char_pos rules p" and st': "stack_ok rules st'" using st by (auto simp: stack_ok_def at_rest_def)
  obtain b q where m: "llama_grammar_match_char rules p c = Some (b, q)" "pos_ok rules q" using match_char_total [OF p] by blast
  obtain s where s: "push_pos rules q st' = Some s" "stack_ok rules s" using push_pos_ok [OF m(2) st'] by blast
  from expands_advance [OF ex s(2)] show ?thesis using Cons m(1) s(1) by (auto simp: accept_stack_def)
qed (simp add: accept_stack_def)

lemma step_set_ok:
  assumes rules: "rules_ok rules" and st: "stacks_ok rules stacks" and s: "s \<in> step_set rules c (set stacks)"
  shows "stack_ok rules s \<and> at_rest rules s"
proof -
  obtain st0 s0 where s0: "st0 \<in> set stacks" "shift rules c st0 s0" "s \<in> closure rules s0" using s by (auto simp: step_set_def)
  have "stack_ok rules st0" using st s0(1) by (simp add: stacks_ok_def)
  with s0(2) have "stack_ok rules s0"
  proof cases
    case (shiftI p q st)
    then have p: "pos_ok rules p" and st: "stack_ok rules st" using \<open>stack_ok rules st0\<close> by (auto simp: stack_ok_def)
    have "pos_ok rules q" using match_char_total [OF p match_char_char_pos [OF shiftI(2)], of c] shiftI(2) by auto
    then show ?thesis using push_pos_ok [of rules q st] st shiftI(3) by auto
  qed
  then show ?thesis by (rule closure_ok [OF rules _ s0(3)])
qed

lemma accept_returns:
  assumes ex: "expands rules" and st: "stacks_ok rules stacks"
  shows "\<exists>n. \<forall>m \<ge> n. \<exists>res. llama_grammar_accept m rules c stacks = Some res"
proof -
  have "\<exists>n. \<forall>m \<ge> n. \<forall>new. \<exists>res. accept_stack m rules c s new = Some res" if "s \<in> set stacks" for s
    using st that accept_stack_returns [OF ex] by (simp add: stacks_ok_def)
  then obtain n where "\<forall>m \<ge> n. \<forall>s \<in> set stacks. \<forall>new. \<exists>res. accept_stack m rules c s new = Some res"
    using eventually_finite [of "set stacks" "\<lambda>s m. \<forall>new. \<exists>res. accept_stack m rules c s new = Some res"] by blast
  then show ?thesis unfolding llama_grammar_accept_def by (intro exI [of _ n] allI impI foldM_total) blast
qed

lemma accept_ok:
  assumes "expands rules" and "stacks_ok rules stacks" and "llama_grammar_accept m rules c stacks = Some res"
  shows "stacks_ok rules res"
  unfolding stacks_ok_def accept_step_set [OF assms(3)]
  using step_set_ok [OF _ assms(2)] assms(1) by (simp add: expands_def)

text \<open>A larger bound gives the same result.\<close>

lemma foldM_more:
  "foldM f xs new = Some res \<Longrightarrow> (\<And>x new res. f x new = Some res \<Longrightarrow> g x new = Some res) \<Longrightarrow> foldM g xs new = Some res"
proof (induction xs arbitrary: new)
  case (Cons x xs)
  then obtain mid where "f x new = Some mid" "foldM f xs mid = Some res" by (auto split: option.splits)
  then show ?case using Cons.IH [of mid] Cons.prems(2) by simp
qed simp

lemma advance_more:
  "llama_grammar_advance_stack n rules st new = Some res \<Longrightarrow> n \<le> m \<Longrightarrow> llama_grammar_advance_stack m rules st new = Some res"
proof (induction n arbitrary: m st new res)
  case (Suc n)
  obtain m' where m': "m = Suc m'" "n \<le> m'" using Suc.prems(2) Suc_le_D [of n m] by auto
  show ?case
  proof (cases st)
    case (Cons p st')
    obtain e where e: "elem_at rules p = Some e" using Suc.prems(1) Cons by (auto split: Option.bind_splits)
    show ?thesis
    proof (cases "ge_type e = GRE_RULE_REF")
      case True
      then obtain starts where starts: "unat (ge_value e) < length rules" "alternates 0 0 (rules ! unat (ge_value e)) = Some starts"
        and loop: "foldM (\<lambda>i new. do { s1 \<leftarrow> push_pos rules (advance_pos 1 p) st'; s2 \<leftarrow> push_pos rules (unat (ge_value e), i) s1;
            llama_grammar_advance_stack n rules s2 new }) starts new = Some res"
        using Suc.prems(1) e unfolding Cons by (auto simp: Let_def split: Option.bind_splits if_splits)
      have "foldM (\<lambda>i new. do { s1 \<leftarrow> push_pos rules (advance_pos 1 p) st'; s2 \<leftarrow> push_pos rules (unat (ge_value e), i) s1;
            llama_grammar_advance_stack m' rules s2 new }) starts new = Some res"
        using loop by (rule foldM_more) (auto split: Option.bind_splits dest: Suc.IH [OF _ m'(2)])
      then show ?thesis using starts e True unfolding Cons m'(1) by (simp add: Let_def)
    next
      case False
      then show ?thesis using Suc.prems(1) e unfolding Cons m'(1) by (auto split: llama_gretype.splits)
    qed
  qed (use Suc.prems m' in simp)
qed simp

lemma accept_more:
  assumes "llama_grammar_accept n rules c stacks = Some res" and "n \<le> m"
  shows "llama_grammar_accept m rules c stacks = Some res"
  using assms(1) unfolding llama_grammar_accept_def
proof (rule foldM_more)
  fix st new r assume "accept_stack n rules c st new = Some r"
  then show "accept_stack m rules c st new = Some r"
    using advance_more [OF _ assms(2)] by (auto simp: accept_stack_def split: list.splits Option.bind_splits if_splits)
qed

lemma accept_word_returns:
  assumes ex: "expands rules"
  shows "stacks_ok rules stacks \<Longrightarrow> \<exists>n. \<forall>m \<ge> n. \<exists>res. accept_word m rules w stacks = Some res \<and> stacks_ok rules res"
proof (induction w arbitrary: stacks)
  case (Cons c w)
  obtain n1 res where r: "llama_grammar_accept n1 rules c stacks = Some res" using accept_returns [OF ex Cons.prems] by blast
  obtain n2 where n2: "\<forall>m \<ge> n2. \<exists>out. accept_word m rules w res = Some out \<and> stacks_ok rules out"
    using Cons.IH [OF accept_ok [OF ex Cons.prems r]] by blast
  have "\<exists>out. accept_word m rules (c # w) stacks = Some out \<and> stacks_ok rules out" if "m \<ge> max n1 n2" for m
    using n2 accept_more [OF r, of m] that by (auto simp: accept_word_def)
  then show ?case by blast
qed (simp add: accept_word_def)

lemma initial_more:
  assumes "initial_stacks n rules r = Some res" and "n \<le> m"
  shows "initial_stacks m rules r = Some res"
  using assms(1) advance_more [OF _ assms(2)]
  by (fastforce simp: initial_stacks_def split: Option.bind_splits if_splits elim!: foldM_more)

lemma initial_stacks_returns:
  assumes ex: "expands rules" and r: "r < length rules"
  shows "\<exists>n. \<forall>m \<ge> n. \<exists>res. initial_stacks m rules r = Some res \<and> stacks_ok rules res \<and> res \<noteq> []"
proof -
  have rules: "rules_ok rules" using ex by (simp add: expands_def)
  obtain "is" where "is": "alternates 0 0 (rules ! r) = Some is" "is \<noteq> []" using alternates_total rules r by (metis nth_mem rules_ok_def)
  have push: "\<exists>s. push_pos rules (r, i) [] = Some s \<and> stack_ok rules s" if "i \<in> set is" for i
    using push_pos_ok [OF rule_start_pos_ok(1) [OF rules], of r i "[]"] that r "is"(1) by (simp add: rule_start_def stack_ok_def)
  have "\<exists>n. \<forall>m \<ge> n. \<forall>new. \<exists>s res. push_pos rules (r, i) [] = Some s \<and> llama_grammar_advance_stack m rules s new = Some res"
    if i: "i \<in> set is" for i
    using push [OF i] expands_advance [OF ex] by fastforce
  then obtain n where n: "\<forall>m \<ge> n. \<forall>i \<in> set is. \<forall>new. \<exists>s res. push_pos rules (r, i) [] = Some s \<and> llama_grammar_advance_stack m rules s new = Some res"
    using eventually_finite [of "set is" "\<lambda>i m. \<forall>new. \<exists>s res. push_pos rules (r, i) [] = Some s \<and> llama_grammar_advance_stack m rules s new = Some res"] by blast
  have "\<exists>res. initial_stacks m rules r = Some res \<and> stacks_ok rules res \<and> res \<noteq> []" if m: "m \<ge> n" for m
  proof -
    have "\<exists>res. foldM (\<lambda>i new. push_pos rules (r, i) [] \<bind> (\<lambda>s. llama_grammar_advance_stack m rules s new)) is [] = Some res"
      by (rule foldM_total) (use n m in fastforce)
    then obtain res where res: "initial_stacks m rules r = Some res" using r "is"(1) by (auto simp: initial_stacks_def)
    have cl: "set res = (\<Union>i \<in> set is. \<Union>s \<in> {s. push_pos rules (r, i) [] = Some s}. closure rules s)"
      using initial_stacks_set [OF res] by (auto simp: rule_start_def r "is"(1))
    have "stacks_ok rules res" unfolding stacks_ok_def cl using push closure_ok [OF rules] by fastforce
    moreover obtain s where "push_pos rules (r, hd is) [] = Some s" "stack_ok rules s" using push [of "hd is"] "is"(2) by auto
    then have "set res \<noteq> {}" unfolding cl using closure_nonempty [OF rules, of s] ex "is"(2) by (force simp: expands_def)
    ultimately show ?thesis using res by auto
  qed
  then show ?thesis by blast
qed

lemma rules_expand: "rules_ok rules \<Longrightarrow> \<not> left_recursive rules \<Longrightarrow> expands rules"
  using stack_halts left_step_wf by (simp add: expands_def)

text \<open>What the check finds is left recursion; it finds all of it when nullable rules have an empty alternate.\<close>

lemma left_recursion_found:
  assumes "rules_ok rules"
  obtains found where "has_left_recursion rules = Some found" "found \<Longrightarrow> left_recursive rules"
    "empty_rules_direct rules \<Longrightarrow> left_recursive rules \<Longrightarrow> found"
proof -
  have "has_left_recursion rules = Some (\<exists>r. (r, r) \<in> (left_rel rules)\<^sup>+)"
    using has_left_recursion_iff assms by (simp add: rules_ok_def)
  moreover have "left_recursive rules" if "(r, r) \<in> (left_rel rules)\<^sup>+" for r
    using trancl_mono [OF that left_rel_step [OF assms]] by (auto simp: left_recursive_def)
  moreover have "\<exists>r. (r, r) \<in> (left_rel rules)\<^sup>+" if "empty_rules_direct rules" "left_recursive rules"
    using that(2) trancl_mono [OF _ left_step_rel [OF assms that(1)]] unfolding left_recursive_def by blast
  ultimately show ?thesis using that by blast
qed

lemma checked_rules_not_left_recursive:
  assumes "rules_ok rules" and "empty_rules_direct rules" and "has_left_recursion rules = Some False"
  shows "\<not> left_recursive rules"
  using left_recursion_found [OF assms(1)] assms(2,3) by (metis option.inject)

section \<open>Properties\<close>

text \<open>C14: On well-formed rules that pass the check for left recursion, and whose rules deriving the empty word each have
  an empty alternate, the recursion of \<^verbatim>\<open>advance_stack\<close> ends: the initial stacks and the acceptance of any
  word are computed, with every sufficiently large bound on the depth, and there is at least one initial stack.\<close>

theorem grammar_engine_returns:
  assumes "rules_ok rules" and "empty_rules_direct rules" and "has_left_recursion rules = Some False" and "r < length rules"
  shows "\<exists>n. \<forall>m \<ge> n. \<exists>stacks res. initial_stacks m rules r = Some stacks \<and> stacks \<noteq> [] \<and> accept_word m rules w stacks = Some res"
proof -
  have ex: "expands rules" by (rule rules_expand [OF assms(1) checked_rules_not_left_recursive [OF assms(1-3)]])
  obtain n1 where n1: "\<forall>m \<ge> n1. \<exists>res. initial_stacks m rules r = Some res \<and> stacks_ok rules res \<and> res \<noteq> []"
    using initial_stacks_returns [OF ex assms(4)] by blast
  then obtain s0 where s0: "initial_stacks n1 rules r = Some s0" "stacks_ok rules s0" "s0 \<noteq> []" by blast
  obtain n2 where n2: "\<forall>m \<ge> n2. \<exists>res. accept_word m rules w s0 = Some res \<and> stacks_ok rules res" using accept_word_returns [OF ex s0(2)] by blast
  have "\<exists>stacks res. initial_stacks m rules r = Some stacks \<and> stacks \<noteq> [] \<and> accept_word m rules w stacks = Some res" if m: "m \<ge> max n1 n2" for m
    using initial_more [OF s0(1), of m] s0(3) n2 m by auto
  then show ?thesis by blast
qed

definition indirect_rules :: grammar_rules where
  "indirect_rules =
     [[\<lparr>ge_type = GRE_RULE_REF, ge_value = 1\<rparr>, \<lparr>ge_type = GRE_RULE_REF, ge_value = 0\<rparr>, \<lparr>ge_type = GRE_ALT, ge_value = 0\<rparr>,
       \<lparr>ge_type = GRE_CHAR, ge_value = 120\<rparr>, \<lparr>ge_type = GRE_END, ge_value = 0\<rparr>],
      [\<lparr>ge_type = GRE_RULE_REF, ge_value = 2\<rparr>, \<lparr>ge_type = GRE_END, ge_value = 0\<rparr>],
      [\<lparr>ge_type = GRE_END, ge_value = 0\<rparr>]]"

lemma indirect_no_fuel:
  "llama_grammar_advance_stack n indirect_rules [(0, 0)] new = None \<and> llama_grammar_advance_stack n indirect_rules [(1, 0), (0, 1)] new = None \<and>
   llama_grammar_advance_stack n indirect_rules [(0, 1)] new = None"
proof (induction n arbitrary: new)
  case (Suc n)
  then show ?case
    by (simp add: elem_at_def indirect_rules_def push_pos_def advance_pos_def is_end_of_sequence_def is_end_type_def)
qed simp

text \<open>The check for left recursion misses grammars whose emptiness is indirect: \<^verbatim>\<open>R ::= A R | "x"\<close>,
  \<^verbatim>\<open>A ::= B\<close>, \<^verbatim>\<open>B ::= ""\<close> passes it, and the initial stacks are not computed for any bound on the depth:
  the recursion of \<^verbatim>\<open>advance_stack\<close> does not end.\<close>

theorem indirect_left_recursion_undetected:
  "rules_ok indirect_rules \<and> has_left_recursion indirect_rules = Some False \<and> initial_stacks n indirect_rules 0 = None"
proof -
  have "rules_ok indirect_rules" by (simp add: rules_ok_def refs_ok_def indirect_rules_def)
  moreover have "has_left_recursion indirect_rules = Some False" by code_simp
  moreover have "initial_stacks n indirect_rules 0 = None"
    using indirect_no_fuel [of n] by (simp add: initial_stacks_def elem_at_def indirect_rules_def push_pos_def is_end_of_sequence_def is_end_type_def)
  ultimately show ?thesis by blast
qed

lemma demo_checked: "rules_ok demo_rules" "has_left_recursion demo_rules = Some False" "empty_rules_direct demo_rules"
proof -
  show "rules_ok demo_rules" by (simp add: rules_ok_def refs_ok_def demo_rules_def)
  show "has_left_recursion demo_rules = Some False" by code_simp
  have "w \<noteq> []" if "seq_lang demo_rules p w" "p = (0, 0) \<or> p = (0, Suc (Suc (Suc 0)))" for p w
    using that by cases (auto simp: demo_rules_def elem_at_def is_end_of_sequence_def is_end_type_def)
  then show "empty_rules_direct demo_rules"
    by (fastforce simp: empty_rules_direct_def nullable_def rule_lang_def rule_start_def demo_rules_def)
qed

theorem grammar_engine_returns_witness:
  "\<exists>n. \<forall>m \<ge> n. \<exists>stacks res. initial_stacks m demo_rules 0 = Some stacks \<and> stacks \<noteq> [] \<and> accept_word m demo_rules [97, 98] stacks = Some res"
  by (rule grammar_engine_returns [OF demo_checked(1) demo_checked(3) demo_checked(2)]) (simp add: demo_rules_def)

end
