(* ===== verification/Utf8.thy ===== *)
theory Utf8
  imports Grammar
begin

text \<open>
  UTF-8: the encoder and decoders of \<^verbatim>\<open>src/unicode.cpp\<close>, the byte alphabet of the BPE tokenizers, and the
  two decoders of \<^verbatim>\<open>src/llama-grammar.cpp\<close>. A \<^verbatim>\<open>std::string\<close> is a list of bytes; the end of the list is the
  terminator of \<^verbatim>\<open>c_str()\<close>. A thrown \<^verbatim>\<open>std::invalid_argument\<close> is \<open>Inl\<close> with its text.
\<close>

section \<open>The encoder and decoder of unicode.cpp\<close>

definition unicode_len_utf8 :: "u8 \<Rightarrow> nat" where
  "unicode_len_utf8 src = [1, 1, 1, 1, 1, 1, 1, 1, 1, 1, 1, 1, 2, 2, 3, 4] ! unat (drop_bit 4 src)"

definition unicode_cpt_to_utf8 :: "u32 \<Rightarrow> string + u8 list" where
  "unicode_cpt_to_utf8 cpt =
     (if cpt \<le> 0x7f then Inr [ucast cpt]
      else if 0x80 \<le> cpt \<and> cpt \<le> 0x7ff then
        Inr [ucast (0xc0 OR (drop_bit 6 cpt AND 0x1f)), ucast (0x80 OR (cpt AND 0x3f))]
      else if 0x800 \<le> cpt \<and> cpt \<le> 0xffff then
        Inr [ucast (0xe0 OR (drop_bit 12 cpt AND 0x0f)), ucast (0x80 OR (drop_bit 6 cpt AND 0x3f)), ucast (0x80 OR (cpt AND 0x3f))]
      else if 0x10000 \<le> cpt \<and> cpt \<le> 0x10ffff then
        Inr [ucast (0xf0 OR (drop_bit 18 cpt AND 0x07)), ucast (0x80 OR (drop_bit 12 cpt AND 0x3f)),
             ucast (0x80 OR (drop_bit 6 cpt AND 0x3f)), ucast (0x80 OR (cpt AND 0x3f))]
      else Inl ''invalid codepoint'')"

fun unicode_cpts_to_utf8 :: "u32 list \<Rightarrow> string + u8 list" where
  "unicode_cpts_to_utf8 [] = Inr []"
| "unicode_cpts_to_utf8 (c # cs) =
     (case unicode_cpt_to_utf8 c of
        Inl err \<Rightarrow> Inl err
      | Inr bs \<Rightarrow> map_sum id (append bs) (unicode_cpts_to_utf8 cs))"

definition is_cont :: "u8 \<Rightarrow> bool" where
  "is_cont b \<longleftrightarrow> b AND 0xc0 = 0x80"

text \<open>The code point at an offset and the offset behind it; the assertion on the offset is \<open>None\<close>.\<close>

definition unicode_cpt_from_utf8 :: "u8 list \<Rightarrow> nat \<Rightarrow> (string + u32 \<times> nat) option" where
  "unicode_cpt_from_utf8 utf8 off = do {
     assert_opt (off < length utf8);
     let b = (\<lambda>k. utf8 ! (off + k));
     let w = (\<lambda>k m. ucast (b k AND m) :: u32);
     Some (if b 0 AND 0x80 = 0 then Inr (ucast (b 0), off + 1)
       else if b 0 AND 0x40 = 0 then Inl ''invalid character''
       else if b 0 AND 0x20 = 0 then
         if off + 1 \<ge> length utf8 \<or> \<not> is_cont (b 1) then Inl ''invalid character''
         else Inr (push_bit 6 (w 0 0x1f) OR w 1 0x3f, off + 2)
       else if b 0 AND 0x10 = 0 then
         if off + 2 \<ge> length utf8 \<or> \<not> is_cont (b 1) \<or> \<not> is_cont (b 2) then Inl ''invalid character''
         else Inr (push_bit 12 (w 0 0x0f) OR push_bit 6 (w 1 0x3f) OR w 2 0x3f, off + 3)
       else if b 0 AND 0x08 = 0 then
         if off + 3 \<ge> length utf8 \<or> \<not> is_cont (b 1) \<or> \<not> is_cont (b 2) \<or> \<not> is_cont (b 3) then Inl ''invalid character''
         else Inr (push_bit 18 (w 0 0x07) OR push_bit 12 (w 1 0x3f) OR push_bit 6 (w 2 0x3f) OR w 3 0x3f, off + 4)
       else Inl ''failed to convert utf8 to codepoint'') }"

lemma cpt_from_utf8_advances: "unicode_cpt_from_utf8 utf8 off = Some (Inr (c, off')) \<Longrightarrow> off < off' \<and> off' \<le> length utf8"
  by (auto simp: unicode_cpt_from_utf8_def Let_def split: if_splits)

text \<open>The loop of \<^verbatim>\<open>unicode_cpts_from_utf8\<close>: an invalid byte becomes the replacement character.\<close>

function cpts_from_loop :: "u8 list \<Rightarrow> nat \<Rightarrow> u32 list" where
  "cpts_from_loop utf8 off =
     (if off < length utf8 then
        (case unicode_cpt_from_utf8 utf8 off of
           Some (Inr (c, off')) \<Rightarrow> c # cpts_from_loop utf8 off'
         | _ \<Rightarrow> 0xFFFD # cpts_from_loop utf8 (off + 1))
      else [])"
  by pat_completeness auto
termination
  by (relation "measure (\<lambda>(utf8, off). length utf8 - off)") (auto dest: cpt_from_utf8_advances)

declare cpts_from_loop.simps [simp del]

definition unicode_cpts_from_utf8 :: "u8 list \<Rightarrow> u32 list" where
  "unicode_cpts_from_utf8 utf8 = cpts_from_loop utf8 0"

section \<open>The decoders of the grammar\<close>

text \<open>The first one reads one character of a grammar; at the terminator it would step past the end (\<open>None\<close>).\<close>

fun ptr_cont :: "nat \<Rightarrow> u32 \<Rightarrow> string \<Rightarrow> u32 \<times> string" where
  "ptr_cont (Suc k) value (c # cs) =
     (if of_char c \<noteq> (0 :: u8) then ptr_cont k (push_bit 6 value + ucast (of_char c AND (0x3F :: u8))) cs else (value, c # cs))"
| "ptr_cont _ value cs = (value, cs)"

fun decode_utf8_ptr :: "string \<Rightarrow> (u32 \<times> string) option" where
  "decode_utf8_ptr [] = None"
| "decode_utf8_ptr (c # cs) =
     (let first_byte = (of_char c :: u8);
          len = [1, 1, 1, 1, 1, 1, 1, 1, 1, 1, 1, 1, 2, 2, 3, 4] ! unat (drop_bit 4 first_byte);
          mask = push_bit (8 - len) 1 - 1
      in Some (ptr_cont (len - 1) (ucast (first_byte AND mask)) cs))"

text \<open>The second one continues a partial sequence. Its first loop: \<open>None\<close> is the return on an invalid byte.\<close>

fun resume_loop :: "u8 list \<Rightarrow> u32 \<Rightarrow> int \<Rightarrow> (u8 list \<times> u32 \<times> int) option" where
  "resume_loop [] value n_remain = Some ([], value, n_remain)"
| "resume_loop (b # bs) value n_remain =
     (if b \<noteq> 0 \<and> n_remain > 0 then
        if drop_bit 6 b \<noteq> 2 then None
        else resume_loop bs (push_bit 6 value + ucast (b AND 0x3F)) (n_remain - 1)
      else Some (b # bs, value, n_remain))"

fun cont_loop :: "u8 list \<Rightarrow> u32 \<Rightarrow> int \<Rightarrow> u8 list \<times> u32 \<times> int" where
  "cont_loop [] value n_remain = ([], value, n_remain)"
| "cont_loop (b # bs) value n_remain =
     (if b \<noteq> 0 \<and> n_remain > 0 then cont_loop bs (push_bit 6 value + ucast (b AND 0x3F)) (n_remain - 1)
      else (b # bs, value, n_remain))"

definition seq_len :: "u8 \<Rightarrow> int" where
  "seq_len b = [1, 1, 1, 1, 1, 1, 1, 1, 0, 0, 0, 0, 2, 2, 3, 4] ! unat (drop_bit 4 b)"

lemma cont_loop_length: "cont_loop bs v n = (bs', v', n') \<Longrightarrow> length bs' \<le> length bs"
  by (induction bs v n rule: cont_loop.induct) (auto split: if_splits)

function decode_loop :: "u8 list \<Rightarrow> u32 \<Rightarrow> int \<Rightarrow> u32 list \<Rightarrow> u32 list \<times> partial_utf8" where
  "decode_loop [] value n_remain cps = (cps @ [0], \<lparr>pu_value = value, pu_n_remain = n_remain\<rparr>)"
| "decode_loop (b # bs) value n_remain cps =
     (if b = 0 then (cps @ [0], \<lparr>pu_value = value, pu_n_remain = n_remain\<rparr>)
      else
        (let n_remain = seq_len b - 1 in
         if n_remain < 0 then ([0], \<lparr>pu_value = 0, pu_n_remain = n_remain\<rparr>)
         else
           (let mask = push_bit (nat (7 - n_remain)) 1 - 1;
                (bs', value, n_remain) = cont_loop bs (ucast (b AND mask)) n_remain
            in decode_loop bs' value n_remain (if n_remain = 0 then cps @ [value] else cps))))"
  by pat_completeness auto
termination
  by (relation "measure (\<lambda>(bs, _). length bs)") (auto simp: less_Suc_eq_le dest!: sym [of "(_, _, _)"] cont_loop_length)

definition decode_utf8 :: "u8 list \<Rightarrow> partial_utf8 \<Rightarrow> u32 list \<times> partial_utf8" where
  "decode_utf8 src start =
     (case resume_loop src (pu_value start) (pu_n_remain start) of
        None \<Rightarrow> ([0], \<lparr>pu_value = 0, pu_n_remain = -1\<rparr>)
      | Some (bs, value, n_remain) \<Rightarrow>
          decode_loop bs value n_remain (if pu_n_remain start > 0 \<and> n_remain = 0 then [value] else []))"

section \<open>Words\<close>

lemma and_masks:
  "x AND 0x3f = take_bit 6 (x :: u32)" "x AND 0x1f = take_bit 5 (x :: u32)"
  "x AND 0x0f = take_bit 4 (x :: u32)" "x AND 0x07 = take_bit 3 (x :: u32)"
  by (simp_all add: take_bit_eq_mask mask_eq_exp_minus_1)

lemma join6: "push_bit 6 (drop_bit 6 x) + (x AND 0x3f) = (x :: u32)"
  unfolding and_masks by (rule bits_ident)

lemma join6_or: "push_bit 6 (drop_bit 6 x) OR (x AND 0x3f) = (x :: u32)"
  unfolding and_masks by (rule bit_word_eqI) (auto simp: bit_simps)

lemma take_bit_small: "(x :: u32) \<le> w \<Longrightarrow> unat w < 2 ^ k \<Longrightarrow> take_bit k x = x"
  unfolding word_unat_eq_iff unsigned_take_bit_eq word_le_nat_alt by (rule take_bit_nat_eq_self) simp

lemma finite_words: "take_bit k (x :: u32) \<in> set (map word_of_nat [0..<2 ^ k])"
proof -
  have "unat (take_bit k x) < 2 ^ k" by (simp add: unsigned_take_bit_eq)
  then show ?thesis by (auto intro!: image_eqI [of _ _ "unat (take_bit k x)"])
qed

lemma for_words: "list_all P (map word_of_nat [0..<2 ^ k]) \<Longrightarrow> P (take_bit k (x :: u32))"
  using finite_words [of k x] by (simp only: list_all_iff)

definition cont_ok :: "u32 \<Rightarrow> bool" where
  "cont_ok y \<longleftrightarrow> (let b = ucast (0x80 OR y) :: u8 in is_cont b \<and> drop_bit 6 b = 2 \<and> b \<noteq> 0 \<and> ucast (b AND 0x3f) = y)"

lemma cont_ok: "cont_ok (take_bit 6 x)"
  by (rule for_words [of cont_ok]) code_simp

text \<open>A lead byte of a sequence of \<open>n\<close> bytes with payload \<open>y\<close>, as each decoder reads it.\<close>

definition lead_ok :: "nat \<Rightarrow> u32 \<Rightarrow> u32 \<Rightarrow> bool" where
  "lead_ok n tag y \<longleftrightarrow>
     (let b = ucast (tag OR y) :: u8 in
      b \<noteq> 0 \<and> seq_len b = int n \<and> unicode_len_utf8 b = n \<and>
      ucast (b AND (push_bit (8 - n) 1 - 1)) = y \<and>
      (if n = 1 then b AND 0x80 = 0
       else b AND 0x80 \<noteq> 0 \<and> b AND 0x40 \<noteq> 0 \<and> (b AND 0x20 = 0 \<longleftrightarrow> n = 2) \<and>
         (n = 2 \<longrightarrow> ucast (b AND 0x1f) = y) \<and>
         (n > 2 \<longrightarrow> (b AND 0x10 = 0 \<longleftrightarrow> n = 3)) \<and> (n = 3 \<longrightarrow> ucast (b AND 0x0f) = y) \<and>
         (n = 4 \<longrightarrow> b AND 0x08 = 0 \<and> ucast (b AND 0x07) = y)))"

lemma lead_ok2: "lead_ok 2 0xc0 (take_bit 5 x)"
  by (rule for_words [of "lead_ok 2 0xc0"]) code_simp

lemma lead_ok3: "lead_ok 3 0xe0 (take_bit 4 x)"
  by (rule for_words [of "lead_ok 3 0xe0"]) code_simp

lemma lead_ok4: "lead_ok 4 0xf0 (take_bit 3 x)"
  by (rule for_words [of "lead_ok 4 0xf0"]) code_simp

lemma lead_ok1: "x \<noteq> 0 \<Longrightarrow> x \<le> 0x7f \<Longrightarrow> lead_ok 1 0 x"
proof -
  assume x: "x \<noteq> 0" "x \<le> 0x7f"
  have "take_bit 7 x = 0 \<or> lead_ok 1 0 (take_bit 7 x)"
    by (rule for_words [of "\<lambda>x. x = 0 \<or> lead_ok 1 0 x"]) code_simp
  moreover have "take_bit 7 x = x" using x(2) by (rule take_bit_small) simp
  ultimately show ?thesis using x(1) by simp
qed

text \<open>The four shapes of an encoded code point.\<close>

lemma encode_cases:
  assumes "unicode_cpt_to_utf8 c = Inr bs"
  obtains (len1) "c \<le> 0x7f" "bs = [ucast c]"
  | (len2) l y where "bs = [l, y]" "l = ucast (0xc0 OR drop_bit 6 c)" "y = ucast (0x80 OR take_bit 6 c)" "take_bit 5 (drop_bit 6 c) = drop_bit 6 c"
  | (len3) l y z where "bs = [l, y, z]" "l = ucast (0xe0 OR drop_bit 12 c)" "y = ucast (0x80 OR take_bit 6 (drop_bit 6 c))"
      "z = ucast (0x80 OR take_bit 6 c)" "take_bit 4 (drop_bit 12 c) = drop_bit 12 c"
  | (len4) l x y z where "bs = [l, x, y, z]" "l = ucast (0xf0 OR drop_bit 18 c)" "x = ucast (0x80 OR take_bit 6 (drop_bit 12 c))"
      "y = ucast (0x80 OR take_bit 6 (drop_bit 6 c))" "z = ucast (0x80 OR take_bit 6 c)" "take_bit 3 (drop_bit 18 c) = drop_bit 18 c"
proof -
  have small: "take_bit k (drop_bit j c) = drop_bit j c" if "c \<le> w" "unat w < 2 ^ (j + k)" for w k j
  proof -
    have "take_bit (j + k) c = c" by (rule take_bit_small [OF that])
    then show ?thesis by (metis drop_bit_take_bit diff_add_inverse)
  qed
  from assms consider "c \<le> 0x7f" "bs = [ucast c]"
    | "c \<le> 0x7ff" "bs = [ucast (0xc0 OR take_bit 5 (drop_bit 6 c)), ucast (0x80 OR take_bit 6 c)]"
    | "c \<le> 0xffff" "bs = [ucast (0xe0 OR take_bit 4 (drop_bit 12 c)), ucast (0x80 OR take_bit 6 (drop_bit 6 c)), ucast (0x80 OR take_bit 6 c)]"
    | "c \<le> 0x10ffff" "bs = [ucast (0xf0 OR take_bit 3 (drop_bit 18 c)), ucast (0x80 OR take_bit 6 (drop_bit 12 c)),
        ucast (0x80 OR take_bit 6 (drop_bit 6 c)), ucast (0x80 OR take_bit 6 c)]"
    unfolding unicode_cpt_to_utf8_def and_masks by (auto split: if_splits)
  then show ?thesis
  proof cases
    case 1
    then show ?thesis by (rule len1)
  next
    case 2
    then show ?thesis using len2 small [OF 2(1), where j = 6 and k = 5] by simp
  next
    case 3
    then show ?thesis using len3 small [OF 3(1), where j = 12 and k = 4] by simp
  next
    case 4
    then show ?thesis using len4 small [OF 4(1), where j = 18 and k = 3] by simp
  qed
qed

section \<open>Decoding what was encoded\<close>

lemma join_drop6: "push_bit 6 (drop_bit (k + 6) x) + take_bit 6 (drop_bit k x) = (drop_bit k x :: u32)"
  using join6 [of "drop_bit k x"] by (simp add: and_masks ac_simps)

lemmas join_steps = join_drop6 [of 12, simplified] join_drop6 [of 6, simplified] join_drop6 [of 0, simplified]

lemma cont_facts:
  assumes "b = ucast (0x80 OR take_bit 6 x)"
  shows "is_cont b" "drop_bit 6 b = 2" "b \<noteq> 0" "ucast (b AND 0x3f) = take_bit 6 (x :: u32)"
  using cont_ok [of x] assms by (simp_all add: cont_ok_def Let_def)

text \<open>Reading \<open>b\<close> after \<open>value\<close>, as the loops of the grammar decoders do.\<close>

definition char_of_byte :: "u8 \<Rightarrow> char" where
  "char_of_byte b = char_of (unat b)"

lemma of_char_char_of_byte [simp]: "(of_char (char_of_byte b) :: u8) = b"
proof -
  have "(of_char (char_of_byte b) :: u8) = of_nat (of_char (char_of_byte b))" by (simp only: of_nat_of_char)
  also have "of_char (char_of_byte b) = unat b"
  proof -
    have "unat b < 2 ^ LENGTH(8)" by (rule unsigned_less)
    then show ?thesis by (simp add: char_of_byte_def)
  qed
  finally show ?thesis by simp
qed

lemma decode_ptr_encode:
  assumes enc: "unicode_cpt_to_utf8 c = Inr bs" and c: "c \<noteq> 0"
  shows "decode_utf8_ptr (map char_of_byte bs @ rest) = Some (c, rest)"
  using enc
proof (cases rule: encode_cases)
  case len1
  then show ?thesis using lead_ok1 [OF c len1(1)] by (simp add: lead_ok_def unicode_len_utf8_def Let_def)
next
  case (len2 l y)
  then show ?thesis using lead_ok2 [of "drop_bit 6 c"] cont_facts [OF len2(3)] join_steps
    by (simp add: lead_ok_def unicode_len_utf8_def Let_def eval_nat_numeral)
next
  case (len3 l y z)
  then show ?thesis using lead_ok3 [of "drop_bit 12 c"] cont_facts [OF len3(3)] cont_facts [OF len3(4)] join_steps
    by (simp add: lead_ok_def unicode_len_utf8_def Let_def eval_nat_numeral)
next
  case (len4 l x y z)
  then show ?thesis using lead_ok4 [of "drop_bit 18 c"] cont_facts [OF len4(3)] cont_facts [OF len4(4)] cont_facts [OF len4(5)] join_steps
    by (simp add: lead_ok_def unicode_len_utf8_def Let_def eval_nat_numeral)
qed

lemma or_drop6: "push_bit 6 (drop_bit (k + 6) x) OR take_bit 6 (drop_bit k x) = (drop_bit k x :: u32)"
  using join6_or [of "drop_bit k x"] by (simp add: and_masks ac_simps)

lemma or_shift: "push_bit (j + 6) (drop_bit (j + 6) c) OR (push_bit j (take_bit 6 (drop_bit j c)) OR w) = push_bit j (drop_bit j c) OR (w :: u32)"
proof -
  have "push_bit (j + 6) (drop_bit (j + 6) c) OR push_bit j (take_bit 6 (drop_bit j c)) =
    push_bit j (push_bit 6 (drop_bit (j + 6) c) OR take_bit 6 (drop_bit j c))"
    by (simp add: push_bit_or ac_simps)
  then show ?thesis by (simp only: or_drop6 or.assoc [symmetric])
qed

lemma or_three: "push_bit 12 (drop_bit 12 c) OR push_bit 6 (take_bit 6 (drop_bit 6 c)) OR take_bit 6 c = (c :: u32)"
  using or_shift [of 6 c "take_bit 6 c"] or_drop6 [of 0 c] by simp

lemma or_four:
  "push_bit 18 (drop_bit 18 c) OR push_bit 12 (take_bit 6 (drop_bit 12 c)) OR push_bit 6 (take_bit 6 (drop_bit 6 c)) OR take_bit 6 c = (c :: u32)"
  using or_shift [of 12 c "push_bit 6 (take_bit 6 (drop_bit 6 c)) OR take_bit 6 c"] or_three [of c] by simp

lemma cpt_from_encode:
  assumes enc: "unicode_cpt_to_utf8 c = Inr bs"
  shows "unicode_cpt_from_utf8 (pre @ bs @ rest) (length pre) = Some (Inr (c, length pre + length bs))"
  using enc
proof (cases rule: encode_cases)
  case len1
  have "(ucast c :: u8) AND 0x80 = 0" and "ucast (ucast c :: u8) = c"
  proof -
    have "c = 0 \<or> lead_ok 1 0 c" using lead_ok1 len1(1) by blast
    then show "(ucast c :: u8) AND 0x80 = 0" by (auto simp: lead_ok_def Let_def)
    have "take_bit 8 c = c" using len1(1) by (rule take_bit_small) simp
    then show "ucast (ucast c :: u8) = c" by (simp add: unsigned_ucast_eq)
  qed
  then show ?thesis using len1(2) by (simp add: unicode_cpt_from_utf8_def Let_def)
next
  case (len2 l y)
  then show ?thesis using lead_ok2 [of "drop_bit 6 c"] cont_facts [OF len2(3)] or_drop6 [of 0 c]
    by (simp add: lead_ok_def Let_def unicode_cpt_from_utf8_def nth_append eval_nat_numeral)
next
  case (len3 l y z)
  then show ?thesis using lead_ok3 [of "drop_bit 12 c"] cont_facts [OF len3(3)] cont_facts [OF len3(4)] or_three [of c]
    by (simp add: lead_ok_def Let_def unicode_cpt_from_utf8_def nth_append)
next
  case (len4 l x y z)
  then show ?thesis using lead_ok4 [of "drop_bit 18 c"] cont_facts [OF len4(3)] cont_facts [OF len4(4)] cont_facts [OF len4(5)] or_four [of c]
    by (simp add: lead_ok_def Let_def unicode_cpt_from_utf8_def nth_append)
qed

text \<open>Whole strings: the lossy decoder of \<^verbatim>\<open>unicode.cpp\<close> inverts the encoder.\<close>

lemma map_sum_Inr: "map_sum id f x = Inr y \<longleftrightarrow> (\<exists>z. x = Inr z \<and> y = f z)"
  by (cases x) auto

lemma cpts_from_encode:
  "unicode_cpts_to_utf8 cs = Inr bs \<Longrightarrow> cpts_from_loop (pre @ bs) (length pre) = cs"
proof (induction cs arbitrary: pre bs)
  case Nil
  then show ?case by (simp add: cpts_from_loop.simps)
next
  case (Cons c cs)
  then obtain b0 b1 where b: "unicode_cpt_to_utf8 c = Inr b0" "unicode_cpts_to_utf8 cs = Inr b1" "bs = b0 @ b1"
    by (auto simp: map_sum_Inr split: sum.splits)
  have "b0 \<noteq> []" using b(1) by (auto elim: encode_cases)
  then show ?case using cpt_from_encode [OF b(1), of pre b1] Cons.IH [OF b(2), of "pre @ b0"] b(3)
    by (subst cpts_from_loop.simps) simp
qed

section \<open>Decoding in pieces\<close>

text \<open>The decoder as an automaton on bytes, and the byte streams it is meant for: every lead byte is followed by
  its continuation bytes, or the stream ends.\<close>

definition dec_byte :: "u8 \<Rightarrow> u32 list \<times> partial_utf8 \<Rightarrow> u32 list \<times> partial_utf8" where
  "dec_byte b = (\<lambda>(cps, p).
     if pu_n_remain p > 0 then
       (let v = push_bit 6 (pu_value p) + ucast (b AND 0x3F); n = pu_n_remain p - 1
        in (if n = 0 then cps @ [v] else cps, \<lparr>pu_value = v, pu_n_remain = n\<rparr>))
     else
       (let n = seq_len b - 1; v = ucast (b AND (push_bit (nat (7 - n)) 1 - 1))
        in (if n = 0 then cps @ [v] else cps, \<lparr>pu_value = v, pu_n_remain = n\<rparr>)))"

fun conforms :: "int \<Rightarrow> u8 list \<Rightarrow> bool" where
  "conforms n [] = True"
| "conforms n (b # bs) =
     (b \<noteq> 0 \<and> (if n > 0 then drop_bit 6 b = 2 \<and> conforms (n - 1) bs else seq_len b > 0 \<and> conforms (seq_len b - 1) bs))"

lemma dec_byte_cont:
  "n > 0 \<Longrightarrow> dec_byte b (cps, \<lparr>pu_value = v, pu_n_remain = n\<rparr>) =
    (if n = 1 then cps @ [push_bit 6 v + ucast (b AND 0x3F)] else cps, \<lparr>pu_value = push_bit 6 v + ucast (b AND 0x3F), pu_n_remain = n - 1\<rparr>)"
  by (simp add: dec_byte_def Let_def)

lemma cont_loop_fold:
  assumes "cont_loop bs v n = (bs', v', n')" and "conforms n bs" and "n \<ge> 0"
  shows "fold dec_byte bs (cps, \<lparr>pu_value = v, pu_n_remain = n\<rparr>) =
      fold dec_byte bs' (if n > 0 \<and> n' = 0 then cps @ [v'] else cps, \<lparr>pu_value = v', pu_n_remain = n'\<rparr>) \<and>
    conforms n' bs' \<and> n' \<ge> 0 \<and> (n' = 0 \<or> bs' = [])"
  using assms
proof (induction bs v n arbitrary: cps rule: cont_loop.induct)
  case (2 b bs v n)
  show ?case
  proof (cases "n > 0")
    case True
    let ?v = "push_bit 6 v + ucast (b AND 0x3F)"
    have run: "cont_loop bs ?v (n - 1) = (bs', v', n')" using 2(2,3) True by simp
    show ?thesis
    proof (cases "n = 1")
      case one: True
      then have "bs' = bs" "v' = ?v" "n' = 0" using run by (cases bs; simp)+
      then show ?thesis using 2(3) one by (simp add: dec_byte_cont)
    next
      case False
      then show ?thesis using 2(1) [OF _ run, of cps] 2(3) True by (simp add: dec_byte_cont)
    qed
  next
    case False
    then show ?thesis using 2(2-4) by simp
  qed
qed auto

lemma decode_loop_fold:
  assumes "conforms n bs" and "n \<ge> 0" and "n = 0 \<or> bs = []"
  shows "decode_loop bs v n cps =
    (\<lambda>(c, p). (c @ [0], p)) (fold dec_byte bs (cps, \<lparr>pu_value = v, pu_n_remain = n\<rparr>))"
  using assms
proof (induction bs v n cps rule: decode_loop.induct)
  case (2 b bs v n cps)
  let ?n = "seq_len b - 1" and ?m = "push_bit (nat (7 - (seq_len b - 1))) 1 - 1 :: u8"
  have b: "b \<noteq> 0" "seq_len b > 0" "conforms ?n bs" and n: "n = 0" using 2(2,4) by auto
  obtain bs' v' n' where run: "cont_loop bs (ucast (b AND ?m)) ?n = (bs', v', n')" by (metis surj_pair)
  note C = cont_loop_fold [OF run b(3)]
  have n0: "?n \<ge> 0" using b(2) by simp
  have z: "?n = 0 \<Longrightarrow> n' = 0 \<and> v' = ucast (b AND ?m)" using run by (cases bs) auto
  have "decode_loop (b # bs) v n cps = decode_loop bs' v' n' (if n' = 0 then cps @ [v'] else cps)"
    using b n0 run by (simp add: Let_def)
  also have "\<dots> = (\<lambda>(c, p). (c @ [0], p)) (fold dec_byte bs' (if n' = 0 then cps @ [v'] else cps, \<lparr>pu_value = v', pu_n_remain = n'\<rparr>))"
    using 2(1) [OF b(1) refl _ refl run [symmetric] refl] C [OF n0] n0 by (simp del: decode_loop.simps)
  also have "fold dec_byte bs' (if n' = 0 then cps @ [v'] else cps, \<lparr>pu_value = v', pu_n_remain = n'\<rparr>) =
      fold dec_byte (b # bs) (cps, \<lparr>pu_value = v, pu_n_remain = n\<rparr>)"
  proof (cases "?n = 0")
    case True
    then show ?thesis using C [OF n0, of "cps @ [v']"] z n by (simp add: dec_byte_def Let_def)
  next
    case False
    then show ?thesis using C [OF n0, of cps] n n0 by (simp add: dec_byte_def Let_def)
  qed
  finally show ?case .
qed simp

lemma resume_cont: "conforms n bs \<Longrightarrow> n \<ge> 0 \<Longrightarrow> resume_loop bs v n = Some (cont_loop bs v n)"
  by (induction bs v n rule: cont_loop.induct) auto

lemma decode_utf8_fold:
  assumes "conforms (pu_n_remain p) bs" and "pu_n_remain p \<ge> 0"
  shows "decode_utf8 bs p = (\<lambda>(c, q). (c @ [0], q)) (fold dec_byte bs ([], p))"
proof -
  obtain bs' v' n' where run: "cont_loop bs (pu_value p) (pu_n_remain p) = (bs', v', n')" by (metis surj_pair)
  have p: "\<lparr>pu_value = pu_value p, pu_n_remain = pu_n_remain p\<rparr> = p" by simp
  note C = cont_loop_fold [OF run assms, of "[]", unfolded p]
  show ?thesis using resume_cont [OF assms, of "pu_value p"] run C decode_loop_fold [of n' bs' v' "if pu_n_remain p > 0 \<and> n' = 0 then [v'] else []"]
    by (simp add: decode_utf8_def)
qed

lemma encode_conforms:
  assumes enc: "unicode_cpt_to_utf8 c = Inr bs" and c: "c \<noteq> 0" and p: "pu_n_remain p = 0"
  shows "(conforms 0 (bs @ rest) \<longleftrightarrow> conforms 0 rest) \<and> fold dec_byte bs (cps, p) = (cps @ [c], \<lparr>pu_value = c, pu_n_remain = 0\<rparr>)"
  using enc
proof (cases rule: encode_cases)
  case len1
  then show ?thesis using lead_ok1 [OF c len1(1)] p by (simp add: lead_ok_def dec_byte_def Let_def)
next
  case (len2 l y)
  then show ?thesis using lead_ok2 [of "drop_bit 6 c"] cont_facts [OF len2(3)] join_steps p
    by (simp add: lead_ok_def dec_byte_def Let_def)
next
  case (len3 l y z)
  then show ?thesis using lead_ok3 [of "drop_bit 12 c"] cont_facts [OF len3(3)] cont_facts [OF len3(4)] join_steps p
    by (simp add: lead_ok_def dec_byte_def Let_def)
next
  case (len4 l x y z)
  then show ?thesis using lead_ok4 [of "drop_bit 18 c"] cont_facts [OF len4(3)] cont_facts [OF len4(4)] cont_facts [OF len4(5)] join_steps p
    by (simp add: lead_ok_def dec_byte_def Let_def)
qed

lemma text_conforms:
  assumes "unicode_cpts_to_utf8 cs = Inr bs" and "0 \<notin> set cs" and "pu_n_remain p = 0"
  shows "conforms 0 bs \<and> (\<exists>q. pu_n_remain q = 0 \<and> fold dec_byte bs (cps, p) = (cps @ cs, q))"
  using assms
proof (induction cs arbitrary: bs cps p)
  case (Cons c cs)
  then obtain b0 b1 where b: "unicode_cpt_to_utf8 c = Inr b0" "unicode_cpts_to_utf8 cs = Inr b1" "bs = b0 @ b1"
    by (auto simp: map_sum_Inr split: sum.splits)
  have c: "c \<noteq> 0" using Cons.prems(2) by auto
  note E = encode_conforms [OF b(1) c]
  show ?case using E [OF Cons.prems(3), of b1 cps] Cons.IH [OF b(2), of "\<lparr>pu_value = c, pu_n_remain = 0\<rparr>" "cps @ [c]"] Cons.prems(2) b(3)
    by auto
qed auto

text \<open>The grammar decodes the pieces of a text one after the other and carries the partial sequence along.\<close>

definition decode_pieces :: "u8 list list \<Rightarrow> partial_utf8 \<Rightarrow> u32 list \<times> partial_utf8" where
  "decode_pieces pieces p = fold (\<lambda>piece (out, p). (\<lambda>(c, q). (out @ butlast c, q)) (decode_utf8 piece p)) pieces ([], p)"

lemma dec_byte_cps: "fold dec_byte bs (cps, p) = (\<lambda>(c, q). (cps @ c, q)) (fold dec_byte bs ([], p))"
proof (induction bs arbitrary: cps p)
  case (Cons b bs)
  obtain c q where d: "dec_byte b ([], p) = (c, q)" by force
  have "dec_byte b (cps, p) = (cps @ c, q)" using d by (auto simp: dec_byte_def Let_def split: if_splits)
  then show ?case using Cons.IH [of "cps @ c" q] Cons.IH [of c q] d by (simp add: case_prod_beta)
qed simp

lemma conforms_append:
  "conforms (pu_n_remain p) (xs @ ys) \<Longrightarrow> pu_n_remain p \<ge> 0 \<Longrightarrow>
   conforms (pu_n_remain p) xs \<and> conforms (pu_n_remain (snd (fold dec_byte xs (cps, p)))) ys \<and> pu_n_remain (snd (fold dec_byte xs (cps, p))) \<ge> 0"
proof (induction xs arbitrary: cps p)
  case (Cons b xs)
  obtain c q where d: "dec_byte b (cps, p) = (c, q)" by force
  have q: "pu_n_remain q = (if pu_n_remain p > 0 then pu_n_remain p - 1 else seq_len b - 1)"
    using d by (auto simp: dec_byte_def Let_def split: if_splits)
  then have "conforms (pu_n_remain q) (xs @ ys)" "pu_n_remain q \<ge> 0" using Cons.prems by (auto split: if_splits)
  from Cons.IH [OF this, of c] show ?case using Cons.prems d q by (auto split: if_splits)
qed simp

lemma decode_pieces_fold:
  assumes "conforms (pu_n_remain p) (concat pieces)" and "pu_n_remain p \<ge> 0"
  shows "fold (\<lambda>piece (out, p). (\<lambda>(c, q). (out @ butlast c, q)) (decode_utf8 piece p)) pieces (out, p) = fold dec_byte (concat pieces) (out, p)"
  using assms
proof (induction pieces arbitrary: out p)
  case (Cons bs pieces)
  obtain c q where d: "fold dec_byte bs ([], p) = (c, q)" by force
  have "conforms (pu_n_remain p) (bs @ concat pieces)" using Cons.prems(1) by simp
  from conforms_append [OF this Cons.prems(2), of "[]"] have ok: "conforms (pu_n_remain p) bs" "conforms (pu_n_remain q) (concat pieces)" "pu_n_remain q \<ge> 0"
    using d by auto
  have "decode_utf8 bs p = (c @ [0], q)" using decode_utf8_fold [OF ok(1) Cons.prems(2)] d by simp
  then show ?case using Cons.IH [OF ok(2,3), of "out @ c"] dec_byte_cps [of bs out p] d by simp
qed simp

section \<open>Properties\<close>

text \<open>C25: Every decoder inverts the encoder: what \<^verbatim>\<open>unicode_cpt_to_utf8\<close> writes for a code point, anywhere in a
  string, is read back by \<^verbatim>\<open>unicode_cpt_from_utf8\<close> and, for a nonzero code point, by the grammar parser's
  \<^verbatim>\<open>decode_utf8\<close>, and each stops right behind it.\<close>

theorem utf8_decoders_invert_encoder:
  assumes "unicode_cpt_to_utf8 c = Inr bs"
  shows "unicode_cpt_from_utf8 (pre @ bs @ rest) (length pre) = Some (Inr (c, length pre + length bs)) \<and>
    (c = 0 \<or> decode_utf8_ptr (map char_of_byte bs @ chars) = Some (c, chars))"
  using cpt_from_encode [OF assms] decode_ptr_encode [OF assms] by blast

text \<open>C23: A text without zero code points that is cut into pieces at arbitrary bytes, also inside a character, is
  decoded piece by piece to its code points: the partial sequence carried between the calls of
  \<^verbatim>\<open>decode_utf8\<close> loses and invents nothing, and nothing is pending at the end.\<close>

theorem decode_utf8_pieces_roundtrip:
  assumes "unicode_cpts_to_utf8 cs = Inr (concat pieces)" and "0 \<notin> set cs" and "pu_n_remain p = 0"
  shows "\<exists>q. decode_pieces pieces p = (cs, q) \<and> pu_n_remain q = 0"
proof -
  obtain q where q: "conforms 0 (concat pieces)" "pu_n_remain q = 0" "fold dec_byte (concat pieces) ([], p) = (cs, q)"
    using text_conforms [OF assms, of "[]"] by auto
  then show ?thesis using decode_pieces_fold [of p pieces "[]"] assms(3) by (simp add: decode_pieces_def)
qed

text \<open>On invalid input the result depends on the cut: the bytes \<^verbatim>\<open>C3 41\<close> are decoded in one call to a code point,
  because only a resumed sequence checks its continuation bytes, and are refused when cut between the two.\<close>

theorem decode_utf8_cut_matters_on_invalid:
  "decode_utf8 [0xC3, 0x41] \<lparr>pu_value = 0, pu_n_remain = 0\<rparr> = ([0xC1, 0], \<lparr>pu_value = 0xC1, pu_n_remain = 0\<rparr>) \<and>
   decode_utf8 [0xC3] \<lparr>pu_value = 0, pu_n_remain = 0\<rparr> = ([0], \<lparr>pu_value = 3, pu_n_remain = 1\<rparr>) \<and>
   decode_utf8 [0x41] \<lparr>pu_value = 3, pu_n_remain = 1\<rparr> = ([0], \<lparr>pu_value = 0, pu_n_remain = -1\<rparr>)"
  by code_simp

theorem utf8_decoders_invert_encoder_witness:
  "unicode_cpt_to_utf8 0x20AC = Inr [0xE2, 0x82, 0xAC] \<and> unicode_cpt_from_utf8 [0x41, 0xE2, 0x82, 0xAC] 1 = Some (Inr (0x20AC, 4))"
proof -
  have e: "unicode_cpt_to_utf8 0x20AC = Inr [0xE2, 0x82, 0xAC]" by code_simp
  show ?thesis using utf8_decoders_invert_encoder [OF e, of "[0x41]" "[]" "[]"] e by simp
qed

theorem decode_utf8_pieces_roundtrip_witness:
  "\<exists>q. decode_pieces [[0x41, 0xE2], [0x82], [0xAC, 0x42]] \<lparr>pu_value = 0, pu_n_remain = 0\<rparr> = ([0x41, 0x20AC, 0x42], q) \<and> pu_n_remain q = 0"
proof (rule decode_utf8_pieces_roundtrip)
  show "unicode_cpts_to_utf8 [0x41, 0x20AC, 0x42] = Inr (concat [[0x41, 0xE2], [0x82], [0xAC, 0x42]])" by code_simp
qed simp_all

end
