(* ===== verification/GrammarParse.thy ===== *)
theory GrammarParse
  imports GrammarTerm Utf8 "HOL-Library.Char_ord"
begin

text \<open>
  The GBNF parser of \<^verbatim>\<open>src/llama-grammar.cpp\<close>. A \<^verbatim>\<open>const char *\<close> is the list of the characters before the
  terminator, so \<^verbatim>\<open>*pos\<close> is zero when the list is empty. A thrown exception is \<open>Inl (Throw message)\<close>; the
  mutually recursive functions take a bound on their depth, and \<open>Inl Out_Of_Fuel\<close> says that it was too small.
\<close>

section \<open>Lexical functions\<close>

datatype parse_error = Throw string | Out_Of_Fuel

type_synonym 'a presult = "parse_error + 'a"

definition and_then :: "'a presult \<Rightarrow> ('a \<Rightarrow> 'b presult) \<Rightarrow> 'b presult" where
  "and_then r f = (case r of Inl e \<Rightarrow> Inl e | Inr x \<Rightarrow> f x)"

fun to_string :: "nat \<Rightarrow> string" where
  "to_string n = (if n < 10 then [char_of (48 + n)] else to_string (n div 10) @ [char_of (48 + n mod 10)])"

declare to_string.simps [simp del]

definition is_digit_char :: "char \<Rightarrow> bool" where
  "is_digit_char c \<longleftrightarrow> CHR ''0'' \<le> c \<and> c \<le> CHR ''9''"

definition is_word_char :: "char \<Rightarrow> bool" where
  "is_word_char c \<longleftrightarrow> (CHR ''a'' \<le> c \<and> c \<le> CHR ''z'') \<or> (CHR ''A'' \<le> c \<and> c \<le> CHR ''Z'') \<or> c = CHR ''-'' \<or> is_digit_char c"

definition hex_value :: "char \<Rightarrow> u32 option" where
  "hex_value c =
     (if CHR ''a'' \<le> c \<and> c \<le> CHR ''f'' then Some (of_char c - of_char (CHR ''a'') + 10)
      else if CHR ''A'' \<le> c \<and> c \<le> CHR ''F'' then Some (of_char c - of_char (CHR ''A'') + 10)
      else if CHR ''0'' \<le> c \<and> c \<le> CHR ''9'' then Some (of_char c - of_char (CHR ''0''))
      else None)"

text \<open>The loop with the number of characters still expected.\<close>

fun hex_loop :: "nat \<Rightarrow> u32 \<Rightarrow> string \<Rightarrow> nat \<times> u32 \<times> string" where
  "hex_loop (Suc k) value (c # cs) =
     (let value = push_bit 4 value in
      case hex_value c of Some d \<Rightarrow> hex_loop k (value + d) cs | None \<Rightarrow> (Suc k, value, c # cs))"
| "hex_loop k value cs = (k, value, cs)"

definition parse_hex :: "string \<Rightarrow> nat \<Rightarrow> (u32 \<times> string) presult" where
  "parse_hex src n =
     (let (k, value, pos) = hex_loop n 0 src in
      if k \<noteq> 0 then Inl (Throw (''expecting '' @ to_string n @ '' hex chars at '' @ src)) else Inr (value, pos))"

function parse_space :: "string \<Rightarrow> bool \<Rightarrow> string" where
  "parse_space [] newline_ok = []"
| "parse_space (c # cs) newline_ok =
     (if c = CHR '' '' \<or> c = CHR 0x09 \<or> c = CHR ''#'' \<or> (newline_ok \<and> (c = CHR 0x0D \<or> c = CHR 0x0A)) then
        if c = CHR ''#'' then parse_space (dropWhile (\<lambda>c. c \<noteq> CHR 0x0D \<and> c \<noteq> CHR 0x0A) cs) newline_ok
        else parse_space cs newline_ok
      else c # cs)"
  by pat_completeness auto
termination
  by (relation "measure (\<lambda>(s, _). length s)") (auto simp: less_Suc_eq_le length_dropWhile_le)

text \<open>The text of a name and the rest of the source.\<close>

definition parse_name :: "string \<Rightarrow> (string \<times> string) presult" where
  "parse_name src =
     (let name = takeWhile is_word_char src in
      if name = [] then Inl (Throw (''expecting name at '' @ src)) else Inr (name, dropWhile is_word_char src))"

definition parse_int :: "string \<Rightarrow> (string \<times> string) presult" where
  "parse_int src =
     (let digits = takeWhile is_digit_char src in
      if digits = [] then Inl (Throw (''expecting integer at '' @ src)) else Inr (digits, dropWhile is_digit_char src))"

text \<open>\<^verbatim>\<open>std::stoul\<close> on decimal digits, stored in an \<^verbatim>\<open>int\<close>.\<close>

definition digits_value :: "string \<Rightarrow> int" where
  "digits_value ds = foldl (\<lambda>n c. 10 * n + (of_char c - 48)) 0 ds"

definition stoul_int :: "string \<Rightarrow> int presult" where
  "stoul_int ds =
     (if digits_value ds \<ge> 2 ^ 64 then Inl (Throw ''stoul'') else Inr (sint (word_of_int (digits_value ds) :: u32)))"

definition parse_char :: "string \<Rightarrow> (u32 \<times> string) presult" where
  "parse_char src =
     (case src of
        [] \<Rightarrow> Inl (Throw ''unexpected end of input'')
      | c # cs \<Rightarrow>
          if c = CHR 0x5C then
            (case cs of
               [] \<Rightarrow> Inl (Throw (''unknown escape at '' @ src))
             | e # es \<Rightarrow>
                 if e = CHR ''x'' then parse_hex es 2
                 else if e = CHR ''u'' then parse_hex es 4
                 else if e = CHR ''U'' then parse_hex es 8
                 else if e = CHR ''t'' then Inr (9, es)
                 else if e = CHR ''r'' then Inr (13, es)
                 else if e = CHR ''n'' then Inr (10, es)
                 else if e = CHR 0x5C \<or> e = CHR 0x22 \<or> e = CHR ''['' \<or> e = CHR '']'' then Inr (of_char e, es)
                 else Inl (Throw (''unknown escape at '' @ src)))
          else (case decode_utf8_ptr src of Some r \<Rightarrow> Inr r | None \<Rightarrow> Inl (Throw ''unexpected end of input'')))"

section \<open>The parser\<close>

text \<open>\<^verbatim>\<open>symbol_ids\<close> as an association list with distinct keys.\<close>

record grammar_parser =
  symbol_ids :: "(string \<times> u32) list"
  gp_rules :: grammar_rules

definition parser_new :: grammar_parser where
  "parser_new = \<lparr>symbol_ids = [], gp_rules = []\<rparr>"

definition get_symbol_id :: "string \<Rightarrow> grammar_parser \<Rightarrow> u32 \<times> grammar_parser" where
  "get_symbol_id name p =
     (case map_of (symbol_ids p) name of
        Some v \<Rightarrow> (v, p)
      | None \<Rightarrow> (let next_id = of_nat (length (symbol_ids p))
                 in (next_id, p\<lparr>symbol_ids := AList.update name next_id (symbol_ids p)\<rparr>)))"

definition generate_symbol_id :: "string \<Rightarrow> grammar_parser \<Rightarrow> u32 \<times> grammar_parser" where
  "generate_symbol_id base_name p =
     (let next_id = of_nat (length (symbol_ids p)) :: u32
      in (next_id, p\<lparr>symbol_ids := AList.update (base_name @ ''_'' @ to_string (unat next_id)) next_id (symbol_ids p)\<rparr>))"

definition add_rule :: "u32 \<Rightarrow> grammar_rule \<Rightarrow> grammar_parser \<Rightarrow> grammar_parser" where
  "add_rule rule_id rule p =
     (let rules = (if length (gp_rules p) \<le> unat rule_id then vec_resize (unat (rule_id + 1)) [] (gp_rules p) else gp_rules p)
      in p\<lparr>gp_rules := rules[unat rule_id := rule]\<rparr>)"

abbreviation elem :: "llama_gretype \<Rightarrow> u32 \<Rightarrow> grammar_element" where
  "elem t v \<equiv> \<lparr>ge_type = t, ge_value = v\<rparr>"

text \<open>\<^verbatim>\<open>handle_repetitions\<close>: the body of the loop that writes the rules \<^verbatim>\<open>S'\<close>, and the whole lambda.\<close>

definition rep_step :: "string \<Rightarrow> int \<Rightarrow> grammar_rule \<Rightarrow> nat \<Rightarrow> u32 \<times> grammar_parser \<Rightarrow> u32 \<times> grammar_parser" where
  "rep_step rule_name max_times prev_rule i = (\<lambda>(last_rec_rule_id, p).
     let (rec_rule_id, p) = generate_symbol_id rule_name p;
         ref = (if i > 0 \<or> max_times < 0
                then [elem GRE_RULE_REF (if max_times < 0 then rec_rule_id else last_rec_rule_id)] else []);
         rec_rule = prev_rule @ ref @ [elem GRE_ALT 0, elem GRE_END 0]
     in (rec_rule_id, add_rule rec_rule_id rec_rule p))"

definition handle_repetitions :: "string \<Rightarrow> string \<Rightarrow> nat \<Rightarrow> int \<Rightarrow> int \<Rightarrow> grammar_rule \<Rightarrow> grammar_parser \<Rightarrow>
    (grammar_rule \<times> grammar_parser) presult" where
  "handle_repetitions rule_name pos last_sym_start min_times max_times rule p =
     (if last_sym_start = length rule then Inl (Throw (''expecting preceding item to */+/?/{ at '' @ pos))
      else
        (let prev_rule = drop last_sym_start rule;
             rule = (if min_times = 0 then take last_sym_start rule
                     else rule @ concat (replicate (nat (min_times - 1)) prev_rule));
             n_opt = (if max_times < 0 then 1 else max_times - min_times);
             (last_rec_rule_id, p) = fold (rep_step rule_name max_times prev_rule) [0..<nat n_opt] (0, p);
             rule = (if n_opt > 0 then rule @ [elem GRE_RULE_REF last_rec_rule_id] else rule)
         in Inr (rule, p)))"

section \<open>What is consumed\<close>

lemma and_then_Inr: "and_then r f = Inr y \<longleftrightarrow> (\<exists>x. r = Inr x \<and> f x = Inr y)"
  by (cases r) (auto simp: and_then_def)

lemma and_then_simps [simp]: "and_then (Inl e) f = Inl e" "and_then (Inr x) f = f x"
  by (simp_all add: and_then_def)

lemma parse_space_le: "length (parse_space s b) \<le> length s"
proof (induction s b rule: parse_space.induct)
  case (2 c cs b)
  then show ?case using length_dropWhile_le [of "\<lambda>c. c \<noteq> CHR 0x0D \<and> c \<noteq> CHR 0x0A" cs] by auto
qed simp

lemma parse_space_less: "length s < k \<Longrightarrow> length (parse_space s b) < k"
  using parse_space_le [of s b] by simp

lemma hex_loop_le: "hex_loop n v s = (k, v', s') \<Longrightarrow> length s' \<le> length s"
proof (induction n v s rule: hex_loop.induct)
  case (1 k v c cs)
  then show ?case by (cases "hex_value c") (auto simp: Let_def intro: le_SucI)
qed auto

lemma ptr_cont_le: "ptr_cont k v s = (v', s') \<Longrightarrow> length s' \<le> length s"
  by (induction k v s rule: ptr_cont.induct) (auto split: if_splits)

lemma decode_ptr_less: "decode_utf8_ptr s = Some (v, r) \<Longrightarrow> length r < length s"
  by (cases s) (auto simp: Let_def less_Suc_eq_le dest!: ptr_cont_le)

lemma parse_hex_le: "parse_hex s n = Inr (v, r) \<Longrightarrow> length r \<le> length s"
  by (auto simp: parse_hex_def split: if_splits prod.splits dest: hex_loop_le)

lemma parse_char_less: "parse_char s = Inr (v, r) \<Longrightarrow> length r < length s"
  unfolding parse_char_def
  by (auto split: list.splits if_splits option.splits dest: parse_hex_le decode_ptr_less simp del: decode_utf8_ptr.simps)

section \<open>Sequences and alternates\<close>

text \<open>The loop over a literal, after the opening quote.\<close>

function parse_literal :: "string \<Rightarrow> grammar_rule \<Rightarrow> (string \<times> grammar_rule) presult" where
  "parse_literal pos rule =
     (case pos of
        [] \<Rightarrow> Inl (Throw ''unexpected end of input'')
      | c # cs \<Rightarrow>
          if c = CHR 0x22 then Inr (cs, rule)
          else (case parse_char pos of
                  Inl e \<Rightarrow> Inl e
                | Inr (value, pos) \<Rightarrow> parse_literal pos (rule @ [elem GRE_CHAR value])))"
  by pat_completeness auto
termination
  by (relation "measure (\<lambda>(s, _). length s)") (auto dest: parse_char_less)

text \<open>The loop over the ranges of a class, after the bracket and the caret.\<close>

function parse_ranges :: "llama_gretype \<Rightarrow> nat \<Rightarrow> string \<Rightarrow> grammar_rule \<Rightarrow> (string \<times> grammar_rule) presult" where
  "parse_ranges start_type last_sym_start pos rule =
     (case pos of
        [] \<Rightarrow> Inl (Throw ''unexpected end of input'')
      | c # cs \<Rightarrow>
          if c = CHR '']'' then Inr (cs, rule)
          else (case parse_char pos of
                  Inl e \<Rightarrow> Inl e
                | Inr (value, pos) \<Rightarrow>
                    (let rule = rule @ [elem (if last_sym_start < length rule then GRE_CHAR_ALT else start_type) value] in
                     if take 1 pos = ''-'' \<and> take 1 (drop 1 pos) \<noteq> '']'' then
                       if drop 1 pos = [] then Inl (Throw ''unexpected end of input'')
                       else (case parse_char (drop 1 pos) of
                               Inl e \<Rightarrow> Inl e
                             | Inr (upper, pos) \<Rightarrow>
                                 parse_ranges start_type last_sym_start pos (rule @ [elem GRE_CHAR_RNG_UPPER upper]))
                     else parse_ranges start_type last_sym_start pos rule)))"
  by pat_completeness auto
termination
  by (relation "measure (\<lambda>(_, _, s, _). length s)") (auto dest!: parse_char_less)

declare parse_literal.simps [simp del] parse_ranges.simps [simp del]

text \<open>The bounds of a repetition, after the opening brace: the least and the largest count, and the rest.\<close>

definition at_digit :: "string \<Rightarrow> bool" where
  "at_digit pos \<longleftrightarrow> (case pos of [] \<Rightarrow> False | c # _ \<Rightarrow> is_digit_char c)"

definition parse_count :: "string \<Rightarrow> bool \<Rightarrow> (int \<times> string) presult" where
  "parse_count pos is_nested =
     and_then (parse_int pos) (\<lambda>(digits, int_end).
     and_then (stoul_int digits) (\<lambda>n. Inr (n, parse_space int_end is_nested)))"

definition parse_bounds :: "string \<Rightarrow> bool \<Rightarrow> (int \<times> int \<times> string) presult" where
  "parse_bounds pos is_nested =
     (if \<not> at_digit pos then Inl (Throw (''expecting an int at '' @ pos))
      else and_then (parse_count pos is_nested) (\<lambda>(min_times, pos).
        if take 1 pos = ''}'' then Inr (min_times, min_times, parse_space (drop 1 pos) is_nested)
        else if take 1 pos = '','' then
          (let pos = parse_space (drop 1 pos) is_nested in
           and_then (if at_digit pos then parse_count pos is_nested else Inr (-1, pos)) (\<lambda>(max_times, pos).
             if take 1 pos \<noteq> ''}'' then Inl (Throw (''expecting '' @ [CHR 0x27] @ ''}'' @ [CHR 0x27] @ '' at '' @ pos))
             else Inr (min_times, max_times, parse_space (drop 1 pos) is_nested)))
        else Inl (Throw (''expecting '' @ [CHR 0x27] @ '','' @ [CHR 0x27] @ '' at '' @ pos))))"

text \<open>The state of the loop of \<^verbatim>\<open>parse_sequence\<close>.\<close>

record seq_state =
  ss_last :: nat
  ss_pos :: string
  ss_rule :: grammar_rule
  ss_parser :: grammar_parser

text \<open>One pass of the loop, at a nonempty source; \<open>alts\<close> is the recursive call of \<^verbatim>\<open>parse_alternates\<close> and \<open>Inr None\<close>
  is \<^verbatim>\<open>break\<close>.\<close>

definition repeat_item :: "string \<Rightarrow> int \<Rightarrow> int \<Rightarrow> string \<Rightarrow> seq_state \<Rightarrow> seq_state option presult" where
  "repeat_item rule_name min_times max_times pos s =
     and_then (handle_repetitions rule_name pos (ss_last s) min_times max_times (ss_rule s) (ss_parser s)) (\<lambda>(rule, p).
       Inr (Some (s\<lparr>ss_pos := pos, ss_rule := rule, ss_parser := p\<rparr>)))"

definition sequence_step :: "(string \<Rightarrow> u32 \<Rightarrow> grammar_parser \<Rightarrow> (string \<times> grammar_parser) presult) \<Rightarrow> string \<Rightarrow> bool \<Rightarrow>
    seq_state \<Rightarrow> seq_state option presult" where
  "sequence_step alts rule_name is_nested s =
     (let pos = ss_pos s; rule = ss_rule s; p = ss_parser s; c = hd pos; cs = tl pos in
      if c = CHR 0x22 then
        and_then (parse_literal cs rule) (\<lambda>(pos, rule').
          Inr (Some (s\<lparr>ss_last := length rule, ss_pos := parse_space pos is_nested, ss_rule := rule'\<rparr>)))
      else if c = CHR ''['' then
        (let neg = (take 1 cs = ''^'') in
         and_then (parse_ranges (if neg then GRE_CHAR_NOT else GRE_CHAR) (length rule) (if neg then drop 1 cs else cs) rule) (\<lambda>(pos, rule').
           Inr (Some (s\<lparr>ss_last := length rule, ss_pos := parse_space pos is_nested, ss_rule := rule'\<rparr>))))
      else if is_word_char c then
        and_then (parse_name pos) (\<lambda>(name, name_end).
          let (ref_rule_id, p) = get_symbol_id name p in
          Inr (Some \<lparr>ss_last = length rule, ss_pos = parse_space name_end is_nested,
                     ss_rule = rule @ [elem GRE_RULE_REF ref_rule_id], ss_parser = p\<rparr>))
      else if c = CHR ''('' then
        (let pos = parse_space cs True; (sub_rule_id, p) = generate_symbol_id rule_name p in
         and_then (alts pos sub_rule_id p) (\<lambda>(pos, p).
           if take 1 pos \<noteq> '')'' then Inl (Throw (''expecting '' @ [CHR 0x27] @ '')'' @ [CHR 0x27] @ '' at '' @ pos))
           else Inr (Some \<lparr>ss_last = length rule, ss_pos = parse_space (drop 1 pos) is_nested,
                           ss_rule = rule @ [elem GRE_RULE_REF sub_rule_id], ss_parser = p\<rparr>)))
      else if c = CHR ''.'' then
        Inr (Some (s\<lparr>ss_last := length rule, ss_pos := parse_space cs is_nested, ss_rule := rule @ [elem GRE_CHAR_ANY 0]\<rparr>))
      else if c = CHR ''*'' then repeat_item rule_name 0 (-1) (parse_space cs is_nested) s
      else if c = CHR ''+'' then repeat_item rule_name 1 (-1) (parse_space cs is_nested) s
      else if c = CHR ''?'' then repeat_item rule_name 0 1 (parse_space cs is_nested) s
      else if c = CHR ''{'' then
        and_then (parse_bounds (parse_space cs is_nested) is_nested) (\<lambda>(min_times, max_times, pos).
          repeat_item rule_name min_times max_times pos s)
      else Inr None)"

fun sequence_loop :: "nat \<Rightarrow> string \<Rightarrow> bool \<Rightarrow> seq_state \<Rightarrow> seq_state presult"
  and alternates_loop :: "nat \<Rightarrow> string \<Rightarrow> bool \<Rightarrow> string \<Rightarrow> grammar_rule \<Rightarrow> grammar_parser \<Rightarrow>
    (string \<times> grammar_rule \<times> grammar_parser) presult"
  and parse_alternates :: "nat \<Rightarrow> string \<Rightarrow> string \<Rightarrow> u32 \<Rightarrow> bool \<Rightarrow> grammar_parser \<Rightarrow> (string \<times> grammar_parser) presult" where
  "sequence_loop 0 rule_name is_nested s = Inl Out_Of_Fuel"
| "sequence_loop (Suc n) rule_name is_nested s =
     (if ss_pos s = [] then Inr s
      else and_then (sequence_step (\<lambda>pos rule_id p. parse_alternates n pos rule_name rule_id True p) rule_name is_nested s) (\<lambda>r.
        case r of None \<Rightarrow> Inr s | Some s' \<Rightarrow> sequence_loop n rule_name is_nested s'))"
| "alternates_loop 0 rule_name is_nested pos rule p = Inl Out_Of_Fuel"
| "alternates_loop (Suc n) rule_name is_nested pos rule p =
     (if take 1 pos = ''|'' then
        (let rule = rule @ [elem GRE_ALT 0] in
         and_then (sequence_loop n rule_name is_nested
             \<lparr>ss_last = length rule, ss_pos = parse_space (drop 1 pos) True, ss_rule = rule, ss_parser = p\<rparr>) (\<lambda>s.
           alternates_loop n rule_name is_nested (ss_pos s) (ss_rule s) (ss_parser s)))
      else Inr (pos, rule, p))"
| "parse_alternates 0 src rule_name rule_id is_nested p = Inl Out_Of_Fuel"
| "parse_alternates (Suc n) src rule_name rule_id is_nested p =
     and_then (sequence_loop n rule_name is_nested \<lparr>ss_last = 0, ss_pos = src, ss_rule = [], ss_parser = p\<rparr>) (\<lambda>s.
     and_then (alternates_loop n rule_name is_nested (ss_pos s) (ss_rule s) (ss_parser s)) (\<lambda>(pos, rule, p).
       Inr (pos, add_rule rule_id (rule @ [elem GRE_END 0]) p)))"

section \<open>Rules and grammars\<close>

definition end_of_rule :: "string \<Rightarrow> string presult" where
  "end_of_rule pos =
     (case pos of
        [] \<Rightarrow> Inr (parse_space pos True)
      | c # cs \<Rightarrow>
          if c = CHR 0x0D then Inr (parse_space (if take 1 cs = [CHR 0x0A] then drop 1 cs else cs) True)
          else if c = CHR 0x0A then Inr (parse_space cs True)
          else Inl (Throw (''expecting newline or end at '' @ pos)))"

text \<open>A bound on the depth that suffices for a source of length \<open>k\<close>.\<close>

definition enough :: "nat \<Rightarrow> nat" where
  "enough k = 3 * k + 3"

definition parse_rule :: "string \<Rightarrow> grammar_parser \<Rightarrow> (string \<times> grammar_parser) presult" where
  "parse_rule src p =
     and_then (parse_name src) (\<lambda>(name, name_end).
       let pos = parse_space name_end False; (rule_id, p) = get_symbol_id name p in
       if take 3 pos \<noteq> ''::='' then Inl (Throw (''expecting ::= at '' @ pos))
       else
         (let pos = parse_space (drop 3 pos) True in
          and_then (parse_alternates (enough (length pos)) pos name rule_id False p) (\<lambda>(pos, p).
          and_then (end_of_rule pos) (\<lambda>pos. Inr (pos, p)))))"

fun parse_rules :: "nat \<Rightarrow> string \<Rightarrow> grammar_parser \<Rightarrow> grammar_parser presult" where
  "parse_rules 0 pos p = Inl Out_Of_Fuel"
| "parse_rules (Suc n) pos p =
     (if pos = [] then Inr p else and_then (parse_rule pos p) (\<lambda>(pos, p). parse_rules n pos p))"

text \<open>The validation: the first rule or reference that is not defined.\<close>

definition check_elem :: "grammar_parser \<Rightarrow> grammar_element \<Rightarrow> parse_error option" where
  "check_elem p e =
     (if ge_type e = GRE_RULE_REF \<and>
         (unat (ge_value e) \<ge> length (gp_rules p) \<or> gp_rules p ! unat (ge_value e) = []) then
        map_option (\<lambda>kv. Throw (''Undefined rule identifier '' @ [CHR 0x27] @ fst kv @ [CHR 0x27]))
          (List.find (\<lambda>kv. snd kv = ge_value e) (symbol_ids p))
      else None)"

fun first_error :: "('a \<Rightarrow> parse_error option) \<Rightarrow> 'a list \<Rightarrow> parse_error option" where
  "first_error f [] = None"
| "first_error f (x # xs) = (case f x of None \<Rightarrow> first_error f xs | Some e \<Rightarrow> Some e)"

definition check_rule :: "grammar_parser \<Rightarrow> grammar_rule \<Rightarrow> parse_error option" where
  "check_rule p rule = (if rule = [] then Some (Throw ''Undefined rule'') else first_error (check_elem p) rule)"

text \<open>\<^verbatim>\<open>parse\<close>: \<open>Inl\<close> is the return value false, with the message printed and the rules cleared.\<close>

definition parse :: "string \<Rightarrow> grammar_parser \<Rightarrow> grammar_parser presult" where
  "parse src p =
     (let pos = parse_space (takeWhile (\<lambda>c. c \<noteq> CHR 0x00) src) True in
      and_then (parse_rules (length pos + 1) pos p) (\<lambda>p.
        case first_error (check_rule p) (gp_rules p) of None \<Rightarrow> Inr p | Some e \<Rightarrow> Inl e))"

end
