(* ===== verification/GrammarParseOk.thy ===== *)
theory GrammarParseOk
  imports GrammarParse
begin

text \<open>
  Correctness of the GBNF parser: it returns on every source, symbols keep distinct numbers, and the rules of
  an accepted grammar are well-formed, so that the engine may run on them.
\<close>

section \<open>Symbols\<close>

definition fits :: "grammar_parser \<Rightarrow> bool" where
  "fits p \<longleftrightarrow> length (symbol_ids p) < 2 ^ 32"

definition ids :: "grammar_parser \<Rightarrow> u32 set" where
  "ids p = snd ` set (symbol_ids p)"

text \<open>Generated names carry their number behind the first underscore.\<close>

definition name_ok :: "string \<Rightarrow> u32 \<Rightarrow> bool" where
  "name_ok k v \<longleftrightarrow> CHR ''_'' \<notin> set k \<or> (\<exists>b. CHR ''_'' \<notin> set b \<and> k = b @ ''_'' @ to_string (unat v))"

definition syms_ok :: "(string \<times> u32) list \<Rightarrow> bool" where
  "syms_ok xs \<longleftrightarrow> distinct (map fst xs) \<and> distinct (map snd xs) \<and> (\<forall>(k, v) \<in> set xs. unat v < length xs \<and> name_ok k v)"

definition refs_in :: "grammar_parser \<Rightarrow> grammar_rule \<Rightarrow> bool" where
  "refs_in p es \<longleftrightarrow> (fits p \<longrightarrow> (\<forall>e \<in> set es. ge_type e = GRE_RULE_REF \<longrightarrow> ge_value e \<in> ids p))"

definition parser_ok :: "grammar_parser \<Rightarrow> bool" where
  "parser_ok p \<longleftrightarrow> (fits p \<longrightarrow> syms_ok (symbol_ids p) \<and> length (gp_rules p) \<le> length (symbol_ids p)) \<and>
     (\<forall>es \<in> set (gp_rules p). (es = [] \<or> elems_ok 0 es) \<and> refs_in p es)"

text \<open>The parser only adds symbols.\<close>

definition extends :: "grammar_parser \<Rightarrow> grammar_parser \<Rightarrow> bool" where
  "extends p p' \<longleftrightarrow> length (symbol_ids p) \<le> length (symbol_ids p') \<and> (fits p' \<longrightarrow> ids p \<subseteq> ids p')"

lemma extends_refl [simp]: "extends p p"
  by (simp add: extends_def)

lemma extends_trans [trans]: "extends p q \<Longrightarrow> extends q r \<Longrightarrow> extends p r"
  by (auto simp: extends_def fits_def)

lemma extends_fits: "extends p q \<Longrightarrow> fits q \<Longrightarrow> fits p"
  by (simp add: extends_def fits_def)

lemma refs_in_extends: "refs_in p es \<Longrightarrow> extends p q \<Longrightarrow> refs_in q es"
  by (auto simp: refs_in_def extends_def fits_def)

lemma refs_in_append [simp]: "refs_in p (xs @ ys) \<longleftrightarrow> refs_in p xs \<and> refs_in p ys"
  by (auto simp: refs_in_def)

lemma refs_in_simps [simp]: "refs_in p []" "refs_in p (e # es) \<longleftrightarrow> (fits p \<longrightarrow> ge_type e = GRE_RULE_REF \<longrightarrow> ge_value e \<in> ids p) \<and> refs_in p es"
  by (auto simp: refs_in_def)

lemma refs_in_take: "refs_in p es \<Longrightarrow> refs_in p (take k es)" "refs_in p es \<Longrightarrow> refs_in p (drop k es)"
  by (auto simp: refs_in_def dest: in_set_takeD in_set_dropD)

lemma refs_in_replicate: "refs_in p es \<Longrightarrow> refs_in p (concat (replicate n es))"
  by (auto simp: refs_in_def)

lemma digits_to_string: "digits_value (to_string n) = int n"
proof (induction n rule: to_string.induct)
  case (1 n)
  have d: "of_char (char_of (48 + m) :: char) = 48 + int m" if "m < 10" for m
  proof -
    have "of_char (char_of (48 + m) :: char) = int (of_char (char_of (48 + m) :: char))" by (simp only: of_nat_of_char)
    then show ?thesis using that by simp
  qed
  have "n mod 10 < 10" by simp
  moreover have "10 * int (n div 10) + int (n mod 10) = int n" by presburger
  ultimately show ?case using 1 d [of n] d [of "n mod 10"] by (subst to_string.simps) (auto simp: digits_value_def)
qed

lemma to_string_inj: "to_string m = to_string n \<longleftrightarrow> m = n"
  by (metis digits_to_string of_nat_eq_iff)

lemma split_underscore:
  "CHR ''_'' \<notin> set b \<Longrightarrow> CHR ''_'' \<notin> set b' \<Longrightarrow> b @ ''_'' @ x = b' @ ''_'' @ y \<Longrightarrow> x = y"
proof (induction b arbitrary: b')
  case Nil
  then show ?case by (cases b') auto
next
  case (Cons c b)
  then show ?case by (cases b') auto
qed

lemma update_fresh: "k \<notin> fst ` set xs \<Longrightarrow> AList.update k v xs = xs @ [(k, v)]"
  by (induction xs) auto

lemma length_update: "length xs \<le> length (AList.update k v xs)"
  by (induction xs) auto

lemma word_of_length: "n < 2 ^ 32 \<Longrightarrow> unat (of_nat n :: u32) = n"
  by (simp add: unat_of_nat take_bit_nat_eq_self)

lemma syms_ok_fresh:
  assumes ok: "syms_ok xs" and len: "length xs < 2 ^ 32" and fresh: "k \<notin> fst ` set xs" and name: "name_ok k (of_nat (length xs))"
  shows "syms_ok (xs @ [(k, of_nat (length xs))])"
proof -
  have "of_nat (length xs) \<notin> snd ` set xs"
    using ok word_of_length [OF len] by (auto simp: syms_ok_def)
  then show ?thesis using ok fresh name word_of_length [OF len]
    by (auto simp: syms_ok_def)
qed

section \<open>Each operation keeps the invariant\<close>

lemma get_symbol_id_ok:
  assumes p: "parser_ok p" and name: "CHR ''_'' \<notin> set name" and get: "get_symbol_id name p = (v, p')"
  shows "parser_ok p' \<and> extends p p' \<and> (fits p' \<longrightarrow> v \<in> ids p')"
proof (cases "map_of (symbol_ids p) name")
  case (Some w)
  then show ?thesis using assms by (force simp: get_symbol_id_def ids_def dest: map_of_SomeD)
next
  case None
  then have fresh: "name \<notin> fst ` set (symbol_ids p)" by (simp add: map_of_eq_None_iff)
  have p': "v = of_nat (length (symbol_ids p))" "p' = p\<lparr>symbol_ids := symbol_ids p @ [(name, v)]\<rparr>"
    using get None update_fresh [OF fresh] by (auto simp: get_symbol_id_def Let_def)
  then have ext: "extends p p'" by (auto simp: extends_def ids_def)
  have "syms_ok (symbol_ids p')" "length (gp_rules p') \<le> length (symbol_ids p')" if "fits p'"
    using syms_ok_fresh [of "symbol_ids p" name] fresh name p p' that by (auto simp: parser_ok_def fits_def name_ok_def)
  moreover have "(es = [] \<or> elems_ok 0 es) \<and> refs_in p' es" if "es \<in> set (gp_rules p')" for es
    using that p p' refs_in_extends [OF _ ext] by (auto simp: parser_ok_def)
  ultimately show ?thesis using ext p' by (auto simp: parser_ok_def ids_def)
qed

lemma generate_symbol_id_ok:
  assumes p: "parser_ok p" and name: "CHR ''_'' \<notin> set base" and gen: "generate_symbol_id base p = (v, p')"
  shows "parser_ok p' \<and> extends p p' \<and> (fits p' \<longrightarrow> v \<in> ids p')"
proof -
  let ?k = "base @ ''_'' @ to_string (unat v)"
  have p': "v = of_nat (length (symbol_ids p))" "p' = p\<lparr>symbol_ids := AList.update ?k v (symbol_ids p)\<rparr>"
    using gen by (auto simp: generate_symbol_id_def Let_def)
  have len: "length (symbol_ids p) \<le> length (symbol_ids p')" using p'(2) length_update by simp
  have up: "symbol_ids p' = symbol_ids p @ [(?k, v)] \<and> syms_ok (symbol_ids p')" if "fits p'"
  proof -
    have f: "length (symbol_ids p) < 2 ^ 32" using that len by (simp add: fits_def)
    then have ok: "syms_ok (symbol_ids p)" using p by (simp add: parser_ok_def fits_def)
    have v: "unat v = length (symbol_ids p)" using word_of_length [OF f] p'(1) by simp
    have fresh: "?k \<notin> fst ` set (symbol_ids p)"
    proof
      assume "?k \<in> fst ` set (symbol_ids p)"
      then obtain w where w: "(?k, w) \<in> set (symbol_ids p)" by auto
      then have wl: "unat w < length (symbol_ids p)" and "name_ok ?k w" using ok by (auto simp: syms_ok_def)
      then obtain b where "CHR ''_'' \<notin> set b" "?k = b @ ''_'' @ to_string (unat w)" by (auto simp: name_ok_def)
      then have "to_string (unat v) = to_string (unat w)" using split_underscore [OF name] by blast
      then show False using wl v to_string_inj by simp
    qed
    then have "symbol_ids p' = symbol_ids p @ [(?k, v)]" using update_fresh p'(2) by simp
    moreover have "name_ok ?k v" using name by (auto simp: name_ok_def)
    ultimately show ?thesis using syms_ok_fresh [OF ok f fresh] p'(1) by simp
  qed
  then have ext: "extends p p'" using len by (auto simp: extends_def ids_def)
  have "(es = [] \<or> elems_ok 0 es) \<and> refs_in p' es" if "es \<in> set (gp_rules p')" for es
    using that p p'(2) refs_in_extends [OF _ ext] by (auto simp: parser_ok_def)
  moreover have "length (gp_rules p') \<le> length (symbol_ids p')" if "fits p'"
    using p p'(2) len extends_fits [OF ext that] by (auto simp: parser_ok_def)
  ultimately show ?thesis using ext up by (auto simp: parser_ok_def ids_def)
qed

lemma add_rule_ok:
  assumes p: "parser_ok p" and v: "fits p \<longrightarrow> v \<in> ids p" and es: "elems_ok 0 es" "refs_in p es"
  shows "parser_ok (add_rule v es p) \<and> extends p (add_rule v es p)"
proof -
  let ?p = "add_rule v es p"
  have sy: "symbol_ids ?p = symbol_ids p" by (simp add: add_rule_def Let_def)
  have same: "fits ?p = fits p" "ids ?p = ids p" "refs_in ?p = refs_in p" using sy by (simp_all add: fits_def ids_def refs_in_def fun_eq_iff)
  have "set (gp_rules ?p) \<subseteq> insert es (insert [] (set (gp_rules p)))"
    by (auto simp: add_rule_def Let_def vec_resize_def dest!: set_update_subset_insert [THEN subsetD] in_set_takeD split: if_splits)
  then have "\<forall>x \<in> set (gp_rules ?p). (x = [] \<or> elems_ok 0 x) \<and> refs_in ?p x" using p es same by (auto simp: parser_ok_def)
  moreover have "length (gp_rules ?p) \<le> length (symbol_ids p)" if f: "fits p"
  proof -
    have "unat v < length (symbol_ids p)" using v f p by (auto simp: parser_ok_def syms_ok_def ids_def)
    moreover from this have "unat (v + 1) \<le> unat v + 1" by (simp add: unat_word_ariths)
    ultimately show ?thesis using p f by (auto simp: parser_ok_def add_rule_def Let_def)
  qed
  ultimately show ?thesis using p sy same by (simp add: parser_ok_def extends_def)
qed

section \<open>Fragments of rules\<close>

text \<open>A fragment may stand before anything that a rule may start with; \<open>open_frag k\<close> may also be continued by ranges.\<close>

definition open_frag :: "nat \<Rightarrow> grammar_rule \<Rightarrow> bool" where
  "open_frag k es \<longleftrightarrow> (\<forall>tail. elems_ok k tail \<longrightarrow> elems_ok 0 (es @ tail))"

abbreviation frag :: "grammar_rule \<Rightarrow> bool" where
  "frag \<equiv> open_frag 0"

lemma frag_Nil [simp]: "frag []"
  by (simp add: open_frag_def)

lemma frag_append: "frag xs \<Longrightarrow> frag ys \<Longrightarrow> frag (xs @ ys)"
  by (simp add: open_frag_def)

lemma frag_open_append: "frag xs \<Longrightarrow> open_frag k ys \<Longrightarrow> open_frag k (xs @ ys)"
  by (simp add: open_frag_def)

lemma open_frag_close: "open_frag k es \<Longrightarrow> frag es"
  by (simp add: open_frag_def elems_ok_weaken)

lemma frag_replicate: "frag es \<Longrightarrow> frag (concat (replicate n es))"
  by (induction n) (simp_all add: frag_append)

lemma frag_single: "t \<in> {GRE_ALT, GRE_RULE_REF, GRE_CHAR, GRE_CHAR_NOT, GRE_CHAR_ANY} \<Longrightarrow> frag [elem t v]"
  by (auto simp: open_frag_def elems_ok_weaken)

lemma frag_elems: "frag es \<Longrightarrow> elems_ok 0 (es @ [elem GRE_END 0])"
  by (simp add: open_frag_def)

text \<open>The growing rule: complete up to \<^verbatim>\<open>last_sym_start\<close>, and complete from there.\<close>

definition split_ok :: "nat \<Rightarrow> grammar_rule \<Rightarrow> bool" where
  "split_ok last_start es \<longleftrightarrow> last_start \<le> length es \<and> frag (take last_start es) \<and> frag (drop last_start es)"

lemma split_ok_frag: "split_ok l es \<Longrightarrow> frag es"
  using frag_append [of "take l es" "drop l es"] by (simp add: split_ok_def)

lemma split_ok_push: "frag es \<Longrightarrow> frag xs \<Longrightarrow> split_ok (length es) (es @ xs)"
  by (simp add: split_ok_def)

lemma rep_step_ok:
  assumes p: "parser_ok p" and name: "CHR ''_'' \<notin> set name" and prev: "frag prev" "refs_in p prev"
    and last_id: "i > 0 \<longrightarrow> fits p \<longrightarrow> lastid \<in> ids p" and step: "rep_step name mx prev i (lastid, p) = (v, p')"
  shows "parser_ok p' \<and> extends p p' \<and> (fits p' \<longrightarrow> v \<in> ids p')"
proof -
  obtain q where gen: "generate_symbol_id name p = (v, q)"
    using step by (auto simp: rep_step_def Let_def split: prod.splits)
  define ref where "ref = (if i > 0 \<or> mx < 0 then [elem GRE_RULE_REF (if mx < 0 then v else lastid)] else [])"
  have p': "p' = add_rule v (prev @ ref @ [elem GRE_ALT 0, elem GRE_END 0]) q"
    using step gen by (simp add: rep_step_def Let_def ref_def)
  have q: "parser_ok q" "extends p q" "fits q \<longrightarrow> v \<in> ids q" using generate_symbol_id_ok [OF p name gen] by auto
  have "frag ref" by (simp add: ref_def frag_single)
  then have "elems_ok 0 (prev @ ref @ [elem GRE_ALT 0, elem GRE_END 0])"
    using prev(1) frag_append [of prev ref] by (simp add: open_frag_def)
  moreover have "refs_in q ref" using q last_id extends_fits [OF q(2)] by (auto simp: ref_def extends_def)
  then have "refs_in q (prev @ ref @ [elem GRE_ALT 0, elem GRE_END 0])" using refs_in_extends [OF prev(2) q(2)] by simp
  ultimately have a: "parser_ok p'" "extends q p'" using add_rule_ok [OF q(1,3)] unfolding p' by blast+
  have "fits p' \<longrightarrow> v \<in> ids p'" using q(3) a(2) extends_fits [OF a(2)] by (auto simp: extends_def)
  then show ?thesis using a extends_trans [OF q(2) a(2)] by blast
qed

lemma rep_loop_ok:
  assumes p: "parser_ok p" and name: "CHR ''_'' \<notin> set name" and prev: "frag prev" "refs_in p prev"
  shows "case fold (rep_step name mx prev) [0..<k] (0, p) of (v, p') \<Rightarrow>
    parser_ok p' \<and> extends p p' \<and> (k > 0 \<longrightarrow> fits p' \<longrightarrow> v \<in> ids p')"
proof (induction k)
  case (Suc k)
  obtain v q where q: "fold (rep_step name mx prev) [0..<k] (0, p) = (v, q)" by force
  obtain w r where r: "rep_step name mx prev k (v, q) = (w, r)" by force
  have IH: "parser_ok q" "extends p q" "k > 0 \<longrightarrow> fits q \<longrightarrow> v \<in> ids q" using Suc.IH q by auto
  from rep_step_ok [OF IH(1) name prev(1) refs_in_extends [OF prev(2) IH(2)] IH(3) r] extends_trans [OF IH(2)]
  show ?case using q r by auto
qed (use p in simp)

lemma handle_repetitions_ok:
  assumes p: "parser_ok p" and name: "CHR ''_'' \<notin> set name" and rule: "split_ok l rule" "refs_in p rule"
    and res: "handle_repetitions name pos l mn mx rule p = Inr (rule', p')"
  shows "parser_ok p' \<and> extends p p' \<and> split_ok l rule' \<and> refs_in p' rule'"
proof -
  let ?prev = "drop l rule" and ?n = "if mx < 0 then 1 else mx - mn"
  define base where "base = (if mn = 0 then take l rule else rule @ concat (replicate (nat (mn - 1)) ?prev))"
  obtain v q where q: "fold (rep_step name mx ?prev) [0..<nat ?n] (0, p) = (v, q)" by force
  have r: "rule' = (if ?n > 0 then base @ [elem GRE_RULE_REF v] else base)" "p' = q"
    using res q by (auto simp: handle_repetitions_def base_def Let_def split: if_splits)
  have prev: "frag ?prev" "refs_in p ?prev" using rule refs_in_take by (auto simp: split_ok_def)
  have Q: "parser_ok q" "extends p q" "nat ?n > 0 \<longrightarrow> fits q \<longrightarrow> v \<in> ids q"
    using rep_loop_ok [OF p name prev, where mx = mx and k = "nat ?n"] q by auto
  have b: "refs_in q base" using rule(2) refs_in_extends [OF _ Q(2)] refs_in_take refs_in_replicate
    by (auto simp: base_def)
  define more where "more = (if ?n > 0 then [elem GRE_RULE_REF v] else [])"
  have m: "frag more" "refs_in q more" using Q(3) by (auto simp: more_def frag_single)
  have r': "rule' = base @ more" using r(1) by (simp add: more_def)
  have l: "l \<le> length base" "take l base = take l rule" "frag (drop l base)"
    using rule(1) frag_append [OF prev(1) frag_replicate [OF prev(1)]] by (auto simp: base_def split_ok_def)
  then have "split_ok l rule'" using rule(1) m(1) by (simp add: r' split_ok_def frag_append)
  then show ?thesis using Q b m(2) r' r(2) by simp
qed

section \<open>The sequence loop\<close>

lemma parse_literal_ok:
  "parse_literal pos rule = Inr (pos', rule') \<Longrightarrow>
   length pos' < length pos \<and> (\<exists>xs. rule' = rule @ xs \<and> frag xs \<and> refs_in p xs)"
proof (induction pos rule rule: parse_literal.induct)
  case (1 pos rule)
  show ?case
  proof (cases pos)
    case (Cons c cs)
    show ?thesis
    proof (cases "c = CHR 0x22")
      case False
      then obtain v r where r: "parse_char pos = Inr (v, r)" "parse_literal r (rule @ [elem GRE_CHAR v]) = Inr (pos', rule')"
        using 1(2) Cons by (subst (asm) parse_literal.simps) (auto split: sum.splits)
      from 1(1) [OF Cons False r(1) refl r(2)] obtain xs where xs: "length pos' < length r" "rule' = rule @ elem GRE_CHAR v # xs" "frag xs" "refs_in p xs"
        by auto
      have "frag (elem GRE_CHAR v # xs)" using frag_append [OF frag_single xs(3), of GRE_CHAR v] by simp
      then show ?thesis using xs parse_char_less [OF r(1)] by (intro conjI exI [of _ "elem GRE_CHAR v # xs"]) auto
    qed (use 1(2) Cons in \<open>simp add: parse_literal.simps\<close>)
  qed (use 1(2) in \<open>simp add: parse_literal.simps\<close>)
qed

lemma open_frag_char: "t \<in> {GRE_CHAR, GRE_CHAR_NOT} \<Longrightarrow> open_frag 1 [elem t v]"
  by (auto simp: open_frag_def)

lemma open_frag_alt: "open_frag k g \<Longrightarrow> k \<noteq> 0 \<Longrightarrow> open_frag 1 (g @ [elem GRE_CHAR_ALT v])"
  by (simp add: open_frag_def)

lemma open_frag_upper: "open_frag 1 g \<Longrightarrow> open_frag 2 (g @ [elem GRE_CHAR_RNG_UPPER v])"
  by (simp add: open_frag_def)

text \<open>The group that the loop over the ranges has written so far.\<close>

definition group_ok :: "grammar_rule \<Rightarrow> bool" where
  "group_ok g \<longleftrightarrow> g = [] \<or> (\<exists>k. k \<noteq> 0 \<and> open_frag k g)"

lemma group_frag: "group_ok g \<Longrightarrow> frag g"
  by (auto simp: group_ok_def intro: open_frag_close)

lemma group_push:
  assumes "group_ok g" and "t \<in> {GRE_CHAR, GRE_CHAR_NOT}"
  shows "open_frag 1 (g @ [elem (if g \<noteq> [] then GRE_CHAR_ALT else t) v])"
  using assms open_frag_char [OF assms(2)] open_frag_alt by (auto simp: group_ok_def)

lemma parse_ranges_Cons:
  assumes "c \<noteq> CHR '']''" and "parse_char (c # cs) = Inr (v, r)"
    and "rule1 = rule @ [elem (if l < length rule then GRE_CHAR_ALT else t) v]"
  shows "parse_ranges t l (c # cs) rule =
    (if take 1 r = ''-'' \<and> take 1 (drop 1 r) \<noteq> '']'' then
       if drop 1 r = [] then Inl (Throw ''unexpected end of input'')
       else (case parse_char (drop 1 r) of Inl e \<Rightarrow> Inl e
             | Inr (u, r2) \<Rightarrow> parse_ranges t l r2 (rule1 @ [elem GRE_CHAR_RNG_UPPER u]))
     else parse_ranges t l r rule1)"
  unfolding assms(3) by (subst parse_ranges.simps) (simp only: list.case assms(1,2) if_False sum.case prod.case Let_def)

lemma parse_ranges_ok:
  assumes "parse_ranges t (length rule0) pos (rule0 @ g) = Inr (pos', rule')" and "group_ok g" and "t \<in> {GRE_CHAR, GRE_CHAR_NOT}"
    and "refs_in p g"
  shows "length pos' < length pos \<and> (\<exists>xs. rule' = rule0 @ xs \<and> frag xs \<and> refs_in p xs)"
  using assms
proof (induction "length pos" arbitrary: pos g rule: less_induct)
  case less
  obtain c cs where Cons: "pos = c # cs" using less.prems(1) by (cases pos) (simp_all add: parse_ranges.simps)
  show ?case
  proof (cases "c = CHR '']''")
    case True
    then show ?thesis using less.prems Cons group_frag by (auto simp: parse_ranges.simps)
  next
    case False
    define g1 where "g1 v = g @ [elem (if g \<noteq> [] then GRE_CHAR_ALT else t) v]" for v
    have g1: "open_frag 1 (g1 v)" for v unfolding g1_def by (rule group_push [OF less.prems(2,3)])
    have refs: "refs_in p (g1 v)" for v using less.prems(3,4) by (auto simp: g1_def)
    obtain v r where r: "parse_char pos = Inr (v, r)" using less.prems(1) Cons False
      by (subst (asm) parse_ranges.simps) (auto split: sum.splits)
    have lr: "length r < length pos" by (rule parse_char_less [OF r])
    have rule1: "rule0 @ g1 v = (rule0 @ g) @ [elem (if length rule0 < length (rule0 @ g) then GRE_CHAR_ALT else t) v]"
      by (simp add: g1_def)
    note run = less.prems(1) [unfolded Cons parse_ranges_Cons [OF False r [unfolded Cons] rule1]]
    show ?thesis
    proof (cases "take 1 r = ''-'' \<and> take 1 (drop 1 r) \<noteq> '']''")
      case True
      then obtain u r2 where u: "parse_char (drop 1 r) = Inr (u, r2)"
        "parse_ranges t (length rule0) r2 (rule0 @ (g1 v @ [elem GRE_CHAR_RNG_UPPER u])) = Inr (pos', rule')"
        using run by (auto split: if_splits sum.splits)
      have lr2: "length r2 < length pos" using parse_char_less [OF u(1)] lr by simp
      have "group_ok (g1 v @ [elem GRE_CHAR_RNG_UPPER u])" using open_frag_upper [OF g1] by (auto simp: group_ok_def intro: exI [of _ 2])
      from less.hyps [OF lr2 u(2) this less.prems(3)] refs show ?thesis using lr2 by fastforce
    next
      case False
      then have run': "parse_ranges t (length rule0) r (rule0 @ g1 v) = Inr (pos', rule')" using run unfolding if_not_P [OF False] by blast
      have "group_ok (g1 v)" using g1 by (auto simp: group_ok_def intro: exI [of _ 1])
      from less.hyps [OF lr run' this less.prems(3) refs] show ?thesis using lr by auto
    qed
  qed
qed

text \<open>The names of rules have no underscore.\<close>

lemma word_name: "CHR ''_'' \<notin> set (takeWhile is_word_char s)"
proof
  assume "CHR ''_'' \<in> set (takeWhile is_word_char s)"
  then have "is_word_char (CHR ''_'')" by (blast dest: set_takeWhileD)
  then show False by (simp add: is_word_char_def is_digit_char_def less_eq_char_def)
qed

lemma parse_name_ok:
  "parse_name src = Inr (name, rest) \<Longrightarrow> CHR ''_'' \<notin> set name \<and> length rest < length src"
proof -
  assume a: "parse_name src = Inr (name, rest)"
  then have n: "name = takeWhile is_word_char src" "name \<noteq> []" "rest = dropWhile is_word_char src"
    by (auto simp: parse_name_def Let_def split: if_splits)
  have "length src = length name + length rest" unfolding n(1,3) by (metis length_append takeWhile_dropWhile_id)
  then show ?thesis using n word_name [of src] by (cases name) auto
qed

lemma parse_count_ok: "parse_count pos b = Inr (n, rest) \<Longrightarrow> length rest \<le> length pos"
  using parse_space_le [of _ b] length_dropWhile_le [of is_digit_char pos]
  by (fastforce simp: parse_count_def parse_int_def Let_def and_then_Inr split: if_splits intro: le_trans)

lemma parse_bounds_ok:
  assumes "parse_bounds pos b = Inr (mn, mx, rest)"
  shows "length rest \<le> length pos"
proof -
  have d: "length (parse_space (drop 1 s) b) \<le> length s" for s :: string using parse_space_le [of "drop 1 s" b] by simp
  obtain r where r: "parse_count pos b = Inr (mn, r)" "rest = parse_space (drop 1 r) b \<or>
      (\<exists>r2. (parse_count (parse_space (drop 1 r) b) b = Inr (mx, r2) \<or> r2 = parse_space (drop 1 r) b) \<and> rest = parse_space (drop 1 r2) b)"
    using assms by (auto simp: parse_bounds_def Let_def and_then_Inr split: if_splits)
  have lr: "length r \<le> length pos" by (rule parse_count_ok [OF r(1)])
  from r(2) consider "rest = parse_space (drop 1 r) b"
    | r2 where "length r2 \<le> length (parse_space (drop 1 r) b)" "rest = parse_space (drop 1 r2) b"
    by (auto dest: parse_count_ok)
  then show ?thesis using d [of r] lr
  proof cases
    case (2 r2)
    then show ?thesis using d [of r] d [of r2] lr by simp
  qed simp
qed

lemma no_fuel_errors [simp]:
  "parse_hex s n \<noteq> Inl Out_Of_Fuel" "parse_name s \<noteq> Inl Out_Of_Fuel" "parse_int s \<noteq> Inl Out_Of_Fuel" "stoul_int s \<noteq> Inl Out_Of_Fuel"
  "handle_repetitions name pos l mn mx rule p \<noteq> Inl Out_Of_Fuel" "end_of_rule s \<noteq> Inl Out_Of_Fuel"
  by (auto simp: parse_hex_def parse_name_def parse_int_def stoul_int_def handle_repetitions_def end_of_rule_def Let_def
      split: prod.splits list.splits)

lemma and_then_fuel: "and_then r f = Inl Out_Of_Fuel \<longleftrightarrow> r = Inl Out_Of_Fuel \<or> (\<exists>x. r = Inr x \<and> f x = Inl Out_Of_Fuel)"
  by (cases r) auto

lemma parse_char_no_fuel [simp]: "parse_char s \<noteq> Inl Out_Of_Fuel"
proof (cases s)
  case (Cons c cs)
  show ?thesis
  proof (cases "c = CHR 0x5C")
    case True
    show ?thesis unfolding parse_char_def Cons by (cases cs) (simp_all add: True)
  next
    case False
    then show ?thesis unfolding parse_char_def Cons by (cases "decode_utf8_ptr (c # cs)") (simp_all del: decode_utf8_ptr.simps)
  qed
qed (simp add: parse_char_def)

lemma parse_literal_no_fuel [simp]: "parse_literal pos rule \<noteq> Inl Out_Of_Fuel"
proof (induction pos rule rule: parse_literal.induct)
  case (1 pos rule)
  then show ?case by (subst parse_literal.simps) (auto split: list.splits sum.splits)
qed

lemma parse_ranges_no_fuel [simp]: "parse_ranges t l pos rule \<noteq> Inl Out_Of_Fuel"
proof (induction t l pos rule rule: parse_ranges.induct)
  case (1 t l pos rule)
  then show ?case by (subst parse_ranges.simps) (auto simp: Let_def split: list.splits sum.splits)
qed

lemma parse_bounds_no_fuel [simp]: "parse_bounds pos b \<noteq> Inl Out_Of_Fuel"
  by (auto simp: parse_bounds_def parse_count_def and_then_fuel Let_def split: if_splits)

definition state_ok :: "seq_state \<Rightarrow> bool" where
  "state_ok s \<longleftrightarrow> parser_ok (ss_parser s) \<and> split_ok (ss_last s) (ss_rule s) \<and> refs_in (ss_parser s) (ss_rule s)"

text \<open>What a call of \<^verbatim>\<open>parse_alternates\<close> on a source shorter than \<open>k\<close> guarantees.\<close>

definition alts_ok :: "nat \<Rightarrow> (string \<Rightarrow> u32 \<Rightarrow> grammar_parser \<Rightarrow> (string \<times> grammar_parser) presult) \<Rightarrow> bool" where
  "alts_ok k alts \<longleftrightarrow> (\<forall>pos v p. length pos < k \<longrightarrow> parser_ok p \<longrightarrow> (fits p \<longrightarrow> v \<in> ids p) \<longrightarrow>
     alts pos v p \<noteq> Inl Out_Of_Fuel \<and>
     (\<forall>pos' p'. alts pos v p = Inr (pos', p') \<longrightarrow> length pos' \<le> length pos \<and> parser_ok p' \<and> extends p p'))"

text \<open>The result of one pass.\<close>

definition step_ok :: "seq_state \<Rightarrow> seq_state option presult \<Rightarrow> bool" where
  "step_ok s r \<longleftrightarrow> r \<noteq> Inl Out_Of_Fuel \<and>
     (\<forall>s'. r = Inr (Some s') \<longrightarrow> state_ok s' \<and> extends (ss_parser s) (ss_parser s') \<and> length (ss_pos s') < length (ss_pos s))"

lemma step_okI:
  assumes "r \<noteq> Inl Out_Of_Fuel"
    and "\<And>s'. r = Inr (Some s') \<Longrightarrow> state_ok s' \<and> extends (ss_parser s) (ss_parser s') \<and> length (ss_pos s') < length (ss_pos s)"
  shows "step_ok s r"
  using assms by (auto simp: step_ok_def)

lemma step_chars:
  assumes s: "state_ok s" and r: "r \<noteq> Inl Out_Of_Fuel"
    and ok: "\<And>pos rule'. r = Inr (pos, rule') \<Longrightarrow> length pos < length (ss_pos s) \<and> (\<exists>xs. rule' = ss_rule s @ xs \<and> frag xs \<and> refs_in (ss_parser s) xs)"
  shows "step_ok s (and_then r (\<lambda>(pos, rule').
    Inr (Some (s\<lparr>ss_last := length (ss_rule s), ss_pos := parse_space pos b, ss_rule := rule'\<rparr>))))"
proof (rule step_okI)
  fix s' assume "and_then r (\<lambda>(pos, rule').
    Inr (Some (s\<lparr>ss_last := length (ss_rule s), ss_pos := parse_space pos b, ss_rule := rule'\<rparr>))) = Inr (Some s')"
  then obtain pos rule' where p: "r = Inr (pos, rule')" and s': "s' = s\<lparr>ss_last := length (ss_rule s), ss_pos := parse_space pos b, ss_rule := rule'\<rparr>"
    by (auto simp: and_then_Inr)
  obtain xs where xs: "length pos < length (ss_pos s)" "rule' = ss_rule s @ xs" "frag xs" "refs_in (ss_parser s) xs" using ok [OF p] by blast
  then show "state_ok s' \<and> extends (ss_parser s) (ss_parser s') \<and> length (ss_pos s') < length (ss_pos s)"
    using s split_ok_frag [of "ss_last s" "ss_rule s"] parse_space_less by (simp add: s' state_ok_def split_ok_push)
qed (use r in \<open>auto simp: and_then_fuel\<close>)

lemma step_repeat:
  assumes s: "state_ok s" and name: "CHR ''_'' \<notin> set name" and pos: "length pos < length (ss_pos s)"
  shows "step_ok s (repeat_item name mn mx pos s)"
proof (rule step_okI)
  fix s' assume "repeat_item name mn mx pos s = Inr (Some s')"
  then obtain rule p where r: "handle_repetitions name pos (ss_last s) mn mx (ss_rule s) (ss_parser s) = Inr (rule, p)"
    "s' = s\<lparr>ss_pos := pos, ss_rule := rule, ss_parser := p\<rparr>" by (auto simp: repeat_item_def and_then_Inr)
  show "state_ok s' \<and> extends (ss_parser s) (ss_parser s') \<and> length (ss_pos s') < length (ss_pos s)"
    using handle_repetitions_ok [OF _ name _ _ r(1)] s pos r(2) by (simp add: state_ok_def)
qed (auto simp: repeat_item_def and_then_fuel)

text \<open>A reference to a symbol of the extended parser ends the rule so far.\<close>

lemma state_ok_ref:
  assumes "state_ok s" and "parser_ok p" "extends (ss_parser s) p" "fits p \<longrightarrow> v \<in> ids p"
  shows "state_ok \<lparr>ss_last = length (ss_rule s), ss_pos = pos, ss_rule = ss_rule s @ [elem GRE_RULE_REF v], ss_parser = p\<rparr>"
  using assms split_ok_frag [of "ss_last s" "ss_rule s"] refs_in_extends [of "ss_parser s" "ss_rule s" p]
  by (simp add: state_ok_def split_ok_push frag_single)

lemma step_name:
  assumes s: "state_ok s"
  shows "step_ok s (and_then (parse_name (ss_pos s)) (\<lambda>(name, name_end).
    let (v, p) = get_symbol_id name (ss_parser s) in
    Inr (Some \<lparr>ss_last = length (ss_rule s), ss_pos = parse_space name_end b, ss_rule = ss_rule s @ [elem GRE_RULE_REF v], ss_parser = p\<rparr>)))"
  (is "step_ok s ?r")
proof (rule step_okI)
  fix s' assume "?r = Inr (Some s')"
  then obtain name rest v p where n: "parse_name (ss_pos s) = Inr (name, rest)" "get_symbol_id name (ss_parser s) = (v, p)"
    and s': "s' = \<lparr>ss_last = length (ss_rule s), ss_pos = parse_space rest b, ss_rule = ss_rule s @ [elem GRE_RULE_REF v], ss_parser = p\<rparr>"
    by (auto simp: and_then_Inr case_prod_beta prod_eq_iff)
  have p: "parser_ok p" "extends (ss_parser s) p" "fits p \<longrightarrow> v \<in> ids p"
    using get_symbol_id_ok [OF _ _ n(2)] parse_name_ok [OF n(1)] s by (auto simp: state_ok_def)
  show "state_ok s' \<and> extends (ss_parser s) (ss_parser s') \<and> length (ss_pos s') < length (ss_pos s)"
    using state_ok_ref [OF s p] p(2) parse_name_ok [OF n(1)] parse_space_less by (simp add: s')
qed (auto simp: and_then_fuel split: prod.splits)

lemma step_group:
  assumes s: "state_ok s" and name: "CHR ''_'' \<notin> set name" and pos: "length pos < length (ss_pos s)"
    and alts: "alts_ok (length (ss_pos s)) alts"
  shows "step_ok s (let (v, p) = generate_symbol_id name (ss_parser s) in
    and_then (alts pos v p) (\<lambda>(pos, p).
      if take 1 pos \<noteq> '')'' then Inl (Throw (f pos))
      else Inr (Some \<lparr>ss_last = length (ss_rule s), ss_pos = parse_space (drop 1 pos) b, ss_rule = ss_rule s @ [elem GRE_RULE_REF v], ss_parser = p\<rparr>)))"
proof -
  obtain v p where gen: "generate_symbol_id name (ss_parser s) = (v, p)" by force
  have p: "parser_ok p" "extends (ss_parser s) p" "fits p \<longrightarrow> v \<in> ids p"
    using generate_symbol_id_ok [OF _ name gen] s by (auto simp: state_ok_def)
  have a: "alts pos v p \<noteq> Inl Out_Of_Fuel"
    and b: "\<And>pos' p'. alts pos v p = Inr (pos', p') \<Longrightarrow> length pos' \<le> length pos \<and> parser_ok p' \<and> extends p p'"
    using alts pos p(1,3) by (auto simp: alts_ok_def)
  show ?thesis unfolding gen Let_def prod.case
  proof (rule step_okI)
    fix s' assume "and_then (alts pos v p) (\<lambda>(pos, p).
      if take 1 pos \<noteq> '')'' then Inl (Throw (f pos))
      else Inr (Some \<lparr>ss_last = length (ss_rule s), ss_pos = parse_space (drop 1 pos) b, ss_rule = ss_rule s @ [elem GRE_RULE_REF v], ss_parser = p\<rparr>)) = Inr (Some s')"
    then obtain pos' p' where r: "alts pos v p = Inr (pos', p')"
      and s': "s' = \<lparr>ss_last = length (ss_rule s), ss_pos = parse_space (drop 1 pos') b, ss_rule = ss_rule s @ [elem GRE_RULE_REF v], ss_parser = p'\<rparr>"
      by (auto simp: and_then_Inr split: if_splits)
    have p': "length pos' \<le> length pos" "parser_ok p'" "extends p p'" using b [OF r] by auto
    have e: "extends (ss_parser s) p'" by (rule extends_trans [OF p(2) p'(3)])
    have "fits p' \<longrightarrow> v \<in> ids p'" using p(3) p'(3) extends_fits [OF p'(3)] by (auto simp: extends_def)
    then show "state_ok s' \<and> extends (ss_parser s) (ss_parser s') \<and> length (ss_pos s') < length (ss_pos s)"
      using state_ok_ref [OF s p'(2) e] e p'(1) pos parse_space_le [of "drop 1 pos'" b] by (simp add: s')
  qed (use a in \<open>auto simp: and_then_fuel split: if_splits\<close>)
qed

lemma if_cases: "P x \<Longrightarrow> P y \<Longrightarrow> P (if b then x else y)"
  by simp

lemma sequence_step_ok:
  assumes s: "state_ok s" and name: "CHR ''_'' \<notin> set name" and ne: "ss_pos s \<noteq> []"
    and alts: "alts_ok (length (ss_pos s)) alts"
  shows "step_ok s (sequence_step alts name b s)"
proof -
  obtain c cs where pos: "ss_pos s = c # cs" using ne by (cases "ss_pos s") auto
  have less: "length (parse_space cs b') < length (ss_pos s)" for b' using parse_space_le [of cs b'] by (simp add: pos)
  note def = sequence_step_def [of alts name b s, unfolded Let_def pos list.sel, folded pos]
  let ?p = "ss_parser s"
  consider "c = CHR 0x22" | "c = CHR ''[''" | "c \<noteq> CHR 0x22" "c \<noteq> CHR ''[''" "is_word_char c"
    | "c = CHR ''(''" "\<not> is_word_char c" | "c \<noteq> CHR 0x22" "c \<noteq> CHR ''[''" "\<not> is_word_char c" "c \<noteq> CHR ''(''"
    by (cases "is_word_char c") (auto simp: is_word_char_def is_digit_char_def less_eq_char_def)
  then show ?thesis
  proof cases
    case 1
    have "step_ok s (and_then (parse_literal cs (ss_rule s)) (\<lambda>(pos, rule').
        Inr (Some (s\<lparr>ss_last := length (ss_rule s), ss_pos := parse_space pos b, ss_rule := rule'\<rparr>))))"
      by (rule step_chars [OF s]) (auto simp: pos dest!: parse_literal_ok [where p = ?p])
    then show ?thesis unfolding def using 1 by simp
  next
    case 2
    let ?cs = "if take 1 cs = ''^'' then drop 1 cs else cs" and ?t = "if take 1 cs = ''^'' then GRE_CHAR_NOT else GRE_CHAR"
    have "step_ok s (and_then (parse_ranges ?t (length (ss_rule s)) ?cs (ss_rule s)) (\<lambda>(pos, rule').
        Inr (Some (s\<lparr>ss_last := length (ss_rule s), ss_pos := parse_space pos b, ss_rule := rule'\<rparr>))))"
    proof (rule step_chars [OF s])
      fix pos' rule' assume "parse_ranges ?t (length (ss_rule s)) ?cs (ss_rule s) = Inr (pos', rule')"
      then have "length pos' < length ?cs \<and> (\<exists>xs. rule' = ss_rule s @ xs \<and> frag xs \<and> refs_in ?p xs)"
        using parse_ranges_ok [of ?t "ss_rule s" ?cs "[]" pos' rule' ?p] by (simp add: group_ok_def)
      then show "length pos' < length (ss_pos s) \<and> (\<exists>xs. rule' = ss_rule s @ xs \<and> frag xs \<and> refs_in ?p xs)"
        by (auto simp: pos split: if_splits)
    qed simp
    then show ?thesis unfolding def using 2 by simp
  next
    case 3
    then show ?thesis unfolding def using step_name [OF s, of b] by (simp add: Let_def)
  next
    case 4
    then show ?thesis unfolding def using step_group [OF s name less alts, where b = b, unfolded Let_def] by simp
  next
    case 5
    have dot: "step_ok s (Inr (Some (s\<lparr>ss_last := length (ss_rule s), ss_pos := parse_space cs b, ss_rule := ss_rule s @ [elem GRE_CHAR_ANY 0]\<rparr>)))"
      using step_chars [OF s, of "Inr (cs, ss_rule s @ [elem GRE_CHAR_ANY 0])" b] by (simp add: pos frag_single)
    have bounds: "step_ok s (and_then (parse_bounds (parse_space cs b) b) (\<lambda>(mn, mx, pos). repeat_item name mn mx pos s))"
    proof (cases "parse_bounds (parse_space cs b) b")
      case (Inr r)
      obtain mn mx pos' where r: "r = (mn, mx, pos')" by (cases r) auto
      have "length pos' < length (ss_pos s)" using parse_bounds_ok [OF Inr [unfolded r]] less [of b] by simp
      then show ?thesis using Inr r step_repeat [OF s name] by simp
    qed (auto simp: step_ok_def dest: parse_bounds_no_fuel [THEN notE])
    have brk: "step_ok s (Inr None)" by (simp add: step_ok_def)
    show ?thesis unfolding def if_not_P [OF 5(1)] if_not_P [OF 5(2)] if_not_P [OF 5(3)] if_not_P [OF 5(4)]
      by (intro if_cases [of "step_ok s"] dot bounds brk step_repeat [OF s name less])
  qed
qed

section \<open>Alternates, rules and grammars\<close>

text \<open>The three recursive functions together: enough depth, nothing lost, and the source gets no longer.\<close>

lemma parser_loops_ok:
  assumes name: "CHR ''_'' \<notin> set name"
  shows "3 * length (ss_pos s) + 1 \<le> n \<Longrightarrow> state_ok s \<Longrightarrow>
      sequence_loop n name b s \<noteq> Inl Out_Of_Fuel \<and>
      (\<forall>s'. sequence_loop n name b s = Inr s' \<longrightarrow> state_ok s' \<and> extends (ss_parser s) (ss_parser s') \<and> length (ss_pos s') \<le> length (ss_pos s))"
    and "3 * length pos + 2 \<le> n \<Longrightarrow> parser_ok p \<Longrightarrow> frag rule \<Longrightarrow> refs_in p rule \<Longrightarrow>
      alternates_loop n name b pos rule p \<noteq> Inl Out_Of_Fuel \<and>
      (\<forall>pos' rule' p'. alternates_loop n name b pos rule p = Inr (pos', rule', p') \<longrightarrow>
         parser_ok p' \<and> extends p p' \<and> frag rule' \<and> refs_in p' rule' \<and> length pos' \<le> length pos)"
    and "3 * length pos + 3 \<le> n \<Longrightarrow> parser_ok p \<Longrightarrow> fits p \<longrightarrow> v \<in> ids p \<Longrightarrow>
      parse_alternates n pos name v b p \<noteq> Inl Out_Of_Fuel \<and>
      (\<forall>pos' p'. parse_alternates n pos name v b p = Inr (pos', p') \<longrightarrow> length pos' \<le> length pos \<and> parser_ok p' \<and> extends p p')"
proof (induction n arbitrary: s b pos rule p v)
  case (Suc n)
  {
    case 1
    show ?case
    proof (cases "ss_pos s = []")
      case False
      let ?alts = "\<lambda>pos rule_id p. parse_alternates n pos name rule_id True p"
      have "alts_ok (length (ss_pos s)) ?alts" unfolding alts_ok_def
        by (intro allI impI Suc.IH(3)) (use 1(1) in simp_all)
      then have step: "step_ok s (sequence_step ?alts name b s)" by (rule sequence_step_ok [OF 1(2) name False])
      show ?thesis
      proof (cases "sequence_step ?alts name b s")
        case (Inl e)
        then show ?thesis using step False by (auto simp: step_ok_def)
      next
        case (Inr r)
        show ?thesis
        proof (cases r)
          case None
          then show ?thesis using Inr False 1(2) by simp
        next
          case (Some s')
          then have s': "state_ok s'" "extends (ss_parser s) (ss_parser s')" "length (ss_pos s') < length (ss_pos s)"
            using step Inr by (auto simp: step_ok_def)
          have "3 * length (ss_pos s') + 1 \<le> n" using s'(3) 1(1) by simp
          from Suc.IH(1) [OF this s'(1), of b] show ?thesis
            using Inr Some False s' extends_trans [OF s'(2)] by auto
        qed
      qed
    qed (use 1 in simp)
  next
    case 2
    show ?case
    proof (cases "take 1 pos = ''|''")
      case True
      then obtain cs where pos: "pos = CHR ''|'' # cs" by (cases pos) auto
      let ?rule = "rule @ [elem GRE_ALT 0]"
      let ?s = "\<lparr>ss_last = length ?rule, ss_pos = parse_space (drop 1 pos) True, ss_rule = ?rule, ss_parser = p\<rparr>"
      have fr: "frag ?rule" using 2(3) by (simp add: frag_append frag_single)
      have "state_ok ?s" using 2(2,4) split_ok_push [OF fr frag_Nil] by (simp add: state_ok_def)
      moreover have "3 * length (ss_pos ?s) + 1 \<le> n" using 2(1) parse_space_le [of cs True] by (simp add: pos)
      ultimately have seq: "sequence_loop n name b ?s \<noteq> Inl Out_Of_Fuel"
        "\<And>s'. sequence_loop n name b ?s = Inr s' \<Longrightarrow> state_ok s' \<and> extends p (ss_parser s') \<and> length (ss_pos s') \<le> length (ss_pos ?s)"
        using Suc.IH(1) [of ?s b] by auto
      show ?thesis
      proof (cases "sequence_loop n name b ?s")
        case (Inl e)
        then show ?thesis using seq(1) True by (simp add: Let_def)
      next
        case (Inr s')
        note s' = seq(2) [OF Inr]
        have le: "length (ss_pos s') < length pos" using s' parse_space_le [of cs True] by (simp add: pos)
        have ok: "parser_ok (ss_parser s')" "frag (ss_rule s')" "refs_in (ss_parser s') (ss_rule s')" "extends p (ss_parser s')"
          using s' split_ok_frag by (auto simp: state_ok_def)
        have "3 * length (ss_pos s') + 2 \<le> n" using le 2(1) by simp
        from Suc.IH(2) [OF this ok(1-3), of b] show ?thesis
          using Inr True le extends_trans [OF ok(4)] by (auto simp: Let_def intro: less_imp_le le_trans)
      qed
    qed (use 2 in simp)
  next
    case 3
    let ?s = "\<lparr>ss_last = 0, ss_pos = pos, ss_rule = [], ss_parser = p\<rparr>"
    have "state_ok ?s" using 3(2) by (simp add: state_ok_def split_ok_def)
    then have seq: "sequence_loop n name b ?s \<noteq> Inl Out_Of_Fuel"
      "\<And>s'. sequence_loop n name b ?s = Inr s' \<Longrightarrow> state_ok s' \<and> extends p (ss_parser s') \<and> length (ss_pos s') \<le> length pos"
      using Suc.IH(1) [of ?s b] 3(1) by auto
    show ?case
    proof (cases "sequence_loop n name b ?s")
      case (Inl e)
      then show ?thesis using seq(1) by simp
    next
      case (Inr s')
      note s' = seq(2) [OF Inr]
      have ok: "parser_ok (ss_parser s')" "frag (ss_rule s')" "refs_in (ss_parser s') (ss_rule s')" "extends p (ss_parser s')"
        using s' split_ok_frag by (auto simp: state_ok_def)
      have "3 * length (ss_pos s') + 2 \<le> n" using s' 3(1) by simp
      note A = Suc.IH(2) [OF this ok(1-3), of b]
      show ?thesis
      proof (cases "alternates_loop n name b (ss_pos s') (ss_rule s') (ss_parser s')")
        case al: (Inl e)
        then show ?thesis using A Inr by simp
      next
        case al: (Inr r)
        obtain pos' rule' p' where r: "r = (pos', rule', p')" by (cases r) auto
        have R: "parser_ok p'" "extends (ss_parser s') p'" "frag rule'" "refs_in p' rule'" "length pos' \<le> length (ss_pos s')"
          using A al r by auto
        have e: "extends p p'" by (rule extends_trans [OF ok(4) R(2)])
        have v: "fits p' \<longrightarrow> v \<in> ids p'" using 3(3) e extends_fits [OF e] by (auto simp: extends_def)
        have "parser_ok (add_rule v (rule' @ [elem GRE_END 0]) p')" "extends p (add_rule v (rule' @ [elem GRE_END 0]) p')"
          using add_rule_ok [OF R(1) v frag_elems [OF R(3)]] R(4) extends_trans [OF e] by auto
        then show ?thesis using Inr al r R(5) s' by auto
      qed
    qed
  }
qed simp_all

lemma end_of_rule_le: "end_of_rule pos = Inr pos' \<Longrightarrow> length pos' \<le> length pos"
  using parse_space_le [of pos True] parse_space_le [of "tl pos" True] parse_space_le [of "drop 2 pos" True]
  by (auto simp: end_of_rule_def numeral_2_eq_2 drop_Suc split: list.splits if_splits)

lemma parse_rule_ok:
  assumes p: "parser_ok p"
  shows "parse_rule src p \<noteq> Inl Out_Of_Fuel \<and>
    (\<forall>pos' p'. parse_rule src p = Inr (pos', p') \<longrightarrow> length pos' < length src \<and> parser_ok p')"
proof (cases "parse_name src")
  case (Inl e)
  then show ?thesis by (auto simp: parse_rule_def)
next
  case (Inr r)
  obtain name rest where r: "r = (name, rest)" by (cases r) auto
  have name: "CHR ''_'' \<notin> set name" "length rest < length src" using parse_name_ok Inr r by auto
  obtain v q where get: "get_symbol_id name p = (v, q)" by force
  have q: "parser_ok q" "fits q \<longrightarrow> v \<in> ids q" using get_symbol_id_ok [OF p name(1) get] by auto
  define pos where "pos = parse_space (drop 3 (parse_space rest False)) True"
  have len: "length pos < length src"
    using parse_space_le [of rest False] parse_space_le [of "drop 3 (parse_space rest False)" True] name(2) by (simp add: pos_def)
  have "3 * length pos + 3 \<le> enough (length pos)" by (simp add: enough_def)
  note A = parser_loops_ok(3) [OF name(1) this q, of False]
  have run: "parse_rule src p = (if take 3 (parse_space rest False) \<noteq> ''::='' then Inl (Throw (''expecting ::= at '' @ parse_space rest False))
      else and_then (parse_alternates (enough (length pos)) pos name v False q) (\<lambda>(pos, p). and_then (end_of_rule pos) (\<lambda>pos. Inr (pos, p))))"
    using Inr r get by (simp add: parse_rule_def Let_def pos_def)
  have "parse_rule src p \<noteq> Inl Out_Of_Fuel" using A unfolding run by (auto simp: and_then_fuel split: if_splits)
  moreover have "length pos' < length src \<and> parser_ok p'" if res: "parse_rule src p = Inr (pos', p')" for pos' p'
  proof -
    obtain pos1 where a: "parse_alternates (enough (length pos)) pos name v False q = Inr (pos1, p')" "end_of_rule pos1 = Inr pos'"
      using res unfolding run by (auto simp: and_then_Inr split: if_splits)
    then show ?thesis using A end_of_rule_le [OF a(2)] len by fastforce
  qed
  ultimately show ?thesis by blast
qed

lemma parse_rules_ok:
  "length pos < n \<Longrightarrow> parser_ok p \<Longrightarrow>
   parse_rules n pos p \<noteq> Inl Out_Of_Fuel \<and> (\<forall>p'. parse_rules n pos p = Inr p' \<longrightarrow> parser_ok p')"
proof (induction n arbitrary: pos p)
  case (Suc n)
  show ?case
  proof (cases "pos = []")
    case False
    note R = parse_rule_ok [OF Suc.prems(2), of pos]
    show ?thesis
    proof (cases "parse_rule pos p")
      case (Inr r)
      obtain pos' p' where r: "r = (pos', p')" by (cases r) auto
      then have "length pos' < n" "parser_ok p'" using R Inr Suc.prems(1) by auto
      from Suc.IH [OF this] show ?thesis using False Inr r by simp
    qed (use R False in auto)
  qed (use Suc.prems in simp)
qed simp

lemma parser_new_ok: "parser_ok parser_new"
  by (simp add: parser_new_def parser_ok_def syms_ok_def)

lemma first_error_None: "first_error f xs = None \<longleftrightarrow> (\<forall>x \<in> set xs. f x = None)"
  by (induction xs) (auto split: option.splits)

lemma first_error_fuel: "first_error f xs = Some e \<Longrightarrow> \<exists>x. f x = Some e"
  by (induction xs) (auto split: option.splits)

lemma parse_result:
  assumes "parse src p0 = Inr p" and "parser_ok p0"
  shows "parser_ok p \<and> first_error (check_rule p) (gp_rules p) = None"
proof -
  let ?pos = "parse_space (takeWhile (\<lambda>c. c \<noteq> CHR 0x00) src) True"
  obtain q where q: "parse_rules (length ?pos + 1) ?pos p0 = Inr q" "first_error (check_rule q) (gp_rules q) = None" "p = q"
    using assms(1) by (auto simp: parse_def Let_def and_then_Inr split: option.splits)
  then show ?thesis using parse_rules_ok [of ?pos "length ?pos + 1" p0] assms(2) by auto
qed

lemma parsed_ok:
  assumes "parse src parser_new = Inr p" and "length (symbol_ids p) < 2 ^ 32"
  shows "rules_ok (gp_rules p) \<and> distinct (map fst (symbol_ids p)) \<and> distinct (map snd (symbol_ids p))"
proof -
  have ok: "parser_ok p" and chk: "\<forall>es \<in> set (gp_rules p). check_rule p es = None"
    using parse_result [OF assms(1) parser_new_ok] by (auto simp: first_error_None)
  have f: "fits p" using assms(2) by (simp add: fits_def)
  have ne: "es \<noteq> []" if "es \<in> set (gp_rules p)" for es using chk that by (auto simp: check_rule_def)
  then have "elems_ok 0 es" if "es \<in> set (gp_rules p)" for es using that ok by (auto simp: parser_ok_def)
  moreover have "unat (ge_value e) < length (gp_rules p)" if es: "es \<in> set (gp_rules p)" "e \<in> set es" "ge_type e = GRE_RULE_REF" for es e
  proof -
    have "ge_value e \<in> ids p" using ok f es by (auto simp: parser_ok_def refs_in_def)
    then obtain kv where "List.find (\<lambda>kv. snd kv = ge_value e) (symbol_ids p) = Some kv"
      by (cases "List.find (\<lambda>kv. snd kv = ge_value e) (symbol_ids p)") (auto simp: find_None_iff ids_def)
    moreover have "check_elem p e = None" using chk es by (auto simp: check_rule_def first_error_None split: if_splits)
    ultimately show ?thesis using es(3) by (auto simp: check_elem_def split: if_splits)
  qed
  ultimately show ?thesis using ok f by (auto simp: rules_ok_def refs_ok_def parser_ok_def syms_ok_def)
qed

section \<open>Properties\<close>

text \<open>C16: The parser returns on every source: the bounds on the depth of its mutually recursive functions, computed
  from the length of the source, are never reached, so the result is a parsed grammar or the exception that
  the code throws.\<close>

theorem parse_returns:
  "(\<exists>p. parse src parser_new = Inr p) \<or> (\<exists>msg. parse src parser_new = Inl (Throw msg))"
proof -
  let ?pos = "parse_space (takeWhile (\<lambda>c. c \<noteq> CHR 0x00) src) True"
  have "parse_rules (length ?pos + 1) ?pos parser_new \<noteq> Inl Out_Of_Fuel"
    using parse_rules_ok [of ?pos "length ?pos + 1" parser_new] parser_new_ok by simp
  moreover have "first_error (check_rule q) (gp_rules q) \<noteq> Some Out_Of_Fuel" for q
    by (auto simp: check_rule_def check_elem_def dest!: first_error_fuel split: if_splits)
  ultimately have "parse src parser_new \<noteq> Inl Out_Of_Fuel"
    by (auto simp: parse_def Let_def and_then_fuel split: option.splits)
  then show ?thesis by (cases "parse src parser_new") (auto intro: parse_error.exhaust)
qed

text \<open>C5: When a grammar with fewer than \<^verbatim>\<open>2^32\<close> symbols is accepted, its rules are well-formed: every rule is defined
  and ends with its only end marker, ranges and alternatives of characters only follow characters, every
  reference is to a rule of the grammar, and different symbols have different numbers.\<close>

theorem parsed_rules_well_formed:
  assumes "parse src parser_new = Inr p" and "length (symbol_ids p) < 2 ^ 32"
  shows "rules_ok (gp_rules p) \<and> distinct (map fst (symbol_ids p)) \<and> distinct (map snd (symbol_ids p))"
  by (rule parsed_ok [OF assms])

text \<open>A repetition count is read as \<^verbatim>\<open>unsigned long\<close> and stored in an \<^verbatim>\<open>int\<close>, so it wraps: \<^verbatim>\<open>.{4294967297}\<close> is
  accepted and means one character.\<close>

theorem repetition_count_wraps:
  "parse ''root ::= .{4294967297}'' parser_new =
     Inr \<lparr>symbol_ids = [(''root'', 0)], gp_rules = [[elem GRE_CHAR_ANY 0, elem GRE_END 0]]\<rparr>"
  by code_simp

text \<open>The grammar \<^verbatim>\<open>root ::= "a" root | [b-d]+\<close>.\<close>

lemma demo_parse:
  "parse (''root ::= '' @ [CHR 0x22] @ ''a'' @ [CHR 0x22] @ '' root | [b-d]+'') parser_new =
     Inr \<lparr>symbol_ids = [(''root'', 0), (''root_1'', 1)],
       gp_rules =
         [[elem GRE_CHAR 97, elem GRE_RULE_REF 0, elem GRE_ALT 0, elem GRE_CHAR 98, elem GRE_CHAR_RNG_UPPER 100, elem GRE_RULE_REF 1, elem GRE_END 0],
          [elem GRE_CHAR 98, elem GRE_CHAR_RNG_UPPER 100, elem GRE_RULE_REF 1, elem GRE_ALT 0, elem GRE_END 0]]\<rparr>"
  by code_simp

theorem parsed_rules_well_formed_witness:
  "\<exists>p. parse (''root ::= '' @ [CHR 0x22] @ ''a'' @ [CHR 0x22] @ '' root | [b-d]+'') parser_new = Inr p \<and> rules_ok (gp_rules p)"
  using parsed_rules_well_formed [OF demo_parse] demo_parse by simp

end
