(* ===== verification/GrammarTotal.thy ===== *)
theory GrammarTotal
  imports GrammarTerm
begin

text \<open>
  The engine and the rejection of candidates return on every well-formed grammar without left recursion, and
  what they return: the language of the start rule, and the candidates that acceptance would refuse. What the
  check for left recursion says about left recursion.
\<close>

section \<open>Rejecting candidates returns\<close>

lemma partial_alts_total:
  assumes "elems_ok k es" and "es \<noteq> []" and "ge_type (hd es) \<in> {GRE_CHAR, GRE_CHAR_NOT, GRE_CHAR_ANY, GRE_CHAR_ALT}"
  shows "\<exists>b. partial_alts low high positive es = Some b"
  using assms
proof (induction "length es" arbitrary: k es rule: less_induct)
  case less
  obtain e es1 where es: "es = e # es1" using less.prems(2) by (cases es) auto
  have ok1: "elems_ok 1 es1 \<or> elems_ok 0 es1" using less.prems(1,3) es by (auto split: llama_gretype.splits)
  then obtain g es2 where es1: "es1 = g # es2" by (cases es1) auto
  show ?case
  proof (cases "ge_type g")
    case GRE_CHAR_RNG_UPPER
    then have ok2: "elems_ok 2 es2" using ok1 es1 by auto
    then obtain h es3 where es2: "es2 = h # es3" by (cases es2) auto
    have "\<exists>b. partial_alts low high positive es2 = Some b" if "ge_type h = GRE_CHAR_ALT"
      using less.hyps [of es2 2] ok2 es es1 es2 that by simp
    then show ?thesis using GRE_CHAR_RNG_UPPER es es1 es2 by auto
  next
    case GRE_CHAR_ALT
    have "\<exists>b. partial_alts low high positive es1 = Some b" using less.hyps [of es1 1] ok1 es es1 GRE_CHAR_ALT by auto
    then show ?thesis using GRE_CHAR_ALT es es1 by auto
  qed (use es es1 in auto)
qed

lemma match_partial_char_total:
  assumes "pos_ok rules p" and "char_pos rules p"
  shows "\<exists>b. llama_grammar_match_partial_char rules p pu = Some b"
proof -
  obtain e es where e: "elem_at rules p = Some e" "drop (snd p) (rules ! fst p) = e # es" "elems_ok 0 (e # es)"
    using assms(1) by (rule pos_ok_elem)
  have t: "ge_type e \<in> {GRE_CHAR, GRE_CHAR_NOT, GRE_CHAR_ANY}" using assms(2) e(1) by (simp add: char_pos_def)
  then have "\<exists>b. partial_alts low high positive (e # es) = Some b" for low high positive
    using partial_alts_total [OF e(3)] by auto
  moreover have "is_positive_char e \<or> ge_type e = GRE_CHAR_NOT" using t by (auto simp: is_positive_char_def)
  ultimately show ?thesis using e(1,2) by (cases "partial_range pu") (auto simp: llama_grammar_match_partial_char_def)
qed

lemma classify_total:
  assumes "pos_ok rules p" and "char_pos rules p" and "terminated tok"
  shows "\<exists>s'. classify rules p tok s = Some s'"
  using assms(3)
proof (cases rule: cur_point_cases)
  case 1
  then show ?thesis using match_partial_char_total [OF assms(1,2), of "gc_partial tok"] by (cases s) (auto simp: classify_def)
next
  case (2 c)
  then show ?thesis using match_char_total [OF assms(1,2), of c] by (cases s) (auto simp: classify_def)
qed

lemma reject_at_end_total: "\<forall>tok \<in> set cands. terminated tok \<Longrightarrow> \<exists>rej. reject_at_end cands = Some rej"
proof (induction cands)
  case (Cons tok cands)
  have "terminated tok" using Cons.prems by simp
  then obtain c where "cur_point tok = Some c" by (cases rule: cur_point_cases) auto
  then show ?case using Cons by auto
qed simp

text \<open>Candidates with fewer than \<open>d\<close> code points left.\<close>

definition short :: "nat \<Rightarrow> grammar_candidate list \<Rightarrow> bool" where
  "short d cands \<longleftrightarrow> (\<forall>tok \<in> set cands. terminated tok \<and> length (points tok) < d)"

lemma matched_bump:
  assumes "matched_at rules p tok" and "terminated tok"
  shows "terminated (bump tok) \<and> length (points tok) = Suc (length (points (bump tok)))"
  using assms(2) by (cases rule: cur_point_cases) (use assms(1) in \<open>simp_all add: matched_at_def\<close>)

lemma reject_loop_returns:
  assumes "stacks_ok rules stacks" and "short d cands"
    and "\<And>st c. st \<in> set stacks \<Longrightarrow> short d c \<Longrightarrow> \<exists>rej. llama_grammar_reject_candidates_for_stack n d rules st c = Some rej"
  shows "\<exists>rej. foldM (\<lambda>s c. llama_grammar_reject_candidates_for_stack n d rules s c) stacks cands = Some rej"
  using assms
proof (induction stacks arbitrary: cands)
  case (Cons st stacks)
  obtain mid where mid: "llama_grammar_reject_candidates_for_stack n d rules st cands = Some mid" using Cons.prems by fastforce
  have "set mid \<subseteq> set cands"
    using reject_for_stack_set [OF mid] Cons.prems(1,2) by (auto simp: stacks_ok_def short_def)
  then have "short d mid" using Cons.prems(2) by (auto simp: short_def)
  then show ?case using Cons.IH [of mid] Cons.prems mid by (simp add: stacks_ok_def)
qed simp

lemma reject_for_stack_returns:
  assumes ex: "expands rules"
  shows "stack_ok rules st \<Longrightarrow> at_rest rules st \<Longrightarrow>
    \<exists>n. \<forall>m \<ge> n. \<forall>cands. 0 < d \<longrightarrow> short d cands \<longrightarrow> (\<exists>rej. llama_grammar_reject_candidates_for_stack m d rules st cands = Some rej)"
proof (induction d arbitrary: st)
  case (Suc d)
  have rules: "rules_ok rules" using ex by (simp add: expands_def)
  show ?case
  proof (cases st)
    case Nil
    then show ?thesis using reject_at_end_total by (auto simp: short_def)
  next
    case (Cons p st')
    then have p: "pos_ok rules p" "char_pos rules p" and st': "stack_ok rules st'"
      using Suc.prems by (auto simp: stack_ok_def at_rest_def)
    obtain b q where q: "llama_grammar_match_char rules p 0 = Some (b, q)" "pos_ok rules q" using match_char_total [OF p] by blast
    obtain after where after: "push_pos rules q st' = Some after" "stack_ok rules after" using push_pos_ok [OF q(2) st'] by blast
    obtain n1 nexts where nexts: "llama_grammar_advance_stack n1 rules after [] = Some nexts" using expands_advance [OF ex after(2)] by blast
    have cl: "set nexts = closure rules after" using advance_stack_closure [OF nexts] by simp
    then have ne: "nexts \<noteq> []" using closure_nonempty [OF rules _ after(2)] ex after(2) by (auto simp: expands_def)
    have oks: "stacks_ok rules nexts" using closure_ok [OF rules after(2)] cl by (simp add: stacks_ok_def)
    obtain n2 where n2: "\<forall>m \<ge> n2. \<forall>s \<in> set nexts. \<forall>cands. 0 < d \<longrightarrow> short d cands \<longrightarrow>
        (\<exists>rej. llama_grammar_reject_candidates_for_stack m d rules s cands = Some rej)"
      using eventually_finite [of "set nexts" "\<lambda>s m. \<forall>cands. 0 < d \<longrightarrow> short d cands \<longrightarrow>
        (\<exists>rej. llama_grammar_reject_candidates_for_stack m d rules s cands = Some rej)"] Suc.IH oks
      by (auto simp: stacks_ok_def)
    have "\<exists>rej. llama_grammar_reject_candidates_for_stack m (Suc d) rules st cands = Some rej"
      if m: "m \<ge> max n1 n2" and c: "short (Suc d) cands" for m cands
    proof -
      have V: "\<forall>tok \<in> set cands. terminated tok" using c by (simp add: short_def)
      obtain rejects nxt where loop: "foldM (classify rules p) cands ([], []) = Some (rejects, nxt)"
        using foldM_total [of cands "classify rules p"] classify_total [OF p] V by (metis surj_pair)
      have nxt: "set nxt = bump ` {tok \<in> set cands. matched_at rules p tok}" using classify_loop [OF loop V] by simp
      have "terminated (bump tok) \<and> length (points (bump tok)) < d" if "tok \<in> set cands" "matched_at rules p tok" for tok
        using matched_bump [OF that(2)] that(1) c by (fastforce simp: short_def)
      then have short: "short d nxt" using nxt by (auto simp: short_def)
      have "\<exists>rn. reject_stacks (\<lambda>s c. llama_grammar_reject_candidates_for_stack m d rules s c) nexts nxt = Some rn"
      proof (cases "nxt = []")
        case False
        then have "0 < d" using short by (cases nxt) (auto simp: short_def)
        then show ?thesis using reject_loop_returns [OF oks short, of m] n2 m ne by (simp add: reject_stacks_def)
      qed (use ne in \<open>simp add: reject_stacks_def\<close>)
      then show ?thesis using loop q(1) after(1) advance_more [OF nexts, of m] m Cons by auto
    qed
    then show ?thesis by blast
  qed
qed simp

lemma reject_candidates_returns:
  assumes ex: "expands rules" and st: "stacks_ok rules stacks" "stacks \<noteq> []"
  shows "\<exists>n. \<forall>m \<ge> n. \<forall>cands. short d cands \<longrightarrow> (\<exists>rej. llama_grammar_reject_candidates m d rules stacks cands = Some rej)"
proof -
  obtain n where n: "\<forall>m \<ge> n. \<forall>s \<in> set stacks. \<forall>cands. 0 < d \<longrightarrow> short d cands \<longrightarrow>
      (\<exists>rej. llama_grammar_reject_candidates_for_stack m d rules s cands = Some rej)"
    using eventually_finite [of "set stacks" "\<lambda>s m. \<forall>cands. 0 < d \<longrightarrow> short d cands \<longrightarrow>
      (\<exists>rej. llama_grammar_reject_candidates_for_stack m d rules s cands = Some rej)"] reject_for_stack_returns [OF ex] st(1)
    by (auto simp: stacks_ok_def)
  have "\<exists>rej. llama_grammar_reject_candidates m d rules stacks cands = Some rej" if "m \<ge> n" "short d cands" for m cands
  proof (cases "cands = []")
    case False
    then have "0 < d" using that(2) by (cases cands) (auto simp: short_def)
    then show ?thesis using reject_loop_returns [OF st(1) that(2), of m] n that(1) st(2)
      by (simp add: llama_grammar_reject_candidates_def reject_stacks_def)
  qed (use st(2) in \<open>simp add: llama_grammar_reject_candidates_def reject_stacks_def\<close>)
  then show ?thesis by blast
qed

section \<open>Properties\<close>

text \<open>C2: On every well-formed grammar without left recursion the engine returns and accepts exactly the language of the
  grammar: for every sufficiently large bound on the depth of \<^verbatim>\<open>advance_stack\<close>, the initial stacks and the stacks
  after feeding a word are computed, and the empty stack is among the latter if and only if the start rule derives the
  word. Left recursion is that of the language, with rules that derive the empty word in any way; the check of the program
  implies its absence only when such rules have an empty alternate.\<close>

theorem grammar_engine_accepts_language:
  assumes "rules_ok rules" and "\<not> left_recursive rules" and "r < length rules"
  shows "\<exists>N. \<forall>n \<ge> N. \<exists>s0 res. initial_stacks n rules r = Some s0 \<and> accept_word n rules w s0 = Some res \<and>
    ([] \<in> set res \<longleftrightarrow> rule_lang rules r w)"
proof -
  have ex: "expands rules" by (rule rules_expand [OF assms(1,2)])
  obtain n1 s0 where s0: "initial_stacks n1 rules r = Some s0" "stacks_ok rules s0" using initial_stacks_returns [OF ex assms(3)] by blast
  obtain n2 where n2: "\<forall>m \<ge> n2. \<exists>res. accept_word m rules w s0 = Some res \<and> stacks_ok rules res" using accept_word_returns [OF ex s0(2)] by blast
  have "\<exists>s0 res. initial_stacks n rules r = Some s0 \<and> accept_word n rules w s0 = Some res \<and> ([] \<in> set res \<longleftrightarrow> rule_lang rules r w)"
    if "n \<ge> max n1 n2" for n
    using initial_more [OF s0(1), of n] n2 that engine_language by fastforce
  then show ?thesis by blast
qed

text \<open>C4: \<^verbatim>\<open>reject_candidates\<close> returns and agrees with \<^verbatim>\<open>accept\<close>, on every well-formed grammar without left recursion, from a
  nonempty set of stacks as the engine makes them: when the code points of every candidate end with a zero and the depth
  followed exceeds their number, for every sufficiently large bound on the depth of \<^verbatim>\<open>advance_stack\<close> the rejected
  candidates are computed, and a candidate is rejected if and only if no stack that remains after accepting its code
  points one by one (which is computed too) can end it: no stack remains, or the pending bytes of the token cannot
  satisfy the top of any.\<close>

theorem reject_candidates_iff_accept_fails:
  assumes "rules_ok rules" and "\<not> left_recursive rules" and "stacks_ok rules stacks" and "stacks \<noteq> []"
    and "\<And>tok. tok \<in> set cands \<Longrightarrow> terminated tok \<and> length (points tok) < d"
  shows "\<exists>N. \<forall>n \<ge> N. \<exists>rej. llama_grammar_reject_candidates n d rules stacks cands = Some rej \<and>
    (\<forall>tok \<in> set cands. \<exists>res. accept_word n rules (points tok) stacks = Some res \<and>
       (tok \<in> set rej \<longleftrightarrow> (\<forall>t \<in> set res. \<not> can_end rules (gc_partial tok) t)))"
proof -
  have ex: "expands rules" by (rule rules_expand [OF assms(1,2)])
  have V: "\<forall>tok \<in> set cands. terminated tok" and R: "\<forall>st \<in> set stacks. at_rest rules st" and short: "short d cands"
    using assms(3,5) by (auto simp: stacks_ok_def short_def)
  obtain n1 where n1: "\<forall>m \<ge> n1. \<exists>rej. llama_grammar_reject_candidates m d rules stacks cands = Some rej"
    using reject_candidates_returns [OF ex assms(3,4)] short by blast
  obtain n2 where n2: "\<forall>m \<ge> n2. \<forall>tok \<in> set cands. \<exists>res. accept_word m rules (points tok) stacks = Some res"
    using eventually_finite [of "set cands" "\<lambda>tok m. \<exists>res. accept_word m rules (points tok) stacks = Some res"]
      accept_word_returns [OF ex assms(3)] by (metis List.finite_set)
  have "\<exists>rej. llama_grammar_reject_candidates n d rules stacks cands = Some rej \<and>
    (\<forall>tok \<in> set cands. \<exists>res. accept_word n rules (points tok) stacks = Some res \<and>
       (tok \<in> set rej \<longleftrightarrow> (\<forall>t \<in> set res. \<not> can_end rules (gc_partial tok) t)))" if n: "n \<ge> max n1 n2" for n
  proof -
    obtain rej where rej: "llama_grammar_reject_candidates n d rules stacks cands = Some rej" using n1 n by auto
    have "\<exists>res. accept_word n rules (points tok) stacks = Some res \<and> (tok \<in> set rej \<longleftrightarrow> (\<forall>t \<in> set res. \<not> can_end rules (gc_partial tok) t))"
      if tok: "tok \<in> set cands" for tok
    proof -
      obtain res where res: "accept_word n rules (points tok) stacks = Some res" using n2 n tok by auto
      then show ?thesis using reject_candidates_set [OF rej V R] survives_accept_word [OF res R] tok by auto
    qed
    then show ?thesis using rej by blast
  qed
  then show ?thesis by blast
qed

text \<open>C17: On well-formed rules the check for left recursion returns, and a grammar that it refuses is left-recursive: some
  rule reaches itself over references before which, in their alternates, only rules stand that derive the empty word.
  When every rule that derives the empty word has an alternate without elements, the check is exact. A rule that derives
  the empty word only through other rules is not recognised as possibly empty, and left recursion behind it is missed.\<close>

theorem left_recursion_check_exact:
  assumes "rules_ok rules"
  shows "\<exists>found. has_left_recursion rules = Some found \<and> (found \<longrightarrow> left_recursive rules) \<and>
    (empty_rules_direct rules \<longrightarrow> (found \<longleftrightarrow> left_recursive rules))"
  using left_recursion_found [OF assms] by metis

lemma demo_ok: "rules_ok demo_rules" "\<not> left_recursive demo_rules" "stacks_ok demo_rules [[(0, 0)], [(0, 3)]]"
proof -
  show "rules_ok demo_rules" "\<not> left_recursive demo_rules"
    using demo_checked checked_rules_not_left_recursive by blast+
  show "stacks_ok demo_rules [[(0, 0)], [(0, 3)]]"
    by (auto simp: stacks_ok_def stack_ok_def pos_ok_def at_rest_def char_pos_def elem_at_def is_end_of_sequence_def is_end_type_def demo_rules_def)
qed

theorem grammar_engine_accepts_language_witness:
  "\<exists>N. \<forall>n \<ge> N. \<exists>s0 res. initial_stacks n demo_rules 0 = Some s0 \<and> accept_word n demo_rules [97, 98] s0 = Some res \<and>
    ([] \<in> set res \<longleftrightarrow> rule_lang demo_rules 0 [97, 98])"
  by (rule grammar_engine_accepts_language [OF demo_ok(1,2)]) (simp add: demo_rules_def)

theorem reject_candidates_iff_accept_fails_witness:
  "let tok = \<lparr>gc_index = 0, gc_code_points = [97, 98, 0], gc_off = 0, gc_partial = \<lparr>pu_value = 0, pu_n_remain = 0\<rparr>\<rparr> in
   \<exists>N. \<forall>n \<ge> N. \<exists>rej. llama_grammar_reject_candidates n 3 demo_rules [[(0, 0)], [(0, 3)]] [tok] = Some rej \<and>
     (\<forall>tok \<in> set [tok]. \<exists>res. accept_word n demo_rules (points tok) [[(0, 0)], [(0, 3)]] = Some res \<and>
       (tok \<in> set rej \<longleftrightarrow> (\<forall>t \<in> set res. \<not> can_end demo_rules (gc_partial tok) t)))"
  unfolding Let_def
  by (rule reject_candidates_iff_accept_fails [OF demo_ok]) (auto simp: points_def terminated_def)

theorem left_recursion_check_exact_witness:
  "has_left_recursion demo_rules = Some False \<and> \<not> left_recursive demo_rules"
  using left_recursion_check_exact [OF demo_ok(1)] demo_checked by auto

end
