(* ===== verification/GrammarApply.thy ===== *)
theory GrammarApply
  imports GrammarParseOk GrammarTotal
begin

text \<open>
  The grammar object of \<^verbatim>\<open>src/llama-grammar.{h,cpp}\<close>: construction from source text, cloning, masking of the
  candidate tokens and acceptance of the sampled token, with the lazy trigger. The vocabulary and the regular
  expression engine are arguments: the text of a token, whether it ends the generation, and the positions and
  lengths of the groups when the whole string matches. Logits are of any type with a value for \<^verbatim>\<open>-INFINITY\<close>.
\<close>

section \<open>Construction\<close>

record llama_grammar =
  lg_rules :: grammar_rules
  lg_stacks :: "grammar_stack list"
  lg_partial_utf8 :: partial_utf8
  lg_lazy :: bool
  lg_awaiting_trigger :: bool
  lg_trigger_buffer :: "u8 list"
  lg_trigger_tokens :: "int list"
  lg_trigger_patterns :: "string list"

text \<open>The result of a constructor: the null pointer, an escaping exception, or the object.\<close>

datatype init_result = Null_Grammar | Init_Throw string | New_Grammar llama_grammar

definition grammar_new :: "grammar_rules \<Rightarrow> grammar_stack list \<Rightarrow> bool \<Rightarrow> int list \<Rightarrow> string list \<Rightarrow> llama_grammar" where
  "grammar_new rules stacks lazy tokens patterns =
     \<lparr>lg_rules = rules, lg_stacks = stacks, lg_partial_utf8 = \<lparr>pu_value = 0, pu_n_remain = 0\<rparr>, lg_lazy = lazy,
      lg_awaiting_trigger = lazy, lg_trigger_buffer = [], lg_trigger_tokens = tokens, lg_trigger_patterns = patterns\<rparr>"

text \<open>From rule arrays; \<open>n\<close> bounds the depth of \<^verbatim>\<open>advance_stack\<close>.\<close>

definition llama_grammar_init_rules :: "nat \<Rightarrow> grammar_element list list \<Rightarrow> nat \<Rightarrow> init_result option" where
  "llama_grammar_init_rules n rules start_rule_index =
     map_option (\<lambda>r. case r of None \<Rightarrow> Null_Grammar | Some (vec_rules, stacks) \<Rightarrow> New_Grammar (grammar_new vec_rules stacks False [] []))
       (init_stacks n rules start_rule_index)"

text \<open>From source text: the symbol \<^verbatim>\<open>root\<close> must exist, the rule started is \<^verbatim>\<open>grammar_root\<close>.\<close>

definition llama_grammar_init_impl :: "nat \<Rightarrow> string \<Rightarrow> string \<Rightarrow> bool \<Rightarrow> string list \<Rightarrow> int list \<Rightarrow> init_result option" where
  "llama_grammar_init_impl n grammar_str grammar_root lazy trigger_patterns trigger_tokens =
     (case parse grammar_str parser_new of
        Inl _ \<Rightarrow> Some Null_Grammar
      | Inr parser \<Rightarrow>
          if gp_rules parser = [] then Some Null_Grammar
          else if map_of (symbol_ids parser) ''root'' = None then Some Null_Grammar
          else (case map_of (symbol_ids parser) grammar_root of
                  None \<Rightarrow> Some (Init_Throw ''map::at'')
                | Some start_rule_index \<Rightarrow>
                    map_option (\<lambda>r. case r of
                        None \<Rightarrow> Null_Grammar
                      | Some (vec_rules, stacks) \<Rightarrow> New_Grammar (grammar_new vec_rules stacks lazy trigger_tokens trigger_patterns))
                      (init_stacks n (gp_rules parser) (unat start_rule_index))))"

text \<open>Cloning redirects every pointer into the copied rules; \<open>None\<close> when one keeps pointing into the original.\<close>

definition redirect :: "grammar_rules \<Rightarrow> gpos \<Rightarrow> gpos option" where
  "redirect rules p =
     fold (\<lambda>q res. if p = q then Some q else res)
       (concat (map (\<lambda>ir0. map (\<lambda>ir1. (ir0, ir1)) [0..<length (rules ! ir0)]) [0..<length rules])) None"

fun sequence_opt :: "'a option list \<Rightarrow> 'a list option" where
  "sequence_opt [] = Some []"
| "sequence_opt (x # xs) = do { y \<leftarrow> x; ys \<leftarrow> sequence_opt xs; Some (y # ys) }"

definition llama_grammar_clone_impl :: "llama_grammar \<Rightarrow> llama_grammar option" where
  "llama_grammar_clone_impl g = do {
     stacks \<leftarrow> sequence_opt (map (\<lambda>st. sequence_opt (map (redirect (lg_rules g)) st)) (lg_stacks g));
     Some (g\<lparr>lg_stacks := stacks\<rparr>) }"

section \<open>Masking and accepting tokens\<close>

record grammar_vocab =
  token_to_piece :: "int \<Rightarrow> u8 list"
  is_eog :: "int \<Rightarrow> bool"

record 'l token_data =
  td_id :: int
  td_logit :: 'l

text \<open>The loop over the candidates: the new logits and the decoded candidates.\<close>

definition mask_step :: "'l \<Rightarrow> grammar_vocab \<Rightarrow> bool \<Rightarrow> partial_utf8 \<Rightarrow> nat \<Rightarrow> 'l token_data list \<times> grammar_candidate list \<Rightarrow>
    'l token_data list \<times> grammar_candidate list" where
  "mask_step neg_inf vocab allow_eog partial i = (\<lambda>(cur, cands).
     let id = td_id (cur ! i); piece = token_to_piece vocab id;
         masked = cur[i := (cur ! i)\<lparr>td_logit := neg_inf\<rparr>]
     in if is_eog vocab id then (if \<not> allow_eog then masked else cur, cands)
        else if piece = [] \<or> hd piece = 0 then (masked, cands)
        else (let (code_points, partial') = decode_utf8 piece partial
              in (cur, cands @ [\<lparr>gc_index = i, gc_code_points = code_points, gc_off = 0, gc_partial = partial'\<rparr>])))"

definition llama_grammar_apply_impl :: "nat \<Rightarrow> nat \<Rightarrow> 'l \<Rightarrow> grammar_vocab \<Rightarrow> llama_grammar \<Rightarrow> 'l token_data list \<Rightarrow> 'l token_data list option" where
  "llama_grammar_apply_impl n d neg_inf vocab g cur =
     (if lg_awaiting_trigger g then Some cur
      else
        (let allow_eog = ([] \<in> set (lg_stacks g));
             (cur, cands) = fold (mask_step neg_inf vocab allow_eog (lg_partial_utf8 g)) [0..<length cur] (cur, [])
         in do {
           rejects \<leftarrow> llama_grammar_reject_candidates n d (lg_rules g) (lg_stacks g) cands;
           Some (fold (\<lambda>rej cur. cur[gc_index rej := (cur ! gc_index rej)\<lparr>td_logit := neg_inf\<rparr>]) rejects cur) }))"

text \<open>The boolean of the result is false when the exception is thrown.\<close>

definition llama_grammar_accept_str :: "nat \<Rightarrow> llama_grammar \<Rightarrow> u8 list \<Rightarrow> (bool \<times> llama_grammar) option" where
  "llama_grammar_accept_str n g piece = do {
     let (code_points, partial) = decode_utf8 piece (lg_partial_utf8 g);
     stacks \<leftarrow> foldM (llama_grammar_accept n (lg_rules g)) (butlast code_points) (lg_stacks g);
     Some (stacks \<noteq> [], g\<lparr>lg_stacks := stacks, lg_partial_utf8 := partial\<rparr>) }"

text \<open>The first group that matched something, or the whole match.\<close>

definition match_start :: "(nat \<times> nat) list \<Rightarrow> nat" where
  "match_start m = (case List.find (\<lambda>(_, len). len > 0) (tl m) of Some (position, _) \<Rightarrow> position | None \<Rightarrow> fst (hd m))"

fun try_patterns :: "nat \<Rightarrow> (string \<Rightarrow> u8 list \<Rightarrow> (nat \<times> nat) list option) \<Rightarrow> llama_grammar \<Rightarrow> string list \<Rightarrow>
    (bool \<times> llama_grammar) option" where
  "try_patterns n regex_match g [] = Some (True, g)"
| "try_patterns n regex_match g (pat # pats) =
     (case regex_match pat (lg_trigger_buffer g) of
        Some m \<Rightarrow>
          (let constrained_str = drop (match_start m) (lg_trigger_buffer g)
           in llama_grammar_accept_str n (g\<lparr>lg_awaiting_trigger := False, lg_trigger_buffer := []\<rparr>) constrained_str)
      | None \<Rightarrow> try_patterns n regex_match g pats)"

definition llama_grammar_accept_impl :: "nat \<Rightarrow> (string \<Rightarrow> u8 list \<Rightarrow> (nat \<times> nat) list option) \<Rightarrow> grammar_vocab \<Rightarrow> llama_grammar \<Rightarrow> int \<Rightarrow>
    (bool \<times> llama_grammar) option" where
  "llama_grammar_accept_impl n regex_match vocab g token =
     (let piece = token_to_piece vocab token in
      if lg_awaiting_trigger g then
        if token \<in> set (lg_trigger_tokens g) then
          llama_grammar_accept_str n (g\<lparr>lg_awaiting_trigger := False, lg_trigger_buffer := []\<rparr>) piece
        else try_patterns n regex_match (g\<lparr>lg_trigger_buffer := lg_trigger_buffer g @ piece\<rparr>) (lg_trigger_patterns g)
      else if is_eog vocab token then (if [] \<in> set (lg_stacks g) then Some (True, g) else None)
      else llama_grammar_accept_str n g piece)"

section \<open>Decoded candidates\<close>

lemma decode_loop_last: "\<exists>cs. fst (decode_loop bs v n cps) = cs @ [0]"
proof (induction bs v n cps rule: decode_loop.induct)
  case (2 b bs v n cps)
  show ?case
  proof (cases "b = 0 \<or> seq_len b - 1 < 0")
    case False
    then show ?thesis using 2 by (auto simp: Let_def split: prod.splits)
  qed (auto simp: Let_def)
qed simp

lemma decode_utf8_last: "fst (decode_utf8 piece p) = butlast (fst (decode_utf8 piece p)) @ [0]"
proof -
  have "\<exists>cs. fst (decode_utf8 piece p) = cs @ [0]" using decode_loop_last by (auto simp: decode_utf8_def split: option.splits)
  then show ?thesis by force
qed

definition candidate_of :: "grammar_vocab \<Rightarrow> partial_utf8 \<Rightarrow> nat \<Rightarrow> int \<Rightarrow> grammar_candidate" where
  "candidate_of vocab partial i token =
     (let (cps, partial') = decode_utf8 (token_to_piece vocab token) partial
      in \<lparr>gc_index = i, gc_code_points = cps, gc_off = 0, gc_partial = partial'\<rparr>)"

lemma candidate_terminated: "terminated (candidate_of vocab partial i token)"
  using decode_utf8_last [of "token_to_piece vocab token" partial]
  by (auto simp: candidate_of_def terminated_def split: prod.splits) (metis in_set_conv_decomp)

lemma candidate_points:
  assumes "0 \<notin> set (butlast (fst (decode_utf8 (token_to_piece vocab token) partial)))"
  shows "points (candidate_of vocab partial i token) = butlast (fst (decode_utf8 (token_to_piece vocab token) partial))"
proof -
  let ?cps = "fst (decode_utf8 (token_to_piece vocab token) partial)"
  have "points (candidate_of vocab partial i token) = takeWhile (\<lambda>c. c \<noteq> 0) ?cps"
    by (simp add: candidate_of_def points_def split: prod.splits)
  also have "\<dots> = takeWhile (\<lambda>c. c \<noteq> 0) (butlast ?cps @ [0])" using decode_utf8_last by metis
  also have "\<dots> = butlast ?cps" using assms by (subst takeWhile_append2) auto
  finally show ?thesis .
qed

section \<open>The mask\<close>

text \<open>A token that is handed to the engine: not an end of generation, and with text.\<close>

definition decoded :: "grammar_vocab \<Rightarrow> int \<Rightarrow> bool" where
  "decoded vocab token \<longleftrightarrow> \<not> is_eog vocab token \<and> token_to_piece vocab token \<noteq> [] \<and> hd (token_to_piece vocab token) \<noteq> 0"

lemma mask_loop:
  assumes "k \<le> length cur0" and "fold (mask_step neg vocab allow partial) [0..<k] (cur0, []) = (cur, cands)"
  shows "length cur = length cur0 \<and> (\<forall>i < length cur0. td_id (cur ! i) = td_id (cur0 ! i)) \<and>
    set cands = {candidate_of vocab partial i (td_id (cur0 ! i)) | i. i < k \<and> decoded vocab (td_id (cur0 ! i))} \<and>
    (\<forall>i < k. \<not> decoded vocab (td_id (cur0 ! i)) \<longrightarrow> \<not> (is_eog vocab (td_id (cur0 ! i)) \<and> allow) \<longrightarrow> td_logit (cur ! i) = neg)"
  using assms
proof (induction k arbitrary: cur cands)
  case (Suc k)
  obtain cur1 cands1 where f: "fold (mask_step neg vocab allow partial) [0..<k] (cur0, []) = (cur1, cands1)" by force
  have step: "mask_step neg vocab allow partial k (cur1, cands1) = (cur, cands)" using Suc.prems(2) f by simp
  have IH: "length cur1 = length cur0" "\<forall>i < length cur0. td_id (cur1 ! i) = td_id (cur0 ! i)"
    "set cands1 = {candidate_of vocab partial i (td_id (cur0 ! i)) | i. i < k \<and> decoded vocab (td_id (cur0 ! i))}"
    "\<forall>i < k. \<not> decoded vocab (td_id (cur0 ! i)) \<longrightarrow> \<not> (is_eog vocab (td_id (cur0 ! i)) \<and> allow) \<longrightarrow> td_logit (cur1 ! i) = neg"
    using Suc.IH [OF _ f] Suc.prems(1) by auto
  have k: "k < length cur1" "td_id (cur1 ! k) = td_id (cur0 ! k)" using IH(1,2) Suc.prems(1) by auto
  show ?case
  proof (cases "decoded vocab (td_id (cur0 ! k))")
    case True
    then have "cur = cur1" "cands = cands1 @ [candidate_of vocab partial k (td_id (cur0 ! k))]"
      using step k by (auto simp: mask_step_def decoded_def candidate_of_def Let_def split: prod.splits)
    then show ?thesis using IH True by (auto simp: less_Suc_eq)
  next
    case False
    then have c: "cands = cands1" "cur = (if is_eog vocab (td_id (cur0 ! k)) \<and> allow then cur1 else cur1[k := (cur1 ! k)\<lparr>td_logit := neg\<rparr>])"
      using step k by (auto simp: mask_step_def decoded_def Let_def split: if_splits)
    then have "td_id (cur ! i) = td_id (cur1 ! i)" for i using k(1) by (cases "i = k") auto
    then show ?thesis using IH False c k by (auto simp: less_Suc_eq nth_list_update)
  qed
qed simp

lemma mask_rejects:
  fixes cur :: "'l token_data list"
  assumes "fold (\<lambda>rej cur. cur[gc_index rej := (cur ! gc_index rej)\<lparr>td_logit := neg\<rparr>]) rejs cur = cur'"
    and "i < length cur"
  shows "td_logit (cur' ! i) = (if i \<in> gc_index ` set rejs then neg else td_logit (cur ! i))"
  using assms
proof (induction rejs arbitrary: cur)
  case (Cons r rejs)
  then show ?case by (auto simp: nth_list_update)
qed simp

lemma mask_rejects_length:
  "length (fold (\<lambda>rej cur. cur[gc_index rej := (cur ! gc_index rej)\<lparr>td_logit := neg\<rparr>]) rejs cur) = length cur"
  by (induction rejs arbitrary: cur) simp_all

text \<open>What the mask asks of a token.\<close>

definition can_take :: "grammar_vocab \<Rightarrow> llama_grammar \<Rightarrow> nat \<Rightarrow> int \<Rightarrow> bool" where
  "can_take vocab g i token \<longleftrightarrow>
     (if is_eog vocab token then [] \<in> set (lg_stacks g)
      else \<exists>st \<in> set (lg_stacks g). survives (lg_rules g) st (candidate_of vocab (lg_partial_utf8 g) i token))"

lemma apply_unmasked:
  assumes ap: "llama_grammar_apply_impl n d neg vocab g cur = Some cur'" and aw: "\<not> lg_awaiting_trigger g"
    and st: "\<forall>st \<in> set (lg_stacks g). at_rest (lg_rules g) st" and i: "i < length cur" "td_logit (cur' ! i) \<noteq> neg"
  shows "can_take vocab g i (td_id (cur ! i))"
proof -
  let ?id = "td_id (cur ! i)" and ?allow = "[] \<in> set (lg_stacks g)"
  obtain cur1 cands where loop: "fold (mask_step neg vocab ?allow (lg_partial_utf8 g)) [0..<length cur] (cur, []) = (cur1, cands)" by force
  obtain rejs where rejs: "llama_grammar_reject_candidates n d (lg_rules g) (lg_stacks g) cands = Some rejs"
    and cur': "fold (\<lambda>rej cur. cur[gc_index rej := (cur ! gc_index rej)\<lparr>td_logit := neg\<rparr>]) rejs cur1 = cur'"
    using ap aw loop by (auto simp: llama_grammar_apply_impl_def Let_def split: Option.bind_splits)
  note L = mask_loop [OF order_refl loop]
  have ended: "\<forall>tok \<in> set cands. terminated tok" using L candidate_terminated by auto
  note R = reject_candidates_set [OF rejs ended st]
  have keep: "i \<notin> gc_index ` set rejs" "td_logit (cur1 ! i) \<noteq> neg" using mask_rejects [OF cur', of i] i L by (auto split: if_splits)
  show ?thesis
  proof (cases "decoded vocab ?id")
    case True
    let ?c = "candidate_of vocab (lg_partial_utf8 g) i ?id"
    have "?c \<in> set cands" using L True i(1) by auto
    moreover have "gc_index ?c = i" by (simp add: candidate_of_def split: prod.splits)
    then have "?c \<notin> set rejs" using keep(1) by force
    ultimately show ?thesis using R True by (auto simp: decoded_def can_take_def)
  next
    case False
    then show ?thesis using L keep(2) i(1) by (auto simp: can_take_def)
  qed
qed

text \<open>The mask is computed.\<close>

lemma apply_returns:
  assumes ex: "expands (lg_rules g)" and st: "stacks_ok (lg_rules g) (lg_stacks g)" "lg_stacks g \<noteq> []" and aw: "\<not> lg_awaiting_trigger g"
    and d: "\<And>t. t \<in> set cur \<Longrightarrow> length (fst (decode_utf8 (token_to_piece vocab (td_id t)) (lg_partial_utf8 g))) \<le> d"
  shows "\<exists>N. \<forall>n \<ge> N. \<exists>cur'. llama_grammar_apply_impl n d neg vocab g cur = Some cur' \<and> length cur' = length cur"
proof -
  let ?p = "lg_partial_utf8 g"
  obtain cur1 cands where loop: "fold (mask_step neg vocab ([] \<in> set (lg_stacks g)) ?p) [0..<length cur] (cur, []) = (cur1, cands)" by force
  note L = mask_loop [OF order_refl loop]
  have "length (points (candidate_of vocab ?p i (td_id (cur ! i)))) < d" if i: "i < length cur" for i
  proof -
    let ?cps = "fst (decode_utf8 (token_to_piece vocab (td_id (cur ! i))) ?p)"
    have "length (points (candidate_of vocab ?p i (td_id (cur ! i)))) \<le> length (takeWhile (\<lambda>c. c \<noteq> 0) (butlast ?cps @ [0]))"
      using decode_utf8_last [of "token_to_piece vocab (td_id (cur ! i))" ?p] by (simp add: candidate_of_def points_def split: prod.splits)
    also have "\<dots> \<le> length (butlast ?cps)"
    proof -
      have "length (takeWhile (\<lambda>c. c \<noteq> 0) (xs @ [0])) \<le> length xs" for xs :: "u32 list" by (induction xs) auto
      then show ?thesis .
    qed
    also have "\<dots> < length ?cps" using decode_utf8_last [of "token_to_piece vocab (td_id (cur ! i))" ?p] by (metis length_append_singleton lessI)
    finally show ?thesis using d [OF nth_mem [OF i]] by simp
  qed
  then have "short d cands" using L candidate_terminated by (auto simp: short_def)
  then obtain N where "\<forall>n \<ge> N. \<exists>rejs. llama_grammar_reject_candidates n d (lg_rules g) (lg_stacks g) cands = Some rejs"
    using reject_candidates_returns [OF ex st] by blast
  moreover have "length (fold (\<lambda>rej cur. cur[gc_index rej := (cur ! gc_index rej)\<lparr>td_logit := neg\<rparr>]) rejs cur1) = length cur" for rejs
    using L mask_rejects_length [of neg rejs cur1] by simp
  ultimately show ?thesis using aw loop by (fastforce simp: llama_grammar_apply_impl_def)
qed

section \<open>Acceptance\<close>

lemma accept_str_ok:
  assumes ex: "expands (lg_rules g)" and st: "stacks_ok (lg_rules g) (lg_stacks g)"
    and sv: "\<exists>st \<in> set (lg_stacks g). survives (lg_rules g) st (candidate_of vocab (lg_partial_utf8 g) i token)"
    and nz: "0 \<notin> set (butlast (fst (decode_utf8 (token_to_piece vocab token) (lg_partial_utf8 g))))"
  shows "\<exists>n. \<forall>m \<ge> n. \<exists>g'. llama_grammar_accept_str m g (token_to_piece vocab token) = Some (True, g') \<and>
    lg_rules g' = lg_rules g \<and> stacks_ok (lg_rules g) (lg_stacks g') \<and> lg_stacks g' \<noteq> [] \<and>
    lg_awaiting_trigger g' = lg_awaiting_trigger g"
proof -
  obtain cps p where d: "decode_utf8 (token_to_piece vocab token) (lg_partial_utf8 g) = (cps, p)" by force
  have pts: "points (candidate_of vocab (lg_partial_utf8 g) i token) = butlast cps" using candidate_points [OF nz] d by simp
  obtain n where n: "\<forall>m \<ge> n. \<exists>res. accept_word m (lg_rules g) (butlast cps) (lg_stacks g) = Some res \<and> stacks_ok (lg_rules g) res"
    using accept_word_returns [OF ex st] by blast
  have rest: "\<forall>st \<in> set (lg_stacks g). at_rest (lg_rules g) st" using st by (simp add: stacks_ok_def)
  have "\<exists>g'. llama_grammar_accept_str m g (token_to_piece vocab token) = Some (True, g') \<and>
    lg_rules g' = lg_rules g \<and> stacks_ok (lg_rules g) (lg_stacks g') \<and> lg_stacks g' \<noteq> [] \<and>
    lg_awaiting_trigger g' = lg_awaiting_trigger g" if m: "m \<ge> n" for m
  proof -
    obtain res where res: "accept_word m (lg_rules g) (butlast cps) (lg_stacks g) = Some res" "stacks_ok (lg_rules g) res" using n m by blast
    have "res \<noteq> []" using survives_accept_word [OF res(1) [folded pts] rest] sv by auto
    then show ?thesis using res d by (simp add: llama_grammar_accept_str_def accept_word_def)
  qed
  then show ?thesis by blast
qed

lemma taken_token_accepted:
  assumes ex: "expands (lg_rules g)" and st: "stacks_ok (lg_rules g) (lg_stacks g)" "lg_stacks g \<noteq> []" and aw: "\<not> lg_awaiting_trigger g"
    and take: "can_take vocab g i token" and nz: "0 \<notin> set (butlast (fst (decode_utf8 (token_to_piece vocab token) (lg_partial_utf8 g))))"
  shows "\<exists>n. \<forall>m \<ge> n. \<exists>g'. llama_grammar_accept_impl m regex_match vocab g token = Some (True, g') \<and>
    lg_rules g' = lg_rules g \<and> stacks_ok (lg_rules g) (lg_stacks g') \<and> lg_stacks g' \<noteq> [] \<and> \<not> lg_awaiting_trigger g'"
proof (cases "is_eog vocab token")
  case True
  then show ?thesis using take st aw by (simp add: llama_grammar_accept_impl_def can_take_def)
next
  case False
  then have "\<exists>st \<in> set (lg_stacks g). survives (lg_rules g) st (candidate_of vocab (lg_partial_utf8 g) i token)"
    using take by (simp add: can_take_def)
  from accept_str_ok [OF ex st(1) this nz] show ?thesis using False aw by (simp add: llama_grammar_accept_impl_def)
qed

section \<open>Construction from source\<close>

lemma elems_ok_truncate: "elems_ok k es \<Longrightarrow> elems_ok k (truncate_rule es)"
proof (induction es arbitrary: k)
  case (Cons e es)
  show ?case
  proof (cases "ge_type e = GRE_END")
    case False
    then have "truncate_rule (e # es) = e # truncate_rule es" by (simp add: truncate_rule_def)
    then show ?thesis using Cons False by (cases "ge_type e") auto
  qed (simp add: truncate_rule_def)
qed simp

lemma set_truncate: "e \<in> set (truncate_rule es) \<Longrightarrow> e \<in> set es \<or> ge_type e = GRE_END"
  by (auto simp: truncate_rule_def dest: set_takeWhileD)

lemma rules_ok_truncate: "rules_ok rules \<Longrightarrow> rules_ok (map truncate_rule rules)"
proof -
  assume r: "rules_ok rules"
  have "unat (ge_value e) < length rules" if e: "es \<in> set rules" "e \<in> set (truncate_rule es)" "ge_type e = GRE_RULE_REF" for es e
  proof -
    have "e \<in> set es" using set_truncate [OF e(2)] e(3) by auto
    then show ?thesis using r e by (auto simp: rules_ok_def refs_ok_def)
  qed
  moreover have "elems_ok 0 (truncate_rule es)" if "es \<in> set rules" for es
    using r that by (intro elems_ok_truncate) (simp add: rules_ok_def)
  ultimately show ?thesis by (auto simp: rules_ok_def refs_ok_def)
qed

lemma initial_stacks_ok:
  assumes rules: "rules_ok rules" and init: "initial_stacks n rules r = Some stacks"
  shows "stacks_ok rules stacks"
  unfolding stacks_ok_def initial_stacks_set [OF init]
proof clarify
  fix st s i assume s: "st \<in> closure rules s" "rule_start rules r i" "push_pos rules (r, i) [] = Some s"
  have "stack_ok rules s" using push_pos_ok [OF rule_start_pos_ok(1) [OF rules s(2)], of "[]"] s(3) by (simp add: stack_ok_def)
  then show "stack_ok rules st \<and> at_rest rules st" by (rule closure_ok [OF rules _ s(1)])
qed

text \<open>Whatever depth is allowed, a computed set of stacks is not empty.\<close>

lemma foldM_nonempty:
  assumes "foldM f xs new = Some res" and "xs \<noteq> []" and "\<And>x new res. f x new = Some res \<Longrightarrow> res \<noteq> []"
  shows "res \<noteq> []"
  using assms(1,2)
proof (induction xs arbitrary: new)
  case (Cons x xs)
  then obtain mid where mid: "f x new = Some mid" "foldM f xs mid = Some res" by (auto split: option.splits)
  then show ?case using Cons.IH [OF mid(2)] assms(3) by (cases xs) auto
qed simp

lemma alternates_nonempty: "alternates start i es = Some is \<Longrightarrow> is \<noteq> []"
  by (induction es arbitrary: start i "is") (auto split: if_splits)

lemma advance_nonempty: "llama_grammar_advance_stack n rules st new = Some res \<Longrightarrow> res \<noteq> []"
proof (induction n arbitrary: st new res)
  case (Suc n)
  show ?case
  proof (cases st)
    case (Cons p st')
    obtain e where e: "elem_at rules p = Some e" using Suc.prems Cons by (auto split: Option.bind_splits)
    show ?thesis
    proof (cases "ge_type e = GRE_RULE_REF")
      case True
      then obtain starts where starts: "alternates 0 0 (rules ! unat (ge_value e)) = Some starts"
        and loop: "foldM (\<lambda>i new. do { s1 \<leftarrow> push_pos rules (advance_pos 1 p) st'; s2 \<leftarrow> push_pos rules (unat (ge_value e), i) s1;
            llama_grammar_advance_stack n rules s2 new }) starts new = Some res"
        using Suc.prems e unfolding Cons by (auto simp: Let_def split: Option.bind_splits if_splits)
      show ?thesis
        by (rule foldM_nonempty [OF loop alternates_nonempty [OF starts]]) (auto split: Option.bind_splits dest: Suc.IH)
    next
      case False
      then show ?thesis using Suc.prems e unfolding Cons by (auto simp: add_new_def split: llama_gretype.splits if_splits)
    qed
  qed (use Suc.prems in \<open>auto simp: add_new_def split: if_splits\<close>)
qed simp

lemma initial_stacks_nonempty:
  assumes "initial_stacks n rules r = Some stacks"
  shows "stacks \<noteq> []"
proof -
  obtain starts where starts: "alternates 0 0 (rules ! r) = Some starts"
    and loop: "foldM (\<lambda>i new. do { s \<leftarrow> push_pos rules (r, i) []; llama_grammar_advance_stack n rules s new }) starts [] = Some stacks"
    using assms by (auto simp: initial_stacks_def split: Option.bind_splits if_splits)
  show ?thesis
    by (rule foldM_nonempty [OF loop alternates_nonempty [OF starts]]) (auto split: Option.bind_splits dest: advance_nonempty)
qed

section \<open>Properties\<close>

text \<open>C3: A token that the mask leaves can be accepted. The rules are well-formed and not left-recursive, which the checks of
  the program ensure only when every rule deriving the empty word has an empty alternate; the grammar is active and its
  stacks are as the engine makes them. Then the mask is computed, for every sufficiently large bound on the depth of
  \<^verbatim>\<open>advance_stack\<close> when the depth followed covers the code points of every candidate, and every candidate that keeps a
  logit other than \<^verbatim>\<open>-INFINITY\<close>, and whose text does not decode to a zero code point before its end, is accepted
  without an exception or an abort, leaving the grammar in a state for which the same holds again.\<close>

theorem unmasked_token_is_accepted:
  assumes "rules_ok (lg_rules g)" and "\<not> left_recursive (lg_rules g)" and "stacks_ok (lg_rules g) (lg_stacks g)"
    and "lg_stacks g \<noteq> []" and "\<not> lg_awaiting_trigger g"
    and "\<And>t. t \<in> set cur \<Longrightarrow> length (fst (decode_utf8 (token_to_piece vocab (td_id t)) (lg_partial_utf8 g))) \<le> d"
  shows "\<exists>N. \<forall>n \<ge> N. \<exists>cur'. llama_grammar_apply_impl n d neg vocab g cur = Some cur' \<and> length cur' = length cur \<and>
    (\<forall>i < length cur. td_logit (cur' ! i) \<noteq> neg \<longrightarrow>
       0 \<notin> set (butlast (fst (decode_utf8 (token_to_piece vocab (td_id (cur ! i))) (lg_partial_utf8 g)))) \<longrightarrow>
       (\<exists>g'. llama_grammar_accept_impl n regex_match vocab g (td_id (cur ! i)) = Some (True, g') \<and>
         lg_rules g' = lg_rules g \<and> stacks_ok (lg_rules g) (lg_stacks g') \<and> lg_stacks g' \<noteq> [] \<and> \<not> lg_awaiting_trigger g'))"
proof -
  let ?ok = "\<lambda>i n. \<exists>g'. llama_grammar_accept_impl n regex_match vocab g (td_id (cur ! i)) = Some (True, g') \<and>
    lg_rules g' = lg_rules g \<and> stacks_ok (lg_rules g) (lg_stacks g') \<and> lg_stacks g' \<noteq> [] \<and> \<not> lg_awaiting_trigger g'"
  let ?good = "\<lambda>i. can_take vocab g i (td_id (cur ! i)) \<and>
    0 \<notin> set (butlast (fst (decode_utf8 (token_to_piece vocab (td_id (cur ! i))) (lg_partial_utf8 g))))"
  have ex: "expands (lg_rules g)" by (rule rules_expand [OF assms(1,2)])
  have rest: "\<forall>st \<in> set (lg_stacks g). at_rest (lg_rules g) st" using assms(3) by (simp add: stacks_ok_def)
  obtain n1 where n1: "\<forall>n \<ge> n1. \<exists>cur'. llama_grammar_apply_impl n d neg vocab g cur = Some cur' \<and> length cur' = length cur"
    using apply_returns [OF ex assms(3-6)] by blast
  have "\<exists>n. \<forall>m \<ge> n. ?good i \<longrightarrow> ?ok i m" for i
    using taken_token_accepted [OF ex assms(3-5)] by blast
  then obtain n2 where n2: "\<forall>m \<ge> n2. \<forall>i \<in> {..<length cur}. ?good i \<longrightarrow> ?ok i m"
    using eventually_finite [of "{..<length cur}" "\<lambda>i m. ?good i \<longrightarrow> ?ok i m"] by (metis finite_lessThan)
  show ?thesis
  proof (intro exI [of _ "max n1 n2"] allI impI)
    fix n assume n: "max n1 n2 \<le> n"
    obtain cur' where ap: "llama_grammar_apply_impl n d neg vocab g cur = Some cur'" "length cur' = length cur" using n1 n by auto
    have "?ok i n" if "i < length cur" "td_logit (cur' ! i) \<noteq> neg"
      "0 \<notin> set (butlast (fst (decode_utf8 (token_to_piece vocab (td_id (cur ! i))) (lg_partial_utf8 g))))" for i
      using n2 n that apply_unmasked [OF ap(1) assms(5) rest that(1,2)] by simp
    then show "\<exists>cur'. llama_grammar_apply_impl n d neg vocab g cur = Some cur' \<and> length cur' = length cur \<and>
      (\<forall>i < length cur. td_logit (cur' ! i) \<noteq> neg \<longrightarrow>
         0 \<notin> set (butlast (fst (decode_utf8 (token_to_piece vocab (td_id (cur ! i))) (lg_partial_utf8 g)))) \<longrightarrow> ?ok i n)"
      using ap by blast
  qed
qed

text \<open>C15: A grammar object made from source text with fewer than \<^verbatim>\<open>2^32\<close> symbols starts in a good state: its rules are
  well-formed and passed the check for left recursion, every initial stack is empty or stands at a character
  element of these rules, there is at least one, and it waits for a trigger exactly when it is lazy.\<close>

theorem init_grammar_ready:
  assumes "llama_grammar_init_impl n src root lazy patterns tokens = Some (New_Grammar g)"
    and "parse src parser_new = Inr p" and "length (symbol_ids p) < 2 ^ 32"
  shows "rules_ok (lg_rules g) \<and> has_left_recursion (lg_rules g) = Some False \<and> stacks_ok (lg_rules g) (lg_stacks g) \<and>
    lg_stacks g \<noteq> [] \<and> lg_awaiting_trigger g = lazy \<and> pu_n_remain (lg_partial_utf8 g) = 0"
proof -
  obtain r where r: "init_stacks n (gp_rules p) r = Some (Some (lg_rules g, lg_stacks g))"
    and g: "g = grammar_new (lg_rules g) (lg_stacks g) lazy tokens patterns"
    using assms(1,2) by (auto simp: llama_grammar_init_impl_def grammar_new_def split: if_splits option.splits)
  have rules: "lg_rules g = map truncate_rule (gp_rules p)" and rec: "has_left_recursion (lg_rules g) = Some False"
    and st: "initial_stacks n (lg_rules g) r = Some (lg_stacks g)"
    using r by (auto simp: init_stacks_def Let_def split: Option.bind_splits if_splits)
  have "rules_ok (lg_rules g)" unfolding rules by (rule rules_ok_truncate) (use parsed_ok [OF assms(2,3)] in simp)
  moreover have "lg_awaiting_trigger g = lazy" "pu_n_remain (lg_partial_utf8 g) = 0"
    by (subst g, simp add: grammar_new_def)+
  ultimately show ?thesis using rec initial_stacks_ok initial_stacks_nonempty st by blast
qed

text \<open>A token whose text is an overlong encoding of zero survives the mask and then makes acceptance throw: the mask
  takes its zero code point for the end of the token.\<close>

theorem overlong_zero_token_throws:
  "let g = grammar_new demo_rules [[(0, 0)], [(0, 3)]] False [] [];
       vocab = \<lparr>token_to_piece = (\<lambda>_. [0xC0, 0x80]), is_eog = (\<lambda>_. False)\<rparr> in
   llama_grammar_apply_impl 5 5 (-1 :: int) vocab g [\<lparr>td_id = 7, td_logit = 0\<rparr>] = Some [\<lparr>td_id = 7, td_logit = 0\<rparr>] \<and>
   map_option fst (llama_grammar_accept_impl 5 (\<lambda>_ _. None) vocab g 7) = Some False"
  by code_simp

text \<open>A grammar whose symbol \<^verbatim>\<open>root\<close> occurs only in an item repeated zero times is accepted by the parser without a
  rule for it, and the constructor then reads past the rules, for every bound on the depth.\<close>

theorem undefined_root_reads_past_rules:
  "map_of (symbol_ids (projr (parse ''x ::= root{0}'' parser_new))) ''root'' = Some 1 \<and>
   length (gp_rules (projr (parse ''x ::= root{0}'' parser_new))) = 1 \<and>
   llama_grammar_init_impl n ''x ::= root{0}'' ''root'' False [] [] = None"
proof -
  have p: "parse ''x ::= root{0}'' parser_new = Inr \<lparr>symbol_ids = [(''x'', 0), (''root'', 1)], gp_rules = [[elem GRE_END 0]]\<rparr>"
    by code_simp
  have rec: "has_left_recursion [[elem GRE_END 0]] = Some False" by code_simp
  have "init_stacks n [[elem GRE_END 0]] 1 = None"
    using rec by (simp add: init_stacks_def truncate_rule_def initial_stacks_def)
  then show ?thesis by (simp add: p llama_grammar_init_impl_def)
qed

text \<open>While a lazy grammar waits, tokens that trigger nothing only extend the buffer: the stacks, the partial
  sequence and the candidates stay as they are.\<close>

theorem lazy_grammar_only_buffers:
  assumes "lg_awaiting_trigger g" and "\<And>t. t \<in> set tokens \<Longrightarrow> t \<notin> set (lg_trigger_tokens g)"
    and "\<And>pat ts rest. pat \<in> set (lg_trigger_patterns g) \<Longrightarrow> tokens = ts @ rest \<Longrightarrow> ts \<noteq> [] \<Longrightarrow>
      regex_match pat (lg_trigger_buffer g @ concat (map (token_to_piece vocab) ts)) = None"
  shows "foldM (\<lambda>t g. map_option snd (llama_grammar_accept_impl n regex_match vocab g t)) tokens g =
      Some (g\<lparr>lg_trigger_buffer := lg_trigger_buffer g @ concat (map (token_to_piece vocab) tokens)\<rparr>) \<and>
    llama_grammar_apply_impl n d neg vocab g cur = Some cur"
proof -
  let ?buf = "\<lambda>ts. lg_trigger_buffer g @ concat (map (token_to_piece vocab) ts)"
  have pats: "try_patterns n regex_match (g\<lparr>lg_trigger_buffer := ?buf ts\<rparr>) ps = Some (True, g\<lparr>lg_trigger_buffer := ?buf ts\<rparr>)"
    if "set ps \<subseteq> set (lg_trigger_patterns g)" "tokens = ts @ rest" "ts \<noteq> []" for ps ts rest
    using that(1) assms(3) [OF _ that(2,3)] by (induction ps) auto
  have "foldM (\<lambda>t g. map_option snd (llama_grammar_accept_impl n regex_match vocab g t)) todo (g\<lparr>lg_trigger_buffer := ?buf ts\<rparr>) =
      Some (g\<lparr>lg_trigger_buffer := ?buf tokens\<rparr>)" if "tokens = ts @ todo" for ts todo
    using that
  proof (induction todo arbitrary: ts)
    case (Cons t todo)
    have "t \<notin> set (lg_trigger_tokens g)" using assms(2) Cons.prems by simp
    then have "llama_grammar_accept_impl n regex_match vocab (g\<lparr>lg_trigger_buffer := ?buf ts\<rparr>) t = Some (True, g\<lparr>lg_trigger_buffer := ?buf (ts @ [t])\<rparr>)"
      using assms(1) pats [of "lg_trigger_patterns g" "ts @ [t]" todo] Cons.prems by (simp add: llama_grammar_accept_impl_def Let_def)
    then show ?case using Cons.IH [of "ts @ [t]"] Cons.prems by simp
  qed simp
  from this [of "[]" tokens] show ?thesis using assms(1) by (simp add: llama_grammar_apply_impl_def)
qed

theorem unmasked_token_is_accepted_witness:
  "let g = grammar_new demo_rules [[(0, 0)], [(0, 3)]] False [] [];
       vocab = \<lparr>token_to_piece = (\<lambda>_. [97]), is_eog = (\<lambda>_. False)\<rparr>; cur = [\<lparr>td_id = 7, td_logit = 0\<rparr>] in
   llama_grammar_apply_impl 5 2 (-1 :: int) vocab g cur = Some cur \<and>
   (\<exists>N. \<forall>n \<ge> N. \<exists>cur'. llama_grammar_apply_impl n 2 (-1 :: int) vocab g cur = Some cur' \<and>
     (td_logit (cur' ! 0) \<noteq> -1 \<longrightarrow> (\<exists>g'. llama_grammar_accept_impl n (\<lambda>_ _. None) vocab g 7 = Some (True, g'))))"
proof -
  let ?g = "grammar_new demo_rules [[(0, 0)], [(0, 3)]] False [] []"
  let ?v = "\<lparr>token_to_piece = (\<lambda>_. [97]), is_eog = (\<lambda>_. False)\<rparr>" and ?cur = "[\<lparr>td_id = 7, td_logit = 0 :: int\<rparr>]"
  have len: "length (fst (decode_utf8 [97] \<lparr>pu_value = 0, pu_n_remain = 0\<rparr>)) \<le> 2" by code_simp
  have nz: "0 \<notin> set (butlast (fst (decode_utf8 [97] \<lparr>pu_value = 0, pu_n_remain = 0\<rparr>)))" by code_simp
  have g: "lg_rules ?g = demo_rules" "lg_stacks ?g = [[(0, 0)], [(0, 3)]]" "lg_partial_utf8 ?g = \<lparr>pu_value = 0, pu_n_remain = 0\<rparr>" "\<not> lg_awaiting_trigger ?g"
    by (simp_all add: grammar_new_def)
  have "\<exists>N. \<forall>n \<ge> N. \<exists>cur'. llama_grammar_apply_impl n 2 (-1 :: int) ?v ?g ?cur = Some cur' \<and> length cur' = length ?cur \<and>
    (\<forall>i < length ?cur. td_logit (cur' ! i) \<noteq> -1 \<longrightarrow>
       0 \<notin> set (butlast (fst (decode_utf8 (token_to_piece ?v (td_id (?cur ! i))) (lg_partial_utf8 ?g)))) \<longrightarrow>
       (\<exists>g'. llama_grammar_accept_impl n (\<lambda>_ _. None) ?v ?g (td_id (?cur ! i)) = Some (True, g') \<and>
         lg_rules g' = lg_rules ?g \<and> stacks_ok (lg_rules ?g) (lg_stacks g') \<and> lg_stacks g' \<noteq> [] \<and> \<not> lg_awaiting_trigger g'))"
    by (rule unmasked_token_is_accepted) (use g demo_ok len in auto)
  then have "\<exists>N. \<forall>n \<ge> N. \<exists>cur'. llama_grammar_apply_impl n 2 (-1 :: int) ?v ?g ?cur = Some cur' \<and>
     (td_logit (cur' ! 0) \<noteq> -1 \<longrightarrow> (\<exists>g'. llama_grammar_accept_impl n (\<lambda>_ _. None) ?v ?g 7 = Some (True, g')))"
    using nz g(3) by fastforce
  moreover have "llama_grammar_apply_impl 5 2 (-1 :: int) ?v ?g ?cur = Some ?cur" by code_simp
  ultimately show ?thesis unfolding Let_def by blast
qed

theorem init_grammar_ready_witness:
  "\<exists>g. llama_grammar_init_impl 5 ''root ::= [b-d]+'' ''root'' True [] [] = Some (New_Grammar g) \<and> rules_ok (lg_rules g) \<and> lg_awaiting_trigger g"
proof -
  have p: "parse ''root ::= [b-d]+'' parser_new = Inr \<lparr>symbol_ids = [(''root'', 0), (''root_1'', 1)],
     gp_rules = [[elem GRE_CHAR 98, elem GRE_CHAR_RNG_UPPER 100, elem GRE_RULE_REF 1, elem GRE_END 0],
       [elem GRE_CHAR 98, elem GRE_CHAR_RNG_UPPER 100, elem GRE_RULE_REF 1, elem GRE_ALT 0, elem GRE_END 0]]\<rparr>" by code_simp
  have "\<exists>g. llama_grammar_init_impl 5 ''root ::= [b-d]+'' ''root'' True [] [] = Some (New_Grammar g)"
  proof -
    have "(case llama_grammar_init_impl 5 ''root ::= [b-d]+'' ''root'' True [] [] of Some (New_Grammar _) \<Rightarrow> True | _ \<Rightarrow> False)" by code_simp
    then show ?thesis by (auto split: option.splits init_result.splits)
  qed
  then obtain g where g: "llama_grammar_init_impl 5 ''root ::= [b-d]+'' ''root'' True [] [] = Some (New_Grammar g)" by blast
  then show ?thesis using init_grammar_ready [OF g p] by auto
qed

theorem lazy_grammar_only_buffers_witness:
  "let g = grammar_new demo_rules [[(0, 0)], [(0, 3)]] True [9] []; vocab = \<lparr>token_to_piece = (\<lambda>_. [97]), is_eog = (\<lambda>_. False)\<rparr> in
   foldM (\<lambda>t g. map_option snd (llama_grammar_accept_impl 5 (\<lambda>_ _. None) vocab g t)) [7, 8] g = Some (g\<lparr>lg_trigger_buffer := [97, 97]\<rparr>)"
proof -
  let ?g = "grammar_new demo_rules [[(0, 0)], [(0, 3)]] True [9] []" and ?v = "\<lparr>token_to_piece = (\<lambda>_. [97]), is_eog = (\<lambda>_. False)\<rparr>"
  have "foldM (\<lambda>t g. map_option snd (llama_grammar_accept_impl 5 (\<lambda>_ _. None) ?v g t)) [7, 8] ?g =
      Some (?g\<lparr>lg_trigger_buffer := lg_trigger_buffer ?g @ concat (map (token_to_piece ?v) [7, 8])\<rparr>) \<and>
    llama_grammar_apply_impl 5 5 (0 :: int) ?v ?g [] = Some []"
    by (rule lazy_grammar_only_buffers) (auto simp: grammar_new_def)
  then show ?thesis by (simp add: grammar_new_def Let_def del: foldM.simps)
qed

end
