(* ===== verification/BpeBytes.thy ===== *)
theory BpeBytes
  imports Utf8
begin

text \<open>
  The byte alphabet of the BPE tokenizers: the two tables of \<^verbatim>\<open>src/unicode.cpp\<close> that spell every byte as a printable
  character, the encoding of words with it, and \<^verbatim>\<open>llama_decode_text\<close> of \<^verbatim>\<open>src/llama-vocab.cpp\<close>, which turns
  the text of a token back into bytes. Bytes as keys of a table are numbers below 256.
\<close>

section \<open>The tables\<close>

fun fold_sum :: "('a \<Rightarrow> 's \<Rightarrow> 'e + 's) \<Rightarrow> 'a list \<Rightarrow> 's \<Rightarrow> 'e + 's" where
  "fold_sum f [] s = Inr s"
| "fold_sum f (x # xs) s = (case f x s of Inl e \<Rightarrow> Inl e | Inr s' \<Rightarrow> fold_sum f xs s')"

definition direct_bytes :: "nat list" where
  "direct_bytes = [0x21..<0x7F] @ [0xA1..<0xAD] @ [0xAE..<0x100]"

definition put_byte :: "nat \<Rightarrow> (nat \<rightharpoonup> u8 list) \<Rightarrow> string + (nat \<rightharpoonup> u8 list)" where
  "put_byte ch m = map_sum id (\<lambda>s. m(ch \<mapsto> s)) (unicode_cpt_to_utf8 (of_nat ch))"

definition fill_byte :: "nat \<Rightarrow> (nat \<rightharpoonup> u8 list) \<times> nat \<Rightarrow> string + (nat \<rightharpoonup> u8 list) \<times> nat" where
  "fill_byte ch = (\<lambda>(m, n).
     if m ch = None then map_sum id (\<lambda>s. (m(ch \<mapsto> s), n + 1)) (unicode_cpt_to_utf8 (of_nat (256 + n))) else Inr (m, n))"

definition unicode_byte_to_utf8_map :: "string + (nat \<rightharpoonup> u8 list)" where
  "unicode_byte_to_utf8_map =
     (case fold_sum put_byte direct_bytes Map.empty of
        Inl e \<Rightarrow> Inl e
      | Inr m \<Rightarrow> map_sum id fst (fold_sum fill_byte [0..<256] (m, 0)))"

definition put_utf8 :: "nat \<Rightarrow> (u8 list \<rightharpoonup> nat) \<Rightarrow> string + (u8 list \<rightharpoonup> nat)" where
  "put_utf8 ch m = map_sum id (\<lambda>s. m(s \<mapsto> ch)) (unicode_cpt_to_utf8 (of_nat ch))"

definition fill_utf8 :: "nat \<Rightarrow> (u8 list \<rightharpoonup> nat) \<times> nat \<Rightarrow> string + (u8 list \<rightharpoonup> nat) \<times> nat" where
  "fill_utf8 ch = (\<lambda>(m, n).
     case unicode_cpt_to_utf8 (of_nat ch) of
       Inl e \<Rightarrow> Inl e
     | Inr s \<Rightarrow>
         if m s = None then map_sum id (\<lambda>s. (m(s \<mapsto> ch), n + 1)) (unicode_cpt_to_utf8 (of_nat (256 + n))) else Inr (m, n))"

definition unicode_utf8_to_byte_map :: "string + (u8 list \<rightharpoonup> nat)" where
  "unicode_utf8_to_byte_map =
     (case fold_sum put_utf8 direct_bytes Map.empty of
        Inl e \<Rightarrow> Inl e
      | Inr m \<Rightarrow> map_sum id fst (fold_sum fill_utf8 [0..<256] (m, 0)))"

text \<open>\<^verbatim>\<open>map.at\<close> throws \<^verbatim>\<open>std::out_of_range\<close>: \<open>Inr None\<close>.\<close>

definition unicode_byte_to_utf8 :: "u8 \<Rightarrow> string + u8 list option" where
  "unicode_byte_to_utf8 byte = map_sum id (\<lambda>m. m (unat byte)) unicode_byte_to_utf8_map"

definition unicode_utf8_to_byte :: "u8 list \<Rightarrow> string + u8 option" where
  "unicode_utf8_to_byte utf8 = map_sum id (\<lambda>m. map_option of_nat (m utf8)) unicode_utf8_to_byte_map"

section \<open>Words and tokens\<close>

fun encode_bytes :: "u8 list \<Rightarrow> string + u8 list" where
  "encode_bytes [] = Inr []"
| "encode_bytes (b # bs) =
     (case unicode_byte_to_utf8 b of
        Inl e \<Rightarrow> Inl e
      | Inr None \<Rightarrow> Inl ''map::at''
      | Inr (Some s) \<Rightarrow> map_sum id (append s) (encode_bytes bs))"

fun unicode_byte_encoding_process :: "u8 list list \<Rightarrow> string + u8 list list" where
  "unicode_byte_encoding_process [] = Inr []"
| "unicode_byte_encoding_process (word # words) =
     (case unicode_cpts_to_utf8 (unicode_cpts_from_utf8 word) of
        Inl e \<Rightarrow> Inl e
      | Inr text_utf \<Rightarrow>
          (case encode_bytes text_utf of
             Inl e \<Rightarrow> Inl e
           | Inr encoded_token \<Rightarrow> map_sum id ((#) encoded_token) (unicode_byte_encoding_process words)))"

definition hex2 :: "u8 \<Rightarrow> u8 list" where
  "hex2 b = map (\<lambda>d. if d < 10 then 48 + d else 87 + d) [drop_bit 4 b, b AND 15]"

fun decode_cpts :: "u8 list \<Rightarrow> u32 list \<Rightarrow> string + u8 list" where
  "decode_cpts text [] = Inr []"
| "decode_cpts text (cpt # cpts) =
     (case unicode_cpt_to_utf8 cpt of
        Inl e \<Rightarrow> Inl e
      | Inr utf8 \<Rightarrow>
          (case unicode_utf8_to_byte utf8 of
             Inl e \<Rightarrow> Inl e
           | Inr (Some b) \<Rightarrow> map_sum id ((#) b) (decode_cpts text cpts)
           | Inr None \<Rightarrow>
               map_sum id (append (map of_char ''[UNK_BYTE_0x'' @ concat (map hex2 utf8) @ text @ map of_char '']''))
                 (decode_cpts text cpts)))"

definition llama_decode_text :: "u8 list \<Rightarrow> string + u8 list" where
  "llama_decode_text text = decode_cpts text (unicode_cpts_from_utf8 text)"

section \<open>The tables are inverse to each other\<close>

text \<open>The code point that spells a byte: itself, or the next one from 256 on.\<close>

definition indirect_below :: "nat \<Rightarrow> nat set" where
  "indirect_below k = {x. x < k \<and> x \<notin> set direct_bytes}"

definition byte_cpt :: "nat \<Rightarrow> nat" where
  "byte_cpt ch = (if ch \<in> set direct_bytes then ch else 256 + card (indirect_below ch))"

definition enc :: "nat \<Rightarrow> u8 list" where
  "enc c = projr (unicode_cpt_to_utf8 (of_nat c))"

lemma unat_small: "c < 0x10000 \<Longrightarrow> unat (of_nat c :: u32) = c"
  by (simp add: unat_of_nat take_bit_nat_eq_self)

lemma enc: "c < 0x10000 \<Longrightarrow> unicode_cpt_to_utf8 (of_nat c) = Inr (enc c)"
  unfolding enc_def by (auto simp: unicode_cpt_to_utf8_def word_le_nat_alt unat_small)

lemma enc_inj: "c < 0x10000 \<Longrightarrow> c' < 0x10000 \<Longrightarrow> enc c = enc c' \<Longrightarrow> c = c'"
proof -
  assume c: "c < 0x10000" "c' < 0x10000" "enc c = enc c'"
  have "of_nat c = (of_nat c' :: u32)"
    using cpt_from_encode [OF enc [OF c(1)], of "[]" "[]"] cpt_from_encode [OF enc [OF c(2)], of "[]" "[]"] c(3) by simp
  then show ?thesis using unat_small c(1,2) by metis
qed

lemma finite_indirect [simp]: "finite (indirect_below k)"
  by (simp add: indirect_below_def)

lemma card_indirect_Suc: "card (indirect_below (Suc k)) = (if k \<in> set direct_bytes then card (indirect_below k) else Suc (card (indirect_below k)))"
proof -
  have "indirect_below (Suc k) = (if k \<in> set direct_bytes then indirect_below k else insert k (indirect_below k))"
    by (auto simp: indirect_below_def less_Suc_eq)
  then show ?thesis by (simp add: indirect_below_def)
qed

lemma card_indirect_le: "card (indirect_below k) \<le> k"
  by (induction k) (simp_all add: card_indirect_Suc, simp add: indirect_below_def)

lemma card_indirect_mono: "j < k \<Longrightarrow> j \<notin> set direct_bytes \<Longrightarrow> card (indirect_below j) < card (indirect_below k)"
  by (rule psubset_card_mono) (auto simp: indirect_below_def)

lemma direct_less: "ch \<in> set direct_bytes \<Longrightarrow> ch < 256"
  by (auto simp: direct_bytes_def)

lemma byte_cpt_less: "ch < 256 \<Longrightarrow> byte_cpt ch < 0x10000"
  using card_indirect_le [of ch] by (auto simp: byte_cpt_def)

lemma byte_cpt_inj: "ch < 256 \<Longrightarrow> ch' < 256 \<Longrightarrow> byte_cpt ch = byte_cpt ch' \<Longrightarrow> ch = ch'"
  using card_indirect_mono [of ch ch'] card_indirect_mono [of ch' ch]
  by (auto simp: byte_cpt_def split: if_splits dest: direct_less intro: linorder_cases [of ch ch'])

lemma enc_byte_inj: "ch < 256 \<Longrightarrow> ch' < 256 \<Longrightarrow> enc (byte_cpt ch) = enc (byte_cpt ch') \<Longrightarrow> ch = ch'"
  using enc_inj byte_cpt_less byte_cpt_inj by blast

lemma put_bytes:
  "\<forall>x \<in> set xs. x < 256 \<Longrightarrow> fold_sum put_byte xs m = Inr (\<lambda>ch. if ch \<in> set xs then Some (enc ch) else m ch)"
proof (induction xs arbitrary: m)
  case (Cons x xs)
  then show ?case by (auto simp: put_byte_def enc fun_eq_iff)
qed simp

lemma fold_sum_append: "fold_sum f (xs @ ys) s = (case fold_sum f xs s of Inl e \<Rightarrow> Inl e | Inr s' \<Rightarrow> fold_sum f ys s')"
  by (induction xs arbitrary: s) (auto split: sum.splits)

lemma fill_bytes:
  assumes "k \<le> 256"
  shows "fold_sum fill_byte [0..<k] (\<lambda>ch. if ch \<in> set direct_bytes then Some (enc ch) else None, 0) =
    Inr (\<lambda>ch. if ch \<in> set direct_bytes \<or> ch < k then Some (enc (byte_cpt ch)) else None, card (indirect_below k))"
  using assms
proof (induction k)
  case 0
  then show ?case by (auto simp: byte_cpt_def indirect_below_def fun_eq_iff)
next
  case (Suc k)
  let ?m = "\<lambda>ch. if ch \<in> set direct_bytes \<or> ch < k then Some (enc (byte_cpt ch)) else None"
  have "256 + card (indirect_below k) < 0x10000" using card_indirect_le [of k] Suc.prems by simp
  then have "fill_byte k (?m, card (indirect_below k)) =
      Inr (if k \<in> set direct_bytes then ?m else ?m(k \<mapsto> enc (byte_cpt k)), card (indirect_below (Suc k)))"
    by (simp add: fill_byte_def enc byte_cpt_def card_indirect_Suc del: of_nat_add)
  moreover have "(if k \<in> set direct_bytes then ?m else ?m(k \<mapsto> enc (byte_cpt k))) =
      (\<lambda>ch. if ch \<in> set direct_bytes \<or> ch < Suc k then Some (enc (byte_cpt ch)) else None)"
    by (auto simp: fun_eq_iff less_Suc_eq)
  ultimately show ?case using Suc by (simp add: fold_sum_append)
qed

lemma byte_table: "\<exists>m. unicode_byte_to_utf8_map = Inr m \<and> (\<forall>ch < 256. m ch = Some (enc (byte_cpt ch)))"
  using fill_bytes [of 256] put_bytes [of direct_bytes Map.empty] direct_less by (simp add: unicode_byte_to_utf8_map_def)

definition table_ok :: "nat set \<Rightarrow> (u8 list \<rightharpoonup> nat) \<Rightarrow> bool" where
  "table_ok S m \<longleftrightarrow> (\<forall>s ch. m s = Some ch \<longleftrightarrow> ch \<in> S \<and> s = enc (byte_cpt ch))"

lemma table_ok_insert:
  assumes "table_ok S m" and "ch < 256" and "\<forall>x \<in> S. x < 256"
  shows "table_ok (insert ch S) (m(enc (byte_cpt ch) \<mapsto> ch))"
  unfolding table_ok_def
proof (intro allI)
  fix s x
  show "(m(enc (byte_cpt ch) \<mapsto> ch)) s = Some x \<longleftrightarrow> x \<in> insert ch S \<and> s = enc (byte_cpt x)"
    using assms enc_byte_inj [of ch x] by (auto simp: table_ok_def)
qed

lemma put_utf8s:
  "\<forall>x \<in> set xs. x \<in> set direct_bytes \<Longrightarrow> table_ok S m \<Longrightarrow> \<forall>x \<in> S. x < 256 \<Longrightarrow>
   \<exists>m'. fold_sum put_utf8 xs m = Inr m' \<and> table_ok (set xs \<union> S) m'"
proof (induction xs arbitrary: m S)
  case (Cons x xs)
  then have x: "x < 256" "byte_cpt x = x" using direct_less by (auto simp: byte_cpt_def)
  define m1 where "m1 = m(enc (byte_cpt x) \<mapsto> x)"
  have m1: "table_ok (insert x S) m1" unfolding m1_def by (rule table_ok_insert [OF Cons.prems(2) x(1) Cons.prems(3)])
  have "put_utf8 x m = Inr m1" using x by (simp add: put_utf8_def enc m1_def)
  then show ?case using Cons.IH [OF _ m1] Cons.prems x(1) by simp
qed simp

lemma fill_utf8s:
  assumes "k \<le> 256" and "table_ok (set direct_bytes) m0"
  shows "\<exists>m. fold_sum fill_utf8 [0..<k] (m0, 0) = Inr (m, card (indirect_below k)) \<and> table_ok ({..<k} \<union> set direct_bytes) m"
  using assms(1)
proof (induction k)
  case 0
  then show ?case using assms(2) by (simp add: indirect_below_def)
next
  case (Suc k)
  then obtain m where m: "fold_sum fill_utf8 [0..<k] (m0, 0) = Inr (m, card (indirect_below k))" "table_ok ({..<k} \<union> set direct_bytes) m" by auto
  have k: "k < 256" using Suc.prems by simp
  have all: "\<forall>x \<in> {..<k} \<union> set direct_bytes. x < 256" using k direct_less by auto
  show ?case
  proof (cases "k \<in> set direct_bytes")
    case True
    then have "m (enc k) = Some k" using m(2) by (auto simp: table_ok_def byte_cpt_def)
    then have "fill_utf8 k (m, card (indirect_below k)) = Inr (m, card (indirect_below k))" using k by (simp add: fill_utf8_def enc)
    moreover have "{..<Suc k} \<union> set direct_bytes = {..<k} \<union> set direct_bytes" using True by (auto simp: less_Suc_eq)
    ultimately show ?thesis using m True by (simp add: fold_sum_append card_indirect_Suc)
  next
    case False
    have none: "m (enc k) = None"
    proof (rule ccontr)
      assume "m (enc k) \<noteq> None"
      then obtain ch where ch: "m (enc k) = Some ch" by auto
      then have "ch < 256" "enc k = enc (byte_cpt ch)" using m(2) all by (auto simp: table_ok_def)
      then have "k = byte_cpt ch" using enc_inj [of k "byte_cpt ch"] byte_cpt_less k by simp
      then show False using False k by (auto simp: byte_cpt_def split: if_splits)
    qed
    have c: "256 + card (indirect_below k) = byte_cpt k" "byte_cpt k < 0x10000" using False byte_cpt_less [OF k] by (simp_all add: byte_cpt_def)
    have "fill_utf8 k (m, card (indirect_below k)) = Inr (m(enc (byte_cpt k) \<mapsto> k), Suc (card (indirect_below k)))"
      using none k c by (simp add: fill_utf8_def enc c(1) del: of_nat_add)
    moreover have "insert k ({..<k} \<union> set direct_bytes) = {..<Suc k} \<union> set direct_bytes" by auto
    ultimately show ?thesis using m table_ok_insert [OF m(2) k all] False by (simp add: fold_sum_append card_indirect_Suc)
  qed
qed

lemma utf8_table: "\<exists>m. unicode_utf8_to_byte_map = Inr m \<and> (\<forall>ch < 256. m (enc (byte_cpt ch)) = Some ch)"
proof -
  obtain m1 where m1: "fold_sum put_utf8 direct_bytes Map.empty = Inr m1" "table_ok (set direct_bytes) m1"
    using put_utf8s [of direct_bytes "{}" Map.empty] by (auto simp: table_ok_def)
  then show ?thesis using fill_utf8s [of 256 m1] by (auto simp: unicode_utf8_to_byte_map_def table_ok_def)
qed

section \<open>Round trip\<close>

lemma byte_encode: "unicode_byte_to_utf8 b = Inr (Some (enc (byte_cpt (unat b))))"
proof -
  have b: "unat b < 2 ^ LENGTH(8)" by (rule unsigned_less)
  obtain m where m: "unicode_byte_to_utf8_map = Inr m" "\<forall>ch < 256. m ch = Some (enc (byte_cpt ch))" using byte_table by blast
  show ?thesis unfolding unicode_byte_to_utf8_def m(1) using b m(2) by simp
qed

lemma byte_decode: "unicode_utf8_to_byte (enc (byte_cpt (unat b))) = Inr (Some b)"
proof -
  have b: "unat b < 2 ^ LENGTH(8)" by (rule unsigned_less)
  obtain m where m: "unicode_utf8_to_byte_map = Inr m" "\<forall>ch < 256. m (enc (byte_cpt ch)) = Some ch" using utf8_table by blast
  show ?thesis unfolding unicode_utf8_to_byte_def m(1) using b m(2) by simp
qed

lemma byte_cpt_u8: "byte_cpt (unat (b :: u8)) < 0x10000"
proof -
  have "unat b < 2 ^ LENGTH(8)" by (rule unsigned_less)
  then show ?thesis by (intro byte_cpt_less) simp
qed

lemma encode_bytes_cpts: "\<exists>tok. encode_bytes bs = Inr tok \<and> unicode_cpts_to_utf8 (map (\<lambda>b. of_nat (byte_cpt (unat b))) bs) = Inr tok"
  by (induction bs) (auto simp: byte_encode enc [OF byte_cpt_u8])

lemma decode_cpts_bytes: "decode_cpts text (map (\<lambda>b. of_nat (byte_cpt (unat b))) bs) = Inr bs"
  by (induction bs) (auto simp: byte_decode enc [OF byte_cpt_u8])

lemma bpe_roundtrip:
  assumes "unicode_cpts_to_utf8 cs = Inr word"
  shows "\<exists>tok. unicode_byte_encoding_process [word] = Inr [tok] \<and> llama_decode_text tok = Inr word"
proof -
  have cs: "unicode_cpts_from_utf8 word = cs" using cpts_from_encode [OF assms, of "[]"] by (simp add: unicode_cpts_from_utf8_def)
  obtain tok where tok: "encode_bytes word = Inr tok" "unicode_cpts_to_utf8 (map (\<lambda>b. of_nat (byte_cpt (unat b))) word) = Inr tok"
    using encode_bytes_cpts by blast
  have "unicode_cpts_from_utf8 tok = map (\<lambda>b. of_nat (byte_cpt (unat b))) word"
    using cpts_from_encode [OF tok(2), of "[]"] by (simp add: unicode_cpts_from_utf8_def)
  then have "llama_decode_text tok = Inr word" by (simp add: llama_decode_text_def decode_cpts_bytes)
  then show ?thesis using tok(1) cs assms by simp
qed

section \<open>Properties\<close>

text \<open>Spelling a valid UTF-8 word in the byte alphabet of the BPE tokenizers and decoding the token text gives the
  word back, byte for byte; the two tables are inverse to each other on all 256 bytes.\<close>

theorem bpe_byte_alphabet_roundtrip:
  assumes "unicode_cpts_to_utf8 cs = Inr word"
  shows "(\<exists>tok. unicode_byte_encoding_process [word] = Inr [tok] \<and> llama_decode_text tok = Inr word) \<and>
    (\<exists>s. unicode_byte_to_utf8 b = Inr (Some s) \<and> unicode_utf8_to_byte s = Inr (Some b))"
  using bpe_roundtrip [OF assms] byte_encode byte_decode by blast

text \<open>The lossy decoder accepts four-byte sequences above \<^verbatim>\<open>U+10FFFF\<close>, which the encoder then refuses: the exception
  leaves the function although the decoder promises to ignore invalid input.\<close>

lemma byte_encoding_throws_on_large_code_point:
  "unicode_byte_encoding_process [[0xF4, 0x90, 0x80, 0x80]] = Inl ''invalid codepoint''"
proof -
  have "unicode_cpts_from_utf8 [0xF4, 0x90, 0x80, 0x80] = [0x110000]" by code_simp
  moreover have "unicode_cpt_to_utf8 0x110000 = Inl ''invalid codepoint''" by code_simp
  ultimately show ?thesis by simp
qed

theorem bpe_byte_alphabet_roundtrip_witness:
  "\<exists>tok. unicode_byte_encoding_process [[0x20, 0xE2, 0x82, 0xAC]] = Inr [tok] \<and> llama_decode_text tok = Inr [0x20, 0xE2, 0x82, 0xAC]"
proof -
  have "unicode_cpts_to_utf8 [0x20, 0x20AC] = Inr [0x20, 0xE2, 0x82, 0xAC]" by code_simp
  from bpe_byte_alphabet_roundtrip [OF this] show ?thesis by blast
qed

end
