(* ===== verification/CText.thy ===== *)
theory CText
  imports Prelude "HOL-Library.Sublist"
begin

text \<open>
  The parts of the C and C++ standard libraries that the text-handling sources use: character
  classes and case mapping of the C locale, \<^verbatim>\<open>std::string::find\<close> and \<^verbatim>\<open>compare\<close>, and the printing
  of integers in a base with a width and a fill. A \<^verbatim>\<open>std::string\<close> is a \<open>string\<close>: one \<open>char\<close> per
  byte, all 256 values.
\<close>

section \<open>Characters\<close>

abbreviation byte :: "char \<Rightarrow> nat" where
  "byte c \<equiv> of_char c"

definition c_isspace :: "char \<Rightarrow> bool" where
  "c_isspace c \<longleftrightarrow> byte c = 32 \<or> 9 \<le> byte c \<and> byte c \<le> 13"

definition c_isupper :: "char \<Rightarrow> bool" where
  "c_isupper c \<longleftrightarrow> 65 \<le> byte c \<and> byte c \<le> 90"

definition c_islower :: "char \<Rightarrow> bool" where
  "c_islower c \<longleftrightarrow> 97 \<le> byte c \<and> byte c \<le> 122"

definition c_isalnum :: "char \<Rightarrow> bool" where
  "c_isalnum c \<longleftrightarrow> 48 \<le> byte c \<and> byte c \<le> 57 \<or> c_isupper c \<or> c_islower c"

definition c_tolower :: "char \<Rightarrow> char" where
  "c_tolower c = (if c_isupper c then char_of (byte c + 32) else c)"

definition c_toupper :: "char \<Rightarrow> char" where
  "c_toupper c = (if c_islower c then char_of (byte c - 32) else c)"

lemma byte_char_of: "n < 256 \<Longrightarrow> byte (char_of n) = n"
  by simp

lemma byte_tolower: "byte (c_tolower c) = (if c_isupper c then byte c + 32 else byte c)"
  by (simp add: c_tolower_def c_isupper_def)

lemma byte_toupper: "byte (c_toupper c) = (if c_islower c then byte c - 32 else byte c)"
  by (auto simp: c_toupper_def c_islower_def)

lemma byte_eqD: "byte c = byte d \<Longrightarrow> c = d"
  by (simp only: of_char_eq_iff)

lemma tolower_not_upper [simp]: "\<not> c_isupper (c_tolower c)"
  by (auto simp: c_isupper_def byte_tolower)

lemma tolower_id: "\<not> c_isupper c \<Longrightarrow> c_tolower c = c"
  by (simp add: c_tolower_def)

lemma tolower_ascii: "byte (c_tolower c) < 128 \<longleftrightarrow> byte c < 128"
  by (simp add: byte_tolower c_isupper_def)

lemma toupper_ascii: "byte (c_toupper c) < 128 \<longleftrightarrow> byte c < 128"
  by (auto simp: byte_toupper c_islower_def)

lemma tolower_toupper: "c_tolower (c_toupper c) = c_tolower c"
  by (rule byte_eqD) (auto simp: byte_tolower byte_toupper c_isupper_def c_islower_def)

lemma toupper_high: "\<not> byte c < 128 \<Longrightarrow> c_toupper c = c"
  by (simp add: c_toupper_def c_islower_def)

lemma alnum_ascii: "c_isalnum c \<Longrightarrow> byte c < 128"
  by (auto simp: c_isalnum_def c_isupper_def c_islower_def)

section \<open>Strings\<close>

text \<open>\<^verbatim>\<open>s.compare(i, p.size(), p) == 0\<close>, which \<^verbatim>\<open>find\<close> tests at every position.\<close>

definition str_at :: "'a list \<Rightarrow> nat \<Rightarrow> 'a list \<Rightarrow> bool" where
  "str_at s i p \<longleftrightarrow> take (length p) (drop i s) = p"

text \<open>\<^verbatim>\<open>s.find(p)\<close>; \<open>None\<close> is \<^verbatim>\<open>npos\<close>.\<close>

definition str_find :: "'a list \<Rightarrow> 'a list \<Rightarrow> nat option" where
  "str_find s p = List.find (\<lambda>i. str_at s i p) [0..<Suc (length s)]"

lemma str_at_iff: "str_at s i p \<longleftrightarrow> (\<exists>post. drop i s = p @ post)"
  unfolding str_at_def by (metis append_eq_conv_conj append_take_drop_id)

lemma str_find_sublist: "str_find s p \<noteq> None \<longleftrightarrow> sublist p s"
proof -
  have "str_find s p \<noteq> None \<longleftrightarrow> (\<exists>i \<le> length s. str_at s i p)"
    by (auto simp: str_find_def find_None_iff less_Suc_eq_le simp del: upt_Suc)
  also have "\<dots> \<longleftrightarrow> (\<exists>pre post. s = pre @ p @ post)"
  proof
    assume "\<exists>i \<le> length s. str_at s i p"
    then obtain i post where "drop i s = p @ post" by (auto simp: str_at_iff)
    then have "s = take i s @ p @ post" using append_take_drop_id [of i s] by simp
    then show "\<exists>pre post. s = pre @ p @ post" by blast
  next
    assume "\<exists>pre post. s = pre @ p @ post"
    then obtain pre post where s: "s = pre @ p @ post" by blast
    then have "str_at s (length pre) p" by (simp add: str_at_def)
    moreover have "length pre \<le> length s" using s by simp
    ultimately show "\<exists>i \<le> length s. str_at s i p" by blast
  qed
  finally show ?thesis by (auto simp: sublist_def)
qed

section \<open>Lines\<close>

text \<open>The lines \<^verbatim>\<open>std::getline\<close> delivers: a line ends at a newline or at the end of the file, and
  nothing follows a final newline.\<close>

function getlines :: "string \<Rightarrow> string list" where
  "getlines s = (if s = [] then [] else
     takeWhile (\<lambda>c. c \<noteq> CHR 0x0A) s # getlines (drop 1 (dropWhile (\<lambda>c. c \<noteq> CHR 0x0A) s)))"
  by auto

lemma drop_line_shorter: "s \<noteq> [] \<Longrightarrow> length (drop 1 (dropWhile P s)) < length s"
proof -
  assume "s \<noteq> []"
  then have "0 < length s" by simp
  with length_dropWhile_le [of P s] show ?thesis by (simp only: length_drop)
qed

termination getlines
  by (relation "measure length") (simp_all only: in_measure drop_line_shorter wf_measure not_False_eq_True)

declare getlines.simps [simp del]

lemma getlines_Nil [simp]: "getlines [] = []"
  by (simp add: getlines.simps)

lemma getlines_line:
  assumes "CHR 0x0A \<notin> set l"
  shows "getlines (l @ CHR 0x0A # rest) = l # getlines rest"
proof -
  have "\<forall>c \<in> set l. c \<noteq> CHR 0x0A" using assms by metis
  then show ?thesis by (simp add: getlines.simps [of "l @ CHR 0x0A # rest"] takeWhile_append2 dropWhile_append2)
qed

section \<open>Printing integers\<close>

definition hex_digit :: "nat \<Rightarrow> char" where
  "hex_digit d = (if d < 10 then char_of (48 + d) else char_of (87 + d))"

text \<open>The digits of \<open>n\<close> in a base from 2 to 16, as \<^verbatim>\<open>std::to_string\<close> and \<^verbatim>\<open>std::hex\<close> print them.\<close>

fun digits_in :: "nat \<Rightarrow> nat \<Rightarrow> string" where
  "digits_in base n =
     (if base < 2 \<or> n < base then [hex_digit n] else digits_in base (n div base) @ [hex_digit (n mod base)])"

declare digits_in.simps [simp del]

text \<open>\<^verbatim>\<open>std::to_string\<close> of a signed integer, and a number printed with \<^verbatim>\<open>setfill('0')\<close> and \<^verbatim>\<open>setw(w)\<close>.\<close>

definition to_string_int :: "int \<Rightarrow> string" where
  "to_string_int i = (if i < 0 then CHR ''-'' # digits_in 10 (nat (- i)) else digits_in 10 (nat i))"

definition pad0 :: "nat \<Rightarrow> string \<Rightarrow> string" where
  "pad0 w s = replicate (w - length s) (CHR ''0'') @ s"

definition digit_val :: "char \<Rightarrow> nat" where
  "digit_val c = (if byte c < 58 then byte c - 48 else byte c - 87)"

definition read_digits :: "nat \<Rightarrow> string \<Rightarrow> nat" where
  "read_digits base s = fold (\<lambda>c a. a * base + digit_val c) s 0"

lemma digit_val_hex_digit: "d < 16 \<Longrightarrow> digit_val (hex_digit d) = d"
  by (simp add: digit_val_def hex_digit_def)

lemma digit_bound: "2 \<le> base \<Longrightarrow> base \<le> 16 \<Longrightarrow> n mod base < (16::nat)"
  using mod_less_divisor [of base n] by linarith

lemma read_digits_snoc: "read_digits base (s @ [c]) = read_digits base s * base + digit_val c"
  by (simp add: read_digits_def)

lemma read_digits_in:
  assumes "2 \<le> base" and "base \<le> 16"
  shows "read_digits base (digits_in base n) = n"
  using assms
proof (induction base n rule: digits_in.induct)
  case (1 base n)
  then show ?case
    by (cases "n < base")
       (simp_all add: digits_in.simps [of base n] read_digits_snoc digit_val_hex_digit digit_bound,
        simp add: read_digits_def digit_val_hex_digit)
qed

lemma digits_in_not_Nil [simp]: "digits_in base n \<noteq> []"
  by (simp add: digits_in.simps [of base n])

lemma length_digits_in:
  assumes "2 \<le> base"
  shows "n < base ^ Suc k \<Longrightarrow> length (digits_in base n) \<le> Suc k"
proof (induction k arbitrary: n)
  case 0
  then show ?case by (simp add: digits_in.simps [of base n])
next
  case (Suc k)
  then have "n div base < base ^ Suc k"
    using assms by (simp add: less_mult_imp_div_less mult.commute)
  with Suc.IH show ?case using assms by (simp add: digits_in.simps [of base n])
qed

lemma read_digits_zeros: "read_digits base (replicate k (CHR ''0'') @ s) = read_digits base s"
proof (induction k)
  case (Suc k)
  have "digit_val (CHR ''0'') = 0" by (simp add: digit_val_def)
  with Suc show ?case by (simp add: read_digits_def)
qed simp

lemma read_digits_pad0: "read_digits base (pad0 w s) = read_digits base s"
  by (simp add: pad0_def read_digits_zeros)

lemma length_pad0 [simp]: "length (pad0 w s) = max w (length s)"
  by (simp add: pad0_def)

lemma hex_digit_alnum: "d < 16 \<Longrightarrow> c_isalnum (hex_digit d) \<and> \<not> c_isupper (hex_digit d)"
  by (auto simp: hex_digit_def c_isalnum_def c_isupper_def c_islower_def)

lemma digits_in_alnum:
  assumes "2 \<le> base" and "base \<le> 16" and "c \<in> set (digits_in base n)"
  shows "c_isalnum c"
  using assms
proof (induction base n rule: digits_in.induct)
  case (1 base n)
  then show ?case
    by (cases "n < base") (auto simp: digits_in.simps [of base n] hex_digit_alnum digit_bound)
qed

lemma digits_in_10_digit:
  assumes "c \<in> set (digits_in 10 n)"
  shows "48 \<le> byte c \<and> byte c \<le> 57"
  using assms
proof (induction "10::nat" n rule: digits_in.induct)
  case (1 n)
  then show ?case
    by (cases "n < 10") (auto simp: digits_in.simps [of 10 n] hex_digit_def split: if_splits)
qed

text \<open>A decimal number is delimited by any character that is not a digit.\<close>

definition read_int :: "string \<Rightarrow> int" where
  "read_int s = (if s \<noteq> [] \<and> hd s = CHR ''-'' then - int (read_digits 10 (tl s)) else int (read_digits 10 s))"

lemma read_int_to_string: "read_int (to_string_int i) = i"
proof (cases "i < 0")
  case True
  then show ?thesis by (simp add: read_int_def to_string_int_def read_digits_in)
next
  case False
  have "hd (digits_in 10 (nat i)) \<noteq> CHR ''-''"
    using digits_in_10_digit [of "CHR ''-''" "nat i"] hd_in_set [OF digits_in_not_Nil, of 10 "nat i"] by force
  with False show ?thesis by (simp add: read_int_def to_string_int_def read_digits_in)
qed

end
