(* ===== verification/Vocab.thy ===== *)
theory Vocab
  imports Complex_Main BpeBytes CText
begin

text \<open>
  \<^verbatim>\<open>src/llama-vocab.{h,cpp}\<close>: the vocabulary. A token has a text, a score and attributes; a float
  score other than NaN is the real number it stands for. Texts are bytes. \<open>None\<close> is a failed
  assertion, an exception or a read outside an array.
\<close>

type_synonym bytes = "u8 list"

section \<open>State\<close>

datatype vocab_type = NONE | SPM | BPE | WPM | UGM | RWKV | PLAMO2

abbreviation ATTR_UNKNOWN :: u32 where "ATTR_UNKNOWN \<equiv> 1"
abbreviation ATTR_UNUSED :: u32 where "ATTR_UNUSED \<equiv> 2"
abbreviation ATTR_NORMAL :: u32 where "ATTR_NORMAL \<equiv> 4"
abbreviation ATTR_CONTROL :: u32 where "ATTR_CONTROL \<equiv> 8"
abbreviation ATTR_USER_DEFINED :: u32 where "ATTR_USER_DEFINED \<equiv> 16"
abbreviation ATTR_BYTE :: u32 where "ATTR_BYTE \<equiv> 32"
abbreviation ATTR_LSTRIP :: u32 where "ATTR_LSTRIP \<equiv> 128"
abbreviation ATTR_RSTRIP :: u32 where "ATTR_RSTRIP \<equiv> 256"

record token_data =
  td_text :: bytes
  td_score :: real
  td_attr :: u32

record vocab =
  v_type :: vocab_type
  max_token_len :: int
  special_bos_id :: int
  special_eos_id :: int
  special_unk_id :: int
  special_sep_id :: int
  add_space_prefix :: bool
  add_bos :: bool
  add_eos :: bool
  add_sep :: bool
  ignore_merges :: bool
  clean_spaces :: bool
  remove_extra_whitespaces :: bool
  escape_whitespaces :: bool
  treat_whitespace_as_suffix :: bool
  token_to_id :: "bytes \<Rightarrow> int option"
  id_to_token :: "token_data list"
  cache_special_tokens :: "int list"
  cache_token_to_piece :: "bytes list"
  bpe_ranks :: "bytes \<times> bytes \<Rightarrow> int option"

text \<open>The members as they are initialised.\<close>

definition vocab0 :: vocab where
  "vocab0 = \<lparr>v_type = SPM, max_token_len = 0, special_bos_id = 1, special_eos_id = 2, special_unk_id = 0,
     special_sep_id = -1, add_space_prefix = False, add_bos = False, add_eos = False, add_sep = False,
     ignore_merges = False, clean_spaces = False, remove_extra_whitespaces = False, escape_whitespaces = True,
     treat_whitespace_as_suffix = False, token_to_id = Map.empty, id_to_token = [], cache_special_tokens = [],
     cache_token_to_piece = [], bpe_ranks = Map.empty\<rparr>"

section \<open>Lookups\<close>

text \<open>\<^verbatim>\<open>id_to_token.at(id)\<close>.\<close>

definition get_token_data :: "vocab \<Rightarrow> int \<Rightarrow> token_data option" where
  "get_token_data V i = (if v_type V = NONE then None
     else if 0 \<le> i \<and> i < int (length (id_to_token V)) then Some (id_to_token V ! nat i) else None)"

definition n_tokens :: "vocab \<Rightarrow> nat" where
  "n_tokens V = length (id_to_token V)"

text \<open>The callers run on vocabularies of a type other than \<^verbatim>\<open>NONE\<close>, as the assertion demands.\<close>

definition text_to_token :: "vocab \<Rightarrow> bytes \<Rightarrow> int" where
  "text_to_token V s = (case token_to_id V s of Some t \<Rightarrow> t | None \<Rightarrow> -1)"

definition token_get_attr :: "vocab \<Rightarrow> int \<Rightarrow> u32 option" where
  "token_get_attr V i = map_option td_attr (get_token_data V i)"

definition find_bpe_rank :: "vocab \<Rightarrow> bytes \<Rightarrow> bytes \<Rightarrow> int option" where
  "find_bpe_rank V token_left token_right =
     (if 32 \<in> set token_left \<or> 10 \<in> set token_left \<or> 32 \<in> set token_right \<or> 10 \<in> set token_right then None
      else Some (case bpe_ranks V (token_left, token_right) of Some rank \<Rightarrow> rank | None \<Rightarrow> -1))"

text \<open>The tests of one attribute; \<^verbatim>\<open>id_to_token[id]\<close> is not checked in the source, so the model has no value
  outside the table.\<close>

definition has_attr :: "vocab \<Rightarrow> u32 \<Rightarrow> int \<Rightarrow> bool option" where
  "has_attr V flag i = map_option (\<lambda>a. a AND flag \<noteq> 0) (token_get_attr V i)"

section \<open>Bytes as tokens\<close>

definition ascii :: "string \<Rightarrow> bytes" where
  "ascii s = map of_char s"

definition hex_upper :: "u8 \<Rightarrow> u8" where
  "hex_upper d = ascii ''0123456789ABCDEF'' ! unat d"

definition byte_text :: "u8 \<Rightarrow> bytes" where
  "byte_text ch = ascii ''<0x'' @ [hex_upper (drop_bit 4 ch), hex_upper (ch AND 15)] @ ascii ''>''"

text \<open>A NUL ends the C string of the second attempt.\<close>

definition byte_to_token :: "vocab \<Rightarrow> u8 \<Rightarrow> int option" where
  "byte_to_token V ch =
     (case v_type V of
        SPM \<Rightarrow> (case token_to_id V (byte_text ch) of Some t \<Rightarrow> Some t | None \<Rightarrow> token_to_id V (if ch = 0 then [] else [ch]))
      | UGM \<Rightarrow> (case token_to_id V (byte_text ch) of Some t \<Rightarrow> Some t | None \<Rightarrow> token_to_id V (if ch = 0 then [] else [ch]))
      | WPM \<Rightarrow> (case unicode_byte_to_utf8 ch of Inr (Some s) \<Rightarrow> token_to_id V s | _ \<Rightarrow> None)
      | BPE \<Rightarrow> (case unicode_byte_to_utf8 ch of Inr (Some s) \<Rightarrow> token_to_id V s | _ \<Rightarrow> None)
      | PLAMO2 \<Rightarrow> token_to_id V (byte_text ch)
      | _ \<Rightarrow> None)"

text \<open>\<^verbatim>\<open>strtol\<close> in base 16: spaces, a sign, an optional prefix and digits. Without a digit there is no
  number; \<^verbatim>\<open>strtol\<close> then returns 0 and \<^verbatim>\<open>std::stoi\<close> throws.\<close>

definition b_isspace :: "u8 \<Rightarrow> bool" where
  "b_isspace b \<longleftrightarrow> b = 32 \<or> 9 \<le> b \<and> b \<le> 13"

definition xdigit_val :: "u8 \<Rightarrow> nat option" where
  "xdigit_val b =
     (if 48 \<le> b \<and> b \<le> 57 then Some (unat (b - 48))
      else if 97 \<le> b \<and> b \<le> 102 then Some (unat (b - 87))
      else if 65 \<le> b \<and> b \<le> 70 then Some (unat (b - 55)) else None)"

definition strtol16 :: "bytes \<Rightarrow> int option" where
  "strtol16 s =
     (let s = dropWhile b_isspace s;
          neg = (s \<noteq> [] \<and> hd s = 45);
          s = (if s \<noteq> [] \<and> (hd s = 45 \<or> hd s = 43) then tl s else s);
          s = (case s of c # x # d # r \<Rightarrow> if c = 48 \<and> (x = 120 \<or> x = 88) \<and> xdigit_val d \<noteq> None then d # r else s | _ \<Rightarrow> s);
          ds = map (the \<circ> xdigit_val) (takeWhile (\<lambda>b. xdigit_val b \<noteq> None) s);
          v = int (foldl (\<lambda>n d. 16 * n + d) 0 ds)
      in if ds = [] then None else Some (if neg then - v else v))"

definition token_to_byte :: "vocab \<Rightarrow> int \<Rightarrow> u8 option" where
  "token_to_byte V i =
     (case get_token_data V i of
        None \<Rightarrow> None
      | Some td \<Rightarrow>
          if td_attr td AND ATTR_BYTE = 0 then None
          else if v_type V = SPM \<or> v_type V = UGM then
            if length (td_text td) < 3 then None
            else Some (of_int (case strtol16 (take 2 (drop 3 (td_text td))) of Some v \<Rightarrow> v | None \<Rightarrow> 0))
          else None)"

section \<open>Byte tokens are read back\<close>

lemma hex_upper_digit:
  assumes "d < 16"
  shows "xdigit_val (hex_upper d) = Some (unat d)" and "\<not> b_isspace (hex_upper d)"
    and "hex_upper d \<noteq> 45" and "hex_upper d \<noteq> 43"
proof -
  let ?ok = "\<lambda>n. xdigit_val (hex_upper (of_nat n)) = Some n \<and> \<not> b_isspace (hex_upper (of_nat n)) \<and>
    hex_upper (of_nat n) \<noteq> 45 \<and> hex_upper (of_nat n) \<noteq> 43"
  have "list_all ?ok [0..<16]" by code_simp
  moreover have "unat d \<in> set [0..<16]" using assms by (simp add: word_less_nat_alt)
  ultimately have "?ok (unat d)" unfolding list_all_iff by (rule bspec)
  then show "xdigit_val (hex_upper d) = Some (unat d)" and "\<not> b_isspace (hex_upper d)"
    and "hex_upper d \<noteq> 45" and "hex_upper d \<noteq> 43" by simp_all
qed

lemma nibbles: "drop_bit 4 (ch :: u8) < 16" "(ch AND 15) < (16 :: u8)"
  "16 * unat (drop_bit 4 ch) + unat (ch AND 15) = unat ch"
proof -
  have "ch AND 15 = take_bit 4 ch" by (simp add: take_bit_eq_mask mask_eq_exp_minus_1)
  then have u: "unat (drop_bit 4 ch) = unat ch div 16" "unat (ch AND 15) = unat ch mod 16"
    using unsigned_less [of ch, where 'a = nat]
    by (simp_all add: unsigned_drop_bit_eq drop_bit_nat_def take_bit_nat_eq_self unsigned_take_bit_eq take_bit_nat_def)
  then show "drop_bit 4 ch < 16" "(ch AND 15) < 16"
    using unsigned_less [of ch, where 'a = nat] by (simp_all add: word_less_nat_alt)
  show "16 * unat (drop_bit 4 ch) + unat (ch AND 15) = unat ch" using u by simp
qed

lemma byte_text_token: "strtol16 (take 2 (drop 3 (byte_text ch))) = Some (int (unat ch))"
proof -
  let ?h = "hex_upper (drop_bit 4 ch)" and ?l = "hex_upper (ch AND 15)"
  have "take 2 (drop 3 (byte_text ch)) = [?h, ?l]" by (simp add: byte_text_def ascii_def)
  then show ?thesis
    using hex_upper_digit [OF nibbles(1)] hex_upper_digit [OF nibbles(2)] nibbles(3) [of ch]
    by (simp add: strtol16_def Let_def)
qed

text \<open>A token whose text is a byte in angle brackets stands for that byte.\<close>

lemma token_to_byte_text:
  assumes "get_token_data V t = Some td" and "td_text td = byte_text b" and "td_attr td AND ATTR_BYTE \<noteq> 0"
    and "v_type V = SPM \<or> v_type V = UGM"
  shows "token_to_byte V t = Some b"
  using assms byte_text_token [of b] by (simp add: token_to_byte_def) (simp add: byte_text_def ascii_def)

end
