(* ===== verification/SymbolMerge.thy ===== *)
theory SymbolMerge
  imports Vocab
begin

text \<open>
  \<^verbatim>\<open>src/llama-vocab.cpp\<close>: what the BPE and SPM tokenizers share. A text is an array of symbols, a
  doubly linked list of pieces of the text; merging a symbol into its left neighbour empties it and
  takes it out of the list. A \<^verbatim>\<open>const char *\<close> into the text is the rest of the text from there on.
  The work queue holds candidate pairs, stale ones included.
\<close>

section \<open>Symbols\<close>

record llm_symbol =
  sym_prev :: int
  sym_next :: int
  sym_text :: bytes
  sym_n :: nat

definition sym_str :: "llm_symbol \<Rightarrow> bytes" where
  "sym_str s = take (sym_n s) (sym_text s)"

lemma unicode_len_utf8_pos: "0 < unicode_len_utf8 b"
proof -
  have "unat (drop_bit 4 b) < 16"
    using unsigned_less [of b, where 'a = nat] by (simp add: unsigned_drop_bit_eq drop_bit_nat_def take_bit_nat_eq_self)
  then have "unicode_len_utf8 b \<in> set [1, 1, 1, 1, 1, 1, 1, 1, 1, 1, 1, 1, 2, 2, 3, 4]"
    unfolding unicode_len_utf8_def by (intro nth_mem) simp
  then show ?thesis by auto
qed

text \<open>The loop that splits a text into its UTF-8 characters; \<open>i\<close> is the index of the next symbol.\<close>

function split_symbols :: "bytes \<Rightarrow> int \<Rightarrow> llm_symbol list" where
  "split_symbols s i =
     (if s = [] then []
      else
        let n = min (unicode_len_utf8 (hd s)) (length s);
            rest = drop n s
        in \<lparr>sym_prev = i - 1, sym_next = (if rest = [] then -1 else i + 1), sym_text = s, sym_n = n\<rparr>
           # split_symbols rest (i + 1))"
  by auto

termination split_symbols
  using unicode_len_utf8_pos by (relation "measure (\<lambda>(s, i). length s)") (auto simp: min_def)

declare split_symbols.simps [simp del]

text \<open>The merge of the right symbol into the left one, in the order of the source's assignments.\<close>

definition merge_symbols :: "nat \<Rightarrow> nat \<Rightarrow> llm_symbol list \<Rightarrow> llm_symbol list" where
  "merge_symbols left right S =
     (let S = S[left := (S ! left)\<lparr>sym_n := sym_n (S ! left) + sym_n (S ! right)\<rparr>];
          S = S[right := (S ! right)\<lparr>sym_n := 0\<rparr>];
          S = S[left := (S ! left)\<lparr>sym_next := sym_next (S ! right)\<rparr>]
      in if 0 \<le> sym_next (S ! right)
         then S[nat (sym_next (S ! right)) := (S ! nat (sym_next (S ! right)))\<lparr>sym_prev := int left\<rparr>]
         else S)"

section \<open>The list of live symbols\<close>

text \<open>The links along a list of indices, with the index before it and the index behind it.\<close>

fun links :: "llm_symbol list \<Rightarrow> int \<Rightarrow> nat list \<Rightarrow> int \<Rightarrow> bool" where
  "links S p [] q \<longleftrightarrow> True"
| "links S p (i # is) q \<longleftrightarrow>
     sym_prev (S ! i) = p \<and> sym_next (S ! i) = (case is of [] \<Rightarrow> q | j # _ \<Rightarrow> int j) \<and> links S (int i) is q"

text \<open>The pieces along a list of indices are the text \<open>s\<close>, none of them empty.\<close>

fun tiles :: "llm_symbol list \<Rightarrow> nat list \<Rightarrow> bytes \<Rightarrow> bytes \<Rightarrow> bool" where
  "tiles S [] s rest \<longleftrightarrow> s = rest"
| "tiles S (i # is) s rest \<longleftrightarrow>
     sym_text (S ! i) = s \<and> 0 < sym_n (S ! i) \<and> sym_n (S ! i) \<le> length s \<and> tiles S is (drop (sym_n (S ! i)) s) rest"

definition chain_ok :: "llm_symbol list \<Rightarrow> nat list \<Rightarrow> bytes \<Rightarrow> bool" where
  "chain_ok S ls w \<longleftrightarrow> sorted_wrt (<) ls \<and> set ls = {i. i < length S \<and> 0 < sym_n (S ! i)} \<and>
     links S (-1) ls (-1) \<and> tiles S ls w []"

definition pieces :: "llm_symbol list \<Rightarrow> nat list \<Rightarrow> bytes list" where
  "pieces S ls = map (\<lambda>i. sym_str (S ! i)) ls"

lemma links_append:
  "links S p (as @ i # bs) q \<longleftrightarrow> links S p as (int i) \<and> links S (if as = [] then p else int (last as)) (i # bs) q"
proof (induction as arbitrary: p)
  case (Cons a as)
  then show ?case by (cases as) auto
qed simp

lemma links_cong: "\<forall>i \<in> set is. sym_prev (S ! i) = sym_prev (S' ! i) \<and> sym_next (S ! i) = sym_next (S' ! i) \<Longrightarrow> links S p is q = links S' p is q"
  by (induction "is" arbitrary: p) auto

lemma tiles_append: "tiles S (as @ bs) s rest \<longleftrightarrow> (\<exists>m. tiles S as s m \<and> tiles S bs m rest)"
  by (induction as arbitrary: s) auto

lemma tiles_cong: "\<forall>i \<in> set is. sym_text (S ! i) = sym_text (S' ! i) \<and> sym_n (S ! i) = sym_n (S' ! i) \<Longrightarrow> tiles S is s rest = tiles S' is s rest"
  by (induction "is" arbitrary: s) auto

lemma tiles_concat: "tiles S is s rest \<Longrightarrow> s = concat (pieces S is) @ rest"
proof (induction "is" arbitrary: s)
  case (Cons i "is")
  then have "drop (sym_n (S ! i)) s = concat (pieces S is) @ rest" by simp
  then have "s = take (sym_n (S ! i)) s @ concat (pieces S is) @ rest" by (metis append_take_drop_id)
  then show ?case using Cons.prems by (simp add: pieces_def sym_str_def)
qed (simp add: pieces_def)

lemma chain_text: "chain_ok S ls w \<Longrightarrow> concat (pieces S ls) = w"
  using tiles_concat [of S ls w "[]"] by (simp add: chain_ok_def)

lemma chain_next:
  assumes "chain_ok S ls w" and "i \<in> set ls"
  shows "sym_next (S ! i) = -1 \<and> ls = butlast ls @ [i] \<or>
    (\<exists>as j bs. ls = as @ i # j # bs \<and> sym_next (S ! i) = int j)"
proof -
  from assms(2) obtain as bs where ls: "ls = as @ i # bs" by (meson split_list)
  then have "sym_next (S ! i) = (case bs of [] \<Rightarrow> -1 | j # _ \<Rightarrow> int j)"
    using assms(1) by (auto simp: chain_ok_def links_append)
  then show ?thesis using ls by (cases bs) auto
qed

lemma chain_live: "chain_ok S ls w \<Longrightarrow> i \<in> set ls \<longleftrightarrow> i < length S \<and> 0 < sym_n (S ! i)"
  unfolding chain_ok_def by blast

section \<open>Merging\<close>

lemma length_merge [simp]: "length (merge_symbols l r S) = length S"
  by (simp add: merge_symbols_def Let_def)

lemma merge_nth:
  assumes "l < length S" and "r < length S" and "l \<noteq> r" and "sym_next (S ! r) \<noteq> int l" and "sym_next (S ! r) \<noteq> int r"
    and "i < length S"
  shows "merge_symbols l r S ! i =
    (if i = l then (S ! l)\<lparr>sym_n := sym_n (S ! l) + sym_n (S ! r), sym_next := sym_next (S ! r)\<rparr>
     else if i = r then (S ! r)\<lparr>sym_n := 0\<rparr>
     else if sym_next (S ! r) = int i then (S ! i)\<lparr>sym_prev := int l\<rparr>
     else S ! i)"
  using assms by (auto simp: merge_symbols_def Let_def nth_list_update split: if_splits)

lemma chain_adjacent:
  assumes "chain_ok S (as @ l # r # bs) w"
  shows "l < r" and "r < length S" and "0 < sym_n (S ! l)" and "0 < sym_n (S ! r)" and "sym_next (S ! l) = int r"
    and "sym_next (S ! r) = (case bs of [] \<Rightarrow> -1 | j # _ \<Rightarrow> int j)" and "l \<notin> set as" and "r \<notin> set as"
    and "l \<notin> set bs" and "r \<notin> set bs" and "set bs \<inter> set as = {}" and "\<forall>i \<in> set (as @ bs). i < length S"
    and "sym_prev (S ! l) = (if as = [] then -1 else int (last as))"
    and "sym_text (S ! r) = drop (sym_n (S ! l)) (sym_text (S ! l))"
    and "sym_n (S ! l) + sym_n (S ! r) \<le> length (sym_text (S ! l))"
  using assms by (auto simp: chain_ok_def links_append sorted_wrt_append tiles_append)

lemma merge_nth_chain:
  assumes "chain_ok S (as @ l # r # bs) w" and "i < length S"
  shows "merge_symbols l r S ! i =
    (if i = l then (S ! l)\<lparr>sym_n := sym_n (S ! l) + sym_n (S ! r), sym_next := sym_next (S ! r)\<rparr>
     else if i = r then (S ! r)\<lparr>sym_n := 0\<rparr>
     else if bs \<noteq> [] \<and> i = hd bs then (S ! i)\<lparr>sym_prev := int l\<rparr>
     else S ! i)"
proof -
  note a = chain_adjacent [OF assms(1)]
  have "sym_next (S ! r) \<noteq> int l" "sym_next (S ! r) \<noteq> int r" "sym_next (S ! r) = int i \<longleftrightarrow> bs \<noteq> [] \<and> i = hd bs"
    using a(6,9,10) by (cases bs; auto)+
  then show ?thesis using merge_nth [of l S r i] a(1,2) assms(2) by auto
qed

lemma merge_chain:
  assumes "chain_ok S (as @ l # r # bs) w"
  shows "chain_ok (merge_symbols l r S) (as @ l # bs) w"
proof -
  let ?S = "merge_symbols l r S"
  note a = chain_adjacent [OF assms]
  note nth = merge_nth_chain [OF assms]
  have ok: "sorted_wrt (<) (as @ l # r # bs)" "set (as @ l # r # bs) = {i. i < length S \<and> 0 < sym_n (S ! i)}"
    "links S (-1) as (int l)" "links S (int r) bs (-1)" "tiles S (as @ l # r # bs) w []"
    using assms by (cases bs; auto simp: chain_ok_def links_append)+
  have as_same: "?S ! i = S ! i" if "i \<in> set as" for i
    using that a nth [of i] by (cases bs) auto
  have bs_same: "?S ! i = (if i = hd bs then (S ! i)\<lparr>sym_prev := int l\<rparr> else S ! i)" if "i \<in> set bs" for i
    using that a nth [of i] by auto
  have l: "?S ! l = (S ! l)\<lparr>sym_n := sym_n (S ! l) + sym_n (S ! r), sym_next := sym_next (S ! r)\<rparr>"
    using nth [of l] a(1,2) by simp
  have "sorted_wrt (<) (as @ l # bs)" using ok(1) by (auto simp: sorted_wrt_append)
  moreover have "set (as @ l # bs) = {i. i < length ?S \<and> 0 < sym_n (?S ! i)}"
  proof -
    have "0 < sym_n (?S ! i) \<longleftrightarrow> i \<noteq> r \<and> 0 < sym_n (S ! i)" if "i < length S" for i
      using nth [OF that] a(1,3) by auto
    then have "{i. i < length ?S \<and> 0 < sym_n (?S ! i)} = set (as @ l # r # bs) - {r}" using ok(2) by auto
    then show ?thesis using a(1,8,10) by auto
  qed
  moreover have "links ?S (-1) (as @ l # bs) (-1)"
  proof -
    have "links ?S (-1) as (int l)" using ok(3) as_same by (subst links_cong [of _ _ S]) auto
    moreover have "links ?S (int l) bs (-1)"
    proof (cases bs)
      case (Cons j js)
      have "j \<notin> set js" using ok(1) Cons by (auto simp: sorted_wrt_append)
      then have "links ?S (int j) js (-1) = links S (int j) js (-1)"
        using bs_same Cons by (intro links_cong) auto
      then show ?thesis using ok(4) bs_same [of j] Cons by simp
    qed simp
    ultimately show ?thesis using a(6,13) l by (cases bs) (auto simp: links_append)
  qed
  moreover have "tiles ?S (as @ l # bs) w []"
  proof -
    have "tiles ?S as s m = tiles S as s m" "tiles ?S bs s m = tiles S bs s m" for s m
      using as_same bs_same by (auto intro!: tiles_cong)
    then show ?thesis using ok(5) a(15) l by (auto simp: tiles_append add.commute [of "sym_n (S ! l)"])
  qed
  ultimately show ?thesis by (simp add: chain_ok_def)
qed

lemma merge_str:
  assumes "chain_ok S (as @ l # r # bs) w" and "i < length S"
  shows "sym_str (merge_symbols l r S ! i) =
    (if i = l then sym_str (S ! l) @ sym_str (S ! r) else if i = r then [] else sym_str (S ! i))"
  using merge_nth_chain [OF assms] chain_adjacent(14) [OF assms(1)]
  by (auto simp: sym_str_def take_add)

lemma merge_pieces:
  assumes "chain_ok S (as @ l # r # bs) w"
  shows "pieces (merge_symbols l r S) (as @ l # bs) = pieces S as @ (sym_str (S ! l) @ sym_str (S ! r)) # pieces S bs"
proof -
  note a = chain_adjacent [OF assms]
  have "sym_str (merge_symbols l r S ! i) = sym_str (S ! i)" if "i \<in> set as \<union> set bs" for i
    using that merge_str [OF assms, of i] a(7-12) by auto
  then show ?thesis using merge_str [OF assms, of l] a(1,2) by (simp add: pieces_def)
qed

section \<open>The work queue\<close>

text \<open>What the queues of both tokenizers hold of a pair: its indices, the size of its text when it was
  pushed, and its key. Pairs that can be merged, with their key, are given by \<open>cand\<close>.\<close>

type_synonym 'k entry = "nat \<times> nat \<times> nat \<times> 'k"

definition fresh :: "llm_symbol list \<Rightarrow> 'k entry \<Rightarrow> bool" where
  "fresh S e \<longleftrightarrow> (case e of (i, j, sz, k) \<Rightarrow> 0 < sym_n (S ! i) \<and> 0 < sym_n (S ! j) \<and> sz = sym_n (S ! i) + sym_n (S ! j))"

definition q_sound :: "(bytes \<Rightarrow> bytes \<Rightarrow> 'k option) \<Rightarrow> llm_symbol list \<Rightarrow> 'k entry set \<Rightarrow> bool" where
  "q_sound cand S E \<longleftrightarrow> (\<forall>(i, j, sz, k) \<in> E. i < length S \<and> j < length S \<and>
     (0 < sym_n (S ! i) \<and> 0 < sym_n (S ! j) \<longrightarrow> sz \<le> sym_n (S ! i) + sym_n (S ! j) \<and>
       (sz = sym_n (S ! i) + sym_n (S ! j) \<longrightarrow>
          sym_next (S ! i) = int j \<and> cand (sym_str (S ! i)) (sym_str (S ! j)) = Some k)))"

definition q_complete :: "(bytes \<Rightarrow> bytes \<Rightarrow> 'k option) \<Rightarrow> llm_symbol list \<Rightarrow> nat list \<Rightarrow> 'k entry set \<Rightarrow> bool" where
  "q_complete cand S ls E \<longleftrightarrow> (\<forall>i \<in> set ls. \<forall>j k. sym_next (S ! i) = int j \<and>
     cand (sym_str (S ! i)) (sym_str (S ! j)) = Some k \<longrightarrow> (i, j, sym_n (S ! i) + sym_n (S ! j), k) \<in> E)"

definition new_entries :: "(bytes \<Rightarrow> bytes \<Rightarrow> 'k option) \<Rightarrow> llm_symbol list \<Rightarrow> int \<Rightarrow> int \<Rightarrow> 'k entry set" where
  "new_entries cand S a b =
     (if a = -1 \<or> b = -1 then {}
      else case cand (sym_str (S ! nat a)) (sym_str (S ! nat b)) of
        Some k \<Rightarrow> {(nat a, nat b, sym_n (S ! nat a) + sym_n (S ! nat b), k)} | None \<Rightarrow> {})"

lemma q_soundD:
  assumes "q_sound cand S E" and "(i, j, sz, k) \<in> E"
  shows "i < length S" and "j < length S"
    and "fresh S (i, j, sz, k) \<Longrightarrow> sym_next (S ! i) = int j \<and> cand (sym_str (S ! i)) (sym_str (S ! j)) = Some k"
  using bspec [OF assms(1) [unfolded q_sound_def] assms(2)] by (auto simp: fresh_def)

lemma q_stale:
  assumes "chain_ok S ls w" and "q_sound cand S E" and "q_complete cand S ls E"
    and "E' \<subseteq> E" and "E \<subseteq> insert e E'" and "\<not> fresh S e"
  shows "q_sound cand S E'" and "q_complete cand S ls E'"
proof -
  show "q_sound cand S E'" using assms(2,4) unfolding q_sound_def by blast
  show "q_complete cand S ls E'" unfolding q_complete_def
  proof (intro ballI allI impI)
    fix i j k
    assume i: "i \<in> set ls" and c: "sym_next (S ! i) = int j \<and> cand (sym_str (S ! i)) (sym_str (S ! j)) = Some k"
    then have "j \<in> set ls" using chain_next [OF assms(1) i] by auto
    then have "fresh S (i, j, sym_n (S ! i) + sym_n (S ! j), k)"
      using assms(1) i by (auto simp: chain_ok_def fresh_def)
    moreover have "(i, j, sym_n (S ! i) + sym_n (S ! j), k) \<in> E" using assms(3) i c unfolding q_complete_def by blast
    ultimately show "(i, j, sym_n (S ! i) + sym_n (S ! j), k) \<in> E'" using assms(5,6) by blast
  qed
qed

lemma q_merge_sound:
  assumes ch: "chain_ok S (as @ l # r # bs) w" and "q_sound cand S E"
  shows "q_sound cand (merge_symbols l r S) E"
  unfolding q_sound_def
proof clarify
  fix i j sz k
  let ?S = "merge_symbols l r S"
  note a = chain_adjacent [OF ch]
  assume "(i, j, sz, k) \<in> E"
  then have e: "i < length S" "j < length S" "0 < sym_n (S ! i) \<and> 0 < sym_n (S ! j) \<longrightarrow> sz \<le> sym_n (S ! i) + sym_n (S ! j) \<and>
      (sz = sym_n (S ! i) + sym_n (S ! j) \<longrightarrow> sym_next (S ! i) = int j \<and> cand (sym_str (S ! i)) (sym_str (S ! j)) = Some k)"
    using assms(2) unfolding q_sound_def by blast+
  have "sz \<le> sym_n (?S ! i) + sym_n (?S ! j) \<and> (sz = sym_n (?S ! i) + sym_n (?S ! j) \<longrightarrow>
      sym_next (?S ! i) = int j \<and> cand (sym_str (?S ! i)) (sym_str (?S ! j)) = Some k)"
    if live: "0 < sym_n (?S ! i)" "0 < sym_n (?S ! j)"
  proof (cases "i = l \<or> j = l")
    case True
    then show ?thesis
      using live e a(1,3,4) merge_nth_chain [OF ch e(1)] merge_nth_chain [OF ch e(2)] by (auto split: if_splits)
  next
    case False
    then show ?thesis
      using live e merge_nth_chain [OF ch e(1)] merge_nth_chain [OF ch e(2)] merge_str [OF ch e(1)] merge_str [OF ch e(2)]
      by (auto split: if_splits)
  qed
  then show "i < length ?S \<and> j < length ?S \<and> (0 < sym_n (?S ! i) \<and> 0 < sym_n (?S ! j) \<longrightarrow> sz \<le> sym_n (?S ! i) + sym_n (?S ! j) \<and>
      (sz = sym_n (?S ! i) + sym_n (?S ! j) \<longrightarrow> sym_next (?S ! i) = int j \<and> cand (sym_str (?S ! i)) (sym_str (?S ! j)) = Some k))"
    using e(1,2) by simp
qed

text \<open>The entries pushed for the neighbours of a live symbol are sound.\<close>

lemma new_entries_sound:
  assumes "chain_ok S ls w" and "a \<noteq> -1 \<Longrightarrow> nat a \<in> set ls \<and> sym_next (S ! nat a) = b"
  shows "q_sound cand S (new_entries cand S a b)"
proof (cases "a = -1 \<or> b = -1")
  case False
  then have i: "nat a \<in> set ls" "sym_next (S ! nat a) = b" using assms(2) by auto
  then obtain j where j: "j \<in> set ls" "b = int j" using chain_next [OF assms(1) i(1)] False by force
  have "nat a < length S" "0 < sym_n (S ! nat a)" "j < length S" "0 < sym_n (S ! j)"
    using assms(1) i(1) j(1) unfolding chain_ok_def by blast+
  then show ?thesis using i(2) j(2) False
    by (cases "cand (sym_str (S ! nat a)) (sym_str (S ! j))") (simp_all add: q_sound_def new_entries_def)
qed (simp add: q_sound_def new_entries_def)

lemma q_sound_union: "q_sound cand S (E \<union> F) \<longleftrightarrow> q_sound cand S E \<and> q_sound cand S F"
  unfolding q_sound_def ball_Un by (rule refl)

lemma q_merge_complete:
  assumes ch: "chain_ok S (as @ l # r # bs) w" and comp: "q_complete cand S (as @ l # r # bs) E"
    and E: "E \<subseteq> insert (l, e) E'"
  shows "q_complete cand (merge_symbols l r S) (as @ l # bs)
    (E' \<union> new_entries cand (merge_symbols l r S) (sym_prev (merge_symbols l r S ! l)) (int l)
        \<union> new_entries cand (merge_symbols l r S) (int l) (sym_next (merge_symbols l r S ! l)))"
  unfolding q_complete_def
proof (intro ballI allI impI)
  fix i j k
  let ?S = "merge_symbols l r S"
  let ?new = "E' \<union> new_entries cand ?S (sym_prev (?S ! l)) (int l) \<union> new_entries cand ?S (int l) (sym_next (?S ! l))"
  note a = chain_adjacent [OF ch]
  note ch' = merge_chain [OF ch]
  assume i: "i \<in> set (as @ l # bs)" and c: "sym_next (?S ! i) = int j \<and> cand (sym_str (?S ! i)) (sym_str (?S ! j)) = Some k"
  obtain xs ys where xy: "as @ l # bs = xs @ i # j # ys" using chain_next [OF ch' i] c by auto
  have "r \<notin> set (as @ l # bs)" using a(1,8,10) by simp
  then have ne: "i \<noteq> r" "j \<noteq> r" unfolding xy by auto
  have "chain_ok ?S (xs @ i # j # ys) w" using ch' xy by simp
  then have ij: "i < length S" "j < length S" "i < j" "sym_prev (?S ! j) = int i"
    using chain_adjacent(1,2) [of ?S xs i j ys w] by (auto simp: chain_ok_def links_append)
  consider "i = l" | "j = l" | "i \<noteq> l" "j \<noteq> l" by blast
  then show "(i, j, sym_n (?S ! i) + sym_n (?S ! j), k) \<in> ?new"
  proof cases
    case 1
    then show ?thesis using c by (simp add: new_entries_def)
  next
    case 2
    then show ?thesis using c ij(4) by (simp add: new_entries_def)
  next
    case 3
    then have "sym_next (S ! i) = int j" "sym_str (S ! i) = sym_str (?S ! i)" "sym_str (S ! j) = sym_str (?S ! j)"
      "sym_n (S ! i) = sym_n (?S ! i)" "sym_n (S ! j) = sym_n (?S ! j)" "i \<in> set (as @ l # r # bs)"
      using c i ne merge_nth_chain [OF ch ij(1)] merge_nth_chain [OF ch ij(2)] merge_str [OF ch ij(1)] merge_str [OF ch ij(2)]
      by (auto split: if_splits)
    then have "(i, j, sym_n (?S ! i) + sym_n (?S ! j), k) \<in> E" using comp c unfolding q_complete_def by metis
    then show ?thesis using E 3 by auto
  qed
qed

lemma chain_prev:
  assumes "chain_ok S (as @ l # bs) w" and "sym_prev (S ! l) \<noteq> -1"
  shows "0 \<le> sym_prev (S ! l) \<and> nat (sym_prev (S ! l)) \<in> set (as @ l # bs) \<and> sym_next (S ! nat (sym_prev (S ! l))) = int l"
proof -
  have as: "as \<noteq> []" "sym_prev (S ! l) = int (last as)"
    using assms by (auto simp: chain_ok_def links_append split: if_splits)
  then obtain cs where "as = cs @ [last as]" by (metis append_butlast_last_id)
  then have "sym_next (S ! last as) = int l"
    using assms(1) by (metis append.assoc append_Cons append_Nil chain_adjacent(5))
  then show ?thesis using as by simp
qed

text \<open>One merge keeps everything.\<close>

lemma q_merge:
  assumes ch: "chain_ok S (as @ l # r # bs) w" and "q_sound cand S E" and "q_complete cand S (as @ l # r # bs) E"
    and "E' \<subseteq> E" and "E \<subseteq> insert (l, e) E'" and S': "S' = merge_symbols l r S"
    and E'': "E'' = E' \<union> new_entries cand S' (sym_prev (S' ! l)) (int l) \<union> new_entries cand S' (int l) (sym_next (S' ! l))"
  shows "chain_ok S' (as @ l # bs) w" and "q_sound cand S' E''" and "q_complete cand S' (as @ l # bs) E''"
proof -
  show ch': "chain_ok S' (as @ l # bs) w" unfolding S' by (rule merge_chain [OF ch])
  have "q_sound cand S' E'" unfolding S'
    using q_merge_sound [OF ch assms(2)] assms(4) unfolding q_sound_def by blast
  moreover have "q_sound cand S' (new_entries cand S' (sym_prev (S' ! l)) (int l))"
    using chain_prev [OF ch'] by (intro new_entries_sound [OF ch']) blast
  moreover have "q_sound cand S' (new_entries cand S' (int l) (sym_next (S' ! l)))"
    by (rule new_entries_sound [OF ch']) simp
  ultimately show "q_sound cand S' E''" unfolding E'' by (simp add: q_sound_union)
  show "q_complete cand S' (as @ l # bs) E''"
    unfolding E'' S' by (rule q_merge_complete [OF ch assms(3,5)])
qed

end
