(* ===== verification/GreedyMerge.thy ===== *)
theory GreedyMerge
  imports SymbolMerge
begin

text \<open>
  The reference the merging tokenizers are compared with: as long as some adjacent pair of pieces
  can be merged, merge the pair with the smallest key, the leftmost one of them. Also the contract of
  the priority queue both use, and the state both start from.
\<close>

section \<open>The reference\<close>

definition merge_at :: "nat \<Rightarrow> bytes list \<Rightarrow> bytes list" where
  "merge_at m ts = take m ts @ (ts ! m @ ts ! Suc m) # drop (Suc (Suc m)) ts"

definition best_pair :: "(bytes \<Rightarrow> bytes \<Rightarrow> 'k::linorder option) \<Rightarrow> bytes list \<Rightarrow> (nat \<times> 'k) option" where
  "best_pair cand ts =
     fold (\<lambda>m best. case cand (ts ! m) (ts ! Suc m) of None \<Rightarrow> best
             | Some k \<Rightarrow> (case best of None \<Rightarrow> Some (m, k) | Some (m', k') \<Rightarrow> if k < k' then Some (m, k) else best))
       [0..<length ts - 1] None"

definition is_best :: "(bytes \<Rightarrow> bytes \<Rightarrow> 'k::linorder option) \<Rightarrow> bytes list \<Rightarrow> nat \<Rightarrow> nat \<Rightarrow> 'k \<Rightarrow> bool" where
  "is_best cand ts b m k \<longleftrightarrow> m < b \<and> cand (ts ! m) (ts ! Suc m) = Some k \<and>
     (\<forall>m' < b. \<forall>k'. cand (ts ! m') (ts ! Suc m') = Some k' \<longrightarrow> k < k' \<or> k = k' \<and> m \<le> m')"

lemma best_pair_upto:
  "case fold (\<lambda>m best. case cand (ts ! m) (ts ! Suc m) of None \<Rightarrow> best
        | Some k \<Rightarrow> (case best of None \<Rightarrow> Some (m, k) | Some (m', k') \<Rightarrow> if k < k' then Some (m, k) else best)) [0..<b] None of
     Some (m, k) \<Rightarrow> is_best cand ts b m k
   | None \<Rightarrow> (\<forall>m < b. cand (ts ! m) (ts ! Suc m) = None)"
proof (induction b)
  case (Suc b)
  then show ?case
    by (auto simp: is_best_def less_Suc_eq split: option.splits prod.splits)
       (force simp: not_less)+
qed simp

lemma best_pair_None: "best_pair cand ts = None \<Longrightarrow> Suc m < length ts \<Longrightarrow> cand (ts ! m) (ts ! Suc m) = None"
  using best_pair_upto [where cand = cand and ts = ts and b = "length ts - 1"] by (auto simp: best_pair_def)

lemma best_pair_Some: "best_pair cand ts = Some (m, k) \<Longrightarrow> is_best cand ts (length ts - 1) m k"
  using best_pair_upto [where cand = cand and ts = ts and b = "length ts - 1"] by (auto simp: best_pair_def)

lemma is_best_unique: "is_best cand ts b m k \<Longrightarrow> is_best cand ts b m' k' \<Longrightarrow> m = m' \<and> k = k'"
  unfolding is_best_def by (metis antisym less_asym' option.inject)

lemma is_best_pair:
  assumes "is_best cand ts (length ts - 1) m k"
  shows "best_pair cand ts = Some (m, k)"
proof (cases "best_pair cand ts")
  case None
  have "Suc m < length ts" using assms by (auto simp: is_best_def)
  then show ?thesis using best_pair_None [OF None] assms by (simp add: is_best_def)
next
  case (Some mk)
  then show ?thesis using best_pair_Some [of cand ts "fst mk" "snd mk"] is_best_unique [OF assms] by (metis prod.collapse)
qed

function greedy_merge :: "(bytes \<Rightarrow> bytes \<Rightarrow> 'k::linorder option) \<Rightarrow> bytes list \<Rightarrow> bytes list" where
  "greedy_merge cand ts = (case best_pair cand ts of None \<Rightarrow> ts | Some (m, _) \<Rightarrow> greedy_merge cand (merge_at m ts))"
  by auto

lemma length_merge_at: "Suc m < length ts \<Longrightarrow> length (merge_at m ts) = length ts - 1"
  by (simp add: merge_at_def)

termination greedy_merge
proof (relation "measure (\<lambda>(cand, ts). length ts)")
  fix cand :: "bytes \<Rightarrow> bytes \<Rightarrow> 'k::linorder option" and ts mk m and k :: 'k
  assume "best_pair cand ts = Some mk" and "(m, k) = mk"
  then have "is_best cand ts (length ts - 1) m k" using best_pair_Some [of cand ts m k] by simp
  then have "Suc m < length ts" by (auto simp: is_best_def)
  then show "((cand, merge_at m ts), cand, ts) \<in> measure (\<lambda>(cand, ts). length ts)" by (simp add: length_merge_at)
qed simp

declare greedy_merge.simps [simp del]

lemma concat_merge_at: "Suc m < length ts \<Longrightarrow> concat (merge_at m ts) = concat ts"
proof -
  assume "Suc m < length ts"
  then have "ts = take m ts @ ts ! m # ts ! Suc m # drop (Suc (Suc m)) ts"
    by (metis Cons_nth_drop_Suc Suc_lessD append_take_drop_id)
  then have "concat ts = concat (take m ts) @ ts ! m @ ts ! Suc m @ concat (drop (Suc (Suc m)) ts)"
    by (metis concat.simps(2) concat_append)
  then show ?thesis by (simp add: merge_at_def)
qed

text \<open>The reference keeps the text and stops only when nothing can be merged.\<close>

lemma greedy_merge_concat: "concat (greedy_merge cand ts) = concat ts"
proof (induction cand ts rule: greedy_merge.induct)
  case (1 cand ts)
  show ?case
  proof (cases "best_pair cand ts")
    case None
    then show ?thesis by (simp add: greedy_merge.simps [of cand ts])
  next
    case (Some mk)
    obtain m k where mk: "mk = (m, k)" by (cases mk)
    then have "Suc m < length ts" using best_pair_Some [of cand ts m k] Some by (auto simp: is_best_def)
    then show ?thesis using 1 [OF Some, of m k] Some mk by (simp add: greedy_merge.simps [of cand ts] concat_merge_at)
  qed
qed

lemma greedy_merge_stuck: "best_pair cand (greedy_merge cand ts) = None"
proof (induction cand ts rule: greedy_merge.induct)
  case (1 cand ts)
  then show ?case
    by (cases "best_pair cand ts") (auto simp: greedy_merge.simps [of cand ts])
qed

section \<open>The front of the queue is the reference's pair\<close>

lemma front_is_best:
  assumes ch: "chain_ok S ls w" and comp: "q_complete cand S ls E" and sound: "q_sound cand S E"
    and e: "(l, r, sz, k) \<in> E" and fresh: "fresh S (l, r, sz, k)"
    and least: "\<forall>(i, j, s, k') \<in> E. k < k' \<or> k = k' \<and> l \<le> i"
  shows "\<exists>as bs. ls = as @ l # r # bs \<and> best_pair cand (pieces S ls) = Some (length as, k)"
proof -
  have lr: "sym_next (S ! l) = int r" "cand (sym_str (S ! l)) (sym_str (S ! r)) = Some k" "l < length S"
    using sound e fresh unfolding q_sound_def fresh_def by blast+
  then have "l \<in> set ls" using ch fresh by (auto simp: chain_ok_def fresh_def)
  then obtain as bs where ls: "ls = as @ l # r # bs" using chain_next [OF ch] lr(1) by fastforce
  have "is_best cand (pieces S ls) (length (pieces S ls) - 1) (length as) k"
    unfolding is_best_def
  proof (intro conjI allI impI)
    show "length as < length (pieces S ls) - 1" using ls by (simp add: pieces_def)
    show "cand (pieces S ls ! length as) (pieces S ls ! Suc (length as)) = Some k"
      using ls lr(2) by (simp add: pieces_def nth_append)
    fix m k'
    assume m: "m < length (pieces S ls) - 1" and c: "cand (pieces S ls ! m) (pieces S ls ! Suc m) = Some k'"
    let ?i = "ls ! m" and ?j = "ls ! Suc m"
    have ml: "Suc m < length ls" using m by (simp add: pieces_def)
    then have split: "ls = take m ls @ ?i # ?j # drop (Suc (Suc m)) ls"
      by (metis Cons_nth_drop_Suc Suc_lessD append_take_drop_id)
    then have "sym_next (S ! ?i) = int ?j" using ch chain_adjacent(5) by metis
    moreover have "cand (sym_str (S ! ?i)) (sym_str (S ! ?j)) = Some k'" using c ml by (simp add: pieces_def)
    ultimately have "(?i, ?j, sym_n (S ! ?i) + sym_n (S ! ?j), k') \<in> E"
      using comp ml unfolding q_complete_def by (meson Suc_lessD nth_mem)
    then have "k < k' \<or> k = k' \<and> l \<le> ?i" using least by blast
    moreover have "length as \<le> m" if "l \<le> ?i"
    proof (rule ccontr)
      assume "\<not> length as \<le> m"
      then have "?i < ls ! length as" using ch ls by (intro sorted_wrt_nth_less [of "(<)"]) (auto simp: chain_ok_def)
      then show False using that ls by (simp add: nth_append)
    qed
    ultimately show "k < k' \<or> k = k' \<and> length as \<le> m" by blast
  qed
  then show ?thesis using ls is_best_pair by blast
qed

lemma nothing_left:
  assumes ch: "chain_ok S ls w" and comp: "q_complete cand S ls {}"
  shows "best_pair cand (pieces S ls) = None"
proof (rule ccontr)
  assume "best_pair cand (pieces S ls) \<noteq> None"
  then obtain m k where "is_best cand (pieces S ls) (length (pieces S ls) - 1) m k"
    using best_pair_Some by fastforce
  then have m: "Suc m < length ls" "cand (sym_str (S ! (ls ! m))) (sym_str (S ! (ls ! Suc m))) = Some k"
    by (auto simp: is_best_def pieces_def)
  then have "ls = take m ls @ ls ! m # ls ! Suc m # drop (Suc (Suc m)) ls"
    by (metis Cons_nth_drop_Suc Suc_lessD append_take_drop_id)
  then have "sym_next (S ! (ls ! m)) = int (ls ! Suc m)" using ch chain_adjacent(5) by metis
  then show False using comp m unfolding q_complete_def by (metis Suc_lessD empty_iff nth_mem)
qed

lemma merge_at_pieces:
  assumes "chain_ok S (as @ l # r # bs) w"
  shows "pieces (merge_symbols l r S) (as @ l # bs) = merge_at (length as) (pieces S (as @ l # r # bs))"
  using merge_pieces [OF assms] by (simp add: merge_at_def pieces_def nth_append)

section \<open>Priority queues\<close>

text \<open>\<^verbatim>\<open>std::priority_queue\<close> with a comparator that says when its first argument comes after the
  second: the element on top is one that comes after no other.\<close>

definition pq_top :: "('b \<Rightarrow> 'b \<Rightarrow> bool) \<Rightarrow> 'b list \<Rightarrow> 'b" where
  "pq_top worse q = fold (\<lambda>x best. if worse best x then x else best) (tl q) (hd q)"

definition pq_pop :: "('b \<Rightarrow> 'b \<Rightarrow> bool) \<Rightarrow> 'b list \<Rightarrow> 'b \<times> 'b list" where
  "pq_pop worse q = (let t = pq_top worse q in (t, remove1 t q))"

locale priority_order =
  fixes worse :: "'b \<Rightarrow> 'b \<Rightarrow> bool"
  assumes worse_asym: "worse x y \<Longrightarrow> \<not> worse y x"
    and worse_cotrans: "worse x z \<Longrightarrow> worse x y \<or> worse y z"
begin

lemma fold_top:
  "fold (\<lambda>x best. if worse best x then x else best) xs b \<in> insert b (set xs) \<and>
   (\<forall>x \<in> insert b (set xs). \<not> worse (fold (\<lambda>x best. if worse best x then x else best) xs b) x)"
proof (induction xs arbitrary: b)
  case Nil
  then show ?case using worse_asym by auto
next
  case (Cons a xs)
  let ?b = "if worse b a then a else b"
  have "\<not> worse ?b a" "\<not> worse ?b b" using worse_asym by auto
  with Cons [of ?b] show ?case using worse_cotrans by (fastforce split: if_splits)
qed

lemma pq_pop_top:
  assumes "q \<noteq> []" and "pq_pop worse q = (t, q')"
  shows "t \<in> set q" and "\<forall>x \<in> set q. \<not> worse t x" and "set q' \<subseteq> set q" and "set q \<subseteq> insert t (set q')"
    and "length q' < length q"
proof -
  have t: "t = pq_top worse q" and q': "q' = remove1 t q" using assms(2) by (auto simp: pq_pop_def Let_def)
  show "t \<in> set q" and "\<forall>x \<in> set q. \<not> worse t x"
    using fold_top [of "tl q" "hd q"] assms(1) by (cases q; auto simp: t pq_top_def)+
  then show "set q' \<subseteq> set q" and "length q' < length q"
    using assms(1) by (auto simp: q' set_remove1_subset length_remove1)
  show "set q \<subseteq> insert t (set q')"
  proof
    fix x
    assume "x \<in> set q"
    then show "x \<in> insert t (set q')" by (cases "x = t") (simp_all add: q')
  qed
qed

end

section \<open>Termination of the merge loops\<close>

definition live_count :: "llm_symbol list \<Rightarrow> nat" where
  "live_count S = card {i. i < length S \<and> 0 < sym_n (S ! i)}"

lemma nth_update: "xs[j := v] ! i = (if i = j \<and> j < length xs then v else xs ! i)"
  by (cases "j < length xs") (auto simp: nth_list_update list_update_beyond)

lemma merge_live_count:
  assumes "l < length S" and "r < length S" and "0 < sym_n (S ! l)" and "0 < sym_n (S ! r)"
  shows "live_count (merge_symbols l r S) < live_count S"
proof -
  let ?S = "merge_symbols l r S"
  have n: "map sym_n ?S = (map sym_n S)[l := sym_n (S ! l) + sym_n (S ! r), r := 0]"
    using assms by (auto simp: merge_symbols_def Let_def map_update nth_update intro!: nth_equalityI)
  have "sym_n (?S ! i) = (map sym_n S)[l := sym_n (S ! l) + sym_n (S ! r), r := 0] ! i" if "i < length S" for i
    using that by (metis length_merge n nth_map)
  then have live: "0 < sym_n (?S ! i) \<longleftrightarrow> i \<noteq> r \<and> 0 < sym_n (S ! i)" if "i < length S" for i
    using that assms(2,3) by (simp add: nth_update)
  have "{i. i < length ?S \<and> 0 < sym_n (?S ! i)} = {i. i < length S \<and> 0 < sym_n (S ! i)} - {r}" using live by auto
  then have "{i. i < length ?S \<and> 0 < sym_n (?S ! i)} \<subset> {i. i < length S \<and> 0 < sym_n (S ! i)}" using assms(2,4) by auto
  then show ?thesis unfolding live_count_def by (intro psubset_card_mono) auto
qed

section \<open>The state both start from\<close>

function utf8_chars :: "bytes \<Rightarrow> bytes list" where
  "utf8_chars s = (if s = [] then [] else take (unicode_len_utf8 (hd s)) s # utf8_chars (drop (unicode_len_utf8 (hd s)) s))"
  by auto

termination utf8_chars
  using unicode_len_utf8_pos by (relation "measure length") auto

declare utf8_chars.simps [simp del]

lemma drop_min_length: "drop (min n (length s)) s = drop n s" and take_min_length: "take (min n (length s)) s = take n s"
  by (simp_all add: min_def)

lemma split_symbols_Nil [simp]: "split_symbols [] i = []"
  by (simp add: split_symbols.simps)

lemma split_pieces: "map sym_str (split_symbols s i) = utf8_chars s"
proof (induction s arbitrary: i rule: utf8_chars.induct)
  case (1 s)
  then show ?case
    by (simp add: split_symbols.simps [of s] utf8_chars.simps [of s] Let_def sym_str_def drop_min_length take_min_length)
qed

lemma split_links_tiles:
  assumes "i = int (length P)"
  shows "links (P @ split_symbols s i) (i - 1) [length P..<length P + length (split_symbols s i)] (-1) \<and>
    tiles (P @ split_symbols s i) [length P..<length P + length (split_symbols s i)] s []"
  using assms
proof (induction s arbitrary: P i rule: utf8_chars.induct)
  case (1 s)
  show ?case
  proof (cases "s = []")
    case True
    then show ?thesis by (simp add: split_symbols.simps)
  next
    case False
    let ?n = "unicode_len_utf8 (hd s)"
    define x where "x = \<lparr>sym_prev = i - 1, sym_next = (if drop ?n s = [] then -1 else i + 1), sym_text = s,
      sym_n = min ?n (length s)\<rparr>"
    have S: "split_symbols s i = x # split_symbols (drop ?n s) (i + 1)"
      using False by (simp add: split_symbols.simps [of s] x_def drop_min_length)
    have upt: "[length P..<length P + length (split_symbols s i)] =
        length P # [length (P @ [x])..<length (P @ [x]) + length (split_symbols (drop ?n s) (i + 1))]"
      using upt_conv_Cons [of "length P" "length P + length (split_symbols s i)"] by (simp add: S del: upt_Suc)
    have IH: "links ((P @ [x]) @ split_symbols (drop ?n s) (i + 1)) i
        [length (P @ [x])..<length (P @ [x]) + length (split_symbols (drop ?n s) (i + 1))] (-1)"
      "tiles ((P @ [x]) @ split_symbols (drop ?n s) (i + 1))
        [length (P @ [x])..<length (P @ [x]) + length (split_symbols (drop ?n s) (i + 1))] (drop ?n s) []"
      using 1(1) [OF False, of "i + 1" "P @ [x]"] 1(2) by simp_all
    have "(P @ split_symbols s i) ! length P = x" by (simp add: S)
    moreover have "P @ split_symbols s i = (P @ [x]) @ split_symbols (drop ?n s) (i + 1)" by (simp add: S)
    moreover have "split_symbols (drop ?n s) (i + 1) = [] \<longleftrightarrow> drop ?n s = []"
      by (cases "drop ?n s = []") (simp_all add: split_symbols.simps [of "drop ?n s"] Let_def)
    ultimately show ?thesis
      unfolding upt using IH False unicode_len_utf8_pos [of "hd s"] 1(2)
      by (auto simp: x_def drop_min_length upt_eq_Nil_conv upt_eq_Cons_conv simp del: upt_Suc split: list.split)
  qed
qed

lemma split_chain: "chain_ok (split_symbols s 0) [0..<length (split_symbols s 0)] s"
proof -
  let ?S = "split_symbols s 0"
  have t: "links ?S (-1) [0..<length ?S] (-1)" "tiles ?S [0..<length ?S] s []"
    using split_links_tiles [of 0 "[]" s] by simp_all
  have "0 < sym_n (?S ! i)" if "tiles ?S is u v" "i \<in> set is" for "is" u v i
    using that by (induction "is" arbitrary: u) auto
  with t show ?thesis by (auto simp: chain_ok_def)
qed

lemma chain_str_length: "chain_ok S ls w \<Longrightarrow> i \<in> set ls \<Longrightarrow> length (sym_str (S ! i)) = sym_n (S ! i)"
proof -
  have "sym_n (S ! i) \<le> length (sym_text (S ! i))" if "tiles S is u v" "i \<in> set is" for "is" u v
    using that by (induction "is" arbitrary: u) auto
  then show "chain_ok S ls w \<Longrightarrow> i \<in> set ls \<Longrightarrow> length (sym_str (S ! i)) = sym_n (S ! i)"
    by (fastforce simp: chain_ok_def sym_str_def min_def)
qed

lemma chain_str_set: "chain_ok S ls w \<Longrightarrow> i \<in> set ls \<Longrightarrow> set (sym_str (S ! i)) \<subseteq> set w"
  using chain_text [of S ls w] by (auto simp: pieces_def)

lemma chain_pieces_live: "chain_ok S ls w \<Longrightarrow> map sym_str (filter (\<lambda>x. 0 < sym_n x) S) = pieces S ls"
proof -
  assume ch: "chain_ok S ls w"
  have "ls = filter (\<lambda>i. 0 < sym_n (S ! i)) [0..<length S]"
  proof (rule sorted_distinct_set_unique)
    show "sorted ls" "distinct ls" using ch by (auto simp: chain_ok_def strict_sorted_iff)
    show "set ls = set (filter (\<lambda>i. 0 < sym_n (S ! i)) [0..<length S])" using ch by (auto simp: chain_ok_def)
  qed (simp_all add: sorted_wrt_filter)
  moreover have "filter (\<lambda>x. 0 < sym_n x) S = map ((!) S) (filter (\<lambda>i. 0 < sym_n (S ! i)) [0..<length S])"
    using filter_map [of "\<lambda>x. 0 < sym_n x" "(!) S" "[0..<length S]"] by (simp add: map_nth o_def)
  ultimately show ?thesis by (simp add: pieces_def)
qed

end
