(* ===== verification/MergeSession.thy ===== *)
theory MergeSession
  imports GreedyMerge
begin

text \<open>
  What a merging tokenizer has to do to compute the reference: a session pops pairs from its queue, skips
  the stale ones, merges the others and pushes the pairs with the new neighbours. The locale states
  this contract; inside it the loop is shown to return and to merge like \<open>greedy_merge\<close>.
\<close>

section \<open>Symbols in a row\<close>

lemma links_upt:
  "links S p [a..<m] q \<Longrightarrow> a \<le> i \<Longrightarrow> i < m \<Longrightarrow> sym_next (S ! i) = (if Suc i < m then int (Suc i) else q)"
proof (induction "m - a" arbitrary: a p)
  case (Suc d)
  then have upt: "[a..<m] = a # [Suc a..<m]" by (simp add: upt_conv_Cons)
  show ?case
  proof (cases "i = a")
    case True
    then show ?thesis using Suc.prems(1) unfolding upt by (cases "Suc a < m") (simp_all add: upt_conv_Cons)
  next
    case False
    then show ?thesis using Suc.hyps(1) [of "Suc a" "int a"] Suc.hyps(2) Suc.prems unfolding upt by auto
  qed
qed simp

lemma chain_upt_next:
  "chain_ok S [0..<length S] w \<Longrightarrow> i < length S \<Longrightarrow> sym_next (S ! i) = (if Suc i < length S then int (Suc i) else -1)"
  using links_upt [of S "-1" 0 "length S" "-1" i] by (simp add: chain_ok_def)

lemma pair_text:
  assumes "chain_ok S ls w" and "i \<in> set ls" and "sym_next (S ! i) = int j"
  shows "j \<in> set ls" and "sym_str (S ! i) @ sym_str (S ! j) = take (sym_n (S ! i) + sym_n (S ! j)) (sym_text (S ! i))"
proof -
  obtain as bs where ls: "ls = as @ i # j # bs" using chain_next [OF assms(1,2)] assms(3) by auto
  then show "j \<in> set ls" by simp
  show "sym_str (S ! i) @ sym_str (S ! j) = take (sym_n (S ! i) + sym_n (S ! j)) (sym_text (S ! i))"
    using chain_adjacent(14) [of S as i j bs w] assms(1) ls by (simp add: sym_str_def take_add)
qed

lemma merge_sym_text: "l < length S \<Longrightarrow> r < length S \<Longrightarrow> sym_text (merge_symbols l r S ! i) = sym_text (S ! i)"
  by (simp add: merge_symbols_def Let_def nth_update)

section \<open>The contract\<close>

definition least_entry :: "'k::linorder entry set \<Rightarrow> 'k entry \<Rightarrow> bool" where
  "least_entry E e \<longleftrightarrow> (case e of (l, r, sz, k) \<Rightarrow> \<forall>(i, j, s, k') \<in> E. k < k' \<or> k = k' \<and> l \<le> i)"

definition session_ok :: "(bytes \<Rightarrow> bytes \<Rightarrow> 'k option) \<Rightarrow> (bytes \<Rightarrow> bool) \<Rightarrow> (llm_symbol list \<Rightarrow> 'q \<Rightarrow> bool) \<Rightarrow> ('q \<Rightarrow> 'k entry set) \<Rightarrow>
    llm_symbol list \<Rightarrow> nat list \<Rightarrow> bytes \<Rightarrow> 'q \<Rightarrow> bool" where
  "session_ok cand text_ok qinv entries S ls w Q \<longleftrightarrow> text_ok w \<and> chain_ok S ls w \<and> q_sound cand S (entries Q) \<and>
     q_complete cand S ls (entries Q) \<and> qinv S Q"

lemma session_okD:
  assumes "session_ok cand text_ok qinv entries S ls w Q"
  shows "text_ok w" and "chain_ok S ls w" and "q_sound cand S (entries Q)" and "q_complete cand S ls (entries Q)" and "qinv S Q"
  using assms by (simp_all add: session_ok_def)

locale merge_session =
  fixes cand :: "bytes \<Rightarrow> bytes \<Rightarrow> 'k::linorder option"
    and text_ok :: "bytes \<Rightarrow> bool"
    and qinv :: "llm_symbol list \<Rightarrow> 'q \<Rightarrow> bool"
    and entries :: "'q \<Rightarrow> 'k entry set"
    and weight :: "'q \<Rightarrow> nat"
    and add :: "llm_symbol list \<Rightarrow> int \<Rightarrow> int \<Rightarrow> 'q \<Rightarrow> 'q option"
    and pop :: "'q \<Rightarrow> ('k entry \<times> 'q) option"
    and loop :: "llm_symbol list \<Rightarrow> 'q \<Rightarrow> 'r option"
    and result :: "llm_symbol list \<Rightarrow> 'q \<Rightarrow> 'r"
  assumes add_ok: "\<lbrakk>chain_ok S ls w; text_ok w; qinv S Q; a \<noteq> -1 \<longrightarrow> 0 \<le> a \<and> nat a \<in> set ls \<and> sym_next (S ! nat a) = b\<rbrakk> \<Longrightarrow>
      \<exists>Q'. add S a b Q = Some Q' \<and> qinv S Q' \<and> entries Q' = entries Q \<union> new_entries cand S a b"
    and pop_empty: "pop Q = None \<Longrightarrow> entries Q = {}"
    and pop_least: "pop Q = Some (e, Q') \<Longrightarrow> e \<in> entries Q \<and> least_entry (entries Q) e"
    and pop_rest: "pop Q = Some (e, Q') \<Longrightarrow> entries Q' \<subseteq> entries Q \<and> entries Q \<subseteq> insert e (entries Q') \<and> weight Q' < weight Q"
    and pop_inv: "pop Q = Some (e, Q') \<Longrightarrow> qinv S Q \<Longrightarrow> qinv S Q'"
    and merge_inv: "chain_ok S (as @ l # r # bs) w \<Longrightarrow> qinv S Q \<Longrightarrow> qinv (merge_symbols l r S) Q"
    and loop_done: "pop Q = None \<Longrightarrow> loop S Q = Some (result S Q)"
    and loop_stale: "\<lbrakk>session_ok cand text_ok qinv entries S ls w Q; pop Q = Some (e, Q'); \<not> fresh S e\<rbrakk> \<Longrightarrow> loop S Q = loop S Q'"
    and loop_merge: "\<lbrakk>session_ok cand text_ok qinv entries S ls w Q; pop Q = Some ((l, r, sz, k), Q'); fresh S (l, r, sz, k);
        S' = merge_symbols l r S;
        Option.bind (add S' (sym_prev (S' ! l)) (int l) Q') (add S' (int l) (sym_next (S' ! l))) = Some Q''\<rbrakk> \<Longrightarrow>
      loop S Q = loop S' Q''"
begin

abbreviation ok :: "llm_symbol list \<Rightarrow> nat list \<Rightarrow> bytes \<Rightarrow> 'q \<Rightarrow> bool" where
  "ok \<equiv> session_ok cand text_ok qinv entries"

lemma stale_ok:
  assumes "ok S ls w Q" and "pop Q = Some (e, Q')" and "\<not> fresh S e"
  shows "ok S ls w Q'"
  using session_okD [OF assms(1)] pop_rest [OF assms(2)] pop_inv [OF assms(2)] assms(3)
    q_stale [of S ls w cand "entries Q" "entries Q'" e]
  by (simp add: session_ok_def)

lemma merge_ok:
  assumes ok: "ok S (as @ l # r # bs) w Q" and pop: "pop Q = Some ((l, r, sz, k), Q')" and S': "S' = merge_symbols l r S"
  shows "\<exists>Q''. Option.bind (add S' (sym_prev (S' ! l)) (int l) Q') (add S' (int l) (sym_next (S' ! l))) = Some Q'' \<and>
    ok S' (as @ l # bs) w Q''"
proof -
  note d = session_okD [OF ok]
  have sub: "entries Q' \<subseteq> entries Q" "entries Q \<subseteq> insert (l, r, sz, k) (entries Q')" using pop_rest [OF pop] by auto
  note q = q_merge [OF d(2-4) sub S' refl]
  have "qinv S' Q'" unfolding S' by (rule merge_inv [OF d(2) pop_inv [OF pop d(5)]])
  then obtain Q1 where Q1: "add S' (sym_prev (S' ! l)) (int l) Q' = Some Q1" "qinv S' Q1"
    "entries Q1 = entries Q' \<union> new_entries cand S' (sym_prev (S' ! l)) (int l)"
    using add_ok [OF q(1) d(1), of Q' "sym_prev (S' ! l)" "int l"] chain_prev [OF q(1)] by blast
  obtain Q2 where Q2: "add S' (int l) (sym_next (S' ! l)) Q1 = Some Q2" "qinv S' Q2"
    "entries Q2 = entries Q1 \<union> new_entries cand S' (int l) (sym_next (S' ! l))"
    using add_ok [OF q(1) d(1) Q1(2), of "int l" "sym_next (S' ! l)"] by auto
  have "ok S' (as @ l # bs) w Q2" using q d(1) Q2(2,3) Q1(3) by (simp add: session_ok_def)
  then show ?thesis using Q1(1) Q2(1) by simp
qed

lemma pop_fresh:
  assumes ok: "ok S ls w Q" and pop: "pop Q = Some ((l, r, sz, k), Q')" and "fresh S (l, r, sz, k)"
  shows "\<exists>as bs. ls = as @ l # r # bs \<and> best_pair cand (pieces S ls) = Some (length as, k)"
  using front_is_best [OF session_okD(2,4,3) [OF ok]] pop_least [OF pop] assms(3) by (auto simp: least_entry_def)

lemma fresh_range:
  assumes "ok S ls w Q" and "pop Q = Some ((l, r, sz, k), Q')"
  shows "l < length S" and "r < length S"
  using q_soundD(1,2) [OF session_okD(3) [OF assms(1)]] pop_least [OF assms(2)] by blast+

lemma loop_correct:
  assumes "ok S ls w Q"
  shows "\<exists>S' ls' Q'. loop S Q = Some (result S' Q') \<and> chain_ok S' ls' w \<and> qinv S' Q' \<and>
    pieces S' ls' = greedy_merge cand (pieces S ls)"
  using assms
proof (induction "(live_count S, weight Q)" arbitrary: S Q ls rule: wf_induct_rule [OF wf_lex_prod [OF wf_less_than wf_less_than]])
  case 1
  note d = session_okD [OF 1(2)]
  show ?case
  proof (cases "pop Q")
    case None
    then have "best_pair cand (pieces S ls) = None" using nothing_left [OF d(2)] d(4) pop_empty by simp
    then have "greedy_merge cand (pieces S ls) = pieces S ls" by (simp add: greedy_merge.simps)
    then show ?thesis using loop_done [OF None] d(2,5) by metis
  next
    case (Some eQ)
    then obtain l r sz k Q' where pop: "pop Q = Some ((l, r, sz, k), Q')" by (metis prod.collapse)
    show ?thesis
    proof (cases "fresh S (l, r, sz, k)")
      case False
      have "((live_count S, weight Q'), live_count S, weight Q) \<in> less_than <*lex*> less_than"
        using pop_rest [OF pop] by simp
      from 1(1) [OF this stale_ok [OF 1(2) pop False]] show ?thesis using loop_stale [OF 1(2) pop False] by simp
    next
      case True
      obtain as bs where ls: "ls = as @ l # r # bs" and best: "best_pair cand (pieces S ls) = Some (length as, k)"
        using pop_fresh [OF 1(2) pop True] by blast
      define S' where "S' = merge_symbols l r S"
      obtain Q'' where Q'': "Option.bind (add S' (sym_prev (S' ! l)) (int l) Q') (add S' (int l) (sym_next (S' ! l))) = Some Q''"
        "ok S' (as @ l # bs) w Q''" using merge_ok [OF 1(2) [unfolded ls] pop S'_def] by blast
      have "live_count S' < live_count S"
        using merge_live_count [OF fresh_range [OF 1(2) pop]] True by (simp add: S'_def fresh_def)
      then have "((live_count S', weight Q''), live_count S, weight Q) \<in> less_than <*lex*> less_than" by simp
      note IH = 1(1) [OF this Q''(2)]
      have "pieces S' (as @ l # bs) = merge_at (length as) (pieces S ls)"
        using merge_at_pieces [of S as l r bs w] d(2) ls S'_def by simp
      then have "greedy_merge cand (pieces S ls) = greedy_merge cand (pieces S' (as @ l # bs))"
        using best by (simp add: greedy_merge.simps [of cand "pieces S ls"])
      then show ?thesis using IH loop_merge [OF 1(2) pop True S'_def Q''(1)] by simp
    qed
  qed
qed

lemma seed_ok:
  assumes ch: "chain_ok S [0..<length S] w" and w: "text_ok w" and Q0: "qinv S Q0" "entries Q0 = {}"
  shows "\<exists>Q. foldM (\<lambda>i Q. add S (int i - 1) (int i) Q) [1..<length S] Q0 = Some Q \<and> ok S [0..<length S] w Q"
proof -
  let ?ls = "[0..<length S]"
  define P where "P = (\<lambda>ds Q. qinv S Q \<and> q_sound cand S (entries Q) \<and>
    (\<forall>i \<in> set ds. new_entries cand S (int i - 1) (int i) \<subseteq> entries Q))"
  have step: "\<exists>Q'. add S (int i - 1) (int i) Q = Some Q' \<and> P (ds @ [i]) Q'"
    if upt: "[1..<length S] = ds @ i # todo" and PQ: "P ds Q" for ds i todo Q
  proof -
    have "i \<in> set [1..<length S]" using upt by simp
    then have i: "0 < i" "i < length S" by auto
    then have "sym_next (S ! (i - 1)) = int i" using chain_upt_next [OF ch, of "i - 1"] by simp
    then have a: "0 \<le> int i - 1 \<and> nat (int i - 1) \<in> set ?ls \<and> sym_next (S ! nat (int i - 1)) = int i"
      using i by (simp add: nat_diff_distrib')
    obtain Q' where Q': "add S (int i - 1) (int i) Q = Some Q'" "qinv S Q'"
      "entries Q' = entries Q \<union> new_entries cand S (int i - 1) (int i)"
      using add_ok [OF ch w, of Q "int i - 1" "int i"] a PQ by (auto simp: P_def)
    moreover have "q_sound cand S (new_entries cand S (int i - 1) (int i))" using a by (intro new_entries_sound [OF ch]) auto
    ultimately show ?thesis using PQ by (auto simp: P_def q_sound_union)
  qed
  have "\<exists>Q. foldM (\<lambda>i Q. add S (int i - 1) (int i) Q) [1..<length S] Q0 = Some Q \<and> P [1..<length S] Q"
    by (rule foldM_inv) (simp add: P_def Q0 q_sound_def, rule step)
  then obtain Q where Q: "foldM (\<lambda>i Q. add S (int i - 1) (int i) Q) [1..<length S] Q0 = Some Q" "P [1..<length S] Q" by blast
  have "q_complete cand S ?ls (entries Q)" unfolding q_complete_def
  proof (intro ballI allI impI)
    fix i j k
    assume i: "i \<in> set ?ls" and c: "sym_next (S ! i) = int j \<and> cand (sym_str (S ! i)) (sym_str (S ! j)) = Some k"
    have "j = Suc i" "j < length S" using chain_upt_next [OF ch, of i] i c by (auto split: if_splits)
    then have "j \<in> set [1..<length S]" "int j - 1 = int i" by auto
    moreover from this have "new_entries cand S (int j - 1) (int j) \<subseteq> entries Q" using Q(2) unfolding P_def by blast
    ultimately have "new_entries cand S (int i) (int j) \<subseteq> entries Q" by simp
    then show "(i, j, sym_n (S ! i) + sym_n (S ! j), k) \<in> entries Q" using c by (simp add: new_entries_def)
  qed
  then show ?thesis using Q ch w by (auto simp: session_ok_def P_def)
qed

text \<open>From the characters of a text to its merged pieces.\<close>

lemma session_correct:
  assumes "text_ok w" and "qinv (split_symbols w 0) Q0" and "entries Q0 = {}"
  shows "\<exists>Q S' ls' Q'. foldM (\<lambda>i Q. add (split_symbols w 0) (int i - 1) (int i) Q) [1..<length (split_symbols w 0)] Q0 = Some Q \<and>
    loop (split_symbols w 0) Q = Some (result S' Q') \<and> chain_ok S' ls' w \<and> qinv S' Q' \<and>
    pieces S' ls' = greedy_merge cand (utf8_chars w)"
proof -
  let ?S = "split_symbols w 0"
  obtain Q where Q: "foldM (\<lambda>i Q. add ?S (int i - 1) (int i) Q) [1..<length ?S] Q0 = Some Q" "ok ?S [0..<length ?S] w Q"
    using seed_ok [OF split_chain assms(1,2,3)] by blast
  have "pieces ?S [0..<length ?S] = map sym_str (map ((!) ?S) [0..<length ?S])" by (simp add: pieces_def)
  then have "pieces ?S [0..<length ?S] = utf8_chars w" by (simp only: map_nth split_pieces)
  then show ?thesis using loop_correct [OF Q(2)] Q(1) by metis
qed

end

end
