(* ===== verification/BpeTokenizer.thy ===== *)
theory BpeTokenizer
  imports MergeSession
begin

text \<open>
  \<^verbatim>\<open>src/llama-vocab.cpp\<close>: \<^verbatim>\<open>llm_tokenizer_bpe_session::tokenize\<close> from the words its regular expressions
  produce to the tokens. \<open>None\<close> is a failed assertion or a read outside an array.
\<close>

section \<open>Definitions\<close>

record llm_bigram_bpe =
  bb_left :: nat
  bb_right :: nat
  bb_text :: bytes
  bb_rank :: int
  bb_size :: nat

definition bpe_worse :: "llm_bigram_bpe \<Rightarrow> llm_bigram_bpe \<Rightarrow> bool" where
  "bpe_worse l r \<longleftrightarrow> bb_rank l > bb_rank r \<or> bb_rank l = bb_rank r \<and> bb_left l > bb_left r"

definition add_new_bigram :: "vocab \<Rightarrow> llm_symbol list \<Rightarrow> int \<Rightarrow> int \<Rightarrow> llm_bigram_bpe list \<Rightarrow> llm_bigram_bpe list option" where
  "add_new_bigram V S left right Q =
     (if left = -1 \<or> right = -1 then Some Q
      else if \<not> (0 \<le> left \<and> left < int (length S) \<and> 0 \<le> right \<and> right < int (length S)) then None
      else
        let left_token = sym_str (S ! nat left);
            right_token = sym_str (S ! nat right)
        in Option.bind (find_bpe_rank V left_token right_token) (\<lambda>rank_found.
             if rank_found < 0 then Some Q
             else Some (Q @ [\<lparr>bb_left = nat left, bb_right = nat right, bb_text = left_token @ right_token,
                    bb_rank = rank_found, bb_size = length left_token + length right_token\<rparr>])))"

definition bpe_seed :: "vocab \<Rightarrow> llm_symbol list \<Rightarrow> llm_bigram_bpe list option" where
  "bpe_seed V S = foldM (\<lambda>i Q. add_new_bigram V S (int i - 1) (int i) Q) [1..<length S] []"

text \<open>The loop that builds the tokens of a word.\<close>

function bpe_loop :: "vocab \<Rightarrow> llm_symbol list \<Rightarrow> llm_bigram_bpe list \<Rightarrow> llm_symbol list option" where
  "bpe_loop V S Q =
     (if Q = [] then Some S
      else
        let (bigram, Q') = pq_pop bpe_worse Q;
            l = bb_left bigram; r = bb_right bigram
        in if \<not> (l < length S \<and> r < length S) then None
           else if sym_n (S ! l) = 0 \<or> sym_n (S ! r) = 0 then bpe_loop V S Q'
           else if sym_str (S ! l) @ sym_str (S ! r) \<noteq> bb_text bigram then bpe_loop V S Q'
           else
             let S' = merge_symbols l r S
             in case Option.bind (add_new_bigram V S' (sym_prev (S' ! l)) (int l) Q')
                       (add_new_bigram V S' (int l) (sym_next (S' ! l))) of
                  None \<Rightarrow> None
                | Some Q'' \<Rightarrow> bpe_loop V S' Q'')"
  by auto

interpretation bpe_queue: priority_order bpe_worse
  by unfold_locales (auto simp: bpe_worse_def)

termination bpe_loop
  by (relation "measures [\<lambda>(V, S, Q). live_count S, \<lambda>(V, S, Q). length Q]")
     (auto simp: merge_live_count dest: bpe_queue.pq_pop_top(5) [OF _ sym])

declare bpe_loop.simps [simp del]

text \<open>The symbols of one word, merged.\<close>

definition bpe_word :: "vocab \<Rightarrow> bytes \<Rightarrow> llm_symbol list option" where
  "bpe_word V word =
     (let S = (if ignore_merges V \<and> text_to_token V word \<noteq> -1
               then [\<lparr>sym_prev = -1, sym_next = -1, sym_text = word, sym_n = length word\<rparr>]
               else split_symbols word 0)
      in Option.bind (bpe_seed V S) (bpe_loop V S))"

text \<open>Appending the live symbols of a word to \<^verbatim>\<open>symbols_final\<close>, with \<^verbatim>\<open>final_prev_index\<close>.\<close>

definition final_step :: "llm_symbol \<Rightarrow> llm_symbol list \<times> int \<Rightarrow> llm_symbol list \<times> int" where
  "final_step s0 st =
     (case st of (F, final_prev_index) \<Rightarrow>
        if 0 < sym_n s0 then
          let s0 = s0\<lparr>sym_prev := final_prev_index, sym_next := -1\<rparr>;
              F = (if final_prev_index \<noteq> -1
                   then F[nat final_prev_index := (F ! nat final_prev_index)\<lparr>sym_next := int (length F)\<rparr>] else F);
              F = F @ [s0]
          in (F, int (length F) - 1)
        else (F, final_prev_index))"

definition emit_symbol :: "vocab \<Rightarrow> bytes \<Rightarrow> int list" where
  "emit_symbol V str =
     (let token = text_to_token V str
      in if token = -1 then filter (\<lambda>t. t \<noteq> -1) (map (\<lambda>j. text_to_token V [j]) str) else [token])"

text \<open>The loop over the links of \<^verbatim>\<open>symbols_final\<close>, with fuel.\<close>

fun emit_loop :: "nat \<Rightarrow> vocab \<Rightarrow> llm_symbol list \<Rightarrow> int \<Rightarrow> int list \<Rightarrow> int list option" where
  "emit_loop fuel V F i output =
     (if i = -1 then Some output
      else case fuel of 0 \<Rightarrow> None
        | Suc fuel \<Rightarrow>
            if \<not> (0 \<le> i \<and> i < int (length F)) then None
            else
              let symbol = F ! nat i
              in emit_loop fuel V F (sym_next symbol)
                   (if sym_n symbol = 0 then output else output @ emit_symbol V (sym_str symbol)))"

declare emit_loop.simps [simp del]

definition bpe_tokenize :: "vocab \<Rightarrow> bytes list \<Rightarrow> int list \<Rightarrow> int list option" where
  "bpe_tokenize V words output =
     Option.bind (foldM (\<lambda>word st. map_option (\<lambda>S. fold final_step S st) (bpe_word V word)) words ([], -1))
       (\<lambda>(F, _). if F = [] then Some output else emit_loop (length F) V F 0 output)"

section \<open>The loop merges like the reference\<close>

text \<open>The pairs that can be merged, with their rank.\<close>

definition bpe_cand :: "vocab \<Rightarrow> bytes \<Rightarrow> bytes \<Rightarrow> int option" where
  "bpe_cand V a b = (case bpe_ranks V (a, b) of Some rank \<Rightarrow> if rank < 0 then None else Some rank | None \<Rightarrow> None)"

definition bpe_entry :: "llm_bigram_bpe \<Rightarrow> int entry" where
  "bpe_entry b = (bb_left b, bb_right b, bb_size b, bb_rank b)"

definition no_space :: "bytes \<Rightarrow> bool" where
  "no_space w \<longleftrightarrow> 32 \<notin> set w \<and> 10 \<notin> set w"

definition bpe_texts :: "llm_symbol list \<Rightarrow> llm_bigram_bpe list \<Rightarrow> bool" where
  "bpe_texts S Q \<longleftrightarrow> (\<forall>b \<in> set Q. bb_size b = length (bb_text b) \<and> bb_text b = take (bb_size b) (sym_text (S ! bb_left b)))"

lemma bpe_texts_snoc:
  "bpe_texts S Q \<Longrightarrow> t = take n (sym_text (S ! i)) \<Longrightarrow> n = length t \<Longrightarrow>
   bpe_texts S (Q @ [\<lparr>bb_left = i, bb_right = j, bb_text = t, bb_rank = k, bb_size = n\<rparr>])"
  unfolding bpe_texts_def
  by (simp only: set_append ball_Un list.set ball_simps llm_bigram_bpe.select_convs simp_thms)

text \<open>Pushing the pair of a live symbol and its successor.\<close>

lemma add_new_bigram_eq:
  assumes ch: "chain_ok S ls w" and "no_space w" and "bpe_texts S Q"
    and a: "a \<noteq> -1 \<longrightarrow> 0 \<le> a \<and> nat a \<in> set ls \<and> sym_next (S ! nat a) = b"
  shows "\<exists>Q'. add_new_bigram V S a b Q = Some Q' \<and> bpe_texts S Q' \<and>
    bpe_entry ` set Q' = bpe_entry ` set Q \<union> new_entries (bpe_cand V) S a b"
proof (cases "a = -1 \<or> b = -1")
  case True
  then show ?thesis using assms(3) by (auto simp: add_new_bigram_def new_entries_def)
next
  case False
  let ?l = "sym_str (S ! nat a)" and ?r = "sym_str (S ! nat b)"
  have i: "0 \<le> a" "nat a \<in> set ls" "sym_next (S ! nat a) = b" using a False by auto
  then obtain j where j: "b = int j" using chain_next [OF ch i(2)] False by auto
  have p: "j \<in> set ls" "?l @ ?r = take (sym_n (S ! nat a) + sym_n (S ! j)) (sym_text (S ! nat a))"
    using pair_text [OF ch i(2), of j] i(3) j by auto
  have len: "length ?l = sym_n (S ! nat a)" "length ?r = sym_n (S ! j)"
    using chain_str_length [OF ch] i(2) p(1) j by auto
  have range: "a < int (length S)" "j < length S" using i(1,2) p(1) by (auto simp: chain_live [OF ch])
  have "32 \<notin> set ?l" "10 \<notin> set ?l" "32 \<notin> set ?r" "10 \<notin> set ?r"
    using chain_str_set [OF ch] i(2) p(1) j assms(2) by (fastforce simp: no_space_def)+
  then have rank: "find_bpe_rank V ?l ?r = Some (case bpe_ranks V (?l, ?r) of Some rank \<Rightarrow> rank | None \<Rightarrow> -1)"
    by (simp add: find_bpe_rank_def)
  show ?thesis
  proof (cases "bpe_cand V ?l ?r")
    case None
    then show ?thesis using rank range i(1) j False assms(3)
      by (auto simp: add_new_bigram_def new_entries_def bpe_cand_def split: option.splits if_splits)
  next
    case (Some k)
    then have k: "bpe_ranks V (?l, ?r) = Some k" "0 \<le> k" by (auto simp: bpe_cand_def split: option.splits if_splits)
    let ?b = "\<lparr>bb_left = nat a, bb_right = j, bb_text = ?l @ ?r, bb_rank = k, bb_size = length ?l + length ?r\<rparr>"
    have "add_new_bigram V S a b Q = Some (Q @ [?b])"
      using rank range i(1) j False k by (simp add: add_new_bigram_def Let_def)
    moreover have "?l @ ?r = take (length ?l + length ?r) (sym_text (S ! nat a))" unfolding len by (rule p(2))
    then have "bpe_texts S (Q @ [?b])" by (rule bpe_texts_snoc [OF assms(3)]) (rule length_append [symmetric])
    moreover have "new_entries (bpe_cand V) S a b = {bpe_entry ?b}"
      using Some j False len by (simp add: new_entries_def bpe_entry_def)
    ultimately show ?thesis by auto
  qed
qed

text \<open>The test for an outdated pair is exact.\<close>

abbreviation bpe_ok :: "vocab \<Rightarrow> llm_symbol list \<Rightarrow> nat list \<Rightarrow> bytes \<Rightarrow> llm_bigram_bpe list \<Rightarrow> bool" where
  "bpe_ok V \<equiv> session_ok (bpe_cand V) no_space bpe_texts (\<lambda>Q. bpe_entry ` set Q)"

lemma bpe_fresh_iff:
  assumes "bpe_ok V S ls w Q" and "b \<in> set Q"
  shows "bb_left b < length S" and "bb_right b < length S"
    and "fresh S (bpe_entry b) \<longleftrightarrow> 0 < sym_n (S ! bb_left b) \<and> 0 < sym_n (S ! bb_right b) \<and>
      sym_str (S ! bb_left b) @ sym_str (S ! bb_right b) = bb_text b"
proof -
  note inv = session_okD(2,3,5) [OF assms(1)]
  have "(bb_left b, bb_right b, bb_size b, bb_rank b) \<in> bpe_entry ` set Q"
    using assms(2) by (force simp: bpe_entry_def)
  note d = q_soundD [OF inv(2) this]
  show "bb_left b < length S" "bb_right b < length S" by (rule d(1,2))+
  show "fresh S (bpe_entry b) \<longleftrightarrow> 0 < sym_n (S ! bb_left b) \<and> 0 < sym_n (S ! bb_right b) \<and>
      sym_str (S ! bb_left b) @ sym_str (S ! bb_right b) = bb_text b"
  proof (cases "0 < sym_n (S ! bb_left b) \<and> 0 < sym_n (S ! bb_right b)")
    case True
    then have live: "bb_left b \<in> set ls" "bb_right b \<in> set ls" using d(1,2) by (simp_all add: chain_live [OF inv(1)])
    have t: "bb_size b = length (bb_text b)" "bb_text b = take (bb_size b) (sym_text (S ! bb_left b))"
      using inv(3) assms(2) unfolding bpe_texts_def by blast+
    have "bb_size b = sym_n (S ! bb_left b) + sym_n (S ! bb_right b) \<longleftrightarrow>
        sym_str (S ! bb_left b) @ sym_str (S ! bb_right b) = bb_text b"
    proof
      assume sz: "bb_size b = sym_n (S ! bb_left b) + sym_n (S ! bb_right b)"
      then have "sym_next (S ! bb_left b) = int (bb_right b)" using d(3) True by (simp add: fresh_def)
      then show "sym_str (S ! bb_left b) @ sym_str (S ! bb_right b) = bb_text b"
        using pair_text(2) [OF inv(1) live(1)] sz t(2) by simp
    next
      assume "sym_str (S ! bb_left b) @ sym_str (S ! bb_right b) = bb_text b"
      then show "bb_size b = sym_n (S ! bb_left b) + sym_n (S ! bb_right b)"
        using t(1) chain_str_length [OF inv(1)] live by (metis length_append)
    qed
    then show ?thesis using True by (simp add: fresh_def bpe_entry_def)
  qed (auto simp: fresh_def bpe_entry_def)
qed

definition bpe_pop :: "llm_bigram_bpe list \<Rightarrow> (int entry \<times> llm_bigram_bpe list) option" where
  "bpe_pop Q = (if Q = [] then None else case pq_pop bpe_worse Q of (b, Q') \<Rightarrow> Some (bpe_entry b, Q'))"

lemma bpe_popE:
  assumes "bpe_pop Q = Some (e, Q')"
  obtains b where "Q \<noteq> []" "pq_pop bpe_worse Q = (b, Q')" "e = bpe_entry b" "b \<in> set Q"
  using assms bpe_queue.pq_pop_top(1) [of Q] by (auto simp: bpe_pop_def split: if_splits prod.splits)

lemma bpe_texts_merge:
  assumes "chain_ok S (as @ l # r # bs) w" and "bpe_texts S Q"
  shows "bpe_texts (merge_symbols l r S) Q"
  using assms(2) chain_adjacent(1,2) [OF assms(1)] merge_sym_text [of l S r]
  unfolding bpe_texts_def by (metis less_trans)

lemma bpe_loop_stale:
  assumes "bpe_ok V S ls w Q" and "bpe_pop Q = Some (e, Q')" and "\<not> fresh S e"
  shows "bpe_loop V S Q = bpe_loop V S Q'"
proof -
  from assms(2) obtain b where b: "Q \<noteq> []" "pq_pop bpe_worse Q = (b, Q')" "e = bpe_entry b" "b \<in> set Q" by (rule bpe_popE)
  then show ?thesis using bpe_fresh_iff [OF assms(1) b(4)] assms(3) by (auto simp: bpe_loop.simps [of V S Q] Let_def)
qed

lemma bpe_loop_merge:
  assumes "bpe_ok V S ls w Q" and "bpe_pop Q = Some ((l, r, sz, k), Q')" and "fresh S (l, r, sz, k)" and "S' = merge_symbols l r S"
    and "Option.bind (add_new_bigram V S' (sym_prev (S' ! l)) (int l) Q') (add_new_bigram V S' (int l) (sym_next (S' ! l))) = Some Q''"
  shows "bpe_loop V S Q = bpe_loop V S' Q''"
proof -
  from assms(2) obtain b where b: "Q \<noteq> []" "pq_pop bpe_worse Q = (b, Q')" "(l, r, sz, k) = bpe_entry b" "b \<in> set Q" by (rule bpe_popE)
  then have "bb_left b = l" "bb_right b = r" by (simp_all add: bpe_entry_def)
  then show ?thesis using bpe_fresh_iff [OF assms(1) b(4)] b assms(3,5)
    by (simp add: bpe_loop.simps [of V S Q] Let_def assms(4) [symmetric])
qed

interpretation bpe: merge_session "bpe_cand V" no_space bpe_texts "\<lambda>Q. bpe_entry ` set Q" length
  "add_new_bigram V" bpe_pop "bpe_loop V" "\<lambda>S Q. S"
proof (unfold_locales, goal_cases)
  case (1 S ls w Q a b)
  then show ?case by (rule add_new_bigram_eq)
next
  case (3 Q e Q')
  then obtain b where "Q \<noteq> []" "pq_pop bpe_worse Q = (b, Q')" "e = bpe_entry b" by (rule bpe_popE)
  then show ?case using bpe_queue.pq_pop_top(1,2) [of Q b Q']
    by (fastforce simp: least_entry_def bpe_entry_def bpe_worse_def)
next
  case (4 Q e Q')
  then obtain b where "Q \<noteq> []" "pq_pop bpe_worse Q = (b, Q')" "e = bpe_entry b" by (rule bpe_popE)
  then show ?case using bpe_queue.pq_pop_top(3-5) [of Q b Q'] by auto
next
  case (5 Q e Q' S)
  then obtain b where "Q \<noteq> []" "pq_pop bpe_worse Q = (b, Q')" using bpe_popE by blast
  then have "set Q' \<subseteq> set Q" by (rule bpe_queue.pq_pop_top(3))
  with 5(2) show ?case unfolding bpe_texts_def by blast
next
  case (8 S ls w Q e Q')
  then show ?case by (rule bpe_loop_stale)
next
  case (9 S ls w Q l r sz k Q' S' Q'')
  then show ?case by (rule bpe_loop_merge)
qed (auto simp: bpe_pop_def bpe_loop.simps bpe_texts_merge split: if_splits prod.splits)

section \<open>The whole tokenizer\<close>

definition bpe_pieces :: "vocab \<Rightarrow> bytes \<Rightarrow> bytes list" where
  "bpe_pieces V w =
     (if ignore_merges V \<and> text_to_token V w \<noteq> -1 then filter (\<lambda>p. p \<noteq> []) [w]
      else greedy_merge (bpe_cand V) (utf8_chars w))"

lemma bpe_word_correct:
  assumes "no_space w"
  shows "\<exists>S. bpe_word V w = Some S \<and> map sym_str (filter (\<lambda>x. 0 < sym_n x) S) = bpe_pieces V w"
proof (cases "ignore_merges V \<and> text_to_token V w \<noteq> -1")
  case True
  let ?S = "[\<lparr>sym_prev = -1, sym_next = -1, sym_text = w, sym_n = length w\<rparr>]"
  have "bpe_word V w = Some ?S" using True by (simp add: bpe_word_def bpe_seed_def bpe_loop.simps)
  then show ?thesis using True by (simp add: bpe_pieces_def sym_str_def)
next
  case False
  obtain Q S' ls' where Q: "bpe_seed V (split_symbols w 0) = Some Q" "bpe_loop V (split_symbols w 0) Q = Some S'"
    and S': "chain_ok S' ls' w" "pieces S' ls' = greedy_merge (bpe_cand V) (utf8_chars w)"
    using bpe.session_correct [OF assms, of "[]" V] unfolding bpe_seed_def by (auto simp: bpe_texts_def)
  then have "map sym_str (filter (\<lambda>x. 0 < sym_n x) S') = bpe_pieces V w"
    using False chain_pieces_live [OF S'(1)] by (auto simp: bpe_pieces_def)
  moreover have "bpe_word V w = Some S'" using False Q by (auto simp: bpe_word_def Let_def)
  ultimately show ?thesis by blast
qed

definition final_ok :: "llm_symbol list \<Rightarrow> int \<Rightarrow> bool" where
  "final_ok F fp \<longleftrightarrow> fp = int (length F) - 1 \<and>
     (\<forall>i < length F. 0 < sym_n (F ! i) \<and> sym_next (F ! i) = (if Suc i < length F then int (Suc i) else -1))"

lemma final_step_ok:
  assumes "final_ok F fp" and "final_step s0 (F, fp) = (F', fp')"
  shows "final_ok F' fp' \<and> map sym_str F' = map sym_str F @ (if 0 < sym_n s0 then [sym_str s0] else [])"
proof (cases "0 < sym_n s0")
  case True
  let ?s = "s0\<lparr>sym_prev := fp, sym_next := -1\<rparr>"
  define G where "G = (if F = [] then F else F[length F - 1 := (F ! (length F - 1))\<lparr>sym_next := int (length F)\<rparr>])"
  have fp: "fp = int (length F) - 1" using assms(1) by (simp add: final_ok_def)
  then have F': "F' = G @ [?s]" "fp' = int (length F)"
    using assms(2) True by (auto simp: final_step_def G_def Let_def nat_diff_distrib')
  have len: "length G = length F" by (simp add: G_def)
  have nth: "G ! i = (if Suc i = length F then (F ! i)\<lparr>sym_next := int (length F)\<rparr> else F ! i)" if "i < length F" for i
    using that by (auto simp: G_def nth_list_update)
  have "final_ok F' fp'" using assms(1) True nth len
    by (auto simp: final_ok_def F' nth_append less_Suc_eq)
  moreover have "map sym_str G = map sym_str F"
  proof (rule nth_equalityI)
    fix i
    assume "i < length (map sym_str G)"
    then show "map sym_str G ! i = map sym_str F ! i" using nth [of i] len by (simp add: sym_str_def)
  qed (simp add: len)
  ultimately show ?thesis using True by (simp add: F' sym_str_def)
next
  case False
  then show ?thesis using assms by (simp add: final_step_def)
qed

lemma final_steps_ok:
  "final_ok F fp \<Longrightarrow> fold final_step S (F, fp) = (F', fp') \<Longrightarrow>
   final_ok F' fp' \<and> map sym_str F' = map sym_str F @ map sym_str (filter (\<lambda>x. 0 < sym_n x) S)"
proof (induction S arbitrary: F fp)
  case (Cons s0 S)
  obtain F1 fp1 where one: "final_step s0 (F, fp) = (F1, fp1)" by fastforce
  then show ?case using Cons.IH [of F1 fp1] Cons.prems final_step_ok [OF Cons.prems(1) one] by auto
qed simp

lemma emit_loop_ok:
  assumes "final_ok F fp" and "i < length F"
  shows "emit_loop (length F - i) V F (int i) out = Some (out @ concat (map (\<lambda>x. emit_symbol V (sym_str x)) (drop i F)))"
  using assms(2)
proof (induction "length F - i" arbitrary: i out)
  case (Suc d)
  have nxt: "0 < sym_n (F ! i)" "sym_next (F ! i) = (if Suc i < length F then int (Suc i) else -1)"
    using assms(1) Suc.prems by (auto simp: final_ok_def)
  have fuel: "length F - i = Suc (length F - Suc i)" using Suc.prems by simp
  have d: "drop i F = F ! i # drop (Suc i) F" using Suc.prems by (simp add: Cons_nth_drop_Suc)
  show ?case
  proof (cases "Suc i < length F")
    case True
    then show ?thesis using Suc.hyps(1) [of "Suc i"] Suc.hyps(2) nxt Suc.prems unfolding fuel
      by (simp add: emit_loop.simps [of "Suc (length F - Suc i)"] d)
  next
    case False
    then show ?thesis using nxt Suc.prems unfolding fuel
      by (simp add: emit_loop.simps [of "Suc 0"] emit_loop.simps [of 0] d)
  qed
qed simp

lemma utf8_chars_concat: "concat (utf8_chars w) = w"
  by (induction w rule: utf8_chars.induct) (simp add: utf8_chars.simps)

lemma bpe_pieces_concat: "concat (bpe_pieces V w) = w"
  by (simp add: bpe_pieces_def greedy_merge_concat utf8_chars_concat)

lemma bpe_tokenize_result:
  assumes "list_all no_space words"
  shows "bpe_tokenize V words out = Some (out @ concat (map (emit_symbol V) (concat (map (bpe_pieces V) words))))"
proof -
  let ?f = "\<lambda>word st. map_option (\<lambda>S. fold final_step S st) (bpe_word V word)"
  let ?P = "\<lambda>ds st. final_ok (fst st) (snd st) \<and> map sym_str (fst st) = concat (map (bpe_pieces V) ds)"
  have "\<exists>st. foldM ?f words ([], -1) = Some st \<and> ?P words st"
  proof (rule foldM_inv)
    fix ds word todo st
    assume w: "words = ds @ word # todo" and P: "?P ds st"
    then obtain S where S: "bpe_word V word = Some S" "map sym_str (filter (\<lambda>x. 0 < sym_n x) S) = bpe_pieces V word"
      using bpe_word_correct [of word V] assms by auto
    obtain F' fp' where "fold final_step S (fst st, snd st) = (F', fp')" by fastforce
    then show "\<exists>st'. ?f word st = Some st' \<and> ?P (ds @ [word]) st'"
      using final_steps_ok [of "fst st" "snd st" S F' fp'] P S by auto
  qed (simp add: final_ok_def)
  then obtain F fp where F: "foldM ?f words ([], -1) = Some (F, fp)" "final_ok F fp"
    "map sym_str F = concat (map (bpe_pieces V) words)" by auto
  have "bpe_tokenize V words out = Some (out @ concat (map (\<lambda>x. emit_symbol V (sym_str x)) F))"
    using F(1) emit_loop_ok [OF F(2), of 0 V out] by (cases "F = []") (simp_all add: bpe_tokenize_def)
  moreover have "map (\<lambda>x. emit_symbol V (sym_str x)) F = map (emit_symbol V) (concat (map (bpe_pieces V) words))"
    using arg_cong [OF F(3), of "map (emit_symbol V)"] by (simp add: comp_def)
  ultimately show ?thesis by simp
qed

lemma bpe_pieces_text: "concat (concat (map (bpe_pieces V) words)) = concat words"
  by (induction words) (simp_all add: bpe_pieces_concat)

text \<open>C19: The BPE tokenizer, from words to tokens. With its linked list of symbols, its priority queue and its lazy
  deletion of outdated pairs it ends on every word and computes exactly what the definition of byte-pair
  encoding says: start from the UTF-8 characters of the word and merge, as long as there is one, the
  adjacent pair of lowest rank, the leftmost of them (a word that is a token itself is kept whole
  when merges are ignored). The pieces of all words in order are the text, and each is output as its
  token, or byte by byte if it has none.\<close>

theorem bpe_tokenize_correct:
  assumes "list_all no_space words"
  shows "bpe_tokenize V words out = Some (out @ concat (map (emit_symbol V) (concat (map (bpe_pieces V) words)))) \<and>
    concat (concat (map (bpe_pieces V) words)) = concat words"
  using bpe_tokenize_result [OF assms] bpe_pieces_text by simp

definition demo_bpe :: vocab where
  "demo_bpe = vocab0\<lparr>v_type := BPE, token_to_id := map_of [([97], 0), ([98], 1), ([97, 98], 2)],
     bpe_ranks := map_of [(([97], [98]), 0)]\<rparr>"

theorem bpe_tokenize_correct_witness: "bpe_tokenize demo_bpe [[97, 97, 98], [98]] [] = Some [0, 2, 1]"
proof -
  have "concat (map (emit_symbol demo_bpe) (concat (map (bpe_pieces demo_bpe) [[97, 97, 98], [98]]))) = [0, 2, 1]"
    by code_simp
  moreover have "list_all no_space [[97, 97, 98], [98]]" by (simp add: no_space_def)
  ultimately show ?thesis using bpe_tokenize_correct [of "[[97, 97, 98], [98]]" demo_bpe "[]"] by simp
qed

end
