(* ===== verification/BpeRoundtrip.thy ===== *)
theory BpeRoundtrip
  imports BpeTokenizer
begin

text \<open>
  The BPE path end to end: words are spelled in the byte alphabet (\<open>BpeBytes\<close>), tokenised
  (\<open>BpeTokenizer\<close>), and the texts of the tokens are decoded again.
\<close>

section \<open>The alphabet\<close>

definition letter :: "u8 \<Rightarrow> bytes" where
  "letter b = enc (byte_cpt (unat b))"

lemma encode_shape:
  assumes "unicode_cpt_to_utf8 c = Inr bs" and "0x21 \<le> c"
  shows "bs \<noteq> []" and "unicode_len_utf8 (hd bs) = length bs" and "no_space bs"
proof -
  have c0: "c \<noteq> 0" using assms(2) by (auto simp: word_le_nat_alt)
  have high: "b \<noteq> 32 \<and> b \<noteq> 10" if "b AND 0x80 \<noteq> 0 \<or> drop_bit 6 b = 2" for b :: u8 using that by auto
  have "bs \<noteq> [] \<and> unicode_len_utf8 (hd bs) = length bs \<and> no_space bs"
    using assms(1)
  proof (cases rule: encode_cases)
    case len1
    have u: "unat (ucast c :: u8) = unat c"
      using len1(1) by (simp add: word_le_nat_alt unsigned_ucast_eq take_bit_nat_eq_self)
    have "(ucast c :: u8) \<noteq> 32" "(ucast c :: u8) \<noteq> 10"
      using u assms(2) by (auto simp: word_le_nat_alt)
    then show ?thesis using len1 lead_ok1 [OF c0 len1(1)] by (simp add: lead_ok_def Let_def no_space_def)
  next
    case (len2 l y)
    then show ?thesis using lead_ok2 [of "drop_bit 6 c"] cont_facts(2) [OF len2(3)] high
      by (simp add: lead_ok_def Let_def no_space_def)
  next
    case (len3 l y z)
    then show ?thesis using lead_ok3 [of "drop_bit 12 c"] cont_facts(2) [OF len3(3)] cont_facts(2) [OF len3(4)] high
      by (simp add: lead_ok_def Let_def no_space_def)
  next
    case (len4 l x y z)
    then show ?thesis
      using lead_ok4 [of "drop_bit 18 c"] cont_facts(2) [OF len4(3)] cont_facts(2) [OF len4(4)] cont_facts(2) [OF len4(5)] high
      by (simp add: lead_ok_def Let_def no_space_def)
  qed
  then show "bs \<noteq> []" and "unicode_len_utf8 (hd bs) = length bs" and "no_space bs" by auto
qed

lemma byte_cpt_ge: "0x21 \<le> byte_cpt ch"
  by (auto simp: byte_cpt_def direct_bytes_def)

lemma letter_shape: "letter b \<noteq> []" "unicode_len_utf8 (hd (letter b)) = length (letter b)" "no_space (letter b)"
proof -
  have "unat (of_nat (byte_cpt (unat b)) :: u32) = byte_cpt (unat b)" by (rule unat_small [OF byte_cpt_u8])
  then have "0x21 \<le> (of_nat (byte_cpt (unat b)) :: u32)" using byte_cpt_ge by (simp add: word_le_nat_alt)
  note e = encode_shape [OF enc [OF byte_cpt_u8] this]
  show "letter b \<noteq> []" "unicode_len_utf8 (hd (letter b)) = length (letter b)" "no_space (letter b)"
    unfolding letter_def by (rule e)+
qed

lemma encode_bytes_letters: "encode_bytes bs = Inr (concat (map letter bs))"
  by (induction bs) (simp_all add: byte_encode letter_def)

lemma letters_cpts: "unicode_cpts_to_utf8 (map (\<lambda>b. of_nat (byte_cpt (unat b))) bs) = Inr (concat (map letter bs))"
  by (induction bs) (simp_all add: enc [OF byte_cpt_u8] letter_def)

lemma decode_letters: "llama_decode_text (concat (map letter bs)) = Inr bs"
  using cpts_from_encode [OF letters_cpts, of "[]" bs] decode_cpts_bytes [of _ bs]
  by (simp add: llama_decode_text_def unicode_cpts_from_utf8_def)

lemma chars_letters: "utf8_chars (concat (map letter bs)) = map letter bs"
proof (induction bs)
  case (Cons b bs)
  have "concat (map letter (b # bs)) \<noteq> []" "hd (concat (map letter (b # bs))) = hd (letter b)"
    using letter_shape(1) [of b] by simp_all
  then show ?case using Cons letter_shape(2) [of b] by (simp add: utf8_chars.simps [of "letter b @ _"])
qed (simp add: utf8_chars.simps)

lemma no_space_letters: "no_space (concat (map letter bs))"
  using letter_shape(3) by (auto simp: no_space_def)

section \<open>Merging groups pieces\<close>

lemma nth_pair: "Suc m < length ts \<Longrightarrow> ts = take m ts @ ts ! m # ts ! Suc m # drop (Suc (Suc m)) ts"
  by (metis Cons_nth_drop_Suc Suc_lessD append_take_drop_id)

lemma greedy_merge_groups:
  "concat gss = ts0 \<Longrightarrow> map concat gss = ts \<Longrightarrow> \<exists>hss. concat hss = ts0 \<and> map concat hss = greedy_merge cand ts"
proof (induction cand ts arbitrary: gss rule: greedy_merge.induct)
  case (1 cand ts)
  show ?case
  proof (cases "best_pair cand ts")
    case None
    then show ?thesis using 1(2,3) by (auto simp: greedy_merge.simps [of cand ts])
  next
    case (Some mk)
    obtain m k where mk: "mk = (m, k)" by (cases mk)
    then have m: "Suc m < length ts" using best_pair_Some [of cand ts m k] Some by (auto simp: is_best_def)
    let ?hs = "take m gss @ (gss ! m @ gss ! Suc m) # drop (Suc (Suc m)) gss"
    have len: "Suc m < length gss" using m 1(3) by auto
    have "concat ?hs = concat gss" using nth_pair [OF len] by (metis append.assoc concat.simps(2) concat_append)
    moreover have "map concat ?hs = merge_at m ts"
      using len 1(3) by (auto simp: merge_at_def take_map drop_map)
    ultimately show ?thesis
      using 1(1) [OF Some mk [symmetric], of ?hs] 1(2) Some mk by (simp add: greedy_merge.simps [of cand ts])
  qed
qed

lemma greedy_merge_all:
  "list_all P ts \<Longrightarrow> (\<forall>a b k. cand a b = Some k \<longrightarrow> P (a @ b)) \<Longrightarrow> list_all P (greedy_merge cand ts)"
proof (induction cand ts rule: greedy_merge.induct)
  case (1 cand ts)
  show ?case
  proof (cases "best_pair cand ts")
    case None
    then show ?thesis using 1(2) by (simp add: greedy_merge.simps [of cand ts])
  next
    case (Some mk)
    obtain m k where mk: "mk = (m, k)" by (cases mk)
    then have "is_best cand ts (length ts - 1) m k" using best_pair_Some [of cand ts m k] Some by simp
    then have m: "Suc m < length ts" "cand (ts ! m) (ts ! Suc m) = Some k" by (auto simp: is_best_def)
    have "list_all P (merge_at m ts)"
      using 1(2,3) m by (auto simp: merge_at_def list_all_iff dest: in_set_takeD in_set_dropD)
    then show ?thesis using 1(1) [OF Some mk [symmetric]] 1(3) Some mk by (simp add: greedy_merge.simps [of cand ts])
  qed
qed

section \<open>Tokenise and decode\<close>

text \<open>What a BPE vocabulary promises: texts and tokens correspond, every letter is a token, and so is the
  result of every merge.\<close>

definition bpe_vocab_ok :: "vocab \<Rightarrow> (int \<Rightarrow> bytes) \<Rightarrow> bool" where
  "bpe_vocab_ok V token_text \<longleftrightarrow>
     (\<forall>s t. token_to_id V s = Some t \<longrightarrow> t \<noteq> -1 \<and> token_text t = s) \<and>
     (\<forall>b. token_to_id V (letter b) \<noteq> None) \<and>
     (\<forall>a b r. bpe_ranks V (a, b) = Some r \<longrightarrow> token_to_id V (a @ b) \<noteq> None)"

lemma piece_emit:
  "bpe_vocab_ok V tt \<Longrightarrow> token_to_id V p \<noteq> None \<Longrightarrow> \<exists>t. emit_symbol V p = [t] \<and> tt t = p"
  by (auto simp: bpe_vocab_ok_def emit_symbol_def text_to_token_def)

lemma bpe_pieces_letters:
  assumes "bpe_vocab_ok V tt"
  shows "\<exists>bss. bpe_pieces V (concat (map letter bs)) = map (\<lambda>bs. concat (map letter bs)) bss \<and> concat bss = bs"
    and "list_all (\<lambda>p. token_to_id V p \<noteq> None) (bpe_pieces V (concat (map letter bs)))"
proof -
  let ?w = "concat (map letter bs)"
  show "\<exists>bss. bpe_pieces V ?w = map (\<lambda>bs. concat (map letter bs)) bss \<and> concat bss = bs"
  proof (cases "ignore_merges V \<and> text_to_token V ?w \<noteq> -1")
    case True
    then have "bpe_pieces V ?w = filter (\<lambda>p. p \<noteq> []) [?w]" unfolding bpe_pieces_def by (rule if_P)
    moreover have "?w = [] \<longleftrightarrow> bs = []" using letter_shape(1) by (cases bs) auto
    ultimately show ?thesis by (intro exI [of _ "if bs = [] then [] else [bs]"]) (simp del: concat_eq_Nil_conv)
  next
    case False
    obtain hss where h: "concat hss = map letter bs" "map concat hss = greedy_merge (bpe_cand V) (map letter bs)"
      using greedy_merge_groups [of "map (\<lambda>p. [p]) (map letter bs)" "map letter bs" "map letter bs" "bpe_cand V"]
      by (auto simp: comp_def concat_map_singleton)
    have "\<exists>bss. hss = map (map letter) bss \<and> concat bss = bs" using h(1)
    proof (induction hss arbitrary: bs)
      case (Cons hs hss)
      then have "hs = map letter (take (length hs) bs)" "concat hss = map letter (drop (length hs) bs)"
        by (auto simp: append_eq_map_conv)
      moreover from Cons.IH [OF this(2)] obtain bss where "hss = map (map letter) bss" "concat bss = drop (length hs) bs" by auto
      ultimately show ?case by (intro exI [of _ "take (length hs) bs # bss"]) simp
    qed simp
    then obtain bss where bss: "hss = map (map letter) bss" "concat bss = bs" by blast
    moreover have "bpe_pieces V ?w = greedy_merge (bpe_cand V) (map letter bs)"
      unfolding bpe_pieces_def chars_letters using False by (rule if_not_P)
    ultimately show ?thesis using h(2) by (intro exI [of _ bss]) (simp add: comp_def)
  qed
  show "list_all (\<lambda>p. token_to_id V p \<noteq> None) (bpe_pieces V ?w)"
  proof (cases "ignore_merges V \<and> text_to_token V ?w \<noteq> -1")
    case True
    then show ?thesis by (auto simp: bpe_pieces_def text_to_token_def split: option.splits)
  next
    case False
    have "list_all (\<lambda>p. token_to_id V p \<noteq> None) (greedy_merge (bpe_cand V) (map letter bs))"
      using assms by (intro greedy_merge_all)
        (auto simp: bpe_vocab_ok_def list_all_iff bpe_cand_def split: option.splits if_splits)
    then show ?thesis unfolding bpe_pieces_def chars_letters if_not_P [OF False] .
  qed
qed

lemma pieces_decode:
  assumes "bpe_vocab_ok V tt" and "list_all (\<lambda>p. token_to_id V p \<noteq> None) (map (\<lambda>bs. concat (map letter bs)) bss)"
  shows "map (\<lambda>t. llama_decode_text (tt t)) (concat (map (emit_symbol V) (map (\<lambda>bs. concat (map letter bs)) bss))) = map Inr bss"
  using assms(2)
proof (induction bss)
  case (Cons bs bss)
  obtain t where "emit_symbol V (concat (map letter bs)) = [t]" "tt t = concat (map letter bs)"
    using piece_emit [OF assms(1), of "concat (map letter bs)"] Cons.prems by auto
  then show ?case using Cons by (simp add: decode_letters)
qed simp

lemma encode_words:
  assumes "list_all (\<lambda>w. \<exists>cs. unicode_cpts_to_utf8 cs = Inr w) words"
  shows "unicode_byte_encoding_process words = Inr (map (\<lambda>w. concat (map letter w)) words)"
  using assms
proof (induction words)
  case (Cons w words)
  then obtain cs where "unicode_cpts_to_utf8 cs = Inr w" by auto
  moreover from this have "unicode_cpts_from_utf8 w = cs"
    using cpts_from_encode [of cs w "[]"] by (simp add: unicode_cpts_from_utf8_def)
  ultimately show ?case using Cons by (simp add: encode_bytes_letters)
qed simp

text \<open>C26: Tokenising loses nothing. For a BPE vocabulary in which every letter of the byte alphabet and every
  merge result is a token, and words of valid UTF-8: the words are spelled in the byte alphabet, the tokenizer
  ends without a failed assertion, and decoding the texts of the tokens one by one and joining them
  gives the words back, byte for byte.\<close>

theorem bpe_detokenize_tokenize:
  assumes "bpe_vocab_ok V token_text" and "list_all (\<lambda>w. \<exists>cs. unicode_cpts_to_utf8 cs = Inr w) words"
  shows "\<exists>ws toks bss. unicode_byte_encoding_process words = Inr ws \<and> bpe_tokenize V ws [] = Some toks \<and>
    map (\<lambda>t. llama_decode_text (token_text t)) toks = map Inr bss \<and> concat bss = concat words"
proof -
  let ?L = "\<lambda>bs. concat (map letter bs)"
  let ?ws = "map ?L words"
  have "list_all no_space ?ws" by (simp add: list_all_iff no_space_letters)
  then have t: "bpe_tokenize V ?ws [] = Some (concat (map (emit_symbol V) (concat (map (bpe_pieces V) ?ws))))"
    using bpe_tokenize_result by simp
  have "\<exists>bss. concat (map (bpe_pieces V) ?ws) = map ?L bss \<and> concat bss = concat words \<and>
      list_all (\<lambda>p. token_to_id V p \<noteq> None) (map ?L bss)"
  proof (induction words)
    case (Cons w words)
    then obtain bss where bss: "concat (map (bpe_pieces V) (map ?L words)) = map ?L bss" "concat bss = concat words"
      "list_all (\<lambda>p. token_to_id V p \<noteq> None) (map ?L bss)" by blast
    obtain cs where "bpe_pieces V (?L w) = map ?L cs" "concat cs = w" "list_all (\<lambda>p. token_to_id V p \<noteq> None) (map ?L cs)"
      using bpe_pieces_letters [OF assms(1), of w] by auto
    then show ?case using bss by (intro exI [of _ "cs @ bss"]) simp
  qed simp
  then obtain bss where "concat (map (bpe_pieces V) ?ws) = map ?L bss" "concat bss = concat words"
    "list_all (\<lambda>p. token_to_id V p \<noteq> None) (map ?L bss)" by blast
  then show ?thesis using t encode_words [OF assms(2)] pieces_decode [OF assms(1), of bss] by auto
qed

definition demo_tokens :: "(bytes \<times> int) list" where
  "demo_tokens = map (\<lambda>n. (letter (of_nat n), int n)) [0..<256] @ [(letter 104 @ letter 105, 256)]"

definition demo_text :: "int \<Rightarrow> bytes" where
  "demo_text t = (if t = 256 then letter 104 @ letter 105 else letter (of_nat (nat t)))"

definition demo_byte_bpe :: vocab where
  "demo_byte_bpe = vocab0\<lparr>v_type := BPE, token_to_id := map_of demo_tokens, bpe_ranks := [(letter 104, letter 105) \<mapsto> 0]\<rparr>"

lemma demo_byte_bpe_ok: "bpe_vocab_ok demo_byte_bpe demo_text"
proof -
  have "t \<noteq> -1 \<and> demo_text t = s" if "map_of demo_tokens s = Some t" for s t
    using map_of_SomeD [OF that] by (auto simp: demo_tokens_def demo_text_def)
  moreover have "map_of demo_tokens (letter b) \<noteq> None" for b
  proof -
    have "unat b < 256" using unsigned_less [of b] by simp
    then have "unat b \<in> set [0..<256]" by (simp only: set_upt atLeastLessThan_iff le0 simp_thms)
    then have "(\<lambda>n. (letter (of_nat n), int n)) (unat b) \<in> set demo_tokens"
      unfolding demo_tokens_def set_append set_map by blast
    then have "letter b \<in> fst ` set demo_tokens" by (intro image_eqI) simp_all
    then show ?thesis by (simp add: map_of_eq_None_iff)
  qed
  moreover have "map_of demo_tokens (letter 104 @ letter 105) \<noteq> None"
    by (simp add: demo_tokens_def map_of_eq_None_iff)
  ultimately show ?thesis by (auto simp: bpe_vocab_ok_def demo_byte_bpe_def)
qed

theorem bpe_detokenize_tokenize_witness:
  "\<exists>ws toks bss. unicode_byte_encoding_process [[104, 105]] = Inr ws \<and> bpe_tokenize demo_byte_bpe ws [] = Some toks \<and>
    map (\<lambda>t. llama_decode_text (demo_text t)) toks = map Inr bss \<and> concat bss = [104, 105]"
proof -
  have "unicode_cpts_to_utf8 [104, 105] = Inr [104, 105]" by code_simp
  then have "\<exists>cs. unicode_cpts_to_utf8 cs = Inr [104, 105]" by (rule exI)
  then have "list_all (\<lambda>w. \<exists>cs. unicode_cpts_to_utf8 cs = Inr w) [[104, 105]]" by simp
  then show ?thesis using bpe_detokenize_tokenize [OF demo_byte_bpe_ok, of "[[104, 105]]"] by simp
qed

end
