(* ===== verification/SpmTokenizer.thy ===== *)
theory SpmTokenizer
  imports MergeSession
begin

text \<open>
  \<^verbatim>\<open>src/llama-vocab.cpp\<close>: \<^verbatim>\<open>llm_tokenizer_spm_session\<close>. Two adjacent symbols are merged when their joint text
  is a token, the token of highest score first. \<open>None\<close> is an exception or a read outside an array.
\<close>

section \<open>Definitions\<close>

record llm_bigram_spm =
  bs_left :: nat
  bs_right :: nat
  bs_score :: real
  bs_size :: nat

definition spm_worse :: "llm_bigram_spm \<Rightarrow> llm_bigram_spm \<Rightarrow> bool" where
  "spm_worse l r \<longleftrightarrow> bs_score l < bs_score r \<or> bs_score l = bs_score r \<and> bs_left l > bs_left r"

text \<open>The queue and the map from a text to the pair of symbols it was made of.\<close>

record spm_state =
  work_queue :: "llm_bigram_spm list"
  rev_merge :: "bytes \<Rightarrow> (nat \<times> nat) option"

definition try_add_bigram :: "vocab \<Rightarrow> llm_symbol list \<Rightarrow> int \<Rightarrow> int \<Rightarrow> spm_state \<Rightarrow> spm_state option" where
  "try_add_bigram V S left right Q =
     (if left = -1 \<or> right = -1 then Some Q
      else if \<not> (0 \<le> left \<and> left < int (length S) \<and> 0 \<le> right \<and> right < int (length S)) then None
      else
        let n = sym_n (S ! nat left) + sym_n (S ! nat right)
        in if length (sym_text (S ! nat left)) < n then None
           else
             let raw = take n (sym_text (S ! nat left));
                 token = text_to_token V raw
             in if token = -1 then Some Q
                else if int (n_tokens V) \<le> token mod 2 ^ 32 then Some Q
                else case get_token_data V token of
                    None \<Rightarrow> None
                  | Some tok_data \<Rightarrow>
                      Some (Q\<lparr>work_queue := work_queue Q @ [\<lparr>bs_left = nat left, bs_right = nat right,
                                bs_score = td_score tok_data, bs_size = length raw\<rparr>],
                              rev_merge := (rev_merge Q)(raw \<mapsto> (nat left, nat right))\<rparr>))"

definition spm_seed :: "vocab \<Rightarrow> llm_symbol list \<Rightarrow> spm_state option" where
  "spm_seed V S = foldM (\<lambda>i Q. try_add_bigram V S (int i - 1) (int i) Q) [1..<length S]
     \<lparr>work_queue = [], rev_merge = Map.empty\<rparr>"

interpretation spm_queue: priority_order spm_worse
  by unfold_locales (auto simp: spm_worse_def)

function spm_loop :: "vocab \<Rightarrow> llm_symbol list \<Rightarrow> spm_state \<Rightarrow> (llm_symbol list \<times> spm_state) option" where
  "spm_loop V S Q =
     (if work_queue Q = [] then Some (S, Q)
      else
        let (bigram, rest) = pq_pop spm_worse (work_queue Q);
            Q' = Q\<lparr>work_queue := rest\<rparr>;
            l = bs_left bigram; r = bs_right bigram
        in if \<not> (l < length S \<and> r < length S) then None
           else if sym_n (S ! l) = 0 \<or> sym_n (S ! r) = 0 \<or> sym_n (S ! l) + sym_n (S ! r) \<noteq> bs_size bigram
           then spm_loop V S Q'
           else
             let S' = merge_symbols l r S
             in case Option.bind (try_add_bigram V S' (sym_prev (S' ! l)) (int l) Q')
                       (try_add_bigram V S' (int l) (sym_next (S' ! l))) of
                  None \<Rightarrow> None
                | Some Q'' \<Rightarrow> spm_loop V S' Q'')"
  by auto

termination spm_loop
  by (relation "measures [\<lambda>(V, S, Q). live_count S, \<lambda>(V, S, Q). length (work_queue Q)]")
     (auto simp: merge_live_count dest: spm_queue.pq_pop_top(5) [OF _ sym])

declare spm_loop.simps [simp del]

text \<open>Output of a symbol. The recursion of the source has no bound of its own, so it has fuel.\<close>

fun resegment :: "nat \<Rightarrow> vocab \<Rightarrow> llm_symbol list \<Rightarrow> (bytes \<Rightarrow> (nat \<times> nat) option) \<Rightarrow> llm_symbol \<Rightarrow> int list \<Rightarrow> int list option" where
  "resegment 0 V S rm symbol output = None"
| "resegment (Suc fuel) V S rm symbol output =
     (let raw = sym_str symbol;
          token = text_to_token V raw
      in if token \<noteq> -1 then Some (output @ [token])
         else case rm raw of
             None \<Rightarrow> foldM (\<lambda>b out. map_option (\<lambda>t. out @ [t]) (byte_to_token V b)) raw output
           | Some (a, b) \<Rightarrow>
               if a < length S \<and> b < length S
               then Option.bind (resegment fuel V S rm (S ! a) output) (resegment fuel V S rm (S ! b))
               else None)"

declare resegment.simps(2) [simp del]

text \<open>The loop over the links of the symbols; \<open>fuel\<close> bounds its turns and the depth of \<open>resegment\<close>.\<close>

fun spm_output_loop :: "nat \<Rightarrow> vocab \<Rightarrow> llm_symbol list \<Rightarrow> (bytes \<Rightarrow> (nat \<times> nat) option) \<Rightarrow> int \<Rightarrow> int list \<Rightarrow> int list option" where
  "spm_output_loop fuel V S rm i output =
     (if i = -1 then Some output
      else case fuel of 0 \<Rightarrow> None
        | Suc fuel' \<Rightarrow>
            if \<not> (0 \<le> i \<and> i < int (length S)) then None
            else Option.bind (resegment fuel V S rm (S ! nat i) output)
                   (spm_output_loop fuel' V S rm (sym_next (S ! nat i))))"

declare spm_output_loop.simps [simp del]

definition spm_tokenize :: "vocab \<Rightarrow> bytes \<Rightarrow> int list \<Rightarrow> int list option" where
  "spm_tokenize V raw output =
     (let S = split_symbols raw 0
      in Option.bind (spm_seed V S) (\<lambda>Q. Option.bind (spm_loop V S Q)
           (\<lambda>(S, Q). spm_output_loop (length S) V S (rev_merge Q) 0 output)))"

section \<open>The loop merges like the reference\<close>

text \<open>The pairs that can be merged; the smallest key is the highest score.\<close>

definition spm_cand :: "vocab \<Rightarrow> bytes \<Rightarrow> bytes \<Rightarrow> real option" where
  "spm_cand V a b =
     (case token_to_id V (a @ b) of
        None \<Rightarrow> None
      | Some t \<Rightarrow> if t < int (n_tokens V) then Some (- td_score (id_to_token V ! nat t)) else None)"

definition spm_entry :: "llm_bigram_spm \<Rightarrow> real entry" where
  "spm_entry b = (bs_left b, bs_right b, bs_size b, - bs_score b)"

text \<open>Token ids are non-negative 32-bit integers.\<close>

definition spm_vocab_ok :: "vocab \<Rightarrow> bool" where
  "spm_vocab_ok V \<longleftrightarrow> v_type V = SPM \<and> (\<forall>s t. token_to_id V s = Some t \<longrightarrow> 0 \<le> t \<and> t < 2 ^ 31)"

text \<open>The first symbol is never merged away, and only texts of tokens are recorded in \<^verbatim>\<open>rev_merge\<close>.\<close>

definition spm_inv :: "vocab \<Rightarrow> llm_symbol list \<Rightarrow> spm_state \<Rightarrow> bool" where
  "spm_inv V S Q \<longleftrightarrow> 0 < length S \<and> 0 < sym_n (S ! 0) \<and> (\<forall>s. rev_merge Q s \<noteq> None \<longrightarrow> text_to_token V s \<noteq> -1)"

abbreviation spm_entries :: "spm_state \<Rightarrow> real entry set" where
  "spm_entries Q \<equiv> spm_entry ` set (work_queue Q)"

lemma try_add_bigram_eq:
  assumes ch: "chain_ok S ls w" and V: "spm_vocab_ok V" and "spm_inv V S Q"
    and a: "a \<noteq> -1 \<longrightarrow> 0 \<le> a \<and> nat a \<in> set ls \<and> sym_next (S ! nat a) = b"
  shows "\<exists>Q'. try_add_bigram V S a b Q = Some Q' \<and> spm_inv V S Q' \<and> spm_entries Q' = spm_entries Q \<union> new_entries (spm_cand V) S a b"
proof (cases "a = -1 \<or> b = -1")
  case True
  then show ?thesis using assms(3) by (auto simp: try_add_bigram_def new_entries_def)
next
  case False
  let ?l = "S ! nat a"
  have i: "0 \<le> a" "nat a \<in> set ls" "sym_next ?l = b" using a False by auto
  then obtain j where j: "b = int j" using chain_next [OF ch i(2)] False by auto
  let ?n = "sym_n ?l + sym_n (S ! j)"
  have p: "j \<in> set ls" "sym_str ?l @ sym_str (S ! j) = take ?n (sym_text ?l)"
    using pair_text [OF ch i(2), of j] i(3) j by auto
  have range: "a < int (length S)" "j < length S" using i(1,2) p(1) by (auto simp: chain_live [OF ch])
  have "length (sym_str ?l @ sym_str (S ! j)) = ?n" using chain_str_length [OF ch] i(2) p(1) by simp
  then have len: "?n \<le> length (sym_text ?l)" unfolding p(2) by simp
  show ?thesis
  proof (cases "token_to_id V (take ?n (sym_text ?l))")
    case None
    then show ?thesis using range i(1) j False assms(3) len p(2)
      by (auto simp: try_add_bigram_def new_entries_def spm_cand_def text_to_token_def)
  next
    case (Some t)
    then have t: "0 \<le> t" "t mod 2 ^ 32 = t" "v_type V \<noteq> NONE" using V by (force simp: spm_vocab_ok_def)+
    then show ?thesis using Some range i(1) j False assms(3) len p(2)
      by (auto simp: try_add_bigram_def new_entries_def spm_cand_def text_to_token_def get_token_data_def n_tokens_def
        spm_entry_def spm_inv_def)
  qed
qed

definition spm_pop :: "spm_state \<Rightarrow> (real entry \<times> spm_state) option" where
  "spm_pop Q = (if work_queue Q = [] then None
     else case pq_pop spm_worse (work_queue Q) of (b, rest) \<Rightarrow> Some (spm_entry b, Q\<lparr>work_queue := rest\<rparr>))"

lemma spm_popE:
  assumes "spm_pop Q = Some (e, Q')"
  obtains b rest where "work_queue Q \<noteq> []" "pq_pop spm_worse (work_queue Q) = (b, rest)" "e = spm_entry b"
    "Q' = Q\<lparr>work_queue := rest\<rparr>" "b \<in> set (work_queue Q)"
  using assms spm_queue.pq_pop_top(1) [of "work_queue Q"] by (auto simp: spm_pop_def split: if_splits prod.splits)

abbreviation spm_ok :: "vocab \<Rightarrow> llm_symbol list \<Rightarrow> nat list \<Rightarrow> bytes \<Rightarrow> spm_state \<Rightarrow> bool" where
  "spm_ok V \<equiv> session_ok (spm_cand V) (\<lambda>_. spm_vocab_ok V) (spm_inv V) spm_entries"

lemma spm_entry_range:
  assumes "spm_ok V S ls w Q" and "b \<in> set (work_queue Q)"
  shows "bs_left b < length S" and "bs_right b < length S"
proof -
  have "(bs_left b, bs_right b, bs_size b, - bs_score b) \<in> spm_entries Q" using assms(2) by (force simp: spm_entry_def)
  from q_soundD(1,2) [OF session_okD(3) [OF assms(1)] this]
  show "bs_left b < length S" and "bs_right b < length S" .
qed

lemma spm_loop_stale:
  assumes "spm_ok V S ls w Q" and "spm_pop Q = Some (e, Q')" and "\<not> fresh S e"
  shows "spm_loop V S Q = spm_loop V S Q'"
proof -
  from assms(2) obtain b rest where b: "work_queue Q \<noteq> []" "pq_pop spm_worse (work_queue Q) = (b, rest)" "e = spm_entry b"
    "Q' = Q\<lparr>work_queue := rest\<rparr>" "b \<in> set (work_queue Q)" by (rule spm_popE)
  then show ?thesis using spm_entry_range [OF assms(1) b(5)] assms(3)
    by (auto simp: spm_loop.simps [of V S Q] Let_def fresh_def spm_entry_def)
qed

lemma spm_loop_merge:
  assumes "spm_ok V S ls w Q" and "spm_pop Q = Some ((l, r, sz, k), Q')" and "fresh S (l, r, sz, k)" and "S' = merge_symbols l r S"
    and "Option.bind (try_add_bigram V S' (sym_prev (S' ! l)) (int l) Q') (try_add_bigram V S' (int l) (sym_next (S' ! l))) = Some Q''"
  shows "spm_loop V S Q = spm_loop V S' Q''"
proof -
  from assms(2) obtain b rest where b: "work_queue Q \<noteq> []" "pq_pop spm_worse (work_queue Q) = (b, rest)"
    "(l, r, sz, k) = spm_entry b" "Q' = Q\<lparr>work_queue := rest\<rparr>" "b \<in> set (work_queue Q)" by (rule spm_popE)
  then have "bs_left b = l" "bs_right b = r" "bs_size b = sz" by (simp_all add: spm_entry_def)
  then show ?thesis using spm_entry_range [OF assms(1) b(5)] b(1,2,4) assms(3,5)
    by (simp add: spm_loop.simps [of V S Q] Let_def assms(4) [symmetric] fresh_def)
qed

lemma spm_inv_merge:
  assumes "chain_ok S (as @ l # r # bs) w" and "spm_inv V S Q"
  shows "spm_inv V (merge_symbols l r S) Q"
  using assms(2) merge_nth_chain [OF assms(1), of 0] chain_adjacent(1,2) [OF assms(1)] by (auto simp: spm_inv_def)

interpretation spm: merge_session "spm_cand V" "\<lambda>_. spm_vocab_ok V" "spm_inv V" spm_entries "\<lambda>Q. length (work_queue Q)"
  "try_add_bigram V" spm_pop "spm_loop V" "\<lambda>S Q. (S, Q)"
proof (unfold_locales, goal_cases)
  case (1 S ls w Q a b)
  then show ?case by (rule try_add_bigram_eq)
next
  case (3 Q e Q')
  then obtain b rest where "work_queue Q \<noteq> []" "pq_pop spm_worse (work_queue Q) = (b, rest)" "e = spm_entry b" by (rule spm_popE)
  then show ?case using spm_queue.pq_pop_top(1,2) [of "work_queue Q" b rest]
    by (fastforce simp: least_entry_def spm_entry_def spm_worse_def)
next
  case (4 Q e Q')
  then obtain b rest where "work_queue Q \<noteq> []" "pq_pop spm_worse (work_queue Q) = (b, rest)" "e = spm_entry b"
    "Q' = Q\<lparr>work_queue := rest\<rparr>" by (rule spm_popE)
  then show ?case using spm_queue.pq_pop_top(3-5) [of "work_queue Q" b rest] by auto
next
  case (5 Q e Q' S)
  then show ?case by (auto simp: spm_inv_def elim: spm_popE)
next
  case (8 S ls w Q e Q')
  then show ?case by (rule spm_loop_stale)
next
  case (9 S ls w Q l r sz k Q' S' Q'')
  then show ?case by (rule spm_loop_merge)
qed (auto simp: spm_pop_def spm_loop.simps spm_inv_merge split: if_splits prod.splits)

section \<open>Output\<close>

definition spm_output :: "vocab \<Rightarrow> bytes \<Rightarrow> int list" where
  "spm_output V p = (if text_to_token V p \<noteq> -1 then [text_to_token V p] else map (\<lambda>b. the (byte_to_token V b)) p)"

lemma bytes_to_tokens:
  "\<forall>b. byte_to_token V b \<noteq> None \<Longrightarrow>
   foldM (\<lambda>b out. map_option (\<lambda>t. out @ [t]) (byte_to_token V b)) bs out = Some (out @ map (\<lambda>b. the (byte_to_token V b)) bs)"
proof (induction bs arbitrary: out)
  case (Cons b bs)
  obtain t where "byte_to_token V b = Some t" using Cons.prems by blast
  then show ?case using Cons by simp
qed simp

text \<open>A text recorded in \<^verbatim>\<open>rev_merge\<close> is a token, so the recursive calls are never made.\<close>

lemma resegment_output:
  assumes "spm_inv V S Q" and "\<forall>b. byte_to_token V b \<noteq> None"
  shows "resegment (Suc fuel) V S (rev_merge Q) symbol out = Some (out @ spm_output V (sym_str symbol))"
proof -
  have "rev_merge Q (sym_str symbol) = None" if "text_to_token V (sym_str symbol) = -1"
    using assms(1) that by (cases "rev_merge Q (sym_str symbol)") (auto simp: spm_inv_def)
  then show ?thesis using bytes_to_tokens [OF assms(2)] by (auto simp: resegment.simps Let_def spm_output_def)
qed

lemma spm_output_chain:
  assumes "spm_inv V S Q" and "\<forall>b. byte_to_token V b \<noteq> None" and "chain_ok S (as @ bs) w" and "length bs \<le> fuel"
  shows "spm_output_loop fuel V S (rev_merge Q) (case bs of [] \<Rightarrow> -1 | i # _ \<Rightarrow> int i) out =
    Some (out @ concat (map (spm_output V) (pieces S bs)))"
  using assms(3,4)
proof (induction bs arbitrary: as fuel out)
  case Nil
  then show ?case by (simp add: spm_output_loop.simps pieces_def)
next
  case (Cons i bs)
  then obtain f where f: "fuel = Suc f" "length bs \<le> f" by (cases fuel) auto
  have "i < length S" "sym_next (S ! i) = (case bs of [] \<Rightarrow> -1 | j # _ \<Rightarrow> int j)"
    using Cons.prems(1) chain_live [OF Cons.prems(1), of i] by (auto simp: chain_ok_def links_append)
  then show ?case using Cons.IH [of "as @ [i]" f "out @ spm_output V (sym_str (S ! i))"] Cons.prems(1) f
    by (simp add: spm_output_loop.simps [of "Suc f"] resegment_output [OF assms(1,2)] pieces_def)
qed

lemma chain_length: "chain_ok S ls w \<Longrightarrow> length ls \<le> length S"
proof -
  assume ch: "chain_ok S ls w"
  then have "distinct ls" "set ls \<subseteq> {..<length S}" by (auto simp: chain_ok_def strict_sorted_iff)
  then show ?thesis by (metis card_lessThan card_mono distinct_card finite_lessThan)
qed

lemma chain_first:
  assumes "chain_ok S ls w" and "0 < length S" and "0 < sym_n (S ! 0)"
  shows "\<exists>bs. ls = 0 # bs"
proof -
  have "0 \<in> set ls" using assms by (simp add: chain_live)
  moreover have "sorted_wrt (<) ls" using assms(1) by (simp add: chain_ok_def)
  ultimately show ?thesis by (cases ls) auto
qed

lemma split_first:
  assumes "raw \<noteq> []"
  shows "0 < length (split_symbols raw 0)" and "0 < sym_n (split_symbols raw 0 ! 0)"
  using assms unicode_len_utf8_pos by (simp_all add: split_symbols.simps [of raw] Let_def)

text \<open>C20: The SPM tokenizer. On a non-empty text, with token ids that are 32-bit integers and a token for every byte,
  the session ends without reading outside its arrays and computes the reference: starting from the UTF-8
  characters, merge again and again the adjacent pair whose joint text is the token of highest score, the
  leftmost one of them. The pieces in order are the text; each is output as its token, or as the tokens
  of its bytes.\<close>

theorem spm_tokenize_correct:
  assumes "spm_vocab_ok V" and "\<forall>b. byte_to_token V b \<noteq> None" and "raw \<noteq> []"
  shows "spm_tokenize V raw out = Some (out @ concat (map (spm_output V) (greedy_merge (spm_cand V) (utf8_chars raw)))) \<and>
    concat (greedy_merge (spm_cand V) (utf8_chars raw)) = raw"
proof -
  let ?S = "split_symbols raw 0" and ?Q0 = "\<lparr>work_queue = [], rev_merge = Map.empty\<rparr>"
  have "spm_inv V ?S ?Q0" using split_first [OF assms(3)] by (simp add: spm_inv_def)
  then obtain Q S' ls' Q' where Q: "spm_seed V ?S = Some Q" "spm_loop V ?S Q = Some (S', Q')"
    and S': "chain_ok S' ls' raw" "spm_inv V S' Q'" "pieces S' ls' = greedy_merge (spm_cand V) (utf8_chars raw)"
    using spm.session_correct [where w = raw and V = V and ?Q0.0 = ?Q0] assms(1) unfolding spm_seed_def by auto
  obtain bs where bs: "ls' = 0 # bs" using chain_first [OF S'(1)] S'(2) by (auto simp: spm_inv_def)
  have "spm_output_loop (length S') V S' (rev_merge Q') 0 out = Some (out @ concat (map (spm_output V) (pieces S' ls')))"
    using spm_output_chain [OF S'(2) assms(2), of "[]" ls' raw "length S'" out] S'(1) chain_length [OF S'(1)] bs by simp
  moreover have "concat (greedy_merge (spm_cand V) (utf8_chars raw)) = raw"
    using chain_text [OF S'(1)] S'(3) by simp
  ultimately show ?thesis using Q S'(3) by (simp add: spm_tokenize_def)
qed

definition demo_spm :: vocab where
  "demo_spm = vocab0\<lparr>
     token_to_id := (\<lambda>s. if s = [104] then Some 0 else if s = [105] then Some 1 else if s = [104, 105] then Some 2
       else if length s = 6 then map_option (\<lambda>v. 3 + v mod 256) (strtol16 (take 2 (drop 3 s))) else None),
     id_to_token := [\<lparr>td_text = [104], td_score = -1, td_attr = ATTR_NORMAL\<rparr>, \<lparr>td_text = [105], td_score = -1, td_attr = ATTR_NORMAL\<rparr>,
       \<lparr>td_text = [104, 105], td_score = -2, td_attr = ATTR_NORMAL\<rparr>] @
       map (\<lambda>n. \<lparr>td_text = byte_text (of_nat n), td_score = 0, td_attr = ATTR_BYTE\<rparr>) [0..<256]\<rparr>"

lemma demo_spm_bytes: "byte_to_token demo_spm b = Some (3 + int (unat b))"
proof -
  have "length (byte_text b) = 6" by (simp add: byte_text_def ascii_def)
  moreover from this have "byte_text b \<noteq> [104]" "byte_text b \<noteq> [105]" "byte_text b \<noteq> [104, 105]" by auto
  moreover have "uint b mod 256 = uint b" using uint_lt2p [of b] by simp
  ultimately show ?thesis by (simp add: demo_spm_def vocab0_def byte_to_token_def byte_text_token)
qed

lemma demo_spm_ok: "spm_vocab_ok demo_spm"
proof -
  have "0 \<le> 3 + v mod 256 \<and> 3 + v mod 256 < (2147483648 :: int)" for v
    using pos_mod_bound [of 256 v] pos_mod_sign [of 256 v] by linarith
  then show ?thesis by (auto simp: spm_vocab_ok_def demo_spm_def vocab0_def split: if_splits)
qed

theorem spm_tokenize_correct_witness: "spm_tokenize demo_spm [104, 105, 33] [] = Some [2, 36]"
proof -
  let ?w = "[104, 105, 33] :: bytes"
  have "greedy_merge (spm_cand demo_spm) (utf8_chars ?w) = [[104, 105], [33]]" by code_simp
  moreover have "spm_output demo_spm [104, 105] = [2]" by (simp add: spm_output_def text_to_token_def demo_spm_def)
  moreover have "spm_output demo_spm [33] = [36]"
    using demo_spm_bytes [of 33] by (simp add: spm_output_def text_to_token_def) (simp add: demo_spm_def)
  ultimately show ?thesis using spm_tokenize_correct [OF demo_spm_ok, of ?w "[]"] demo_spm_bytes by simp
qed

end
