(* ===== verification/RwkvTokenizer.thy ===== *)
theory RwkvTokenizer
  imports CText "HOL-Library.AList"
begin

text \<open>
  \<^verbatim>\<open>src/llama-vocab.cpp\<close>: the trie of \<^verbatim>\<open>naive_trie\<close> and the RWKV tokenizer that looks up the longest
  token in it. The trie is a map from strings to token ids behind the interface \<open>string_map\<close>.
\<close>

section \<open>The interface of a map from strings\<close>

locale string_map =
  fixes empty :: 'm
    and update :: "string \<Rightarrow> 'v \<Rightarrow> 'm \<Rightarrow> 'm"
    and lookup :: "'m \<Rightarrow> string \<Rightarrow> 'v option"
  assumes lookup_empty: "lookup empty k = None"
    and lookup_update: "lookup (update k v m) k' = (if k = k' then Some v else lookup m k')"
begin

text \<open>Of the entries for a key the last one inserted is found.\<close>

lemma lookup_fold:
  "lookup (fold (\<lambda>(k, v). update k v) kvs m) k = (case map_of (rev kvs) k of Some v \<Rightarrow> Some v | None \<Rightarrow> lookup m k)"
proof (induction kvs arbitrary: m)
  case (Cons kv kvs)
  then show ?case by (cases kv) (auto simp: lookup_update map_add_def split: option.split)
qed simp

lemma lookup_all: "lookup (fold (\<lambda>(k, v). update k v) kvs empty) = map_of (rev kvs)"
  by (rule ext) (simp add: lookup_fold lookup_empty split: option.split)

end

section \<open>The trie\<close>

datatype naive_trie = Trie (has_value: bool) (trie_value: int) (children: "(char \<times> naive_trie) list")

definition trie_empty :: naive_trie where
  "trie_empty = Trie False 0 []"

definition traverse :: "naive_trie \<Rightarrow> char \<Rightarrow> naive_trie option" where
  "traverse t c = map_of (children t) c"

lemma traverse_size: "traverse t c = Some t' \<Longrightarrow> size t' < size t"
proof (cases t)
  case (Trie h v cs)
  assume "traverse t c = Some t'"
  then have "(c, t') \<in> set cs" using Trie by (auto simp: traverse_def dest: map_of_SomeD)
  then have "size t' < size_list (size_prod (\<lambda>_. 0) size) cs"
    by (rule size_list_estimation) simp
  then show ?thesis using Trie by simp
qed

fun trie_insert :: "string \<Rightarrow> int \<Rightarrow> naive_trie \<Rightarrow> naive_trie" where
  "trie_insert [] v t = Trie True v (children t)"
| "trie_insert (c # key) v t =
     (case traverse t c of
        Some t' \<Rightarrow> Trie (has_value t) (trie_value t) (AList.update c (trie_insert key v t') (children t))
      | None \<Rightarrow> Trie (has_value t) (trie_value t) (AList.update c (trie_insert key v trie_empty) (children t)))"

text \<open>\<^verbatim>\<open>get_longest_prefix\<close>: the offset up to which the key can be followed.\<close>

fun get_longest_prefix :: "naive_trie \<Rightarrow> string \<Rightarrow> nat \<Rightarrow> nat" where
  "get_longest_prefix t [] offset = offset"
| "get_longest_prefix t (c # key) offset =
     (case traverse t c of Some t' \<Rightarrow> get_longest_prefix t' key (offset + 1) | None \<Rightarrow> offset)"

fun node_at :: "naive_trie \<Rightarrow> string \<Rightarrow> naive_trie option" where
  "node_at t [] = Some t"
| "node_at t (c # key) = (case traverse t c of Some t' \<Rightarrow> node_at t' key | None \<Rightarrow> None)"

definition value_at :: "naive_trie \<Rightarrow> string \<Rightarrow> int option" where
  "value_at t key =
     (case node_at t key of Some n \<Rightarrow> if has_value n then Some (trie_value n) else None | None \<Rightarrow> None)"

lemma traverse_insert:
  "traverse (trie_insert (c # key) v t) d =
     (if c = d then Some (trie_insert key v (case traverse t c of Some t' \<Rightarrow> t' | None \<Rightarrow> trie_empty)) else traverse t d)"
  by (auto simp: traverse_def update_conv' split: option.split)

declare trie_insert.simps(2) [simp del]

lemma has_value_insert [simp]:
  "has_value (trie_insert (c # key) v t) = has_value t" "trie_value (trie_insert (c # key) v t) = trie_value t"
  by (simp_all add: trie_insert.simps(2) split: option.split)

lemma node_at_empty: "node_at trie_empty key = (if key = [] then Some trie_empty else None)"
  by (cases key) (simp_all add: trie_empty_def traverse_def)

lemma value_at_empty: "value_at trie_empty key = None"
  by (simp add: value_at_def node_at_empty) (simp add: trie_empty_def)

lemma value_at_Cons: "value_at t (c # key) = (case traverse t c of Some t' \<Rightarrow> value_at t' key | None \<Rightarrow> None)"
  by (simp add: value_at_def split: option.split)

lemma value_at_insert: "value_at (trie_insert key v t) key' = (if key = key' then Some v else value_at t key')"
proof (induction key arbitrary: t key')
  case Nil
  show ?case by (cases key') (simp_all add: value_at_def, simp add: traverse_def)
next
  case (Cons c key)
  note IH = Cons.IH
  show ?case
  proof (cases key')
    case Nil
    then show ?thesis by (simp add: value_at_def)
  next
    case (Cons d rest)
    then show ?thesis using IH
      by (auto simp: value_at_Cons traverse_insert value_at_empty split: option.split)
  qed
qed

interpretation trie: string_map trie_empty trie_insert value_at
  by unfold_locales (simp_all add: value_at_empty value_at_insert)

lemma node_at_append: "node_at t (key @ rest) = Option.bind (node_at t key) (\<lambda>n. node_at n rest)"
  by (induction key arbitrary: t) (simp_all split: option.split)

lemma node_at_None_append: "node_at t key = None \<Longrightarrow> value_at t (key @ rest) = None"
  by (simp add: value_at_def node_at_append)

lemma get_longest_prefix_correct:
  "\<exists>n \<le> length key. get_longest_prefix t key off = off + n \<and> node_at t (take n key) \<noteq> None \<and>
     (n < length key \<longrightarrow> node_at t (take (Suc n) key) = None)"
proof (induction t key off rule: get_longest_prefix.induct)
  case (2 t c key off)
  show ?case
  proof (cases "traverse t c")
    case None
    then show ?thesis by (intro exI [of _ 0]) simp
  next
    case (Some t')
    from 2 [OF Some] obtain n where "n \<le> length key" "get_longest_prefix t' key (off + 1) = off + 1 + n"
      "node_at t' (take n key) \<noteq> None" "n < length key \<longrightarrow> node_at t' (take (Suc n) key) = None" by blast
    then show ?thesis using Some by (intro exI [of _ "Suc n"]) simp
  qed
qed simp

section \<open>Unescaping token texts\<close>

record unescape_state =
  us_escaping :: bool
  us_hex_remaining :: nat
  us_hex_acc :: u8
  us_output :: "u8 list"

text \<open>One turn of the loop of \<^verbatim>\<open>llama_unescape_rwkv_token\<close>; \<^verbatim>\<open>char\<close> is signed, so the comparison with
  \<^verbatim>\<open>'a'\<close> fails for bytes from 128 on, and the arithmetic is modulo 256.\<close>

definition unescape_step :: "char \<Rightarrow> unescape_state \<Rightarrow> unescape_state" where
  "unescape_step c st =
     (if us_hex_remaining st \<noteq> 0 then
        let val = (if 97 \<le> byte c \<and> byte c < 128 then of_char c - 97 + 10 else of_char c - 48 :: u8);
            acc = push_bit 4 (us_hex_acc st) + val;
            remaining = us_hex_remaining st - 1
        in if remaining = 0 then st\<lparr>us_hex_remaining := 0, us_hex_acc := 0, us_output := us_output st @ [acc]\<rparr>
           else st\<lparr>us_hex_remaining := remaining, us_hex_acc := acc\<rparr>
      else if us_escaping st then
        if c = CHR ''t'' then st\<lparr>us_escaping := False, us_output := us_output st @ [9]\<rparr>
        else if c = CHR ''n'' then st\<lparr>us_escaping := False, us_output := us_output st @ [10]\<rparr>
        else if c = CHR ''r'' then st\<lparr>us_escaping := False, us_output := us_output st @ [13]\<rparr>
        else if c = CHR ''x'' then st\<lparr>us_escaping := False, us_hex_remaining := 2\<rparr>
        else st\<lparr>us_escaping := False, us_output := us_output st @ [of_char c]\<rparr>
      else if c = CHR 0x5C then st\<lparr>us_escaping := True\<rparr>
      else st\<lparr>us_output := us_output st @ [of_char c]\<rparr>)"

definition llama_unescape_rwkv_token :: "string \<Rightarrow> u8 list" where
  "llama_unescape_rwkv_token escaped =
     us_output (fold unescape_step escaped
       \<lparr>us_escaping = False, us_hex_remaining = 0, us_hex_acc = 0, us_output = []\<rparr>)"

section \<open>The tokenizer\<close>

definition rwkv_build :: "string list \<Rightarrow> naive_trie" where
  "rwkv_build texts =
     fold (\<lambda>(key, id). trie_insert key id)
       (zip (map (\<lambda>text. map (\<lambda>b. char_of (unat b)) (llama_unescape_rwkv_token text)) texts)
            (map int [0..<length texts])) trie_empty"

text \<open>\<^verbatim>\<open>text[i]\<close>: the terminating NUL can be read, nothing behind it.\<close>

definition c_at :: "string \<Rightarrow> nat \<Rightarrow> char option" where
  "c_at s i = (if i < length s then Some (s ! i) else if i = length s then Some (CHR 0x00) else None)"

text \<open>The inner loop: \<open>node\<close> is not null. The result is \<open>None\<close> when it reads outside the string.\<close>

function rwkv_match :: "string \<Rightarrow> naive_trie \<Rightarrow> nat \<Rightarrow> int \<Rightarrow> nat \<Rightarrow> (int \<times> nat) option" where
  "rwkv_match s node position token_id token_length =
     (let (token_id, token_length) =
        (if has_value node then (trie_value node, position + 1) else (token_id, token_length))
      in case c_at s (position + 1) of
           None \<Rightarrow> None
         | Some c \<Rightarrow>
             (case traverse node c of
                None \<Rightarrow> Some (token_id, token_length)
              | Some node \<Rightarrow> rwkv_match s node (position + 1) token_id token_length))"
  by auto

termination rwkv_match
  by (relation "measure (\<lambda>(s, node, position, token_id, token_length). size node)") (auto dest: traverse_size)

declare rwkv_match.simps [simp del]

text \<open>The outer loop need not end, so it has fuel; \<open>None\<close> is also the value of a read outside the string.\<close>

fun rwkv_loop :: "nat \<Rightarrow> naive_trie \<Rightarrow> int \<Rightarrow> string \<Rightarrow> nat \<Rightarrow> int list \<Rightarrow> int list option" where
  "rwkv_loop fuel T unk s position output =
     (if position < length s then
        (case fuel of 0 \<Rightarrow> None
         | Suc fuel \<Rightarrow>
             (case traverse T (s ! position) of
                None \<Rightarrow> rwkv_loop fuel T unk s (position + 1) (output @ [unk])
              | Some node \<Rightarrow>
                  (case rwkv_match s node position 0 0 of
                     None \<Rightarrow> None
                   | Some (token_id, token_length) \<Rightarrow>
                       rwkv_loop fuel T unk s token_length (output @ [token_id]))))
      else Some output)"

declare rwkv_loop.simps [simp del]

text \<open>Every byte can be written as a hexadecimal escape and is read back.\<close>

definition hex_escape :: "u8 \<Rightarrow> string" where
  "hex_escape b = [CHR 0x5C, CHR ''x'', hex_digit (unat b div 16), hex_digit (unat b mod 16)]"

definition unescape_ready :: "u8 list \<Rightarrow> unescape_state" where
  "unescape_ready out = \<lparr>us_escaping = False, us_hex_remaining = 0, us_hex_acc = 0, us_output = out\<rparr>"

definition hex_val :: "char \<Rightarrow> u8" where
  "hex_val c = (if 97 \<le> byte c \<and> byte c < 128 then of_char c - 97 + 10 else of_char c - 48)"

lemma hex_val_nat: "hex_val c = (if 97 \<le> byte c \<and> byte c < 128 then of_nat (byte c) - 87 else of_nat (byte c) - 48)"
  by (simp add: hex_val_def of_nat_of_char)

lemma hex_val_digit: "d < 16 \<Longrightarrow> hex_val (hex_digit d) = of_nat d"
  by (simp add: hex_val_nat hex_digit_def)

lemma unescape_hex_escape: "fold unescape_step (hex_escape b) (unescape_ready out) = unescape_ready (out @ [b])"
proof -
  have "(of_nat (unat b div 16 * 16 + unat b mod 16) :: u8) = b" by (simp only: div_mult_mod_eq) simp
  then have "push_bit 4 (of_nat (unat b div 16)) + of_nat (unat b mod 16) = b"
    by (simp only: of_nat_add of_nat_mult push_bit_eq_mult) simp
  moreover have "unat b div 16 < 16" using unsigned_less [of b, where 'a = nat] by simp
  ultimately show ?thesis
    using hex_val_digit [of "unat b div 16"] hex_val_digit [of "unat b mod 16"]
    by (simp add: hex_escape_def unescape_ready_def unescape_step_def Let_def flip: hex_val_def)
qed

lemma unescape_hex_roundtrip: "llama_unescape_rwkv_token (concat (map hex_escape bs)) = bs"
proof -
  have "fold unescape_step (concat (map hex_escape bs)) (unescape_ready out) = unescape_ready (out @ bs)" for out
    by (induction bs arbitrary: out) (simp_all add: unescape_hex_escape)
  from this [of "[]"] show ?thesis by (simp add: llama_unescape_rwkv_token_def unescape_ready_def)
qed

text \<open>The trie of the vocabulary is its table of unescaped texts; of equal texts the last one counts.\<close>

lemma rwkv_build_lookup:
  "value_at (rwkv_build texts) =
     map_of (rev (zip (map (\<lambda>text. map (\<lambda>b. char_of (unat b)) (llama_unescape_rwkv_token text)) texts) (map int [0..<length texts])))"
  unfolding rwkv_build_def by (rule trie.lookup_all)

section \<open>Longest match\<close>

text \<open>No token goes on with a NUL, so that no match runs over the end of the text.\<close>

definition nul_free :: "naive_trie \<Rightarrow> bool" where
  "nul_free T \<longleftrightarrow> (\<forall>key. key \<noteq> [] \<longrightarrow> node_at T (key @ [CHR 0x00]) = None)"

text \<open>What a match finds that stands behind \<open>pre\<close> and \<open>key\<close> with \<open>rest\<close> to come: the longest token
  that begins with \<open>key\<close>, or, if there is none, what it was given.\<close>

definition match_result :: "naive_trie \<Rightarrow> string \<Rightarrow> string \<Rightarrow> string \<Rightarrow> int \<times> nat \<Rightarrow> int \<times> nat \<Rightarrow> bool" where
  "match_result T pre key rest given found \<longleftrightarrow>
     (\<exists>more post. rest = more @ post \<and> value_at T (key @ more) = Some (fst found) \<and>
        snd found = length (pre @ key @ more) \<and> (\<forall>q. q \<noteq> [] \<and> prefix q post \<longrightarrow> value_at T (key @ more @ q) = None)) \<or>
     (found = given \<and> (\<forall>q. prefix q rest \<longrightarrow> value_at T (key @ q) = None))"

lemma match_result_here:
  assumes "\<forall>q. q \<noteq> [] \<and> prefix q rest \<longrightarrow> value_at T (key @ q) = None"
  shows "match_result T pre key rest given
    (case value_at T key of Some v \<Rightarrow> (v, length pre + length key) | None \<Rightarrow> given)"
proof (cases "value_at T key")
  case None
  then have "value_at T (key @ q) = None" if "prefix q rest" for q using assms that by (cases "q = []") auto
  then show ?thesis using None by (simp add: match_result_def)
next
  case (Some v)
  then show ?thesis using assms unfolding match_result_def
    by (intro disjI1 exI [of _ "[]"] exI [of _ rest]) simp
qed

lemma match_result_step:
  assumes "match_result T pre (key @ [c]) rest'
      (case value_at T key of Some v \<Rightarrow> (v, length pre + length key) | None \<Rightarrow> given) found"
  shows "match_result T pre key (c # rest') given found"
  using assms [unfolded match_result_def [of T pre "key @ [c]"]]
proof (elim disjE exE conjE)
  fix more post
  assume "rest' = more @ post" "value_at T ((key @ [c]) @ more) = Some (fst found)"
    "snd found = length (pre @ (key @ [c]) @ more)" "\<forall>q. q \<noteq> [] \<and> prefix q post \<longrightarrow> value_at T ((key @ [c]) @ more @ q) = None"
  then show ?thesis unfolding match_result_def
    by (intro disjI1 exI [of _ "c # more"] exI [of _ post]) simp
next
  assume found: "found = (case value_at T key of Some v \<Rightarrow> (v, length pre + length key) | None \<Rightarrow> given)"
    and none: "\<forall>q. prefix q rest' \<longrightarrow> value_at T ((key @ [c]) @ q) = None"
  have "value_at T (key @ q) = None" if "q \<noteq> []" "prefix q (c # rest')" for q using that none by (cases q) auto
  then show ?thesis unfolding found by (intro match_result_here) blast
qed

lemma rwkv_match_longest:
  assumes "nul_free T" and "key \<noteq> []" and "node_at T key = Some node" and "s = pre @ key @ rest"
    and "position + 1 = length pre + length key"
  shows "\<exists>found. rwkv_match s node position id0 len0 = Some found \<and> match_result T pre key rest (id0, len0) found"
  using assms(2-)
proof (induction s node position id0 len0 arbitrary: key rest rule: rwkv_match.induct)
  case (1 s node position id0 len0)
  define given where
    "given = (case value_at T key of Some v \<Rightarrow> (v, length pre + length key) | None \<Rightarrow> (id0, len0))"
  have upd: "(if has_value node then (trie_value node, position + 1) else (id0, len0)) = given"
    using 1(3,5) by (simp add: value_at_def given_def)
  define c where "c = (case rest of [] \<Rightarrow> CHR 0x00 | c # _ \<Rightarrow> c)"
  have c: "c_at s (position + 1) = Some c"
    using 1(4,5) by (cases rest) (auto simp: c_at_def c_def nth_append)
  show ?case
  proof (cases "traverse node c")
    case None
    then have stop: "rwkv_match s node position id0 len0 = Some given"
      using upd c by (simp add: rwkv_match.simps [of s node] case_prod_unfold)
    have "node_at T (key @ q) = None" if "q \<noteq> []" "prefix q rest" for q
      using that None 1(3) by (cases q; cases rest) (auto simp: node_at_append c_def)
    then show ?thesis using stop match_result_here [of rest T key pre "(id0, len0)"]
      by (simp add: given_def value_at_def)
  next
    case (Some node')
    then obtain rest' where rest: "rest = c # rest'"
      using assms(1) 1(2,3) by (cases rest) (auto simp: c_def nul_free_def node_at_append)
    have go: "rwkv_match s node position id0 len0 = rwkv_match s node' (position + 1) (fst given) (snd given)"
      using upd c Some by (simp add: rwkv_match.simps [of s node] case_prod_unfold)
    have "node_at T (key @ [c]) = Some node'" using 1(3) Some by (simp add: node_at_append)
    then obtain found where "rwkv_match s node' (position + 1) (fst given) (snd given) = Some found"
      "match_result T pre (key @ [c]) rest' given found"
      using 1(1) [OF upd [symmetric] prod.collapse c Some, of "key @ [c]" rest'] rest 1(4,5) by auto
    then show ?thesis using go match_result_step [of T pre key c rest' "(id0, len0)" found] rest
      by (auto simp: given_def)
  qed
qed

section \<open>Greedy tokenisation\<close>

text \<open>The pieces of a text with their tokens: a character no token begins with becomes the unknown
  token, and every other piece is a token that no longer token at its place extends.\<close>

fun greedy_pieces :: "naive_trie \<Rightarrow> int \<Rightarrow> (int \<times> string) list \<Rightarrow> bool" where
  "greedy_pieces T unk [] \<longleftrightarrow> True"
| "greedy_pieces T unk ((tok, p) # ps) \<longleftrightarrow>
     (length p = 1 \<and> traverse T (hd p) = None \<and> tok = unk \<or>
      p \<noteq> [] \<and> value_at T p = Some tok \<and>
        (\<forall>q. q \<noteq> [] \<and> prefix q (concat (map snd ps)) \<longrightarrow> value_at T (p @ q) = None)) \<and>
     greedy_pieces T unk ps"

text \<open>Every character that begins a token is a token itself.\<close>

definition single_chars :: "naive_trie \<Rightarrow> string \<Rightarrow> bool" where
  "single_chars T s \<longleftrightarrow> list_all (\<lambda>c. traverse T c = None \<or> value_at T [c] \<noteq> None) s"

lemma rwkv_loop_greedy:
  assumes T: "nul_free T" and "single_chars T (pre @ rest)" and "length rest \<le> fuel"
  shows "\<exists>ps. rwkv_loop fuel T unk (pre @ rest) (length pre) out = Some (out @ map fst ps) \<and>
    concat (map snd ps) = rest \<and> greedy_pieces T unk ps"
  using assms(2,3)
proof (induction fuel arbitrary: pre rest out)
  case 0
  then show ?case by (intro exI [of _ "[]"]) (simp add: rwkv_loop.simps)
next
  case (Suc fuel)
  show ?case
  proof (cases rest)
    case Nil
    then show ?thesis by (intro exI [of _ "[]"]) (simp add: rwkv_loop.simps)
  next
    case (Cons c cs)
    show ?thesis
    proof (cases "traverse T c")
      case None
      obtain ps where ps: "rwkv_loop fuel T unk ((pre @ [c]) @ cs) (length (pre @ [c])) (out @ [unk]) = Some ((out @ [unk]) @ map fst ps)"
        "concat (map snd ps) = cs" "greedy_pieces T unk ps"
        using Suc.IH [of "pre @ [c]" cs "out @ [unk]"] Suc.prems Cons by auto
      then show ?thesis using None Cons
        by (intro exI [of _ "(unk, [c]) # ps"]) (simp add: rwkv_loop.simps [of "Suc fuel"])
    next
      case (Some node)
      have "node_at T [c] = Some node" using Some by simp
      then obtain found where m: "rwkv_match (pre @ rest) node (length pre) 0 0 = Some found"
        "match_result T pre [c] cs (0, 0) found"
        using rwkv_match_longest [OF T, of "[c]" node "pre @ rest" pre cs "length pre" 0 0] Cons by auto
      have "value_at T [c] \<noteq> None" using Suc.prems(1) Some Cons by (simp add: single_chars_def)
      then obtain more post where mp: "cs = more @ post" "value_at T (c # more) = Some (fst found)"
        "snd found = length (pre @ c # more)" "\<forall>q. q \<noteq> [] \<and> prefix q post \<longrightarrow> value_at T (c # more @ q) = None"
        using m(2) by (fastforce simp: match_result_def)
      have "single_chars T ((pre @ c # more) @ post)" and "length post \<le> fuel"
        using Suc.prems Cons mp(1) by (simp_all add: single_chars_def)
      then obtain ps where ps: "rwkv_loop fuel T unk ((pre @ c # more) @ post) (length (pre @ c # more)) (out @ [fst found]) =
          Some ((out @ [fst found]) @ map fst ps)" "concat (map snd ps) = post" "greedy_pieces T unk ps"
        using Suc.IH [of "pre @ c # more" post "out @ [fst found]"] by auto
      then show ?thesis using Some Cons m(1) mp
        by (intro exI [of _ "(fst found, c # more) # ps"]) (simp add: rwkv_loop.simps [of "Suc fuel"] case_prod_unfold)
    qed
  qed
qed

text \<open>The RWKV tokenizer. If every character of the text that begins a token is a token itself and no
  token goes on with a NUL, then the loop ends within one turn per character; the text is cut into
  consecutive pieces whose tokens are output, and the cut is greedy: each piece is the longest token
  at its place, or one character that begins no token and becomes the unknown token.\<close>

theorem rwkv_tokenize_greedy:
  assumes "nul_free T" and "single_chars T s"
  shows "\<exists>ps. rwkv_loop (length s) T unk s 0 [] = Some (map fst ps) \<and> concat (map snd ps) = s \<and> greedy_pieces T unk ps"
  using rwkv_loop_greedy [OF assms(1), of "[]" s "length s" unk "[]"] assms(2) by simp

lemma demo_trie: "rwkv_build [''a'', ''ab'', ''b''] =
    Trie False 0 [(CHR ''a'', Trie True 0 [(CHR ''b'', Trie True 1 [])]), (CHR ''b'', Trie True 2 [])]"
  by code_simp

lemma demo_nul_free: "nul_free (rwkv_build [''a'', ''ab'', ''b''])"
proof -
  have "node_at (rwkv_build [''a'', ''ab'', ''b'']) (key @ [CHR 0x00]) = None" for key
  proof (cases key)
    case (Cons c k)
    then show ?thesis by (cases k; cases "tl k") (auto simp: demo_trie traverse_def)
  qed (simp add: demo_trie traverse_def)
  then show ?thesis by (simp add: nul_free_def)
qed

theorem rwkv_tokenize_greedy_witness:
  "\<exists>ps. rwkv_loop 3 (rwkv_build [''a'', ''ab'', ''b'']) 7 ''aba'' 0 [] = Some (map fst ps) \<and> concat (map snd ps) = ''aba'' \<and>
    greedy_pieces (rwkv_build [''a'', ''ab'', ''b'']) 7 ps"
proof -
  have "single_chars (rwkv_build [''a'', ''ab'', ''b'']) ''aba''"
    by (simp add: single_chars_def demo_trie traverse_def value_at_def)
  from rwkv_tokenize_greedy [OF demo_nul_free this, of 7] show ?thesis
    by (simp only: list.size) (simp add: numeral_3_eq_3)
qed

text \<open>Without the single characters the loop need not end: where a character begins a token but no
  token matches, the length found is 0 and the tokenizer starts over from the beginning of the text,
  appending token 0 each time.\<close>

lemma rwkv_loop_diverges: "rwkv_loop fuel (rwkv_build [''x'', ''ab'']) unk ''ac'' 0 out = None"
proof (induction fuel arbitrary: out)
  case 0
  then show ?case by (simp add: rwkv_loop.simps)
next
  case (Suc fuel)
  have "rwkv_build [''x'', ''ab''] =
      Trie False 0 [(CHR ''x'', Trie True 0 []), (CHR ''a'', Trie False 0 [(CHR ''b'', Trie True 1 [])])]"
    by code_simp
  then show ?case using Suc
    by (simp add: rwkv_loop.simps [of "Suc fuel"] rwkv_match.simps c_at_def traverse_def)
qed

end
