(* ===== verification/UgmTokenizer.thy ===== *)
theory UgmTokenizer
  imports SymbolMerge RwkvTokenizer
begin

text \<open>
  \<^verbatim>\<open>src/llama-vocab.cpp\<close>: the unigram tokenizer. The text is normalised with a compressed double array, and the
  best sequence of tokens is found by dynamic programming. Floating-point numbers are reals; the two
  arithmetic operations that round are arguments, and the search relies only on the addition being
  monotone. Errors are \<open>Inl\<close>: an exception, or a read outside an array.
\<close>

section \<open>The tokenizer object\<close>

record float_ops =
  dadd :: "real \<Rightarrow> real \<Rightarrow> real"
  fsub :: "real \<Rightarrow> real \<Rightarrow> real"

definition FLT_MAX :: real where
  "FLT_MAX = (2 - 1 / 2 ^ 23) * 2 ^ 127"

definition DBL_MAX :: real where
  "DBL_MAX = (2 - 1 / 2 ^ 52) * 2 ^ 1023"

record ugm =
  prefix_replacements :: bytes
  xcda_array :: "u32 list"
  user_defined_token_matcher :: naive_trie
  min_score :: real
  max_score :: real
  unknown_token_score :: real
  token_matcher :: naive_trie

abbreviation chars :: "bytes \<Rightarrow> string" where
  "chars bs \<equiv> map (\<lambda>b. char_of (unat b)) bs"

text \<open>A little-endian 32-bit number, and the array of them.\<close>

definition le_u32 :: "bytes \<Rightarrow> u32" where
  "le_u32 bs = ucast (bs ! 0) OR push_bit 8 (ucast (bs ! 1)) OR push_bit 16 (ucast (bs ! 2)) OR push_bit 24 (ucast (bs ! 3))"

fun u32_array :: "nat \<Rightarrow> bytes \<Rightarrow> u32 list" where
  "u32_array 0 bs = []"
| "u32_array (Suc n) bs = le_u32 (take 4 bs) # u32_array n (drop 4 bs)"

text \<open>The array and the replacements in the precompiled map.\<close>

definition read_charsmap :: "bytes \<Rightarrow> string + (u32 list \<times> bytes)" where
  "read_charsmap charsmap =
     (if charsmap = [] then Inr ([], [])
      else if length charsmap < 4 then Inl ''read outside the precompiled charsmap''
      else
        let xcda_blob_size = unat (le_u32 charsmap)
        in if length charsmap \<le> xcda_blob_size + 4 then Inl ''Index out of array bounds in precompiled charsmap!''
           else Inr (u32_array (xcda_blob_size div 4) (drop 4 charsmap), drop (4 + xcda_blob_size) charsmap))"

definition ugm_add_token :: "nat \<times> token_data \<Rightarrow> ugm \<Rightarrow> ugm" where
  "ugm_add_token = (\<lambda>(i, td) U.
     let normal = (td_attr td AND ATTR_NORMAL \<noteq> 0);
         user_defined = (td_attr td AND ATTR_USER_DEFINED \<noteq> 0);
         unused = (td_attr td AND ATTR_UNUSED \<noteq> 0);
         U = (if normal then U\<lparr>min_score := min (min_score U) (td_score td), max_score := max (max_score U) (td_score td)\<rparr> else U);
         U = (if normal \<or> user_defined \<or> unused
              then U\<lparr>token_matcher := trie_insert (chars (td_text td)) (int i) (token_matcher U)\<rparr> else U)
     in if user_defined then U\<lparr>user_defined_token_matcher := trie_insert (chars (td_text td)) 0 (user_defined_token_matcher U)\<rparr> else U)"

definition ugm_build :: "float_ops \<Rightarrow> vocab \<Rightarrow> bytes \<Rightarrow> string + ugm" where
  "ugm_build A V charsmap =
     (case read_charsmap charsmap of
        Inl e \<Rightarrow> Inl e
      | Inr (xcda, repl) \<Rightarrow>
          let U = fold ugm_add_token (enumerate 0 (id_to_token V))
                \<lparr>prefix_replacements = repl, xcda_array = xcda, user_defined_token_matcher = trie_empty,
                 min_score = FLT_MAX, max_score = - FLT_MAX, unknown_token_score = 0, token_matcher = trie_empty\<rparr>
          in Inr (U\<lparr>unknown_token_score := fsub A (min_score U) 10\<rparr>))"

section \<open>Normalisation\<close>

text \<open>The check of \<^verbatim>\<open>get_node\<close> lets the size of the array pass.\<close>

definition get_node :: "u32 list \<Rightarrow> u32 \<Rightarrow> string + u32" where
  "get_node xs index =
     (if length xs < unat index then Inl ''Index out of array bounds in XCDA array!''
      else if unat index = length xs then Inl ''read outside the XCDA array''
      else Inr (xs ! unat index))"

definition node_base :: "u32 \<Rightarrow> u32" where
  "node_base packed_node = push_bit (unat (drop_bit 6 (packed_node AND push_bit 9 1))) (drop_bit 10 packed_node)"

definition node_lcheck :: "u32 \<Rightarrow> u32" where
  "node_lcheck packed_node = packed_node AND (push_bit 31 1 OR 0xff)"

definition node_leaf :: "u32 \<Rightarrow> bool" where
  "node_leaf packed_node \<longleftrightarrow> drop_bit 8 packed_node AND 1 \<noteq> 0"

definition node_value :: "u32 \<Rightarrow> u32" where
  "node_value packed_node = packed_node AND (push_bit 31 1 - 1)"

text \<open>The walk along the array: \<open>n\<close> bytes are consumed, \<open>best\<close> is the length and offset found last.\<close>

fun xcda_walk :: "u32 list \<Rightarrow> bytes \<Rightarrow> nat \<Rightarrow> u32 \<Rightarrow> nat \<times> nat \<Rightarrow> string + nat \<times> nat" where
  "xcda_walk xs [] n node_index best = Inr best"
| "xcda_walk xs (c # input) n node_index best =
     (if c = 0 then Inr best
      else
        let node_index = node_index XOR ucast c
        in case get_node xs node_index of
             Inl e \<Rightarrow> Inl e
           | Inr packed \<Rightarrow>
               if node_lcheck packed \<noteq> ucast c then Inr best
               else
                 let next_index = node_index XOR node_base packed
                 in if node_leaf packed then
                      (case get_node xs next_index of
                         Inl e \<Rightarrow> Inl e
                       | Inr leaf \<Rightarrow> xcda_walk xs input (n + 1) next_index (n + 1, unat (node_value leaf)))
                    else xcda_walk xs input (n + 1) next_index best)"

definition c_strlen :: "bytes \<Rightarrow> nat option" where
  "c_strlen s = (if 0 \<in> set s then Some (length (takeWhile (\<lambda>b. b \<noteq> 0) s)) else None)"

text \<open>The normal form of a prefix of the rest of the input, and how much of it that consumes.\<close>

definition normalize_prefix :: "ugm \<Rightarrow> bytes \<Rightarrow> string + bytes \<times> nat" where
  "normalize_prefix U input =
     (if input = [] then Inr ([], 0)
      else
        let user = get_longest_prefix (user_defined_token_matcher U) (chars input) 0
        in if 0 < user then Inr (take user input, user)
           else
             case (if xcda_array U = [] then Inr (0, 0)
                   else case get_node (xcda_array U) 0 of
                       Inl e \<Rightarrow> Inl e
                     | Inr root_node \<Rightarrow> xcda_walk (xcda_array U) input 0 (node_base root_node) (0, 0)) of
               Inl e \<Rightarrow> Inl e
             | Inr (longest_prefix_length, longest_prefix_offset) \<Rightarrow>
                 if 0 < longest_prefix_length then
                   if length (prefix_replacements U) \<le> longest_prefix_offset
                   then Inl ''Index out of array bounds in precompiled charsmap!''
                   else (case c_strlen (drop longest_prefix_offset (prefix_replacements U)) of
                       None \<Rightarrow> Inl ''read outside the replacements''
                     | Some n \<Rightarrow> Inr (take n (drop longest_prefix_offset (prefix_replacements U)), longest_prefix_length))
                 else (case unicode_cpt_from_utf8 input 0 of
                     Some (Inr (c, n)) \<Rightarrow> Inr (take n input, n)
                   | _ \<Rightarrow> Inr ([0xEF, 0xBF, 0xBD], 1)))"

record norm_state =
  normalized :: bytes
  is_space_prepended :: bool
  processing_non_ws :: bool

definition normalize_char :: "vocab \<Rightarrow> u8 \<Rightarrow> norm_state \<Rightarrow> norm_state" where
  "normalize_char V c st =
     (let space = (if escape_whitespaces V then [0xE2, 0x96, 0x81] else [32]);
          shall_prepend_space = (\<not> treat_whitespace_as_suffix V \<and> add_space_prefix V);
          shall_merge_spaces = remove_extra_whitespaces V
      in if c \<noteq> 32 then
           let st = (if \<not> processing_non_ws st then
                       let st = st\<lparr>processing_non_ws := True\<rparr>
                       in if shall_prepend_space \<and> \<not> is_space_prepended st \<or> shall_merge_spaces
                          then st\<lparr>normalized := normalized st @ space, is_space_prepended := True\<rparr> else st
                     else st)
           in st\<lparr>normalized := normalized st @ [c]\<rparr>
         else
           let st = st\<lparr>processing_non_ws := False\<rparr>
           in if \<not> shall_merge_spaces then st\<lparr>normalized := normalized st @ space\<rparr> else st)"

function normalize_loop :: "vocab \<Rightarrow> ugm \<Rightarrow> bytes \<Rightarrow> norm_state \<Rightarrow> string + norm_state" where
  "normalize_loop V U input st =
     (if input = [] then Inr st
      else case normalize_prefix U input of
          Inl e \<Rightarrow> Inl e
        | Inr (normal, consumed) \<Rightarrow>
            if consumed = 0 then Inl ''no progress''
            else normalize_loop V U (drop consumed input) (fold (normalize_char V) normal st))"
  by auto

termination normalize_loop
  by (relation "measure (\<lambda>(V, U, input, st). length input)") auto

declare normalize_loop.simps [simp del]

definition ugm_normalize :: "vocab \<Rightarrow> ugm \<Rightarrow> bytes \<Rightarrow> string + bytes" where
  "ugm_normalize V U input =
     map_sum id (\<lambda>st. normalized st @
         (if treat_whitespace_as_suffix V \<and> add_space_prefix V
          then if escape_whitespaces V then [0xE2, 0x96, 0x81] else [32] else []))
       (normalize_loop V U input \<lparr>normalized = [], is_space_prepended = False, processing_non_ws = False\<rparr>)"

text \<open>Every turn of the loop consumes input, so the branch without progress is never taken.\<close>

lemma xcda_walk_length: "xcda_walk xs input n node best = Inr (len, off) \<Longrightarrow> fst best \<le> n \<Longrightarrow> len \<le> n + length input"
  by (induction xs input n node best rule: xcda_walk.induct) (fastforce simp: Let_def split: if_splits sum.splits)+

lemma normalize_prefix_progress:
  assumes "input \<noteq> []" and "normalize_prefix U input = Inr (normal, consumed)"
  shows "0 < consumed"
  using assms by (auto simp: normalize_prefix_def Let_def split: if_splits sum.splits option.splits prod.splits dest: cpt_from_utf8_advances)

section \<open>The search\<close>

record best_tokenization =
  bt_token :: int
  bt_offset :: nat
  bt_score :: real

definition challenge :: "nat \<Rightarrow> best_tokenization \<Rightarrow> best_tokenization list \<Rightarrow> best_tokenization list" where
  "challenge j challenger R = (if bt_score (R ! j) < bt_score challenger then R[j := challenger] else R)"

text \<open>The walk along the trie from position \<open>i\<close>; \<open>j\<close> is \<^verbatim>\<open>prefix_offset\<close>. The end of a string can be read.\<close>

function ugm_scan :: "float_ops \<Rightarrow> vocab \<Rightarrow> string \<Rightarrow> nat \<Rightarrow> nat \<Rightarrow> naive_trie \<Rightarrow> nat \<Rightarrow> bool \<times> best_tokenization list \<Rightarrow>
    (bool \<times> best_tokenization list) option" where
  "ugm_scan A V s i n node j st =
     (if length s < j then Some st
      else
        Option.bind
          (if has_value node then
             map_option (\<lambda>td.
               let token_score = (if td_attr td AND ATTR_USER_DEFINED \<noteq> 0 then 0 else td_score td)
               in (fst st \<or> j - i = n,
                   challenge j \<lparr>bt_token = trie_value node, bt_offset = i, bt_score = dadd A (bt_score (snd st ! i)) token_score\<rparr> (snd st)))
             (get_token_data V (trie_value node))
           else Some st)
          (\<lambda>st. case c_at s j of
             None \<Rightarrow> None
           | Some c \<Rightarrow> (case traverse node c of None \<Rightarrow> Some st | Some node \<Rightarrow> ugm_scan A V s i n node (j + 1) st)))"
  by auto

termination ugm_scan
  by (relation "measure (\<lambda>(A, V, s, i, n, node, j, st). size node)") (auto dest: traverse_size)

declare ugm_scan.simps [simp del]

definition code_units :: "string \<Rightarrow> nat \<Rightarrow> nat" where
  "code_units s i = min (unicode_len_utf8 (of_char (s ! i))) (length s - i)"

definition ugm_step :: "float_ops \<Rightarrow> vocab \<Rightarrow> ugm \<Rightarrow> string \<Rightarrow> nat \<Rightarrow> best_tokenization list \<Rightarrow> best_tokenization list option" where
  "ugm_step A V U s i R =
     (let n = code_units s i
      in Option.bind
           (case traverse (token_matcher U) (s ! i) of None \<Rightarrow> Some (False, R) | Some node \<Rightarrow> ugm_scan A V s i n node (i + 1) (False, R))
           (\<lambda>(found, R). Some (if found then R
              else challenge (i + n) \<lparr>bt_token = special_unk_id V, bt_offset = i,
                     bt_score = dadd A (bt_score (R ! i)) (unknown_token_score U)\<rparr> R)))"

lemma code_units_pos: "i < length s \<Longrightarrow> 0 < code_units s i \<and> i + code_units s i \<le> length s"
  using unicode_len_utf8_pos [of "of_char (s ! i)"] by (simp add: code_units_def)

function ugm_loop :: "float_ops \<Rightarrow> vocab \<Rightarrow> ugm \<Rightarrow> string \<Rightarrow> nat \<Rightarrow> best_tokenization list \<Rightarrow> best_tokenization list option" where
  "ugm_loop A V U s i R =
     (if i < length s then Option.bind (ugm_step A V U s i R) (ugm_loop A V U s (i + code_units s i)) else Some R)"
  by auto

termination ugm_loop
  by (relation "measure (\<lambda>(A, V, U, s, i, R). length s - i)") (auto dest: code_units_pos)

declare ugm_loop.simps [simp del]

text \<open>Going back from the end; the loop variable is a reference to the last entry, which the assignments overwrite.\<close>

fun ugm_back :: "nat \<Rightarrow> vocab \<Rightarrow> nat \<Rightarrow> best_tokenization list \<Rightarrow> bool \<Rightarrow> int list \<Rightarrow> int list option" where
  "ugm_back 0 V m R is_prev_unknown output = None"
| "ugm_back (Suc fuel) V m R is_prev_unknown output =
     (let tokenization = R ! m;
          is_unknown = (bt_token tokenization = special_unk_id V);
          output = (if is_prev_unknown \<and> is_unknown then output else output @ [bt_token tokenization])
      in if bt_offset tokenization = 0 then Some output
         else if length R \<le> bt_offset tokenization then None
         else ugm_back fuel V m (R[m := R ! bt_offset tokenization]) is_unknown output)"

definition ugm_search :: "float_ops \<Rightarrow> vocab \<Rightarrow> ugm \<Rightarrow> string \<Rightarrow> int list \<Rightarrow> int list option" where
  "ugm_search A V U s output =
     (if s = [] then Some output
      else
        let R = replicate (length s + 1) \<lparr>bt_token = special_unk_id V, bt_offset = 0, bt_score = - DBL_MAX\<rparr>;
            R = R[0 := \<lparr>bt_token = special_unk_id V, bt_offset = 0, bt_score = 0\<rparr>]
        in Option.bind (ugm_loop A V U s 0 R) (\<lambda>R.
             map_option (\<lambda>out. take (length output) out @ rev (drop (length output) out))
               (ugm_back (length s) V (length s) R False output)))"

definition ugm_tokenize :: "float_ops \<Rightarrow> vocab \<Rightarrow> ugm \<Rightarrow> bytes \<Rightarrow> int list \<Rightarrow> int list option" where
  "ugm_tokenize A V U raw output =
     (case ugm_normalize V U raw of Inl e \<Rightarrow> None | Inr s \<Rightarrow> ugm_search A V U (chars s) output)"

section \<open>Segmentations\<close>

definition substr :: "'a list \<Rightarrow> nat \<Rightarrow> nat \<Rightarrow> 'a list" where
  "substr s i j = take (j - i) (drop i s)"

definition token_score :: "vocab \<Rightarrow> int \<Rightarrow> real" where
  "token_score V tok = (case get_token_data V tok of None \<Rightarrow> 0
     | Some td \<Rightarrow> if td_attr td AND ATTR_USER_DEFINED \<noteq> 0 then 0 else td_score td)"

text \<open>A token from \<open>i\<close> to \<open>j\<close>, or the unknown token for a code point that is no token.\<close>

definition ugm_edge :: "vocab \<Rightarrow> ugm \<Rightarrow> string \<Rightarrow> nat \<Rightarrow> nat \<Rightarrow> int \<Rightarrow> real \<Rightarrow> bool" where
  "ugm_edge V U s i j tok sc \<longleftrightarrow> i < j \<and> j \<le> length s \<and>
     (value_at (token_matcher U) (substr s i j) = Some tok \<and> sc = token_score V tok \<or>
      value_at (token_matcher U) (substr s i (i + code_units s i)) = None \<and> j = i + code_units s i \<and>
        tok = special_unk_id V \<and> sc = unknown_token_score U)"

inductive boundary :: "string \<Rightarrow> nat \<Rightarrow> bool" for s where
  boundary_0: "boundary s 0"
| boundary_next: "boundary s i \<Longrightarrow> i < length s \<Longrightarrow> boundary s (i + code_units s i)"

inductive ugm_path :: "vocab \<Rightarrow> ugm \<Rightarrow> string \<Rightarrow> nat \<Rightarrow> (int \<times> real) list \<Rightarrow> bool" for V U s where
  path_0: "ugm_path V U s 0 []"
| path_step: "ugm_path V U s i es \<Longrightarrow> boundary s i \<Longrightarrow> ugm_edge V U s i j tok sc \<Longrightarrow> ugm_path V U s j (es @ [(tok, sc)])"

definition path_score :: "float_ops \<Rightarrow> (int \<times> real) list \<Rightarrow> real" where
  "path_score A es = foldl (\<lambda>a (tok, sc). dadd A a sc) 0 es"

lemma path_score_snoc [simp]: "path_score A (es @ [(tok, sc)]) = dadd A (path_score A es) sc" "path_score A [] = 0"
  by (simp_all add: path_score_def)

lemma boundary_le: "boundary s i \<Longrightarrow> i \<le> length s"
  by (induction rule: boundary.induct) (auto dest: code_units_pos)

lemma boundary_gap:
  "boundary s i \<Longrightarrow> boundary s k \<Longrightarrow> i < k \<Longrightarrow> i + code_units s i \<le> k"
proof (induction "i + k" arbitrary: i k rule: less_induct)
  case less
  from less.prems(2,3) obtain k' where k': "k = k' + code_units s k'" "boundary s k'" "k' < length s"
    by (auto elim: boundary.cases)
  have pos: "0 < code_units s k'" using code_units_pos [OF k'(3)] by simp
  consider "i < k'" | "i = k'" | "k' < i" by linarith
  then show ?case
  proof cases
    case 1
    then show ?thesis using less.hyps [of i k'] less.prems(1) k' pos by simp
  next
    case 3
    then have "k' + code_units s k' \<le> i" using less.hyps [of k' i] less.prems(1,3) k' pos by simp
    then show ?thesis using k'(1) less.prems(3) by simp
  qed (use k' in simp)
qed

section \<open>One step relaxes every edge\<close>

definition match_step :: "float_ops \<Rightarrow> vocab \<Rightarrow> naive_trie \<Rightarrow> string \<Rightarrow> nat \<Rightarrow> nat \<Rightarrow> nat \<Rightarrow> bool \<times> best_tokenization list \<Rightarrow> bool \<times> best_tokenization list" where
  "match_step A V T s i n j st =
     (case value_at T (substr s i j) of None \<Rightarrow> st
      | Some tok \<Rightarrow> (fst st \<or> j - i = n,
          challenge j \<lparr>bt_token = tok, bt_offset = i, bt_score = dadd A (bt_score (snd st ! i)) (token_score V tok)\<rparr> (snd st)))"

definition tokens_known :: "vocab \<Rightarrow> naive_trie \<Rightarrow> bool" where
  "tokens_known V T \<longleftrightarrow> (\<forall>key tok. value_at T key = Some tok \<longrightarrow> get_token_data V tok \<noteq> None)"

lemma substr_Suc: "i \<le> j \<Longrightarrow> j < length s \<Longrightarrow> substr s i (Suc j) = substr s i j @ [s ! j]"
  by (simp add: substr_def Suc_diff_le take_Suc_conv_app_nth)

lemma substr_prefix: "i \<le> j \<Longrightarrow> j \<le> k \<Longrightarrow> \<exists>rest. substr s i k = substr s i j @ rest"
  unfolding substr_def by (metis diff_le_mono le_add_diff_inverse take_add)

lemma match_steps_none:
  "\<forall>j \<in> set js. value_at T (substr s i j) = None \<Longrightarrow> fold (match_step A V T s i n) js st = st"
  by (induction js) (simp_all add: match_step_def)

lemma ugm_scan_eq:
  "tokens_known V T \<Longrightarrow> i < j \<Longrightarrow> j \<le> Suc (length s) \<Longrightarrow> (j \<le> length s \<longrightarrow> node_at T (substr s i j) = Some node) \<Longrightarrow>
    ugm_scan A V s i n node j st = Some (fold (match_step A V T s i n) [j..<Suc (length s)] st)"
proof (induction A V s i n node j st rule: ugm_scan.induct)
  case (1 A V s i n node j st)
  show ?case
  proof (cases "length s < j")
    case True
    then show ?thesis by (simp add: ugm_scan.simps [of A V s i n node j])
  next
    case False
    let ?st = "match_step A V T s i n j st"
    have node: "node_at T (substr s i j) = Some node" using 1(5) False by simp
    have upt: "[j..<Suc (length s)] = j # [Suc j..<Suc (length s)]" using False by (simp add: upt_conv_Cons)
    have "has_value node \<Longrightarrow> value_at T (substr s i j) = Some (trie_value node)" using node by (simp add: value_at_def)
    then have known: "has_value node \<Longrightarrow> get_token_data V (trie_value node) \<noteq> None" using 1(2) unfolding tokens_known_def by blast
    have here: "(if has_value node then map_option (\<lambda>td.
               let token_score = (if td_attr td AND ATTR_USER_DEFINED \<noteq> 0 then 0 else td_score td)
               in (fst st \<or> j - i = n,
                   challenge j \<lparr>bt_token = trie_value node, bt_offset = i, bt_score = dadd A (bt_score (snd st ! i)) token_score\<rparr> (snd st)))
             (get_token_data V (trie_value node)) else Some st) = Some ?st"
    proof (cases "has_value node")
      case True
      then obtain td where "get_token_data V (trie_value node) = Some td" using known by blast
      then show ?thesis using node True by (simp add: match_step_def value_at_def token_score_def)
    qed (use node in \<open>simp add: match_step_def value_at_def\<close>)
    obtain c where c: "c_at s j = Some c" "j < length s \<Longrightarrow> c = s ! j" using False by (cases "j < length s") (auto simp: c_at_def)
    show ?thesis
    proof (cases "traverse node c")
      case None
      have "value_at T (substr s i k) = None" if k: "k \<in> set [Suc j..<Suc (length s)]" for k
      proof -
        have j: "j < length s" "Suc j \<le> k" using k by auto
        obtain rest where "substr s i k = substr s i (Suc j) @ rest" using substr_prefix [of i "Suc j" k s] j(2) 1(3) by auto
        moreover have "node_at T (substr s i (Suc j)) = None"
          using substr_Suc [of i j s] j(1) 1(3) node None c(2) by (simp add: node_at_append)
        ultimately show ?thesis by (simp add: node_at_None_append)
      qed
      then have "fold (match_step A V T s i n) [Suc j..<Suc (length s)] ?st = ?st" by (intro match_steps_none) blast
      then show ?thesis unfolding upt using False here c(1) None by (simp add: ugm_scan.simps [of A V s i n node j])
    next
      case (Some node')
      have "Suc j \<le> length s \<longrightarrow> node_at T (substr s i (Suc j)) = Some node'"
        using substr_Suc [of i j s] 1(3) node Some c(2) by (auto simp: node_at_append)
      then have "ugm_scan A V s i n node' (j + 1) ?st = Some (fold (match_step A V T s i n) [Suc j..<Suc (length s)] ?st)"
        using 1(1) [OF False here c(1) Some 1(2)] 1(3) False by simp
      then show ?thesis unfolding upt using False here c(1) Some by (simp add: ugm_scan.simps [of A V s i n node j])
    qed
  qed
qed

text \<open>What a step may do to the table: entries behind \<open>i\<close> are replaced by better ones made of an edge from \<open>i\<close>.\<close>

definition improved :: "float_ops \<Rightarrow> vocab \<Rightarrow> ugm \<Rightarrow> string \<Rightarrow> nat \<Rightarrow> best_tokenization list \<Rightarrow> best_tokenization list \<Rightarrow> bool" where
  "improved A V U s i R R' \<longleftrightarrow> length R' = length R \<and>
     (\<forall>k < length R. bt_score (R ! k) \<le> bt_score (R' ! k) \<and> (R' ! k = R ! k \<or>
        (\<exists>tok sc. ugm_edge V U s i k tok sc \<and> R' ! k = \<lparr>bt_token = tok, bt_offset = i, bt_score = dadd A (bt_score (R ! i)) sc\<rparr>)))"

lemma improved_refl: "improved A V U s i R R"
  by (simp add: improved_def)

lemma improved_same: "improved A V U s i R R' \<Longrightarrow> k \<le> i \<Longrightarrow> k < length R \<Longrightarrow> R' ! k = R ! k"
  by (auto simp: improved_def ugm_edge_def)

lemma improved_challenge:
  assumes imp: "improved A V U s i R R'" and e: "ugm_edge V U s i j tok sc" and len: "length R = Suc (length s)"
    and ch: "ch = \<lparr>bt_token = tok, bt_offset = i, bt_score = dadd A (bt_score (R' ! i)) sc\<rparr>"
  shows "improved A V U s i R (challenge j ch R')" and "dadd A (bt_score (R ! i)) sc \<le> bt_score (challenge j ch R' ! j)"
proof -
  have j: "i < j" "j < length R" using e len by (auto simp: ugm_edge_def)
  have i: "R' ! i = R ! i" using improved_same [OF imp, of i] j by simp
  have l: "length R' = length R" using imp by (simp add: improved_def)
  show "dadd A (bt_score (R ! i)) sc \<le> bt_score (challenge j ch R' ! j)" using j l i by (simp add: challenge_def ch)
  show "improved A V U s i R (challenge j ch R')"
  proof (cases "bt_score (R' ! j) < bt_score ch")
    case True
    have "bt_score (R ! j) \<le> bt_score ch" using True imp j by (fastforce simp: improved_def)
    then show ?thesis using True imp e j l i unfolding improved_def challenge_def ch by (auto simp: nth_list_update)
  qed (use imp in \<open>simp add: challenge_def\<close>)
qed

lemma ugm_step_improves:
  assumes tk: "tokens_known V (token_matcher U)" and i: "i < length s" and len: "length R = Suc (length s)"
  shows "\<exists>R'. ugm_step A V U s i R = Some R' \<and> improved A V U s i R R' \<and>
    (\<forall>j tok sc. ugm_edge V U s i j tok sc \<longrightarrow> dadd A (bt_score (R ! i)) sc \<le> bt_score (R' ! j))"
proof -
  let ?T = "token_matcher U" and ?n = "code_units s i"
  let ?f = "match_step A V ?T s i ?n"
  define P where "P = (\<lambda>j st. improved A V U s i R (snd st) \<and>
    (fst st \<longleftrightarrow> i + ?n < j \<and> value_at ?T (substr s i (i + ?n)) \<noteq> None) \<and>
    (\<forall>k tok. i < k \<and> k < j \<and> value_at ?T (substr s i k) = Some tok \<longrightarrow> dadd A (bt_score (R ! i)) (token_score V tok) \<le> bt_score (snd st ! k)))"
  have n: "0 < ?n" "i + ?n \<le> length s" using code_units_pos [OF i] by auto
  have "P (Suc (length s)) (fold ?f [Suc i..<Suc (length s)] (False, R))"
  proof (rule fold_range_inv [where P = P])
    show "P (Suc i) (False, R)" using n(1) by (auto simp: P_def improved_refl)
    fix j st
    assume j: "Suc i \<le> j" "j < Suc (length s)" and Pj: "P j st"
    show "P (Suc j) (?f j st)"
    proof (cases "value_at ?T (substr s i j)")
      case None
      have "j \<noteq> i + ?n \<or> value_at ?T (substr s i (i + ?n)) = None" using None by blast
      then show ?thesis using None Pj unfolding P_def match_step_def by (auto simp: less_Suc_eq)
    next
      case (Some tok)
      let ?ch = "\<lparr>bt_token = tok, bt_offset = i, bt_score = dadd A (bt_score (snd st ! i)) (token_score V tok)\<rparr>"
      have e: "ugm_edge V U s i j tok (token_score V tok)" using Some j by (simp add: ugm_edge_def)
      have imp: "improved A V U s i R (snd st)" using Pj by (simp add: P_def)
      note c = improved_challenge [OF imp e len refl]
      have f: "?f j st = (fst st \<or> j - i = ?n, challenge j ?ch (snd st))" using Some by (simp add: match_step_def)
      have other: "bt_score (snd st ! k) \<le> bt_score (challenge j ?ch (snd st) ! k)" for k
        by (cases "j < length (snd st)") (auto simp: challenge_def nth_list_update list_update_beyond)
      have "dadd A (bt_score (R ! i)) (token_score V tk) \<le> bt_score (challenge j ?ch (snd st) ! k)"
        if "i < k" "k < Suc j" "value_at ?T (substr s i k) = Some tk" for k tk
      proof (cases "k = j")
        case True
        then show ?thesis using c(2) that(3) Some by simp
      next
        case False
        then have "dadd A (bt_score (R ! i)) (token_score V tk) \<le> bt_score (snd st ! k)" using Pj that by (simp add: P_def)
        then show ?thesis using other [of k] by linarith
      qed
      moreover have "fst st \<or> j - i = ?n \<longleftrightarrow> i + ?n < Suc j \<and> value_at ?T (substr s i (i + ?n)) \<noteq> None"
      proof (cases "j - i = ?n")
        case True
        then have "i + ?n = j" using j(1) by simp
        then show ?thesis using Some True by simp
      next
        case False
        then have "i + ?n \<noteq> j" by auto
        then show ?thesis using False Pj by (auto simp: P_def less_Suc_eq)
      qed
      ultimately show ?thesis unfolding P_def f using c(1) by simp
    qed
  qed (use i in simp)
  moreover obtain found R1 where R1: "fold ?f [Suc i..<Suc (length s)] (False, R) = (found, R1)" by fastforce
  ultimately have "P (Suc (length s)) (found, R1)" by simp
  then have P1: "improved A V U s i R R1" "found \<longleftrightarrow> value_at ?T (substr s i (i + ?n)) \<noteq> None"
    "\<And>k tok. i < k \<Longrightarrow> k \<le> length s \<Longrightarrow> value_at ?T (substr s i k) = Some tok \<Longrightarrow> dadd A (bt_score (R ! i)) (token_score V tok) \<le> bt_score (R1 ! k)"
    using n(2) by (simp_all add: P_def)
  have scan: "(case traverse ?T (s ! i) of None \<Rightarrow> Some (False, R) | Some node \<Rightarrow> ugm_scan A V s i ?n node (i + 1) (False, R)) = Some (found, R1)"
  proof (cases "traverse ?T (s ! i)")
    case None
    have "value_at ?T (substr s i k) = None" if "k \<in> set [Suc i..<Suc (length s)]" for k
      using that i None by (cases "k - i") (auto simp: substr_def value_at_Cons Cons_nth_drop_Suc [symmetric])
    then show ?thesis using None R1 match_steps_none [of "[Suc i..<Suc (length s)]" ?T s i A V ?n "(False, R)"] by simp
  next
    case (Some node)
    have "node_at ?T (substr s i (Suc i)) = Some node" using Some i by (simp add: substr_def Cons_nth_drop_Suc [symmetric])
    then show ?thesis using Some ugm_scan_eq [OF tk, of i "Suc i" s node A ?n "(False, R)"] R1 i by simp
  qed
  show ?thesis
  proof (cases found)
    case True
    then have "ugm_step A V U s i R = Some R1" using scan by (simp add: ugm_step_def)
    then show ?thesis using P1 True by (auto simp: ugm_edge_def)
  next
    case False
    let ?ch = "\<lparr>bt_token = special_unk_id V, bt_offset = i, bt_score = dadd A (bt_score (R1 ! i)) (unknown_token_score U)\<rparr>"
    have e: "ugm_edge V U s i (i + ?n) (special_unk_id V) (unknown_token_score U)" using False P1(2) n by (simp add: ugm_edge_def)
    note c = improved_challenge [OF P1(1) e len refl]
    have other: "bt_score (R1 ! k) \<le> bt_score (challenge (i + ?n) ?ch R1 ! k)" for k
      by (cases "i + ?n < length R1") (auto simp: challenge_def nth_list_update list_update_beyond)
    have "dadd A (bt_score (R ! i)) sc \<le> bt_score (challenge (i + ?n) ?ch R1 ! j)" if "ugm_edge V U s i j tok sc" for j tok sc
      using that P1(3) [of j tok] c(2) other [of j] unfolding ugm_edge_def by (auto intro: order_trans)
    moreover have "ugm_step A V U s i R = Some (challenge (i + ?n) ?ch R1)" using scan False by (simp add: ugm_step_def)
    ultimately show ?thesis using c(1) by auto
  qed
qed

section \<open>The table\<close>

text \<open>What the search relies on: the rounded addition is monotone, and no sum of scores is as low as the initial score.\<close>

definition scores_ok :: "float_ops \<Rightarrow> vocab \<Rightarrow> ugm \<Rightarrow> string \<Rightarrow> bool" where
  "scores_ok A V U s \<longleftrightarrow> (\<forall>a b c. a \<le> b \<longrightarrow> dadd A a c \<le> dadd A b c) \<and> (\<forall>j es. ugm_path V U s j es \<longrightarrow> - DBL_MAX < path_score A es)"

definition entry_ok :: "float_ops \<Rightarrow> vocab \<Rightarrow> ugm \<Rightarrow> string \<Rightarrow> nat \<Rightarrow> best_tokenization list \<Rightarrow> nat \<Rightarrow> bool" where
  "entry_ok A V U s i R k \<longleftrightarrow> boundary s (bt_offset (R ! k)) \<and> bt_offset (R ! k) < i \<and>
     (\<exists>sc. ugm_edge V U s (bt_offset (R ! k)) k (bt_token (R ! k)) sc \<and> bt_score (R ! k) = dadd A (bt_score (R ! bt_offset (R ! k))) sc)"

definition search_ok :: "float_ops \<Rightarrow> vocab \<Rightarrow> ugm \<Rightarrow> string \<Rightarrow> nat \<Rightarrow> best_tokenization list \<Rightarrow> bool" where
  "search_ok A V U s i R \<longleftrightarrow> length R = Suc (length s) \<and> bt_score (R ! 0) = 0 \<and> boundary s i \<and>
     (\<forall>k \<le> length s. 0 < k \<and> - DBL_MAX < bt_score (R ! k) \<longrightarrow> entry_ok A V U s i R k) \<and>
     (\<forall>k < i. boundary s k \<longrightarrow> (\<forall>j tok sc. ugm_edge V U s k j tok sc \<longrightarrow> dadd A (bt_score (R ! k)) sc \<le> bt_score (R ! j))) \<and>
     (\<forall>k \<le> i. boundary s k \<and> 0 < k \<longrightarrow> - DBL_MAX < bt_score (R ! k))"

lemma search_okD:
  assumes "search_ok A V U s i R"
  shows "length R = Suc (length s)" and "bt_score (R ! 0) = 0" and "boundary s i"
    and "k \<le> length s \<Longrightarrow> 0 < k \<Longrightarrow> - DBL_MAX < bt_score (R ! k) \<Longrightarrow> entry_ok A V U s i R k"
    and "k < i \<Longrightarrow> boundary s k \<Longrightarrow> ugm_edge V U s k j tok sc \<Longrightarrow> dadd A (bt_score (R ! k)) sc \<le> bt_score (R ! j)"
    and "k \<le> i \<Longrightarrow> boundary s k \<Longrightarrow> 0 < k \<Longrightarrow> - DBL_MAX < bt_score (R ! k)"
  using assms unfolding search_ok_def by blast+

lemma search_path:
  assumes ok: "search_ok A V U s i R"
  shows "boundary s k \<Longrightarrow> k \<le> i \<Longrightarrow> \<exists>es. ugm_path V U s k es \<and> path_score A es = bt_score (R ! k)"
proof (induction k rule: less_induct)
  case (less k)
  show ?case
  proof (cases "k = 0")
    case True
    then show ?thesis using search_okD(2) [OF ok] path_0 by (intro exI [of _ "[]"]) simp
  next
    case False
    then have "entry_ok A V U s i R k" using search_okD(4,6) [OF ok, of k] boundary_le [OF less.prems(1)] less.prems by simp
    then obtain sc where e: "boundary s (bt_offset (R ! k))" "ugm_edge V U s (bt_offset (R ! k)) k (bt_token (R ! k)) sc"
      "bt_score (R ! k) = dadd A (bt_score (R ! bt_offset (R ! k))) sc" by (auto simp: entry_ok_def)
    moreover from e(2) have "bt_offset (R ! k) < k" by (simp add: ugm_edge_def)
    ultimately obtain es where "ugm_path V U s (bt_offset (R ! k)) es" "path_score A es = bt_score (R ! bt_offset (R ! k))"
      using less.IH [of "bt_offset (R ! k)"] less.prems(2) by auto
    then show ?thesis using path_step [OF _ e(1,2)] e(3) by (metis path_score_snoc(1))
  qed
qed

lemma search_step:
  assumes ok: "search_ok A V U s i R" and sc: "scores_ok A V U s" and tk: "tokens_known V (token_matcher U)" and i: "i < length s"
  shows "\<exists>R'. ugm_step A V U s i R = Some R' \<and> search_ok A V U s (i + code_units s i) R'"
proof -
  note D = search_okD [OF ok]
  let ?n = "code_units s i"
  have n: "0 < ?n" "i + ?n \<le> length s" using code_units_pos [OF i] by auto
  obtain R' where R': "ugm_step A V U s i R = Some R'" "improved A V U s i R R'"
    "\<And>j tok sc. ugm_edge V U s i j tok sc \<Longrightarrow> dadd A (bt_score (R ! i)) sc \<le> bt_score (R' ! j)"
    using ugm_step_improves [OF tk i D(1)] by blast
  have same: "R' ! k = R ! k" if "k \<le> i" for k using improved_same [OF R'(2) that] that i D(1) by simp
  have better: "bt_score (R ! k) \<le> bt_score (R' ! k)" if "k \<le> length s" for k using R'(2) D(1) that by (simp add: improved_def)
  have reach: "- DBL_MAX < dadd A (bt_score (R ! i)) c" if "ugm_edge V U s i j tok c" for j tok c
  proof -
    obtain es where "ugm_path V U s i es" "path_score A es = bt_score (R ! i)" using search_path [OF ok D(3)] by auto
    then have "ugm_path V U s j (es @ [(tok, c)])" "path_score A (es @ [(tok, c)]) = dadd A (bt_score (R ! i)) c"
      using path_step [OF _ D(3) that] by simp_all
    then show ?thesis using sc unfolding scores_ok_def by metis
  qed
  have entries: "entry_ok A V U s (i + ?n) R' k" if k: "k \<le> length s" "0 < k" "- DBL_MAX < bt_score (R' ! k)" for k
  proof (cases "R' ! k = R ! k")
    case True
    then have "entry_ok A V U s i R k" using D(4) k by simp
    then show ?thesis using True same n(1) by (auto simp: entry_ok_def)
  next
    case False
    moreover have "k < length R" using k(1) D(1) by simp
    ultimately obtain tok c where "ugm_edge V U s i k tok c" "R' ! k = \<lparr>bt_token = tok, bt_offset = i, bt_score = dadd A (bt_score (R ! i)) c\<rparr>"
      using R'(2) unfolding improved_def by blast
    then show ?thesis using D(3) n(1) same [of i] by (auto simp: entry_ok_def)
  qed
  have gap: "k \<le> i" if "boundary s k" "k < i + ?n" for k
    using boundary_gap [OF D(3) that(1)] that(2) by (cases "i < k") auto
  have relaxed: "dadd A (bt_score (R' ! k)) c \<le> bt_score (R' ! j)"
    if "k < i + ?n" "boundary s k" "ugm_edge V U s k j tok c" for k j tok c
  proof (cases "k = i")
    case True
    then show ?thesis using R'(3) that(3) same [of i] by simp
  next
    case False
    then have "k < i" using gap that(1,2) by fastforce
    then show ?thesis using D(5) [OF _ that(2,3)] same [of k] better [of j] that(3) by (fastforce simp: ugm_edge_def)
  qed
  have "\<exists>tok c. ugm_edge V U s i (i + ?n) tok c"
    using n by (cases "value_at (token_matcher U) (substr s i (i + ?n))") (auto simp: ugm_edge_def)
  then have "- DBL_MAX < bt_score (R' ! (i + ?n))" using R'(3) reach by (meson less_le_trans)
  then have "- DBL_MAX < bt_score (R' ! k)" if "k \<le> i + ?n" "boundary s k" "0 < k" for k
    using that gap [of k] D(6) [of k] same [of k] by (cases "k = i + ?n") auto
  then have "search_ok A V U s (i + ?n) R'"
    unfolding search_ok_def using entries relaxed D(1,2) R'(2) same [of 0] boundary_next [OF D(3) i] by (auto simp: improved_def)
  then show ?thesis using R'(1) by blast
qed

lemma search_loop:
  assumes "scores_ok A V U s" and "tokens_known V (token_matcher U)"
  shows "search_ok A V U s i R \<Longrightarrow> \<exists>R'. ugm_loop A V U s i R = Some R' \<and> search_ok A V U s (length s) R'"
proof (induction "length s - i" arbitrary: i R rule: less_induct)
  case less
  show ?case
  proof (cases "i < length s")
    case True
    obtain R' where R': "ugm_step A V U s i R = Some R'" "search_ok A V U s (i + code_units s i) R'"
      using search_step [OF less.prems assms True] by blast
    have "length s - (i + code_units s i) < length s - i" using code_units_pos [OF True] True by linarith
    then show ?thesis using less.hyps [OF _ R'(2)] R'(1) True by (simp add: ugm_loop.simps [of A V U s i])
  next
    case False
    then have "i = length s" using boundary_le [OF search_okD(3) [OF less.prems]] by simp
    then show ?thesis using less.prems by (simp add: ugm_loop.simps)
  qed
qed

lemma search_optimal:
  assumes ok: "search_ok A V U s (length s) R" and sc: "scores_ok A V U s"
  shows "ugm_path V U s j es \<Longrightarrow> path_score A es \<le> bt_score (R ! j)"
proof (induction rule: ugm_path.induct)
  case path_0
  then show ?case using search_okD(2) [OF ok] by simp
next
  case (path_step i es j tok c)
  have "i < length s" using path_step(3) by (simp add: ugm_edge_def)
  then have "dadd A (bt_score (R ! i)) c \<le> bt_score (R ! j)" using search_okD(5) [OF ok _ path_step(2,3)] by simp
  moreover have "dadd A (path_score A es) c \<le> dadd A (bt_score (R ! i)) c" using sc path_step.IH by (simp add: scores_ok_def)
  ultimately show ?case by simp
qed

section \<open>Going back\<close>

text \<open>Runs of unknown tokens become one.\<close>

fun collapse :: "'a \<Rightarrow> 'a list \<Rightarrow> 'a list" where
  "collapse u (a # b # r) = (if a = u \<and> b = u then collapse u (b # r) else a # collapse u (b # r))"
| "collapse u r = r"

fun pushed :: "'a \<Rightarrow> bool \<Rightarrow> 'a list \<Rightarrow> 'a list" where
  "pushed u prev [] = []"
| "pushed u prev (t # ts) = (if prev \<and> t = u then [] else [t]) @ pushed u (t = u) ts"

lemma pushed_snoc: "pushed u prev (xs @ [a]) = pushed u prev xs @ (if (if xs = [] then prev else last xs = u) \<and> a = u then [] else [a])"
  by (induction xs arbitrary: prev) auto

lemma rev_pushed: "rev (pushed u False (rev ts)) = collapse u ts"
proof (induction ts rule: collapse.induct)
  case (1 u a b r)
  then show ?case using pushed_snoc [of u False "rev r @ [b]" a] by auto
qed simp_all

lemma ugm_back_path:
  assumes ok: "search_ok A V U s m R0" and m: "m = length s"
  shows "0 < k \<Longrightarrow> k \<le> m \<Longrightarrow> boundary s k \<Longrightarrow> k \<le> fuel \<Longrightarrow> length R = length R0 \<Longrightarrow> \<forall>j < m. R ! j = R0 ! j \<Longrightarrow> R ! m = R0 ! k \<Longrightarrow>
    \<exists>es. ugm_path V U s k es \<and> path_score A es = bt_score (R0 ! k) \<and>
      ugm_back fuel V m R prev out = Some (out @ pushed (special_unk_id V) prev (rev (map fst es)))"
proof (induction k arbitrary: fuel R prev out rule: less_induct)
  case (less k)
  note D = search_okD [OF ok]
  let ?e = "R0 ! k"
  let ?o = "bt_offset ?e"
  obtain f where f: "fuel = Suc f" using less.prems(1,4) by (cases fuel) auto
  have "entry_ok A V U s m R0 k" using D(4,6) [of k] less.prems(1-3) m by simp
  then obtain c where e: "boundary s ?o" "ugm_edge V U s ?o k (bt_token ?e) c" "bt_score ?e = dadd A (bt_score (R0 ! ?o)) c"
    by (auto simp: entry_ok_def)
  have o: "?o < k" using e(2) by (simp add: ugm_edge_def)
  let ?prev = "bt_token ?e = special_unk_id V"
  let ?out = "if prev \<and> ?prev then out else out @ [bt_token ?e]"
  show ?case
  proof (cases "?o = 0")
    case True
    have "ugm_path V U s k ([] @ [(bt_token ?e, c)])" using path_step [OF path_0 _ e(2) [unfolded True]] e(1) True by simp
    moreover have "path_score A ([] @ [(bt_token ?e, c)]) = bt_score ?e" using e(3) True D(2) by (simp add: path_score_def)
    ultimately show ?thesis using True f less.prems(7)
      by (intro exI [of _ "[(bt_token ?e, c)]"]) (simp add: Let_def)
  next
    case False
    have len: "length R0 = Suc m" using D(1) m by simp
    have step: "ugm_back fuel V m R prev out = ugm_back f V m (R[m := R0 ! ?o]) ?prev ?out"
      using False f less.prems(2,5,6,7) o len by (simp add: Let_def)
    have "\<exists>es. ugm_path V U s ?o es \<and> path_score A es = bt_score (R0 ! ?o) \<and>
        ugm_back f V m (R[m := R0 ! ?o]) ?prev ?out = Some (?out @ pushed (special_unk_id V) ?prev (rev (map fst es)))"
      using False o e(1) less.prems(2,4,5,6) f len by (intro less.IH) auto
    then obtain es where es: "ugm_path V U s ?o es" "path_score A es = bt_score (R0 ! ?o)"
      "ugm_back f V m (R[m := R0 ! ?o]) ?prev ?out = Some (?out @ pushed (special_unk_id V) ?prev (rev (map fst es)))" by blast
    then show ?thesis using path_step [OF es(1) e(1,2)] e(3) step
      by (intro exI [of _ "es @ [(bt_token ?e, c)]"]) simp
  qed
qed

lemma boundary_end: "boundary s i \<Longrightarrow> boundary s (length s)"
proof (induction "length s - i" arbitrary: i rule: less_induct)
  case less
  show ?case
  proof (cases "i < length s")
    case True
    have "length s - (i + code_units s i) < length s - i" using code_units_pos [OF True] True by linarith
    then show ?thesis using less.hyps [OF _ boundary_next [OF less.prems True]] by simp
  next
    case False
    then show ?thesis using less.prems boundary_le [OF less.prems] by simp
  qed
qed

lemma search_init:
  "search_ok A V U s 0 ((replicate (Suc (length s)) \<lparr>bt_token = u, bt_offset = 0, bt_score = - DBL_MAX\<rparr>)[0 := \<lparr>bt_token = u, bt_offset = 0, bt_score = 0\<rparr>])"
  unfolding search_ok_def by (auto simp: boundary_0 nth_list_update nth_Cons')

text \<open>C24: The unigram tokenizer finds the best segmentation. Let the rounded addition of scores be monotone and let no
  sum of scores reach the initial \<^verbatim>\<open>-DBL_MAX\<close>. Then, on a non-empty normalised text, the search
  ends and outputs the tokens of a segmentation of the text into tokens and unknown code points, with
  runs of unknown tokens merged, and no other segmentation has a higher score.\<close>

theorem ugm_search_optimal:
  assumes "s \<noteq> []" and "tokens_known V (token_matcher U)" and "scores_ok A V U s"
  shows "\<exists>es. ugm_path V U s (length s) es \<and> ugm_search A V U s out = Some (out @ collapse (special_unk_id V) (map fst es)) \<and>
    (\<forall>es'. ugm_path V U s (length s) es' \<longrightarrow> path_score A es' \<le> path_score A es)"
proof -
  let ?R = "(replicate (Suc (length s)) \<lparr>bt_token = special_unk_id V, bt_offset = 0, bt_score = - DBL_MAX\<rparr>)[0 := \<lparr>bt_token = special_unk_id V, bt_offset = 0, bt_score = 0\<rparr>]"
  obtain R where R: "ugm_loop A V U s 0 ?R = Some R" "search_ok A V U s (length s) R"
    using search_loop [OF assms(3,2) search_init] by blast
  obtain es where es: "ugm_path V U s (length s) es" "path_score A es = bt_score (R ! length s)"
    "ugm_back (length s) V (length s) R False out = Some (out @ pushed (special_unk_id V) False (rev (map fst es)))"
    using ugm_back_path [OF R(2) refl, of "length s" "length s" R False out] assms(1) boundary_end [OF boundary_0] by auto
  have "ugm_search A V U s out = Some (out @ collapse (special_unk_id V) (map fst es))"
    using assms(1) R(1) es(3) by (simp add: ugm_search_def rev_pushed)
  then show ?thesis using es(1,2) search_optimal [OF R(2) assms(3)] by auto
qed

text \<open>With exact addition and scores that are bounded from below the hypotheses on the scores hold.\<close>

lemma exact_scores_ok:
  assumes "dadd A = (+)" and edges: "\<And>i j tok sc. ugm_edge V U s i j tok sc \<Longrightarrow> - c \<le> sc" and "0 \<le> c" and "c * real (length s) < DBL_MAX"
  shows "scores_ok A V U s"
proof -
  have path: "- c * real j \<le> path_score A es \<and> j \<le> length s" if "ugm_path V U s j es" for j es
    using that
  proof (induction rule: ugm_path.induct)
    case (path_step i es j tok sc)
    have "i < j" "j \<le> length s" using path_step(3) by (auto simp: ugm_edge_def)
    moreover have "c * (real i + 1) \<le> c * real j" using assms(3) \<open>i < j\<close> by (intro mult_left_mono) auto
    ultimately show ?case using path_step.IH edges [OF path_step(3)] assms(1) by (simp add: algebra_simps)
  qed simp
  have "- DBL_MAX < path_score A es" if "ugm_path V U s j es" for j es
  proof -
    have "c * real j \<le> c * real (length s)" using path [OF that] assms(3) by (intro mult_left_mono) auto
    then show ?thesis using path [OF that] assms(4) by linarith
  qed
  then show ?thesis using assms(1) by (simp add: scores_ok_def)
qed

definition demo_ops :: float_ops where
  "demo_ops = \<lparr>dadd = (+), fsub = (-)\<rparr>"

definition demo_ugm_vocab :: vocab where
  "demo_ugm_vocab = vocab0\<lparr>v_type := UGM, special_unk_id := 3, id_to_token :=
     [\<lparr>td_text = [97], td_score = -1, td_attr = ATTR_NORMAL\<rparr>, \<lparr>td_text = [98], td_score = -1, td_attr = ATTR_NORMAL\<rparr>,
      \<lparr>td_text = [97, 98], td_score = -1.5, td_attr = ATTR_NORMAL\<rparr>]\<rparr>"

definition demo_ugm :: ugm where
  "demo_ugm = \<lparr>prefix_replacements = [], xcda_array = [], user_defined_token_matcher = trie_empty, min_score = -1.5, max_score = -1,
     unknown_token_score = -11.5, token_matcher = trie_insert ''ab'' 2 (trie_insert ''b'' 1 (trie_insert ''a'' 0 trie_empty))\<rparr>"

lemma demo_ugm_values: "value_at (token_matcher demo_ugm) key = Some tok \<Longrightarrow> tok \<in> {0, 1, 2}"
  by (auto simp: demo_ugm_def value_at_insert value_at_empty split: if_splits)

theorem ugm_search_optimal_witness:
  "\<exists>es. ugm_path demo_ugm_vocab demo_ugm ''ab'' 2 es \<and>
    ugm_search demo_ops demo_ugm_vocab demo_ugm ''ab'' [] = Some (collapse 3 (map fst es)) \<and>
    (\<forall>es'. ugm_path demo_ugm_vocab demo_ugm ''ab'' 2 es' \<longrightarrow> path_score demo_ops es' \<le> path_score demo_ops es)"
proof -
  have tk: "tokens_known demo_ugm_vocab (token_matcher demo_ugm)"
    using demo_ugm_values by (fastforce simp: tokens_known_def get_token_data_def demo_ugm_vocab_def)
  have edges: "- 12 \<le> sc" if "ugm_edge demo_ugm_vocab demo_ugm ''ab'' i j tok sc" for i j tok sc
    using that demo_ugm_values [of "substr ''ab'' i j" tok]
    by (auto simp: ugm_edge_def token_score_def get_token_data_def demo_ugm_vocab_def) (simp add: demo_ugm_def)
  have "scores_ok demo_ops demo_ugm_vocab demo_ugm ''ab''"
    by (rule exact_scores_ok [where c = 12, OF _ edges]) (simp_all add: demo_ops_def DBL_MAX_def)
  then show ?thesis using tk ugm_search_optimal [of "''ab''" demo_ugm_vocab demo_ugm demo_ops "[]"]
    by (simp add: numeral_2_eq_2) (simp add: demo_ugm_vocab_def)
qed

section \<open>Two deviations\<close>

text \<open>The end of the array passes the check and is read.\<close>

lemma get_node_reads_past_end: "length xs < 2 ^ 32 \<Longrightarrow> get_node xs (of_nat (length xs)) = Inl ''read outside the XCDA array''"
  by (simp add: get_node_def unat_of_nat take_bit_nat_eq_self)

text \<open>A proper beginning of a user-defined token counts as that token and is exempt from normalisation: with the
  token \<^verbatim>\<open>ab\<close> the input \<^verbatim>\<open>ax\<close> is cut behind the \<^verbatim>\<open>a\<close>, whatever the map would replace.\<close>

lemma normalize_prefix_partial_match:
  assumes "user_defined_token_matcher U = trie_insert ''ab'' 0 trie_empty"
  shows "normalize_prefix U [97, 120] = Inr ([97], 1)"
proof -
  have "get_longest_prefix (trie_insert ''ab'' 0 trie_empty) (chars [97, 120]) 0 = 1"
    by code_simp
  then show ?thesis using assms by (simp add: normalize_prefix_def)
qed

end
