(* ===== verification/VocabPieces.thy ===== *)
theory VocabPieces
  imports Vocab RwkvTokenizer
begin

text \<open>
  \<^verbatim>\<open>src/llama-vocab.cpp\<close>: the text of a token and of a list of tokens (\<^verbatim>\<open>token_to_piece\<close>, \<^verbatim>\<open>detokenize\<close>). A
  buffer is the list of its bytes and a write outside it has no value, so that a result shows that the
  buffer is never overrun.
\<close>

section \<open>Replacing\<close>

text \<open>\<^verbatim>\<open>replace_all\<close> of \<^verbatim>\<open>src/llama-impl.cpp\<close>: the search goes on behind each occurrence.\<close>

lemma str_find_le: "str_find s p = Some i \<Longrightarrow> i \<le> length s"
  by (auto simp: str_find_def find_Some_iff less_Suc_eq_le simp del: upt_Suc)

function replace_all :: "'a list \<Rightarrow> 'a list \<Rightarrow> 'a list \<Rightarrow> 'a list" where
  "replace_all search repl s =
     (if search = [] then s
      else case str_find s search of
          None \<Rightarrow> s
        | Some pos \<Rightarrow> take pos s @ repl @ replace_all search repl (drop (pos + length search) s))"
  by auto

lemma str_find_room:
  assumes "str_find s p = Some i"
  shows "i + length p \<le> length s" and "take (length p) (drop i s) = p"
proof -
  have "str_at s i p" using assms by (auto simp: str_find_def find_Some_iff simp del: upt_Suc)
  then show "take (length p) (drop i s) = p" by (simp add: str_at_def)
  then have "length p \<le> length s - i" by (metis length_drop length_take min.cobounded1)
  then show "i + length p \<le> length s" using str_find_le [OF assms] by simp
qed

termination replace_all
proof (relation "measure (\<lambda>(search, repl, s). length s)", goal_cases)
  case (2 search repl s pos)
  then show ?case using str_find_room(1) [of s search pos] by (cases search) auto
qed simp

declare replace_all.simps [simp del]

definition spm_space :: bytes where
  "spm_space = [0xE2, 0x96, 0x81]"

definition llama_escape_whitespace :: "bytes \<Rightarrow> bytes" where
  "llama_escape_whitespace s = replace_all [32] spm_space s"

definition llama_unescape_whitespace :: "bytes \<Rightarrow> bytes" where
  "llama_unescape_whitespace s = replace_all spm_space [32] s"

section \<open>The text of a token\<close>

fun lstrip_loop :: "nat \<Rightarrow> bytes \<Rightarrow> bytes" where
  "lstrip_loop (Suc n) (b # bs) = (if b = 32 then lstrip_loop n bs else b # bs)"
| "lstrip_loop n bs = bs"

text \<open>The number returned and the bytes written at the start of the buffer.\<close>

definition try_copy :: "int \<Rightarrow> nat \<Rightarrow> bytes \<Rightarrow> (int \<times> bytes) option" where
  "try_copy len lstrip token =
     (if 2 ^ 31 - 1 \<le> int (length token) then None
      else
        let token = lstrip_loop lstrip token
        in if len < int (length token) then Some (- int (length token), []) else Some (int (length token), token))"

text \<open>What there is to copy: through \<^verbatim>\<open>_try_copy\<close>, as a whole, one byte, or nothing.\<close>

datatype piece_source = Copy bytes | Whole bytes | Single u8 | Nothing

definition spm_piece :: "vocab \<Rightarrow> int \<Rightarrow> u32 \<Rightarrow> bytes \<Rightarrow> piece_source option" where
  "spm_piece V token attr token_text =
     (if attr AND (ATTR_UNKNOWN OR ATTR_CONTROL OR ATTR_USER_DEFINED) \<noteq> 0 then Some (Copy token_text)
      else if attr AND ATTR_NORMAL \<noteq> 0 then Some (Copy (llama_unescape_whitespace token_text))
      else if attr AND ATTR_BYTE \<noteq> 0 then map_option (\<lambda>b. Copy [b]) (token_to_byte V token)
      else Some Nothing)"

definition bpe_piece :: "u32 \<Rightarrow> bytes \<Rightarrow> piece_source option" where
  "bpe_piece attr token_text =
     (if attr AND (ATTR_UNKNOWN OR ATTR_CONTROL OR ATTR_USER_DEFINED) \<noteq> 0 then Some (Copy token_text)
      else if attr AND ATTR_NORMAL \<noteq> 0 then
        (case llama_decode_text token_text of Inl e \<Rightarrow> None | Inr s \<Rightarrow> Some (Copy s))
      else Some Nothing)"

definition plamo2_piece :: "u32 \<Rightarrow> bytes \<Rightarrow> piece_source option" where
  "plamo2_piece attr token_text =
     (if attr AND ATTR_BYTE \<noteq> 0 \<and> length token_text = 6 \<and> take 3 token_text = ascii ''<0x'' \<and> last token_text = 62
      then map_option (\<lambda>v. Single (of_int v)) (strtol16 (take 2 (drop 3 token_text)))
      else Some (Copy token_text))"

definition piece_of_token :: "vocab \<Rightarrow> int \<Rightarrow> bool \<Rightarrow> piece_source option" where
  "piece_of_token V token special =
     (case token_get_attr V token of
        None \<Rightarrow> None
      | Some attr \<Rightarrow>
          if \<not> special \<and> attr AND (ATTR_UNKNOWN OR ATTR_CONTROL) \<noteq> 0 then Some Nothing
          else if cache_token_to_piece V \<noteq> [] then
            if token < int (length (cache_token_to_piece V)) then Some (Copy (cache_token_to_piece V ! nat token)) else None
          else
            let token_text = td_text (id_to_token V ! nat token)
            in case v_type V of
                WPM \<Rightarrow> spm_piece V token attr token_text
              | SPM \<Rightarrow> spm_piece V token attr token_text
              | UGM \<Rightarrow> spm_piece V token attr token_text
              | BPE \<Rightarrow> bpe_piece attr token_text
              | RWKV \<Rightarrow> Some (Whole (llama_unescape_rwkv_token (map (\<lambda>b. char_of (unat b)) token_text)))
              | PLAMO2 \<Rightarrow> plamo2_piece attr token_text
              | NONE \<Rightarrow> None)"

text \<open>The comparison of the RWKV case is one of unsigned 64-bit numbers.\<close>

definition token_to_piece :: "vocab \<Rightarrow> int \<Rightarrow> int \<Rightarrow> nat \<Rightarrow> bool \<Rightarrow> (int \<times> bytes) option" where
  "token_to_piece V token len lstrip special =
     (case piece_of_token V token special of
        None \<Rightarrow> None
      | Some (Copy s) \<Rightarrow> try_copy len lstrip s
      | Some (Whole s) \<Rightarrow>
          if len mod 2 ^ 64 < int (length s) then Some (- int (length s), []) else Some (int (length s), s)
      | Some (Single b) \<Rightarrow> if len < 1 then Some (-1, []) else Some (1, [b])
      | Some Nothing \<Rightarrow> Some (0, []))"

text \<open>Writing bytes into a buffer.\<close>

definition write_at :: "nat \<Rightarrow> bytes \<Rightarrow> bytes \<Rightarrow> bytes option" where
  "write_at pos bs buf =
     (if pos + length bs \<le> length buf then Some (take pos buf @ bs @ drop (pos + length bs) buf) else None)"

text \<open>The string starts with the capacity \<open>cap\<close> the library gives an empty string.\<close>

definition token_to_piece_for_cache :: "nat \<Rightarrow> vocab \<Rightarrow> int \<Rightarrow> bool \<Rightarrow> bytes option" where
  "token_to_piece_for_cache cap V token special =
     (case token_to_piece V token (int cap) 0 special of
        None \<Rightarrow> None
      | Some (n_chars, w) \<Rightarrow>
          if n_chars < 0 then
            (case token_to_piece V token (- n_chars) 0 special of
               None \<Rightarrow> None
             | Some (check, w) \<Rightarrow> if check = - n_chars then write_at 0 w (replicate (nat (- n_chars)) 0) else None)
          else map_option (take (nat n_chars)) (write_at 0 w (replicate cap 0)))"

section \<open>Detokenising\<close>

record detok =
  dt_avail :: int
  dt_total :: int
  dt_pos :: int
  dt_buf :: bytes

text \<open>One turn of the loop; a total beyond the range of \<^verbatim>\<open>int32_t\<close> has no value.\<close>

definition detok_step :: "vocab \<Rightarrow> bool \<Rightarrow> int \<Rightarrow> nat \<Rightarrow> detok \<Rightarrow> detok option" where
  "detok_step V unparse_special token lstrip st =
     (if dt_avail st < 0 then None
      else case token_to_piece V token (dt_avail st) lstrip unparse_special of
          None \<Rightarrow> None
        | Some (n_chars, w) \<Rightarrow>
            (case write_at (nat (dt_pos st)) w (dt_buf st) of
               None \<Rightarrow> None
             | Some buf \<Rightarrow>
                 if 2 ^ 31 \<le> dt_total st + \<bar>n_chars\<bar> then None
                 else if n_chars < 0 then Some (st\<lparr>dt_avail := 0, dt_total := dt_total st - n_chars, dt_buf := buf\<rparr>)
                 else if 0 < n_chars then
                   Some \<lparr>dt_avail = dt_avail st - n_chars, dt_total = dt_total st + n_chars, dt_pos = dt_pos st + n_chars, dt_buf = buf\<rparr>
                 else Some (st\<lparr>dt_buf := buf\<rparr>)))"

fun detok_loop :: "vocab \<Rightarrow> bool \<Rightarrow> int list \<Rightarrow> bool \<Rightarrow> detok \<Rightarrow> detok option" where
  "detok_loop V unparse_special [] remove_space st = Some st"
| "detok_loop V unparse_special (t # ts) remove_space st =
     Option.bind (detok_step V unparse_special t (if remove_space then 1 else 0) st) (detok_loop V unparse_special ts False)"

text \<open>A pass that removes the space before position \<open>i\<close> where \<open>cond\<close> holds.\<close>

definition space_step :: "(bytes \<Rightarrow> nat \<Rightarrow> bool) \<Rightarrow> nat \<Rightarrow> bytes \<times> nat \<Rightarrow> bytes \<times> nat" where
  "space_step cond i st =
     (let (buf, tot) = st;
          x = buf ! i;
          tot = (if buf ! (i - 1) = 32 \<and> cond buf i then tot - 1 else tot)
      in (buf[tot := x], tot + 1))"

definition space_pass :: "(bytes \<Rightarrow> nat \<Rightarrow> bool) \<Rightarrow> bytes \<times> nat \<Rightarrow> bytes \<times> nat" where
  "space_pass cond st = (case st of (buf, total1) \<Rightarrow>
     fold (space_step cond) [1..<total1] (buf, if total1 \<noteq> 0 then 1 else 0))"

definition punct_cond :: "bytes \<Rightarrow> nat \<Rightarrow> bool" where
  "punct_cond buf i \<longleftrightarrow> buf ! i \<in> {63, 33, 46, 44}"

definition contraction_cond :: "nat \<Rightarrow> bytes \<Rightarrow> nat \<Rightarrow> bool" where
  "contraction_cond total3 buf i \<longleftrightarrow> buf ! i = 39 \<and> i + 1 < total3 \<and>
     (let x1 = buf ! (i + 1)
      in if x1 = 116 \<or> x1 = 100 then False
         else if x1 = 115 \<or> x1 = 109 then True
         else i + 2 < total3 \<and> (let x2 = buf ! (i + 2) in (x1 = 114 \<and> x2 = 101) \<or> (x1 = 118 \<and> x2 = 101)))"

text \<open>The second pass: an apostrophe between spaces loses both.\<close>

function apos_loop :: "nat \<Rightarrow> nat \<Rightarrow> bytes \<Rightarrow> nat \<Rightarrow> bytes \<times> nat" where
  "apos_loop total2 i buf tot =
     (if i < total2 then
        let x = buf ! i
        in if x = 39 \<and> i + 1 < total2 \<and> buf ! (i - 1) = 32 \<and> buf ! (i + 1) = 32
           then apos_loop total2 (i + 2) ((buf[i + 1 := 0])[tot - 1 := x]) (tot - 1 + 1)
           else apos_loop total2 (i + 1) (buf[tot := x]) (tot + 1)
      else (buf, tot))"
  by auto

termination apos_loop
  by (relation "measure (\<lambda>(total2, i, buf, tot). total2 - i)") auto

declare apos_loop.simps [simp del]

definition clean_up :: "bytes \<times> nat \<Rightarrow> bytes \<times> nat" where
  "clean_up st =
     (let (buf, total2) = space_pass punct_cond st;
          (buf, total3) = apos_loop total2 1 buf (if total2 \<noteq> 0 then 1 else 0)
      in space_pass (contraction_cond total3) (buf, total3))"

text \<open>Whether a leading space is removed, and the tokens without the special ones at the ends.\<close>

definition detok_tokens :: "vocab \<Rightarrow> int list \<Rightarrow> bool \<Rightarrow> bool \<times> int list" where
  "detok_tokens V tokens remove_special =
     (let bos = (remove_special \<and> add_bos V \<and> tokens \<noteq> [] \<and> hd tokens = special_bos_id V);
          tokens = (if bos then tl tokens else tokens);
          tokens = (if remove_special \<and> add_eos V \<and> tokens \<noteq> [] \<and> last tokens = special_eos_id V then butlast tokens else tokens)
      in (add_space_prefix V \<and> \<not> bos, tokens))"

text \<open>\<^verbatim>\<open>n_tokens\<close> is the length of \<open>tokens\<close>, \<^verbatim>\<open>text_len_max\<close> is given with the buffer.\<close>

definition detokenize :: "vocab \<Rightarrow> int list \<Rightarrow> bytes \<Rightarrow> int \<Rightarrow> bool \<Rightarrow> bool \<Rightarrow> (int \<times> bytes) option" where
  "detokenize V tokens buf text_len_max remove_special unparse_special =
     (if v_type V = NONE then Some (0, buf)
      else
        let (remove_space, tokens) = detok_tokens V tokens remove_special
        in case detok_loop V unparse_special tokens remove_space \<lparr>dt_avail = text_len_max, dt_total = 0, dt_pos = 0, dt_buf = buf\<rparr> of
             None \<Rightarrow> None
           | Some st \<Rightarrow>
               if text_len_max < dt_total st then Some (- dt_total st, dt_buf st)
               else if clean_spaces V then
                 if dt_pos st - dt_total st \<noteq> 0 then None
                 else let (buf, tot) = clean_up (dt_buf st, nat (dt_total st))
                      in Some (if int tot \<le> text_len_max then int tot else - int tot, buf)
               else Some (dt_total st, dt_buf st))"

section \<open>Pieces\<close>

text \<open>The bytes of a token, whatever room there is.\<close>

definition piece_bytes :: "vocab \<Rightarrow> nat \<Rightarrow> bool \<Rightarrow> int \<Rightarrow> bytes option" where
  "piece_bytes V lstrip special token =
     (case piece_of_token V token special of
        None \<Rightarrow> None
      | Some (Copy s) \<Rightarrow> if 2 ^ 31 - 1 \<le> int (length s) then None else Some (lstrip_loop lstrip s)
      | Some (Whole s) \<Rightarrow> Some s
      | Some (Single b) \<Rightarrow> Some [b]
      | Some Nothing \<Rightarrow> Some [])"

lemma token_to_piece_bytes:
  assumes "0 \<le> len" and "len < 2 ^ 64"
  shows "token_to_piece V t len lstrip special =
    map_option (\<lambda>w. if len < int (length w) then (- int (length w), []) else (int (length w), w)) (piece_bytes V lstrip special t)"
proof -
  have "len mod 2 ^ 64 = len" using assms by simp
  then show ?thesis using assms(1) unfolding token_to_piece_def piece_bytes_def
    by (auto simp: try_copy_def Let_def split: option.split piece_source.split)
qed

text \<open>The cached pieces do not depend on the capacity of an empty string.\<close>

lemma token_to_piece_for_cache_bytes:
  assumes "piece_bytes V 0 special t = Some w" and "length w < 2 ^ 31" and "cap < 2 ^ 31"
  shows "token_to_piece_for_cache cap V t special = Some w"
proof -
  have p: "token_to_piece V t len 0 special = Some (if len < int (length w) then (- int (length w), []) else (int (length w), w))"
    if "0 \<le> len" "len < 2 ^ 31" for len using token_to_piece_bytes [of len V t 0 special] that assms(1) by simp
  show ?thesis using p [of "int cap"] p [of "int (length w)"] assms(2,3)
    by (auto simp: token_to_piece_for_cache_def write_at_def)
qed


section \<open>The buffer\<close>




section \<open>Cleaning up spaces\<close>




















definition demo_pieces :: vocab where
  "demo_pieces = vocab0\<lparr>clean_spaces := True, id_to_token :=
     [\<lparr>td_text = [72, 105], td_score = 0, td_attr = ATTR_NORMAL\<rparr>,
      \<lparr>td_text = [0xE2, 0x96, 0x81, 33], td_score = 0, td_attr = ATTR_NORMAL\<rparr>]\<rparr>"

text \<open>With a clean-up, the negative result is not the number of bytes that the call would have returned: three bytes
  are returned when there is room for four, and with room for three the result is -4.\<close>

lemma detokenize_overestimates:
  "map_option fst (detokenize demo_pieces [0, 1] [0, 0, 0, 0] 4 False False) = Some 3"
  "map_option fst (detokenize demo_pieces [0, 1] [0, 0, 0] 3 False False) = Some (-4)"
  by code_simp+


end
