(* ===== verification/VocabPartition.thy ===== *)
theory VocabPartition
  imports Vocab
begin

text \<open>
  \<^verbatim>\<open>src/llama-vocab.cpp\<close>: \<^verbatim>\<open>tokenizer_st_partition\<close> cuts a text at the occurrences of special tokens. The list of fragments
  with an iterator is a list with an index; inserting behind the iterator and erasing an earlier
  element move the index as they move the iterator's place. \<open>None\<close> is a failed assertion, an exception
  or a loop that does not end within the fuel.
\<close>

section \<open>Definitions\<close>

datatype fragment = Token int | RawText bytes nat nat

text \<open>The constructor of a text fragment with its assertions.\<close>

definition raw_fragment :: "bytes \<Rightarrow> nat \<Rightarrow> nat \<Rightarrow> fragment option" where
  "raw_fragment raw off len = (if 1 \<le> len \<and> off + len \<le> length raw then Some (RawText raw off len) else None)"

definition emplace_after :: "fragment \<Rightarrow> fragment list \<times> nat \<Rightarrow> fragment list \<times> nat" where
  "emplace_after f st = (case st of (buffer, it) \<Rightarrow> (take (Suc it) buffer @ f # drop (Suc it) buffer, Suc it))"

definition erase_source :: "nat \<Rightarrow> fragment list \<times> nat \<Rightarrow> fragment list \<times> nat" where
  "erase_source source st = (case st of (buffer, it) \<Rightarrow> (take source buffer @ drop (Suc source) buffer, it - 1))"

fun lstrip_left :: "bytes \<Rightarrow> nat \<Rightarrow> nat \<Rightarrow> nat" where
  "lstrip_left raw off 0 = 0"
| "lstrip_left raw off (Suc n) = (if b_isspace (raw ! (off + n)) then lstrip_left raw off n else Suc n)"

fun rstrip_right :: "bytes \<Rightarrow> nat \<Rightarrow> nat \<Rightarrow> nat \<times> nat" where
  "rstrip_right raw off 0 = (off, 0)"
| "rstrip_right raw off (Suc n) = (if b_isspace (raw ! off) then rstrip_right raw (Suc off) n else (off, Suc n))"

text \<open>Inserting what is left of a match, if anything.\<close>

definition emplace_raw :: "bytes \<Rightarrow> nat \<Rightarrow> nat \<Rightarrow> fragment list \<times> nat \<Rightarrow> (fragment list \<times> nat) option" where
  "emplace_raw raw off len st =
     (if 0 < len then map_option (\<lambda>f. emplace_after f st) (raw_fragment raw off len) else Some st)"

fun st_loop :: "nat \<Rightarrow> int \<Rightarrow> token_data \<Rightarrow> bytes \<Rightarrow> nat \<Rightarrow> nat \<Rightarrow> fragment list \<times> nat \<Rightarrow> (fragment list \<times> nat) option" where
  "st_loop 0 special_id data raw off len st = None"
| "st_loop (Suc fuel) special_id data raw off len st =
     (case str_find (drop off (take (off + len) raw)) (td_text data) of
        None \<Rightarrow> Some st
      | Some k \<Rightarrow>
          let source = snd st;
              match = off + k;
              n = length (td_text data);
              left_len = (if td_attr data AND ATTR_LSTRIP \<noteq> 0 then lstrip_left raw off k else k)
          in Option.bind (if off < match then emplace_raw raw off left_len st else Some st) (\<lambda>st.
               let st = emplace_after (Token special_id) st
               in if match + n < off + len then
                    let (right_off, right_len) =
                          (if td_attr data AND ATTR_RSTRIP \<noteq> 0 then rstrip_right raw (match + n) (len - (k + n)) else (match + n, len - (k + n)))
                    in Option.bind (emplace_raw raw right_off right_len st) (\<lambda>st.
                         st_loop fuel special_id data raw right_off right_len (erase_source source st))
                  else Some (erase_source source st)))"

declare st_loop.simps(2) [simp del]

text \<open>The loop over the fragments for one special token.\<close>

fun st_fragments :: "nat \<Rightarrow> int \<Rightarrow> token_data \<Rightarrow> fragment list \<times> nat \<Rightarrow> fragment list option" where
  "st_fragments fuel special_id data (buffer, it) =
     (if it < length buffer then
        (case fuel of 0 \<Rightarrow> None
         | Suc fuel \<Rightarrow>
             (case buffer ! it of
                Token t \<Rightarrow> st_fragments fuel special_id data (buffer, Suc it)
              | RawText raw off len \<Rightarrow>
                  Option.bind (st_loop (Suc len) special_id data raw off len (buffer, it))
                    (\<lambda>(buffer, it). st_fragments fuel special_id data (buffer, Suc it))))
      else Some buffer)"

declare st_fragments.simps [simp del]

definition st_active :: "bool \<Rightarrow> token_data \<Rightarrow> bool" where
  "st_active parse_special data \<longleftrightarrow> parse_special \<or> td_attr data AND (ATTR_CONTROL OR ATTR_UNKNOWN) = 0"

definition tokenizer_st_partition :: "vocab \<Rightarrow> bool \<Rightarrow> fragment list \<Rightarrow> fragment list option" where
  "tokenizer_st_partition V parse_special buffer =
     foldM (\<lambda>special_id buffer.
       case get_token_data V special_id of
         None \<Rightarrow> None
       | Some data \<Rightarrow>
           if st_active parse_special data then st_fragments (length buffer) special_id data (buffer, 0) else Some buffer)
       (cache_special_tokens V) buffer"

section \<open>The fragments of a text\<close>

text \<open>The same, as a function from a text fragment to fragments.\<close>

lemma find_room: "str_find s p = Some i \<Longrightarrow> i + length p \<le> length s \<and> take (length p) (drop i s) = p"
proof -
  assume "str_find s p = Some i"
  then have "str_at s i p" "i \<le> length s" by (auto simp: str_find_def find_Some_iff less_Suc_eq_le simp del: upt_Suc)
  then have "take (length p) (drop i s) = p" "i \<le> length s" by (simp_all add: str_at_def)
  moreover from this have "length p \<le> length s - i" by (metis length_drop length_take min.cobounded1)
  ultimately show ?thesis by simp
qed

lemma rstrip_right_sum: "rstrip_right raw off n = (o', n') \<Longrightarrow> o' + n' = off + n \<and> off \<le> o'"
  by (induction raw off n rule: rstrip_right.induct) (auto split: if_splits)

definition left_length :: "token_data \<Rightarrow> bytes \<Rightarrow> nat \<Rightarrow> nat \<Rightarrow> nat" where
  "left_length data raw off k = (if td_attr data AND ATTR_LSTRIP \<noteq> 0 then lstrip_left raw off k else k)"

definition right_part :: "token_data \<Rightarrow> bytes \<Rightarrow> nat \<Rightarrow> nat \<Rightarrow> nat \<times> nat" where
  "right_part data raw off len = (if td_attr data AND ATTR_RSTRIP \<noteq> 0 then rstrip_right raw off len else (off, len))"

lemma right_part_sum: "right_part data raw off n = (o', n') \<Longrightarrow> o' + n' = off + n \<and> off \<le> o'"
  using rstrip_right_sum by (auto simp: right_part_def split: if_splits)

definition raw_if :: "bytes \<Rightarrow> nat \<Rightarrow> nat \<Rightarrow> fragment list" where
  "raw_if raw off len = (if 0 < len then [RawText raw off len] else [])"

function split_raw :: "int \<Rightarrow> token_data \<Rightarrow> bytes \<Rightarrow> nat \<Rightarrow> nat \<Rightarrow> fragment list" where
  "split_raw special_id data raw off len =
     (if len = 0 \<or> td_text data = [] then raw_if raw off len
      else case str_find (take len (drop off raw)) (td_text data) of
          None \<Rightarrow> [RawText raw off len]
        | Some k \<Rightarrow>
            (case right_part data raw (off + k + length (td_text data)) (len - (k + length (td_text data))) of
               (o', l') \<Rightarrow> raw_if raw off (left_length data raw off k) @ Token special_id # split_raw special_id data raw o' l'))"
  by auto

termination split_raw
proof (relation "measure (\<lambda>(i, d, r, off, len). len)", goal_cases)
  case (2 special_id data raw off len k o' l')
  then have "l' \<le> len - (k + length (td_text data))" using right_part_sum [OF 2(3) [symmetric]] by simp
  then show ?case using 2(1) by (cases "td_text data") auto
qed simp

declare split_raw.simps [simp del]

lemma lstrip_left_le: "lstrip_left raw off n \<le> n"
  by (induction n) auto

lemma left_length_le: "left_length data raw off k \<le> k"
  by (simp add: left_length_def lstrip_left_le)

lemma emplace_raw_at:
  assumes "off + len \<le> length raw"
  shows "emplace_raw raw off len (pre @ x # post, length pre) = Some (pre @ x # raw_if raw off len @ post, length pre + length (raw_if raw off len))"
  using assms by (auto simp: emplace_raw_def raw_fragment_def emplace_after_def raw_if_def)

lemma st_loop_split:
  assumes "td_text data \<noteq> []" and "0 < len" and "off + len \<le> length raw" and "len < fuel"
  shows "st_loop fuel special_id data raw off len (pre @ RawText raw off len # post, length pre) =
    Some (pre @ split_raw special_id data raw off len @ post, length pre + length (split_raw special_id data raw off len) - 1)"
  using assms(2-4)
proof (induction len arbitrary: off fuel pre rule: less_induct)
  case (less len)
  obtain f where f: "fuel = Suc f" "len \<le> f" using less.prems(3) by (cases fuel) auto
  have view: "drop off (take (off + len) raw) = take len (drop off raw)" by (simp add: drop_take)
  show ?case
  proof (cases "str_find (take len (drop off raw)) (td_text data)")
    case None
    then show ?thesis using less.prems assms(1) by (simp add: f st_loop.simps view split_raw.simps [of special_id data raw off])
  next
    case (Some k)
    let ?n = "length (td_text data)" and ?ll = "left_length data raw off k"
    have room: "k + ?n \<le> len" "0 < ?n" using find_room [OF Some] assms(1) less.prems(2) by auto
    let ?L = "raw_if raw off ?ll"
    let ?x = "RawText raw off len"
    obtain o' l' where r: "right_part data raw (off + k + ?n) (len - (k + ?n)) = (o', l')" by fastforce
    have o': "o' + l' = off + len" "off + k + ?n \<le> o'" using right_part_sum [OF r] room(1) by auto
    then have l': "l' < len" using room(2) by linarith
    have left: "(if off < off + k then emplace_raw raw off ?ll (pre @ ?x # post, length pre) else Some (pre @ ?x # post, length pre)) =
        Some (pre @ ?x # ?L @ post, length pre + length ?L)"
      using emplace_raw_at [of off ?ll raw pre ?x post] left_length_le [of data raw off k] less.prems(2) room(1)
      by (cases k) (auto simp: left_length_def raw_if_def)
    have tok: "emplace_after (Token special_id) (pre @ ?x # ?L @ post, length pre + length ?L) =
        (pre @ ?x # ?L @ Token special_id # post, Suc (length pre + length ?L))"
      by (simp add: emplace_after_def)
    have split: "split_raw special_id data raw off len = ?L @ Token special_id # split_raw special_id data raw o' l'"
      using Some r less.prems(1) assms(1) by (simp add: split_raw.simps [of special_id data raw off])
    show ?thesis
    proof (cases "off + k + ?n < off + len")
      case False
      then have "l' = 0" "right_part data raw (off + k + ?n) 0 = (o', l')" using r o' right_part_sum [OF r] by auto
      then show ?thesis using False Some left tok split
        by (simp add: f st_loop.simps view left_length_def [symmetric] erase_source_def split_raw.simps [of special_id data raw o' 0] raw_if_def)
    next
      case True
      let ?P = "pre @ ?L @ [Token special_id]"
      have right: "emplace_raw raw o' l' (pre @ ?x # ?L @ Token special_id # post, Suc (length pre + length ?L)) =
          Some (pre @ ?x # ?L @ Token special_id # raw_if raw o' l' @ post, Suc (length pre + length ?L) + length (raw_if raw o' l'))"
        using emplace_raw_at [of o' l' raw "pre @ ?x # ?L" "Token special_id" post] o' less.prems(2) by simp
      have "st_loop fuel special_id data raw off len (pre @ ?x # post, length pre) =
          st_loop f special_id data raw o' l' (?P @ raw_if raw o' l' @ post, length ?P + length (raw_if raw o' l') - 1)"
        using True Some left tok right r
        by (simp add: f st_loop.simps view left_length_def [symmetric] right_part_def [symmetric] Let_def erase_source_def)
      also have "\<dots> = Some (?P @ split_raw special_id data raw o' l' @ post, length ?P + length (split_raw special_id data raw o' l') - 1)"
      proof (cases "l' = 0")
        case False
        then show ?thesis using less.IH [of l' o' f ?P] l' o' less.prems(2) f(2) by (simp add: raw_if_def)
      next
        case True
        obtain g where "f = Suc g" using f(2) less.prems(1) by (cases f) auto
        then show ?thesis using True assms(1)
          by (simp add: st_loop.simps raw_if_def split_raw.simps [of special_id data raw o' 0] str_find_def str_at_def)
      qed
      finally show ?thesis by (simp add: split)
    qed
  qed
qed

definition split_fragment :: "int \<Rightarrow> token_data \<Rightarrow> fragment \<Rightarrow> fragment list" where
  "split_fragment special_id data f =
     (case f of Token t \<Rightarrow> [Token t] | RawText raw off len \<Rightarrow> split_raw special_id data raw off len)"

fun fragment_ok :: "bytes \<Rightarrow> fragment \<Rightarrow> bool" where
  "fragment_ok raw (Token t) \<longleftrightarrow> True"
| "fragment_ok raw (RawText r off len) \<longleftrightarrow> r = raw \<and> 0 < len \<and> off + len \<le> length raw"

lemma split_raw_Nil: "split_raw special_id data raw off len = [] \<longleftrightarrow> len = 0"
  by (subst split_raw.simps) (auto simp: raw_if_def split: option.splits prod.splits)

lemma st_fragments_split:
  assumes "td_text data \<noteq> []" and "list_all (fragment_ok raw) todo" and "length todo \<le> fuel"
  shows "st_fragments fuel special_id data (pre @ todo, length pre) = Some (pre @ concat (map (split_fragment special_id data) todo))"
  using assms(2,3)
proof (induction todo arbitrary: pre fuel)
  case Nil
  then show ?case by (simp add: st_fragments.simps)
next
  case (Cons f todo)
  then obtain g where g: "fuel = Suc g" "length todo \<le> g" by (cases fuel) auto
  show ?case
  proof (cases f)
    case (Token t)
    then show ?thesis using Cons.IH [of g "pre @ [f]"] Cons.prems g
      by (simp add: st_fragments.simps [of "Suc g"] split_fragment_def)
  next
    case (RawText r off len)
    let ?S = "split_raw special_id data r off len"
    have ok: "0 < len" "off + len \<le> length r" using Cons.prems(1) RawText by auto
    then have "0 < length ?S" by (simp add: split_raw_Nil)
    then have "Suc (length pre + length ?S - 1) = length (pre @ ?S)" by simp
    then show ?thesis using Cons.IH [of g "pre @ ?S"] Cons.prems g RawText
        st_loop_split [OF assms(1) ok, of "Suc len" special_id pre todo]
      by (simp add: st_fragments.simps [of "Suc g"] split_fragment_def)
  qed
qed

section \<open>What a partition is\<close>

text \<open>Texts in a row, with nothing but white space between them.\<close>

fun joins :: "bytes list \<Rightarrow> bytes \<Rightarrow> bool" where
  "joins [] s \<longleftrightarrow> list_all b_isspace s"
| "joins (t # ts) s \<longleftrightarrow> (\<exists>w u. s = w @ t @ u \<and> list_all b_isspace w \<and> joins ts u)"

lemma joins_space: "list_all b_isspace w \<Longrightarrow> joins ts s \<Longrightarrow> joins ts (w @ s)"
proof (cases ts)
  case (Cons t ts')
  assume w: "list_all b_isspace w" and "joins ts s"
  then obtain v u where "s = v @ t @ u" "list_all b_isspace v" "joins ts' u" using Cons by auto
  then show ?thesis unfolding Cons joins.simps using w by (intro exI [of _ "w @ v"] exI [of _ u]) simp
qed simp

lemma joins_append: "joins xs a \<Longrightarrow> joins ys b \<Longrightarrow> joins (xs @ ys) (a @ b)"
proof (induction xs arbitrary: a)
  case (Cons x xs)
  then obtain w u where "a = w @ x @ u" "list_all b_isspace w" "joins xs u" by auto
  then show ?case using Cons.IH [of u] Cons.prems(2) by auto
qed (simp add: joins_space)

lemma joins_concat: "joins ts s \<Longrightarrow> list_all2 (\<lambda>t xs. joins xs t) ts xss \<Longrightarrow> joins (concat xss) s"
proof (induction ts arbitrary: s xss)
  case (Cons t ts)
  obtain xs xss' where xss: "xss = xs # xss'" "joins xs t" "list_all2 (\<lambda>t xs. joins xs t) ts xss'"
    using Cons.prems(2) by (cases xss) auto
  obtain w u where wu: "s = w @ t @ u" "list_all b_isspace w" "joins ts u" using Cons.prems(1) by auto
  have "joins (xs @ concat xss') (t @ u)" using joins_append [OF xss(2) Cons.IH [OF wu(3) xss(3)]] .
  then show ?case using joins_space [OF wu(2)] wu(1) xss(1) by simp
qed simp

lemma joins_one: "s = t @ u \<Longrightarrow> list_all b_isspace u \<Longrightarrow> joins [t] s"
  unfolding joins.simps by (intro exI [of _ "[]"] exI [of _ u]) simp

declare joins.simps(2) [simp del]

lemma lstrip_left_spaces: "off + k \<le> length raw \<Longrightarrow> list_all b_isspace (drop (lstrip_left raw off k) (take k (drop off raw)))"
proof (induction k)
  case (Suc k)
  then show ?case using lstrip_left_le [of raw off k] by (auto simp: take_Suc_conv_app_nth)
qed simp

lemma rstrip_right_spaces:
  "rstrip_right raw off n = (o', n') \<Longrightarrow> off + n \<le> length raw \<Longrightarrow> list_all b_isspace (take (o' - off) (drop off raw))"
proof (induction raw off n rule: rstrip_right.induct)
  case (2 raw off n)
  show ?case
  proof (cases "b_isspace (raw ! off)")
    case True
    then have r: "rstrip_right raw (Suc off) n = (o', n')" using 2(2) by simp
    have "o' - off = Suc (o' - Suc off)" using rstrip_right_sum [OF r] by arith
    moreover have "drop off raw = raw ! off # drop (Suc off) raw" using 2(3) by (simp add: Cons_nth_drop_Suc)
    ultimately show ?thesis using 2(1) [OF True r] 2(3) True by simp
  qed (use 2 in auto)
qed simp

lemma joins_left:
  assumes "off + k \<le> length raw"
  shows "joins (map (\<lambda>f. case f of Token t \<Rightarrow> h t | RawText r o' l \<Rightarrow> take l (drop o' r)) (raw_if raw off (left_length data raw off k)))
    (take k (drop off raw))"
proof -
  let ?l = "left_length data raw off k"
  have sp: "list_all b_isspace (drop ?l (take k (drop off raw)))"
    using lstrip_left_spaces [OF assms] by (auto simp: left_length_def)
  have "take k (drop off raw) = take ?l (drop off raw) @ drop ?l (take k (drop off raw))"
    using left_length_le [of data raw off k] by (metis append_take_drop_id min.absorb1 take_take)
  then have "joins [take ?l (drop off raw)] (take k (drop off raw))" using sp by (rule joins_one)
  then show ?thesis using sp by (cases "?l = 0") (simp_all add: raw_if_def)
qed

text \<open>The text a fragment stands for.\<close>

definition fragment_text :: "vocab \<Rightarrow> fragment \<Rightarrow> bytes" where
  "fragment_text V f =
     (case f of Token t \<Rightarrow> (case get_token_data V t of Some data \<Rightarrow> td_text data | None \<Rightarrow> [])
      | RawText raw off len \<Rightarrow> take len (drop off raw))"

lemma split_raw_joins:
  assumes "get_token_data V special_id = Some data"
  shows "off + len \<le> length raw \<Longrightarrow> joins (map (fragment_text V) (split_raw special_id data raw off len)) (take len (drop off raw))"
proof (induction special_id\<equiv>special_id data\<equiv>data raw off len rule: split_raw.induct)
  case (1 raw off len)
  let ?s = "take len (drop off raw)" and ?n = "length (td_text data)"
  show ?case
  proof (cases "len = 0 \<or> td_text data = [] \<or> str_find ?s (td_text data) = None")
    case True
    then show ?thesis using joins_one [of ?s ?s "[]"]
      by (auto simp: split_raw.simps [of special_id data raw off] raw_if_def fragment_text_def)
  next
    case False
    then obtain k where k: "str_find ?s (td_text data) = Some k" by auto
    have room: "k + ?n \<le> len" "take ?n (drop k ?s) = td_text data" using find_room [OF k] 1(2) by auto
    obtain o' l' where r: "right_part data raw (off + k + ?n) (len - (k + ?n)) = (o', l')" by fastforce
    note sum = right_part_sum [OF r]
    let ?w = "take (o' - (off + k + ?n)) (drop (off + k + ?n) raw)" and ?rest = "take l' (drop o' raw)"
    have d: "drop (k + ?n) ?s = take (len - (k + ?n)) (drop (off + k + ?n) raw)" by (simp add: drop_take add_ac)
    have l: "len - (k + ?n) = (o' - (off + k + ?n)) + l'" using sum room(1) by simp
    have "drop (o' - (off + k + ?n)) (drop (off + k + ?n) raw) = drop o' raw" using sum by simp
    then have tail: "drop (k + ?n) ?s = ?w @ ?rest" unfolding d l take_add by (rule arg_cong)
    have "take k ?s = take k (drop off raw)" using room(1) by simp
    moreover have "drop k ?s = td_text data @ ?w @ ?rest"
      using append_take_drop_id [of ?n "drop k ?s"] room(2) tail by (simp only: drop_drop add.commute)
    ultimately have s: "?s = take k (drop off raw) @ td_text data @ ?w @ ?rest" using append_take_drop_id [of k ?s] by metis
    have "list_all b_isspace ?w"
      using rstrip_right_spaces [of raw "off + k + ?n"] r 1(2) room(1) by (auto simp: right_part_def split: if_splits)
    moreover have "joins (map (fragment_text V) (split_raw special_id data raw o' l')) ?rest"
      using 1(1) [OF _ k r [symmetric]] False sum room(1) 1(2) by auto
    ultimately have "joins (td_text data # map (fragment_text V) (split_raw special_id data raw o' l')) (td_text data @ ?w @ ?rest)"
      unfolding joins.simps by (intro exI [of _ "[]"] exI [of _ "?w @ ?rest"]) (simp add: joins_space)
    moreover have "joins (map (fragment_text V) (raw_if raw off (left_length data raw off k))) (take k (drop off raw))"
      using joins_left [of off k raw] room(1) 1(2) unfolding fragment_text_def by simp
    ultimately have "joins (map (fragment_text V) (raw_if raw off (left_length data raw off k)) @
        td_text data # map (fragment_text V) (split_raw special_id data raw o' l')) ?s"
      unfolding s by (rule joins_append [rotated])
    then show ?thesis using False k r assms by (simp add: split_raw.simps [of special_id data raw off] fragment_text_def)
  qed
qed

section \<open>No special token is left in a text\<close>

lemma str_find_before:
  assumes "str_find s p = Some k" and "p \<noteq> []"
  shows "\<not> sublist p (take k s)"
proof
  assume "sublist p (take k s)"
  then obtain u v where uv: "take k s = u @ p @ v" by (auto simp: sublist_def)
  have s: "s = u @ p @ v @ drop k s" using append_take_drop_id [of k s] uv by simp
  then have "str_at s (length u) p" unfolding str_at_def by (metis append_eq_conv_conj)
  moreover have "length u < k"
  proof -
    have "length u + length p + length v \<le> k" using arg_cong [OF uv, of length] by simp
    then show ?thesis using assms(2) by (cases p) auto
  qed
  moreover have "\<forall>j < k. \<not> str_at s j p"
    using assms(1) unfolding str_find_def find_Some_iff by (auto simp del: upt_Suc)
  ultimately show False by blast
qed

lemma sublist_within:
  assumes "off \<le> o'" and "o' + l \<le> off + len"
  shows "sublist (take l (drop o' raw)) (take len (drop off raw))"
proof -
  have "drop (o' - off) (take len (drop off raw)) = take (len - (o' - off)) (drop o' raw)"
    using assms(1) by (simp add: drop_take)
  moreover have "take l (take (len - (o' - off)) (drop o' raw)) = take l (drop o' raw)"
    using assms by (simp add: min_def)
  ultimately have "take l (drop o' raw) = take l (drop (o' - off) (take len (drop off raw)))" by simp
  then show ?thesis by (metis sublist_drop sublist_order.order.trans sublist_take)
qed

lemma split_raw_texts:
  assumes "td_text data \<noteq> []"
  shows "off + len \<le> length raw \<Longrightarrow> RawText r o' l \<in> set (split_raw special_id data raw off len) \<Longrightarrow>
    r = raw \<and> 0 < l \<and> off \<le> o' \<and> o' + l \<le> off + len \<and> \<not> sublist (td_text data) (take l (drop o' raw))"
proof (induction special_id\<equiv>special_id data\<equiv>data raw off len rule: split_raw.induct)
  case (1 raw off len)
  let ?s = "take len (drop off raw)" and ?n = "length (td_text data)"
  have "0 < len" using 1(3) by (cases "len = 0") (auto simp: split_raw.simps [of special_id data raw off] raw_if_def)
  show ?case
  proof (cases "str_find ?s (td_text data)")
    case None
    then have "RawText r o' l = RawText raw off len" "\<not> sublist (td_text data) ?s"
      using 1(3) assms \<open>0 < len\<close> str_find_sublist [of ?s "td_text data"] by (auto simp: split_raw.simps [of special_id data raw off])
    then show ?thesis using \<open>0 < len\<close> by simp
  next
    case (Some k)
    have room: "k + ?n \<le> len" using find_room [OF Some] 1(2) by auto
    obtain o1 l1 where r: "right_part data raw (off + k + ?n) (len - (k + ?n)) = (o1, l1)" by fastforce
    note sum = right_part_sum [OF r]
    have "RawText r o' l \<in> set (raw_if raw off (left_length data raw off k)) \<union> set (split_raw special_id data raw o1 l1)"
      using 1(3) Some r assms \<open>0 < len\<close> by (auto simp: split_raw.simps [of special_id data raw off])
    then show ?thesis
    proof
      assume "RawText r o' l \<in> set (raw_if raw off (left_length data raw off k))"
      then have eq: "r = raw" "o' = off" "0 < l" "l \<le> k"
        using left_length_le [of data raw off k] by (auto simp: raw_if_def split: if_splits)
      then have tk: "take l (drop off raw) = take l (take k ?s)" using room by (simp add: min_def)
      have "sublist (take l (drop off raw)) (take k ?s)" unfolding tk by (rule sublist_take)
      then show ?thesis using eq room str_find_before [OF Some assms] sublist_order.order.trans by auto
    next
      assume "RawText r o' l \<in> set (split_raw special_id data raw o1 l1)"
      then show ?thesis using 1(1) [OF _ Some r [symmetric]] sum room 1(2) assms \<open>0 < len\<close> by auto
    qed
  qed
qed

lemma split_raw_tokens: "Token t \<in> set (split_raw special_id data raw off len) \<Longrightarrow> t = special_id"
proof (induction special_id data raw off len rule: split_raw.induct)
  case (1 special_id data raw off len)
  show ?case
  proof (cases "len = 0 \<or> td_text data = [] \<or> str_find (take len (drop off raw)) (td_text data) = None")
    case True
    then show ?thesis using 1(2) by (auto simp: split_raw.simps [of special_id data raw off] raw_if_def split: if_splits)
  next
    case False
    then obtain k where k: "str_find (take len (drop off raw)) (td_text data) = Some k" by auto
    obtain o1 l1 where r: "right_part data raw (off + k + length (td_text data)) (len - (k + length (td_text data))) = (o1, l1)" by fastforce
    have "t = special_id \<or> Token t \<in> set (split_raw special_id data raw o1 l1)"
      using 1(2) False k r by (auto simp: split_raw.simps [of special_id data raw off] raw_if_def split: if_splits)
    then show ?thesis using 1(1) [OF _ k r [symmetric]] False by auto
  qed
qed

section \<open>The partition\<close>

definition active_texts :: "vocab \<Rightarrow> bool \<Rightarrow> int list \<Rightarrow> bytes set" where
  "active_texts V parse_special ids = {td_text d | t d. t \<in> set ids \<and> get_token_data V t = Some d \<and> st_active parse_special d}"

definition partition_ok :: "vocab \<Rightarrow> bool \<Rightarrow> bytes \<Rightarrow> int list \<Rightarrow> fragment list \<Rightarrow> bool" where
  "partition_ok V parse_special raw ids fs \<longleftrightarrow> joins (map (fragment_text V) fs) raw \<and>
     (\<forall>t. Token t \<in> set fs \<longrightarrow> t \<in> set ids \<and> (\<exists>d. get_token_data V t = Some d \<and> st_active parse_special d)) \<and>
     (\<forall>r off len. RawText r off len \<in> set fs \<longrightarrow> r = raw \<and> 0 < len \<and> off + len \<le> length raw \<and>
        (\<forall>s \<in> active_texts V parse_special ids. \<not> sublist s (take len (drop off raw))))"

lemma partition_okD:
  assumes "partition_ok V ps raw ids fs"
  shows "joins (map (fragment_text V) fs) raw"
    and "Token t \<in> set fs \<Longrightarrow> t \<in> set ids \<and> (\<exists>d. get_token_data V t = Some d \<and> st_active ps d)"
    and "RawText r off len \<in> set fs \<Longrightarrow> r = raw \<and> 0 < len \<and> off + len \<le> length raw"
    and "RawText r off len \<in> set fs \<Longrightarrow> s \<in> active_texts V ps ids \<Longrightarrow> \<not> sublist s (take len (drop off raw))"
  using assms unfolding partition_ok_def by blast+

lemma active_texts_snoc:
  assumes "get_token_data V t = Some d"
  shows "active_texts V ps (ids @ [t]) = (if st_active ps d then insert (td_text d) (active_texts V ps ids) else active_texts V ps ids)"
  using assms by (auto simp: active_texts_def)

lemma partition_ok_split:
  assumes ok: "partition_ok V ps raw ids fs" and d: "get_token_data V t = Some d" "td_text d \<noteq> []" "st_active ps d"
  shows "partition_ok V ps raw (ids @ [t]) (concat (map (split_fragment t d) fs))"
proof -
  note D = partition_okD [OF ok]
  have "joins (map (fragment_text V) (split_fragment t d f)) (fragment_text V f)" if "f \<in> set fs" for f
  proof (cases f)
    case (RawText r off len)
    then show ?thesis using D(3) [of r off len] that split_raw_joins [OF d(1), of off len r]
      by (simp add: split_fragment_def fragment_text_def)
  qed (use joins_one [of _ _ "[]"] in \<open>simp add: split_fragment_def\<close>)
  then have "list_all2 (\<lambda>s xs. joins xs s) (map (fragment_text V) fs) (map (\<lambda>f. map (fragment_text V) (split_fragment t d f)) fs)"
    by (simp add: list_all2_conv_all_nth)
  then have "joins (map (fragment_text V) (concat (map (split_fragment t d) fs))) raw"
    using joins_concat [OF D(1)] by (simp add: map_concat comp_def)
  moreover have "u \<in> set (ids @ [t]) \<and> (\<exists>d. get_token_data V u = Some d \<and> st_active ps d)"
    if "Token u \<in> set (split_fragment t d f)" "f \<in> set fs" for u f
    using that D(2) [of u] split_raw_tokens [of u t d] d(1,3) by (cases f) (auto simp: split_fragment_def)
  moreover have "r = raw \<and> 0 < len \<and> off + len \<le> length raw \<and>
      (\<forall>s \<in> active_texts V ps (ids @ [t]). \<not> sublist s (take len (drop off raw)))"
    if g: "RawText r off len \<in> set (split_fragment t d f)" "f \<in> set fs" for r off len f
  proof (cases f)
    case (RawText r1 off1 len1)
    have f: "r1 = raw" "off1 + len1 \<le> length raw" using D(3) [of r1 off1 len1] g(2) RawText by auto
    have s: "r = raw \<and> 0 < len \<and> off1 \<le> off \<and> off + len \<le> off1 + len1 \<and> \<not> sublist (td_text d) (take len (drop off raw))"
      using split_raw_texts [OF d(2), of off1 len1 raw r off len t] f g(1) RawText by (simp add: split_fragment_def)
    then have "sublist (take len (drop off raw)) (take len1 (drop off1 raw))" using sublist_within by blast
    then have "\<not> sublist x (take len (drop off raw))" if "x \<in> active_texts V ps ids" for x
      using that D(4) [of r1 off1 len1 x] g(2) RawText f(1) sublist_order.order.trans by blast
    then show ?thesis using s f(2) d(3) by (auto simp: active_texts_snoc [OF d(1)])
  qed (use g in \<open>auto simp: split_fragment_def\<close>)
  moreover have mem: "g \<in> set (concat (map (split_fragment t d) fs)) \<longleftrightarrow> (\<exists>f \<in> set fs. g \<in> set (split_fragment t d f))" for g
    by auto
  ultimately show ?thesis unfolding partition_ok_def mem by blast
qed

text \<open>C28: Cutting a text at its special tokens. When every special token is in the vocabulary and has a text, the
  loops over the list of fragments end without a failed assertion, and: the fragments in order are
  the text, with nothing but white space lost between them; tokens come only from the active
  special tokens, so without \<^verbatim>\<open>parse_special\<close> no control or unknown token is made from text; and no text fragment
  contains the text of an active special token.\<close>

theorem st_partition_correct:
  assumes "raw \<noteq> []" and "\<forall>t \<in> set (cache_special_tokens V). \<exists>d. get_token_data V t = Some d \<and> td_text d \<noteq> []"
  shows "\<exists>fs. tokenizer_st_partition V parse_special [RawText raw 0 (length raw)] = Some fs \<and>
    partition_ok V parse_special raw (cache_special_tokens V) fs"
  unfolding tokenizer_st_partition_def
proof (rule foldM_inv)
  show "partition_ok V parse_special raw [] [RawText raw 0 (length raw)]"
    using assms(1) joins_one [of raw raw "[]"] by (simp add: partition_ok_def fragment_text_def active_texts_def)
  fix ds t todo fs
  assume c: "cache_special_tokens V = ds @ t # todo" and ok: "partition_ok V parse_special raw ds fs"
  obtain d where d: "get_token_data V t = Some d" "td_text d \<noteq> []" using assms(2) c by auto
  show "\<exists>fs'. (case get_token_data V t of None \<Rightarrow> None | Some data \<Rightarrow>
      if st_active parse_special data then st_fragments (length fs) t data (fs, 0) else Some fs) = Some fs' \<and>
    partition_ok V parse_special raw (ds @ [t]) fs'"
  proof (cases "st_active parse_special d")
    case True
    have "fragment_ok raw f" if "f \<in> set fs" for f
    proof (cases f)
      case (RawText r off len)
      then show ?thesis using that partition_okD(3) [OF ok, of r off len] by simp
    qed simp
    then have "list_all (fragment_ok raw) fs" by (simp add: list_all_iff)
    then have "st_fragments (length fs) t d (fs, 0) = Some (concat (map (split_fragment t d) fs))"
      using st_fragments_split [OF d(2), of raw fs "length fs" t "[]"] by simp
    then show ?thesis using partition_ok_split [OF ok d True] d(1) True by simp
  next
    case False
    then have "partition_ok V parse_special raw (ds @ [t]) fs"
      using ok unfolding partition_ok_def active_texts_snoc [OF d(1)] if_not_P [OF False] set_append by blast
    then show ?thesis using d(1) False by simp
  qed
qed

definition demo_special :: vocab where
  "demo_special = vocab0\<lparr>id_to_token := [\<lparr>td_text = ascii ''<s>'', td_score = 0, td_attr = ATTR_CONTROL\<rparr>,
     \<lparr>td_text = ascii ''[T]'', td_score = 0, td_attr = ATTR_USER_DEFINED OR ATTR_LSTRIP\<rparr>], cache_special_tokens := [0, 1]\<rparr>"

theorem st_partition_correct_witness:
  "tokenizer_st_partition demo_special False [RawText (ascii ''a [T]<s>'') 0 8] =
     Some [RawText (ascii ''a [T]<s>'') 0 1, Token 1, RawText (ascii ''a [T]<s>'') 5 3] \<and>
   partition_ok demo_special False (ascii ''a [T]<s>'') [0, 1]
     [RawText (ascii ''a [T]<s>'') 0 1, Token 1, RawText (ascii ''a [T]<s>'') 5 3]"
proof -
  let ?raw = "ascii ''a [T]<s>''"
  let ?fs = "[RawText ?raw 0 1, Token 1, RawText ?raw 5 3]"
  have c: "cache_special_tokens demo_special = [0, 1]" by (simp add: demo_special_def)
  have "\<forall>t \<in> set (cache_special_tokens demo_special). \<exists>d. get_token_data demo_special t = Some d \<and> td_text d \<noteq> []"
    by (simp add: c) (simp add: demo_special_def vocab0_def get_token_data_def ascii_def)
  moreover have "length ?raw = 8" "?raw \<noteq> []" by (simp_all add: ascii_def)
  moreover have "tokenizer_st_partition demo_special False [RawText ?raw 0 8] = Some ?fs" by code_simp
  ultimately show ?thesis using st_partition_correct [of ?raw demo_special False] c by auto
qed

end
