(* ===== verification/SynonymNormalizer.thy ===== *)
theory SynonymNormalizer
  imports CText
begin

text \<open>
  \<^verbatim>\<open>common/synonym_normalizer.cpp\<close>: prompts are folded to lower-case words without accents, and
  the words of an explicit table to a canonical term, before the guard looks for terms in them.
\<close>

section \<open>Definitions\<close>

text \<open>The table of \<^verbatim>\<open>normalize_ascii\<close>: the keys are the two UTF-8 bytes of each accented letter.\<close>

definition accent_map :: "(string \<times> char) list" where
  "accent_map =
     [([CHR 0xC3, CHR 0xA1], CHR ''a''), ([CHR 0xC3, CHR 0xA0], CHR ''a''), ([CHR 0xC3, CHR 0xA2], CHR ''a''),
      ([CHR 0xC3, CHR 0xA3], CHR ''a''), ([CHR 0xC3, CHR 0xA4], CHR ''a''), ([CHR 0xC3, CHR 0x81], CHR ''a''),
      ([CHR 0xC3, CHR 0x80], CHR ''a''), ([CHR 0xC3, CHR 0x82], CHR ''a''), ([CHR 0xC3, CHR 0x83], CHR ''a''),
      ([CHR 0xC3, CHR 0x84], CHR ''a''), ([CHR 0xC3, CHR 0xA9], CHR ''e''), ([CHR 0xC3, CHR 0xAA], CHR ''e''),
      ([CHR 0xC3, CHR 0xA8], CHR ''e''), ([CHR 0xC3, CHR 0xAB], CHR ''e''), ([CHR 0xC3, CHR 0x89], CHR ''e''),
      ([CHR 0xC3, CHR 0x8A], CHR ''e''), ([CHR 0xC3, CHR 0x88], CHR ''e''), ([CHR 0xC3, CHR 0x8B], CHR ''e''),
      ([CHR 0xC3, CHR 0xAD], CHR ''i''), ([CHR 0xC3, CHR 0xAE], CHR ''i''), ([CHR 0xC3, CHR 0xAC], CHR ''i''),
      ([CHR 0xC3, CHR 0xAF], CHR ''i''), ([CHR 0xC3, CHR 0x8D], CHR ''i''), ([CHR 0xC3, CHR 0x8E], CHR ''i''),
      ([CHR 0xC3, CHR 0x8C], CHR ''i''), ([CHR 0xC3, CHR 0x8F], CHR ''i''), ([CHR 0xC3, CHR 0xB3], CHR ''o''),
      ([CHR 0xC3, CHR 0xB4], CHR ''o''), ([CHR 0xC3, CHR 0xB2], CHR ''o''), ([CHR 0xC3, CHR 0xB5], CHR ''o''),
      ([CHR 0xC3, CHR 0xB6], CHR ''o''), ([CHR 0xC3, CHR 0x93], CHR ''o''), ([CHR 0xC3, CHR 0x94], CHR ''o''),
      ([CHR 0xC3, CHR 0x92], CHR ''o''), ([CHR 0xC3, CHR 0x95], CHR ''o''), ([CHR 0xC3, CHR 0x96], CHR ''o''),
      ([CHR 0xC3, CHR 0xBA], CHR ''u''), ([CHR 0xC3, CHR 0xBB], CHR ''u''), ([CHR 0xC3, CHR 0xB9], CHR ''u''),
      ([CHR 0xC3, CHR 0xBC], CHR ''u''), ([CHR 0xC3, CHR 0x9A], CHR ''u''), ([CHR 0xC3, CHR 0x9B], CHR ''u''),
      ([CHR 0xC3, CHR 0x99], CHR ''u''), ([CHR 0xC3, CHR 0x9C], CHR ''u''), ([CHR 0xC3, CHR 0xA7], CHR ''c''),
      ([CHR 0xC3, CHR 0x87], CHR ''c'')]"

text \<open>What the loop needs of the table: it moves on, and a key never reaches into ASCII text.\<close>

lemma accent_map_entry:
  assumes "(key, r) \<in> set accent_map"
  shows "length key = 2" and "\<forall>c \<in> set key. \<not> byte c < 128" and "c_islower r"
proof -
  have "list_all (\<lambda>(key, r). length key = 2 \<and> (\<forall>c \<in> set key. \<not> byte c < 128) \<and> c_islower r) accent_map"
    by (simp add: accent_map_def c_islower_def)
  with assms have "length key = 2 \<and> (\<forall>c \<in> set key. \<not> byte c < 128) \<and> c_islower r"
    by (auto simp: list_all_iff)
  then show "length key = 2" and "\<forall>c \<in> set key. \<not> byte c < 128" and "c_islower r" by auto
qed

lemma find_accent:
  "List.find P accent_map = Some (key, r) \<Longrightarrow> (key, r) \<in> set accent_map \<and> P (key, r)"
  by (metis find_Some_iff nth_mem)

function normalize_ascii :: "string \<Rightarrow> string" where
  "normalize_ascii [] = []"
| "normalize_ascii (c # cs) =
     (if byte c < 0x80 then c_tolower c # normalize_ascii cs
      else case List.find (\<lambda>entry. str_at (c # cs) 0 (fst entry)) accent_map of
        Some (key, r) \<Rightarrow> r # normalize_ascii (drop (length key) (c # cs))
      | None \<Rightarrow> normalize_ascii cs)"
  by pat_completeness auto

termination normalize_ascii
  by (relation "measure length") (auto dest!: sym [where t = "List.find _ _"] find_accent accent_map_entry(1))

definition synonym_table :: "string \<Rightarrow> string option" where
  "synonym_table = map_of
     [(''toranja'', ''grapefruit''),
      (''pomelo'', ''grapefruit''),
      (''grapefruit'', ''grapefruit''),
      (''gergelim'', ''sesame''),
      (''sesame'', ''sesame''),
      (''sesamo'', ''sesame'')]"

definition tokenize_step :: "char \<Rightarrow> string list \<times> string \<Rightarrow> string list \<times> string" where
  "tokenize_step c st =
     (case st of (tokens, current) \<Rightarrow>
        if c_isalnum c then (tokens, current @ [c])
        else if current \<noteq> [] then (tokens @ [current], [])
        else (tokens, current))"

definition tokenize_simple :: "string \<Rightarrow> string list" where
  "tokenize_simple text =
     (case fold tokenize_step text ([], []) of (tokens, current) \<Rightarrow>
        if current \<noteq> [] then tokens @ [current] else tokens)"

text \<open>Appending the tokens one by one, a space before every one but the first.\<close>

fun join_tokens :: "string list \<Rightarrow> string" where
  "join_tokens [] = []"
| "join_tokens [t] = t"
| "join_tokens (t # ts) = t @ CHR '' '' # join_tokens ts"

definition normalize_token :: "string \<Rightarrow> string" where
  "normalize_token token =
     (let normalized = normalize_ascii token
      in case synonym_table normalized of Some canon \<Rightarrow> canon | None \<Rightarrow> normalized)"

definition normalize_text :: "string \<Rightarrow> string" where
  "normalize_text text = join_tokens (map normalize_token (tokenize_simple (normalize_ascii text)))"

section \<open>Folding to lower-case ASCII\<close>

definition folded :: "char \<Rightarrow> bool" where
  "folded c \<longleftrightarrow> byte c < 128 \<and> \<not> c_isupper c"

lemma accent_folded: "(key, r) \<in> set accent_map \<Longrightarrow> folded r"
  by (drule accent_map_entry(3)) (simp add: folded_def c_islower_def c_isupper_def)

lemma normalize_ascii_folded: "\<forall>c \<in> set (normalize_ascii s). folded c"
proof (induction s rule: normalize_ascii.induct)
  case (2 c cs)
  show ?case
  proof (cases "byte c < 128")
    case True
    then show ?thesis using 2(1) by (simp add: folded_def tolower_ascii)
  next
    case False
    then show ?thesis using 2(2,3) accent_folded
      by (cases "List.find (\<lambda>entry. str_at (c # cs) 0 (fst entry)) accent_map")
         (auto dest: find_accent)
  qed
qed simp

lemma normalize_ascii_id: "\<forall>c \<in> set s. folded c \<Longrightarrow> normalize_ascii s = s"
  by (induction s) (auto simp: folded_def tolower_id)

lemma take_map_toupper:
  "\<forall>c \<in> set key. \<not> byte c < 128 \<Longrightarrow>
   take (length key) (map c_toupper s) = key \<longleftrightarrow> take (length key) s = key"
proof (induction key arbitrary: s)
  case (Cons k key)
  then show ?case
    by (cases s) (auto, metis toupper_ascii toupper_high, simp add: toupper_high)
qed simp

lemma normalize_ascii_toupper: "normalize_ascii (map c_toupper s) = normalize_ascii s"
proof (induction s rule: normalize_ascii.induct)
  case (2 c cs)
  show ?case
  proof (cases "byte c < 128")
    case True
    then show ?thesis using 2 by (simp add: toupper_ascii tolower_toupper)
  next
    case False
    have find: "List.find (\<lambda>entry. str_at (map c_toupper (c # cs)) 0 (fst entry)) accent_map =
        List.find (\<lambda>entry. str_at (c # cs) 0 (fst entry)) accent_map"
      using accent_map_entry(2) by (intro find_cong) (auto simp: str_at_def simp del: list.map intro!: take_map_toupper)
    show ?thesis
    proof (cases "List.find (\<lambda>entry. str_at (c # cs) 0 (fst entry)) accent_map")
      case None
      then show ?thesis using 2(2) False find by (simp add: toupper_high)
    next
      case (Some entry)
      obtain key r where entry: "entry = (key, r)" by (cases entry)
      have "normalize_ascii (map c_toupper (c # cs)) = r # normalize_ascii (drop (length key) (map c_toupper (c # cs)))"
        using False find Some entry by (simp add: toupper_high)
      also have "\<dots> = normalize_ascii (c # cs)"
        using 2(3) [OF False Some entry [symmetric]] False Some entry by (simp only: drop_map) simp
      finally show ?thesis .
    qed
  qed
qed simp

lemma str_at_high:
  assumes "(key, r) \<in> set accent_map" and "byte c < 128"
  shows "str_at (a @ c # b) 0 key \<longleftrightarrow> str_at a 0 key"
proof -
  have "c \<notin> set key" using accent_map_entry(2) [OF assms(1)] assms(2) by auto
  show ?thesis
  proof (cases "length key \<le> length a")
    case False
    have "c \<in> set (take (length key) (a @ c # b))"
      using False by (cases "length key - length a") auto
    with \<open>c \<notin> set key\<close> have "take (length key) (a @ c # b) \<noteq> key" by metis
    moreover have "take (length key) a \<noteq> key" using False by auto
    ultimately show ?thesis by (simp add: str_at_def)
  qed (simp add: str_at_def)
qed

text \<open>An ASCII character is handled on its own, whatever surrounds it.\<close>

lemma normalize_ascii_split:
  assumes c: "byte c < 128"
  shows "normalize_ascii (a @ c # b) = normalize_ascii a @ c_tolower c # normalize_ascii b"
proof (induction a rule: normalize_ascii.induct)
  case 1
  then show ?case using c by simp
next
  case (2 x xs)
  show ?case
  proof (cases "byte x < 128")
    case True
    then show ?thesis using 2(1) by simp
  next
    case False
    have find: "List.find (\<lambda>entry. str_at ((x # xs) @ c # b) 0 (fst entry)) accent_map =
        List.find (\<lambda>entry. str_at (x # xs) 0 (fst entry)) accent_map"
      using str_at_high [OF _ c] by (intro find_cong) (auto simp del: append_Cons)
    show ?thesis
    proof (cases "List.find (\<lambda>entry. str_at (x # xs) 0 (fst entry)) accent_map")
      case None
      then show ?thesis using 2(2) False find by simp
    next
      case (Some entry)
      obtain key r where entry: "entry = (key, r)" by (cases entry)
      have "str_at (x # xs) 0 key" using find_accent [of _ key r] Some entry by fastforce
      then have "length key \<le> length (x # xs)" unfolding str_at_def by (metis drop0 length_take min.cobounded1)
      then have "drop (length key) ((x # xs) @ c # b) = drop (length key) (x # xs) @ c # b"
        by (simp only: drop_append) simp
      moreover have "normalize_ascii ((x # xs) @ c # b) = r # normalize_ascii (drop (length key) ((x # xs) @ c # b))"
        using False find Some entry by simp
      ultimately show ?thesis using 2(3) [OF False Some entry [symmetric]] False Some entry by simp
    qed
  qed
qed

section \<open>Words\<close>

definition norm_words :: "string \<Rightarrow> string list" where
  "norm_words text = map normalize_token (tokenize_simple (normalize_ascii text))"

lemma normalize_text_words: "normalize_text text = join_tokens (norm_words text)"
  by (simp add: normalize_text_def norm_words_def)

lemma tokenize_acc:
  "fold tokenize_step s (ts, cur) = (ts @ fst (fold tokenize_step s ([], cur)), snd (fold tokenize_step s ([], cur)))"
proof (induction s arbitrary: ts cur)
  case (Cons c s)
  show ?case
  proof (cases "c_isalnum c \<or> cur = []")
    case True
    then show ?thesis
      using Cons.IH [of ts "cur @ [c]"] Cons.IH [of ts cur] by (auto simp: tokenize_step_def)
  next
    case False
    then show ?thesis
      using Cons.IH [of "ts @ [cur]" "[]"] Cons.IH [of "[cur]" "[]"] by (simp add: tokenize_step_def)
  qed
qed simp

text \<open>A separator cuts the text in two.\<close>

lemma tokenize_split:
  assumes "\<not> c_isalnum c"
  shows "tokenize_simple (a @ c # b) = tokenize_simple a @ tokenize_simple b"
proof -
  obtain ts cur where a: "fold tokenize_step a ([], []) = (ts, cur)" by fastforce
  obtain us rest where b: "fold tokenize_step b ([], []) = (us, rest)" by fastforce
  have "fold tokenize_step b (vs, []) = (vs @ us, rest)" for vs
    using tokenize_acc [of b vs "[]"] b by simp
  with a b assms show ?thesis by (simp add: tokenize_simple_def tokenize_step_def)
qed

lemma fold_tokenize_word:
  "\<forall>c \<in> set w. c_isalnum c \<Longrightarrow> fold tokenize_step w (ts, cur) = (ts, cur @ w)"
  by (induction w arbitrary: cur) (simp_all add: tokenize_step_def)

lemma tokenize_word: "w \<noteq> [] \<Longrightarrow> \<forall>c \<in> set w. c_isalnum c \<Longrightarrow> tokenize_simple w = [w]"
  by (simp add: tokenize_simple_def fold_tokenize_word)

lemma tokenize_join:
  "\<forall>w \<in> set ws. w \<noteq> [] \<and> (\<forall>c \<in> set w. c_isalnum c) \<Longrightarrow> tokenize_simple (join_tokens ws) = ws"
proof (induction ws rule: join_tokens.induct)
  case 1
  show ?case by (simp add: tokenize_simple_def)
next
  case (3 t t' ts)
  have "\<not> c_isalnum (CHR '' '')" by (simp add: c_isalnum_def c_isupper_def c_islower_def)
  from tokenize_split [OF this, of t] 3 show ?case by (simp add: tokenize_word)
qed (simp add: tokenize_word)

lemma tokenize_words:
  assumes "w \<in> set (tokenize_simple s)"
  shows "w \<noteq> []" and "\<forall>c \<in> set w. c_isalnum c \<and> c \<in> set s"
proof -
  have "\<forall>w \<in> set (tokenize_simple s). w \<noteq> [] \<and> (\<forall>c \<in> set w. c_isalnum c \<and> c \<in> set s)"
  proof (induction "length s" arbitrary: s rule: less_induct)
    case less
    show ?case
    proof (cases "\<exists>c \<in> set s. \<not> c_isalnum c")
      case True
      then obtain a c b where s: "s = a @ c # b" and "\<not> c_isalnum c" by (metis split_list)
      then show ?thesis using less [of a] less [of b] by (auto simp: tokenize_split)
    next
      case False
      then show ?thesis by (cases "s = []") (auto simp: tokenize_word, simp add: tokenize_simple_def)
    qed
  qed
  with assms show "w \<noteq> []" and "\<forall>c \<in> set w. c_isalnum c \<and> c \<in> set s" by auto
qed

section \<open>Canonical words\<close>

text \<open>What the guard may rely on: a canonical word is a non-empty run of lower-case letters and
  digits, and no spelling that the table replaces.\<close>

definition canonical_word :: "string \<Rightarrow> bool" where
  "canonical_word w \<longleftrightarrow> w \<noteq> [] \<and> list_all (\<lambda>c. c_isalnum c \<and> \<not> c_isupper c) w \<and>
     synonym_table w \<in> {None, Some w}"

lemma synonym_table_canonical: "synonym_table w = Some v \<Longrightarrow> canonical_word v"
  by (auto simp: synonym_table_def canonical_word_def c_isalnum_def c_isupper_def c_islower_def split: if_splits)

lemma normalize_token_canonical:
  assumes "w \<noteq> []" and "\<forall>c \<in> set w. c_isalnum c \<and> folded c"
  shows "canonical_word (normalize_token w)"
proof (cases "synonym_table w")
  case None
  then show ?thesis using assms by (auto simp: normalize_token_def normalize_ascii_id canonical_word_def list_all_iff folded_def)
next
  case (Some v)
  then show ?thesis using assms synonym_table_canonical by (simp add: normalize_token_def normalize_ascii_id)
qed

lemma normalize_token_id: "canonical_word w \<Longrightarrow> normalize_token w = w"
  by (auto simp: canonical_word_def normalize_token_def normalize_ascii_id list_all_iff folded_def alnum_ascii)

lemma norm_words_canonical: "w \<in> set (norm_words text) \<Longrightarrow> canonical_word w"
  unfolding norm_words_def
  using tokenize_words normalize_ascii_folded by (fastforce intro: normalize_token_canonical)

lemma join_folded: "\<forall>w \<in> set ws. \<forall>c \<in> set w. folded c \<Longrightarrow> \<forall>c \<in> set (join_tokens ws). folded c"
proof (induction ws rule: join_tokens.induct)
  case (3 t t' ts)
  have "folded (CHR '' '')" by (simp add: folded_def c_isupper_def)
  with 3 show ?case by auto
qed auto

lemma norm_words_join:
  assumes "\<forall>w \<in> set ws. canonical_word w"
  shows "norm_words (join_tokens ws) = ws"
proof -
  have "\<forall>c \<in> set (join_tokens ws). folded c"
    using assms by (intro join_folded) (auto simp: canonical_word_def list_all_iff folded_def alnum_ascii)
  moreover have "tokenize_simple (join_tokens ws) = ws"
    using assms by (intro tokenize_join) (auto simp: canonical_word_def list_all_iff)
  moreover have "map normalize_token ws = ws" using assms by (simp add: map_idI normalize_token_id)
  ultimately show ?thesis by (simp add: norm_words_def normalize_ascii_id)
qed

lemma norm_words_normalize: "norm_words (normalize_text text) = norm_words text"
  using norm_words_canonical by (simp add: normalize_text_words norm_words_join)

lemma normalize_text_idem: "normalize_text (normalize_text text) = normalize_text text"
  unfolding normalize_text_words [of "normalize_text text"] norm_words_normalize
  by (rule normalize_text_words [symmetric])

lemma norm_words_split:
  assumes "byte c < 128" and "\<not> c_isalnum c"
  shows "norm_words (a @ c # b) = norm_words a @ norm_words b"
proof -
  have "c_tolower c = c" using assms(2) by (simp add: tolower_id c_isalnum_def)
  then show ?thesis using assms by (simp add: norm_words_def normalize_ascii_split tokenize_split)
qed

text \<open>A normalised prompt is a list of canonical words separated by single spaces, and it is its own
  normal form; the case of its letters does not matter, and any other ASCII character only
  separates words: the words of a text are the words before it followed by the words after it.\<close>

theorem normalize_text_canonical_form:
  "normalize_text text = join_tokens (norm_words text) \<and>
   list_all canonical_word (norm_words text) \<and>
   normalize_text (normalize_text text) = normalize_text text \<and>
   normalize_text (map c_toupper text) = normalize_text text \<and>
   (\<forall>c a b. byte c < 128 \<and> \<not> c_isalnum c \<and> text = a @ c # b \<longrightarrow> norm_words text = norm_words a @ norm_words b)"
  using norm_words_canonical normalize_text_idem [of "text"] norm_words_split
  by (simp add: list_all_iff) (simp add: normalize_text_words norm_words_def normalize_ascii_toupper)

theorem normalize_text_canonical_form_witness:
  "norm_words ''Toranja, e sesamo'' = [''grapefruit''] @ norm_words '' e sesamo'' \<and>
   normalize_text ''POMELO'' = ''grapefruit''"
proof -
  have "norm_words ''Toranja, e sesamo'' = norm_words ''Toranja'' @ norm_words '' e sesamo''"
    using normalize_text_canonical_form [of "''Toranja, e sesamo''", THEN conjunct2, THEN conjunct2, THEN conjunct2,
        THEN conjunct2, rule_format, of "CHR '',''" "''Toranja''" "'' e sesamo''"]
    by (simp add: c_isalnum_def c_isupper_def c_islower_def)
  moreover have "norm_words ''Toranja'' = [''grapefruit'']" by code_simp
  moreover have "normalize_text ''POMELO'' = ''grapefruit''" by code_simp
  ultimately show ?thesis by simp
qed

end
