(* ===== verification/SmartGuard.thy ===== *)
theory SmartGuard
  imports SynonymNormalizer Checksum
begin

text \<open>
  \<^verbatim>\<open>common/smart_guard.{h,cpp}\<close> and the guard of the server's completion handler
  (\<^verbatim>\<open>tools/server/server.cpp\<close>): a prompt is normalised and searched for terms, an optional
  policy file adds terms of its own, and the worst verdict over the prompts of a request is
  reported. \<^verbatim>\<open>metadata::fields\<close> is an \<^verbatim>\<open>unordered_map\<close>: it is the list of its entries in the
  order the loop meets them. The files are a function from paths to contents, \<open>None\<close> where the
  stream does not open.
\<close>

section \<open>Definitions\<close>

datatype action = Allow | Warn | Block

datatype guard_mode = Mode_warn | Mode_block

type_synonym metadata = "(string \<times> string) list"

type_synonym files = "string \<Rightarrow> string option"

record guard_result =
  risk_level :: int
  action_taken :: action
  reasons :: "string list"
  reason_code :: string
  categories :: "string list"
  normalized_prompt_digest :: string

definition guard_result0 :: guard_result where
  "guard_result0 = \<lparr>risk_level = 0, action_taken = Allow, reasons = [], reason_code = [], categories = [],
     normalized_prompt_digest = []\<rparr>"

definition contains_any :: "string \<Rightarrow> string list \<Rightarrow> bool" where
  "contains_any text phrases = list_ex (\<lambda>phrase. str_find text phrase \<noteq> None) phrases"

definition trim_copy :: "string \<Rightarrow> string" where
  "trim_copy input = rev (dropWhile c_isspace (rev (dropWhile c_isspace input)))"

record policy_terms =
  warn_terms :: "string list"
  block_terms :: "string list"

definition policy_terms0 :: policy_terms where
  "policy_terms0 = \<lparr>warn_terms = [], block_terms = []\<rparr>"

definition policy_line :: "string \<Rightarrow> policy_terms \<Rightarrow> policy_terms" where
  "policy_line line terms =
     (let trimmed = trim_copy line
      in if trimmed = [] \<or> trimmed ! 0 = CHR ''#'' then terms
         else if str_at trimmed 0 ''warn:'' then
           let term = trim_copy (drop 5 trimmed)
           in if term \<noteq> [] then terms\<lparr>warn_terms := warn_terms terms @ [normalize_text term]\<rparr> else terms
         else if str_at trimmed 0 ''block:'' then
           let term = trim_copy (drop 6 trimmed)
           in if term \<noteq> [] then terms\<lparr>block_terms := block_terms terms @ [normalize_text term]\<rparr> else terms
         else terms\<lparr>warn_terms := warn_terms terms @ [normalize_text trimmed]\<rparr>)"

definition load_policy_terms :: "files \<Rightarrow> string \<Rightarrow> policy_terms" where
  "load_policy_terms fs path =
     (if path = [] then policy_terms0
      else case fs path of None \<Rightarrow> policy_terms0
        | Some content \<Rightarrow> fold policy_line (getlines content) policy_terms0)"

definition collect_reasons :: "bool \<Rightarrow> bool \<Rightarrow> bool \<Rightarrow> bool \<Rightarrow> bool \<Rightarrow> string list" where
  "collect_reasons vulnerable ambiguous hazard_request hazard_context allergy_trigger =
     (if vulnerable then [''vulnerable_context''] else []) @
     (if ambiguous then [''ambiguous_request''] else []) @
     (if hazard_request then [''explicit_hazard_request''] else []) @
     (if hazard_context then [''hazard_context''] else []) @
     (if allergy_trigger then [''allergy_sensitive_term''] else [])"

definition category_of :: "string \<Rightarrow> string option" where
  "category_of reason =
     (if reason = ''vulnerable_context'' then Some ''vulnerable''
      else if reason = ''ambiguous_request'' then Some ''ambiguous''
      else if reason = ''explicit_hazard_request'' \<or> reason = ''hazard_context'' then Some ''hazard''
      else if reason = ''allergy_sensitive_term'' then Some ''allergy''
      else if reason = ''policy_warn'' \<or> reason = ''policy_block'' then Some ''policy''
      else None)"

definition add_category :: "string \<Rightarrow> string list \<Rightarrow> string list" where
  "add_category value cs = (if value \<in> set cs then cs else cs @ [value])"

definition collect_categories :: "string list \<Rightarrow> string list" where
  "collect_categories rs =
     fold (\<lambda>reason cs. case category_of reason of Some value \<Rightarrow> add_category value cs | None \<Rightarrow> cs) rs []"

text \<open>\<^verbatim>\<open>fnv1a_64\<close>, the register first.\<close>

definition fnv1a_extend :: "u64 \<Rightarrow> u8 list \<Rightarrow> u64" where
  "fnv1a_extend h bytes = fold (\<lambda>b h. (h XOR ucast b) * 1099511628211) bytes h"

definition string_bytes :: "string \<Rightarrow> u8 list" where
  "string_bytes s = map of_char s"

definition fnv1a_64 :: "string \<Rightarrow> u64" where
  "fnv1a_64 input = fnv1a_extend 1469598103934665603 (string_bytes input)"

definition hex_u64 :: "u64 \<Rightarrow> string" where
  "hex_u64 v = pad0 16 (digits_in 16 (unat v))"

text \<open>The term lists of \<^verbatim>\<open>evaluate\<close>.\<close>

definition vulnerable_terms :: "string list" where
  "vulnerable_terms =
     [''child'', ''kid'', ''baby'', ''toddler'', ''infant'', ''pregnant'', ''pregnancy'',
      ''elderly'', ''senior'', ''crianca'', ''menor'', ''bebe'', ''gravida'', ''idoso'',
      ''filho'', ''alergia'', ''allergy'', ''allergic'', ''asma'', ''asthma'']"

definition ambiguous_terms :: "string list" where
  "ambiguous_terms =
     [''not sure'', ''unknown'', ''mystery'', ''unlabeled'', ''no label'', ''generic label'',
      ''unmarked'', ''random'', ''unsure'', ''maybe'', ''guess'', ''think'', ''nao sei'',
      ''desconhecido'', ''nao identificado'', ''mistura'', ''qualquer'', ''talvez'',
      ''sem rotulo'', ''rotulo generico'', ''sem etiqueta'', ''acho que'']"

definition instruction_terms :: "string list" where
  "instruction_terms =
     [''how to'', ''step by step'', ''instructions'', ''guide'', ''tutorial'', ''recipe'',
      ''build'', ''make'', ''como fazer'', ''como misturar'', ''passo a passo'',
      ''instrucoes'', ''procedimento'', ''receita'']"

definition hazard_terms :: "string list" where
  "hazard_terms =
     [''bleach'', ''ammonia'', ''chlorine'', ''acid'', ''peroxide'', ''drain cleaner'',
      ''cleaner'', ''solvent'', ''pesticide'', ''explosive'', ''bomb'', ''weapon'',
      ''firearm'', ''poison'', ''toxic gas'', ''agua sanitaria'', ''amonia'', ''cloro'',
      ''acido'', ''peroxido'', ''vinagre'', ''saneante'', ''solvente'', ''pesticida'',
      ''bomba'', ''arma'', ''veneno'', ''gas toxico'']"

definition mix_terms :: "string list" where
  "mix_terms =
     [''mix'', ''combine'', ''blend'', ''misturar'', ''misture'', ''mistura'', ''combinar'']"

definition pressure_terms :: "string list" where
  "pressure_terms =
     [''sealed'', ''closed container'', ''pressurized'', ''pressure'', ''recipiente fechado'',
      ''garrafa fechada'', ''lata fechada'', ''pressao'']"

definition heat_terms :: "string list" where
  "heat_terms =
     [''heat'', ''ignite'', ''burn'', ''flame'', ''aquec'', ''esquent'', ''fogo'',
      ''microondas'']"

definition energy_terms :: "string list" where
  "energy_terms =
     [''energy'', ''electric'', ''battery'', ''power'', ''energia'', ''eletric'', ''bateria'',
      ''tomada'']"

definition allergy_terms :: "string list" where
  "allergy_terms =
     [''allergy'', ''allergic'', ''alergia'', ''alergico'', ''alergica'']"

definition critical_foods :: "string list" where
  "critical_foods =
     [''grapefruit'', ''sesame'']"

text \<open>The loop over the metadata fields.\<close>

definition field_step :: "string \<times> string \<Rightarrow> bool \<times> bool \<Rightarrow> bool \<times> bool" where
  "field_step field flags =
     (case flags of (vulnerable, ambiguous) \<Rightarrow>
        let field_value = normalize_text (snd field)
        in (if \<not> vulnerable \<and> contains_any field_value vulnerable_terms then True else vulnerable,
            if \<not> ambiguous \<and> contains_any field_value ambiguous_terms then True else ambiguous))"

text \<open>The part of \<^verbatim>\<open>evaluate\<close> that reads the policy file and raises the verdict.\<close>

definition apply_policy :: "files \<Rightarrow> string \<Rightarrow> metadata \<Rightarrow> guard_result \<Rightarrow> guard_result" where
  "apply_policy fs normalized meta res =
     (case map_of meta ''policy_path'' of
        None \<Rightarrow> res
      | Some path \<Rightarrow>
          if path = [] then res
          else
            let policy = load_policy_terms fs path;
                policy_block = contains_any normalized (block_terms policy);
                policy_warn = contains_any normalized (warn_terms policy)
            in if policy_block then
                 res\<lparr>action_taken := Block, risk_level := max (risk_level res) 3, reasons := reasons res @ [''policy_block'']\<rparr>
               else if policy_warn \<and> action_taken res = Allow then
                 res\<lparr>action_taken := Warn, risk_level := max (risk_level res) 2, reasons := reasons res @ [''policy_warn'']\<rparr>
               else if policy_warn then res\<lparr>reasons := reasons res @ [''policy_warn'']\<rparr>
               else res)"

definition evaluate :: "files \<Rightarrow> string \<Rightarrow> metadata \<Rightarrow> guard_result" where
  "evaluate fs prompt meta =
     (let normalized = normalize_text prompt;
          vulnerable = contains_any normalized vulnerable_terms;
          ambiguous = contains_any normalized ambiguous_terms;
          hazard_request = (contains_any normalized hazard_terms \<and> contains_any normalized instruction_terms);
          hazard_context = ((contains_any normalized hazard_terms \<and> contains_any normalized mix_terms) \<or>
            (contains_any normalized pressure_terms \<and>
              (contains_any normalized heat_terms \<or> contains_any normalized energy_terms)));
          allergy_trigger = (contains_any normalized allergy_terms \<and> contains_any normalized critical_foods);
          (vulnerable, ambiguous) = fold field_step meta (vulnerable, ambiguous);
          (risk, act) =
            (if vulnerable \<and> ambiguous then (3, Block)
             else if hazard_request then (3, Block)
             else if hazard_context \<or> allergy_trigger then (2, Warn)
             else (0, Allow));
          res = guard_result0\<lparr>risk_level := risk, action_taken := act,
            reasons := collect_reasons vulnerable ambiguous hazard_request hazard_context allergy_trigger\<rparr>;
          res = apply_policy fs normalized meta res;
          res = res\<lparr>normalized_prompt_digest := hex_u64 (fnv1a_64 normalized)\<rparr>;
          res = res\<lparr>reason_code := (if reasons res \<noteq> [] then hd (reasons res) else ''none'')\<rparr>
      in res\<lparr>categories := collect_categories (reasons res)\<rparr>)"

definition witness_safe :: string where
  "witness_safe = ''AVISA: risco detectado. Resposta apenas em nivel geral.''"

definition witness_block :: string where
  "witness_block = ''AVISA: BLOQUEADO por risco + ambiguidade.''"

definition action_to_string :: "action \<Rightarrow> string" where
  "action_to_string a = (case a of Allow \<Rightarrow> ''ALLOW'' | Warn \<Rightarrow> ''WARN'' | Block \<Rightarrow> ''BLOCK'')"

definition mode_to_string :: "guard_mode \<Rightarrow> string" where
  "mode_to_string m = (case m of Mode_warn \<Rightarrow> ''warn'' | Mode_block \<Rightarrow> ''block'')"

definition mode_from_string :: "string \<Rightarrow> guard_mode" where
  "mode_from_string s = (if s = ''warn'' then Mode_warn else Mode_block)"

definition apply_mode :: "guard_result \<Rightarrow> guard_mode \<Rightarrow> guard_result" where
  "apply_mode res m =
     (if m = Mode_warn \<and> action_taken res = Block then res\<lparr>action_taken := Warn\<rparr>
      else if m = Mode_block \<and> action_taken res = Warn then res\<lparr>action_taken := Block\<rparr>
      else res)"

definition render_message :: "guard_result \<Rightarrow> string" where
  "render_message res =
     (if action_taken res = Block then
        witness_block @ '' Descreva o objetivo em alto nivel ou busque ajuda profissional.''
      else if action_taken res = Warn then
        witness_safe @ '' Posso responder em alto nivel; considere orientacao profissional.''
      else [])"

definition quoted :: "string \<Rightarrow> string" where
  "quoted s = CHR 0x22 # s @ [CHR 0x22]"

fun comma_list :: "string list \<Rightarrow> string" where
  "comma_list [] = []"
| "comma_list [s] = quoted s"
| "comma_list (s # ss) = quoted s @ CHR '','' # comma_list ss"

definition render_metadata_json :: "guard_result \<Rightarrow> string" where
  "render_metadata_json res =
     ''{'' @ quoted ''guard_result'' @ '':{'' @
     quoted ''action_taken'' @ '':'' @ quoted (action_to_string (action_taken res)) @ '','' @
     quoted ''reason_code'' @ '':'' @ quoted (reason_code res) @ '','' @
     quoted ''categories'' @ '':['' @ comma_list (categories res) @ ''],'' @
     quoted ''normalized_prompt_digest'' @ '':'' @ quoted (normalized_prompt_digest res) @
     '','' @ quoted ''risk_level'' @ '':'' @ to_string_int (risk_level res) @
     ''},'' @ quoted ''message'' @ '':'' @ quoted (render_message res) @ ''}''"

subsection \<open>The server\<close>

text \<open>The JSON values come from a vendored library: the operations the handler uses of it are the
  fields of \<open>json_ops\<close>.\<close>

record 'j json_ops =
  j_is_string :: "'j \<Rightarrow> bool"
  j_get_string :: "'j \<Rightarrow> string"
  j_is_array :: "'j \<Rightarrow> bool"
  j_items :: "'j \<Rightarrow> 'j list"
  j_dump :: "'j \<Rightarrow> string"

record guard_params =
  smart_guard_policy :: string
  smart_guard_mode :: string

fun guard_action_rank :: "action \<Rightarrow> nat" where
  "guard_action_rank Allow = 0"
| "guard_action_rank Warn = 1"
| "guard_action_rank Block = 2"

definition guard_collect_prompts :: "'j json_ops \<Rightarrow> 'j \<Rightarrow> string list" where
  "guard_collect_prompts J prompt =
     (if j_is_string J prompt then [j_get_string J prompt]
      else if j_is_array J prompt then
        map (\<lambda>item. if j_is_string J item then j_get_string J item else j_dump J item) (j_items J prompt)
      else [j_dump J prompt])"

definition guard_evaluate_prompt :: "files \<Rightarrow> 'j json_ops \<Rightarrow> 'j \<Rightarrow> guard_params \<Rightarrow> guard_result" where
  "guard_evaluate_prompt fs J prompt params =
     (let meta = (if smart_guard_policy params \<noteq> [] then [(''policy_path'', smart_guard_policy params)] else []);
          m = mode_from_string (smart_guard_mode params)
      in fold (\<lambda>t worst.
           let current = apply_mode (evaluate fs t meta) m
           in if guard_action_rank (action_taken worst) < guard_action_rank (action_taken current)
              then current else worst)
         (guard_collect_prompts J prompt) guard_result0)"

section \<open>The digest\<close>

lemma fnv_prime_inverse: "(1099511628211 :: u64) * 14886173955864302971 = 1"
  by simp

lemma fnv_step_inj:
  assumes "(x :: u64) * 1099511628211 = y * 1099511628211"
  shows "x = y"
proof -
  from assms have "x * (1099511628211 * 14886173955864302971) = y * (1099511628211 * 14886173955864302971)"
    by (simp only: mult.assoc [symmetric])
  then show ?thesis by (simp only: fnv_prime_inverse mult_1_right)
qed

lemma ucast_u8_u64_inj:
  assumes "(ucast (x::u8) :: u64) = ucast y"
  shows "x = y"
proof (rule bit_word_eqI)
  fix k
  assume "k < LENGTH(8)"
  then show "bit x k = bit y k"
    using arg_cong [OF assms, of "\<lambda>z. bit z k"] by (simp add: bit_ucast_iff)
qed

lemma fnv_register_inj: "fnv1a_extend s xs = fnv1a_extend t xs \<Longrightarrow> s = t"
proof (induction xs arbitrary: s t)
  case (Cons x xs)
  then have "(s XOR ucast x) * 1099511628211 = (t XOR ucast x) * 1099511628211"
    by (simp add: fnv1a_extend_def)
  from fnv_step_inj [OF this] show ?case by simp
qed (simp add: fnv1a_extend_def)

interpretation fnv: burst_checksum fnv1a_extend 1
proof unfold_locales
  fix s t :: u64 and xs ys :: "u8 list"
  show "fnv1a_extend s [] = s" by (simp add: fnv1a_extend_def)
  show "fnv1a_extend s (xs @ ys) = fnv1a_extend (fnv1a_extend s xs) ys" by (simp add: fnv1a_extend_def)
  show "fnv1a_extend s xs = fnv1a_extend t xs \<Longrightarrow> s = t"
    by (rule fnv_register_inj)
  assume "length xs = length ys" "length xs \<le> 1" "fnv1a_extend s xs = fnv1a_extend s ys"
  then show "xs = ys"
    by (cases xs; cases ys) (auto simp: fnv1a_extend_def dest!: fnv_step_inj intro: ucast_u8_u64_inj)
qed

section \<open>The terms\<close>

lemma contains_any_iff: "contains_any t ps \<longleftrightarrow> (\<exists>p \<in> set ps. sublist p t)"
  using str_find_sublist by (auto simp: contains_any_def list_ex_iff)

lemma contains_any_empty_term: "[] \<in> set ps \<Longrightarrow> contains_any t ps"
  by (auto simp: contains_any_iff)

lemma field_steps:
  "fold field_step meta (v, a) =
     (v \<or> (\<exists>f \<in> set meta. contains_any (normalize_text (snd f)) vulnerable_terms),
      a \<or> (\<exists>f \<in> set meta. contains_any (normalize_text (snd f)) ambiguous_terms))"
  by (induction meta arbitrary: v a) (auto simp: field_step_def Let_def)

section \<open>Verdicts\<close>

text \<open>What the terms found in the prompt, in the metadata and in the policy file call for.\<close>

definition signals :: "string \<Rightarrow> metadata \<Rightarrow> string list \<Rightarrow> bool" where
  "signals prompt meta terms \<longleftrightarrow>
     (\<exists>p \<in> set terms. sublist p (normalize_text prompt) \<or> (\<exists>(k, v) \<in> set meta. sublist p (normalize_text v)))"

definition mentions :: "string \<Rightarrow> string list \<Rightarrow> bool" where
  "mentions prompt terms \<longleftrightarrow> (\<exists>p \<in> set terms. sublist p (normalize_text prompt))"

definition policy_of :: "files \<Rightarrow> metadata \<Rightarrow> policy_terms" where
  "policy_of fs meta = (case map_of meta ''policy_path'' of Some path \<Rightarrow> load_policy_terms fs path | None \<Rightarrow> policy_terms0)"

definition must_block :: "files \<Rightarrow> string \<Rightarrow> metadata \<Rightarrow> bool" where
  "must_block fs prompt meta \<longleftrightarrow>
     signals prompt meta vulnerable_terms \<and> signals prompt meta ambiguous_terms \<or>
     mentions prompt hazard_terms \<and> mentions prompt instruction_terms \<or>
     mentions prompt (block_terms (policy_of fs meta))"

definition must_warn :: "files \<Rightarrow> string \<Rightarrow> metadata \<Rightarrow> bool" where
  "must_warn fs prompt meta \<longleftrightarrow>
     mentions prompt hazard_terms \<and> mentions prompt mix_terms \<or>
     mentions prompt pressure_terms \<and> (mentions prompt heat_terms \<or> mentions prompt energy_terms) \<or>
     mentions prompt allergy_terms \<and> mentions prompt critical_foods \<or>
     mentions prompt (warn_terms (policy_of fs meta))"

lemma contains_mentions: "contains_any (normalize_text prompt) terms = mentions prompt terms"
  by (simp add: contains_any_iff mentions_def)

lemma contains_signals:
  "(contains_any (normalize_text prompt) terms \<or> (\<exists>f \<in> set meta. contains_any (normalize_text (snd f)) terms)) =
   signals prompt meta terms"
  by (fastforce simp: contains_any_iff signals_def)

lemma mentions_none [simp]: "\<not> mentions prompt []"
  by (simp add: mentions_def)

lemmas policy_simps = policy_of_def policy_terms0_def load_policy_terms_def

text \<open>The verdict and the reasons before the policy file is read.\<close>

definition base_result :: "string \<Rightarrow> metadata \<Rightarrow> guard_result" where
  "base_result prompt meta =
     (let v = signals prompt meta vulnerable_terms; a = signals prompt meta ambiguous_terms;
          hr = (mentions prompt hazard_terms \<and> mentions prompt instruction_terms);
          hc = (mentions prompt hazard_terms \<and> mentions prompt mix_terms \<or>
                mentions prompt pressure_terms \<and> (mentions prompt heat_terms \<or> mentions prompt energy_terms));
          al = (mentions prompt allergy_terms \<and> mentions prompt critical_foods)
      in guard_result0\<lparr>
           risk_level := (if v \<and> a \<or> hr then 3 else if hc \<or> al then 2 else 0),
           action_taken := (if v \<and> a \<or> hr then Block else if hc \<or> al then Warn else Allow),
           reasons := collect_reasons v a hr hc al\<rparr>)"

lemma case_verdict:
  "(case (if va then (3, Block) else if hr then (3, Block) else if w then (2, Warn) else (0, Allow)) of
      (risk, act) \<Rightarrow> F risk act) =
   F (if va \<or> hr then 3 else if w then 2 else (0::int)) (if va \<or> hr then Block else if w then Warn else Allow)"
  by simp

lemma finish_result:
  "(let res = r\<lparr>normalized_prompt_digest := d\<rparr>;
        res = res\<lparr>reason_code := (if reasons res \<noteq> [] then hd (reasons res) else ''none'')\<rparr>
    in res\<lparr>categories := collect_categories (reasons res)\<rparr>) =
   r\<lparr>normalized_prompt_digest := d, reason_code := (if reasons r \<noteq> [] then hd (reasons r) else ''none''),
     categories := collect_categories (reasons r)\<rparr>"
  by simp

lemma evaluate_base:
  "evaluate fs prompt meta =
     (let res = apply_policy fs (normalize_text prompt) meta (base_result prompt meta)
      in res\<lparr>normalized_prompt_digest := hex_u64 (fnv1a_64 (normalize_text prompt)),
             reason_code := (if reasons res \<noteq> [] then hd (reasons res) else ''none''),
             categories := collect_categories (reasons res)\<rparr>)"
  unfolding evaluate_def field_steps Let_def prod.case
  unfolding contains_signals
  unfolding contains_mentions case_verdict
  unfolding base_result_def Let_def
  by (simp only: finish_result [unfolded Let_def])

lemma apply_policy_eq:
  "apply_policy fs (normalize_text prompt) meta r =
     (let b = mentions prompt (block_terms (policy_of fs meta));
          w = mentions prompt (warn_terms (policy_of fs meta))
      in if b then
           r\<lparr>action_taken := Block, risk_level := max (risk_level r) 3, reasons := reasons r @ [''policy_block'']\<rparr>
         else if w \<and> action_taken r = Allow then
           r\<lparr>action_taken := Warn, risk_level := max (risk_level r) 2, reasons := reasons r @ [''policy_warn'']\<rparr>
         else if w then r\<lparr>reasons := reasons r @ [''policy_warn'']\<rparr>
         else r)"
proof (cases "map_of meta ''policy_path''")
  case None
  then show ?thesis by (simp add: apply_policy_def policy_simps)
next
  case (Some path)
  then show ?thesis
    by (cases "path = []")
       (simp_all add: apply_policy_def contains_mentions policy_of_def Let_def, simp add: load_policy_terms_def policy_terms0_def)
qed

lemma evaluate_action:
  "action_taken (evaluate fs prompt meta) =
     (if must_block fs prompt meta then Block else if must_warn fs prompt meta then Warn else Allow)"
  by (auto simp: evaluate_base apply_policy_eq base_result_def Let_def must_block_def must_warn_def)











text \<open>Contexts of risk that the specification names and the code lets pass: a weapon without a request for
  instructions, and frail health together with an ambiguous request.\<close>

lemma lone_hazard_allowed: "action_taken (evaluate fs ''bomb'' []) = Allow"
proof -
  have "normalize_text ''bomb'' = ''bomb''" by code_simp
  moreover have "list_all (\<lambda>p. \<not> sublist p ''bomb'') (vulnerable_terms @ instruction_terms @ mix_terms @ pressure_terms @ allergy_terms)"
    by code_simp
  ultimately show ?thesis
    by (auto simp: evaluate_action must_block_def must_warn_def signals_def mentions_def policy_of_def policy_terms0_def list_all_iff)
qed

lemma fragile_health_allowed: "action_taken (evaluate fs ''saude fragil, talvez'' []) = Allow"
proof -
  have "normalize_text ''saude fragil, talvez'' = ''saude fragil talvez''" by code_simp
  moreover have "list_all (\<lambda>p. \<not> sublist p ''saude fragil talvez'') (vulnerable_terms @ hazard_terms @ pressure_terms @ allergy_terms)"
    by code_simp
  ultimately show ?thesis
    by (auto simp: evaluate_action must_block_def must_warn_def signals_def mentions_def policy_of_def policy_terms0_def list_all_iff)
qed



section \<open>What the verdict does not depend on\<close>

lemma evaluate_normalized: "evaluate fs (normalize_text prompt) meta = evaluate fs prompt meta"
  by (simp add: evaluate_def normalize_text_idem)

lemma evaluate_toupper: "evaluate fs (map c_toupper prompt) meta = evaluate fs prompt meta"
  by (simp add: evaluate_def normalize_text_words norm_words_def normalize_ascii_toupper)

lemma evaluate_field_order:
  assumes "distinct (map fst meta)" and "distinct (map fst meta')" and "set meta = set meta'"
  shows "evaluate fs prompt meta = evaluate fs prompt meta'"
proof -
  have "map_of meta = map_of meta'" using assms by (simp add: map_of_inject_set)
  moreover have "fold field_step meta st = fold field_step meta' st" for st
    using assms(3) by (cases st) (simp add: field_steps)
  ultimately show ?thesis by (simp add: evaluate_def apply_policy_def)
qed

section \<open>Requests\<close>

lemma rank_apply_mode:
  "guard_action_rank (action_taken (apply_mode r m)) =
     (if action_taken r = Allow then 0 else if m = Mode_warn then 1 else 2)"
  by (cases "action_taken r"; cases m) (simp_all add: apply_mode_def)

lemma action_rank_inj: "guard_action_rank a = guard_action_rank b \<Longrightarrow> a = b"
  by (cases a; cases b) simp_all

lemma apply_mode_action:
  "action_taken (apply_mode r m) =
     (if action_taken r = Allow then Allow else if m = Mode_warn then Warn else Block)"
  by (rule action_rank_inj) (simp add: rank_apply_mode)

definition guard_meta :: "guard_params \<Rightarrow> metadata" where
  "guard_meta params =
     (if smart_guard_policy params \<noteq> [] then [(''policy_path'', smart_guard_policy params)] else [])"

lemma worst_of:
  fixes ev :: "string \<Rightarrow> guard_result"
  assumes one: "\<And>t. guard_action_rank (action_taken (ev t)) \<in> {0, k}" and k: "0 < k"
    and w: "guard_action_rank (action_taken w) \<in> {0, k}"
  shows "fold (\<lambda>t worst. let current = ev t in
            if guard_action_rank (action_taken worst) < guard_action_rank (action_taken current)
            then current else worst) ts w =
         (if guard_action_rank (action_taken w) < k
          then (case List.find (\<lambda>t. action_taken (ev t) \<noteq> Allow) ts of Some t \<Rightarrow> ev t | None \<Rightarrow> w) else w)"
  using w
proof (induction ts arbitrary: w)
  case (Cons t ts)
  have allow: "action_taken (ev t) = Allow \<longleftrightarrow> guard_action_rank (action_taken (ev t)) = 0"
    by (cases "action_taken (ev t)") simp_all
  show ?case using Cons one [of t] allow k by (auto simp: Let_def)
qed simp

lemma guard_evaluate_prompt_first:
  "guard_evaluate_prompt fs J prompt params =
     (case List.find (\<lambda>t. action_taken (evaluate fs t (guard_meta params)) \<noteq> Allow) (guard_collect_prompts J prompt) of
        Some t \<Rightarrow> apply_mode (evaluate fs t (guard_meta params)) (mode_from_string (smart_guard_mode params))
      | None \<Rightarrow> guard_result0)"
proof -
  let ?m = "mode_from_string (smart_guard_mode params)"
  let ?k = "if ?m = Mode_warn then 1 else 2 :: nat"
  have "guard_action_rank (action_taken (apply_mode r ?m)) \<in> {0, ?k}" for r by (simp add: rank_apply_mode)
  from worst_of [where ev = "\<lambda>t. apply_mode (evaluate fs t (guard_meta params)) ?m" and k = ?k and w = guard_result0, OF this]
  have "guard_evaluate_prompt fs J prompt params =
     (case List.find (\<lambda>t. action_taken (apply_mode (evaluate fs t (guard_meta params)) ?m) \<noteq> Allow) (guard_collect_prompts J prompt) of
        Some t \<Rightarrow> apply_mode (evaluate fs t (guard_meta params)) ?m | None \<Rightarrow> guard_result0)"
    unfolding guard_evaluate_prompt_def guard_meta_def Let_def by (simp add: guard_result0_def)
  moreover have "(\<lambda>t. action_taken (apply_mode (evaluate fs t (guard_meta params)) ?m) \<noteq> Allow) =
      (\<lambda>t. action_taken (evaluate fs t (guard_meta params)) \<noteq> Allow)"
    by (simp add: apply_mode_action)
  ultimately show ?thesis by (simp only:)
qed

text \<open>A completion request. It goes through exactly when no prompt of the request calls for a block or a
  warning; otherwise the mode alone decides: \<open>warn\<close> lets every request through with a warning,
  and every other mode blocks it, also when only a warning was due. What is reported is the
  result of the first such prompt, its reasons and its risk level unchanged by the mode.\<close>

theorem guard_request_verdict:
  "let r = guard_evaluate_prompt fs J prompt params;
       meta = guard_meta params;
       hit = (\<lambda>t. must_block fs t meta \<or> must_warn fs t meta);
       hits = filter hit (guard_collect_prompts J prompt)
   in (case hits of
        [] \<Rightarrow> r = guard_result0
      | t # _ \<Rightarrow> r = (evaluate fs t meta)\<lparr>action_taken := if smart_guard_mode params = ''warn'' then Warn else Block\<rparr>)"
proof -
  let ?meta = "guard_meta params"
  have hit: "(\<lambda>t. action_taken (evaluate fs t ?meta) \<noteq> Allow) = (\<lambda>t. must_block fs t ?meta \<or> must_warn fs t ?meta)"
    by (auto simp: evaluate_action fun_eq_iff)
  have find: "List.find P ts = (case filter P ts of [] \<Rightarrow> None | t # _ \<Rightarrow> Some t)" for P and ts :: "string list"
    by (induction ts) simp_all
  have mode: "apply_mode r (mode_from_string (smart_guard_mode params)) =
      r\<lparr>action_taken := if smart_guard_mode params = ''warn'' then Warn else Block\<rparr>" if "action_taken r \<noteq> Allow" for r
    using that by (cases "action_taken r") (simp_all add: apply_mode_def mode_from_string_def)
  show ?thesis
  proof (cases "filter (\<lambda>t. must_block fs t ?meta \<or> must_warn fs t ?meta) (guard_collect_prompts J prompt)")
    case Nil
    then show ?thesis by (simp add: guard_evaluate_prompt_first hit find)
  next
    case (Cons t ts)
    then have "t \<in> set (filter (\<lambda>t. must_block fs t ?meta \<or> must_warn fs t ?meta) (guard_collect_prompts J prompt))"
      by simp
    then have "action_taken (evaluate fs t ?meta) \<noteq> Allow" by (auto simp: evaluate_action)
    with Cons show ?thesis by (simp add: guard_evaluate_prompt_first hit find mode)
  qed
qed

section \<open>Policies and prompts the guard misreads\<close>

text \<open>A term without a letter or a digit that the table knows normalises to the empty string, which
  is found in every prompt: the policy line blocks everything.\<close>

lemma wordless_policy_term_blocks_all:
  assumes "fs path = Some ''block: ---''" and "path \<noteq> []"
  shows "action_taken (evaluate fs prompt [(''policy_path'', path)]) = Block"
proof -
  have "fold policy_line (getlines ''block: ---'') policy_terms0 = \<lparr>warn_terms = [], block_terms = [[]]\<rparr>"
    by code_simp
  then have "mentions prompt (block_terms (policy_of fs [(''policy_path'', path)]))"
    using assms by (simp add: policy_of_def load_policy_terms_def mentions_def)
  then show ?thesis by (simp add: evaluate_action must_block_def)
qed

text \<open>The path of the policy file is a metadata field like any other: its directory names are
  searched for terms, whatever the file says.\<close>

lemma policy_path_blocks_all:
  "action_taken (evaluate fs prompt [(''policy_path'', ''/kids/generic-label.txt'')]) = Block"
proof -
  have "normalize_text ''/kids/generic-label.txt'' = ''kids generic label txt''" by code_simp
  moreover have "sublist ''kid'' ''kids generic label txt''" and "sublist ''generic label'' ''kids generic label txt''"
    by code_simp+
  moreover have "''kid'' \<in> set vulnerable_terms" and "''generic label'' \<in> set ambiguous_terms"
    by (simp_all add: vulnerable_terms_def ambiguous_terms_def)
  ultimately show ?thesis unfolding evaluate_action must_block_def signals_def by fastforce
qed

text \<open>A prompt of token ids is checked as the decimal numbers it is written with, so it is
  never refused.\<close>

definition has_letter :: "string \<Rightarrow> bool" where
  "has_letter p \<longleftrightarrow> list_ex c_islower p"

lemma terms_have_letters:
  "list_all has_letter (vulnerable_terms @ hazard_terms @ pressure_terms @ allergy_terms)"
  by code_simp

lemma synonym_has_letter: "synonym_table t = Some v \<Longrightarrow> has_letter t"
  by (auto simp: synonym_table_def has_letter_def c_islower_def split: if_splits)

lemma token_ids_pass:
  assumes "smart_guard_policy params = []"
    and digits: "\<forall>t \<in> set (guard_collect_prompts J prompt). \<forall>c \<in> set t. 48 \<le> byte c \<and> byte c \<le> 57"
  shows "guard_evaluate_prompt fs J prompt params = guard_result0"
proof -
  have "action_taken (evaluate fs t []) = Allow" if "t \<in> set (guard_collect_prompts J prompt)" for t
  proof -
    have d: "48 \<le> byte c \<and> byte c \<le> 57" if "c \<in> set t" for c using digits \<open>t \<in> _\<close> that by blast
    have "normalize_ascii t = t"
      by (intro normalize_ascii_id) (auto simp: folded_def c_isupper_def dest!: d)
    moreover have "\<not> has_letter t" by (auto simp: has_letter_def list_ex_iff c_islower_def dest!: d)
    then have "synonym_table t = None" using synonym_has_letter by (cases "synonym_table t") auto
    moreover have "\<forall>c \<in> set t. c_isalnum c" by (auto simp: c_isalnum_def dest!: d)
    ultimately have "normalize_text t = t"
      by (cases "t = []") (simp_all add: normalize_text_def tokenize_word normalize_token_def, simp add: tokenize_simple_def)
    then have no: "\<not> mentions t ts" if "list_all has_letter ts" for ts
      using that d set_mono_sublist by (fastforce simp: mentions_def list_all_iff has_letter_def list_ex_iff c_islower_def)
    have "\<not> mentions t vulnerable_terms" "\<not> mentions t hazard_terms" "\<not> mentions t pressure_terms" "\<not> mentions t allergy_terms"
      using terms_have_letters by (auto intro!: no)
    then show ?thesis
      by (auto simp: evaluate_action must_block_def must_warn_def policy_of_def policy_terms0_def signals_def mentions_def)
  qed
  then have "List.find (\<lambda>t. action_taken (evaluate fs t (guard_meta params)) \<noteq> Allow) (guard_collect_prompts J prompt) = None"
    using assms(1) by (auto simp: find_None_iff guard_meta_def)
  then show ?thesis by (simp add: guard_evaluate_prompt_first)
qed

text \<open>The offset basis of \<^verbatim>\<open>fnv1a_64\<close> is not the one of FNV-1a: the last digit of
  14695981039346656037 is missing.\<close>

lemma fnv1a_64_basis: "fnv1a_64 [] = 1469598103934665603 \<and> fnv1a_64 [] \<noteq> 14695981039346656037"
  by (simp add: fnv1a_64_def fnv1a_extend_def string_bytes_def)

end
