(* ===== verification/BitstackLog.thy ===== *)
theory BitstackLog
  imports CText Crc32c
begin

text \<open>
  \<^verbatim>\<open>common/bitstack_log.cpp\<close>: the event log. Every event is one line of JSON that carries the
  CRC-32C of its own content. The calls are serialised by a mutex, so a run is a sequence of
  calls; the path and the files are the state. A \<^verbatim>\<open>const char *\<close> is a \<open>string option\<close> that ends at
  its first NUL; the clock is an argument.
\<close>

section \<open>Definitions\<close>

record bs_state =
  g_path :: string
  bs_files :: "string \<Rightarrow> string"

definition c_str :: "string \<Rightarrow> string" where
  "c_str s = takeWhile (\<lambda>c. c \<noteq> CHR 0x00) s"

definition json_escape_char :: "char \<Rightarrow> string" where
  "json_escape_char c =
     (if c = CHR 0x5C then [CHR 0x5C, CHR 0x5C]
      else if c = CHR 0x22 then [CHR 0x5C, CHR 0x22]
      else if c = CHR 0x0A then [CHR 0x5C, CHR ''n'']
      else if c = CHR 0x0D then [CHR 0x5C, CHR ''r'']
      else if c = CHR 0x09 then [CHR 0x5C, CHR ''t'']
      else [c])"

definition json_escape :: "string option \<Rightarrow> string" where
  "json_escape p = (case p of None \<Rightarrow> [] | Some s \<Rightarrow> concat (map json_escape_char (c_str s)))"

definition bs_init :: "string option \<Rightarrow> bs_state \<Rightarrow> bs_state" where
  "bs_init path st = st\<lparr>g_path := (case path of Some p \<Rightarrow> c_str p | None \<Rightarrow> [])\<rparr>"

definition bs_payload :: "int \<Rightarrow> string \<Rightarrow> int \<Rightarrow> string option \<Rightarrow> string" where
  "bs_payload epoch_ms tag code msg =
     ''{\"ts\":'' @ to_string_int epoch_ms
     @ '',\"tag\":\"'' @ json_escape (Some tag) @ ''\"''
     @ '',\"code\":'' @ to_string_int code
     @ '',\"msg\":\"'' @ json_escape (case msg of Some m \<Rightarrow> Some m | None \<Rightarrow> Some []) @ ''\"}''"

definition bs_record :: "string \<Rightarrow> string" where
  "bs_record payload =
     (let crc = crc32c_compute (map of_char payload)
      in take (length payload - 1) payload @ '',\"crc32c\":'' @ digits_in 10 (unat crc) @ ''}'')"

text \<open>\<^verbatim>\<open>can_open\<close> says for which paths \<^verbatim>\<open>fopen\<close> in append mode succeeds.\<close>

definition bs_event :: "(string \<Rightarrow> bool) \<Rightarrow> int \<Rightarrow> string option \<Rightarrow> int \<Rightarrow> string option \<Rightarrow> bs_state \<Rightarrow> bs_state" where
  "bs_event can_open epoch_ms tag code msg st =
     (case tag of None \<Rightarrow> st
      | Some t \<Rightarrow>
          if g_path st = [] then st
          else
            let payload = bs_payload epoch_ms t code msg;
                rec = bs_record payload
            in if \<not> can_open (g_path st) then st
               else st\<lparr>bs_files := (bs_files st)(g_path st := bs_files st (g_path st) @ rec @ [CHR 0x0A])\<rparr>)"

definition bs_flush :: "bs_state \<Rightarrow> bs_state" where
  "bs_flush st = st"

section \<open>Reading the log back\<close>

text \<open>A reader of the log: the fields of a record, and the check of its checksum.\<close>

definition strip_lit :: "string \<Rightarrow> string \<Rightarrow> string option" where
  "strip_lit lit s = (if str_at s 0 lit then Some (drop (length lit) s) else None)"

definition num_char :: "char \<Rightarrow> bool" where
  "num_char c \<longleftrightarrow> c = CHR ''-'' \<or> 48 \<le> byte c \<and> byte c \<le> 57"

definition read_num :: "string \<Rightarrow> int \<times> string" where
  "read_num s = (read_int (takeWhile num_char s), dropWhile num_char s)"

definition unescape_char :: "char \<Rightarrow> char option" where
  "unescape_char e = map_of [(CHR 0x5C, CHR 0x5C), (CHR 0x22, CHR 0x22), (CHR ''n'', CHR 0x0A),
     (CHR ''r'', CHR 0x0D), (CHR ''t'', CHR 0x09)] e"

fun read_jstr :: "string \<Rightarrow> (string \<times> string) option" where
  "read_jstr [] = None"
| "read_jstr (c # cs) =
     (if c = CHR 0x22 then Some ([], cs)
      else if c = CHR 0x5C then
        (case cs of [] \<Rightarrow> None
         | e # es \<Rightarrow> (case unescape_char e of None \<Rightarrow> None | Some d \<Rightarrow> map_option (apfst (Cons d)) (read_jstr es)))
      else map_option (apfst (Cons c)) (read_jstr cs))"

definition parse_record :: "string \<Rightarrow> (int \<times> string \<times> int \<times> string \<times> int) option" where
  "parse_record s =
     Option.bind (strip_lit ''{\"ts\":'' s) (\<lambda>s. let (ts, s) = read_num s in
     Option.bind (strip_lit '',\"tag\":\"'' s) (\<lambda>s.
     Option.bind (read_jstr s) (\<lambda>(tag, s).
     Option.bind (strip_lit '',\"code\":'' s) (\<lambda>s. let (code, s) = read_num s in
     Option.bind (strip_lit '',\"msg\":\"'' s) (\<lambda>s.
     Option.bind (read_jstr s) (\<lambda>(msg, s).
     Option.bind (strip_lit '',\"crc32c\":'' s) (\<lambda>s. let (crc, s) = read_num s in
     if s = ''}'' then Some (ts, tag, code, msg, crc) else None)))))))"

definition record_intact :: "string \<Rightarrow> bool" where
  "record_intact s =
     (case parse_record s of None \<Rightarrow> False
      | Some (ts, tag, code, msg, crc) \<Rightarrow>
          crc = int (unat (crc32c_compute (map of_char (bs_payload ts tag code (Some msg))))))"

section \<open>Round trip of one record\<close>

lemma strip_lit_append [simp]: "strip_lit lit (lit @ s) = Some s"
  by (simp add: strip_lit_def str_at_def)

lemma to_string_int_chars: "c \<in> set (to_string_int i) \<Longrightarrow> num_char c"
  using digits_in_10_digit [of c "nat i"] digits_in_10_digit [of c "nat (- i)"]
  by (auto simp: to_string_int_def num_char_def split: if_splits)

lemma read_num_to_string:
  assumes "\<not> num_char c"
  shows "read_num (to_string_int i @ c # s) = (i, c # s)"
proof -
  have "\<And>d. d \<in> set (to_string_int i) \<Longrightarrow> num_char d" by (rule to_string_int_chars)
  then show ?thesis using assms by (simp add: read_num_def read_int_to_string)
qed

lemma digits_in_to_string: "digits_in 10 n = to_string_int (int n)"
  by (simp add: to_string_int_def)

lemma read_jstr_escape_char:
  "read_jstr (json_escape_char c @ s) = map_option (apfst (Cons c)) (read_jstr s)"
  by (simp add: json_escape_char_def unescape_char_def)

lemma read_jstr_escape:
  "read_jstr (json_escape (Some v) @ CHR 0x22 # s) = Some (c_str v, s)"
proof -
  have "read_jstr (concat (map json_escape_char w) @ CHR 0x22 # s) = Some (w, s)" for w
    by (induction w) (simp_all add: read_jstr_escape_char)
  then show ?thesis by (simp add: json_escape_def)
qed

lemma c_str_idem [simp]: "c_str (c_str s) = c_str s"
  by (simp add: c_str_def takeWhile_idem)

lemma json_escape_c_str [simp]: "json_escape (Some (c_str s)) = json_escape (Some s)"
  by (simp add: json_escape_def)

lemma bs_payload_c_str:
  "bs_payload ts (c_str tag) code (Some (c_str m)) = bs_payload ts tag code (Some m)"
  by (simp add: bs_payload_def)

definition payload_crc :: "int \<Rightarrow> string \<Rightarrow> int \<Rightarrow> string \<Rightarrow> int" where
  "payload_crc ts tag code m = int (unat (crc32c_compute (map of_char (bs_payload ts tag code (Some m)))))"

lemma bs_record_eq:
  "bs_record (bs_payload ts tag code (Some m)) =
     ''{\"ts\":'' @ to_string_int ts @ '',\"tag\":\"'' @ json_escape (Some tag) @ CHR 0x22 #
     '',\"code\":'' @ to_string_int code @ '',\"msg\":\"'' @ json_escape (Some m) @ CHR 0x22 #
     '',\"crc32c\":'' @ to_string_int (payload_crc ts tag code m) @ ''}''"
proof -
  let ?body = "''{\"ts\":'' @ to_string_int ts @ '',\"tag\":\"'' @ json_escape (Some tag) @ CHR 0x22 #
     '',\"code\":'' @ to_string_int code @ '',\"msg\":\"'' @ json_escape (Some m) @ [CHR 0x22]"
  have drop_last: "take (length p - 1) p = b" if "p = b @ ''}''" for p b :: string using that by simp
  have "bs_payload ts tag code (Some m) = ?body @ ''}''" by (simp add: bs_payload_def)
  then have "take (length (bs_payload ts tag code (Some m)) - 1) (bs_payload ts tag code (Some m)) = ?body"
    by (rule drop_last)
  then show ?thesis
    unfolding bs_record_def Let_def payload_crc_def digits_in_to_string by simp
qed

lemma num_char_other [simp]: "\<not> num_char (CHR '','')" "\<not> num_char (CHR ''}'')"
  by (simp_all add: num_char_def)

lemma parse_bs_record:
  "parse_record (bs_record (bs_payload ts tag code (Some m))) =
     Some (ts, c_str tag, code, c_str m, payload_crc ts tag code m)"
  by (simp add: bs_record_eq parse_record_def strip_lit_def str_at_def read_num_to_string read_jstr_escape)

lemma bs_record_intact: "record_intact (bs_record (bs_payload ts tag code (Some m)))"
  by (simp add: record_intact_def parse_bs_record bs_payload_c_str payload_crc_def)

lemma escape_no_newline: "CHR 0x0A \<notin> set (json_escape (Some v))"
  by (auto simp: json_escape_def json_escape_char_def split: if_splits)

lemma number_no_newline: "CHR 0x0A \<notin> set (to_string_int i)"
  using to_string_int_chars [of "CHR 0x0A" i] by (auto simp: num_char_def)

lemma bs_record_one_line: "CHR 0x0A \<notin> set (bs_record (bs_payload ts tag code (Some m)))"
  by (simp add: bs_record_eq escape_no_newline number_no_newline)

section \<open>Runs\<close>

type_synonym bs_call = "int \<times> string \<times> int \<times> string"

definition call_record :: "bs_call \<Rightarrow> string" where
  "call_record e = (case e of (ts, tag, code, m) \<Rightarrow> bs_record (bs_payload ts tag code (Some m)))"

definition bs_run :: "(string \<Rightarrow> bool) \<Rightarrow> bs_call list \<Rightarrow> bs_state \<Rightarrow> bs_state" where
  "bs_run can_open = fold (\<lambda>(ts, tag, code, m). bs_event can_open ts (Some tag) code (Some m))"

lemma bs_event_appends:
  assumes "g_path st \<noteq> []" and "can_open (g_path st)"
  shows "bs_event can_open ts (Some tag) code (Some m) st =
    st\<lparr>bs_files := (bs_files st)(g_path st := bs_files st (g_path st) @ call_record (ts, tag, code, m) @ [CHR 0x0A])\<rparr>"
  using assms by (simp add: bs_event_def call_record_def Let_def)

lemma bs_run_files:
  assumes "g_path st \<noteq> []" and "can_open (g_path st)"
  shows "g_path (bs_run can_open es st) = g_path st \<and>
    bs_files (bs_run can_open es st) =
      (bs_files st)(g_path st := bs_files st (g_path st) @ concat (map (\<lambda>e. call_record e @ [CHR 0x0A]) es))"
  using assms
proof (induction es arbitrary: st)
  case (Cons e es)
  obtain ts tag code m where e: "e = (ts, tag, code, m)" by (cases e)
  then show ?case
    using Cons.IH [of "bs_event can_open ts (Some tag) code (Some m) st"] Cons.prems
    by (simp add: bs_run_def bs_event_appends fun_eq_iff)
qed (simp add: bs_run_def)

lemma getlines_records: "getlines (concat (map (\<lambda>e. call_record e @ [CHR 0x0A]) es)) = map call_record es"
  by (induction es) (simp_all add: getlines_line call_record_def bs_record_one_line split: prod.split)

lemma parse_call_record:
  "parse_record (call_record e) =
     (case e of (ts, tag, code, m) \<Rightarrow> Some (ts, c_str tag, code, c_str m, payload_crc ts tag code m))"
  by (cases e) (simp add: call_record_def parse_bs_record)

lemma call_record_intact: "record_intact (call_record e)"
  by (cases e) (simp add: call_record_def bs_record_intact)

text \<open>C37: The event log can be read back. Whatever sequence of events is written to a fresh log, every
  event is one line; each line parses, gives back the time, tag, code and message of the event
  (up to the first NUL of the strings, whatever quotes, backslashes or newlines they contain), and
  carries the checksum of its content; no other file is touched.\<close>

theorem bs_log_roundtrip:
  assumes "g_path st \<noteq> []" and "can_open (g_path st)" and "bs_files st (g_path st) = []"
  shows "let st' = bs_run can_open es st; log = getlines (bs_files st' (g_path st)) in
    map parse_record log =
      map (\<lambda>(ts, tag, code, m). Some (ts, c_str tag, code, c_str m, payload_crc ts tag code m)) es \<and>
    list_all record_intact log \<and>
    (\<forall>p. p \<noteq> g_path st \<longrightarrow> bs_files st' p = bs_files st p)"
  using bs_run_files [of st can_open es, OF assms(1,2)] assms(3)
  by (simp add: Let_def getlines_records parse_call_record call_record_intact list_all_iff)

theorem bs_log_roundtrip_witness:
  "let st' = bs_run (\<lambda>_. True) [(1, ''a'', 0, [CHR 0x22, CHR 0x0A])] \<lparr>g_path = ''log'', bs_files = \<lambda>_. []\<rparr> in
   map parse_record (getlines (bs_files st' ''log'')) =
     [Some (1, ''a'', 0, [CHR 0x22, CHR 0x0A], payload_crc 1 ''a'' 0 [CHR 0x22, CHR 0x0A])]"
  using bs_log_roundtrip [of "\<lparr>g_path = ''log'', bs_files = \<lambda>_. []\<rparr>" "\<lambda>_. True" "[(1, ''a'', 0, [CHR 0x22, CHR 0x0A])]"]
  by (simp add: Let_def c_str_def)

text \<open>Other control characters are written as they are, which JSON does not allow in a string.\<close>

lemma json_escape_keeps_control: "json_escape (Some [CHR 0x01]) = [CHR 0x01]"
  by (simp add: json_escape_def json_escape_char_def c_str_def)

end
