(* ===== verification/FileAudit.thy ===== *)
theory FileAudit
  imports BitstackLog
begin

text \<open>
  \<^verbatim>\<open>common/stream_audit.cpp\<close> and \<^verbatim>\<open>common/witness_model.cpp\<close>, with the audit steps of
  \<^verbatim>\<open>common_init_from_params\<close> (\<^verbatim>\<open>common/common.cpp\<close>) that run them on the model file. An open
  \<^verbatim>\<open>FILE\<close> is its bytes and its position; a device may stop delivering bytes at an offset
  (\<open>f_bad\<close>), and a stream may not be seekable. The clock readings of the report are left out.
\<close>

section \<open>Files\<close>

record file_stream =
  f_bytes :: "u8 list"
  f_pos :: nat
  f_bad :: "nat option"
  f_seekable :: bool

definition readable :: "file_stream \<Rightarrow> u8 list" where
  "readable f = (case f_bad f of None \<Rightarrow> f_bytes f | Some e \<Rightarrow> take e (f_bytes f))"

definition fread :: "nat \<Rightarrow> file_stream \<Rightarrow> u8 list \<times> file_stream" where
  "fread n f = (let bs = take n (drop (f_pos f) (readable f)) in (bs, f\<lparr>f_pos := f_pos f + length bs\<rparr>))"

definition fseek_set :: "nat \<Rightarrow> file_stream \<Rightarrow> bool \<times> file_stream" where
  "fseek_set off f = (if f_seekable f then (True, f\<lparr>f_pos := off\<rparr>) else (False, f))"

definition fseek_end :: "file_stream \<Rightarrow> bool \<times> file_stream" where
  "fseek_end f = fseek_set (length (f_bytes f)) f"

type_synonym disk = "string \<Rightarrow> file_stream option"

text \<open>\<^verbatim>\<open>fopen(path, "rb")\<close>: positioned at the start.\<close>

definition fopen_rb :: "disk \<Rightarrow> string \<Rightarrow> file_stream option" where
  "fopen_rb d path = map_option (f_pos_update (\<lambda>_. 0)) (d path)"

section \<open>The audited stream\<close>

record sa_ctx =
  sa_fp :: "file_stream option"
  sa_bytes_total :: nat
  sa_io_reads :: nat
  sa_crc32c :: u32
  sa_chunk_size :: nat

record sa_report =
  bytes_total :: nat
  crc32c_final :: u32
  io_reads :: nat

definition sa_open :: "disk \<Rightarrow> string option \<Rightarrow> nat \<Rightarrow> sa_ctx option" where
  "sa_open d path chunk_size =
     (case path of None \<Rightarrow> None
      | Some p \<Rightarrow>
          (case fopen_rb d p of None \<Rightarrow> None
           | Some fp \<Rightarrow> Some \<lparr>sa_fp = Some fp, sa_bytes_total = 0, sa_io_reads = 0, sa_crc32c = 0,
               sa_chunk_size = (if 0 < chunk_size then chunk_size else 64 * 1024)\<rparr>))"

text \<open>\<^verbatim>\<open>sa_read\<close>: the bytes it leaves in \<^verbatim>\<open>dst\<close>, whose number it returns; \<open>dst_ok\<close> says that \<^verbatim>\<open>dst\<close> is not null.\<close>

definition sa_read :: "bool \<Rightarrow> nat \<Rightarrow> sa_ctx option \<Rightarrow> u8 list \<times> sa_ctx option" where
  "sa_read dst_ok n ctx =
     (case ctx of None \<Rightarrow> ([], None)
      | Some c \<Rightarrow>
          (case sa_fp c of None \<Rightarrow> ([], Some c)
           | Some fp \<Rightarrow>
               if \<not> dst_ok \<or> n = 0 then ([], Some c)
               else
                 let (bs, fp) = fread n fp;
                     c = c\<lparr>sa_fp := Some fp\<rparr>
                 in if bs \<noteq> [] then
                      (bs, Some (c\<lparr>sa_crc32c := crc32c_extend (sa_crc32c c) bs,
                         sa_bytes_total := sa_bytes_total c + length bs, sa_io_reads := sa_io_reads c + 1\<rparr>))
                    else (bs, Some c)))"

definition sa_report_ctx :: "sa_ctx option \<Rightarrow> sa_report" where
  "sa_report_ctx ctx =
     (case ctx of None \<Rightarrow> \<lparr>bytes_total = 0, crc32c_final = 0, io_reads = 0\<rparr>
      | Some c \<Rightarrow> \<lparr>bytes_total = sa_bytes_total c, crc32c_final = crc32c_finalize (sa_crc32c c),
          io_reads = sa_io_reads c\<rparr>)"

text \<open>\<^verbatim>\<open>sa_close\<close> closes the stream and frees the context.\<close>

definition sa_close :: "sa_ctx option \<Rightarrow> sa_ctx option" where
  "sa_close ctx = (case ctx of None \<Rightarrow> None | Some c \<Rightarrow> None)"

definition sa_remaining :: "sa_ctx \<Rightarrow> u8 list" where
  "sa_remaining c = (case sa_fp c of None \<Rightarrow> [] | Some fp \<Rightarrow> drop (f_pos fp) (readable fp))"

lemma readable_pos [simp]: "readable (f\<lparr>f_pos := p\<rparr>) = readable f"
  by (simp add: readable_def split: option.split)

lemma fread_eq: "fread n f = (take n (drop (f_pos f) (readable f)),
    f\<lparr>f_pos := f_pos f + length (take n (drop (f_pos f) (readable f)))\<rparr>)"
  by (simp add: fread_def Let_def)

lemma take_drop_rest: "take n (drop p xs) @ drop (p + length (take n (drop p xs))) xs = drop p xs"
proof (cases "n \<le> length xs - p")
  case True
  then show ?thesis by (simp add: add.commute flip: drop_drop)
next
  case False
  then show ?thesis by simp
qed

text \<open>One read: the bytes are the next \<open>n\<close> of the stream, and they are accounted for.\<close>

definition sa_advance :: "u8 list \<Rightarrow> sa_ctx \<Rightarrow> sa_ctx" where
  "sa_advance bs c = c\<lparr>sa_fp := map_option (\<lambda>fp. fp\<lparr>f_pos := f_pos fp + length bs\<rparr>) (sa_fp c),
     sa_crc32c := crc32c_extend (sa_crc32c c) bs, sa_bytes_total := sa_bytes_total c + length bs,
     sa_io_reads := sa_io_reads c + (if bs = [] then 0 else 1)\<rparr>"

lemma sa_read_eq: "sa_read True n (Some c) = (take n (sa_remaining c), Some (sa_advance (take n (sa_remaining c)) c))"
proof (cases "sa_fp c")
  case None
  then show ?thesis by (simp add: sa_read_def sa_remaining_def sa_advance_def crc.extend_nil)
next
  case (Some fp)
  let ?bs = "take n (drop (f_pos fp) (readable fp))"
  show ?thesis
  proof (cases "?bs = []")
    case True
    then show ?thesis using Some by (cases c; cases fp)
      (auto simp: sa_read_def sa_remaining_def sa_advance_def crc.extend_nil fread_eq)
  next
    case False
    then show ?thesis using Some by (simp add: sa_read_def sa_remaining_def sa_advance_def fread_eq)
  qed
qed

lemma sa_remaining_advance: "sa_remaining (sa_advance (take n (sa_remaining c)) c) = drop n (sa_remaining c)"
  by (cases "sa_fp c") (simp_all add: sa_remaining_def sa_advance_def min_def add.commute)

text \<open>The reading loop of \<^verbatim>\<open>common_init_from_params\<close>: it reads until a read returns nothing.\<close>

function audit_loop :: "nat \<Rightarrow> sa_ctx \<Rightarrow> sa_ctx" where
  "audit_loop n c =
     (case sa_read True n (Some c) of
        (bs, Some c') \<Rightarrow> if bs \<noteq> [] then audit_loop n c' else c'
      | (bs, None) \<Rightarrow> c)"
  by auto

termination audit_loop
  by (relation "measure (\<lambda>(n, c). length (sa_remaining c))") (auto simp: sa_read_eq sa_remaining_advance)

declare audit_loop.simps [simp del]

definition audit_model :: "disk \<Rightarrow> string \<Rightarrow> sa_report option" where
  "audit_model d path =
     (case sa_open d (Some path) (64 * 1024) of
        None \<Rightarrow> None
      | Some c \<Rightarrow> Some (sa_report_ctx (Some (audit_loop (64 * 1024) c))))"

lemma audit_loop_result:
  assumes "0 < n"
  shows "sa_crc32c (audit_loop n c) = crc32c_extend (sa_crc32c c) (sa_remaining c) \<and>
    sa_bytes_total (audit_loop n c) = sa_bytes_total c + length (sa_remaining c) \<and>
    sa_io_reads (audit_loop n c) = sa_io_reads c + (length (sa_remaining c) + n - 1) div n"
  using assms
proof (induction n c rule: audit_loop.induct)
  case (1 n c)
  let ?bs = "take n (sa_remaining c)"
  show ?case
  proof (cases "?bs = []")
    case True
    then have "sa_remaining c = []" using 1 by auto
    then show ?thesis using 1(2) by (simp add: audit_loop.simps [of n c] sa_read_eq sa_advance_def)
  next
    case False
    have split: "crc32c_extend s (sa_remaining c) = crc32c_extend (crc32c_extend s ?bs) (drop n (sa_remaining c))" for s
      using crc.extend_append [of s ?bs "drop n (sa_remaining c)"] by simp
    have reads: "(length (sa_remaining c) + n - 1) div n = Suc ((length (sa_remaining c) - n + n - 1) div n)"
    proof (cases "n \<le> length (sa_remaining c)")
      case True
      then have "length (sa_remaining c) + n - 1 = (length (sa_remaining c) - n + n - 1) + n" using 1(2) by simp
      then show ?thesis using 1(2) by (simp only: div_add_self2)
    next
      case False
      moreover have "0 < length (sa_remaining c)" using \<open>?bs \<noteq> []\<close> by (cases "sa_remaining c") auto
      moreover from this have "length (sa_remaining c) + n - 1 = (length (sa_remaining c) - 1) + n" by linarith
      ultimately show ?thesis using 1(2) by (simp only: div_add_self2) simp
    qed
    have step: "audit_loop n c = audit_loop n (sa_advance ?bs c)"
      using False by (simp add: audit_loop.simps [of n c] sa_read_eq)
    have adv: "sa_crc32c (sa_advance ?bs c) = crc32c_extend (sa_crc32c c) ?bs"
        "sa_bytes_total (sa_advance ?bs c) = sa_bytes_total c + length ?bs" "sa_io_reads (sa_advance ?bs c) = Suc (sa_io_reads c)"
      using False by (simp_all add: sa_advance_def)
    show ?thesis
      unfolding step reads split
      using 1(1) [OF sa_read_eq [symmetric] refl False 1(2)] unfolding adv sa_remaining_advance length_drop by simp
  qed
qed

lemma sa_open_remaining:
  assumes "d path = Some f"
  shows "\<exists>c. sa_open d (Some path) k = Some c \<and> sa_remaining c = readable f \<and> sa_crc32c c = 0 \<and>
    sa_bytes_total c = 0 \<and> sa_io_reads c = 0"
  using assms by (simp add: sa_open_def fopen_rb_def sa_remaining_def)

text \<open>C38: The streaming audit of a file, whatever the size of the reads: the loop ends, and the report has
  the number of bytes of the file that can be read, the CRC-32C of exactly these bytes as computed
  in one go, and the number of non-empty reads.\<close>

theorem stream_audit_correct:
  assumes "d path = Some f" and "0 < n"
  shows "\<exists>c. sa_open d (Some path) k = Some c \<and>
    sa_report_ctx (Some (audit_loop n c)) =
      \<lparr>bytes_total = length (readable f), crc32c_final = crc32c_compute (readable f),
       io_reads = (length (readable f) + n - 1) div n\<rparr>"
proof -
  obtain c where c: "sa_open d (Some path) k = Some c" "sa_remaining c = readable f" "sa_crc32c c = 0"
      "sa_bytes_total c = 0" "sa_io_reads c = 0"
    using sa_open_remaining [of d path f k, OF assms(1)] by blast
  then show ?thesis using audit_loop_result [OF assms(2), of c]
    by (simp add: sa_report_ctx_def crc32c_compute_def)
qed

theorem stream_audit_correct_witness:
  "\<exists>c. sa_open (\<lambda>_. Some \<lparr>f_bytes = [1, 2, 3], f_pos = 0, f_bad = None, f_seekable = True\<rparr>) (Some ''m'') 0 = Some c \<and>
    sa_report_ctx (Some (audit_loop 2 c)) =
      \<lparr>bytes_total = 3, crc32c_final = crc32c_compute [1, 2, 3], io_reads = 2\<rparr>"
  using stream_audit_correct [of "\<lambda>_. Some \<lparr>f_bytes = [1, 2, 3], f_pos = 0, f_bad = None, f_seekable = True\<rparr>" "''m''" _ 2 0]
  by (simp add: readable_def flip: numeral_3_eq_3 numeral_2_eq_2)

text \<open>A read error ends the loop like the end of the file: the audit of a file that fails at an
  offset is the audit of the file cut there.\<close>

lemma audit_hides_read_error:
  assumes "d path = Some f" and "f_bad f = Some e" and "d' path = Some (f\<lparr>f_bytes := take e (f_bytes f), f_bad := None\<rparr>)"
  shows "audit_model d path = audit_model d' path"
proof -
  have "readable (f\<lparr>f_bytes := take e (f_bytes f), f_bad := None\<rparr>) = readable f"
    using assms(2) by (simp add: readable_def)
  moreover obtain c where "sa_open d (Some path) (64 * 1024) = Some c" "sa_remaining c = readable f"
      "sa_crc32c c = 0" "sa_bytes_total c = 0" "sa_io_reads c = 0"
    using sa_open_remaining [of d path f, OF assms(1)] by blast
  moreover obtain c' where "sa_open d' (Some path) (64 * 1024) = Some c'"
      "sa_remaining c' = readable (f\<lparr>f_bytes := take e (f_bytes f), f_bad := None\<rparr>)"
      "sa_crc32c c' = 0" "sa_bytes_total c' = 0" "sa_io_reads c' = 0"
    using sa_open_remaining [of d' path, OF assms(3)] by blast
  ultimately show ?thesis
    using audit_loop_result [of "64 * 1024" c] audit_loop_result [of "64 * 1024" c']
    by (simp add: audit_model_def sa_report_ctx_def)
qed

section \<open>Witnesses of a model\<close>

record witness_report =
  wr_crc32c :: u32
  wr_xorfold :: u64
  wr_bytes_sampled :: nat
  wr_ok :: bool

definition witness_report0 :: witness_report where
  "witness_report0 = \<lparr>wr_crc32c = 0, wr_xorfold = 0, wr_bytes_sampled = 0, wr_ok = False\<rparr>"

definition xorfold_bytes :: "u8 list \<Rightarrow> u64" where
  "xorfold_bytes data =
     (if data = [] then 0
      else fold (\<lambda>(i, b) acc. acc XOR push_bit ((i mod 8) * 8) (ucast b)) (enumerate 0 data) 0)"

text \<open>The three updates both routines make for a run of bytes.\<close>

definition add_run :: "u8 list \<Rightarrow> witness_report \<Rightarrow> witness_report" where
  "add_run bs r = r\<lparr>wr_crc32c := crc32c_extend (wr_crc32c r) bs, wr_xorfold := wr_xorfold r XOR xorfold_bytes bs,
     wr_bytes_sampled := wr_bytes_sampled r + length bs\<rparr>"

definition finish_report :: "witness_report \<Rightarrow> witness_report" where
  "finish_report r = r\<lparr>wr_crc32c := crc32c_finalize (wr_crc32c r), wr_ok := 0 < wr_bytes_sampled r\<rparr>"

text \<open>The four places sampled; the product is computed in \<^verbatim>\<open>size_t\<close>.\<close>

definition sample_offsets :: "nat \<Rightarrow> nat list" where
  "sample_offsets file_size = [0, file_size div 4, file_size div 2, (file_size * 3) mod 2 ^ 64 div 4]"

definition sample_step :: "nat \<Rightarrow> nat \<Rightarrow> witness_report \<times> file_stream \<Rightarrow> witness_report \<times> file_stream" where
  "sample_step file_size offset st =
     (case st of (r, fp) \<Rightarrow>
        (case fseek_set offset fp of
           (False, fp) \<Rightarrow> (r, fp)
         | (True, fp) \<Rightarrow>
             let to_read = min 4096 (file_size - offset);
                 (bs, fp) = fread to_read fp
             in if bs = [] then (r, fp) else (add_run bs r, fp)))"

definition witness_file :: "disk \<Rightarrow> string option \<Rightarrow> witness_report" where
  "witness_file d path =
     (case path of None \<Rightarrow> witness_report0
      | Some p \<Rightarrow>
          (case fopen_rb d p of None \<Rightarrow> witness_report0
           | Some fp \<Rightarrow>
               (case fseek_end fp of
                  (False, fp) \<Rightarrow> witness_report0
                | (True, fp) \<Rightarrow>
                    let size = f_pos fp
                    in if size = 0 then witness_report0
                       else finish_report (fst (fold (sample_step size) (sample_offsets size) (witness_report0, fp))))))"

text \<open>\<^verbatim>\<open>witness_tensor\<close>: \<open>None\<close> is a null pointer, \<open>Some bs\<close> the \<open>size\<close> bytes behind it.\<close>

function tensor_loop :: "nat \<Rightarrow> u8 list \<Rightarrow> nat \<Rightarrow> witness_report \<Rightarrow> witness_report" where
  "tensor_loop step bs offset r =
     (if offset < length bs \<and> 0 < step then
        let to_read = min step (length bs - offset)
        in tensor_loop step bs (offset + step) (add_run (take to_read (drop offset bs)) r)
      else r)"
  by auto

termination tensor_loop
  by (relation "measure (\<lambda>(step, bs, offset, r). length bs - offset)") auto

declare tensor_loop.simps [simp del]

definition witness_tensor :: "u8 list option \<Rightarrow> nat \<Rightarrow> witness_report" where
  "witness_tensor data stride =
     (case data of None \<Rightarrow> witness_report0
      | Some bs \<Rightarrow>
          if bs = [] then witness_report0
          else
            let step = (if 0 < stride then stride else length bs)
            in finish_report (tensor_loop step bs 0 witness_report0))"

definition witness_signature :: "witness_report \<Rightarrow> string" where
  "witness_signature r =
     pad0 8 (digits_in 16 (unat (wr_crc32c r))) @ '':'' @ pad0 16 (digits_in 16 (unat (wr_xorfold r)))"

text \<open>The witness step of \<^verbatim>\<open>common_init_from_params\<close>: the code and the message it logs.\<close>

definition witness_event :: "disk \<Rightarrow> string \<Rightarrow> string \<Rightarrow> int \<times> string" where
  "witness_event d model_path witness_expected =
     (let report = witness_file d (Some model_path);
          signature = witness_signature report;
          code = (if wr_ok report then 0 else 1);
          msg = ''signature='' @ signature @ '',bytes='' @ digits_in 10 (wr_bytes_sampled report)
      in if witness_expected \<noteq> [] then
           if witness_expected \<noteq> signature then (2, msg @ '',expected='' @ witness_expected @ '',match=false'')
           else (code, msg @ '',match=true'')
         else (code, msg))"

section \<open>The xor fold of a concatenation\<close>

definition xf :: "nat \<Rightarrow> u8 list \<Rightarrow> u64" where
  "xf k bs = fold (\<lambda>(i, b) acc. acc XOR push_bit ((i mod 8) * 8) (ucast b)) (enumerate k bs) 0"

lemma xorfold_bytes_xf: "xorfold_bytes bs = xf 0 bs"
  by (simp add: xorfold_bytes_def xf_def)

lemma xf_append: "xf k (xs @ ys) = xf k xs XOR xf (k + length xs) ys"
  using fold_xor_append [of "\<lambda>(i, b). push_bit ((i mod 8) * 8) (ucast (b::u8)) :: u64" "enumerate k xs" "enumerate (k + length xs) ys" 0]
  by (simp add: xf_def enumerate_append_eq case_prod_unfold)

lemma xf_Cons: "xf k (b # bs) = push_bit ((k mod 8) * 8) (ucast b) XOR xf (Suc k) bs"
  using xf_append [of k "[b]" bs] by (simp add: xf_def)

lemma xf_mod: "k mod 8 = j mod 8 \<Longrightarrow> xf k bs = xf j bs"
proof (induction bs arbitrary: k j)
  case (Cons b bs)
  then have "Suc k mod 8 = Suc j mod 8" by (simp only: mod_Suc)
  from Cons.IH [OF this] Cons.prems show ?case by (simp add: xf_Cons)
qed (simp add: xf_def)

lemma xf_aligned: "8 dvd length xs \<Longrightarrow> xf 0 (xs @ ys) = xf 0 xs XOR xf 0 ys"
  using xf_mod [of "length xs" 0 ys] by (simp add: xf_append)

section \<open>Witnesses of tensors\<close>

lemma add_run_simps [simp]:
  "wr_crc32c (add_run bs r) = crc32c_extend (wr_crc32c r) bs"
  "wr_xorfold (add_run bs r) = wr_xorfold r XOR xf 0 bs"
  "wr_bytes_sampled (add_run bs r) = wr_bytes_sampled r + length bs"
  by (simp_all add: add_run_def xorfold_bytes_xf)

lemma split_run: "drop off bs = take (min step (length bs - off)) (drop off bs) @ drop (off + step) bs"
proof -
  have "take (min step (length bs - off)) (drop off bs) = take step (drop off bs)" by (simp add: min_def)
  then show ?thesis using append_take_drop_id [of step "drop off bs"] by (simp add: add.commute)
qed

lemma tensor_loop_crc:
  assumes "0 < step"
  shows "wr_crc32c (tensor_loop step bs off r) = crc32c_extend (wr_crc32c r) (drop off bs) \<and>
    wr_bytes_sampled (tensor_loop step bs off r) = wr_bytes_sampled r + (length bs - off)"
  using assms
proof (induction step bs off r rule: tensor_loop.induct)
  case (1 step bs off r)
  let ?run = "take (min step (length bs - off)) (drop off bs)"
  show ?case
  proof (cases "off < length bs")
    case True
    have "crc32c_extend s (drop off bs) = crc32c_extend (crc32c_extend s ?run) (drop (off + step) bs)" for s
      by (metis crc.extend_append split_run)
    then show ?thesis using 1 True by (auto simp: tensor_loop.simps [of step bs off r] Let_def)
  next
    case False
    then show ?thesis by (simp add: tensor_loop.simps [of step bs off r] crc.extend_nil)
  qed
qed

lemma tensor_loop_xorfold:
  assumes "8 dvd step" and "0 < step"
  shows "wr_xorfold (tensor_loop step bs off r) = wr_xorfold r XOR xf 0 (drop off bs)"
  using assms
proof (induction step bs off r rule: tensor_loop.induct)
  case (1 step bs off r)
  let ?run = "take (min step (length bs - off)) (drop off bs)"
  show ?case
  proof (cases "off < length bs")
    case True
    have "xf 0 (drop off bs) = xf 0 ?run XOR xf 0 (drop (off + step) bs)"
    proof (cases "step \<le> length bs - off")
      case True
      then have "8 dvd length ?run" using 1(2) by (simp add: min_def)
      then show ?thesis using xf_aligned [of ?run "drop (off + step) bs"] split_run [of off bs step] by simp
    next
      case False
      then show ?thesis by (simp add: min_def) (simp add: xf_def)
    qed
    then show ?thesis using 1 True by (simp add: tensor_loop.simps [of step bs off r] Let_def ac_simps)
  next
    case False
    then show ?thesis by (simp add: tensor_loop.simps [of step bs off r]) (simp add: xf_def)
  qed
qed

lemma tensor_loop_once:
  assumes "length bs \<le> step" and "bs \<noteq> []"
  shows "tensor_loop step bs 0 r = add_run bs r"
  using assms by (cases "0 < step") (simp_all add: tensor_loop.simps [of step bs 0] tensor_loop.simps [of step bs step])

text \<open>The witness of a tensor. Whatever the stride, the checksum is the CRC-32C of all its bytes and the
  count is its size; the xor fold is that of the whole tensor when the stride keeps the lanes
  aligned (no stride, a multiple of eight, or one run).\<close>

theorem witness_tensor_stride:
  assumes "bs \<noteq> []"
  shows "let r = witness_tensor (Some bs) stride in
    wr_crc32c r = crc32c_compute bs \<and> wr_bytes_sampled r = length bs \<and> wr_ok r \<and>
    (stride = 0 \<or> 8 dvd stride \<or> length bs \<le> stride \<longrightarrow> wr_xorfold r = xorfold_bytes bs)"
proof -
  define step where "step = (if 0 < stride then stride else length bs)"
  have step: "0 < step" using assms by (simp add: step_def)
  have r: "witness_tensor (Some bs) stride = finish_report (tensor_loop step bs 0 witness_report0)"
    using assms by (simp add: witness_tensor_def Let_def step_def)
  have "wr_xorfold (tensor_loop step bs 0 witness_report0) = xf 0 bs"
    if "stride = 0 \<or> 8 dvd stride \<or> length bs \<le> stride"
  proof (cases "length bs \<le> step")
    case True
    then show ?thesis using assms by (simp add: tensor_loop_once witness_report0_def)
  next
    case False
    then have "8 dvd step" using that by (auto simp: step_def split: if_splits)
    then show ?thesis using step tensor_loop_xorfold [of step bs 0 witness_report0] by (simp add: witness_report0_def)
  qed
  with tensor_loop_crc [OF step, of bs 0 witness_report0] assms show ?thesis unfolding r
    by (simp add: finish_report_def crc32c_compute_def crc32c_finalize_def witness_report0_def xorfold_bytes_xf)
qed

theorem witness_tensor_stride_witness:
  "let r = witness_tensor (Some [1, 2, 3]) 2 in
   wr_crc32c r = crc32c_compute [1, 2, 3] \<and> wr_bytes_sampled r = length [1, 2, 3 :: u8] \<and> wr_ok r"
  using witness_tensor_stride [of "[1, 2, 3]" 2] by (simp add: Let_def)

text \<open>A stride that is not a multiple of the lanes changes the xor fold.\<close>

lemma witness_tensor_unaligned: "wr_xorfold (witness_tensor (Some [1, 2]) 1) \<noteq> xorfold_bytes [1, 2]"
proof -
  have "wr_xorfold (tensor_loop 1 [1, 2] 0 witness_report0) = xf 0 [1] XOR xf 0 [2]"
    by (simp add: tensor_loop.simps [of "Suc 0"] witness_report0_def)
  also have "\<dots> \<noteq> xorfold_bytes [1, 2]" by (simp add: xorfold_bytes_xf xf_Cons) (simp add: xf_def)
  finally show ?thesis by (simp add: witness_tensor_def finish_report_def)
qed

section \<open>Signatures\<close>

lemma hex_width:
  assumes "n < 16 ^ w" and "0 < w"
  shows "length (pad0 w (digits_in 16 n)) = w" and "read_digits 16 (pad0 w (digits_in 16 n)) = n"
  using length_digits_in [of 16 n "w - 1"] assms by (simp_all add: read_digits_pad0 read_digits_in)

text \<open>The signature determines both halves of the witness.\<close>

lemma witness_signature_roundtrip:
  "let s = witness_signature r in
   length s = 25 \<and> read_digits 16 (take 8 s) = unat (wr_crc32c r) \<and> read_digits 16 (drop 9 s) = unat (wr_xorfold r)"
proof -
  have "unat (wr_crc32c r) < 16 ^ 8" and "unat (wr_xorfold r) < 16 ^ 16"
    using unsigned_less [of "wr_crc32c r", where 'a = nat] unsigned_less [of "wr_xorfold r", where 'a = nat] by simp_all
  then show ?thesis
    using hex_width [of "unat (wr_crc32c r)" 8] hex_width [of "unat (wr_xorfold r)" 16]
    by (simp add: witness_signature_def Let_def)
qed

lemma witness_signature_inj:
  "witness_signature r = witness_signature r' \<longleftrightarrow> wr_crc32c r = wr_crc32c r' \<and> wr_xorfold r = wr_xorfold r'"
proof
  assume "witness_signature r = witness_signature r'"
  then have "unat (wr_crc32c r) = unat (wr_crc32c r')" and "unat (wr_xorfold r) = unat (wr_xorfold r')"
    using witness_signature_roundtrip [of r] witness_signature_roundtrip [of r'] unfolding Let_def by metis+
  then show "wr_crc32c r = wr_crc32c r' \<and> wr_xorfold r = wr_xorfold r'" by (simp only: unsigned_word_eqI)
qed (simp add: witness_signature_def)

section \<open>Witnesses of files\<close>

definition sample :: "u8 list \<Rightarrow> nat \<Rightarrow> u8 list" where
  "sample bs off = take 4096 (drop off bs)"

lemma add_run_nil [simp]: "add_run [] r = r"
  by (cases r) (simp add: add_run_def xorfold_bytes_def crc.extend_nil)

lemma sample_steps:
  assumes "f_seekable fp" and "f_bad fp = None"
  shows "fst (fold (sample_step (length (f_bytes fp))) offs (r, fp)) = fold add_run (map (sample (f_bytes fp)) offs) r"
  using assms
proof (induction offs arbitrary: r fp)
  case (Cons off offs)
  let ?n = "min 4096 (length (f_bytes fp) - off)"
  let ?bs = "take ?n (drop off (f_bytes fp))"
  have bs: "?bs = sample (f_bytes fp) off" by (simp add: sample_def min_def)
  have "sample_step (length (f_bytes fp)) off (r, fp) =
      (add_run ?bs r, fp\<lparr>f_pos := off + length ?bs\<rparr>)"
    using Cons.prems by (auto simp: sample_step_def fseek_set_def fread_def readable_def Let_def)
  then show ?case using Cons.IH [of "fp\<lparr>f_pos := off + length ?bs\<rparr>" "add_run ?bs r"] Cons.prems
    by (simp only: fold_simps list.map bs) simp
qed simp

lemma witness_file_samples:
  assumes "d path = Some f" and "f_seekable f" and "f_bad f = None" and "f_bytes f \<noteq> []"
  shows "witness_file d (Some path) =
    finish_report (fold add_run (map (sample (f_bytes f)) (sample_offsets (length (f_bytes f)))) witness_report0)"
  using assms sample_steps [of "f\<lparr>f_pos := length (f_bytes f)\<rparr>"]
  by (simp add: witness_file_def fopen_rb_def fseek_end_def fseek_set_def Let_def)

lemma add_runs_crc: "wr_crc32c (fold add_run runs r) = crc32c_extend (wr_crc32c r) (concat runs)"
  by (induction runs arbitrary: r) (simp_all add: crc.extend_nil crc.extend_append)

definition sampled :: "nat list \<Rightarrow> nat \<Rightarrow> bool" where
  "sampled offs i \<longleftrightarrow> (\<exists>off \<in> set offs. off \<le> i \<and> i < off + 4096)"

lemma sample_update:
  "sample (bs[i := b]) off = (if off \<le> i \<and> i < off + 4096 then (sample bs off)[i - off := b] else sample bs off)"
  by (auto simp: sample_def drop_update_swap take_update_swap not_less intro!: list_update_beyond)

lemma samples_update:
  assumes "sorted_wrt (\<lambda>a b. a + 4096 \<le> b) offs" and "i < length bs" and "sampled offs i"
  shows "\<exists>k < length (concat (map (sample bs) offs)). concat (map (sample bs) offs) ! k = bs ! i \<and>
    concat (map (sample (bs[i := b])) offs) = (concat (map (sample bs) offs))[k := b]"
  using assms
proof (induction offs)
  case (Cons off offs)
  show ?case
  proof (cases "off \<le> i \<and> i < off + 4096")
    case True
    then have rest: "map (sample (bs[i := b])) offs = map (sample bs) offs"
      using Cons.prems(1) by (auto simp: sample_update)
    have k: "i - off < length (sample bs off)" using True Cons.prems(2) by (simp add: sample_def) linarith
    moreover have "sample bs off ! (i - off) = bs ! i" using True Cons.prems(2) less_diff_conv2 [of off i 4096] by (simp add: sample_def add.commute)
    moreover have "sample (bs[i := b]) off = (sample bs off)[i - off := b]" using True by (simp add: sample_update)
    ultimately show ?thesis using rest
      by (intro exI [of _ "i - off"]) (simp add: nth_append list_update_append del: map_eq_conv)
  next
    case False
    then have "sampled offs i" using Cons.prems(3) by (auto simp: sampled_def)
    with Cons obtain k where "k < length (concat (map (sample bs) offs))"
      "concat (map (sample bs) offs) ! k = bs ! i"
      "concat (map (sample (bs[i := b])) offs) = (concat (map (sample bs) offs))[k := b]" by auto
    moreover have "sample (bs[i := b]) off = sample bs off" using False by (auto simp: sample_update)
    ultimately show ?thesis
      by (intro exI [of _ "length (sample bs off) + k"]) (simp add: list_update_append)
  qed
qed (simp add: sampled_def)

lemma offsets_apart:
  assumes "16384 \<le> n" and "3 * n < 2 ^ 64"
  shows "sorted_wrt (\<lambda>a b. a + 4096 \<le> b) (sample_offsets n)"
proof -
  have "(n * 3) mod 2 ^ 64 = n * 3" using assms(2) by simp
  moreover have "4096 \<le> n div 4" "n div 4 + 4096 \<le> n div 2" "n div 2 + 4096 \<le> n * 3 div 4"
    using assms(1) by linarith+
  ultimately show ?thesis by (simp add: sample_offsets_def)
qed

definition good_file :: "u8 list \<Rightarrow> file_stream" where
  "good_file bs = \<lparr>f_bytes = bs, f_pos = 0, f_bad = None, f_seekable = True\<rparr>"

definition file_signature :: "u8 list \<Rightarrow> string" where
  "file_signature bs = witness_signature (witness_file (\<lambda>_. Some (good_file bs)) (Some []))"

text \<open>C39: What the witness of a model file can see. For a file of at least four samples, changing one byte
  changes the signature exactly when the byte lies in one of the four samples of 4096 bytes.\<close>

theorem witness_file_detects_sampled_bytes:
  assumes "16384 \<le> length bs" and "3 * length bs < 2 ^ 64" and "i < length bs" and "b \<noteq> bs ! i"
  shows "file_signature (bs[i := b]) \<noteq> file_signature bs \<longleftrightarrow> sampled (sample_offsets (length bs)) i"
proof -
  let ?offs = "sample_offsets (length bs)"
  have report: "witness_file (\<lambda>_. Some (good_file cs)) (Some []) =
      finish_report (fold add_run (map (sample cs) ?offs) witness_report0)" if "length cs = length bs" for cs
  proof -
    have "cs \<noteq> []" using that assms(1) by auto
    then show ?thesis
      using that witness_file_samples [of "\<lambda>_. Some (good_file cs)" "[]" "good_file cs"] by (simp add: good_file_def)
  qed
  show ?thesis
  proof (cases "sampled ?offs i")
    case True
    obtain k where "k < length (concat (map (sample bs) ?offs))" "concat (map (sample bs) ?offs) ! k \<noteq> b"
      "concat (map (sample (bs[i := b])) ?offs) = (concat (map (sample bs) ?offs))[k := b]"
      using samples_update [OF offsets_apart [OF assms(1,2)] assms(3) True, of b] assms(4) by auto
    then have "wr_crc32c (fold add_run (map (sample (bs[i := b])) ?offs) witness_report0) \<noteq>
        wr_crc32c (fold add_run (map (sample bs) ?offs) witness_report0)"
      using crc.byte_change_detected by (simp add: add_runs_crc)
    then show ?thesis using True report [of bs] report [of "bs[i := b]"]
      by (simp add: file_signature_def witness_signature_inj finish_report_def crc32c_finalize_def)
  next
    case False
    then have "map (sample (bs[i := b])) ?offs = map (sample bs) ?offs"
      by (auto simp: sampled_def sample_update)
    then show ?thesis using False report [of bs] report [of "bs[i := b]"] by (simp add: file_signature_def del: map_eq_conv)
  qed
qed

theorem witness_file_detects_sampled_bytes_witness:
  "file_signature ((replicate 20000 0)[7 := 1]) \<noteq> file_signature (replicate 20000 0) \<and>
   file_signature ((replicate 20000 0)[4500 := 1]) = file_signature (replicate 20000 0)"
  using witness_file_detects_sampled_bytes [of "replicate 20000 0" 7 1]
    witness_file_detects_sampled_bytes [of "replicate 20000 0" 4500 1]
  by (simp add: sampled_def sample_offsets_def)

text \<open>The samples of a short file overlap. Of a file of one byte all four are the same byte, which
  the xor fold cancels and the count counts four times.\<close>

lemma witness_file_one_byte:
  "let r = witness_file (\<lambda>_. Some (good_file [b])) (Some []) in wr_xorfold r = 0 \<and> wr_bytes_sampled r = 4"
  using witness_file_samples [of "\<lambda>_. Some (good_file [b])" "[]" "good_file [b]"]
  by (simp add: good_file_def sample_offsets_def sample_def finish_report_def Let_def witness_report0_def)

text \<open>The code that is logged: 2 exactly for a signature that differs from the expected one, 1 only
  when nothing could be sampled.\<close>

lemma witness_event_code:
  "fst (witness_event d path expected) =
     (if expected \<noteq> [] \<and> expected \<noteq> witness_signature (witness_file d (Some path)) then 2
      else if wr_ok (witness_file d (Some path)) then 0 else 1)"
  by (simp add: witness_event_def Let_def)

end
