(* ===== verification/UnicodeData.thy ===== *)
theory UnicodeData
imports Prelude
begin

text \<open>
  The tables of \<^verbatim>\<open>src/unicode-data.cpp\<close>: the categories of the code points as ranges, the white space, the case
  mappings and the base characters of decomposable ones. A table is the concatenation of blocks of at most 150
  entries; \<open>entries_ok\<close> is checked block by block and joined by \<open>entries_ok_append\<close>, so that the checking of a
  table stays linear in its length. The last theorems state what the code relies on: the ranges cover all
  code points and have one category each, and the tables that are searched by bisection are ascending.
\<close>

section \<open>Ascending tables\<close>

definition MAX_CODEPOINTS :: int where
  "MAX_CODEPOINTS = 0x110000"

text \<open>The entries of a table occupy disjoint, ascending intervals between two bounds.\<close>

fun entries_ok :: "('a \<Rightarrow> int) \<Rightarrow> ('a \<Rightarrow> int) \<Rightarrow> ('a \<Rightarrow> bool) \<Rightarrow> int \<Rightarrow> 'a list \<Rightarrow> int \<Rightarrow> bool" where
  "entries_ok ini fin P lo [] hi \<longleftrightarrow> lo \<le> hi"
| "entries_ok ini fin P lo (e # es) hi \<longleftrightarrow>
     lo \<le> ini e \<and> ini e \<le> fin e \<and> P e \<and> entries_ok ini fin P (fin e + 1) es hi"

lemma entries_ok_weaken: "entries_ok ini fin P lo es hi \<Longrightarrow> lo' \<le> lo \<Longrightarrow> entries_ok ini fin P lo' es hi"
  by (cases es) auto

lemma entries_ok_append:
  "entries_ok ini fin P lo es m \<Longrightarrow> entries_ok ini fin P m fs hi \<Longrightarrow> entries_ok ini fin P lo (es @ fs) hi"
  by (induction es arbitrary: lo) (auto intro: entries_ok_weaken)

lemma entries_ok_bounds:
  "entries_ok ini fin P lo es hi \<Longrightarrow> e \<in> set es \<Longrightarrow> lo \<le> ini e \<and> ini e \<le> fin e \<and> fin e < hi \<and> P e"
proof (induction es arbitrary: lo)
  case (Cons x es)
  have "fin x + 1 \<le> hi" if "entries_ok ini fin P (fin x + 1) es hi"
    using that by (induction es arbitrary: x) force+
  with Cons show ?case by fastforce
qed simp

lemma entries_ok_sorted:
  "entries_ok ini fin P lo es hi \<Longrightarrow> sorted_wrt (\<lambda>a b. fin a < ini b) es"
  by (induction es arbitrary: lo) (auto dest: entries_ok_bounds)

text \<open>The categories of \<^verbatim>\<open>unicode_cpt_flags\<close>: one of the lowest eight bits.\<close>

definition single_category :: "int \<Rightarrow> bool" where
  "single_category f \<longleftrightarrow> f \<in> {0x01, 0x02, 0x04, 0x08, 0x10, 0x20, 0x40, 0x80}"

text \<open>No code point outside ASCII is mapped to a letter of the English contractions.\<close>

definition contraction_letter :: "int \<Rightarrow> bool" where
  "contraction_letter c \<longleftrightarrow> c \<in> {0x73, 0x74, 0x72, 0x65, 0x76, 0x6d, 0x6c, 0x64}"

definition lower_ok :: "int \<times> int \<Rightarrow> bool" where
  "lower_ok = (\<lambda>(c, l). 0 \<le> l \<and> l < MAX_CODEPOINTS \<and> (contraction_letter l \<longrightarrow> c = l - 0x20) \<and> \<not> contraction_letter c)"

section \<open>Categories: the first code point of a range and its flags\<close>

definition unicode_ranges_flags_1 :: "(int \<times> int) list" where
  "unicode_ranges_flags_1 = [
    (0, 0x80), (0x20, 0x8), (0x21, 0x20), (0x24, 0x40), (0x25, 0x20), (0x2b, 0x40), (0x2c, 0x20), (0x30, 0x2),
    (0x3a, 0x20), (0x3c, 0x40), (0x3f, 0x20), (0x41, 0x4), (0x5b, 0x20), (0x5e, 0x40), (0x5f, 0x20),
    (0x60, 0x40), (0x61, 0x4), (0x7b, 0x20), (0x7c, 0x40), (0x7d, 0x20), (0x7e, 0x40), (0x7f, 0x80),
    (0xa0, 0x8), (0xa1, 0x20), (0xa2, 0x40), (0xa7, 0x20), (0xa8, 0x40), (0xaa, 0x4), (0xab, 0x20),
    (0xac, 0x40), (0xad, 0x80), (0xae, 0x40), (0xb2, 0x2), (0xb4, 0x40), (0xb5, 0x4), (0xb6, 0x20),
    (0xb8, 0x40), (0xb9, 0x2), (0xba, 0x4), (0xbb, 0x20), (0xbc, 0x2), (0xbf, 0x20), (0xc0, 0x4),
    (0xd7, 0x40), (0xd8, 0x4), (0xf7, 0x40), (0xf8, 0x4), (0x2c2, 0x40), (0x2c6, 0x4), (0x2d2, 0x40),
    (0x2e0, 0x4), (0x2e5, 0x40), (0x2ec, 0x4), (0x2ed, 0x40), (0x2ee, 0x4), (0x2ef, 0x40), (0x300, 0x10),
    (0x370, 0x4), (0x375, 0x40), (0x376, 0x4), (0x378, 1), (0x37a, 0x4), (0x37e, 0x20), (0x37f, 0x4),
    (0x380, 1), (0x384, 0x40), (0x386, 0x4), (0x387, 0x20), (0x388, 0x4), (0x38b, 1), (0x38c, 0x4),
    (0x38d, 1), (0x38e, 0x4), (0x3a2, 1), (0x3a3, 0x4), (0x3f6, 0x40), (0x3f7, 0x4), (0x482, 0x40),
    (0x483, 0x10), (0x48a, 0x4), (0x530, 1), (0x531, 0x4), (0x557, 1), (0x559, 0x4), (0x55a, 0x20),
    (0x560, 0x4), (0x589, 0x20), (0x58b, 1), (0x58d, 0x40), (0x590, 1), (0x591, 0x10), (0x5be, 0x20),
    (0x5bf, 0x10), (0x5c0, 0x20), (0x5c1, 0x10), (0x5c3, 0x20), (0x5c4, 0x10), (0x5c6, 0x20), (0x5c7, 0x10),
    (0x5c8, 1), (0x5d0, 0x4), (0x5eb, 1), (0x5ef, 0x4), (0x5f3, 0x20), (0x5f5, 1), (0x600, 0x80),
    (0x606, 0x40), (0x609, 0x20), (0x60b, 0x40), (0x60c, 0x20), (0x60e, 0x40), (0x610, 0x10), (0x61b, 0x20),
    (0x61c, 0x80), (0x61d, 0x20), (0x620, 0x4), (0x64b, 0x10), (0x660, 0x2), (0x66a, 0x20), (0x66e, 0x4),
    (0x670, 0x10), (0x671, 0x4), (0x6d4, 0x20), (0x6d5, 0x4), (0x6d6, 0x10), (0x6dd, 0x80), (0x6de, 0x40),
    (0x6df, 0x10), (0x6e5, 0x4), (0x6e7, 0x10), (0x6e9, 0x40), (0x6ea, 0x10), (0x6ee, 0x4), (0x6f0, 0x2),
    (0x6fa, 0x4), (0x6fd, 0x40), (0x6ff, 0x4), (0x700, 0x20), (0x70e, 1), (0x70f, 0x80), (0x710, 0x4),
    (0x711, 0x10), (0x712, 0x4), (0x730, 0x10), (0x74b, 1), (0x74d, 0x4), (0x7a6, 0x10), (0x7b1, 0x4),
    (0x7b2, 1), (0x7c0, 0x2)]"

definition unicode_ranges_flags_2 :: "(int \<times> int) list" where
  "unicode_ranges_flags_2 = [
    (0x7ca, 0x4), (0x7eb, 0x10), (0x7f4, 0x4), (0x7f6, 0x40), (0x7f7, 0x20), (0x7fa, 0x4), (0x7fb, 1),
    (0x7fd, 0x10), (0x7fe, 0x40), (0x800, 0x4), (0x816, 0x10), (0x81a, 0x4), (0x81b, 0x10), (0x824, 0x4),
    (0x825, 0x10), (0x828, 0x4), (0x829, 0x10), (0x82e, 1), (0x830, 0x20), (0x83f, 1), (0x840, 0x4),
    (0x859, 0x10), (0x85c, 1), (0x85e, 0x20), (0x85f, 1), (0x860, 0x4), (0x86b, 1), (0x870, 0x4),
    (0x888, 0x40), (0x889, 0x4), (0x88f, 1), (0x890, 0x80), (0x892, 1), (0x898, 0x10), (0x8a0, 0x4),
    (0x8ca, 0x10), (0x8e2, 0x80), (0x8e3, 0x10), (0x904, 0x4), (0x93a, 0x10), (0x93d, 0x4), (0x93e, 0x10),
    (0x950, 0x4), (0x951, 0x10), (0x958, 0x4), (0x962, 0x10), (0x964, 0x20), (0x966, 0x2), (0x970, 0x20),
    (0x971, 0x4), (0x981, 0x10), (0x984, 1), (0x985, 0x4), (0x98d, 1), (0x98f, 0x4), (0x991, 1), (0x993, 0x4),
    (0x9a9, 1), (0x9aa, 0x4), (0x9b1, 1), (0x9b2, 0x4), (0x9b3, 1), (0x9b6, 0x4), (0x9ba, 1), (0x9bc, 0x10),
    (0x9bd, 0x4), (0x9be, 0x10), (0x9c5, 1), (0x9c7, 0x10), (0x9c9, 1), (0x9cb, 0x10), (0x9ce, 0x4),
    (0x9cf, 1), (0x9d7, 0x10), (0x9d8, 1), (0x9dc, 0x4), (0x9de, 1), (0x9df, 0x4), (0x9e2, 0x10), (0x9e4, 1),
    (0x9e6, 0x2), (0x9f0, 0x4), (0x9f2, 0x40), (0x9f4, 0x2), (0x9fa, 0x40), (0x9fc, 0x4), (0x9fd, 0x20),
    (0x9fe, 0x10), (0x9ff, 1), (0xa01, 0x10), (0xa04, 1), (0xa05, 0x4), (0xa0b, 1), (0xa0f, 0x4), (0xa11, 1),
    (0xa13, 0x4), (0xa29, 1), (0xa2a, 0x4), (0xa31, 1), (0xa32, 0x4), (0xa34, 1), (0xa35, 0x4), (0xa37, 1),
    (0xa38, 0x4), (0xa3a, 1), (0xa3c, 0x10), (0xa3d, 1), (0xa3e, 0x10), (0xa43, 1), (0xa47, 0x10), (0xa49, 1),
    (0xa4b, 0x10), (0xa4e, 1), (0xa51, 0x10), (0xa52, 1), (0xa59, 0x4), (0xa5d, 1), (0xa5e, 0x4), (0xa5f, 1),
    (0xa66, 0x2), (0xa70, 0x10), (0xa72, 0x4), (0xa75, 0x10), (0xa76, 0x20), (0xa77, 1), (0xa81, 0x10),
    (0xa84, 1), (0xa85, 0x4), (0xa8e, 1), (0xa8f, 0x4), (0xa92, 1), (0xa93, 0x4), (0xaa9, 1), (0xaaa, 0x4),
    (0xab1, 1), (0xab2, 0x4), (0xab4, 1), (0xab5, 0x4), (0xaba, 1), (0xabc, 0x10), (0xabd, 0x4),
    (0xabe, 0x10), (0xac6, 1), (0xac7, 0x10), (0xaca, 1), (0xacb, 0x10), (0xace, 1), (0xad0, 0x4), (0xad1, 1),
    (0xae0, 0x4)]"

definition unicode_ranges_flags_3 :: "(int \<times> int) list" where
  "unicode_ranges_flags_3 = [
    (0xae2, 0x10), (0xae4, 1), (0xae6, 0x2), (0xaf0, 0x20), (0xaf1, 0x40), (0xaf2, 1), (0xaf9, 0x4),
    (0xafa, 0x10), (0xb00, 1), (0xb01, 0x10), (0xb04, 1), (0xb05, 0x4), (0xb0d, 1), (0xb0f, 0x4), (0xb11, 1),
    (0xb13, 0x4), (0xb29, 1), (0xb2a, 0x4), (0xb31, 1), (0xb32, 0x4), (0xb34, 1), (0xb35, 0x4), (0xb3a, 1),
    (0xb3c, 0x10), (0xb3d, 0x4), (0xb3e, 0x10), (0xb45, 1), (0xb47, 0x10), (0xb49, 1), (0xb4b, 0x10),
    (0xb4e, 1), (0xb55, 0x10), (0xb58, 1), (0xb5c, 0x4), (0xb5e, 1), (0xb5f, 0x4), (0xb62, 0x10), (0xb64, 1),
    (0xb66, 0x2), (0xb70, 0x40), (0xb71, 0x4), (0xb72, 0x2), (0xb78, 1), (0xb82, 0x10), (0xb83, 0x4),
    (0xb84, 1), (0xb85, 0x4), (0xb8b, 1), (0xb8e, 0x4), (0xb91, 1), (0xb92, 0x4), (0xb96, 1), (0xb99, 0x4),
    (0xb9b, 1), (0xb9c, 0x4), (0xb9d, 1), (0xb9e, 0x4), (0xba0, 1), (0xba3, 0x4), (0xba5, 1), (0xba8, 0x4),
    (0xbab, 1), (0xbae, 0x4), (0xbba, 1), (0xbbe, 0x10), (0xbc3, 1), (0xbc6, 0x10), (0xbc9, 1), (0xbca, 0x10),
    (0xbce, 1), (0xbd0, 0x4), (0xbd1, 1), (0xbd7, 0x10), (0xbd8, 1), (0xbe6, 0x2), (0xbf3, 0x40), (0xbfb, 1),
    (0xc00, 0x10), (0xc05, 0x4), (0xc0d, 1), (0xc0e, 0x4), (0xc11, 1), (0xc12, 0x4), (0xc29, 1), (0xc2a, 0x4),
    (0xc3a, 1), (0xc3c, 0x10), (0xc3d, 0x4), (0xc3e, 0x10), (0xc45, 1), (0xc46, 0x10), (0xc49, 1),
    (0xc4a, 0x10), (0xc4e, 1), (0xc55, 0x10), (0xc57, 1), (0xc58, 0x4), (0xc5b, 1), (0xc5d, 0x4), (0xc5e, 1),
    (0xc60, 0x4), (0xc62, 0x10), (0xc64, 1), (0xc66, 0x2), (0xc70, 1), (0xc77, 0x20), (0xc78, 0x2),
    (0xc7f, 0x40), (0xc80, 0x4), (0xc81, 0x10), (0xc84, 0x20), (0xc85, 0x4), (0xc8d, 1), (0xc8e, 0x4),
    (0xc91, 1), (0xc92, 0x4), (0xca9, 1), (0xcaa, 0x4), (0xcb4, 1), (0xcb5, 0x4), (0xcba, 1), (0xcbc, 0x10),
    (0xcbd, 0x4), (0xcbe, 0x10), (0xcc5, 1), (0xcc6, 0x10), (0xcc9, 1), (0xcca, 0x10), (0xcce, 1),
    (0xcd5, 0x10), (0xcd7, 1), (0xcdd, 0x4), (0xcdf, 1), (0xce0, 0x4), (0xce2, 0x10), (0xce4, 1),
    (0xce6, 0x2), (0xcf0, 1), (0xcf1, 0x4), (0xcf3, 0x10), (0xcf4, 1), (0xd00, 0x10), (0xd04, 0x4),
    (0xd0d, 1), (0xd0e, 0x4), (0xd11, 1), (0xd12, 0x4), (0xd3b, 0x10), (0xd3d, 0x4), (0xd3e, 0x10)]"

definition unicode_ranges_flags_4 :: "(int \<times> int) list" where
  "unicode_ranges_flags_4 = [
    (0xd45, 1), (0xd46, 0x10), (0xd49, 1), (0xd4a, 0x10), (0xd4e, 0x4), (0xd4f, 0x40), (0xd50, 1),
    (0xd54, 0x4), (0xd57, 0x10), (0xd58, 0x2), (0xd5f, 0x4), (0xd62, 0x10), (0xd64, 1), (0xd66, 0x2),
    (0xd79, 0x40), (0xd7a, 0x4), (0xd80, 1), (0xd81, 0x10), (0xd84, 1), (0xd85, 0x4), (0xd97, 1),
    (0xd9a, 0x4), (0xdb2, 1), (0xdb3, 0x4), (0xdbc, 1), (0xdbd, 0x4), (0xdbe, 1), (0xdc0, 0x4), (0xdc7, 1),
    (0xdca, 0x10), (0xdcb, 1), (0xdcf, 0x10), (0xdd5, 1), (0xdd6, 0x10), (0xdd7, 1), (0xdd8, 0x10),
    (0xde0, 1), (0xde6, 0x2), (0xdf0, 1), (0xdf2, 0x10), (0xdf4, 0x20), (0xdf5, 1), (0xe01, 0x4),
    (0xe31, 0x10), (0xe32, 0x4), (0xe34, 0x10), (0xe3b, 1), (0xe3f, 0x40), (0xe40, 0x4), (0xe47, 0x10),
    (0xe4f, 0x20), (0xe50, 0x2), (0xe5a, 0x20), (0xe5c, 1), (0xe81, 0x4), (0xe83, 1), (0xe84, 0x4),
    (0xe85, 1), (0xe86, 0x4), (0xe8b, 1), (0xe8c, 0x4), (0xea4, 1), (0xea5, 0x4), (0xea6, 1), (0xea7, 0x4),
    (0xeb1, 0x10), (0xeb2, 0x4), (0xeb4, 0x10), (0xebd, 0x4), (0xebe, 1), (0xec0, 0x4), (0xec5, 1),
    (0xec6, 0x4), (0xec7, 1), (0xec8, 0x10), (0xecf, 1), (0xed0, 0x2), (0xeda, 1), (0xedc, 0x4), (0xee0, 1),
    (0xf00, 0x4), (0xf01, 0x40), (0xf04, 0x20), (0xf13, 0x40), (0xf14, 0x20), (0xf15, 0x40), (0xf18, 0x10),
    (0xf1a, 0x40), (0xf20, 0x2), (0xf34, 0x40), (0xf35, 0x10), (0xf36, 0x40), (0xf37, 0x10), (0xf38, 0x40),
    (0xf39, 0x10), (0xf3a, 0x20), (0xf3e, 0x10), (0xf40, 0x4), (0xf48, 1), (0xf49, 0x4), (0xf6d, 1),
    (0xf71, 0x10), (0xf85, 0x20), (0xf86, 0x10), (0xf88, 0x4), (0xf8d, 0x10), (0xf98, 1), (0xf99, 0x10),
    (0xfbd, 1), (0xfbe, 0x40), (0xfc6, 0x10), (0xfc7, 0x40), (0xfcd, 1), (0xfce, 0x40), (0xfd0, 0x20),
    (0xfd5, 0x40), (0xfd9, 0x20), (0xfdb, 1), (0x1000, 0x4), (0x102b, 0x10), (0x103f, 0x4), (0x1040, 0x2),
    (0x104a, 0x20), (0x1050, 0x4), (0x1056, 0x10), (0x105a, 0x4), (0x105e, 0x10), (0x1061, 0x4),
    (0x1062, 0x10), (0x1065, 0x4), (0x1067, 0x10), (0x106e, 0x4), (0x1071, 0x10), (0x1075, 0x4),
    (0x1082, 0x10), (0x108e, 0x4), (0x108f, 0x10), (0x1090, 0x2), (0x109a, 0x10), (0x109e, 0x40),
    (0x10a0, 0x4), (0x10c6, 1), (0x10c7, 0x4), (0x10c8, 1), (0x10cd, 0x4), (0x10ce, 1), (0x10d0, 0x4),
    (0x10fb, 0x20), (0x10fc, 0x4), (0x1249, 1)]"

definition unicode_ranges_flags_5 :: "(int \<times> int) list" where
  "unicode_ranges_flags_5 = [
    (0x124a, 0x4), (0x124e, 1), (0x1250, 0x4), (0x1257, 1), (0x1258, 0x4), (0x1259, 1), (0x125a, 0x4),
    (0x125e, 1), (0x1260, 0x4), (0x1289, 1), (0x128a, 0x4), (0x128e, 1), (0x1290, 0x4), (0x12b1, 1),
    (0x12b2, 0x4), (0x12b6, 1), (0x12b8, 0x4), (0x12bf, 1), (0x12c0, 0x4), (0x12c1, 1), (0x12c2, 0x4),
    (0x12c6, 1), (0x12c8, 0x4), (0x12d7, 1), (0x12d8, 0x4), (0x1311, 1), (0x1312, 0x4), (0x1316, 1),
    (0x1318, 0x4), (0x135b, 1), (0x135d, 0x10), (0x1360, 0x20), (0x1369, 0x2), (0x137d, 1), (0x1380, 0x4),
    (0x1390, 0x40), (0x139a, 1), (0x13a0, 0x4), (0x13f6, 1), (0x13f8, 0x4), (0x13fe, 1), (0x1400, 0x20),
    (0x1401, 0x4), (0x166d, 0x40), (0x166e, 0x20), (0x166f, 0x4), (0x1680, 0x8), (0x1681, 0x4),
    (0x169b, 0x20), (0x169d, 1), (0x16a0, 0x4), (0x16eb, 0x20), (0x16ee, 0x2), (0x16f1, 0x4), (0x16f9, 1),
    (0x1700, 0x4), (0x1712, 0x10), (0x1716, 1), (0x171f, 0x4), (0x1732, 0x10), (0x1735, 0x20), (0x1737, 1),
    (0x1740, 0x4), (0x1752, 0x10), (0x1754, 1), (0x1760, 0x4), (0x176d, 1), (0x176e, 0x4), (0x1771, 1),
    (0x1772, 0x10), (0x1774, 1), (0x1780, 0x4), (0x17b4, 0x10), (0x17d4, 0x20), (0x17d7, 0x4), (0x17d8, 0x20),
    (0x17db, 0x40), (0x17dc, 0x4), (0x17dd, 0x10), (0x17de, 1), (0x17e0, 0x2), (0x17ea, 1), (0x17f0, 0x2),
    (0x17fa, 1), (0x1800, 0x20), (0x180b, 0x10), (0x180e, 0x80), (0x180f, 0x10), (0x1810, 0x2), (0x181a, 1),
    (0x1820, 0x4), (0x1879, 1), (0x1880, 0x4), (0x1885, 0x10), (0x1887, 0x4), (0x18a9, 0x10), (0x18aa, 0x4),
    (0x18ab, 1), (0x18b0, 0x4), (0x18f6, 1), (0x1900, 0x4), (0x191f, 1), (0x1920, 0x10), (0x192c, 1),
    (0x1930, 0x10), (0x193c, 1), (0x1940, 0x40), (0x1941, 1), (0x1944, 0x20), (0x1946, 0x2), (0x1950, 0x4),
    (0x196e, 1), (0x1970, 0x4), (0x1975, 1), (0x1980, 0x4), (0x19ac, 1), (0x19b0, 0x4), (0x19ca, 1),
    (0x19d0, 0x2), (0x19db, 1), (0x19de, 0x40), (0x1a00, 0x4), (0x1a17, 0x10), (0x1a1c, 1), (0x1a1e, 0x20),
    (0x1a20, 0x4), (0x1a55, 0x10), (0x1a5f, 1), (0x1a60, 0x10), (0x1a7d, 1), (0x1a7f, 0x10), (0x1a80, 0x2),
    (0x1a8a, 1), (0x1a90, 0x2), (0x1a9a, 1), (0x1aa0, 0x20), (0x1aa7, 0x4), (0x1aa8, 0x20), (0x1aae, 1),
    (0x1ab0, 0x10), (0x1acf, 1), (0x1b00, 0x10), (0x1b05, 0x4), (0x1b34, 0x10), (0x1b45, 0x4), (0x1b4d, 1),
    (0x1b50, 0x2), (0x1b5a, 0x20), (0x1b61, 0x40), (0x1b6b, 0x10)]"

definition unicode_ranges_flags_6 :: "(int \<times> int) list" where
  "unicode_ranges_flags_6 = [
    (0x1b74, 0x40), (0x1b7d, 0x20), (0x1b7f, 1), (0x1b80, 0x10), (0x1b83, 0x4), (0x1ba1, 0x10), (0x1bae, 0x4),
    (0x1bb0, 0x2), (0x1bba, 0x4), (0x1be6, 0x10), (0x1bf4, 1), (0x1bfc, 0x20), (0x1c00, 0x4), (0x1c24, 0x10),
    (0x1c38, 1), (0x1c3b, 0x20), (0x1c40, 0x2), (0x1c4a, 1), (0x1c4d, 0x4), (0x1c50, 0x2), (0x1c5a, 0x4),
    (0x1c7e, 0x20), (0x1c80, 0x4), (0x1c89, 1), (0x1c90, 0x4), (0x1cbb, 1), (0x1cbd, 0x4), (0x1cc0, 0x20),
    (0x1cc8, 1), (0x1cd0, 0x10), (0x1cd3, 0x20), (0x1cd4, 0x10), (0x1ce9, 0x4), (0x1ced, 0x10), (0x1cee, 0x4),
    (0x1cf4, 0x10), (0x1cf5, 0x4), (0x1cf7, 0x10), (0x1cfa, 0x4), (0x1cfb, 1), (0x1d00, 0x4), (0x1dc0, 0x10),
    (0x1e00, 0x4), (0x1f16, 1), (0x1f18, 0x4), (0x1f1e, 1), (0x1f20, 0x4), (0x1f46, 1), (0x1f48, 0x4),
    (0x1f4e, 1), (0x1f50, 0x4), (0x1f58, 1), (0x1f59, 0x4), (0x1f5a, 1), (0x1f5b, 0x4), (0x1f5c, 1),
    (0x1f5d, 0x4), (0x1f5e, 1), (0x1f5f, 0x4), (0x1f7e, 1), (0x1f80, 0x4), (0x1fb5, 1), (0x1fb6, 0x4),
    (0x1fbd, 0x40), (0x1fbe, 0x4), (0x1fbf, 0x40), (0x1fc2, 0x4), (0x1fc5, 1), (0x1fc6, 0x4), (0x1fcd, 0x40),
    (0x1fd0, 0x4), (0x1fd4, 1), (0x1fd6, 0x4), (0x1fdc, 1), (0x1fdd, 0x40), (0x1fe0, 0x4), (0x1fed, 0x40),
    (0x1ff0, 1), (0x1ff2, 0x4), (0x1ff5, 1), (0x1ff6, 0x4), (0x1ffd, 0x40), (0x1fff, 1), (0x2000, 0x8),
    (0x200b, 0x80), (0x2010, 0x20), (0x2028, 0x8), (0x202a, 0x80), (0x202f, 0x8), (0x2030, 0x20),
    (0x2044, 0x40), (0x2045, 0x20), (0x2052, 0x40), (0x2053, 0x20), (0x205f, 0x8), (0x2060, 0x80),
    (0x2065, 1), (0x2066, 0x80), (0x2070, 0x2), (0x2071, 0x4), (0x2072, 1), (0x2074, 0x2), (0x207a, 0x40),
    (0x207d, 0x20), (0x207f, 0x4), (0x2080, 0x2), (0x208a, 0x40), (0x208d, 0x20), (0x208f, 1), (0x2090, 0x4),
    (0x209d, 1), (0x20a0, 0x40), (0x20c1, 1), (0x20d0, 0x10), (0x20f1, 1), (0x2100, 0x40), (0x2102, 0x4),
    (0x2103, 0x40), (0x2107, 0x4), (0x2108, 0x40), (0x210a, 0x4), (0x2114, 0x40), (0x2115, 0x4),
    (0x2116, 0x40), (0x2119, 0x4), (0x211e, 0x40), (0x2124, 0x4), (0x2125, 0x40), (0x2126, 0x4),
    (0x2127, 0x40), (0x2128, 0x4), (0x2129, 0x40), (0x212a, 0x4), (0x212e, 0x40), (0x212f, 0x4),
    (0x213a, 0x40), (0x213c, 0x4), (0x2140, 0x40), (0x2145, 0x4), (0x214a, 0x40), (0x214e, 0x4),
    (0x214f, 0x40), (0x2150, 0x2), (0x2183, 0x4), (0x2185, 0x2), (0x218a, 0x40), (0x218c, 1), (0x2190, 0x40),
    (0x2308, 0x20), (0x230c, 0x40)]"

definition unicode_ranges_flags_7 :: "(int \<times> int) list" where
  "unicode_ranges_flags_7 = [
    (0x2329, 0x20), (0x232b, 0x40), (0x2427, 1), (0x2440, 0x40), (0x244b, 1), (0x2460, 0x2), (0x249c, 0x40),
    (0x24ea, 0x2), (0x2500, 0x40), (0x2768, 0x20), (0x2776, 0x2), (0x2794, 0x40), (0x27c5, 0x20),
    (0x27c7, 0x40), (0x27e6, 0x20), (0x27f0, 0x40), (0x2983, 0x20), (0x2999, 0x40), (0x29d8, 0x20),
    (0x29dc, 0x40), (0x29fc, 0x20), (0x29fe, 0x40), (0x2b74, 1), (0x2b76, 0x40), (0x2b96, 1), (0x2b97, 0x40),
    (0x2c00, 0x4), (0x2ce5, 0x40), (0x2ceb, 0x4), (0x2cef, 0x10), (0x2cf2, 0x4), (0x2cf4, 1), (0x2cf9, 0x20),
    (0x2cfd, 0x2), (0x2cfe, 0x20), (0x2d00, 0x4), (0x2d26, 1), (0x2d27, 0x4), (0x2d28, 1), (0x2d2d, 0x4),
    (0x2d2e, 1), (0x2d30, 0x4), (0x2d68, 1), (0x2d6f, 0x4), (0x2d70, 0x20), (0x2d71, 1), (0x2d7f, 0x10),
    (0x2d80, 0x4), (0x2d97, 1), (0x2da0, 0x4), (0x2da7, 1), (0x2da8, 0x4), (0x2daf, 1), (0x2db0, 0x4),
    (0x2db7, 1), (0x2db8, 0x4), (0x2dbf, 1), (0x2dc0, 0x4), (0x2dc7, 1), (0x2dc8, 0x4), (0x2dcf, 1),
    (0x2dd0, 0x4), (0x2dd7, 1), (0x2dd8, 0x4), (0x2ddf, 1), (0x2de0, 0x10), (0x2e00, 0x20), (0x2e2f, 0x4),
    (0x2e30, 0x20), (0x2e50, 0x40), (0x2e52, 0x20), (0x2e5e, 1), (0x2e80, 0x40), (0x2e9a, 1), (0x2e9b, 0x40),
    (0x2ef4, 1), (0x2f00, 0x40), (0x2fd6, 1), (0x2ff0, 0x40), (0x3000, 0x8), (0x3001, 0x20), (0x3004, 0x40),
    (0x3005, 0x4), (0x3007, 0x2), (0x3008, 0x20), (0x3012, 0x40), (0x3014, 0x20), (0x3020, 0x40),
    (0x3021, 0x2), (0x302a, 0x10), (0x3030, 0x20), (0x3031, 0x4), (0x3036, 0x40), (0x3038, 0x2),
    (0x303b, 0x4), (0x303d, 0x20), (0x303e, 0x40), (0x3040, 1), (0x3041, 0x4), (0x3097, 1), (0x3099, 0x10),
    (0x309b, 0x40), (0x309d, 0x4), (0x30a0, 0x20), (0x30a1, 0x4), (0x30fb, 0x20), (0x30fc, 0x4), (0x3100, 1),
    (0x3105, 0x4), (0x3130, 1), (0x3131, 0x4), (0x318f, 1), (0x3190, 0x40), (0x3192, 0x2), (0x3196, 0x40),
    (0x31a0, 0x4), (0x31c0, 0x40), (0x31e4, 1), (0x31ef, 0x40), (0x31f0, 0x4), (0x3200, 0x40), (0x321f, 1),
    (0x3220, 0x2), (0x322a, 0x40), (0x3248, 0x2), (0x3250, 0x40), (0x3251, 0x2), (0x3260, 0x40),
    (0x3280, 0x2), (0x328a, 0x40), (0x32b1, 0x2), (0x32c0, 0x40), (0x3400, 0x4), (0x4dc0, 0x40),
    (0x4e00, 0x4), (0xa48d, 1), (0xa490, 0x40), (0xa4c7, 1), (0xa4d0, 0x4), (0xa4fe, 0x20), (0xa500, 0x4),
    (0xa60d, 0x20), (0xa610, 0x4), (0xa620, 0x2), (0xa62a, 0x4), (0xa62c, 1), (0xa640, 0x4), (0xa66f, 0x10),
    (0xa673, 0x20), (0xa674, 0x10)]"

definition unicode_ranges_flags_8 :: "(int \<times> int) list" where
  "unicode_ranges_flags_8 = [
    (0xa67e, 0x20), (0xa67f, 0x4), (0xa69e, 0x10), (0xa6a0, 0x4), (0xa6e6, 0x2), (0xa6f0, 0x10),
    (0xa6f2, 0x20), (0xa6f8, 1), (0xa700, 0x40), (0xa717, 0x4), (0xa720, 0x40), (0xa722, 0x4), (0xa789, 0x40),
    (0xa78b, 0x4), (0xa7cb, 1), (0xa7d0, 0x4), (0xa7d2, 1), (0xa7d3, 0x4), (0xa7d4, 1), (0xa7d5, 0x4),
    (0xa7da, 1), (0xa7f2, 0x4), (0xa802, 0x10), (0xa803, 0x4), (0xa806, 0x10), (0xa807, 0x4), (0xa80b, 0x10),
    (0xa80c, 0x4), (0xa823, 0x10), (0xa828, 0x40), (0xa82c, 0x10), (0xa82d, 1), (0xa830, 0x2), (0xa836, 0x40),
    (0xa83a, 1), (0xa840, 0x4), (0xa874, 0x20), (0xa878, 1), (0xa880, 0x10), (0xa882, 0x4), (0xa8b4, 0x10),
    (0xa8c6, 1), (0xa8ce, 0x20), (0xa8d0, 0x2), (0xa8da, 1), (0xa8e0, 0x10), (0xa8f2, 0x4), (0xa8f8, 0x20),
    (0xa8fb, 0x4), (0xa8fc, 0x20), (0xa8fd, 0x4), (0xa8ff, 0x10), (0xa900, 0x2), (0xa90a, 0x4),
    (0xa926, 0x10), (0xa92e, 0x20), (0xa930, 0x4), (0xa947, 0x10), (0xa954, 1), (0xa95f, 0x20), (0xa960, 0x4),
    (0xa97d, 1), (0xa980, 0x10), (0xa984, 0x4), (0xa9b3, 0x10), (0xa9c1, 0x20), (0xa9ce, 1), (0xa9cf, 0x4),
    (0xa9d0, 0x2), (0xa9da, 1), (0xa9de, 0x20), (0xa9e0, 0x4), (0xa9e5, 0x10), (0xa9e6, 0x4), (0xa9f0, 0x2),
    (0xa9fa, 0x4), (0xa9ff, 1), (0xaa00, 0x4), (0xaa29, 0x10), (0xaa37, 1), (0xaa40, 0x4), (0xaa43, 0x10),
    (0xaa44, 0x4), (0xaa4c, 0x10), (0xaa4e, 1), (0xaa50, 0x2), (0xaa5a, 1), (0xaa5c, 0x20), (0xaa60, 0x4),
    (0xaa77, 0x40), (0xaa7a, 0x4), (0xaa7b, 0x10), (0xaa7e, 0x4), (0xaab0, 0x10), (0xaab1, 0x4),
    (0xaab2, 0x10), (0xaab5, 0x4), (0xaab7, 0x10), (0xaab9, 0x4), (0xaabe, 0x10), (0xaac0, 0x4),
    (0xaac1, 0x10), (0xaac2, 0x4), (0xaac3, 1), (0xaadb, 0x4), (0xaade, 0x20), (0xaae0, 0x4), (0xaaeb, 0x10),
    (0xaaf0, 0x20), (0xaaf2, 0x4), (0xaaf5, 0x10), (0xaaf7, 1), (0xab01, 0x4), (0xab07, 1), (0xab09, 0x4),
    (0xab0f, 1), (0xab11, 0x4), (0xab17, 1), (0xab20, 0x4), (0xab27, 1), (0xab28, 0x4), (0xab2f, 1),
    (0xab30, 0x4), (0xab5b, 0x40), (0xab5c, 0x4), (0xab6a, 0x40), (0xab6c, 1), (0xab70, 0x4), (0xabe3, 0x10),
    (0xabeb, 0x20), (0xabec, 0x10), (0xabee, 1), (0xabf0, 0x2), (0xabfa, 1), (0xac00, 0x4), (0xd7a4, 1),
    (0xd7b0, 0x4), (0xd7c7, 1), (0xd7cb, 0x4), (0xd7fc, 1), (0xd800, 0x80), (0xf900, 0x4), (0xfa6e, 1),
    (0xfa70, 0x4), (0xfada, 1), (0xfb00, 0x4), (0xfb07, 1), (0xfb13, 0x4), (0xfb18, 1), (0xfb1d, 0x4)]"

definition unicode_ranges_flags_9 :: "(int \<times> int) list" where
  "unicode_ranges_flags_9 = [
    (0xfb1e, 0x10), (0xfb1f, 0x4), (0xfb29, 0x40), (0xfb2a, 0x4), (0xfb37, 1), (0xfb38, 0x4), (0xfb3d, 1),
    (0xfb3e, 0x4), (0xfb3f, 1), (0xfb40, 0x4), (0xfb42, 1), (0xfb43, 0x4), (0xfb45, 1), (0xfb46, 0x4),
    (0xfbb2, 0x40), (0xfbc3, 1), (0xfbd3, 0x4), (0xfd3e, 0x20), (0xfd40, 0x40), (0xfd50, 0x4), (0xfd90, 1),
    (0xfd92, 0x4), (0xfdc8, 1), (0xfdcf, 0x40), (0xfdd0, 1), (0xfdf0, 0x4), (0xfdfc, 0x40), (0xfe00, 0x10),
    (0xfe10, 0x20), (0xfe1a, 1), (0xfe20, 0x10), (0xfe30, 0x20), (0xfe53, 1), (0xfe54, 0x20), (0xfe62, 0x40),
    (0xfe63, 0x20), (0xfe64, 0x40), (0xfe67, 1), (0xfe68, 0x20), (0xfe69, 0x40), (0xfe6a, 0x20), (0xfe6c, 1),
    (0xfe70, 0x4), (0xfe75, 1), (0xfe76, 0x4), (0xfefd, 1), (0xfeff, 0x80), (0xff00, 1), (0xff01, 0x20),
    (0xff04, 0x40), (0xff05, 0x20), (0xff0b, 0x40), (0xff0c, 0x20), (0xff10, 0x2), (0xff1a, 0x20),
    (0xff1c, 0x40), (0xff1f, 0x20), (0xff21, 0x4), (0xff3b, 0x20), (0xff3e, 0x40), (0xff3f, 0x20),
    (0xff40, 0x40), (0xff41, 0x4), (0xff5b, 0x20), (0xff5c, 0x40), (0xff5d, 0x20), (0xff5e, 0x40),
    (0xff5f, 0x20), (0xff66, 0x4), (0xffbf, 1), (0xffc2, 0x4), (0xffc8, 1), (0xffca, 0x4), (0xffd0, 1),
    (0xffd2, 0x4), (0xffd8, 1), (0xffda, 0x4), (0xffdd, 1), (0xffe0, 0x40), (0xffe7, 1), (0xffe8, 0x40),
    (0xffef, 1), (0xfff9, 0x80), (0xfffc, 0x40), (0xfffe, 1), (0x10000, 0x4), (0x1000c, 1), (0x1000d, 0x4),
    (0x10027, 1), (0x10028, 0x4), (0x1003b, 1), (0x1003c, 0x4), (0x1003e, 1), (0x1003f, 0x4), (0x1004e, 1),
    (0x10050, 0x4), (0x1005e, 1), (0x10080, 0x4), (0x100fb, 1), (0x10100, 0x20), (0x10103, 1), (0x10107, 0x2),
    (0x10134, 1), (0x10137, 0x40), (0x10140, 0x2), (0x10179, 0x40), (0x1018a, 0x2), (0x1018c, 0x40),
    (0x1018f, 1), (0x10190, 0x40), (0x1019d, 1), (0x101a0, 0x40), (0x101a1, 1), (0x101d0, 0x40),
    (0x101fd, 0x10), (0x101fe, 1), (0x10280, 0x4), (0x1029d, 1), (0x102a0, 0x4), (0x102d1, 1),
    (0x102e0, 0x10), (0x102e1, 0x2), (0x102fc, 1), (0x10300, 0x4), (0x10320, 0x2), (0x10324, 1),
    (0x1032d, 0x4), (0x10341, 0x2), (0x10342, 0x4), (0x1034a, 0x2), (0x1034b, 1), (0x10350, 0x4),
    (0x10376, 0x10), (0x1037b, 1), (0x10380, 0x4), (0x1039e, 1), (0x1039f, 0x20), (0x103a0, 0x4),
    (0x103c4, 1), (0x103c8, 0x4), (0x103d0, 0x20), (0x103d1, 0x2), (0x103d6, 1), (0x10400, 0x4), (0x1049e, 1),
    (0x104a0, 0x2), (0x104aa, 1), (0x104b0, 0x4), (0x104d4, 1), (0x104d8, 0x4)]"

definition unicode_ranges_flags_10 :: "(int \<times> int) list" where
  "unicode_ranges_flags_10 = [
    (0x104fc, 1), (0x10500, 0x4), (0x10528, 1), (0x10530, 0x4), (0x10564, 1), (0x1056f, 0x20), (0x10570, 0x4),
    (0x1057b, 1), (0x1057c, 0x4), (0x1058b, 1), (0x1058c, 0x4), (0x10593, 1), (0x10594, 0x4), (0x10596, 1),
    (0x10597, 0x4), (0x105a2, 1), (0x105a3, 0x4), (0x105b2, 1), (0x105b3, 0x4), (0x105ba, 1), (0x105bb, 0x4),
    (0x105bd, 1), (0x10600, 0x4), (0x10737, 1), (0x10740, 0x4), (0x10756, 1), (0x10760, 0x4), (0x10768, 1),
    (0x10780, 0x4), (0x10786, 1), (0x10787, 0x4), (0x107b1, 1), (0x107b2, 0x4), (0x107bb, 1), (0x10800, 0x4),
    (0x10806, 1), (0x10808, 0x4), (0x10809, 1), (0x1080a, 0x4), (0x10836, 1), (0x10837, 0x4), (0x10839, 1),
    (0x1083c, 0x4), (0x1083d, 1), (0x1083f, 0x4), (0x10856, 1), (0x10857, 0x20), (0x10858, 0x2),
    (0x10860, 0x4), (0x10877, 0x40), (0x10879, 0x2), (0x10880, 0x4), (0x1089f, 1), (0x108a7, 0x2),
    (0x108b0, 1), (0x108e0, 0x4), (0x108f3, 1), (0x108f4, 0x4), (0x108f6, 1), (0x108fb, 0x2), (0x10900, 0x4),
    (0x10916, 0x2), (0x1091c, 1), (0x1091f, 0x20), (0x10920, 0x4), (0x1093a, 1), (0x1093f, 0x20),
    (0x10940, 1), (0x10980, 0x4), (0x109b8, 1), (0x109bc, 0x2), (0x109be, 0x4), (0x109c0, 0x2), (0x109d0, 1),
    (0x109d2, 0x2), (0x10a00, 0x4), (0x10a01, 0x10), (0x10a04, 1), (0x10a05, 0x10), (0x10a07, 1),
    (0x10a0c, 0x10), (0x10a10, 0x4), (0x10a14, 1), (0x10a15, 0x4), (0x10a18, 1), (0x10a19, 0x4), (0x10a36, 1),
    (0x10a38, 0x10), (0x10a3b, 1), (0x10a3f, 0x10), (0x10a40, 0x2), (0x10a49, 1), (0x10a50, 0x20),
    (0x10a59, 1), (0x10a60, 0x4), (0x10a7d, 0x2), (0x10a7f, 0x20), (0x10a80, 0x4), (0x10a9d, 0x2),
    (0x10aa0, 1), (0x10ac0, 0x4), (0x10ac8, 0x40), (0x10ac9, 0x4), (0x10ae5, 0x10), (0x10ae7, 1),
    (0x10aeb, 0x2), (0x10af0, 0x20), (0x10af7, 1), (0x10b00, 0x4), (0x10b36, 1), (0x10b39, 0x20),
    (0x10b40, 0x4), (0x10b56, 1), (0x10b58, 0x2), (0x10b60, 0x4), (0x10b73, 1), (0x10b78, 0x2),
    (0x10b80, 0x4), (0x10b92, 1), (0x10b99, 0x20), (0x10b9d, 1), (0x10ba9, 0x2), (0x10bb0, 1), (0x10c00, 0x4),
    (0x10c49, 1), (0x10c80, 0x4), (0x10cb3, 1), (0x10cc0, 0x4), (0x10cf3, 1), (0x10cfa, 0x2), (0x10d00, 0x4),
    (0x10d24, 0x10), (0x10d28, 1), (0x10d30, 0x2), (0x10d3a, 1), (0x10e60, 0x2), (0x10e7f, 1), (0x10e80, 0x4),
    (0x10eaa, 1), (0x10eab, 0x10), (0x10ead, 0x20), (0x10eae, 1), (0x10eb0, 0x4), (0x10eb2, 1),
    (0x10efd, 0x10), (0x10f00, 0x4), (0x10f1d, 0x2), (0x10f27, 0x4), (0x10f28, 1), (0x10f30, 0x4)]"

definition unicode_ranges_flags_11 :: "(int \<times> int) list" where
  "unicode_ranges_flags_11 = [
    (0x10f46, 0x10), (0x10f51, 0x2), (0x10f55, 0x20), (0x10f5a, 1), (0x10f70, 0x4), (0x10f82, 0x10),
    (0x10f86, 0x20), (0x10f8a, 1), (0x10fb0, 0x4), (0x10fc5, 0x2), (0x10fcc, 1), (0x10fe0, 0x4), (0x10ff7, 1),
    (0x11000, 0x10), (0x11003, 0x4), (0x11038, 0x10), (0x11047, 0x20), (0x1104e, 1), (0x11052, 0x2),
    (0x11070, 0x10), (0x11071, 0x4), (0x11073, 0x10), (0x11075, 0x4), (0x11076, 1), (0x1107f, 0x10),
    (0x11083, 0x4), (0x110b0, 0x10), (0x110bb, 0x20), (0x110bd, 0x80), (0x110be, 0x20), (0x110c2, 0x10),
    (0x110c3, 1), (0x110cd, 0x80), (0x110ce, 1), (0x110d0, 0x4), (0x110e9, 1), (0x110f0, 0x2), (0x110fa, 1),
    (0x11100, 0x10), (0x11103, 0x4), (0x11127, 0x10), (0x11135, 1), (0x11136, 0x2), (0x11140, 0x20),
    (0x11144, 0x4), (0x11145, 0x10), (0x11147, 0x4), (0x11148, 1), (0x11150, 0x4), (0x11173, 0x10),
    (0x11174, 0x20), (0x11176, 0x4), (0x11177, 1), (0x11180, 0x10), (0x11183, 0x4), (0x111b3, 0x10),
    (0x111c1, 0x4), (0x111c5, 0x20), (0x111c9, 0x10), (0x111cd, 0x20), (0x111ce, 0x10), (0x111d0, 0x2),
    (0x111da, 0x4), (0x111db, 0x20), (0x111dc, 0x4), (0x111dd, 0x20), (0x111e0, 1), (0x111e1, 0x2),
    (0x111f5, 1), (0x11200, 0x4), (0x11212, 1), (0x11213, 0x4), (0x1122c, 0x10), (0x11238, 0x20),
    (0x1123e, 0x10), (0x1123f, 0x4), (0x11241, 0x10), (0x11242, 1), (0x11280, 0x4), (0x11287, 1),
    (0x11288, 0x4), (0x11289, 1), (0x1128a, 0x4), (0x1128e, 1), (0x1128f, 0x4), (0x1129e, 1), (0x1129f, 0x4),
    (0x112a9, 0x20), (0x112aa, 1), (0x112b0, 0x4), (0x112df, 0x10), (0x112eb, 1), (0x112f0, 0x2),
    (0x112fa, 1), (0x11300, 0x10), (0x11304, 1), (0x11305, 0x4), (0x1130d, 1), (0x1130f, 0x4), (0x11311, 1),
    (0x11313, 0x4), (0x11329, 1), (0x1132a, 0x4), (0x11331, 1), (0x11332, 0x4), (0x11334, 1), (0x11335, 0x4),
    (0x1133a, 1), (0x1133b, 0x10), (0x1133d, 0x4), (0x1133e, 0x10), (0x11345, 1), (0x11347, 0x10),
    (0x11349, 1), (0x1134b, 0x10), (0x1134e, 1), (0x11350, 0x4), (0x11351, 1), (0x11357, 0x10), (0x11358, 1),
    (0x1135d, 0x4), (0x11362, 0x10), (0x11364, 1), (0x11366, 0x10), (0x1136d, 1), (0x11370, 0x10),
    (0x11375, 1), (0x11400, 0x4), (0x11435, 0x10), (0x11447, 0x4), (0x1144b, 0x20), (0x11450, 0x2),
    (0x1145a, 0x20), (0x1145c, 1), (0x1145d, 0x20), (0x1145e, 0x10), (0x1145f, 0x4), (0x11462, 1),
    (0x11480, 0x4), (0x114b0, 0x10), (0x114c4, 0x4), (0x114c6, 0x20), (0x114c7, 0x4), (0x114c8, 1),
    (0x114d0, 0x2), (0x114da, 1), (0x11580, 0x4), (0x115af, 0x10), (0x115b6, 1), (0x115b8, 0x10)]"

definition unicode_ranges_flags_12 :: "(int \<times> int) list" where
  "unicode_ranges_flags_12 = [
    (0x115c1, 0x20), (0x115d8, 0x4), (0x115dc, 0x10), (0x115de, 1), (0x11600, 0x4), (0x11630, 0x10),
    (0x11641, 0x20), (0x11644, 0x4), (0x11645, 1), (0x11650, 0x2), (0x1165a, 1), (0x11660, 0x20),
    (0x1166d, 1), (0x11680, 0x4), (0x116ab, 0x10), (0x116b8, 0x4), (0x116b9, 0x20), (0x116ba, 1),
    (0x116c0, 0x2), (0x116ca, 1), (0x11700, 0x4), (0x1171b, 1), (0x1171d, 0x10), (0x1172c, 1), (0x11730, 0x2),
    (0x1173c, 0x20), (0x1173f, 0x40), (0x11740, 0x4), (0x11747, 1), (0x11800, 0x4), (0x1182c, 0x10),
    (0x1183b, 0x20), (0x1183c, 1), (0x118a0, 0x4), (0x118e0, 0x2), (0x118f3, 1), (0x118ff, 0x4), (0x11907, 1),
    (0x11909, 0x4), (0x1190a, 1), (0x1190c, 0x4), (0x11914, 1), (0x11915, 0x4), (0x11917, 1), (0x11918, 0x4),
    (0x11930, 0x10), (0x11936, 1), (0x11937, 0x10), (0x11939, 1), (0x1193b, 0x10), (0x1193f, 0x4),
    (0x11940, 0x10), (0x11941, 0x4), (0x11942, 0x10), (0x11944, 0x20), (0x11947, 1), (0x11950, 0x2),
    (0x1195a, 1), (0x119a0, 0x4), (0x119a8, 1), (0x119aa, 0x4), (0x119d1, 0x10), (0x119d8, 1),
    (0x119da, 0x10), (0x119e1, 0x4), (0x119e2, 0x20), (0x119e3, 0x4), (0x119e4, 0x10), (0x119e5, 1),
    (0x11a00, 0x4), (0x11a01, 0x10), (0x11a0b, 0x4), (0x11a33, 0x10), (0x11a3a, 0x4), (0x11a3b, 0x10),
    (0x11a3f, 0x20), (0x11a47, 0x10), (0x11a48, 1), (0x11a50, 0x4), (0x11a51, 0x10), (0x11a5c, 0x4),
    (0x11a8a, 0x10), (0x11a9a, 0x20), (0x11a9d, 0x4), (0x11a9e, 0x20), (0x11aa3, 1), (0x11ab0, 0x4),
    (0x11af9, 1), (0x11b00, 0x20), (0x11b0a, 1), (0x11c00, 0x4), (0x11c09, 1), (0x11c0a, 0x4),
    (0x11c2f, 0x10), (0x11c37, 1), (0x11c38, 0x10), (0x11c40, 0x4), (0x11c41, 0x20), (0x11c46, 1),
    (0x11c50, 0x2), (0x11c6d, 1), (0x11c70, 0x20), (0x11c72, 0x4), (0x11c90, 1), (0x11c92, 0x10),
    (0x11ca8, 1), (0x11ca9, 0x10), (0x11cb7, 1), (0x11d00, 0x4), (0x11d07, 1), (0x11d08, 0x4), (0x11d0a, 1),
    (0x11d0b, 0x4), (0x11d31, 0x10), (0x11d37, 1), (0x11d3a, 0x10), (0x11d3b, 1), (0x11d3c, 0x10),
    (0x11d3e, 1), (0x11d3f, 0x10), (0x11d46, 0x4), (0x11d47, 0x10), (0x11d48, 1), (0x11d50, 0x2),
    (0x11d5a, 1), (0x11d60, 0x4), (0x11d66, 1), (0x11d67, 0x4), (0x11d69, 1), (0x11d6a, 0x4), (0x11d8a, 0x10),
    (0x11d8f, 1), (0x11d90, 0x10), (0x11d92, 1), (0x11d93, 0x10), (0x11d98, 0x4), (0x11d99, 1),
    (0x11da0, 0x2), (0x11daa, 1), (0x11ee0, 0x4), (0x11ef3, 0x10), (0x11ef7, 0x20), (0x11ef9, 1),
    (0x11f00, 0x10), (0x11f02, 0x4), (0x11f03, 0x10), (0x11f04, 0x4), (0x11f11, 1), (0x11f12, 0x4),
    (0x11f34, 0x10)]"

definition unicode_ranges_flags_13 :: "(int \<times> int) list" where
  "unicode_ranges_flags_13 = [
    (0x11f3b, 1), (0x11f3e, 0x10), (0x11f43, 0x20), (0x11f50, 0x2), (0x11f5a, 1), (0x11fb0, 0x4),
    (0x11fb1, 1), (0x11fc0, 0x2), (0x11fd5, 0x40), (0x11ff2, 1), (0x11fff, 0x20), (0x12000, 0x4),
    (0x1239a, 1), (0x12400, 0x2), (0x1246f, 1), (0x12470, 0x20), (0x12475, 1), (0x12480, 0x4), (0x12544, 1),
    (0x12f90, 0x4), (0x12ff1, 0x20), (0x12ff3, 1), (0x13000, 0x4), (0x13430, 0x80), (0x13440, 0x10),
    (0x13441, 0x4), (0x13447, 0x10), (0x13456, 1), (0x14400, 0x4), (0x14647, 1), (0x16800, 0x4), (0x16a39, 1),
    (0x16a40, 0x4), (0x16a5f, 1), (0x16a60, 0x2), (0x16a6a, 1), (0x16a6e, 0x20), (0x16a70, 0x4), (0x16abf, 1),
    (0x16ac0, 0x2), (0x16aca, 1), (0x16ad0, 0x4), (0x16aee, 1), (0x16af0, 0x10), (0x16af5, 0x20),
    (0x16af6, 1), (0x16b00, 0x4), (0x16b30, 0x10), (0x16b37, 0x20), (0x16b3c, 0x40), (0x16b40, 0x4),
    (0x16b44, 0x20), (0x16b45, 0x40), (0x16b46, 1), (0x16b50, 0x2), (0x16b5a, 1), (0x16b5b, 0x2),
    (0x16b62, 1), (0x16b63, 0x4), (0x16b78, 1), (0x16b7d, 0x4), (0x16b90, 1), (0x16e40, 0x4), (0x16e80, 0x2),
    (0x16e97, 0x20), (0x16e9b, 1), (0x16f00, 0x4), (0x16f4b, 1), (0x16f4f, 0x10), (0x16f50, 0x4),
    (0x16f51, 0x10), (0x16f88, 1), (0x16f8f, 0x10), (0x16f93, 0x4), (0x16fa0, 1), (0x16fe0, 0x4),
    (0x16fe2, 0x20), (0x16fe3, 0x4), (0x16fe4, 0x10), (0x16fe5, 1), (0x16ff0, 0x10), (0x16ff2, 1),
    (0x17000, 0x4), (0x187f8, 1), (0x18800, 0x4), (0x18cd6, 1), (0x18d00, 0x4), (0x18d09, 1), (0x1aff0, 0x4),
    (0x1aff4, 1), (0x1aff5, 0x4), (0x1affc, 1), (0x1affd, 0x4), (0x1afff, 1), (0x1b000, 0x4), (0x1b123, 1),
    (0x1b132, 0x4), (0x1b133, 1), (0x1b150, 0x4), (0x1b153, 1), (0x1b155, 0x4), (0x1b156, 1), (0x1b164, 0x4),
    (0x1b168, 1), (0x1b170, 0x4), (0x1b2fc, 1), (0x1bc00, 0x4), (0x1bc6b, 1), (0x1bc70, 0x4), (0x1bc7d, 1),
    (0x1bc80, 0x4), (0x1bc89, 1), (0x1bc90, 0x4), (0x1bc9a, 1), (0x1bc9c, 0x40), (0x1bc9d, 0x10),
    (0x1bc9f, 0x20), (0x1bca0, 0x80), (0x1bca4, 1), (0x1cf00, 0x10), (0x1cf2e, 1), (0x1cf30, 0x10),
    (0x1cf47, 1), (0x1cf50, 0x40), (0x1cfc4, 1), (0x1d000, 0x40), (0x1d0f6, 1), (0x1d100, 0x40), (0x1d127, 1),
    (0x1d129, 0x40), (0x1d165, 0x10), (0x1d16a, 0x40), (0x1d16d, 0x10), (0x1d173, 0x80), (0x1d17b, 0x10),
    (0x1d183, 0x40), (0x1d185, 0x10), (0x1d18c, 0x40), (0x1d1aa, 0x10), (0x1d1ae, 0x40), (0x1d1eb, 1),
    (0x1d200, 0x40), (0x1d242, 0x10), (0x1d245, 0x40), (0x1d246, 1), (0x1d2c0, 0x2), (0x1d2d4, 1),
    (0x1d2e0, 0x2), (0x1d2f4, 1), (0x1d300, 0x40)]"

definition unicode_ranges_flags_14 :: "(int \<times> int) list" where
  "unicode_ranges_flags_14 = [
    (0x1d357, 1), (0x1d360, 0x2), (0x1d379, 1), (0x1d400, 0x4), (0x1d455, 1), (0x1d456, 0x4), (0x1d49d, 1),
    (0x1d49e, 0x4), (0x1d4a0, 1), (0x1d4a2, 0x4), (0x1d4a3, 1), (0x1d4a5, 0x4), (0x1d4a7, 1), (0x1d4a9, 0x4),
    (0x1d4ad, 1), (0x1d4ae, 0x4), (0x1d4ba, 1), (0x1d4bb, 0x4), (0x1d4bc, 1), (0x1d4bd, 0x4), (0x1d4c4, 1),
    (0x1d4c5, 0x4), (0x1d506, 1), (0x1d507, 0x4), (0x1d50b, 1), (0x1d50d, 0x4), (0x1d515, 1), (0x1d516, 0x4),
    (0x1d51d, 1), (0x1d51e, 0x4), (0x1d53a, 1), (0x1d53b, 0x4), (0x1d53f, 1), (0x1d540, 0x4), (0x1d545, 1),
    (0x1d546, 0x4), (0x1d547, 1), (0x1d54a, 0x4), (0x1d551, 1), (0x1d552, 0x4), (0x1d6a6, 1), (0x1d6a8, 0x4),
    (0x1d6c1, 0x40), (0x1d6c2, 0x4), (0x1d6db, 0x40), (0x1d6dc, 0x4), (0x1d6fb, 0x40), (0x1d6fc, 0x4),
    (0x1d715, 0x40), (0x1d716, 0x4), (0x1d735, 0x40), (0x1d736, 0x4), (0x1d74f, 0x40), (0x1d750, 0x4),
    (0x1d76f, 0x40), (0x1d770, 0x4), (0x1d789, 0x40), (0x1d78a, 0x4), (0x1d7a9, 0x40), (0x1d7aa, 0x4),
    (0x1d7c3, 0x40), (0x1d7c4, 0x4), (0x1d7cc, 1), (0x1d7ce, 0x2), (0x1d800, 0x40), (0x1da00, 0x10),
    (0x1da37, 0x40), (0x1da3b, 0x10), (0x1da6d, 0x40), (0x1da75, 0x10), (0x1da76, 0x40), (0x1da84, 0x10),
    (0x1da85, 0x40), (0x1da87, 0x20), (0x1da8c, 1), (0x1da9b, 0x10), (0x1daa0, 1), (0x1daa1, 0x10),
    (0x1dab0, 1), (0x1df00, 0x4), (0x1df1f, 1), (0x1df25, 0x4), (0x1df2b, 1), (0x1e000, 0x10), (0x1e007, 1),
    (0x1e008, 0x10), (0x1e019, 1), (0x1e01b, 0x10), (0x1e022, 1), (0x1e023, 0x10), (0x1e025, 1),
    (0x1e026, 0x10), (0x1e02b, 1), (0x1e030, 0x4), (0x1e06e, 1), (0x1e08f, 0x10), (0x1e090, 1),
    (0x1e100, 0x4), (0x1e12d, 1), (0x1e130, 0x10), (0x1e137, 0x4), (0x1e13e, 1), (0x1e140, 0x2), (0x1e14a, 1),
    (0x1e14e, 0x4), (0x1e14f, 0x40), (0x1e150, 1), (0x1e290, 0x4), (0x1e2ae, 0x10), (0x1e2af, 1),
    (0x1e2c0, 0x4), (0x1e2ec, 0x10), (0x1e2f0, 0x2), (0x1e2fa, 1), (0x1e2ff, 0x40), (0x1e300, 1),
    (0x1e4d0, 0x4), (0x1e4ec, 0x10), (0x1e4f0, 0x2), (0x1e4fa, 1), (0x1e7e0, 0x4), (0x1e7e7, 1),
    (0x1e7e8, 0x4), (0x1e7ec, 1), (0x1e7ed, 0x4), (0x1e7ef, 1), (0x1e7f0, 0x4), (0x1e7ff, 1), (0x1e800, 0x4),
    (0x1e8c5, 1), (0x1e8c7, 0x2), (0x1e8d0, 0x10), (0x1e8d7, 1), (0x1e900, 0x4), (0x1e944, 0x10),
    (0x1e94b, 0x4), (0x1e94c, 1), (0x1e950, 0x2), (0x1e95a, 1), (0x1e95e, 0x20), (0x1e960, 1), (0x1ec71, 0x2),
    (0x1ecac, 0x40), (0x1ecad, 0x2), (0x1ecb0, 0x40), (0x1ecb1, 0x2), (0x1ecb5, 1), (0x1ed01, 0x2),
    (0x1ed2e, 0x40), (0x1ed2f, 0x2)]"

definition unicode_ranges_flags_15 :: "(int \<times> int) list" where
  "unicode_ranges_flags_15 = [
    (0x1ed3e, 1), (0x1ee00, 0x4), (0x1ee04, 1), (0x1ee05, 0x4), (0x1ee20, 1), (0x1ee21, 0x4), (0x1ee23, 1),
    (0x1ee24, 0x4), (0x1ee25, 1), (0x1ee27, 0x4), (0x1ee28, 1), (0x1ee29, 0x4), (0x1ee33, 1), (0x1ee34, 0x4),
    (0x1ee38, 1), (0x1ee39, 0x4), (0x1ee3a, 1), (0x1ee3b, 0x4), (0x1ee3c, 1), (0x1ee42, 0x4), (0x1ee43, 1),
    (0x1ee47, 0x4), (0x1ee48, 1), (0x1ee49, 0x4), (0x1ee4a, 1), (0x1ee4b, 0x4), (0x1ee4c, 1), (0x1ee4d, 0x4),
    (0x1ee50, 1), (0x1ee51, 0x4), (0x1ee53, 1), (0x1ee54, 0x4), (0x1ee55, 1), (0x1ee57, 0x4), (0x1ee58, 1),
    (0x1ee59, 0x4), (0x1ee5a, 1), (0x1ee5b, 0x4), (0x1ee5c, 1), (0x1ee5d, 0x4), (0x1ee5e, 1), (0x1ee5f, 0x4),
    (0x1ee60, 1), (0x1ee61, 0x4), (0x1ee63, 1), (0x1ee64, 0x4), (0x1ee65, 1), (0x1ee67, 0x4), (0x1ee6b, 1),
    (0x1ee6c, 0x4), (0x1ee73, 1), (0x1ee74, 0x4), (0x1ee78, 1), (0x1ee79, 0x4), (0x1ee7d, 1), (0x1ee7e, 0x4),
    (0x1ee7f, 1), (0x1ee80, 0x4), (0x1ee8a, 1), (0x1ee8b, 0x4), (0x1ee9c, 1), (0x1eea1, 0x4), (0x1eea4, 1),
    (0x1eea5, 0x4), (0x1eeaa, 1), (0x1eeab, 0x4), (0x1eebc, 1), (0x1eef0, 0x40), (0x1eef2, 1),
    (0x1f000, 0x40), (0x1f02c, 1), (0x1f030, 0x40), (0x1f094, 1), (0x1f0a0, 0x40), (0x1f0af, 1),
    (0x1f0b1, 0x40), (0x1f0c0, 1), (0x1f0c1, 0x40), (0x1f0d0, 1), (0x1f0d1, 0x40), (0x1f0f6, 1),
    (0x1f100, 0x2), (0x1f10d, 0x40), (0x1f1ae, 1), (0x1f1e6, 0x40), (0x1f203, 1), (0x1f210, 0x40),
    (0x1f23c, 1), (0x1f240, 0x40), (0x1f249, 1), (0x1f250, 0x40), (0x1f252, 1), (0x1f260, 0x40), (0x1f266, 1),
    (0x1f300, 0x40), (0x1f6d8, 1), (0x1f6dc, 0x40), (0x1f6ed, 1), (0x1f6f0, 0x40), (0x1f6fd, 1),
    (0x1f700, 0x40), (0x1f777, 1), (0x1f77b, 0x40), (0x1f7da, 1), (0x1f7e0, 0x40), (0x1f7ec, 1),
    (0x1f7f0, 0x40), (0x1f7f1, 1), (0x1f800, 0x40), (0x1f80c, 1), (0x1f810, 0x40), (0x1f848, 1),
    (0x1f850, 0x40), (0x1f85a, 1), (0x1f860, 0x40), (0x1f888, 1), (0x1f890, 0x40), (0x1f8ae, 1),
    (0x1f8b0, 0x40), (0x1f8b2, 1), (0x1f900, 0x40), (0x1fa54, 1), (0x1fa60, 0x40), (0x1fa6e, 1),
    (0x1fa70, 0x40), (0x1fa7d, 1), (0x1fa80, 0x40), (0x1fa89, 1), (0x1fa90, 0x40), (0x1fabe, 1),
    (0x1fabf, 0x40), (0x1fac6, 1), (0x1face, 0x40), (0x1fadc, 1), (0x1fae0, 0x40), (0x1fae9, 1),
    (0x1faf0, 0x40), (0x1faf9, 1), (0x1fb00, 0x40), (0x1fb93, 1), (0x1fb94, 0x40), (0x1fbcb, 1),
    (0x1fbf0, 0x2), (0x1fbfa, 1), (0x20000, 0x4), (0x2a6e0, 1), (0x2a700, 0x4), (0x2b73a, 1), (0x2b740, 0x4),
    (0x2b81e, 1)]"

definition unicode_ranges_flags_16 :: "(int \<times> int) list" where
  "unicode_ranges_flags_16 = [
    (0x2b820, 0x4), (0x2cea2, 1), (0x2ceb0, 0x4), (0x2ebe1, 1), (0x2ebf0, 0x4), (0x2ee5e, 1), (0x2f800, 0x4),
    (0x2fa1e, 1), (0x30000, 0x4), (0x3134b, 1), (0x31350, 0x4), (0x323b0, 1), (0xe0001, 0x80), (0xe0002, 1),
    (0xe0020, 0x80), (0xe0080, 1), (0xe0100, 0x10), (0xe01f0, 1), (0xf0000, 0x80), (0xffffe, 1),
    (0x100000, 0x80), (0x10fffe, 1)]"

definition unicode_ranges_flags :: "(int \<times> int) list" where
  "unicode_ranges_flags =
    unicode_ranges_flags_1 @ unicode_ranges_flags_2 @ unicode_ranges_flags_3 @ unicode_ranges_flags_4 @ unicode_ranges_flags_5 @ unicode_ranges_flags_6 @ unicode_ranges_flags_7 @ unicode_ranges_flags_8 @ unicode_ranges_flags_9 @ unicode_ranges_flags_10 @ unicode_ranges_flags_11 @ unicode_ranges_flags_12 @ unicode_ranges_flags_13 @ unicode_ranges_flags_14 @ unicode_ranges_flags_15 @ unicode_ranges_flags_16 @ [(MAX_CODEPOINTS, 0)]"

section \<open>White space\<close>

definition unicode_set_whitespace :: "int list" where
  "unicode_set_whitespace = [
    0x9, 0xa, 0xb, 0xc, 0xd, 0x20, 0x85, 0xa0, 0x1680, 0x2000, 0x2001, 0x2002, 0x2003, 0x2004, 0x2005, 0x2006,
    0x2007, 0x2008, 0x2009, 0x200a, 0x2028, 0x2029, 0x202f, 0x205f, 0x3000]"

section \<open>Lower case: a code point and its lower-case form\<close>

definition unicode_map_lowercase_1 :: "(int \<times> int) list" where
  "unicode_map_lowercase_1 = [
    (0x41, 0x61), (0x42, 0x62), (0x43, 0x63), (0x44, 0x64), (0x45, 0x65), (0x46, 0x66), (0x47, 0x67),
    (0x48, 0x68), (0x49, 0x69), (0x4a, 0x6a), (0x4b, 0x6b), (0x4c, 0x6c), (0x4d, 0x6d), (0x4e, 0x6e),
    (0x4f, 0x6f), (0x50, 0x70), (0x51, 0x71), (0x52, 0x72), (0x53, 0x73), (0x54, 0x74), (0x55, 0x75),
    (0x56, 0x76), (0x57, 0x77), (0x58, 0x78), (0x59, 0x79), (0x5a, 0x7a), (0xc0, 0xe0), (0xc1, 0xe1),
    (0xc2, 0xe2), (0xc3, 0xe3), (0xc4, 0xe4), (0xc5, 0xe5), (0xc6, 0xe6), (0xc7, 0xe7), (0xc8, 0xe8),
    (0xc9, 0xe9), (0xca, 0xea), (0xcb, 0xeb), (0xcc, 0xec), (0xcd, 0xed), (0xce, 0xee), (0xcf, 0xef),
    (0xd0, 0xf0), (0xd1, 0xf1), (0xd2, 0xf2), (0xd3, 0xf3), (0xd4, 0xf4), (0xd5, 0xf5), (0xd6, 0xf6),
    (0xd8, 0xf8), (0xd9, 0xf9), (0xda, 0xfa), (0xdb, 0xfb), (0xdc, 0xfc), (0xdd, 0xfd), (0xde, 0xfe),
    (0x100, 0x101), (0x102, 0x103), (0x104, 0x105), (0x106, 0x107), (0x108, 0x109), (0x10a, 0x10b),
    (0x10c, 0x10d), (0x10e, 0x10f), (0x110, 0x111), (0x112, 0x113), (0x114, 0x115), (0x116, 0x117),
    (0x118, 0x119), (0x11a, 0x11b), (0x11c, 0x11d), (0x11e, 0x11f), (0x120, 0x121), (0x122, 0x123),
    (0x124, 0x125), (0x126, 0x127), (0x128, 0x129), (0x12a, 0x12b), (0x12c, 0x12d), (0x12e, 0x12f),
    (0x130, 0x69), (0x132, 0x133), (0x134, 0x135), (0x136, 0x137), (0x139, 0x13a), (0x13b, 0x13c),
    (0x13d, 0x13e), (0x13f, 0x140), (0x141, 0x142), (0x143, 0x144), (0x145, 0x146), (0x147, 0x148),
    (0x14a, 0x14b), (0x14c, 0x14d), (0x14e, 0x14f), (0x150, 0x151), (0x152, 0x153), (0x154, 0x155),
    (0x156, 0x157), (0x158, 0x159), (0x15a, 0x15b), (0x15c, 0x15d), (0x15e, 0x15f), (0x160, 0x161),
    (0x162, 0x163), (0x164, 0x165), (0x166, 0x167), (0x168, 0x169), (0x16a, 0x16b), (0x16c, 0x16d),
    (0x16e, 0x16f), (0x170, 0x171), (0x172, 0x173), (0x174, 0x175), (0x176, 0x177), (0x178, 0xff),
    (0x179, 0x17a), (0x17b, 0x17c), (0x17d, 0x17e), (0x181, 0x253), (0x182, 0x183), (0x184, 0x185),
    (0x186, 0x254), (0x187, 0x188), (0x189, 0x256), (0x18a, 0x257), (0x18b, 0x18c), (0x18e, 0x1dd),
    (0x18f, 0x259), (0x190, 0x25b), (0x191, 0x192), (0x193, 0x260), (0x194, 0x263), (0x196, 0x269),
    (0x197, 0x268), (0x198, 0x199), (0x19c, 0x26f), (0x19d, 0x272), (0x19f, 0x275), (0x1a0, 0x1a1),
    (0x1a2, 0x1a3), (0x1a4, 0x1a5), (0x1a6, 0x280), (0x1a7, 0x1a8), (0x1a9, 0x283), (0x1ac, 0x1ad),
    (0x1ae, 0x288), (0x1af, 0x1b0), (0x1b1, 0x28a), (0x1b2, 0x28b)]"

definition unicode_map_lowercase_2 :: "(int \<times> int) list" where
  "unicode_map_lowercase_2 = [
    (0x1b3, 0x1b4), (0x1b5, 0x1b6), (0x1b7, 0x292), (0x1b8, 0x1b9), (0x1bc, 0x1bd), (0x1c4, 0x1c6),
    (0x1c5, 0x1c6), (0x1c7, 0x1c9), (0x1c8, 0x1c9), (0x1ca, 0x1cc), (0x1cb, 0x1cc), (0x1cd, 0x1ce),
    (0x1cf, 0x1d0), (0x1d1, 0x1d2), (0x1d3, 0x1d4), (0x1d5, 0x1d6), (0x1d7, 0x1d8), (0x1d9, 0x1da),
    (0x1db, 0x1dc), (0x1de, 0x1df), (0x1e0, 0x1e1), (0x1e2, 0x1e3), (0x1e4, 0x1e5), (0x1e6, 0x1e7),
    (0x1e8, 0x1e9), (0x1ea, 0x1eb), (0x1ec, 0x1ed), (0x1ee, 0x1ef), (0x1f1, 0x1f3), (0x1f2, 0x1f3),
    (0x1f4, 0x1f5), (0x1f6, 0x195), (0x1f7, 0x1bf), (0x1f8, 0x1f9), (0x1fa, 0x1fb), (0x1fc, 0x1fd),
    (0x1fe, 0x1ff), (0x200, 0x201), (0x202, 0x203), (0x204, 0x205), (0x206, 0x207), (0x208, 0x209),
    (0x20a, 0x20b), (0x20c, 0x20d), (0x20e, 0x20f), (0x210, 0x211), (0x212, 0x213), (0x214, 0x215),
    (0x216, 0x217), (0x218, 0x219), (0x21a, 0x21b), (0x21c, 0x21d), (0x21e, 0x21f), (0x220, 0x19e),
    (0x222, 0x223), (0x224, 0x225), (0x226, 0x227), (0x228, 0x229), (0x22a, 0x22b), (0x22c, 0x22d),
    (0x22e, 0x22f), (0x230, 0x231), (0x232, 0x233), (0x23a, 0x2c65), (0x23b, 0x23c), (0x23d, 0x19a),
    (0x23e, 0x2c66), (0x241, 0x242), (0x243, 0x180), (0x244, 0x289), (0x245, 0x28c), (0x246, 0x247),
    (0x248, 0x249), (0x24a, 0x24b), (0x24c, 0x24d), (0x24e, 0x24f), (0x370, 0x371), (0x372, 0x373),
    (0x376, 0x377), (0x37f, 0x3f3), (0x386, 0x3ac), (0x388, 0x3ad), (0x389, 0x3ae), (0x38a, 0x3af),
    (0x38c, 0x3cc), (0x38e, 0x3cd), (0x38f, 0x3ce), (0x391, 0x3b1), (0x392, 0x3b2), (0x393, 0x3b3),
    (0x394, 0x3b4), (0x395, 0x3b5), (0x396, 0x3b6), (0x397, 0x3b7), (0x398, 0x3b8), (0x399, 0x3b9),
    (0x39a, 0x3ba), (0x39b, 0x3bb), (0x39c, 0x3bc), (0x39d, 0x3bd), (0x39e, 0x3be), (0x39f, 0x3bf),
    (0x3a0, 0x3c0), (0x3a1, 0x3c1), (0x3a3, 0x3c3), (0x3a4, 0x3c4), (0x3a5, 0x3c5), (0x3a6, 0x3c6),
    (0x3a7, 0x3c7), (0x3a8, 0x3c8), (0x3a9, 0x3c9), (0x3aa, 0x3ca), (0x3ab, 0x3cb), (0x3cf, 0x3d7),
    (0x3d8, 0x3d9), (0x3da, 0x3db), (0x3dc, 0x3dd), (0x3de, 0x3df), (0x3e0, 0x3e1), (0x3e2, 0x3e3),
    (0x3e4, 0x3e5), (0x3e6, 0x3e7), (0x3e8, 0x3e9), (0x3ea, 0x3eb), (0x3ec, 0x3ed), (0x3ee, 0x3ef),
    (0x3f4, 0x3b8), (0x3f7, 0x3f8), (0x3f9, 0x3f2), (0x3fa, 0x3fb), (0x3fd, 0x37b), (0x3fe, 0x37c),
    (0x3ff, 0x37d), (0x400, 0x450), (0x401, 0x451), (0x402, 0x452), (0x403, 0x453), (0x404, 0x454),
    (0x405, 0x455), (0x406, 0x456), (0x407, 0x457), (0x408, 0x458), (0x409, 0x459), (0x40a, 0x45a),
    (0x40b, 0x45b), (0x40c, 0x45c), (0x40d, 0x45d), (0x40e, 0x45e), (0x40f, 0x45f), (0x410, 0x430)]"

definition unicode_map_lowercase_3 :: "(int \<times> int) list" where
  "unicode_map_lowercase_3 = [
    (0x411, 0x431), (0x412, 0x432), (0x413, 0x433), (0x414, 0x434), (0x415, 0x435), (0x416, 0x436),
    (0x417, 0x437), (0x418, 0x438), (0x419, 0x439), (0x41a, 0x43a), (0x41b, 0x43b), (0x41c, 0x43c),
    (0x41d, 0x43d), (0x41e, 0x43e), (0x41f, 0x43f), (0x420, 0x440), (0x421, 0x441), (0x422, 0x442),
    (0x423, 0x443), (0x424, 0x444), (0x425, 0x445), (0x426, 0x446), (0x427, 0x447), (0x428, 0x448),
    (0x429, 0x449), (0x42a, 0x44a), (0x42b, 0x44b), (0x42c, 0x44c), (0x42d, 0x44d), (0x42e, 0x44e),
    (0x42f, 0x44f), (0x460, 0x461), (0x462, 0x463), (0x464, 0x465), (0x466, 0x467), (0x468, 0x469),
    (0x46a, 0x46b), (0x46c, 0x46d), (0x46e, 0x46f), (0x470, 0x471), (0x472, 0x473), (0x474, 0x475),
    (0x476, 0x477), (0x478, 0x479), (0x47a, 0x47b), (0x47c, 0x47d), (0x47e, 0x47f), (0x480, 0x481),
    (0x48a, 0x48b), (0x48c, 0x48d), (0x48e, 0x48f), (0x490, 0x491), (0x492, 0x493), (0x494, 0x495),
    (0x496, 0x497), (0x498, 0x499), (0x49a, 0x49b), (0x49c, 0x49d), (0x49e, 0x49f), (0x4a0, 0x4a1),
    (0x4a2, 0x4a3), (0x4a4, 0x4a5), (0x4a6, 0x4a7), (0x4a8, 0x4a9), (0x4aa, 0x4ab), (0x4ac, 0x4ad),
    (0x4ae, 0x4af), (0x4b0, 0x4b1), (0x4b2, 0x4b3), (0x4b4, 0x4b5), (0x4b6, 0x4b7), (0x4b8, 0x4b9),
    (0x4ba, 0x4bb), (0x4bc, 0x4bd), (0x4be, 0x4bf), (0x4c0, 0x4cf), (0x4c1, 0x4c2), (0x4c3, 0x4c4),
    (0x4c5, 0x4c6), (0x4c7, 0x4c8), (0x4c9, 0x4ca), (0x4cb, 0x4cc), (0x4cd, 0x4ce), (0x4d0, 0x4d1),
    (0x4d2, 0x4d3), (0x4d4, 0x4d5), (0x4d6, 0x4d7), (0x4d8, 0x4d9), (0x4da, 0x4db), (0x4dc, 0x4dd),
    (0x4de, 0x4df), (0x4e0, 0x4e1), (0x4e2, 0x4e3), (0x4e4, 0x4e5), (0x4e6, 0x4e7), (0x4e8, 0x4e9),
    (0x4ea, 0x4eb), (0x4ec, 0x4ed), (0x4ee, 0x4ef), (0x4f0, 0x4f1), (0x4f2, 0x4f3), (0x4f4, 0x4f5),
    (0x4f6, 0x4f7), (0x4f8, 0x4f9), (0x4fa, 0x4fb), (0x4fc, 0x4fd), (0x4fe, 0x4ff), (0x500, 0x501),
    (0x502, 0x503), (0x504, 0x505), (0x506, 0x507), (0x508, 0x509), (0x50a, 0x50b), (0x50c, 0x50d),
    (0x50e, 0x50f), (0x510, 0x511), (0x512, 0x513), (0x514, 0x515), (0x516, 0x517), (0x518, 0x519),
    (0x51a, 0x51b), (0x51c, 0x51d), (0x51e, 0x51f), (0x520, 0x521), (0x522, 0x523), (0x524, 0x525),
    (0x526, 0x527), (0x528, 0x529), (0x52a, 0x52b), (0x52c, 0x52d), (0x52e, 0x52f), (0x531, 0x561),
    (0x532, 0x562), (0x533, 0x563), (0x534, 0x564), (0x535, 0x565), (0x536, 0x566), (0x537, 0x567),
    (0x538, 0x568), (0x539, 0x569), (0x53a, 0x56a), (0x53b, 0x56b), (0x53c, 0x56c), (0x53d, 0x56d),
    (0x53e, 0x56e), (0x53f, 0x56f), (0x540, 0x570), (0x541, 0x571), (0x542, 0x572), (0x543, 0x573)]"

definition unicode_map_lowercase_4 :: "(int \<times> int) list" where
  "unicode_map_lowercase_4 = [
    (0x544, 0x574), (0x545, 0x575), (0x546, 0x576), (0x547, 0x577), (0x548, 0x578), (0x549, 0x579),
    (0x54a, 0x57a), (0x54b, 0x57b), (0x54c, 0x57c), (0x54d, 0x57d), (0x54e, 0x57e), (0x54f, 0x57f),
    (0x550, 0x580), (0x551, 0x581), (0x552, 0x582), (0x553, 0x583), (0x554, 0x584), (0x555, 0x585),
    (0x556, 0x586), (0x10a0, 0x2d00), (0x10a1, 0x2d01), (0x10a2, 0x2d02), (0x10a3, 0x2d03), (0x10a4, 0x2d04),
    (0x10a5, 0x2d05), (0x10a6, 0x2d06), (0x10a7, 0x2d07), (0x10a8, 0x2d08), (0x10a9, 0x2d09),
    (0x10aa, 0x2d0a), (0x10ab, 0x2d0b), (0x10ac, 0x2d0c), (0x10ad, 0x2d0d), (0x10ae, 0x2d0e),
    (0x10af, 0x2d0f), (0x10b0, 0x2d10), (0x10b1, 0x2d11), (0x10b2, 0x2d12), (0x10b3, 0x2d13),
    (0x10b4, 0x2d14), (0x10b5, 0x2d15), (0x10b6, 0x2d16), (0x10b7, 0x2d17), (0x10b8, 0x2d18),
    (0x10b9, 0x2d19), (0x10ba, 0x2d1a), (0x10bb, 0x2d1b), (0x10bc, 0x2d1c), (0x10bd, 0x2d1d),
    (0x10be, 0x2d1e), (0x10bf, 0x2d1f), (0x10c0, 0x2d20), (0x10c1, 0x2d21), (0x10c2, 0x2d22),
    (0x10c3, 0x2d23), (0x10c4, 0x2d24), (0x10c5, 0x2d25), (0x10c7, 0x2d27), (0x10cd, 0x2d2d),
    (0x13a0, 0xab70), (0x13a1, 0xab71), (0x13a2, 0xab72), (0x13a3, 0xab73), (0x13a4, 0xab74),
    (0x13a5, 0xab75), (0x13a6, 0xab76), (0x13a7, 0xab77), (0x13a8, 0xab78), (0x13a9, 0xab79),
    (0x13aa, 0xab7a), (0x13ab, 0xab7b), (0x13ac, 0xab7c), (0x13ad, 0xab7d), (0x13ae, 0xab7e),
    (0x13af, 0xab7f), (0x13b0, 0xab80), (0x13b1, 0xab81), (0x13b2, 0xab82), (0x13b3, 0xab83),
    (0x13b4, 0xab84), (0x13b5, 0xab85), (0x13b6, 0xab86), (0x13b7, 0xab87), (0x13b8, 0xab88),
    (0x13b9, 0xab89), (0x13ba, 0xab8a), (0x13bb, 0xab8b), (0x13bc, 0xab8c), (0x13bd, 0xab8d),
    (0x13be, 0xab8e), (0x13bf, 0xab8f), (0x13c0, 0xab90), (0x13c1, 0xab91), (0x13c2, 0xab92),
    (0x13c3, 0xab93), (0x13c4, 0xab94), (0x13c5, 0xab95), (0x13c6, 0xab96), (0x13c7, 0xab97),
    (0x13c8, 0xab98), (0x13c9, 0xab99), (0x13ca, 0xab9a), (0x13cb, 0xab9b), (0x13cc, 0xab9c),
    (0x13cd, 0xab9d), (0x13ce, 0xab9e), (0x13cf, 0xab9f), (0x13d0, 0xaba0), (0x13d1, 0xaba1),
    (0x13d2, 0xaba2), (0x13d3, 0xaba3), (0x13d4, 0xaba4), (0x13d5, 0xaba5), (0x13d6, 0xaba6),
    (0x13d7, 0xaba7), (0x13d8, 0xaba8), (0x13d9, 0xaba9), (0x13da, 0xabaa), (0x13db, 0xabab),
    (0x13dc, 0xabac), (0x13dd, 0xabad), (0x13de, 0xabae), (0x13df, 0xabaf), (0x13e0, 0xabb0),
    (0x13e1, 0xabb1), (0x13e2, 0xabb2), (0x13e3, 0xabb3), (0x13e4, 0xabb4), (0x13e5, 0xabb5),
    (0x13e6, 0xabb6), (0x13e7, 0xabb7), (0x13e8, 0xabb8), (0x13e9, 0xabb9), (0x13ea, 0xabba),
    (0x13eb, 0xabbb), (0x13ec, 0xabbc), (0x13ed, 0xabbd), (0x13ee, 0xabbe), (0x13ef, 0xabbf),
    (0x13f0, 0x13f8), (0x13f1, 0x13f9), (0x13f2, 0x13fa), (0x13f3, 0x13fb), (0x13f4, 0x13fc),
    (0x13f5, 0x13fd), (0x1c90, 0x10d0), (0x1c91, 0x10d1), (0x1c92, 0x10d2), (0x1c93, 0x10d3), (0x1c94, 0x10d4)]"

definition unicode_map_lowercase_5 :: "(int \<times> int) list" where
  "unicode_map_lowercase_5 = [
    (0x1c95, 0x10d5), (0x1c96, 0x10d6), (0x1c97, 0x10d7), (0x1c98, 0x10d8), (0x1c99, 0x10d9),
    (0x1c9a, 0x10da), (0x1c9b, 0x10db), (0x1c9c, 0x10dc), (0x1c9d, 0x10dd), (0x1c9e, 0x10de),
    (0x1c9f, 0x10df), (0x1ca0, 0x10e0), (0x1ca1, 0x10e1), (0x1ca2, 0x10e2), (0x1ca3, 0x10e3),
    (0x1ca4, 0x10e4), (0x1ca5, 0x10e5), (0x1ca6, 0x10e6), (0x1ca7, 0x10e7), (0x1ca8, 0x10e8),
    (0x1ca9, 0x10e9), (0x1caa, 0x10ea), (0x1cab, 0x10eb), (0x1cac, 0x10ec), (0x1cad, 0x10ed),
    (0x1cae, 0x10ee), (0x1caf, 0x10ef), (0x1cb0, 0x10f0), (0x1cb1, 0x10f1), (0x1cb2, 0x10f2),
    (0x1cb3, 0x10f3), (0x1cb4, 0x10f4), (0x1cb5, 0x10f5), (0x1cb6, 0x10f6), (0x1cb7, 0x10f7),
    (0x1cb8, 0x10f8), (0x1cb9, 0x10f9), (0x1cba, 0x10fa), (0x1cbd, 0x10fd), (0x1cbe, 0x10fe),
    (0x1cbf, 0x10ff), (0x1e00, 0x1e01), (0x1e02, 0x1e03), (0x1e04, 0x1e05), (0x1e06, 0x1e07),
    (0x1e08, 0x1e09), (0x1e0a, 0x1e0b), (0x1e0c, 0x1e0d), (0x1e0e, 0x1e0f), (0x1e10, 0x1e11),
    (0x1e12, 0x1e13), (0x1e14, 0x1e15), (0x1e16, 0x1e17), (0x1e18, 0x1e19), (0x1e1a, 0x1e1b),
    (0x1e1c, 0x1e1d), (0x1e1e, 0x1e1f), (0x1e20, 0x1e21), (0x1e22, 0x1e23), (0x1e24, 0x1e25),
    (0x1e26, 0x1e27), (0x1e28, 0x1e29), (0x1e2a, 0x1e2b), (0x1e2c, 0x1e2d), (0x1e2e, 0x1e2f),
    (0x1e30, 0x1e31), (0x1e32, 0x1e33), (0x1e34, 0x1e35), (0x1e36, 0x1e37), (0x1e38, 0x1e39),
    (0x1e3a, 0x1e3b), (0x1e3c, 0x1e3d), (0x1e3e, 0x1e3f), (0x1e40, 0x1e41), (0x1e42, 0x1e43),
    (0x1e44, 0x1e45), (0x1e46, 0x1e47), (0x1e48, 0x1e49), (0x1e4a, 0x1e4b), (0x1e4c, 0x1e4d),
    (0x1e4e, 0x1e4f), (0x1e50, 0x1e51), (0x1e52, 0x1e53), (0x1e54, 0x1e55), (0x1e56, 0x1e57),
    (0x1e58, 0x1e59), (0x1e5a, 0x1e5b), (0x1e5c, 0x1e5d), (0x1e5e, 0x1e5f), (0x1e60, 0x1e61),
    (0x1e62, 0x1e63), (0x1e64, 0x1e65), (0x1e66, 0x1e67), (0x1e68, 0x1e69), (0x1e6a, 0x1e6b),
    (0x1e6c, 0x1e6d), (0x1e6e, 0x1e6f), (0x1e70, 0x1e71), (0x1e72, 0x1e73), (0x1e74, 0x1e75),
    (0x1e76, 0x1e77), (0x1e78, 0x1e79), (0x1e7a, 0x1e7b), (0x1e7c, 0x1e7d), (0x1e7e, 0x1e7f),
    (0x1e80, 0x1e81), (0x1e82, 0x1e83), (0x1e84, 0x1e85), (0x1e86, 0x1e87), (0x1e88, 0x1e89),
    (0x1e8a, 0x1e8b), (0x1e8c, 0x1e8d), (0x1e8e, 0x1e8f), (0x1e90, 0x1e91), (0x1e92, 0x1e93),
    (0x1e94, 0x1e95), (0x1e9e, 0xdf), (0x1ea0, 0x1ea1), (0x1ea2, 0x1ea3), (0x1ea4, 0x1ea5), (0x1ea6, 0x1ea7),
    (0x1ea8, 0x1ea9), (0x1eaa, 0x1eab), (0x1eac, 0x1ead), (0x1eae, 0x1eaf), (0x1eb0, 0x1eb1),
    (0x1eb2, 0x1eb3), (0x1eb4, 0x1eb5), (0x1eb6, 0x1eb7), (0x1eb8, 0x1eb9), (0x1eba, 0x1ebb),
    (0x1ebc, 0x1ebd), (0x1ebe, 0x1ebf), (0x1ec0, 0x1ec1), (0x1ec2, 0x1ec3), (0x1ec4, 0x1ec5),
    (0x1ec6, 0x1ec7), (0x1ec8, 0x1ec9), (0x1eca, 0x1ecb), (0x1ecc, 0x1ecd), (0x1ece, 0x1ecf),
    (0x1ed0, 0x1ed1), (0x1ed2, 0x1ed3), (0x1ed4, 0x1ed5), (0x1ed6, 0x1ed7), (0x1ed8, 0x1ed9),
    (0x1eda, 0x1edb), (0x1edc, 0x1edd), (0x1ede, 0x1edf), (0x1ee0, 0x1ee1)]"

definition unicode_map_lowercase_6 :: "(int \<times> int) list" where
  "unicode_map_lowercase_6 = [
    (0x1ee2, 0x1ee3), (0x1ee4, 0x1ee5), (0x1ee6, 0x1ee7), (0x1ee8, 0x1ee9), (0x1eea, 0x1eeb),
    (0x1eec, 0x1eed), (0x1eee, 0x1eef), (0x1ef0, 0x1ef1), (0x1ef2, 0x1ef3), (0x1ef4, 0x1ef5),
    (0x1ef6, 0x1ef7), (0x1ef8, 0x1ef9), (0x1efa, 0x1efb), (0x1efc, 0x1efd), (0x1efe, 0x1eff),
    (0x1f08, 0x1f00), (0x1f09, 0x1f01), (0x1f0a, 0x1f02), (0x1f0b, 0x1f03), (0x1f0c, 0x1f04),
    (0x1f0d, 0x1f05), (0x1f0e, 0x1f06), (0x1f0f, 0x1f07), (0x1f18, 0x1f10), (0x1f19, 0x1f11),
    (0x1f1a, 0x1f12), (0x1f1b, 0x1f13), (0x1f1c, 0x1f14), (0x1f1d, 0x1f15), (0x1f28, 0x1f20),
    (0x1f29, 0x1f21), (0x1f2a, 0x1f22), (0x1f2b, 0x1f23), (0x1f2c, 0x1f24), (0x1f2d, 0x1f25),
    (0x1f2e, 0x1f26), (0x1f2f, 0x1f27), (0x1f38, 0x1f30), (0x1f39, 0x1f31), (0x1f3a, 0x1f32),
    (0x1f3b, 0x1f33), (0x1f3c, 0x1f34), (0x1f3d, 0x1f35), (0x1f3e, 0x1f36), (0x1f3f, 0x1f37),
    (0x1f48, 0x1f40), (0x1f49, 0x1f41), (0x1f4a, 0x1f42), (0x1f4b, 0x1f43), (0x1f4c, 0x1f44),
    (0x1f4d, 0x1f45), (0x1f59, 0x1f51), (0x1f5b, 0x1f53), (0x1f5d, 0x1f55), (0x1f5f, 0x1f57),
    (0x1f68, 0x1f60), (0x1f69, 0x1f61), (0x1f6a, 0x1f62), (0x1f6b, 0x1f63), (0x1f6c, 0x1f64),
    (0x1f6d, 0x1f65), (0x1f6e, 0x1f66), (0x1f6f, 0x1f67), (0x1f88, 0x1f80), (0x1f89, 0x1f81),
    (0x1f8a, 0x1f82), (0x1f8b, 0x1f83), (0x1f8c, 0x1f84), (0x1f8d, 0x1f85), (0x1f8e, 0x1f86),
    (0x1f8f, 0x1f87), (0x1f98, 0x1f90), (0x1f99, 0x1f91), (0x1f9a, 0x1f92), (0x1f9b, 0x1f93),
    (0x1f9c, 0x1f94), (0x1f9d, 0x1f95), (0x1f9e, 0x1f96), (0x1f9f, 0x1f97), (0x1fa8, 0x1fa0),
    (0x1fa9, 0x1fa1), (0x1faa, 0x1fa2), (0x1fab, 0x1fa3), (0x1fac, 0x1fa4), (0x1fad, 0x1fa5),
    (0x1fae, 0x1fa6), (0x1faf, 0x1fa7), (0x1fb8, 0x1fb0), (0x1fb9, 0x1fb1), (0x1fba, 0x1f70),
    (0x1fbb, 0x1f71), (0x1fbc, 0x1fb3), (0x1fc8, 0x1f72), (0x1fc9, 0x1f73), (0x1fca, 0x1f74),
    (0x1fcb, 0x1f75), (0x1fcc, 0x1fc3), (0x1fd8, 0x1fd0), (0x1fd9, 0x1fd1), (0x1fda, 0x1f76),
    (0x1fdb, 0x1f77), (0x1fe8, 0x1fe0), (0x1fe9, 0x1fe1), (0x1fea, 0x1f7a), (0x1feb, 0x1f7b),
    (0x1fec, 0x1fe5), (0x1ff8, 0x1f78), (0x1ff9, 0x1f79), (0x1ffa, 0x1f7c), (0x1ffb, 0x1f7d),
    (0x1ffc, 0x1ff3), (0x2126, 0x3c9), (0x212a, 0x6b), (0x212b, 0xe5), (0x2132, 0x214e), (0x2160, 0x2170),
    (0x2161, 0x2171), (0x2162, 0x2172), (0x2163, 0x2173), (0x2164, 0x2174), (0x2165, 0x2175),
    (0x2166, 0x2176), (0x2167, 0x2177), (0x2168, 0x2178), (0x2169, 0x2179), (0x216a, 0x217a),
    (0x216b, 0x217b), (0x216c, 0x217c), (0x216d, 0x217d), (0x216e, 0x217e), (0x216f, 0x217f),
    (0x2183, 0x2184), (0x24b6, 0x24d0), (0x24b7, 0x24d1), (0x24b8, 0x24d2), (0x24b9, 0x24d3),
    (0x24ba, 0x24d4), (0x24bb, 0x24d5), (0x24bc, 0x24d6), (0x24bd, 0x24d7), (0x24be, 0x24d8),
    (0x24bf, 0x24d9), (0x24c0, 0x24da), (0x24c1, 0x24db), (0x24c2, 0x24dc), (0x24c3, 0x24dd),
    (0x24c4, 0x24de), (0x24c5, 0x24df), (0x24c6, 0x24e0), (0x24c7, 0x24e1)]"

definition unicode_map_lowercase_7 :: "(int \<times> int) list" where
  "unicode_map_lowercase_7 = [
    (0x24c8, 0x24e2), (0x24c9, 0x24e3), (0x24ca, 0x24e4), (0x24cb, 0x24e5), (0x24cc, 0x24e6),
    (0x24cd, 0x24e7), (0x24ce, 0x24e8), (0x24cf, 0x24e9), (0x2c00, 0x2c30), (0x2c01, 0x2c31),
    (0x2c02, 0x2c32), (0x2c03, 0x2c33), (0x2c04, 0x2c34), (0x2c05, 0x2c35), (0x2c06, 0x2c36),
    (0x2c07, 0x2c37), (0x2c08, 0x2c38), (0x2c09, 0x2c39), (0x2c0a, 0x2c3a), (0x2c0b, 0x2c3b),
    (0x2c0c, 0x2c3c), (0x2c0d, 0x2c3d), (0x2c0e, 0x2c3e), (0x2c0f, 0x2c3f), (0x2c10, 0x2c40),
    (0x2c11, 0x2c41), (0x2c12, 0x2c42), (0x2c13, 0x2c43), (0x2c14, 0x2c44), (0x2c15, 0x2c45),
    (0x2c16, 0x2c46), (0x2c17, 0x2c47), (0x2c18, 0x2c48), (0x2c19, 0x2c49), (0x2c1a, 0x2c4a),
    (0x2c1b, 0x2c4b), (0x2c1c, 0x2c4c), (0x2c1d, 0x2c4d), (0x2c1e, 0x2c4e), (0x2c1f, 0x2c4f),
    (0x2c20, 0x2c50), (0x2c21, 0x2c51), (0x2c22, 0x2c52), (0x2c23, 0x2c53), (0x2c24, 0x2c54),
    (0x2c25, 0x2c55), (0x2c26, 0x2c56), (0x2c27, 0x2c57), (0x2c28, 0x2c58), (0x2c29, 0x2c59),
    (0x2c2a, 0x2c5a), (0x2c2b, 0x2c5b), (0x2c2c, 0x2c5c), (0x2c2d, 0x2c5d), (0x2c2e, 0x2c5e),
    (0x2c2f, 0x2c5f), (0x2c60, 0x2c61), (0x2c62, 0x26b), (0x2c63, 0x1d7d), (0x2c64, 0x27d), (0x2c67, 0x2c68),
    (0x2c69, 0x2c6a), (0x2c6b, 0x2c6c), (0x2c6d, 0x251), (0x2c6e, 0x271), (0x2c6f, 0x250), (0x2c70, 0x252),
    (0x2c72, 0x2c73), (0x2c75, 0x2c76), (0x2c7e, 0x23f), (0x2c7f, 0x240), (0x2c80, 0x2c81), (0x2c82, 0x2c83),
    (0x2c84, 0x2c85), (0x2c86, 0x2c87), (0x2c88, 0x2c89), (0x2c8a, 0x2c8b), (0x2c8c, 0x2c8d),
    (0x2c8e, 0x2c8f), (0x2c90, 0x2c91), (0x2c92, 0x2c93), (0x2c94, 0x2c95), (0x2c96, 0x2c97),
    (0x2c98, 0x2c99), (0x2c9a, 0x2c9b), (0x2c9c, 0x2c9d), (0x2c9e, 0x2c9f), (0x2ca0, 0x2ca1),
    (0x2ca2, 0x2ca3), (0x2ca4, 0x2ca5), (0x2ca6, 0x2ca7), (0x2ca8, 0x2ca9), (0x2caa, 0x2cab),
    (0x2cac, 0x2cad), (0x2cae, 0x2caf), (0x2cb0, 0x2cb1), (0x2cb2, 0x2cb3), (0x2cb4, 0x2cb5),
    (0x2cb6, 0x2cb7), (0x2cb8, 0x2cb9), (0x2cba, 0x2cbb), (0x2cbc, 0x2cbd), (0x2cbe, 0x2cbf),
    (0x2cc0, 0x2cc1), (0x2cc2, 0x2cc3), (0x2cc4, 0x2cc5), (0x2cc6, 0x2cc7), (0x2cc8, 0x2cc9),
    (0x2cca, 0x2ccb), (0x2ccc, 0x2ccd), (0x2cce, 0x2ccf), (0x2cd0, 0x2cd1), (0x2cd2, 0x2cd3),
    (0x2cd4, 0x2cd5), (0x2cd6, 0x2cd7), (0x2cd8, 0x2cd9), (0x2cda, 0x2cdb), (0x2cdc, 0x2cdd),
    (0x2cde, 0x2cdf), (0x2ce0, 0x2ce1), (0x2ce2, 0x2ce3), (0x2ceb, 0x2cec), (0x2ced, 0x2cee),
    (0x2cf2, 0x2cf3), (0xa640, 0xa641), (0xa642, 0xa643), (0xa644, 0xa645), (0xa646, 0xa647),
    (0xa648, 0xa649), (0xa64a, 0xa64b), (0xa64c, 0xa64d), (0xa64e, 0xa64f), (0xa650, 0xa651),
    (0xa652, 0xa653), (0xa654, 0xa655), (0xa656, 0xa657), (0xa658, 0xa659), (0xa65a, 0xa65b),
    (0xa65c, 0xa65d), (0xa65e, 0xa65f), (0xa660, 0xa661), (0xa662, 0xa663), (0xa664, 0xa665),
    (0xa666, 0xa667), (0xa668, 0xa669), (0xa66a, 0xa66b), (0xa66c, 0xa66d), (0xa680, 0xa681),
    (0xa682, 0xa683), (0xa684, 0xa685)]"

definition unicode_map_lowercase_8 :: "(int \<times> int) list" where
  "unicode_map_lowercase_8 = [
    (0xa686, 0xa687), (0xa688, 0xa689), (0xa68a, 0xa68b), (0xa68c, 0xa68d), (0xa68e, 0xa68f),
    (0xa690, 0xa691), (0xa692, 0xa693), (0xa694, 0xa695), (0xa696, 0xa697), (0xa698, 0xa699),
    (0xa69a, 0xa69b), (0xa722, 0xa723), (0xa724, 0xa725), (0xa726, 0xa727), (0xa728, 0xa729),
    (0xa72a, 0xa72b), (0xa72c, 0xa72d), (0xa72e, 0xa72f), (0xa732, 0xa733), (0xa734, 0xa735),
    (0xa736, 0xa737), (0xa738, 0xa739), (0xa73a, 0xa73b), (0xa73c, 0xa73d), (0xa73e, 0xa73f),
    (0xa740, 0xa741), (0xa742, 0xa743), (0xa744, 0xa745), (0xa746, 0xa747), (0xa748, 0xa749),
    (0xa74a, 0xa74b), (0xa74c, 0xa74d), (0xa74e, 0xa74f), (0xa750, 0xa751), (0xa752, 0xa753),
    (0xa754, 0xa755), (0xa756, 0xa757), (0xa758, 0xa759), (0xa75a, 0xa75b), (0xa75c, 0xa75d),
    (0xa75e, 0xa75f), (0xa760, 0xa761), (0xa762, 0xa763), (0xa764, 0xa765), (0xa766, 0xa767),
    (0xa768, 0xa769), (0xa76a, 0xa76b), (0xa76c, 0xa76d), (0xa76e, 0xa76f), (0xa779, 0xa77a),
    (0xa77b, 0xa77c), (0xa77d, 0x1d79), (0xa77e, 0xa77f), (0xa780, 0xa781), (0xa782, 0xa783),
    (0xa784, 0xa785), (0xa786, 0xa787), (0xa78b, 0xa78c), (0xa78d, 0x265), (0xa790, 0xa791), (0xa792, 0xa793),
    (0xa796, 0xa797), (0xa798, 0xa799), (0xa79a, 0xa79b), (0xa79c, 0xa79d), (0xa79e, 0xa79f),
    (0xa7a0, 0xa7a1), (0xa7a2, 0xa7a3), (0xa7a4, 0xa7a5), (0xa7a6, 0xa7a7), (0xa7a8, 0xa7a9), (0xa7aa, 0x266),
    (0xa7ab, 0x25c), (0xa7ac, 0x261), (0xa7ad, 0x26c), (0xa7ae, 0x26a), (0xa7b0, 0x29e), (0xa7b1, 0x287),
    (0xa7b2, 0x29d), (0xa7b3, 0xab53), (0xa7b4, 0xa7b5), (0xa7b6, 0xa7b7), (0xa7b8, 0xa7b9), (0xa7ba, 0xa7bb),
    (0xa7bc, 0xa7bd), (0xa7be, 0xa7bf), (0xa7c0, 0xa7c1), (0xa7c2, 0xa7c3), (0xa7c4, 0xa794), (0xa7c5, 0x282),
    (0xa7c6, 0x1d8e), (0xa7c7, 0xa7c8), (0xa7c9, 0xa7ca), (0xa7d0, 0xa7d1), (0xa7d6, 0xa7d7),
    (0xa7d8, 0xa7d9), (0xa7f5, 0xa7f6), (0xff21, 0xff41), (0xff22, 0xff42), (0xff23, 0xff43),
    (0xff24, 0xff44), (0xff25, 0xff45), (0xff26, 0xff46), (0xff27, 0xff47), (0xff28, 0xff48),
    (0xff29, 0xff49), (0xff2a, 0xff4a), (0xff2b, 0xff4b), (0xff2c, 0xff4c), (0xff2d, 0xff4d),
    (0xff2e, 0xff4e), (0xff2f, 0xff4f), (0xff30, 0xff50), (0xff31, 0xff51), (0xff32, 0xff52),
    (0xff33, 0xff53), (0xff34, 0xff54), (0xff35, 0xff55), (0xff36, 0xff56), (0xff37, 0xff57),
    (0xff38, 0xff58), (0xff39, 0xff59), (0xff3a, 0xff5a), (0x10400, 0x10428), (0x10401, 0x10429),
    (0x10402, 0x1042a), (0x10403, 0x1042b), (0x10404, 0x1042c), (0x10405, 0x1042d), (0x10406, 0x1042e),
    (0x10407, 0x1042f), (0x10408, 0x10430), (0x10409, 0x10431), (0x1040a, 0x10432), (0x1040b, 0x10433),
    (0x1040c, 0x10434), (0x1040d, 0x10435), (0x1040e, 0x10436), (0x1040f, 0x10437), (0x10410, 0x10438),
    (0x10411, 0x10439), (0x10412, 0x1043a), (0x10413, 0x1043b), (0x10414, 0x1043c), (0x10415, 0x1043d),
    (0x10416, 0x1043e), (0x10417, 0x1043f), (0x10418, 0x10440), (0x10419, 0x10441), (0x1041a, 0x10442)]"

definition unicode_map_lowercase_9 :: "(int \<times> int) list" where
  "unicode_map_lowercase_9 = [
    (0x1041b, 0x10443), (0x1041c, 0x10444), (0x1041d, 0x10445), (0x1041e, 0x10446), (0x1041f, 0x10447),
    (0x10420, 0x10448), (0x10421, 0x10449), (0x10422, 0x1044a), (0x10423, 0x1044b), (0x10424, 0x1044c),
    (0x10425, 0x1044d), (0x10426, 0x1044e), (0x10427, 0x1044f), (0x104b0, 0x104d8), (0x104b1, 0x104d9),
    (0x104b2, 0x104da), (0x104b3, 0x104db), (0x104b4, 0x104dc), (0x104b5, 0x104dd), (0x104b6, 0x104de),
    (0x104b7, 0x104df), (0x104b8, 0x104e0), (0x104b9, 0x104e1), (0x104ba, 0x104e2), (0x104bb, 0x104e3),
    (0x104bc, 0x104e4), (0x104bd, 0x104e5), (0x104be, 0x104e6), (0x104bf, 0x104e7), (0x104c0, 0x104e8),
    (0x104c1, 0x104e9), (0x104c2, 0x104ea), (0x104c3, 0x104eb), (0x104c4, 0x104ec), (0x104c5, 0x104ed),
    (0x104c6, 0x104ee), (0x104c7, 0x104ef), (0x104c8, 0x104f0), (0x104c9, 0x104f1), (0x104ca, 0x104f2),
    (0x104cb, 0x104f3), (0x104cc, 0x104f4), (0x104cd, 0x104f5), (0x104ce, 0x104f6), (0x104cf, 0x104f7),
    (0x104d0, 0x104f8), (0x104d1, 0x104f9), (0x104d2, 0x104fa), (0x104d3, 0x104fb), (0x10570, 0x10597),
    (0x10571, 0x10598), (0x10572, 0x10599), (0x10573, 0x1059a), (0x10574, 0x1059b), (0x10575, 0x1059c),
    (0x10576, 0x1059d), (0x10577, 0x1059e), (0x10578, 0x1059f), (0x10579, 0x105a0), (0x1057a, 0x105a1),
    (0x1057c, 0x105a3), (0x1057d, 0x105a4), (0x1057e, 0x105a5), (0x1057f, 0x105a6), (0x10580, 0x105a7),
    (0x10581, 0x105a8), (0x10582, 0x105a9), (0x10583, 0x105aa), (0x10584, 0x105ab), (0x10585, 0x105ac),
    (0x10586, 0x105ad), (0x10587, 0x105ae), (0x10588, 0x105af), (0x10589, 0x105b0), (0x1058a, 0x105b1),
    (0x1058c, 0x105b3), (0x1058d, 0x105b4), (0x1058e, 0x105b5), (0x1058f, 0x105b6), (0x10590, 0x105b7),
    (0x10591, 0x105b8), (0x10592, 0x105b9), (0x10594, 0x105bb), (0x10595, 0x105bc), (0x10c80, 0x10cc0),
    (0x10c81, 0x10cc1), (0x10c82, 0x10cc2), (0x10c83, 0x10cc3), (0x10c84, 0x10cc4), (0x10c85, 0x10cc5),
    (0x10c86, 0x10cc6), (0x10c87, 0x10cc7), (0x10c88, 0x10cc8), (0x10c89, 0x10cc9), (0x10c8a, 0x10cca),
    (0x10c8b, 0x10ccb), (0x10c8c, 0x10ccc), (0x10c8d, 0x10ccd), (0x10c8e, 0x10cce), (0x10c8f, 0x10ccf),
    (0x10c90, 0x10cd0), (0x10c91, 0x10cd1), (0x10c92, 0x10cd2), (0x10c93, 0x10cd3), (0x10c94, 0x10cd4),
    (0x10c95, 0x10cd5), (0x10c96, 0x10cd6), (0x10c97, 0x10cd7), (0x10c98, 0x10cd8), (0x10c99, 0x10cd9),
    (0x10c9a, 0x10cda), (0x10c9b, 0x10cdb), (0x10c9c, 0x10cdc), (0x10c9d, 0x10cdd), (0x10c9e, 0x10cde),
    (0x10c9f, 0x10cdf), (0x10ca0, 0x10ce0), (0x10ca1, 0x10ce1), (0x10ca2, 0x10ce2), (0x10ca3, 0x10ce3),
    (0x10ca4, 0x10ce4), (0x10ca5, 0x10ce5), (0x10ca6, 0x10ce6), (0x10ca7, 0x10ce7), (0x10ca8, 0x10ce8),
    (0x10ca9, 0x10ce9), (0x10caa, 0x10cea), (0x10cab, 0x10ceb), (0x10cac, 0x10cec), (0x10cad, 0x10ced),
    (0x10cae, 0x10cee), (0x10caf, 0x10cef), (0x10cb0, 0x10cf0), (0x10cb1, 0x10cf1), (0x10cb2, 0x10cf2),
    (0x118a0, 0x118c0), (0x118a1, 0x118c1), (0x118a2, 0x118c2), (0x118a3, 0x118c3), (0x118a4, 0x118c4),
    (0x118a5, 0x118c5), (0x118a6, 0x118c6), (0x118a7, 0x118c7), (0x118a8, 0x118c8), (0x118a9, 0x118c9),
    (0x118aa, 0x118ca), (0x118ab, 0x118cb), (0x118ac, 0x118cc), (0x118ad, 0x118cd), (0x118ae, 0x118ce)]"

definition unicode_map_lowercase_10 :: "(int \<times> int) list" where
  "unicode_map_lowercase_10 = [
    (0x118af, 0x118cf), (0x118b0, 0x118d0), (0x118b1, 0x118d1), (0x118b2, 0x118d2), (0x118b3, 0x118d3),
    (0x118b4, 0x118d4), (0x118b5, 0x118d5), (0x118b6, 0x118d6), (0x118b7, 0x118d7), (0x118b8, 0x118d8),
    (0x118b9, 0x118d9), (0x118ba, 0x118da), (0x118bb, 0x118db), (0x118bc, 0x118dc), (0x118bd, 0x118dd),
    (0x118be, 0x118de), (0x118bf, 0x118df), (0x16e40, 0x16e60), (0x16e41, 0x16e61), (0x16e42, 0x16e62),
    (0x16e43, 0x16e63), (0x16e44, 0x16e64), (0x16e45, 0x16e65), (0x16e46, 0x16e66), (0x16e47, 0x16e67),
    (0x16e48, 0x16e68), (0x16e49, 0x16e69), (0x16e4a, 0x16e6a), (0x16e4b, 0x16e6b), (0x16e4c, 0x16e6c),
    (0x16e4d, 0x16e6d), (0x16e4e, 0x16e6e), (0x16e4f, 0x16e6f), (0x16e50, 0x16e70), (0x16e51, 0x16e71),
    (0x16e52, 0x16e72), (0x16e53, 0x16e73), (0x16e54, 0x16e74), (0x16e55, 0x16e75), (0x16e56, 0x16e76),
    (0x16e57, 0x16e77), (0x16e58, 0x16e78), (0x16e59, 0x16e79), (0x16e5a, 0x16e7a), (0x16e5b, 0x16e7b),
    (0x16e5c, 0x16e7c), (0x16e5d, 0x16e7d), (0x16e5e, 0x16e7e), (0x16e5f, 0x16e7f), (0x1e900, 0x1e922),
    (0x1e901, 0x1e923), (0x1e902, 0x1e924), (0x1e903, 0x1e925), (0x1e904, 0x1e926), (0x1e905, 0x1e927),
    (0x1e906, 0x1e928), (0x1e907, 0x1e929), (0x1e908, 0x1e92a), (0x1e909, 0x1e92b), (0x1e90a, 0x1e92c),
    (0x1e90b, 0x1e92d), (0x1e90c, 0x1e92e), (0x1e90d, 0x1e92f), (0x1e90e, 0x1e930), (0x1e90f, 0x1e931),
    (0x1e910, 0x1e932), (0x1e911, 0x1e933), (0x1e912, 0x1e934), (0x1e913, 0x1e935), (0x1e914, 0x1e936),
    (0x1e915, 0x1e937), (0x1e916, 0x1e938), (0x1e917, 0x1e939), (0x1e918, 0x1e93a), (0x1e919, 0x1e93b),
    (0x1e91a, 0x1e93c), (0x1e91b, 0x1e93d), (0x1e91c, 0x1e93e), (0x1e91d, 0x1e93f), (0x1e91e, 0x1e940),
    (0x1e91f, 0x1e941), (0x1e920, 0x1e942), (0x1e921, 0x1e943)]"

definition unicode_map_lowercase :: "(int \<times> int) list" where
  "unicode_map_lowercase =
    unicode_map_lowercase_1 @ unicode_map_lowercase_2 @ unicode_map_lowercase_3 @ unicode_map_lowercase_4 @ unicode_map_lowercase_5 @ unicode_map_lowercase_6 @ unicode_map_lowercase_7 @ unicode_map_lowercase_8 @ unicode_map_lowercase_9 @ unicode_map_lowercase_10"

section \<open>Upper case: a code point and its upper-case form\<close>

definition unicode_map_uppercase_1 :: "(int \<times> int) list" where
  "unicode_map_uppercase_1 = [
    (0x61, 0x41), (0x62, 0x42), (0x63, 0x43), (0x64, 0x44), (0x65, 0x45), (0x66, 0x46), (0x67, 0x47),
    (0x68, 0x48), (0x69, 0x49), (0x6a, 0x4a), (0x6b, 0x4b), (0x6c, 0x4c), (0x6d, 0x4d), (0x6e, 0x4e),
    (0x6f, 0x4f), (0x70, 0x50), (0x71, 0x51), (0x72, 0x52), (0x73, 0x53), (0x74, 0x54), (0x75, 0x55),
    (0x76, 0x56), (0x77, 0x57), (0x78, 0x58), (0x79, 0x59), (0x7a, 0x5a), (0xb5, 0x39c), (0xe0, 0xc0),
    (0xe1, 0xc1), (0xe2, 0xc2), (0xe3, 0xc3), (0xe4, 0xc4), (0xe5, 0xc5), (0xe6, 0xc6), (0xe7, 0xc7),
    (0xe8, 0xc8), (0xe9, 0xc9), (0xea, 0xca), (0xeb, 0xcb), (0xec, 0xcc), (0xed, 0xcd), (0xee, 0xce),
    (0xef, 0xcf), (0xf0, 0xd0), (0xf1, 0xd1), (0xf2, 0xd2), (0xf3, 0xd3), (0xf4, 0xd4), (0xf5, 0xd5),
    (0xf6, 0xd6), (0xf8, 0xd8), (0xf9, 0xd9), (0xfa, 0xda), (0xfb, 0xdb), (0xfc, 0xdc), (0xfd, 0xdd),
    (0xfe, 0xde), (0xff, 0x178), (0x101, 0x100), (0x103, 0x102), (0x105, 0x104), (0x107, 0x106),
    (0x109, 0x108), (0x10b, 0x10a), (0x10d, 0x10c), (0x10f, 0x10e), (0x111, 0x110), (0x113, 0x112),
    (0x115, 0x114), (0x117, 0x116), (0x119, 0x118), (0x11b, 0x11a), (0x11d, 0x11c), (0x11f, 0x11e),
    (0x121, 0x120), (0x123, 0x122), (0x125, 0x124), (0x127, 0x126), (0x129, 0x128), (0x12b, 0x12a),
    (0x12d, 0x12c), (0x12f, 0x12e), (0x131, 0x49), (0x133, 0x132), (0x135, 0x134), (0x137, 0x136),
    (0x13a, 0x139), (0x13c, 0x13b), (0x13e, 0x13d), (0x140, 0x13f), (0x142, 0x141), (0x144, 0x143),
    (0x146, 0x145), (0x148, 0x147), (0x14b, 0x14a), (0x14d, 0x14c), (0x14f, 0x14e), (0x151, 0x150),
    (0x153, 0x152), (0x155, 0x154), (0x157, 0x156), (0x159, 0x158), (0x15b, 0x15a), (0x15d, 0x15c),
    (0x15f, 0x15e), (0x161, 0x160), (0x163, 0x162), (0x165, 0x164), (0x167, 0x166), (0x169, 0x168),
    (0x16b, 0x16a), (0x16d, 0x16c), (0x16f, 0x16e), (0x171, 0x170), (0x173, 0x172), (0x175, 0x174),
    (0x177, 0x176), (0x17a, 0x179), (0x17c, 0x17b), (0x17e, 0x17d), (0x17f, 0x53), (0x180, 0x243),
    (0x183, 0x182), (0x185, 0x184), (0x188, 0x187), (0x18c, 0x18b), (0x192, 0x191), (0x195, 0x1f6),
    (0x199, 0x198), (0x19a, 0x23d), (0x19e, 0x220), (0x1a1, 0x1a0), (0x1a3, 0x1a2), (0x1a5, 0x1a4),
    (0x1a8, 0x1a7), (0x1ad, 0x1ac), (0x1b0, 0x1af), (0x1b4, 0x1b3), (0x1b6, 0x1b5), (0x1b9, 0x1b8),
    (0x1bd, 0x1bc), (0x1bf, 0x1f7), (0x1c5, 0x1c4), (0x1c6, 0x1c4), (0x1c8, 0x1c7), (0x1c9, 0x1c7),
    (0x1cb, 0x1ca), (0x1cc, 0x1ca), (0x1ce, 0x1cd), (0x1d0, 0x1cf)]"

definition unicode_map_uppercase_2 :: "(int \<times> int) list" where
  "unicode_map_uppercase_2 = [
    (0x1d2, 0x1d1), (0x1d4, 0x1d3), (0x1d6, 0x1d5), (0x1d8, 0x1d7), (0x1da, 0x1d9), (0x1dc, 0x1db),
    (0x1dd, 0x18e), (0x1df, 0x1de), (0x1e1, 0x1e0), (0x1e3, 0x1e2), (0x1e5, 0x1e4), (0x1e7, 0x1e6),
    (0x1e9, 0x1e8), (0x1eb, 0x1ea), (0x1ed, 0x1ec), (0x1ef, 0x1ee), (0x1f2, 0x1f1), (0x1f3, 0x1f1),
    (0x1f5, 0x1f4), (0x1f9, 0x1f8), (0x1fb, 0x1fa), (0x1fd, 0x1fc), (0x1ff, 0x1fe), (0x201, 0x200),
    (0x203, 0x202), (0x205, 0x204), (0x207, 0x206), (0x209, 0x208), (0x20b, 0x20a), (0x20d, 0x20c),
    (0x20f, 0x20e), (0x211, 0x210), (0x213, 0x212), (0x215, 0x214), (0x217, 0x216), (0x219, 0x218),
    (0x21b, 0x21a), (0x21d, 0x21c), (0x21f, 0x21e), (0x223, 0x222), (0x225, 0x224), (0x227, 0x226),
    (0x229, 0x228), (0x22b, 0x22a), (0x22d, 0x22c), (0x22f, 0x22e), (0x231, 0x230), (0x233, 0x232),
    (0x23c, 0x23b), (0x23f, 0x2c7e), (0x240, 0x2c7f), (0x242, 0x241), (0x247, 0x246), (0x249, 0x248),
    (0x24b, 0x24a), (0x24d, 0x24c), (0x24f, 0x24e), (0x250, 0x2c6f), (0x251, 0x2c6d), (0x252, 0x2c70),
    (0x253, 0x181), (0x254, 0x186), (0x256, 0x189), (0x257, 0x18a), (0x259, 0x18f), (0x25b, 0x190),
    (0x25c, 0xa7ab), (0x260, 0x193), (0x261, 0xa7ac), (0x263, 0x194), (0x265, 0xa78d), (0x266, 0xa7aa),
    (0x268, 0x197), (0x269, 0x196), (0x26a, 0xa7ae), (0x26b, 0x2c62), (0x26c, 0xa7ad), (0x26f, 0x19c),
    (0x271, 0x2c6e), (0x272, 0x19d), (0x275, 0x19f), (0x27d, 0x2c64), (0x280, 0x1a6), (0x282, 0xa7c5),
    (0x283, 0x1a9), (0x287, 0xa7b1), (0x288, 0x1ae), (0x289, 0x244), (0x28a, 0x1b1), (0x28b, 0x1b2),
    (0x28c, 0x245), (0x292, 0x1b7), (0x29d, 0xa7b2), (0x29e, 0xa7b0), (0x345, 0x399), (0x371, 0x370),
    (0x373, 0x372), (0x377, 0x376), (0x37b, 0x3fd), (0x37c, 0x3fe), (0x37d, 0x3ff), (0x3ac, 0x386),
    (0x3ad, 0x388), (0x3ae, 0x389), (0x3af, 0x38a), (0x3b1, 0x391), (0x3b2, 0x392), (0x3b3, 0x393),
    (0x3b4, 0x394), (0x3b5, 0x395), (0x3b6, 0x396), (0x3b7, 0x397), (0x3b8, 0x398), (0x3b9, 0x399),
    (0x3ba, 0x39a), (0x3bb, 0x39b), (0x3bc, 0x39c), (0x3bd, 0x39d), (0x3be, 0x39e), (0x3bf, 0x39f),
    (0x3c0, 0x3a0), (0x3c1, 0x3a1), (0x3c2, 0x3a3), (0x3c3, 0x3a3), (0x3c4, 0x3a4), (0x3c5, 0x3a5),
    (0x3c6, 0x3a6), (0x3c7, 0x3a7), (0x3c8, 0x3a8), (0x3c9, 0x3a9), (0x3ca, 0x3aa), (0x3cb, 0x3ab),
    (0x3cc, 0x38c), (0x3cd, 0x38e), (0x3ce, 0x38f), (0x3d0, 0x392), (0x3d1, 0x398), (0x3d5, 0x3a6),
    (0x3d6, 0x3a0), (0x3d7, 0x3cf), (0x3d9, 0x3d8), (0x3db, 0x3da), (0x3dd, 0x3dc), (0x3df, 0x3de),
    (0x3e1, 0x3e0), (0x3e3, 0x3e2), (0x3e5, 0x3e4), (0x3e7, 0x3e6), (0x3e9, 0x3e8), (0x3eb, 0x3ea)]"

definition unicode_map_uppercase_3 :: "(int \<times> int) list" where
  "unicode_map_uppercase_3 = [
    (0x3ed, 0x3ec), (0x3ef, 0x3ee), (0x3f0, 0x39a), (0x3f1, 0x3a1), (0x3f2, 0x3f9), (0x3f3, 0x37f),
    (0x3f5, 0x395), (0x3f8, 0x3f7), (0x3fb, 0x3fa), (0x430, 0x410), (0x431, 0x411), (0x432, 0x412),
    (0x433, 0x413), (0x434, 0x414), (0x435, 0x415), (0x436, 0x416), (0x437, 0x417), (0x438, 0x418),
    (0x439, 0x419), (0x43a, 0x41a), (0x43b, 0x41b), (0x43c, 0x41c), (0x43d, 0x41d), (0x43e, 0x41e),
    (0x43f, 0x41f), (0x440, 0x420), (0x441, 0x421), (0x442, 0x422), (0x443, 0x423), (0x444, 0x424),
    (0x445, 0x425), (0x446, 0x426), (0x447, 0x427), (0x448, 0x428), (0x449, 0x429), (0x44a, 0x42a),
    (0x44b, 0x42b), (0x44c, 0x42c), (0x44d, 0x42d), (0x44e, 0x42e), (0x44f, 0x42f), (0x450, 0x400),
    (0x451, 0x401), (0x452, 0x402), (0x453, 0x403), (0x454, 0x404), (0x455, 0x405), (0x456, 0x406),
    (0x457, 0x407), (0x458, 0x408), (0x459, 0x409), (0x45a, 0x40a), (0x45b, 0x40b), (0x45c, 0x40c),
    (0x45d, 0x40d), (0x45e, 0x40e), (0x45f, 0x40f), (0x461, 0x460), (0x463, 0x462), (0x465, 0x464),
    (0x467, 0x466), (0x469, 0x468), (0x46b, 0x46a), (0x46d, 0x46c), (0x46f, 0x46e), (0x471, 0x470),
    (0x473, 0x472), (0x475, 0x474), (0x477, 0x476), (0x479, 0x478), (0x47b, 0x47a), (0x47d, 0x47c),
    (0x47f, 0x47e), (0x481, 0x480), (0x48b, 0x48a), (0x48d, 0x48c), (0x48f, 0x48e), (0x491, 0x490),
    (0x493, 0x492), (0x495, 0x494), (0x497, 0x496), (0x499, 0x498), (0x49b, 0x49a), (0x49d, 0x49c),
    (0x49f, 0x49e), (0x4a1, 0x4a0), (0x4a3, 0x4a2), (0x4a5, 0x4a4), (0x4a7, 0x4a6), (0x4a9, 0x4a8),
    (0x4ab, 0x4aa), (0x4ad, 0x4ac), (0x4af, 0x4ae), (0x4b1, 0x4b0), (0x4b3, 0x4b2), (0x4b5, 0x4b4),
    (0x4b7, 0x4b6), (0x4b9, 0x4b8), (0x4bb, 0x4ba), (0x4bd, 0x4bc), (0x4bf, 0x4be), (0x4c2, 0x4c1),
    (0x4c4, 0x4c3), (0x4c6, 0x4c5), (0x4c8, 0x4c7), (0x4ca, 0x4c9), (0x4cc, 0x4cb), (0x4ce, 0x4cd),
    (0x4cf, 0x4c0), (0x4d1, 0x4d0), (0x4d3, 0x4d2), (0x4d5, 0x4d4), (0x4d7, 0x4d6), (0x4d9, 0x4d8),
    (0x4db, 0x4da), (0x4dd, 0x4dc), (0x4df, 0x4de), (0x4e1, 0x4e0), (0x4e3, 0x4e2), (0x4e5, 0x4e4),
    (0x4e7, 0x4e6), (0x4e9, 0x4e8), (0x4eb, 0x4ea), (0x4ed, 0x4ec), (0x4ef, 0x4ee), (0x4f1, 0x4f0),
    (0x4f3, 0x4f2), (0x4f5, 0x4f4), (0x4f7, 0x4f6), (0x4f9, 0x4f8), (0x4fb, 0x4fa), (0x4fd, 0x4fc),
    (0x4ff, 0x4fe), (0x501, 0x500), (0x503, 0x502), (0x505, 0x504), (0x507, 0x506), (0x509, 0x508),
    (0x50b, 0x50a), (0x50d, 0x50c), (0x50f, 0x50e), (0x511, 0x510), (0x513, 0x512), (0x515, 0x514),
    (0x517, 0x516), (0x519, 0x518), (0x51b, 0x51a), (0x51d, 0x51c), (0x51f, 0x51e), (0x521, 0x520)]"

definition unicode_map_uppercase_4 :: "(int \<times> int) list" where
  "unicode_map_uppercase_4 = [
    (0x523, 0x522), (0x525, 0x524), (0x527, 0x526), (0x529, 0x528), (0x52b, 0x52a), (0x52d, 0x52c),
    (0x52f, 0x52e), (0x561, 0x531), (0x562, 0x532), (0x563, 0x533), (0x564, 0x534), (0x565, 0x535),
    (0x566, 0x536), (0x567, 0x537), (0x568, 0x538), (0x569, 0x539), (0x56a, 0x53a), (0x56b, 0x53b),
    (0x56c, 0x53c), (0x56d, 0x53d), (0x56e, 0x53e), (0x56f, 0x53f), (0x570, 0x540), (0x571, 0x541),
    (0x572, 0x542), (0x573, 0x543), (0x574, 0x544), (0x575, 0x545), (0x576, 0x546), (0x577, 0x547),
    (0x578, 0x548), (0x579, 0x549), (0x57a, 0x54a), (0x57b, 0x54b), (0x57c, 0x54c), (0x57d, 0x54d),
    (0x57e, 0x54e), (0x57f, 0x54f), (0x580, 0x550), (0x581, 0x551), (0x582, 0x552), (0x583, 0x553),
    (0x584, 0x554), (0x585, 0x555), (0x586, 0x556), (0x10d0, 0x1c90), (0x10d1, 0x1c91), (0x10d2, 0x1c92),
    (0x10d3, 0x1c93), (0x10d4, 0x1c94), (0x10d5, 0x1c95), (0x10d6, 0x1c96), (0x10d7, 0x1c97),
    (0x10d8, 0x1c98), (0x10d9, 0x1c99), (0x10da, 0x1c9a), (0x10db, 0x1c9b), (0x10dc, 0x1c9c),
    (0x10dd, 0x1c9d), (0x10de, 0x1c9e), (0x10df, 0x1c9f), (0x10e0, 0x1ca0), (0x10e1, 0x1ca1),
    (0x10e2, 0x1ca2), (0x10e3, 0x1ca3), (0x10e4, 0x1ca4), (0x10e5, 0x1ca5), (0x10e6, 0x1ca6),
    (0x10e7, 0x1ca7), (0x10e8, 0x1ca8), (0x10e9, 0x1ca9), (0x10ea, 0x1caa), (0x10eb, 0x1cab),
    (0x10ec, 0x1cac), (0x10ed, 0x1cad), (0x10ee, 0x1cae), (0x10ef, 0x1caf), (0x10f0, 0x1cb0),
    (0x10f1, 0x1cb1), (0x10f2, 0x1cb2), (0x10f3, 0x1cb3), (0x10f4, 0x1cb4), (0x10f5, 0x1cb5),
    (0x10f6, 0x1cb6), (0x10f7, 0x1cb7), (0x10f8, 0x1cb8), (0x10f9, 0x1cb9), (0x10fa, 0x1cba),
    (0x10fd, 0x1cbd), (0x10fe, 0x1cbe), (0x10ff, 0x1cbf), (0x13f8, 0x13f0), (0x13f9, 0x13f1),
    (0x13fa, 0x13f2), (0x13fb, 0x13f3), (0x13fc, 0x13f4), (0x13fd, 0x13f5), (0x1c80, 0x412), (0x1c81, 0x414),
    (0x1c82, 0x41e), (0x1c83, 0x421), (0x1c84, 0x422), (0x1c85, 0x422), (0x1c86, 0x42a), (0x1c87, 0x462),
    (0x1c88, 0xa64a), (0x1d79, 0xa77d), (0x1d7d, 0x2c63), (0x1d8e, 0xa7c6), (0x1e01, 0x1e00),
    (0x1e03, 0x1e02), (0x1e05, 0x1e04), (0x1e07, 0x1e06), (0x1e09, 0x1e08), (0x1e0b, 0x1e0a),
    (0x1e0d, 0x1e0c), (0x1e0f, 0x1e0e), (0x1e11, 0x1e10), (0x1e13, 0x1e12), (0x1e15, 0x1e14),
    (0x1e17, 0x1e16), (0x1e19, 0x1e18), (0x1e1b, 0x1e1a), (0x1e1d, 0x1e1c), (0x1e1f, 0x1e1e),
    (0x1e21, 0x1e20), (0x1e23, 0x1e22), (0x1e25, 0x1e24), (0x1e27, 0x1e26), (0x1e29, 0x1e28),
    (0x1e2b, 0x1e2a), (0x1e2d, 0x1e2c), (0x1e2f, 0x1e2e), (0x1e31, 0x1e30), (0x1e33, 0x1e32),
    (0x1e35, 0x1e34), (0x1e37, 0x1e36), (0x1e39, 0x1e38), (0x1e3b, 0x1e3a), (0x1e3d, 0x1e3c),
    (0x1e3f, 0x1e3e), (0x1e41, 0x1e40), (0x1e43, 0x1e42), (0x1e45, 0x1e44), (0x1e47, 0x1e46),
    (0x1e49, 0x1e48), (0x1e4b, 0x1e4a), (0x1e4d, 0x1e4c), (0x1e4f, 0x1e4e), (0x1e51, 0x1e50)]"

definition unicode_map_uppercase_5 :: "(int \<times> int) list" where
  "unicode_map_uppercase_5 = [
    (0x1e53, 0x1e52), (0x1e55, 0x1e54), (0x1e57, 0x1e56), (0x1e59, 0x1e58), (0x1e5b, 0x1e5a),
    (0x1e5d, 0x1e5c), (0x1e5f, 0x1e5e), (0x1e61, 0x1e60), (0x1e63, 0x1e62), (0x1e65, 0x1e64),
    (0x1e67, 0x1e66), (0x1e69, 0x1e68), (0x1e6b, 0x1e6a), (0x1e6d, 0x1e6c), (0x1e6f, 0x1e6e),
    (0x1e71, 0x1e70), (0x1e73, 0x1e72), (0x1e75, 0x1e74), (0x1e77, 0x1e76), (0x1e79, 0x1e78),
    (0x1e7b, 0x1e7a), (0x1e7d, 0x1e7c), (0x1e7f, 0x1e7e), (0x1e81, 0x1e80), (0x1e83, 0x1e82),
    (0x1e85, 0x1e84), (0x1e87, 0x1e86), (0x1e89, 0x1e88), (0x1e8b, 0x1e8a), (0x1e8d, 0x1e8c),
    (0x1e8f, 0x1e8e), (0x1e91, 0x1e90), (0x1e93, 0x1e92), (0x1e95, 0x1e94), (0x1e9b, 0x1e60),
    (0x1ea1, 0x1ea0), (0x1ea3, 0x1ea2), (0x1ea5, 0x1ea4), (0x1ea7, 0x1ea6), (0x1ea9, 0x1ea8),
    (0x1eab, 0x1eaa), (0x1ead, 0x1eac), (0x1eaf, 0x1eae), (0x1eb1, 0x1eb0), (0x1eb3, 0x1eb2),
    (0x1eb5, 0x1eb4), (0x1eb7, 0x1eb6), (0x1eb9, 0x1eb8), (0x1ebb, 0x1eba), (0x1ebd, 0x1ebc),
    (0x1ebf, 0x1ebe), (0x1ec1, 0x1ec0), (0x1ec3, 0x1ec2), (0x1ec5, 0x1ec4), (0x1ec7, 0x1ec6),
    (0x1ec9, 0x1ec8), (0x1ecb, 0x1eca), (0x1ecd, 0x1ecc), (0x1ecf, 0x1ece), (0x1ed1, 0x1ed0),
    (0x1ed3, 0x1ed2), (0x1ed5, 0x1ed4), (0x1ed7, 0x1ed6), (0x1ed9, 0x1ed8), (0x1edb, 0x1eda),
    (0x1edd, 0x1edc), (0x1edf, 0x1ede), (0x1ee1, 0x1ee0), (0x1ee3, 0x1ee2), (0x1ee5, 0x1ee4),
    (0x1ee7, 0x1ee6), (0x1ee9, 0x1ee8), (0x1eeb, 0x1eea), (0x1eed, 0x1eec), (0x1eef, 0x1eee),
    (0x1ef1, 0x1ef0), (0x1ef3, 0x1ef2), (0x1ef5, 0x1ef4), (0x1ef7, 0x1ef6), (0x1ef9, 0x1ef8),
    (0x1efb, 0x1efa), (0x1efd, 0x1efc), (0x1eff, 0x1efe), (0x1f00, 0x1f08), (0x1f01, 0x1f09),
    (0x1f02, 0x1f0a), (0x1f03, 0x1f0b), (0x1f04, 0x1f0c), (0x1f05, 0x1f0d), (0x1f06, 0x1f0e),
    (0x1f07, 0x1f0f), (0x1f10, 0x1f18), (0x1f11, 0x1f19), (0x1f12, 0x1f1a), (0x1f13, 0x1f1b),
    (0x1f14, 0x1f1c), (0x1f15, 0x1f1d), (0x1f20, 0x1f28), (0x1f21, 0x1f29), (0x1f22, 0x1f2a),
    (0x1f23, 0x1f2b), (0x1f24, 0x1f2c), (0x1f25, 0x1f2d), (0x1f26, 0x1f2e), (0x1f27, 0x1f2f),
    (0x1f30, 0x1f38), (0x1f31, 0x1f39), (0x1f32, 0x1f3a), (0x1f33, 0x1f3b), (0x1f34, 0x1f3c),
    (0x1f35, 0x1f3d), (0x1f36, 0x1f3e), (0x1f37, 0x1f3f), (0x1f40, 0x1f48), (0x1f41, 0x1f49),
    (0x1f42, 0x1f4a), (0x1f43, 0x1f4b), (0x1f44, 0x1f4c), (0x1f45, 0x1f4d), (0x1f51, 0x1f59),
    (0x1f53, 0x1f5b), (0x1f55, 0x1f5d), (0x1f57, 0x1f5f), (0x1f60, 0x1f68), (0x1f61, 0x1f69),
    (0x1f62, 0x1f6a), (0x1f63, 0x1f6b), (0x1f64, 0x1f6c), (0x1f65, 0x1f6d), (0x1f66, 0x1f6e),
    (0x1f67, 0x1f6f), (0x1f70, 0x1fba), (0x1f71, 0x1fbb), (0x1f72, 0x1fc8), (0x1f73, 0x1fc9),
    (0x1f74, 0x1fca), (0x1f75, 0x1fcb), (0x1f76, 0x1fda), (0x1f77, 0x1fdb), (0x1f78, 0x1ff8),
    (0x1f79, 0x1ff9), (0x1f7a, 0x1fea), (0x1f7b, 0x1feb), (0x1f7c, 0x1ffa), (0x1f7d, 0x1ffb),
    (0x1f80, 0x1f88), (0x1f81, 0x1f89), (0x1f82, 0x1f8a), (0x1f83, 0x1f8b), (0x1f84, 0x1f8c)]"

definition unicode_map_uppercase_6 :: "(int \<times> int) list" where
  "unicode_map_uppercase_6 = [
    (0x1f85, 0x1f8d), (0x1f86, 0x1f8e), (0x1f87, 0x1f8f), (0x1f90, 0x1f98), (0x1f91, 0x1f99),
    (0x1f92, 0x1f9a), (0x1f93, 0x1f9b), (0x1f94, 0x1f9c), (0x1f95, 0x1f9d), (0x1f96, 0x1f9e),
    (0x1f97, 0x1f9f), (0x1fa0, 0x1fa8), (0x1fa1, 0x1fa9), (0x1fa2, 0x1faa), (0x1fa3, 0x1fab),
    (0x1fa4, 0x1fac), (0x1fa5, 0x1fad), (0x1fa6, 0x1fae), (0x1fa7, 0x1faf), (0x1fb0, 0x1fb8),
    (0x1fb1, 0x1fb9), (0x1fb3, 0x1fbc), (0x1fbe, 0x399), (0x1fc3, 0x1fcc), (0x1fd0, 0x1fd8), (0x1fd1, 0x1fd9),
    (0x1fe0, 0x1fe8), (0x1fe1, 0x1fe9), (0x1fe5, 0x1fec), (0x1ff3, 0x1ffc), (0x214e, 0x2132),
    (0x2170, 0x2160), (0x2171, 0x2161), (0x2172, 0x2162), (0x2173, 0x2163), (0x2174, 0x2164),
    (0x2175, 0x2165), (0x2176, 0x2166), (0x2177, 0x2167), (0x2178, 0x2168), (0x2179, 0x2169),
    (0x217a, 0x216a), (0x217b, 0x216b), (0x217c, 0x216c), (0x217d, 0x216d), (0x217e, 0x216e),
    (0x217f, 0x216f), (0x2184, 0x2183), (0x24d0, 0x24b6), (0x24d1, 0x24b7), (0x24d2, 0x24b8),
    (0x24d3, 0x24b9), (0x24d4, 0x24ba), (0x24d5, 0x24bb), (0x24d6, 0x24bc), (0x24d7, 0x24bd),
    (0x24d8, 0x24be), (0x24d9, 0x24bf), (0x24da, 0x24c0), (0x24db, 0x24c1), (0x24dc, 0x24c2),
    (0x24dd, 0x24c3), (0x24de, 0x24c4), (0x24df, 0x24c5), (0x24e0, 0x24c6), (0x24e1, 0x24c7),
    (0x24e2, 0x24c8), (0x24e3, 0x24c9), (0x24e4, 0x24ca), (0x24e5, 0x24cb), (0x24e6, 0x24cc),
    (0x24e7, 0x24cd), (0x24e8, 0x24ce), (0x24e9, 0x24cf), (0x2c30, 0x2c00), (0x2c31, 0x2c01),
    (0x2c32, 0x2c02), (0x2c33, 0x2c03), (0x2c34, 0x2c04), (0x2c35, 0x2c05), (0x2c36, 0x2c06),
    (0x2c37, 0x2c07), (0x2c38, 0x2c08), (0x2c39, 0x2c09), (0x2c3a, 0x2c0a), (0x2c3b, 0x2c0b),
    (0x2c3c, 0x2c0c), (0x2c3d, 0x2c0d), (0x2c3e, 0x2c0e), (0x2c3f, 0x2c0f), (0x2c40, 0x2c10),
    (0x2c41, 0x2c11), (0x2c42, 0x2c12), (0x2c43, 0x2c13), (0x2c44, 0x2c14), (0x2c45, 0x2c15),
    (0x2c46, 0x2c16), (0x2c47, 0x2c17), (0x2c48, 0x2c18), (0x2c49, 0x2c19), (0x2c4a, 0x2c1a),
    (0x2c4b, 0x2c1b), (0x2c4c, 0x2c1c), (0x2c4d, 0x2c1d), (0x2c4e, 0x2c1e), (0x2c4f, 0x2c1f),
    (0x2c50, 0x2c20), (0x2c51, 0x2c21), (0x2c52, 0x2c22), (0x2c53, 0x2c23), (0x2c54, 0x2c24),
    (0x2c55, 0x2c25), (0x2c56, 0x2c26), (0x2c57, 0x2c27), (0x2c58, 0x2c28), (0x2c59, 0x2c29),
    (0x2c5a, 0x2c2a), (0x2c5b, 0x2c2b), (0x2c5c, 0x2c2c), (0x2c5d, 0x2c2d), (0x2c5e, 0x2c2e),
    (0x2c5f, 0x2c2f), (0x2c61, 0x2c60), (0x2c65, 0x23a), (0x2c66, 0x23e), (0x2c68, 0x2c67), (0x2c6a, 0x2c69),
    (0x2c6c, 0x2c6b), (0x2c73, 0x2c72), (0x2c76, 0x2c75), (0x2c81, 0x2c80), (0x2c83, 0x2c82),
    (0x2c85, 0x2c84), (0x2c87, 0x2c86), (0x2c89, 0x2c88), (0x2c8b, 0x2c8a), (0x2c8d, 0x2c8c),
    (0x2c8f, 0x2c8e), (0x2c91, 0x2c90), (0x2c93, 0x2c92), (0x2c95, 0x2c94), (0x2c97, 0x2c96),
    (0x2c99, 0x2c98), (0x2c9b, 0x2c9a), (0x2c9d, 0x2c9c), (0x2c9f, 0x2c9e), (0x2ca1, 0x2ca0),
    (0x2ca3, 0x2ca2), (0x2ca5, 0x2ca4), (0x2ca7, 0x2ca6)]"

definition unicode_map_uppercase_7 :: "(int \<times> int) list" where
  "unicode_map_uppercase_7 = [
    (0x2ca9, 0x2ca8), (0x2cab, 0x2caa), (0x2cad, 0x2cac), (0x2caf, 0x2cae), (0x2cb1, 0x2cb0),
    (0x2cb3, 0x2cb2), (0x2cb5, 0x2cb4), (0x2cb7, 0x2cb6), (0x2cb9, 0x2cb8), (0x2cbb, 0x2cba),
    (0x2cbd, 0x2cbc), (0x2cbf, 0x2cbe), (0x2cc1, 0x2cc0), (0x2cc3, 0x2cc2), (0x2cc5, 0x2cc4),
    (0x2cc7, 0x2cc6), (0x2cc9, 0x2cc8), (0x2ccb, 0x2cca), (0x2ccd, 0x2ccc), (0x2ccf, 0x2cce),
    (0x2cd1, 0x2cd0), (0x2cd3, 0x2cd2), (0x2cd5, 0x2cd4), (0x2cd7, 0x2cd6), (0x2cd9, 0x2cd8),
    (0x2cdb, 0x2cda), (0x2cdd, 0x2cdc), (0x2cdf, 0x2cde), (0x2ce1, 0x2ce0), (0x2ce3, 0x2ce2),
    (0x2cec, 0x2ceb), (0x2cee, 0x2ced), (0x2cf3, 0x2cf2), (0x2d00, 0x10a0), (0x2d01, 0x10a1),
    (0x2d02, 0x10a2), (0x2d03, 0x10a3), (0x2d04, 0x10a4), (0x2d05, 0x10a5), (0x2d06, 0x10a6),
    (0x2d07, 0x10a7), (0x2d08, 0x10a8), (0x2d09, 0x10a9), (0x2d0a, 0x10aa), (0x2d0b, 0x10ab),
    (0x2d0c, 0x10ac), (0x2d0d, 0x10ad), (0x2d0e, 0x10ae), (0x2d0f, 0x10af), (0x2d10, 0x10b0),
    (0x2d11, 0x10b1), (0x2d12, 0x10b2), (0x2d13, 0x10b3), (0x2d14, 0x10b4), (0x2d15, 0x10b5),
    (0x2d16, 0x10b6), (0x2d17, 0x10b7), (0x2d18, 0x10b8), (0x2d19, 0x10b9), (0x2d1a, 0x10ba),
    (0x2d1b, 0x10bb), (0x2d1c, 0x10bc), (0x2d1d, 0x10bd), (0x2d1e, 0x10be), (0x2d1f, 0x10bf),
    (0x2d20, 0x10c0), (0x2d21, 0x10c1), (0x2d22, 0x10c2), (0x2d23, 0x10c3), (0x2d24, 0x10c4),
    (0x2d25, 0x10c5), (0x2d27, 0x10c7), (0x2d2d, 0x10cd), (0xa641, 0xa640), (0xa643, 0xa642),
    (0xa645, 0xa644), (0xa647, 0xa646), (0xa649, 0xa648), (0xa64b, 0xa64a), (0xa64d, 0xa64c),
    (0xa64f, 0xa64e), (0xa651, 0xa650), (0xa653, 0xa652), (0xa655, 0xa654), (0xa657, 0xa656),
    (0xa659, 0xa658), (0xa65b, 0xa65a), (0xa65d, 0xa65c), (0xa65f, 0xa65e), (0xa661, 0xa660),
    (0xa663, 0xa662), (0xa665, 0xa664), (0xa667, 0xa666), (0xa669, 0xa668), (0xa66b, 0xa66a),
    (0xa66d, 0xa66c), (0xa681, 0xa680), (0xa683, 0xa682), (0xa685, 0xa684), (0xa687, 0xa686),
    (0xa689, 0xa688), (0xa68b, 0xa68a), (0xa68d, 0xa68c), (0xa68f, 0xa68e), (0xa691, 0xa690),
    (0xa693, 0xa692), (0xa695, 0xa694), (0xa697, 0xa696), (0xa699, 0xa698), (0xa69b, 0xa69a),
    (0xa723, 0xa722), (0xa725, 0xa724), (0xa727, 0xa726), (0xa729, 0xa728), (0xa72b, 0xa72a),
    (0xa72d, 0xa72c), (0xa72f, 0xa72e), (0xa733, 0xa732), (0xa735, 0xa734), (0xa737, 0xa736),
    (0xa739, 0xa738), (0xa73b, 0xa73a), (0xa73d, 0xa73c), (0xa73f, 0xa73e), (0xa741, 0xa740),
    (0xa743, 0xa742), (0xa745, 0xa744), (0xa747, 0xa746), (0xa749, 0xa748), (0xa74b, 0xa74a),
    (0xa74d, 0xa74c), (0xa74f, 0xa74e), (0xa751, 0xa750), (0xa753, 0xa752), (0xa755, 0xa754),
    (0xa757, 0xa756), (0xa759, 0xa758), (0xa75b, 0xa75a), (0xa75d, 0xa75c), (0xa75f, 0xa75e),
    (0xa761, 0xa760), (0xa763, 0xa762), (0xa765, 0xa764), (0xa767, 0xa766), (0xa769, 0xa768),
    (0xa76b, 0xa76a), (0xa76d, 0xa76c), (0xa76f, 0xa76e), (0xa77a, 0xa779), (0xa77c, 0xa77b)]"

definition unicode_map_uppercase_8 :: "(int \<times> int) list" where
  "unicode_map_uppercase_8 = [
    (0xa77f, 0xa77e), (0xa781, 0xa780), (0xa783, 0xa782), (0xa785, 0xa784), (0xa787, 0xa786),
    (0xa78c, 0xa78b), (0xa791, 0xa790), (0xa793, 0xa792), (0xa794, 0xa7c4), (0xa797, 0xa796),
    (0xa799, 0xa798), (0xa79b, 0xa79a), (0xa79d, 0xa79c), (0xa79f, 0xa79e), (0xa7a1, 0xa7a0),
    (0xa7a3, 0xa7a2), (0xa7a5, 0xa7a4), (0xa7a7, 0xa7a6), (0xa7a9, 0xa7a8), (0xa7b5, 0xa7b4),
    (0xa7b7, 0xa7b6), (0xa7b9, 0xa7b8), (0xa7bb, 0xa7ba), (0xa7bd, 0xa7bc), (0xa7bf, 0xa7be),
    (0xa7c1, 0xa7c0), (0xa7c3, 0xa7c2), (0xa7c8, 0xa7c7), (0xa7ca, 0xa7c9), (0xa7d1, 0xa7d0),
    (0xa7d7, 0xa7d6), (0xa7d9, 0xa7d8), (0xa7f6, 0xa7f5), (0xab53, 0xa7b3), (0xab70, 0x13a0),
    (0xab71, 0x13a1), (0xab72, 0x13a2), (0xab73, 0x13a3), (0xab74, 0x13a4), (0xab75, 0x13a5),
    (0xab76, 0x13a6), (0xab77, 0x13a7), (0xab78, 0x13a8), (0xab79, 0x13a9), (0xab7a, 0x13aa),
    (0xab7b, 0x13ab), (0xab7c, 0x13ac), (0xab7d, 0x13ad), (0xab7e, 0x13ae), (0xab7f, 0x13af),
    (0xab80, 0x13b0), (0xab81, 0x13b1), (0xab82, 0x13b2), (0xab83, 0x13b3), (0xab84, 0x13b4),
    (0xab85, 0x13b5), (0xab86, 0x13b6), (0xab87, 0x13b7), (0xab88, 0x13b8), (0xab89, 0x13b9),
    (0xab8a, 0x13ba), (0xab8b, 0x13bb), (0xab8c, 0x13bc), (0xab8d, 0x13bd), (0xab8e, 0x13be),
    (0xab8f, 0x13bf), (0xab90, 0x13c0), (0xab91, 0x13c1), (0xab92, 0x13c2), (0xab93, 0x13c3),
    (0xab94, 0x13c4), (0xab95, 0x13c5), (0xab96, 0x13c6), (0xab97, 0x13c7), (0xab98, 0x13c8),
    (0xab99, 0x13c9), (0xab9a, 0x13ca), (0xab9b, 0x13cb), (0xab9c, 0x13cc), (0xab9d, 0x13cd),
    (0xab9e, 0x13ce), (0xab9f, 0x13cf), (0xaba0, 0x13d0), (0xaba1, 0x13d1), (0xaba2, 0x13d2),
    (0xaba3, 0x13d3), (0xaba4, 0x13d4), (0xaba5, 0x13d5), (0xaba6, 0x13d6), (0xaba7, 0x13d7),
    (0xaba8, 0x13d8), (0xaba9, 0x13d9), (0xabaa, 0x13da), (0xabab, 0x13db), (0xabac, 0x13dc),
    (0xabad, 0x13dd), (0xabae, 0x13de), (0xabaf, 0x13df), (0xabb0, 0x13e0), (0xabb1, 0x13e1),
    (0xabb2, 0x13e2), (0xabb3, 0x13e3), (0xabb4, 0x13e4), (0xabb5, 0x13e5), (0xabb6, 0x13e6),
    (0xabb7, 0x13e7), (0xabb8, 0x13e8), (0xabb9, 0x13e9), (0xabba, 0x13ea), (0xabbb, 0x13eb),
    (0xabbc, 0x13ec), (0xabbd, 0x13ed), (0xabbe, 0x13ee), (0xabbf, 0x13ef), (0xff41, 0xff21),
    (0xff42, 0xff22), (0xff43, 0xff23), (0xff44, 0xff24), (0xff45, 0xff25), (0xff46, 0xff26),
    (0xff47, 0xff27), (0xff48, 0xff28), (0xff49, 0xff29), (0xff4a, 0xff2a), (0xff4b, 0xff2b),
    (0xff4c, 0xff2c), (0xff4d, 0xff2d), (0xff4e, 0xff2e), (0xff4f, 0xff2f), (0xff50, 0xff30),
    (0xff51, 0xff31), (0xff52, 0xff32), (0xff53, 0xff33), (0xff54, 0xff34), (0xff55, 0xff35),
    (0xff56, 0xff36), (0xff57, 0xff37), (0xff58, 0xff38), (0xff59, 0xff39), (0xff5a, 0xff3a),
    (0x10428, 0x10400), (0x10429, 0x10401), (0x1042a, 0x10402), (0x1042b, 0x10403), (0x1042c, 0x10404),
    (0x1042d, 0x10405), (0x1042e, 0x10406), (0x1042f, 0x10407), (0x10430, 0x10408), (0x10431, 0x10409)]"

definition unicode_map_uppercase_9 :: "(int \<times> int) list" where
  "unicode_map_uppercase_9 = [
    (0x10432, 0x1040a), (0x10433, 0x1040b), (0x10434, 0x1040c), (0x10435, 0x1040d), (0x10436, 0x1040e),
    (0x10437, 0x1040f), (0x10438, 0x10410), (0x10439, 0x10411), (0x1043a, 0x10412), (0x1043b, 0x10413),
    (0x1043c, 0x10414), (0x1043d, 0x10415), (0x1043e, 0x10416), (0x1043f, 0x10417), (0x10440, 0x10418),
    (0x10441, 0x10419), (0x10442, 0x1041a), (0x10443, 0x1041b), (0x10444, 0x1041c), (0x10445, 0x1041d),
    (0x10446, 0x1041e), (0x10447, 0x1041f), (0x10448, 0x10420), (0x10449, 0x10421), (0x1044a, 0x10422),
    (0x1044b, 0x10423), (0x1044c, 0x10424), (0x1044d, 0x10425), (0x1044e, 0x10426), (0x1044f, 0x10427),
    (0x104d8, 0x104b0), (0x104d9, 0x104b1), (0x104da, 0x104b2), (0x104db, 0x104b3), (0x104dc, 0x104b4),
    (0x104dd, 0x104b5), (0x104de, 0x104b6), (0x104df, 0x104b7), (0x104e0, 0x104b8), (0x104e1, 0x104b9),
    (0x104e2, 0x104ba), (0x104e3, 0x104bb), (0x104e4, 0x104bc), (0x104e5, 0x104bd), (0x104e6, 0x104be),
    (0x104e7, 0x104bf), (0x104e8, 0x104c0), (0x104e9, 0x104c1), (0x104ea, 0x104c2), (0x104eb, 0x104c3),
    (0x104ec, 0x104c4), (0x104ed, 0x104c5), (0x104ee, 0x104c6), (0x104ef, 0x104c7), (0x104f0, 0x104c8),
    (0x104f1, 0x104c9), (0x104f2, 0x104ca), (0x104f3, 0x104cb), (0x104f4, 0x104cc), (0x104f5, 0x104cd),
    (0x104f6, 0x104ce), (0x104f7, 0x104cf), (0x104f8, 0x104d0), (0x104f9, 0x104d1), (0x104fa, 0x104d2),
    (0x104fb, 0x104d3), (0x10597, 0x10570), (0x10598, 0x10571), (0x10599, 0x10572), (0x1059a, 0x10573),
    (0x1059b, 0x10574), (0x1059c, 0x10575), (0x1059d, 0x10576), (0x1059e, 0x10577), (0x1059f, 0x10578),
    (0x105a0, 0x10579), (0x105a1, 0x1057a), (0x105a3, 0x1057c), (0x105a4, 0x1057d), (0x105a5, 0x1057e),
    (0x105a6, 0x1057f), (0x105a7, 0x10580), (0x105a8, 0x10581), (0x105a9, 0x10582), (0x105aa, 0x10583),
    (0x105ab, 0x10584), (0x105ac, 0x10585), (0x105ad, 0x10586), (0x105ae, 0x10587), (0x105af, 0x10588),
    (0x105b0, 0x10589), (0x105b1, 0x1058a), (0x105b3, 0x1058c), (0x105b4, 0x1058d), (0x105b5, 0x1058e),
    (0x105b6, 0x1058f), (0x105b7, 0x10590), (0x105b8, 0x10591), (0x105b9, 0x10592), (0x105bb, 0x10594),
    (0x105bc, 0x10595), (0x10cc0, 0x10c80), (0x10cc1, 0x10c81), (0x10cc2, 0x10c82), (0x10cc3, 0x10c83),
    (0x10cc4, 0x10c84), (0x10cc5, 0x10c85), (0x10cc6, 0x10c86), (0x10cc7, 0x10c87), (0x10cc8, 0x10c88),
    (0x10cc9, 0x10c89), (0x10cca, 0x10c8a), (0x10ccb, 0x10c8b), (0x10ccc, 0x10c8c), (0x10ccd, 0x10c8d),
    (0x10cce, 0x10c8e), (0x10ccf, 0x10c8f), (0x10cd0, 0x10c90), (0x10cd1, 0x10c91), (0x10cd2, 0x10c92),
    (0x10cd3, 0x10c93), (0x10cd4, 0x10c94), (0x10cd5, 0x10c95), (0x10cd6, 0x10c96), (0x10cd7, 0x10c97),
    (0x10cd8, 0x10c98), (0x10cd9, 0x10c99), (0x10cda, 0x10c9a), (0x10cdb, 0x10c9b), (0x10cdc, 0x10c9c),
    (0x10cdd, 0x10c9d), (0x10cde, 0x10c9e), (0x10cdf, 0x10c9f), (0x10ce0, 0x10ca0), (0x10ce1, 0x10ca1),
    (0x10ce2, 0x10ca2), (0x10ce3, 0x10ca3), (0x10ce4, 0x10ca4), (0x10ce5, 0x10ca5), (0x10ce6, 0x10ca6),
    (0x10ce7, 0x10ca7), (0x10ce8, 0x10ca8), (0x10ce9, 0x10ca9), (0x10cea, 0x10caa), (0x10ceb, 0x10cab),
    (0x10cec, 0x10cac), (0x10ced, 0x10cad), (0x10cee, 0x10cae), (0x10cef, 0x10caf), (0x10cf0, 0x10cb0)]"

definition unicode_map_uppercase_10 :: "(int \<times> int) list" where
  "unicode_map_uppercase_10 = [
    (0x10cf1, 0x10cb1), (0x10cf2, 0x10cb2), (0x118c0, 0x118a0), (0x118c1, 0x118a1), (0x118c2, 0x118a2),
    (0x118c3, 0x118a3), (0x118c4, 0x118a4), (0x118c5, 0x118a5), (0x118c6, 0x118a6), (0x118c7, 0x118a7),
    (0x118c8, 0x118a8), (0x118c9, 0x118a9), (0x118ca, 0x118aa), (0x118cb, 0x118ab), (0x118cc, 0x118ac),
    (0x118cd, 0x118ad), (0x118ce, 0x118ae), (0x118cf, 0x118af), (0x118d0, 0x118b0), (0x118d1, 0x118b1),
    (0x118d2, 0x118b2), (0x118d3, 0x118b3), (0x118d4, 0x118b4), (0x118d5, 0x118b5), (0x118d6, 0x118b6),
    (0x118d7, 0x118b7), (0x118d8, 0x118b8), (0x118d9, 0x118b9), (0x118da, 0x118ba), (0x118db, 0x118bb),
    (0x118dc, 0x118bc), (0x118dd, 0x118bd), (0x118de, 0x118be), (0x118df, 0x118bf), (0x16e60, 0x16e40),
    (0x16e61, 0x16e41), (0x16e62, 0x16e42), (0x16e63, 0x16e43), (0x16e64, 0x16e44), (0x16e65, 0x16e45),
    (0x16e66, 0x16e46), (0x16e67, 0x16e47), (0x16e68, 0x16e48), (0x16e69, 0x16e49), (0x16e6a, 0x16e4a),
    (0x16e6b, 0x16e4b), (0x16e6c, 0x16e4c), (0x16e6d, 0x16e4d), (0x16e6e, 0x16e4e), (0x16e6f, 0x16e4f),
    (0x16e70, 0x16e50), (0x16e71, 0x16e51), (0x16e72, 0x16e52), (0x16e73, 0x16e53), (0x16e74, 0x16e54),
    (0x16e75, 0x16e55), (0x16e76, 0x16e56), (0x16e77, 0x16e57), (0x16e78, 0x16e58), (0x16e79, 0x16e59),
    (0x16e7a, 0x16e5a), (0x16e7b, 0x16e5b), (0x16e7c, 0x16e5c), (0x16e7d, 0x16e5d), (0x16e7e, 0x16e5e),
    (0x16e7f, 0x16e5f), (0x1e922, 0x1e900), (0x1e923, 0x1e901), (0x1e924, 0x1e902), (0x1e925, 0x1e903),
    (0x1e926, 0x1e904), (0x1e927, 0x1e905), (0x1e928, 0x1e906), (0x1e929, 0x1e907), (0x1e92a, 0x1e908),
    (0x1e92b, 0x1e909), (0x1e92c, 0x1e90a), (0x1e92d, 0x1e90b), (0x1e92e, 0x1e90c), (0x1e92f, 0x1e90d),
    (0x1e930, 0x1e90e), (0x1e931, 0x1e90f), (0x1e932, 0x1e910), (0x1e933, 0x1e911), (0x1e934, 0x1e912),
    (0x1e935, 0x1e913), (0x1e936, 0x1e914), (0x1e937, 0x1e915), (0x1e938, 0x1e916), (0x1e939, 0x1e917),
    (0x1e93a, 0x1e918), (0x1e93b, 0x1e919), (0x1e93c, 0x1e91a), (0x1e93d, 0x1e91b), (0x1e93e, 0x1e91c),
    (0x1e93f, 0x1e91d), (0x1e940, 0x1e91e), (0x1e941, 0x1e91f), (0x1e942, 0x1e920), (0x1e943, 0x1e921)]"

definition unicode_map_uppercase :: "(int \<times> int) list" where
  "unicode_map_uppercase =
    unicode_map_uppercase_1 @ unicode_map_uppercase_2 @ unicode_map_uppercase_3 @ unicode_map_uppercase_4 @ unicode_map_uppercase_5 @ unicode_map_uppercase_6 @ unicode_map_uppercase_7 @ unicode_map_uppercase_8 @ unicode_map_uppercase_9 @ unicode_map_uppercase_10"

section \<open>Decomposition: the first and last code point of a range and its base character\<close>

definition unicode_ranges_nfd_1 :: "(int \<times> int \<times> int) list" where
  "unicode_ranges_nfd_1 = [
    (0, 0, 0), (0xc0, 0xc5, 0x41), (0xc7, 0xc7, 0x43), (0xc8, 0xcb, 0x45), (0xcc, 0xcf, 0x49),
    (0xd1, 0xd1, 0x4e), (0xd2, 0xd6, 0x4f), (0xd9, 0xdc, 0x55), (0xdd, 0xdd, 0x59), (0xe0, 0xe5, 0x61),
    (0xe7, 0xe7, 0x63), (0xe8, 0xeb, 0x65), (0xec, 0xef, 0x69), (0xf1, 0xf1, 0x6e), (0xf2, 0xf6, 0x6f),
    (0xf9, 0xfc, 0x75), (0xfd, 0xfd, 0x79), (0xff, 0xff, 0x79), (0x100, 0x100, 0x41), (0x101, 0x101, 0x61),
    (0x102, 0x102, 0x41), (0x103, 0x103, 0x61), (0x104, 0x104, 0x41), (0x105, 0x105, 0x61),
    (0x106, 0x106, 0x43), (0x107, 0x107, 0x63), (0x108, 0x108, 0x43), (0x109, 0x109, 0x63),
    (0x10a, 0x10a, 0x43), (0x10b, 0x10b, 0x63), (0x10c, 0x10c, 0x43), (0x10d, 0x10d, 0x63),
    (0x10e, 0x10e, 0x44), (0x10f, 0x10f, 0x64), (0x112, 0x112, 0x45), (0x113, 0x113, 0x65),
    (0x114, 0x114, 0x45), (0x115, 0x115, 0x65), (0x116, 0x116, 0x45), (0x117, 0x117, 0x65),
    (0x118, 0x118, 0x45), (0x119, 0x119, 0x65), (0x11a, 0x11a, 0x45), (0x11b, 0x11b, 0x65),
    (0x11c, 0x11c, 0x47), (0x11d, 0x11d, 0x67), (0x11e, 0x11e, 0x47), (0x11f, 0x11f, 0x67),
    (0x120, 0x120, 0x47), (0x121, 0x121, 0x67), (0x122, 0x122, 0x47), (0x123, 0x123, 0x67),
    (0x124, 0x124, 0x48), (0x125, 0x125, 0x68), (0x128, 0x128, 0x49), (0x129, 0x129, 0x69),
    (0x12a, 0x12a, 0x49), (0x12b, 0x12b, 0x69), (0x12c, 0x12c, 0x49), (0x12d, 0x12d, 0x69),
    (0x12e, 0x12e, 0x49), (0x12f, 0x12f, 0x69), (0x130, 0x130, 0x49), (0x134, 0x134, 0x4a),
    (0x135, 0x135, 0x6a), (0x136, 0x136, 0x4b), (0x137, 0x137, 0x6b), (0x139, 0x139, 0x4c),
    (0x13a, 0x13a, 0x6c), (0x13b, 0x13b, 0x4c), (0x13c, 0x13c, 0x6c), (0x13d, 0x13d, 0x4c),
    (0x13e, 0x13e, 0x6c), (0x143, 0x143, 0x4e), (0x144, 0x144, 0x6e), (0x145, 0x145, 0x4e),
    (0x146, 0x146, 0x6e), (0x147, 0x147, 0x4e), (0x148, 0x148, 0x6e), (0x14c, 0x14c, 0x4f),
    (0x14d, 0x14d, 0x6f), (0x14e, 0x14e, 0x4f), (0x14f, 0x14f, 0x6f), (0x150, 0x150, 0x4f),
    (0x151, 0x151, 0x6f), (0x154, 0x154, 0x52), (0x155, 0x155, 0x72), (0x156, 0x156, 0x52),
    (0x157, 0x157, 0x72), (0x158, 0x158, 0x52), (0x159, 0x159, 0x72), (0x15a, 0x15a, 0x53),
    (0x15b, 0x15b, 0x73), (0x15c, 0x15c, 0x53), (0x15d, 0x15d, 0x73), (0x15e, 0x15e, 0x53),
    (0x15f, 0x15f, 0x73), (0x160, 0x160, 0x53), (0x161, 0x161, 0x73), (0x162, 0x162, 0x54),
    (0x163, 0x163, 0x74), (0x164, 0x164, 0x54), (0x165, 0x165, 0x74), (0x168, 0x168, 0x55),
    (0x169, 0x169, 0x75), (0x16a, 0x16a, 0x55), (0x16b, 0x16b, 0x75), (0x16c, 0x16c, 0x55),
    (0x16d, 0x16d, 0x75), (0x16e, 0x16e, 0x55), (0x16f, 0x16f, 0x75), (0x170, 0x170, 0x55),
    (0x171, 0x171, 0x75), (0x172, 0x172, 0x55), (0x173, 0x173, 0x75), (0x174, 0x174, 0x57),
    (0x175, 0x175, 0x77), (0x176, 0x176, 0x59), (0x177, 0x177, 0x79), (0x178, 0x178, 0x59),
    (0x179, 0x179, 0x5a), (0x17a, 0x17a, 0x7a), (0x17b, 0x17b, 0x5a), (0x17c, 0x17c, 0x7a),
    (0x17d, 0x17d, 0x5a), (0x17e, 0x17e, 0x7a), (0x1a0, 0x1a0, 0x4f), (0x1a1, 0x1a1, 0x6f),
    (0x1af, 0x1af, 0x55), (0x1b0, 0x1b0, 0x75), (0x1cd, 0x1cd, 0x41), (0x1ce, 0x1ce, 0x61),
    (0x1cf, 0x1cf, 0x49), (0x1d0, 0x1d0, 0x69), (0x1d1, 0x1d1, 0x4f), (0x1d2, 0x1d2, 0x6f),
    (0x1d3, 0x1d3, 0x55), (0x1d4, 0x1d4, 0x75), (0x1d5, 0x1d5, 0x55), (0x1d6, 0x1d6, 0x75),
    (0x1d7, 0x1d7, 0x55), (0x1d8, 0x1d8, 0x75), (0x1d9, 0x1d9, 0x55), (0x1da, 0x1da, 0x75),
    (0x1db, 0x1db, 0x55), (0x1dc, 0x1dc, 0x75), (0x1de, 0x1de, 0x41), (0x1df, 0x1df, 0x61),
    (0x1e0, 0x1e0, 0x41), (0x1e1, 0x1e1, 0x61)]"

definition unicode_ranges_nfd_2 :: "(int \<times> int \<times> int) list" where
  "unicode_ranges_nfd_2 = [
    (0x1e2, 0x1e2, 0xc6), (0x1e3, 0x1e3, 0xe6), (0x1e6, 0x1e6, 0x47), (0x1e7, 0x1e7, 0x67),
    (0x1e8, 0x1e8, 0x4b), (0x1e9, 0x1e9, 0x6b), (0x1ea, 0x1ea, 0x4f), (0x1eb, 0x1eb, 0x6f),
    (0x1ec, 0x1ec, 0x4f), (0x1ed, 0x1ed, 0x6f), (0x1ee, 0x1ee, 0x1b7), (0x1ef, 0x1ef, 0x292),
    (0x1f0, 0x1f0, 0x6a), (0x1f4, 0x1f4, 0x47), (0x1f5, 0x1f5, 0x67), (0x1f8, 0x1f8, 0x4e),
    (0x1f9, 0x1f9, 0x6e), (0x1fa, 0x1fa, 0x41), (0x1fb, 0x1fb, 0x61), (0x1fc, 0x1fc, 0xc6),
    (0x1fd, 0x1fd, 0xe6), (0x1fe, 0x1fe, 0xd8), (0x1ff, 0x1ff, 0xf8), (0x200, 0x200, 0x41),
    (0x201, 0x201, 0x61), (0x202, 0x202, 0x41), (0x203, 0x203, 0x61), (0x204, 0x204, 0x45),
    (0x205, 0x205, 0x65), (0x206, 0x206, 0x45), (0x207, 0x207, 0x65), (0x208, 0x208, 0x49),
    (0x209, 0x209, 0x69), (0x20a, 0x20a, 0x49), (0x20b, 0x20b, 0x69), (0x20c, 0x20c, 0x4f),
    (0x20d, 0x20d, 0x6f), (0x20e, 0x20e, 0x4f), (0x20f, 0x20f, 0x6f), (0x210, 0x210, 0x52),
    (0x211, 0x211, 0x72), (0x212, 0x212, 0x52), (0x213, 0x213, 0x72), (0x214, 0x214, 0x55),
    (0x215, 0x215, 0x75), (0x216, 0x216, 0x55), (0x217, 0x217, 0x75), (0x218, 0x218, 0x53),
    (0x219, 0x219, 0x73), (0x21a, 0x21a, 0x54), (0x21b, 0x21b, 0x74), (0x21e, 0x21e, 0x48),
    (0x21f, 0x21f, 0x68), (0x226, 0x226, 0x41), (0x227, 0x227, 0x61), (0x228, 0x228, 0x45),
    (0x229, 0x229, 0x65), (0x22a, 0x22a, 0x4f), (0x22b, 0x22b, 0x6f), (0x22c, 0x22c, 0x4f),
    (0x22d, 0x22d, 0x6f), (0x22e, 0x22e, 0x4f), (0x22f, 0x22f, 0x6f), (0x230, 0x230, 0x4f),
    (0x231, 0x231, 0x6f), (0x232, 0x232, 0x59), (0x233, 0x233, 0x79), (0x340, 0x340, 0x300),
    (0x341, 0x341, 0x301), (0x343, 0x343, 0x313), (0x344, 0x344, 0x308), (0x374, 0x374, 0x2b9),
    (0x37e, 0x37e, 0x3b), (0x385, 0x385, 0xa8), (0x386, 0x386, 0x391), (0x387, 0x387, 0xb7),
    (0x388, 0x388, 0x395), (0x389, 0x389, 0x397), (0x38a, 0x38a, 0x399), (0x38c, 0x38c, 0x39f),
    (0x38e, 0x38e, 0x3a5), (0x38f, 0x38f, 0x3a9), (0x390, 0x390, 0x3b9), (0x3aa, 0x3aa, 0x399),
    (0x3ab, 0x3ab, 0x3a5), (0x3ac, 0x3ac, 0x3b1), (0x3ad, 0x3ad, 0x3b5), (0x3ae, 0x3ae, 0x3b7),
    (0x3af, 0x3af, 0x3b9), (0x3b0, 0x3b0, 0x3c5), (0x3ca, 0x3ca, 0x3b9), (0x3cb, 0x3cb, 0x3c5),
    (0x3cc, 0x3cc, 0x3bf), (0x3cd, 0x3cd, 0x3c5), (0x3ce, 0x3ce, 0x3c9), (0x3d3, 0x3d4, 0x3d2),
    (0x400, 0x401, 0x415), (0x403, 0x403, 0x413), (0x407, 0x407, 0x406), (0x40c, 0x40c, 0x41a),
    (0x40d, 0x40d, 0x418), (0x40e, 0x40e, 0x423), (0x419, 0x419, 0x418), (0x439, 0x439, 0x438),
    (0x450, 0x451, 0x435), (0x453, 0x453, 0x433), (0x457, 0x457, 0x456), (0x45c, 0x45c, 0x43a),
    (0x45d, 0x45d, 0x438), (0x45e, 0x45e, 0x443), (0x476, 0x476, 0x474), (0x477, 0x477, 0x475),
    (0x4c1, 0x4c1, 0x416), (0x4c2, 0x4c2, 0x436), (0x4d0, 0x4d0, 0x410), (0x4d1, 0x4d1, 0x430),
    (0x4d2, 0x4d2, 0x410), (0x4d3, 0x4d3, 0x430), (0x4d6, 0x4d6, 0x415), (0x4d7, 0x4d7, 0x435),
    (0x4da, 0x4da, 0x4d8), (0x4db, 0x4db, 0x4d9), (0x4dc, 0x4dc, 0x416), (0x4dd, 0x4dd, 0x436),
    (0x4de, 0x4de, 0x417), (0x4df, 0x4df, 0x437), (0x4e2, 0x4e2, 0x418), (0x4e3, 0x4e3, 0x438),
    (0x4e4, 0x4e4, 0x418), (0x4e5, 0x4e5, 0x438), (0x4e6, 0x4e6, 0x41e), (0x4e7, 0x4e7, 0x43e),
    (0x4ea, 0x4ea, 0x4e8), (0x4eb, 0x4eb, 0x4e9), (0x4ec, 0x4ec, 0x42d), (0x4ed, 0x4ed, 0x44d),
    (0x4ee, 0x4ee, 0x423), (0x4ef, 0x4ef, 0x443), (0x4f0, 0x4f0, 0x423), (0x4f1, 0x4f1, 0x443),
    (0x4f2, 0x4f2, 0x423), (0x4f3, 0x4f3, 0x443), (0x4f4, 0x4f4, 0x427), (0x4f5, 0x4f5, 0x447),
    (0x4f8, 0x4f8, 0x42b), (0x4f9, 0x4f9, 0x44b), (0x622, 0x623, 0x627), (0x624, 0x624, 0x648),
    (0x625, 0x625, 0x627), (0x626, 0x626, 0x64a)]"

definition unicode_ranges_nfd_3 :: "(int \<times> int \<times> int) list" where
  "unicode_ranges_nfd_3 = [
    (0x6c0, 0x6c0, 0x6d5), (0x6c2, 0x6c2, 0x6c1), (0x6d3, 0x6d3, 0x6d2), (0x929, 0x929, 0x928),
    (0x931, 0x931, 0x930), (0x934, 0x934, 0x933), (0x958, 0x958, 0x915), (0x959, 0x959, 0x916),
    (0x95a, 0x95a, 0x917), (0x95b, 0x95b, 0x91c), (0x95c, 0x95c, 0x921), (0x95d, 0x95d, 0x922),
    (0x95e, 0x95e, 0x92b), (0x95f, 0x95f, 0x92f), (0x9cb, 0x9cc, 0x9c7), (0x9dc, 0x9dc, 0x9a1),
    (0x9dd, 0x9dd, 0x9a2), (0x9df, 0x9df, 0x9af), (0xa33, 0xa33, 0xa32), (0xa36, 0xa36, 0xa38),
    (0xa59, 0xa59, 0xa16), (0xa5a, 0xa5a, 0xa17), (0xa5b, 0xa5b, 0xa1c), (0xa5e, 0xa5e, 0xa2b),
    (0xb48, 0xb48, 0xb47), (0xb4b, 0xb4c, 0xb47), (0xb5c, 0xb5c, 0xb21), (0xb5d, 0xb5d, 0xb22),
    (0xb94, 0xb94, 0xb92), (0xbca, 0xbca, 0xbc6), (0xbcb, 0xbcb, 0xbc7), (0xbcc, 0xbcc, 0xbc6),
    (0xc48, 0xc48, 0xc46), (0xcc0, 0xcc0, 0xcbf), (0xcc7, 0xcc8, 0xcc6), (0xcca, 0xccb, 0xcc6),
    (0xd4a, 0xd4a, 0xd46), (0xd4b, 0xd4b, 0xd47), (0xd4c, 0xd4c, 0xd46), (0xdda, 0xdda, 0xdd9),
    (0xddc, 0xdde, 0xdd9), (0xf43, 0xf43, 0xf42), (0xf4d, 0xf4d, 0xf4c), (0xf52, 0xf52, 0xf51),
    (0xf57, 0xf57, 0xf56), (0xf5c, 0xf5c, 0xf5b), (0xf69, 0xf69, 0xf40), (0xf73, 0xf73, 0xf71),
    (0xf75, 0xf75, 0xf71), (0xf76, 0xf76, 0xfb2), (0xf78, 0xf78, 0xfb3), (0xf81, 0xf81, 0xf71),
    (0xf93, 0xf93, 0xf92), (0xf9d, 0xf9d, 0xf9c), (0xfa2, 0xfa2, 0xfa1), (0xfa7, 0xfa7, 0xfa6),
    (0xfac, 0xfac, 0xfab), (0xfb9, 0xfb9, 0xf90), (0x1026, 0x1026, 0x1025), (0x1b06, 0x1b06, 0x1b05),
    (0x1b08, 0x1b08, 0x1b07), (0x1b0a, 0x1b0a, 0x1b09), (0x1b0c, 0x1b0c, 0x1b0b), (0x1b0e, 0x1b0e, 0x1b0d),
    (0x1b12, 0x1b12, 0x1b11), (0x1b3b, 0x1b3b, 0x1b3a), (0x1b3d, 0x1b3d, 0x1b3c), (0x1b40, 0x1b40, 0x1b3e),
    (0x1b41, 0x1b41, 0x1b3f), (0x1b43, 0x1b43, 0x1b42), (0x1e00, 0x1e00, 0x41), (0x1e01, 0x1e01, 0x61),
    (0x1e02, 0x1e02, 0x42), (0x1e03, 0x1e03, 0x62), (0x1e04, 0x1e04, 0x42), (0x1e05, 0x1e05, 0x62),
    (0x1e06, 0x1e06, 0x42), (0x1e07, 0x1e07, 0x62), (0x1e08, 0x1e08, 0x43), (0x1e09, 0x1e09, 0x63),
    (0x1e0a, 0x1e0a, 0x44), (0x1e0b, 0x1e0b, 0x64), (0x1e0c, 0x1e0c, 0x44), (0x1e0d, 0x1e0d, 0x64),
    (0x1e0e, 0x1e0e, 0x44), (0x1e0f, 0x1e0f, 0x64), (0x1e10, 0x1e10, 0x44), (0x1e11, 0x1e11, 0x64),
    (0x1e12, 0x1e12, 0x44), (0x1e13, 0x1e13, 0x64), (0x1e14, 0x1e14, 0x45), (0x1e15, 0x1e15, 0x65),
    (0x1e16, 0x1e16, 0x45), (0x1e17, 0x1e17, 0x65), (0x1e18, 0x1e18, 0x45), (0x1e19, 0x1e19, 0x65),
    (0x1e1a, 0x1e1a, 0x45), (0x1e1b, 0x1e1b, 0x65), (0x1e1c, 0x1e1c, 0x45), (0x1e1d, 0x1e1d, 0x65),
    (0x1e1e, 0x1e1e, 0x46), (0x1e1f, 0x1e1f, 0x66), (0x1e20, 0x1e20, 0x47), (0x1e21, 0x1e21, 0x67),
    (0x1e22, 0x1e22, 0x48), (0x1e23, 0x1e23, 0x68), (0x1e24, 0x1e24, 0x48), (0x1e25, 0x1e25, 0x68),
    (0x1e26, 0x1e26, 0x48), (0x1e27, 0x1e27, 0x68), (0x1e28, 0x1e28, 0x48), (0x1e29, 0x1e29, 0x68),
    (0x1e2a, 0x1e2a, 0x48), (0x1e2b, 0x1e2b, 0x68), (0x1e2c, 0x1e2c, 0x49), (0x1e2d, 0x1e2d, 0x69),
    (0x1e2e, 0x1e2e, 0x49), (0x1e2f, 0x1e2f, 0x69), (0x1e30, 0x1e30, 0x4b), (0x1e31, 0x1e31, 0x6b),
    (0x1e32, 0x1e32, 0x4b), (0x1e33, 0x1e33, 0x6b), (0x1e34, 0x1e34, 0x4b), (0x1e35, 0x1e35, 0x6b),
    (0x1e36, 0x1e36, 0x4c), (0x1e37, 0x1e37, 0x6c), (0x1e38, 0x1e38, 0x4c), (0x1e39, 0x1e39, 0x6c),
    (0x1e3a, 0x1e3a, 0x4c), (0x1e3b, 0x1e3b, 0x6c), (0x1e3c, 0x1e3c, 0x4c), (0x1e3d, 0x1e3d, 0x6c),
    (0x1e3e, 0x1e3e, 0x4d), (0x1e3f, 0x1e3f, 0x6d), (0x1e40, 0x1e40, 0x4d), (0x1e41, 0x1e41, 0x6d),
    (0x1e42, 0x1e42, 0x4d), (0x1e43, 0x1e43, 0x6d), (0x1e44, 0x1e44, 0x4e), (0x1e45, 0x1e45, 0x6e),
    (0x1e46, 0x1e46, 0x4e), (0x1e47, 0x1e47, 0x6e), (0x1e48, 0x1e48, 0x4e), (0x1e49, 0x1e49, 0x6e),
    (0x1e4a, 0x1e4a, 0x4e), (0x1e4b, 0x1e4b, 0x6e), (0x1e4c, 0x1e4c, 0x4f), (0x1e4d, 0x1e4d, 0x6f),
    (0x1e4e, 0x1e4e, 0x4f), (0x1e4f, 0x1e4f, 0x6f)]"

definition unicode_ranges_nfd_4 :: "(int \<times> int \<times> int) list" where
  "unicode_ranges_nfd_4 = [
    (0x1e50, 0x1e50, 0x4f), (0x1e51, 0x1e51, 0x6f), (0x1e52, 0x1e52, 0x4f), (0x1e53, 0x1e53, 0x6f),
    (0x1e54, 0x1e54, 0x50), (0x1e55, 0x1e55, 0x70), (0x1e56, 0x1e56, 0x50), (0x1e57, 0x1e57, 0x70),
    (0x1e58, 0x1e58, 0x52), (0x1e59, 0x1e59, 0x72), (0x1e5a, 0x1e5a, 0x52), (0x1e5b, 0x1e5b, 0x72),
    (0x1e5c, 0x1e5c, 0x52), (0x1e5d, 0x1e5d, 0x72), (0x1e5e, 0x1e5e, 0x52), (0x1e5f, 0x1e5f, 0x72),
    (0x1e60, 0x1e60, 0x53), (0x1e61, 0x1e61, 0x73), (0x1e62, 0x1e62, 0x53), (0x1e63, 0x1e63, 0x73),
    (0x1e64, 0x1e64, 0x53), (0x1e65, 0x1e65, 0x73), (0x1e66, 0x1e66, 0x53), (0x1e67, 0x1e67, 0x73),
    (0x1e68, 0x1e68, 0x53), (0x1e69, 0x1e69, 0x73), (0x1e6a, 0x1e6a, 0x54), (0x1e6b, 0x1e6b, 0x74),
    (0x1e6c, 0x1e6c, 0x54), (0x1e6d, 0x1e6d, 0x74), (0x1e6e, 0x1e6e, 0x54), (0x1e6f, 0x1e6f, 0x74),
    (0x1e70, 0x1e70, 0x54), (0x1e71, 0x1e71, 0x74), (0x1e72, 0x1e72, 0x55), (0x1e73, 0x1e73, 0x75),
    (0x1e74, 0x1e74, 0x55), (0x1e75, 0x1e75, 0x75), (0x1e76, 0x1e76, 0x55), (0x1e77, 0x1e77, 0x75),
    (0x1e78, 0x1e78, 0x55), (0x1e79, 0x1e79, 0x75), (0x1e7a, 0x1e7a, 0x55), (0x1e7b, 0x1e7b, 0x75),
    (0x1e7c, 0x1e7c, 0x56), (0x1e7d, 0x1e7d, 0x76), (0x1e7e, 0x1e7e, 0x56), (0x1e7f, 0x1e7f, 0x76),
    (0x1e80, 0x1e80, 0x57), (0x1e81, 0x1e81, 0x77), (0x1e82, 0x1e82, 0x57), (0x1e83, 0x1e83, 0x77),
    (0x1e84, 0x1e84, 0x57), (0x1e85, 0x1e85, 0x77), (0x1e86, 0x1e86, 0x57), (0x1e87, 0x1e87, 0x77),
    (0x1e88, 0x1e88, 0x57), (0x1e89, 0x1e89, 0x77), (0x1e8a, 0x1e8a, 0x58), (0x1e8b, 0x1e8b, 0x78),
    (0x1e8c, 0x1e8c, 0x58), (0x1e8d, 0x1e8d, 0x78), (0x1e8e, 0x1e8e, 0x59), (0x1e8f, 0x1e8f, 0x79),
    (0x1e90, 0x1e90, 0x5a), (0x1e91, 0x1e91, 0x7a), (0x1e92, 0x1e92, 0x5a), (0x1e93, 0x1e93, 0x7a),
    (0x1e94, 0x1e94, 0x5a), (0x1e95, 0x1e95, 0x7a), (0x1e96, 0x1e96, 0x68), (0x1e97, 0x1e97, 0x74),
    (0x1e98, 0x1e98, 0x77), (0x1e99, 0x1e99, 0x79), (0x1e9b, 0x1e9b, 0x17f), (0x1ea0, 0x1ea0, 0x41),
    (0x1ea1, 0x1ea1, 0x61), (0x1ea2, 0x1ea2, 0x41), (0x1ea3, 0x1ea3, 0x61), (0x1ea4, 0x1ea4, 0x41),
    (0x1ea5, 0x1ea5, 0x61), (0x1ea6, 0x1ea6, 0x41), (0x1ea7, 0x1ea7, 0x61), (0x1ea8, 0x1ea8, 0x41),
    (0x1ea9, 0x1ea9, 0x61), (0x1eaa, 0x1eaa, 0x41), (0x1eab, 0x1eab, 0x61), (0x1eac, 0x1eac, 0x41),
    (0x1ead, 0x1ead, 0x61), (0x1eae, 0x1eae, 0x41), (0x1eaf, 0x1eaf, 0x61), (0x1eb0, 0x1eb0, 0x41),
    (0x1eb1, 0x1eb1, 0x61), (0x1eb2, 0x1eb2, 0x41), (0x1eb3, 0x1eb3, 0x61), (0x1eb4, 0x1eb4, 0x41),
    (0x1eb5, 0x1eb5, 0x61), (0x1eb6, 0x1eb6, 0x41), (0x1eb7, 0x1eb7, 0x61), (0x1eb8, 0x1eb8, 0x45),
    (0x1eb9, 0x1eb9, 0x65), (0x1eba, 0x1eba, 0x45), (0x1ebb, 0x1ebb, 0x65), (0x1ebc, 0x1ebc, 0x45),
    (0x1ebd, 0x1ebd, 0x65), (0x1ebe, 0x1ebe, 0x45), (0x1ebf, 0x1ebf, 0x65), (0x1ec0, 0x1ec0, 0x45),
    (0x1ec1, 0x1ec1, 0x65), (0x1ec2, 0x1ec2, 0x45), (0x1ec3, 0x1ec3, 0x65), (0x1ec4, 0x1ec4, 0x45),
    (0x1ec5, 0x1ec5, 0x65), (0x1ec6, 0x1ec6, 0x45), (0x1ec7, 0x1ec7, 0x65), (0x1ec8, 0x1ec8, 0x49),
    (0x1ec9, 0x1ec9, 0x69), (0x1eca, 0x1eca, 0x49), (0x1ecb, 0x1ecb, 0x69), (0x1ecc, 0x1ecc, 0x4f),
    (0x1ecd, 0x1ecd, 0x6f), (0x1ece, 0x1ece, 0x4f), (0x1ecf, 0x1ecf, 0x6f), (0x1ed0, 0x1ed0, 0x4f),
    (0x1ed1, 0x1ed1, 0x6f), (0x1ed2, 0x1ed2, 0x4f), (0x1ed3, 0x1ed3, 0x6f), (0x1ed4, 0x1ed4, 0x4f),
    (0x1ed5, 0x1ed5, 0x6f), (0x1ed6, 0x1ed6, 0x4f), (0x1ed7, 0x1ed7, 0x6f), (0x1ed8, 0x1ed8, 0x4f),
    (0x1ed9, 0x1ed9, 0x6f), (0x1eda, 0x1eda, 0x4f), (0x1edb, 0x1edb, 0x6f), (0x1edc, 0x1edc, 0x4f),
    (0x1edd, 0x1edd, 0x6f), (0x1ede, 0x1ede, 0x4f), (0x1edf, 0x1edf, 0x6f), (0x1ee0, 0x1ee0, 0x4f),
    (0x1ee1, 0x1ee1, 0x6f), (0x1ee2, 0x1ee2, 0x4f), (0x1ee3, 0x1ee3, 0x6f), (0x1ee4, 0x1ee4, 0x55),
    (0x1ee5, 0x1ee5, 0x75), (0x1ee6, 0x1ee6, 0x55), (0x1ee7, 0x1ee7, 0x75), (0x1ee8, 0x1ee8, 0x55),
    (0x1ee9, 0x1ee9, 0x75), (0x1eea, 0x1eea, 0x55)]"

definition unicode_ranges_nfd_5 :: "(int \<times> int \<times> int) list" where
  "unicode_ranges_nfd_5 = [
    (0x1eeb, 0x1eeb, 0x75), (0x1eec, 0x1eec, 0x55), (0x1eed, 0x1eed, 0x75), (0x1eee, 0x1eee, 0x55),
    (0x1eef, 0x1eef, 0x75), (0x1ef0, 0x1ef0, 0x55), (0x1ef1, 0x1ef1, 0x75), (0x1ef2, 0x1ef2, 0x59),
    (0x1ef3, 0x1ef3, 0x79), (0x1ef4, 0x1ef4, 0x59), (0x1ef5, 0x1ef5, 0x79), (0x1ef6, 0x1ef6, 0x59),
    (0x1ef7, 0x1ef7, 0x79), (0x1ef8, 0x1ef8, 0x59), (0x1ef9, 0x1ef9, 0x79), (0x1f00, 0x1f07, 0x3b1),
    (0x1f08, 0x1f0f, 0x391), (0x1f10, 0x1f15, 0x3b5), (0x1f18, 0x1f1d, 0x395), (0x1f20, 0x1f27, 0x3b7),
    (0x1f28, 0x1f2f, 0x397), (0x1f30, 0x1f37, 0x3b9), (0x1f38, 0x1f3f, 0x399), (0x1f40, 0x1f45, 0x3bf),
    (0x1f48, 0x1f4d, 0x39f), (0x1f50, 0x1f57, 0x3c5), (0x1f59, 0x1f59, 0x3a5), (0x1f5b, 0x1f5b, 0x3a5),
    (0x1f5d, 0x1f5d, 0x3a5), (0x1f5f, 0x1f5f, 0x3a5), (0x1f60, 0x1f67, 0x3c9), (0x1f68, 0x1f6f, 0x3a9),
    (0x1f70, 0x1f71, 0x3b1), (0x1f72, 0x1f73, 0x3b5), (0x1f74, 0x1f75, 0x3b7), (0x1f76, 0x1f77, 0x3b9),
    (0x1f78, 0x1f79, 0x3bf), (0x1f7a, 0x1f7b, 0x3c5), (0x1f7c, 0x1f7d, 0x3c9), (0x1f80, 0x1f87, 0x3b1),
    (0x1f88, 0x1f8f, 0x391), (0x1f90, 0x1f97, 0x3b7), (0x1f98, 0x1f9f, 0x397), (0x1fa0, 0x1fa7, 0x3c9),
    (0x1fa8, 0x1faf, 0x3a9), (0x1fb0, 0x1fb4, 0x3b1), (0x1fb6, 0x1fb7, 0x3b1), (0x1fb8, 0x1fbc, 0x391),
    (0x1fbe, 0x1fbe, 0x3b9), (0x1fc1, 0x1fc1, 0xa8), (0x1fc2, 0x1fc4, 0x3b7), (0x1fc6, 0x1fc7, 0x3b7),
    (0x1fc8, 0x1fc9, 0x395), (0x1fca, 0x1fcc, 0x397), (0x1fcd, 0x1fcf, 0x1fbf), (0x1fd0, 0x1fd3, 0x3b9),
    (0x1fd6, 0x1fd7, 0x3b9), (0x1fd8, 0x1fdb, 0x399), (0x1fdd, 0x1fdf, 0x1ffe), (0x1fe0, 0x1fe3, 0x3c5),
    (0x1fe4, 0x1fe5, 0x3c1), (0x1fe6, 0x1fe7, 0x3c5), (0x1fe8, 0x1feb, 0x3a5), (0x1fec, 0x1fec, 0x3a1),
    (0x1fed, 0x1fee, 0xa8), (0x1fef, 0x1fef, 0x60), (0x1ff2, 0x1ff4, 0x3c9), (0x1ff6, 0x1ff7, 0x3c9),
    (0x1ff8, 0x1ff9, 0x39f), (0x1ffa, 0x1ffc, 0x3a9), (0x1ffd, 0x1ffd, 0xb4), (0x2000, 0x2000, 0x2002),
    (0x2001, 0x2001, 0x2003), (0x2126, 0x2126, 0x3a9), (0x212a, 0x212a, 0x4b), (0x212b, 0x212b, 0x41),
    (0x219a, 0x219a, 0x2190), (0x219b, 0x219b, 0x2192), (0x21ae, 0x21ae, 0x2194), (0x21cd, 0x21cd, 0x21d0),
    (0x21ce, 0x21ce, 0x21d4), (0x21cf, 0x21cf, 0x21d2), (0x2204, 0x2204, 0x2203), (0x2209, 0x2209, 0x2208),
    (0x220c, 0x220c, 0x220b), (0x2224, 0x2224, 0x2223), (0x2226, 0x2226, 0x2225), (0x2241, 0x2241, 0x223c),
    (0x2244, 0x2244, 0x2243), (0x2247, 0x2247, 0x2245), (0x2249, 0x2249, 0x2248), (0x2260, 0x2260, 0x3d),
    (0x2262, 0x2262, 0x2261), (0x226d, 0x226d, 0x224d), (0x226e, 0x226e, 0x3c), (0x226f, 0x226f, 0x3e),
    (0x2270, 0x2270, 0x2264), (0x2271, 0x2271, 0x2265), (0x2274, 0x2274, 0x2272), (0x2275, 0x2275, 0x2273),
    (0x2278, 0x2278, 0x2276), (0x2279, 0x2279, 0x2277), (0x2280, 0x2280, 0x227a), (0x2281, 0x2281, 0x227b),
    (0x2284, 0x2284, 0x2282), (0x2285, 0x2285, 0x2283), (0x2288, 0x2288, 0x2286), (0x2289, 0x2289, 0x2287),
    (0x22ac, 0x22ac, 0x22a2), (0x22ad, 0x22ad, 0x22a8), (0x22ae, 0x22ae, 0x22a9), (0x22af, 0x22af, 0x22ab),
    (0x22e0, 0x22e0, 0x227c), (0x22e1, 0x22e1, 0x227d), (0x22e2, 0x22e2, 0x2291), (0x22e3, 0x22e3, 0x2292),
    (0x22ea, 0x22ea, 0x22b2), (0x22eb, 0x22eb, 0x22b3), (0x22ec, 0x22ec, 0x22b4), (0x22ed, 0x22ed, 0x22b5),
    (0x2329, 0x2329, 0x3008), (0x232a, 0x232a, 0x3009), (0x2adc, 0x2adc, 0x2add), (0x304c, 0x304c, 0x304b),
    (0x304e, 0x304e, 0x304d), (0x3050, 0x3050, 0x304f), (0x3052, 0x3052, 0x3051), (0x3054, 0x3054, 0x3053),
    (0x3056, 0x3056, 0x3055), (0x3058, 0x3058, 0x3057), (0x305a, 0x305a, 0x3059), (0x305c, 0x305c, 0x305b),
    (0x305e, 0x305e, 0x305d), (0x3060, 0x3060, 0x305f), (0x3062, 0x3062, 0x3061), (0x3065, 0x3065, 0x3064),
    (0x3067, 0x3067, 0x3066), (0x3069, 0x3069, 0x3068), (0x3070, 0x3071, 0x306f), (0x3073, 0x3074, 0x3072),
    (0x3076, 0x3077, 0x3075), (0x3079, 0x307a, 0x3078), (0x307c, 0x307d, 0x307b), (0x3094, 0x3094, 0x3046),
    (0x309e, 0x309e, 0x309d), (0x30ac, 0x30ac, 0x30ab), (0x30ae, 0x30ae, 0x30ad), (0x30b0, 0x30b0, 0x30af),
    (0x30b2, 0x30b2, 0x30b1), (0x30b4, 0x30b4, 0x30b3)]"

definition unicode_ranges_nfd_6 :: "(int \<times> int \<times> int) list" where
  "unicode_ranges_nfd_6 = [
    (0x30b6, 0x30b6, 0x30b5), (0x30b8, 0x30b8, 0x30b7), (0x30ba, 0x30ba, 0x30b9), (0x30bc, 0x30bc, 0x30bb),
    (0x30be, 0x30be, 0x30bd), (0x30c0, 0x30c0, 0x30bf), (0x30c2, 0x30c2, 0x30c1), (0x30c5, 0x30c5, 0x30c4),
    (0x30c7, 0x30c7, 0x30c6), (0x30c9, 0x30c9, 0x30c8), (0x30d0, 0x30d1, 0x30cf), (0x30d3, 0x30d4, 0x30d2),
    (0x30d6, 0x30d7, 0x30d5), (0x30d9, 0x30da, 0x30d8), (0x30dc, 0x30dd, 0x30db), (0x30f4, 0x30f4, 0x30a6),
    (0x30f7, 0x30f7, 0x30ef), (0x30f8, 0x30f8, 0x30f0), (0x30f9, 0x30f9, 0x30f1), (0x30fa, 0x30fa, 0x30f2),
    (0x30fe, 0x30fe, 0x30fd), (0xac00, 0xae4b, 0x1100), (0xae4c, 0xb097, 0x1101), (0xb098, 0xb2e3, 0x1102),
    (0xb2e4, 0xb52f, 0x1103), (0xb530, 0xb77b, 0x1104), (0xb77c, 0xb9c7, 0x1105), (0xb9c8, 0xbc13, 0x1106),
    (0xbc14, 0xbe5f, 0x1107), (0xbe60, 0xc0ab, 0x1108), (0xc0ac, 0xc2f7, 0x1109), (0xc2f8, 0xc543, 0x110a),
    (0xc544, 0xc78f, 0x110b), (0xc790, 0xc9db, 0x110c), (0xc9dc, 0xcc27, 0x110d), (0xcc28, 0xce73, 0x110e),
    (0xce74, 0xd0bf, 0x110f), (0xd0c0, 0xd30b, 0x1110), (0xd30c, 0xd557, 0x1111), (0xd558, 0xd7a3, 0x1112),
    (0xf900, 0xf900, 0x8c48), (0xf901, 0xf901, 0x66f4), (0xf902, 0xf902, 0x8eca), (0xf903, 0xf903, 0x8cc8),
    (0xf904, 0xf904, 0x6ed1), (0xf905, 0xf905, 0x4e32), (0xf906, 0xf906, 0x53e5), (0xf907, 0xf908, 0x9f9c),
    (0xf909, 0xf909, 0x5951), (0xf90a, 0xf90a, 0x91d1), (0xf90b, 0xf90b, 0x5587), (0xf90c, 0xf90c, 0x5948),
    (0xf90d, 0xf90d, 0x61f6), (0xf90e, 0xf90e, 0x7669), (0xf90f, 0xf90f, 0x7f85), (0xf910, 0xf910, 0x863f),
    (0xf911, 0xf911, 0x87ba), (0xf912, 0xf912, 0x88f8), (0xf913, 0xf913, 0x908f), (0xf914, 0xf914, 0x6a02),
    (0xf915, 0xf915, 0x6d1b), (0xf916, 0xf916, 0x70d9), (0xf917, 0xf917, 0x73de), (0xf918, 0xf918, 0x843d),
    (0xf919, 0xf919, 0x916a), (0xf91a, 0xf91a, 0x99f1), (0xf91b, 0xf91b, 0x4e82), (0xf91c, 0xf91c, 0x5375),
    (0xf91d, 0xf91d, 0x6b04), (0xf91e, 0xf91e, 0x721b), (0xf91f, 0xf91f, 0x862d), (0xf920, 0xf920, 0x9e1e),
    (0xf921, 0xf921, 0x5d50), (0xf922, 0xf922, 0x6feb), (0xf923, 0xf923, 0x85cd), (0xf924, 0xf924, 0x8964),
    (0xf925, 0xf925, 0x62c9), (0xf926, 0xf926, 0x81d8), (0xf927, 0xf927, 0x881f), (0xf928, 0xf928, 0x5eca),
    (0xf929, 0xf929, 0x6717), (0xf92a, 0xf92a, 0x6d6a), (0xf92b, 0xf92b, 0x72fc), (0xf92c, 0xf92c, 0x90ce),
    (0xf92d, 0xf92d, 0x4f86), (0xf92e, 0xf92e, 0x51b7), (0xf92f, 0xf92f, 0x52de), (0xf930, 0xf930, 0x64c4),
    (0xf931, 0xf931, 0x6ad3), (0xf932, 0xf932, 0x7210), (0xf933, 0xf933, 0x76e7), (0xf934, 0xf934, 0x8001),
    (0xf935, 0xf935, 0x8606), (0xf936, 0xf936, 0x865c), (0xf937, 0xf937, 0x8def), (0xf938, 0xf938, 0x9732),
    (0xf939, 0xf939, 0x9b6f), (0xf93a, 0xf93a, 0x9dfa), (0xf93b, 0xf93b, 0x788c), (0xf93c, 0xf93c, 0x797f),
    (0xf93d, 0xf93d, 0x7da0), (0xf93e, 0xf93e, 0x83c9), (0xf93f, 0xf93f, 0x9304), (0xf940, 0xf940, 0x9e7f),
    (0xf941, 0xf941, 0x8ad6), (0xf942, 0xf942, 0x58df), (0xf943, 0xf943, 0x5f04), (0xf944, 0xf944, 0x7c60),
    (0xf945, 0xf945, 0x807e), (0xf946, 0xf946, 0x7262), (0xf947, 0xf947, 0x78ca), (0xf948, 0xf948, 0x8cc2),
    (0xf949, 0xf949, 0x96f7), (0xf94a, 0xf94a, 0x58d8), (0xf94b, 0xf94b, 0x5c62), (0xf94c, 0xf94c, 0x6a13),
    (0xf94d, 0xf94d, 0x6dda), (0xf94e, 0xf94e, 0x6f0f), (0xf94f, 0xf94f, 0x7d2f), (0xf950, 0xf950, 0x7e37),
    (0xf951, 0xf951, 0x964b), (0xf952, 0xf952, 0x52d2), (0xf953, 0xf953, 0x808b), (0xf954, 0xf954, 0x51dc),
    (0xf955, 0xf955, 0x51cc), (0xf956, 0xf956, 0x7a1c), (0xf957, 0xf957, 0x7dbe), (0xf958, 0xf958, 0x83f1),
    (0xf959, 0xf959, 0x9675), (0xf95a, 0xf95a, 0x8b80), (0xf95b, 0xf95b, 0x62cf), (0xf95c, 0xf95c, 0x6a02),
    (0xf95d, 0xf95d, 0x8afe), (0xf95e, 0xf95e, 0x4e39), (0xf95f, 0xf95f, 0x5be7), (0xf960, 0xf960, 0x6012),
    (0xf961, 0xf961, 0x7387), (0xf962, 0xf962, 0x7570), (0xf963, 0xf963, 0x5317), (0xf964, 0xf964, 0x78fb),
    (0xf965, 0xf965, 0x4fbf), (0xf966, 0xf966, 0x5fa9), (0xf967, 0xf967, 0x4e0d), (0xf968, 0xf968, 0x6ccc),
    (0xf969, 0xf969, 0x6578), (0xf96a, 0xf96a, 0x7d22), (0xf96b, 0xf96b, 0x53c3), (0xf96c, 0xf96c, 0x585e),
    (0xf96d, 0xf96d, 0x7701), (0xf96e, 0xf96e, 0x8449)]"

definition unicode_ranges_nfd_7 :: "(int \<times> int \<times> int) list" where
  "unicode_ranges_nfd_7 = [
    (0xf96f, 0xf96f, 0x8aaa), (0xf970, 0xf970, 0x6bba), (0xf971, 0xf971, 0x8fb0), (0xf972, 0xf972, 0x6c88),
    (0xf973, 0xf973, 0x62fe), (0xf974, 0xf974, 0x82e5), (0xf975, 0xf975, 0x63a0), (0xf976, 0xf976, 0x7565),
    (0xf977, 0xf977, 0x4eae), (0xf978, 0xf978, 0x5169), (0xf979, 0xf979, 0x51c9), (0xf97a, 0xf97a, 0x6881),
    (0xf97b, 0xf97b, 0x7ce7), (0xf97c, 0xf97c, 0x826f), (0xf97d, 0xf97d, 0x8ad2), (0xf97e, 0xf97e, 0x91cf),
    (0xf97f, 0xf97f, 0x52f5), (0xf980, 0xf980, 0x5442), (0xf981, 0xf981, 0x5973), (0xf982, 0xf982, 0x5eec),
    (0xf983, 0xf983, 0x65c5), (0xf984, 0xf984, 0x6ffe), (0xf985, 0xf985, 0x792a), (0xf986, 0xf986, 0x95ad),
    (0xf987, 0xf987, 0x9a6a), (0xf988, 0xf988, 0x9e97), (0xf989, 0xf989, 0x9ece), (0xf98a, 0xf98a, 0x529b),
    (0xf98b, 0xf98b, 0x66c6), (0xf98c, 0xf98c, 0x6b77), (0xf98d, 0xf98d, 0x8f62), (0xf98e, 0xf98e, 0x5e74),
    (0xf98f, 0xf98f, 0x6190), (0xf990, 0xf990, 0x6200), (0xf991, 0xf991, 0x649a), (0xf992, 0xf992, 0x6f23),
    (0xf993, 0xf993, 0x7149), (0xf994, 0xf994, 0x7489), (0xf995, 0xf995, 0x79ca), (0xf996, 0xf996, 0x7df4),
    (0xf997, 0xf997, 0x806f), (0xf998, 0xf998, 0x8f26), (0xf999, 0xf999, 0x84ee), (0xf99a, 0xf99a, 0x9023),
    (0xf99b, 0xf99b, 0x934a), (0xf99c, 0xf99c, 0x5217), (0xf99d, 0xf99d, 0x52a3), (0xf99e, 0xf99e, 0x54bd),
    (0xf99f, 0xf99f, 0x70c8), (0xf9a0, 0xf9a0, 0x88c2), (0xf9a1, 0xf9a1, 0x8aaa), (0xf9a2, 0xf9a2, 0x5ec9),
    (0xf9a3, 0xf9a3, 0x5ff5), (0xf9a4, 0xf9a4, 0x637b), (0xf9a5, 0xf9a5, 0x6bae), (0xf9a6, 0xf9a6, 0x7c3e),
    (0xf9a7, 0xf9a7, 0x7375), (0xf9a8, 0xf9a8, 0x4ee4), (0xf9a9, 0xf9a9, 0x56f9), (0xf9aa, 0xf9aa, 0x5be7),
    (0xf9ab, 0xf9ab, 0x5dba), (0xf9ac, 0xf9ac, 0x601c), (0xf9ad, 0xf9ad, 0x73b2), (0xf9ae, 0xf9ae, 0x7469),
    (0xf9af, 0xf9af, 0x7f9a), (0xf9b0, 0xf9b0, 0x8046), (0xf9b1, 0xf9b1, 0x9234), (0xf9b2, 0xf9b2, 0x96f6),
    (0xf9b3, 0xf9b3, 0x9748), (0xf9b4, 0xf9b4, 0x9818), (0xf9b5, 0xf9b5, 0x4f8b), (0xf9b6, 0xf9b6, 0x79ae),
    (0xf9b7, 0xf9b7, 0x91b4), (0xf9b8, 0xf9b8, 0x96b8), (0xf9b9, 0xf9b9, 0x60e1), (0xf9ba, 0xf9ba, 0x4e86),
    (0xf9bb, 0xf9bb, 0x50da), (0xf9bc, 0xf9bc, 0x5bee), (0xf9bd, 0xf9bd, 0x5c3f), (0xf9be, 0xf9be, 0x6599),
    (0xf9bf, 0xf9bf, 0x6a02), (0xf9c0, 0xf9c0, 0x71ce), (0xf9c1, 0xf9c1, 0x7642), (0xf9c2, 0xf9c2, 0x84fc),
    (0xf9c3, 0xf9c3, 0x907c), (0xf9c4, 0xf9c4, 0x9f8d), (0xf9c5, 0xf9c5, 0x6688), (0xf9c6, 0xf9c6, 0x962e),
    (0xf9c7, 0xf9c7, 0x5289), (0xf9c8, 0xf9c8, 0x677b), (0xf9c9, 0xf9c9, 0x67f3), (0xf9ca, 0xf9ca, 0x6d41),
    (0xf9cb, 0xf9cb, 0x6e9c), (0xf9cc, 0xf9cc, 0x7409), (0xf9cd, 0xf9cd, 0x7559), (0xf9ce, 0xf9ce, 0x786b),
    (0xf9cf, 0xf9cf, 0x7d10), (0xf9d0, 0xf9d0, 0x985e), (0xf9d1, 0xf9d1, 0x516d), (0xf9d2, 0xf9d2, 0x622e),
    (0xf9d3, 0xf9d3, 0x9678), (0xf9d4, 0xf9d4, 0x502b), (0xf9d5, 0xf9d5, 0x5d19), (0xf9d6, 0xf9d6, 0x6dea),
    (0xf9d7, 0xf9d7, 0x8f2a), (0xf9d8, 0xf9d8, 0x5f8b), (0xf9d9, 0xf9d9, 0x6144), (0xf9da, 0xf9da, 0x6817),
    (0xf9db, 0xf9db, 0x7387), (0xf9dc, 0xf9dc, 0x9686), (0xf9dd, 0xf9dd, 0x5229), (0xf9de, 0xf9de, 0x540f),
    (0xf9df, 0xf9df, 0x5c65), (0xf9e0, 0xf9e0, 0x6613), (0xf9e1, 0xf9e1, 0x674e), (0xf9e2, 0xf9e2, 0x68a8),
    (0xf9e3, 0xf9e3, 0x6ce5), (0xf9e4, 0xf9e4, 0x7406), (0xf9e5, 0xf9e5, 0x75e2), (0xf9e6, 0xf9e6, 0x7f79),
    (0xf9e7, 0xf9e7, 0x88cf), (0xf9e8, 0xf9e8, 0x88e1), (0xf9e9, 0xf9e9, 0x91cc), (0xf9ea, 0xf9ea, 0x96e2),
    (0xf9eb, 0xf9eb, 0x533f), (0xf9ec, 0xf9ec, 0x6eba), (0xf9ed, 0xf9ed, 0x541d), (0xf9ee, 0xf9ee, 0x71d0),
    (0xf9ef, 0xf9ef, 0x7498), (0xf9f0, 0xf9f0, 0x85fa), (0xf9f1, 0xf9f1, 0x96a3), (0xf9f2, 0xf9f2, 0x9c57),
    (0xf9f3, 0xf9f3, 0x9e9f), (0xf9f4, 0xf9f4, 0x6797), (0xf9f5, 0xf9f5, 0x6dcb), (0xf9f6, 0xf9f6, 0x81e8),
    (0xf9f7, 0xf9f7, 0x7acb), (0xf9f8, 0xf9f8, 0x7b20), (0xf9f9, 0xf9f9, 0x7c92), (0xf9fa, 0xf9fa, 0x72c0),
    (0xf9fb, 0xf9fb, 0x7099), (0xf9fc, 0xf9fc, 0x8b58), (0xf9fd, 0xf9fd, 0x4ec0), (0xf9fe, 0xf9fe, 0x8336),
    (0xf9ff, 0xf9ff, 0x523a), (0xfa00, 0xfa00, 0x5207), (0xfa01, 0xfa01, 0x5ea6), (0xfa02, 0xfa02, 0x62d3),
    (0xfa03, 0xfa03, 0x7cd6), (0xfa04, 0xfa04, 0x5b85)]"

definition unicode_ranges_nfd_8 :: "(int \<times> int \<times> int) list" where
  "unicode_ranges_nfd_8 = [
    (0xfa05, 0xfa05, 0x6d1e), (0xfa06, 0xfa06, 0x66b4), (0xfa07, 0xfa07, 0x8f3b), (0xfa08, 0xfa08, 0x884c),
    (0xfa09, 0xfa09, 0x964d), (0xfa0a, 0xfa0a, 0x898b), (0xfa0b, 0xfa0b, 0x5ed3), (0xfa0c, 0xfa0c, 0x5140),
    (0xfa0d, 0xfa0d, 0x55c0), (0xfa10, 0xfa10, 0x585a), (0xfa12, 0xfa12, 0x6674), (0xfa15, 0xfa15, 0x51de),
    (0xfa16, 0xfa16, 0x732a), (0xfa17, 0xfa17, 0x76ca), (0xfa18, 0xfa18, 0x793c), (0xfa19, 0xfa19, 0x795e),
    (0xfa1a, 0xfa1a, 0x7965), (0xfa1b, 0xfa1b, 0x798f), (0xfa1c, 0xfa1c, 0x9756), (0xfa1d, 0xfa1d, 0x7cbe),
    (0xfa1e, 0xfa1e, 0x7fbd), (0xfa20, 0xfa20, 0x8612), (0xfa22, 0xfa22, 0x8af8), (0xfa25, 0xfa25, 0x9038),
    (0xfa26, 0xfa26, 0x90fd), (0xfa2a, 0xfa2a, 0x98ef), (0xfa2b, 0xfa2b, 0x98fc), (0xfa2c, 0xfa2c, 0x9928),
    (0xfa2d, 0xfa2d, 0x9db4), (0xfa2e, 0xfa2e, 0x90de), (0xfa2f, 0xfa2f, 0x96b7), (0xfa30, 0xfa30, 0x4fae),
    (0xfa31, 0xfa31, 0x50e7), (0xfa32, 0xfa32, 0x514d), (0xfa33, 0xfa33, 0x52c9), (0xfa34, 0xfa34, 0x52e4),
    (0xfa35, 0xfa35, 0x5351), (0xfa36, 0xfa36, 0x559d), (0xfa37, 0xfa37, 0x5606), (0xfa38, 0xfa38, 0x5668),
    (0xfa39, 0xfa39, 0x5840), (0xfa3a, 0xfa3a, 0x58a8), (0xfa3b, 0xfa3b, 0x5c64), (0xfa3c, 0xfa3c, 0x5c6e),
    (0xfa3d, 0xfa3d, 0x6094), (0xfa3e, 0xfa3e, 0x6168), (0xfa3f, 0xfa3f, 0x618e), (0xfa40, 0xfa40, 0x61f2),
    (0xfa41, 0xfa41, 0x654f), (0xfa42, 0xfa42, 0x65e2), (0xfa43, 0xfa43, 0x6691), (0xfa44, 0xfa44, 0x6885),
    (0xfa45, 0xfa45, 0x6d77), (0xfa46, 0xfa46, 0x6e1a), (0xfa47, 0xfa47, 0x6f22), (0xfa48, 0xfa48, 0x716e),
    (0xfa49, 0xfa49, 0x722b), (0xfa4a, 0xfa4a, 0x7422), (0xfa4b, 0xfa4b, 0x7891), (0xfa4c, 0xfa4c, 0x793e),
    (0xfa4d, 0xfa4d, 0x7949), (0xfa4e, 0xfa4e, 0x7948), (0xfa4f, 0xfa4f, 0x7950), (0xfa50, 0xfa50, 0x7956),
    (0xfa51, 0xfa51, 0x795d), (0xfa52, 0xfa52, 0x798d), (0xfa53, 0xfa53, 0x798e), (0xfa54, 0xfa54, 0x7a40),
    (0xfa55, 0xfa55, 0x7a81), (0xfa56, 0xfa56, 0x7bc0), (0xfa57, 0xfa57, 0x7df4), (0xfa58, 0xfa58, 0x7e09),
    (0xfa59, 0xfa59, 0x7e41), (0xfa5a, 0xfa5a, 0x7f72), (0xfa5b, 0xfa5b, 0x8005), (0xfa5c, 0xfa5c, 0x81ed),
    (0xfa5d, 0xfa5e, 0x8279), (0xfa5f, 0xfa5f, 0x8457), (0xfa60, 0xfa60, 0x8910), (0xfa61, 0xfa61, 0x8996),
    (0xfa62, 0xfa62, 0x8b01), (0xfa63, 0xfa63, 0x8b39), (0xfa64, 0xfa64, 0x8cd3), (0xfa65, 0xfa65, 0x8d08),
    (0xfa66, 0xfa66, 0x8fb6), (0xfa67, 0xfa67, 0x9038), (0xfa68, 0xfa68, 0x96e3), (0xfa69, 0xfa69, 0x97ff),
    (0xfa6a, 0xfa6a, 0x983b), (0xfa6b, 0xfa6b, 0x6075), (0xfa6c, 0xfa6c, 0x242ee), (0xfa6d, 0xfa6d, 0x8218),
    (0xfa70, 0xfa70, 0x4e26), (0xfa71, 0xfa71, 0x51b5), (0xfa72, 0xfa72, 0x5168), (0xfa73, 0xfa73, 0x4f80),
    (0xfa74, 0xfa74, 0x5145), (0xfa75, 0xfa75, 0x5180), (0xfa76, 0xfa76, 0x52c7), (0xfa77, 0xfa77, 0x52fa),
    (0xfa78, 0xfa78, 0x559d), (0xfa79, 0xfa79, 0x5555), (0xfa7a, 0xfa7a, 0x5599), (0xfa7b, 0xfa7b, 0x55e2),
    (0xfa7c, 0xfa7c, 0x585a), (0xfa7d, 0xfa7d, 0x58b3), (0xfa7e, 0xfa7e, 0x5944), (0xfa7f, 0xfa7f, 0x5954),
    (0xfa80, 0xfa80, 0x5a62), (0xfa81, 0xfa81, 0x5b28), (0xfa82, 0xfa82, 0x5ed2), (0xfa83, 0xfa83, 0x5ed9),
    (0xfa84, 0xfa84, 0x5f69), (0xfa85, 0xfa85, 0x5fad), (0xfa86, 0xfa86, 0x60d8), (0xfa87, 0xfa87, 0x614e),
    (0xfa88, 0xfa88, 0x6108), (0xfa89, 0xfa89, 0x618e), (0xfa8a, 0xfa8a, 0x6160), (0xfa8b, 0xfa8b, 0x61f2),
    (0xfa8c, 0xfa8c, 0x6234), (0xfa8d, 0xfa8d, 0x63c4), (0xfa8e, 0xfa8e, 0x641c), (0xfa8f, 0xfa8f, 0x6452),
    (0xfa90, 0xfa90, 0x6556), (0xfa91, 0xfa91, 0x6674), (0xfa92, 0xfa92, 0x6717), (0xfa93, 0xfa93, 0x671b),
    (0xfa94, 0xfa94, 0x6756), (0xfa95, 0xfa95, 0x6b79), (0xfa96, 0xfa96, 0x6bba), (0xfa97, 0xfa97, 0x6d41),
    (0xfa98, 0xfa98, 0x6edb), (0xfa99, 0xfa99, 0x6ecb), (0xfa9a, 0xfa9a, 0x6f22), (0xfa9b, 0xfa9b, 0x701e),
    (0xfa9c, 0xfa9c, 0x716e), (0xfa9d, 0xfa9d, 0x77a7), (0xfa9e, 0xfa9e, 0x7235), (0xfa9f, 0xfa9f, 0x72af),
    (0xfaa0, 0xfaa0, 0x732a), (0xfaa1, 0xfaa1, 0x7471), (0xfaa2, 0xfaa2, 0x7506), (0xfaa3, 0xfaa3, 0x753b),
    (0xfaa4, 0xfaa4, 0x761d), (0xfaa5, 0xfaa5, 0x761f), (0xfaa6, 0xfaa6, 0x76ca), (0xfaa7, 0xfaa7, 0x76db),
    (0xfaa8, 0xfaa8, 0x76f4), (0xfaa9, 0xfaa9, 0x774a)]"

definition unicode_ranges_nfd_9 :: "(int \<times> int \<times> int) list" where
  "unicode_ranges_nfd_9 = [
    (0xfaaa, 0xfaaa, 0x7740), (0xfaab, 0xfaab, 0x78cc), (0xfaac, 0xfaac, 0x7ab1), (0xfaad, 0xfaad, 0x7bc0),
    (0xfaae, 0xfaae, 0x7c7b), (0xfaaf, 0xfaaf, 0x7d5b), (0xfab0, 0xfab0, 0x7df4), (0xfab1, 0xfab1, 0x7f3e),
    (0xfab2, 0xfab2, 0x8005), (0xfab3, 0xfab3, 0x8352), (0xfab4, 0xfab4, 0x83ef), (0xfab5, 0xfab5, 0x8779),
    (0xfab6, 0xfab6, 0x8941), (0xfab7, 0xfab7, 0x8986), (0xfab8, 0xfab8, 0x8996), (0xfab9, 0xfab9, 0x8abf),
    (0xfaba, 0xfaba, 0x8af8), (0xfabb, 0xfabb, 0x8acb), (0xfabc, 0xfabc, 0x8b01), (0xfabd, 0xfabd, 0x8afe),
    (0xfabe, 0xfabe, 0x8aed), (0xfabf, 0xfabf, 0x8b39), (0xfac0, 0xfac0, 0x8b8a), (0xfac1, 0xfac1, 0x8d08),
    (0xfac2, 0xfac2, 0x8f38), (0xfac3, 0xfac3, 0x9072), (0xfac4, 0xfac4, 0x9199), (0xfac5, 0xfac5, 0x9276),
    (0xfac6, 0xfac6, 0x967c), (0xfac7, 0xfac7, 0x96e3), (0xfac8, 0xfac8, 0x9756), (0xfac9, 0xfac9, 0x97db),
    (0xfaca, 0xfaca, 0x97ff), (0xfacb, 0xfacb, 0x980b), (0xfacc, 0xfacc, 0x983b), (0xfacd, 0xfacd, 0x9b12),
    (0xface, 0xface, 0x9f9c), (0xfacf, 0xfacf, 0x2284a), (0xfad0, 0xfad0, 0x22844), (0xfad1, 0xfad1, 0x233d5),
    (0xfad2, 0xfad2, 0x3b9d), (0xfad3, 0xfad3, 0x4018), (0xfad4, 0xfad4, 0x4039), (0xfad5, 0xfad5, 0x25249),
    (0xfad6, 0xfad6, 0x25cd0), (0xfad7, 0xfad7, 0x27ed3), (0xfad8, 0xfad8, 0x9f43), (0xfad9, 0xfad9, 0x9f8e),
    (0xfb1d, 0xfb1d, 0x5d9), (0xfb1f, 0xfb1f, 0x5f2), (0xfb2a, 0xfb2d, 0x5e9), (0xfb2e, 0xfb30, 0x5d0),
    (0xfb31, 0xfb31, 0x5d1), (0xfb32, 0xfb32, 0x5d2), (0xfb33, 0xfb33, 0x5d3), (0xfb34, 0xfb34, 0x5d4),
    (0xfb35, 0xfb35, 0x5d5), (0xfb36, 0xfb36, 0x5d6), (0xfb38, 0xfb38, 0x5d8), (0xfb39, 0xfb39, 0x5d9),
    (0xfb3a, 0xfb3a, 0x5da), (0xfb3b, 0xfb3b, 0x5db), (0xfb3c, 0xfb3c, 0x5dc), (0xfb3e, 0xfb3e, 0x5de),
    (0xfb40, 0xfb40, 0x5e0), (0xfb41, 0xfb41, 0x5e1), (0xfb43, 0xfb43, 0x5e3), (0xfb44, 0xfb44, 0x5e4),
    (0xfb46, 0xfb46, 0x5e6), (0xfb47, 0xfb47, 0x5e7), (0xfb48, 0xfb48, 0x5e8), (0xfb49, 0xfb49, 0x5e9),
    (0xfb4a, 0xfb4a, 0x5ea), (0xfb4b, 0xfb4b, 0x5d5), (0xfb4c, 0xfb4c, 0x5d1), (0xfb4d, 0xfb4d, 0x5db),
    (0xfb4e, 0xfb4e, 0x5e4), (0x1109a, 0x1109a, 0x11099), (0x1109c, 0x1109c, 0x1109b),
    (0x110ab, 0x110ab, 0x110a5), (0x1112e, 0x1112e, 0x11131), (0x1112f, 0x1112f, 0x11132),
    (0x1134b, 0x1134c, 0x11347), (0x114bb, 0x114bc, 0x114b9), (0x114be, 0x114be, 0x114b9),
    (0x115ba, 0x115ba, 0x115b8), (0x115bb, 0x115bb, 0x115b9), (0x11938, 0x11938, 0x11935),
    (0x1d15e, 0x1d15e, 0x1d157), (0x1d15f, 0x1d164, 0x1d158), (0x1d1bb, 0x1d1bb, 0x1d1b9),
    (0x1d1bc, 0x1d1bc, 0x1d1ba), (0x1d1bd, 0x1d1bd, 0x1d1b9), (0x1d1be, 0x1d1be, 0x1d1ba),
    (0x1d1bf, 0x1d1bf, 0x1d1b9), (0x1d1c0, 0x1d1c0, 0x1d1ba), (0x2f800, 0x2f800, 0x4e3d),
    (0x2f801, 0x2f801, 0x4e38), (0x2f802, 0x2f802, 0x4e41), (0x2f803, 0x2f803, 0x20122),
    (0x2f804, 0x2f804, 0x4f60), (0x2f805, 0x2f805, 0x4fae), (0x2f806, 0x2f806, 0x4fbb),
    (0x2f807, 0x2f807, 0x5002), (0x2f808, 0x2f808, 0x507a), (0x2f809, 0x2f809, 0x5099),
    (0x2f80a, 0x2f80a, 0x50e7), (0x2f80b, 0x2f80b, 0x50cf), (0x2f80c, 0x2f80c, 0x349e),
    (0x2f80d, 0x2f80d, 0x2063a), (0x2f80e, 0x2f80e, 0x514d), (0x2f80f, 0x2f80f, 0x5154),
    (0x2f810, 0x2f810, 0x5164), (0x2f811, 0x2f811, 0x5177), (0x2f812, 0x2f812, 0x2051c),
    (0x2f813, 0x2f813, 0x34b9), (0x2f814, 0x2f814, 0x5167), (0x2f815, 0x2f815, 0x518d),
    (0x2f816, 0x2f816, 0x2054b), (0x2f817, 0x2f817, 0x5197), (0x2f818, 0x2f818, 0x51a4),
    (0x2f819, 0x2f819, 0x4ecc), (0x2f81a, 0x2f81a, 0x51ac), (0x2f81b, 0x2f81b, 0x51b5),
    (0x2f81c, 0x2f81c, 0x291df), (0x2f81d, 0x2f81d, 0x51f5), (0x2f81e, 0x2f81e, 0x5203),
    (0x2f81f, 0x2f81f, 0x34df), (0x2f820, 0x2f820, 0x523b), (0x2f821, 0x2f821, 0x5246),
    (0x2f822, 0x2f822, 0x5272), (0x2f823, 0x2f823, 0x5277), (0x2f824, 0x2f824, 0x3515),
    (0x2f825, 0x2f825, 0x52c7), (0x2f826, 0x2f826, 0x52c9), (0x2f827, 0x2f827, 0x52e4),
    (0x2f828, 0x2f828, 0x52fa), (0x2f829, 0x2f829, 0x5305), (0x2f82a, 0x2f82a, 0x5306),
    (0x2f82b, 0x2f82b, 0x5317), (0x2f82c, 0x2f82c, 0x5349), (0x2f82d, 0x2f82d, 0x5351),
    (0x2f82e, 0x2f82e, 0x535a), (0x2f82f, 0x2f82f, 0x5373), (0x2f830, 0x2f830, 0x537d),
    (0x2f831, 0x2f833, 0x537f), (0x2f834, 0x2f834, 0x20a2c), (0x2f835, 0x2f835, 0x7070),
    (0x2f836, 0x2f836, 0x53ca), (0x2f837, 0x2f837, 0x53df)]"

definition unicode_ranges_nfd_10 :: "(int \<times> int \<times> int) list" where
  "unicode_ranges_nfd_10 = [
    (0x2f838, 0x2f838, 0x20b63), (0x2f839, 0x2f839, 0x53eb), (0x2f83a, 0x2f83a, 0x53f1),
    (0x2f83b, 0x2f83b, 0x5406), (0x2f83c, 0x2f83c, 0x549e), (0x2f83d, 0x2f83d, 0x5438),
    (0x2f83e, 0x2f83e, 0x5448), (0x2f83f, 0x2f83f, 0x5468), (0x2f840, 0x2f840, 0x54a2),
    (0x2f841, 0x2f841, 0x54f6), (0x2f842, 0x2f842, 0x5510), (0x2f843, 0x2f843, 0x5553),
    (0x2f844, 0x2f844, 0x5563), (0x2f845, 0x2f846, 0x5584), (0x2f847, 0x2f847, 0x5599),
    (0x2f848, 0x2f848, 0x55ab), (0x2f849, 0x2f849, 0x55b3), (0x2f84a, 0x2f84a, 0x55c2),
    (0x2f84b, 0x2f84b, 0x5716), (0x2f84c, 0x2f84c, 0x5606), (0x2f84d, 0x2f84d, 0x5717),
    (0x2f84e, 0x2f84e, 0x5651), (0x2f84f, 0x2f84f, 0x5674), (0x2f850, 0x2f850, 0x5207),
    (0x2f851, 0x2f851, 0x58ee), (0x2f852, 0x2f852, 0x57ce), (0x2f853, 0x2f853, 0x57f4),
    (0x2f854, 0x2f854, 0x580d), (0x2f855, 0x2f855, 0x578b), (0x2f856, 0x2f856, 0x5832),
    (0x2f857, 0x2f857, 0x5831), (0x2f858, 0x2f858, 0x58ac), (0x2f859, 0x2f859, 0x214e4),
    (0x2f85a, 0x2f85a, 0x58f2), (0x2f85b, 0x2f85b, 0x58f7), (0x2f85c, 0x2f85c, 0x5906),
    (0x2f85d, 0x2f85d, 0x591a), (0x2f85e, 0x2f85e, 0x5922), (0x2f85f, 0x2f85f, 0x5962),
    (0x2f860, 0x2f860, 0x216a8), (0x2f861, 0x2f861, 0x216ea), (0x2f862, 0x2f862, 0x59ec),
    (0x2f863, 0x2f863, 0x5a1b), (0x2f864, 0x2f864, 0x5a27), (0x2f865, 0x2f865, 0x59d8),
    (0x2f866, 0x2f866, 0x5a66), (0x2f867, 0x2f867, 0x36ee), (0x2f868, 0x2f868, 0x36fc),
    (0x2f869, 0x2f869, 0x5b08), (0x2f86a, 0x2f86b, 0x5b3e), (0x2f86c, 0x2f86c, 0x219c8),
    (0x2f86d, 0x2f86d, 0x5bc3), (0x2f86e, 0x2f86e, 0x5bd8), (0x2f86f, 0x2f86f, 0x5be7),
    (0x2f870, 0x2f870, 0x5bf3), (0x2f871, 0x2f871, 0x21b18), (0x2f872, 0x2f872, 0x5bff),
    (0x2f873, 0x2f873, 0x5c06), (0x2f874, 0x2f874, 0x5f53), (0x2f875, 0x2f875, 0x5c22),
    (0x2f876, 0x2f876, 0x3781), (0x2f877, 0x2f877, 0x5c60), (0x2f878, 0x2f878, 0x5c6e),
    (0x2f879, 0x2f879, 0x5cc0), (0x2f87a, 0x2f87a, 0x5c8d), (0x2f87b, 0x2f87b, 0x21de4),
    (0x2f87c, 0x2f87c, 0x5d43), (0x2f87d, 0x2f87d, 0x21de6), (0x2f87e, 0x2f87e, 0x5d6e),
    (0x2f87f, 0x2f87f, 0x5d6b), (0x2f880, 0x2f880, 0x5d7c), (0x2f881, 0x2f881, 0x5de1),
    (0x2f882, 0x2f882, 0x5de2), (0x2f883, 0x2f883, 0x382f), (0x2f884, 0x2f884, 0x5dfd),
    (0x2f885, 0x2f885, 0x5e28), (0x2f886, 0x2f886, 0x5e3d), (0x2f887, 0x2f887, 0x5e69),
    (0x2f888, 0x2f888, 0x3862), (0x2f889, 0x2f889, 0x22183), (0x2f88a, 0x2f88a, 0x387c),
    (0x2f88b, 0x2f88b, 0x5eb0), (0x2f88c, 0x2f88c, 0x5eb3), (0x2f88d, 0x2f88d, 0x5eb6),
    (0x2f88e, 0x2f88e, 0x5eca), (0x2f88f, 0x2f88f, 0x2a392), (0x2f890, 0x2f890, 0x5efe),
    (0x2f891, 0x2f892, 0x22331), (0x2f893, 0x2f893, 0x8201), (0x2f894, 0x2f895, 0x5f22),
    (0x2f896, 0x2f896, 0x38c7), (0x2f897, 0x2f897, 0x232b8), (0x2f898, 0x2f898, 0x261da),
    (0x2f899, 0x2f899, 0x5f62), (0x2f89a, 0x2f89a, 0x5f6b), (0x2f89b, 0x2f89b, 0x38e3),
    (0x2f89c, 0x2f89c, 0x5f9a), (0x2f89d, 0x2f89d, 0x5fcd), (0x2f89e, 0x2f89e, 0x5fd7),
    (0x2f89f, 0x2f89f, 0x5ff9), (0x2f8a0, 0x2f8a0, 0x6081), (0x2f8a1, 0x2f8a1, 0x393a),
    (0x2f8a2, 0x2f8a2, 0x391c), (0x2f8a3, 0x2f8a3, 0x6094), (0x2f8a4, 0x2f8a4, 0x226d4),
    (0x2f8a5, 0x2f8a5, 0x60c7), (0x2f8a6, 0x2f8a6, 0x6148), (0x2f8a7, 0x2f8a7, 0x614c),
    (0x2f8a8, 0x2f8a8, 0x614e), (0x2f8a9, 0x2f8a9, 0x614c), (0x2f8aa, 0x2f8aa, 0x617a),
    (0x2f8ab, 0x2f8ab, 0x618e), (0x2f8ac, 0x2f8ac, 0x61b2), (0x2f8ad, 0x2f8ad, 0x61a4),
    (0x2f8ae, 0x2f8ae, 0x61af), (0x2f8af, 0x2f8af, 0x61de), (0x2f8b0, 0x2f8b0, 0x61f2),
    (0x2f8b1, 0x2f8b1, 0x61f6), (0x2f8b2, 0x2f8b2, 0x6210), (0x2f8b3, 0x2f8b3, 0x621b),
    (0x2f8b4, 0x2f8b4, 0x625d), (0x2f8b5, 0x2f8b5, 0x62b1), (0x2f8b6, 0x2f8b6, 0x62d4),
    (0x2f8b7, 0x2f8b7, 0x6350), (0x2f8b8, 0x2f8b8, 0x22b0c), (0x2f8b9, 0x2f8b9, 0x633d),
    (0x2f8ba, 0x2f8ba, 0x62fc), (0x2f8bb, 0x2f8bb, 0x6368), (0x2f8bc, 0x2f8bc, 0x6383),
    (0x2f8bd, 0x2f8bd, 0x63e4), (0x2f8be, 0x2f8be, 0x22bf1), (0x2f8bf, 0x2f8bf, 0x6422),
    (0x2f8c0, 0x2f8c0, 0x63c5), (0x2f8c1, 0x2f8c1, 0x63a9), (0x2f8c2, 0x2f8c2, 0x3a2e),
    (0x2f8c3, 0x2f8c3, 0x6469), (0x2f8c4, 0x2f8c4, 0x647e), (0x2f8c5, 0x2f8c5, 0x649d),
    (0x2f8c6, 0x2f8c6, 0x6477), (0x2f8c7, 0x2f8c7, 0x3a6c), (0x2f8c8, 0x2f8c8, 0x654f),
    (0x2f8c9, 0x2f8c9, 0x656c), (0x2f8ca, 0x2f8ca, 0x2300a), (0x2f8cb, 0x2f8cb, 0x65e3),
    (0x2f8cc, 0x2f8cc, 0x66f8), (0x2f8cd, 0x2f8cd, 0x6649), (0x2f8ce, 0x2f8ce, 0x3b19),
    (0x2f8cf, 0x2f8cf, 0x6691), (0x2f8d0, 0x2f8d0, 0x3b08), (0x2f8d1, 0x2f8d1, 0x3ae4)]"

definition unicode_ranges_nfd_11 :: "(int \<times> int \<times> int) list" where
  "unicode_ranges_nfd_11 = [
    (0x2f8d2, 0x2f8d2, 0x5192), (0x2f8d3, 0x2f8d3, 0x5195), (0x2f8d4, 0x2f8d4, 0x6700),
    (0x2f8d5, 0x2f8d5, 0x669c), (0x2f8d6, 0x2f8d6, 0x80ad), (0x2f8d7, 0x2f8d7, 0x43d9),
    (0x2f8d8, 0x2f8d8, 0x6717), (0x2f8d9, 0x2f8d9, 0x671b), (0x2f8da, 0x2f8da, 0x6721),
    (0x2f8db, 0x2f8db, 0x675e), (0x2f8dc, 0x2f8dc, 0x6753), (0x2f8dd, 0x2f8dd, 0x233c3),
    (0x2f8de, 0x2f8de, 0x3b49), (0x2f8df, 0x2f8df, 0x67fa), (0x2f8e0, 0x2f8e0, 0x6785),
    (0x2f8e1, 0x2f8e1, 0x6852), (0x2f8e2, 0x2f8e2, 0x6885), (0x2f8e3, 0x2f8e3, 0x2346d),
    (0x2f8e4, 0x2f8e4, 0x688e), (0x2f8e5, 0x2f8e5, 0x681f), (0x2f8e6, 0x2f8e6, 0x6914),
    (0x2f8e7, 0x2f8e7, 0x3b9d), (0x2f8e8, 0x2f8e8, 0x6942), (0x2f8e9, 0x2f8e9, 0x69a3),
    (0x2f8ea, 0x2f8ea, 0x69ea), (0x2f8eb, 0x2f8eb, 0x6aa8), (0x2f8ec, 0x2f8ec, 0x236a3),
    (0x2f8ed, 0x2f8ed, 0x6adb), (0x2f8ee, 0x2f8ee, 0x3c18), (0x2f8ef, 0x2f8ef, 0x6b21),
    (0x2f8f0, 0x2f8f0, 0x238a7), (0x2f8f1, 0x2f8f1, 0x6b54), (0x2f8f2, 0x2f8f2, 0x3c4e),
    (0x2f8f3, 0x2f8f3, 0x6b72), (0x2f8f4, 0x2f8f4, 0x6b9f), (0x2f8f5, 0x2f8f5, 0x6bba),
    (0x2f8f6, 0x2f8f6, 0x6bbb), (0x2f8f7, 0x2f8f7, 0x23a8d), (0x2f8f8, 0x2f8f8, 0x21d0b),
    (0x2f8f9, 0x2f8f9, 0x23afa), (0x2f8fa, 0x2f8fa, 0x6c4e), (0x2f8fb, 0x2f8fb, 0x23cbc),
    (0x2f8fc, 0x2f8fc, 0x6cbf), (0x2f8fd, 0x2f8fd, 0x6ccd), (0x2f8fe, 0x2f8fe, 0x6c67),
    (0x2f8ff, 0x2f8ff, 0x6d16), (0x2f900, 0x2f900, 0x6d3e), (0x2f901, 0x2f901, 0x6d77),
    (0x2f902, 0x2f902, 0x6d41), (0x2f903, 0x2f903, 0x6d69), (0x2f904, 0x2f904, 0x6d78),
    (0x2f905, 0x2f905, 0x6d85), (0x2f906, 0x2f906, 0x23d1e), (0x2f907, 0x2f907, 0x6d34),
    (0x2f908, 0x2f908, 0x6e2f), (0x2f909, 0x2f909, 0x6e6e), (0x2f90a, 0x2f90a, 0x3d33),
    (0x2f90b, 0x2f90b, 0x6ecb), (0x2f90c, 0x2f90c, 0x6ec7), (0x2f90d, 0x2f90d, 0x23ed1),
    (0x2f90e, 0x2f90e, 0x6df9), (0x2f90f, 0x2f90f, 0x6f6e), (0x2f910, 0x2f910, 0x23f5e),
    (0x2f911, 0x2f911, 0x23f8e), (0x2f912, 0x2f912, 0x6fc6), (0x2f913, 0x2f913, 0x7039),
    (0x2f914, 0x2f914, 0x701e), (0x2f915, 0x2f915, 0x701b), (0x2f916, 0x2f916, 0x3d96),
    (0x2f917, 0x2f917, 0x704a), (0x2f918, 0x2f918, 0x707d), (0x2f919, 0x2f919, 0x7077),
    (0x2f91a, 0x2f91a, 0x70ad), (0x2f91b, 0x2f91b, 0x20525), (0x2f91c, 0x2f91c, 0x7145),
    (0x2f91d, 0x2f91d, 0x24263), (0x2f91e, 0x2f91e, 0x719c), (0x2f91f, 0x2f91f, 0x243ab),
    (0x2f920, 0x2f920, 0x7228), (0x2f921, 0x2f921, 0x7235), (0x2f922, 0x2f922, 0x7250),
    (0x2f923, 0x2f923, 0x24608), (0x2f924, 0x2f924, 0x7280), (0x2f925, 0x2f925, 0x7295),
    (0x2f926, 0x2f926, 0x24735), (0x2f927, 0x2f927, 0x24814), (0x2f928, 0x2f928, 0x737a),
    (0x2f929, 0x2f929, 0x738b), (0x2f92a, 0x2f92a, 0x3eac), (0x2f92b, 0x2f92b, 0x73a5),
    (0x2f92c, 0x2f92d, 0x3eb8), (0x2f92e, 0x2f92e, 0x7447), (0x2f92f, 0x2f92f, 0x745c),
    (0x2f930, 0x2f930, 0x7471), (0x2f931, 0x2f931, 0x7485), (0x2f932, 0x2f932, 0x74ca),
    (0x2f933, 0x2f933, 0x3f1b), (0x2f934, 0x2f934, 0x7524), (0x2f935, 0x2f935, 0x24c36),
    (0x2f936, 0x2f936, 0x753e), (0x2f937, 0x2f937, 0x24c92), (0x2f938, 0x2f938, 0x7570),
    (0x2f939, 0x2f939, 0x2219f), (0x2f93a, 0x2f93a, 0x7610), (0x2f93b, 0x2f93b, 0x24fa1),
    (0x2f93c, 0x2f93c, 0x24fb8), (0x2f93d, 0x2f93d, 0x25044), (0x2f93e, 0x2f93e, 0x3ffc),
    (0x2f93f, 0x2f93f, 0x4008), (0x2f940, 0x2f940, 0x76f4), (0x2f941, 0x2f941, 0x250f3),
    (0x2f942, 0x2f942, 0x250f2), (0x2f943, 0x2f943, 0x25119), (0x2f944, 0x2f944, 0x25133),
    (0x2f945, 0x2f945, 0x771e), (0x2f946, 0x2f947, 0x771f), (0x2f948, 0x2f948, 0x774a),
    (0x2f949, 0x2f949, 0x4039), (0x2f94a, 0x2f94a, 0x778b), (0x2f94b, 0x2f94b, 0x4046),
    (0x2f94c, 0x2f94c, 0x4096), (0x2f94d, 0x2f94d, 0x2541d), (0x2f94e, 0x2f94e, 0x784e),
    (0x2f94f, 0x2f94f, 0x788c), (0x2f950, 0x2f950, 0x78cc), (0x2f951, 0x2f951, 0x40e3),
    (0x2f952, 0x2f952, 0x25626), (0x2f953, 0x2f953, 0x7956), (0x2f954, 0x2f954, 0x2569a),
    (0x2f955, 0x2f955, 0x256c5), (0x2f956, 0x2f956, 0x798f), (0x2f957, 0x2f957, 0x79eb),
    (0x2f958, 0x2f958, 0x412f), (0x2f959, 0x2f959, 0x7a40), (0x2f95a, 0x2f95a, 0x7a4a),
    (0x2f95b, 0x2f95b, 0x7a4f), (0x2f95c, 0x2f95c, 0x2597c), (0x2f95d, 0x2f95e, 0x25aa7),
    (0x2f95f, 0x2f95f, 0x7aee), (0x2f960, 0x2f960, 0x4202), (0x2f961, 0x2f961, 0x25bab),
    (0x2f962, 0x2f962, 0x7bc6), (0x2f963, 0x2f963, 0x7bc9), (0x2f964, 0x2f964, 0x4227),
    (0x2f965, 0x2f965, 0x25c80), (0x2f966, 0x2f966, 0x7cd2), (0x2f967, 0x2f967, 0x42a0),
    (0x2f968, 0x2f968, 0x7ce8), (0x2f969, 0x2f969, 0x7ce3), (0x2f96a, 0x2f96a, 0x7d00)]"

definition unicode_ranges_nfd_12 :: "(int \<times> int \<times> int) list" where
  "unicode_ranges_nfd_12 = [
    (0x2f96b, 0x2f96b, 0x25f86), (0x2f96c, 0x2f96c, 0x7d63), (0x2f96d, 0x2f96d, 0x4301),
    (0x2f96e, 0x2f96e, 0x7dc7), (0x2f96f, 0x2f96f, 0x7e02), (0x2f970, 0x2f970, 0x7e45),
    (0x2f971, 0x2f971, 0x4334), (0x2f972, 0x2f972, 0x26228), (0x2f973, 0x2f973, 0x26247),
    (0x2f974, 0x2f974, 0x4359), (0x2f975, 0x2f975, 0x262d9), (0x2f976, 0x2f976, 0x7f7a),
    (0x2f977, 0x2f977, 0x2633e), (0x2f978, 0x2f978, 0x7f95), (0x2f979, 0x2f979, 0x7ffa),
    (0x2f97a, 0x2f97a, 0x8005), (0x2f97b, 0x2f97b, 0x264da), (0x2f97c, 0x2f97c, 0x26523),
    (0x2f97d, 0x2f97d, 0x8060), (0x2f97e, 0x2f97e, 0x265a8), (0x2f97f, 0x2f97f, 0x8070),
    (0x2f980, 0x2f980, 0x2335f), (0x2f981, 0x2f981, 0x43d5), (0x2f982, 0x2f982, 0x80b2),
    (0x2f983, 0x2f983, 0x8103), (0x2f984, 0x2f984, 0x440b), (0x2f985, 0x2f985, 0x813e),
    (0x2f986, 0x2f986, 0x5ab5), (0x2f987, 0x2f987, 0x267a7), (0x2f988, 0x2f988, 0x267b5),
    (0x2f989, 0x2f989, 0x23393), (0x2f98a, 0x2f98a, 0x2339c), (0x2f98b, 0x2f98b, 0x8201),
    (0x2f98c, 0x2f98c, 0x8204), (0x2f98d, 0x2f98d, 0x8f9e), (0x2f98e, 0x2f98e, 0x446b),
    (0x2f98f, 0x2f98f, 0x8291), (0x2f990, 0x2f990, 0x828b), (0x2f991, 0x2f991, 0x829d),
    (0x2f992, 0x2f992, 0x52b3), (0x2f993, 0x2f993, 0x82b1), (0x2f994, 0x2f994, 0x82b3),
    (0x2f995, 0x2f995, 0x82bd), (0x2f996, 0x2f996, 0x82e6), (0x2f997, 0x2f997, 0x26b3c),
    (0x2f998, 0x2f998, 0x82e5), (0x2f999, 0x2f999, 0x831d), (0x2f99a, 0x2f99a, 0x8363),
    (0x2f99b, 0x2f99b, 0x83ad), (0x2f99c, 0x2f99c, 0x8323), (0x2f99d, 0x2f99d, 0x83bd),
    (0x2f99e, 0x2f99e, 0x83e7), (0x2f99f, 0x2f99f, 0x8457), (0x2f9a0, 0x2f9a0, 0x8353),
    (0x2f9a1, 0x2f9a1, 0x83ca), (0x2f9a2, 0x2f9a2, 0x83cc), (0x2f9a3, 0x2f9a3, 0x83dc),
    (0x2f9a4, 0x2f9a4, 0x26c36), (0x2f9a5, 0x2f9a5, 0x26d6b), (0x2f9a6, 0x2f9a6, 0x26cd5),
    (0x2f9a7, 0x2f9a7, 0x452b), (0x2f9a8, 0x2f9a8, 0x84f1), (0x2f9a9, 0x2f9a9, 0x84f3),
    (0x2f9aa, 0x2f9aa, 0x8516), (0x2f9ab, 0x2f9ab, 0x273ca), (0x2f9ac, 0x2f9ac, 0x8564),
    (0x2f9ad, 0x2f9ad, 0x26f2c), (0x2f9ae, 0x2f9ae, 0x455d), (0x2f9af, 0x2f9af, 0x4561),
    (0x2f9b0, 0x2f9b0, 0x26fb1), (0x2f9b1, 0x2f9b1, 0x270d2), (0x2f9b2, 0x2f9b2, 0x456b),
    (0x2f9b3, 0x2f9b3, 0x8650), (0x2f9b4, 0x2f9b4, 0x865c), (0x2f9b5, 0x2f9b5, 0x8667),
    (0x2f9b6, 0x2f9b6, 0x8669), (0x2f9b7, 0x2f9b7, 0x86a9), (0x2f9b8, 0x2f9b8, 0x8688),
    (0x2f9b9, 0x2f9b9, 0x870e), (0x2f9ba, 0x2f9ba, 0x86e2), (0x2f9bb, 0x2f9bb, 0x8779),
    (0x2f9bc, 0x2f9bc, 0x8728), (0x2f9bd, 0x2f9bd, 0x876b), (0x2f9be, 0x2f9be, 0x8786),
    (0x2f9bf, 0x2f9bf, 0x45d7), (0x2f9c0, 0x2f9c0, 0x87e1), (0x2f9c1, 0x2f9c1, 0x8801),
    (0x2f9c2, 0x2f9c2, 0x45f9), (0x2f9c3, 0x2f9c3, 0x8860), (0x2f9c4, 0x2f9c4, 0x8863),
    (0x2f9c5, 0x2f9c5, 0x27667), (0x2f9c6, 0x2f9c6, 0x88d7), (0x2f9c7, 0x2f9c7, 0x88de),
    (0x2f9c8, 0x2f9c8, 0x4635), (0x2f9c9, 0x2f9c9, 0x88fa), (0x2f9ca, 0x2f9ca, 0x34bb),
    (0x2f9cb, 0x2f9cb, 0x278ae), (0x2f9cc, 0x2f9cc, 0x27966), (0x2f9cd, 0x2f9cd, 0x46be),
    (0x2f9ce, 0x2f9ce, 0x46c7), (0x2f9cf, 0x2f9cf, 0x8aa0), (0x2f9d0, 0x2f9d0, 0x8aed),
    (0x2f9d1, 0x2f9d1, 0x8b8a), (0x2f9d2, 0x2f9d2, 0x8c55), (0x2f9d3, 0x2f9d3, 0x27ca8),
    (0x2f9d4, 0x2f9d4, 0x8cab), (0x2f9d5, 0x2f9d5, 0x8cc1), (0x2f9d6, 0x2f9d6, 0x8d1b),
    (0x2f9d7, 0x2f9d7, 0x8d77), (0x2f9d8, 0x2f9d8, 0x27f2f), (0x2f9d9, 0x2f9d9, 0x20804),
    (0x2f9da, 0x2f9da, 0x8dcb), (0x2f9db, 0x2f9db, 0x8dbc), (0x2f9dc, 0x2f9dc, 0x8df0),
    (0x2f9dd, 0x2f9dd, 0x208de), (0x2f9de, 0x2f9de, 0x8ed4), (0x2f9df, 0x2f9df, 0x8f38),
    (0x2f9e0, 0x2f9e0, 0x285d2), (0x2f9e1, 0x2f9e1, 0x285ed), (0x2f9e2, 0x2f9e2, 0x9094),
    (0x2f9e3, 0x2f9e3, 0x90f1), (0x2f9e4, 0x2f9e4, 0x9111), (0x2f9e5, 0x2f9e5, 0x2872e),
    (0x2f9e6, 0x2f9e6, 0x911b), (0x2f9e7, 0x2f9e7, 0x9238), (0x2f9e8, 0x2f9e8, 0x92d7),
    (0x2f9e9, 0x2f9e9, 0x92d8), (0x2f9ea, 0x2f9ea, 0x927c), (0x2f9eb, 0x2f9eb, 0x93f9),
    (0x2f9ec, 0x2f9ec, 0x9415), (0x2f9ed, 0x2f9ed, 0x28bfa), (0x2f9ee, 0x2f9ee, 0x958b),
    (0x2f9ef, 0x2f9ef, 0x4995), (0x2f9f0, 0x2f9f0, 0x95b7), (0x2f9f1, 0x2f9f1, 0x28d77),
    (0x2f9f2, 0x2f9f2, 0x49e6), (0x2f9f3, 0x2f9f3, 0x96c3), (0x2f9f4, 0x2f9f4, 0x5db2),
    (0x2f9f5, 0x2f9f5, 0x9723), (0x2f9f6, 0x2f9f6, 0x29145), (0x2f9f7, 0x2f9f7, 0x2921a),
    (0x2f9f8, 0x2f9f8, 0x4a6e), (0x2f9f9, 0x2f9f9, 0x4a76), (0x2f9fa, 0x2f9fa, 0x97e0),
    (0x2f9fb, 0x2f9fb, 0x2940a), (0x2f9fc, 0x2f9fc, 0x4ab2), (0x2f9fd, 0x2f9fd, 0x29496),
    (0x2f9fe, 0x2f9ff, 0x980b), (0x2fa00, 0x2fa00, 0x9829), (0x2fa01, 0x2fa01, 0x295b6)]"

definition unicode_ranges_nfd_13 :: "(int \<times> int \<times> int) list" where
  "unicode_ranges_nfd_13 = [
    (0x2fa02, 0x2fa02, 0x98e2), (0x2fa03, 0x2fa03, 0x4b33), (0x2fa04, 0x2fa04, 0x9929),
    (0x2fa05, 0x2fa05, 0x99a7), (0x2fa06, 0x2fa06, 0x99c2), (0x2fa07, 0x2fa07, 0x99fe),
    (0x2fa08, 0x2fa08, 0x4bce), (0x2fa09, 0x2fa09, 0x29b30), (0x2fa0a, 0x2fa0a, 0x9b12),
    (0x2fa0b, 0x2fa0b, 0x9c40), (0x2fa0c, 0x2fa0c, 0x9cfd), (0x2fa0d, 0x2fa0d, 0x4cce),
    (0x2fa0e, 0x2fa0e, 0x4ced), (0x2fa0f, 0x2fa0f, 0x9d67), (0x2fa10, 0x2fa10, 0x2a0ce),
    (0x2fa11, 0x2fa11, 0x4cf8), (0x2fa12, 0x2fa12, 0x2a105), (0x2fa13, 0x2fa13, 0x2a20e),
    (0x2fa14, 0x2fa14, 0x2a291), (0x2fa15, 0x2fa15, 0x9ebb), (0x2fa16, 0x2fa16, 0x4d56),
    (0x2fa17, 0x2fa17, 0x9ef9), (0x2fa18, 0x2fa18, 0x9efe), (0x2fa19, 0x2fa19, 0x9f05),
    (0x2fa1a, 0x2fa1a, 0x9f0f), (0x2fa1b, 0x2fa1b, 0x9f16), (0x2fa1c, 0x2fa1c, 0x9f3b),
    (0x2fa1d, 0x2fa1d, 0x2a600)]"

definition unicode_ranges_nfd :: "(int \<times> int \<times> int) list" where
  "unicode_ranges_nfd =
    unicode_ranges_nfd_1 @ unicode_ranges_nfd_2 @ unicode_ranges_nfd_3 @ unicode_ranges_nfd_4 @ unicode_ranges_nfd_5 @ unicode_ranges_nfd_6 @ unicode_ranges_nfd_7 @ unicode_ranges_nfd_8 @ unicode_ranges_nfd_9 @ unicode_ranges_nfd_10 @ unicode_ranges_nfd_11 @ unicode_ranges_nfd_12 @ unicode_ranges_nfd_13"

section \<open>What the tables satisfy\<close>

lemma unicode_ranges_flags_1_ok: "entries_ok fst fst (\<lambda>(_, f). single_category f) 0 unicode_ranges_flags_1 0x7ca"
  by code_simp

lemma unicode_ranges_flags_2_ok: "entries_ok fst fst (\<lambda>(_, f). single_category f) 0x7ca unicode_ranges_flags_2 0xae2"
  by code_simp

lemma unicode_ranges_flags_3_ok: "entries_ok fst fst (\<lambda>(_, f). single_category f) 0xae2 unicode_ranges_flags_3 0xd45"
  by code_simp

lemma unicode_ranges_flags_4_ok: "entries_ok fst fst (\<lambda>(_, f). single_category f) 0xd45 unicode_ranges_flags_4 0x124a"
  by code_simp

lemma unicode_ranges_flags_5_ok: "entries_ok fst fst (\<lambda>(_, f). single_category f) 0x124a unicode_ranges_flags_5 0x1b74"
  by code_simp

lemma unicode_ranges_flags_6_ok: "entries_ok fst fst (\<lambda>(_, f). single_category f) 0x1b74 unicode_ranges_flags_6 0x2329"
  by code_simp

lemma unicode_ranges_flags_7_ok: "entries_ok fst fst (\<lambda>(_, f). single_category f) 0x2329 unicode_ranges_flags_7 0xa67e"
  by code_simp

lemma unicode_ranges_flags_8_ok: "entries_ok fst fst (\<lambda>(_, f). single_category f) 0xa67e unicode_ranges_flags_8 0xfb1e"
  by code_simp

lemma unicode_ranges_flags_9_ok: "entries_ok fst fst (\<lambda>(_, f). single_category f) 0xfb1e unicode_ranges_flags_9 0x104fc"
  by code_simp

lemma unicode_ranges_flags_10_ok: "entries_ok fst fst (\<lambda>(_, f). single_category f) 0x104fc unicode_ranges_flags_10 0x10f46"
  by code_simp

lemma unicode_ranges_flags_11_ok: "entries_ok fst fst (\<lambda>(_, f). single_category f) 0x10f46 unicode_ranges_flags_11 0x115c1"
  by code_simp

lemma unicode_ranges_flags_12_ok: "entries_ok fst fst (\<lambda>(_, f). single_category f) 0x115c1 unicode_ranges_flags_12 0x11f3b"
  by code_simp

lemma unicode_ranges_flags_13_ok: "entries_ok fst fst (\<lambda>(_, f). single_category f) 0x11f3b unicode_ranges_flags_13 0x1d357"
  by code_simp

lemma unicode_ranges_flags_14_ok: "entries_ok fst fst (\<lambda>(_, f). single_category f) 0x1d357 unicode_ranges_flags_14 0x1ed3e"
  by code_simp

lemma unicode_ranges_flags_15_ok: "entries_ok fst fst (\<lambda>(_, f). single_category f) 0x1ed3e unicode_ranges_flags_15 0x2b820"
  by code_simp

lemma unicode_ranges_flags_16_ok: "entries_ok fst fst (\<lambda>(_, f). single_category f) 0x2b820 unicode_ranges_flags_16 MAX_CODEPOINTS"
  by code_simp

lemma unicode_ranges_flags_ok:
  "\<exists>es. unicode_ranges_flags = es @ [(MAX_CODEPOINTS, 0)] \<and> entries_ok fst fst (\<lambda>(_, f). single_category f) 0 es MAX_CODEPOINTS"
proof -
  have "entries_ok fst fst (\<lambda>(_, f). single_category f) 0
    (unicode_ranges_flags_1 @ unicode_ranges_flags_2 @ unicode_ranges_flags_3 @ unicode_ranges_flags_4 @ unicode_ranges_flags_5 @ unicode_ranges_flags_6 @ unicode_ranges_flags_7 @ unicode_ranges_flags_8 @ unicode_ranges_flags_9 @ unicode_ranges_flags_10 @ unicode_ranges_flags_11 @ unicode_ranges_flags_12 @ unicode_ranges_flags_13 @ unicode_ranges_flags_14 @ unicode_ranges_flags_15 @ unicode_ranges_flags_16)
    MAX_CODEPOINTS"
    by (intro entries_ok_append [OF unicode_ranges_flags_1_ok]
    entries_ok_append [OF unicode_ranges_flags_2_ok]
    entries_ok_append [OF unicode_ranges_flags_3_ok]
    entries_ok_append [OF unicode_ranges_flags_4_ok]
    entries_ok_append [OF unicode_ranges_flags_5_ok]
    entries_ok_append [OF unicode_ranges_flags_6_ok]
    entries_ok_append [OF unicode_ranges_flags_7_ok]
    entries_ok_append [OF unicode_ranges_flags_8_ok]
    entries_ok_append [OF unicode_ranges_flags_9_ok]
    entries_ok_append [OF unicode_ranges_flags_10_ok]
    entries_ok_append [OF unicode_ranges_flags_11_ok]
    entries_ok_append [OF unicode_ranges_flags_12_ok]
    entries_ok_append [OF unicode_ranges_flags_13_ok]
    entries_ok_append [OF unicode_ranges_flags_14_ok]
    entries_ok_append [OF unicode_ranges_flags_15_ok]
    unicode_ranges_flags_16_ok)
  then show ?thesis by (intro exI conjI) (simp_all only: unicode_ranges_flags_def append_assoc)
qed

lemma unicode_map_lowercase_1_ok: "entries_ok fst fst lower_ok 0 unicode_map_lowercase_1 0x1b3"
  by code_simp

lemma unicode_map_lowercase_2_ok: "entries_ok fst fst lower_ok 0x1b3 unicode_map_lowercase_2 0x411"
  by code_simp

lemma unicode_map_lowercase_3_ok: "entries_ok fst fst lower_ok 0x411 unicode_map_lowercase_3 0x544"
  by code_simp

lemma unicode_map_lowercase_4_ok: "entries_ok fst fst lower_ok 0x544 unicode_map_lowercase_4 0x1c95"
  by code_simp

lemma unicode_map_lowercase_5_ok: "entries_ok fst fst lower_ok 0x1c95 unicode_map_lowercase_5 0x1ee2"
  by code_simp

lemma unicode_map_lowercase_6_ok: "entries_ok fst fst lower_ok 0x1ee2 unicode_map_lowercase_6 0x24c8"
  by code_simp

lemma unicode_map_lowercase_7_ok: "entries_ok fst fst lower_ok 0x24c8 unicode_map_lowercase_7 0xa686"
  by code_simp

lemma unicode_map_lowercase_8_ok: "entries_ok fst fst lower_ok 0xa686 unicode_map_lowercase_8 0x1041b"
  by code_simp

lemma unicode_map_lowercase_9_ok: "entries_ok fst fst lower_ok 0x1041b unicode_map_lowercase_9 0x118af"
  by code_simp

lemma unicode_map_lowercase_10_ok: "entries_ok fst fst lower_ok 0x118af unicode_map_lowercase_10 MAX_CODEPOINTS"
  by code_simp

lemma unicode_map_lowercase_ok: "entries_ok fst fst lower_ok 0 unicode_map_lowercase MAX_CODEPOINTS"
  unfolding unicode_map_lowercase_def
  by (intro entries_ok_append [OF unicode_map_lowercase_1_ok]
    entries_ok_append [OF unicode_map_lowercase_2_ok]
    entries_ok_append [OF unicode_map_lowercase_3_ok]
    entries_ok_append [OF unicode_map_lowercase_4_ok]
    entries_ok_append [OF unicode_map_lowercase_5_ok]
    entries_ok_append [OF unicode_map_lowercase_6_ok]
    entries_ok_append [OF unicode_map_lowercase_7_ok]
    entries_ok_append [OF unicode_map_lowercase_8_ok]
    entries_ok_append [OF unicode_map_lowercase_9_ok]
    unicode_map_lowercase_10_ok)

lemma unicode_map_uppercase_1_ok: "entries_ok fst fst (\<lambda>(_, u). u < MAX_CODEPOINTS) 0 unicode_map_uppercase_1 0x1d2"
  by code_simp

lemma unicode_map_uppercase_2_ok: "entries_ok fst fst (\<lambda>(_, u). u < MAX_CODEPOINTS) 0x1d2 unicode_map_uppercase_2 0x3ed"
  by code_simp

lemma unicode_map_uppercase_3_ok: "entries_ok fst fst (\<lambda>(_, u). u < MAX_CODEPOINTS) 0x3ed unicode_map_uppercase_3 0x523"
  by code_simp

lemma unicode_map_uppercase_4_ok: "entries_ok fst fst (\<lambda>(_, u). u < MAX_CODEPOINTS) 0x523 unicode_map_uppercase_4 0x1e53"
  by code_simp

lemma unicode_map_uppercase_5_ok: "entries_ok fst fst (\<lambda>(_, u). u < MAX_CODEPOINTS) 0x1e53 unicode_map_uppercase_5 0x1f85"
  by code_simp

lemma unicode_map_uppercase_6_ok: "entries_ok fst fst (\<lambda>(_, u). u < MAX_CODEPOINTS) 0x1f85 unicode_map_uppercase_6 0x2ca9"
  by code_simp

lemma unicode_map_uppercase_7_ok: "entries_ok fst fst (\<lambda>(_, u). u < MAX_CODEPOINTS) 0x2ca9 unicode_map_uppercase_7 0xa77f"
  by code_simp

lemma unicode_map_uppercase_8_ok: "entries_ok fst fst (\<lambda>(_, u). u < MAX_CODEPOINTS) 0xa77f unicode_map_uppercase_8 0x10432"
  by code_simp

lemma unicode_map_uppercase_9_ok: "entries_ok fst fst (\<lambda>(_, u). u < MAX_CODEPOINTS) 0x10432 unicode_map_uppercase_9 0x10cf1"
  by code_simp

lemma unicode_map_uppercase_10_ok: "entries_ok fst fst (\<lambda>(_, u). u < MAX_CODEPOINTS) 0x10cf1 unicode_map_uppercase_10 MAX_CODEPOINTS"
  by code_simp

lemma unicode_map_uppercase_ok: "entries_ok fst fst (\<lambda>(_, u). u < MAX_CODEPOINTS) 0 unicode_map_uppercase MAX_CODEPOINTS"
  unfolding unicode_map_uppercase_def
  by (intro entries_ok_append [OF unicode_map_uppercase_1_ok]
    entries_ok_append [OF unicode_map_uppercase_2_ok]
    entries_ok_append [OF unicode_map_uppercase_3_ok]
    entries_ok_append [OF unicode_map_uppercase_4_ok]
    entries_ok_append [OF unicode_map_uppercase_5_ok]
    entries_ok_append [OF unicode_map_uppercase_6_ok]
    entries_ok_append [OF unicode_map_uppercase_7_ok]
    entries_ok_append [OF unicode_map_uppercase_8_ok]
    entries_ok_append [OF unicode_map_uppercase_9_ok]
    unicode_map_uppercase_10_ok)

lemma unicode_ranges_nfd_1_ok: "entries_ok fst (\<lambda>(_, b, _). b) (\<lambda>(_, _, c). 0 \<le> c \<and> c < MAX_CODEPOINTS) 0 unicode_ranges_nfd_1 0x1e2"
  by code_simp

lemma unicode_ranges_nfd_2_ok: "entries_ok fst (\<lambda>(_, b, _). b) (\<lambda>(_, _, c). 0 \<le> c \<and> c < MAX_CODEPOINTS) 0x1e2 unicode_ranges_nfd_2 0x6c0"
  by code_simp

lemma unicode_ranges_nfd_3_ok: "entries_ok fst (\<lambda>(_, b, _). b) (\<lambda>(_, _, c). 0 \<le> c \<and> c < MAX_CODEPOINTS) 0x6c0 unicode_ranges_nfd_3 0x1e50"
  by code_simp

lemma unicode_ranges_nfd_4_ok: "entries_ok fst (\<lambda>(_, b, _). b) (\<lambda>(_, _, c). 0 \<le> c \<and> c < MAX_CODEPOINTS) 0x1e50 unicode_ranges_nfd_4 0x1eeb"
  by code_simp

lemma unicode_ranges_nfd_5_ok: "entries_ok fst (\<lambda>(_, b, _). b) (\<lambda>(_, _, c). 0 \<le> c \<and> c < MAX_CODEPOINTS) 0x1eeb unicode_ranges_nfd_5 0x30b6"
  by code_simp

lemma unicode_ranges_nfd_6_ok: "entries_ok fst (\<lambda>(_, b, _). b) (\<lambda>(_, _, c). 0 \<le> c \<and> c < MAX_CODEPOINTS) 0x30b6 unicode_ranges_nfd_6 0xf96f"
  by code_simp

lemma unicode_ranges_nfd_7_ok: "entries_ok fst (\<lambda>(_, b, _). b) (\<lambda>(_, _, c). 0 \<le> c \<and> c < MAX_CODEPOINTS) 0xf96f unicode_ranges_nfd_7 0xfa05"
  by code_simp

lemma unicode_ranges_nfd_8_ok: "entries_ok fst (\<lambda>(_, b, _). b) (\<lambda>(_, _, c). 0 \<le> c \<and> c < MAX_CODEPOINTS) 0xfa05 unicode_ranges_nfd_8 0xfaaa"
  by code_simp

lemma unicode_ranges_nfd_9_ok: "entries_ok fst (\<lambda>(_, b, _). b) (\<lambda>(_, _, c). 0 \<le> c \<and> c < MAX_CODEPOINTS) 0xfaaa unicode_ranges_nfd_9 0x2f838"
  by code_simp

lemma unicode_ranges_nfd_10_ok: "entries_ok fst (\<lambda>(_, b, _). b) (\<lambda>(_, _, c). 0 \<le> c \<and> c < MAX_CODEPOINTS) 0x2f838 unicode_ranges_nfd_10 0x2f8d2"
  by code_simp

lemma unicode_ranges_nfd_11_ok: "entries_ok fst (\<lambda>(_, b, _). b) (\<lambda>(_, _, c). 0 \<le> c \<and> c < MAX_CODEPOINTS) 0x2f8d2 unicode_ranges_nfd_11 0x2f96b"
  by code_simp

lemma unicode_ranges_nfd_12_ok: "entries_ok fst (\<lambda>(_, b, _). b) (\<lambda>(_, _, c). 0 \<le> c \<and> c < MAX_CODEPOINTS) 0x2f96b unicode_ranges_nfd_12 0x2fa02"
  by code_simp

lemma unicode_ranges_nfd_13_ok: "entries_ok fst (\<lambda>(_, b, _). b) (\<lambda>(_, _, c). 0 \<le> c \<and> c < MAX_CODEPOINTS) 0x2fa02 unicode_ranges_nfd_13 MAX_CODEPOINTS"
  by code_simp

lemma unicode_ranges_nfd_ok: "entries_ok fst (\<lambda>(_, b, _). b) (\<lambda>(_, _, c). 0 \<le> c \<and> c < MAX_CODEPOINTS) 0 unicode_ranges_nfd MAX_CODEPOINTS"
  unfolding unicode_ranges_nfd_def
  by (intro entries_ok_append [OF unicode_ranges_nfd_1_ok]
    entries_ok_append [OF unicode_ranges_nfd_2_ok]
    entries_ok_append [OF unicode_ranges_nfd_3_ok]
    entries_ok_append [OF unicode_ranges_nfd_4_ok]
    entries_ok_append [OF unicode_ranges_nfd_5_ok]
    entries_ok_append [OF unicode_ranges_nfd_6_ok]
    entries_ok_append [OF unicode_ranges_nfd_7_ok]
    entries_ok_append [OF unicode_ranges_nfd_8_ok]
    entries_ok_append [OF unicode_ranges_nfd_9_ok]
    entries_ok_append [OF unicode_ranges_nfd_10_ok]
    entries_ok_append [OF unicode_ranges_nfd_11_ok]
    entries_ok_append [OF unicode_ranges_nfd_12_ok]
    unicode_ranges_nfd_13_ok)

text \<open>
  The blocks of Han characters that \<^verbatim>\<open>unicode_cpt_is_han\<close> lists hold no numbers. A range ends where the next one
  begins, so the check looks at neighbours.
\<close>

fun neighbours :: "('a \<Rightarrow> 'a \<Rightarrow> bool) \<Rightarrow> 'a list \<Rightarrow> bool" where
  "neighbours Q (x # y # zs) \<longleftrightarrow> Q x y \<and> neighbours Q (y # zs)"
| "neighbours Q _ \<longleftrightarrow> True"

lemma neighbours_join:
  "ys \<noteq> [] \<Longrightarrow> neighbours Q (xs @ [hd ys]) \<Longrightarrow> neighbours Q (ys @ zs) \<Longrightarrow> neighbours Q (xs @ ys @ zs)"
proof (induction xs)
  case (Cons x xs)
  then show ?case by (cases xs; cases ys) auto
qed simp

lemma neighbours_at: "neighbours Q (pre @ x # y # post) \<Longrightarrow> Q x y"
proof (induction pre)
  case (Cons p pre)
  then show ?case by (cases pre) auto
qed simp

definition han_ranges :: "(int \<times> int) list" where
  "han_ranges = [(0x4E00, 0x9FFF), (0x3400, 0x4DBF), (0x20000, 0x2A6DF), (0x2A700, 0x2B73F), (0x2B740, 0x2B81F),
     (0x2B820, 0x2CEAF), (0x2CEB0, 0x2EBEF), (0xF900, 0xFAFF), (0x2F800, 0x2FA1F)]"

definition no_han_number :: "int \<times> int \<Rightarrow> int \<times> int \<Rightarrow> bool" where
  "no_han_number r s \<longleftrightarrow> snd r = 0x02 \<longrightarrow> list_all (\<lambda>(a, b). b < fst r \<or> fst s \<le> a) han_ranges"

lemma unicode_ranges_flags_1_han: "neighbours no_han_number (unicode_ranges_flags_1 @ [hd unicode_ranges_flags_2])"
  by code_simp

lemma unicode_ranges_flags_2_han: "unicode_ranges_flags_2 \<noteq> [] \<and> neighbours no_han_number (unicode_ranges_flags_2 @ [hd unicode_ranges_flags_3])"
  by code_simp

lemma unicode_ranges_flags_3_han: "unicode_ranges_flags_3 \<noteq> [] \<and> neighbours no_han_number (unicode_ranges_flags_3 @ [hd unicode_ranges_flags_4])"
  by code_simp

lemma unicode_ranges_flags_4_han: "unicode_ranges_flags_4 \<noteq> [] \<and> neighbours no_han_number (unicode_ranges_flags_4 @ [hd unicode_ranges_flags_5])"
  by code_simp

lemma unicode_ranges_flags_5_han: "unicode_ranges_flags_5 \<noteq> [] \<and> neighbours no_han_number (unicode_ranges_flags_5 @ [hd unicode_ranges_flags_6])"
  by code_simp

lemma unicode_ranges_flags_6_han: "unicode_ranges_flags_6 \<noteq> [] \<and> neighbours no_han_number (unicode_ranges_flags_6 @ [hd unicode_ranges_flags_7])"
  by code_simp

lemma unicode_ranges_flags_7_han: "unicode_ranges_flags_7 \<noteq> [] \<and> neighbours no_han_number (unicode_ranges_flags_7 @ [hd unicode_ranges_flags_8])"
  by code_simp

lemma unicode_ranges_flags_8_han: "unicode_ranges_flags_8 \<noteq> [] \<and> neighbours no_han_number (unicode_ranges_flags_8 @ [hd unicode_ranges_flags_9])"
  by code_simp

lemma unicode_ranges_flags_9_han: "unicode_ranges_flags_9 \<noteq> [] \<and> neighbours no_han_number (unicode_ranges_flags_9 @ [hd unicode_ranges_flags_10])"
  by code_simp

lemma unicode_ranges_flags_10_han: "unicode_ranges_flags_10 \<noteq> [] \<and> neighbours no_han_number (unicode_ranges_flags_10 @ [hd unicode_ranges_flags_11])"
  by code_simp

lemma unicode_ranges_flags_11_han: "unicode_ranges_flags_11 \<noteq> [] \<and> neighbours no_han_number (unicode_ranges_flags_11 @ [hd unicode_ranges_flags_12])"
  by code_simp

lemma unicode_ranges_flags_12_han: "unicode_ranges_flags_12 \<noteq> [] \<and> neighbours no_han_number (unicode_ranges_flags_12 @ [hd unicode_ranges_flags_13])"
  by code_simp

lemma unicode_ranges_flags_13_han: "unicode_ranges_flags_13 \<noteq> [] \<and> neighbours no_han_number (unicode_ranges_flags_13 @ [hd unicode_ranges_flags_14])"
  by code_simp

lemma unicode_ranges_flags_14_han: "unicode_ranges_flags_14 \<noteq> [] \<and> neighbours no_han_number (unicode_ranges_flags_14 @ [hd unicode_ranges_flags_15])"
  by code_simp

lemma unicode_ranges_flags_15_han: "unicode_ranges_flags_15 \<noteq> [] \<and> neighbours no_han_number (unicode_ranges_flags_15 @ [hd unicode_ranges_flags_16])"
  by code_simp

lemma unicode_ranges_flags_16_han: "unicode_ranges_flags_16 \<noteq> [] \<and> neighbours no_han_number (unicode_ranges_flags_16 @ [(MAX_CODEPOINTS, 0)])"
  by code_simp

lemma ranges_no_han_number: "neighbours no_han_number unicode_ranges_flags"
  unfolding unicode_ranges_flags_def
  by (intro
    neighbours_join [OF conjunct1 [OF unicode_ranges_flags_2_han] unicode_ranges_flags_1_han]
    neighbours_join [OF conjunct1 [OF unicode_ranges_flags_3_han] conjunct2 [OF unicode_ranges_flags_2_han]]
    neighbours_join [OF conjunct1 [OF unicode_ranges_flags_4_han] conjunct2 [OF unicode_ranges_flags_3_han]]
    neighbours_join [OF conjunct1 [OF unicode_ranges_flags_5_han] conjunct2 [OF unicode_ranges_flags_4_han]]
    neighbours_join [OF conjunct1 [OF unicode_ranges_flags_6_han] conjunct2 [OF unicode_ranges_flags_5_han]]
    neighbours_join [OF conjunct1 [OF unicode_ranges_flags_7_han] conjunct2 [OF unicode_ranges_flags_6_han]]
    neighbours_join [OF conjunct1 [OF unicode_ranges_flags_8_han] conjunct2 [OF unicode_ranges_flags_7_han]]
    neighbours_join [OF conjunct1 [OF unicode_ranges_flags_9_han] conjunct2 [OF unicode_ranges_flags_8_han]]
    neighbours_join [OF conjunct1 [OF unicode_ranges_flags_10_han] conjunct2 [OF unicode_ranges_flags_9_han]]
    neighbours_join [OF conjunct1 [OF unicode_ranges_flags_11_han] conjunct2 [OF unicode_ranges_flags_10_han]]
    neighbours_join [OF conjunct1 [OF unicode_ranges_flags_12_han] conjunct2 [OF unicode_ranges_flags_11_han]]
    neighbours_join [OF conjunct1 [OF unicode_ranges_flags_13_han] conjunct2 [OF unicode_ranges_flags_12_han]]
    neighbours_join [OF conjunct1 [OF unicode_ranges_flags_14_han] conjunct2 [OF unicode_ranges_flags_13_han]]
    neighbours_join [OF conjunct1 [OF unicode_ranges_flags_15_han] conjunct2 [OF unicode_ranges_flags_14_han]]
    neighbours_join [OF conjunct1 [OF unicode_ranges_flags_16_han] conjunct2 [OF unicode_ranges_flags_15_han]]
    conjunct2 [OF unicode_ranges_flags_16_han])

text \<open>The capital letters of the contractions are mapped to the small ones.\<close>

lemma lowercase_1_contraction:
  "list_all (\<lambda>l. map_of unicode_map_lowercase_1 (l - 0x20) = Some l) [0x73, 0x74, 0x72, 0x65, 0x76, 0x6d, 0x6c, 0x64]"
  by code_simp

lemma lowercase_contraction: "contraction_letter l \<Longrightarrow> map_of unicode_map_lowercase (l - 0x20) = Some l"
  using lowercase_1_contraction
  by (auto simp: contraction_letter_def unicode_map_lowercase_def map_add_Some_iff)

end
