(* ===== verification/UnicodeFlags.thy ===== *)
theory UnicodeFlags
imports UnicodeData
begin

text \<open>
  The lookups of \<^verbatim>\<open>src/unicode.cpp\<close> in its tables: the flags of a code point (\<^verbatim>\<open>unicode_cpt_flags\<close>, a bit field
  over sixteen bits), lower case, decomposition and the ranges of Han characters. The array of flags is a function
  of the code point; \<^verbatim>\<open>std::lower_bound\<close> and \<^verbatim>\<open>std::upper_bound\<close> are the bisection of the standard library, which
  is right because the tables are ascending.
\<close>

section \<open>Flags\<close>

type_synonym u16 = "16 word"

definition is_undefined :: "u16 \<Rightarrow> bool" where "is_undefined f \<longleftrightarrow> bit f 0"
definition is_number :: "u16 \<Rightarrow> bool" where "is_number f \<longleftrightarrow> bit f 1"
definition is_letter :: "u16 \<Rightarrow> bool" where "is_letter f \<longleftrightarrow> bit f 2"
definition is_whitespace :: "u16 \<Rightarrow> bool" where "is_whitespace f \<longleftrightarrow> bit f 8"

definition category_flag :: "u16 \<Rightarrow> u16" where
  "category_flag f = f AND 0xFF"

text \<open>The loop over the ranges: each range extends to the beginning of the next one.\<close>

fun assign_ranges :: "(int \<times> int) list \<Rightarrow> (int \<Rightarrow> u16) \<Rightarrow> int \<Rightarrow> u16" where
  "assign_ranges ((a, f) # (b, g) # rs) A =
     assign_ranges ((b, g) # rs) (\<lambda>c. if a \<le> c \<and> c < b then word_of_int f else A c)"
| "assign_ranges _ A = A"

definition set_flag :: "nat \<Rightarrow> int \<Rightarrow> (int \<Rightarrow> u16) \<Rightarrow> int \<Rightarrow> u16" where
  "set_flag k c A = A(c := set_bit k (A c))"

definition unicode_cpt_flags_array :: "int \<Rightarrow> u16" where
  "unicode_cpt_flags_array =
     (let A = assign_ranges unicode_ranges_flags (\<lambda>_. 0x0001);
          A = fold (set_flag 8) unicode_set_whitespace A;
          A = fold (\<lambda>p. set_flag 9 (snd p)) unicode_map_lowercase A;
          A = fold (\<lambda>p. set_flag 10 (snd p)) unicode_map_uppercase A
      in fold (\<lambda>r. set_flag 11 (snd (snd r))) unicode_ranges_nfd A)"

definition unicode_cpt_flags_from_cpt :: "u32 \<Rightarrow> u16" where
  "unicode_cpt_flags_from_cpt cpt =
     (if uint cpt < MAX_CODEPOINTS then unicode_cpt_flags_array (uint cpt) else 0x0001)"

section \<open>Searching a table\<close>

text \<open>The bisection of the standard library: the first index of \<open>first .. first + len\<close> where \<open>q\<close> fails.\<close>

function partition_point :: "(nat \<Rightarrow> bool) \<Rightarrow> nat \<Rightarrow> nat \<Rightarrow> nat" where
  "partition_point q first len =
     (if len = 0 then first
      else let half = len div 2 in
        if q (first + half) then partition_point q (first + half + 1) (len - half - 1)
        else partition_point q first half)"
  by pat_completeness auto
termination by (relation "measure (\<lambda>(_, _, len). len)") auto

declare partition_point.simps [simp del]

definition lower_bound :: "('a \<Rightarrow> bool) \<Rightarrow> 'a list \<Rightarrow> nat" where
  "lower_bound q xs = partition_point (\<lambda>i. q (xs ! i)) 0 (length xs)"

definition unicode_tolower :: "u32 \<Rightarrow> u32" where
  "unicode_tolower cpt =
     (let it = lower_bound (\<lambda>p. fst p < uint cpt) unicode_map_lowercase in
      if it \<noteq> length unicode_map_lowercase \<and> fst (unicode_map_lowercase ! it) = uint cpt
      then word_of_int (snd (unicode_map_lowercase ! it))
      else cpt)"

text \<open>\<^verbatim>\<open>upper_bound\<close> finds the first range that begins after the code point; the one before it is examined.\<close>

definition nfd_of_cpt :: "u32 \<Rightarrow> u32" where
  "nfd_of_cpt cpt =
     (let it = lower_bound (\<lambda>r. \<not> uint cpt < fst r) unicode_ranges_nfd - 1;
          (a, b, c) = unicode_ranges_nfd ! it in
      if a \<le> uint cpt \<and> uint cpt \<le> b then word_of_int c else cpt)"

definition unicode_cpts_normalize_nfd :: "u32 list \<Rightarrow> u32 list" where
  "unicode_cpts_normalize_nfd cpts = map nfd_of_cpt cpts"

definition unicode_cpt_is_han :: "u32 \<Rightarrow> bool" where
  "unicode_cpt_is_han cpt \<longleftrightarrow>
     (cpt \<ge> 0x4E00 \<and> cpt \<le> 0x9FFF) \<or>
     (cpt \<ge> 0x3400 \<and> cpt \<le> 0x4DBF) \<or>
     (cpt \<ge> 0x20000 \<and> cpt \<le> 0x2A6DF) \<or>
     (cpt \<ge> 0x2A700 \<and> cpt \<le> 0x2B73F) \<or>
     (cpt \<ge> 0x2B740 \<and> cpt \<le> 0x2B81F) \<or>
     (cpt \<ge> 0x2B820 \<and> cpt \<le> 0x2CEAF) \<or>
     (cpt \<ge> 0x2CEB0 \<and> cpt \<le> 0x2EBEF) \<or>
     (cpt \<ge> 0xF900 \<and> cpt \<le> 0xFAFF) \<or>
     (cpt \<ge> 0x2F800 \<and> cpt \<le> 0x2FA1F)"

section \<open>The array of flags\<close>

lemma assign_ranges_other: "\<forall>r \<in> set rs. c < fst r \<Longrightarrow> assign_ranges rs A c = A c"
  by (induction rs A rule: assign_ranges.induct) auto

lemma assign_ranges_at:
  assumes "sorted_wrt (\<lambda>r s. fst r < fst s) (pre @ (a, f) # (b, g) # post)" and "a \<le> c" and "c < b"
  shows "assign_ranges (pre @ (a, f) # (b, g) # post) A c = word_of_int f"
  using assms
proof (induction pre arbitrary: A)
  case Nil
  then have "\<forall>r \<in> set ((b, g) # post). c < fst r" by auto
  then show ?case using Nil.prems by (simp add: assign_ranges_other)
next
  case (Cons p pre)
  then show ?case by (cases p; cases pre) auto
qed

lemma ranges_adjacent:
  fixes rs :: "(int \<times> int) list"
  assumes "rs \<noteq> []" and "fst (hd rs) \<le> c" and "c < b"
  obtains pre a f b' g' post where "rs @ [(b, g)] = pre @ (a, f) # (b', g') # post"
    and "(a, f) \<in> set rs" and "a \<le> c" and "c < b'"
  using assms
proof (induction rs arbitrary: thesis)
  case (Cons r rs)
  obtain a f where r: "r = (a, f)" by (cases r)
  show ?case
  proof (cases "rs = [] \<or> c < fst (hd rs)")
    case True
    then obtain b' g' post where "rs @ [(b, g)] = (b', g') # post" and "c < b'"
      using Cons.prems(4) by (cases rs) auto
    then show ?thesis using Cons.prems r by (auto intro!: Cons.prems(1) [of "[]"])
  next
    case False
    then have "rs \<noteq> []" and "fst (hd rs) \<le> c" by auto
    then obtain pre a' f' b' g' post where "rs @ [(b, g)] = pre @ (a', f') # (b', g') # post"
      and "(a', f') \<in> set rs" and "a' \<le> c" and "c < b'"
      using Cons.IH Cons.prems(4) by blast
    then show ?thesis by (intro Cons.prems(1) [of "r # pre"]) auto
  qed
qed simp

lemma ranges_hd:
  "\<exists>rs. unicode_ranges_flags =
     (0, 0x80) # (0x20, 0x08) # (0x21, 0x20) # (0x24, 0x40) # (0x25, 0x20) # (0x2B, 0x40) # rs"
  by (simp add: unicode_ranges_flags_def unicode_ranges_flags_1_def)

lemma ranges_split:
  obtains es where "unicode_ranges_flags = es @ [(MAX_CODEPOINTS, 0)]"
    and "entries_ok fst fst (\<lambda>(_, f). single_category f) 0 es MAX_CODEPOINTS"
    and "es \<noteq> []" and "fst (hd es) = 0"
proof -
  obtain es where es: "unicode_ranges_flags = es @ [(MAX_CODEPOINTS, 0)]"
    and ok: "entries_ok fst fst (\<lambda>(_, f). single_category f) 0 es MAX_CODEPOINTS"
    using unicode_ranges_flags_ok by blast
  obtain rs where "unicode_ranges_flags = (0, 0x80) # (0x20, 0x08) # (0x21, 0x20) # rs"
    using ranges_hd by metis
  then have "es @ [(MAX_CODEPOINTS, 0)] = (0, 0x80) # (0x20, 0x08) # (0x21, 0x20) # rs"
    by (simp only: es)
  then have "es \<noteq> []" and "fst (hd es) = 0" by (cases es; simp)+
  with es ok show thesis by (rule that)
qed

lemma ranges_sorted: "sorted_wrt (\<lambda>r s. fst r < fst s) unicode_ranges_flags"
proof -
  obtain es where es: "unicode_ranges_flags = es @ [(MAX_CODEPOINTS, 0)]"
    and ok: "entries_ok fst fst (\<lambda>(_, f). single_category f) 0 es MAX_CODEPOINTS"
    by (rule ranges_split)
  have "fst e < MAX_CODEPOINTS" if "e \<in> set es" for e using entries_ok_bounds [OF ok that] by simp
  then show ?thesis unfolding es using entries_ok_sorted [OF ok] by (simp add: sorted_wrt_append)
qed

text \<open>Every range has one category, and the ranges leave no code point out.\<close>

lemma range_of_cpt:
  assumes "0 \<le> c" and "c < MAX_CODEPOINTS"
  obtains pre a f b g post where "unicode_ranges_flags = pre @ (a, f) # (b, g) # post"
    and "single_category f" and "a \<le> c" and "c < b" and "assign_ranges unicode_ranges_flags A c = word_of_int f"
proof -
  obtain es where es: "unicode_ranges_flags = es @ [(MAX_CODEPOINTS, 0)]"
    and ok: "entries_ok fst fst (\<lambda>(_, f). single_category f) 0 es MAX_CODEPOINTS"
    and hd: "es \<noteq> []" "fst (hd es) = 0"
    by (rule ranges_split)
  have "fst (hd es) \<le> c" using assms hd by simp
  then obtain pre a f b' g' post where *: "es @ [(MAX_CODEPOINTS, 0)] = pre @ (a, f) # (b', g') # post"
    "(a, f) \<in> set es" "a \<le> c" "c < b'"
    using ranges_adjacent [OF hd(1) _ assms(2)] by blast
  then have "single_category f" using entries_ok_bounds [OF ok] by fastforce
  moreover have "assign_ranges unicode_ranges_flags A c = word_of_int f"
    using assign_ranges_at [OF _ *(3,4)] ranges_sorted unfolding es *(1) by blast
  ultimately show thesis using that * es by metis
qed

lemma bit_set_flags:
  "bit (fold (\<lambda>x. set_flag k (h x)) xs A c) n \<longleftrightarrow> bit (A c) n \<or> n = k \<and> k < 16 \<and> c \<in> h ` set xs"
  by (induction xs arbitrary: A) (auto simp: set_flag_def bit_simps)

lemma bit_flags_array:
  "n \<le> 8 \<Longrightarrow> bit (unicode_cpt_flags_array c) n \<longleftrightarrow>
     bit (assign_ranges unicode_ranges_flags (\<lambda>_. 1) c) n \<or> n = 8 \<and> c \<in> set unicode_set_whitespace"
  using bit_set_flags [where h = "\<lambda>x. x"]
  by (simp add: unicode_cpt_flags_array_def Let_def bit_set_flags)

lemma bit_single_category:
  assumes "single_category f"
  shows "\<exists>!k. k < 8 \<and> bit (word_of_int f :: u16) k"
proof -
  have "f \<in> (\<lambda>k. 2 ^ k) ` set [0..<8]" using assms
    by (simp add: single_category_def upt_conv_Cons numeral_2_eq_2 [symmetric])
  then obtain k :: nat where "k < 8" and "f = 2 ^ k" by auto
  then have "bit (word_of_int f :: u16) n \<longleftrightarrow> n = k" for n
    by (auto simp: bit_simps)
  with \<open>k < 8\<close> show ?thesis by auto
qed

text \<open>The array of flags gives every code point exactly one category.\<close>

lemma cpt_has_one_category: "\<exists>!k. k < 8 \<and> bit (unicode_cpt_flags_from_cpt cpt) k"
proof (cases "uint cpt < MAX_CODEPOINTS")
  case True
  then obtain f where "single_category f" and "assign_ranges unicode_ranges_flags (\<lambda>_. 1) (uint cpt) = word_of_int f"
    using range_of_cpt [of "uint cpt"] by (metis uint_ge_0)
  then have "bit (unicode_cpt_flags_from_cpt cpt) k \<longleftrightarrow> bit (word_of_int f :: u16) k" if "k < 8" for k
    using that True by (simp add: unicode_cpt_flags_from_cpt_def bit_flags_array)
  then show ?thesis using bit_single_category [OF \<open>single_category f\<close>] by metis
next
  case False
  then have "bit (unicode_cpt_flags_from_cpt cpt) k \<longleftrightarrow> k = 0" for k
    by (simp add: unicode_cpt_flags_from_cpt_def bit_1_iff)
  then show ?thesis by auto
qed

lemma flags_nonzero [simp]: "unicode_cpt_flags_from_cpt cpt \<noteq> 0"
proof -
  obtain k where "bit (unicode_cpt_flags_from_cpt cpt) k" using cpt_has_one_category by blast
  then show ?thesis by auto
qed

lemma letter_not_number: "is_letter (unicode_cpt_flags_from_cpt cpt) \<Longrightarrow> \<not> is_number (unicode_cpt_flags_from_cpt cpt)"
proof -
  have "(1 :: nat) < 8" and "(2 :: nat) < 8" and "(1 :: nat) \<noteq> 2" by simp_all
  then show "is_letter (unicode_cpt_flags_from_cpt cpt) \<Longrightarrow> \<not> is_number (unicode_cpt_flags_from_cpt cpt)"
    using cpt_has_one_category [of cpt] unfolding is_letter_def is_number_def by metis
qed

lemma bit_low_flags:
  assumes "unicode_ranges_flags = pre @ (a, f) # (b, g) # post" and "a \<le> uint cpt" and "uint cpt < b"
    and "b \<le> MAX_CODEPOINTS" and "n \<le> 8"
  shows "bit (unicode_cpt_flags_from_cpt cpt) n \<longleftrightarrow>
    bit (word_of_int f :: u16) n \<or> n = 8 \<and> uint cpt \<in> set unicode_set_whitespace"
  using assign_ranges_at [OF ranges_sorted [unfolded assms(1)] assms(2,3)] assms
  by (simp add: unicode_cpt_flags_from_cpt_def bit_flags_array)

text \<open>The characters that the splitters name are white space and of no category that matters to them.\<close>

lemma blank_flags:
  assumes "cpt = 0x20 \<or> cpt = 0x0A \<or> cpt = 0x0D"
  shows "is_whitespace (unicode_cpt_flags_from_cpt cpt)"
    and "\<not> is_letter (unicode_cpt_flags_from_cpt cpt)"
    and "\<not> is_number (unicode_cpt_flags_from_cpt cpt)"
proof -
  obtain rs where rs: "unicode_ranges_flags = (0, 0x80) # (0x20, 0x08) # (0x21, 0x20) # rs"
    using ranges_hd by metis
  have "bit (unicode_cpt_flags_from_cpt cpt) n \<longleftrightarrow>
      bit (if cpt = 0x20 then 0x08 else 0x80 :: u16) n \<or> n = 8" if "n \<le> 8" for n
    using assms that bit_low_flags [of "[]" 0 "0x80" "0x20" "0x08" "(0x21, 0x20) # rs" cpt n]
      bit_low_flags [of "[(0, 0x80)]" "0x20" "0x08" "0x21" "0x20" rs cpt n]
    by (auto simp: rs MAX_CODEPOINTS_def unicode_set_whitespace_def)
  from this [of 8] this [of 2] this [of 1] show "is_whitespace (unicode_cpt_flags_from_cpt cpt)"
    and "\<not> is_letter (unicode_cpt_flags_from_cpt cpt)"
    and "\<not> is_number (unicode_cpt_flags_from_cpt cpt)"
    by (simp_all add: is_whitespace_def is_letter_def is_number_def)
qed

lemma quote_flags:
  "\<not> is_letter (unicode_cpt_flags_from_cpt 0x27)" "\<not> is_number (unicode_cpt_flags_from_cpt 0x27)"
proof -
  obtain rs where "unicode_ranges_flags =
      [(0, 0x80), (0x20, 0x08), (0x21, 0x20), (0x24, 0x40)] @ (0x25, 0x20) # (0x2B, 0x40) # rs"
    using ranges_hd by auto
  from bit_low_flags [OF this, of "0x27"]
  have "bit (unicode_cpt_flags_from_cpt 0x27) n \<longleftrightarrow> bit (0x20 :: u16) n" if "n < 8" for n
    using that by (simp add: MAX_CODEPOINTS_def)
  from this [of 2] this [of 1] show "\<not> is_letter (unicode_cpt_flags_from_cpt 0x27)"
    and "\<not> is_number (unicode_cpt_flags_from_cpt 0x27)"
    by (simp_all add: is_letter_def is_number_def)
qed

lemma han_not_number:
  assumes "unicode_cpt_is_han cpt"
  shows "\<not> is_number (unicode_cpt_flags_from_cpt cpt)"
proof -
  have han: "\<exists>r \<in> set han_ranges. fst r \<le> uint cpt \<and> uint cpt \<le> snd r"
    using assms by (simp add: unicode_cpt_is_han_def han_ranges_def word_le_def)
  then have "uint cpt < MAX_CODEPOINTS" by (auto simp: han_ranges_def MAX_CODEPOINTS_def)
  then obtain pre a f b g post where rs: "unicode_ranges_flags = pre @ (a, f) # (b, g) # post"
    and f: "single_category f" "a \<le> uint cpt" "uint cpt < b"
    and at: "assign_ranges unicode_ranges_flags (\<lambda>_. 1) (uint cpt) = word_of_int f"
    using range_of_cpt [of "uint cpt"] by (metis uint_ge_0)
  have "no_han_number (a, f) (b, g)" 
    using ranges_no_han_number [unfolded rs] by (rule neighbours_at)
  moreover obtain r where "r \<in> set han_ranges" "fst r \<le> uint cpt" "uint cpt \<le> snd r" using han by blast
  ultimately have "f \<noteq> 0x02" using f(2,3) by (force simp: no_han_number_def list_all_iff split: prod.splits)
  moreover have "bit (unicode_cpt_flags_from_cpt cpt) 1 \<longleftrightarrow> bit (word_of_int f :: u16) 1"
    using at \<open>uint cpt < MAX_CODEPOINTS\<close> by (simp add: unicode_cpt_flags_from_cpt_def bit_flags_array)
  ultimately show ?thesis using f(1) by (auto simp: is_number_def single_category_def)
qed

section \<open>Bisection\<close>

lemma partition_point_correct:
  assumes "first \<le> m" and "m \<le> first + len" and "\<And>i. first \<le> i \<Longrightarrow> i < first + len \<Longrightarrow> q i \<longleftrightarrow> i < m"
  shows "partition_point q first len = m"
  using assms
proof (induction q first len rule: partition_point.induct)
  case (1 q first len)
  show ?case
  proof (cases "len = 0")
    case False
    then have q: "q (first + len div 2) \<longleftrightarrow> first + len div 2 < m" using 1(5) by simp
    show ?thesis
    proof (cases "q (first + len div 2)")
      case True
      have "partition_point q (first + len div 2 + 1) (len - len div 2 - 1) = m"
        using False True q 1(3-5) by (intro 1(1)) auto
      then show ?thesis using False True by (simp add: partition_point.simps [of q first] Let_def)
    next
      case F: False
      have "partition_point q first (len div 2) = m" using False F q 1(3-5) by (intro 1(2)) auto
      then show ?thesis using False F by (simp add: partition_point.simps [of q first] Let_def)
    qed
  qed (use 1 in \<open>simp add: partition_point.simps\<close>)
qed

text \<open>On an ascending table the bisection stops behind the entries that satisfy a downward closed condition.\<close>

lemma lower_bound_correct:
  assumes "sorted_wrt (\<lambda>a b. q b \<longrightarrow> q a) xs"
  shows "lower_bound q xs = length (takeWhile q xs)"
  unfolding lower_bound_def
proof (rule partition_point_correct)
  fix i assume "i < 0 + length xs"
  then have "q (xs ! i) \<longleftrightarrow> i < length (takeWhile q xs)" using assms
  proof (induction xs arbitrary: i)
    case (Cons x xs)
    then show ?case by (cases i) auto
  qed simp
  then show "q (xs ! i) \<longleftrightarrow> i < length (takeWhile q xs)" .
qed (use length_takeWhile_le [of q xs] in simp_all)

lemma sorted_lookup:
  fixes c :: int
  assumes "sorted_wrt (\<lambda>a b. fst a < fst b) xs"
  shows "map_of xs c =
    (let it = length (takeWhile (\<lambda>p. fst p < c) xs) in
     if it \<noteq> length xs \<and> fst (xs ! it) = c then Some (snd (xs ! it)) else None)"
  using assms
proof (induction xs)
  case (Cons x xs)
  have "map_of xs c = None" if "c \<le> fst x"
    using Cons.prems that by (force simp: map_of_eq_None_iff)
  with Cons show ?case by (cases x) (auto simp: Let_def)
qed simp

lemma tolower_lookup:
  "unicode_tolower cpt = (case map_of unicode_map_lowercase (uint cpt) of None \<Rightarrow> cpt | Some l \<Rightarrow> word_of_int l)"
proof -
  have *: "sorted_wrt (\<lambda>a b. fst a < fst b) unicode_map_lowercase"
    using unicode_map_lowercase_ok by (rule entries_ok_sorted)
  then have "sorted_wrt (\<lambda>a b. fst b < uint cpt \<longrightarrow> fst a < uint cpt) unicode_map_lowercase"
    by (rule sorted_wrt_mono_rel [rotated]) auto
  then show ?thesis
    unfolding unicode_tolower_def sorted_lookup [OF *] by (simp add: lower_bound_correct Let_def)
qed

text \<open>Ignoring case only adds the capital letters to the letters of the English contractions.\<close>

lemma tolower_contraction:
  assumes "contraction_letter (uint ch)"
  shows "unicode_tolower cpt = ch \<longleftrightarrow> cpt = ch \<or> cpt = ch - 0x20"
proof (cases "map_of unicode_map_lowercase (uint cpt)")
  case None
  then have "uint cpt \<noteq> uint ch - 0x20" using lowercase_contraction [OF assms] by auto
  moreover have "uint (ch - 0x20) = uint ch - 0x20"
    using assms by (auto simp: contraction_letter_def uint_word_ariths)
  ultimately show ?thesis using None by (auto simp: tolower_lookup)
next
  case (Some l)
  then have "(uint cpt, l) \<in> set unicode_map_lowercase" by (rule map_of_SomeD)
  then have ok: "lower_ok (uint cpt, l)" "0 \<le> uint cpt"
    using entries_ok_bounds [OF unicode_map_lowercase_ok] by auto
  have "contraction_letter (uint ch) \<Longrightarrow> uint cpt \<noteq> uint ch" using ok by (auto simp: lower_ok_def)
  moreover have "unicode_tolower cpt = ch \<longleftrightarrow> l = uint ch"
    using ok Some by (auto simp: tolower_lookup lower_ok_def MAX_CODEPOINTS_def uint_word_of_int_eq take_bit_int_eq_self)
  moreover have "l = uint ch \<longleftrightarrow> uint cpt = uint ch - 0x20"
    using ok Some assms lowercase_contraction [OF assms] by (auto simp: lower_ok_def)
  moreover have "uint (ch - 0x20) = uint ch - 0x20"
    using assms by (auto simp: contraction_letter_def uint_word_ariths)
  ultimately show ?thesis using assms by (metis word_uint_eqI)
qed

end
