(* ===== verification/RegexMatch.thy ===== *)
theory RegexMatch
imports Prelude
begin

text \<open>
  The reference for the hand-written word splitters: backtracking regular expressions over character classes, as
  the expressions in the comments of \<^verbatim>\<open>src/unicode.cpp\<close> are understood by PCRE and ECMAScript engines. \<open>ends r xs\<close>
  lists what can remain of the text after a match of \<open>r\<close> at its beginning, in the order in which a backtracking
  engine tries the matches; the match is the first one. Repetitions are greedy.
\<close>

datatype 'a rx =
    Cls "'a \<Rightarrow> bool"
  | Cat "'a rx" "'a rx"
  | Alt "'a rx" "'a rx"
  | Opt "'a rx"
  | Many "'a \<Rightarrow> bool"
  | Upto nat "'a \<Rightarrow> bool"
  | NotAhead "'a \<Rightarrow> bool"

fun many :: "('a \<Rightarrow> bool) \<Rightarrow> 'a list \<Rightarrow> 'a list list" where
  "many p [] = [[]]"
| "many p (x # xs) = (if p x then many p xs @ [x # xs] else [x # xs])"

fun upto_n :: "nat \<Rightarrow> ('a \<Rightarrow> bool) \<Rightarrow> 'a list \<Rightarrow> 'a list list" where
  "upto_n (Suc n) p (x # xs) = (if p x then upto_n n p xs @ [x # xs] else [x # xs])"
| "upto_n _ p xs = [xs]"

primrec ends :: "'a rx \<Rightarrow> 'a list \<Rightarrow> 'a list list" where
  "ends (Cls p) xs = (case xs of [] \<Rightarrow> [] | x # ys \<Rightarrow> if p x then [ys] else [])"
| "ends (Cat r s) xs = concat (map (ends s) (ends r xs))"
| "ends (Alt r s) xs = ends r xs @ ends s xs"
| "ends (Opt r) xs = ends r xs @ [xs]"
| "ends (Many p) xs = many p xs"
| "ends (Upto n p) xs = upto_n n p xs"
| "ends (NotAhead p) xs = (case xs of [] \<Rightarrow> [[]] | x # _ \<Rightarrow> if p x then [] else [xs])"

abbreviation Plus :: "('a \<Rightarrow> bool) \<Rightarrow> 'a rx" where
  "Plus p \<equiv> Cat (Cls p) (Many p)"

primrec first :: "'b list \<Rightarrow> 'b option" where
  "first [] = None"
| "first (y # ys) = Some y"

definition rx_match :: "'a rx \<Rightarrow> 'a list \<Rightarrow> 'a list option" where
  "rx_match r xs = first (ends r xs)"

text \<open>The lengths of the successive matches; a character where there is none stands alone.\<close>

function rx_words :: "'a rx \<Rightarrow> 'a list \<Rightarrow> nat list" where
  "rx_words r xs =
     (if xs = [] then []
      else case rx_match r xs of
        None \<Rightarrow> 1 # rx_words r (tl xs)
      | Some ys \<Rightarrow>
          if length ys < length xs then (length xs - length ys) # rx_words r ys
          else 1 # rx_words r (tl xs))"
  by pat_completeness auto
termination by (relation "measure (\<lambda>(_, xs). length xs)") auto

declare rx_words.simps [simp del]

lemma rx_words_Nil [simp]: "rx_words r [] = []"
  by (simp add: rx_words.simps)

lemma rx_words_match:
  "rx_match r xs = Some (drop n xs) \<Longrightarrow> 0 < n \<Longrightarrow> n \<le> length xs \<Longrightarrow> rx_words r xs = n # rx_words r (drop n xs)"
  by (subst rx_words.simps) auto

lemma rx_words_no_match: "rx_match r xs = None \<Longrightarrow> xs \<noteq> [] \<Longrightarrow> rx_words r xs = 1 # rx_words r (drop 1 xs)"
  by (subst rx_words.simps) (simp add: drop_Suc)

section \<open>The first match of an expression\<close>

lemma first_append: "first (xs @ ys) = (case first xs of None \<Rightarrow> first ys | Some x \<Rightarrow> Some x)"
  by (cases xs) auto

lemma hd_many: "\<exists>zs. many p xs = dropWhile p xs # zs"
  by (induction xs) auto

lemma match_Alt: "rx_match (Alt r s) xs = (case rx_match r xs of None \<Rightarrow> rx_match s xs | Some ys \<Rightarrow> Some ys)"
  by (simp add: rx_match_def first_append split: option.split)

lemma match_Cls_Cat:
  "rx_match (Cat (Cls p) r) xs = (case xs of [] \<Rightarrow> None | x # ys \<Rightarrow> if p x then rx_match r ys else None)"
  by (auto simp: rx_match_def split: list.splits)

lemma match_Cls: "rx_match (Cls p) xs = (case xs of [] \<Rightarrow> None | x # ys \<Rightarrow> if p x then Some ys else None)"
  by (auto simp: rx_match_def split: list.splits)

lemma match_Opt_Cat:
  "rx_match (Cat (Opt r) s) xs =
     (case rx_match (Cat r s) xs of None \<Rightarrow> rx_match s xs | Some ys \<Rightarrow> Some ys)"
  by (simp add: rx_match_def first_append split: option.split)

lemma match_Many: "rx_match (Many p) xs = Some (dropWhile p xs)"
  using hd_many [of p xs] by (auto simp: rx_match_def)

lemma match_Many_Cat:
  assumes "rx_match r (dropWhile p xs) = Some ys"
  shows "rx_match (Cat (Many p) r) xs = Some ys"
  using hd_many [of p xs] assms by (auto simp: rx_match_def first_append)

lemma match_Upto: "rx_match (Upto n p) xs = Some (drop (length (takeWhile p (take n xs))) xs)"
proof -
  have "\<exists>zs. upto_n n p xs = drop (length (takeWhile p (take n xs))) xs # zs"
    by (induction n p xs rule: upto_n.induct) auto
  then show ?thesis by (auto simp: rx_match_def)
qed

lemma match_Many_step:
  assumes "p x"
  shows "rx_match (Cat (Many p) r) (x # xs) =
    (case rx_match (Cat (Many p) r) xs of None \<Rightarrow> rx_match r (x # xs) | Some ys \<Rightarrow> Some ys)"
  using assms by (simp add: rx_match_def first_append split: option.split)

lemma match_Many_stop: "\<not> p x \<Longrightarrow> rx_match (Cat (Many p) r) (x # xs) = rx_match r (x # xs)"
  by (simp add: rx_match_def)

lemma match_Many_Nil: "rx_match (Cat (Many p) r) [] = rx_match r []"
  by (simp add: rx_match_def)

lemma match_NotAhead:
  "rx_match (NotAhead p) xs = (if xs \<noteq> [] \<and> p (hd xs) then None else Some xs)"
  by (auto simp: rx_match_def split: list.splits)

lemma match_Cat_assoc: "rx_match (Cat (Cat r s) t) xs = rx_match (Cat r (Cat s t)) xs"
proof -
  have "concat (map f (concat (map g zs))) = concat (map (\<lambda>z. concat (map f (g z))) zs)"
    for f :: "'a list \<Rightarrow> 'a list list" and g and zs :: "'a list list"
    by (induction zs) auto
  moreover have "ends (Cat s t) = (\<lambda>ys. concat (map (ends t) (ends s ys)))" by (rule ext) simp
  ultimately show ?thesis by (simp add: rx_match_def)
qed

text \<open>White space that is not followed by a visible character gives back its last character.\<close>

lemma match_trailing:
  "rx_match (Cat (Many p) (NotAhead (\<lambda>c. \<not> p c))) xs =
     (let n = length (takeWhile p xs) in
      if n = length xs then Some [] else if n = 0 then None else Some (drop (n - 1) xs))"
proof (induction xs)
  case (Cons x xs)
  show ?case
  proof (cases "p x")
    case True
    then show ?thesis
      using Cons by (auto simp: match_Many_step match_NotAhead Let_def drop_Cons')
  qed (simp add: match_Many_stop match_NotAhead)
qed (simp add: match_Many_Nil match_NotAhead)

end
