(* ===== verification/UnicodeSplit.thy ===== *)
theory UnicodeSplit
imports UnicodeFlags RegexMatch Utf8
begin

text \<open>
  The hand-written word splitters of \<^verbatim>\<open>src/unicode.cpp\<close>: \<^verbatim>\<open>unicode_regex_split_custom_gpt2\<close>, \<^verbatim>\<open>_llama3\<close> and
  \<^verbatim>\<open>_kimi_k2\<close>. Each cuts every chunk of a text into words by looking at flags of code points; the comment above it
  gives the regular expression it stands for. A step is one turn of the loop over the positions of a chunk; \<open>None\<close> is a
  failed assertion. The contract \<open>word_splitter\<close> says that a step emits the next matches of an expression; the loop over
  the positions and the one over the chunks are proved correct from it, once for the three splitters.
\<close>

section \<open>What the splitters share\<close>

record chunk =
  cpts :: "u32 list"
  offset_ini :: nat
  offset_end :: nat

definition OUT_OF_RANGE :: u32 where
  "OUT_OF_RANGE = 0xFFFFFFFF"

definition get_cpt :: "chunk \<Rightarrow> nat \<Rightarrow> u32" where
  "get_cpt w pos = (if offset_ini w \<le> pos \<and> pos < offset_end w then cpts w ! pos else OUT_OF_RANGE)"

definition get_flags :: "chunk \<Rightarrow> nat \<Rightarrow> u16" where
  "get_flags w pos =
     (if offset_ini w \<le> pos \<and> pos < offset_end w then unicode_cpt_flags_from_cpt (cpts w ! pos) else 0)"

record words =
  bpe_offsets :: "nat list"
  prev_end :: nat

definition add_token :: "chunk \<Rightarrow> nat \<Rightarrow> words \<Rightarrow> (nat \<times> words) option" where
  "add_token w fin st =
     (if prev_end st \<le> fin \<and> fin \<le> offset_end w
      then let len = fin - prev_end st in
        Some (len, \<lparr> bpe_offsets = (if len > 0 then bpe_offsets st @ [len] else bpe_offsets st), prev_end = fin \<rparr>)
      else None)"

text \<open>A turn that ends with \<^verbatim>\<open>_add_token(pos); continue;\<close>.\<close>

definition emit :: "chunk \<Rightarrow> nat \<Rightarrow> words \<Rightarrow> (nat \<times> words) option" where
  "emit w pos st = map_option (\<lambda>(_, st). (pos, st)) (add_token w pos st)"

text \<open>A loop \<^verbatim>\<open>while (q(pos)) pos++\<close>; outside the chunk the flags are zero and the code point is no character.\<close>

function scan :: "chunk \<Rightarrow> (nat \<Rightarrow> bool) \<Rightarrow> nat \<Rightarrow> nat" where
  "scan w q pos = (if pos < offset_end w \<and> q pos then scan w q (pos + 1) else pos)"
  by pat_completeness auto
termination by (relation "measure (\<lambda>(w, _, pos). offset_end w - pos)") auto

declare scan.simps [simp del]

text \<open>The English contractions: how many code points they take at a position, or 0.\<close>

definition contraction :: "(u32 \<Rightarrow> u32) \<Rightarrow> chunk \<Rightarrow> nat \<Rightarrow> nat" where
  "contraction lower w pos =
     (if get_cpt w pos = 0x27 \<and> pos + 1 < offset_end w then
        let cpt_next = lower (get_cpt w (pos + 1)) in
        if cpt_next = 0x73 \<or> cpt_next = 0x74 \<or> cpt_next = 0x6D \<or> cpt_next = 0x64 then 2
        else if pos + 2 < offset_end w then
          let cpt_next_next = lower (get_cpt w (pos + 2)) in
          if (cpt_next = 0x72 \<and> cpt_next_next = 0x65) \<or>
             (cpt_next = 0x76 \<and> cpt_next_next = 0x65) \<or>
             (cpt_next = 0x6C \<and> cpt_next_next = 0x6C) then 3
          else 0
        else 0
      else 0)"

definition is_other :: "u16 \<Rightarrow> bool" where
  "is_other f \<longleftrightarrow> \<not> (is_whitespace f \<or> is_letter f \<or> is_number f) \<and> f \<noteq> 0"

text \<open>The loop over the positions of a chunk, with one turn per code point as fuel.\<close>

fun split_loop :: "(chunk \<Rightarrow> nat \<Rightarrow> words \<Rightarrow> (nat \<times> words) option) \<Rightarrow> chunk \<Rightarrow> nat \<Rightarrow> nat \<Rightarrow> words \<Rightarrow> words option" where
  "split_loop step w fuel pos st =
     (if pos < offset_end w then
        case fuel of 0 \<Rightarrow> None
        | Suc n \<Rightarrow> (case step w pos st of None \<Rightarrow> None | Some (pos', st') \<Rightarrow> split_loop step w n pos' st')
      else Some st)"

declare split_loop.simps [simp del]

text \<open>The loop over the chunks.\<close>

fun split_chunks ::
  "(chunk \<Rightarrow> nat \<Rightarrow> words \<Rightarrow> (nat \<times> words) option) \<Rightarrow> u32 list \<Rightarrow> nat \<Rightarrow> nat list \<Rightarrow> nat list \<Rightarrow> nat list option" where
  "split_chunks step cs start out [] = Some out"
| "split_chunks step cs start out (off # offs) =
     (if start + off \<le> length cs then
        let w = \<lparr> cpts = cs, offset_ini = start, offset_end = start + off \<rparr> in
        case split_loop step w off start \<lparr> bpe_offsets = out, prev_end = start \<rparr> of
          None \<Rightarrow> None
        | Some st \<Rightarrow> split_chunks step cs (start + off) (bpe_offsets st) offs
      else None)"

definition split_custom ::
  "(chunk \<Rightarrow> nat \<Rightarrow> words \<Rightarrow> (nat \<times> words) option) \<Rightarrow> u8 list \<Rightarrow> nat list \<Rightarrow> nat list option" where
  "split_custom step utf8 offsets = split_chunks step (unicode_cpts_from_utf8 utf8) 0 [] offsets"

section \<open>The three splitters\<close>

definition gpt2_step :: "chunk \<Rightarrow> nat \<Rightarrow> words \<Rightarrow> (nat \<times> words) option" where
  "gpt2_step w pos st =
     (let cpt = get_cpt w pos;
          flags = get_flags w pos;
          k = contraction (\<lambda>c. c) w pos;
          flags2 = (if cpt = 0x20 then get_flags w (pos + 1) else flags);
          pos2 = (if cpt = 0x20 then pos + 1 else pos);
          num_whitespaces = scan w (\<lambda>i. is_whitespace (get_flags w i)) pos - pos
      in if k > 0 then map_option (\<lambda>(len, st). (pos + len, st)) (add_token w (pos + k) st)
         else if is_letter flags2 then emit w (scan w (\<lambda>i. is_letter (get_flags w i)) pos2) st
         else if is_number flags2 then emit w (scan w (\<lambda>i. is_number (get_flags w i)) pos2) st
         else if is_other flags2 then emit w (scan w (\<lambda>i. is_other (get_flags w i)) pos2) st
         else if num_whitespaces > 1 \<and> get_cpt w (pos + num_whitespaces) \<noteq> OUT_OF_RANGE
         then emit w (pos + num_whitespaces - 1) st
         else if num_whitespaces > 0 then emit w (pos + num_whitespaces) st
         else emit w (pos + 1) st)"

definition unicode_regex_split_custom_gpt2 :: "u8 list \<Rightarrow> nat list \<Rightarrow> nat list option" where
  "unicode_regex_split_custom_gpt2 = split_custom gpt2_step"

definition is_crlf :: "u32 \<Rightarrow> bool" where
  "is_crlf c \<longleftrightarrow> c = 0x0D \<or> c = 0x0A"

text \<open>The loop over a run of digits: a word after every third one.\<close>

function number_loop :: "chunk \<Rightarrow> nat \<Rightarrow> nat \<Rightarrow> words \<Rightarrow> (nat \<times> words) option" where
  "number_loop w ini pos st =
     (if pos < offset_end w \<and> is_number (get_flags w pos) then
        if pos + 1 - ini \<ge> 3
        then case add_token w (pos + 1) st of
               None \<Rightarrow> None
             | Some (_, st') \<Rightarrow> number_loop w (pos + 1) (pos + 1) st'
        else number_loop w ini (pos + 1) st
      else emit w pos st)"
  by pat_completeness auto
termination by (relation "measure (\<lambda>(w, _, pos, _). offset_end w - pos)") auto

declare number_loop.simps [simp del]

text \<open>The loop that counts white space and remembers the end of the last line break.\<close>

function blank_loop :: "chunk \<Rightarrow> nat \<Rightarrow> nat \<Rightarrow> nat \<Rightarrow> nat \<times> nat" where
  "blank_loop w pos n last_end_r_or_n =
     (if pos + n < offset_end w \<and> is_whitespace (get_flags w (pos + n))
      then blank_loop w pos (n + 1) (if is_crlf (get_cpt w (pos + n)) then pos + n + 1 else last_end_r_or_n)
      else (n, last_end_r_or_n))"
  by pat_completeness auto
termination by (relation "measure (\<lambda>(w, pos, n, _). offset_end w - (pos + n))") auto

declare blank_loop.simps [simp del]

text \<open>The part on punctuation, white space and line breaks, which LLAMA3 and K2 share.\<close>

definition rest_step :: "(u16 \<Rightarrow> u16 \<Rightarrow> bool) \<Rightarrow> chunk \<Rightarrow> nat \<Rightarrow> words \<Rightarrow> (nat \<times> words) option" where
  "rest_step cond w pos st =
     (let cpt = get_cpt w pos;
          flags = get_flags w pos;
          flags2 = (if cpt = 0x20 then get_flags w (pos + 1) else flags);
          pos2 = scan w (\<lambda>i. is_other (get_flags w i)) (if cpt = 0x20 then pos + 1 else pos);
          (num_whitespaces, last_end_r_or_n) = blank_loop w pos 0 0
      in if is_number flags then number_loop w pos pos st
         else if cond flags flags2 then emit w (scan w (\<lambda>i. is_crlf (get_cpt w i)) pos2) st
         else if last_end_r_or_n > 0 then emit w last_end_r_or_n st
         else if num_whitespaces > 1 \<and> get_cpt w (pos + num_whitespaces) \<noteq> OUT_OF_RANGE
         then emit w (pos + num_whitespaces - 1) st
         else if num_whitespaces > 0 then emit w (pos + num_whitespaces) st
         else emit w (pos + 1) st)"

definition llama3_step :: "chunk \<Rightarrow> nat \<Rightarrow> words \<Rightarrow> (nat \<times> words) option" where
  "llama3_step w pos st =
     (let cpt = get_cpt w pos;
          flags = get_flags w pos;
          k = contraction unicode_tolower w pos
      in if k > 0 then map_option (\<lambda>(len, st). (pos + len, st)) (add_token w (pos + k) st)
         else if \<not> (is_crlf cpt \<or> is_number flags) \<and> (is_letter flags \<or> is_letter (get_flags w (pos + 1)))
         then emit w (scan w (\<lambda>i. is_letter (get_flags w i)) (pos + 1)) st
         else rest_step (\<lambda>flags flags2. \<not> (is_whitespace flags2 \<or> is_letter flags2 \<or> is_number flags2) \<and> flags \<noteq> 0) w pos st)"

definition unicode_regex_split_custom_llama3 :: "u8 list \<Rightarrow> nat list \<Rightarrow> nat list option" where
  "unicode_regex_split_custom_llama3 = split_custom llama3_step"

text \<open>Letters other than Han characters.\<close>

definition alpha_at :: "chunk \<Rightarrow> nat \<Rightarrow> bool" where
  "alpha_at w i \<longleftrightarrow> is_letter (get_flags w i) \<and> \<not> unicode_cpt_is_han (get_cpt w i)"

text \<open>Where no letters were found, \<^verbatim>\<open>pos--\<close> takes back the leading character, so the turn goes on at \<open>pos\<close>.\<close>

definition kimi_k2_step :: "chunk \<Rightarrow> nat \<Rightarrow> words \<Rightarrow> (nat \<times> words) option" where
  "kimi_k2_step w pos st =
     (let cpt = get_cpt w pos;
          flags = get_flags w pos;
          may_lead = (\<not> (is_crlf cpt \<or> is_letter flags \<or> is_number flags));
          is_letter_pattern = ((is_letter flags \<and> \<not> unicode_cpt_is_han cpt) \<or> (may_lead \<and> alpha_at w (pos + 1)));
          pos1 = (if may_lead then pos + 1 else pos);
          pos2 = scan w (alpha_at w) pos1;
          has_letters = (pos2 > pos1);
          pos3 = scan w (alpha_at w) (if has_letters then pos2 else pos2 + 1);
          pos4 = pos3 + contraction unicode_tolower w pos3
      in if unicode_cpt_is_han cpt then emit w (scan w (\<lambda>i. unicode_cpt_is_han (get_cpt w i)) pos) st
         else if is_letter_pattern \<and> (has_letters \<or> (\<not> may_lead \<and> alpha_at w pos2)) then emit w pos4 st
         else rest_step (\<lambda>flags flags2. is_other flags2) w pos st)"

definition unicode_regex_split_custom_kimi_k2 :: "u8 list \<Rightarrow> nat list \<Rightarrow> nat list option" where
  "unicode_regex_split_custom_kimi_k2 = split_custom kimi_k2_step"

section \<open>The rest of a chunk\<close>

definition ahead :: "chunk \<Rightarrow> nat \<Rightarrow> u32 list" where
  "ahead w pos = drop pos (take (offset_end w) (cpts w))"

definition chunk_at :: "chunk \<Rightarrow> nat \<Rightarrow> bool" where
  "chunk_at w pos \<longleftrightarrow> offset_ini w \<le> pos \<and> pos \<le> offset_end w \<and> offset_end w \<le> length (cpts w)"

lemma chunk_at_Suc: "chunk_at w pos \<Longrightarrow> pos < offset_end w \<Longrightarrow> chunk_at w (Suc pos)"
  by (simp add: chunk_at_def)

lemma chunk_at_add: "chunk_at w pos \<Longrightarrow> n \<le> length (ahead w pos) \<Longrightarrow> chunk_at w (pos + n)"
  by (auto simp: chunk_at_def ahead_def)

lemma length_ahead: "chunk_at w pos \<Longrightarrow> length (ahead w pos) = offset_end w - pos"
  by (simp add: chunk_at_def ahead_def)

lemma ahead_Nil: "chunk_at w pos \<Longrightarrow> ahead w pos = [] \<longleftrightarrow> pos = offset_end w"
  by (auto simp: chunk_at_def ahead_def)

lemma ahead_add: "ahead w (pos + n) = drop n (ahead w pos)"
  by (simp add: ahead_def add.commute)

lemma ahead_Cons: "chunk_at w pos \<Longrightarrow> pos < offset_end w \<Longrightarrow> ahead w pos = cpts w ! pos # ahead w (Suc pos)"
  using Cons_nth_drop_Suc [of pos "take (offset_end w) (cpts w)"] by (simp add: chunk_at_def ahead_def)

lemma get_cpt_ahead:
  "chunk_at w pos \<Longrightarrow> get_cpt w (pos + n) = (if n < length (ahead w pos) then ahead w pos ! n else OUT_OF_RANGE)"
  by (auto simp: get_cpt_def chunk_at_def ahead_def)

lemma get_flags_ahead:
  "chunk_at w pos \<Longrightarrow>
   get_flags w (pos + n) = (if n < length (ahead w pos) then unicode_cpt_flags_from_cpt (ahead w pos ! n) else 0)"
  by (auto simp: get_flags_def chunk_at_def ahead_def)

lemma scan_ahead:
  assumes "chunk_at w pos" and "\<And>i. offset_ini w \<le> i \<Longrightarrow> i < offset_end w \<Longrightarrow> q i \<longleftrightarrow> p (cpts w ! i)"
  shows "scan w q pos = pos + length (takeWhile p (ahead w pos))"
  using assms
proof (induction w q pos rule: scan.induct)
  case (1 w q pos)
  show ?case
  proof (cases "pos < offset_end w")
    case True
    then have "q pos \<longleftrightarrow> p (cpts w ! pos)" using 1(2,3) by (simp add: chunk_at_def)
    with True 1 show ?thesis by (subst scan.simps) (simp add: ahead_Cons chunk_at_Suc)
  next
    case False
    then have "ahead w pos = []" using 1(2) by (auto simp: ahead_Nil chunk_at_def)
    with False show ?thesis by (subst scan.simps) simp
  qed
qed

lemma emit_ok:
  assumes "prev_end st = pos" and "chunk_at w pos" and "0 < n" and "n \<le> length (ahead w pos)"
  shows "emit w (pos + n) st = Some (pos + n, \<lparr> bpe_offsets = bpe_offsets st @ [n], prev_end = pos + n \<rparr>)"
  using assms by (auto simp: emit_def add_token_def length_ahead Let_def)

section \<open>The contract of a step\<close>

text \<open>The chunks of a text, and the words of an expression in them.\<close>

fun chunks :: "nat list \<Rightarrow> 'a list \<Rightarrow> 'a list list" where
  "chunks [] xs = []"
| "chunks (n # ns) xs = take n xs # chunks ns (drop n xs)"

definition regex_words :: "u32 rx \<Rightarrow> u32 list \<Rightarrow> nat list \<Rightarrow> nat list" where
  "regex_words r cs offsets = concat (map (rx_words r) (chunks offsets cs))"

locale word_splitter =
  fixes step :: "chunk \<Rightarrow> nat \<Rightarrow> words \<Rightarrow> (nat \<times> words) option"
    and r :: "u32 rx"
  assumes step_words:
    "\<lbrakk> chunk_at w pos; pos < offset_end w; OUT_OF_RANGE \<notin> set (cpts w); prev_end st = pos \<rbrakk> \<Longrightarrow>
     \<exists>ns. step w pos st = Some (pos + sum_list ns, \<lparr> bpe_offsets = bpe_offsets st @ ns, prev_end = pos + sum_list ns \<rparr>) \<and>
          0 < sum_list ns \<and> sum_list ns \<le> length (ahead w pos) \<and>
          rx_words r (ahead w pos) = ns @ rx_words r (ahead w (pos + sum_list ns))"
begin

lemma loop_words:
  assumes "chunk_at w pos" and "OUT_OF_RANGE \<notin> set (cpts w)" and "prev_end st = pos" and "offset_end w - pos \<le> fuel"
  shows "\<exists>e. split_loop step w fuel pos st = Some \<lparr> bpe_offsets = bpe_offsets st @ rx_words r (ahead w pos), prev_end = e \<rparr>"
  using assms
proof (induction fuel arbitrary: pos st)
  case 0
  then have "ahead w pos = []" and "\<not> pos < offset_end w" by (auto simp: ahead_Nil chunk_at_def)
  then show ?case by (subst split_loop.simps) (auto intro: words.equality exI [of _ "prev_end st"])
next
  case (Suc fuel)
  show ?case
  proof (cases "pos < offset_end w")
    case True
    obtain ns where ns: "step w pos st =
        Some (pos + sum_list ns, \<lparr> bpe_offsets = bpe_offsets st @ ns, prev_end = pos + sum_list ns \<rparr>)"
      "0 < sum_list ns" "sum_list ns \<le> length (ahead w pos)"
      "rx_words r (ahead w pos) = ns @ rx_words r (ahead w (pos + sum_list ns))"
      using step_words [OF Suc.prems(1) True Suc.prems(2,3)] by blast
    moreover have "offset_end w - (pos + sum_list ns) \<le> fuel" using Suc.prems(4) ns(2) by linarith
    ultimately show ?thesis
      using Suc.IH [OF chunk_at_add [OF Suc.prems(1) ns(3)] Suc.prems(2),
          of "\<lparr> bpe_offsets = bpe_offsets st @ ns, prev_end = pos + sum_list ns \<rparr>"] True
      by (subst split_loop.simps) simp
  next
    case False
    then have "ahead w pos = []" using Suc.prems(1) by (auto simp: ahead_Nil chunk_at_def)
    with False show ?thesis by (subst split_loop.simps) (auto intro: words.equality exI [of _ "prev_end st"])
  qed
qed

lemma chunks_words:
  assumes "start + sum_list offs \<le> length cs" and "OUT_OF_RANGE \<notin> set cs"
  shows "split_chunks step cs start out offs = Some (out @ regex_words r (drop start cs) offs)"
  using assms
proof (induction offs arbitrary: start out)
  case (Cons off offs)
  let ?w = "\<lparr> cpts = cs, offset_ini = start, offset_end = start + off \<rparr>"
  have "chunk_at ?w start" using Cons.prems(1) by (simp add: chunk_at_def)
  then obtain e where "split_loop step ?w off start \<lparr> bpe_offsets = out, prev_end = start \<rparr> =
      Some \<lparr> bpe_offsets = out @ rx_words r (ahead ?w start), prev_end = e \<rparr>"
    using loop_words [of ?w start "\<lparr> bpe_offsets = out, prev_end = start \<rparr>" off] Cons.prems(2) by auto
  moreover have "ahead ?w start = take off (drop start cs)" by (simp add: ahead_def drop_take)
  ultimately show ?case
    using Cons.IH [of "start + off"] Cons.prems by (simp add: regex_words_def add.assoc add.commute [of off])
qed (simp add: regex_words_def)

end

section \<open>The reference expressions\<close>

abbreviation flag_class :: "(u16 \<Rightarrow> bool) \<Rightarrow> u32 \<Rightarrow> bool" where
  "flag_class p c \<equiv> p (unicode_cpt_flags_from_cpt c)"

abbreviation "rx_L \<equiv> flag_class is_letter"
abbreviation "rx_N \<equiv> flag_class is_number"
abbreviation "rx_s \<equiv> flag_class is_whitespace"
abbreviation "rx_other \<equiv> (\<lambda>c. \<not> rx_s c \<and> \<not> rx_L c \<and> \<not> rx_N c)"
abbreviation "rx_space \<equiv> (\<lambda>c :: u32. c = 0x20)"

text \<open>\<^verbatim>\<open>'s|'t|'re|'ve|'m|'ll|'d\<close>, over a class for each of the letters.\<close>

definition rx_contraction :: "(u32 \<Rightarrow> u32 \<Rightarrow> bool) \<Rightarrow> u32 rx" where
  "rx_contraction C =
     Cat (Cls (\<lambda>c. c = 0x27))
       (Alt (Cls (C 0x73)) (Alt (Cls (C 0x74)) (Alt (Cat (Cls (C 0x72)) (Cls (C 0x65)))
       (Alt (Cat (Cls (C 0x76)) (Cls (C 0x65))) (Alt (Cls (C 0x6D)) (Alt (Cat (Cls (C 0x6C)) (Cls (C 0x6C)))
         (Cls (C 0x64))))))))"

text \<open>\<^verbatim>\<open>'s|'t|'re|'ve|'m|'ll|'d| ?\p{L}+| ?\p{N}+| ?[^\s\p{L}\p{N}]+|\s+(?!\S)|\s+\<close>\<close>

definition gpt2_regex :: "u32 rx" where
  "gpt2_regex =
     Alt (rx_contraction (\<lambda>l c. c = l))
    (Alt (Cat (Opt (Cls rx_space)) (Plus rx_L))
    (Alt (Cat (Opt (Cls rx_space)) (Plus rx_N))
    (Alt (Cat (Opt (Cls rx_space)) (Plus rx_other))
    (Alt (Cat (Plus rx_s) (NotAhead (\<lambda>c. \<not> rx_s c)))
         (Plus rx_s)))))"

text \<open>\<^verbatim>\<open>contraction\<close> on the rest of the chunk.\<close>

definition contraction_len :: "(u32 \<Rightarrow> u32) \<Rightarrow> u32 list \<Rightarrow> nat" where
  "contraction_len lower xs =
     (if xs \<noteq> [] \<and> hd xs = 0x27 \<and> 1 < length xs then
        if lower (xs ! 1) \<in> {0x73, 0x74, 0x6D, 0x64} then 2
        else if 2 < length xs \<and> (lower (xs ! 1), lower (xs ! 2)) \<in> {(0x72, 0x65), (0x76, 0x65), (0x6C, 0x6C)} then 3
        else 0
      else 0)"

lemma contraction_ahead:
  assumes "chunk_at w pos"
  shows "contraction lower w pos = contraction_len lower (ahead w pos)"
proof -
  have len: "pos + n < offset_end w \<longleftrightarrow> n < length (ahead w pos)" for n
    using assms by (auto simp: length_ahead)
  then have hd: "get_cpt w pos = 0x27 \<longleftrightarrow> ahead w pos \<noteq> [] \<and> hd (ahead w pos) = 0x27"
    using get_cpt_ahead [OF assms, of 0] by (auto simp: OUT_OF_RANGE_def hd_conv_nth)
  show ?thesis
    unfolding contraction_def contraction_len_def len hd Let_def get_cpt_ahead [OF assms]
    by (simp cong: if_cong)
qed

lemma contraction_len_le: "contraction_len lower xs \<le> length xs"
  by (auto simp: contraction_len_def)

lemma match_contraction:
  "rx_match (rx_contraction (\<lambda>l c. lower c = l)) xs =
    (if contraction_len lower xs > 0 then Some (drop (contraction_len lower xs) xs) else None)"
proof -
  consider "xs = []" | a where "xs = [a]" | a b where "xs = [a, b]" | a b c ys where "xs = a # b # c # ys"
    by (metis list.exhaust)
  then show ?thesis
    by cases (auto simp: rx_contraction_def contraction_len_def match_Cls_Cat match_Alt match_Cls)
qed

lemma match_Plus: "rx_match (Plus p) xs = (if xs \<noteq> [] \<and> p (hd xs) then Some (dropWhile p xs) else None)"
  by (cases xs) (auto simp: match_Cls_Cat match_Many)

lemma match_space_Plus:
  assumes "\<not> p 0x20"
  shows "rx_match (Cat (Opt (Cls rx_space)) (Plus p)) xs =
    (let ys = if xs \<noteq> [] \<and> hd xs = 0x20 then tl xs else xs in
     if ys \<noteq> [] \<and> p (hd ys) then Some (dropWhile p ys) else None)"
  using assms by (cases xs) (auto simp: match_Opt_Cat match_Cls_Cat [of rx_space] match_Plus Let_def)

lemma match_trailing_Plus:
  "rx_match (Cat (Plus p) (NotAhead (\<lambda>c. \<not> p c))) xs =
     (let n = length (takeWhile p xs) in
      if n = 0 then None else if n = length xs then Some [] else if n = 1 then None else Some (drop (n - 1) xs))"
  by (cases xs) (auto simp: match_Cat_assoc match_Cls_Cat match_trailing Let_def drop_Cons')

section \<open>Facts for the steps\<close>

lemma advance_ok:
  "prev_end st = pos \<Longrightarrow> map_option (\<lambda>(len, st). (pos + len, st)) (add_token w (pos + k) st) = emit w (pos + k) st"
  by (auto simp: emit_def add_token_def Let_def)

lemma zero_flags [simp]:
  "\<not> is_letter 0" "\<not> is_number 0" "\<not> is_whitespace 0" "\<not> is_other 0"
  by (simp_all add: is_letter_def is_number_def is_whitespace_def is_other_def)

lemma other_class: "flag_class is_other c \<longleftrightarrow> rx_other c"
  by (auto simp: is_other_def)

lemmas blank_flag = blank_flags [OF disjI1, OF refl]
  blank_flags [OF disjI2, OF disjI1, OF refl] blank_flags [OF disjI2, OF disjI2, OF refl]

lemma scan_flags:
  "chunk_at w pos \<Longrightarrow> scan w (\<lambda>i. p (get_flags w i)) pos = pos + length (takeWhile (flag_class p) (ahead w pos))"
  by (rule scan_ahead) (simp_all add: get_flags_def)

lemma get_cpt_here: "chunk_at w pos \<Longrightarrow> ahead w pos = x # ys \<Longrightarrow> get_cpt w pos = x"
  using get_cpt_ahead [of w pos 0] by simp

lemma get_flags_here: "chunk_at w pos \<Longrightarrow> ahead w pos = x # ys \<Longrightarrow> get_flags w pos = unicode_cpt_flags_from_cpt x"
  using get_flags_ahead [of w pos 0] by simp

lemma get_flags_there:
  "chunk_at w pos \<Longrightarrow> ahead w pos = x # ys \<Longrightarrow>
   get_flags w (Suc pos) = (if ys = [] then 0 else unicode_cpt_flags_from_cpt (hd ys))"
  using get_flags_ahead [of w pos 1] by (simp add: hd_conv_nth)

lemma ahead_there: "ahead w pos = x # ys \<Longrightarrow> ahead w (Suc pos) = ys"
  using ahead_add [of w pos 1] by simp

lemma dropWhile_drop: "dropWhile p ys = drop (Suc (length (takeWhile p ys))) (x # ys)"
  by (simp add: dropWhile_eq_drop)

text \<open>An optional space and a run of characters of one class.\<close>

lemma space_run:
  assumes "chunk_at w pos" and xs: "ahead w pos = x # ys" and p: "\<not> p 0" "\<not> flag_class p 0x20"
    and flags2: "flags2 = (if x = 0x20 then get_flags w (Suc pos) else get_flags w pos)"
    and pos2: "pos2 = (if x = 0x20 then Suc pos else pos)"
  shows "\<not> p flags2 \<Longrightarrow> rx_match (Cat (Opt (Cls rx_space)) (Plus (flag_class p))) (x # ys) = None"
    and "p flags2 \<Longrightarrow> \<exists>n. scan w (\<lambda>i. p (get_flags w i)) pos2 = pos + n \<and> 0 < n \<and> n \<le> length (x # ys) \<and>
      rx_match (Cat (Opt (Cls rx_space)) (Plus (flag_class p))) (x # ys) = Some (drop n (x # ys))"
proof -
  note here = get_flags_here [OF assms(1) xs] get_flags_there [OF assms(1) xs]
  show "\<not> p flags2 \<Longrightarrow> rx_match (Cat (Opt (Cls rx_space)) (Plus (flag_class p))) (x # ys) = None"
    using p by (auto simp: match_space_Plus flags2 here Let_def)
  assume *: "p flags2"
  have there: "chunk_at w (Suc pos)" if "ys \<noteq> []"
    using chunk_at_add [OF assms(1), of 1] that by (simp add: xs)
  let ?n = "(if x = 0x20 then Suc (length (takeWhile (flag_class p) ys)) else length (takeWhile (flag_class p) (x # ys)))"
  have "scan w (\<lambda>i. p (get_flags w i)) pos2 = pos + ?n"
    using * p scan_flags [OF assms(1), of p] scan_flags [OF there, of p]
    by (auto simp: pos2 flags2 here xs ahead_there [OF xs] split: if_splits)
  moreover have "0 < ?n" using * by (auto simp: flags2 here split: if_splits)
  moreover have "?n \<le> length (x # ys)" by (simp add: length_takeWhile_le)
  moreover have "rx_match (Cat (Opt (Cls rx_space)) (Plus (flag_class p))) (x # ys) = Some (drop ?n (x # ys))"
    using * p by (auto simp: match_space_Plus flags2 here Let_def dropWhile_eq_drop split: if_splits)
  ultimately show "\<exists>n. scan w (\<lambda>i. p (get_flags w i)) pos2 = pos + n \<and> 0 < n \<and> n \<le> length (x # ys) \<and>
      rx_match (Cat (Opt (Cls rx_space)) (Plus (flag_class p))) (x # ys) = Some (drop n (x # ys))"
    by blast
qed

text \<open>The run of white space at a position.\<close>

definition blanks :: "u32 list \<Rightarrow> nat" where
  "blanks xs = length (takeWhile rx_s xs)"

lemma blanks_le: "blanks xs \<le> length xs"
  by (simp add: blanks_def length_takeWhile_le)

lemma get_cpt_after:
  assumes "chunk_at w pos" and "OUT_OF_RANGE \<notin> set (cpts w)"
  shows "get_cpt w (pos + n) \<noteq> OUT_OF_RANGE \<longleftrightarrow> n < length (ahead w pos)"
proof -
  have "set (ahead w pos) \<subseteq> set (cpts w)"
    unfolding ahead_def using set_drop_subset set_take_subset by fast
  then have "ahead w pos ! n \<noteq> OUT_OF_RANGE" if "n < length (ahead w pos)"
    using assms(2) nth_mem [OF that] by auto
  then show ?thesis using assms by (simp add: get_cpt_ahead)
qed

text \<open>\<^verbatim>\<open>\s+(?!\S)|\s+\<close> and the branches for it.\<close>

lemma blank_run:
  assumes w: "chunk_at w pos" "OUT_OF_RANGE \<notin> set (cpts w)" and n: "n = blanks (ahead w pos)" "0 < n"
  shows "\<exists>m. (if n > 1 \<and> get_cpt w (pos + n) \<noteq> OUT_OF_RANGE then emit w (pos + n - 1) st
              else if n > 0 then emit w (pos + n) st else emit w (pos + 1) st) = emit w (pos + m) st \<and>
     0 < m \<and> m \<le> length (ahead w pos) \<and>
     rx_match (Alt (Cat (Plus rx_s) (NotAhead (\<lambda>c. \<not> rx_s c))) (Plus rx_s)) (ahead w pos) = Some (drop m (ahead w pos))"
proof -
  have le: "n \<le> length (ahead w pos)" using blanks_le n by simp
  have "ahead w pos \<noteq> []" and "rx_s (hd (ahead w pos))"
    using n by (cases "ahead w pos"; auto simp: blanks_def split: if_splits)+
  then have "rx_match (Alt (Cat (Plus rx_s) (NotAhead (\<lambda>c. \<not> rx_s c))) (Plus rx_s)) (ahead w pos) =
      Some (drop (if n > 1 \<and> n < length (ahead w pos) then n - 1 else n) (ahead w pos))"
    using n le nat_neq_iff [of n 1] by (auto simp: match_Alt match_trailing_Plus match_Plus Let_def blanks_def dropWhile_eq_drop)
  then show ?thesis
    using n le by (intro exI [of _ "if n > 1 \<and> n < length (ahead w pos) then n - 1 else n"])
      (auto simp: get_cpt_after [OF w])
qed

section \<open>GPT-2\<close>

lemma gpt2_step_match:
  assumes w: "chunk_at w pos" "pos < offset_end w" "OUT_OF_RANGE \<notin> set (cpts w)" and st: "prev_end st = pos"
  shows "\<exists>n. gpt2_step w pos st = emit w (pos + n) st \<and> 0 < n \<and> n \<le> length (ahead w pos) \<and>
    rx_match gpt2_regex (ahead w pos) = Some (drop n (ahead w pos))"
proof -
  obtain x ys where xs: "ahead w pos = x # ys" using ahead_Cons [OF w(1,2)] by blast
  define flags2 where "flags2 = (if x = 0x20 then get_flags w (Suc pos) else get_flags w pos)"
  define pos2 where "pos2 = (if x = 0x20 then Suc pos else pos)"
  define k where "k = contraction_len (\<lambda>c. c) (x # ys)"
  let ?emit = "\<lambda>p. emit w (scan w (\<lambda>i. p (get_flags w i)) pos2) st"
  let ?run = "\<lambda>p. rx_match (Cat (Opt (Cls rx_space)) (Plus (flag_class p))) (x # ys)"
  let ?n = "blanks (x # ys)"
  let ?blank = "rx_match (Alt (Cat (Plus rx_s) (NotAhead (\<lambda>c. \<not> rx_s c))) (Plus rx_s)) (x # ys)"
  have zero: "\<not> p 0" "\<not> flag_class p 0x20" if "p \<in> {is_letter, is_number, is_other}" for p
    using that by (auto simp: blank_flag is_other_def)
  have run: "\<not> p flags2 \<Longrightarrow> ?run p = None"
    "p flags2 \<Longrightarrow> \<exists>n. ?emit p = emit w (pos + n) st \<and> 0 < n \<and> n \<le> length (x # ys) \<and> ?run p = Some (drop n (x # ys))"
    if "p \<in> {is_letter, is_number, is_other}" for p
    using space_run [OF w(1) xs zero [OF that] flags2_def pos2_def] by (blast, metis)
  have rx: "rx_match gpt2_regex (x # ys) =
      (if k > 0 then Some (drop k (x # ys))
       else case ?run is_letter of Some zs \<Rightarrow> Some zs | None \<Rightarrow>
         case ?run is_number of Some zs \<Rightarrow> Some zs | None \<Rightarrow>
         case ?run is_other of Some zs \<Rightarrow> Some zs | None \<Rightarrow> ?blank)"
    by (simp add: gpt2_regex_def match_Alt match_contraction [of "\<lambda>c. c"] k_def other_class split: option.split)
  have ws: "scan w (\<lambda>i. is_whitespace (get_flags w i)) pos - pos = ?n"
    by (simp add: scan_flags [OF w(1)] xs blanks_def)
  have step: "gpt2_step w pos st =
      (if k > 0 then emit w (pos + k) st else if is_letter flags2 then ?emit is_letter
       else if is_number flags2 then ?emit is_number else if is_other flags2 then ?emit is_other
       else if ?n > 1 \<and> get_cpt w (pos + ?n) \<noteq> OUT_OF_RANGE then emit w (pos + ?n - 1) st
       else if ?n > 0 then emit w (pos + ?n) st else emit w (pos + 1) st)"
    unfolding gpt2_step_def Let_def contraction_ahead [OF w(1)] advance_ok [OF st] get_cpt_here [OF w(1) xs] ws
      flags2_def pos2_def k_def xs Suc_eq_plus1 by (rule refl)
  consider (contraction) "k > 0" | (letter) "k = 0" "is_letter flags2"
    | (number) "k = 0" "\<not> is_letter flags2" "is_number flags2"
    | (other) "k = 0" "\<not> is_letter flags2" "\<not> is_number flags2" "is_other flags2"
    | (blank) "k = 0" "\<not> is_letter flags2" "\<not> is_number flags2" "\<not> is_other flags2" by blast
  then show ?thesis
  proof cases
    case contraction
    then show ?thesis unfolding xs step rx using contraction_len_le [of _ "x # ys"]
      by (intro exI [of _ k]) (simp add: k_def)
  next
    case letter
    then show ?thesis unfolding xs step rx using run(2) [of is_letter] by auto
  next
    case number
    then show ?thesis unfolding xs step rx using run(1) [of is_letter] run(2) [of is_number] by auto
  next
    case other
    then show ?thesis unfolding xs step rx using run(1) [of is_letter] run(1) [of is_number] run(2) [of is_other] by auto
  next
    case blank
    then have "rx_s x" by (auto simp: flags2_def get_flags_here [OF w(1) xs] is_other_def blank_flag split: if_splits)
    then have "0 < ?n" by (simp add: blanks_def)
    then show ?thesis unfolding xs step rx using blank blank_run [OF w(1,3), of ?n st] run(1) by (simp add: xs)
  qed
qed

lemma single_word:
  assumes "\<exists>n. f = emit w (pos + n) st \<and> 0 < n \<and> n \<le> length (ahead w pos) \<and>
    rx_match r (ahead w pos) = Some (drop n (ahead w pos))"
    and "chunk_at w pos" and "prev_end st = pos"
  shows "\<exists>ns. f = Some (pos + sum_list ns, \<lparr> bpe_offsets = bpe_offsets st @ ns, prev_end = pos + sum_list ns \<rparr>) \<and>
          0 < sum_list ns \<and> sum_list ns \<le> length (ahead w pos) \<and>
          rx_words r (ahead w pos) = ns @ rx_words r (ahead w (pos + sum_list ns))"
proof -
  obtain n where n: "f = emit w (pos + n) st" "0 < n" "n \<le> length (ahead w pos)"
    "rx_match r (ahead w pos) = Some (drop n (ahead w pos))" using assms(1) by blast
  then show ?thesis
    using emit_ok [OF assms(3,2) n(2,3)] rx_words_match [OF n(4,2,3)] by (intro exI [of _ "[n]"]) (simp add: ahead_add)
qed

interpretation gpt2: word_splitter gpt2_step gpt2_regex
  by unfold_locales (rule single_word [OF gpt2_step_match])

section \<open>What LLAMA3 and K2 share\<close>

text \<open>\<^verbatim>\<open>\p{N}{1,3}| ?[^\s\p{L}\p{N}]+[\r\n]*|\s*[\r\n]+|\s+(?!\S)|\s+\<close>\<close>

definition rx_digits :: "u32 rx" where
  "rx_digits = Cat (Cls rx_N) (Upto 2 rx_N)"

definition rest_regex :: "u32 rx" where
  "rest_regex =
     Alt rx_digits
    (Alt (Cat (Opt (Cls rx_space)) (Cat (Plus rx_other) (Many is_crlf)))
    (Alt (Cat (Many rx_s) (Plus is_crlf))
    (Alt (Cat (Plus rx_s) (NotAhead (\<lambda>c. \<not> rx_s c)))
         (Plus rx_s))))"

lemma match_digits:
  "rx_match rx_digits (x # ys) =
     (if rx_N x then Some (drop (length (takeWhile rx_N (take 3 (x # ys)))) (x # ys)) else None)"
  by (simp add: rx_digits_def match_Cls_Cat match_Upto numeral_eq_Suc)

lemma digits_words:
  assumes r: "\<And>x ys. rx_N x \<Longrightarrow> rx_match r (x # ys) = rx_match rx_digits (x # ys)"
    and n: "0 < n" "n \<le> 3" "n \<le> length xs" "\<And>i. i < n \<Longrightarrow> rx_N (xs ! i)"
    "n = 3 \<or> n = length xs \<or> \<not> rx_N (xs ! n)"
  shows "rx_words r xs = n # rx_words r (drop n xs)"
proof -
  obtain x ys where xs: "xs = x # ys" using n by (cases xs) auto
  have "takeWhile rx_N (take 3 xs) = take n (take 3 xs)"
    using n by (intro takeWhile_eq_take_P_nth) auto
  then have "length (takeWhile rx_N (take 3 xs)) = n" using n by simp
  moreover have "rx_N x" using n(4) [of 0] n(1) xs by simp
  ultimately have "rx_match r xs = Some (drop n xs)" by (simp add: xs r match_digits)
  then show ?thesis using n by (intro rx_words_match)
qed

text \<open>Digits are emitted in groups of three.\<close>

lemma number_loop_words:
  assumes "chunk_at w ini" and "ini \<le> pos" and "pos - ini < 3" and "pos \<le> offset_end w" and "prev_end st = ini"
    and "\<And>i. i < pos - ini \<Longrightarrow> rx_N (ahead w ini ! i)"
    and r: "\<And>x ys. rx_N x \<Longrightarrow> rx_match r (x # ys) = rx_match rx_digits (x # ys)"
  shows "\<exists>ns. number_loop w ini pos st =
      Some (ini + sum_list ns, \<lparr> bpe_offsets = bpe_offsets st @ ns, prev_end = ini + sum_list ns \<rparr>) \<and>
    pos \<le> ini + sum_list ns \<and> sum_list ns \<le> length (ahead w ini) \<and>
    (pos < offset_end w \<and> is_number (get_flags w pos) \<longrightarrow> pos < ini + sum_list ns) \<and>
    rx_words r (ahead w ini) = ns @ rx_words r (ahead w (ini + sum_list ns))"
  using assms(1-6)
proof (induction w ini pos st rule: number_loop.induct)
  case (1 w ini pos st)
  let ?xs = "ahead w ini" and ?n = "pos - ini"
  have pos: "pos = ini + ?n" and len: "length ?xs = offset_end w - ini"
    using 1(3,4) by (simp_all add: length_ahead)
  have flags: "is_number (get_flags w pos) \<longleftrightarrow> ?n < length ?xs \<and> rx_N (?xs ! ?n)"
    using get_flags_ahead [OF 1(3), of ?n] 1(4) by auto
  show ?case
  proof (cases "pos < offset_end w \<and> is_number (get_flags w pos)")
    case num: True
    have more: "rx_N (?xs ! i)" if "i < Suc ?n" for i using that 1(8) num flags by (cases "i = ?n") auto
    show ?thesis
    proof (cases "pos + 1 - ini \<ge> 3")
      case True
      then have n3: "pos + 1 = ini + 3" using 1(5) by simp
      let ?st = "\<lparr> bpe_offsets = bpe_offsets st @ [3], prev_end = pos + 1 \<rparr>"
      have add: "add_token w (pos + 1) st = Some (3, ?st)"
        using num 1(7) n3 by (auto simp: add_token_def Let_def)
      have three: "rx_words r ?xs = 3 # rx_words r (drop 3 ?xs)"
        using num len n3 more by (intro digits_words [OF r]) auto
      have ahead: "ahead w (pos + 1) = drop 3 ?xs" by (simp only: n3 ahead_add)
      have "chunk_at w (pos + 1)" using 1(3,4) num by (simp add: chunk_at_def)
      then obtain ns where ns: "number_loop w (pos + 1) (pos + 1) ?st =
          Some (pos + 1 + sum_list ns, \<lparr> bpe_offsets = bpe_offsets ?st @ ns, prev_end = pos + 1 + sum_list ns \<rparr>)"
        "sum_list ns \<le> length (ahead w (pos + 1))"
        "rx_words r (ahead w (pos + 1)) = ns @ rx_words r (ahead w (pos + 1 + sum_list ns))"
        using 1(1) [OF num True add refl] num by fastforce
      have e: "ini + sum_list (3 # ns) = pos + 1 + sum_list ns" using n3 by simp
      have "number_loop w ini pos st =
          Some (ini + sum_list (3 # ns), \<lparr> bpe_offsets = bpe_offsets st @ 3 # ns, prev_end = ini + sum_list (3 # ns) \<rparr>)"
        using num True add ns(1) n3 by (subst number_loop.simps) (simp add: add.assoc)
      moreover have "rx_words r ?xs = (3 # ns) @ rx_words r (ahead w (ini + sum_list (3 # ns)))"
        unfolding e using three ns(3) ahead by simp
      moreover have "pos < ini + sum_list (3 # ns)" using n3 by simp
      moreover have "sum_list (3 # ns) \<le> length ?xs" using ns(2) len n3 conjunct1 [OF num] unfolding ahead by simp
      ultimately show ?thesis by (intro exI [of _ "3 # ns"]) simp
    next
      case False
      show ?thesis
        using 1(2) [OF num False] 1(3-8) num False more by (subst number_loop.simps) auto
    qed
  next
    case False
    show ?thesis
    proof (cases "?n = 0")
      case True
      then show ?thesis using False 1(3,4,6,7)
        by (subst number_loop.simps) (auto simp: emit_def add_token_def intro!: exI [of _ "[]"] words.equality)
    next
      case n: False
      have "rx_words r ?xs = ?n # rx_words r (drop ?n ?xs)"
        using n False 1(5,6,8) len flags by (intro digits_words [OF r]) auto
      moreover have "emit w pos st = Some (pos, \<lparr> bpe_offsets = bpe_offsets st @ [?n], prev_end = pos \<rparr>)"
        using emit_ok [OF 1(7,3), of ?n] n 1(4,6) len by simp
      ultimately show ?thesis
        using False pos 1(4,6) len ahead_add [of w ini ?n] by (subst number_loop.simps) (auto intro!: exI [of _ "[?n]"])
    qed
  qed
qed

text \<open>The last line break in the run of white space at the beginning of a text.\<close>

fun last_crlf :: "u32 list \<Rightarrow> nat" where
  "last_crlf [] = 0"
| "last_crlf (x # xs) =
     (if \<not> rx_s x then 0
      else if last_crlf xs > 0 then Suc (last_crlf xs)
      else if is_crlf x then 1 else 0)"

lemma crlf_blank: "is_crlf c \<Longrightarrow> rx_s c \<and> \<not> rx_L c \<and> \<not> rx_N c"
  by (auto simp: is_crlf_def blank_flag)

lemma last_crlf_le: "last_crlf xs \<le> length xs"
  by (induction xs) auto

lemma last_crlf_hd: "xs \<noteq> [] \<Longrightarrow> is_crlf (hd xs) \<Longrightarrow> 0 < last_crlf xs"
  by (cases xs) (auto simp: crlf_blank)

lemma match_crlf:
  "rx_match (Cat (Many rx_s) (Plus is_crlf)) xs =
     (if last_crlf xs > 0 then Some (drop (last_crlf xs) xs) else None)"
proof (induction xs)
  case (Cons x xs)
  have "dropWhile is_crlf xs = xs" if "last_crlf xs = 0"
    using that last_crlf_hd [of xs] by (cases xs) auto
  then show ?case using Cons
    by (cases "rx_s x") (auto simp: match_Many_step match_Many_stop match_Plus crlf_blank)
qed (simp add: match_Many_Nil match_Plus)

lemma blank_loop_ahead:
  assumes "chunk_at w (pos + n)"
  shows "blank_loop w pos n l =
    (n + blanks (ahead w (pos + n)),
     if last_crlf (ahead w (pos + n)) > 0 then pos + n + last_crlf (ahead w (pos + n)) else l)"
  using assms
proof (induction w pos n l rule: blank_loop.induct)
  case (1 w pos n l)
  show ?case
  proof (cases "pos + n < offset_end w")
    case True
    then have xs: "ahead w (pos + n) = cpts w ! (pos + n) # ahead w (pos + Suc n)"
      using ahead_Cons [OF 1(2)] by simp
    have "chunk_at w (pos + Suc n)" using chunk_at_Suc [OF 1(2)] True by simp
    then show ?thesis
      using 1(1) True get_flags_here [OF 1(2) xs] get_cpt_here [OF 1(2) xs] xs
      by (subst blank_loop.simps) (auto simp: blanks_def)
  next
    case False
    then have "ahead w (pos + n) = []" using 1(2) by (auto simp: ahead_Nil chunk_at_def)
    with False show ?thesis by (subst blank_loop.simps) (simp add: blanks_def)
  qed
qed

lemma match_space_other:
  "rx_match (Cat (Opt (Cls rx_space)) (Cat (Plus rx_other) (Many is_crlf))) xs =
    (let ys = if xs \<noteq> [] \<and> hd xs = 0x20 then tl xs else xs in
     if ys \<noteq> [] \<and> rx_other (hd ys) then Some (dropWhile is_crlf (dropWhile rx_other ys)) else None)"
proof -
  have "rx_match (Cat (Plus rx_other) (Many is_crlf)) zs =
      (if zs \<noteq> [] \<and> rx_other (hd zs) then Some (dropWhile is_crlf (dropWhile rx_other zs)) else None)" for zs
    by (cases zs) (auto simp: match_Cat_assoc match_Cls_Cat match_Many_Cat [OF match_Many])
  then show ?thesis
    by (cases xs) (auto simp: match_Opt_Cat match_Cls_Cat [of rx_space] blank_flag Let_def)
qed

lemma scan_crlf:
  "chunk_at w pos \<Longrightarrow> scan w (\<lambda>i. is_crlf (get_cpt w i)) pos = pos + length (takeWhile is_crlf (ahead w pos))"
  by (rule scan_ahead) (simp_all add: get_cpt_def)

text \<open>An optional space, a run of punctuation and the line breaks behind it.\<close>

lemma other_run:
  assumes "chunk_at w pos" and xs: "ahead w pos = x # ys"
    and flags2: "flags2 = (if x = 0x20 then get_flags w (Suc pos) else get_flags w pos)"
    and pos2: "pos2 = (if x = 0x20 then Suc pos else pos)" and "is_other flags2"
  shows "\<exists>n. scan w (\<lambda>i. is_crlf (get_cpt w i)) (scan w (\<lambda>i. is_other (get_flags w i)) pos2) = pos + n \<and>
    0 < n \<and> n \<le> length (x # ys) \<and>
    rx_match (Cat (Opt (Cls rx_space)) (Cat (Plus rx_other) (Many is_crlf))) (x # ys) = Some (drop n (x # ys))"
proof -
  obtain m where m: "scan w (\<lambda>i. is_other (get_flags w i)) pos2 = pos + m" "0 < m" "m \<le> length (x # ys)"
    "rx_match (Cat (Opt (Cls rx_space)) (Plus rx_other)) (x # ys) = Some (drop m (x # ys))"
    using space_run(2) [OF assms(1) xs _ _ flags2 pos2, of is_other] assms(5)
    by (auto simp: other_class blank_flag simp del: drop_Suc_Cons)
  let ?n = "m + length (takeWhile is_crlf (drop m (x # ys)))"
  have "chunk_at w (pos + m)" using chunk_at_add [OF assms(1)] m(3) xs by simp
  then have "scan w (\<lambda>i. is_crlf (get_cpt w i)) (pos + m) = pos + ?n"
    by (simp add: scan_crlf ahead_add xs)
  moreover have "?n \<le> length (x # ys)"
    using length_takeWhile_le [of is_crlf "drop m (x # ys)"] m(3) by simp
  moreover have "rx_match (Cat (Opt (Cls rx_space)) (Cat (Plus rx_other) (Many is_crlf))) (x # ys) =
      Some (dropWhile is_crlf (drop m (x # ys)))"
    using m(4) unfolding match_space_other match_space_Plus [of rx_other, simplified blank_flag, simplified]
    by (auto simp: Let_def split: if_splits)
  ultimately show ?thesis using m(1,2)
    by (intro exI [of _ ?n]) (simp add: dropWhile_eq_drop add.commute)
qed

lemma rest_match:
  assumes w: "chunk_at w pos" "pos < offset_end w" "OUT_OF_RANGE \<notin> set (cpts w)"
    and xs: "ahead w pos = x # ys" and x: "\<not> rx_N x" "\<not> rx_L x"
    and cond: "\<And>f. cond (get_flags w pos) f \<longleftrightarrow> is_other f \<or> loose \<and> f = 0"
  shows "\<exists>n. rest_step cond w pos st = emit w (pos + n) st \<and> 0 < n \<and> n \<le> length (x # ys) \<and>
    rx_match rest_regex (x # ys) = Some (drop n (x # ys))"
proof -
  define flags2 where "flags2 = (if x = 0x20 then get_flags w (Suc pos) else get_flags w pos)"
  define pos2 where "pos2 = (if x = 0x20 then Suc pos else pos)"
  let ?n = "blanks (x # ys)" and ?l = "last_crlf (x # ys)"
  let ?other = "rx_match (Cat (Opt (Cls rx_space)) (Cat (Plus rx_other) (Many is_crlf))) (x # ys)"
  let ?blank = "rx_match (Alt (Cat (Plus rx_s) (NotAhead (\<lambda>c. \<not> rx_s c))) (Plus rx_s)) (x # ys)"
  note here = get_flags_here [OF w(1) xs] get_flags_there [OF w(1) xs]
  have rx: "rx_match rest_regex (x # ys) =
      (case ?other of Some zs \<Rightarrow> Some zs | None \<Rightarrow> if ?l > 0 then Some (drop ?l (x # ys)) else ?blank)"
    using x(1) by (simp add: rest_regex_def match_Alt match_digits match_crlf split: option.split)
  have step: "rest_step cond w pos st =
      (if is_other flags2 \<or> loose \<and> flags2 = 0
       then emit w (scan w (\<lambda>i. is_crlf (get_cpt w i)) (scan w (\<lambda>i. is_other (get_flags w i)) pos2)) st
       else if ?l > 0 then emit w (pos + ?l) st
       else if ?n > 1 \<and> get_cpt w (pos + ?n) \<noteq> OUT_OF_RANGE then emit w (pos + ?n - 1) st
       else if ?n > 0 then emit w (pos + ?n) st else emit w (pos + 1) st)"
  proof -
    define n l where "n = ?n" and "l = ?l"
    have bl: "blank_loop w pos 0 0 = (n, if l > 0 then pos + l else 0)"
      using blank_loop_ahead [of w pos 0 0] w(1) unfolding n_def l_def by (simp add: xs)
    have num: "is_number (get_flags w pos) = False" using x(1) by (simp add: here(1))
    show ?thesis
      unfolding rest_step_def Let_def get_cpt_here [OF w(1) xs] cond bl num prod.case Suc_eq_plus1 [symmetric]
        flags2_def [symmetric] pos2_def [symmetric] n_def [symmetric] l_def [symmetric] if_False
      by (cases "0 < l") simp_all
  qed
  have none: "?other = None" if "\<not> is_other flags2"
    using that by (auto simp: match_space_other flags2_def here Let_def is_other_def split: if_splits)
  consider (other) "is_other flags2" | (last_space) "\<not> is_other flags2" "loose" "flags2 = 0"
    | (crlf) "\<not> is_other flags2" "\<not> (loose \<and> flags2 = 0)" "?l > 0"
    | (blank) "\<not> is_other flags2" "\<not> (loose \<and> flags2 = 0)" "?l = 0" by blast
  then show ?thesis
  proof cases
    case other
    then show ?thesis unfolding step rx using other_run [OF w(1) xs flags2_def pos2_def] by auto
  next
    case last_space
    then have sp: "x = 0x20" "ys = []" by (auto simp: flags2_def here split: if_splits)
    then have "?other = None" and "?l = 0" using none last_space by (simp_all add: is_crlf_def)
    moreover have "?blank = Some []" by (simp add: sp match_Alt match_trailing_Plus blank_flag Let_def)
    moreover have "ahead w (Suc pos) = []" using ahead_there [OF xs] sp by simp
    then have "scan w q (Suc pos) = Suc pos" for q
      using chunk_at_Suc [OF w(1,2)] by (subst scan.simps) (simp add: ahead_Nil)
    then have "rest_step cond w pos st = emit w (pos + 1) st"
      using last_space sp unfolding step by (simp add: pos2_def)
    ultimately show ?thesis using sp unfolding rx by (intro exI [of _ 1]) simp
  next
    case crlf
    then show ?thesis unfolding step rx using none last_crlf_le [of "x # ys"]
      by (intro exI [of _ ?l]) (auto simp del: last_crlf.simps)
  next
    case blank
    then have "rx_s x" using x by (auto simp: flags2_def here is_other_def blank_flag split: if_splits)
    then have "0 < ?n" by (simp add: blanks_def)
    moreover have cond: "(is_other flags2 \<or> loose \<and> flags2 = 0) = False" using blank by blast
    ultimately show ?thesis unfolding step rx cond if_False
      using blank none blank_run [OF w(1,3), of ?n st] by (simp add: xs del: last_crlf.simps)
  qed
qed

lemma rest_step_words:
  assumes w: "chunk_at w pos" "pos < offset_end w" "OUT_OF_RANGE \<notin> set (cpts w)" and st: "prev_end st = pos"
    and xs: "ahead w pos = x # ys" and x: "\<not> rx_L x"
    and cond: "\<And>f. cond (get_flags w pos) f \<longleftrightarrow> is_other f \<or> loose \<and> f = 0"
    and digits: "\<And>x ys. rx_N x \<Longrightarrow> rx_match r (x # ys) = rx_match rx_digits (x # ys)"
    and r: "rx_match r (x # ys) = rx_match rest_regex (x # ys)"
  shows "\<exists>ns. rest_step cond w pos st =
      Some (pos + sum_list ns, \<lparr> bpe_offsets = bpe_offsets st @ ns, prev_end = pos + sum_list ns \<rparr>) \<and>
    0 < sum_list ns \<and> sum_list ns \<le> length (ahead w pos) \<and>
    rx_words r (ahead w pos) = ns @ rx_words r (ahead w (pos + sum_list ns))"
proof (cases "rx_N x")
  case True
  then have num: "is_number (get_flags w pos)" by (simp add: get_flags_here [OF w(1) xs])
  then have "rest_step cond w pos st = number_loop w pos pos st"
    by (simp add: rest_step_def Let_def)
  moreover have "pos \<le> offset_end w" using w(2) by simp
  ultimately show ?thesis
    using number_loop_words [OF w(1) order.refl _ _ st _ digits] num w(2) by auto
next
  case False
  show ?thesis using single_word [OF _ w(1) st] rest_match [OF w xs False x, of cond loose] cond r xs by simp
qed

section \<open>LLAMA3\<close>

text \<open>\<^verbatim>\<open>(?:'[sS]|'[tT]|'[rR][eE]|'[vV][eE]|'[mM]|'[lL][lL]|'[dD])|[^\r\n\p{L}\p{N}]?\p{L}+|...\<close>\<close>

definition any_case :: "u32 \<Rightarrow> u32 \<Rightarrow> bool" where
  "any_case l c \<longleftrightarrow> c = l \<or> c = l - 0x20"

definition rx_lead :: "u32 \<Rightarrow> bool" where
  "rx_lead c \<longleftrightarrow> \<not> is_crlf c \<and> \<not> rx_L c \<and> \<not> rx_N c"

definition llama3_regex :: "u32 rx" where
  "llama3_regex =
     Alt (rx_contraction any_case)
    (Alt (Cat (Opt (Cls rx_lead)) (Plus rx_L))
         rest_regex)"

lemma any_case_contraction: "rx_contraction any_case = rx_contraction (\<lambda>l c. unicode_tolower c = l)"
proof -
  have "any_case l = (\<lambda>c. unicode_tolower c = l)" if "contraction_letter (uint l)" for l
    using tolower_contraction [OF that] by (auto simp: any_case_def)
  then show ?thesis by (simp add: rx_contraction_def contraction_letter_def)
qed

lemma contraction_len_quote: "contraction_len lower (x # ys) > 0 \<Longrightarrow> x = 0x27"
  by (simp add: contraction_len_def split: if_splits)

definition letter_word :: "u32 \<Rightarrow> u32 list \<Rightarrow> bool" where
  "letter_word x ys \<longleftrightarrow> \<not> (is_crlf x \<or> rx_N x) \<and> (rx_L x \<or> ys \<noteq> [] \<and> rx_L (hd ys))"

lemma match_letters:
  "rx_match (Cat (Opt (Cls rx_lead)) (Plus rx_L)) (x # ys) =
     (if letter_word x ys then Some (drop (Suc (length (takeWhile rx_L ys))) (x # ys)) else None)"
  using letter_not_number [of x]
  by (cases ys) (auto simp: letter_word_def match_Opt_Cat match_Cls_Cat [of rx_lead] match_Plus rx_lead_def
    dropWhile_eq_drop crlf_blank)

lemma match_llama3:
  "rx_match llama3_regex (x # ys) =
     (if contraction_len unicode_tolower (x # ys) > 0 then Some (drop (contraction_len unicode_tolower (x # ys)) (x # ys))
      else if letter_word x ys then Some (drop (Suc (length (takeWhile rx_L ys))) (x # ys))
      else rx_match rest_regex (x # ys))"
  by (simp add: llama3_regex_def match_Alt any_case_contraction match_contraction match_letters)

lemma rest_digits: "rx_N x \<Longrightarrow> rx_match rest_regex (x # ys) = rx_match rx_digits (x # ys)"
  by (simp add: rest_regex_def match_Alt match_digits)

lemma llama3_digits: "rx_N x \<Longrightarrow> rx_match llama3_regex (x # ys) = rx_match rx_digits (x # ys)"
  using contraction_len_quote [of unicode_tolower x ys] quote_flags
  by (auto simp: match_llama3 letter_word_def rest_digits)

lemma llama3_step_words:
  assumes w: "chunk_at w pos" "pos < offset_end w" "OUT_OF_RANGE \<notin> set (cpts w)" and st: "prev_end st = pos"
  shows "\<exists>ns. llama3_step w pos st =
      Some (pos + sum_list ns, \<lparr> bpe_offsets = bpe_offsets st @ ns, prev_end = pos + sum_list ns \<rparr>) \<and>
    0 < sum_list ns \<and> sum_list ns \<le> length (ahead w pos) \<and>
    rx_words llama3_regex (ahead w pos) = ns @ rx_words llama3_regex (ahead w (pos + sum_list ns))"
proof -
  obtain x ys where xs: "ahead w pos = x # ys" using ahead_Cons [OF w(1,2)] by blast
  define k where "k = contraction_len unicode_tolower (x # ys)"
  define cond where "cond = (\<lambda>flags flags2. \<not> (is_whitespace flags2 \<or> is_letter flags2 \<or> is_number flags2) \<and> (flags :: u16) \<noteq> 0)"
  let ?n = "Suc (length (takeWhile rx_L ys))"
  have step: "llama3_step w pos st =
      (if k > 0 then emit w (pos + k) st else if letter_word x ys then emit w (pos + ?n) st
       else rest_step cond w pos st)"
    using scan_flags [OF chunk_at_Suc [OF w(1,2)], of is_letter]
    by (simp add: llama3_step_def Let_def contraction_ahead [OF w(1)] advance_ok [OF st] get_cpt_here [OF w(1) xs]
      get_flags_here [OF w(1) xs] get_flags_there [OF w(1) xs] ahead_there [OF xs] xs k_def letter_word_def cond_def)
  consider "k > 0" | "k = 0" "letter_word x ys" | "k = 0" "\<not> letter_word x ys" by blast
  then show ?thesis
  proof cases
    case 1
    then show ?thesis using contraction_len_le [of unicode_tolower "x # ys"]
      by (intro single_word [OF exI [of _ k] w(1) st]) (simp add: step match_llama3 xs k_def)
  next
    case 2
    then show ?thesis using length_takeWhile_le [of rx_L ys]
      by (intro single_word [OF exI [of _ ?n] w(1) st]) (simp add: step match_llama3 xs k_def)
  next
    case 3
    have "\<not> rx_L x" using 3 letter_not_number [of x] crlf_blank [of x] by (auto simp: letter_word_def)
    moreover have "cond (get_flags w pos) f \<longleftrightarrow> is_other f \<or> True \<and> f = 0" for f
      by (auto simp: cond_def get_flags_here [OF w(1) xs] is_other_def)
    ultimately show ?thesis
      using 3 rest_step_words [OF w st xs, of cond True llama3_regex] llama3_digits by (simp add: step match_llama3 k_def)
  qed
qed

interpretation llama3: word_splitter llama3_step llama3_regex
  by unfold_locales (rule llama3_step_words)

section \<open>K2\<close>

text \<open>
  \<^verbatim>\<open>[\p{Han}]+|[^\r\n\p{L}\p{N}]?[\p{L}&&[^\p{Han}]]+(?i:'s|'t|'re|'ve|'m|'ll|'d)?|...\<close>: the expression that is
  implemented. The one in the comment also distinguishes capital and small letters and counts marks as letters.
\<close>

definition rx_alpha :: "u32 \<Rightarrow> bool" where
  "rx_alpha c \<longleftrightarrow> rx_L c \<and> \<not> unicode_cpt_is_han c"

definition kimi_k2_regex :: "u32 rx" where
  "kimi_k2_regex =
     Alt (Plus unicode_cpt_is_han)
    (Alt (Cat (Opt (Cls rx_lead)) (Cat (Plus rx_alpha) (Opt (rx_contraction any_case))))
         rest_regex)"

definition alpha_word :: "u32 \<Rightarrow> u32 list \<Rightarrow> bool" where
  "alpha_word x ys \<longleftrightarrow> rx_alpha x \<or> rx_lead x \<and> ys \<noteq> [] \<and> rx_alpha (hd ys)"

text \<open>The length of a word: the leading character, the letters and a contraction.\<close>

definition alpha_len :: "u32 \<Rightarrow> u32 list \<Rightarrow> nat" where
  "alpha_len x ys =
     (let m = Suc (length (takeWhile rx_alpha ys)) in m + contraction_len unicode_tolower (drop m (x # ys)))"

lemma match_Opt: "rx_match (Opt r) xs = (case rx_match r xs of None \<Rightarrow> Some xs | Some ys \<Rightarrow> Some ys)"
  by (simp add: rx_match_def first_append split: option.split)

lemma match_alpha:
  "rx_match (Cat (Opt (Cls rx_lead)) (Cat (Plus rx_alpha) (Opt (rx_contraction any_case)))) (x # ys) =
     (if alpha_word x ys then Some (drop (alpha_len x ys) (x # ys)) else None)"
proof -
  have "rx_match (Opt (rx_contraction any_case)) zs = Some (drop (contraction_len unicode_tolower zs) zs)" for zs
    by (simp add: match_Opt any_case_contraction match_contraction)
  then have "rx_match (Cat (Plus rx_alpha) (Opt (rx_contraction any_case))) zs =
      (if zs \<noteq> [] \<and> rx_alpha (hd zs)
       then Some (drop (contraction_len unicode_tolower (dropWhile rx_alpha zs)) (dropWhile rx_alpha zs)) else None)" for zs
    by (cases zs) (auto simp: match_Cat_assoc match_Cls_Cat intro: match_Many_Cat)
  then show ?thesis
    by (cases ys) (auto simp: match_Opt_Cat match_Cls_Cat [of rx_lead] alpha_word_def alpha_len_def Let_def
      dropWhile_eq_drop rx_lead_def rx_alpha_def add.commute)
qed

lemma alpha_len_le: "alpha_len x ys \<le> length (x # ys)"
  using length_takeWhile_le [of rx_alpha ys] contraction_len_le [of unicode_tolower "drop (length (takeWhile rx_alpha ys)) ys"]
  by (simp add: alpha_len_def Let_def)

lemma match_kimi_k2:
  "rx_match kimi_k2_regex (x # ys) =
     (if unicode_cpt_is_han x then Some (dropWhile unicode_cpt_is_han (x # ys))
      else if alpha_word x ys then Some (drop (alpha_len x ys) (x # ys)) else rx_match rest_regex (x # ys))"
  by (simp add: kimi_k2_regex_def match_Alt match_Plus match_alpha)

lemma kimi_k2_digits: "rx_N x \<Longrightarrow> rx_match kimi_k2_regex (x # ys) = rx_match rx_digits (x # ys)"
  using han_not_number [of x] letter_not_number [of x]
  by (auto simp: match_kimi_k2 alpha_word_def rx_alpha_def rx_lead_def rest_digits)

lemma scan_alpha: "chunk_at w pos \<Longrightarrow> scan w (alpha_at w) pos = pos + length (takeWhile rx_alpha (ahead w pos))"
  by (rule scan_ahead) (simp_all add: alpha_at_def rx_alpha_def get_flags_def get_cpt_def)

lemma scan_han:
  "chunk_at w pos \<Longrightarrow> scan w (\<lambda>i. unicode_cpt_is_han (get_cpt w i)) pos = pos + length (takeWhile unicode_cpt_is_han (ahead w pos))"
  by (rule scan_ahead) (simp_all add: get_cpt_def)

text \<open>What one turn of K2 does, on the rest of the chunk.\<close>

lemma kimi_k2_step_ahead:
  assumes w: "chunk_at w pos" "pos < offset_end w" and xs: "ahead w pos = x # ys"
  shows "kimi_k2_step w pos st =
    (if unicode_cpt_is_han x then emit w (pos + length (takeWhile unicode_cpt_is_han (x # ys))) st
     else if alpha_word x ys then emit w (pos + alpha_len x ys) st
     else rest_step (\<lambda>flags flags2. is_other flags2) w pos st)"
proof -
  note here = get_cpt_here [OF w(1) xs] get_flags_here [OF w(1) xs]
  let ?M = "Suc (length (takeWhile rx_alpha ys))"
  have lead: "\<not> (is_crlf x \<or> rx_L x \<or> rx_N x) \<longleftrightarrow> rx_lead x" by (auto simp: rx_lead_def)
  have there: "alpha_at w (pos + 1) \<longleftrightarrow> ys \<noteq> [] \<and> rx_alpha (hd ys)"
    using get_flags_there [OF w(1) xs] get_cpt_ahead [OF w(1), of 1]
    by (auto simp: alpha_at_def rx_alpha_def xs hd_conv_nth)
  have pattern: "(rx_L x \<and> \<not> unicode_cpt_is_han x) \<or> (rx_lead x \<and> alpha_at w (pos + 1)) \<longleftrightarrow> alpha_word x ys"
    by (simp only: alpha_word_def there rx_alpha_def)
  show ?thesis
  proof (cases "\<not> unicode_cpt_is_han x \<and> alpha_word x ys")
    case True
    define pos1 where "pos1 = (if rx_lead x then pos + 1 else pos)"
    have longer: "(pos1 < pos + ?M) = True"
      using True by (cases ys) (auto simp: pos1_def alpha_word_def rx_alpha_def rx_lead_def)
    have pos2: "scan w (alpha_at w) pos1 = pos + ?M"
      using True scan_alpha [OF w(1)] scan_alpha [OF chunk_at_Suc [OF w]]
      by (auto simp: pos1_def alpha_word_def xs ahead_there [OF xs] rx_lead_def rx_alpha_def)
    have at: "chunk_at w (pos + ?M)"
      using chunk_at_add [OF w(1), of ?M] length_takeWhile_le [of rx_alpha ys] by (simp add: xs)
    have ahead: "ahead w (pos + ?M) = dropWhile rx_alpha ys"
      by (simp only: ahead_add xs dropWhile_drop [symmetric])
    have pos3: "scan w (alpha_at w) (pos + ?M) = pos + ?M"
      unfolding scan_alpha [OF at] ahead by (induction ys) auto
    have len: "pos + ?M + contraction unicode_tolower w (pos + ?M) = pos + alpha_len x ys"
      unfolding contraction_ahead [OF at] ahead_add xs by (simp add: alpha_len_def Let_def)
    show ?thesis
      unfolding kimi_k2_step_def Let_def here lead pattern pos1_def [symmetric] pos2 longer if_True pos3 len
      using True by simp
  next
    case False
    then show ?thesis
      unfolding kimi_k2_step_def Let_def here lead pattern scan_han [OF w(1)] xs by auto
  qed
qed

lemma kimi_k2_step_words:
  assumes w: "chunk_at w pos" "pos < offset_end w" "OUT_OF_RANGE \<notin> set (cpts w)" and st: "prev_end st = pos"
  shows "\<exists>ns. kimi_k2_step w pos st =
      Some (pos + sum_list ns, \<lparr> bpe_offsets = bpe_offsets st @ ns, prev_end = pos + sum_list ns \<rparr>) \<and>
    0 < sum_list ns \<and> sum_list ns \<le> length (ahead w pos) \<and>
    rx_words kimi_k2_regex (ahead w pos) = ns @ rx_words kimi_k2_regex (ahead w (pos + sum_list ns))"
proof -
  obtain x ys where xs: "ahead w pos = x # ys" using ahead_Cons [OF w(1,2)] by blast
  note step = kimi_k2_step_ahead [OF w(1,2) xs]
  let ?h = "length (takeWhile unicode_cpt_is_han (x # ys))"
  consider "unicode_cpt_is_han x" | "\<not> unicode_cpt_is_han x" "alpha_word x ys"
    | "\<not> unicode_cpt_is_han x" "\<not> alpha_word x ys" by blast
  then show ?thesis
  proof cases
    case 1
    then show ?thesis using length_takeWhile_le [of unicode_cpt_is_han ys]
      by (intro single_word [OF exI [of _ ?h] w(1) st]) (simp add: step match_kimi_k2 xs dropWhile_eq_drop)
  next
    case 2
    moreover have "0 < alpha_len x ys" by (simp add: alpha_len_def Let_def)
    ultimately show ?thesis using alpha_len_le [of x ys]
      by (intro single_word [OF exI [of _ "alpha_len x ys"] w(1) st]) (simp add: step match_kimi_k2 xs)
  next
    case 3
    then have "\<not> rx_L x" by (auto simp: alpha_word_def rx_alpha_def)
    then show ?thesis
      using 3 rest_step_words [OF w st xs, of "\<lambda>flags flags2. is_other flags2" False kimi_k2_regex] kimi_k2_digits
      by (simp add: step match_kimi_k2)
  qed
qed

interpretation kimi_k2: word_splitter kimi_k2_step kimi_k2_regex
  by unfold_locales (rule kimi_k2_step_words)

section \<open>Correctness of the splitters\<close>

text \<open>A decoded code point has at most 21 bits, so it is never the marker for a position outside the chunk.\<close>

lemma decoded_cpt: "unicode_cpt_from_utf8 utf8 off = Some (Inr (c, off')) \<Longrightarrow> \<not> bit c 31"
  by (auto simp: unicode_cpt_from_utf8_def Let_def bit_simps impossible_bit split: if_splits)

lemma decoded_in_range: "OUT_OF_RANGE \<notin> set (unicode_cpts_from_utf8 utf8)"
proof -
  have "\<forall>c \<in> set (cpts_from_loop utf8 off). \<not> bit c 31" for off
  proof (induction utf8 off rule: cpts_from_loop.induct)
    case (1 utf8 off)
    then show ?case
      by (subst cpts_from_loop.simps) (auto split: option.splits sum.splits dest: decoded_cpt)
  qed
  moreover have "bit OUT_OF_RANGE 31" by (simp add: OUT_OF_RANGE_def)
  ultimately show ?thesis unfolding unicode_cpts_from_utf8_def by blast
qed

lemma sum_rx_words [simp]: "sum_list (rx_words r xs) = length xs"
proof (induction r xs rule: rx_words.induct)
  case (1 r xs)
  then show ?case
    by (subst rx_words.simps) (auto split: option.split)
qed

lemma rx_words_positive: "n \<in> set (rx_words r xs) \<Longrightarrow> 0 < n"
proof (induction r xs rule: rx_words.induct)
  case (1 r xs)
  then show ?case by (subst (asm) (3) rx_words.simps) (auto split: option.splits if_splits)
qed

text \<open>K2 finds the words of its expression without the distinction of letters by case and without marks.\<close>

lemma kimi_k2_matches_regex:
  assumes "sum_list offsets \<le> length (unicode_cpts_from_utf8 utf8)"
  shows "unicode_regex_split_custom_kimi_k2 utf8 offsets = Some (regex_words kimi_k2_regex (unicode_cpts_from_utf8 utf8) offsets)"
  using kimi_k2.chunks_words [of 0] assms decoded_in_range
  by (simp add: unicode_regex_split_custom_kimi_k2_def split_custom_def)

text \<open>C21: The hand-written GPT-2 and LLAMA3 splitters return, without a failed assertion, on every text and every list of
  chunks that lies in it, and the words they cut are exactly those that a backtracking matcher finds in every chunk with
  the regular expression in the comment above the splitter (the case-insensitive contractions of LLAMA3 over the ASCII
  letters, as in the expression of the vocabulary); a character that the expression does not match is a word of its
  own.\<close>

theorem custom_splitters_match_regex:
  assumes "sum_list offsets \<le> length (unicode_cpts_from_utf8 utf8)"
  shows "unicode_regex_split_custom_gpt2 utf8 offsets = Some (regex_words gpt2_regex (unicode_cpts_from_utf8 utf8) offsets) \<and>
    unicode_regex_split_custom_llama3 utf8 offsets = Some (regex_words llama3_regex (unicode_cpts_from_utf8 utf8) offsets)"
  using gpt2.chunks_words [of 0] llama3.chunks_words [of 0] assms decoded_in_range
  by (simp add: unicode_regex_split_custom_gpt2_def unicode_regex_split_custom_llama3_def split_custom_def)

theorem custom_splitters_match_regex_witness:
  "unicode_regex_split_custom_gpt2 [10, 10] [2] = Some [2] \<and> unicode_regex_split_custom_llama3 [10, 10] [2] = Some [2]"
proof -
  have cs: "unicode_cpts_from_utf8 [10, 10] = [10, 10]" by code_simp
  have f: "rx_s 10" "\<not> rx_L 10" "\<not> rx_N 10" using blank_flags [of 10] by simp_all
  have "rx_match gpt2_regex [10, 10] = Some []" "rx_match llama3_regex [10, 10] = Some []"
    using f by (simp_all add: rx_match_def gpt2_regex_def llama3_regex_def rest_regex_def rx_digits_def rx_contraction_def rx_lead_def is_crlf_def any_case_def)
  then have "rx_words gpt2_regex [10, 10] = [2]" "rx_words llama3_regex [10, 10] = [2]" by (simp_all add: rx_words.simps)
  then show ?thesis using custom_splitters_match_regex [of "[2]" "[10, 10]"] by (simp add: cs regex_words_def)
qed

end
