(* ===== verification/Spec2Isabelle.thy ===== *)
theory Spec2Isabelle
  imports WitnessQ4 KvInputs Composite GrammarApply BpeRoundtrip SpmTokenizer UgmTokenizer VocabPieces VocabPartition SmartGuard FileAudit UnicodeSplit
begin

text \<open>
  A verification library for llamaRafaelia, a fork of llama.cpp (C++, under \<^verbatim>\<open>src/\<close>).

  \<^bold>\<open>The program.\<close> A client tokenises a text, puts the tokens into a \<^verbatim>\<open>llama_batch\<close>, and decodes it. The batch
  allocator (\<^verbatim>\<open>src/llama-batch.cpp\<close>) checks the batch against the memory of the context and splits it into
  micro-batches; the memory (\<^verbatim>\<open>src/llama-kv-cache.cpp\<close>, \<^verbatim>\<open>src/llama-memory-recurrent.cpp\<close>, or one made of two
  of them) finds cells for each micro-batch, records which positions of which sequences they hold and writes the
  attention mask; a grammar (\<^verbatim>\<open>src/llama-grammar.cpp\<close>) masks the candidate tokens and is advanced by the
  one that is chosen. The fork adds a prompt guard, an event log and integrity checks of model files under
  \<^verbatim>\<open>common/\<close> and \<^verbatim>\<open>pocs/witness_q4/\<close>. The development follows these parts, each with its data as records and
  datatypes, its operations as executable functions, and \<open>None\<close> or \<open>Inl\<close> for failed assertions, exceptions and
  reads outside an array.

  \<^bold>\<open>Foundations.\<close>
  \<^item> \<open>Prelude\<close>: the words \<open>u8\<close>, \<open>u32\<close>, \<open>u64\<close>, wrap-around of \<^verbatim>\<open>int32_t\<close> (\<open>i32\<close>), lemmas on words, lists and
    option-valued folds.
  \<^item> \<open>CText\<close>: what the text-handling sources use of the C and C++ libraries (\<^verbatim>\<open>std::string::find\<close>, \<^verbatim>\<open>isspace\<close>,
    \<^verbatim>\<open>std::getline\<close>, printing of numbers).
  \<^item> \<open>Utf8\<close>, \<open>BpeBytes\<close>: the encoder and decoders of \<^verbatim>\<open>src/unicode.cpp\<close>, the incremental decoder of the grammar,
    and the byte alphabet of BPE vocabularies, with their round trips.
  \<^item> \<open>UnicodeData\<close>, \<open>UnicodeFlags\<close>: the tables of \<^verbatim>\<open>src/unicode-data.cpp\<close>, entry by entry, and the lookups in them; every
    code point has one category and the tables searched by bisection are ascending.
  \<^item> \<open>RegexMatch\<close>, \<open>UnicodeSplit\<close>: backtracking regular expressions as the reference, and the hand-written word splitters
    of GPT-2, LLAMA3 and K2, which cut a text into the words of their expressions.

  \<^bold>\<open>KV cache.\<close>
  \<^item> \<open>KvCells\<close>: \<^verbatim>\<open>llama_kv_cells\<close> (\<^verbatim>\<open>src/llama-kv-cells.h\<close>). A record of the arrays \<^verbatim>\<open>pos\<close>, \<^verbatim>\<open>ext\<close>, \<^verbatim>\<open>shift\<close>, \<^verbatim>\<open>seq\<close>
    and of the index structures \<^verbatim>\<open>used\<close> and \<^verbatim>\<open>seq_pos\<close>; the invariant \<open>cells_ok\<close> says that the indices agree with
    the arrays, every operation keeps it, and each refines an update of one abstract cell.
  \<^item> \<open>KvCache\<close>, \<open>KvSeqOps\<close>: the streams of cells, \<^verbatim>\<open>seq_rm\<close>, \<^verbatim>\<open>seq_cp\<close>, \<^verbatim>\<open>seq_keep\<close>, \<^verbatim>\<open>seq_add\<close>, \<^verbatim>\<open>seq_div\<close> and the
    position queries, against the positions each sequence holds (\<open>kv_positions\<close>).
  \<^item> \<open>KvSlots\<close>, \<open>KvPlace\<close>, \<open>KvPrepare\<close>: \<^verbatim>\<open>find_slot\<close> returns, and finds a slot exactly when there is one;
    \<^verbatim>\<open>apply_ubatch\<close> places the tokens and keeps sequences free of holes; the dry run \<^verbatim>\<open>prepare\<close> restores the cells.
  \<^item> \<open>KvInputs\<close>: \<^verbatim>\<open>get_n_kv\<close> and the attention mask.

  \<^bold>\<open>Other memories.\<close>
  \<^item> \<open>Recurrent\<close>, \<open>RecurrentOps\<close>, \<open>RecurrentSlot\<close>, \<open>RecurrentPlace\<close>: cells with one state each, the tails of the
    sequences, \<^verbatim>\<open>find_slot\<close> with its swaps and staged copies of states.
  \<^item> \<open>Composite\<close>: the hybrid memory and the pair of caches with and without a sliding window.
  \<^item> \<open>SeqMemory\<close>: the interface \<^verbatim>\<open>llama_memory_i\<close> as a locale, interpreted on both memories.

  \<^bold>\<open>Batches.\<close> \<open>Batch\<close> has the allocator with \<^verbatim>\<open>init\<close> and the splitters \<^verbatim>\<open>split_simple\<close>, \<^verbatim>\<open>split_equal\<close>,
  \<^verbatim>\<open>split_seq\<close>; \<open>BatchInit\<close> shows what an accepted batch satisfies and that the micro-batches partition it. The
  theorem below joins it with the KV cache.

  \<^bold>\<open>Grammars.\<close>
  \<^item> \<open>Grammar\<close>: elements, stacks, \<^verbatim>\<open>advance_stack\<close>, \<^verbatim>\<open>accept\<close>, \<^verbatim>\<open>reject_candidates\<close>; \<open>GrammarLang\<close>: the language of a
    grammar as inductive derivations, the moves of the machine, and what the results of the engine mean in it.
  \<^item> \<open>GrammarRec\<close>, \<open>GrammarTerm\<close>: the search of the left-recursion check; left recursion from the language alone
    (\<open>left_recursive\<close>), and that the engine returns on well-formed rules without it.
  \<^item> \<open>GrammarTotal\<close>: the engine and the rejection of candidates return and are correct on such rules; the check refuses
    only left-recursive grammars, and all of them when nullable rules have an empty alternate.
  \<^item> \<open>GrammarParse\<close>, \<open>GrammarParseOk\<close>: the GBNF parser returns, and what it accepts is well-formed.
  \<^item> \<open>GrammarApply\<close>: the grammar object, masking of candidates and acceptance of tokens.

  \<^bold>\<open>Tokenizers\<close> (\<^verbatim>\<open>src/llama-vocab.cpp\<close>).
  \<^item> \<open>Vocab\<close>: the vocabulary as a record, its lookups, byte tokens and merge ranks.
  \<^item> \<open>VocabPieces\<close>: \<^verbatim>\<open>token_to_piece\<close> and \<^verbatim>\<open>detokenize\<close> with their buffers; they never write outside, and a
    negative result is enough room for a second call. \<open>VocabPartition\<close>: \<^verbatim>\<open>tokenizer_st_partition\<close>, the cutting of a
    text at its special tokens.
  \<^item> \<open>SymbolMerge\<close>: the array of linked symbols that the SPM and BPE tokenizers share, its invariant \<open>chain_ok\<close>, and
    when a work queue that also holds stale pairs is sound and complete for it; \<open>GreedyMerge\<close>: the reference
    algorithm and the contract of the priority queue; \<open>MergeSession\<close>: what a session adds to them, and that a session
    that meets the contract computes the reference.
  \<^item> \<open>BpeTokenizer\<close>, \<open>SpmTokenizer\<close>: the two sessions, as instances of the contract, with their output loops;
    \<open>BpeRoundtrip\<close>: decoding the tokens of a BPE session gives the text back.
  \<^item> \<open>UgmTokenizer\<close>: the unigram tokenizer with its normaliser over a compressed double array; its search finds
    a segmentation of greatest score. \<open>RwkvTokenizer\<close>: the trie and the greedy tokenizer over it.

  \<^bold>\<open>Guard, log and integrity.\<close>
  \<^item> \<open>SynonymNormalizer\<close>, \<open>SmartGuard\<close>: the normal form of a prompt and the verdicts of the guard, also in the
    server's completion handler.
  \<^item> \<open>BitstackLog\<close>: the event log and that what is written can be read back.
  \<^item> \<open>Checksum\<close>, \<open>Crc32c\<close>, \<open>WitnessQ4\<close>, \<open>FileAudit\<close>: the contract of an incremental checksum as a locale,
    CRC-32C with its lookup table as an explicit global, the witnesses of quantised blocks and of model files, and
    which corruptions they detect.

  \<^bold>\<open>Interfaces.\<close> Locales state what one part relies on: \<open>seq_memory\<close> (interpreted on the KV cache and on the recurrent
  memory), \<open>splitter\<close> (on the three batch splitters), the checksum locales (on CRC-32C and on the hash of the guard),
  \<open>priority_order\<close> (on the comparators of the two queues), \<open>merge_session\<close> (on the BPE and SPM sessions), \<open>string_map\<close>
  (on the trie), \<open>word_splitter\<close> (on the three splitters). Code outside the repository is a parameter: the JSON library of
  the guard is a record of operations, files are functions from paths to contents, the clock is an argument.

  \<^bold>\<open>Loops and fuel.\<close> Loops that always end are functions with a termination measure. Where the source can run
  forever the model has fuel: \<open>advance_stack\<close> and what calls it (shown to return with every large enough bound, on
  well-formed rules without left recursion), the code points followed by \<open>reject_candidates\<close> (one more than the longest
  candidate is enough), the left-recursion check
  (bounded by the number of rules, shown to be enough), the outer loop of the RWKV
  tokenizer (one turn per character is enough when single characters are tokens), the loops that follow links
  (the output of the merging tokenizers and their resegmentation, bounded by the number of symbols; the way back of the
  unigram search, bounded by the text), and the cutting of a text at special tokens (one turn per byte and one more; every
  turn that does not stop moves a fragment's offset). Theorems about these functions say that the result exists; the postcondition of
  the constructor \<open>llama_grammar_init_impl\<close> alone speaks of a grammar that was made.

  \<^bold>\<open>Machine integers.\<close> Bytes, code points, checksums and hashes are words and wrap. Positions, token ids and sizes are
  integers and natural numbers. Where the code adds to or subtracts from a position (\<^verbatim>\<open>pos_add\<close>, \<^verbatim>\<open>pos_div\<close>, the shifts of
  copied cells, the contiguity check of \<^verbatim>\<open>init\<close>, the window of \<^verbatim>\<open>is_masked_swa\<close>, \<^verbatim>\<open>seq_add\<close> of the recurrent memory) the
  result wraps at 32 bits, and the theorems ask for positions in range; the next position of a sequence in \<^verbatim>\<open>find_slot\<close> and
  the bias of the attention mask are exact (cached positions are taken to be below \<^verbatim>\<open>INT32_MAX\<close> there). Token scores are real numbers; where the
  code rounds, the rounded operation is an argument and the theorem names the law it needs.

  \<^bold>\<open>Not modelled.\<close> Tensor kernels, graphs, quantisation and samplers (floating point and the vendored ggml library);
  loading of models and vocabularies (the GGUF reader works on files and ggml types); saving and restoring of
  memory states (I/O over the backends' tensors); the splitting by \<^verbatim>\<open>std::regex\<close> that
  \<^verbatim>\<open>src/unicode.cpp\<close> uses for expressions without a hand-written splitter; failing writes of the event log
  (\<^verbatim>\<open>fwrite\<close> and \<^verbatim>\<open>fputc\<close> are taken to succeed); the JSON-schema converter, command
  lines and HTTP server apart from the guard (third-party libraries and I/O); the C and assembly layers.
\<close>

text \<open>C13: When \<^verbatim>\<open>llama_batch_allocr::init\<close> accepts a batch, with positions that are not negative and below
  \<^verbatim>\<open>INT32_MAX\<close>, against a KV cache with 32-bit positions and one position per token, the positions it adds to a
  sequence are all larger than the cached ones, without gaps among themselves, and adjacent to the last
  cached position: storing the batch keeps the sequence free of holes from that position on.\<close>

theorem accepted_batch_extends_kv_cache:
  assumes "kv_ok kv" and "valid_seq kv (int s)"
    and "batch_init b0 nv (Some (memory_of kv_seq_pos_min kv_seq_pos_max kv)) ne ns oa a0 = Some (True, a)"
    and "length (ba_seq_pos a0) = LLAMA_MAX_SEQ" and "ba_n_pos_per_embd a0 \<le> 1" and "s < ns"
    and "P = {the (b_pos (ba_batch a)) ! i | i. i < b_n_tokens b0 \<and> s \<in> nat ` set (seqs_of (ba_batch a) i)}"
    and "P \<noteq> {}" and "\<And>p. p \<in> P \<Longrightarrow> 0 \<le> p \<and> p < 2147483647"
    and "\<And>q. q \<in> kv_positions kv (int s) \<Longrightarrow> q \<le> 2147483647"
  shows "(\<forall>q \<in> kv_positions kv (int s). \<forall>p \<in> P. q < p) \<and>
    (kv_positions kv (int s) \<noteq> {} \<longrightarrow> {Max (kv_positions kv (int s))..Max P} \<subseteq> kv_positions kv (int s) \<union> P) \<and>
    P = {Min P..Max P}"
  by (rule kv_mem.accepted_batch_extends [OF assms])

theorem accepted_batch_extends_kv_cache_witness:
  "\<exists>kv a P. kv_ok kv \<and> kv_positions kv 0 = {7} \<and>
    batch_init (llama_batch_get_one [5, 6]) 10 (Some (memory_of kv_seq_pos_min kv_seq_pos_max kv)) 1 2 False (batch_allocr 1)
      = Some (True, a) \<and>
    P = {the (b_pos (ba_batch a)) ! i | i. i < 2 \<and> 0 \<in> nat ` set (seqs_of (ba_batch a) i)} \<and>
    8 \<in> P \<and> (\<forall>p \<in> P. 7 < p) \<and> P = {Min P..Max P}"
proof -
  obtain kv where kv: "kv_ok kv" "kc_seq_to_stream kv = replicate LLAMA_MAX_SEQ 0"
    "abs_kv kv = [[demo_cell, free_cell ext_reset]]" using demo_kv [of True] by auto
  let ?m = "memory_of kv_seq_pos_min kv_seq_pos_max kv"
  have v: "valid_seq kv (int s)" if "s < 2" for s using that kv(2) by (simp add: valid_seq_def)
  have p0: "kv_positions kv 0 = {7}" and p1: "kv_positions kv 1 = {}"
    using kv(2,3) by (force simp: kv_positions_def free_cell_def)+
  have m0: "mem_max (Some ?m) 0 = Some 7" and m1: "mem_max (Some ?m) 1 = Some (-1)"
    using kv_mem.pos_max_law [OF kv(1) v, of 0] kv_mem.pos_max_law [OF kv(1) v, of 1] p0 p1
    by (simp_all add: mem_max_def memory_of_def)
  have "mem_max (Some ?m) s \<noteq> None" if "s < 2" for s using that m0 m1 by (auto simp: less_2_cases_iff)
  from batch_init_get_one [of "[5, 6]" 10 2 "batch_allocr 1" "Some ?m" 7 1 False, OF _ _ _ _ _ _ this m0]
  obtain a where a: "batch_init (llama_batch_get_one [5, 6]) 10 (Some ?m) 1 2 False (batch_allocr 1) = Some (True, a)"
    and b: "b_pos (ba_batch a) = Some [8, 9]" "\<forall>i < 2. seqs_of (ba_batch a) i = [0]"
    by (auto simp: batch_allocr_def upt_rec)
  define P where "P = {the (b_pos (ba_batch a)) ! i | i. i < 2 \<and> 0 \<in> nat ` set (seqs_of (ba_batch a) i)}"
  have e: "8 \<in> P" using b by (auto simp: P_def intro!: exI [of _ 0])
  have v0: "valid_seq kv (int 0)" using v [of 0] by simp
  have "(\<forall>q \<in> kv_positions kv (int 0). \<forall>p \<in> P. q < p) \<and>
    (kv_positions kv (int 0) \<noteq> {} \<longrightarrow> {Max (kv_positions kv (int 0))..Max P} \<subseteq> kv_positions kv (int 0) \<union> P) \<and>
    P = {Min P..Max P}"
  proof (rule accepted_batch_extends_kv_cache [OF kv(1) v0 a])
    show "P = {the (b_pos (ba_batch a)) ! i |i. i < b_n_tokens (llama_batch_get_one [5, 6]) \<and> 0 \<in> nat ` set (seqs_of (ba_batch a) i)}"
      by (simp add: P_def llama_batch_get_one_def numeral_2_eq_2)
    show "0 \<le> p \<and> p < 2147483647" if "p \<in> P" for p
      using that b(1) by (auto simp: P_def less_2_cases_iff)
  qed (use e p0 in \<open>auto simp: batch_allocr_def\<close>)
  then show ?thesis using kv(1) p0 a e P_def by auto
qed

end
